(* ===== verification/AMQ_Prelude.thy ===== *)
theory AMQ_Prelude
  imports Main "HOL-Library.Word"
begin

text \<open>
  Shared vocabulary of the development: the machine types of the 32-bit build, the
  exceptions the code throws and catches, the outcome of a call, and the generic facts
  on lists, sets and words that the component theories use.
\<close>

section \<open>Types\<close>

text \<open>
  The program is built for i686 (README.md), where \<^verbatim>\<open>unsigned int\<close> and
  \<^verbatim>\<open>std::string::size_type\<close> are both 32 bits wide.  Pointers and library
  handles are addresses; a pointer that may be NULL is an \<open>addr option\<close>.
\<close>

type_synonym u32 = "32 word"
type_synonym addr = nat

text \<open>\<^verbatim>\<open>std::string::npos\<close>, also after its conversion to \<^verbatim>\<open>unsigned int\<close>.\<close>

definition npos :: u32 where
  "npos = - 1"

text \<open>
  The exception classes named in a \<^verbatim>\<open>catch\<close> clause of the program and those its containers
  throw, each with the text of \<^verbatim>\<open>getMessage()\<close>; anything else is \<open>OtherException\<close>.
\<close>

datatype container_error =
    IllegalState
  | IndexOutOfBounds
  | NoSuchElement
  | ConcurrentModification
  | UnsupportedOperation

datatype exn =
    CMSException string
  | IllegalArgumentException string
  | NullPointerException string
  | RejectedExecutionException string
  | InterruptedException string
  | ContainerException container_error string
  | OtherException string

abbreviation IllegalStateException :: "string \<Rightarrow> exn" where
  "IllegalStateException \<equiv> ContainerException IllegalState"

abbreviation IndexOutOfBoundsException :: "string \<Rightarrow> exn" where
  "IndexOutOfBoundsException \<equiv> ContainerException IndexOutOfBounds"

abbreviation NoSuchElementException :: "string \<Rightarrow> exn" where
  "NoSuchElementException \<equiv> ContainerException NoSuchElement"

abbreviation ConcurrentModificationException :: "string \<Rightarrow> exn" where
  "ConcurrentModificationException \<equiv> ContainerException ConcurrentModification"

abbreviation UnsupportedOperationException :: "string \<Rightarrow> exn" where
  "UnsupportedOperationException \<equiv> ContainerException UnsupportedOperation"

text \<open>
  How a C++ call ends: it returns, an exception leaves it, or it has undefined
  behaviour (a member call through a NULL pointer, a second \<^verbatim>\<open>delete\<close>, an access to freed
  memory or beyond the end of an object, a loop over a cyclic list, which does nothing else and
  never ends, a conversion of a \<^verbatim>\<open>float\<close> that no \<^verbatim>\<open>int\<close> can hold).
\<close>

datatype fault = NullDereference | DoubleDelete | UseAfterFree | OutOfBounds | InfiniteLoop | ConversionOverflow

datatype 'a outcome = Ret 'a | Throw exn | Undefined fault

text \<open>A call followed by the rest of a function, which an exception skips.\<close>

fun and_then :: "'a outcome \<times> 's \<Rightarrow> ('a \<Rightarrow> 's \<Rightarrow> 'b outcome \<times> 's) \<Rightarrow> 'b outcome \<times> 's" where
  "and_then (Ret v, s) rest = rest v s"
| "and_then (Throw x, s) rest = (Throw x, s)"
| "and_then (Undefined f, s) rest = (Undefined f, s)"

lemma and_then_assoc: "and_then (and_then r f) g = and_then r (\<lambda>v s. and_then (f v s) g)"
proof (cases r)
  case (Pair v s)
  then show ?thesis by (cases v) simp_all
qed

section \<open>Generic lemmas\<close>

named_theorems amq_defs "definitions unfolded by the component proofs"
named_theorems amq_frame "fields an operation leaves unchanged"

text \<open>Counting the set bits of a bit set: inserting a fresh element, removing a present one.\<close>

lemma card_insert_fresh: "finite A \<Longrightarrow> x \<notin> A \<Longrightarrow> card (insert x A) = Suc (card A)"
  by simp

lemma card_remove_member: "finite A \<Longrightarrow> x \<in> A \<Longrightarrow> Suc (card (A - {x})) = card A"
  by (rule card_Suc_Diff1)

lemma card_bounded_le: "A \<subseteq> {..<n::nat} \<Longrightarrow> card A \<le> n"
  using card_mono [of "{..<n}" A] by simp

lemma subset_full_iff:
  assumes "A \<subseteq> {..<n::nat}"
  shows "card A < n \<longleftrightarrow> (\<exists>i < n. i \<notin> A)"
proof
  assume "card A < n"
  then have "A \<noteq> {..<n}" by auto
  with assms show "\<exists>i < n. i \<notin> A" by auto
next
  assume "\<exists>i < n. i \<notin> A"
  then obtain i where "i < n" "i \<notin> A" by blast
  with assms have "A \<subset> {..<n}" by auto
  then have "card A < card {..<n}" by (intro psubset_card_mono) auto
  then show "card A < n" by simp
qed

text \<open>The elements of a part of a list.\<close>

lemma in_set_slice:
  assumes "x \<in> set (take k (drop n xs))"
  obtains i where "n \<le> i" and "i < n + k" and "i < length xs" and "x = xs ! i"
proof -
  obtain j where j: "j < length (take k (drop n xs))" "x = take k (drop n xs) ! j" using assms by (metis in_set_conv_nth)
  then show thesis by (intro that [of "n + j"]) auto
qed

text \<open>Words and their values.\<close>

lemma unat_npos: "unat npos = 2 ^ 32 - 1"
  by (simp add: npos_def unsigned_minus_1_eq_mask mask_eq_exp_minus_1)

lemma u32_le_npos: "x \<le> npos"
  by (simp add: npos_def)

lemma unat_of_nat_u32: "n < 2 ^ 32 \<Longrightarrow> unat (of_nat n :: u32) = n"
  by (simp add: unsigned_of_nat take_bit_nat_eq_self)

lemma unat_inc_u32: "unat (x::u32) < 2 ^ 32 - 1 \<Longrightarrow> unat (x + 1) = Suc (unat x)"
  by (simp add: unat_word_ariths)

lemma unat_dec_u32: "0 < (x::u32) \<Longrightarrow> unat (x - 1) = unat x - 1"
  by (simp add: unat_minus_one word_gt_0)

section \<open>Step systems\<close>

text \<open>
  Several components are state machines whose steps are taken by an unknown scheduler or
  client.  An invariant that holds at the start and is kept by every step holds in every
  reachable state.
\<close>

locale step_system =
  fixes init :: "'s \<Rightarrow> bool"
    and step :: "'s \<Rightarrow> 's \<Rightarrow> bool"
    and invar :: "'s \<Rightarrow> bool"
  assumes invar_init: "init s \<Longrightarrow> invar s"
    and invar_step: "invar s \<Longrightarrow> step s t \<Longrightarrow> invar t"
begin

lemma invar_steps: "step\<^sup>*\<^sup>* s t \<Longrightarrow> invar s \<Longrightarrow> invar t"
  by (induction rule: rtranclp_induct) (auto intro: invar_step)

lemma invar_reachable: "init s \<Longrightarrow> step\<^sup>*\<^sup>* s t \<Longrightarrow> invar t"
  by (rule invar_steps) (auto intro: invar_init)

end

end
