(* ===== verification/CMS_Interface.thy ===== *)
theory CMS_Interface
  imports AMQ_Prelude
begin

text \<open>
  The boundary of the program.  The ActiveMQ-CPP and decaf classes it calls are declared
  in the bundled headers but their bodies are in a library that is not part of the
  repository, so every such call is an event of a trace and its answer is a parameter:
  a function of the calls made so far, the new one included.  Any sequential behaviour of
  the library is such a family of functions; nothing is assumed of it here.

  A trace holds the newest call first.
\<close>

section \<open>The enumerations of the CMS API\<close>

datatype acknowledge_mode =
    AUTO_ACKNOWLEDGE | DUPS_OK_ACKNOWLEDGE | CLIENT_ACKNOWLEDGE
  | SESSION_TRANSACTED | INDIVIDUAL_ACKNOWLEDGE

datatype delivery_mode = PERSISTENT | NON_PERSISTENT

datatype ACK_RESULT = QUEUE_REMOVE | QUEUE_RETRY

section \<open>Calls out of the program\<close>

text \<open>
  The arguments are the receiver's handle first and then the C++ arguments.  \<open>DeleteX\<close>
  is the \<^verbatim>\<open>delete\<close> of a library object, \<open>Process\<close> the call of the user's task
  with its task id (\<open>None\<close> while it is not initialised) and the text, \<open>Printf\<close> a line on standard output (its format string and
  its string arguments, without the newline; the \<^verbatim>\<open>this\<close> addresses printed with it are left out).
\<close>

datatype (plugins only: code size) call =
    CreateConnection string
  | GetRedeliveryPolicy addr
  | SetMaximumRedeliveries addr int
  | SetRedeliveryDelay addr int
  | SetInitialRedeliveryDelay addr int
  | StartConnection addr
  | CloseConnection addr
  | DeleteConnection addr
  | NewResourceLifecycleManager
  | AddConnection addr "addr option"
  | DeleteResourceLifecycleManager addr
  | NewSessionPool "addr option" acknowledge_mode addr
  | TakeSession addr
  | CloseSession addr
  | Recover addr
  | CreateTopic addr string
  | CreateQueue addr string
  | DeleteDestination addr
  | CreateCachedProducer addr addr
  | SetDeliveryMode addr delivery_mode
  | CreateTextMessage addr string
  | Send addr "addr option"
  | DeleteMessage addr
  | CreateCachedConsumer addr addr string bool
  | Receive addr int
  | IsTextMessage addr
  | GetText addr
  | Acknowledge addr
  | Process "int option" string
  | IsRun
  | NewThreadPoolExecutor int int int
  | Execute addr addr
  | Shutdown addr
  | ShutdownNow addr
  | AwaitTermination addr int
  | IsShutdown addr
  | DeleteThreadPoolExecutor addr
  | Printf string "string list"

type_synonym trace = "call list"

text \<open>
  What the library answers.  A call that is documented to throw answers with a sum; a
  pointer the code compares with NULL is an \<open>addr option\<close>.  \<open>new_array\<close> says
  whether \<^verbatim>\<open>new T[n]\<close> succeeds or with which text \<^verbatim>\<open>std::bad_alloc\<close> is thrown.
\<close>

record env =
  new_array :: "nat \<Rightarrow> string option"
  create_connection :: "trace \<Rightarrow> exn + addr"
  is_amq_connection :: "addr \<Rightarrow> bool"
  get_redelivery_policy :: "trace \<Rightarrow> addr option"
  start_connection :: "trace \<Rightarrow> exn option"
  close_connection :: "trace \<Rightarrow> exn option"
  new_resource_manager :: "trace \<Rightarrow> addr option"
  add_connection :: "trace \<Rightarrow> exn option"
  new_session_pool :: "trace \<Rightarrow> exn + addr"
  take_session :: "trace \<Rightarrow> exn + addr option"
  close_session :: "trace \<Rightarrow> exn option"
  recover_session :: "trace \<Rightarrow> exn option"
  create_destination :: "trace \<Rightarrow> exn + addr"
  delete_destination :: "trace \<Rightarrow> exn option"
  create_cached_producer :: "trace \<Rightarrow> exn + addr"
  set_delivery_mode :: "trace \<Rightarrow> exn option"
  create_text_message :: "trace \<Rightarrow> exn + addr option"
  send :: "trace \<Rightarrow> exn option"
  create_cached_consumer :: "trace \<Rightarrow> exn + addr"
  receive :: "trace \<Rightarrow> exn + addr option"
  is_text_message :: "addr \<Rightarrow> bool"
  get_text :: "trace \<Rightarrow> exn + string"
  acknowledge :: "trace \<Rightarrow> exn option"
  process :: "trace \<Rightarrow> exn + ACK_RESULT"
  isrun_flag :: "trace \<Rightarrow> bool"
  new_executor :: "trace \<Rightarrow> exn + addr"
  execute :: "trace \<Rightarrow> exn option"
  await_termination :: "trace \<Rightarrow> exn + bool"
  is_shutdown :: "trace \<Rightarrow> bool"

text \<open>An environment in which every call succeeds, for witnesses.\<close>

definition good_env :: env where
  "good_env = \<lparr>
     new_array = (\<lambda>_. None),
     create_connection = (\<lambda>_. Inr 1),
     is_amq_connection = (\<lambda>_. True),
     get_redelivery_policy = (\<lambda>_. Some 2),
     start_connection = (\<lambda>_. None),
     close_connection = (\<lambda>_. None),
     new_resource_manager = (\<lambda>_. Some 3),
     add_connection = (\<lambda>_. None),
     new_session_pool = (\<lambda>_. Inr 4),
     take_session = (\<lambda>_. Inr (Some 5)),
     close_session = (\<lambda>_. None),
     recover_session = (\<lambda>_. None),
     create_destination = (\<lambda>_. Inr 6),
     delete_destination = (\<lambda>_. None),
     create_cached_producer = (\<lambda>_. Inr 7),
     set_delivery_mode = (\<lambda>_. None),
     create_text_message = (\<lambda>_. Inr (Some 8)),
     send = (\<lambda>_. None),
     create_cached_consumer = (\<lambda>_. Inr 9),
     receive = (\<lambda>_. Inr (Some 10)),
     is_text_message = (\<lambda>_. True),
     get_text = (\<lambda>_. Inr ''hello''),
     acknowledge = (\<lambda>_. None),
     process = (\<lambda>_. Inr QUEUE_REMOVE),
     isrun_flag = (\<lambda>tr. length tr < 20),
     new_executor = (\<lambda>_. Inr 11),
     execute = (\<lambda>_. None),
     await_termination = (\<lambda>_. Inr True),
     is_shutdown = (\<lambda>_. False) \<rparr>"

lemma good_env_simps [simp]:
  "new_array good_env n = None"
  "create_connection good_env tr = Inr 1"
  "is_amq_connection good_env a = True"
  "get_redelivery_policy good_env tr = Some 2"
  "start_connection good_env tr = None"
  "close_connection good_env tr = None"
  "new_resource_manager good_env tr = Some 3"
  "add_connection good_env tr = None"
  "new_session_pool good_env tr = Inr 4"
  "take_session good_env tr = Inr (Some 5)"
  "close_session good_env tr = None"
  "recover_session good_env tr = None"
  "create_destination good_env tr = Inr 6"
  "delete_destination good_env tr = None"
  "create_cached_producer good_env tr = Inr 7"
  "set_delivery_mode good_env tr = None"
  "create_text_message good_env tr = Inr (Some 8)"
  "send good_env tr = None"
  "create_cached_consumer good_env tr = Inr 9"
  "receive good_env tr = Inr (Some 10)"
  "is_text_message good_env a = True"
  "get_text good_env tr = Inr ''hello''"
  "acknowledge good_env tr = None"
  "process good_env tr = Inr QUEUE_REMOVE"
  "isrun_flag good_env tr = (length tr < 20)"
  "new_executor good_env tr = Inr 11"
  "execute good_env tr = None"
  "await_termination good_env tr = Inr True"
  "is_shutdown good_env tr = False"
  by (simp_all add: good_env_def)

section \<open>Resource accounting over traces\<close>

text \<open>
  What a trace has allocated, released and delivered, as sums over its calls.  Each call
  contributes a difference that may depend on the answer the environment gave to it.
\<close>

primrec tally :: "(call \<Rightarrow> trace \<Rightarrow> int) \<Rightarrow> trace \<Rightarrow> int" where
  "tally f [] = 0"
| "tally f (c # tr) = f c (c # tr) + tally f tr"

definition sent_delta :: "env \<Rightarrow> call \<Rightarrow> trace \<Rightarrow> int" where
  "sent_delta E c tr = (case c of Send _ _ \<Rightarrow> if send E tr = None then 1 else 0 | _ \<Rightarrow> 0)"

definition message_delta :: "env \<Rightarrow> call \<Rightarrow> trace \<Rightarrow> int" where
  "message_delta E c tr =
     (case c of
        CreateTextMessage _ _ \<Rightarrow> (case create_text_message E tr of Inr (Some _) \<Rightarrow> 1 | _ \<Rightarrow> 0)
      | Receive _ _ \<Rightarrow> (case receive E tr of Inr (Some _) \<Rightarrow> 1 | _ \<Rightarrow> 0)
      | DeleteMessage _ \<Rightarrow> - 1
      | _ \<Rightarrow> 0)"

definition session_delta :: "env \<Rightarrow> call \<Rightarrow> trace \<Rightarrow> int" where
  "session_delta E c tr =
     (case c of
        TakeSession _ \<Rightarrow> (case take_session E tr of Inr (Some _) \<Rightarrow> 1 | _ \<Rightarrow> 0)
      | CloseSession _ \<Rightarrow> - 1
      | _ \<Rightarrow> 0)"

text \<open>
  Messages the broker has accepted, message objects not yet deleted, sessions taken from a
  session pool and not yet given back.
\<close>

definition accepted :: "env \<Rightarrow> trace \<Rightarrow> int" where
  "accepted E = tally (sent_delta E)"

definition live_messages :: "env \<Rightarrow> trace \<Rightarrow> int" where
  "live_messages E = tally (message_delta E)"

definition open_sessions :: "env \<Rightarrow> trace \<Rightarrow> int" where
  "open_sessions E = tally (session_delta E)"

lemma accepted_Nil [simp]: "accepted E [] = 0"
  by (simp add: accepted_def)

lemma live_messages_Nil [simp]: "live_messages E [] = 0"
  by (simp add: live_messages_def)

lemma open_sessions_Nil [simp]: "open_sessions E [] = 0"
  by (simp add: open_sessions_def)

lemma accepted_Cons [simp]: "accepted E (c # tr) = sent_delta E c (c # tr) + accepted E tr"
  by (simp add: accepted_def)

lemma live_messages_Cons [simp]:
  "live_messages E (c # tr) = message_delta E c (c # tr) + live_messages E tr"
  by (simp add: live_messages_def)

lemma open_sessions_Cons [simp]:
  "open_sessions E (c # tr) = session_delta E c (c # tr) + open_sessions E tr"
  by (simp add: open_sessions_def)

lemmas delta_defs = sent_delta_def message_delta_def session_delta_def

text \<open>The exceptions the program is written for: those of the CMS interface.\<close>

definition cms :: "exn \<Rightarrow> bool" where
  "cms x = (case x of CMSException _ \<Rightarrow> True | _ \<Rightarrow> False)"

lemma cms_simps [simp]:
  "cms (CMSException e)" "\<not> cms (IllegalArgumentException e)" "\<not> cms (NullPointerException e)"
  "\<not> cms (RejectedExecutionException e)" "\<not> cms (InterruptedException e)" "\<not> cms (OtherException e)"
  "\<not> cms (ContainerException k e)"
  by (simp_all add: cms_def)

end
