(* ===== verification/Producer.thy ===== *)
theory Producer
  imports CMS_Interface
begin

text \<open>
  \<^verbatim>\<open>CDSAMQProducer\<close> (DSAMQProducer.h, DSAMQProducer.cpp): one reusable sender.  It keeps the
  destination it created on its first message, the connection settings, the text of its last
  error and its position in the producer pool.
\<close>

section \<open>State\<close>

record producer =
  p_destination :: "addr option"
  p_usetopic :: bool
  p_clientack :: bool
  p_brokerURI :: string
  p_destURI :: string
  p_error :: string
  p_position :: u32

section \<open>Operations\<close>

definition new_producer :: producer where
  "new_producer = \<lparr>p_destination = None, p_usetopic = False, p_clientack = True,
     p_brokerURI = '''', p_destURI = '''', p_error = '''', p_position = npos\<rparr>"

definition new_producer_uri :: "string \<Rightarrow> string \<Rightarrow> bool \<Rightarrow> bool \<Rightarrow> producer" where
  "new_producer_uri brokerURI destURI useTopic clientAck =
     \<lparr>p_destination = None, p_usetopic = useTopic, p_clientack = clientAck,
      p_brokerURI = brokerURI, p_destURI = destURI, p_error = '''', p_position = npos\<rparr>"

definition setIndex :: "u32 \<Rightarrow> producer \<Rightarrow> producer" where
  "setIndex nposition p = p\<lparr>p_position := nposition\<rparr>"

definition getIndex :: "producer \<Rightarrow> u32" where
  "getIndex p = p_position p"

definition setURIInfo :: "string \<Rightarrow> string \<Rightarrow> bool \<Rightarrow> bool \<Rightarrow> producer \<Rightarrow> producer" where
  "setURIInfo brokerURI destURI useTopic clientAck p =
     p\<lparr>p_brokerURI := brokerURI, p_destURI := destURI,
       p_usetopic := useTopic, p_clientack := clientAck\<rparr>"

definition producer_getlasterror :: "producer \<Rightarrow> string" where
  "producer_getlasterror p = p_error p"

text \<open>
  \<^verbatim>\<open>cleanup\<close>.  In the handler the first assignment \<^verbatim>\<open>m_strError += "|"\<close> is overwritten by
  \<^verbatim>\<open>m_strError = e.getMessage()\<close>; only a \<^verbatim>\<open>CMSException\<close> is caught.
\<close>

definition producer_cleanup :: "env \<Rightarrow> producer \<Rightarrow> trace \<Rightarrow> unit outcome \<times> producer \<times> trace" where
  "producer_cleanup E p0 tr0 =
     (let p = p0\<lparr>p_error := ''producer cleanup''\<rparr>;
          finish = (\<lambda>q tr. (Ret (), q\<lparr>p_destination := None,
                       p_error := (p_error q @ ''|'') @ ''complete''\<rparr>, tr))
      in case p_destination p of
           None \<Rightarrow> finish p tr0
         | Some d \<Rightarrow>
             (let tr = DeleteDestination d # tr0 in
              case delete_destination E tr of
                None \<Rightarrow> finish p tr
              | Some (CMSException e) \<Rightarrow> finish (p\<lparr>p_error := e\<rparr>) tr
              | Some x \<Rightarrow> (Throw x, p, tr)))"

definition producer_close :: "env \<Rightarrow> producer \<Rightarrow> trace \<Rightarrow> unit outcome \<times> producer \<times> trace" where
  "producer_close E p tr = producer_cleanup E p tr"

text \<open>\<^verbatim>\<open>~CDSAMQProducer\<close>: the object is gone afterwards, so only the trace is left.\<close>

definition producer_destroy :: "env \<Rightarrow> producer \<Rightarrow> trace \<Rightarrow> unit outcome \<times> trace" where
  "producer_destroy E p tr = (case producer_cleanup E p tr of (r, _, tr') \<Rightarrow> (r, tr'))"

text \<open>
  \<^verbatim>\<open>sendmessage\<close> in four parts: creating the destination on the first call, the two inner
  \<^verbatim>\<open>try\<close> blocks, the outer \<^verbatim>\<open>try\<close> body (\<open>Inl\<close> is an exception that reaches the outer handler),
  and the whole function.
\<close>

definition ensure_destination :: "env \<Rightarrow> producer \<Rightarrow> addr \<Rightarrow> trace \<Rightarrow> (exn + addr) \<times> producer \<times> trace" where
  "ensure_destination E p session tr0 =
     (case p_destination p of
        Some d \<Rightarrow> (Inr d, p, tr0)
      | None \<Rightarrow>
          (let tr = (if p_usetopic p then CreateTopic session (p_destURI p)
                     else CreateQueue session (p_destURI p)) # tr0
           in case create_destination E tr of
                Inl x \<Rightarrow> (Inl x, p, tr)
              | Inr d \<Rightarrow> (Inr d, p\<lparr>p_destination := Some d\<rparr>, tr)))"

definition delete_message :: "addr option \<Rightarrow> trace \<Rightarrow> trace" where
  "delete_message m tr = (case m of None \<Rightarrow> tr | Some a \<Rightarrow> DeleteMessage a # tr)"

definition send_text :: "env \<Rightarrow> producer \<Rightarrow> addr \<Rightarrow> addr option \<Rightarrow> string \<Rightarrow> trace
    \<Rightarrow> (exn + bool) \<times> producer \<times> trace" where
  "send_text E p mp message strMessage tr0 =
     (let tr = Send mp message # tr0 in
      case send E tr of
        None \<Rightarrow> (Inr True, p, Printf ''[%X] %s'' [strMessage] # delete_message message tr)
      | Some (CMSException e) \<Rightarrow>
          (Inr False, p\<lparr>p_error := ''in sendmessage, fail to send message, '' @ e\<rparr>,
           delete_message message tr)
      | Some x \<Rightarrow> (Inl x, p, tr))"

definition sendmessage_body :: "env \<Rightarrow> producer \<Rightarrow> addr \<Rightarrow> string \<Rightarrow> trace
    \<Rightarrow> (exn + bool) \<times> producer \<times> trace" where
  "sendmessage_body E p0 session strMessage tr0 =
     (case ensure_destination E p0 session tr0 of
        (Inl x, p, tr) \<Rightarrow> (Inl x, p, tr)
      | (Inr d, p, tr) \<Rightarrow>
          (let tr = CreateCachedProducer session d # tr in
           case create_cached_producer E tr of
             Inl x \<Rightarrow> (Inl x, p, tr)
           | Inr mp \<Rightarrow>
               (let tr = SetDeliveryMode mp PERSISTENT # tr in
                case set_delivery_mode E tr of
                  Some x \<Rightarrow> (Inl x, p, tr)
                | None \<Rightarrow>
                    (let tr = CreateTextMessage session strMessage # tr in
                     case create_text_message E tr of
                       Inl (CMSException e) \<Rightarrow>
                         (Inr False, p\<lparr>p_error := ''in sendmessage, fail to create message, '' @ e\<rparr>, tr)
                     | Inl x \<Rightarrow> (Inl x, p, tr)
                     | Inr message \<Rightarrow> send_text E p mp message strMessage tr))))"

definition producer_sendmessage :: "env \<Rightarrow> producer \<Rightarrow> addr option \<Rightarrow> string \<Rightarrow> trace
    \<Rightarrow> bool outcome \<times> producer \<times> trace" where
  "producer_sendmessage E p session strMessage tr =
     (case session of
        None \<Rightarrow> (Ret False, p\<lparr>p_error := ''in sendmessage, session object NULL''\<rparr>, tr)
      | Some s \<Rightarrow>
          if strMessage = [] then
            (Ret False, p\<lparr>p_error := ''in sendmessage, message is emtpy''\<rparr>, tr)
          else
            (case sendmessage_body E p s strMessage tr of
               (Inr b, q, tr') \<Rightarrow> (Ret b, q, tr')
             | (Inl (CMSException e), q, tr') \<Rightarrow>
                 (Ret False, q\<lparr>p_error := ''in sendmessage, exception occured, '' @ e\<rparr>, tr')
             | (Inl x, q, tr') \<Rightarrow> (Throw x, q, tr')))"

section \<open>Lemmas\<close>

lemmas producer_split =
  prod.splits sum.splits option.splits exn.splits if_splits

lemma setIndex_frame [simp]:
  "p_destination (setIndex n p) = p_destination p"
  "p_usetopic (setIndex n p) = p_usetopic p"
  "p_clientack (setIndex n p) = p_clientack p"
  "p_destURI (setIndex n p) = p_destURI p"
  "p_position (setIndex n p) = n"
  by (simp_all add: setIndex_def)

lemma getIndex_setIndex [simp]: "getIndex (setIndex n p) = n"
  by (simp add: getIndex_def setIndex_def)

lemma getIndex_setURIInfo [simp]: "getIndex (setURIInfo b d t a p) = getIndex p"
  by (simp add: getIndex_def setURIInfo_def)

lemma getIndex_new [simp]:
  "getIndex new_producer = npos" "getIndex (new_producer_uri b d t a) = npos"
  by (simp_all add: getIndex_def new_producer_def new_producer_uri_def)

lemma new_producer_uri_eq: "new_producer_uri b d t a = setURIInfo b d t a new_producer"
  by (simp add: new_producer_uri_def setURIInfo_def new_producer_def)

text \<open>No operation of a send touches the position in the pool.\<close>

lemma sendmessage_body_position:
  "sendmessage_body E p s m tr = (r, q, tr') \<Longrightarrow> p_position q = p_position p"
  by (auto simp: sendmessage_body_def ensure_destination_def send_text_def Let_def
      split: producer_split)

lemma producer_sendmessage_position:
  "producer_sendmessage E p s m tr = (r, q, tr') \<Longrightarrow> p_position q = p_position p"
  by (auto simp: producer_sendmessage_def dest: sendmessage_body_position split: producer_split)

lemma delete_message_tallies [simp]:
  "accepted E (delete_message m tr) = accepted E tr"
  "open_sessions E (delete_message m tr) = open_sessions E tr"
  "live_messages E (delete_message m tr) = live_messages E tr - (if m = None then 0 else 1)"
  by (auto simp: delete_message_def delta_defs split: option.split)

lemma ensure_destination_tallies:
  "ensure_destination E p s tr = (r, q, tr') \<Longrightarrow>
     accepted E tr' = accepted E tr \<and> live_messages E tr' = live_messages E tr
     \<and> open_sessions E tr' = open_sessions E tr"
  by (auto simp: ensure_destination_def Let_def delta_defs split: producer_split)

lemma sendmessage_body_accepted:
  "sendmessage_body E p s m tr = (r, q, tr') \<Longrightarrow>
     accepted E tr' = accepted E tr + (if r = Inr True then 1 else 0)"
  by (auto simp: sendmessage_body_def send_text_def Let_def delta_defs
      dest!: ensure_destination_tallies split: producer_split)

lemma sendmessage_body_live:
  "sendmessage_body E p s m tr = (Inr b, q, tr') \<Longrightarrow> live_messages E tr' = live_messages E tr"
  by (auto simp: sendmessage_body_def send_text_def Let_def delta_defs
      dest!: ensure_destination_tallies split: producer_split)

lemma sendmessage_body_cms_live:
  "sendmessage_body E p s m tr = (Inl (CMSException e), q, tr') \<Longrightarrow>
     live_messages E tr' = live_messages E tr"
  by (auto simp: sendmessage_body_def send_text_def Let_def delta_defs
      dest!: ensure_destination_tallies split: producer_split)

lemma sendmessage_body_sessions:
  "sendmessage_body E p s m tr = (r, q, tr') \<Longrightarrow> open_sessions E tr' = open_sessions E tr"
  by (auto simp: sendmessage_body_def send_text_def Let_def delta_defs delete_message_def
      dest!: ensure_destination_tallies split: producer_split)

lemma producer_sendmessage_sessions:
  "producer_sendmessage E p s m tr = (r, q, tr') \<Longrightarrow> open_sessions E tr' = open_sessions E tr"
  by (auto simp: producer_sendmessage_def dest: sendmessage_body_sessions split: producer_split)

lemma producer_sendmessage_accepted:
  "producer_sendmessage E p s m tr = (r, q, tr') \<Longrightarrow>
     accepted E tr' = accepted E tr + (if r = Ret True then 1 else 0)"
  by (auto simp: producer_sendmessage_def dest: sendmessage_body_accepted split: producer_split)

lemma producer_sendmessage_live:
  "producer_sendmessage E p s m tr = (Ret b, q, tr') \<Longrightarrow>
     live_messages E tr' = live_messages E tr"
  by (auto simp: producer_sendmessage_def
      dest: sendmessage_body_live sendmessage_body_cms_live split: producer_split)

text \<open>
  The calls of a successful send, oldest last: the destination when there was none, the cached
  producer, its delivery mode, the message, the send, and the release of the message.
\<close>

definition destination_calls :: "producer \<Rightarrow> addr \<Rightarrow> trace" where
  "destination_calls p s =
     (if p_destination p \<noteq> None then []
      else if p_usetopic p then [CreateTopic s (p_destURI p)] else [CreateQueue s (p_destURI p)])"

definition send_calls :: "producer \<Rightarrow> addr \<Rightarrow> addr \<Rightarrow> addr \<Rightarrow> addr option \<Rightarrow> string \<Rightarrow> trace" where
  "send_calls p s d mp m text =
     Printf ''[%X] %s'' [text] # delete_message m
       ([Send mp m, CreateTextMessage s text, SetDeliveryMode mp PERSISTENT,
         CreateCachedProducer s d] @ destination_calls p s)"

lemma delete_message_append: "delete_message m xs @ ys = delete_message m (xs @ ys)"
  by (simp add: delete_message_def split: option.split)

lemma ensure_destination_ok:
  "ensure_destination E p s tr = (Inr d, q, tr') \<Longrightarrow>
     tr' = destination_calls p s @ tr \<and> p_destination q = Some d"
  by (auto simp: ensure_destination_def destination_calls_def Let_def split: producer_split)

lemma sendmessage_body_ok:
  assumes "sendmessage_body E p s text tr = (Inr True, q, tr')"
  shows "\<exists>d mp m. p_destination q = Some d \<and> tr' = send_calls p s d mp m text @ tr"
proof -
  obtain r q1 tr1 where ed: "ensure_destination E p s tr = (r, q1, tr1)"
    by (cases "ensure_destination E p s tr")
  with assms obtain d where r: "r = Inr d"
    by (cases r) (auto simp: sendmessage_body_def)
  from ensure_destination_ok [OF ed [unfolded r]] assms ed r show ?thesis
    by (auto simp: sendmessage_body_def send_text_def Let_def send_calls_def
        delete_message_append split: producer_split)
qed

section \<open>Properties\<close>

text \<open>
  C7: \<^verbatim>\<open>CDSAMQProducer::sendmessage\<close> returns true exactly when the broker accepted the
  message, and then it accepted one message: whatever the library answers, the number of
  accepted messages grows by one if the result is true, and not at all if the result is
  false or an exception escapes.
\<close>

theorem producer_send_exactly_once:
  assumes "producer_sendmessage E p session text tr = (r, q, tr')"
  shows "accepted E tr' = accepted E tr + (if r = Ret True then 1 else 0)"
  using assms by (rule producer_sendmessage_accepted)

text \<open>A first send of a fresh queue producer in the environment where every call succeeds.\<close>

abbreviation demo_producer :: producer where
  "demo_producer \<equiv> new_producer_uri ''tcp'' ''Q'' False True"

lemma demo_send:
  "producer_sendmessage good_env demo_producer (Some 5) ''hi'' [] =
     (Ret True, demo_producer\<lparr>p_destination := Some 6\<rparr>,
      [Printf ''[%X] %s'' [''hi''], DeleteMessage 8, Send 7 (Some 8), CreateTextMessage 5 ''hi'',
       SetDeliveryMode 7 PERSISTENT, CreateCachedProducer 5 6, CreateQueue 5 ''Q''])"
  by (simp add: producer_sendmessage_def sendmessage_body_def ensure_destination_def send_text_def
      delete_message_def new_producer_uri_def)

theorem producer_send_exactly_once_witness:
  "accepted good_env
     [Printf ''[%X] %s'' [''hi''], DeleteMessage 8, Send 7 (Some 8), CreateTextMessage 5 ''hi'',
      SetDeliveryMode 7 PERSISTENT, CreateCachedProducer 5 6, CreateQueue 5 ''Q''] = 1"
  using producer_send_exactly_once [OF demo_send] by simp

text \<open>
  when \<^verbatim>\<open>sendmessage\<close> returns true, its calls are these and no others: the destination
  if the producer had none (a topic or a queue of the configured name), the cached producer for
  it, its delivery mode set to PERSISTENT before anything is sent, the text message, the send,
  and the deletion of the message object; the destination is kept for the next message.
\<close>

theorem producer_send_calls:
  assumes "producer_sendmessage E p session text tr = (Ret True, q, tr')"
  shows "\<exists>s d mp m. session = Some s \<and> text \<noteq> [] \<and> p_destination q = Some d
           \<and> tr' = send_calls p s d mp m text @ tr"
proof -
  from assms obtain s where s: "session = Some s" and ne: "text \<noteq> []"
    and body: "sendmessage_body E p s text tr = (Inr True, q, tr')"
    by (auto simp: producer_sendmessage_def split: producer_split)
  from sendmessage_body_ok [OF body] s ne show ?thesis by blast
qed

theorem producer_send_calls_witness:
  "\<exists>s d mp m. Some 5 = Some s \<and> ''hi'' \<noteq> [] \<and>
     p_destination (demo_producer\<lparr>p_destination := Some 6\<rparr>) = Some d \<and>
     [Printf ''[%X] %s'' [''hi''], DeleteMessage 8, Send 7 (Some 8), CreateTextMessage 5 ''hi'',
      SetDeliveryMode 7 PERSISTENT, CreateCachedProducer 5 6, CreateQueue 5 ''Q'']
     = send_calls demo_producer s d mp m ''hi'' @ []"
  by (rule producer_send_calls [OF demo_send])

text \<open>
  the message object never leaks from a send that returns: as many text messages are
  deleted as were created, on success and on every error path.
\<close>

theorem producer_send_no_leak:
  assumes "producer_sendmessage E p session text tr = (Ret b, q, tr')"
  shows "live_messages E tr' = live_messages E tr"
  using assms by (rule producer_sendmessage_live)

theorem producer_send_no_leak_witness:
  "live_messages good_env
     [Printf ''[%X] %s'' [''hi''], DeleteMessage 8, Send 7 (Some 8), CreateTextMessage 5 ''hi'',
      SetDeliveryMode 7 PERSISTENT, CreateCachedProducer 5 6, CreateQueue 5 ''Q''] = 0"
  using producer_send_no_leak [OF demo_send] by simp

text \<open>
  a producer that has sent once keeps its destination: changing its settings with
  \<^verbatim>\<open>setURIInfo\<close> afterwards changes neither the result nor any call of later sends.
\<close>

theorem setURIInfo_after_first_send:
  assumes "p_destination p = Some d"
  shows "fst (producer_sendmessage E (setURIInfo b u t a p) session text tr)
           = fst (producer_sendmessage E p session text tr)
       \<and> snd (snd (producer_sendmessage E (setURIInfo b u t a p) session text tr))
           = snd (snd (producer_sendmessage E p session text tr))"
  using assms
  by (auto simp: producer_sendmessage_def sendmessage_body_def ensure_destination_def send_text_def
      setURIInfo_def Let_def split: option.split sum.split exn.split)

theorem setURIInfo_after_first_send_witness:
  "fst (producer_sendmessage good_env (setURIInfo ''b'' ''OTHER'' True False
       (demo_producer\<lparr>p_destination := Some 6\<rparr>)) (Some 5) ''hi'' [])
   = fst (producer_sendmessage good_env (demo_producer\<lparr>p_destination := Some 6\<rparr>) (Some 5) ''hi'' [])"
  using setURIInfo_after_first_send [of "demo_producer\<lparr>p_destination := Some 6\<rparr>" 6 good_env
      "''b''" "''OTHER''" True False "Some 5" "''hi''" "[]"]
  by simp

text \<open>
  \<^verbatim>\<open>cleanup\<close> releases the destination once: after it returns the producer holds none, so a
  second \<^verbatim>\<open>cleanup\<close> (the destructor after \<^verbatim>\<open>close\<close>) calls nothing; the error text is
  ``producer cleanup|complete'', except that a \<^verbatim>\<open>CMSException\<close> replaces the prefix.
\<close>

theorem producer_cleanup_once:
  assumes "producer_cleanup E p tr = (Ret (), q, tr')"
  shows "p_destination q = None
     \<and> tr' = (case p_destination p of None \<Rightarrow> tr | Some d \<Rightarrow> DeleteDestination d # tr)
     \<and> producer_destroy E q tr' = (Ret (), tr')
     \<and> (p_error q = ''producer cleanup|complete''
        \<or> (\<exists>d e. p_destination p = Some d
             \<and> delete_destination E (DeleteDestination d # tr) = Some (CMSException e)
             \<and> p_error q = e @ ''|complete''))"
  using assms
  by (auto simp: producer_cleanup_def producer_destroy_def Let_def
      split: option.splits exn.splits)

theorem producer_cleanup_once_witness:
  "producer_destroy good_env (demo_producer\<lparr>p_error := ''producer cleanup|complete''\<rparr>)
     [DeleteDestination 6] = (Ret (), [DeleteDestination 6])"
  using producer_cleanup_once [of good_env "demo_producer\<lparr>p_destination := Some 6\<rparr>" "[]"
      "demo_producer\<lparr>p_error := ''producer cleanup|complete''\<rparr>" "[DeleteDestination 6]"]
  by (simp add: producer_cleanup_def new_producer_uri_def)

end
