(* ===== verification/Producer_Pool.thy ===== *)
theory Producer_Pool
  imports Producer
begin

text \<open>
  \<^verbatim>\<open>CDSAMQProducerPool\<close> (DSAMQProducerPool.h): an array of producers and a bit set that says
  which of them are in use.  The theory holds the operations, the representation invariant,
  the interface \<open>object_pool\<close> that the manager relies on, and its interpretation on the
  operations of the code.
\<close>

section \<open>State\<close>

text \<open>
  \<open>pl_bits\<close> is the set of positions that are on.  The array is \<open>None\<close> while
  \<^verbatim>\<open>m_pool\<close> is NULL.  A pointer to an element of the array is its index.
\<close>

record pool =
  pl_cursor :: u32
  pl_size :: u32
  pl_used :: u32
  pl_pool :: "producer list option"
  pl_created :: bool
  pl_bitsetsize :: u32
  pl_bits :: "nat set"
  pl_error :: string

definition MAX_BITSET_SIZE :: nat where
  "MAX_BITSET_SIZE = 0xFFFF * 8"

section \<open>Operations\<close>

definition new_pool :: pool where
  "new_pool = \<lparr>pl_cursor = 0, pl_size = 0, pl_used = 0, pl_pool = None, pl_created = False,
     pl_bitsetsize = 0, pl_bits = {}, pl_error = ''''\<rparr>"

text \<open>
  \<^verbatim>\<open>CreatePool\<close>: \<open>Inl\<close> is the copy of \<^verbatim>\<open>*this\<close> that is thrown on \<^verbatim>\<open>std::bad_alloc\<close>.
  The size of the bit set is computed in 32 bits.
\<close>

definition CreatePool :: "env \<Rightarrow> u32 \<Rightarrow> string \<Rightarrow> string \<Rightarrow> bool \<Rightarrow> bool \<Rightarrow> pool \<Rightarrow> (pool + bool) \<times> pool" where
  "CreatePool E nPoolSize strBrokerURI strDestURI bUseTopic bClientAck pl0 =
     (let pl = pl0\<lparr>pl_size := nPoolSize, pl_bitsetsize := (nPoolSize div 8 + 1) * 8\<rparr> in
      if unat (pl_bitsetsize pl) > MAX_BITSET_SIZE then
        (Inr False, pl\<lparr>pl_error := ''In CreatePool(), max bitset size is over.''\<rparr>)
      else
        (case new_array E (unat (pl_size pl)) of
           Some what \<Rightarrow>
             (let pl' = pl\<lparr>pl_error := ''In CreatePool(), '' @ what\<rparr> in (Inl pl', pl'))
         | None \<Rightarrow>
             (Inr True,
              pl\<lparr>pl_pool := Some (map (setURIInfo strBrokerURI strDestURI bUseTopic bClientAck)
                               (replicate (unat (pl_size pl)) new_producer)),
                 pl_created := True\<rparr>)))"

definition CreatePool3 :: "env \<Rightarrow> u32 \<Rightarrow> string \<Rightarrow> string \<Rightarrow> pool \<Rightarrow> (pool + bool) \<times> pool" where
  "CreatePool3 E nPoolSize strBrokerURI strDestURI pl =
     CreatePool E nPoolSize strBrokerURI strDestURI False True pl"

text \<open>
  \<^verbatim>\<open>delete [] m_pool\<close> destroys the elements from the last to the first; an exception that
  leaves a destructor ends the process, which is the \<open>Throw\<close> outcome here.
\<close>

fun destroy_elements :: "env \<Rightarrow> producer list \<Rightarrow> trace \<Rightarrow> unit outcome \<times> trace" where
  "destroy_elements E [] tr = (Ret (), tr)"
| "destroy_elements E (p # ps) tr =
     (case producer_destroy E p tr of
        (Ret _, tr') \<Rightarrow> destroy_elements E ps tr'
      | (x, tr') \<Rightarrow> (x, tr'))"

definition DestroyPool :: "env \<Rightarrow> pool \<Rightarrow> trace \<Rightarrow> unit outcome \<times> pool \<times> trace" where
  "DestroyPool E pl tr =
     (case (case pl_pool pl of None \<Rightarrow> (Ret (), tr) | Some ps \<Rightarrow> destroy_elements E (rev ps) tr) of
        (Ret _, tr') \<Rightarrow>
          (Ret (), pl\<lparr>pl_pool := None, pl_size := 0, pl_cursor := 0, pl_used := 0, pl_bits := {}\<rparr>, tr')
      | (x, tr') \<Rightarrow> (x, pl, tr'))"

text \<open>
  The scan of both search loops: the first position from \<open>i\<close> below \<open>n\<close> whose bit is
  \<open>v\<close>.  \<^verbatim>\<open>bitset::test\<close> throws \<^verbatim>\<open>std::out_of_range\<close> beyond the size of the bit set.
\<close>

function scan_bits :: "bool \<Rightarrow> nat set \<Rightarrow> nat \<Rightarrow> nat \<Rightarrow> exn + nat option" where
  "scan_bits v bits i n =
     (if n \<le> i then Inr None
      else if MAX_BITSET_SIZE \<le> i then Inl (OtherException ''bitset::test'')
      else if (i \<in> bits) = v then Inr (Some i)
      else scan_bits v bits (Suc i) n)"
  by pat_completeness auto
termination
  by (relation "measure (\<lambda>(v, bits, i, n). n - i)") auto

declare scan_bits.simps [simp del]

definition found_position :: "nat option \<Rightarrow> u32" where
  "found_position r = (case r of None \<Rightarrow> npos | Some i \<Rightarrow> of_nat i)"

definition CreatePoolItem :: "pool \<Rightarrow> nat option outcome \<times> pool" where
  "CreatePoolItem pl =
     (case scan_bits False (pl_bits pl) 0 (unat (pl_bitsetsize pl)) of
        Inl x \<Rightarrow> (Throw x, pl)
      | Inr r \<Rightarrow>
          (let nPos = found_position r in
           if nPos \<ge> pl_size pl then
             (Ret None, pl\<lparr>pl_error := ''In CreatePoolItem(), Pool Overflow.''\<rparr>)
           else
             (case pl_pool pl of
                None \<Rightarrow> (Undefined NullDereference, pl)
              | Some ps \<Rightarrow>
                  (let k = unat nPos in
                   (Ret (Some k),
                    pl\<lparr>pl_pool := Some (ps[k := setIndex nPos (ps ! k)]),
                       pl_bits := insert k (pl_bits pl),
                       pl_used := pl_used pl + 1\<rparr>)))))"

definition FreePoolItem :: "nat option \<Rightarrow> pool \<Rightarrow> unit outcome \<times> pool" where
  "FreePoolItem item pl =
     (case item of
        None \<Rightarrow> (Ret (), pl)
      | Some k \<Rightarrow>
          (case pl_pool pl of
             None \<Rightarrow> (Undefined UseAfterFree, pl)
           | Some ps \<Rightarrow>
               if length ps \<le> k then (Undefined UseAfterFree, pl)
               else
                 (let nPoolIdx = getIndex (ps ! k) in
                  if nPoolIdx \<ge> pl_size pl then (Ret (), pl)
                  else
                    (let pl1 = pl\<lparr>pl_pool := Some (ps[k := setIndex npos (ps ! k)])\<rparr> in
                     if MAX_BITSET_SIZE \<le> unat nPoolIdx then (Throw (OtherException ''bitset::set''), pl1)
                     else
                       (Ret (), pl1\<lparr>pl_bits := pl_bits pl1 - {unat nPoolIdx},
                          pl_used := (if pl_used pl1 > 0 then pl_used pl1 - 1 else pl_used pl1)\<rparr>)))))"

definition InitPoolItemCursor :: "pool \<Rightarrow> pool" where
  "InitPoolItemCursor pl = pl\<lparr>pl_cursor := 0\<rparr>"

definition GetNextPoolItem :: "pool \<Rightarrow> nat option outcome \<times> pool" where
  "GetNextPoolItem pl =
     (case scan_bits True (pl_bits pl) (unat (pl_cursor pl)) (unat (pl_bitsetsize pl)) of
        Inl x \<Rightarrow> (Throw x, pl)
      | Inr r \<Rightarrow>
          (let nPos = found_position r in
           if nPos \<ge> pl_size pl then (Ret None, pl\<lparr>pl_cursor := 0\<rparr>)
           else (Ret (Some (unat nPos)), pl\<lparr>pl_cursor := nPos + 1\<rparr>)))"

definition GetUsedPoolItemCount :: "pool \<Rightarrow> u32" where
  "GetUsedPoolItemCount pl = pl_used pl"

definition GetPoolSize :: "pool \<Rightarrow> u32" where
  "GetPoolSize pl = pl_size pl"

definition GetLastError :: "pool \<Rightarrow> string" where
  "GetLastError pl = pl_error pl"

definition IsCreated :: "pool \<Rightarrow> bool" where
  "IsCreated pl = pl_created pl"

section \<open>Representation invariant\<close>

text \<open>
  The bits that are on are the positions of producers whose index field names their own
  place; all other producers carry \<^verbatim>\<open>npos\<close>; the counter is the number of bits that are on;
  the bit set covers the array and one more position at least.
\<close>

definition slot_ok :: "nat set \<Rightarrow> nat \<Rightarrow> producer \<Rightarrow> bool" where
  "slot_ok bits i p \<longleftrightarrow> p_position p = (if i \<in> bits then of_nat i else npos)"

definition pool_inv :: "pool \<Rightarrow> bool" where
  "pool_inv pl \<longleftrightarrow>
     (case pl_pool pl of
        None \<Rightarrow> pl_size pl = 0
      | Some ps \<Rightarrow> length ps = unat (pl_size pl)
          \<and> unat (pl_size pl) < unat (pl_bitsetsize pl)
          \<and> (\<forall>i < length ps. slot_ok (pl_bits pl) i (ps ! i)))
     \<and> unat (pl_bitsetsize pl) \<le> MAX_BITSET_SIZE
     \<and> pl_bits pl \<subseteq> {..<unat (pl_size pl)}
     \<and> unat (pl_used pl) = card (pl_bits pl)"

section \<open>Lemmas on the scan\<close>

lemma scan_bits_None:
  assumes "n \<le> MAX_BITSET_SIZE" and "\<forall>j. i \<le> j \<and> j < n \<longrightarrow> (j \<in> bits) \<noteq> v"
  shows "scan_bits v bits i n = Inr None"
  using assms
proof (induction v bits i n rule: scan_bits.induct)
  case (1 v bits i n)
  then show ?case
    by (subst scan_bits.simps) (auto simp: Suc_le_eq)
qed

lemma scan_bits_Some:
  assumes "n \<le> MAX_BITSET_SIZE" and "i \<le> k" and "k < n" and "(k \<in> bits) = v"
    and "\<forall>j. i \<le> j \<and> j < k \<longrightarrow> (j \<in> bits) \<noteq> v"
  shows "scan_bits v bits i n = Inr (Some k)"
  using assms
proof (induction v bits i n rule: scan_bits.induct)
  case (1 v bits i n)
  show ?case
  proof (cases "i = k")
    case True
    with 1 show ?thesis by (subst scan_bits.simps) simp
  next
    case False
    with 1 have "scan_bits v bits (Suc i) n = Inr (Some k)"
      by (auto simp: Suc_le_eq)
    with False 1 show ?thesis by (subst scan_bits.simps) auto
  qed
qed

text \<open>The scan finds the least position with the wanted bit, or reports that there is none.\<close>

lemma scan_bits_cases:
  assumes "n \<le> MAX_BITSET_SIZE"
  obtains (none) "scan_bits v bits i n = Inr None" and "\<forall>j. i \<le> j \<and> j < n \<longrightarrow> (j \<in> bits) \<noteq> v"
  | (some) k where "scan_bits v bits i n = Inr (Some k)" and "i \<le> k" and "k < n"
      and "(k \<in> bits) = v" and "\<forall>j. i \<le> j \<and> j < k \<longrightarrow> (j \<in> bits) \<noteq> v"
proof (cases "\<exists>j. i \<le> j \<and> j < n \<and> (j \<in> bits) = v")
  case False
  then show thesis using none scan_bits_None [OF assms, of i bits v] by blast
next
  case True
  define k where "k = (LEAST j. i \<le> j \<and> j < n \<and> (j \<in> bits) = v)"
  from LeastI_ex [OF True] have k: "i \<le> k" "k < n" "(k \<in> bits) = v"
    by (simp_all add: k_def)
  have least: "\<forall>j. i \<le> j \<and> j < k \<longrightarrow> (j \<in> bits) \<noteq> v"
  proof (intro allI impI)
    fix j assume j: "i \<le> j \<and> j < k"
    then have "\<not> (i \<le> j \<and> j < n \<and> (j \<in> bits) = v)"
      unfolding k_def by (intro not_less_Least) simp
    with j k(2) show "(j \<in> bits) \<noteq> v" by simp
  qed
  from some k least scan_bits_Some [OF assms k least] show thesis by blast
qed

lemma found_position_simps [simp]:
  "found_position None = npos" "found_position (Some i) = of_nat i"
  by (simp_all add: found_position_def)

lemma MAX_BITSET_SIZE_lt: "MAX_BITSET_SIZE < 2 ^ 32 - 1"
  by (simp add: MAX_BITSET_SIZE_def)

lemma of_nat_ge_u32: "i < 2 ^ 32 \<Longrightarrow> (of_nat i \<ge> (n::u32)) \<longleftrightarrow> i \<ge> unat n"
  by (simp add: word_le_nat_alt unat_of_nat_u32)

section \<open>The invariant under every operation\<close>

lemma pool_inv_new: "pool_inv new_pool"
  by (simp add: pool_inv_def new_pool_def)

lemma pool_invD:
  assumes "pool_inv pl"
  shows "unat (pl_bitsetsize pl) \<le> MAX_BITSET_SIZE"
    and "pl_bits pl \<subseteq> {..<unat (pl_size pl)}"
    and "unat (pl_used pl) = card (pl_bits pl)"
    and "pl_pool pl = None \<Longrightarrow> pl_size pl = 0"
    and "pl_pool pl = Some ps \<Longrightarrow> length ps = unat (pl_size pl)"
    and "pl_pool pl = Some ps \<Longrightarrow> unat (pl_size pl) < unat (pl_bitsetsize pl)"
    and "pl_pool pl = Some ps \<Longrightarrow> i < length ps \<Longrightarrow> slot_ok (pl_bits pl) i (ps ! i)"
  using assms unfolding pool_inv_def by (auto simp only: option.case)

lemma pool_inv_SomeI:
  assumes "pl_pool pl = Some ps" and "length ps = unat (pl_size pl)"
    and "unat (pl_size pl) < unat (pl_bitsetsize pl)"
    and "unat (pl_bitsetsize pl) \<le> MAX_BITSET_SIZE"
    and "pl_bits pl \<subseteq> {..<unat (pl_size pl)}"
    and "unat (pl_used pl) = card (pl_bits pl)"
    and "\<And>i. i < length ps \<Longrightarrow> slot_ok (pl_bits pl) i (ps ! i)"
  shows "pool_inv pl"
  unfolding pool_inv_def assms(1) option.case using assms(2-) by blast

lemma pool_inv_finite [simp, intro]: "pool_inv pl \<Longrightarrow> finite (pl_bits pl)"
  by (auto simp: pool_inv_def intro: finite_subset)

lemma pool_inv_size: "pool_inv pl \<Longrightarrow> unat (pl_size pl) \<le> MAX_BITSET_SIZE"
  by (auto simp: pool_inv_def split: option.splits)

text \<open>The two ways \<^verbatim>\<open>CreatePoolItem\<close> can end under the invariant.\<close>

lemma CreatePoolItem_full:
  assumes inv: "pool_inv pl" and full: "pl_bits pl = {..<unat (pl_size pl)}"
  shows "CreatePoolItem pl = (Ret None, pl\<lparr>pl_error := ''In CreatePoolItem(), Pool Overflow.''\<rparr>)"
proof -
  from inv have le: "unat (pl_bitsetsize pl) \<le> MAX_BITSET_SIZE" by (simp add: pool_inv_def)
  from le show ?thesis
  proof (cases rule: scan_bits_cases [where v = False and bits = "pl_bits pl" and i = 0])
    case none
    with u32_le_npos show ?thesis by (simp add: CreatePoolItem_def Let_def)
  next
    case (some k)
    from some(3) le MAX_BITSET_SIZE_lt have "k < 2 ^ 32" by linarith
    moreover from some(4) full have "unat (pl_size pl) \<le> k" by auto
    ultimately have "pl_size pl \<le> of_nat k" by (simp add: of_nat_ge_u32)
    with some(1) show ?thesis by (simp add: CreatePoolItem_def Let_def)
  qed
qed

lemma CreatePoolItem_free:
  assumes inv: "pool_inv pl" and free: "pl_bits pl \<noteq> {..<unat (pl_size pl)}"
  obtains k ps where "pl_pool pl = Some ps" and "k < length ps" and "k \<notin> pl_bits pl"
    and "\<forall>j < k. j \<in> pl_bits pl"
    and "CreatePoolItem pl = (Ret (Some k),
           pl\<lparr>pl_pool := Some (ps[k := setIndex (of_nat k) (ps ! k)]),
              pl_bits := insert k (pl_bits pl), pl_used := pl_used pl + 1\<rparr>)"
proof -
  from inv have le: "unat (pl_bitsetsize pl) \<le> MAX_BITSET_SIZE"
    and sub: "pl_bits pl \<subseteq> {..<unat (pl_size pl)}" by (simp_all add: pool_inv_def)
  from free sub obtain m where m: "m < unat (pl_size pl)" "m \<notin> pl_bits pl" by auto
  with inv obtain ps where ps: "pl_pool pl = Some ps" "length ps = unat (pl_size pl)"
    and lt: "unat (pl_size pl) < unat (pl_bitsetsize pl)"
    by (auto simp: pool_inv_def split: option.splits)
  from le show thesis
  proof (cases rule: scan_bits_cases [where v = False and bits = "pl_bits pl" and i = 0])
    case none
    with m lt show thesis by auto
  next
    case (some k)
    from some(5) m have km: "k \<le> m" by (metis linorder_not_less zero_le)
    with m(1) have k: "k < unat (pl_size pl)" by simp
    from k le lt MAX_BITSET_SIZE_lt have k32: "k < 2 ^ 32" by linarith
    with k have "\<not> pl_size pl \<le> of_nat k" by (simp add: of_nat_ge_u32)
    with some(1) ps k32 have "CreatePoolItem pl = (Ret (Some k),
           pl\<lparr>pl_pool := Some (ps[k := setIndex (of_nat k) (ps ! k)]),
              pl_bits := insert k (pl_bits pl), pl_used := pl_used pl + 1\<rparr>)"
      by (simp add: CreatePoolItem_def Let_def unat_of_nat_u32)
    with that ps k some show thesis by auto
  qed
qed

lemma slot_ok_insert_other: "i \<noteq> k \<Longrightarrow> slot_ok (insert k bits) i p = slot_ok bits i p"
  by (simp add: slot_ok_def)

lemma slot_ok_remove_other: "i \<noteq> k \<Longrightarrow> slot_ok (bits - {k}) i p = slot_ok bits i p"
  by (simp add: slot_ok_def)

lemma unat_used_inc:
  assumes inv: "pool_inv pl" and k: "k \<notin> pl_bits pl"
  shows "unat (pl_used pl + 1) = card (insert k (pl_bits pl))"
proof -
  note used = pool_invD(3) [OF inv]
  from card_bounded_le [OF pool_invD(2) [OF inv]] pool_inv_size [OF inv] MAX_BITSET_SIZE_lt
  have "unat (pl_used pl) < 2 ^ 32 - 1" unfolding used by linarith
  then have "unat (pl_used pl + 1) = Suc (card (pl_bits pl))"
    unfolding used [symmetric] by (rule unat_inc_u32)
  also have "\<dots> = card (insert k (pl_bits pl))"
    by (rule card_insert_fresh [OF pool_inv_finite [OF inv] k, symmetric])
  finally show ?thesis .
qed

lemma pool_inv_acquired:
  assumes inv: "pool_inv pl" and ps: "pl_pool pl = Some ps" and k: "k < length ps" "k \<notin> pl_bits pl"
  shows "pool_inv (pl\<lparr>pl_pool := Some (ps[k := setIndex (of_nat k) (ps ! k)]),
              pl_bits := insert k (pl_bits pl), pl_used := pl_used pl + 1\<rparr>)"
proof (rule pool_inv_SomeI)
  note len = pool_invD(5) [OF inv ps]
  fix i assume "i < length (ps[k := setIndex (of_nat k) (ps ! k)])"
  then have i: "i < length ps" by simp
  show "slot_ok (pl_bits (pl\<lparr>pl_pool := Some (ps[k := setIndex (of_nat k) (ps ! k)]),
              pl_bits := insert k (pl_bits pl), pl_used := pl_used pl + 1\<rparr>)) i
            (ps[k := setIndex (of_nat k) (ps ! k)] ! i)"
    using pool_invD(7) [OF inv ps i] k i
    by (cases "i = k") (simp_all add: slot_ok_def)
qed (use inv ps k pool_invD(1,2) [OF inv] pool_invD(5,6) [OF inv ps] unat_used_inc [OF inv k(2)]
     in \<open>simp_all\<close>)

lemma pool_inv_released:
  assumes inv: "pool_inv pl" and ps: "pl_pool pl = Some ps" and k: "k < length ps" "k \<in> pl_bits pl"
  shows "pool_inv (pl\<lparr>pl_pool := Some (ps[k := setIndex npos (ps ! k)]),
              pl_bits := pl_bits pl - {k}, pl_used := pl_used pl - 1\<rparr>)"
proof (rule pool_inv_SomeI)
  fix i assume "i < length (ps[k := setIndex npos (ps ! k)])"
  then have i: "i < length ps" by simp
  show "slot_ok (pl_bits (pl\<lparr>pl_pool := Some (ps[k := setIndex npos (ps ! k)]),
              pl_bits := pl_bits pl - {k}, pl_used := pl_used pl - 1\<rparr>)) i
            (ps[k := setIndex npos (ps ! k)] ! i)"
    using pool_invD(7) [OF inv ps i] k i
    by (cases "i = k") (simp_all add: slot_ok_def)
next
  have "unat (pl_used pl) \<noteq> 0"
    using k inv pool_invD(3) [OF inv] by (auto simp: card_eq_0_iff)
  then have "unat (pl_used pl - 1) = unat (pl_used pl) - 1"
    by (intro unat_dec_u32) (simp add: word_less_nat_alt)
  with k inv pool_invD(3) [OF inv]
  have "unat (pl_used pl - 1) = card (pl_bits pl - {k})" by simp
  then show "unat (pl_used (pl\<lparr>pl_pool := Some (ps[k := setIndex npos (ps ! k)]),
              pl_bits := pl_bits pl - {k}, pl_used := pl_used pl - 1\<rparr>))
          = card (pl_bits (pl\<lparr>pl_pool := Some (ps[k := setIndex npos (ps ! k)]),
              pl_bits := pl_bits pl - {k}, pl_used := pl_used pl - 1\<rparr>))"
    by simp
qed (use pool_invD(1,2) [OF inv] pool_invD(5,6) [OF inv ps] in \<open>auto\<close>)

text \<open>What \<^verbatim>\<open>FreePoolItem\<close> does to a used and to an idle element.\<close>

lemma getIndex_slot:
  assumes inv: "pool_inv pl" and ps: "pl_pool pl = Some ps" and k: "k < length ps"
  shows "getIndex (ps ! k) = (if k \<in> pl_bits pl then of_nat k else npos)"
  using pool_invD(7) [OF inv ps k] by (simp add: slot_ok_def getIndex_def)

lemma FreePoolItem_used:
  assumes inv: "pool_inv pl" and ps: "pl_pool pl = Some ps" and k: "k \<in> pl_bits pl"
  shows "FreePoolItem (Some k) pl =
     (Ret (), pl\<lparr>pl_pool := Some (ps[k := setIndex npos (ps ! k)]),
                 pl_bits := pl_bits pl - {k}, pl_used := pl_used pl - 1\<rparr>)"
proof -
  from k pool_invD(2) [OF inv] have lt: "k < unat (pl_size pl)" by auto
  then have len: "k < length ps" using pool_invD(5) [OF inv ps] by simp
  from lt pool_inv_size [OF inv] MAX_BITSET_SIZE_lt
  have k32: "k < 2 ^ 32" and kmax: "k < MAX_BITSET_SIZE" by linarith+
  have idx: "getIndex (ps ! k) = of_nat k" using getIndex_slot [OF inv ps len] k by simp
  have guard: "\<not> pl_size pl \<le> of_nat k" using lt by (simp add: of_nat_ge_u32 [OF k32])
  have "card (pl_bits pl) \<noteq> 0" using k inv by (auto simp: card_eq_0_iff)
  then have used: "pl_used pl > 0" using pool_invD(3) [OF inv] by (simp add: word_less_nat_alt)
  show ?thesis
    using ps len idx guard kmax used
    by (simp add: FreePoolItem_def Let_def unat_of_nat_u32 [OF k32])
qed

lemma FreePoolItem_idle:
  assumes inv: "pool_inv pl" and ps: "pl_pool pl = Some ps" and k: "k < length ps" "k \<notin> pl_bits pl"
  shows "FreePoolItem (Some k) pl = (Ret (), pl)"
  using ps k getIndex_slot [OF inv ps k(1)] u32_le_npos
  by (simp add: FreePoolItem_def Let_def)

section \<open>The pool as an interface\<close>

text \<open>
  What a client of an object pool relies on: it hands out free slots, takes used ones back and
  reports exhaustion only when every slot is in use.
\<close>

locale object_pool =
  fixes invar :: "'p \<Rightarrow> bool"
    and capacity :: "'p \<Rightarrow> nat"
    and inuse :: "'p \<Rightarrow> nat set"
    and acquire :: "'p \<Rightarrow> nat option \<times> 'p"
    and release :: "nat \<Rightarrow> 'p \<Rightarrow> 'p"
  assumes inuse_bounded: "invar p \<Longrightarrow> inuse p \<subseteq> {..<capacity p}"
    and acquire_Some: "invar p \<Longrightarrow> acquire p = (Some i, p') \<Longrightarrow>
          i < capacity p \<and> i \<notin> inuse p \<and> inuse p' = insert i (inuse p)"
    and acquire_None: "invar p \<Longrightarrow> acquire p = (None, p') \<Longrightarrow>
          inuse p = {..<capacity p} \<and> inuse p' = inuse p"
    and acquire_invar: "invar p \<Longrightarrow> acquire p = (r, p') \<Longrightarrow> invar p' \<and> capacity p' = capacity p"
    and release_inuse: "invar p \<Longrightarrow> i \<in> inuse p \<Longrightarrow> inuse (release i p) = inuse p - {i}"
    and release_invar: "invar p \<Longrightarrow> i \<in> inuse p \<Longrightarrow>
          invar (release i p) \<and> capacity (release i p) = capacity p"
begin

lemma finite_inuse: "invar p \<Longrightarrow> finite (inuse p)"
  using inuse_bounded finite_subset by blast

lemma card_inuse_le: "invar p \<Longrightarrow> card (inuse p) \<le> capacity p"
  using inuse_bounded card_bounded_le by blast

lemma acquire_succeeds:
  assumes "invar p" and "card (inuse p) < capacity p"
  shows "\<exists>i p'. acquire p = (Some i, p')"
proof -
  obtain r p' where rp: "acquire p = (r, p')" by (cases "acquire p")
  have "r \<noteq> None"
  proof
    assume "r = None"
    with rp assms(1) have "inuse p = {..<capacity p}" using acquire_None by blast
    with assms(2) show False by simp
  qed
  with rp show ?thesis by blast
qed

lemma acquire_fails_iff:
  assumes "invar p"
  shows "fst (acquire p) = None \<longleftrightarrow> card (inuse p) = capacity p"
proof
  assume "fst (acquire p) = None"
  then obtain p' where "acquire p = (None, p')" by (metis prod.collapse)
  with assms have "inuse p = {..<capacity p}" using acquire_None by blast
  then show "card (inuse p) = capacity p" by simp
next
  assume full: "card (inuse p) = capacity p"
  show "fst (acquire p) = None"
  proof (cases "acquire p")
    case (Pair r p')
    have "r = None"
    proof (rule ccontr)
      assume "r \<noteq> None"
      then obtain i where "r = Some i" by blast
      with Pair assms have "i < capacity p" "i \<notin> inuse p" using acquire_Some by blast+
      then have "card (inuse p) < capacity p"
        using subset_full_iff [OF inuse_bounded [OF assms]] by blast
      with full show False by simp
    qed
    with Pair show ?thesis by simp
  qed
qed

lemma release_after_acquire:
  assumes "invar p" and "acquire p = (Some i, p')"
  shows "inuse (release i p') = inuse p"
proof -
  have "i \<notin> inuse p" "inuse p' = insert i (inuse p)" "invar p'"
    using assms acquire_Some acquire_invar by blast+
  then show ?thesis using release_inuse [of p' i] by auto
qed

end

text \<open>The operations of the code, stripped of the outcomes the invariant excludes.\<close>

definition pool_acquire :: "pool \<Rightarrow> nat option \<times> pool" where
  "pool_acquire pl = (case CreatePoolItem pl of (Ret r, pl') \<Rightarrow> (r, pl') | (_, pl') \<Rightarrow> (None, pl'))"

definition pool_release :: "nat \<Rightarrow> pool \<Rightarrow> pool" where
  "pool_release k pl = snd (FreePoolItem (Some k) pl)"

lemma CreatePoolItem_Ret:
  assumes "pool_inv pl"
  shows "CreatePoolItem pl = (Ret (fst (pool_acquire pl)), snd (pool_acquire pl))"
proof (cases "pl_bits pl = {..<unat (pl_size pl)}")
  case True
  with CreatePoolItem_full [OF assms] show ?thesis by (simp add: pool_acquire_def)
next
  case False
  show ?thesis
    by (rule CreatePoolItem_free [OF assms False]) (simp add: pool_acquire_def)
qed

lemma pool_acquire_full:
  assumes "pool_inv pl" and "pl_bits pl = {..<unat (pl_size pl)}"
  shows "pool_acquire pl = (None, pl\<lparr>pl_error := ''In CreatePoolItem(), Pool Overflow.''\<rparr>)"
  using CreatePoolItem_full [OF assms] by (simp add: pool_acquire_def)

lemma pool_acquire_free:
  assumes inv: "pool_inv pl" and free: "pl_bits pl \<noteq> {..<unat (pl_size pl)}"
  obtains k ps where "pl_pool pl = Some ps" and "k < length ps" and "k \<notin> pl_bits pl"
    and "\<forall>j < k. j \<in> pl_bits pl"
    and "pool_acquire pl = (Some k,
           pl\<lparr>pl_pool := Some (ps[k := setIndex (of_nat k) (ps ! k)]),
              pl_bits := insert k (pl_bits pl), pl_used := pl_used pl + 1\<rparr>)"
  by (rule CreatePoolItem_free [OF inv free]) (simp add: that pool_acquire_def)

lemma pool_inv_error: "pool_inv (pl\<lparr>pl_error := e\<rparr>) = pool_inv pl"
  by (cases "pl_pool pl") (simp_all add: pool_inv_def)

lemma pool_release_eq:
  assumes inv: "pool_inv pl" and k: "k \<in> pl_bits pl"
  obtains ps where "pl_pool pl = Some ps" and "k < length ps"
    and "pool_release k pl = pl\<lparr>pl_pool := Some (ps[k := setIndex npos (ps ! k)]),
                 pl_bits := pl_bits pl - {k}, pl_used := pl_used pl - 1\<rparr>"
proof -
  from k pool_invD(2) [OF inv] have lt: "k < unat (pl_size pl)" by auto
  with pool_invD(4) [OF inv] obtain ps where ps: "pl_pool pl = Some ps"
    by (cases "pl_pool pl") auto
  with lt that pool_invD(5) [OF inv ps] FreePoolItem_used [OF inv ps k] show thesis
    by (simp add: pool_release_def)
qed

interpretation producers: object_pool pool_inv "\<lambda>pl. unat (pl_size pl)" pl_bits pool_acquire pool_release
proof
  fix p assume inv: "pool_inv p"
  then show "pl_bits p \<subseteq> {..<unat (pl_size p)}" by (rule pool_invD)
next
  fix p i p' assume inv: "pool_inv p" and acq: "pool_acquire p = (Some i, p')"
  from acq pool_acquire_full [OF inv] have free: "pl_bits p \<noteq> {..<unat (pl_size p)}" by auto
  show "i < unat (pl_size p) \<and> i \<notin> pl_bits p \<and> pl_bits p' = insert i (pl_bits p)"
    by (rule pool_acquire_free [OF inv free]) (use acq pool_invD(5) [OF inv] in auto)
next
  fix p p' assume inv: "pool_inv p" and acq: "pool_acquire p = (None, p')"
  have full: "pl_bits p = {..<unat (pl_size p)}"
  proof (rule ccontr)
    assume "pl_bits p \<noteq> {..<unat (pl_size p)}"
    then show False by (rule pool_acquire_free [OF inv]) (use acq in simp)
  qed
  with pool_acquire_full [OF inv full] acq
  show "pl_bits p = {..<unat (pl_size p)} \<and> pl_bits p' = pl_bits p" by auto
next
  fix p r p' assume inv: "pool_inv p" and acq: "pool_acquire p = (r, p')"
  show "pool_inv p' \<and> unat (pl_size p') = unat (pl_size p)"
  proof (cases "pl_bits p = {..<unat (pl_size p)}")
    case True
    with pool_acquire_full [OF inv True] acq inv show ?thesis by (auto simp: pool_inv_error)
  next
    case False
    show ?thesis
      by (rule pool_acquire_free [OF inv False]) (use acq pool_inv_acquired [OF inv] in auto)
  qed
next
  fix p i assume inv: "pool_inv p" and i: "i \<in> pl_bits p"
  show "pl_bits (pool_release i p) = pl_bits p - {i}"
    by (rule pool_release_eq [OF inv i]) simp
  show "pool_inv (pool_release i p) \<and> unat (pl_size (pool_release i p)) = unat (pl_size p)"
    by (rule pool_release_eq [OF inv i]) (simp add: pool_inv_released [OF inv _ _ i])
qed

section \<open>Creating and destroying the array\<close>

lemma bitset_size_value:
  assumes "unat (n::u32) < 2 ^ 32 - 8"
  shows "unat ((n div 8 + 1) * 8) = (unat n div 8 + 1) * 8"
proof -
  have d: "unat (n div 8) = unat n div 8" by (simp add: unat_div)
  with assms have a: "unat (n div 8 + 1) = unat n div 8 + 1"
    by (simp add: unat_word_ariths)
  from assms have "(unat n div 8 + 1) * 8 < 2 ^ 32" by simp
  with a show ?thesis by (simp add: unat_word_ariths)
qed

lemma bitset_size_wraps:
  assumes "2 ^ 32 - 8 \<le> unat (n::u32)"
  shows "(n div 8 + 1) * 8 = 0"
proof -
  have "unat n < 2 ^ 32" using unsigned_less [of n] by simp
  with assms have "unat n div 8 = 536870911" by simp
  then have "unat (n div 8) = 536870911" by (simp add: unat_div)
  then have "n div 8 = 536870911" by (simp add: word_unat_eq_iff)
  then show ?thesis by simp
qed

lemma CreatePool_guard:
  assumes "unat (n::u32) < 2 ^ 32 - 8"
  shows "(unat n div 8 + 1) * 8 \<le> MAX_BITSET_SIZE \<longleftrightarrow> unat n < MAX_BITSET_SIZE"
  unfolding MAX_BITSET_SIZE_def by presburger

lemma CreatePool_inv:
  assumes n: "unat n < 2 ^ 32 - 8" and fresh: "pool_inv pl" "pl_pool pl = None"
    and ok: "CreatePool E n b d t a pl = (Inr True, pl')"
  shows "pool_inv pl' \<and> pl_size pl' = n \<and> pl_bits pl' = {} \<and> pl_created pl'
     \<and> pl_pool pl' = Some (replicate (unat n) (setURIInfo b d t a new_producer))"
proof -
  have bits: "pl_bits pl = {}" using pool_invD(2,4) [OF fresh(1)] fresh(2) by simp
  then have used: "unat (pl_used pl) = 0" using pool_invD(3) [OF fresh(1)] by simp
  from ok have pl': "pl' = pl\<lparr>pl_size := n, pl_bitsetsize := (n div 8 + 1) * 8,
      pl_pool := Some (replicate (unat n) (setURIInfo b d t a new_producer)), pl_created := True\<rparr>"
    and guard: "\<not> unat ((n div 8 + 1) * 8) > MAX_BITSET_SIZE"
    by (auto simp: CreatePool_def Let_def split: if_splits option.splits)
  note size = bitset_size_value [OF n]
  have "pool_inv pl'"
  proof (rule pool_inv_SomeI)
    show "unat (pl_size pl') < unat (pl_bitsetsize pl')"
      using size by (simp add: pl')
    fix i assume "i < length (replicate (unat n) (setURIInfo b d t a new_producer))"
    then show "slot_ok (pl_bits pl') i (replicate (unat n) (setURIInfo b d t a new_producer) ! i)"
      using bits by (simp add: pl' slot_ok_def setURIInfo_def new_producer_def)
  qed (use guard bits used in \<open>simp_all add: pl'\<close>)
  with pl' bits show ?thesis by simp
qed

text \<open>The destinations the elements of an array hold, in the order the array is destroyed.\<close>

definition held_destinations :: "producer list \<Rightarrow> addr list" where
  "held_destinations ps = List.map_filter p_destination ps"

lemma producer_destroy_Ret:
  "producer_destroy E p tr = (Ret (), tr') \<Longrightarrow>
     tr' = (case p_destination p of None \<Rightarrow> tr | Some d \<Rightarrow> DeleteDestination d # tr)"
  by (auto simp: producer_destroy_def producer_cleanup_def Let_def split: option.splits exn.splits)

lemma destroy_elements_trace:
  "destroy_elements E ps tr = (Ret (), tr') \<Longrightarrow>
     tr' = rev (map DeleteDestination (held_destinations ps)) @ tr"
proof (induction ps arbitrary: tr)
  case Nil
  then show ?case by (simp add: held_destinations_def map_filter_simps)
next
  case (Cons p ps)
  obtain r tr1 where r: "producer_destroy E p tr = (r, tr1)" by (cases "producer_destroy E p tr")
  with Cons.prems have d: "producer_destroy E p tr = (Ret (), tr1)"
    and rest: "destroy_elements E ps tr1 = (Ret (), tr')"
    by (cases r; simp)+
  from Cons.IH [OF rest] producer_destroy_Ret [OF d] show ?case
    by (simp add: held_destinations_def map_filter_simps split: option.splits)
qed

lemma DestroyPool_state:
  "DestroyPool E pl tr = (Ret (), pl', tr') \<Longrightarrow>
     pl' = pl\<lparr>pl_pool := None, pl_size := 0, pl_cursor := 0, pl_used := 0, pl_bits := {}\<rparr>
     \<and> (case pl_pool pl of None \<Rightarrow> tr' = tr
        | Some ps \<Rightarrow> destroy_elements E (rev ps) tr = (Ret (), tr'))"
  unfolding DestroyPool_def
  by (cases "case pl_pool pl of None \<Rightarrow> (Ret (), tr) | Some ps \<Rightarrow> destroy_elements E (rev ps) tr";
      cases "fst (case pl_pool pl of None \<Rightarrow> (Ret (), tr) | Some ps \<Rightarrow> destroy_elements E (rev ps) tr)")
    (auto split: option.splits)

lemma DestroyPool_inv:
  assumes "pool_inv pl" and "DestroyPool E pl tr = (Ret (), pl', tr')"
  shows "pool_inv pl'"
  using pool_invD(1) [OF assms(1)] DestroyPool_state [OF assms(2)] by (simp add: pool_inv_def)

section \<open>Iterating over the elements in use\<close>

lemma pool_inv_cursor: "pool_inv (pl\<lparr>pl_cursor := c\<rparr>) = pool_inv pl"
  by (cases "pl_pool pl") (simp_all add: pool_inv_def)

lemma GetNextPoolItem_none:
  assumes inv: "pool_inv pl" and none: "pl_bits pl \<inter> {unat (pl_cursor pl)..} = {}"
  shows "GetNextPoolItem pl = (Ret None, pl\<lparr>pl_cursor := 0\<rparr>)"
proof -
  have "scan_bits True (pl_bits pl) (unat (pl_cursor pl)) (unat (pl_bitsetsize pl)) = Inr None"
    by (rule scan_bits_None) (use none pool_invD(1) [OF inv] in auto)
  then show ?thesis using u32_le_npos by (simp add: GetNextPoolItem_def Let_def)
qed

lemma GetNextPoolItem_some:
  assumes inv: "pool_inv pl" and some: "pl_bits pl \<inter> {unat (pl_cursor pl)..} \<noteq> {}"
    and k: "k = Min (pl_bits pl \<inter> {unat (pl_cursor pl)..})"
  shows "GetNextPoolItem pl = (Ret (Some k), pl\<lparr>pl_cursor := of_nat k + 1\<rparr>)"
    and "k \<in> pl_bits pl" and "unat (of_nat k + 1 :: u32) = Suc k"
proof -
  have fin: "finite (pl_bits pl \<inter> {unat (pl_cursor pl)..})" using inv by simp
  from Min_in [OF fin some] have km: "k \<in> pl_bits pl" "unat (pl_cursor pl) \<le> k"
    by (simp_all add: k)
  with pool_invD(2) [OF inv] have lt: "k < unat (pl_size pl)" by auto
  from pool_invD(4) [OF inv] lt obtain ps where ps: "pl_pool pl = Some ps"
    by (cases "pl_pool pl") auto
  from lt pool_invD(6) [OF inv ps] pool_invD(1) [OF inv] MAX_BITSET_SIZE_lt
  have kb: "k < unat (pl_bitsetsize pl)" and k32: "k < 2 ^ 32 - 1" by linarith+
  have least: "\<forall>j. unat (pl_cursor pl) \<le> j \<and> j < k \<longrightarrow> (j \<in> pl_bits pl) \<noteq> True"
    using Min_le [OF fin] by (fastforce simp: k)
  have "scan_bits True (pl_bits pl) (unat (pl_cursor pl)) (unat (pl_bitsetsize pl)) = Inr (Some k)"
    by (rule scan_bits_Some [OF pool_invD(1) [OF inv] km(2) kb _ least]) (simp add: km(1))
  moreover have "\<not> pl_size pl \<le> of_nat k" using lt k32 by (simp add: of_nat_ge_u32)
  ultimately show "GetNextPoolItem pl = (Ret (Some k), pl\<lparr>pl_cursor := of_nat k + 1\<rparr>)"
    using k32 by (simp add: GetNextPoolItem_def Let_def unat_of_nat_u32)
  show "k \<in> pl_bits pl" by (rule km(1))
  from k32 show "unat (of_nat k + 1 :: u32) = Suc k"
    by (simp add: unat_inc_u32 unat_of_nat_u32)
qed

text \<open>A client that asks for the next item until it gets NULL.\<close>

fun collect_items :: "nat \<Rightarrow> pool \<Rightarrow> nat list \<times> pool" where
  "collect_items 0 pl = ([], pl)"
| "collect_items (Suc f) pl =
     (case GetNextPoolItem pl of
        (Ret (Some k), pl') \<Rightarrow> (let (ks, pl'') = collect_items f pl' in (k # ks, pl''))
      | (_, pl') \<Rightarrow> ([], pl'))"

lemma collect_items_from_cursor:
  assumes "pool_inv pl" and "card (pl_bits pl \<inter> {unat (pl_cursor pl)..}) < f"
  shows "collect_items f pl =
    (sorted_list_of_set (pl_bits pl \<inter> {unat (pl_cursor pl)..}), pl\<lparr>pl_cursor := 0\<rparr>)"
  using assms
proof (induction f arbitrary: pl)
  case 0
  then show ?case by simp
next
  case (Suc f)
  let ?A = "pl_bits pl \<inter> {unat (pl_cursor pl)..}"
  show ?case
  proof (cases "?A = {}")
    case True
    with GetNextPoolItem_none [OF Suc.prems(1) True] show ?thesis by simp
  next
    case False
    define k where "k = Min ?A"
    let ?pl = "pl\<lparr>pl_cursor := of_nat k + 1\<rparr>"
    note nxt = GetNextPoolItem_some [OF Suc.prems(1) False k_def]
    have fin: "finite ?A" using Suc.prems(1) by simp
    have kA: "k \<in> ?A" and le: "\<And>x. x \<in> ?A \<Longrightarrow> k \<le> x"
      using Min_in [OF fin False] Min_le [OF fin] by (simp_all only: k_def)
    have least: "Suc k \<le> x" if "x \<in> pl_bits pl" "unat (pl_cursor pl) \<le> x" "x \<noteq> k" for x
      using le [of x] that by simp
    have rest: "pl_bits ?pl \<inter> {unat (pl_cursor ?pl)..} = ?A - {k}"
      using kA nxt(3) least by auto
    have "card (?A - {k}) < f"
      using Suc.prems(2) card_remove_member [OF fin kA] by linarith
    with Suc.IH [of ?pl] Suc.prems(1) rest
    have "collect_items f ?pl = (sorted_list_of_set (?A - {k}), pl\<lparr>pl_cursor := 0\<rparr>)"
      by (simp add: pool_inv_cursor)
    with nxt(1) sorted_list_of_set_nonempty [OF fin False] show ?thesis
      by (simp add: k_def)
  qed
qed

section \<open>Properties\<close>

text \<open>
  The operations of a client that creates the array only while there is none, gives back only
  pointers into the array, and iterates and destroys at will.
\<close>

inductive pool_step :: "env \<Rightarrow> pool \<Rightarrow> pool \<Rightarrow> bool" for E where
  create: "pl_pool pl = None \<Longrightarrow> unat n < 2 ^ 32 - 8 \<Longrightarrow>
     CreatePool E n b d t a pl = (Inr True, pl') \<Longrightarrow> pool_step E pl pl'"
| item: "CreatePoolItem pl = (r, pl') \<Longrightarrow> pool_step E pl pl'"
| free: "pl_pool pl = Some ps \<Longrightarrow> k < length ps \<Longrightarrow>
     FreePoolItem (Some k) pl = (r, pl') \<Longrightarrow> pool_step E pl pl'"
| rewind: "pool_step E pl (InitPoolItemCursor pl)"
| iterate: "GetNextPoolItem pl = (r, pl') \<Longrightarrow> pool_step E pl pl'"
| destroy: "DestroyPool E pl tr = (Ret (), pl', tr') \<Longrightarrow> pool_step E pl pl'"

lemma GetNextPoolItem_inv:
  assumes "pool_inv pl" and "GetNextPoolItem pl = (r, pl')"
  shows "pool_inv pl'"
  using GetNextPoolItem_none [OF assms(1)] GetNextPoolItem_some(1) [OF assms(1) _ refl] assms
  by (cases "pl_bits pl \<inter> {unat (pl_cursor pl)..} = {}") (auto simp: pool_inv_cursor)

lemma FreePoolItem_inv:
  assumes inv: "pool_inv pl" and ps: "pl_pool pl = Some ps" and k: "k < length ps"
    and free: "FreePoolItem (Some k) pl = (r, pl')"
  shows "pool_inv pl' \<and> r = Ret () \<and> pl_bits pl' = pl_bits pl - {k}"
  using FreePoolItem_used [OF inv ps] FreePoolItem_idle [OF inv ps k] free inv
    pool_inv_released [OF inv ps k]
  by (cases "k \<in> pl_bits pl") auto

lemma pool_step_inv: "pool_step E pl pl' \<Longrightarrow> pool_inv pl \<Longrightarrow> pool_inv pl'"
proof (induction rule: pool_step.induct)
  case (create pl n b d t a pl')
  then show ?case using CreatePool_inv by blast
next
  case (item pl r pl')
  then show ?case using CreatePoolItem_Ret producers.acquire_invar by (metis prod.collapse prod.inject)
next
  case (free pl ps k r pl')
  then show ?case using FreePoolItem_inv by blast
next
  case (rewind pl)
  then show ?case by (simp add: InitPoolItemCursor_def pool_inv_cursor)
next
  case (iterate pl r pl')
  then show ?case using GetNextPoolItem_inv by blast
next
  case (destroy pl tr pl' tr')
  then show ?case using DestroyPool_inv by blast
qed

interpretation pool_client: step_system "\<lambda>pl. pl = new_pool" "pool_step E" pool_inv for E
  by unfold_locales (auto simp: pool_inv_new dest: pool_step_inv)


definition demo_pool :: pool where
  "demo_pool = \<lparr>pl_cursor = 0, pl_size = 2, pl_used = 0,
     pl_pool = Some (replicate 2 (setURIInfo ''b'' ''Q'' False True new_producer)),
     pl_created = True, pl_bitsetsize = 8, pl_bits = {}, pl_error = ''''\<rparr>"

lemma demo_pool_step: "pool_step good_env new_pool demo_pool"
  by (rule pool_step.create [where n = 2 and b = "''b''" and d = "''Q''" and t = False and a = True])
    (simp_all add: new_pool_def demo_pool_def CreatePool_def MAX_BITSET_SIZE_def)

lemma demo_pool_inv: "pool_inv demo_pool"
  using pool_step_inv [OF demo_pool_step pool_inv_new] .


text \<open>
  \<^verbatim>\<open>CreatePoolItem\<close> returns NULL exactly when all producers are in use.  Otherwise it
  returns the idle producer with the lowest position, marks it used, stores its position in it,
  counts it, and leaves every other producer as it was.
\<close>

theorem CreatePoolItem_lowest_idle:
  assumes inv: "pool_inv pl" and call: "CreatePoolItem pl = (r, pl')"
  shows "(card (pl_bits pl) = unat (GetPoolSize pl) \<and> r = Ret None \<and> pl_bits pl' = pl_bits pl
          \<and> pl_pool pl' = pl_pool pl \<and> GetLastError pl' = ''In CreatePoolItem(), Pool Overflow.'')
     \<or> (\<exists>k ps. card (pl_bits pl) < unat (GetPoolSize pl) \<and> r = Ret (Some k)
          \<and> k < unat (GetPoolSize pl) \<and> k \<notin> pl_bits pl \<and> {..<k} \<subseteq> pl_bits pl
          \<and> pl_pool pl = Some ps \<and> pl_pool pl' = Some (ps[k := setIndex (of_nat k) (ps ! k)])
          \<and> pl_bits pl' = insert k (pl_bits pl)
          \<and> unat (GetUsedPoolItemCount pl') = Suc (unat (GetUsedPoolItemCount pl)))"
proof (cases "pl_bits pl = {..<unat (pl_size pl)}")
  case True
  with CreatePoolItem_full [OF inv True] call show ?thesis
    by (auto simp: GetPoolSize_def GetLastError_def)
next
  case False
  show ?thesis
  proof (rule CreatePoolItem_free [OF inv False])
    fix k ps
    assume ps: "pl_pool pl = Some ps" and k: "k < length ps" "k \<notin> pl_bits pl"
      and least: "\<forall>j<k. j \<in> pl_bits pl"
      and eq: "CreatePoolItem pl = (Ret (Some k),
           pl\<lparr>pl_pool := Some (ps[k := setIndex (of_nat k) (ps ! k)]),
              pl_bits := insert k (pl_bits pl), pl_used := pl_used pl + 1\<rparr>)"
    have "card (pl_bits pl) < unat (pl_size pl)"
      using subset_full_iff [OF pool_invD(2) [OF inv]] k pool_invD(5) [OF inv ps] by auto
    moreover have "unat (pl_used pl + 1) = Suc (unat (pl_used pl))"
      using unat_used_inc [OF inv k(2)] card_insert_fresh [OF pool_inv_finite [OF inv] k(2)]
        pool_invD(3) [OF inv] by simp
    ultimately show ?thesis
      using ps k least eq call pool_invD(5) [OF inv ps]
      by (auto simp: GetPoolSize_def GetUsedPoolItemCount_def)
  qed
qed

theorem CreatePoolItem_lowest_idle_witness:
  "fst (CreatePoolItem demo_pool) = Ret (Some 0) \<and> pl_bits (snd (CreatePoolItem demo_pool)) = {0}"
  using CreatePoolItem_lowest_idle [OF demo_pool_inv surjective_pairing]
  by (auto simp: demo_pool_def GetPoolSize_def)

text \<open>
  C12: taking a producer and giving it back restores the set of producers in use, and giving it
  back a second time changes nothing: the position stored in it was reset to \<^verbatim>\<open>npos\<close>.
\<close>

theorem FreePoolItem_roundtrip:
  assumes inv: "pool_inv pl" and acq: "CreatePoolItem pl = (Ret (Some k), pl1)"
    and free: "FreePoolItem (Some k) pl1 = (r, pl2)"
  shows "r = Ret () \<and> pl_bits pl2 = pl_bits pl \<and> pl_used pl2 = pl_used pl
     \<and> FreePoolItem (Some k) pl2 = (Ret (), pl2)"
proof -
  have acq': "pool_acquire pl = (Some k, pl1)" using acq by (simp add: pool_acquire_def)
  then have inv1: "pool_inv pl1" using producers.acquire_invar [OF inv] by blast
  have k1: "k \<in> pl_bits pl1" using producers.acquire_Some [OF inv acq'] by simp
  show ?thesis
  proof (rule pool_release_eq [OF inv1 k1])
    fix ps assume ps: "pl_pool pl1 = Some ps" and len: "k < length ps"
    note used = FreePoolItem_used [OF inv1 ps k1]
    with free have pl2: "r = Ret ()" "pl2 = pl1\<lparr>pl_pool := Some (ps[k := setIndex npos (ps ! k)]),
                 pl_bits := pl_bits pl1 - {k}, pl_used := pl_used pl1 - 1\<rparr>" by auto
    have bits: "pl_bits pl2 = pl_bits pl"
      using producers.release_after_acquire [OF inv acq'] free by (simp add: pool_release_def)
    have inv2: "pool_inv pl2" unfolding pl2 by (rule pool_inv_released [OF inv1 ps len k1])
    have "unat (pl_used pl2) = unat (pl_used pl)"
      using pool_invD(3) [OF inv] pool_invD(3) [OF inv2] bits by simp
    moreover have "FreePoolItem (Some k) pl2 = (Ret (), pl2)"
      by (rule FreePoolItem_idle [OF inv2, of "ps[k := setIndex npos (ps ! k)]"])
        (use pl2 len in \<open>simp_all\<close>)
    ultimately show ?thesis using pl2(1) bits by (simp add: word_unat_eq_iff)
  qed
qed

theorem FreePoolItem_roundtrip_witness:
  "\<exists>pl1. CreatePoolItem demo_pool = (Ret (Some 0), pl1)
     \<and> pl_bits (snd (FreePoolItem (Some 0) pl1)) = {}"
proof -
  have "fst (CreatePoolItem demo_pool) = Ret (Some 0)"
    using CreatePoolItem_free [OF demo_pool_inv]
    by (force simp: demo_pool_def CreatePoolItem_def scan_bits.simps MAX_BITSET_SIZE_def)
  then obtain pl1 where c: "CreatePoolItem demo_pool = (Ret (Some 0), pl1)"
    by (metis prod.collapse)
  have "pl_bits (snd (FreePoolItem (Some 0) pl1)) = pl_bits demo_pool"
    using FreePoolItem_roundtrip [OF demo_pool_inv c surjective_pairing] by blast
  with c show ?thesis by (auto simp: demo_pool_def)
qed

text \<open>
  \<^verbatim>\<open>InitPoolItemCursor\<close> followed by \<^verbatim>\<open>GetNextPoolItem\<close> until it returns NULL visits the
  producers in use, each once and in increasing position; with more rounds than producers in
  use the iteration ends, and it leaves the cursor at the start.
\<close>

theorem pool_iteration_complete:
  assumes inv: "pool_inv pl" and fuel: "card (pl_bits pl) < rounds"
  shows "collect_items rounds (InitPoolItemCursor pl)
           = (sorted_list_of_set (pl_bits pl), InitPoolItemCursor pl)"
  using collect_items_from_cursor [of "InitPoolItemCursor pl" rounds] assms
  by (simp add: InitPoolItemCursor_def pool_inv_cursor)

theorem pool_iteration_complete_witness:
  "collect_items 2 (InitPoolItemCursor (snd (CreatePoolItem demo_pool)))
     = ([0], InitPoolItemCursor (snd (CreatePoolItem demo_pool)))"
proof -
  have inv: "pool_inv (snd (CreatePoolItem demo_pool))"
    using CreatePoolItem_Ret [OF demo_pool_inv] producers.acquire_invar [OF demo_pool_inv]
    by (metis prod.collapse snd_conv)
  have bits: "pl_bits (snd (CreatePoolItem demo_pool)) = {0}"
    by (simp add: demo_pool_def CreatePoolItem_def scan_bits.simps MAX_BITSET_SIZE_def)
  from pool_iteration_complete [OF inv, of 2] bits show ?thesis by simp
qed

text \<open>
  for every size below \<open>2\<^sup>3\<^sup>2 - 8\<close>, \<^verbatim>\<open>CreatePool\<close> accepts exactly the sizes that fit the bit
  set, fewer than \<^verbatim>\<open>MAX_BITSET_SIZE\<close> = 524280 producers; when memory suffices the new pool
  holds that many idle producers with the given settings.
\<close>

theorem CreatePool_bound:
  assumes n: "unat n < 2 ^ 32 - 8" and mem: "new_array E (unat n) = None"
    and fresh: "pool_inv pl" "pl_pool pl = None"
  shows "if unat n < 524280
         then \<exists>pl'. CreatePool E n b d t a pl = (Inr True, pl') \<and> pool_inv pl' \<and> IsCreated pl'
                \<and> GetPoolSize pl' = n \<and> pl_bits pl' = {}
                \<and> pl_pool pl' = Some (replicate (unat n) (setURIInfo b d t a new_producer))
         else fst (CreatePool E n b d t a pl) = Inr False"
proof (cases "unat n < 524280")
  case True
  then have "fst (CreatePool E n b d t a pl) = Inr True"
    using CreatePool_guard [OF n] bitset_size_value [OF n] mem
    by (simp add: CreatePool_def MAX_BITSET_SIZE_def Let_def)
  then obtain pl' where c: "CreatePool E n b d t a pl = (Inr True, pl')" by (metis prod.collapse)
  from CreatePool_inv [OF n fresh c] c True show ?thesis
    by (auto simp: IsCreated_def GetPoolSize_def)
next
  case False
  then show ?thesis
    using CreatePool_guard [OF n] bitset_size_value [OF n]
    by (simp add: CreatePool_def MAX_BITSET_SIZE_def Let_def)
qed

theorem CreatePool_bound_witness:
  "(\<exists>pl'. CreatePool good_env 2 ''b'' ''Q'' False True new_pool = (Inr True, pl') \<and> pool_inv pl')
   \<and> fst (CreatePool good_env 524280 ''b'' ''Q'' False True new_pool) = Inr False"
  using CreatePool_bound [of 2 good_env new_pool "''b''" "''Q''" False True]
    CreatePool_bound [of 524280 good_env new_pool "''b''" "''Q''" False True]
  by (auto simp: pool_inv_new new_pool_def [THEN arg_cong [where f = pl_pool]])

text \<open>
  the size check can be passed by overflow: for the eight largest \<^verbatim>\<open>unsigned int\<close> sizes the
  computed bit set size wraps around to 0, so \<^verbatim>\<open>CreatePool\<close> does not report ``max bitset size is
  over'' but goes on to allocate the array, and a pool created that way never hands out a
  producer.
\<close>

theorem CreatePool_size_wraps:
  assumes n: "2 ^ 32 - 8 \<le> unat n" and call: "CreatePool E n b d t a pl = (r, pl')"
  shows "pl_bitsetsize pl' = 0 \<and> r \<noteq> Inr False \<and> fst (CreatePoolItem pl') = Ret None"
proof -
  from call bitset_size_wraps [OF n] have z: "pl_bitsetsize pl' = 0" and r: "r \<noteq> Inr False"
    by (auto simp: CreatePool_def Let_def split: if_splits option.splits)
  then show ?thesis using u32_le_npos by (simp add: CreatePoolItem_def scan_bits.simps)
qed

theorem CreatePool_size_wraps_witness:
  "fst (CreatePool (good_env\<lparr>new_array := \<lambda>n. Some ''std::bad_alloc''\<rparr>) 0xFFFFFFFF ''b'' ''Q'' False True
      new_pool) \<noteq> Inr False"
  using CreatePool_size_wraps [of "0xFFFFFFFF" "good_env\<lparr>new_array := \<lambda>n. Some ''std::bad_alloc''\<rparr>"
      "''b''" "''Q''" False True new_pool, OF _ surjective_pairing]
  by simp

text \<open>
  \<^verbatim>\<open>DestroyPool\<close> deletes the destination of every producer that has one, exactly once and from
  the last producer to the first, and empties the pool; the flag behind \<^verbatim>\<open>IsCreated\<close> stays set,
  and every later \<^verbatim>\<open>CreatePoolItem\<close> fails with an overflow.
\<close>

theorem DestroyPool_releases:
  assumes inv: "pool_inv pl" and ps: "pl_pool pl = Some ps"
    and call: "DestroyPool E pl tr = (Ret (), pl', tr')"
  shows "tr' = rev (map DeleteDestination (held_destinations (rev ps))) @ tr
     \<and> pool_inv pl' \<and> pl_pool pl' = None \<and> GetPoolSize pl' = 0 \<and> GetUsedPoolItemCount pl' = 0
     \<and> IsCreated pl' = IsCreated pl \<and> fst (CreatePoolItem pl') = Ret None"
proof -
  note st = DestroyPool_state [OF call]
  with ps have d: "destroy_elements E (rev ps) tr = (Ret (), tr')" by simp
  have inv': "pool_inv pl'" by (rule DestroyPool_inv [OF inv call])
  have "fst (CreatePoolItem pl') = Ret None"
    using CreatePoolItem_full [OF inv'] st by simp
  with destroy_elements_trace [OF d] inv' st show ?thesis
    by (simp add: GetPoolSize_def GetUsedPoolItemCount_def IsCreated_def)
qed

theorem DestroyPool_releases_witness:
  "\<exists>pl' tr'. DestroyPool good_env demo_pool [] = (Ret (), pl', tr') \<and> pl_pool pl' = None"
proof -
  have c: "DestroyPool good_env demo_pool [] =
     (Ret (), demo_pool\<lparr>pl_pool := None, pl_size := 0, pl_cursor := 0, pl_used := 0, pl_bits := {}\<rparr>, [])"
    by (simp add: DestroyPool_def demo_pool_def numeral_2_eq_2 producer_destroy_def
        producer_cleanup_def setURIInfo_def new_producer_def)
  have p: "pl_pool demo_pool = Some (replicate 2 (setURIInfo ''b'' ''Q'' False True new_producer))"
    by (simp add: demo_pool_def)
  from c DestroyPool_releases [OF demo_pool_inv p c] show ?thesis by blast
qed

end
