(* ===== verification/Producer_Pool_Mgr.thy ===== *)
theory Producer_Pool_Mgr
  imports Producer_Pool
begin

text \<open>
  \<^verbatim>\<open>CDSAMQProducerPoolMgr\<close> (DSAMQProducerPoolMgr.h, DSAMQProducerPoolMgr.cpp): the facade an
  application sends through.  It owns the producer pool, the connection, the resource
  manager and the session pool, and creates the connection lazily on the first send.  This
  theory models one caller; \<open>Producer_Threads\<close> runs several callers against one manager.
\<close>

section \<open>State\<close>

record mgr =
  mg_brokerURI :: string
  mg_destURI :: string
  mg_usetopic :: bool
  mg_clientack :: bool
  mg_connection :: "addr option"
  mg_resourcemgr :: "addr option"
  mg_error :: string
  mg_started :: bool
  mg_sessionpool :: "addr option"
  mg_pool :: pool

section \<open>Operations\<close>

definition new_mgr :: mgr where
  "new_mgr = \<lparr>mg_brokerURI = '''', mg_destURI = '''', mg_usetopic = False, mg_clientack = True,
     mg_connection = None, mg_resourcemgr = None, mg_error = '''', mg_started = False,
     mg_sessionpool = None, mg_pool = new_pool\<rparr>"

definition ReleaseResource :: "mgr \<Rightarrow> trace \<Rightarrow> mgr \<times> trace" where
  "ReleaseResource m tr =
     (case mg_resourcemgr m of
        None \<Rightarrow> (m, tr)
      | Some r \<Rightarrow> (m\<lparr>mg_resourcemgr := None\<rparr>, DeleteResourceLifecycleManager r # tr))"

text \<open>\<^verbatim>\<open>~CDSAMQProducerPoolMgr\<close>: the body, and the destruction of the member \<^verbatim>\<open>m_pool\<close>.\<close>

definition mgr_destroy :: "env \<Rightarrow> mgr \<Rightarrow> trace \<Rightarrow> unit outcome \<times> trace" where
  "mgr_destroy E m0 tr0 =
     (case ReleaseResource m0 tr0 of
        (m, tr) \<Rightarrow> (case DestroyPool E (mg_pool m) tr of (r, _, tr') \<Rightarrow> (r, tr')))"

definition GetBrokerURI :: "mgr \<Rightarrow> string" where
  "GetBrokerURI m = mg_brokerURI m"

definition GetDestURI :: "mgr \<Rightarrow> string" where
  "GetDestURI m = mg_destURI m"

definition mgr_getlasterror :: "mgr \<Rightarrow> string" where
  "mgr_getlasterror m = mg_error m"

text \<open>
  The \<^verbatim>\<open>try\<close> block both overloads of \<^verbatim>\<open>CreatePool\<close> end with: the result of the pool's own
  \<^verbatim>\<open>CreatePool\<close> is not looked at, the pool it throws is caught.
\<close>

definition create_pool_try :: "env \<Rightarrow> u32 \<Rightarrow> mgr \<Rightarrow> bool \<times> mgr" where
  "create_pool_try E nPoolSize m =
     (case CreatePool E nPoolSize (mg_brokerURI m) (mg_destURI m) (mg_usetopic m) (mg_clientack m)
             (mg_pool m) of
        (Inr _, pl) \<Rightarrow> (True, m\<lparr>mg_pool := pl\<rparr>)
      | (Inl e, pl) \<Rightarrow>
          (False, m\<lparr>mg_pool := pl,
             mg_error := ''in CreatePool, exception occured, '' @ GetLastError e\<rparr>))"

definition mgr_CreatePool3 :: "env \<Rightarrow> u32 \<Rightarrow> string \<Rightarrow> string \<Rightarrow> mgr \<Rightarrow> bool \<times> mgr" where
  "mgr_CreatePool3 E nPoolSize strBrokerURI strDestURI m =
     (if IsCreated (mg_pool m) then
        (True, m\<lparr>mg_error := ''in CreatePool, already created pool''\<rparr>)
      else if strBrokerURI = [] \<or> strDestURI = [] then
        (False, m\<lparr>mg_error := ''in CreatePool, broker or destination URI empty''\<rparr>)
      else
        create_pool_try E (if nPoolSize > 50 then 50 else nPoolSize)
          (m\<lparr>mg_brokerURI := strBrokerURI, mg_destURI := strDestURI\<rparr>))"

definition mgr_CreatePool5 :: "env \<Rightarrow> u32 \<Rightarrow> string \<Rightarrow> string \<Rightarrow> bool \<Rightarrow> bool \<Rightarrow> mgr \<Rightarrow> bool \<times> mgr" where
  "mgr_CreatePool5 E nPoolSize strBrokerURI strDestURI bUseTopic bClientAck m =
     (if IsCreated (mg_pool m) then
        (True, m\<lparr>mg_error := ''in CreatePool, already created pool''\<rparr>)
      else
        create_pool_try E (if nPoolSize > 50 then 50 else nPoolSize)
          (m\<lparr>mg_brokerURI := strBrokerURI, mg_destURI := strDestURI,
             mg_usetopic := bUseTopic, mg_clientack := bClientAck\<rparr>))"

text \<open>
  \<^verbatim>\<open>CreateSessionPool\<close> in pieces.  First an old connection is closed and deleted, outside any
  handler.  Then comes the \<^verbatim>\<open>try\<close> body in two halves, cut where \<^verbatim>\<open>m_bStartedConnection\<close> becomes
  true (the point other threads can see).  A piece ends with \<open>Go\<close> (continue), with
  \<open>Return\<close> (a \<^verbatim>\<open>return\<close> statement) or with \<open>Raise\<close> (an exception the outer handler sees).
\<close>

datatype flow = Go | Return bool | Raise exn

definition drop_connection :: "env \<Rightarrow> mgr \<Rightarrow> trace \<Rightarrow> exn option \<times> mgr \<times> trace" where
  "drop_connection E m tr0 =
     (case mg_connection m of
        None \<Rightarrow> (None, m, tr0)
      | Some c \<Rightarrow>
          (let tr = CloseConnection c # tr0 in
           case close_connection E tr of
             Some x \<Rightarrow> (Some x, m, tr)
           | None \<Rightarrow> (None, m\<lparr>mg_connection := None\<rparr>, DeleteConnection c # tr)))"

definition csp_connect :: "env \<Rightarrow> mgr \<Rightarrow> trace \<Rightarrow> flow \<times> mgr \<times> trace" where
  "csp_connect E m0 tr0 =
     (let tr = CreateConnection (mg_brokerURI m0) # tr0 in
      case create_connection E tr of
        Inl x \<Rightarrow> (Raise x, m0, tr)
      | Inr c \<Rightarrow>
          (let m = m0\<lparr>mg_connection := Some c\<rparr>; tr = StartConnection c # tr in
           case start_connection E tr of
             None \<Rightarrow> (Go, m\<lparr>mg_started := True\<rparr>, tr)
           | Some (CMSException e) \<Rightarrow>
               (Return False, m\<lparr>mg_connection := None\<rparr>,
                DeleteConnection c # Printf ''connection start, %s'' [e] # tr)
           | Some x \<Rightarrow> (Raise x, m, tr)))"

definition csp_pool :: "env \<Rightarrow> mgr \<Rightarrow> trace \<Rightarrow> flow \<times> mgr \<times> trace" where
  "csp_pool E m0 tr0 =
     (let (m, tr) = (case mg_resourcemgr m0 of
                       None \<Rightarrow> (m0, tr0)
                     | Some r \<Rightarrow> (m0\<lparr>mg_resourcemgr := None\<rparr>, DeleteResourceLifecycleManager r # tr0));
          tr = NewResourceLifecycleManager # tr
      in case new_resource_manager E tr of
           None \<Rightarrow>
             (let m = m\<lparr>mg_error := ''fail to CreateSessionPool, create resourcemanager''\<rparr> in
              case drop_connection E m tr of
                (Some x, m, tr) \<Rightarrow> (Raise x, m, tr)
              | (None, m, tr) \<Rightarrow> (Return False, m, tr))
         | Some r \<Rightarrow>
             (let m = m\<lparr>mg_resourcemgr := Some r\<rparr>; tr = AddConnection r (mg_connection m) # tr in
              case add_connection E tr of
                Some x \<Rightarrow> (Raise x, m, tr)
              | None \<Rightarrow>
                  (let mode = (if mg_clientack m then CLIENT_ACKNOWLEDGE else AUTO_ACKNOWLEDGE);
                       tr = NewSessionPool (mg_connection m) mode r # tr
                   in case new_session_pool E tr of
                        Inl x \<Rightarrow> (Raise x, m, tr)
                      | Inr sp \<Rightarrow> (Go, m\<lparr>mg_sessionpool := Some sp, mg_started := True\<rparr>, tr))))"

text \<open>
  The handler of the outer \<^verbatim>\<open>try\<close>.  When there is no connection object it neither returns
  false nor does anything else, so control reaches the final \<^verbatim>\<open>return true\<close>.
\<close>

definition csp_handler :: "env \<Rightarrow> exn \<Rightarrow> mgr \<Rightarrow> trace \<Rightarrow> bool outcome \<times> mgr \<times> trace" where
  "csp_handler E x m0 tr0 =
     (case x of
        CMSException e \<Rightarrow>
          (let m = m0\<lparr>mg_error := ''fail to CreateSessionPool, create connection exception, '' @ e\<rparr> in
           case mg_connection m of
             None \<Rightarrow> (Ret True, m, tr0)
           | Some c \<Rightarrow>
               if mg_started m then
                 (let tr = CloseConnection c # tr0 in
                  case close_connection E tr of
                    Some y \<Rightarrow> (Throw y, m, tr)
                  | None \<Rightarrow> (Ret False, m\<lparr>mg_started := False, mg_connection := None\<rparr>,
                             DeleteConnection c # tr))
               else (Ret False, m\<lparr>mg_connection := None\<rparr>, DeleteConnection c # tr0))
      | y \<Rightarrow> (Throw y, m0, tr0))"

definition csp_finish :: "env \<Rightarrow> flow \<times> mgr \<times> trace \<Rightarrow> bool outcome \<times> mgr \<times> trace" where
  "csp_finish E r =
     (case r of
        (Go, m, tr) \<Rightarrow> (Ret True, m, tr)
      | (Return b, m, tr) \<Rightarrow> (Ret b, m, tr)
      | (Raise x, m, tr) \<Rightarrow> csp_handler E x m tr)"

definition CreateSessionPool :: "env \<Rightarrow> mgr \<Rightarrow> trace \<Rightarrow> bool outcome \<times> mgr \<times> trace" where
  "CreateSessionPool E m tr =
     (if \<not> IsCreated (mg_pool m) then
        (Ret False, m\<lparr>mg_error := ''in CreateSessionPool, not created producer pool, ''
                        @ ''must previous create producer pool, call CreatePool()''\<rparr>, tr)
      else if mg_started m then (Ret True, m, tr)
      else
        (case drop_connection E m tr of
           (Some x, m, tr) \<Rightarrow> (Throw x, m, tr)
         | (None, m, tr) \<Rightarrow>
             (case csp_connect E m tr of
                (Go, m, tr) \<Rightarrow> csp_finish E (csp_pool E m tr)
              | r \<Rightarrow> csp_finish E r)))"

text \<open>
  \<^verbatim>\<open>sendmessage\<close>, cut at the points where the caller holds no lock: obtaining a session
  (\<open>Inl\<close> is the value the function ends with), taking a producer, sending with it, and
  giving session and producer back.  The two scoped \<^verbatim>\<open>lock_guard\<close>s have no effect on a single
  caller; \<open>Producer_Threads\<close> models them.
\<close>

definition mgr_take_session :: "env \<Rightarrow> mgr \<Rightarrow> trace \<Rightarrow> (bool outcome + addr) \<times> mgr \<times> trace" where
  "mgr_take_session E m tr0 =
     (case mg_sessionpool m of
        None \<Rightarrow> (Inl (Undefined NullDereference), m, tr0)
      | Some sp \<Rightarrow>
          (let tr = TakeSession sp # tr0 in
           case take_session E tr of
             Inr (Some s) \<Rightarrow> (Inr s, m, tr)
           | Inr None \<Rightarrow>
               (Inl (Ret False), m\<lparr>mg_error := ''in sendmessage, fail to get session, NULL''\<rparr>, tr)
           | Inl (CMSException e) \<Rightarrow>
               (Inl (Ret False), m\<lparr>mg_error := ''in sendmessage, fail to get session, '' @ e\<rparr>, tr)
           | Inl x \<Rightarrow> (Inl (Throw x), m, tr)))"

definition mgr_acquire :: "mgr \<Rightarrow> nat option outcome \<times> mgr" where
  "mgr_acquire m = (case CreatePoolItem (mg_pool m) of (r, pl) \<Rightarrow> (r, m\<lparr>mg_pool := pl\<rparr>))"

definition mgr_overflow :: "mgr \<Rightarrow> mgr" where
  "mgr_overflow m = m\<lparr>mg_error := ''fail to sendmessage, '' @ GetLastError (mg_pool m)\<rparr>"

definition mgr_send :: "env \<Rightarrow> mgr \<Rightarrow> addr \<Rightarrow> nat \<Rightarrow> string \<Rightarrow> trace \<Rightarrow> bool outcome \<times> mgr \<times> trace" where
  "mgr_send E m session k strMessage tr =
     (case pl_pool (mg_pool m) of
        None \<Rightarrow> (Undefined UseAfterFree, m, tr)
      | Some ps \<Rightarrow>
          (case producer_sendmessage E (ps ! k) (Some session) strMessage tr of
             (r, p, tr') \<Rightarrow>
               (let m' = m\<lparr>mg_pool := mg_pool m\<lparr>pl_pool := Some (ps[k := p])\<rparr>\<rparr> in
                case r of
                  Ret False \<Rightarrow>
                    (Ret False, m'\<lparr>mg_error := ''fail to sendmessage, '' @ producer_getlasterror p\<rparr>, tr')
                | _ \<Rightarrow> (r, m', tr'))))"

definition session_close :: "env \<Rightarrow> addr \<Rightarrow> trace \<Rightarrow> unit outcome \<times> trace" where
  "session_close E session tr0 =
     (let tr = CloseSession session # tr0 in
      case close_session E tr of None \<Rightarrow> (Ret (), tr) | Some x \<Rightarrow> (Throw x, tr))"

definition mgr_free :: "nat \<Rightarrow> mgr \<Rightarrow> unit outcome \<times> mgr" where
  "mgr_free k m = (case FreePoolItem (Some k) (mg_pool m) of (r, pl) \<Rightarrow> (r, m\<lparr>mg_pool := pl\<rparr>))"

text \<open>From the session onwards.\<close>

definition mgr_send_with :: "env \<Rightarrow> string \<Rightarrow> addr \<Rightarrow> mgr \<Rightarrow> trace \<Rightarrow> bool outcome \<times> mgr \<times> trace" where
  "mgr_send_with E strMessage session m tr =
     (case mgr_acquire m of
        (Throw x, m) \<Rightarrow> (Throw x, m, tr)
      | (Undefined f, m) \<Rightarrow> (Undefined f, m, tr)
      | (Ret None, m) \<Rightarrow>
          (case session_close E session tr of
             (Ret _, tr) \<Rightarrow> (Ret False, mgr_overflow m, tr)
           | (Throw x, tr) \<Rightarrow> (Throw x, mgr_overflow m, tr)
           | (Undefined f, tr) \<Rightarrow> (Undefined f, mgr_overflow m, tr))
      | (Ret (Some k), m) \<Rightarrow>
          (case mgr_send E m session k strMessage tr of
             (Throw x, m, tr) \<Rightarrow> (Throw x, m, tr)
           | (Undefined f, m, tr) \<Rightarrow> (Undefined f, m, tr)
           | (Ret bSent, m, tr) \<Rightarrow>
               (case session_close E session tr of
                  (Throw x, tr) \<Rightarrow> (Throw x, m, tr)
                | (Undefined f, tr) \<Rightarrow> (Undefined f, m, tr)
                | (Ret _, tr) \<Rightarrow>
                    (case mgr_free k m of
                       (Throw x, m) \<Rightarrow> (Throw x, m, tr)
                     | (Undefined f, m) \<Rightarrow> (Undefined f, m, tr)
                     | (Ret _, m) \<Rightarrow> (Ret bSent, m, tr)))))"

definition mgr_sendmessage :: "env \<Rightarrow> string \<Rightarrow> mgr \<Rightarrow> trace \<Rightarrow> bool outcome \<times> mgr \<times> trace" where
  "mgr_sendmessage E strMessage m tr =
     (if \<not> IsCreated (mg_pool m) then
        (Ret False, m\<lparr>mg_error := ''fail to sendmessage, not created object pool''\<rparr>, tr)
      else
        (case (if mg_started m then (Ret True, m, tr) else CreateSessionPool E m tr) of
           (Ret True, m, tr) \<Rightarrow>
             (case mgr_take_session E m tr of
                (Inl r, m, tr) \<Rightarrow> (r, m, tr)
              | (Inr session, m, tr) \<Rightarrow> mgr_send_with E strMessage session m tr)
         | r \<Rightarrow> r))"

section \<open>Lemmas\<close>

text \<open>A producer may change as long as its position does not.\<close>

lemma pool_inv_update_element:
  assumes inv: "pool_inv pl" and ps: "pl_pool pl = Some ps"
    and pos: "k < length ps \<Longrightarrow> p_position p = p_position (ps ! k)"
  shows "pool_inv (pl\<lparr>pl_pool := Some (ps[k := p])\<rparr>)"
proof (rule pool_inv_SomeI)
  fix i assume "i < length (ps[k := p])"
  then have i: "i < length ps" by simp
  show "slot_ok (pl_bits (pl\<lparr>pl_pool := Some (ps[k := p])\<rparr>)) i (ps[k := p] ! i)"
    using pool_invD(7) [OF inv ps i] pos i by (cases "i = k") (simp_all add: slot_ok_def)
qed (use pool_invD(1,2,3) [OF inv] pool_invD(5,6) [OF inv ps] in \<open>simp_all\<close>)

text \<open>The fields of the manager other than its pool and its error text.\<close>

definition same_settings :: "mgr \<Rightarrow> mgr \<Rightarrow> bool" where
  "same_settings m m' \<longleftrightarrow> mg_brokerURI m' = mg_brokerURI m \<and> mg_destURI m' = mg_destURI m
     \<and> mg_usetopic m' = mg_usetopic m \<and> mg_clientack m' = mg_clientack m
     \<and> mg_connection m' = mg_connection m \<and> mg_resourcemgr m' = mg_resourcemgr m
     \<and> mg_started m' = mg_started m \<and> mg_sessionpool m' = mg_sessionpool m"

lemma same_settings_refl [simp]: "same_settings m m"
  by (simp add: same_settings_def)

lemma same_settings_trans [trans]:
  "same_settings a b \<Longrightarrow> same_settings b c \<Longrightarrow> same_settings a c"
  by (simp add: same_settings_def)

lemma same_settings_started: "same_settings m m' \<Longrightarrow> mg_started m' = mg_started m"
  by (simp add: same_settings_def)

lemma mgr_acquire_eq:
  assumes "pool_inv (mg_pool m)"
  shows "mgr_acquire m = (Ret (fst (pool_acquire (mg_pool m))), m\<lparr>mg_pool := snd (pool_acquire (mg_pool m))\<rparr>)"
  using CreatePoolItem_Ret [OF assms] by (simp add: mgr_acquire_def)

lemma mgr_free_eq:
  assumes "pool_inv (mg_pool m)" and "k \<in> pl_bits (mg_pool m)"
  shows "mgr_free k m = (Ret (), m\<lparr>mg_pool := pool_release k (mg_pool m)\<rparr>)"
proof (rule pool_release_eq [OF assms])
  fix ps assume "pl_pool (mg_pool m) = Some ps"
  from FreePoolItem_used [OF assms(1) this assms(2)] show ?thesis
    by (simp add: mgr_free_def pool_release_def)
qed

lemma mgr_send_effect:
  assumes inv: "pool_inv (mg_pool m)" and k: "k \<in> pl_bits (mg_pool m)"
    and call: "mgr_send E m s k text tr = (r, m', tr')"
  shows "pool_inv (mg_pool m')" and "pl_bits (mg_pool m') = pl_bits (mg_pool m)"
    and "pl_size (mg_pool m') = pl_size (mg_pool m)"
    and "pl_created (mg_pool m') = pl_created (mg_pool m)" and "same_settings m m'"
    and "\<exists>p q. producer_sendmessage E p (Some s) text tr = (r, q, tr')"
proof -
  have "\<exists>ps p. pl_pool (mg_pool m) = Some ps
      \<and> producer_sendmessage E (ps ! k) (Some s) text tr = (r, p, tr')
      \<and> mg_pool m' = mg_pool m\<lparr>pl_pool := Some (ps[k := p])\<rparr> \<and> same_settings m m'"
  proof (rule pool_release_eq [OF inv k])
    fix ps assume ps: "pl_pool (mg_pool m) = Some ps"
    obtain r0 p tr0 where c: "producer_sendmessage E (ps ! k) (Some s) text tr = (r0, p, tr0)"
      by (cases "producer_sendmessage E (ps ! k) (Some s) text tr")
    from call ps c show ?thesis
      by (cases r0) (auto simp: mgr_send_def Let_def same_settings_def split: bool.splits)
  qed
  then obtain ps p where ps: "pl_pool (mg_pool m) = Some ps"
    and c: "producer_sendmessage E (ps ! k) (Some s) text tr = (r, p, tr')"
    and m': "mg_pool m' = mg_pool m\<lparr>pl_pool := Some (ps[k := p])\<rparr>" and ss: "same_settings m m'"
    by blast
  show "pool_inv (mg_pool m')"
    unfolding m' by (rule pool_inv_update_element [OF inv ps producer_sendmessage_position [OF c]])
  show "pl_bits (mg_pool m') = pl_bits (mg_pool m)" "pl_size (mg_pool m') = pl_size (mg_pool m)"
    "pl_created (mg_pool m') = pl_created (mg_pool m)" by (simp_all add: m')
  show "same_settings m m'" by (rule ss)
  show "\<exists>p q. producer_sendmessage E p (Some s) text tr = (r, q, tr')" using c by blast
qed

lemma session_close_cases:
  obtains (ok) "close_session E (CloseSession s # tr) = None"
      and "session_close E s tr = (Ret (), CloseSession s # tr)"
  | (fail) x where "close_session E (CloseSession s # tr) = Some x"
      and "session_close E s tr = (Throw x, CloseSession s # tr)"
  by (cases "close_session E (CloseSession s # tr)") (auto simp: session_close_def)

lemma pool_acquire_created [simp]: "pl_created (snd (pool_acquire pl)) = pl_created pl"
  by (auto simp: pool_acquire_def CreatePoolItem_def Let_def split: sum.splits option.splits)

lemma pool_release_created [simp]: "pl_created (pool_release k pl) = pl_created pl"
  by (auto simp: pool_release_def FreePoolItem_def Let_def split: option.splits)

text \<open>What a send does once the caller has a session.\<close>

definition send_with_ok :: "env \<Rightarrow> mgr \<Rightarrow> trace \<Rightarrow> bool outcome \<Rightarrow> mgr \<Rightarrow> trace \<Rightarrow> bool" where
  "send_with_ok E m tr r m' tr' \<longleftrightarrow>
     pool_inv (mg_pool m') \<and> pl_size (mg_pool m') = pl_size (mg_pool m)
     \<and> pl_created (mg_pool m') = pl_created (mg_pool m) \<and> same_settings m m'
     \<and> (\<forall>f. r \<noteq> Undefined f)
     \<and> (\<forall>b. r = Ret b \<longrightarrow>
          pl_bits (mg_pool m') = pl_bits (mg_pool m)
          \<and> accepted E tr' = accepted E tr + (if b then 1 else 0)
          \<and> live_messages E tr' = live_messages E tr
          \<and> open_sessions E tr' = open_sessions E tr - 1)"

lemma close_deltas [simp]:
  "sent_delta E (CloseSession s) tr = 0"
  "message_delta E (CloseSession s) tr = 0"
  "session_delta E (CloseSession s) tr = - 1"
  by (simp_all add: delta_defs)

lemma mgr_send_with_overflow:
  assumes inv: "pool_inv (mg_pool m)" and acq: "pool_acquire (mg_pool m) = (None, pl)"
    and call: "mgr_send_with E text s m tr = (r, m', tr')"
  shows "send_with_ok E m tr r m' tr'"
proof -
  have pl: "pool_inv pl" "unat (pl_size pl) = unat (pl_size (mg_pool m))"
      "pl_bits pl = pl_bits (mg_pool m)" "pl_created pl = pl_created (mg_pool m)"
    using producers.acquire_invar [OF inv acq] producers.acquire_None [OF inv acq]
      pool_acquire_created [of "mg_pool m"] acq by auto
  have "mg_pool m' = pl \<and> same_settings m m' \<and> tr' = CloseSession s # tr
      \<and> (r = Ret False \<or> (\<exists>x. r = Throw x))"
    using call mgr_acquire_eq [OF inv] acq
    by (cases E s tr rule: session_close_cases)
      (auto simp: mgr_send_with_def mgr_overflow_def same_settings_def)
  with pl show ?thesis by (auto simp: send_with_ok_def word_unat_eq_iff)
qed

lemma mgr_send_with_item:
  assumes inv: "pool_inv (mg_pool m)" and acq: "pool_acquire (mg_pool m) = (Some k, pl)"
    and call: "mgr_send_with E text s m tr = (r, m', tr')"
  shows "send_with_ok E m tr r m' tr'"
proof -
  let ?m1 = "m\<lparr>mg_pool := pl\<rparr>"
  note acq_facts = producers.acquire_invar [OF inv acq] producers.acquire_Some [OF inv acq]
  have inv1: "pool_inv (mg_pool ?m1)" and k1: "k \<in> pl_bits (mg_pool ?m1)" using acq_facts by auto
  have size1: "pl_size pl = pl_size (mg_pool m)" using acq_facts by (simp add: word_unat_eq_iff)
  have created1: "pl_created pl = pl_created (mg_pool m)"
    using pool_acquire_created [of "mg_pool m"] acq by simp
  obtain r2 m2 tr2 where snd2: "mgr_send E ?m1 s k text tr = (r2, m2, tr2)"
    by (cases "mgr_send E ?m1 s k text tr")
  note eff = mgr_send_effect [OF inv1 k1 snd2]
  obtain p q where ps: "producer_sendmessage E p (Some s) text tr = (r2, q, tr2)" using eff(6) by blast
  have ss: "same_settings m m2" using eff(5) by (simp add: same_settings_def)
  have k2: "k \<in> pl_bits (mg_pool m2)" using eff(2) k1 by simp
  have free: "mgr_free k m2 = (Ret (), m2\<lparr>mg_pool := pool_release k (mg_pool m2)\<rparr>)"
    by (rule mgr_free_eq [OF eff(1) k2])
  have bits: "pl_bits (pool_release k (mg_pool m2)) = pl_bits (mg_pool m)"
    using producers.release_inuse [OF eff(1) k2] eff(2) acq_facts by auto
  have rel: "pool_inv (pool_release k (mg_pool m2))
      \<and> pl_size (pool_release k (mg_pool m2)) = pl_size (mg_pool m)"
    using producers.release_invar [OF eff(1) k2] eff(3) size1 by (simp add: word_unat_eq_iff)
  have start: "mgr_send_with E text s m tr =
     (case (r2, m2, tr2) of
             (Throw x, m, tr) \<Rightarrow> (Throw x, m, tr)
           | (Undefined f, m, tr) \<Rightarrow> (Undefined f, m, tr)
           | (Ret bSent, m, tr) \<Rightarrow>
               (case session_close E s tr of
                  (Throw x, tr) \<Rightarrow> (Throw x, m, tr)
                | (Undefined f, tr) \<Rightarrow> (Undefined f, m, tr)
                | (Ret _, tr) \<Rightarrow>
                    (case mgr_free k m of
                       (Throw x, m) \<Rightarrow> (Throw x, m, tr)
                     | (Undefined f, m) \<Rightarrow> (Undefined f, m, tr)
                     | (Ret _, m) \<Rightarrow> (Ret bSent, m, tr))))"
    using mgr_acquire_eq [OF inv] acq snd2 by (simp add: mgr_send_with_def)
  show ?thesis
  proof (cases r2)
    case (Ret b)
    with ps producer_sendmessage_accepted [OF ps] producer_sendmessage_sessions [OF ps]
      producer_sendmessage_live [of E p _ "text" tr b q tr2]
    have t: "accepted E tr2 = accepted E tr + (if b then 1 else 0)"
      "open_sessions E tr2 = open_sessions E tr" "live_messages E tr2 = live_messages E tr" by auto
    show ?thesis
    proof (cases E s tr2 rule: session_close_cases)
      case ok
      from call have "r = Ret b" "m' = m2\<lparr>mg_pool := pool_release k (mg_pool m2)\<rparr>"
        "tr' = CloseSession s # tr2"
        unfolding start Ret prod.case outcome.case ok(2) free by simp_all
      with bits rel ss eff(4) created1 t show ?thesis
        by (simp add: send_with_ok_def same_settings_def)
    next
      case (fail x)
      from call have "r = Throw x" "m' = m2"
        unfolding start Ret prod.case outcome.case fail(2) by simp_all
      with eff ss created1 size1 show ?thesis by (simp add: send_with_ok_def)
    qed
  next
    case Throw
    with call start ss eff created1 size1 show ?thesis
      by (auto simp: send_with_ok_def)
  next
    case (Undefined f)
    with ps show ?thesis
      by (auto simp: producer_sendmessage_def split: producer_split)
  qed
qed

lemma mgr_send_with_ok:
  assumes "pool_inv (mg_pool m)" and "mgr_send_with E text s m tr = (r, m', tr')"
  shows "send_with_ok E m tr r m' tr'"
proof -
  obtain i pl where "pool_acquire (mg_pool m) = (i, pl)" by (cases "pool_acquire (mg_pool m)")
  with assms show ?thesis
    by (cases i) (blast intro: mgr_send_with_overflow mgr_send_with_item)+
qed

text \<open>Connecting leaves the pool and the resource tallies alone.\<close>

lemmas csp_defs = CreateSessionPool_def drop_connection_def csp_connect_def csp_pool_def
  csp_handler_def csp_finish_def

lemmas csp_split = producer_split flow.splits bool.splits

lemma drop_connection_frame:
  "drop_connection E m tr = (r, m', tr') \<Longrightarrow>
     mg_pool m' = mg_pool m \<and> mg_started m' = mg_started m \<and> mg_sessionpool m' = mg_sessionpool m
     \<and> (r = None \<longrightarrow> mg_connection m' = None)
     \<and> accepted E tr' = accepted E tr \<and> live_messages E tr' = live_messages E tr
     \<and> open_sessions E tr' = open_sessions E tr"
  by (cases "mg_connection m"; cases "close_connection E (CloseConnection (the (mg_connection m)) # tr)")
    (auto simp: drop_connection_def Let_def delta_defs, metis not_None_eq)

lemma csp_connect_frame:
  "csp_connect E m tr = (r, m', tr') \<Longrightarrow>
     mg_pool m' = mg_pool m \<and> mg_sessionpool m' = mg_sessionpool m
     \<and> (case r of
          Go \<Rightarrow> mg_started m' \<and> mg_connection m' \<noteq> None
        | Return b \<Rightarrow> \<not> b \<and> mg_started m' = mg_started m \<and> mg_connection m' = None
        | Raise x \<Rightarrow> mg_started m' = mg_started m
            \<and> (mg_connection m' = mg_connection m \<and> create_connection E tr' = Inl x
               \<or> mg_connection m' \<noteq> None \<and> (\<forall>e. x \<noteq> CMSException e)))
     \<and> accepted E tr' = accepted E tr \<and> live_messages E tr' = live_messages E tr
     \<and> open_sessions E tr' = open_sessions E tr"
  by (auto simp: csp_connect_def Let_def delta_defs split: csp_split)

lemma csp_pool_frame:
  assumes "csp_pool E m tr = (r, m', tr')" and "\<forall>tr. new_resource_manager E tr \<noteq> None"
  shows "mg_pool m' = mg_pool m \<and> mg_connection m' = mg_connection m
     \<and> (case r of
          Go \<Rightarrow> mg_started m' \<and> mg_sessionpool m' \<noteq> None
        | Return b \<Rightarrow> False
        | Raise x \<Rightarrow> mg_started m' = mg_started m \<and> mg_sessionpool m' = mg_sessionpool m)
     \<and> accepted E tr' = accepted E tr \<and> live_messages E tr' = live_messages E tr
     \<and> open_sessions E tr' = open_sessions E tr"
proof -
  obtain nr where "\<And>tr. new_resource_manager E tr = Some (nr tr)"
    using that [of "\<lambda>tr. the (new_resource_manager E tr)"] assms(2) by simp
  with assms(1) show ?thesis
    by (auto simp: csp_pool_def Let_def delta_defs split: csp_split)
qed

lemma csp_handler_frame:
  "csp_handler E x m tr = (r, m', tr') \<Longrightarrow>
     mg_pool m' = mg_pool m \<and> mg_sessionpool m' = mg_sessionpool m
     \<and> (r = Ret True \<longrightarrow> mg_connection m = None \<and> (\<exists>e. x = CMSException e)
          \<and> mg_connection m' = None \<and> mg_started m' = mg_started m)
     \<and> (r = Ret False \<longrightarrow> mg_connection m' = None \<and> \<not> mg_started m')
     \<and> (\<forall>f. r \<noteq> Undefined f)
     \<and> accepted E tr' = accepted E tr \<and> live_messages E tr' = live_messages E tr
     \<and> open_sessions E tr' = open_sessions E tr"
  by (auto simp: csp_handler_def Let_def delta_defs split: csp_split)

text \<open>
  The ways \<^verbatim>\<open>CreateSessionPool\<close> can return on a manager that is not connected.  The second one is
  the exception of \<^verbatim>\<open>createConnection\<close> that is reported as success.
\<close>

definition connected :: "mgr \<Rightarrow> bool" where
  "connected m \<longleftrightarrow> mg_started m \<and> mg_sessionpool m \<noteq> None \<and> mg_connection m \<noteq> None"

definition csp_result :: "env \<Rightarrow> mgr \<Rightarrow> bool outcome \<Rightarrow> mgr \<Rightarrow> trace \<Rightarrow> bool" where
  "csp_result E m r m' tr' \<longleftrightarrow>
     mg_pool m' = mg_pool m \<and> (\<forall>f. r \<noteq> Undefined f)
     \<and> (r = Ret True \<longrightarrow> connected m'
          \<or> \<not> mg_started m' \<and> mg_connection m' = None \<and> mg_sessionpool m' = mg_sessionpool m
             \<and> (\<exists>e. create_connection E tr' = Inl (CMSException e)))
     \<and> (r = Ret False \<longrightarrow> \<not> mg_started m' \<and> mg_connection m' = None)"

lemma CreateSessionPool_result:
  assumes created: "IsCreated (mg_pool m)" and fresh: "\<not> mg_started m"
    and nonnull: "\<forall>tr. new_resource_manager E tr \<noteq> None"
    and call: "CreateSessionPool E m tr = (r, m', tr')"
  shows "csp_result E m r m' tr' \<and> accepted E tr' = accepted E tr
     \<and> live_messages E tr' = live_messages E tr \<and> open_sessions E tr' = open_sessions E tr"
proof -
  obtain x1 m1 tr1 where d: "drop_connection E m tr = (x1, m1, tr1)"
    by (cases "drop_connection E m tr")
  note D = drop_connection_frame [OF d]
  show ?thesis
  proof (cases x1)
    case (Some x)
    with created fresh call d D show ?thesis
      by (auto simp: CreateSessionPool_def csp_result_def)
  next
    case None
    obtain f2 m2 tr2 where c: "csp_connect E m1 tr1 = (f2, m2, tr2)" by (cases "csp_connect E m1 tr1")
    note C = csp_connect_frame [OF c]
    show ?thesis
    proof (cases f2)
      case Go
      obtain f3 m3 tr3 where p: "csp_pool E m2 tr2 = (f3, m3, tr3)" by (cases "csp_pool E m2 tr2")
      note P = csp_pool_frame [OF p nonnull]
      have eq: "csp_finish E (f3, m3, tr3) = (r, m', tr')"
        using created fresh call d None c Go p by (simp add: CreateSessionPool_def)
      show ?thesis
      proof (cases f3)
        case (Raise x)
        with eq have h: "csp_handler E x m3 tr3 = (r, m', tr')" by (simp add: csp_finish_def)
        from csp_handler_frame [OF h] Raise Go D C P None show ?thesis
          by (auto simp: csp_result_def)
      qed (use eq Go D C P None in \<open>auto simp: csp_result_def csp_finish_def connected_def\<close>)
    next
      case (Return b)
      with created fresh call d None c C D show ?thesis
        by (auto simp: CreateSessionPool_def csp_finish_def csp_result_def)
    next
      case (Raise x)
      with created fresh call d None c
      have h: "csp_handler E x m2 tr2 = (r, m', tr')"
        by (simp add: CreateSessionPool_def csp_finish_def)
      have same: "tr' = tr2" if "r = Ret True"
        using h that by (auto simp: csp_handler_def Let_def split: csp_split)
      from csp_handler_frame [OF h] Raise D C None fresh same show ?thesis
        by (auto simp: csp_result_def)
    qed
  qed
qed

section \<open>Invariant of the manager\<close>

text \<open>
  The pool is consistent, and a manager whose flag says that the connection is started has a
  connection and a session pool to send through.
\<close>

definition mgr_inv :: "mgr \<Rightarrow> bool" where
  "mgr_inv m \<longleftrightarrow> pool_inv (mg_pool m) \<and> (mg_started m \<longrightarrow> connected m)"

text \<open>
  What the code relies on: \<^verbatim>\<open>new\<close> never yields NULL, and \<^verbatim>\<open>createConnection\<close> does not fail with a
  \<^verbatim>\<open>CMSException\<close> (the case the handler mistakes for success).
\<close>

definition new_nonnull :: "env \<Rightarrow> bool" where
  "new_nonnull E \<longleftrightarrow> (\<forall>tr. new_resource_manager E tr \<noteq> None)"

definition connection_created :: "env \<Rightarrow> bool" where
  "connection_created E \<longleftrightarrow> (\<forall>tr e. create_connection E tr \<noteq> Inl (CMSException e))"

lemma same_settings_connected: "same_settings m m' \<Longrightarrow> connected m' = connected m"
  by (simp add: same_settings_def connected_def)

text \<open>The part of a send before the producer is taken.\<close>

lemma mgr_take_session_effect:
  assumes "mgr_take_session E m tr = (r, m', tr')"
  shows "mg_pool m' = mg_pool m \<and> same_settings m m' \<and> accepted E tr' = accepted E tr
     \<and> live_messages E tr' = live_messages E tr
     \<and> open_sessions E tr' = open_sessions E tr + (case r of Inr _ \<Rightarrow> 1 | Inl _ \<Rightarrow> 0)
     \<and> (mg_sessionpool m \<noteq> None \<longrightarrow> (\<forall>f. r \<noteq> Inl (Undefined f))) \<and> r \<noteq> Inl (Ret True)"
  using assms
  by (auto simp: mgr_take_session_def Let_def delta_defs same_settings_def split: producer_split)

lemma mgr_sendmessage_connected:
  assumes inv: "pool_inv (mg_pool m)" and created: "IsCreated (mg_pool m)" and conn: "connected m"
    and call: "mgr_sendmessage E text m tr = (r, m', tr')"
  shows "pool_inv (mg_pool m') \<and> connected m' \<and> IsCreated (mg_pool m')
     \<and> pl_size (mg_pool m') = pl_size (mg_pool m) \<and> (\<forall>f. r \<noteq> Undefined f)
     \<and> (\<forall>b. r = Ret b \<longrightarrow>
          pl_bits (mg_pool m') = pl_bits (mg_pool m)
          \<and> accepted E tr' = accepted E tr + (if b then 1 else 0)
          \<and> live_messages E tr' = live_messages E tr \<and> open_sessions E tr' = open_sessions E tr)"
proof -
  obtain x1 m1 tr1 where t: "mgr_take_session E m tr = (x1, m1, tr1)"
    by (cases "mgr_take_session E m tr")
  note T = mgr_take_session_effect [OF t]
  have conn1: "connected m1" using T conn same_settings_connected by blast
  have eq: "mgr_sendmessage E text m tr =
      (case x1 of Inl r \<Rightarrow> (r, m1, tr1) | Inr s \<Rightarrow> mgr_send_with E text s m1 tr1)"
    using created conn t by (simp add: mgr_sendmessage_def connected_def split: sum.split)
  show ?thesis
  proof (cases x1)
    case (Inl q)
    with call eq have "r = q" "m' = m1" "tr' = tr1" by simp_all
    with T Inl inv created conn conn1 show ?thesis by (auto simp: connected_def)
  next
    case (Inr s)
    with call eq have c: "mgr_send_with E text s m1 tr1 = (r, m', tr')" by simp
    have inv1: "pool_inv (mg_pool m1)" using T inv by simp
    from mgr_send_with_ok [OF inv1 c] T Inr conn1 created show ?thesis
      by (auto simp: send_with_ok_def same_settings_connected IsCreated_def)
  qed
qed

lemma mgr_sendmessage_invar:
  assumes inv: "mgr_inv m" and nn: "new_nonnull E" and cc: "connection_created E"
    and call: "mgr_sendmessage E text m tr = (Ret b, m', tr')"
  shows "mgr_inv m' \<and> pl_size (mg_pool m') = pl_size (mg_pool m)
     \<and> pl_bits (mg_pool m') = pl_bits (mg_pool m)
     \<and> accepted E tr' = accepted E tr + (if b then 1 else 0)
     \<and> live_messages E tr' = live_messages E tr \<and> open_sessions E tr' = open_sessions E tr"
proof (cases "IsCreated (mg_pool m)")
  case False
  with call inv show ?thesis
    by (auto simp: mgr_sendmessage_def mgr_inv_def connected_def)
next
  case created: True
  have p: "pool_inv (mg_pool m)" using inv by (simp add: mgr_inv_def)
  show ?thesis
  proof (cases "mg_started m")
    case True
    then have "connected m" using inv by (simp add: mgr_inv_def)
    from mgr_sendmessage_connected [OF p created this call] show ?thesis
      by (simp add: mgr_inv_def)
  next
    case False
    obtain r1 m1 tr1 where c: "CreateSessionPool E m tr = (r1, m1, tr1)"
      by (cases "CreateSessionPool E m tr")
    note R = CreateSessionPool_result [OF created False nn [unfolded new_nonnull_def] c]
    have pool1: "mg_pool m1 = mg_pool m" using R by (simp add: csp_result_def)
    consider (t) "r1 = Ret True" | (f) "r1 \<noteq> Ret True" by blast
    then show ?thesis
    proof cases
      case t
      then have conn1: "connected m1" using R cc by (auto simp: csp_result_def connection_created_def)
      have "mgr_sendmessage E text m1 tr1 = mgr_sendmessage E text m tr"
        using c t conn1 created False pool1 by (simp add: mgr_sendmessage_def connected_def)
      with call have call1: "mgr_sendmessage E text m1 tr1 = (Ret b, m', tr')" by simp
      from mgr_sendmessage_connected [OF _ _ conn1 call1] p created pool1 R show ?thesis
        by (simp add: mgr_inv_def)
    next
      case f
      have "(Ret b, m', tr') = (r1, m1, tr1)"
        using call c f created False by (auto simp: mgr_sendmessage_def split: outcome.splits bool.splits)
      with f R p show ?thesis by (auto simp: csp_result_def mgr_inv_def)
    qed
  qed
qed

lemma mgr_sendmessage_defined:
  assumes inv: "mgr_inv m" and nn: "new_nonnull E" and cc: "connection_created E"
    and call: "mgr_sendmessage E text m tr = (r, m', tr')"
  shows "r \<noteq> Undefined f"
proof (cases "IsCreated (mg_pool m) \<and> \<not> mg_started m")
  case True
  obtain r1 m1 tr1 where c: "CreateSessionPool E m tr = (r1, m1, tr1)"
    by (cases "CreateSessionPool E m tr")
  note R = CreateSessionPool_result [OF _ _ nn [unfolded new_nonnull_def] c]
  show ?thesis
  proof (cases "r1 = Ret True")
    case t: True
    then have conn1: "connected m1" and pool1: "mg_pool m1 = mg_pool m"
      using R True cc by (auto simp: csp_result_def connection_created_def)
    have "mgr_sendmessage E text m1 tr1 = mgr_sendmessage E text m tr"
      using c t conn1 True pool1 by (simp add: mgr_sendmessage_def connected_def)
    with call have "mgr_sendmessage E text m1 tr1 = (r, m', tr')" by simp
    from mgr_sendmessage_connected [OF _ _ conn1 this] inv True pool1 show ?thesis
      by (simp add: mgr_inv_def)
  next
    case f: False
    have "(r, m', tr') = (r1, m1, tr1)"
      using call c f True by (auto simp: mgr_sendmessage_def split: outcome.splits bool.splits)
    with R True show ?thesis by (simp add: csp_result_def)
  qed
next
  case False
  show ?thesis
  proof (cases "IsCreated (mg_pool m)")
    case True
    with False inv have "connected m" "pool_inv (mg_pool m)" by (simp_all add: mgr_inv_def)
    from mgr_sendmessage_connected [OF this(2) True this(1) call] show ?thesis by blast
  next
    case False
    with call show ?thesis by (auto simp: mgr_sendmessage_def)
  qed
qed

text \<open>Creating the pool through the manager.\<close>

lemma clamp_50: "unat (if n > 50 then 50 else n :: u32) = min (unat n) 50"
  by (simp add: word_less_nat_alt)

lemma create_pool_try_ok:
  assumes n: "unat n \<le> 50" and mem: "new_array E (unat n) = None"
    and fresh: "pool_inv (mg_pool m)" "pl_pool (mg_pool m) = None"
  obtains pl where "create_pool_try E n m = (True, m\<lparr>mg_pool := pl\<rparr>)" and "pool_inv pl"
    and "pl_size pl = n" and "pl_bits pl = {}" and "pl_created pl"
    and "pl_pool pl = Some (replicate (unat n)
           (setURIInfo (mg_brokerURI m) (mg_destURI m) (mg_usetopic m) (mg_clientack m) new_producer))"
proof -
  let ?c = "CreatePool E n (mg_brokerURI m) (mg_destURI m) (mg_usetopic m) (mg_clientack m) (mg_pool m)"
  from n have n': "unat n < 2 ^ 32 - 8" by simp
  have "fst ?c = Inr True"
    using n mem bitset_size_value [OF n'] by (simp add: CreatePool_def MAX_BITSET_SIZE_def Let_def)
  then obtain pl where c: "?c = (Inr True, pl)" by (metis prod.collapse)
  from CreatePool_inv [OF n' fresh c] c that [of pl] show thesis
    by (simp add: create_pool_try_def)
qed

section \<open>Properties\<close>

definition demo_mgr :: mgr where
  "demo_mgr = snd (mgr_CreatePool3 good_env 2 ''tcp://localhost'' ''Q'' new_mgr)"

lemma demo_mgr_pool: "demo_mgr = new_mgr\<lparr>mg_brokerURI := ''tcp://localhost'', mg_destURI := ''Q'',
    mg_pool := \<lparr>pl_cursor = 0, pl_size = 2, pl_used = 0,
     pl_pool = Some (replicate 2 (setURIInfo ''tcp://localhost'' ''Q'' False True new_producer)),
     pl_created = True, pl_bitsetsize = 8, pl_bits = {}, pl_error = ''''\<rparr>\<rparr>"
  by (simp add: demo_mgr_def mgr_CreatePool3_def create_pool_try_def new_mgr_def new_pool_def
      IsCreated_def CreatePool_def MAX_BITSET_SIZE_def)

lemma demo_mgr_inv: "mgr_inv demo_mgr"
proof -
  have "pool_inv (mg_pool demo_mgr)"
    by (rule pool_inv_SomeI [of _ "replicate 2 (setURIInfo ''tcp://localhost'' ''Q'' False True new_producer)"])
      (auto simp: demo_mgr_pool MAX_BITSET_SIZE_def slot_ok_def setURIInfo_def new_producer_def)
  then show ?thesis by (simp add: mgr_inv_def demo_mgr_pool new_mgr_def)
qed

lemma good_env_assms: "new_nonnull good_env" "connection_created good_env"
  by (simp_all add: new_nonnull_def connection_created_def)


lemma replicate_2: "replicate 2 x = [x, x]"
  by (simp add: numeral_2_eq_2)

lemma demo_mgr_send:
  "\<exists>m' tr'. mgr_sendmessage good_env ''hi'' demo_mgr [] = (Ret True, m', tr')"
  by (simp add: demo_mgr_pool replicate_2 new_mgr_def mgr_sendmessage_def IsCreated_def csp_defs
      mgr_take_session_def mgr_send_with_def mgr_acquire_def CreatePoolItem_def scan_bits.simps
      MAX_BITSET_SIZE_def mgr_send_def producer_sendmessage_def sendmessage_body_def
      ensure_destination_def send_text_def session_close_def mgr_free_def FreePoolItem_def
      getIndex_def setIndex_def setURIInfo_def new_producer_def npos_def delete_message_def)


text \<open>
  from a state that satisfies the invariant, \<^verbatim>\<open>sendmessage\<close> never has undefined behaviour: it
  does not call through a NULL session pool or producer array, whatever the library answers
  (as long as \<^verbatim>\<open>createConnection\<close> does not throw a \<^verbatim>\<open>CMSException\<close>).
\<close>

theorem mgr_send_defined:
  assumes "mgr_inv m" and "new_nonnull E" and "connection_created E"
  shows "fst (mgr_sendmessage E text m tr) \<noteq> Undefined f"
  by (cases "mgr_sendmessage E text m tr") (simp add: mgr_sendmessage_defined [OF assms])

theorem mgr_send_defined_witness:
  "fst (mgr_sendmessage good_env ''hi'' demo_mgr []) \<noteq> Undefined NullDereference"
  by (rule mgr_send_defined [OF demo_mgr_inv good_env_assms])

text \<open>
  C11: \<^verbatim>\<open>CreateSessionPool\<close> on a manager that is not connected returns true only if it is connected
  afterwards (flag set, connection and session pool present), with one exception: when
  \<^verbatim>\<open>createConnection\<close> throws a \<^verbatim>\<open>CMSException\<close> the result is true although nothing was created.
  When it returns false, no connection is left over and the next call starts afresh.
\<close>

theorem CreateSessionPool_contract:
  assumes "IsCreated (mg_pool m)" and "\<not> mg_started m" and "new_nonnull E"
    and "CreateSessionPool E m tr = (Ret b, m', tr')"
  shows "(b \<and> connected m')
     \<or> (b \<and> \<not> mg_started m' \<and> mg_connection m' = None \<and> mg_sessionpool m' = mg_sessionpool m
          \<and> (\<exists>e. create_connection E tr' = Inl (CMSException e)))
     \<or> (\<not> b \<and> \<not> mg_started m' \<and> mg_connection m' = None)"
  using CreateSessionPool_result [OF assms(1,2) assms(3) [unfolded new_nonnull_def] assms(4)]
  by (cases b) (auto simp: csp_result_def)

lemma demo_connect:
  "CreateSessionPool good_env demo_mgr [] =
     (Ret True, demo_mgr\<lparr>mg_connection := Some 1, mg_started := True, mg_resourcemgr := Some 3,
        mg_sessionpool := Some 4\<rparr>,
      [NewSessionPool (Some 1) CLIENT_ACKNOWLEDGE 3, AddConnection 3 (Some 1),
       NewResourceLifecycleManager, StartConnection 1, CreateConnection ''tcp://localhost''])"
  by (simp add: demo_mgr_pool new_mgr_def IsCreated_def csp_defs)

theorem CreateSessionPool_contract_witness:
  "connected (demo_mgr\<lparr>mg_connection := Some 1, mg_started := True, mg_resourcemgr := Some 3,
        mg_sessionpool := Some 4\<rparr>)"
  using CreateSessionPool_contract [OF _ _ good_env_assms(1) demo_connect]
  by (simp add: demo_mgr_pool new_mgr_def IsCreated_def)

text \<open>
  when \<^verbatim>\<open>createConnection\<close> throws a \<^verbatim>\<open>CMSException\<close> on the first send of a manager,
  \<^verbatim>\<open>CreateSessionPool\<close> reports success and \<^verbatim>\<open>sendmessage\<close> calls \<^verbatim>\<open>takeSession\<close> through the
  NULL session pool.
\<close>

theorem mgr_send_connection_failure:
  assumes created: "IsCreated (mg_pool m)" and fresh: "\<not> mg_started m" "mg_connection m = None"
    "mg_sessionpool m = None"
    and fail: "create_connection E (CreateConnection (mg_brokerURI m) # tr) = Inl (CMSException e)"
  shows "fst (CreateSessionPool E m tr) = Ret True
     \<and> fst (mgr_sendmessage E text m tr) = Undefined NullDereference"
proof -
  have "CreateSessionPool E m tr =
     (Ret True, m\<lparr>mg_error := ''fail to CreateSessionPool, create connection exception, '' @ e\<rparr>,
      CreateConnection (mg_brokerURI m) # tr)"
    using assms by (simp add: csp_defs)
  with assms show ?thesis by (simp add: mgr_sendmessage_def mgr_take_session_def)
qed

theorem mgr_send_connection_failure_witness:
  "fst (mgr_sendmessage (good_env\<lparr>create_connection := \<lambda>_. Inl (CMSException ''bad URI'')\<rparr>)
          ''hi'' demo_mgr []) = Undefined NullDereference"
  using mgr_send_connection_failure [of demo_mgr
      "good_env\<lparr>create_connection := \<lambda>_. Inl (CMSException ''bad URI'')\<rparr>" "[]" "''bad URI''" "''hi''"]
  by (simp add: demo_mgr_pool new_mgr_def IsCreated_def)

text \<open>
  \<^verbatim>\<open>CreatePool\<close> of the manager never makes more than 50 producers: on a fresh manager and with
  memory available, both overloads return true and create \<open>min n 50\<close> idle producers that carry
  the given settings; a second call changes nothing but the error text.
\<close>

theorem mgr_CreatePool_clamps:
  assumes fresh: "pool_inv (mg_pool m)" "pl_pool (mg_pool m) = None" "\<not> IsCreated (mg_pool m)"
    and mem: "\<forall>k \<le> 50. new_array E k = None" and uris: "b \<noteq> []" "d \<noteq> []"
  shows "\<exists>m3 m5. mgr_CreatePool3 E n b d m = (True, m3) \<and> mgr_CreatePool5 E n b d t a m = (True, m5)
     \<and> pool_inv (mg_pool m3) \<and> pool_inv (mg_pool m5)
     \<and> unat (GetPoolSize (mg_pool m3)) = min (unat n) 50
     \<and> unat (GetPoolSize (mg_pool m5)) = min (unat n) 50
     \<and> pl_pool (mg_pool m5) = Some (replicate (min (unat n) 50) (setURIInfo b d t a new_producer))
     \<and> pl_pool (mg_pool m3) = Some (replicate (min (unat n) 50)
          (setURIInfo b d (mg_usetopic m) (mg_clientack m) new_producer))
     \<and> mgr_CreatePool3 E n' b' d' m3 = (True, m3\<lparr>mg_error := ''in CreatePool, already created pool''\<rparr>)"
proof -
  let ?k = "if n > 50 then 50 else n :: u32"
  let ?m3 = "m\<lparr>mg_brokerURI := b, mg_destURI := d\<rparr>"
  let ?m5 = "m\<lparr>mg_brokerURI := b, mg_destURI := d, mg_usetopic := t, mg_clientack := a\<rparr>"
  have k: "unat ?k \<le> 50" and mem': "new_array E (unat ?k) = None"
    using clamp_50 [of n] mem by simp_all
  obtain pl3 where p3: "create_pool_try E ?k ?m3 = (True, ?m3\<lparr>mg_pool := pl3\<rparr>)" "pool_inv pl3"
      "pl_size pl3 = ?k" "pl_created pl3"
      "pl_pool pl3 = Some (replicate (unat ?k) (setURIInfo b d (mg_usetopic m) (mg_clientack m) new_producer))"
    by (rule create_pool_try_ok [OF k mem', of ?m3]) (use fresh in simp_all)
  obtain pl5 where p5: "create_pool_try E ?k ?m5 = (True, ?m5\<lparr>mg_pool := pl5\<rparr>)" "pool_inv pl5"
      "pl_size pl5 = ?k" "pl_pool pl5 = Some (replicate (unat ?k) (setURIInfo b d t a new_producer))"
    by (rule create_pool_try_ok [OF k mem', of ?m5]) (use fresh in simp_all)
  have "mgr_CreatePool3 E n b d m = (True, ?m3\<lparr>mg_pool := pl3\<rparr>)"
    using p3(1) fresh(3) uris by (simp add: mgr_CreatePool3_def)
  moreover have "mgr_CreatePool5 E n b d t a m = (True, ?m5\<lparr>mg_pool := pl5\<rparr>)"
    using p5(1) fresh(3) by (simp add: mgr_CreatePool5_def)
  moreover have "mgr_CreatePool3 E n' b' d' (?m3\<lparr>mg_pool := pl3\<rparr>)
      = (True, ?m3\<lparr>mg_pool := pl3, mg_error := ''in CreatePool, already created pool''\<rparr>)"
    using p3(4) by (simp add: mgr_CreatePool3_def IsCreated_def)
  ultimately show ?thesis
    using p3 p5 clamp_50 [of n]
    by (intro exI [of _ "?m3\<lparr>mg_pool := pl3\<rparr>"] exI [of _ "?m5\<lparr>mg_pool := pl5\<rparr>"])
      (simp add: GetPoolSize_def)
qed

theorem mgr_CreatePool_clamps_witness:
  "\<exists>m3. mgr_CreatePool3 good_env 1000 ''b'' ''Q'' new_mgr = (True, m3)
     \<and> unat (GetPoolSize (mg_pool m3)) = 50"
  using mgr_CreatePool_clamps [of new_mgr good_env "''b''" "''Q''" 1000 True True 1 "''x''" "''y''"]
    pool_inv_new
  by (fastforce simp: new_mgr_def new_pool_def IsCreated_def)

text \<open>
  if giving the session back throws, the exception leaves \<^verbatim>\<open>sendmessage\<close> before
  \<^verbatim>\<open>FreePoolItem\<close>: the producer that was taken stays marked as used for ever, so the pool has one
  producer less.
\<close>

theorem mgr_send_close_failure_leaks:
  assumes inv: "pool_inv (mg_pool m)" and free: "pool_acquire (mg_pool m) = (Some k, pl)"
    and sent: "mgr_send E (m\<lparr>mg_pool := pl\<rparr>) s k text tr = (Ret b, m1, tr1)"
    and fail: "close_session E (CloseSession s # tr1) = Some x"
  shows "mgr_send_with E text s m tr = (Throw x, m1, CloseSession s # tr1)
     \<and> k \<notin> pl_bits (mg_pool m) \<and> pl_bits (mg_pool m1) = insert k (pl_bits (mg_pool m))"
proof -
  note acq = producers.acquire_invar [OF inv free] producers.acquire_Some [OF inv free]
  have "pl_bits (mg_pool m1) = pl_bits pl"
    using mgr_send_effect(2) [OF _ _ sent] acq by simp
  with acq mgr_acquire_eq [OF inv] free sent fail show ?thesis
    by (simp add: mgr_send_with_def session_close_def)
qed

theorem mgr_send_close_failure_leaks_witness:
  "\<exists>m1 tr1. mgr_send_with (good_env\<lparr>close_session := \<lambda>_. Some (CMSException ''closed'')\<rparr>) ''hi'' 5
        demo_mgr [] = (Throw (CMSException ''closed''), m1, tr1)
     \<and> pl_bits (mg_pool m1) = {0}"
proof -
  let ?E = "good_env\<lparr>close_session := \<lambda>_. Some (CMSException ''closed'')\<rparr>"
  have inv: "pool_inv (mg_pool demo_mgr)" using demo_mgr_inv by (simp add: mgr_inv_def)
  let ?P = "setURIInfo ''tcp://localhost'' ''Q'' False True new_producer"
  let ?pl = "(mg_pool demo_mgr)\<lparr>pl_pool := Some [setIndex 0 ?P, ?P], pl_bits := {0}, pl_used := 1\<rparr>"
  have acq: "pool_acquire (mg_pool demo_mgr) = (Some 0, ?pl)"
    by (simp add: demo_mgr_pool replicate_2 pool_acquire_def CreatePoolItem_def scan_bits.simps
        MAX_BITSET_SIZE_def)
  have "\<exists>m1 tr1. mgr_send ?E (demo_mgr\<lparr>mg_pool := ?pl\<rparr>) 5 0 ''hi'' [] = (Ret True, m1, tr1)"
    by (simp add: mgr_send_def producer_sendmessage_def sendmessage_body_def ensure_destination_def
        send_text_def setIndex_def setURIInfo_def new_producer_def)
  then obtain m1 tr1 where
    s: "mgr_send ?E (demo_mgr\<lparr>mg_pool := ?pl\<rparr>) 5 0 ''hi'' [] = (Ret True, m1, tr1)" by blast
  from mgr_send_close_failure_leaks [OF inv acq s, of "CMSException ''closed''"]
  show ?thesis by (auto simp: demo_mgr_pool)
qed

end
