(* ===== verification/Producer_Threads.thy ===== *)
theory Producer_Threads
  imports Producer_Pool_Mgr
begin

text \<open>
  Several threads inside \<^verbatim>\<open>CDSAMQProducerPoolMgr::sendmessage\<close> of one manager.  The function is cut
  into the steps between which other threads can run: a section under \<^verbatim>\<open>lock_guard\<close> on
  \<^verbatim>\<open>m_mutex\<close> is one step, except that connecting is two, because \<^verbatim>\<open>CreateSessionPool\<close> sets the flag
  that other threads read without the lock before it has made the session pool.
\<close>

section \<open>Program counters and steps\<close>

datatype sm_pc =
    SM_Check
  | SM_Lock
  | SM_Pool
  | SM_Take
  | SM_Acquire addr
  | SM_Abort addr
  | SM_Send addr nat
  | SM_Close addr nat bool
  | SM_Free nat bool
  | SM_Done "bool outcome"

text \<open>\<^verbatim>\<open>CreateSessionPool\<close> up to the point where it sets the flag; \<open>None\<close> is ``go on with the pool''.\<close>

definition csp_first :: "env \<Rightarrow> mgr \<Rightarrow> trace \<Rightarrow> bool outcome option \<times> mgr \<times> trace" where
  "csp_first E m tr =
     (if \<not> IsCreated (mg_pool m) then
        (Some (Ret False), m\<lparr>mg_error := ''in CreateSessionPool, not created producer pool, ''
                        @ ''must previous create producer pool, call CreatePool()''\<rparr>, tr)
      else if mg_started m then (Some (Ret True), m, tr)
      else
        (case drop_connection E m tr of
           (Some x, m, tr) \<Rightarrow> (Some (Throw x), m, tr)
         | (None, m, tr) \<Rightarrow>
             (case csp_connect E m tr of
                (Go, m, tr) \<Rightarrow> (None, m, tr)
              | r \<Rightarrow> (case csp_finish E r of (b, m, tr) \<Rightarrow> (Some b, m, tr)))))"

definition after_connect :: "bool outcome \<Rightarrow> sm_pc" where
  "after_connect r = (if r = Ret True then SM_Take else SM_Done r)"

fun sm_step :: "env \<Rightarrow> string \<Rightarrow> sm_pc \<Rightarrow> mgr \<Rightarrow> trace \<Rightarrow> sm_pc \<times> mgr \<times> trace" where
  "sm_step E strMessage SM_Check m tr =
     (if \<not> IsCreated (mg_pool m) then
        (SM_Done (Ret False), m\<lparr>mg_error := ''fail to sendmessage, not created object pool''\<rparr>, tr)
      else (if mg_started m then SM_Take else SM_Lock, m, tr))"
| "sm_step E strMessage SM_Lock m tr =
     (case csp_first E m tr of
        (None, m, tr) \<Rightarrow> (SM_Pool, m, tr)
      | (Some r, m, tr) \<Rightarrow> (after_connect r, m, tr))"
| "sm_step E strMessage SM_Pool m tr =
     (case csp_finish E (csp_pool E m tr) of (r, m, tr) \<Rightarrow> (after_connect r, m, tr))"
| "sm_step E strMessage SM_Take m tr =
     (case mgr_take_session E m tr of
        (Inl r, m, tr) \<Rightarrow> (SM_Done r, m, tr)
      | (Inr session, m, tr) \<Rightarrow> (SM_Acquire session, m, tr))"
| "sm_step E strMessage (SM_Acquire session) m tr =
     (case mgr_acquire m of
        (Ret (Some k), m) \<Rightarrow> (SM_Send session k, m, tr)
      | (Ret None, m) \<Rightarrow> (SM_Abort session, m, tr)
      | (Throw x, m) \<Rightarrow> (SM_Done (Throw x), m, tr)
      | (Undefined f, m) \<Rightarrow> (SM_Done (Undefined f), m, tr))"
| "sm_step E strMessage (SM_Abort session) m tr =
     (case session_close E session tr of
        (Ret _, tr) \<Rightarrow> (SM_Done (Ret False), mgr_overflow m, tr)
      | (Throw x, tr) \<Rightarrow> (SM_Done (Throw x), mgr_overflow m, tr)
      | (Undefined f, tr) \<Rightarrow> (SM_Done (Undefined f), mgr_overflow m, tr))"
| "sm_step E strMessage (SM_Send session k) m tr =
     (case mgr_send E m session k strMessage tr of
        (Ret b, m, tr) \<Rightarrow> (SM_Close session k b, m, tr)
      | (Throw x, m, tr) \<Rightarrow> (SM_Done (Throw x), m, tr)
      | (Undefined f, m, tr) \<Rightarrow> (SM_Done (Undefined f), m, tr))"
| "sm_step E strMessage (SM_Close session k b) m tr =
     (case session_close E session tr of
        (Ret _, tr) \<Rightarrow> (SM_Free k b, m, tr)
      | (Throw x, tr) \<Rightarrow> (SM_Done (Throw x), m, tr)
      | (Undefined f, tr) \<Rightarrow> (SM_Done (Undefined f), m, tr))"
| "sm_step E strMessage (SM_Free k b) m tr =
     (case mgr_free k m of
        (Ret _, m) \<Rightarrow> (SM_Done (Ret b), m, tr)
      | (Throw x, m) \<Rightarrow> (SM_Done (Throw x), m, tr)
      | (Undefined f, m) \<Rightarrow> (SM_Done (Undefined f), m, tr))"
| "sm_step E strMessage (SM_Done r) m tr = (SM_Done r, m, tr)"

fun sm_run :: "nat \<Rightarrow> env \<Rightarrow> string \<Rightarrow> sm_pc \<Rightarrow> mgr \<Rightarrow> trace \<Rightarrow> sm_pc \<times> mgr \<times> trace" where
  "sm_run 0 E strMessage p m tr = (p, m, tr)"
| "sm_run (Suc n) E strMessage p m tr =
     (case sm_step E strMessage p m tr of (p', m', tr') \<Rightarrow> sm_run n E strMessage p' m' tr')"

section \<open>The interleaved system\<close>

record conc =
  c_mgr :: mgr
  c_trace :: trace
  c_pcs :: "nat \<Rightarrow> sm_pc"
  c_lock :: "nat option"

text \<open>
  Threads that are about to enter a locked section wait until the mutex is free; the thread in
  the middle of connecting holds it.
\<close>

fun enabled :: "nat option \<Rightarrow> nat \<Rightarrow> sm_pc \<Rightarrow> bool" where
  "enabled l i (SM_Done _) = False"
| "enabled l i SM_Pool = (l = Some i)"
| "enabled l i SM_Lock = (l = None)"
| "enabled l i (SM_Acquire _) = (l = None)"
| "enabled l i (SM_Free _ _) = (l = None)"
| "enabled l i _ = True"

definition lock_after :: "nat \<Rightarrow> sm_pc \<Rightarrow> sm_pc \<Rightarrow> nat option \<Rightarrow> nat option" where
  "lock_after i p p' l = (if p' = SM_Pool then Some i else if p = SM_Pool then None else l)"

inductive conc_step :: "env \<Rightarrow> (nat \<Rightarrow> string) \<Rightarrow> conc \<Rightarrow> conc \<Rightarrow> bool" for E msg where
  thread: "enabled (c_lock s) i (c_pcs s i) \<Longrightarrow>
     sm_step E (msg i) (c_pcs s i) (c_mgr s) (c_trace s) = (p', m', tr') \<Longrightarrow>
     conc_step E msg s (s\<lparr>c_mgr := m', c_trace := tr', c_pcs := (c_pcs s)(i := p'),
       c_lock := lock_after i (c_pcs s i) p' (c_lock s)\<rparr>)"

inductive_cases conc_stepE: "conc_step E msg s t"

definition conc_init :: "nat \<Rightarrow> mgr \<Rightarrow> trace \<Rightarrow> conc" where
  "conc_init n m tr = \<lparr>c_mgr = m, c_trace = tr,
     c_pcs = (\<lambda>i. if i < n then SM_Check else SM_Done (Ret False)), c_lock = None\<rparr>"

text \<open>The producer a thread has between taking it and giving it back.\<close>

fun holds :: "sm_pc \<Rightarrow> nat option" where
  "holds (SM_Send _ k) = Some k"
| "holds (SM_Close _ k _) = Some k"
| "holds (SM_Free k _) = Some k"
| "holds _ = None"

section \<open>One thread alone computes \<^verbatim>\<open>sendmessage\<close>\<close>

lemma CreateSessionPool_first:
  "CreateSessionPool E m tr =
     (case csp_first E m tr of
        (None, m1, tr1) \<Rightarrow> csp_finish E (csp_pool E m1 tr1)
      | (Some r, m1, tr1) \<Rightarrow> (r, m1, tr1))"
  by (auto simp: CreateSessionPool_def csp_first_def split: prod.split option.split flow.split)

lemma sm_run_Done [simp]: "sm_run n E text (SM_Done r) m tr = (SM_Done r, m, tr)"
  by (induction n) simp_all

lemma sm_run_add:
  "sm_run (a + b) E text p m tr =
     (case sm_run a E text p m tr of (p', m', tr') \<Rightarrow> sm_run b E text p' m' tr')"
  by (induction a arbitrary: p m tr) (auto split: prod.split)

lemma sm_run_finished:
  assumes "sm_run a E text p m tr = (SM_Done r, m', tr')" and "a \<le> n"
  shows "sm_run n E text p m tr = (SM_Done r, m', tr')"
  using sm_run_add [of a "n - a"] assms by simp

lemma sm_run_step:
  assumes "sm_step E text p m tr = (p1, m1, tr1)"
    and "sm_run a E text p1 m1 tr1 = (SM_Done r, m', tr')" and "Suc a \<le> n"
  shows "sm_run n E text p m tr = (SM_Done r, m', tr')"
proof -
  have "sm_run (Suc a) E text p m tr = (SM_Done r, m', tr')"
    using assms(1,2) by (simp only: sm_run.simps prod.case)
  then show ?thesis using assms(3) by (rule sm_run_finished)
qed

lemma sm_run_close:
  assumes "(case session_close E s tr of
              (Throw x, tr) \<Rightarrow> (Throw x, m, tr)
            | (Undefined f, tr) \<Rightarrow> (Undefined f, m, tr)
            | (Ret _, tr) \<Rightarrow>
                (case mgr_free k m of
                   (Throw x, m) \<Rightarrow> (Throw x, m, tr)
                 | (Undefined f, m) \<Rightarrow> (Undefined f, m, tr)
                 | (Ret _, m) \<Rightarrow> (Ret b, m, tr))) = (r, m', tr')"
  shows "sm_run 2 E text (SM_Close s k b) m tr = (SM_Done r, m', tr')"
proof (cases E s tr rule: session_close_cases)
  case ok
  obtain f m1 where f: "mgr_free k m = (f, m1)" by (cases "mgr_free k m")
  have "sm_run 1 E text (SM_Free k b) m (CloseSession s # tr) = (SM_Done r, m', tr')"
    using assms ok f by (cases f) simp_all
  then show ?thesis by (rule sm_run_step [rotated]) (simp_all add: ok)
next
  case (fail x)
  with assms have "sm_step E text (SM_Close s k b) m tr = (SM_Done r, m', tr')" by simp
  then show ?thesis by (rule sm_run_step [where a = 0]) simp_all
qed

lemma sm_run_acquire:
  assumes "mgr_send_with E text s m tr = (r, m', tr')"
  shows "sm_run 4 E text (SM_Acquire s) m tr = (SM_Done r, m', tr')"
proof -
  obtain a m1 where A: "mgr_acquire m = (a, m1)" by (cases "mgr_acquire m")
  consider (item) k where "a = Ret (Some k)" | (none) "a = Ret None" | (bad) "\<forall>i. a \<noteq> Ret i"
    by (metis not_None_eq)
  then show ?thesis
  proof cases
    case (item k)
    obtain b m2 tr2 where S: "mgr_send E m1 s k text tr = (b, m2, tr2)"
      by (cases "mgr_send E m1 s k text tr")
    have "sm_run 3 E text (SM_Send s k) m1 tr = (SM_Done r, m', tr')"
    proof (cases b)
      case (Ret c)
      from assms A item S Ret have "sm_run 2 E text (SM_Close s k c) m2 tr2 = (SM_Done r, m', tr')"
        by (intro sm_run_close) (simp add: mgr_send_with_def)
      then show ?thesis by (rule sm_run_step [rotated]) (simp_all add: S Ret)
    next
      case (Throw x)
      with assms A item S have "sm_step E text (SM_Send s k) m1 tr = (SM_Done r, m', tr')"
        by (auto simp: mgr_send_with_def)
      then show ?thesis by (rule sm_run_step [where a = 0]) simp_all
    next
      case (Undefined x)
      with assms A item S have "sm_step E text (SM_Send s k) m1 tr = (SM_Done r, m', tr')"
        by (auto simp: mgr_send_with_def)
      then show ?thesis by (rule sm_run_step [where a = 0]) simp_all
    qed
    then show ?thesis by (rule sm_run_step [rotated]) (simp_all add: A item)
  next
    case none
    obtain c tr2 where C: "session_close E s tr = (c, tr2)" by (cases "session_close E s tr")
    have "sm_run 1 E text (SM_Abort s) m1 tr = (SM_Done r, m', tr')"
      using assms A none C by (cases c) (simp_all add: mgr_send_with_def)
    then show ?thesis by (rule sm_run_step [rotated]) (simp_all add: A none)
  next
    case bad
    with assms A have "sm_step E text (SM_Acquire s) m tr = (SM_Done r, m', tr')"
      by (cases a) (simp_all add: mgr_send_with_def)
    then show ?thesis by (rule sm_run_step [where a = 0]) simp_all
  qed
qed

text \<open>What \<^verbatim>\<open>sendmessage\<close> computes once it knows whether the manager is connected.\<close>

definition send_after :: "env \<Rightarrow> string \<Rightarrow> bool outcome \<times> mgr \<times> trace \<Rightarrow> bool outcome \<times> mgr \<times> trace" where
  "send_after E text c =
     (case c of
        (Ret True, m, tr) \<Rightarrow>
          (case mgr_take_session E m tr of
             (Inl r, m, tr) \<Rightarrow> (r, m, tr)
           | (Inr s, m, tr) \<Rightarrow> mgr_send_with E text s m tr)
      | r \<Rightarrow> r)"

lemma mgr_sendmessage_alt:
  "mgr_sendmessage E text m tr =
     (if \<not> IsCreated (mg_pool m) then
        (Ret False, m\<lparr>mg_error := ''fail to sendmessage, not created object pool''\<rparr>, tr)
      else send_after E text (if mg_started m then (Ret True, m, tr) else CreateSessionPool E m tr))"
  by (simp add: mgr_sendmessage_def send_after_def)

lemma sm_run_take:
  assumes "send_after E text (Ret True, m, tr) = (r, m', tr')"
  shows "sm_run 5 E text SM_Take m tr = (SM_Done r, m', tr')"
proof -
  obtain x m1 tr1 where t: "mgr_take_session E m tr = (x, m1, tr1)"
    by (cases "mgr_take_session E m tr")
  show ?thesis
  proof (cases x)
    case (Inl q)
    with assms t have "sm_step E text SM_Take m tr = (SM_Done r, m', tr')"
      by (simp add: send_after_def)
    then show ?thesis by (rule sm_run_step [where a = 0]) simp_all
  next
    case (Inr s)
    with assms t have "sm_run 4 E text (SM_Acquire s) m1 tr1 = (SM_Done r, m', tr')"
      by (intro sm_run_acquire) (simp add: send_after_def)
    then show ?thesis by (rule sm_run_step [rotated]) (simp_all add: t Inr)
  qed
qed

lemma sm_run_after_connect:
  assumes "send_after E text (r1, m1, tr1) = (r, m', tr')"
  shows "sm_run 5 E text (after_connect r1) m1 tr1 = (SM_Done r, m', tr')"
proof (cases "r1 = Ret True")
  case True
  with assms sm_run_take show ?thesis by (simp add: after_connect_def)
next
  case False
  with assms show ?thesis
    by (auto simp: after_connect_def send_after_def split: outcome.splits bool.splits)
qed

lemma sm_run_SM_Lock:
  assumes "send_after E text (CreateSessionPool E m tr) = (r, m', tr')"
  shows "sm_run 7 E text SM_Lock m tr = (SM_Done r, m', tr')"
proof -
  obtain x m1 tr1 where f: "csp_first E m tr = (x, m1, tr1)" by (cases "csp_first E m tr")
  show ?thesis
  proof (cases x)
    case None
    obtain r2 m2 tr2 where p: "csp_finish E (csp_pool E m1 tr1) = (r2, m2, tr2)"
      by (cases "csp_finish E (csp_pool E m1 tr1)")
    have "CreateSessionPool E m tr = (r2, m2, tr2)"
      using CreateSessionPool_first [of E m tr] f None p by simp
    with assms have "sm_run 5 E text (after_connect r2) m2 tr2 = (SM_Done r, m', tr')"
      by (intro sm_run_after_connect) simp
    then have "sm_run 6 E text SM_Pool m1 tr1 = (SM_Done r, m', tr')"
      by (rule sm_run_step [rotated]) (simp_all add: p)
    then show ?thesis by (rule sm_run_step [rotated]) (simp_all add: f None)
  next
    case (Some r1)
    have "CreateSessionPool E m tr = (r1, m1, tr1)"
      using CreateSessionPool_first [of E m tr] f Some by simp
    with assms have "sm_run 5 E text (after_connect r1) m1 tr1 = (SM_Done r, m', tr')"
      by (intro sm_run_after_connect) simp
    then show ?thesis by (rule sm_run_step [rotated]) (simp_all add: f Some)
  qed
qed

lemma sm_run_sequential:
  assumes call: "mgr_sendmessage E text m tr = (r, m', tr')"
  shows "sm_run 8 E text SM_Check m tr = (SM_Done r, m', tr')"
proof (cases "IsCreated (mg_pool m)")
  case False
  with call have "sm_step E text SM_Check m tr = (SM_Done r, m', tr')"
    by (simp add: mgr_sendmessage_alt)
  then show ?thesis by (rule sm_run_step [where a = 0]) simp_all
next
  case created: True
  show ?thesis
  proof (cases "mg_started m")
    case True
    with created call have "sm_run 5 E text SM_Take m tr = (SM_Done r, m', tr')"
      by (intro sm_run_take) (simp add: mgr_sendmessage_alt)
    then show ?thesis by (rule sm_run_step [rotated]) (simp_all add: created True)
  next
    case False
    with created call have "sm_run 7 E text SM_Lock m tr = (SM_Done r, m', tr')"
      by (intro sm_run_SM_Lock) (simp add: mgr_sendmessage_alt)
    then show ?thesis by (rule sm_run_step [rotated]) (simp_all add: created False)
  qed
qed

section \<open>Effect of a step on the pool\<close>

lemma csp_first_pool: "csp_first E m tr = (r, m', tr') \<Longrightarrow> mg_pool m' = mg_pool m"
  by (auto simp: csp_first_def csp_finish_def split: prod.splits option.splits flow.splits if_splits
      dest!: drop_connection_frame csp_connect_frame csp_handler_frame)

lemma csp_pool_pool: "csp_pool E m tr = (r, m', tr') \<Longrightarrow> mg_pool m' = mg_pool m"
  by (auto simp: csp_pool_def Let_def split: prod.splits option.splits sum.splits
      dest!: drop_connection_frame)

lemma csp_finish_pool: "csp_finish E (f, m, tr) = (r, m', tr') \<Longrightarrow> mg_pool m' = mg_pool m"
  by (auto simp: csp_finish_def split: flow.splits dest!: csp_handler_frame)

lemma holds_after_connect [simp]: "holds (after_connect r) = None"
  by (simp add: after_connect_def)

text \<open>
  A step changes the set of producers in use only by the producer its own thread takes or gives
  back.
\<close>

definition pool_effect :: "sm_pc \<Rightarrow> mgr \<Rightarrow> sm_pc \<Rightarrow> mgr \<Rightarrow> bool" where
  "pool_effect p m p' m' \<longleftrightarrow>
     pool_inv (mg_pool m') \<and> pl_size (mg_pool m') = pl_size (mg_pool m)
     \<and> pl_created (mg_pool m') = pl_created (mg_pool m)
     \<and> (case holds p of
          None \<Rightarrow> (case holds p' of
                     None \<Rightarrow> pl_bits (mg_pool m') = pl_bits (mg_pool m)
                   | Some k \<Rightarrow> k \<notin> pl_bits (mg_pool m)
                        \<and> pl_bits (mg_pool m') = insert k (pl_bits (mg_pool m)))
        | Some k \<Rightarrow> (case holds p' of
                     None \<Rightarrow> if \<exists>b. p' = SM_Done (Ret b) then pl_bits (mg_pool m') = pl_bits (mg_pool m) - {k}
                             else pl_bits (mg_pool m') = pl_bits (mg_pool m)
                   | Some k' \<Rightarrow> k' = k \<and> pl_bits (mg_pool m') = pl_bits (mg_pool m)))"

lemma pool_effect_same:
  "pool_inv (mg_pool m) \<Longrightarrow> holds p = None \<Longrightarrow> holds p' = None \<Longrightarrow> mg_pool m' = mg_pool m
     \<Longrightarrow> pool_effect p m p' m'"
  by (simp add: pool_effect_def)

lemma sm_step_pool_effect:
  assumes inv: "pool_inv (mg_pool m)"
    and held: "\<And>k. holds p = Some k \<Longrightarrow> k \<in> pl_bits (mg_pool m)"
    and step: "sm_step E text p m tr = (p', m', tr')"
  shows "pool_effect p m p' m'"
proof (cases p)
  case SM_Check
  with inv step show ?thesis by (intro pool_effect_same) (auto split: if_splits)
next
  case SM_Lock
  with inv step show ?thesis
    by (intro pool_effect_same) (auto split: prod.splits option.splits dest: csp_first_pool)
next
  case SM_Pool
  obtain f m1 tr1 where c: "csp_pool E m tr = (f, m1, tr1)" by (cases "csp_pool E m tr")
  with SM_Pool inv step csp_pool_pool [OF c] show ?thesis
    by (intro pool_effect_same) (auto split: prod.splits dest: csp_finish_pool)
next
  case SM_Take
  with inv step show ?thesis
    by (intro pool_effect_same) (auto split: prod.splits sum.splits dest: mgr_take_session_effect)
next
  case (SM_Acquire s)
  obtain r pl where a: "pool_acquire (mg_pool m) = (r, pl)" by (cases "pool_acquire (mg_pool m)")
  with SM_Acquire step mgr_acquire_eq [OF inv]
  have p': "m' = m\<lparr>mg_pool := pl\<rparr>" "p' = (case r of Some k \<Rightarrow> SM_Send s k | None \<Rightarrow> SM_Abort s)"
    by (auto split: option.splits)
  with a producers.acquire_invar [OF inv a] pool_acquire_created [of "mg_pool m"]
    producers.acquire_None [of "mg_pool m" pl] producers.acquire_Some [of "mg_pool m" _ pl] inv SM_Acquire
  show ?thesis by (cases r) (simp_all add: pool_effect_def word_unat_eq_iff)
next
  case (SM_Abort s)
  with inv step show ?thesis
    by (intro pool_effect_same) (auto simp: mgr_overflow_def split: prod.splits outcome.splits)
next
  case (SM_Send s k)
  obtain r m1 tr1 where c: "mgr_send E m s k text tr = (r, m1, tr1)"
    by (cases "mgr_send E m s k text tr")
  from mgr_send_effect [OF inv held c] SM_Send step c show ?thesis
    by (cases r) (auto simp: pool_effect_def)
next
  case (SM_Close s k b)
  with inv step show ?thesis
    by (cases E s tr rule: session_close_cases) (auto simp: pool_effect_def)
next
  case (SM_Free k b)
  then have k: "k \<in> pl_bits (mg_pool m)" using held by simp
  have pm: "p' = SM_Done (Ret b)" "m' = m\<lparr>mg_pool := pool_release k (mg_pool m)\<rparr>"
    using SM_Free step mgr_free_eq [OF inv k] by simp_all
  have "pl_size (pool_release k (mg_pool m)) = pl_size (mg_pool m)"
    using producers.release_invar [OF inv k] by (simp only: word_unat_eq_iff)
  with SM_Free pm producers.release_inuse [OF inv k] producers.release_invar [OF inv k]
  show ?thesis by (simp add: pool_effect_def)
next
  case (SM_Done r)
  with inv step show ?thesis by (intro pool_effect_same) auto
qed

section \<open>Invariant of the interleaved system\<close>

definition conc_inv :: "conc \<Rightarrow> bool" where
  "conc_inv s \<longleftrightarrow> pool_inv (mg_pool (c_mgr s))
     \<and> (\<forall>i k. holds (c_pcs s i) = Some k \<longrightarrow> k \<in> pl_bits (mg_pool (c_mgr s)))
     \<and> (\<forall>i j k. holds (c_pcs s i) = Some k \<longrightarrow> holds (c_pcs s j) = Some k \<longrightarrow> i = j)
     \<and> (\<forall>i. c_pcs s i = SM_Pool \<longleftrightarrow> c_lock s = Some i)"

lemma sm_step_pool_pc:
  "sm_step E text p m tr = (SM_Pool, m', tr') \<Longrightarrow> p = SM_Lock"
  by (cases p) (auto simp: after_connect_def split: prod.splits option.splits outcome.splits sum.splits if_splits)

lemma conc_inv_step:
  assumes inv: "conc_inv s" and step: "conc_step E msg s t"
  shows "conc_inv t"
  using step
proof (cases rule: conc_step.cases)
  case (thread i p' m' tr')
  let ?p = "c_pcs s i" and ?B = "pl_bits (mg_pool (c_mgr s))"
  have eff: "pool_effect ?p (c_mgr s) p' m'"
    using inv thread(3) by (intro sm_step_pool_effect) (auto simp: conc_inv_def)
  have uniq: "\<And>j k. j \<noteq> i \<Longrightarrow> holds (c_pcs s j) = Some k \<Longrightarrow> holds ?p \<noteq> Some k"
    using inv by (auto simp: conc_inv_def)
  have other: "k \<in> pl_bits (mg_pool m')" "holds p' \<noteq> Some k"
    if "j \<noteq> i" "holds (c_pcs s j) = Some k" for j k
  proof -
    have "k \<in> ?B" using inv that by (auto simp: conc_inv_def)
    with eff uniq [OF that] show "k \<in> pl_bits (mg_pool m')" "holds p' \<noteq> Some k"
      by (auto simp: pool_effect_def split: option.splits if_splits)
  qed
  have own: "k \<in> pl_bits (mg_pool m')" if "holds p' = Some k" for k
    using eff that inv by (auto simp: pool_effect_def conc_inv_def split: option.splits)
  have lock: "\<forall>j. ((c_pcs s)(i := p')) j = SM_Pool \<longleftrightarrow> lock_after i ?p p' (c_lock s) = Some j"
  proof (cases "p' = SM_Pool")
    case True
    then have "?p = SM_Lock" using thread(3) sm_step_pool_pc by blast
    then have "c_lock s = None" using thread(2) by simp
    with inv True show ?thesis by (auto simp: lock_after_def conc_inv_def)
  next
    case False
    with inv show ?thesis by (auto simp: lock_after_def conc_inv_def)
  qed
  show ?thesis
    unfolding conc_inv_def
  proof (intro conjI allI impI)
    show "pool_inv (mg_pool (c_mgr t))" using eff thread by (simp add: pool_effect_def)
  next
    fix j k assume "holds (c_pcs t j) = Some k"
    then show "k \<in> pl_bits (mg_pool (c_mgr t))" using other own thread(1) by (cases "j = i") auto
  next
    fix j1 j2 k assume "holds (c_pcs t j1) = Some k" "holds (c_pcs t j2) = Some k"
    then show "j1 = j2" using other inv thread(1)
      by (cases "j1 = i"; cases "j2 = i") (auto simp: conc_inv_def)
  next
    fix j show "(c_pcs t j = SM_Pool) = (c_lock t = Some j)" using lock thread(1) by simp
  qed
qed

lemma conc_inv_init: "pool_inv (mg_pool m) \<Longrightarrow> conc_inv (conc_init n m tr)"
  by (simp add: conc_inv_def conc_init_def)

interpretation senders: step_system
  "\<lambda>s. \<exists>n m tr. pool_inv (mg_pool m) \<and> s = conc_init n m tr" "conc_step E msg" conc_inv for E msg
  by unfold_locales (auto intro: conc_inv_init conc_inv_step)

section \<open>A well-behaved library\<close>

text \<open>
  The documented behaviour of the CMS interface: a failing call throws a \<^verbatim>\<open>CMSException\<close>; and giving
  a pooled session back does not fail.
\<close>

definition cms_only :: "env \<Rightarrow> bool" where
  "cms_only E \<longleftrightarrow>
     (\<forall>tr x. create_destination E tr = Inl x \<longrightarrow> cms x)
     \<and> (\<forall>tr x. create_cached_producer E tr = Inl x \<longrightarrow> cms x)
     \<and> (\<forall>tr x. set_delivery_mode E tr = Some x \<longrightarrow> cms x)
     \<and> (\<forall>tr x. create_text_message E tr = Inl x \<longrightarrow> cms x)
     \<and> (\<forall>tr x. send E tr = Some x \<longrightarrow> cms x)"

definition close_never_fails :: "env \<Rightarrow> bool" where
  "close_never_fails E \<longleftrightarrow> (\<forall>tr. close_session E tr = None)"

lemma ensure_destination_cms:
  "cms_only E \<Longrightarrow> ensure_destination E p s tr = (Inl x, q, tr') \<Longrightarrow> cms x"
  by (auto simp: ensure_destination_def Let_def cms_only_def split: option.splits sum.splits)

lemma send_text_cms:
  "cms_only E \<Longrightarrow> send_text E p mp m text tr = (Inl x, q, tr') \<Longrightarrow> cms x"
  by (auto simp: send_text_def Let_def cms_only_def split: option.splits exn.splits)

lemma sendmessage_body_cms:
  assumes "cms_only E" and "sendmessage_body E p s text tr = (Inl x, q, tr')"
  shows "cms x"
proof -
  obtain d q1 tr1 where e: "ensure_destination E p s tr = (d, q1, tr1)"
    by (cases "ensure_destination E p s tr")
  show ?thesis
  proof (cases d)
    case (Inl y)
    with assms e ensure_destination_cms show ?thesis by (simp add: sendmessage_body_def)
  next
    case (Inr y)
    with assms e show ?thesis
      by (auto simp: sendmessage_body_def Let_def cms_only_def dest: send_text_cms [OF assms(1)]
          split: option.splits sum.splits exn.splits)
  qed
qed

lemma producer_sendmessage_returns:
  assumes "cms_only E"
  shows "\<exists>b. fst (producer_sendmessage E p s text tr) = Ret b"
proof (cases s)
  case (Some a)
  obtain r q tr' where c: "sendmessage_body E p a text tr = (r, q, tr')"
    by (cases "sendmessage_body E p a text tr")
  have "cms x" if "r = Inl x" for x using sendmessage_body_cms [OF assms] c that by blast
  then have "(\<exists>b. r = Inr b) \<or> (\<exists>e. r = Inl (CMSException e))"
    by (cases r) (auto simp: cms_def split: exn.splits)
  with c Some show ?thesis by (auto simp: producer_sendmessage_def)
qed (auto simp: producer_sendmessage_def)

lemma mgr_send_returns:
  assumes "cms_only E" and "pool_inv (mg_pool m)" and "k \<in> pl_bits (mg_pool m)"
  shows "\<exists>b m' tr'. mgr_send E m s k text tr = (Ret b, m', tr')"
proof -
  obtain r m' tr' where c: "mgr_send E m s k text tr = (r, m', tr')"
    by (cases "mgr_send E m s k text tr")
  from mgr_send_effect(6) [OF assms(2,3) c] producer_sendmessage_returns [OF assms(1)]
  show ?thesis using c by (metis fst_conv)
qed

section \<open>The producers in use are those of the running threads\<close>

text \<open>Whether a thread has delivered its message.\<close>

fun delivered :: "sm_pc \<Rightarrow> bool" where
  "delivered (SM_Close _ _ b) = b"
| "delivered (SM_Free _ b) = b"
| "delivered (SM_Done r) = (r = Ret True)"
| "delivered _ = False"

fun aborting :: "sm_pc \<Rightarrow> bool" where
  "aborting (SM_Abort _) = True"
| "aborting _ = False"

fun acquiring :: "sm_pc \<Rightarrow> bool" where
  "acquiring (SM_Acquire _) = True"
| "acquiring _ = False"

lemma csp_first_accepted: "csp_first E m tr = (r, m', tr') \<Longrightarrow> accepted E tr' = accepted E tr"
  by (auto simp: csp_first_def csp_finish_def split: prod.splits option.splits flow.splits if_splits
      dest!: drop_connection_frame csp_connect_frame csp_handler_frame)

lemma csp_pool_accepted: "csp_pool E m tr = (r, m', tr') \<Longrightarrow> accepted E tr' = accepted E tr"
  by (auto simp: csp_pool_def Let_def delta_defs split: prod.splits option.splits sum.splits
      dest!: drop_connection_frame)

lemma csp_finish_accepted: "csp_finish E (f, m, tr) = (r, m', tr') \<Longrightarrow> accepted E tr' = accepted E tr"
  by (auto simp: csp_finish_def split: flow.splits dest!: csp_handler_frame)

lemma after_connect_not: "\<not> delivered (after_connect r)" "\<not> aborting (after_connect r)"
  by (simp_all add: after_connect_def)

lemma sm_step_accepted:
  assumes tame: "cms_only E" "close_never_fails E"
    and inv: "pool_inv (mg_pool m)"
    and held: "\<And>k. holds p = Some k \<Longrightarrow> k \<in> pl_bits (mg_pool m)"
    and step: "sm_step E text p m tr = (p', m', tr')"
  shows "accepted E tr' = accepted E tr + (if delivered p' \<and> \<not> delivered p then 1 else 0)
     \<and> (delivered p \<longrightarrow> delivered p')
     \<and> (holds p \<noteq> None \<longrightarrow> holds p' = None \<longrightarrow> (\<exists>b. p' = SM_Done (Ret b)))
     \<and> (aborting p' \<longrightarrow> acquiring p \<and> fst (pool_acquire (mg_pool m)) = None)"
proof (cases p)
  case SM_Check
  with step show ?thesis by (auto split: if_splits)
next
  case SM_Lock
  with step show ?thesis
    by (auto simp: after_connect_not split: prod.splits option.splits dest: csp_first_accepted)
next
  case SM_Pool
  obtain f m1 tr1 where c: "csp_pool E m tr = (f, m1, tr1)" by (cases "csp_pool E m tr")
  with SM_Pool step csp_pool_accepted [OF c] show ?thesis
    by (auto simp: after_connect_not split: prod.splits dest: csp_finish_accepted)
next
  case SM_Take
  obtain x m1 tr1 where c: "mgr_take_session E m tr = (x, m1, tr1)" by (cases "mgr_take_session E m tr")
  with SM_Take step mgr_take_session_effect [OF c] show ?thesis by (cases x) auto
next
  case (SM_Acquire s)
  with step mgr_acquire_eq [OF inv] show ?thesis
    by (cases "fst (pool_acquire (mg_pool m))") auto
next
  case (SM_Abort s)
  with step tame show ?thesis
    by (cases E s tr rule: session_close_cases) (auto simp: close_never_fails_def)
next
  case (SM_Send s k)
  then have k: "k \<in> pl_bits (mg_pool m)" using held by simp
  obtain b m1 tr1 where c: "mgr_send E m s k text tr = (Ret b, m1, tr1)"
    using mgr_send_returns [OF tame(1) inv k] by blast
  obtain pr q where "producer_sendmessage E pr (Some s) text tr = (Ret b, q, tr1)"
    using mgr_send_effect(6) [OF inv k c] by blast
  from producer_sendmessage_accepted [OF this] SM_Send step c show ?thesis by auto
next
  case (SM_Close s k b)
  with step tame show ?thesis
    by (cases E s tr rule: session_close_cases) (auto simp: close_never_fails_def)
next
  case (SM_Free k b)
  then have k: "k \<in> pl_bits (mg_pool m)" using held by simp
  with SM_Free step mgr_free_eq [OF inv k] show ?thesis by auto
next
  case (SM_Done r)
  with step show ?thesis by auto
qed

definition tame_inv :: "nat \<Rightarrow> u32 \<Rightarrow> env \<Rightarrow> int \<Rightarrow> conc \<Rightarrow> bool" where
  "tame_inv n sz E a0 s \<longleftrightarrow> conc_inv s
     \<and> pl_size (mg_pool (c_mgr s)) = sz
     \<and> pl_bits (mg_pool (c_mgr s)) = {k. \<exists>i < n. holds (c_pcs s i) = Some k}
     \<and> (\<forall>i \<ge> n. c_pcs s i = SM_Done (Ret False))
     \<and> accepted E (c_trace s) = a0 + int (card {i. i < n \<and> delivered (c_pcs s i)})
     \<and> (n \<le> unat sz \<longrightarrow> (\<forall>i. \<not> aborting (c_pcs s i)))"

lemma card_delivered_upd:
  assumes "i < (n::nat)" and "delivered (pcs i) \<longrightarrow> delivered p'"
  shows "int (card {j. j < n \<and> delivered ((pcs(i := p')) j)}) =
     int (card {j. j < n \<and> delivered (pcs j)}) + (if delivered p' \<and> \<not> delivered (pcs i) then 1 else 0)"
proof -
  let ?A = "{j. j < n \<and> delivered (pcs j)}"
  have eq: "{j. j < n \<and> delivered ((pcs(i := p')) j)} = (if delivered p' then insert i ?A else ?A)"
    using assms by auto
  have "finite ?A" by (rule finite_subset [of _ "{..<n}"]) auto
  then show ?thesis
    unfolding eq using assms
    by (cases "delivered (pcs i)") (auto simp: insert_absorb simp del: Collect_conj_eq)
qed

lemma holders_injective:
  assumes "conc_inv s" and "acquiring (c_pcs s i)" and "i < n"
  shows "card {k. \<exists>j < n. holds (c_pcs s j) = Some k} < n"
proof -
  let ?H = "{k. \<exists>j < n. holds (c_pcs s j) = Some k}"
  have "?H \<subseteq> (\<lambda>j. the (holds (c_pcs s j))) ` ({..<n} - {i})"
  proof
    fix k assume "k \<in> ?H"
    then obtain j where j: "j < n" "holds (c_pcs s j) = Some k" by blast
    then have "j \<noteq> i" using assms(2) by (cases "c_pcs s i") auto
    with j show "k \<in> (\<lambda>j. the (holds (c_pcs s j))) ` ({..<n} - {i})" by force
  qed
  then have "card ?H \<le> card ({..<n} - {i})" by (meson finite_Diff finite_lessThan surj_card_le)
  also have "\<dots> < n" using assms(3) by simp
  finally show ?thesis .
qed

lemma holders_upd:
  assumes "i < n" and uniq: "\<forall>i j k. holds (pcs i) = Some k \<longrightarrow> holds (pcs j) = Some k \<longrightarrow> i = j"
  shows "{k. \<exists>j < n. holds ((pcs(i := p')) j) = Some k} =
     ({k. \<exists>j < n. holds (pcs j) = Some k} - {k. holds (pcs i) = Some k}) \<union> {k. holds p' = Some k}"
  using assms by (auto split: if_splits)

lemma tame_inv_step:
  assumes tame: "cms_only E" "close_never_fails E"
    and inv: "tame_inv n sz E a0 s" and step: "conc_step E msg s t"
  shows "tame_inv n sz E a0 t"
  using step
proof (cases rule: conc_step.cases)
  case (thread i p' m' tr')
  let ?p = "c_pcs s i" and ?B = "pl_bits (mg_pool (c_mgr s))"
  have cinv: "conc_inv s" using inv by (simp add: tame_inv_def)
  then have pinv: "pool_inv (mg_pool (c_mgr s))"
    and uniq: "\<forall>i j k. holds (c_pcs s i) = Some k \<longrightarrow> holds (c_pcs s j) = Some k \<longrightarrow> i = j"
    unfolding conc_inv_def by blast+
  have held: "\<And>k. holds ?p = Some k \<Longrightarrow> k \<in> ?B" using cinv by (auto simp: conc_inv_def)
  have i: "i < n" using inv thread(2) by (cases "i < n") (auto simp: tame_inv_def)
  note eff = sm_step_pool_effect [OF pinv held thread(3)]
  note acc = sm_step_accepted [OF tame pinv held thread(3)]
  have cinv': "conc_inv t" by (rule conc_inv_step [OF cinv step])
  have bits: "pl_bits (mg_pool m') = {k. \<exists>j < n. holds (((c_pcs s)(i := p')) j) = Some k}"
  proof -
    have B: "?B = {k. \<exists>j < n. holds (c_pcs s j) = Some k}" using inv by (simp add: tame_inv_def)
    show ?thesis
      unfolding holders_upd [OF i uniq] B [symmetric] using eff acc held
      by (cases "holds ?p"; cases "holds p'") (auto simp: pool_effect_def)
  qed
  have acc': "accepted E tr' = a0 + int (card {j. j < n \<and> delivered (((c_pcs s)(i := p')) j)})"
    using acc inv card_delivered_upd [of i n "c_pcs s" p'] i by (simp add: tame_inv_def)
  have noabort: "\<not> aborting p'" if n: "n \<le> unat sz"
  proof
    assume "aborting p'"
    then have a: "acquiring ?p" and f: "fst (pool_acquire (mg_pool (c_mgr s))) = None"
      using acc by blast+
    have "card ?B < n"
      using holders_injective [OF cinv a i] inv by (simp add: tame_inv_def)
    moreover have "card ?B = unat sz"
      using producers.acquire_fails_iff [OF pinv] f inv by (simp add: tame_inv_def)
    ultimately show False using n by simp
  qed
  show ?thesis
    unfolding tame_inv_def
  proof (intro conjI)
    show "pl_size (mg_pool (c_mgr t)) = sz"
      using eff inv thread(1) by (simp add: pool_effect_def tame_inv_def)
    show "\<forall>j\<ge>n. c_pcs t j = SM_Done (Ret False)"
      using inv i thread(1) by (auto simp: tame_inv_def)
    show "n \<le> unat sz \<longrightarrow> (\<forall>j. \<not> aborting (c_pcs t j))"
      using inv noabort thread(1) by (auto simp: tame_inv_def)
  qed (use cinv' bits acc' thread(1) in simp_all)
qed

lemma tame_inv_init:
  assumes "pool_inv (mg_pool m)" and "pl_bits (mg_pool m) = {}"
  shows "tame_inv n (pl_size (mg_pool m)) E (accepted E tr) (conc_init n m tr)"
  using conc_inv_init [OF assms(1), of n tr] assms(2)
  by (simp add: tame_inv_def conc_init_def)

lemma tame_reachable:
  assumes "cms_only E" "close_never_fails E" "pool_inv (mg_pool m)" "pl_bits (mg_pool m) = {}"
    and "(conc_step E msg)\<^sup>*\<^sup>* (conc_init n m tr) s"
  shows "tame_inv n (pl_size (mg_pool m)) E (accepted E tr) s"
  using assms(5)
proof (induction rule: rtranclp_induct)
  case base
  show ?case by (rule tame_inv_init [OF assms(3,4)])
next
  case (step s t)
  then show ?case using tame_inv_step [OF assms(1,2)] by blast
qed

section \<open>Termination and progress\<close>

text \<open>The number of steps a thread has left at most.\<close>

fun sm_rank :: "sm_pc \<Rightarrow> nat" where
  "sm_rank SM_Check = 8"
| "sm_rank SM_Lock = 7"
| "sm_rank SM_Pool = 6"
| "sm_rank SM_Take = 5"
| "sm_rank (SM_Acquire _) = 4"
| "sm_rank (SM_Send _ _) = 3"
| "sm_rank (SM_Close _ _ _) = 2"
| "sm_rank (SM_Free _ _) = 1"
| "sm_rank (SM_Abort _) = 1"
| "sm_rank (SM_Done _) = 0"

lemma sm_rank_after_connect: "sm_rank (after_connect r) \<le> 5"
  by (simp add: after_connect_def)

lemma sm_step_rank:
  assumes "sm_step E text p m tr = (p', m', tr')" and "\<forall>r. p \<noteq> SM_Done r"
  shows "sm_rank p' < sm_rank p"
proof (cases p)
  case SM_Lock
  obtain r m1 tr1 where c: "csp_first E m tr = (r, m1, tr1)" by (cases "csp_first E m tr")
  with SM_Lock assms(1) sm_rank_after_connect [of "the r"] show ?thesis by (cases r) auto
next
  case SM_Pool
  obtain r m1 tr1 where "csp_finish E (csp_pool E m tr) = (r, m1, tr1)"
    by (cases "csp_finish E (csp_pool E m tr)")
  with SM_Pool assms(1) sm_rank_after_connect [of r] show ?thesis by auto
qed (use assms in \<open>auto split: prod.splits outcome.splits sum.splits option.splits if_splits\<close>)

definition conc_rank :: "nat \<Rightarrow> conc \<Rightarrow> nat" where
  "conc_rank n s = (\<Sum>i < n. sm_rank (c_pcs s i))"

lemma conc_step_rank:
  assumes "conc_step E msg s t" and "\<forall>i \<ge> n. \<exists>r. c_pcs s i = SM_Done r"
  shows "conc_rank n t < conc_rank n s \<and> (\<forall>i \<ge> n. \<exists>r. c_pcs t i = SM_Done r)"
  using assms(1)
proof (cases rule: conc_step.cases)
  case (thread i p' m' tr')
  have notdone: "\<forall>r. c_pcs s i \<noteq> SM_Done r" using thread(2) by auto
  then have i: "i < n" using assms(2) by (metis not_le)
  have "sm_rank p' < sm_rank (c_pcs s i)" by (rule sm_step_rank [OF thread(3) notdone])
  then have "(\<Sum>j < n. sm_rank (((c_pcs s)(i := p')) j)) < (\<Sum>j < n. sm_rank (c_pcs s j))"
    using i by (intro sum_strict_mono_ex1) auto
  with i thread(1) assms(2) show ?thesis by (simp add: conc_rank_def)
qed

lemma conc_steps_rank:
  assumes "(conc_step E msg ^^ k) s t" and "\<forall>i \<ge> n. \<exists>r. c_pcs s i = SM_Done r"
  shows "conc_rank n t + k \<le> conc_rank n s \<and> (\<forall>i \<ge> n. \<exists>r. c_pcs t i = SM_Done r)"
  using assms
proof (induction k arbitrary: t)
  case 0
  then show ?case by simp
next
  case (Suc k)
  then obtain u where u: "(conc_step E msg ^^ k) s u" "conc_step E msg u t" by auto
  with Suc.IH [OF u(1) Suc.prems(2)] conc_step_rank [OF u(2)] show ?case by fastforce
qed

lemma conc_progress:
  assumes "conc_inv s" and "\<forall>r. c_pcs s i \<noteq> SM_Done r"
  shows "\<exists>t. conc_step E msg s t"
proof -
  have step: "\<exists>t. conc_step E msg s t" if "enabled (c_lock s) j (c_pcs s j)" for j
    using that conc_step.thread by (metis prod_cases3)
  show ?thesis
  proof (cases "c_lock s")
    case None
    then have "c_pcs s i \<noteq> SM_Pool" using assms(1) by (simp add: conc_inv_def)
    then have "enabled (c_lock s) i (c_pcs s i)" using None assms(2) by (cases "c_pcs s i") auto
    then show ?thesis by (rule step)
  next
    case (Some j)
    then have "c_pcs s j = SM_Pool" using assms(1) by (simp add: conc_inv_def)
    then have "enabled (c_lock s) j (c_pcs s j)" using Some by simp
    then show ?thesis by (rule step)
  qed
qed

section \<open>No undefined behaviour once connected\<close>

definition stuck_free :: "sm_pc \<Rightarrow> bool" where
  "stuck_free p \<longleftrightarrow> p \<noteq> SM_Lock \<and> p \<noteq> SM_Pool \<and> (\<forall>f. p \<noteq> SM_Done (Undefined f))"

lemma producer_sendmessage_defined:
  "producer_sendmessage E p (Some s) text tr \<noteq> (Undefined f, q, tr')"
  by (auto simp: producer_sendmessage_def split: producer_split)

lemma sm_step_connected:
  assumes inv: "pool_inv (mg_pool m)" and conn: "connected m" and free: "stuck_free p"
    and held: "\<And>k. holds p = Some k \<Longrightarrow> k \<in> pl_bits (mg_pool m)"
    and step: "sm_step E text p m tr = (p', m', tr')"
  shows "stuck_free p' \<and> same_settings m m'"
proof (cases p)
  case SM_Check
  with step conn show ?thesis
    by (auto simp: connected_def stuck_free_def same_settings_def split: if_splits)
next
  case SM_Take
  obtain x m1 tr1 where c: "mgr_take_session E m tr = (x, m1, tr1)" by (cases "mgr_take_session E m tr")
  with SM_Take step conn mgr_take_session_effect [OF c] show ?thesis
    by (cases x) (auto simp: stuck_free_def connected_def)
next
  case (SM_Acquire s)
  with step mgr_acquire_eq [OF inv] show ?thesis
    by (cases "fst (pool_acquire (mg_pool m))") (auto simp: stuck_free_def same_settings_def)
next
  case (SM_Abort s)
  with step show ?thesis
    by (cases E s tr rule: session_close_cases)
      (auto simp: stuck_free_def same_settings_def mgr_overflow_def)
next
  case (SM_Send s k)
  then have k: "k \<in> pl_bits (mg_pool m)" using held by simp
  obtain r m1 tr1 where c: "mgr_send E m s k text tr = (r, m1, tr1)"
    by (cases "mgr_send E m s k text tr")
  have "r \<noteq> Undefined f" for f
    using mgr_send_effect(6) [OF inv k c] producer_sendmessage_defined by metis
  with SM_Send step c mgr_send_effect(5) [OF inv k c] show ?thesis
    by (cases r) (auto simp: stuck_free_def)
next
  case (SM_Close s k b)
  with step show ?thesis
    by (cases E s tr rule: session_close_cases) (auto simp: stuck_free_def)
next
  case (SM_Free k b)
  then have k: "k \<in> pl_bits (mg_pool m)" using held by simp
  with SM_Free step mgr_free_eq [OF inv k] show ?thesis
    by (auto simp: stuck_free_def same_settings_def)
qed (use free step in \<open>auto simp: stuck_free_def\<close>)

definition connected_inv :: "conc \<Rightarrow> bool" where
  "connected_inv s \<longleftrightarrow> conc_inv s \<and> connected (c_mgr s) \<and> (\<forall>i. stuck_free (c_pcs s i))"

lemma connected_inv_step:
  assumes inv: "connected_inv s" and step: "conc_step E msg s t"
  shows "connected_inv t"
  using step
proof (cases rule: conc_step.cases)
  case (thread i p' m' tr')
  have "stuck_free p' \<and> same_settings (c_mgr s) m'"
    using inv thread(3) by (intro sm_step_connected) (auto simp: connected_inv_def conc_inv_def)
  with inv thread(1) conc_inv_step [OF _ step] same_settings_connected [of "c_mgr s" m']
  show ?thesis by (auto simp: connected_inv_def)
qed

lemma connected_inv_init:
  assumes "pool_inv (mg_pool m)" and "connected m"
  shows "connected_inv (conc_init n m tr)"
proof -
  have "stuck_free (c_pcs (conc_init n m tr) i)" for i
    by (cases "i < n") (simp_all add: conc_init_def stuck_free_def)
  with assms conc_inv_init [OF assms(1)] show ?thesis
    by (simp add: connected_inv_def) (simp add: conc_init_def)
qed

interpretation connected_senders: step_system
  "\<lambda>s. \<exists>n m tr. pool_inv (mg_pool m) \<and> connected m \<and> s = conc_init n m tr" "conc_step E msg" connected_inv
  for E msg
proof unfold_locales
  show "connected_inv s" if "\<exists>n m tr. pool_inv (mg_pool m) \<and> connected m \<and> s = conc_init n m tr" for s
    using that connected_inv_init by blast
qed (rule connected_inv_step)

text \<open>One scheduled step of a thread.\<close>

lemma conc_stepI:
  assumes "sm_step E (msg i) (c_pcs s i) (c_mgr s) (c_trace s) = (p', m', tr')"
    and "enabled (c_lock s) i (c_pcs s i)"
  shows "conc_step E msg s \<lparr>c_mgr = m', c_trace = tr', c_pcs = (c_pcs s)(i := p'),
       c_lock = lock_after i (c_pcs s i) p' (c_lock s)\<rparr>"
  using conc_step.thread [where E = E and msg = msg and s = s and i = i and p' = p' and m' = m' and tr' = tr']
    assms by (cases s) simp

text \<open>The steps of one thread are steps of the system while no other thread is inside the mutex.\<close>

definition lock_of :: "nat \<Rightarrow> sm_pc \<Rightarrow> nat option" where
  "lock_of i p = (if p = SM_Pool then Some i else None)"

lemma sm_run_conc:
  assumes "sm_run k E (msg i) p m tr = (p', m', tr')"
  shows "(conc_step E msg)\<^sup>*\<^sup>* \<lparr>c_mgr = m, c_trace = tr, c_pcs = pcs(i := p), c_lock = lock_of i p\<rparr>
     \<lparr>c_mgr = m', c_trace = tr', c_pcs = pcs(i := p'), c_lock = lock_of i p'\<rparr>"
  using assms
proof (induction k arbitrary: p m tr)
  case 0
  then show ?case by simp
next
  case (Suc k)
  show ?case
  proof (cases "\<exists>r. p = SM_Done r")
    case True
    with Suc.prems show ?thesis by (auto split: prod.splits)
  next
    case False
    obtain p1 m1 tr1 where one: "sm_step E (msg i) p m tr = (p1, m1, tr1)"
      by (cases "sm_step E (msg i) p m tr")
    let ?s = "\<lparr>c_mgr = m, c_trace = tr, c_pcs = pcs(i := p), c_lock = lock_of i p\<rparr>"
    have en: "enabled (lock_of i p) i p" using False by (cases p) (auto simp: lock_of_def)
    have lock: "lock_after i p p1 (lock_of i p) = lock_of i p1"
      by (simp add: lock_after_def lock_of_def)
    have "conc_step E msg ?s \<lparr>c_mgr = m1, c_trace = tr1, c_pcs = pcs(i := p1), c_lock = lock_of i p1\<rparr>"
      using conc_stepI [of E msg i ?s p1 m1 tr1] one en lock by simp
    moreover have "sm_run k E (msg i) p1 m1 tr1 = (p', m', tr')" using Suc.prems one by simp
    ultimately show ?thesis using Suc.IH by (meson converse_rtranclp_into_rtranclp)
  qed
qed

lemma conc_init_thread:
  assumes "i < n" and "sm_run k E (msg i) SM_Check m tr = (p', m', tr')"
  shows "(conc_step E msg)\<^sup>*\<^sup>* (conc_init n m tr)
     \<lparr>c_mgr = m', c_trace = tr', c_pcs = (c_pcs (conc_init n m tr))(i := p'), c_lock = lock_of i p'\<rparr>"
proof -
  have "conc_init n m tr = \<lparr>c_mgr = m, c_trace = tr,
      c_pcs = (c_pcs (conc_init n m tr))(i := SM_Check), c_lock = lock_of i SM_Check\<rparr>"
    using assms(1) by (auto simp: conc_init_def lock_of_def)
  with sm_run_conc [where msg = msg and i = i and pcs = "c_pcs (conc_init n m tr)"] assms(2)
  show ?thesis by metis
qed

lemma good_env_tame: "cms_only good_env" "close_never_fails good_env"
  by (simp_all add: cms_only_def close_never_fails_def)

lemma sm_run_numeral:
  "sm_run (numeral v) E strMessage p m tr =
     (case sm_step E strMessage p m tr of (p', m', tr') \<Rightarrow> sm_run (pred_numeral v) E strMessage p' m' tr')"
  by (simp only: numeral_eq_Suc sm_run.simps)

lemma demo_mgr_send_steps:
  "\<exists>m' tr'. sm_run 5 good_env ''hi'' SM_Check demo_mgr [] = (SM_Send 5 0, m', tr')"
  by (simp add: sm_run_numeral demo_mgr_pool replicate_2 new_mgr_def IsCreated_def csp_defs csp_first_def
      mgr_take_session_def mgr_acquire_def CreatePoolItem_def scan_bits.simps MAX_BITSET_SIZE_def
      after_connect_def)

lemma demo_mgr_idle: "pool_inv (mg_pool demo_mgr)" "pl_bits (mg_pool demo_mgr) = {}"
  "unat (pl_size (mg_pool demo_mgr)) = 2"
  using demo_mgr_inv by (simp_all add: mgr_inv_def) (simp_all add: demo_mgr_pool)

section \<open>Properties\<close>


text \<open>
  C3: mutual exclusion.  However many threads send through one manager and however they are
  scheduled, two of them never have the same producer at the same time, every producer a thread
  has is marked used in the pool, and only one thread at a time is inside \<^verbatim>\<open>CreateSessionPool\<close>.
\<close>

theorem senders_exclusive:
  assumes "pool_inv (mg_pool m)" and "(conc_step E msg)\<^sup>*\<^sup>* (conc_init n m tr) s" and "i \<noteq> j"
  shows "(holds (c_pcs s i) = Some k \<longrightarrow> holds (c_pcs s j) \<noteq> Some k \<and> k \<in> pl_bits (mg_pool (c_mgr s)))
     \<and> (c_pcs s i = SM_Pool \<longrightarrow> c_pcs s j \<noteq> SM_Pool)"
proof -
  have "conc_inv s" using senders.invar_reachable assms(1,2) by blast
  with assms(3) show ?thesis by (auto simp: conc_inv_def)
qed

theorem senders_exclusive_witness:
  "\<exists>s. (conc_step good_env (\<lambda>_. ''hi''))\<^sup>*\<^sup>* (conc_init 2 demo_mgr []) s
     \<and> holds (c_pcs s 0) = Some 0 \<and> holds (c_pcs s 1) \<noteq> Some 0 \<and> 0 \<in> pl_bits (mg_pool (c_mgr s))"
proof -
  obtain m' tr' where "sm_run 5 good_env ''hi'' SM_Check demo_mgr [] = (SM_Send 5 0, m', tr')"
    using demo_mgr_send_steps by blast
  then obtain s where s: "(conc_step good_env (\<lambda>_. ''hi''))\<^sup>*\<^sup>* (conc_init 2 demo_mgr []) s"
    "holds (c_pcs s 0) = Some 0"
    using conc_init_thread [of 0 2 5 good_env "\<lambda>_. ''hi''"] by fastforce
  from senders_exclusive [OF demo_mgr_idle(1) s(1), of 0 1 0] s show ?thesis by auto
qed





text \<open>
  C4: no thread is ever stuck and every call ends.  \<open>n\<close> threads take at most \<open>8 * n\<close> steps in
  any schedule, and a state in which no step is possible is one in which every thread has
  finished: the mutex is never held for ever.
\<close>

theorem senders_terminate:
  assumes "pool_inv (mg_pool m)" and "(conc_step E msg ^^ k) (conc_init n m tr) s"
  shows "k \<le> 8 * n \<and> ((\<nexists>t. conc_step E msg s t) \<longleftrightarrow> (\<forall>i < n. \<exists>r. c_pcs s i = SM_Done r))"
proof -
  let ?s0 = "conc_init n m tr"
  have "(conc_step E msg)\<^sup>*\<^sup>* ?s0 s" using assms(2) by (rule relpowp_imp_rtranclp)
  then have inv: "conc_inv s" using senders.invar_reachable assms(1) by blast
  have R: "conc_rank n s + k \<le> conc_rank n ?s0 \<and> (\<forall>i \<ge> n. \<exists>r. c_pcs s i = SM_Done r)"
    by (rule conc_steps_rank [OF assms(2)]) (simp add: conc_init_def)
  have "conc_rank n ?s0 = 8 * n" by (simp add: conc_rank_def conc_init_def)
  moreover have "(\<nexists>t. conc_step E msg s t) \<longleftrightarrow> (\<forall>i < n. \<exists>r. c_pcs s i = SM_Done r)"
  proof
    assume "\<nexists>t. conc_step E msg s t"
    then show "\<forall>i < n. \<exists>r. c_pcs s i = SM_Done r" using conc_progress [OF inv] by metis
  next
    assume "\<forall>i < n. \<exists>r. c_pcs s i = SM_Done r"
    then have "\<forall>i. \<exists>r. c_pcs s i = SM_Done r" using R by (meson not_le)
    then show "\<nexists>t. conc_step E msg s t" by (metis conc_stepE enabled.simps(1))
  qed
  ultimately show ?thesis using R by simp
qed

theorem senders_terminate_witness:
  "\<exists>t. conc_step good_env (\<lambda>_. ''hi'') (conc_init 2 demo_mgr []) t"
proof -
  have "\<not> (\<forall>i < 2. \<exists>r. c_pcs (conc_init 2 demo_mgr []) i = SM_Done r)"
    by (auto simp: conc_init_def intro: exI [of _ 0])
  with senders_terminate [OF demo_mgr_idle(1), of 0 good_env "\<lambda>_. ''hi''" 2 "[]"] show ?thesis by auto
qed



text \<open>
  C10: but the first connect is a race.  \<^verbatim>\<open>CreateSessionPool\<close> sets \<^verbatim>\<open>m_bStartedConnection\<close> before it has
  made the session pool, and \<^verbatim>\<open>sendmessage\<close> reads the flag without the lock: with two or more
  threads on a manager that is not yet connected there is a schedule in which a thread calls
  \<^verbatim>\<open>takeSession\<close> through the NULL session pool, although the library works perfectly.
\<close>

theorem first_connect_race:
  assumes "IsCreated (mg_pool m)" and "\<not> mg_started m"
    and "mg_sessionpool m = None" and "mg_connection m = None"
    and "\<forall>tr. create_connection E tr = Inr c" and "\<forall>tr. start_connection E tr = None"
    and "2 \<le> n"
  shows "\<exists>s. (conc_step E msg)\<^sup>*\<^sup>* (conc_init n m tr) s \<and> c_pcs s 1 = SM_Done (Undefined NullDereference)"
proof -
  obtain m1 tr1 where first: "csp_first E m tr = (None, m1, tr1)" and m1: "mg_started m1"
    "mg_sessionpool m1 = None" "mg_pool m1 = mg_pool m"
    using assms by (simp add: csp_first_def drop_connection_def csp_connect_def Let_def)
  let ?s0 = "conc_init n m tr"
  let ?s1 = "\<lparr>c_mgr = m, c_trace = tr, c_pcs = (c_pcs ?s0)(0 := SM_Lock), c_lock = None\<rparr>"
  let ?s2 = "\<lparr>c_mgr = m1, c_trace = tr1, c_pcs = (c_pcs ?s1)(0 := SM_Pool), c_lock = Some 0\<rparr>"
  let ?s3 = "\<lparr>c_mgr = m1, c_trace = tr1, c_pcs = (c_pcs ?s2)(1 := SM_Take), c_lock = Some 0\<rparr>"
  let ?s4 = "\<lparr>c_mgr = m1, c_trace = tr1, c_pcs = (c_pcs ?s3)(1 := SM_Done (Undefined NullDereference)),
              c_lock = Some 0\<rparr>"
  have "conc_step E msg ?s0 ?s1"
    using conc_stepI [of E msg 0 ?s0 SM_Lock m tr] assms by (simp add: conc_init_def lock_after_def)
  moreover have "conc_step E msg ?s1 ?s2"
    using conc_stepI [of E msg 0 ?s1 SM_Pool m1 tr1] first by (simp add: lock_after_def)
  moreover have "conc_step E msg ?s2 ?s3"
    using conc_stepI [of E msg 1 ?s2 SM_Take m1 tr1] assms m1 by (simp add: conc_init_def lock_after_def)
  moreover have "conc_step E msg ?s3 ?s4"
    using conc_stepI [of E msg 1 ?s3 _ m1 tr1] m1 by (simp add: mgr_take_session_def lock_after_def)
  ultimately have "(conc_step E msg)\<^sup>*\<^sup>* ?s0 ?s4"
    by (meson converse_rtranclp_into_rtranclp rtranclp.rtrancl_refl)
  then show ?thesis by (intro exI [of _ ?s4]) simp
qed

theorem first_connect_race_witness:
  "\<exists>s. (conc_step good_env (\<lambda>_. ''hi''))\<^sup>*\<^sup>* (conc_init 2 demo_mgr []) s
     \<and> c_pcs s 1 = SM_Done (Undefined NullDereference)"
  by (rule first_connect_race [of _ _ 1]) (simp_all add: demo_mgr_pool new_mgr_def IsCreated_def)

end
