(* ===== verification/Consumer.thy ===== *)
theory Consumer
  imports CMS_Interface
begin

text \<open>
  \<^verbatim>\<open>CDSAMQTask\<close> (DSAMQTask.h) and \<^verbatim>\<open>CDSAMQConsumer\<close> (DSAMQConsumer.h): a consumer is the body of a
  worker thread that takes a session, receives messages until the stop flag is down or an error
  occurs, hands each text to the user's task and acknowledges or recovers according to its
  answer.

  The \<^verbatim>\<open>while\<close> loop may run for ever, so it has fuel; running out of fuel is the outcome \<open>None\<close>.
\<close>

section \<open>State\<close>

text \<open>The task id is not initialised by the constructor of \<^verbatim>\<open>CDSAMQTask\<close>.\<close>

record amq_task =
  tk_taskid :: "int option"

definition new_task :: amq_task where
  "new_task = \<lparr>tk_taskid = None\<rparr>"

definition set_task_id :: "int \<Rightarrow> amq_task \<Rightarrow> amq_task" where
  "set_task_id nTaskID t = t\<lparr>tk_taskid := Some nTaskID\<rparr>"

record consumer =
  co_sessionpool :: "addr option"
  co_destination :: "addr option"
  co_usetopic :: bool
  co_destURI :: string
  co_clientack :: bool
  co_error :: string
  co_timeout :: int
  co_taskid :: int
  co_process :: amq_task

section \<open>Operations\<close>

definition new_consumer :: "addr option \<Rightarrow> string \<Rightarrow> int \<Rightarrow> bool \<Rightarrow> bool \<Rightarrow> int \<Rightarrow> consumer" where
  "new_consumer sessionpool destURI nTaskID useTopic clientAck nTimeout =
     \<lparr>co_sessionpool = sessionpool, co_destination = None, co_usetopic = useTopic,
      co_destURI = destURI, co_clientack = clientAck, co_error = '''', co_timeout = nTimeout,
      co_taskid = nTaskID, co_process = new_task\<rparr>"

definition consumer_getlasterror :: "consumer \<Rightarrow> string" where
  "consumer_getlasterror c = co_error c"

definition get_task_id :: "consumer \<Rightarrow> int" where
  "get_task_id c = co_taskid c"

text \<open>
  \<^verbatim>\<open>cleanup\<close>: an exception other than a \<^verbatim>\<open>CMSException\<close> leaves the function before the pointer is
  cleared.
\<close>

definition consumer_cleanup :: "env \<Rightarrow> consumer \<Rightarrow> trace \<Rightarrow> unit outcome \<times> consumer \<times> trace" where
  "consumer_cleanup E c0 tr0 =
     (let c = c0\<lparr>co_error := ''consumer cleanup''\<rparr> in
      case co_destination c of
        None \<Rightarrow> (Ret (), c\<lparr>co_error := co_error c @ ''|complete''\<rparr>, tr0)
      | Some d \<Rightarrow>
          (let tr = DeleteDestination d # tr0 in
           case delete_destination E tr of
             None \<Rightarrow> (Ret (), c\<lparr>co_destination := None, co_error := co_error c @ ''|complete''\<rparr>, tr)
           | Some (CMSException e) \<Rightarrow>
               (Ret (), c\<lparr>co_destination := None, co_error := co_error c @ ''|'' @ e @ ''|complete''\<rparr>, tr)
           | Some x \<Rightarrow> (Throw x, c, tr)))"

definition consumer_destroy :: "env \<Rightarrow> consumer \<Rightarrow> trace \<Rightarrow> unit outcome \<times> trace" where
  "consumer_destroy E c tr = (case consumer_cleanup E c tr of (r, _, tr') \<Rightarrow> (r, tr'))"

text \<open>How one pass through the body of the loop ends.\<close>

datatype pass = Again | Leave | Escape exn

text \<open>
  An exception inside the loop body: the message object is deleted while the stack unwinds,
  then the handler of the loop ends the loop for a \<^verbatim>\<open>CMSException\<close>.
\<close>

definition unwind :: "exn \<Rightarrow> addr \<Rightarrow> trace \<Rightarrow> pass \<times> trace" where
  "unwind x m tr = (case x of CMSException e \<Rightarrow> Leave | _ \<Rightarrow> Escape x, DeleteMessage m # tr)"

text \<open>The text of a message: a message of another type is acknowledged at once and has no text.\<close>

definition message_text :: "env \<Rightarrow> addr \<Rightarrow> trace \<Rightarrow> (exn + string) \<times> trace" where
  "message_text E m tr0 =
     (if is_text_message E m then
        (let tr = GetText m # tr0 in (get_text E tr, tr))
      else
        (let tr = Acknowledge m # tr0 in
         (case acknowledge E tr of Some x \<Rightarrow> Inl x | None \<Rightarrow> Inr '''', tr)))"

text \<open>What is done with the answer of the task.\<close>

definition conclude :: "env \<Rightarrow> consumer \<Rightarrow> addr \<Rightarrow> addr \<Rightarrow> ACK_RESULT \<Rightarrow> trace \<Rightarrow> exn option \<times> trace" where
  "conclude E c session m AR tr0 =
     (if \<not> co_clientack c then (None, tr0)
      else if AR = QUEUE_REMOVE then
        (let tr = Acknowledge m # tr0 in (acknowledge E tr, tr))
      else
        (let tr = Recover session # tr0 in (recover_session E tr, tr)))"

definition handle_message :: "env \<Rightarrow> consumer \<Rightarrow> addr \<Rightarrow> addr \<Rightarrow> trace \<Rightarrow> pass \<times> trace" where
  "handle_message E c session m tr0 =
     (case message_text E m tr0 of
        (Inl x, tr) \<Rightarrow> unwind x m tr
      | (Inr strText, tr) \<Rightarrow>
          (let tr = Process (tk_taskid (co_process c)) strText # tr in
           case process E tr of
             Inl x \<Rightarrow> unwind x m tr
           | Inr AR \<Rightarrow>
               (case conclude E c session m AR tr of
                  (Some x, tr) \<Rightarrow> unwind x m tr
                | (None, tr) \<Rightarrow> (Again, DeleteMessage m # tr))))"

definition consumer_pass :: "env \<Rightarrow> addr \<Rightarrow> addr \<Rightarrow> consumer \<Rightarrow> trace \<Rightarrow> pass \<times> consumer \<times> trace" where
  "consumer_pass E session mc c tr0 =
     (let tr = Receive mc (co_timeout c) # tr0 in
      case receive E tr of
        Inl (CMSException e) \<Rightarrow> (Leave, c\<lparr>co_error := ''receive exception, '' @ e\<rparr>, tr)
      | Inl x \<Rightarrow> (Escape x, c, tr)
      | Inr None \<Rightarrow> (Again, c, tr)
      | Inr (Some m) \<Rightarrow> (case handle_message E c session m tr of (p, tr) \<Rightarrow> (p, c, tr)))"

text \<open>The loop: \<open>None\<close> is out of fuel, \<open>Some None\<close> is left, \<open>Some (Some x)\<close> is left by an exception.\<close>

fun consumer_loop :: "nat \<Rightarrow> env \<Rightarrow> addr \<Rightarrow> addr \<Rightarrow> consumer \<Rightarrow> trace \<Rightarrow> exn option option \<times> consumer \<times> trace" where
  "consumer_loop 0 E session mc c tr = (None, c, tr)"
| "consumer_loop (Suc n) E session mc c tr0 =
     (let tr = IsRun # tr0 in
      if \<not> isrun_flag E tr then (Some None, c, tr)
      else
        (case consumer_pass E session mc c tr of
           (Again, c, tr) \<Rightarrow> consumer_loop n E session mc c tr
         | (Leave, c, tr) \<Rightarrow> (Some None, c, tr)
         | (Escape x, c, tr) \<Rightarrow> (Some (Some x), c, tr)))"

definition consumer_destination :: "env \<Rightarrow> addr \<Rightarrow> consumer \<Rightarrow> trace \<Rightarrow> (exn + addr) \<times> consumer \<times> trace" where
  "consumer_destination E session c tr0 =
     (case co_destination c of
        Some d \<Rightarrow> (Inr d, c, tr0)
      | None \<Rightarrow>
          (let tr = (if co_usetopic c then CreateTopic session (co_destURI c)
                     else CreateQueue session (co_destURI c)) # tr0 in
           case create_destination E tr of
             Inl x \<Rightarrow> (Inl x, c, tr)
           | Inr d \<Rightarrow> (Inr d, c\<lparr>co_destination := Some d\<rparr>, tr)))"

text \<open>The outer \<^verbatim>\<open>try\<close> block of \<^verbatim>\<open>run\<close>, without its handler.\<close>

definition run_try :: "nat \<Rightarrow> env \<Rightarrow> addr \<Rightarrow> consumer \<Rightarrow> trace \<Rightarrow> exn option option \<times> consumer \<times> trace" where
  "run_try fuel E session c0 tr0 =
     (case consumer_destination E session c0 tr0 of
        (Inl x, c, tr) \<Rightarrow> (Some (Some x), c, tr)
      | (Inr d, c, tr) \<Rightarrow>
          (let tr = CreateCachedConsumer session d '''' False # tr in
           case create_cached_consumer E tr of
             Inl x \<Rightarrow> (Some (Some x), c, tr)
           | Inr mc \<Rightarrow>
               consumer_loop fuel E session mc
                 (if co_timeout c \<le> 0 then c\<lparr>co_timeout := 3000\<rparr> else c) tr))"

text \<open>\<^verbatim>\<open>session->close()\<close> at the end of \<^verbatim>\<open>run\<close>.\<close>

definition run_close :: "env \<Rightarrow> addr \<Rightarrow> consumer \<Rightarrow> trace \<Rightarrow> unit outcome option \<times> consumer \<times> trace" where
  "run_close E session c tr0 =
     (let tr = CloseSession session # tr0 in
      (Some (case close_session E tr of None \<Rightarrow> Ret () | Some x \<Rightarrow> Throw x), c, tr))"

definition run_session :: "nat \<Rightarrow> env \<Rightarrow> addr \<Rightarrow> consumer \<Rightarrow> trace \<Rightarrow> unit outcome option \<times> consumer \<times> trace" where
  "run_session fuel E session c0 tr0 =
     (case run_try fuel E session c0 tr0 of
        (None, c, tr) \<Rightarrow> (None, c, tr)
      | (Some None, c, tr) \<Rightarrow> run_close E session c tr
      | (Some (Some (CMSException e)), c, tr) \<Rightarrow>
          run_close E session (c\<lparr>co_error := ''[consumer] in run, exception occured2, '' @ e\<rparr>) tr
      | (Some (Some x), c, tr) \<Rightarrow> (Some (Throw x), c, tr))"

text \<open>
  \<^verbatim>\<open>run\<close>.  The session is taken outside the \<^verbatim>\<open>try\<close> block, and a NULL session is used without a
  test.
\<close>

definition consumer_run :: "nat \<Rightarrow> env \<Rightarrow> consumer \<Rightarrow> trace \<Rightarrow> unit outcome option \<times> consumer \<times> trace" where
  "consumer_run fuel E c0 tr0 =
     (case co_sessionpool c0 of
        None \<Rightarrow> (Some (Undefined NullDereference), c0, tr0)
      | Some sp \<Rightarrow>
          (let tr = TakeSession sp # tr0 in
           case take_session E tr of
             Inl x \<Rightarrow> (Some (Throw x), c0, tr)
           | Inr s \<Rightarrow>
               (let c = c0\<lparr>co_process := set_task_id (co_taskid c0) (co_process c0)\<rparr> in
                case s of
                  None \<Rightarrow> (Some (Undefined NullDereference), c, tr)
                | Some session \<Rightarrow> run_session fuel E session c tr)))"

section \<open>Discipline of a consumer\<close>

text \<open>
  What may precede a call: a receive needs a fresh look at the stop flag that said ``run''; the
  text is that of the message just received; the task is called with the text just read, or with
  the empty text right after a message of another type was acknowledged; a text message is
  acknowledged only right after the task answered \<^verbatim>\<open>QUEUE_REMOVE\<close>, and the session is recovered only
  right after it answered \<^verbatim>\<open>QUEUE_RETRY\<close>, both only in client-acknowledge mode.
\<close>

fun call_ok :: "env \<Rightarrow> bool \<Rightarrow> call \<Rightarrow> trace \<Rightarrow> bool" where
  "call_ok E ca (Receive mc t) tr = (case tr of IsRun # _ \<Rightarrow> isrun_flag E tr | _ \<Rightarrow> False)"
| "call_ok E ca (GetText m) tr =
     (is_text_message E m \<and> (case tr of Receive _ _ # _ \<Rightarrow> receive E tr = Inr (Some m) | _ \<Rightarrow> False))"
| "call_ok E ca (Process k t) tr =
     (case tr of
        GetText m # _ \<Rightarrow> get_text E tr = Inr t
      | Acknowledge m # _ \<Rightarrow> \<not> is_text_message E m \<and> acknowledge E tr = None \<and> t = ''''
      | _ \<Rightarrow> False)"
| "call_ok E ca (Acknowledge m) tr =
     (case tr of
        Process _ _ # _ \<Rightarrow> ca \<and> process E tr = Inr QUEUE_REMOVE
      | Receive _ _ # _ \<Rightarrow> \<not> is_text_message E m \<and> receive E tr = Inr (Some m)
      | _ \<Rightarrow> False)"
| "call_ok E ca (Recover s) tr =
     (case tr of Process _ _ # _ \<Rightarrow> ca \<and> process E tr = Inr QUEUE_RETRY | _ \<Rightarrow> False)"
| "call_ok E ca _ tr = True"

primrec orderly :: "env \<Rightarrow> bool \<Rightarrow> trace \<Rightarrow> bool" where
  "orderly E ca [] = True"
| "orderly E ca (c # tr) = (call_ok E ca c tr \<and> orderly E ca tr)"

lemma not_remove: "(AR \<noteq> QUEUE_REMOVE) = (AR = QUEUE_RETRY)"
  by (cases AR) auto

lemma unwind_orderly: "orderly E ca (snd (unwind x m tr)) = orderly E ca tr"
  by (simp add: unwind_def)

lemma message_text_cases:
  obtains (fail) x tr' where "message_text E m tr = (Inl x, tr')" and "tr' = GetText m # tr \<or> tr' = Acknowledge m # tr"
      and "is_text_message E m \<longleftrightarrow> tr' = GetText m # tr"
  | (textual) t where "message_text E m tr = (Inr t, GetText m # tr)" and "is_text_message E m"
      and "get_text E (GetText m # tr) = Inr t"
  | (other) "message_text E m tr = (Inr '''', Acknowledge m # tr)" and "\<not> is_text_message E m"
      and "acknowledge E (Acknowledge m # tr) = None"
  by (cases "is_text_message E m"; cases "get_text E (GetText m # tr)"; cases "acknowledge E (Acknowledge m # tr)")
    (auto simp: message_text_def)

lemma conclude_orderly:
  assumes "conclude E c session m AR (Process k t # tr) = (r, tr')"
    and "process E (Process k t # tr) = Inr AR"
  shows "orderly E (co_clientack c) tr' = orderly E (co_clientack c) (Process k t # tr)"
  using assms by (cases AR; cases "co_clientack c") (auto simp: conclude_def Let_def)

lemma handle_message_orderly:
  assumes "orderly E (co_clientack c) (Receive mc to # tr)" and "receive E (Receive mc to # tr) = Inr (Some m)"
  shows "orderly E (co_clientack c) (snd (handle_message E c session m (Receive mc to # tr)))"
proof -
  let ?tr = "Receive mc to # tr" and ?k = "tk_taskid (co_process c)"
  have rest: "orderly E (co_clientack c) (snd (case process E (Process ?k t # tr1) of
             Inl x \<Rightarrow> unwind x m (Process ?k t # tr1)
           | Inr AR \<Rightarrow>
               (case conclude E c session m AR (Process ?k t # tr1) of
                  (Some x, tr) \<Rightarrow> unwind x m tr
                | (None, tr) \<Rightarrow> (Again, DeleteMessage m # tr))))"
    if ok: "orderly E (co_clientack c) (Process ?k t # tr1)" for t tr1
  proof (cases "process E (Process ?k t # tr1)")
    case (Inl x)
    with ok show ?thesis by (simp only: sum.case unwind_orderly)
  next
    case (Inr AR)
    obtain r tr2 where c: "conclude E c session m AR (Process ?k t # tr1) = (r, tr2)"
      by (cases "conclude E c session m AR (Process ?k t # tr1)")
    with conclude_orderly [OF c Inr] ok Inr show ?thesis
      by (cases r) (simp_all only: sum.case prod.case option.case unwind_orderly snd_conv orderly.simps call_ok.simps)
  qed
  show ?thesis
  proof (cases E m ?tr rule: message_text_cases)
    case (fail x tr')
    then show ?thesis using assms by (auto simp: handle_message_def unwind_orderly)
  next
    case (textual t)
    then show ?thesis using assms rest [of t "GetText m # ?tr"] by (simp add: handle_message_def Let_def)
  next
    case other
    then show ?thesis using assms rest [of "''''" "Acknowledge m # ?tr"] by (simp add: handle_message_def Let_def)
  qed
qed

lemma consumer_pass_orderly:
  assumes "orderly E (co_clientack c) (IsRun # tr)" and "isrun_flag E (IsRun # tr)"
    and "consumer_pass E session mc c (IsRun # tr) = (p, c', tr')"
  shows "orderly E (co_clientack c) tr' \<and> co_clientack c' = co_clientack c"
proof -
  let ?tr = "Receive mc (co_timeout c) # IsRun # tr"
  have ok: "orderly E (co_clientack c) ?tr" using assms by simp
  show ?thesis
  proof (cases "receive E ?tr")
    case (Inl x)
    with ok assms(3) show ?thesis by (cases x) (auto simp: consumer_pass_def)
  next
    case (Inr mo)
    then show ?thesis
    proof (cases mo)
      case None
      with Inr ok assms(3) show ?thesis by (auto simp: consumer_pass_def)
    next
      case (Some m)
      with Inr assms(3) handle_message_orderly [OF ok, of m session] show ?thesis
        by (auto simp: consumer_pass_def split: prod.splits)
    qed
  qed
qed

lemma consumer_loop_orderly:
  assumes "consumer_loop n E session mc c tr = (r, c', tr')" and "orderly E (co_clientack c) tr"
  shows "orderly E (co_clientack c) tr'"
  using assms
proof (induction n arbitrary: c tr)
  case (Suc n)
  show ?case
  proof (cases "isrun_flag E (IsRun # tr)")
    case True
    obtain p c1 tr1 where p: "consumer_pass E session mc c (IsRun # tr) = (p, c1, tr1)"
      by (cases "consumer_pass E session mc c (IsRun # tr)")
    have ok1: "orderly E (co_clientack c) tr1 \<and> co_clientack c1 = co_clientack c"
      using consumer_pass_orderly [OF _ True p] Suc.prems(2) by simp
    show ?thesis
    proof (cases p)
      case Again
      with Suc.prems p True have "consumer_loop n E session mc c1 tr1 = (r, c', tr')" by simp
      from Suc.IH [OF this] ok1 show ?thesis by simp
    qed (use Suc.prems p True ok1 in auto)
  next
    case False
    with Suc.prems show ?thesis by auto
  qed
qed simp

lemma consumer_destination_cases:
  obtains (fail) x tr' where "consumer_destination E session c tr = (Inl x, c, tr')"
      and "tr' = CreateTopic session (co_destURI c) # tr \<or> tr' = CreateQueue session (co_destURI c) # tr"
  | (ok) d tr' where "consumer_destination E session c tr = (Inr d, c\<lparr>co_destination := Some d\<rparr>, tr')"
      and "tr' = tr \<or> tr' = CreateTopic session (co_destURI c) # tr \<or> tr' = CreateQueue session (co_destURI c) # tr"
proof (cases "co_destination c")
  case None
  let ?tr = "(if co_usetopic c then CreateTopic session (co_destURI c)
                     else CreateQueue session (co_destURI c)) # tr"
  have tr': "?tr = CreateTopic session (co_destURI c) # tr \<or> ?tr = CreateQueue session (co_destURI c) # tr"
    by simp
  show ?thesis
  proof (cases "create_destination E ?tr")
    case (Inl x)
    with None have "consumer_destination E session c tr = (Inl x, c, ?tr)"
      by (simp only: consumer_destination_def Let_def option.case sum.case)
    then show ?thesis using fail tr' by blast
  next
    case (Inr d)
    with None have "consumer_destination E session c tr = (Inr d, c\<lparr>co_destination := Some d\<rparr>, ?tr)"
      by (simp only: consumer_destination_def Let_def option.case sum.case)
    then show ?thesis using ok tr' by blast
  qed
next
  case (Some d)
  then have "c\<lparr>co_destination := Some d\<rparr> = c" by simp
  with Some ok [of d tr] show ?thesis by (simp add: consumer_destination_def)
qed

lemma run_try_cases:
  obtains (destination) x tr' where "run_try fuel E session c tr = (Some (Some x), c, tr')"
      and "tr' = CreateTopic session (co_destURI c) # tr \<or> tr' = CreateQueue session (co_destURI c) # tr"
  | (consumer) x d tr1 where
      "run_try fuel E session c tr = (Some (Some x), c\<lparr>co_destination := Some d\<rparr>,
         CreateCachedConsumer session d '''' False # tr1)"
      and "tr1 = tr \<or> tr1 = CreateTopic session (co_destURI c) # tr \<or> tr1 = CreateQueue session (co_destURI c) # tr"
  | (loop) d tr1 mc where
      "run_try fuel E session c tr = consumer_loop fuel E session mc
         (c\<lparr>co_destination := Some d, co_timeout := if co_timeout c \<le> 0 then 3000 else co_timeout c\<rparr>)
         (CreateCachedConsumer session d '''' False # tr1)"
      and "tr1 = tr \<or> tr1 = CreateTopic session (co_destURI c) # tr \<or> tr1 = CreateQueue session (co_destURI c) # tr"
proof (cases E session c tr rule: consumer_destination_cases)
  case (fail x tr')
  with destination show ?thesis by (simp add: run_try_def)
next
  case (ok d tr1)
  let ?tr = "CreateCachedConsumer session d '''' False # tr1"
  show ?thesis
  proof (cases "create_cached_consumer E ?tr")
    case (Inl x)
    with ok consumer show ?thesis by (simp add: run_try_def Let_def)
  next
    case (Inr mc)
    have "(if co_timeout c \<le> 0 then c\<lparr>co_destination := Some d, co_timeout := 3000\<rparr> else c\<lparr>co_destination := Some d\<rparr>)
        = c\<lparr>co_destination := Some d, co_timeout := if co_timeout c \<le> 0 then 3000 else co_timeout c\<rparr>"
      by simp
    with Inr ok loop [of mc d tr1] show ?thesis by (simp add: run_try_def Let_def)
  qed
qed

section \<open>Messages and sessions are given back\<close>

lemma unwind_balance:
  "live_messages E (snd (unwind x m tr)) = live_messages E tr - 1"
  "open_sessions E (snd (unwind x m tr)) = open_sessions E tr"
  by (simp_all add: unwind_def delta_defs)

lemma conclude_balance:
  assumes "conclude E c session m AR tr = (r, tr')"
  shows "live_messages E tr' = live_messages E tr \<and> open_sessions E tr' = open_sessions E tr"
  using assms by (cases AR; cases "co_clientack c") (auto simp: conclude_def Let_def delta_defs)

lemma message_text_balance:
  assumes "message_text E m tr = (r, tr')"
  shows "live_messages E tr' = live_messages E tr \<and> open_sessions E tr' = open_sessions E tr"
  using assms by (cases E m tr rule: message_text_cases) (auto simp: delta_defs)

lemma handle_message_balance:
  "live_messages E (snd (handle_message E c session m tr)) = live_messages E tr - 1
   \<and> open_sessions E (snd (handle_message E c session m tr)) = open_sessions E tr"
proof -
  obtain t tr1 where t: "message_text E m tr = (t, tr1)" by (cases "message_text E m tr")
  note b1 = message_text_balance [OF t]
  show ?thesis
  proof (cases t)
    case (Inl x)
    with t b1 show ?thesis by (simp add: handle_message_def unwind_balance)
  next
    case (Inr str)
    let ?tr = "Process (tk_taskid (co_process c)) str # tr1"
    have b2: "live_messages E ?tr = live_messages E tr1" "open_sessions E ?tr = open_sessions E tr1"
      by (simp_all add: delta_defs)
    show ?thesis
    proof (cases "process E ?tr")
      case p: (Inl x)
      have "handle_message E c session m tr = unwind x m ?tr"
        using t Inr p by (simp add: handle_message_def Let_def)
      then show ?thesis using b1 b2 by (simp only: unwind_balance)
    next
      case p: (Inr AR)
      obtain r tr2 where c: "conclude E c session m AR ?tr = (r, tr2)" by (cases "conclude E c session m AR ?tr")
      have h: "handle_message E c session m tr =
          (case r of Some x \<Rightarrow> unwind x m tr2 | None \<Rightarrow> (Again, DeleteMessage m # tr2))"
        using t Inr p c by (simp add: handle_message_def Let_def)
      show ?thesis
        unfolding h using conclude_balance [OF c] b1 b2
        by (cases r) (simp_all add: unwind_balance delta_defs)
    qed
  qed
qed

lemma consumer_pass_balance:
  assumes "consumer_pass E session mc c tr = (p, c', tr')"
  shows "live_messages E tr' = live_messages E tr \<and> open_sessions E tr' = open_sessions E tr
     \<and> length tr < length tr'"
proof -
  let ?tr = "Receive mc (co_timeout c) # tr"
  show ?thesis
  proof (cases "receive E ?tr")
    case (Inl x)
    with assms show ?thesis by (cases x) (auto simp: consumer_pass_def delta_defs)
  next
    case (Inr mo)
    then show ?thesis
    proof (cases mo)
      case None
      with Inr assms show ?thesis by (auto simp: consumer_pass_def delta_defs)
    next
      case (Some m)
      have "length ?tr \<le> length (snd (handle_message E c session m ?tr))"
        by (auto simp: handle_message_def unwind_def conclude_def message_text_def Let_def
            split: prod.splits sum.splits option.splits if_splits)
      moreover have "tr' = snd (handle_message E c session m ?tr)"
        using Some Inr assms by (auto simp: consumer_pass_def split: prod.splits)
      moreover have "live_messages E ?tr = live_messages E tr + 1" "open_sessions E ?tr = open_sessions E tr"
        using Some Inr by (simp_all add: delta_defs)
      ultimately show ?thesis using handle_message_balance [of E c session m ?tr] by simp
    qed
  qed
qed

lemma consumer_loop_balance:
  assumes "consumer_loop n E session mc c tr = (r, c', tr')"
  shows "live_messages E tr' = live_messages E tr \<and> open_sessions E tr' = open_sessions E tr"
  using assms
proof (induction n arbitrary: c tr)
  case (Suc n)
  have b: "live_messages E (IsRun # tr) = live_messages E tr" "open_sessions E (IsRun # tr) = open_sessions E tr"
    by (simp_all add: delta_defs)
  show ?case
  proof (cases "isrun_flag E (IsRun # tr)")
    case True
    obtain p c1 tr1 where p: "consumer_pass E session mc c (IsRun # tr) = (p, c1, tr1)"
      by (cases "consumer_pass E session mc c (IsRun # tr)")
    note b1 = consumer_pass_balance [OF p]
    show ?thesis
    proof (cases p)
      case Again
      with Suc.prems p True have "consumer_loop n E session mc c1 tr1 = (r, c', tr')" by simp
      from Suc.IH [OF this] b b1 show ?thesis by simp
    qed (use Suc.prems p True b b1 in auto)
  next
    case False
    with Suc.prems b show ?thesis by auto
  qed
qed simp

lemma run_try_balance:
  assumes "run_try fuel E session c tr = (r, c', tr')"
  shows "live_messages E tr' = live_messages E tr \<and> open_sessions E tr' = open_sessions E tr"
proof (cases fuel E session c tr rule: run_try_cases)
  case (loop d tr1 mc)
  then have "live_messages E (CreateCachedConsumer session d '''' False # tr1) = live_messages E tr
     \<and> open_sessions E (CreateCachedConsumer session d '''' False # tr1) = open_sessions E tr"
    by (auto simp: delta_defs)
  with loop(1) assms consumer_loop_balance show ?thesis by metis
qed (use assms in \<open>auto simp: delta_defs\<close>)

section \<open>Fuel\<close>

lemma consumer_loop_more_fuel:
  assumes "consumer_loop n E session mc c tr = (Some r, c', tr')" and "n \<le> k"
  shows "consumer_loop k E session mc c tr = (Some r, c', tr')"
  using assms
proof (induction n arbitrary: c tr k)
  case (Suc n)
  then obtain k' where k: "k = Suc k'" "n \<le> k'" by (cases k) auto
  obtain p c1 tr1 where p: "consumer_pass E session mc c (IsRun # tr) = (p, c1, tr1)"
    by (cases "consumer_pass E session mc c (IsRun # tr)")
  show ?case
  proof (cases "isrun_flag E (IsRun # tr) \<and> p = Again")
    case True
    with Suc.prems(1) p have "consumer_loop n E session mc c1 tr1 = (Some r, c', tr')" by simp
    from Suc.IH [OF this k(2)] True p k(1) show ?thesis by simp
  next
    case False
    with Suc.prems(1) p k(1) show ?thesis by (cases p) (auto simp: Let_def)
  qed
qed simp

lemma consumer_loop_enough:
  assumes "\<And>tr. N \<le> length tr \<Longrightarrow> \<not> isrun_flag E tr" and "N < length tr + n" and "0 < n"
  shows "fst (consumer_loop n E session mc c tr) \<noteq> None"
  using assms(2,3)
proof (induction n arbitrary: c tr)
  case (Suc n)
  obtain p c1 tr1 where p: "consumer_pass E session mc c (IsRun # tr) = (p, c1, tr1)"
    by (cases "consumer_pass E session mc c (IsRun # tr)")
  show ?case
  proof (cases "isrun_flag E (IsRun # tr)")
    case True
    then have "length tr + 1 < N" using assms(1) [of "IsRun # tr"] by fastforce
    with Suc.prems consumer_pass_balance [OF p] have "N < length tr1 + n" "0 < n" by auto
    from Suc.IH [OF this] True p show ?thesis by (cases p) auto
  next
    case False
    then show ?thesis by simp
  qed
qed simp



lemma run_try_enough:
  assumes "\<And>tr. N \<le> length tr \<Longrightarrow> \<not> isrun_flag E tr"
  shows "\<exists>r c' tr'. \<forall>fuel > N. run_try fuel E session c tr = (Some r, c', tr')"
proof (cases E session c tr rule: consumer_destination_cases)
  case (fail x tr')
  then show ?thesis by (simp add: run_try_def)
next
  case (ok d tr1)
  let ?tr = "CreateCachedConsumer session d '''' False # tr1"
  show ?thesis
  proof (cases "create_cached_consumer E ?tr")
    case (Inl x)
    with ok show ?thesis by (simp add: run_try_def)
  next
    case (Inr mc)
    let ?c = "if co_timeout c \<le> 0 then c\<lparr>co_destination := Some d, co_timeout := 3000\<rparr> else c\<lparr>co_destination := Some d\<rparr>"
    have eq: "run_try fuel E session c tr = consumer_loop fuel E session mc ?c ?tr" for fuel
      using ok Inr by (simp add: run_try_def)
    obtain r c' tr' where "consumer_loop (Suc N) E session mc ?c ?tr = (Some r, c', tr')"
      using consumer_loop_enough [of N E ?tr "Suc N" session mc ?c] assms
      by (cases "consumer_loop (Suc N) E session mc ?c ?tr") auto
    then show ?thesis using consumer_loop_more_fuel eq by (metis Suc_leI)
  qed
qed

section \<open>Exceptions of the CMS interface only\<close>

text \<open>
  The documented behaviour of the calls a consumer makes, and of a task that follows the same
  rule: a call that fails throws a \<^verbatim>\<open>CMSException\<close>.
\<close>

definition consumer_cms :: "env \<Rightarrow> bool" where
  "consumer_cms E \<longleftrightarrow>
     (\<forall>tr x. create_destination E tr = Inl x \<longrightarrow> cms x)
     \<and> (\<forall>tr x. create_cached_consumer E tr = Inl x \<longrightarrow> cms x)
     \<and> (\<forall>tr x. receive E tr = Inl x \<longrightarrow> cms x)
     \<and> (\<forall>tr x. get_text E tr = Inl x \<longrightarrow> cms x)
     \<and> (\<forall>tr x. acknowledge E tr = Some x \<longrightarrow> cms x)
     \<and> (\<forall>tr x. recover_session E tr = Some x \<longrightarrow> cms x)
     \<and> (\<forall>tr x. process E tr = Inl x \<longrightarrow> cms x)"

lemma unwind_cms: "cms x \<Longrightarrow> fst (unwind x m tr) = Leave"
  by (cases x) (simp_all add: unwind_def)

lemma message_text_cms:
  "consumer_cms E \<Longrightarrow> message_text E m tr = (Inl x, tr') \<Longrightarrow> cms x"
  by (auto simp: message_text_def consumer_cms_def Let_def split: if_splits option.splits)

lemma conclude_cms:
  "consumer_cms E \<Longrightarrow> conclude E c session m AR tr = (Some x, tr') \<Longrightarrow> cms x"
  by (auto simp: conclude_def consumer_cms_def Let_def split: if_splits)

lemma handle_message_cms:
  assumes "consumer_cms E"
  shows "fst (handle_message E c session m tr) \<noteq> Escape x"
proof -
  obtain t tr1 where t: "message_text E m tr = (t, tr1)" by (cases "message_text E m tr")
  show ?thesis
  proof (cases t)
    case (Inl y)
    with t have "fst (handle_message E c session m tr) = Leave"
      using unwind_cms [OF message_text_cms [OF assms]] by (simp add: handle_message_def)
    then show ?thesis by simp
  next
    case (Inr str)
    let ?tr = "Process (tk_taskid (co_process c)) str # tr1"
    show ?thesis
    proof (cases "process E ?tr")
      case p: (Inl y)
      then have "cms y" using assms by (simp add: consumer_cms_def)
      with t Inr p unwind_cms show ?thesis by (simp add: handle_message_def)
    next
      case p: (Inr AR)
      obtain r tr2 where c: "conclude E c session m AR ?tr = (r, tr2)" by (cases "conclude E c session m AR ?tr")
      with t Inr p unwind_cms conclude_cms [OF assms] show ?thesis
        by (cases r) (simp_all add: handle_message_def)
    qed
  qed
qed

lemma consumer_pass_cms:
  assumes "consumer_cms E" and "consumer_pass E session mc c tr = (p, c', tr')"
  shows "p \<noteq> Escape x"
proof (cases "receive E (Receive mc (co_timeout c) # tr)")
  case (Inl y)
  then have "cms y" using assms(1) by (simp add: consumer_cms_def)
  with Inl assms(2) show ?thesis by (cases y) (auto simp: consumer_pass_def)
next
  case (Inr mo)
  with assms(2) handle_message_cms [OF assms(1)] show ?thesis
    by (cases mo) (auto simp: consumer_pass_def split: prod.splits, metis fst_conv)
qed

lemma consumer_loop_cms:
  assumes "consumer_cms E"
  shows "fst (consumer_loop n E session mc c tr) \<noteq> Some (Some x)"
proof (induction n arbitrary: c tr)
  case (Suc n)
  obtain p c1 tr1 where p: "consumer_pass E session mc c (IsRun # tr) = (p, c1, tr1)"
    by (cases "consumer_pass E session mc c (IsRun # tr)")
  with consumer_pass_cms [OF assms p] Suc.IH show ?case by (cases p) (simp_all add: Let_def)
qed simp

lemma run_try_cms:
  assumes "consumer_cms E" and "run_try fuel E session c tr = (Some (Some x), c', tr')"
  shows "cms x"
proof (cases E session c tr rule: consumer_destination_cases)
  case (fail y tr1)
  with assms(2) have "consumer_destination E session c tr = (Inl x, c, tr1)" by (simp add: run_try_def)
  with assms(1) show ?thesis
    by (auto simp: consumer_destination_def consumer_cms_def Let_def split: option.splits sum.splits)
next
  case (ok d tr1)
  let ?tr = "CreateCachedConsumer session d '''' False # tr1"
  show ?thesis
  proof (cases "create_cached_consumer E ?tr")
    case (Inl y)
    with ok assms show ?thesis by (auto simp: run_try_def consumer_cms_def)
  next
    case (Inr mc)
    with ok assms(2) consumer_loop_cms [OF assms(1)] show ?thesis
      by (auto simp: run_try_def) (metis fst_conv)+
  qed
qed

section \<open>The whole of \<^verbatim>\<open>run\<close>\<close>

text \<open>\<^verbatim>\<open>run\<close> by the way it starts: without a session, or with the session it was given.\<close>

lemma consumer_run_cases:
  obtains (nopool) "co_sessionpool c = None" and "\<And>fuel. consumer_run fuel E c tr = (Some (Undefined NullDereference), c, tr)"
  | (notake) sp x where "co_sessionpool c = Some sp" and "take_session E (TakeSession sp # tr) = Inl x"
      and "\<And>fuel. consumer_run fuel E c tr = (Some (Throw x), c, TakeSession sp # tr)"
  | (nosession) sp c1 where "co_sessionpool c = Some sp" and "take_session E (TakeSession sp # tr) = Inr None"
      and "\<And>fuel. consumer_run fuel E c tr = (Some (Undefined NullDereference), c1, TakeSession sp # tr)"
  | (session) sp session where "co_sessionpool c = Some sp"
      and "take_session E (TakeSession sp # tr) = Inr (Some session)"
      and "\<And>fuel. consumer_run fuel E c tr = run_session fuel E session
         (c\<lparr>co_process := set_task_id (co_taskid c) (co_process c)\<rparr>) (TakeSession sp # tr)"
proof (cases "co_sessionpool c")
  case None
  with nopool show ?thesis by (simp add: consumer_run_def)
next
  case (Some sp)
  show ?thesis
  proof (cases "take_session E (TakeSession sp # tr)")
    case (Inl x)
    with Some notake show ?thesis by (simp add: consumer_run_def)
  next
    case (Inr s)
    with Some nosession session show ?thesis by (cases s) (simp_all add: consumer_run_def)
  qed
qed

text \<open>\<^verbatim>\<open>run\<close> with a session: the loop was left, by itself or by a \<^verbatim>\<open>CMSException\<close>, or not.\<close>

lemma run_session_cases:
  assumes "run_session fuel E session c tr = (r, c', tr')"
  obtains (fuel) "run_try fuel E session c tr = (None, c', tr')" and "r = None"
  | (closed) x c1 tr1 where "run_try fuel E session c tr = (Some x, c1, tr1)" and "\<And>y. x = Some y \<Longrightarrow> cms y"
      and "tr' = CloseSession session # tr1"
      and "r = Some (case close_session E tr' of None \<Rightarrow> Ret () | Some y \<Rightarrow> Throw y)"
  | (escaped) x where "run_try fuel E session c tr = (Some (Some x), c', tr')" and "\<not> cms x"
      and "r = Some (Throw x)"
proof -
  obtain x c1 tr1 where t: "run_try fuel E session c tr = (x, c1, tr1)" by (cases "run_try fuel E session c tr")
  show ?thesis
  proof (cases x)
    case None
    with t assms that(1) show ?thesis by (simp add: run_session_def)
  next
    case (Some y)
    show ?thesis
    proof (cases "y = None \<or> (\<exists>e. y = Some (CMSException e))")
      case True
      have cy: "z = Some w \<Longrightarrow> cms w" if "y = z" for z w using True that by auto
      have "tr' = CloseSession session # tr1"
        "r = Some (case close_session E tr' of None \<Rightarrow> Ret () | Some y \<Rightarrow> Throw y)"
        using True t Some assms by (auto simp: run_session_def run_close_def Let_def)
      with that(2) [of y c1 tr1] t Some cy show ?thesis by simp
    next
      case False
      then obtain z where z: "y = Some z" "\<not> cms z" by (cases y; cases "the y") auto
      with t Some assms have "c1 = c'" "tr1 = tr'" "r = Some (Throw z)"
        by (cases z; simp add: run_session_def)+
      with that(3) z t Some show ?thesis by simp
    qed
  qed
qed

lemma run_session_balance:
  assumes "run_session fuel E session c tr = (r, c', tr')"
  shows "live_messages E tr' = live_messages E tr
     \<and> (r = Some (Ret ()) \<longrightarrow> open_sessions E tr' = open_sessions E tr - 1)"
  using assms
proof (cases rule: run_session_cases)
  case (closed x c1 tr1)
  with run_try_balance [OF closed(1)] show ?thesis by (simp add: delta_defs)
qed (auto dest: run_try_balance)

lemma run_try_orderly:
  assumes "run_try fuel E session c tr = (r, c', tr')" and "orderly E (co_clientack c) tr"
  shows "orderly E (co_clientack c) tr'"
proof (cases fuel E session c tr rule: run_try_cases)
  case (loop d tr1 mc)
  then have "orderly E (co_clientack c) (CreateCachedConsumer session d '''' False # tr1)"
    using assms(2) by auto
  with consumer_loop_orderly [OF trans [OF loop(1) [symmetric] assms(1)]] show ?thesis by simp
qed (use assms in auto)

lemma run_session_orderly:
  assumes "run_session fuel E session c tr = (r, c', tr')" and "orderly E (co_clientack c) tr"
  shows "orderly E (co_clientack c) tr'"
  using assms(1)
proof (cases rule: run_session_cases)
  case (closed x c1 tr1)
  with run_try_orderly [OF closed(1) assms(2)] show ?thesis by simp
qed (use assms(2) run_try_orderly in blast)+

lemma run_session_enough:
  assumes "\<And>tr. N \<le> length tr \<Longrightarrow> \<not> isrun_flag E tr"
  shows "\<exists>r c' tr'. \<forall>fuel > N. run_session fuel E session c tr = (Some r, c', tr')"
proof -
  obtain r c1 tr1 where t: "\<forall>fuel > N. run_try fuel E session c tr = (Some r, c1, tr1)"
    using run_try_enough [OF assms] by blast
  let ?R = "\<lambda>f. run_session f E session c tr"
  have same: "\<forall>fuel > N. ?R fuel = ?R (Suc N)" using t by (simp add: run_session_def)
  have "fst (?R (Suc N)) \<noteq> None"
    using t by (simp add: run_session_def run_close_def Let_def split: option.splits exn.splits)
  then obtain q c' tr' where "?R (Suc N) = (Some q, c', tr')" by (cases "?R (Suc N)") auto
  with same show ?thesis by auto
qed

text \<open>How often a trace has asked for a message.\<close>

definition receives :: "trace \<Rightarrow> nat" where
  "receives tr = length (filter (\<lambda>c. case c of Receive _ _ \<Rightarrow> True | _ \<Rightarrow> False) tr)"

lemma receives_simps [simp]:
  "receives (Receive mc t # tr) = Suc (receives tr)"
  "receives (TakeSession a # tr) = receives tr" "receives (CloseSession a # tr) = receives tr"
  "receives (CreateTopic a u # tr) = receives tr" "receives (CreateQueue a u # tr) = receives tr"
  "receives (CreateCachedConsumer a d s b # tr) = receives tr" "receives (IsRun # tr) = receives tr"
  by (simp_all add: receives_def)

lemma stopped_run_try:
  assumes "\<And>tr. \<not> isrun_flag E tr" and "run_try (Suc n) E session c tr = (r, c', tr')"
  shows "receives tr' = receives tr"
proof (cases "Suc n" E session c tr rule: run_try_cases)
  case (loop d tr1 mc)
  with assms show ?thesis by auto
qed (use assms in auto)

lemma stopped_run:
  assumes "\<And>tr. \<not> isrun_flag E tr" and "consumer_run (Suc n) E c tr = (r, c', tr')"
  shows "receives tr' = receives tr"
proof (cases rule: consumer_run_cases [where c = c and E = E and tr = tr])
  case (session sp s)
  from trans [OF session(3) [symmetric] assms(2)] show ?thesis
  proof (cases rule: run_session_cases)
    case (closed x c1 tr1)
    from stopped_run_try [OF assms(1) closed(1)] closed(3) show ?thesis by simp
  qed (use stopped_run_try [OF assms(1)] in fastforce)+
qed (use assms in auto)

section \<open>Properties\<close>


definition demo_consumer :: consumer where
  "demo_consumer = new_consumer (Some 4) ''Q'' 0 False True 0"




text \<open>
  C14: no leak.  However a run ends, every message object that was received has been deleted; and
  when it returns normally, the session it took has been given back to the session pool.
\<close>

theorem consumer_run_releases:
  assumes "consumer_run fuel E c tr = (r, c', tr')"
  shows "live_messages E tr' = live_messages E tr
     \<and> (r = Some (Ret ()) \<longrightarrow> open_sessions E tr' = open_sessions E tr)"
proof (cases rule: consumer_run_cases [where c = c and E = E and tr = tr])
  case (session sp s)
  from run_session_balance [OF trans [OF session(3) [symmetric] assms]] session(2)
  show ?thesis by (simp add: delta_defs)
qed (use assms in \<open>auto simp: delta_defs\<close>)

theorem consumer_run_releases_witness:
  "\<exists>c' tr'. consumer_run 3 (good_env\<lparr>isrun_flag := (\<lambda>tr. length tr < 5)\<rparr>) demo_consumer [] = (Some (Ret ()), c', tr')
     \<and> live_messages (good_env\<lparr>isrun_flag := (\<lambda>tr. length tr < 5)\<rparr>) tr' = 0
     \<and> open_sessions (good_env\<lparr>isrun_flag := (\<lambda>tr. length tr < 5)\<rparr>) tr' = 0"
proof -
  let ?E = "good_env\<lparr>isrun_flag := (\<lambda>tr. length tr < 5)\<rparr>"
  obtain c' tr' where r: "consumer_run 3 ?E demo_consumer [] = (Some (Ret ()), c', tr')"
    by (simp add: demo_consumer_def new_consumer_def consumer_run_def run_session_def run_try_def
        consumer_destination_def consumer_pass_def handle_message_def message_text_def conclude_def
        run_close_def numeral_3_eq_3 Let_def)
  from consumer_run_releases [OF r] r show ?thesis by simp
qed

text \<open>
  C15: a consumer stops.  If the stop flag is down from some point on, the run ends, with the same
  result for every amount of fuel above that point, whatever the library and the task answer.
\<close>

theorem consumer_run_terminates:
  assumes "\<And>tr. N \<le> length tr \<Longrightarrow> \<not> isrun_flag E tr"
  shows "\<exists>r c' tr'. \<forall>fuel > N. consumer_run fuel E c tr = (Some r, c', tr')"
proof (cases rule: consumer_run_cases [where c = c and E = E and tr = tr])
  case (session sp s)
  from run_session_enough [OF assms] session(3) show ?thesis by simp
qed auto

theorem consumer_run_terminates_witness:
  "\<exists>r c' tr'. \<forall>fuel > 20. consumer_run fuel good_env demo_consumer [] = (Some r, c', tr')"
  by (rule consumer_run_terminates) simp



text \<open>
  what happens with one text message, call by call: its text goes to the task under the
  consumer's task id; in client-acknowledge mode the message is then acknowledged if the task
  answers \<^verbatim>\<open>QUEUE_REMOVE\<close> and the session is recovered, so that the broker delivers it again, if it
  answers \<^verbatim>\<open>QUEUE_RETRY\<close>; in the other mode nothing is acknowledged; then the message is deleted
  and the loop goes on.
\<close>

theorem text_message_calls:
  assumes "receive E (Receive mc (co_timeout c) # tr) = Inr (Some m)" and "is_text_message E m"
    and "\<And>tr. get_text E tr = Inr strText" and "\<And>tr. process E tr = Inr AR"
    and "\<And>tr. acknowledge E tr = None" and "\<And>tr. recover_session E tr = None"
  shows "consumer_pass E session mc c tr =
     (Again, c,
      DeleteMessage m #
      (if co_clientack c then [if AR = QUEUE_REMOVE then Acknowledge m else Recover session] else []) @
      [Process (tk_taskid (co_process c)) strText, GetText m, Receive mc (co_timeout c)] @ tr)"
  using assms by (simp add: consumer_pass_def handle_message_def message_text_def conclude_def)

theorem text_message_calls_witness:
  "consumer_pass (good_env\<lparr>process := (\<lambda>_. Inr QUEUE_RETRY)\<rparr>) 5 9 demo_consumer [] =
     (Again, demo_consumer,
      [DeleteMessage 10, Recover 5, Process None ''hello'', GetText 10, Receive 9 0])"
  using text_message_calls [of "good_env\<lparr>process := (\<lambda>_. Inr QUEUE_RETRY)\<rparr>" 9 demo_consumer "[]" 10 "''hello''"
      QUEUE_RETRY 5]
  by (simp add: demo_consumer_def new_consumer_def new_task_def)

text \<open>
  a message that is not a text message is acknowledged before the task sees it, and the task is
  called with an empty text; if it answers \<^verbatim>\<open>QUEUE_RETRY\<close> the session is recovered although the
  message is already acknowledged, and if it answers \<^verbatim>\<open>QUEUE_REMOVE\<close> it is acknowledged twice.
\<close>

theorem other_message_calls:
  assumes "receive E (Receive mc (co_timeout c) # tr) = Inr (Some m)" and "\<not> is_text_message E m"
    and "\<And>tr. process E tr = Inr AR"
    and "\<And>tr. acknowledge E tr = None" and "\<And>tr. recover_session E tr = None"
  shows "consumer_pass E session mc c tr =
     (Again, c,
      DeleteMessage m #
      (if co_clientack c then [if AR = QUEUE_REMOVE then Acknowledge m else Recover session] else []) @
      [Process (tk_taskid (co_process c)) '''', Acknowledge m, Receive mc (co_timeout c)] @ tr)"
  using assms by (simp add: consumer_pass_def handle_message_def message_text_def conclude_def)

theorem other_message_calls_witness:
  "consumer_pass (good_env\<lparr>is_text_message := (\<lambda>_. False)\<rparr>) 5 9 demo_consumer [] =
     (Again, demo_consumer,
      [DeleteMessage 10, Acknowledge 10, Process None '''', Acknowledge 10, Receive 9 0])"
  using other_message_calls [of "good_env\<lparr>is_text_message := (\<lambda>_. False)\<rparr>" 9 demo_consumer "[]" 10
      QUEUE_REMOVE 5]
  by (simp add: demo_consumer_def new_consumer_def new_task_def)

text \<open>
  an exception that is not a \<^verbatim>\<open>CMSException\<close> and leaves the \<^verbatim>\<open>try\<close> block (a task that throws
  one, for instance) leaves \<^verbatim>\<open>run\<close> without giving the session back: one session of the session
  pool is lost for ever.
\<close>

theorem escaping_exception_leaks_session:
  assumes "co_sessionpool c = Some sp" and "take_session E (TakeSession sp # tr) = Inr (Some session)"
    and "run_try fuel E session (c\<lparr>co_process := set_task_id (co_taskid c) (co_process c)\<rparr>) (TakeSession sp # tr)
           = (Some (Some x), c', tr')"
    and "\<not> cms x"
  shows "consumer_run fuel E c tr = (Some (Throw x), c', tr') \<and> open_sessions E tr' = open_sessions E tr + 1"
proof -
  have "consumer_run fuel E c tr = (Some (Throw x), c', tr')"
    using assms by (cases x) (simp_all add: consumer_run_def run_session_def)
  moreover have "open_sessions E (TakeSession sp # tr) = open_sessions E tr + 1"
    using assms(2) by (simp add: delta_defs)
  ultimately show ?thesis using run_try_balance [OF assms(3)] by simp
qed

theorem escaping_exception_leaks_session_witness:
  "\<exists>c' tr'. consumer_run 3 (good_env\<lparr>process := (\<lambda>_. Inl (OtherException ''bad''))\<rparr>) demo_consumer []
       = (Some (Throw (OtherException ''bad'')), c', tr')
     \<and> open_sessions (good_env\<lparr>process := (\<lambda>_. Inl (OtherException ''bad''))\<rparr>) tr' = 1"
proof -
  let ?E = "good_env\<lparr>process := (\<lambda>_. Inl (OtherException ''bad''))\<rparr>"
  let ?c = "demo_consumer\<lparr>co_process := set_task_id (co_taskid demo_consumer) (co_process demo_consumer)\<rparr>"
  obtain c' tr' where "run_try 3 ?E 5 ?c [TakeSession 4] = (Some (Some (OtherException ''bad'')), c', tr')"
    by (simp add: demo_consumer_def new_consumer_def run_try_def consumer_destination_def consumer_pass_def
        handle_message_def message_text_def unwind_def numeral_3_eq_3 Let_def)
  from escaping_exception_leaks_session [OF _ _ this] show ?thesis
    by (auto simp: demo_consumer_def new_consumer_def)
qed

end
