(* ===== verification/Stopper.thy ===== *)
theory Stopper
  imports AMQ_Prelude
begin

text \<open>
  \<^verbatim>\<open>CDSRTSingleton\<close> (DSRTSingleton.h) and the stop flag \<^verbatim>\<open>CDSAMQStopper\<close> (DSAMQStopper.h) built on
  it.  The flag is read by every consumer thread at the head of its loop and cleared by
  \<^verbatim>\<open>StopProcess\<close>.  The first part runs calls one after the other, the second part interleaves
  them, because \<^verbatim>\<open>instance()\<close> is not synchronised.
\<close>

section \<open>The singleton\<close>

text \<open>
  \<open>sg_instance\<close> is the static member \<^verbatim>\<open>m_pInstance\<close>; the objects created so far live in \<open>sg_heap\<close>
  at the addresses below \<open>sg_next\<close>, and a deleted object is no longer in the heap.
\<close>

record 'a singleton =
  sg_instance :: "addr option"
  sg_heap :: "addr \<rightharpoonup> 'a"
  sg_next :: addr

definition new_singleton :: "'a singleton" where
  "new_singleton = \<lparr>sg_instance = None, sg_heap = Map.empty, sg_next = 0\<rparr>"

text \<open>\<^verbatim>\<open>new T\<close> and the assignment to \<^verbatim>\<open>m_pInstance\<close>.\<close>

definition sg_create :: "'a \<Rightarrow> 'a singleton \<Rightarrow> 'a singleton" where
  "sg_create x sg = sg\<lparr>sg_instance := Some (sg_next sg), sg_heap := (sg_heap sg)(sg_next sg \<mapsto> x),
     sg_next := Suc (sg_next sg)\<rparr>"

definition sg_instance_get :: "'a \<Rightarrow> 'a singleton \<Rightarrow> addr \<times> 'a singleton" where
  "sg_instance_get x sg0 =
     (let sg = (if sg_instance sg0 = None then sg_create x sg0 else sg0) in (the (sg_instance sg), sg))"

definition sg_release :: "'a singleton \<Rightarrow> 'a singleton" where
  "sg_release sg =
     (case sg_instance sg of
        None \<Rightarrow> sg
      | Some a \<Rightarrow> sg\<lparr>sg_heap := (sg_heap sg)(a := None), sg_instance := None\<rparr>)"

section \<open>The stop flag\<close>

text \<open>A \<^verbatim>\<open>CDSAMQStopper\<close> is its member \<^verbatim>\<open>m_bRunning\<close>.\<close>

type_synonym stopper = bool

definition new_stopper :: stopper where
  "new_stopper = True"

definition stopper_stop :: "stopper \<Rightarrow> stopper" where
  "stopper_stop b = False"

definition stopper_isrun :: "stopper \<Rightarrow> bool" where
  "stopper_isrun b = b"

text \<open>\<^verbatim>\<open>CDSAMQStopper::instance()->stop()\<close> and \<^verbatim>\<open>CDSAMQStopper::instance()->isrun()\<close>.\<close>

definition request_stop :: "stopper singleton \<Rightarrow> unit outcome \<times> stopper singleton" where
  "request_stop sg0 =
     (case sg_instance_get new_stopper sg0 of
        (a, sg) \<Rightarrow>
          (case sg_heap sg a of
             None \<Rightarrow> (Undefined UseAfterFree, sg)
           | Some b \<Rightarrow> (Ret (), sg\<lparr>sg_heap := (sg_heap sg)(a \<mapsto> stopper_stop b)\<rparr>)))"

definition check_running :: "stopper singleton \<Rightarrow> bool outcome \<times> stopper singleton" where
  "check_running sg0 =
     (case sg_instance_get new_stopper sg0 of
        (a, sg) \<Rightarrow>
          (case sg_heap sg a of
             None \<Rightarrow> (Undefined UseAfterFree, sg)
           | Some b \<Rightarrow> (Ret (stopper_isrun b), sg)))"

section \<open>Calls one after the other\<close>

datatype stopper_op = Stop | IsRunning | Release

primrec stopper_op_step :: "stopper_op \<Rightarrow> stopper singleton \<Rightarrow> stopper singleton" where
  "stopper_op_step Stop sg = snd (request_stop sg)"
| "stopper_op_step IsRunning sg = snd (check_running sg)"
| "stopper_op_step Release sg = sg_release sg"

text \<open>What the flag should be after a history: stopped since the last release or not.\<close>

primrec history_running :: "bool \<Rightarrow> stopper_op list \<Rightarrow> bool" where
  "history_running b [] = b"
| "history_running b (p # ps) =
     history_running (case p of Stop \<Rightarrow> False | IsRunning \<Rightarrow> b | Release \<Rightarrow> True) ps"

definition sg_inv :: "'a singleton \<Rightarrow> bool" where
  "sg_inv sg \<longleftrightarrow> (\<forall>a. sg_instance sg = Some a \<longrightarrow> a < sg_next sg \<and> sg_heap sg a \<noteq> None)
     \<and> (\<forall>a \<ge> sg_next sg. sg_heap sg a = None)"

text \<open>The flag the next caller of \<^verbatim>\<open>isrun\<close> would see.\<close>

definition flag_of :: "stopper singleton \<Rightarrow> bool" where
  "flag_of sg = (case sg_instance sg of None \<Rightarrow> new_stopper | Some a \<Rightarrow> the (sg_heap sg a))"

lemmas stopper_defs = request_stop_def check_running_def sg_instance_get_def sg_create_def
  sg_release_def new_stopper_def stopper_stop_def stopper_isrun_def

lemma sg_inv_new [simp]: "sg_inv new_singleton" "flag_of new_singleton"
  by (simp_all add: sg_inv_def new_singleton_def flag_of_def new_stopper_def)

lemma request_stop_ok:
  assumes "sg_inv sg"
  shows "\<exists>sg'. request_stop sg = (Ret (), sg') \<and> sg_inv sg' \<and> \<not> flag_of sg'"
  using assms by (cases "sg_instance sg") (auto simp: stopper_defs sg_inv_def flag_of_def)

lemma check_running_ok:
  assumes "sg_inv sg"
  shows "\<exists>sg'. check_running sg = (Ret (flag_of sg), sg') \<and> sg_inv sg' \<and> flag_of sg' = flag_of sg"
  using assms by (cases "sg_instance sg") (auto simp: stopper_defs sg_inv_def flag_of_def)

lemma sg_release_ok: "sg_inv sg \<Longrightarrow> sg_inv (sg_release sg) \<and> flag_of (sg_release sg)"
  by (cases "sg_instance sg") (auto simp: stopper_defs sg_inv_def flag_of_def)

lemma stopper_op_ok:
  assumes "sg_inv sg"
  shows "sg_inv (stopper_op_step p sg)
     \<and> flag_of (stopper_op_step p sg) = (case p of Stop \<Rightarrow> False | IsRunning \<Rightarrow> flag_of sg | Release \<Rightarrow> True)"
  using request_stop_ok [OF assms] check_running_ok [OF assms] sg_release_ok [OF assms]
  by (cases p) auto

lemma stopper_ops_ok:
  assumes "sg_inv sg"
  shows "sg_inv (fold stopper_op_step ps sg)
     \<and> flag_of (fold stopper_op_step ps sg) = history_running (flag_of sg) ps"
  using assms
proof (induction ps arbitrary: sg)
  case (Cons p ps)
  with stopper_op_ok [OF Cons.prems, of p] show ?case by (simp split: stopper_op.splits)
qed simp

section \<open>Interleaved calls\<close>

text \<open>
  A call of \<^verbatim>\<open>instance()->stop()\<close> or \<^verbatim>\<open>instance()->isrun()\<close>: the test against NULL, the creation,
  the second read of the static member that is returned, and the access through the pointer.
\<close>

datatype st_call = CallStop | CallIsrun

datatype st_pc =
    ST_Check st_call
  | ST_New st_call
  | ST_Ret st_call
  | ST_Use st_call addr
  | ST_Done st_call bool

fun st_step :: "st_pc \<Rightarrow> stopper singleton \<Rightarrow> st_pc \<times> stopper singleton" where
  "st_step (ST_Check c) sg = (if sg_instance sg = None then ST_New c else ST_Ret c, sg)"
| "st_step (ST_New c) sg = (ST_Ret c, sg_create new_stopper sg)"
| "st_step (ST_Ret c) sg = (ST_Use c (the (sg_instance sg)), sg)"
| "st_step (ST_Use CallStop a) sg =
     (ST_Done CallStop False, sg\<lparr>sg_heap := (sg_heap sg)(a \<mapsto> stopper_stop (the (sg_heap sg a)))\<rparr>)"
| "st_step (ST_Use CallIsrun a) sg = (ST_Done CallIsrun (stopper_isrun (the (sg_heap sg a))), sg)"
| "st_step (ST_Done c b) sg = (ST_Done c b, sg)"

record st_state =
  ss_sg :: "stopper singleton"
  ss_pcs :: "nat \<Rightarrow> st_pc"

text \<open>A thread that has finished a call may start another one.\<close>

inductive stop_step :: "st_state \<Rightarrow> st_state \<Rightarrow> bool" where
  run: "st_step (ss_pcs s i) (ss_sg s) = (p, sg) \<Longrightarrow> \<forall>c b. ss_pcs s i \<noteq> ST_Done c b \<Longrightarrow>
     stop_step s \<lparr>ss_sg = sg, ss_pcs = (ss_pcs s)(i := p)\<rparr>"
| again: "ss_pcs s i = ST_Done c b \<Longrightarrow>
     stop_step s (s\<lparr>ss_pcs := (ss_pcs s)(i := ST_Check c')\<rparr>)"

inductive_cases stop_stepE: "stop_step s t"

definition st_start :: "stopper singleton \<Rightarrow> (nat \<Rightarrow> st_call) \<Rightarrow> st_state" where
  "st_start sg c = \<lparr>ss_sg = sg, ss_pcs = (\<lambda>i. ST_Check (c i))\<rparr>"

text \<open>
  With an instance that was made before the threads started, its address never changes, and the
  flag is down as soon as one \<^verbatim>\<open>stop\<close> has finished.
\<close>

fun st_pc_ok :: "addr \<Rightarrow> bool \<Rightarrow> st_pc \<Rightarrow> bool" where
  "st_pc_ok a b (ST_New c) = False"
| "st_pc_ok a b (ST_Use c a') = (a' = a)"
| "st_pc_ok a b (ST_Done c r) = (c = CallStop \<longrightarrow> \<not> b)"
| "st_pc_ok a b _ = True"

definition stop_inv :: "addr \<Rightarrow> st_state \<Rightarrow> bool" where
  "stop_inv a s \<longleftrightarrow> sg_instance (ss_sg s) = Some a
     \<and> (\<exists>b. sg_heap (ss_sg s) a = Some b \<and> (\<forall>i. st_pc_ok a b (ss_pcs s i)))"

lemma st_pc_ok_down: "st_pc_ok a b p \<Longrightarrow> st_pc_ok a False p"
  by (cases p) auto

lemma stop_inv_step:
  assumes inv: "stop_inv a s" and step: "stop_step s t"
  shows "stop_inv a t"
  using step
proof (cases rule: stop_step.cases)
  case (run i p sg)
  obtain b where b: "sg_heap (ss_sg s) a = Some b" "\<And>j. st_pc_ok a b (ss_pcs s j)"
    and inst: "sg_instance (ss_sg s) = Some a"
    using inv by (auto simp: stop_inv_def)
  have "sg_instance sg = Some a \<and> (\<exists>b'. sg_heap sg a = Some b' \<and> (b' = b \<or> \<not> b') \<and> st_pc_ok a b' p)"
  proof (cases "ss_pcs s i")
    case (ST_Use c a')
    with b(2) [of i] have "a' = a" by simp
    with ST_Use run(2) b(1) inst show ?thesis by (cases c) (auto simp: stopper_stop_def)
  qed (use b(1) b(2) [of i] inst run(2,3) in auto)
  then obtain b' where b': "sg_instance sg = Some a" "sg_heap sg a = Some b'" "b' = b \<or> \<not> b'" "st_pc_ok a b' p"
    by blast
  have "st_pc_ok a b' (((ss_pcs s)(i := p)) j)" for j
    using b' b(2) [of j] st_pc_ok_down [of a b "ss_pcs s j"] by auto
  with b'(1,2) run(1) show ?thesis by (simp add: stop_inv_def)
next
  case (again i c b c')
  with inv show ?thesis by (auto simp: stop_inv_def)
qed

interpretation stoppers: step_system
  "\<lambda>s. \<exists>sg c. sg_instance sg = Some a \<and> sg_heap sg a \<noteq> None \<and> s = st_start sg c" stop_step "stop_inv a" for a
proof unfold_locales
  show "stop_inv a s" if "\<exists>sg c. sg_instance sg = Some a \<and> sg_heap sg a \<noteq> None \<and> s = st_start sg c" for s
    using that by (auto simp: stop_inv_def st_start_def)
qed (rule stop_inv_step)

section \<open>Properties\<close>

text \<open>
  after any sequence of calls made one after the other, \<^verbatim>\<open>isrun\<close> answers without undefined
  behaviour, and it answers true exactly when no \<^verbatim>\<open>stop\<close> was called since the last \<^verbatim>\<open>release\<close> (or
  since the beginning).
\<close>

theorem stop_flag_history:
  "fst (check_running (fold stopper_op_step ps new_singleton)) = Ret (history_running True ps)"
  using stopper_ops_ok [of new_singleton ps] check_running_ok by fastforce

text \<open>
  C19: a stop is seen by everybody if the instance existed before the threads started: however the
  calls are interleaved, once some call of \<^verbatim>\<open>stop\<close> has finished, the flag is down and every later
  read of it answers false.
\<close>

theorem stop_seen_by_all:
  assumes "sg_instance sg = Some a" and "sg_heap sg a \<noteq> None"
    and "stop_step\<^sup>*\<^sup>* (st_start sg c) s" and "ss_pcs s i = ST_Done CallStop r"
  shows "flag_of (ss_sg s) = False
     \<and> (ss_pcs s j = ST_Use CallIsrun a' \<longrightarrow> fst (st_step (ss_pcs s j) (ss_sg s)) = ST_Done CallIsrun False)"
proof -
  have inv: "stop_inv a s" using stoppers.invar_reachable assms(1-3) by blast
  then obtain b where b: "sg_instance (ss_sg s) = Some a" "sg_heap (ss_sg s) a = Some b"
    "\<And>k. st_pc_ok a b (ss_pcs s k)"
    by (auto simp: stop_inv_def)
  have "\<not> b" using b(3) [of i] assms(4) by simp
  with b(1,2) b(3) [of j] show ?thesis by (auto simp: flag_of_def stopper_isrun_def)
qed

definition demo_stopper :: "stopper singleton" where
  "demo_stopper = sg_create new_stopper new_singleton"

lemma one_stop_run:
  assumes "sg_instance sg = Some a" and "c 0 = CallStop"
  shows "\<exists>s. stop_step\<^sup>*\<^sup>* (st_start sg c) s \<and> ss_pcs s 0 = ST_Done CallStop False"
proof -
  let ?pcs = "ss_pcs (st_start sg c)"
  let ?s1 = "\<lparr>ss_sg = sg, ss_pcs = ?pcs(0 := ST_Ret CallStop)\<rparr>"
  let ?s2 = "\<lparr>ss_sg = sg, ss_pcs = ?pcs(0 := ST_Use CallStop a)\<rparr>"
  let ?s3 = "\<lparr>ss_sg = sg\<lparr>sg_heap := (sg_heap sg)(a \<mapsto> False)\<rparr>, ss_pcs = ?pcs(0 := ST_Done CallStop False)\<rparr>"
  have "stop_step (st_start sg c) ?s1"
    using stop_step.run [of "st_start sg c" 0 "ST_Ret CallStop" sg] assms by (simp add: st_start_def)
  moreover have "stop_step ?s1 ?s2"
    using stop_step.run [of ?s1 0 "ST_Use CallStop a" sg] assms by simp
  moreover have "stop_step ?s2 ?s3"
    using stop_step.run [of ?s2 0] by (simp add: stopper_stop_def)
  ultimately have "stop_step\<^sup>*\<^sup>* (st_start sg c) ?s3"
    by (meson converse_rtranclp_into_rtranclp rtranclp.rtrancl_refl)
  then show ?thesis by (intro exI [of _ ?s3]) simp
qed

theorem stop_seen_by_all_witness:
  "\<exists>s. stop_step\<^sup>*\<^sup>* (st_start demo_stopper (\<lambda>i. if i = 0 then CallStop else CallIsrun)) s
     \<and> flag_of (ss_sg s) = False"
proof -
  have d: "sg_instance demo_stopper = Some 0" "sg_heap demo_stopper 0 \<noteq> None"
    by (simp_all add: demo_stopper_def new_singleton_def sg_create_def)
  obtain s where "stop_step\<^sup>*\<^sup>* (st_start demo_stopper (\<lambda>i. if i = 0 then CallStop else CallIsrun)) s"
    and "ss_pcs s 0 = ST_Done CallStop False"
    using one_stop_run [OF d(1), of "\<lambda>i. if i = 0 then CallStop else CallIsrun"] by auto
  with stop_seen_by_all [OF d this] show ?thesis by blast
qed

text \<open>
  C20: a stop can be lost if the instance does not exist yet.  When the first consumer asks
  \<^verbatim>\<open>isrun\<close> while \<^verbatim>\<open>StopProcess\<close> calls \<^verbatim>\<open>stop\<close>, both can find \<^verbatim>\<open>m_pInstance\<close> NULL; the second
  object then replaces the one that was told to stop, the finished \<^verbatim>\<open>stop\<close> has no effect, and
  all later reads see a running flag.
\<close>

theorem stop_can_be_lost:
  "\<exists>s. stop_step\<^sup>*\<^sup>* (st_start new_singleton (\<lambda>i. if i = 0 then CallStop else CallIsrun)) s
     \<and> ss_pcs s 0 = ST_Done CallStop False \<and> flag_of (ss_sg s)"
proof -
  let ?c = "\<lambda>i::nat. if i = 0 then CallStop else CallIsrun"
  let ?p0 = "ss_pcs (st_start new_singleton ?c)"
  let ?g1 = "sg_create new_stopper new_singleton :: stopper singleton"
  let ?g2 = "?g1\<lparr>sg_heap := (sg_heap ?g1)(0 \<mapsto> False)\<rparr>"
  let ?g3 = "sg_create new_stopper ?g2 :: stopper singleton"
  let ?s1 = "\<lparr>ss_sg = new_singleton, ss_pcs = ?p0(1 := ST_New CallIsrun)\<rparr>"
  let ?s2 = "\<lparr>ss_sg = new_singleton, ss_pcs = ?p0(1 := ST_New CallIsrun, 0 := ST_New CallStop)\<rparr>"
  let ?s3 = "\<lparr>ss_sg = ?g1, ss_pcs = ?p0(1 := ST_New CallIsrun, 0 := ST_Ret CallStop)\<rparr>"
  let ?s4 = "\<lparr>ss_sg = ?g1, ss_pcs = ?p0(1 := ST_New CallIsrun, 0 := ST_Use CallStop 0)\<rparr>"
  let ?s5 = "\<lparr>ss_sg = ?g2, ss_pcs = ?p0(1 := ST_New CallIsrun, 0 := ST_Done CallStop False)\<rparr>"
  let ?s6 = "\<lparr>ss_sg = ?g3, ss_pcs = ?p0(0 := ST_Done CallStop False, 1 := ST_Ret CallIsrun)\<rparr>"
  have "stop_step (st_start new_singleton ?c) ?s1"
    using stop_step.run [of "st_start new_singleton ?c" 1 "ST_New CallIsrun" new_singleton]
    by (simp add: st_start_def new_singleton_def)
  moreover have "stop_step ?s1 ?s2"
    using stop_step.run [of ?s1 0 "ST_New CallStop" new_singleton]
    by (simp add: st_start_def new_singleton_def)
  moreover have "stop_step ?s2 ?s3" using stop_step.run [of ?s2 0 _ ?g1] by simp
  moreover have "stop_step ?s3 ?s4"
    using stop_step.run [of ?s3 0 _ ?g1] by (simp add: sg_create_def new_singleton_def)
  moreover have "stop_step ?s4 ?s5" using stop_step.run [of ?s4 0] by (simp add: stopper_stop_def)
  moreover have "stop_step ?s5 ?s6"
    using stop_step.run [of ?s5 1 _ ?g3] by (simp add: fun_upd_twist)
  ultimately have "stop_step\<^sup>*\<^sup>* (st_start new_singleton ?c) ?s6"
    by (meson converse_rtranclp_into_rtranclp rtranclp.rtrancl_refl)
  moreover have "flag_of ?g3" by (simp add: flag_of_def sg_create_def new_stopper_def)
  ultimately show ?thesis by (intro exI [of _ ?s6]) simp
qed

end
