(* ===== verification/Consumer_Pool.thy ===== *)
theory Consumer_Pool
  imports Consumer Stopper
begin

text \<open>
  \<^verbatim>\<open>CDSAMQConsumerPool\<close> (DSAMQConsumerPool.h): starts a fixed number of consumers in a
  \<^verbatim>\<open>ThreadPoolExecutor\<close>, replaces a consumer that ends by a new one, and stops them all.  Its state
  is static, so there is one of it per task class.
\<close>

section \<open>State\<close>

text \<open>
  \<open>cp_tasks\<close> is \<^verbatim>\<open>m_sTask\<close>, a set of pointers; \<open>cp_objects\<close> are the consumers the pool has created, by
  address, and \<open>cp_fresh\<close> is the address of the next one.  \<open>cp_deleted\<close> are the resource managers
  that were deleted and not allocated again: \<^verbatim>\<open>StopProcess\<close> leaves \<^verbatim>\<open>m_resourcemgr\<close> pointing at one.
\<close>

record cpool =
  cp_tasks :: "addr set"
  cp_threadPool :: "addr option"
  cp_brokerURI :: string
  cp_destURI :: string
  cp_usetopic :: bool
  cp_clientack :: bool
  cp_timeout :: int
  cp_resourcemgr :: "addr option"
  cp_sessionpool :: "addr option"
  cp_connection :: "addr option"
  cp_next_taskid :: int
  cp_objects :: "addr \<rightharpoonup> consumer"
  cp_fresh :: addr
  cp_deleted :: "addr set"

text \<open>The initial values of the static members.\<close>

definition cpool_static :: cpool where
  "cpool_static = \<lparr>cp_tasks = {}, cp_threadPool = None, cp_brokerURI = '''', cp_destURI = '''',
     cp_usetopic = False, cp_clientack = True, cp_timeout = 3000, cp_resourcemgr = None,
     cp_sessionpool = None, cp_connection = None, cp_next_taskid = 0,
     cp_objects = Map.empty, cp_fresh = 0, cp_deleted = {}\<rparr>"

section \<open>Starting\<close>

text \<open>How the parts of the \<^verbatim>\<open>try\<close> block of \<^verbatim>\<open>StartProcess\<close> end: go on, return false with a text, raise.\<close>

datatype start_flow = Proceed | Refuse string | Fail exn

text \<open>\<^verbatim>\<open>new CLS(...)\<close> and its insertion into \<^verbatim>\<open>m_sTask\<close>.\<close>

definition add_task :: "int \<Rightarrow> cpool \<Rightarrow> addr \<times> cpool" where
  "add_task n cp =
     (let a = cp_fresh cp;
          task = new_consumer (cp_sessionpool cp) (cp_destURI cp) n (cp_usetopic cp) (cp_clientack cp) (cp_timeout cp)
      in (a, cp\<lparr>cp_tasks := insert a (cp_tasks cp), cp_objects := (cp_objects cp)(a \<mapsto> task),
               cp_fresh := Suc a\<rparr>))"

text \<open>The loop that starts the tasks \<open>i\<close>, \<open>i + 1\<close>, \<dots>, \<open>nsize - 1\<close>.\<close>

function start_tasks :: "env \<Rightarrow> addr \<Rightarrow> int \<Rightarrow> int \<Rightarrow> cpool \<Rightarrow> trace \<Rightarrow> exn option \<times> cpool \<times> trace" where
  "start_tasks E pool i nsize cp0 tr0 =
     (if i < nsize then
        (case add_task i cp0 of
           (a, cp) \<Rightarrow>
             (let tr = Execute pool a # tr0 in
              case execute E tr of
                Some x \<Rightarrow> (Some x, cp, tr)
              | None \<Rightarrow> start_tasks E pool (i + 1) nsize cp tr))
      else (None, cp0, tr0))"
  by auto
termination by (relation "measure (\<lambda>(E, p, i, n, _). nat (n - i))") auto

declare start_tasks.simps [simp del]

text \<open>The redelivery settings of the connection.\<close>

definition set_redelivery :: "env \<Rightarrow> addr \<Rightarrow> trace \<Rightarrow> start_flow \<times> trace" where
  "set_redelivery E conn tr0 =
     (if is_amq_connection E conn then
        (let tr = GetRedeliveryPolicy conn # tr0 in
         case get_redelivery_policy E tr of
           None \<Rightarrow> (Refuse ''fail to StartProcess, get redelivery policy object null'', tr)
         | Some rp \<Rightarrow>
             (Proceed, SetInitialRedeliveryDelay rp 3000 # SetRedeliveryDelay rp 3000 #
                SetMaximumRedeliveries rp (- 1) # tr))
      else (Proceed, tr0))"

definition start_connect :: "env \<Rightarrow> cpool \<Rightarrow> trace \<Rightarrow> start_flow \<times> cpool \<times> trace" where
  "start_connect E cp tr0 =
     (let tr = CreateConnection (cp_brokerURI cp) # tr0 in
      case create_connection E tr of
        Inl x \<Rightarrow> (Fail x, cp, tr)
      | Inr conn \<Rightarrow>
          (let cp = cp\<lparr>cp_connection := Some conn\<rparr> in
           case set_redelivery E conn tr of
             (Proceed, tr) \<Rightarrow>
               (let tr = StartConnection conn # tr in
                case start_connection E tr of
                  Some x \<Rightarrow> (Fail x, cp, tr)
                | None \<Rightarrow> (Proceed, cp, tr))
           | (r, tr) \<Rightarrow> (r, cp, tr)))"

text \<open>The resource manager, the session pool, the executor and the tasks.\<close>

definition start_pool :: "env \<Rightarrow> int \<Rightarrow> cpool \<Rightarrow> trace \<Rightarrow> start_flow \<times> cpool \<times> trace" where
  "start_pool E nsize cp0 tr0 =
     (let tr = NewResourceLifecycleManager # tr0 in
      case new_resource_manager E tr of
        None \<Rightarrow> (Refuse ''fail to StartProcess, create resourcemanager'', cp0\<lparr>cp_resourcemgr := None\<rparr>, tr)
      | Some r \<Rightarrow>
          (let cp = cp0\<lparr>cp_resourcemgr := Some r, cp_deleted := cp_deleted cp0 - {r}\<rparr>;
               tr = AddConnection r (cp_connection cp) # tr in
           case add_connection E tr of
             Some x \<Rightarrow> (Fail x, cp, tr)
           | None \<Rightarrow>
               (let mode = (if cp_clientack cp then CLIENT_ACKNOWLEDGE else AUTO_ACKNOWLEDGE);
                    tr = NewSessionPool (cp_connection cp) mode r # tr in
                case new_session_pool E tr of
                  Inl x \<Rightarrow> (Fail x, cp, tr)
                | Inr sp \<Rightarrow>
                    (let cp = cp\<lparr>cp_sessionpool := Some sp\<rparr>;
                         tr = NewThreadPoolExecutor nsize nsize 5 # tr in
                     case new_executor E tr of
                       Inl x \<Rightarrow> (Fail x, cp, tr)
                     | Inr p \<Rightarrow>
                         (case start_tasks E p 0 nsize (cp\<lparr>cp_threadPool := Some p\<rparr>) tr of
                            (Some x, cp, tr) \<Rightarrow> (Fail x, cp, tr)
                          | (None, cp, tr) \<Rightarrow> (Proceed, cp\<lparr>cp_next_taskid := nsize\<rparr>, tr))))))"

text \<open>
  The four \<^verbatim>\<open>catch\<close> clauses of \<^verbatim>\<open>StartProcess\<close>; the second component is the value of the reference
  parameter \<^verbatim>\<open>rstrError\<close>.
\<close>

fun start_result :: "start_flow \<Rightarrow> string \<Rightarrow> bool outcome \<times> string" where
  "start_result Proceed err = (Ret True, err)"
| "start_result (Refuse e) err = (Ret False, e)"
| "start_result (Fail (IllegalArgumentException e)) err = (Ret False, ''Illegalargument exception, '' @ e)"
| "start_result (Fail (NullPointerException e)) err = (Ret False, ''NullPointerException exception, '' @ e)"
| "start_result (Fail (RejectedExecutionException e)) err = (Ret False, ''RejectedExecutionException exception, '' @ e)"
| "start_result (Fail (CMSException e)) err = (Ret False, ''exception, '' @ e)"
| "start_result (Fail x) err = (Throw x, err)"

definition StartProcess ::
  "env \<Rightarrow> string \<Rightarrow> string \<Rightarrow> string \<Rightarrow> bool \<Rightarrow> bool \<Rightarrow> int \<Rightarrow> int \<Rightarrow> cpool \<Rightarrow> trace
     \<Rightarrow> (bool outcome \<times> string) \<times> cpool \<times> trace" where
  "StartProcess E brokerURI destURI rstrError useTopic clientAck nTimeout nPoolSize cp0 tr0 =
     (if cp_tasks cp0 \<noteq> {} then ((Ret True, rstrError), cp0, tr0)
      else if brokerURI = '''' \<or> destURI = '''' then
        ((Ret False, ''fail to StartProcess, broker URI or destination URI empty''), cp0, tr0)
      else
        (let cp = cp0\<lparr>cp_brokerURI := brokerURI, cp_destURI := destURI, cp_usetopic := useTopic,
                      cp_clientack := clientAck, cp_timeout := nTimeout\<rparr>;
             nsize = (if nPoolSize > 50 then 50 else nPoolSize) in
         case start_connect E cp tr0 of
           (Proceed, cp, tr) \<Rightarrow>
             (case start_pool E nsize cp tr of (r, cp, tr) \<Rightarrow> (start_result r rstrError, cp, tr))
         | (r, cp, tr) \<Rightarrow> (start_result r rstrError, cp, tr)))"

section \<open>Replacing a consumer that has ended\<close>

text \<open>
  \<^verbatim>\<open>afterExecute\<close>, called by the executor with the task that has just run.  The \<^verbatim>\<open>dynamic_cast\<close> yields
  NULL for a task that is not one of the pool's consumers.
\<close>

definition afterExecute :: "env \<Rightarrow> addr \<Rightarrow> cpool \<Rightarrow> trace \<Rightarrow> unit outcome \<times> cpool \<times> trace" where
  "afterExecute E task cp0 tr0 =
     (case cp_threadPool cp0 of
        None \<Rightarrow> (Ret (), cp0, tr0)
      | Some pool \<Rightarrow>
          (let tr = IsShutdown pool # tr0 in
           if is_shutdown E tr then (Ret (), cp0, tr)
           else if cp_objects cp0 task = None \<or> task \<notin> cp_tasks cp0 then (Ret (), cp0, tr)
           else
             (case add_task (cp_next_taskid cp0)
                     (cp0\<lparr>cp_tasks := cp_tasks cp0 - {task}, cp_next_taskid := cp_next_taskid cp0 + 1\<rparr>) of
                (a, cp) \<Rightarrow>
                  (let tr = Execute pool a # tr in
                   case execute E tr of
                     None \<Rightarrow> (Ret (), cp, tr)
                   | Some (NullPointerException e) \<Rightarrow> (Ret (), cp, tr)
                   | Some (RejectedExecutionException e) \<Rightarrow> (Ret (), cp, tr)
                   | Some (CMSException e) \<Rightarrow> (Ret (), cp, tr)
                   | Some x \<Rightarrow> (Throw x, cp, tr)))))"

section \<open>Stopping\<close>

text \<open>The \<^verbatim>\<open>try\<close> block around the two waits.\<close>

definition await_workers :: "env \<Rightarrow> addr \<Rightarrow> trace \<Rightarrow> exn option \<times> trace" where
  "await_workers E pool tr0 =
     (let tr = AwaitTermination pool 60 # tr0 in
      case await_termination E tr of
        Inl x \<Rightarrow> (Some x, tr)
      | Inr True \<Rightarrow> (None, Printf ''in stopprocess, complete termination running tasks'' [] # tr)
      | Inr False \<Rightarrow>
          (let tr = AwaitTermination pool 60 # ShutdownNow pool #
                Printf ''in stopprocess, not yet termination running tasks... re wait 60 seconds'' [] # tr in
           case await_termination E tr of
             Inl x \<Rightarrow> (Some x, tr)
           | Inr True \<Rightarrow> (None, Printf ''in stopprocess, complete termination running tasks'' [] # tr)
           | Inr False \<Rightarrow> (None, Printf ''in stopprocess, not yet termination running tasks...'' [] # tr)))"

definition stop_executor ::
  "env \<Rightarrow> cpool \<Rightarrow> stopper singleton \<Rightarrow> trace \<Rightarrow> unit outcome \<times> cpool \<times> stopper singleton \<times> trace" where
  "stop_executor E cp sg0 tr0 =
     (case cp_threadPool cp of
        None \<Rightarrow> (Ret (), cp, sg0, tr0)
      | Some pool \<Rightarrow>
          (case request_stop sg0 of
             (Ret _, sg) \<Rightarrow>
               (case await_workers E pool (Shutdown pool # tr0) of
                  (None, tr) \<Rightarrow> (Ret (), cp\<lparr>cp_threadPool := None\<rparr>, sg, DeleteThreadPoolExecutor pool # tr)
                | (Some (InterruptedException e), tr) \<Rightarrow>
                    (Ret (), cp\<lparr>cp_threadPool := None\<rparr>, sg,
                     DeleteThreadPoolExecutor pool # Printf ''in stopprocess, exception occured, %s'' [e] # tr)
                | (Some x, tr) \<Rightarrow> (Throw x, cp, sg, tr))
           | (Throw x, sg) \<Rightarrow> (Throw x, cp, sg, Shutdown pool # tr0)
           | (Undefined f, sg) \<Rightarrow> (Undefined f, cp, sg, Shutdown pool # tr0)))"

text \<open>The resource manager is deleted, but the pointer keeps its value.\<close>

definition stop_resources :: "cpool \<Rightarrow> trace \<Rightarrow> unit outcome \<times> cpool \<times> trace" where
  "stop_resources cp0 tr =
     (let cp = cp0\<lparr>cp_tasks := {}\<rparr> in
      case cp_resourcemgr cp of
        None \<Rightarrow> (Ret (), cp\<lparr>cp_sessionpool := None\<rparr>, tr)
      | Some r \<Rightarrow>
          if r \<in> cp_deleted cp then (Undefined DoubleDelete, cp, tr)
          else (Ret (), cp\<lparr>cp_deleted := insert r (cp_deleted cp), cp_sessionpool := None\<rparr>,
                DeleteResourceLifecycleManager r # tr))"

definition StopProcess ::
  "env \<Rightarrow> cpool \<Rightarrow> stopper singleton \<Rightarrow> trace \<Rightarrow> unit outcome \<times> cpool \<times> stopper singleton \<times> trace" where
  "StopProcess E cp0 sg0 tr0 =
     (case request_stop sg0 of
        (Ret _, sg) \<Rightarrow>
          (case stop_executor E cp0 sg tr0 of
             (Ret _, cp, sg, tr) \<Rightarrow> (case stop_resources cp tr of (r, cp, tr) \<Rightarrow> (r, cp, sg, tr))
           | (r, cp, sg, tr) \<Rightarrow> (r, cp, sg, tr))
      | (Throw x, sg) \<Rightarrow> (Throw x, cp0, sg, tr0)
      | (Undefined f, sg) \<Rightarrow> (Undefined f, cp0, sg, tr0))"

section \<open>Well-formed pools\<close>

text \<open>The id of a task of the pool.\<close>

definition id_of :: "cpool \<Rightarrow> addr \<Rightarrow> int" where
  "id_of cp a = (case cp_objects cp a of Some c \<Rightarrow> co_taskid c | None \<Rightarrow> - 1)"

text \<open>Every task is an object the pool has created, with an id of its own below the next id.\<close>

definition cpool_inv :: "cpool \<Rightarrow> bool" where
  "cpool_inv cp \<longleftrightarrow> cp_tasks cp \<subseteq> {..<cp_fresh cp}
     \<and> (\<forall>a \<in> cp_tasks cp. cp_objects cp a \<noteq> None \<and> id_of cp a < cp_next_taskid cp)
     \<and> inj_on (id_of cp) (cp_tasks cp)"

lemma cpool_inv_finite: "cpool_inv cp \<Longrightarrow> finite (cp_tasks cp)"
  by (auto simp: cpool_inv_def intro: finite_subset)

text \<open>The settings every new consumer gets.\<close>

definition settings :: "cpool \<Rightarrow> addr option \<times> string \<times> bool \<times> bool \<times> int" where
  "settings cp = (cp_sessionpool cp, cp_destURI cp, cp_usetopic cp, cp_clientack cp, cp_timeout cp)"

definition task_of :: "cpool \<Rightarrow> int \<Rightarrow> consumer" where
  "task_of cp n = new_consumer (cp_sessionpool cp) (cp_destURI cp) n (cp_usetopic cp) (cp_clientack cp) (cp_timeout cp)"

lemma co_taskid_task_of [simp]: "co_taskid (task_of cp n) = n"
  by (simp add: task_of_def new_consumer_def)

lemma task_of_settings: "settings cp = settings cp' \<Longrightarrow> task_of cp = task_of cp'"
  by (simp add: fun_eq_iff settings_def task_of_def)

lemma add_task_eq:
  "add_task n cp = (cp_fresh cp, cp\<lparr>cp_tasks := insert (cp_fresh cp) (cp_tasks cp),
     cp_objects := (cp_objects cp)(cp_fresh cp \<mapsto> task_of cp n), cp_fresh := Suc (cp_fresh cp)\<rparr>)"
  by (simp add: add_task_def task_of_def Let_def)

text \<open>The state after \<open>k\<close> tasks with the ids \<open>i\<close>, \<open>i + 1\<close>, \<dots> were added.\<close>

definition add_tasks :: "int \<Rightarrow> nat \<Rightarrow> cpool \<Rightarrow> cpool" where
  "add_tasks i k cp = cp\<lparr>cp_tasks := cp_tasks cp \<union> {cp_fresh cp..<cp_fresh cp + k},
     cp_objects := (\<lambda>a. if cp_fresh cp \<le> a \<and> a < cp_fresh cp + k
                        then Some (task_of cp (i + int (a - cp_fresh cp))) else cp_objects cp a),
     cp_fresh := cp_fresh cp + k\<rparr>"

lemma add_tasks_0 [simp]: "add_tasks i 0 cp = cp"
  by (intro cpool.equality) (auto simp: add_tasks_def fun_eq_iff)

lemma add_tasks_Suc: "add_tasks (i + 1) k (snd (add_task i cp)) = add_tasks i (Suc k) cp"
proof -
  let ?f = "cp_fresh cp" and ?cp1 = "snd (add_task i cp)"
  have same: "task_of ?cp1 = task_of cp"
    by (rule task_of_settings) (simp add: add_task_eq settings_def)
  have obj: "(\<lambda>a. if Suc ?f \<le> a \<and> a < Suc ?f + k then Some (task_of cp (i + 1 + int (a - Suc ?f)))
        else ((cp_objects cp)(?f \<mapsto> task_of cp i)) a)
     = (\<lambda>a. if ?f \<le> a \<and> a < ?f + Suc k then Some (task_of cp (i + int (a - ?f))) else cp_objects cp a)"
    by (auto simp: fun_eq_iff of_nat_diff)
  show ?thesis
  proof (intro cpool.equality)
    show "cp_objects (add_tasks (i + 1) k ?cp1) = cp_objects (add_tasks i (Suc k) cp)"
      using obj same by (simp add: add_tasks_def add_task_eq cong: if_cong)
    show "cp_tasks (add_tasks (i + 1) k ?cp1) = cp_tasks (add_tasks i (Suc k) cp)"
      by (auto simp: add_tasks_def add_task_eq)
  qed (simp_all add: add_tasks_def add_task_eq)
qed

lemma start_tasks_adds:
  "\<exists>k. fst (snd (start_tasks E p i nsize cp tr)) = add_tasks i k cp \<and> k \<le> nat (nsize - i)
     \<and> (fst (start_tasks E p i nsize cp tr) = None \<longrightarrow> k = nat (nsize - i))
     \<and> (fst (start_tasks E p i nsize cp tr) \<noteq> None \<longrightarrow> 0 < k)"
proof (induction E p i nsize cp tr rule: start_tasks.induct)
  case (1 E p i nsize cp tr)
  show ?case
  proof (cases "i < nsize")
    case False
    then show ?thesis by (auto simp: start_tasks.simps [of E p i] intro: exI [of _ 0])
  next
    case True
    obtain a cp1 where a: "add_task i cp = (a, cp1)" by (cases "add_task i cp")
    then have cp1: "add_tasks (i + 1) k cp1 = add_tasks i (Suc k) cp" for k
      using add_tasks_Suc [of i k cp] by simp
    let ?tr = "Execute p a # tr"
    show ?thesis
    proof (cases "execute E ?tr")
      case None
      note IH = 1 [OF True a [symmetric] refl]
      obtain k where "fst (snd (start_tasks E p (i + 1) nsize cp1 ?tr)) = add_tasks (i + 1) k cp1"
        "k \<le> nat (nsize - (i + 1))"
        "fst (start_tasks E p (i + 1) nsize cp1 ?tr) = None \<longrightarrow> k = nat (nsize - (i + 1))"
        using IH [OF None] by (elim exE conjE)
      moreover have "start_tasks E p i nsize cp tr = start_tasks E p (i + 1) nsize cp1 ?tr"
        using True a None by (simp add: start_tasks.simps [of E p i])
      ultimately show ?thesis
        using True cp1 by (intro exI [of _ "Suc k"]) (simp, linarith)
    next
      case (Some x)
      with True a have "start_tasks E p i nsize cp tr = (Some x, cp1, ?tr)"
        by (simp add: start_tasks.simps [of E p i])
      with True cp1 [of 0] show ?thesis by (intro exI [of _ 1]) simp
    qed
  qed
qed

lemma add_tasks_fields [simp]:
  "cp_threadPool (add_tasks i k cp) = cp_threadPool cp"
  "cp_sessionpool (add_tasks i k cp) = cp_sessionpool cp"
  "cp_fresh (add_tasks i k cp) = cp_fresh cp + k"
  "cp_tasks (add_tasks i k cp) = cp_tasks cp \<union> {cp_fresh cp..<cp_fresh cp + k}"
  "settings (add_tasks i k cp) = settings cp"
  by (simp_all add: add_tasks_def settings_def)

lemma id_of_add_tasks:
  "j < k \<Longrightarrow> id_of (add_tasks i k cp) (cp_fresh cp + j) = i + int j"
  by (simp add: id_of_def add_tasks_def)

lemma add_tasks_inv:
  assumes "cp_tasks cp = {}"
  shows "cpool_inv ((add_tasks 0 k cp)\<lparr>cp_next_taskid := int k\<rparr>)"
proof -
  let ?cp = "(add_tasks 0 k cp)\<lparr>cp_next_taskid := int k\<rparr>" and ?f = "cp_fresh cp"
  have ids: "id_of ?cp (?f + j) = int j" if "j < k" for j
    using id_of_add_tasks [OF that, of 0 cp] by (simp add: id_of_def)
  have mem: "\<exists>j < k. a = ?f + j" if "a \<in> cp_tasks ?cp" for a
    using that assms by (auto intro: exI [of _ "a - ?f"])
  have "inj_on (id_of ?cp) (cp_tasks ?cp)"
  proof (rule inj_onI)
    fix a b assume ab: "a \<in> cp_tasks ?cp" "b \<in> cp_tasks ?cp" "id_of ?cp a = id_of ?cp b"
    obtain j l where "j < k" "a = ?f + j" "l < k" "b = ?f + l" using mem ab by metis
    with ids [of j] ids [of l] ab(3) show "a = b" by simp
  qed
  moreover have "cp_objects ?cp a \<noteq> None \<and> id_of ?cp a < int k" if "a \<in> cp_tasks ?cp" for a
    using mem [OF that] ids by (auto simp: add_tasks_def)
  ultimately show ?thesis using assms by (auto simp: cpool_inv_def)
qed

text \<open>What connecting leaves unchanged.\<close>

definition before_tasks :: "cpool \<Rightarrow> cpool \<Rightarrow> bool" where
  "before_tasks cp cp' \<longleftrightarrow> cp_tasks cp' = cp_tasks cp \<and> cp_objects cp' = cp_objects cp \<and> cp_fresh cp' = cp_fresh cp
     \<and> cp_next_taskid cp' = cp_next_taskid cp \<and> cp_destURI cp' = cp_destURI cp \<and> cp_usetopic cp' = cp_usetopic cp
     \<and> cp_clientack cp' = cp_clientack cp \<and> cp_timeout cp' = cp_timeout cp"

lemma before_tasks_refl [simp]: "before_tasks cp cp"
  by (simp add: before_tasks_def)

lemma before_tasks_trans: "before_tasks a b \<Longrightarrow> before_tasks b c \<Longrightarrow> before_tasks a c"
  by (simp add: before_tasks_def)

lemma start_connect_frame:
  assumes "start_connect E cp tr = (r, cp', tr')"
  shows "before_tasks cp cp'"
  using assms
  by (auto simp: start_connect_def before_tasks_def Let_def split: sum.splits prod.splits start_flow.splits option.splits)

text \<open>
  The second half of \<^verbatim>\<open>StartProcess\<close>: either it fails before a task exists, or it comes to the loop
  with a session pool and an executor.
\<close>

lemma start_pool_loop:
  assumes "start_pool E nsize cp tr = (r, cp', tr')"
  shows "before_tasks cp cp' \<and> r \<noteq> Proceed
     \<or> (\<exists>cp1 sp p t. before_tasks cp cp1 \<and> cp_sessionpool cp1 = Some sp \<and> cp_threadPool cp1 = Some p
        \<and> (r, cp', tr') = (case start_tasks E p 0 nsize cp1 t of
            (Some x, cp, tr) \<Rightarrow> (Fail x, cp, tr)
          | (None, cp, tr) \<Rightarrow> (Proceed, cp\<lparr>cp_next_taskid := nsize\<rparr>, tr)))"
    (is "?early \<or> ?late")
proof (cases "new_resource_manager E (NewResourceLifecycleManager # tr)")
  case None
  with assms show ?thesis by (auto simp: start_pool_def before_tasks_def)
next
  case rm: (Some rm)
  let ?tr1 = "AddConnection rm (cp_connection cp) # NewResourceLifecycleManager # tr"
  let ?tr2 = "NewSessionPool (cp_connection cp)
      (if cp_clientack cp then CLIENT_ACKNOWLEDGE else AUTO_ACKNOWLEDGE) rm # ?tr1"
  let ?tr3 = "NewThreadPoolExecutor nsize nsize 5 # ?tr2"
  consider (add) x where "add_connection E ?tr1 = Some x"
    | (sp) x where "add_connection E ?tr1 = None" "new_session_pool E ?tr2 = Inl x"
    | (ex) sp x where "add_connection E ?tr1 = None" "new_session_pool E ?tr2 = Inr sp" "new_executor E ?tr3 = Inl x"
    | (go) sp p where "add_connection E ?tr1 = None" "new_session_pool E ?tr2 = Inr sp" "new_executor E ?tr3 = Inr p"
    by (metis old.sum.exhaust not_None_eq)
  then show ?thesis
  proof cases
    case (go sp p)
    let ?cp2 = "cp\<lparr>cp_resourcemgr := Some rm, cp_deleted := cp_deleted cp - {rm},
        cp_sessionpool := Some sp, cp_threadPool := Some p\<rparr>"
    have "(r, cp', tr') = (case start_tasks E p 0 nsize ?cp2 ?tr3 of
        (Some x, cp, tr) \<Rightarrow> (Fail x, cp, tr)
      | (None, cp, tr) \<Rightarrow> (Proceed, cp\<lparr>cp_next_taskid := nsize\<rparr>, tr))"
      using assms rm go by (simp add: start_pool_def Let_def)
    moreover have "before_tasks cp ?cp2" by (simp add: before_tasks_def)
    ultimately have ?late by (intro exI [of _ ?cp2] exI [of _ sp] exI [of _ p] exI [of _ ?tr3]) simp
    then show ?thesis by blast
  qed (use assms rm in \<open>auto simp: start_pool_def before_tasks_def Let_def\<close>)
qed

lemma start_pool_cases:
  assumes "start_pool E nsize cp tr = (r, cp', tr')"
  obtains (early) "before_tasks cp cp'" and "r \<noteq> Proceed"
  | (full) cp1 sp p where "before_tasks cp cp1" and "cp_sessionpool cp1 = Some sp" and "cp_threadPool cp1 = Some p"
      and "cp' = (add_tasks 0 (nat nsize) cp1)\<lparr>cp_next_taskid := nsize\<rparr>" and "r = Proceed"
  | (partial) cp1 sp p k x where "before_tasks cp cp1" and "cp_sessionpool cp1 = Some sp" and "cp_threadPool cp1 = Some p"
      and "cp' = add_tasks 0 k cp1" and "0 < k" and "k \<le> nat nsize" and "r = Fail x"
  using start_pool_loop [OF assms]
proof
  assume "before_tasks cp cp' \<and> r \<noteq> Proceed"
  then show ?thesis using early by blast
next
  assume "\<exists>cp1 sp p t. before_tasks cp cp1 \<and> cp_sessionpool cp1 = Some sp \<and> cp_threadPool cp1 = Some p
        \<and> (r, cp', tr') = (case start_tasks E p 0 nsize cp1 t of
            (Some x, cp, tr) \<Rightarrow> (Fail x, cp, tr)
          | (None, cp, tr) \<Rightarrow> (Proceed, cp\<lparr>cp_next_taskid := nsize\<rparr>, tr))"
  then obtain cp1 sp p t where cp1: "before_tasks cp cp1" "cp_sessionpool cp1 = Some sp" "cp_threadPool cp1 = Some p"
    and R: "(r, cp', tr') = (case start_tasks E p 0 nsize cp1 t of
        (Some x, cp, tr) \<Rightarrow> (Fail x, cp, tr)
      | (None, cp, tr) \<Rightarrow> (Proceed, cp\<lparr>cp_next_taskid := nsize\<rparr>, tr))" by blast
  obtain x cp2 t2 where S: "start_tasks E p 0 nsize cp1 t = (x, cp2, t2)" by (cases "start_tasks E p 0 nsize cp1 t")
  obtain k where k: "cp2 = add_tasks 0 k cp1" "k \<le> nat nsize" "x = None \<longrightarrow> k = nat nsize" "x \<noteq> None \<longrightarrow> 0 < k"
    using start_tasks_adds [of E p 0 nsize cp1 t] S by auto
  show ?thesis
  proof (cases x)
    case None
    with full cp1 k R S show ?thesis by simp
  next
    case (Some y)
    with partial cp1 k R S show ?thesis by simp
  qed
qed

text \<open>Replacing a task.\<close>

lemma afterExecute_cases:
  obtains (skipped) "fst (snd (afterExecute E task cp tr)) = cp" and "fst (afterExecute E task cp tr) = Ret ()"
  | (replaced) pool where "cp_threadPool cp = Some pool" and "\<not> is_shutdown E (IsShutdown pool # tr)"
      and "task \<in> cp_tasks cp" and "cp_objects cp task \<noteq> None"
      and "fst (snd (afterExecute E task cp tr)) =
         cp\<lparr>cp_tasks := insert (cp_fresh cp) (cp_tasks cp - {task}), cp_next_taskid := cp_next_taskid cp + 1,
            cp_objects := (cp_objects cp)(cp_fresh cp \<mapsto> task_of cp (cp_next_taskid cp)),
            cp_fresh := Suc (cp_fresh cp)\<rparr>"
proof (cases "cp_threadPool cp")
  case None
  show ?thesis by (rule skipped) (simp_all add: afterExecute_def None)
next
  case (Some pool)
  let ?tr = "IsShutdown pool # tr"
  show ?thesis
  proof (cases "is_shutdown E ?tr \<or> cp_objects cp task = None \<or> task \<notin> cp_tasks cp")
    case True
    show ?thesis by (rule skipped) (use True Some in \<open>auto simp: afterExecute_def Let_def\<close>)
  next
    case False
    have same: "task_of (cp\<lparr>cp_tasks := cp_tasks cp - {task}, cp_next_taskid := cp_next_taskid cp + 1\<rparr>) = task_of cp"
      by (rule task_of_settings) (simp add: settings_def)
    show ?thesis
    proof (rule replaced)
      show "fst (snd (afterExecute E task cp tr)) =
         cp\<lparr>cp_tasks := insert (cp_fresh cp) (cp_tasks cp - {task}), cp_next_taskid := cp_next_taskid cp + 1,
            cp_objects := (cp_objects cp)(cp_fresh cp \<mapsto> task_of cp (cp_next_taskid cp)),
            cp_fresh := Suc (cp_fresh cp)\<rparr>"
        using Some False same
        by (auto simp: afterExecute_def Let_def add_task_eq split: option.split exn.split)
    qed (use Some False in auto)
  qed
qed

lemma afterExecute_inv:
  assumes inv: "cpool_inv cp"
  shows "cpool_inv (fst (snd (afterExecute E task cp tr)))
     \<and> card (cp_tasks (fst (snd (afterExecute E task cp tr)))) = card (cp_tasks cp)
     \<and> cp_next_taskid cp \<le> cp_next_taskid (fst (snd (afterExecute E task cp tr)))
     \<and> cp_threadPool (fst (snd (afterExecute E task cp tr))) = cp_threadPool cp"
proof (cases rule: afterExecute_cases [where E = E and task = task and cp = cp and tr = tr])
  case skipped
  with inv show ?thesis by simp
next
  case (replaced pool)
  let ?cp' = "fst (snd (afterExecute E task cp tr))" and ?f = "cp_fresh cp"
  have old: "a \<in> cp_tasks cp \<Longrightarrow> a < ?f" for a using inv by (auto simp: cpool_inv_def)
  have ids: "id_of ?cp' ?f = cp_next_taskid cp" "a \<noteq> ?f \<Longrightarrow> id_of ?cp' a = id_of cp a" for a
    using replaced(5) by (simp_all add: id_of_def)
  have lt: "a \<in> cp_tasks cp \<Longrightarrow> cp_objects cp a \<noteq> None \<and> id_of cp a < cp_next_taskid cp" for a
    using inv by (simp add: cpool_inv_def)
  have tasks: "cp_tasks ?cp' = insert ?f (cp_tasks cp - {task})" using replaced(5) by simp
  have "inj_on (id_of ?cp') (cp_tasks ?cp')"
    unfolding tasks
  proof (rule inj_onI)
    fix a b assume "a \<in> insert ?f (cp_tasks cp - {task})" "b \<in> insert ?f (cp_tasks cp - {task})"
      and eq: "id_of ?cp' a = id_of ?cp' b"
    then show "a = b"
      using ids lt [of a] lt [of b] old inv
      by (cases "a = ?f"; cases "b = ?f") (auto simp: cpool_inv_def inj_on_def)
  qed
  moreover have "cp_objects ?cp' a \<noteq> None \<and> id_of ?cp' a < cp_next_taskid ?cp'" if "a \<in> cp_tasks ?cp'" for a
    using that lt [of a] ids(1) ids(2) [of a] unfolding tasks by (cases "a = ?f") (auto simp: replaced(5))
  moreover have "cp_tasks ?cp' \<subseteq> {..<cp_fresh ?cp'}"
    unfolding tasks using old by (auto simp: replaced(5) less_SucI)
  moreover have "card (insert ?f (cp_tasks cp - {task})) = card (cp_tasks cp)"
    using card_insert_fresh [of "cp_tasks cp - {task}" ?f] card_remove_member [OF cpool_inv_finite [OF inv] replaced(3)]
      old [of ?f] cpool_inv_finite [OF inv] by (simp only: finite_Diff) blast
  then have "card (cp_tasks ?cp') = card (cp_tasks cp)" unfolding tasks .
  ultimately show ?thesis using replaced(5) by (auto simp: cpool_inv_def)
qed

section \<open>The running pool as a state machine\<close>

text \<open>
  While the pool runs, the executor calls \<^verbatim>\<open>afterExecute\<close> for whichever task ends next; \<open>lives\<close> is
  what happens between a start and a stop.  The trace may grow by the calls of the tasks themselves.
\<close>

inductive pool_lives :: "env \<Rightarrow> cpool \<times> trace \<Rightarrow> cpool \<times> trace \<Rightarrow> bool" for E where
  task_ends: "afterExecute E task cp (work @ tr) = (r, cp', tr') \<Longrightarrow> pool_lives E (cp, tr) (cp', tr')"

lemma pool_lives_inv:
  assumes "pool_lives E s t" and "cpool_inv (fst s) \<and> card (cp_tasks (fst s)) = n"
  shows "cpool_inv (fst t) \<and> card (cp_tasks (fst t)) = n"
  using assms(1)
proof (cases rule: pool_lives.cases)
  case (task_ends task cp work tr r cp' tr')
  then show ?thesis using afterExecute_inv [of cp E task "work @ tr"] assms(2) by simp
qed

interpretation running: step_system
  "\<lambda>s. cpool_inv (fst s) \<and> card (cp_tasks (fst s)) = n" "pool_lives E"
  "\<lambda>s. cpool_inv (fst s) \<and> card (cp_tasks (fst s)) = n" for E n
  by unfold_locales (simp, rule pool_lives_inv)

text \<open>
  The start loop and the end of tasks interleaved: the loop is at \<open>i\<close>; the executor may already call
  \<^verbatim>\<open>afterExecute\<close> for a task that has ended.
\<close>

inductive startup :: "env \<Rightarrow> addr \<Rightarrow> int \<Rightarrow> int \<times> cpool \<times> trace \<Rightarrow> int \<times> cpool \<times> trace \<Rightarrow> bool"
  for E pool nsize where
  launch: "i < nsize \<Longrightarrow> add_task i cp = (a, cp') \<Longrightarrow> execute E (Execute pool a # tr) = None
     \<Longrightarrow> startup E pool nsize (i, cp, tr) (i + 1, cp', Execute pool a # tr)"
| ends: "task \<in> cp_tasks cp \<Longrightarrow> afterExecute E task cp tr = (r, cp', tr')
     \<Longrightarrow> startup E pool nsize (i, cp, tr) (i, cp', tr')"

section \<open>Stopping\<close>

lemma stop_executor_cases:
  assumes "sg_inv sg" and "stop_executor E cp sg tr = (r, cp', sg', tr')"
  shows "sg_inv sg' \<and> (cp_threadPool cp = None \<longrightarrow> sg' = sg) \<and> (cp_threadPool cp \<noteq> None \<longrightarrow> \<not> flag_of sg')
     \<and> (r = Ret () \<longrightarrow> cp' = cp\<lparr>cp_threadPool := None\<rparr>) \<and> (\<forall>f. r \<noteq> Undefined f)"
proof (cases "cp_threadPool cp")
  case None
  then have "cp\<lparr>cp_threadPool := None\<rparr> = cp" by simp
  with None assms show ?thesis by (auto simp: stop_executor_def)
next
  case (Some pool)
  obtain sg1 where s: "request_stop sg = (Ret (), sg1)" "sg_inv sg1" "\<not> flag_of sg1"
    using request_stop_ok [OF assms(1)] by blast
  obtain x tr1 where a: "await_workers E pool (Shutdown pool # tr) = (x, tr1)"
    by (cases "await_workers E pool (Shutdown pool # tr)")
  from assms(2) Some s a show ?thesis
    by (cases x; cases "the x") (auto simp: stop_executor_def)
qed

lemma StopProcess_cases:
  assumes "sg_inv sg" and "StopProcess E cp sg tr = (r, cp', sg', tr')"
  shows "sg_inv sg' \<and> \<not> flag_of sg'
     \<and> (r = Ret () \<longrightarrow> cp_tasks cp' = {} \<and> cp_threadPool cp' = None \<and> cp_sessionpool cp' = None
           \<and> cp_resourcemgr cp' = cp_resourcemgr cp
           \<and> cp_deleted cp' = cp_deleted cp \<union> (case cp_resourcemgr cp of None \<Rightarrow> {} | Some m \<Rightarrow> {m}))
     \<and> (\<forall>f. r = Undefined f \<longrightarrow> f = DoubleDelete \<and> (\<exists>m. cp_resourcemgr cp = Some m \<and> m \<in> cp_deleted cp))"
proof -
  obtain sg1 where s: "request_stop sg = (Ret (), sg1)" "sg_inv sg1" "\<not> flag_of sg1"
    using request_stop_ok [OF assms(1)] by blast
  obtain q cp2 sg2 tr2 where e: "stop_executor E cp sg1 tr = (q, cp2, sg2, tr2)"
    by (cases "stop_executor E cp sg1 tr")
  note X = stop_executor_cases [OF s(2) e]
  have down: "sg_inv sg2" "\<not> flag_of sg2" using X s(3) by auto
  show ?thesis
  proof (cases q)
    case (Ret u)
    obtain q2 cp3 tr3 where f: "stop_resources cp2 tr2 = (q2, cp3, tr3)" by (cases "stop_resources cp2 tr2")
    have R: "r = q2" "cp' = cp3" "sg' = sg2" using assms(2) s(1) e Ret f by (simp_all add: StopProcess_def)
    have cp2: "cp2 = cp\<lparr>cp_threadPool := None\<rparr>" using X Ret by simp
    show ?thesis
      using f R down unfolding cp2 stop_resources_def
      by (cases "cp_resourcemgr cp") (auto simp: Let_def split: if_splits)
  next
    case (Throw x)
    with assms(2) s(1) e down show ?thesis by (auto simp: StopProcess_def)
  next
    case (Undefined f)
    with X show ?thesis by blast
  qed
qed

section \<open>Properties\<close>

text \<open>How \<^verbatim>\<open>StartProcess\<close> goes on after the checks.\<close>

lemma StartProcess_started:
  assumes "cp_tasks cp = {}"
    and "StartProcess E brokerURI destURI err useTopic clientAck nTimeout nPoolSize cp tr = ((Ret True, err'), cp', tr')"
  obtains cp1 sp p where "cp' = (add_tasks 0 (nat (min nPoolSize 50)) cp1)\<lparr>cp_next_taskid := min nPoolSize 50\<rparr>"
    and "cp_tasks cp1 = {}" and "cp_sessionpool cp1 = Some sp" and "cp_threadPool cp1 = Some p" and "err' = err"
    and "settings cp1 = (Some sp, destURI, useTopic, clientAck, nTimeout)"
proof -
  let ?cp0 = "cp\<lparr>cp_brokerURI := brokerURI, cp_destURI := destURI, cp_usetopic := useTopic,
      cp_clientack := clientAck, cp_timeout := nTimeout\<rparr>"
  let ?n = "min nPoolSize 50"
  have n: "(if nPoolSize > 50 then 50 else nPoolSize) = ?n" by (simp add: min_def)
  obtain r1 cp1 tr1 where c: "start_connect E ?cp0 tr = (r1, cp1, tr1)" by (cases "start_connect E ?cp0 tr")
  obtain r2 cp2 tr2 where d: "start_pool E ?n cp1 tr1 = (r2, cp2, tr2)" by (cases "start_pool E ?n cp1 tr1")
  have res: "fst (start_result r err) = Ret True \<longleftrightarrow> r = Proceed" for r
    by (cases r; cases "case r of Fail x \<Rightarrow> x | _ \<Rightarrow> CMSException ''''") auto
  have r1: "r1 = Proceed" using assms c n res [of r1] by (cases r1) (auto simp: StartProcess_def Let_def split: if_splits)
  have r2: "r2 = Proceed" "cp' = cp2" "err' = err"
    using assms c d n r1 res [of r2] by (auto simp: StartProcess_def Let_def split: if_splits)
  have b1: "before_tasks ?cp0 cp1" by (rule start_connect_frame [OF c])
  from d show ?thesis
  proof (cases rule: start_pool_cases)
    case (full cp3 sp p)
    with b1 have "before_tasks ?cp0 cp3" using before_tasks_trans by blast
    with that [of cp3 sp p] full r2 assms(1) show ?thesis by (simp add: before_tasks_def settings_def)
  qed (use r2 in simp_all)
qed

lemma started_inv:
  assumes "cp_tasks cp = {}"
  shows "cpool_inv ((add_tasks 0 (nat n) cp)\<lparr>cp_next_taskid := n\<rparr>)"
proof (cases "0 \<le> n")
  case True
  with add_tasks_inv [OF assms, of "nat n"] show ?thesis by simp
next
  case False
  with assms show ?thesis by (simp add: cpool_inv_def)
qed

text \<open>
  a successful start leaves the pool as documented: the number of consumers is the requested size,
  at most 50; their ids are 0, 1, \<dots>; every one of them has the session pool, the destination, the
  modes and the timeout of the call; and the next id to be given is the number of consumers.
\<close>

theorem StartProcess_pool:
  assumes "cp_tasks cp = {}"
    and "StartProcess E brokerURI destURI err useTopic clientAck nTimeout nPoolSize cp tr = ((Ret True, err'), cp', tr')"
  shows "card (cp_tasks cp') = nat (min nPoolSize 50) \<and> id_of cp' ` cp_tasks cp' = {0..<min nPoolSize 50}
     \<and> cpool_inv cp' \<and> cp_next_taskid cp' = min nPoolSize 50
     \<and> (\<exists>sp. cp_sessionpool cp' = Some sp
         \<and> (\<forall>a \<in> cp_tasks cp'. cp_objects cp' a =
              Some (new_consumer (Some sp) destURI (id_of cp' a) useTopic clientAck nTimeout)))"
proof -
  let ?n = "min nPoolSize 50"
  from assms obtain cp1 sp p where cp': "cp' = (add_tasks 0 (nat ?n) cp1)\<lparr>cp_next_taskid := ?n\<rparr>"
    and cp1: "cp_tasks cp1 = {}" "cp_sessionpool cp1 = Some sp"
    and set1: "settings cp1 = (Some sp, destURI, useTopic, clientAck, nTimeout)"
    by (rule StartProcess_started)
  let ?f = "cp_fresh cp1"
  have tasks: "cp_tasks cp' = {?f..<?f + nat ?n}" using cp' cp1(1) by simp
  have ids: "id_of cp' (?f + j) = int j" if "j < nat ?n" for j
    using id_of_add_tasks [OF that, of 0 cp1] cp' by (simp add: id_of_def)
  have obj: "cp_objects cp' (?f + j) = Some (task_of cp1 (int j))" if "j < nat ?n" for j
    using that by (simp add: cp' add_tasks_def)
  have mem: "\<exists>j < nat ?n. a = ?f + j" if "a \<in> cp_tasks cp'" for a
    using that unfolding tasks by (intro exI [of _ "a - ?f"]) auto
  have "id_of cp' ` cp_tasks cp' = {0..<?n}"
  proof (intro set_eqI iffI)
    fix x assume "x \<in> id_of cp' ` cp_tasks cp'"
    then show "x \<in> {0..<?n}" using mem ids by fastforce
  next
    fix x assume x: "x \<in> {0..<?n}"
    then have "id_of cp' (?f + nat x) = x" using ids [of "nat x"] by auto
    moreover have "?f + nat x \<in> cp_tasks cp'" using x unfolding tasks by auto
    ultimately show "x \<in> id_of cp' ` cp_tasks cp'" by (metis imageI)
  qed
  moreover have "cp_objects cp' a = Some (new_consumer (Some sp) destURI (id_of cp' a) useTopic clientAck nTimeout)"
    if "a \<in> cp_tasks cp'" for a
    using mem [OF that] obj ids set1 by (auto simp: task_of_def settings_def)
  ultimately show ?thesis
    using tasks started_inv [OF cp1(1)] cp' cp1(2) by simp
qed

lemma start_tasks_numeral:
  "start_tasks E p i (numeral v) cp tr = (if i < numeral v then
        (case add_task i cp of
           (a, cp) \<Rightarrow>
             (case execute E (Execute p a # tr) of
                Some x \<Rightarrow> (Some x, cp, Execute p a # tr)
              | None \<Rightarrow> start_tasks E p (i + 1) (numeral v) cp (Execute p a # tr)))
      else (None, cp, tr))"
  by (simp add: start_tasks.simps [of E p i] Let_def)

lemma demo_start:
  "\<exists>cp' tr'. StartProcess good_env ''tcp'' ''Q'' '''' False True 3000 2 cpool_static [] = ((Ret True, ''''), cp', tr')"
  by (simp add: StartProcess_def cpool_static_def start_connect_def set_redelivery_def start_pool_def
      start_tasks_numeral add_task_def Let_def)

theorem StartProcess_pool_witness:
  "\<exists>cp' tr'. StartProcess good_env ''tcp'' ''Q'' '''' False True 3000 2 cpool_static [] = ((Ret True, ''''), cp', tr')
     \<and> card (cp_tasks cp') = 2 \<and> id_of cp' ` cp_tasks cp' = {0..<2}"
proof -
  obtain cp' tr' where s: "StartProcess good_env ''tcp'' ''Q'' '''' False True 3000 2 cpool_static [] = ((Ret True, ''''), cp', tr')"
    using demo_start by blast
  have "cp_tasks cpool_static = {}" by (simp add: cpool_static_def)
  from StartProcess_pool [OF this s] s show ?thesis by auto
qed



text \<open>
  C18: \<^verbatim>\<open>StopProcess\<close> never has undefined behaviour unless the resource manager was deleted before, and
  however it ends the stop flag is down, so that every consumer leaves its loop at the next check.
  When it returns, no task, executor or session pool is left and the resource manager is deleted.
\<close>

theorem StopProcess_stops:
  assumes "sg_inv sg" and "StopProcess E cp sg tr = (r, cp', sg', tr')"
  shows "fst (check_running sg') = Ret False
     \<and> (r = Ret () \<longrightarrow> cp_tasks cp' = {} \<and> cp_threadPool cp' = None \<and> cp_sessionpool cp' = None
           \<and> (\<forall>m. cp_resourcemgr cp = Some m \<longrightarrow> m \<in> cp_deleted cp'))
     \<and> (\<forall>f. r = Undefined f \<longrightarrow> (\<exists>m. cp_resourcemgr cp = Some m \<and> m \<in> cp_deleted cp))"
proof -
  note S = StopProcess_cases [OF assms]
  have "fst (check_running sg') = Ret (flag_of sg')" using check_running_ok S by fastforce
  with S show ?thesis by auto
qed

lemma demo_stop:
  "\<exists>cp' sg' tr'. StopProcess good_env (cpool_static\<lparr>cp_threadPool := Some 11, cp_resourcemgr := Some 3,
      cp_tasks := {0}\<rparr>) new_singleton [] = (Ret (), cp', sg', tr')"
  by (simp add: StopProcess_def stop_executor_def stop_resources_def await_workers_def cpool_static_def
      stopper_defs new_singleton_def Let_def)

theorem StopProcess_stops_witness:
  "\<exists>cp' sg' tr'. StopProcess good_env (cpool_static\<lparr>cp_threadPool := Some 11, cp_resourcemgr := Some 3,
      cp_tasks := {0}\<rparr>) new_singleton [] = (Ret (), cp', sg', tr')
     \<and> fst (check_running sg') = Ret False \<and> cp_tasks cp' = {} \<and> 3 \<in> cp_deleted cp'"
proof -
  obtain cp' sg' tr' where s: "StopProcess good_env (cpool_static\<lparr>cp_threadPool := Some 11,
      cp_resourcemgr := Some 3, cp_tasks := {0}\<rparr>) new_singleton [] = (Ret (), cp', sg', tr')"
    using demo_stop by blast
  from StopProcess_stops [OF sg_inv_new(1) s] s show ?thesis by auto
qed

text \<open>
  calling \<^verbatim>\<open>StopProcess\<close> twice deletes the resource manager twice: the first call does not clear
  the pointer, so the second one has undefined behaviour.
\<close>

theorem second_stop_deletes_twice:
  assumes "sg_inv sg" and "cp_resourcemgr cp = Some m"
    and "StopProcess E cp sg tr = (Ret (), cp', sg', tr')"
  shows "fst (StopProcess E cp' sg' tr') = Undefined DoubleDelete"
proof -
  note S = StopProcess_cases [OF assms(1,3)]
  then have cp': "cp_threadPool cp' = None" "cp_resourcemgr cp' = Some m" "m \<in> cp_deleted cp'" and sg': "sg_inv sg'"
    using assms(2) by auto
  obtain sg2 where "request_stop sg' = (Ret (), sg2)" using request_stop_ok [OF sg'] by blast
  with cp' show ?thesis by (simp add: StopProcess_def stop_executor_def stop_resources_def Let_def)
qed

theorem second_stop_deletes_twice_witness:
  "\<exists>cp' sg' tr'. StopProcess good_env (cpool_static\<lparr>cp_threadPool := Some 11, cp_resourcemgr := Some 3,
      cp_tasks := {0}\<rparr>) new_singleton [] = (Ret (), cp', sg', tr')
     \<and> fst (StopProcess good_env cp' sg' tr') = Undefined DoubleDelete"
proof -
  obtain cp' sg' tr' where s: "StopProcess good_env (cpool_static\<lparr>cp_threadPool := Some 11,
      cp_resourcemgr := Some 3, cp_tasks := {0}\<rparr>) new_singleton [] = (Ret (), cp', sg', tr')"
    using demo_stop by blast
  from second_stop_deletes_twice [OF sg_inv_new(1) _ s] s show ?thesis by auto
qed

text \<open>
  a pool that was stopped cannot be started again: nothing raises the stop flag again, so a consumer
  that reads it after a \<^verbatim>\<open>StopProcess\<close> never asks for a message, although \<^verbatim>\<open>StartProcess\<close> reports
  success.
\<close>

theorem restarted_consumer_is_idle:
  assumes "sg_inv sg" and "StopProcess E cp sg tr = (r, cp', sg', tr')"
    and "\<And>tr. Ret (isrun_flag E' tr) = fst (check_running sg')"
    and "consumer_run (Suc n) E' c tr1 = (r2, c', tr2)"
  shows "receives tr2 = receives tr1"
proof (rule stopped_run [OF _ assms(4)])
  fix tr show "\<not> isrun_flag E' tr"
    using StopProcess_cases [OF assms(1,2)] check_running_ok [of sg'] assms(3) [of tr] by auto
qed

theorem restarted_consumer_is_idle_witness:
  "\<exists>r2 c' tr2. consumer_run 5 (good_env\<lparr>isrun_flag := (\<lambda>_. False)\<rparr>) demo_consumer [] = (r2, c', tr2)
     \<and> receives tr2 = 0"
proof -
  obtain cp' sg' tr' where s: "StopProcess good_env (cpool_static\<lparr>cp_threadPool := Some 11,
      cp_resourcemgr := Some 3, cp_tasks := {0}\<rparr>) new_singleton [] = (Ret (), cp', sg', tr')"
    using demo_stop by blast
  obtain r2 c' tr2 where c: "consumer_run (Suc 4) (good_env\<lparr>isrun_flag := (\<lambda>_. False)\<rparr>) demo_consumer [] = (r2, c', tr2)"
    by (cases "consumer_run (Suc 4) (good_env\<lparr>isrun_flag := (\<lambda>_. False)\<rparr>) demo_consumer []")
  have "Ret (isrun_flag (good_env\<lparr>isrun_flag := (\<lambda>_. False)\<rparr>) t) = fst (check_running sg')" for t
    using StopProcess_cases [OF sg_inv_new(1) s] check_running_ok [of sg'] by auto
  from restarted_consumer_is_idle [OF sg_inv_new(1) s this c] c show ?thesis
    by (simp add: receives_def)
qed

text \<open>
  a start that fails because the executor rejects a task looks like a success when it is tried again:
  the rejected task stays in \<^verbatim>\<open>m_sTask\<close>, so the second \<^verbatim>\<open>StartProcess\<close> finds the set not empty and
  returns true without doing anything.
\<close>

theorem failed_start_retry_succeeds:
  assumes "cp_tasks cp = {}" and "brokerURI \<noteq> ''''" and "destURI \<noteq> ''''" and "0 < nPoolSize"
    and "\<And>tr. create_connection E tr = Inr conn" and "\<And>tr. get_redelivery_policy E tr = Some rp"
    and "\<And>tr. start_connection E tr = None" and "\<And>tr. new_resource_manager E tr = Some rm"
    and "\<And>tr. add_connection E tr = None" and "\<And>tr. new_session_pool E tr = Inr sp"
    and "\<And>tr. new_executor E tr = Inr p" and "\<And>tr. execute E tr = Some (RejectedExecutionException e)"
  shows "\<exists>cp' tr'. StartProcess E brokerURI destURI err useTopic clientAck nTimeout nPoolSize cp tr
        = ((Ret False, ''RejectedExecutionException exception, '' @ e), cp', tr')
      \<and> StartProcess E' brokerURI destURI err2 useTopic clientAck nTimeout nPoolSize cp' tr' = ((Ret True, err2), cp', tr')"
proof -
  let ?cp0 = "cp\<lparr>cp_brokerURI := brokerURI, cp_destURI := destURI, cp_usetopic := useTopic,
      cp_clientack := clientAck, cp_timeout := nTimeout\<rparr>"
  let ?n = "if nPoolSize > 50 then 50 else nPoolSize"
  have loop: "start_tasks E p 0 ?n c t = (Some (RejectedExecutionException e), snd (add_task 0 c), Execute p (cp_fresh c) # t)" for c t
    using assms(4,12) by (simp add: start_tasks.simps [of E p 0 ?n] add_task_eq)
  obtain cp1 tr1 where c: "start_connect E ?cp0 tr = (Proceed, cp1, tr1)"
    using assms(5-7) by (cases "is_amq_connection E conn") (simp_all add: start_connect_def set_redelivery_def)
  obtain cp2 tr2 where d: "start_pool E ?n cp1 tr1 = (Fail (RejectedExecutionException e), cp2, tr2)"
    and ne: "cp_tasks cp2 \<noteq> {}"
    using assms(8-11) loop by (simp add: start_pool_def Let_def add_task_eq)
  have "StartProcess E brokerURI destURI err useTopic clientAck nTimeout nPoolSize cp tr
        = ((Ret False, ''RejectedExecutionException exception, '' @ e), cp2, tr2)"
    unfolding StartProcess_def Let_def c using assms(1-3) d by simp
  moreover have "StartProcess E' brokerURI destURI err2 useTopic clientAck nTimeout nPoolSize cp2 tr2 = ((Ret True, err2), cp2, tr2)"
    using ne by (simp add: StartProcess_def)
  ultimately show ?thesis by blast
qed

theorem failed_start_retry_succeeds_witness:
  "\<exists>cp' tr'. StartProcess (good_env\<lparr>execute := (\<lambda>_. Some (RejectedExecutionException ''full''))\<rparr>)
        ''tcp'' ''Q'' '''' False True 3000 2 cpool_static [] = ((Ret False, ''RejectedExecutionException exception, full''), cp', tr')
      \<and> StartProcess good_env ''tcp'' ''Q'' '''' False True 3000 2 cp' tr' = ((Ret True, ''''), cp', tr')"
  using failed_start_retry_succeeds [of cpool_static "''tcp''" "''Q''" 2
      "good_env\<lparr>execute := (\<lambda>_. Some (RejectedExecutionException ''full''))\<rparr>" 1 2 3 4 11 "''full''"
      "''''" False True 3000 "[]" good_env "''''"]
  by (simp add: cpool_static_def)

text \<open>
  task ids are not unique while the pool is being started: \<^verbatim>\<open>m_next_taskid\<close> is set only after the
  loop, so a consumer that ends during the loop is replaced by one whose id the loop gives out as well.
  For a pool of two or more there is a run in which two tasks have the same id.
\<close>

theorem duplicate_ids_during_start:
  assumes "cp_tasks cp = {}" and "cp_next_taskid cp = 0" and "cp_threadPool cp = Some pool" and "2 \<le> nsize"
    and "\<And>tr. execute E tr = None" and "\<And>tr. \<not> is_shutdown E tr"
  shows "\<exists>i cp' tr' a b. (startup E pool nsize)\<^sup>*\<^sup>* (0, cp, tr) (i, cp', tr')
     \<and> a \<in> cp_tasks cp' \<and> b \<in> cp_tasks cp' \<and> a \<noteq> b \<and> id_of cp' a = id_of cp' b"
proof -
  let ?f = "cp_fresh cp"
  have after: "\<exists>tr'. afterExecute E task c t = (Ret (),
      c\<lparr>cp_tasks := insert (cp_fresh c) (cp_tasks c - {task}), cp_next_taskid := cp_next_taskid c + 1,
        cp_objects := (cp_objects c)(cp_fresh c \<mapsto> task_of c (cp_next_taskid c)),
        cp_fresh := Suc (cp_fresh c)\<rparr>, tr')"
    if "cp_threadPool c = Some pool" "task \<in> cp_tasks c" "cp_objects c task \<noteq> None" for task c t
  proof -
    have "task_of (c\<lparr>cp_tasks := cp_tasks c - {task}, cp_next_taskid := cp_next_taskid c + 1\<rparr>) = task_of c"
      by (rule task_of_settings) (simp add: settings_def)
    with that assms(5,6) show ?thesis by (auto simp: afterExecute_def Let_def add_task_eq)
  qed
  obtain cp1 where l1: "add_task 0 cp = (?f, cp1)" and cp1: "cp_tasks cp1 = {?f}" "cp_objects cp1 ?f \<noteq> None"
    "cp_fresh cp1 = Suc ?f" "cp_next_taskid cp1 = 0" "cp_threadPool cp1 = Some pool"
    using assms(1-3) by (simp add: add_task_eq)
  obtain cp2 t2 where e1: "afterExecute E ?f cp1 (Execute pool ?f # tr) = (Ret (), cp2, t2)"
    and cp2: "cp_tasks cp2 = {Suc ?f}" "cp_objects cp2 (Suc ?f) \<noteq> None"
    "cp_fresh cp2 = Suc (Suc ?f)" "cp_next_taskid cp2 = 1" "cp_threadPool cp2 = Some pool"
    using after [of cp1 ?f "Execute pool ?f # tr"] cp1 by auto
  obtain cp3 where l2: "add_task 1 cp2 = (Suc (Suc ?f), cp3)" and cp3: "cp_tasks cp3 = {Suc ?f, Suc (Suc ?f)}"
    "cp_objects cp3 (Suc ?f) \<noteq> None" "id_of cp3 (Suc (Suc ?f)) = 1"
    "cp_fresh cp3 = Suc (Suc (Suc ?f))" "cp_next_taskid cp3 = 1" "cp_threadPool cp3 = Some pool"
    using cp2 by (simp add: add_task_eq id_of_def insert_commute)
  let ?t3 = "Execute pool (Suc (Suc ?f)) # t2"
  obtain cp4 t4 where e2: "afterExecute E (Suc ?f) cp3 ?t3 = (Ret (), cp4, t4)"
    and cp4: "cp_tasks cp4 = {Suc (Suc (Suc ?f)), Suc (Suc ?f)}"
    "id_of cp4 (Suc (Suc (Suc ?f))) = 1" "id_of cp4 (Suc (Suc ?f)) = 1"
    using after [of cp3 "Suc ?f" ?t3] cp3 by (auto simp: id_of_def)
  have "startup E pool nsize (0, cp, tr) (1, cp1, Execute pool ?f # tr)"
    using startup.launch [OF _ l1, of nsize E pool tr] assms(4,5) by simp
  moreover have "startup E pool nsize (1, cp1, Execute pool ?f # tr) (1, cp2, t2)"
    using startup.ends [OF _ e1] cp1 by simp
  moreover have "startup E pool nsize (1, cp2, t2) (2, cp3, ?t3)"
    using startup.launch [OF _ l2, of nsize E pool t2] assms(4,5) by simp
  moreover have "startup E pool nsize (2, cp3, ?t3) (2, cp4, t4)"
    using startup.ends [OF _ e2] cp3 by simp
  ultimately have "(startup E pool nsize)\<^sup>*\<^sup>* (0, cp, tr) (2, cp4, t4)"
    by (meson converse_rtranclp_into_rtranclp rtranclp.rtrancl_refl)
  with cp4 show ?thesis
    by (intro exI [of _ 2] exI [of _ cp4] exI [of _ t4] exI [of _ "Suc (Suc (Suc ?f))"] exI [of _ "Suc (Suc ?f)"]) simp
qed

theorem duplicate_ids_during_start_witness:
  "\<exists>i cp' tr' a b. (startup good_env 11 2)\<^sup>*\<^sup>* (0, cpool_static\<lparr>cp_threadPool := Some 11\<rparr>, []) (i, cp', tr')
     \<and> a \<in> cp_tasks cp' \<and> b \<in> cp_tasks cp' \<and> a \<noteq> b \<and> id_of cp' a = id_of cp' b"
  by (rule duplicate_ids_during_start) (simp_all add: cpool_static_def)

end
