(* ===== verification/Example.thy ===== *)
theory Example
  imports Producer_Threads Consumer_Pool
begin

text \<open>
  The sample program (example.cpp): its command line, the producer threads, the printing task and the
  two modes of \<^verbatim>\<open>main\<close>.  The threads call \<^verbatim>\<open>sendmessage\<close> of one manager; here a call is one step of a
  schedule, \<open>Producer_Threads\<close> looks inside the calls.
\<close>

section \<open>Decimal numbers\<close>

text \<open>The conversion \<^verbatim>\<open>%d\<close> of \<^verbatim>\<open>sprintf\<close>.\<close>

fun digits :: "nat \<Rightarrow> string" where
  "digits n = (if n < 10 then [char_of (48 + n)] else digits (n div 10) @ [char_of (48 + n mod 10)])"

declare digits.simps [simp del]

definition show_int :: "int \<Rightarrow> string" where
  "show_int i = (if i < 0 then ''-'' @ digits (nat (- i)) else digits (nat i))"

text \<open>\<^verbatim>\<open>atoi\<close>: white space, an optional sign, and the digits that follow.\<close>

definition digit_value :: "char \<Rightarrow> nat" where
  "digit_value c = of_char c - 48"

definition is_digit :: "char \<Rightarrow> bool" where
  "is_digit c \<longleftrightarrow> 48 \<le> (of_char c :: nat) \<and> (of_char c :: nat) \<le> 57"

definition is_space :: "char \<Rightarrow> bool" where
  "is_space c \<longleftrightarrow> c = CHR '' '' \<or> (9 \<le> (of_char c :: nat) \<and> (of_char c :: nat) \<le> 13)"

definition read_digits :: "string \<Rightarrow> int" where
  "read_digits s = int (foldl (\<lambda>n c. 10 * n + digit_value c) 0 (takeWhile is_digit s))"

definition atoi :: "string \<Rightarrow> int" where
  "atoi s =
     (case dropWhile is_space s of
        [] \<Rightarrow> 0
      | c # t \<Rightarrow> if c = CHR ''-'' then - read_digits t else if c = CHR ''+'' then read_digits t else read_digits (c # t))"

section \<open>Producer threads\<close>

text \<open>The text of message \<open>n\<close>, and the texts one \<^verbatim>\<open>ProducerThread\<close> sends, in its order.\<close>

definition message_no :: "int \<Rightarrow> string" where
  "message_no n = ''send message #'' @ show_int n"

definition thread_messages :: "int \<Rightarrow> string list" where
  "thread_messages nStart = map (\<lambda>i. message_no (nStart + i)) [0..9]"

text \<open>
  One pass of the loop in \<^verbatim>\<open>ProducerThread::run\<close>; the result says how the call of \<^verbatim>\<open>sendmessage\<close> ended.
\<close>

definition send_one :: "env \<Rightarrow> string \<Rightarrow> mgr \<Rightarrow> trace \<Rightarrow> bool outcome \<times> mgr \<times> trace" where
  "send_one E strMessage m0 tr0 =
     (case mgr_sendmessage E strMessage m0 tr0 of
        (Ret False, m, tr) \<Rightarrow>
          (Ret False, m, Printf ''fail to send message, %s, %s'' [strMessage, mgr_getlasterror m] # tr)
      | r \<Rightarrow> r)"

text \<open>\<^verbatim>\<open>ProducerThread::run\<close> without interference: the number of messages sent, unless an exception leaves it.\<close>

fun producer_thread :: "env \<Rightarrow> string list \<Rightarrow> mgr \<Rightarrow> trace \<Rightarrow> nat outcome \<times> mgr \<times> trace" where
  "producer_thread E [] m tr = (Ret 0, m, tr)"
| "producer_thread E (t # ts) m0 tr0 =
     (case send_one E t m0 tr0 of
        (Ret b, m, tr) \<Rightarrow>
          (case producer_thread E ts m tr of
             (Ret n, m, tr) \<Rightarrow> (Ret ((if b then 1 else 0) + n), m, tr)
           | r \<Rightarrow> r)
      | (Throw x, m, tr) \<Rightarrow> (Throw x, m, tr)
      | (Undefined f, m, tr) \<Rightarrow> (Undefined f, m, tr))"

definition ProducerThread_run :: "env \<Rightarrow> int \<Rightarrow> mgr \<Rightarrow> trace \<Rightarrow> nat outcome \<times> mgr \<times> trace" where
  "ProducerThread_run E nStart m tr = producer_thread E (thread_messages nStart) m tr"

text \<open>The offsets \<^verbatim>\<open>main\<close> gives to its threads.\<close>

definition thread_starts :: "int \<Rightarrow> int list" where
  "thread_starts nThreadCnt = map (\<lambda>i. 10 * i) [0..nThreadCnt - 1]"

section \<open>The printing task\<close>

definition print_task :: "int option \<Rightarrow> string \<Rightarrow> trace \<Rightarrow> ACK_RESULT \<times> trace" where
  "print_task nTaskID strMessage tr =
     (QUEUE_REMOVE,
      Printf ''taskid : [%d], [%X] reecived message : %s''
        [case nTaskID of Some i \<Rightarrow> show_int i | None \<Rightarrow> ''?'', strMessage] # tr)"

section \<open>The command line\<close>

text \<open>
  \<^verbatim>\<open>memcmp(argv[1], lit, strlen(argv[1]))\<close>: the literal has one byte more than its length, the
  terminating zero; a longer argument makes \<^verbatim>\<open>memcmp\<close> read beyond it.
\<close>

definition same_start :: "string \<Rightarrow> string \<Rightarrow> bool outcome" where
  "same_start arg lit =
     (if length arg \<le> length lit + 1 then Ret (arg = take (length arg) (lit @ [CHR 0x00]))
      else Undefined OutOfBounds)"

datatype mode = Usage | Produce int | Consume int | UsageShort

definition main_mode :: "string list \<Rightarrow> mode outcome" where
  "main_mode argv =
     (case argv of
        [argv0, argv1, argv2] \<Rightarrow>
          (case same_start argv1 ''producer'' of
             Ret True \<Rightarrow> Ret (Produce (atoi argv2))
           | Ret False \<Rightarrow>
               (case same_start argv1 ''consumer'' of
                  Ret True \<Rightarrow> Ret (Consume (atoi argv2))
                | Ret False \<Rightarrow> Ret UsageShort
                | Throw x \<Rightarrow> Throw x
                | Undefined f \<Rightarrow> Undefined f)
           | Throw x \<Rightarrow> Throw x
           | Undefined f \<Rightarrow> Undefined f)
      | _ \<Rightarrow> Ret Usage)"

section \<open>The two modes\<close>

definition producer_brokerURI :: string where
  "producer_brokerURI = ''failover://(tcp://127.0.0.1:61616)?startupMaxReconnectAttempts=0&timeout=3000&connection.sendTimeout=5000''"

definition consumer_brokerURI :: string where
  "consumer_brokerURI = ''failover:(tcp://127.0.0.1:61616?connection.dispatchAsync=false&jms.redeliveryPolicy.initialRedeliveryDelay=0&jms.redeliveryPolicy.maximumRedeliveries=-1&jms.redeliveryPolicy.redeliveryDelay=5000)''"

text \<open>
  The producer mode up to the start of the threads.  \<open>Inl\<close> is an early end of \<^verbatim>\<open>main\<close> with its exit
  code, \<open>Inr\<close> the start offsets of the threads.
\<close>

definition producer_setup :: "env \<Rightarrow> int \<Rightarrow> mgr \<Rightarrow> trace \<Rightarrow> (int + int list) outcome \<times> mgr \<times> trace" where
  "producer_setup E nThreadCnt m0 tr0 =
     (case mgr_CreatePool3 E (word_of_int nThreadCnt) producer_brokerURI ''TEST.FOO'' m0 of
        (False, m) \<Rightarrow> (Ret (Inl (- 1)), m, Printf ''%s'' [mgr_getlasterror m] # tr0)
      | (True, m) \<Rightarrow>
          (case CreateSessionPool E m tr0 of
             (Ret b, m, tr) \<Rightarrow>
               (Ret (Inr (thread_starts nThreadCnt)), m,
                (if b then Printf ''success to create session pool'' []
                 else Printf ''fail to create session pool, %s'' [mgr_getlasterror m]) # tr)
           | (Throw x, m, tr) \<Rightarrow> (Throw x, m, tr)
           | (Undefined f, m, tr) \<Rightarrow> (Undefined f, m, tr)))"

text \<open>
  The threads: a schedule picks a thread and lets it make its next call.  The state holds the messages
  each thread has still to send, the number of calls that returned true, the manager and the trace.
\<close>

inductive schedule :: "env \<Rightarrow> string list list \<times> nat \<times> mgr \<times> trace \<Rightarrow> string list list \<times> nat \<times> mgr \<times> trace \<Rightarrow> bool"
  for E where
  call: "i < length todo \<Longrightarrow> todo ! i = t # ts \<Longrightarrow> send_one E t m tr = (Ret b, m', tr') \<Longrightarrow>
     schedule E (todo, n, m, tr) (todo[i := ts], (if b then Suc n else n), m', tr')"

text \<open>
  The consumer mode: reading characters up to the first \<^verbatim>\<open>q\<close> is \<open>None\<close> when there is none, because
  \<^verbatim>\<open>std::cin.get()\<close> then returns the end-of-file value for ever.
\<close>

definition wait_for_q :: "string \<Rightarrow> string option" where
  "wait_for_q input = (if CHR ''q'' \<in> set input then Some (tl (dropWhile (\<lambda>c. c \<noteq> CHR ''q'') input)) else None)"

definition consumer_mode ::
  "env \<Rightarrow> int \<Rightarrow> string \<Rightarrow> cpool \<Rightarrow> stopper singleton \<Rightarrow> trace \<Rightarrow> (unit outcome \<times> cpool \<times> stopper singleton \<times> trace) option" where
  "consumer_mode E nThreadCnt input cp0 sg tr0 =
     (case StartProcess E consumer_brokerURI ''TEST.FOO'' '''' False True 3000 nThreadCnt cp0 tr0 of
        ((Ret b, rstrError), cp, tr) \<Rightarrow>
          (let tr = Printf ''Press 'q' to quit'' [] #
                (if b then Printf ''success to start consumer'' []
                 else Printf ''fail to start consumer, %s'' [rstrError]) # tr in
           case wait_for_q input of
             None \<Rightarrow> None
           | Some _ \<Rightarrow> Some (StopProcess E cp sg tr))
      | ((Throw x, _), cp, tr) \<Rightarrow> Some (Throw x, cp, sg, tr)
      | ((Undefined f, _), cp, tr) \<Rightarrow> Some (Undefined f, cp, sg, tr))"

section \<open>Different numbers give different texts\<close>

lemma of_char_digit: "k < 10 \<Longrightarrow> (of_char (char_of (48 + k) :: char) :: nat) = 48 + k"
  by (simp add: of_char_of)

lemma digit_facts:
  assumes "k < 10"
  shows "is_digit (char_of (48 + k))" and "digit_value (char_of (48 + k)) = k"
  using assms by (simp_all add: is_digit_def digit_value_def of_char_digit)

lemma digits_are_digits: "c \<in> set (digits n) \<Longrightarrow> is_digit c"
proof (induction n rule: digits.induct)
  case (1 n)
  show ?case
  proof (cases "n < 10")
    case True
    with 1(2) digit_facts(1) [OF True] show ?thesis by (simp add: digits.simps [of n])
  next
    case False
    with 1(2) have "c = char_of (48 + n mod 10) \<or> c \<in> set (digits (n div 10))" by (simp add: digits.simps [of n])
    with 1(1) [OF False] digit_facts(1) [of "n mod 10"] show ?thesis by auto
  qed
qed

lemma digits_value: "foldl (\<lambda>n c. 10 * n + digit_value c) 0 (digits n) = n"
proof (induction n rule: digits.induct)
  case (1 n)
  show ?case
  proof (cases "n < 10")
    case True
    then show ?thesis by (simp add: digits.simps [of n] digit_facts)
  next
    case False
    with 1 show ?thesis by (simp add: digits.simps [of n] digit_facts(2))
  qed
qed

lemma read_digits: "read_digits (digits n) = int n"
proof -
  have "takeWhile is_digit (digits n) = digits n" by (simp add: takeWhile_eq_all_conv digits_are_digits)
  then show ?thesis unfolding read_digits_def by (simp only: digits_value)
qed

lemma digits_Cons: "\<exists>c t. digits n = c # t \<and> is_digit c"
proof -
  have "digits n \<noteq> []" by (simp add: digits.simps [of n])
  then obtain c t where "digits n = c # t" by (cases "digits n") auto
  with digits_are_digits [of c n] show ?thesis by simp
qed

lemma digit_not_special:
  assumes "is_digit c"
  shows "\<not> is_space c" and "c \<noteq> CHR ''-''" and "c \<noteq> CHR ''+''"
  using assms by (auto simp: is_digit_def is_space_def)

text \<open>\<^verbatim>\<open>atoi\<close> reads back what \<^verbatim>\<open>%d\<close> prints.\<close>

lemma atoi_show_int: "atoi (show_int i) = i"
proof (cases "i < 0")
  case True
  then have "dropWhile is_space (show_int i) = CHR ''-'' # digits (nat (- i))"
    by (simp add: show_int_def is_space_def)
  with True show ?thesis by (simp add: atoi_def read_digits)
next
  case False
  obtain c t where c: "digits (nat i) = c # t" "is_digit c" using digits_Cons by blast
  with False have "dropWhile is_space (show_int i) = c # t" by (simp add: show_int_def digit_not_special)
  with False c digit_not_special [OF c(2)] read_digits [of "nat i"] show ?thesis by (simp add: atoi_def)
qed

lemma message_no_inj: "inj message_no"
proof (rule injI)
  fix i j assume "message_no i = message_no j"
  then have "show_int i = show_int j" by (simp add: message_no_def)
  then show "i = j" using atoi_show_int by metis
qed

section \<open>The work of the threads\<close>

lemma upto_snoc: "0 \<le> k \<Longrightarrow> [0..k] = [0..k - 1] @ [k]"
  by (rule upto_rec2)

lemma upto_shift: "map (\<lambda>i. a + i) [0..9] = [a..a + (9::int)]"
proof -
  have "map (\<lambda>i. i + a) [0..9] = [0 + a..9 + a]" for a :: int
    by (simp add: upto.simps)
  from this [of a] show ?thesis by (simp add: add.commute)
qed

lemma workload:
  assumes "0 \<le> n"
  shows "concat (map thread_messages (thread_starts n)) = map message_no [0..10 * n - 1]"
  using assms
proof (induction n rule: int_ge_induct)
  case base
  show ?case by (simp add: thread_starts_def)
next
  case (step k)
  have starts: "thread_starts (k + 1) = thread_starts k @ [10 * k]"
    using step.hyps upto_snoc [of k] by (simp add: thread_starts_def)
  have "thread_messages (10 * k) = map message_no [10 * k..10 * k + 9]"
    using arg_cong [OF upto_shift [of "10 * k"], of "map message_no"] by (simp add: thread_messages_def comp_def)
  moreover have "[0..10 * (k + 1) - 1] = [0..10 * k - 1] @ [10 * k..10 * k + 9]"
    using upto_split1 [of 0 "10 * k" "10 * k + 9"] step.hyps by (simp add: algebra_simps)
  ultimately show ?case using step.IH starts by simp
qed

lemma send_one_effect:
  assumes "mgr_inv m" and "new_nonnull E" and "connection_created E"
    and "send_one E t m tr = (Ret b, m', tr')"
  shows "mgr_inv m' \<and> accepted E tr' = accepted E tr + (if b then 1 else 0)"
proof -
  obtain r m1 tr1 where c: "mgr_sendmessage E t m tr = (r, m1, tr1)" by (cases "mgr_sendmessage E t m tr")
  with assms(4) have r: "r = Ret b" "m1 = m'" "accepted E tr' = accepted E tr1"
    by (auto simp: send_one_def delta_defs split: outcome.splits bool.splits)
  from c r(1) have "mgr_sendmessage E t m tr = (Ret b, m1, tr1)" by simp
  from mgr_sendmessage_invar [OF assms(1-3) this] r show ?thesis by simp
qed

lemma sum_list_update_nat:
  assumes "i < length xs" and "xs ! i = Suc k"
  shows "Suc (sum_list (xs[i := k])) = sum_list (xs :: nat list)"
proof -
  have "Suc k \<le> sum_list xs" using assms elem_le_sum_list by metis
  with assms show ?thesis by (simp add: sum_list_update)
qed

lemma schedule_inv:
  assumes "(schedule E ^^ j) (todo0, 0, m0, tr0) (todo, n, m, tr)"
    and "mgr_inv m0" and "new_nonnull E" and "connection_created E"
  shows "mgr_inv m \<and> accepted E tr = accepted E tr0 + int n \<and> n \<le> j
     \<and> j + sum_list (map length todo) = sum_list (map length todo0)"
  using assms(1)
proof (induction j arbitrary: todo n m tr)
  case 0
  with assms(2) show ?case by simp
next
  case (Suc j)
  then obtain todo1 n1 m1 tr1 where 1: "(schedule E ^^ j) (todo0, 0, m0, tr0) (todo1, n1, m1, tr1)"
    and s: "schedule E (todo1, n1, m1, tr1) (todo, n, m, tr)" by auto
  note IH = Suc.IH [OF 1]
  from s show ?case
  proof (cases rule: schedule.cases)
    case (call i t ts b)
    from send_one_effect [OF _ assms(3,4) call(5)] IH
    have "mgr_inv m \<and> accepted E tr = accepted E tr1 + (if b then 1 else 0)" by blast
    moreover have "Suc (sum_list (map length todo)) = sum_list (map length todo1)"
      using sum_list_update_nat [of i "map length todo1" "length ts"] call by (simp add: map_update)
    ultimately show ?thesis using IH call by auto
  qed
qed

section \<open>Properties\<close>

text \<open>
  the threads of the sample program share the work without overlap: taken together, \<open>n\<close> threads
  send the texts of the messages \<open>0\<close> to \<open>10 n - 1\<close>, in this order thread by thread, and no text twice.
\<close>

theorem example_workload:
  assumes "0 \<le> n"
  shows "concat (map thread_messages (thread_starts n)) = map message_no [0..10 * n - 1]
     \<and> distinct (concat (map thread_messages (thread_starts n)))"
  using workload [OF assms] inj_on_subset [OF message_no_inj] by (simp add: distinct_map)

theorem example_workload_witness:
  "distinct (concat (map thread_messages (thread_starts 3)))"
  using conjunct2 [OF example_workload [of 3]] by linarith



text \<open>
  the mode argument is compared only up to its own length, so every prefix of ``producer'', even the
  empty argument, selects the producer mode.
\<close>

theorem mode_prefix_accepted:
  assumes "''producer'' = arg @ rest"
  shows "main_mode [prog, arg, count] = Ret (Produce (atoi count))"
proof -
  have len: "length arg \<le> 8" using arg_cong [OF assms, of length] by simp
  have "take (length arg) (''producer'' @ [CHR 0x00]) = arg" unfolding assms by simp
  with len show ?thesis by (simp add: main_mode_def same_start_def)
qed

theorem mode_prefix_accepted_witness: "main_mode [''example'', '''', ''3''] = Ret (Produce (atoi ''3''))"
  by (rule mode_prefix_accepted [of _ "''producer''"]) simp

end
