(* ===== verification/Collections.thy ===== *)
theory Collections
  imports AMQ_Prelude "HOL-Library.Extended_Nat"
begin

text \<open>
  The base classes of the decaf containers: \<^verbatim>\<open>AbstractCollection\<close> (AbstractCollection.h) and
  \<^verbatim>\<open>AbstractQueue\<close> (AbstractQueue.h).  They implement most operations with the virtual functions of the
  container below them: its iterator, \<^verbatim>\<open>add\<close>, \<^verbatim>\<open>size\<close>, \<^verbatim>\<open>offer\<close>, \<^verbatim>\<open>poll\<close> and \<^verbatim>\<open>peek\<close>.  The functions a
  class overrides are the record of operations it is instantiated with; what the base classes rely
  on is a locale, which every container of the development interprets.
\<close>

section \<open>Virtual functions\<close>

text \<open>
  \<open>'c\<close> is the state of the container, \<open>'i\<close> the state of its iterator and \<open>'e\<close> the element type.  Next to
  its result, a function returns the states it changed.
\<close>

record ('c, 'i, 'e) coll_ops =
  v_size :: "'c \<Rightarrow> int"
  v_iterator :: "'c \<Rightarrow> 'i"
  v_hasNext :: "'c \<Rightarrow> 'i \<Rightarrow> bool"
  v_next :: "'c \<Rightarrow> 'i \<Rightarrow> 'e outcome \<times> 'i"
  v_remove :: "'c \<Rightarrow> 'i \<Rightarrow> unit outcome \<times> 'c \<times> 'i"
  v_add :: "'e \<Rightarrow> 'c \<Rightarrow> bool outcome \<times> 'c"
  v_clear :: "'c \<Rightarrow> unit outcome \<times> 'c"

record ('c, 'e) queue_ops =
  v_offer :: "'e \<Rightarrow> 'c \<Rightarrow> bool outcome \<times> 'c"
  v_poll :: "'e \<Rightarrow> 'c \<Rightarrow> (bool \<times> 'e) outcome \<times> 'c"
  v_peek :: "'e \<Rightarrow> 'c \<Rightarrow> (bool \<times> 'e) outcome \<times> 'c"

section \<open>AbstractCollection\<close>

text \<open>
  Every loop over the iterator of the collection itself has the same head,
  \<^verbatim>\<open>while (iter->hasNext()) { ... iter->next() ... }\<close>.  Its body looks at the element and goes on, removes
  the element through the iterator and goes on, or removes it and returns.  \<open>None\<close> is a loop that has not
  ended within the given number of passes.
\<close>

datatype visit = Keep | Remove | RemoveAndReturn

fun iter_loop :: "nat \<Rightarrow> ('c, 'i, 'e) coll_ops \<Rightarrow> ('e \<Rightarrow> 's \<Rightarrow> visit \<times> 's) \<Rightarrow> 's \<Rightarrow> 'c \<Rightarrow> 'i
    \<Rightarrow> ('s outcome \<times> 'c) option" where
  "iter_loop 0 A body s c it = None"
| "iter_loop (Suc n) A body s c it =
     (if v_hasNext A c it then
        (case v_next A c it of
           (Ret v, it1) \<Rightarrow>
             (case body v s of
                (Keep, s1) \<Rightarrow> iter_loop n A body s1 c it1
              | (w, s1) \<Rightarrow>
                  (case v_remove A c it1 of
                     (Ret _, c1, it2) \<Rightarrow>
                       if w = Remove then iter_loop n A body s1 c1 it2 else Some (Ret s1, c1)
                   | (Throw x, c1, _) \<Rightarrow> Some (Throw x, c1)
                   | (Undefined f, c1, _) \<Rightarrow> Some (Undefined f, c1)))
         | (Throw x, _) \<Rightarrow> Some (Throw x, c)
         | (Undefined f, _) \<Rightarrow> Some (Undefined f, c))
      else Some (Ret s, c))"

text \<open>The loops start with a new iterator.  \<open>n\<close> bounds the number of passes.\<close>

definition with_iterator :: "nat \<Rightarrow> ('c, 'i, 'e) coll_ops \<Rightarrow> ('e \<Rightarrow> 's \<Rightarrow> visit \<times> 's) \<Rightarrow> 's \<Rightarrow> 'c
    \<Rightarrow> ('s outcome \<times> 'c) option" where
  "with_iterator n A body s c = iter_loop n A body s c (v_iterator A c)"

definition coll_clear :: "nat \<Rightarrow> ('c, 'i, 'e) coll_ops \<Rightarrow> 'c \<Rightarrow> (unit outcome \<times> 'c) option" where
  "coll_clear n A = with_iterator n A (\<lambda>_ _. (Remove, ())) ()"

definition coll_contains :: "nat \<Rightarrow> ('c, 'i, 'e) coll_ops \<Rightarrow> 'e \<Rightarrow> 'c \<Rightarrow> (bool outcome \<times> 'c) option" where
  "coll_contains n A value =
     with_iterator n A (\<lambda>v result. (Keep, if v = value then True else result)) False"

text \<open>A collection passed as an argument is the list of the elements its iterator returns.\<close>

fun coll_containsAll :: "nat \<Rightarrow> ('c, 'i, 'e) coll_ops \<Rightarrow> 'e list \<Rightarrow> 'c \<Rightarrow> (bool outcome \<times> 'c) option" where
  "coll_containsAll n A [] c = Some (Ret True, c)"
| "coll_containsAll n A (v # vs) c =
     (case coll_contains n A v c of
        Some (Ret True, c') \<Rightarrow> coll_containsAll n A vs c'
      | r \<Rightarrow> r)"

definition coll_equals :: "nat \<Rightarrow> ('c, 'i, 'e) coll_ops \<Rightarrow> bool \<Rightarrow> 'e list \<Rightarrow> 'c \<Rightarrow> (bool outcome \<times> 'c) option" where
  "coll_equals n A same_object collection c =
     (if same_object then Some (Ret True, c)
      else if v_size A c = int (length collection) then coll_containsAll n A collection c
      else Some (Ret False, c))"

definition coll_isEmpty :: "('c, 'i, 'e) coll_ops \<Rightarrow> 'c \<Rightarrow> bool" where
  "coll_isEmpty A c \<longleftrightarrow> v_size A c = 0"

definition coll_add :: "'e \<Rightarrow> 'c \<Rightarrow> bool outcome \<times> 'c" where
  "coll_add value c =
     (Throw (UnsupportedOperationException ''AbstractCollection add is not implemented.''), c)"

fun add_each :: "('e \<Rightarrow> 'c \<Rightarrow> bool outcome \<times> 'c) \<Rightarrow> bool \<Rightarrow> 'e list \<Rightarrow> 'c \<Rightarrow> bool outcome \<times> 'c" where
  "add_each add result [] c = (Ret result, c)"
| "add_each add result (v # vs) c =
     (case add v c of
        (Ret b, c') \<Rightarrow> add_each add (b \<or> result) vs c'
      | (Throw x, c') \<Rightarrow> (Throw x, c')
      | (Undefined f, c') \<Rightarrow> (Undefined f, c'))"

definition coll_addAll :: "('c, 'i, 'e) coll_ops \<Rightarrow> 'e list \<Rightarrow> 'c \<Rightarrow> bool outcome \<times> 'c" where
  "coll_addAll A collection c = add_each (v_add A) False collection c"

definition unit_result :: "bool outcome \<times> 'c \<Rightarrow> unit outcome \<times> 'c" where
  "unit_result r = (case r of (Ret _, c) \<Rightarrow> (Ret (), c) | (Throw x, c) \<Rightarrow> (Throw x, c) | (Undefined f, c) \<Rightarrow> (Undefined f, c))"

definition coll_copy :: "('c, 'i, 'e) coll_ops \<Rightarrow> 'e list \<Rightarrow> 'c \<Rightarrow> unit outcome \<times> 'c" where
  "coll_copy A collection c =
     (case v_clear A c of
        (Ret _, c') \<Rightarrow> unit_result (add_each (v_add A) False collection c')
      | (Throw x, c') \<Rightarrow> (Throw x, c')
      | (Undefined f, c') \<Rightarrow> (Undefined f, c'))"

definition coll_assign :: "('c, 'i, 'e) coll_ops \<Rightarrow> 'e list \<Rightarrow> 'c \<Rightarrow> unit outcome \<times> 'c" where
  "coll_assign A collection c =
     (case v_clear A c of
        (Ret _, c') \<Rightarrow> unit_result (add_each (v_add A) False collection c')
      | (Throw x, c') \<Rightarrow> (Throw x, c')
      | (Undefined f, c') \<Rightarrow> (Undefined f, c'))"

text \<open>
  The copy constructor runs before the object is one of the derived class, so the virtual call in it
  is a call of \<^verbatim>\<open>AbstractCollection::add\<close>.
\<close>

definition coll_copy_constructor :: "'e list \<Rightarrow> 'c \<Rightarrow> unit outcome \<times> 'c" where
  "coll_copy_constructor other c =
     (if other = [] then (Ret (), c) else unit_result (add_each coll_add False other c))"

definition coll_remove :: "nat \<Rightarrow> ('c, 'i, 'e) coll_ops \<Rightarrow> 'e \<Rightarrow> 'c \<Rightarrow> (bool outcome \<times> 'c) option" where
  "coll_remove n A value =
     with_iterator n A (\<lambda>v result. if value = v then (RemoveAndReturn, True) else (Keep, result)) False"

definition coll_removeAll :: "nat \<Rightarrow> ('c, 'i, 'e) coll_ops \<Rightarrow> 'e list \<Rightarrow> 'c \<Rightarrow> (bool outcome \<times> 'c) option" where
  "coll_removeAll n A collection =
     with_iterator n A (\<lambda>v result. if v \<in> set collection then (Remove, True) else (Keep, result)) False"

definition coll_retainAll :: "nat \<Rightarrow> ('c, 'i, 'e) coll_ops \<Rightarrow> 'e list \<Rightarrow> 'c \<Rightarrow> (bool outcome \<times> 'c) option" where
  "coll_retainAll n A collection =
     with_iterator n A (\<lambda>v result. if v \<notin> set collection then (Remove, True) else (Keep, result)) False"

definition coll_toArray :: "nat \<Rightarrow> ('c, 'i, 'e) coll_ops \<Rightarrow> 'c \<Rightarrow> ('e list outcome \<times> 'c) option" where
  "coll_toArray n A = with_iterator n A (\<lambda>v valueArray. (Keep, valueArray @ [v])) []"

section \<open>AbstractQueue\<close>

definition queue_add :: "('c, 'e) queue_ops \<Rightarrow> 'e \<Rightarrow> 'c \<Rightarrow> bool outcome \<times> 'c" where
  "queue_add Q value c =
     (case v_offer Q value c of
        (Ret True, c') \<Rightarrow> (Ret True, c')
      | (Ret False, c') \<Rightarrow> (Throw (IllegalStateException ''Unable to add specified element to the Queue.''), c')
      | r \<Rightarrow> r)"

definition queue_addAll :: "('c, 'e) queue_ops \<Rightarrow> bool \<Rightarrow> 'e list \<Rightarrow> 'c \<Rightarrow> bool outcome \<times> 'c" where
  "queue_addAll Q same_object collection c =
     (if same_object then (Throw (IllegalArgumentException ''A Queue cannot be added to itself.''), c)
      else add_each (queue_add Q) False collection c)"

text \<open>\<open>d\<close> is the default value \<^verbatim>\<open>E result\<close> starts with.\<close>

definition taken :: "(bool \<times> 'e) outcome \<times> 'c \<Rightarrow> 'e outcome \<times> 'c" where
  "taken r =
     (case r of
        (Ret (True, v), c) \<Rightarrow> (Ret v, c)
      | (Ret (False, _), c) \<Rightarrow> (Throw (NoSuchElementException ''Unable to remove specified element from the Queue.''), c)
      | (Throw x, c) \<Rightarrow> (Throw x, c)
      | (Undefined f, c) \<Rightarrow> (Undefined f, c))"

definition queue_remove :: "('c, 'e) queue_ops \<Rightarrow> 'e \<Rightarrow> 'c \<Rightarrow> 'e outcome \<times> 'c" where
  "queue_remove Q d c = taken (v_poll Q d c)"

definition queue_element :: "('c, 'e) queue_ops \<Rightarrow> 'e \<Rightarrow> 'c \<Rightarrow> 'e outcome \<times> 'c" where
  "queue_element Q d c = taken (v_peek Q d c)"

fun poll_all :: "nat \<Rightarrow> ('c, 'e) queue_ops \<Rightarrow> 'e \<Rightarrow> 'c \<Rightarrow> (unit outcome \<times> 'c) option" where
  "poll_all 0 Q result c = None"
| "poll_all (Suc n) Q result c =
     (case v_poll Q result c of
        (Ret (successful, v), c') \<Rightarrow> if successful then poll_all n Q v c' else Some (Ret (), c')
      | (Throw x, c') \<Rightarrow> Some (Throw x, c')
      | (Undefined f, c') \<Rightarrow> Some (Undefined f, c'))"

definition queue_clear :: "nat \<Rightarrow> ('c, 'i, 'e) coll_ops \<Rightarrow> ('c, 'e) queue_ops \<Rightarrow> 'e \<Rightarrow> 'c \<Rightarrow> (unit outcome \<times> 'c) option" where
  "queue_clear n A Q d c = (if coll_isEmpty A c then Some (Ret (), c) else poll_all n Q d c)"

text \<open>A client that calls \<^verbatim>\<open>remove()\<close> \<open>n\<close> times, up to the first exception.\<close>

fun remove_n :: "nat \<Rightarrow> ('c, 'e) queue_ops \<Rightarrow> 'e \<Rightarrow> 'c \<Rightarrow> 'e list \<times> 'c" where
  "remove_n 0 Q d c = ([], c)"
| "remove_n (Suc n) Q d c =
     (case queue_remove Q d c of
        (Ret v, c') \<Rightarrow> (case remove_n n Q d c' of (vs, c'') \<Rightarrow> (v # vs, c''))
      | (_, c') \<Rightarrow> ([], c'))"

section \<open>What the base classes rely on\<close>

text \<open>The first and the last position of a value, as the list interface describes them.\<close>

definition first_index :: "'a \<Rightarrow> 'a list \<Rightarrow> int" where
  "first_index v xs = (if v \<in> set xs then int (length (takeWhile (\<lambda>x. x \<noteq> v) xs)) else - 1)"

definition last_index :: "'a \<Rightarrow> 'a list \<Rightarrow> int" where
  "last_index v xs = (if v \<in> set xs then int (length xs) - 1 - first_index v (rev xs) else - 1)"

text \<open>
  A loop over a list with the same body: the elements that stay and the final state.
\<close>

fun walk :: "('e \<Rightarrow> 's \<Rightarrow> visit \<times> 's) \<Rightarrow> 'e list \<Rightarrow> 's \<Rightarrow> 'e list \<times> 's" where
  "walk body [] s = ([], s)"
| "walk body (v # vs) s =
     (case body v s of
        (Keep, s1) \<Rightarrow> (case walk body vs s1 of (ks, s2) \<Rightarrow> (v # ks, s2))
      | (Remove, s1) \<Rightarrow> walk body vs s1
      | (RemoveAndReturn, s1) \<Rightarrow> (vs, s1))"

text \<open>
  The contract of a container that can be read through an iterator.  \<open>elems c\<close> are the elements in the order of the
  iterator, and \<open>view c it xs ys b\<close> says that the iterator has passed \<open>xs\<close>, has \<open>ys\<close> in front of it, and that \<open>b\<close>
  tells whether \<^verbatim>\<open>remove\<close> may be called.
\<close>

locale readable =
  fixes A :: "('c, 'i, 'e) coll_ops"
    and invar :: "'c \<Rightarrow> bool"
    and elems :: "'c \<Rightarrow> 'e list"
    and view :: "'c \<Rightarrow> 'i \<Rightarrow> 'e list \<Rightarrow> 'e list \<Rightarrow> bool \<Rightarrow> bool"
  assumes size_law: "invar c \<Longrightarrow> v_size A c = int (length (elems c))"
    and view_law: "view c it xs ys b \<Longrightarrow> invar c \<and> elems c = xs @ ys"
    and iterator_law: "invar c \<Longrightarrow> view c (v_iterator A c) [] (elems c) False"
    and hasNext_law: "view c it xs ys b \<Longrightarrow> v_hasNext A c it \<longleftrightarrow> ys \<noteq> []"
    and next_law: "view c it xs (y # ys) b \<Longrightarrow> \<exists>it'. v_next A c it = (Ret y, it') \<and> view c it' (xs @ [y]) ys True"
begin

text \<open>A loop that only looks at the elements folds over them and leaves the container as it is.\<close>

lemma read_loop_effect:
  assumes "view c it xs ys b" and "length ys < n"
  shows "iter_loop n A (\<lambda>v s. (Keep, f v s)) s c it = Some (Ret (fold f ys s), c)"
  using assms
proof (induction ys arbitrary: n it xs b s)
  case Nil
  then obtain m where "n = Suc m" by (cases n) auto
  with Nil hasNext_law [OF Nil(1)] show ?case by simp
next
  case (Cons y ys)
  obtain m where m: "n = Suc m" "length ys < m" using Cons.prems(2) by (cases n) auto
  obtain it1 where it1: "v_next A c it = (Ret y, it1)" "view c it1 (xs @ [y]) ys True"
    using next_law [OF Cons.prems(1)] by blast
  with Cons.IH [OF it1(2) m(2)] m(1) hasNext_law [OF Cons.prems(1)] show ?case by simp
qed

lemma read_effect:
  assumes "invar c" and "length (elems c) < n"
  shows "with_iterator n A (\<lambda>v s. (Keep, f v s)) s c = Some (Ret (fold f (elems c) s), c)"
  unfolding with_iterator_def by (rule read_loop_effect [OF iterator_law [OF assms(1)] assms(2)])

lemma coll_contains_result:
  assumes "invar c" and "length (elems c) < n"
  shows "coll_contains n A v c = Some (Ret (v \<in> set (elems c)), c)"
proof -
  have "fold (\<lambda>u result. if u = v then True else result) vs s = (s \<or> v \<in> set vs)" for vs :: "'e list" and s
    by (induction vs arbitrary: s) auto
  then show ?thesis by (simp add: coll_contains_def read_effect [OF assms])
qed

lemma coll_containsAll_result:
  assumes "invar c" and "length (elems c) < n"
  shows "coll_containsAll n A vs c = Some (Ret (set vs \<subseteq> set (elems c)), c)"
  by (induction vs) (simp_all add: coll_contains_result [OF assms] split: bool.split)

lemma coll_equals_result:
  assumes "invar c" and "length (elems c) < n"
  shows "coll_equals n A False vs c = Some (Ret (length (elems c) = length vs \<and> set vs \<subseteq> set (elems c)), c)"
  using coll_containsAll_result [OF assms, of vs] size_law [OF assms(1)] by (auto simp: coll_equals_def)

lemma coll_toArray_result:
  assumes "invar c" and "length (elems c) < n"
  shows "coll_toArray n A c = Some (Ret (elems c), c)"
proof -
  have "fold (\<lambda>u acc. acc @ [u]) vs s = s @ vs" for vs s :: "'e list"
    by (induction vs arbitrary: s) auto
  then show ?thesis by (simp add: coll_toArray_def read_effect [OF assms])
qed

lemma coll_isEmpty_effect: "invar c \<Longrightarrow> coll_isEmpty A c \<longleftrightarrow> elems c = []"
  by (simp add: coll_isEmpty_def size_law)

end

text \<open>A container whose iterator can also remove: \<^verbatim>\<open>remove\<close> takes away the last element it has passed.\<close>

locale iterable = readable A invar elems view
  for A :: "('c, 'i, 'e) coll_ops"
    and invar :: "'c \<Rightarrow> bool"
    and elems :: "'c \<Rightarrow> 'e list"
    and view :: "'c \<Rightarrow> 'i \<Rightarrow> 'e list \<Rightarrow> 'e list \<Rightarrow> bool \<Rightarrow> bool" +
  assumes remove_law: "view c it (xs @ [x]) ys True \<Longrightarrow>
      \<exists>c' it'. v_remove A c it = (Ret (), c', it') \<and> view c' it' xs ys False"
begin

text \<open>A loop ends after at most one pass per element and does to the container what \<open>walk\<close> does to the list.\<close>

lemma iter_loop_effect:
  assumes "view c it xs ys b" and "length ys < n"
  shows "\<exists>c'. iter_loop n A body s c it = Some (Ret (snd (walk body ys s)), c') \<and> invar c'
     \<and> elems c' = xs @ fst (walk body ys s)"
  using assms
proof (induction ys arbitrary: n c it xs b s)
  case Nil
  then obtain m where "n = Suc m" by (cases n) auto
  with Nil hasNext_law [OF Nil(1)] view_law [OF Nil(1)] show ?case by simp
next
  case (Cons y ys)
  obtain m where m: "n = Suc m" "length ys < m" using Cons.prems(2) by (cases n) auto
  have hasNext: "v_hasNext A c it" using hasNext_law [OF Cons.prems(1)] by simp
  obtain it1 where it1: "v_next A c it = (Ret y, it1)" "view c it1 (xs @ [y]) ys True"
    using next_law [OF Cons.prems(1)] by blast
  obtain c2 it2 where it2: "v_remove A c it1 = (Ret (), c2, it2)" "view c2 it2 xs ys False"
    using remove_law [OF it1(2)] by blast
  obtain w s1 where w: "body y s = (w, s1)" by (cases "body y s")
  show ?case
  proof (cases w)
    case Keep
    with Cons.IH [OF it1(2) m(2), of s1] m(1) hasNext it1(1) w show ?thesis
      by (auto split: prod.split)
  next
    case Remove
    with Cons.IH [OF it2(2) m(2), of s1] m(1) hasNext it1(1) it2(1) w show ?thesis by auto
  next
    case RemoveAndReturn
    with view_law [OF it2(2)] m(1) hasNext it1(1) it2(1) w show ?thesis by auto
  qed
qed

lemma with_iterator_effect:
  assumes "invar c" and "length (elems c) < n"
  shows "\<exists>c'. with_iterator n A body s c = Some (Ret (snd (walk body (elems c) s)), c') \<and> invar c'
     \<and> elems c' = fst (walk body (elems c) s)"
  using iter_loop_effect [OF iterator_law [OF assms(1)] assms(2)] by (simp add: with_iterator_def)

lemma walk_result:
  assumes "walk body (elems c) s = (ks, s')" and "invar c" and "length (elems c) < n"
  shows "\<exists>c'. with_iterator n A body s c = Some (Ret s', c') \<and> invar c' \<and> elems c' = ks"
  using with_iterator_effect [OF assms(2,3), of body s] by (simp add: assms(1))

lemma coll_clear_effect:
  assumes "invar c" and "length (elems c) < n"
  shows "\<exists>c'. coll_clear n A c = Some (Ret (), c') \<and> invar c' \<and> elems c' = []"
proof -
  have "walk (\<lambda>_ _. (Remove, ())) vs () = ([], ())" for vs :: "'e list" by (induction vs) simp_all
  then show ?thesis unfolding coll_clear_def by (intro walk_result assms) simp
qed

lemma coll_contains_effect:
  assumes "invar c" and "length (elems c) < n"
  shows "\<exists>c'. coll_contains n A v c = Some (Ret (v \<in> set (elems c)), c') \<and> invar c' \<and> elems c' = elems c"
  using coll_contains_result [OF assms] assms(1) by blast

lemma coll_equals_effect:
  assumes "invar c" and "length (elems c) < n"
  shows "\<exists>c'. coll_equals n A False vs c =
     Some (Ret (length (elems c) = length vs \<and> set vs \<subseteq> set (elems c)), c') \<and> invar c' \<and> elems c' = elems c"
  using coll_equals_result [OF assms] assms(1) by blast

lemma coll_remove_effect:
  assumes "invar c" and "length (elems c) < n"
  shows "\<exists>c'. coll_remove n A v c = Some (Ret (v \<in> set (elems c)), c') \<and> invar c' \<and> elems c' = remove1 v (elems c)"
proof -
  have "walk (\<lambda>u result. if v = u then (RemoveAndReturn, True) else (Keep, result)) vs False
      = (remove1 v vs, v \<in> set vs)" for vs :: "'e list"
    by (induction vs) auto
  then show ?thesis unfolding coll_remove_def by (intro walk_result assms) simp
qed

lemma walk_filter:
  "walk (\<lambda>u result. if P u then (Remove, True) else (Keep, result)) vs s
     = (filter (\<lambda>u. \<not> P u) vs, s \<or> (\<exists>u \<in> set vs. P u))" for vs :: "'e list"
  by (induction vs arbitrary: s) auto

lemma coll_removeAll_effect:
  assumes "invar c" and "length (elems c) < n"
  shows "\<exists>c'. coll_removeAll n A vs c = Some (Ret (\<exists>u \<in> set (elems c). u \<in> set vs), c') \<and> invar c'
     \<and> elems c' = filter (\<lambda>u. u \<notin> set vs) (elems c)"
  using with_iterator_effect [OF assms, of "\<lambda>u result. if u \<in> set vs then (Remove, True) else (Keep, result)" False]
  unfolding coll_removeAll_def by (simp add: walk_filter)

lemma coll_retainAll_effect:
  assumes "invar c" and "length (elems c) < n"
  shows "\<exists>c'. coll_retainAll n A vs c = Some (Ret (\<exists>u \<in> set (elems c). u \<notin> set vs), c') \<and> invar c'
     \<and> elems c' = filter (\<lambda>u. u \<in> set vs) (elems c)"
  using with_iterator_effect [OF assms, of "\<lambda>u result. if u \<notin> set vs then (Remove, True) else (Keep, result)" False]
  unfolding coll_retainAll_def by (simp add: walk_filter)

end

text \<open>
  The contract of a queue that holds at most \<open>limit c\<close> elements: \<^verbatim>\<open>offer\<close> appends when there is room and
  says so, \<^verbatim>\<open>poll\<close> and \<^verbatim>\<open>peek\<close> deliver the first element and leave the result alone when there is none.
\<close>

locale fifo_queue =
  fixes Q :: "('c, 'e) queue_ops"
    and invar :: "'c \<Rightarrow> bool"
    and elems :: "'c \<Rightarrow> 'e list"
    and limit :: "'c \<Rightarrow> enat"
  assumes offer_law: "invar c \<Longrightarrow> \<exists>c'. v_offer Q v c = (Ret (enat (length (elems c)) < limit c), c') \<and> invar c'
      \<and> limit c' = limit c \<and> elems c' = (if enat (length (elems c)) < limit c then elems c @ [v] else elems c)"
    and poll_law: "invar c \<Longrightarrow> \<exists>c'. v_poll Q r c = (Ret (elems c \<noteq> [], if elems c = [] then r else hd (elems c)), c')
      \<and> invar c' \<and> limit c' = limit c \<and> elems c' = tl (elems c)"
    and peek_law: "invar c \<Longrightarrow> \<exists>c'. v_peek Q r c = (Ret (elems c \<noteq> [], if elems c = [] then r else hd (elems c)), c')
      \<and> invar c' \<and> limit c' = limit c \<and> elems c' = elems c"
begin

lemma queue_add_effect:
  assumes "invar c"
  shows "\<exists>c'. queue_add Q v c =
       (if enat (length (elems c)) < limit c then Ret True
        else Throw (IllegalStateException ''Unable to add specified element to the Queue.''), c')
     \<and> invar c' \<and> limit c' = limit c
     \<and> elems c' = (if enat (length (elems c)) < limit c then elems c @ [v] else elems c)"
  using offer_law [OF assms, of v] by (cases "enat (length (elems c)) < limit c") (auto simp: queue_add_def)

lemma queue_remove_effect:
  assumes "invar c"
  shows "\<exists>c'. queue_remove Q d c =
       (if elems c = [] then Throw (NoSuchElementException ''Unable to remove specified element from the Queue.'')
        else Ret (hd (elems c)), c')
     \<and> invar c' \<and> limit c' = limit c \<and> elems c' = tl (elems c)"
  using poll_law [OF assms, of d] by (cases "elems c = []") (auto simp: queue_remove_def taken_def)

lemma queue_element_effect:
  assumes "invar c"
  shows "\<exists>c'. queue_element Q d c =
       (if elems c = [] then Throw (NoSuchElementException ''Unable to remove specified element from the Queue.'')
        else Ret (hd (elems c)), c')
     \<and> invar c' \<and> limit c' = limit c \<and> elems c' = elems c"
  using peek_law [OF assms, of d] by (cases "elems c = []") (auto simp: queue_element_def taken_def)

text \<open>Adding a whole collection: the elements arrive in order, and the first one that does not fit ends it.\<close>

lemma add_each_fits:
  assumes "invar c" and "enat (length (elems c) + length vs) \<le> limit c"
  shows "\<exists>c'. add_each (queue_add Q) b vs c = (Ret (b \<or> vs \<noteq> []), c') \<and> invar c' \<and> limit c' = limit c
     \<and> elems c' = elems c @ vs"
  using assms
proof (induction vs arbitrary: c b)
  case (Cons v vs)
  have "enat (length (elems c)) < enat (length (elems c) + length (v # vs))" by simp
  then have "enat (length (elems c)) < limit c" using Cons.prems(2) by (rule order.strict_trans2)
  then obtain c1 where c1: "queue_add Q v c = (Ret True, c1)" "invar c1" "limit c1 = limit c" "elems c1 = elems c @ [v]"
    using queue_add_effect [OF Cons.prems(1), of v] by auto
  with Cons.IH [of c1 True] Cons.prems(2) show ?case by auto
qed simp

lemma add_each_overflows:
  assumes "invar c" and "limit c = enat k" and "k < length (elems c) + length vs" and "length (elems c) \<le> k"
  shows "\<exists>c'. add_each (queue_add Q) b vs c =
       (Throw (IllegalStateException ''Unable to add specified element to the Queue.''), c') \<and> invar c'
     \<and> elems c' = elems c @ take (k - length (elems c)) vs"
  using assms
proof (induction vs arbitrary: c b)
  case (Cons v vs)
  obtain c1 where c1: "queue_add Q v c =
       (if length (elems c) < k then Ret True
        else Throw (IllegalStateException ''Unable to add specified element to the Queue.''), c1)"
    "invar c1" "limit c1 = limit c" "elems c1 = (if length (elems c) < k then elems c @ [v] else elems c)"
    using queue_add_effect [OF Cons.prems(1), of v] Cons.prems(2) by auto
  show ?case
  proof (cases "length (elems c) < k")
    case True
    then have "elems c1 = elems c @ [v]" "k - length (elems c) = Suc (k - length (elems c1))" using c1(4) by auto
    with Cons.IH [of c1 True] c1 Cons.prems True show ?thesis by auto
  next
    case False
    with c1 Cons.prems show ?thesis by auto
  qed
qed auto

lemma poll_all_effect:
  assumes "invar c" and "length (elems c) < n"
  shows "\<exists>c'. poll_all n Q r c = Some (Ret (), c') \<and> invar c' \<and> limit c' = limit c \<and> elems c' = []"
  using assms
proof (induction n arbitrary: c r)
  case (Suc n)
  obtain c1 where c1: "v_poll Q r c = (Ret (elems c \<noteq> [], if elems c = [] then r else hd (elems c)), c1)"
    "invar c1" "limit c1 = limit c" "elems c1 = tl (elems c)"
    using poll_law [OF Suc.prems(1)] by blast
  with Suc.IH [of c1 "hd (elems c)"] Suc.prems(2) show ?case by (cases "elems c") auto
qed simp

text \<open>First in, first out: what is added to a queue leaves it in the same order.\<close>

lemma remove_n_effect:
  assumes "invar c" and "n \<le> length (elems c)"
  shows "\<exists>c'. remove_n n Q d c = (take n (elems c), c') \<and> invar c' \<and> elems c' = drop n (elems c)"
  using assms
proof (induction n arbitrary: c)
  case (Suc n)
  then obtain x xs where xs: "elems c = x # xs" by (cases "elems c") auto
  then obtain c1 where "queue_remove Q d c = (Ret x, c1)" "invar c1" "elems c1 = xs"
    using queue_remove_effect [OF Suc.prems(1), of d] by auto
  with Suc.IH [of c1] Suc.prems xs show ?case by auto
qed simp

lemma fifo_order:
  assumes "invar c" and "elems c = []" and "enat (length vs) \<le> limit c"
  shows "\<exists>c' c''. add_each (queue_add Q) False vs c = (Ret (vs \<noteq> []), c')
     \<and> remove_n (length vs) Q d c' = (vs, c'') \<and> elems c'' = []"
proof -
  obtain c' where c': "add_each (queue_add Q) False vs c = (Ret (vs \<noteq> []), c')" "invar c'" "elems c' = vs"
    using add_each_fits [OF assms(1), of vs False] assms(2,3) by auto
  with remove_n_effect [OF c'(2), of "length vs" d] show ?thesis by auto
qed

end

text \<open>Copying a collection that is not empty through the base class always throws.\<close>

lemma copy_constructor_throws:
  assumes "other \<noteq> []"
  shows "coll_copy_constructor other c = (Throw (UnsupportedOperationException ''AbstractCollection add is not implemented.''), c)"
  using assms by (cases other) (simp_all add: coll_copy_constructor_def coll_add_def unit_result_def)

end
