(* ===== verification/Linked_Blocking_Queue.thy ===== *)
theory Linked_Blocking_Queue
  imports Collections
begin

text \<open>
  \<^verbatim>\<open>decaf::util::concurrent::LinkedBlockingQueue\<close> (LinkedBlockingQueue.h), the work queue the consumer
  pool gives to its executor.  The header holds the whole implementation: a chain of nodes with a
  dummy node in front, an atomic element count, a lock for each end and a condition for each lock.

  The operations are modelled on an explicit heap of nodes, one call after the other.  A lock is
  the number of times the calling thread holds it, a signalled condition is recorded, and a call
  that would wait on a condition is \<open>None\<close>.
\<close>

section \<open>State\<close>

text \<open>Addresses start at 1; a \<^verbatim>\<open>Pointer\<close> that holds NULL is 0, and \<^verbatim>\<open>operator->\<close> throws on it.\<close>

definition null :: addr where
  "null = 0"

definition null_exception :: exn where
  "null_exception = NullPointerException ''Pointer operator-> - Pointee is NULL.''"

record 'a qnode =
  nd_value :: 'a
  nd_unlinked :: bool
  nd_dequeued :: bool
  nd_next :: addr

datatype condition = NotEmpty | NotFull

record 'a lbq =
  q_heap :: "addr \<Rightarrow> 'a qnode"
  q_new :: addr
  q_head :: addr
  q_tail :: addr
  q_count :: int
  q_capacity :: int
  q_put :: nat
  q_take :: nat
  q_signals :: "condition list"

definition MAX_VALUE :: int where
  "MAX_VALUE = 2147483647"

text \<open>\<open>d\<close> is \<^verbatim>\<open>E()\<close>, the default value of the element type.\<close>

definition new_node :: "'a \<Rightarrow> 'a qnode" where
  "new_node v = \<lparr>nd_value = v, nd_unlinked = False, nd_dequeued = False, nd_next = null\<rparr>"

definition node_unlink :: "'a \<Rightarrow> 'a qnode \<Rightarrow> 'a qnode" where
  "node_unlink d n = n\<lparr>nd_value := d, nd_unlinked := True\<rparr>"

definition getAndDequeue :: "'a \<Rightarrow> 'a qnode \<Rightarrow> 'a \<times> 'a qnode" where
  "getAndDequeue d n = (nd_value n, n\<lparr>nd_value := d, nd_dequeued := True\<rparr>)"

section \<open>Building blocks\<close>

definition lock_put :: "'a lbq \<Rightarrow> 'a lbq" where
  "lock_put q = q\<lparr>q_put := Suc (q_put q)\<rparr>"

definition unlock_put :: "'a lbq \<Rightarrow> 'a lbq" where
  "unlock_put q = q\<lparr>q_put := q_put q - 1\<rparr>"

definition lock_take :: "'a lbq \<Rightarrow> 'a lbq" where
  "lock_take q = q\<lparr>q_take := Suc (q_take q)\<rparr>"

definition unlock_take :: "'a lbq \<Rightarrow> 'a lbq" where
  "unlock_take q = q\<lparr>q_take := q_take q - 1\<rparr>"

definition signal :: "condition \<Rightarrow> 'a lbq \<Rightarrow> 'a lbq" where
  "signal c q = q\<lparr>q_signals := c # q_signals q\<rparr>"

definition signalNotEmpty :: "'a lbq \<Rightarrow> 'a lbq" where
  "signalNotEmpty q = unlock_take (signal NotEmpty (lock_take q))"

definition signalNotFull :: "'a lbq \<Rightarrow> 'a lbq" where
  "signalNotFull q = unlock_put (signal NotFull (lock_put q))"

definition enqueue :: "'a \<Rightarrow> 'a lbq \<Rightarrow> 'a lbq" where
  "enqueue v q =
     (let a = q_new q;
          h = (q_heap q)(a := new_node v);
          t = q_tail q
      in q\<lparr>q_heap := h(t := (h t)\<lparr>nd_next := a\<rparr>), q_new := Suc a, q_tail := a\<rparr>)"

definition dequeue :: "'a \<Rightarrow> 'a lbq \<Rightarrow> 'a outcome \<times> 'a lbq" where
  "dequeue d q =
     (if q_head q = null then (Throw null_exception, q)
      else
        (let newHead = nd_next (q_heap q (q_head q)) in
         if newHead = null then (Throw null_exception, q\<lparr>q_head := null\<rparr>)
         else
           (case getAndDequeue d (q_heap q newHead) of
              (v, n) \<Rightarrow> (Ret v, q\<lparr>q_head := newHead, q_heap := (q_heap q)(newHead := n)\<rparr>))))"

text \<open>
  \<^verbatim>\<open>purgeList\<close> cuts the nodes after the head apart, one by one.  The length of the walk is bounded by
  the number of nodes there are.
\<close>

fun purge :: "nat \<Rightarrow> addr \<Rightarrow> (addr \<Rightarrow> 'a qnode) \<Rightarrow> (addr \<Rightarrow> 'a qnode)" where
  "purge 0 current h = h"
| "purge (Suc n) current h =
     (if current = null then h
      else purge n (nd_next (h current)) (h(current := (h current)\<lparr>nd_next := null\<rparr>)))"

definition purgeList :: "'a lbq \<Rightarrow> 'a lbq" where
  "purgeList q = q\<lparr>q_heap := purge (q_new q) (nd_next (q_heap q (q_head q))) (q_heap q)\<rparr>"

definition q_unlink :: "'a \<Rightarrow> addr \<Rightarrow> addr \<Rightarrow> 'a lbq \<Rightarrow> 'a lbq" where
  "q_unlink d p predicessor q0 =
     (let h = (q_heap q0)(p := node_unlink d (q_heap q0 p));
          h = h(predicessor := (h predicessor)\<lparr>nd_next := nd_next (h p)\<rparr>);
          q = q0\<lparr>q_heap := h, q_tail := (if q_tail q0 = p then predicessor else q_tail q0),
                 q_count := q_count q0 - 1\<rparr>
      in if q_count q0 = q_capacity q0 then signalNotFull q else q)"

section \<open>Operations\<close>

text \<open>The constructors; the second one throws for a capacity that is not positive.\<close>

definition lbq_new_capacity :: "'a \<Rightarrow> int \<Rightarrow> 'a lbq outcome" where
  "lbq_new_capacity d capacity =
     (if capacity \<le> 0 then Throw (IllegalArgumentException ''Capacity value must be greater than zero.'')
      else Ret \<lparr>q_heap = (\<lambda>_. new_node d), q_new = 2, q_head = 1, q_tail = 1, q_count = 0,
                q_capacity = capacity, q_put = 0, q_take = 0, q_signals = []\<rparr>)"

definition lbq_new :: "'a \<Rightarrow> 'a lbq" where
  "lbq_new d = \<lparr>q_heap = (\<lambda>_. new_node d), q_new = 2, q_head = 1, q_tail = 1, q_count = 0,
                q_capacity = MAX_VALUE, q_put = 0, q_take = 0, q_signals = []\<rparr>"

text \<open>The constructors that copy the elements of a collection, given in the order of its iterator.\<close>

fun enqueue_all :: "int \<Rightarrow> 'a list \<Rightarrow> 'a lbq \<Rightarrow> int outcome \<times> 'a lbq" where
  "enqueue_all count [] q = (Ret count, q)"
| "enqueue_all count (v # vs) q =
     (if count = q_capacity q then
        (Throw (IllegalStateException ''Number of elements in the Collection exceeds this Queue's Capacity.''), q)
      else enqueue_all (count + 1) vs (enqueue v q))"

definition lbq_from :: "'a \<Rightarrow> 'a list \<Rightarrow> 'a lbq outcome" where
  "lbq_from d vs =
     (case enqueue_all 0 vs (lbq_new d) of
        (Ret n, q) \<Rightarrow> Ret (q\<lparr>q_count := n\<rparr>)
      | (Throw x, _) \<Rightarrow> Throw x
      | (Undefined f, _) \<Rightarrow> Undefined f)"

definition lbq_size :: "'a lbq \<Rightarrow> int" where
  "lbq_size q = q_count q"

definition remainingCapacity :: "'a lbq \<Rightarrow> int" where
  "remainingCapacity q = q_capacity q - q_count q"

definition lbq_clear :: "'a lbq \<Rightarrow> 'a lbq" where
  "lbq_clear q0 =
     (let q = purgeList (lock_take (lock_put q0));
          q = q\<lparr>q_tail := q_head q, q_count := 0\<rparr>;
          c = q_count q;
          q = q\<lparr>q_count := 0\<rparr>;
          q = (if c = q_capacity q then signal NotFull q else q)
      in unlock_take (unlock_put q))"

text \<open>What \<^verbatim>\<open>put\<close> and both \<^verbatim>\<open>offer\<close>s do when there is room; the caller holds the put lock.\<close>

definition insert_locked :: "'a \<Rightarrow> 'a lbq \<Rightarrow> int \<times> 'a lbq" where
  "insert_locked v q0 =
     (let q = enqueue v q0; c = q_count q; q = q\<lparr>q_count := c + 1\<rparr>
      in (c, if c + 1 < q_capacity q then signal NotFull q else q))"

definition after_insert :: "int \<Rightarrow> 'a lbq \<Rightarrow> 'a lbq" where
  "after_insert c q0 = (let q = unlock_put q0 in if c = 0 then signalNotEmpty q else q)"

text \<open>
  \<open>interrupted\<close> says that the calling thread is interrupted while it acquires the lock or waits;
  then the lock is not held afterwards and nothing else has changed.
\<close>

definition lbq_put :: "bool \<Rightarrow> 'a \<Rightarrow> 'a lbq \<Rightarrow> unit outcome option \<times> 'a lbq" where
  "lbq_put interrupted v q =
     (if interrupted then (Some (Throw (InterruptedException '''')), q)
      else if q_count q = q_capacity q then (None, q)
      else (case insert_locked v (lock_put q) of (c, q') \<Rightarrow> (Some (Ret ()), after_insert c q')))"

text \<open>
  The timed \<^verbatim>\<open>offer\<close>, once the wait is over: \<open>elapsed\<close> says that the time ran out while the queue was
  full.  The function then returns without releasing the lock.
\<close>

definition offer_timed :: "bool \<Rightarrow> bool \<Rightarrow> 'a \<Rightarrow> 'a lbq \<Rightarrow> bool outcome option \<times> 'a lbq" where
  "offer_timed interrupted elapsed v q0 =
     (if interrupted then (Some (Throw (InterruptedException '''')), q0)
      else
        (let q = lock_put q0 in
         if q_count q = q_capacity q then (if elapsed then (Some (Ret False), q) else (None, q0))
         else (case insert_locked v q of (c, q') \<Rightarrow> (Some (Ret True), after_insert c q'))))"

definition offer_locked :: "'a \<Rightarrow> 'a lbq \<Rightarrow> bool \<times> 'a lbq" where
  "offer_locked v q0 =
     (let q = lock_put q0 in
      if q_count q < q_capacity q then
        (case insert_locked v q of (c, q') \<Rightarrow> (0 \<le> c, after_insert c q'))
      else (False, after_insert (- 1) q))"

definition offer :: "bool \<Rightarrow> 'a \<Rightarrow> 'a lbq \<Rightarrow> bool outcome \<times> 'a lbq" where
  "offer interrupted v q =
     (if q_count q = q_capacity q then (Ret False, q)
      else if interrupted then (Throw (InterruptedException ''''), q)
      else (case offer_locked v q of (b, q') \<Rightarrow> (Ret b, q')))"

text \<open>What \<^verbatim>\<open>take\<close> and both \<^verbatim>\<open>poll\<close>s do with an element; the caller holds the take lock.\<close>

definition remove_locked :: "'a \<Rightarrow> 'a lbq \<Rightarrow> (int \<times> 'a) outcome \<times> 'a lbq" where
  "remove_locked d q0 =
     (case dequeue d q0 of
        (Ret v, q) \<Rightarrow>
          (let c = q_count q; q = q\<lparr>q_count := c - 1\<rparr>
           in (Ret (c, v), if c > 1 then signal NotEmpty q else q))
      | (Throw x, q) \<Rightarrow> (Throw x, q)
      | (Undefined f, q) \<Rightarrow> (Undefined f, q))"

definition after_remove :: "int \<Rightarrow> 'a lbq \<Rightarrow> 'a lbq" where
  "after_remove c q0 = (let q = unlock_take q0 in if c = q_capacity q then signalNotFull q else q)"

definition take_head :: "'a \<Rightarrow> 'a lbq \<Rightarrow> 'a outcome \<times> 'a lbq" where
  "take_head d q0 =
     (case remove_locked d q0 of
        (Ret (c, v), q) \<Rightarrow> (Ret v, after_remove c q)
      | (Throw x, q) \<Rightarrow> (Throw x, unlock_take q)
      | (Undefined f, q) \<Rightarrow> (Undefined f, q))"

definition lbq_take :: "'a \<Rightarrow> bool \<Rightarrow> 'a lbq \<Rightarrow> 'a outcome option \<times> 'a lbq" where
  "lbq_take d interrupted q =
     (if interrupted then (Some (Throw (InterruptedException '''')), q)
      else if q_count q = 0 then (None, q)
      else (case take_head d (lock_take q) of (r, q') \<Rightarrow> (Some r, q')))"

text \<open>
  The \<^verbatim>\<open>poll\<close>s return whether there was an element and the value of the reference parameter, here
  \<open>result\<close> before the call.
\<close>

definition poll_timed :: "'a \<Rightarrow> bool \<Rightarrow> bool \<Rightarrow> 'a \<Rightarrow> 'a lbq \<Rightarrow> (bool \<times> 'a) outcome option \<times> 'a lbq" where
  "poll_timed d interrupted elapsed result q0 =
     (if interrupted then (Some (Throw (InterruptedException '''')), q0)
      else
        (let q = lock_take q0 in
         if q_count q = 0 then (if elapsed then (Some (Ret (False, result)), q) else (None, q0))
         else
           (case take_head d q of
              (Ret v, q') \<Rightarrow> (Some (Ret (True, v)), q')
            | (Throw x, q') \<Rightarrow> (Some (Throw x), q')
            | (Undefined f, q') \<Rightarrow> (Some (Undefined f), q'))))"

text \<open>The part of \<^verbatim>\<open>poll\<close> after its unlocked look at the count.\<close>

definition poll_locked :: "'a \<Rightarrow> 'a \<Rightarrow> 'a lbq \<Rightarrow> (bool \<times> 'a) outcome \<times> 'a lbq" where
  "poll_locked d result q0 =
     (let q = lock_take q0 in
      if q_count q > 0 then
        (case take_head d q of
           (Ret v, q') \<Rightarrow> (Ret (True, v), q')
         | (Throw x, q') \<Rightarrow> (Throw x, q')
         | (Undefined f, q') \<Rightarrow> (Undefined f, q'))
      else (Ret (True, result), after_remove (- 1) q))"

definition poll :: "'a \<Rightarrow> 'a \<Rightarrow> 'a lbq \<Rightarrow> (bool \<times> 'a) outcome \<times> 'a lbq" where
  "poll d result q =
     (if q_count q = 0 then (Ret (False, result), q) else poll_locked d result q)"

definition peek :: "'a \<Rightarrow> 'a lbq \<Rightarrow> (bool \<times> 'a) outcome \<times> 'a lbq" where
  "peek result q0 =
     (if q_count q0 = 0 then (Ret (False, result), q0)
      else
        (let q = lock_take q0 in
         if q_head q = null then (Throw null_exception, unlock_take q)
         else
           (let front = nd_next (q_heap q (q_head q)) in
            if front = null then (Ret (False, result), q)
            else (Ret (True, nd_value (q_heap q front)), unlock_take q))))"

text \<open>\<^verbatim>\<open>remove(value)\<close>: the walk from the head with its predecessor.\<close>

fun find_node :: "nat \<Rightarrow> ('a qnode \<Rightarrow> addr \<Rightarrow> bool) \<Rightarrow> (addr \<Rightarrow> 'a qnode) \<Rightarrow> addr \<Rightarrow> (addr \<times> addr) option" where
  "find_node 0 P h predicessor = None"
| "find_node (Suc n) P h predicessor =
     (let p = nd_next (h predicessor) in
      if p = null then None
      else if P (h p) p then Some (p, predicessor)
      else find_node n P h p)"

definition lbq_remove :: "'a \<Rightarrow> 'a \<Rightarrow> 'a lbq \<Rightarrow> bool \<times> 'a lbq" where
  "lbq_remove d v q0 =
     (let q = lock_take (lock_put q0) in
      case find_node (q_new q) (\<lambda>n p. nd_value n = v) (q_heap q) (q_head q) of
        None \<Rightarrow> (False, unlock_take (unlock_put q))
      | Some (p, predicessor) \<Rightarrow> (True, unlock_take (unlock_put (q_unlink d p predicessor q))))"

text \<open>The values from a node on, up to the end of the chain.\<close>

fun values_from :: "nat \<Rightarrow> (addr \<Rightarrow> 'a qnode) \<Rightarrow> addr \<Rightarrow> 'a list" where
  "values_from 0 h p = []"
| "values_from (Suc n) h p =
     (if p = null then [] else nd_value (h p) # values_from n h (nd_next (h p)))"

definition toArray :: "'a lbq \<Rightarrow> 'a list" where
  "toArray q = values_from (q_new q) (q_heap q) (nd_next (q_heap q (q_head q)))"

text \<open>
  \<^verbatim>\<open>drainTo\<close>: \<open>accepts n\<close> says whether the sink takes the \<open>n\<close>-th element that is added to it; the
  element it refuses is already dequeued.  The list is what the sink received.
\<close>

fun drain :: "'a \<Rightarrow> (nat \<Rightarrow> exn option) \<Rightarrow> nat \<Rightarrow> nat \<Rightarrow> addr \<Rightarrow> (addr \<Rightarrow> 'a qnode)
    \<Rightarrow> exn option \<times> nat \<times> addr \<times> (addr \<Rightarrow> 'a qnode) \<times> 'a list" where
  "drain d accepts 0 i node h = (None, i, node, h, [])"
| "drain d accepts (Suc n) i node h =
     (let p = nd_next (h node) in
      if p = null then (Some null_exception, i, node, h, [])
      else
        (case getAndDequeue d (h p) of
           (v, m) \<Rightarrow>
             (case accepts i of
                Some x \<Rightarrow> (Some x, i, node, h(p := m), [])
              | None \<Rightarrow>
                  (case drain d accepts n (Suc i) p (h(p := m)) of
                     (x, j, node', h', vs) \<Rightarrow> (x, j, node', h', v # vs)))))"

definition drainTo :: "'a \<Rightarrow> (nat \<Rightarrow> exn option) \<Rightarrow> int \<Rightarrow> 'a lbq \<Rightarrow> int outcome \<times> 'a list \<times> 'a lbq" where
  "drainTo d accepts maxElements q0 =
     (let q = lock_take q0;
          result = min maxElements (q_count q)
      in case drain d accepts (nat result) 0 (q_head q) (q_heap q) of
           (x, i, node, h, vs) \<Rightarrow>
             (let q1 = q\<lparr>q_heap := h\<rparr>;
                  q2 = (if i > 0 then q1\<lparr>q_head := node, q_count := q_count q1 - int i\<rparr> else q1);
                  full = (i > 0 \<and> q_count q1 = q_capacity q1);
                  q3 = unlock_take q2;
                  q4 = (if full then signalNotFull q3 else q3)
              in (case x of None \<Rightarrow> Ret result | Some e \<Rightarrow> Throw e, vs, q4)))"

text \<open>The checks around it: a queue is not drained into itself, and the default is to drain all.\<close>

definition drainTo_sink :: "bool \<Rightarrow> 'a \<Rightarrow> (nat \<Rightarrow> exn option) \<Rightarrow> int \<Rightarrow> 'a lbq \<Rightarrow> int outcome \<times> 'a list \<times> 'a lbq" where
  "drainTo_sink same_object d accepts maxElements q =
     (if same_object then (Throw (IllegalArgumentException ''Cannot drain this Collection to itself.''), [], q)
      else drainTo d accepts maxElements q)"

definition drainTo_default :: "bool \<Rightarrow> 'a \<Rightarrow> (nat \<Rightarrow> exn option) \<Rightarrow> 'a lbq \<Rightarrow> int outcome \<times> 'a list \<times> 'a lbq" where
  "drainTo_default same_object d accepts q = drainTo_sink same_object d accepts MAX_VALUE q"

section \<open>Iterators\<close>

record 'a qiter =
  it_current :: addr
  it_last :: addr
  it_element :: 'a

definition iterator :: "'a \<Rightarrow> 'a lbq \<Rightarrow> 'a qiter" where
  "iterator d q =
     (let c = nd_next (q_heap q (q_head q)) in
      \<lparr>it_current = c, it_last = null, it_element = (if c \<noteq> null then nd_value (q_heap q c) else d)\<rparr>)"

definition hasNext :: "'a qiter \<Rightarrow> bool" where
  "hasNext it \<longleftrightarrow> it_current it \<noteq> null"

fun skip_unlinked :: "nat \<Rightarrow> (addr \<Rightarrow> 'a qnode) \<Rightarrow> addr \<Rightarrow> addr" where
  "skip_unlinked 0 h s = s"
| "skip_unlinked (Suc n) h s =
     (if s \<noteq> null \<and> nd_unlinked (h s) then skip_unlinked n h (nd_next (h s)) else s)"

definition nextNode :: "'a lbq \<Rightarrow> addr \<Rightarrow> addr" where
  "nextNode q p =
     (if nd_dequeued (q_heap q p) then nd_next (q_heap q (q_head q))
      else skip_unlinked (q_new q) (q_heap q) (nd_next (q_heap q p)))"

definition iter_next :: "'a \<Rightarrow> 'a lbq \<Rightarrow> 'a qiter \<Rightarrow> 'a outcome \<times> 'a qiter" where
  "iter_next d q it =
     (if it_current it = null then
        (Throw (NoSuchElementException ''Iterator next called with no matching next element.''), it)
      else
        (let c = nextNode q (it_current it) in
         (Ret (it_element it),
          \<lparr>it_current = c, it_last = it_current it,
           it_element = (if c = null then d else nd_value (q_heap q c))\<rparr>)))"

definition iter_remove :: "'a \<Rightarrow> 'a lbq \<Rightarrow> 'a qiter \<Rightarrow> unit outcome \<times> 'a lbq \<times> 'a qiter" where
  "iter_remove d q0 it =
     (if it_last it = null then
        (Throw (IllegalStateException ''Iterator remove called without having called next().''), q0, it)
      else
        (let q = lock_take (lock_put q0);
             node = it_last it
         in (Ret (),
             unlock_take (unlock_put
               (case find_node (q_new q) (\<lambda>_ p. p = node) (q_heap q) (q_head q) of
                  None \<Rightarrow> q
                | Some (p, trail) \<Rightarrow> q_unlink d p trail q)),
             it\<lparr>it_last := null\<rparr>)))"

text \<open>The iterator of a constant queue refuses to remove.\<close>

text \<open>The iterator of a constant queue starts and moves like the other one.\<close>

definition const_iterator :: "'a \<Rightarrow> 'a lbq \<Rightarrow> 'a qiter" where
  "const_iterator d q =
     (let c = nd_next (q_heap q (q_head q)) in
      \<lparr>it_current = c, it_last = null, it_element = (if c \<noteq> null then nd_value (q_heap q c) else d)\<rparr>)"

definition const_iter_next :: "'a \<Rightarrow> 'a lbq \<Rightarrow> 'a qiter \<Rightarrow> 'a outcome \<times> 'a qiter" where
  "const_iter_next d q it =
     (if it_current it = null then
        (Throw (NoSuchElementException ''Iterator next called with no matching next element.''), it)
      else
        (let p = it_current it;
             c = (if nd_dequeued (q_heap q p) then nd_next (q_heap q (q_head q))
                  else skip_unlinked (q_new q) (q_heap q) (nd_next (q_heap q p)))
         in
         (Ret (it_element it),
          \<lparr>it_current = c, it_last = p, it_element = (if c = null then d else nd_value (q_heap q c))\<rparr>)))"

definition const_iter_remove :: "'a lbq \<Rightarrow> 'a qiter \<Rightarrow> unit outcome \<times> 'a lbq \<times> 'a qiter" where
  "const_iter_remove q it = (Throw (UnsupportedOperationException ''Cannot write to a const ListIterator.''), q, it)"

section \<open>The chain of nodes\<close>

text \<open>The \<open>n\<close> nodes that follow a node.\<close>

fun nodes :: "nat \<Rightarrow> (addr \<Rightarrow> 'a qnode) \<Rightarrow> addr \<Rightarrow> addr list" where
  "nodes 0 h a = []"
| "nodes (Suc n) h a = nd_next (h a) # nodes n h (nd_next (h a))"

definition q_nodes :: "'a lbq \<Rightarrow> addr list" where
  "q_nodes q = nodes (nat (q_count q)) (q_heap q) (q_head q)"

definition contents :: "'a lbq \<Rightarrow> 'a list" where
  "contents q = map (\<lambda>p. nd_value (q_heap q p)) (q_nodes q)"

text \<open>
  The representation invariant: the nodes of the queue are distinct and allocated, the tail is the
  last of them, none of them was taken or unlinked, and the count is within the capacity.
\<close>

definition lbq_inv :: "'a lbq \<Rightarrow> bool" where
  "lbq_inv q \<longleftrightarrow> distinct (q_head q # q_nodes q) \<and> set (q_head q # q_nodes q) \<subseteq> {1..<q_new q}
     \<and> q_tail q = last (q_head q # q_nodes q) \<and> 0 \<le> q_count q \<and> q_count q \<le> q_capacity q \<and> 0 < q_capacity q
     \<and> (\<forall>p \<in> set (q_nodes q). \<not> nd_unlinked (q_heap q p) \<and> \<not> nd_dequeued (q_heap q p))"

text \<open>No node hangs behind the last one.\<close>

definition ends :: "'a lbq \<Rightarrow> bool" where
  "ends q \<longleftrightarrow> nd_next (q_heap q (q_tail q)) = null"

lemma length_nodes [simp]: "length (nodes n h a) = n"
  by (induction n arbitrary: a) simp_all

lemma nodes_Nil [simp]: "nodes n h a = [] \<longleftrightarrow> n = 0"
  by (cases n) simp_all

lemma nodes_cong:
  assumes "\<And>x. x \<in> set (butlast (a # nodes n h a)) \<Longrightarrow> nd_next (h' x) = nd_next (h x)"
  shows "nodes n h' a = nodes n h a"
  using assms
proof (induction n arbitrary: a)
  case (Suc n)
  have "nd_next (h' a) = nd_next (h a)" using Suc.prems [of a] by simp
  moreover have "nodes n h' (nd_next (h a)) = nodes n h (nd_next (h a))"
    by (rule Suc.IH) (use Suc.prems in auto)
  ultimately show ?case by simp
qed simp

lemma nodes_snoc: "nodes (Suc n) h a = nodes n h a @ [nd_next (h (last (a # nodes n h a)))]"
proof (induction n arbitrary: a)
  case (Suc n)
  have "nodes (Suc (Suc n)) h a = nd_next (h a) # nodes (Suc n) h (nd_next (h a))" by (rule nodes.simps(2))
  also have "\<dots> = nd_next (h a) # nodes n h (nd_next (h a))
      @ [nd_next (h (last (nd_next (h a) # nodes n h (nd_next (h a)))))]"
    by (simp only: Suc.IH)
  finally show ?case by (simp only: nodes.simps(2) append_Cons last.simps list.distinct if_False)
qed simp

lemma last_notin_butlast: "distinct xs \<Longrightarrow> xs \<noteq> [] \<Longrightarrow> last xs \<notin> set (butlast xs)"
  by (metis append_butlast_last_id distinct_append disjoint_insert(2) list.set_intros(1) list.simps(15))

lemma count_nodes: "lbq_inv q \<Longrightarrow> q_count q = int (length (q_nodes q))"
  by (simp add: lbq_inv_def q_nodes_def)

lemma length_contents: "lbq_inv q \<Longrightarrow> int (length (contents q)) = q_count q"
  by (simp add: contents_def count_nodes)

lemma enqueue_nodes:
  fixes v :: 'a
  assumes "distinct (b # nodes n h b)" and "set (b # nodes n h b) \<subseteq> {1..<a}"
  defines "t \<equiv> last (b # nodes n h b)"
  defines "h' \<equiv> (h(a := new_node v))(t := ((h(a := new_node v)) t)\<lparr>nd_next := a\<rparr>)"
  shows "nodes (Suc n) h' b = nodes n h b @ [a]"
    and "p \<in> set (nodes n h b) \<Longrightarrow> nd_value (h' p) = nd_value (h p)
           \<and> nd_unlinked (h' p) = nd_unlinked (h p) \<and> nd_dequeued (h' p) = nd_dequeued (h p)"
    and "h' a = new_node v"
proof -
  have fresh: "p \<in> set (b # nodes n h b) \<Longrightarrow> p \<noteq> a" for p using assms(2) by force
  have t: "t \<in> set (b # nodes n h b)" unfolding t_def by (rule last_in_set) simp
  have same: "nodes n h' b = nodes n h b"
  proof (rule nodes_cong)
    fix x assume x: "x \<in> set (butlast (b # nodes n h b))"
    then have "x \<noteq> t" using last_notin_butlast [OF assms(1)] unfolding t_def by blast
    moreover have "x \<noteq> a" using x fresh in_set_butlastD by metis
    ultimately show "nd_next (h' x) = nd_next (h x)" by (simp add: h'_def)
  qed
  show "nodes (Suc n) h' b = nodes n h b @ [a]"
    using nodes_snoc [of n h' b] unfolding same t_def [symmetric] by (simp add: h'_def)
  show "h' a = new_node v" using fresh [OF t] by (simp add: h'_def)
  show "p \<in> set (nodes n h b) \<Longrightarrow> nd_value (h' p) = nd_value (h p)
           \<and> nd_unlinked (h' p) = nd_unlinked (h p) \<and> nd_dequeued (h' p) = nd_dequeued (h p)"
    using fresh [of p] by (simp add: h'_def)
qed

lemma insert_locked_effect:
  assumes inv: "lbq_inv q" and room: "q_count q < q_capacity q" and call: "insert_locked v q = (c, q')"
  shows "lbq_inv q' \<and> contents q' = contents q @ [v] \<and> q_capacity q' = q_capacity q \<and> c = q_count q
     \<and> q_count q' = c + 1 \<and> q_put q' = q_put q \<and> q_take q' = q_take q \<and> ends q'"
proof -
  let ?n = "nat (q_count q)" and ?h = "q_heap q" and ?a = "q_new q" and ?hd = "q_head q"
  let ?t = "last (?hd # nodes ?n ?h ?hd)"
  let ?h' = "(?h(?a := new_node v))(?t := ((?h(?a := new_node v)) ?t)\<lparr>nd_next := ?a\<rparr>)"
  have pre: "distinct (?hd # nodes ?n ?h ?hd)" "set (?hd # nodes ?n ?h ?hd) \<subseteq> {1..<?a}"
    and t: "q_tail q = ?t" and flags: "\<And>p. p \<in> set (nodes ?n ?h ?hd) \<Longrightarrow> \<not> nd_unlinked (?h p) \<and> \<not> nd_dequeued (?h p)"
    using inv by (auto simp: lbq_inv_def q_nodes_def)
  note E = enqueue_nodes [OF pre, where v = v]
  have "0 \<le> q_count q" using inv unfolding lbq_inv_def by blast
  then have n: "nat (q_count q + 1) = Suc ?n" by simp
  have q': "q_heap q' = ?h'" "q_new q' = Suc ?a" "q_head q' = ?hd" "q_tail q' = ?a" "q_count q' = q_count q + 1"
    "q_capacity q' = q_capacity q" "q_put q' = q_put q" "q_take q' = q_take q" "c = q_count q"
    using call t by (auto simp: insert_locked_def enqueue_def signal_def Let_def)
  have nodes': "q_nodes q' = q_nodes q @ [?a]" unfolding q_nodes_def q' n by (rule E(1))
  have "contents q' = contents q @ [v]"
    unfolding contents_def nodes' q'(1) using E(2,3) by (simp add: q_nodes_def new_node_def)
  moreover have "lbq_inv q'"
    unfolding lbq_inv_def nodes' q'(2-6)
  proof (intro conjI ballI)
    show "distinct (?hd # q_nodes q @ [?a])" using pre by (auto simp: q_nodes_def)
    show "set (?hd # q_nodes q @ [?a]) \<subseteq> {1..<Suc ?a}" using pre(2) by (auto simp: q_nodes_def)
    fix p assume "p \<in> set (q_nodes q @ [?a])"
    then show "\<not> nd_unlinked (q_heap q' p)" "\<not> nd_dequeued (q_heap q' p)"
      unfolding q'(1) using E(2) [of p] E(3) flags [of p] by (auto simp: q_nodes_def new_node_def)
  qed (use inv room in \<open>auto simp: lbq_inv_def\<close>)
  moreover have "ends q'" unfolding ends_def q'(1,4) E(3) by (simp add: new_node_def)
  ultimately show ?thesis using q' by simp
qed

lemma remove_locked_effect:
  assumes inv: "lbq_inv q" and some: "0 < q_count q"
  obtains q' where "remove_locked d q = (Ret (q_count q, hd (contents q)), q')"
    and "lbq_inv q'" and "contents q' = tl (contents q)" and "q_capacity q' = q_capacity q"
    and "q_put q' = q_put q" and "q_take q' = q_take q" and "q_tail q' = q_tail q" and "ends q' = ends q"
proof -
  let ?h = "q_heap q" and ?hd = "q_head q"
  define n where "n = nat (q_count q - 1)"
  have n: "nat (q_count q) = Suc n" using some by (simp add: n_def)
  define p where "p = nd_next (?h ?hd)"
  have nodes: "q_nodes q = p # nodes n ?h p" unfolding q_nodes_def n by (simp add: p_def)
  let ?h' = "?h(p := (?h p)\<lparr>nd_value := d, nd_dequeued := True\<rparr>)"
  have pre: "distinct (?hd # p # nodes n ?h p)" "set (?hd # p # nodes n ?h p) \<subseteq> {1..<q_new q}"
    and flags: "\<And>x. x \<in> set (nodes n ?h p) \<Longrightarrow> \<not> nd_unlinked (?h x) \<and> \<not> nd_dequeued (?h x)"
    using inv unfolding lbq_inv_def nodes by auto
  then have nn: "?hd \<noteq> null" "p \<noteq> null" by (auto simp: null_def)
  have same: "nodes n ?h' p = nodes n ?h p" by (rule nodes_cong) auto
  define q' where "q' = (if q_count q > 1 then signal NotEmpty else id)
      (q\<lparr>q_head := p, q_heap := ?h', q_count := q_count q - 1\<rparr>)"
  have q': "q_heap q' = ?h'" "q_head q' = p" "q_count q' = q_count q - 1" "q_new q' = q_new q" "q_tail q' = q_tail q"
    "q_capacity q' = q_capacity q" "q_put q' = q_put q" "q_take q' = q_take q"
    by (simp_all add: q'_def signal_def)
  have nodes': "q_nodes q' = nodes n ?h p" unfolding q_nodes_def q' n_def [symmetric] by (rule same)
  have val: "x \<in> set (nodes n ?h p) \<Longrightarrow> ?h' x = ?h x" for x using pre(1) by auto
  have "remove_locked d q = (Ret (q_count q, hd (contents q)), q')"
    using nn by (simp add: remove_locked_def dequeue_def getAndDequeue_def p_def [symmetric] q'_def Let_def
        contents_def nodes)
  moreover have "contents q' = tl (contents q)"
    unfolding contents_def nodes' nodes q'(1) using val by simp
  moreover have "lbq_inv q'"
    unfolding lbq_inv_def nodes' q'(2-6)
  proof (intro conjI ballI)
    show "q_tail q = last (p # nodes n ?h p)" using inv unfolding lbq_inv_def nodes by simp
    fix x assume "x \<in> set (nodes n ?h p)"
    then show "\<not> nd_unlinked (q_heap q' x)" "\<not> nd_dequeued (q_heap q' x)"
      unfolding q'(1) using flags val by metis+
  qed (use inv pre some in \<open>auto simp: lbq_inv_def\<close>)
  moreover have "ends q' = ends q" by (simp add: ends_def q')
  ultimately show ?thesis using that q' by blast
qed

text \<open>Locks and signals do not touch the chain.\<close>

definition same_chain :: "'a lbq \<Rightarrow> 'a lbq \<Rightarrow> bool" where
  "same_chain q q' \<longleftrightarrow> q_heap q' = q_heap q \<and> q_new q' = q_new q \<and> q_head q' = q_head q \<and> q_tail q' = q_tail q
     \<and> q_count q' = q_count q \<and> q_capacity q' = q_capacity q"

lemma same_chain_facts:
  assumes "same_chain q q'"
  shows "lbq_inv q' = lbq_inv q" and "contents q' = contents q" and "ends q' = ends q"
    and "q_count q' = q_count q" and "q_capacity q' = q_capacity q" and "toArray q' = toArray q"
    and "q_nodes q' = q_nodes q"
  using assms by (simp_all add: same_chain_def lbq_inv_def contents_def q_nodes_def ends_def toArray_def)

lemma same_chain_lock [simp]:
  "same_chain q (lock_put q)" "same_chain q (unlock_put q)" "same_chain q (lock_take q)" "same_chain q (unlock_take q)"
  "same_chain q (signal w q)" "same_chain q (signalNotEmpty q)" "same_chain q (signalNotFull q)"
  "same_chain q (after_insert c q)" "same_chain q (after_remove c q)"
  by (simp_all add: same_chain_def lock_put_def unlock_put_def lock_take_def unlock_take_def signal_def
      signalNotEmpty_def signalNotFull_def after_insert_def after_remove_def Let_def)

lemmas chain_simps [simp] =
  same_chain_facts [OF same_chain_lock(1)] same_chain_facts [OF same_chain_lock(2)]
  same_chain_facts [OF same_chain_lock(3)] same_chain_facts [OF same_chain_lock(4)]
  same_chain_facts [OF same_chain_lock(5)] same_chain_facts [OF same_chain_lock(6)]
  same_chain_facts [OF same_chain_lock(7)] same_chain_facts [OF same_chain_lock(8)]
  same_chain_facts [OF same_chain_lock(9)]

text \<open>How often the calling thread holds the two locks.\<close>

definition holding :: "'a lbq \<Rightarrow> nat \<times> nat" where
  "holding q = (q_put q, q_take q)"

lemma holding_simps [simp]:
  "holding (lock_put q) = (Suc (q_put q), q_take q)" "holding (unlock_put q) = (q_put q - 1, q_take q)"
  "holding (lock_take q) = (q_put q, Suc (q_take q))" "holding (unlock_take q) = (q_put q, q_take q - 1)"
  "holding (signal w q) = holding q" "holding (signalNotEmpty q) = holding q" "holding (signalNotFull q) = holding q"
  "holding (after_insert c q) = (q_put q - 1, q_take q)" "holding (after_remove c q) = (q_put q, q_take q - 1)"
  by (simp_all add: holding_def lock_put_def unlock_put_def lock_take_def unlock_take_def signal_def
      signalNotEmpty_def signalNotFull_def after_insert_def after_remove_def Let_def)

section \<open>Effect of the operations\<close>

text \<open>What a client sees of an operation: the elements before and after, and that the rest is in order.\<close>

definition moves :: "'a lbq \<Rightarrow> 'a lbq \<Rightarrow> 'a list \<Rightarrow> bool" where
  "moves q q' vs \<longleftrightarrow> lbq_inv q' \<and> contents q' = vs \<and> q_capacity q' = q_capacity q \<and> holding q' = holding q
     \<and> (ends q \<longrightarrow> ends q')"

lemma insert_effect:
  assumes inv: "lbq_inv q" and room: "q_count q < q_capacity q"
    and call: "insert_locked v (lock_put q) = (c, q')"
  shows "moves q (after_insert c q') (contents q @ [v])" and "c = q_count q"
proof -
  have "lbq_inv q' \<and> contents q' = contents q @ [v] \<and> q_capacity q' = q_capacity q \<and> c = q_count q
     \<and> q_count q' = c + 1 \<and> q_put q' = Suc (q_put q) \<and> q_take q' = q_take q \<and> ends q'"
  proof -
    have "q_put (lock_put q) = Suc (q_put q)" "q_take (lock_put q) = q_take q" by (simp_all add: lock_put_def)
    with insert_locked_effect [OF _ _ call] inv room show ?thesis by simp
  qed
  then show "moves q (after_insert c q') (contents q @ [v])" "c = q_count q"
    by (simp_all add: moves_def holding_def [of q])
qed

lemma moves_refl: "lbq_inv q \<Longrightarrow> moves q q (contents q)"
  by (simp add: moves_def)

lemma offer_effect:
  assumes inv: "lbq_inv q"
  shows "\<exists>q'. offer False v q = (Ret (q_count q < q_capacity q), q')
     \<and> moves q q' (if q_count q < q_capacity q then contents q @ [v] else contents q)"
proof (cases "q_count q < q_capacity q")
  case True
  obtain c q' where c: "insert_locked v (lock_put q) = (c, q')" by (cases "insert_locked v (lock_put q)")
  note I = insert_effect [OF inv True c]
  have "0 \<le> q_count q" using inv unfolding lbq_inv_def by blast
  then show ?thesis using True c I by (simp add: offer_def offer_locked_def)
next
  case False
  then have "q_count q = q_capacity q" using inv by (simp add: lbq_inv_def)
  with moves_refl [OF inv] show ?thesis by (simp add: offer_def)
qed

lemma put_effect:
  assumes inv: "lbq_inv q"
  shows "if q_count q < q_capacity q then \<exists>q'. lbq_put False v q = (Some (Ret ()), q') \<and> moves q q' (contents q @ [v])
     else lbq_put False v q = (None, q)"
proof (cases "q_count q < q_capacity q")
  case True
  obtain c q' where c: "insert_locked v (lock_put q) = (c, q')" by (cases "insert_locked v (lock_put q)")
  with True insert_effect [OF inv True c] show ?thesis by (simp add: lbq_put_def)
next
  case False
  then have "q_count q = q_capacity q" using inv by (simp add: lbq_inv_def)
  then show ?thesis by (simp add: lbq_put_def)
qed

lemma take_head_effect:
  assumes inv: "lbq_inv q" and some: "0 < q_count q"
  shows "\<exists>q'. take_head d (lock_take q) = (Ret (hd (contents q)), q') \<and> moves q q' (tl (contents q))"
proof -
  have "lbq_inv (lock_take q)" "0 < q_count (lock_take q)" using assms by simp_all
  then obtain q' where "remove_locked d (lock_take q) = (Ret (q_count (lock_take q), hd (contents (lock_take q))), q')"
    "lbq_inv q'" "contents q' = tl (contents (lock_take q))" "q_capacity q' = q_capacity (lock_take q)"
    "q_put q' = q_put (lock_take q)" "q_take q' = q_take (lock_take q)" "ends q' = ends (lock_take q)"
    by (rule remove_locked_effect)
  moreover have "q_put (lock_take q) = q_put q" "q_take (lock_take q) = Suc (q_take q)"
    by (simp_all add: lock_take_def)
  ultimately show ?thesis by (simp add: take_head_def moves_def holding_def [of q])
qed

lemma poll_effect:
  assumes inv: "lbq_inv q"
  shows "\<exists>q'. poll d result q = (Ret (contents q \<noteq> [], if contents q = [] then result else hd (contents q)), q')
     \<and> moves q q' (tl (contents q))"
proof (cases "q_count q = 0")
  case True
  then have "contents q = []" using length_contents [OF inv] by simp
  with True moves_refl [OF inv] show ?thesis by (simp add: poll_def)
next
  case False
  have "0 \<le> q_count q" using inv unfolding lbq_inv_def by blast
  with False have some: "0 < q_count q" by simp
  then have ne: "contents q \<noteq> []" using length_contents [OF inv] by auto
  obtain q' where "take_head d (lock_take q) = (Ret (hd (contents q)), q')" "moves q q' (tl (contents q))"
    using take_head_effect [OF inv some] by blast
  with False some ne show ?thesis by (simp add: poll_def poll_locked_def)
qed

lemma take_effect:
  assumes inv: "lbq_inv q"
  shows "if contents q = [] then lbq_take d False q = (None, q)
     else \<exists>q'. lbq_take d False q = (Some (Ret (hd (contents q))), q') \<and> moves q q' (tl (contents q))"
proof (cases "q_count q = 0")
  case True
  then have "contents q = []" using length_contents [OF inv] by simp
  with True show ?thesis by (simp add: lbq_take_def)
next
  case False
  have "0 \<le> q_count q" using inv unfolding lbq_inv_def by blast
  with False have some: "0 < q_count q" by simp
  then have ne: "contents q \<noteq> []" using length_contents [OF inv] by auto
  with False take_head_effect [OF inv some, of d] show ?thesis by (auto simp: lbq_take_def)
qed

lemma peek_effect:
  assumes inv: "lbq_inv q"
  shows "\<exists>q'. peek result q = (Ret (contents q \<noteq> [], if contents q = [] then result else hd (contents q)), q')
     \<and> moves q q' (contents q)"
proof (cases "q_count q = 0")
  case True
  then have "contents q = []" using length_contents [OF inv] by simp
  with True moves_refl [OF inv] show ?thesis by (simp add: peek_def)
next
  case False
  have "0 \<le> q_count q" using inv unfolding lbq_inv_def by blast
  with False obtain n where n: "nat (q_count q) = Suc n" by (cases "nat (q_count q)") auto
  let ?p = "nd_next (q_heap q (q_head q))"
  have nodes: "q_nodes q = ?p # nodes n (q_heap q) ?p" unfolding q_nodes_def n by simp
  have nn: "q_head q \<noteq> null" "?p \<noteq> null" using inv unfolding lbq_inv_def nodes by (auto simp: null_def)
  have "contents q \<noteq> []" "hd (contents q) = nd_value (q_heap q ?p)" by (simp_all add: contents_def nodes)
  with False nn inv show ?thesis
    by (simp add: peek_def Let_def moves_def) (simp add: lock_take_def unlock_take_def holding_def)
qed

lemma clear_effect:
  assumes inv: "lbq_inv q"
  shows "lbq_inv (lbq_clear q) \<and> contents (lbq_clear q) = [] \<and> q_capacity (lbq_clear q) = q_capacity q
     \<and> holding (lbq_clear q) = holding q \<and> q_signals (lbq_clear q) = q_signals q"
proof -
  have cap: "0 < q_capacity q" "q_head q \<in> {1..<q_new q}" using inv unfolding lbq_inv_def by auto
  define q1 where "q1 = (purgeList (lock_take (lock_put q)))\<lparr>q_tail := q_head q, q_count := 0\<rparr>"
  have eq: "lbq_clear q = unlock_take (unlock_put q1)"
    using cap(1) by (simp add: lbq_clear_def q1_def purgeList_def lock_take_def lock_put_def Let_def)
  have f: "q_count q1 = 0" "q_head q1 = q_head q" "q_tail q1 = q_head q" "q_new q1 = q_new q"
    "q_capacity q1 = q_capacity q" "q_put q1 = Suc (q_put q)" "q_take q1 = Suc (q_take q)" "q_signals q1 = q_signals q"
    by (simp_all add: q1_def purgeList_def lock_take_def lock_put_def)
  have "q_nodes q1 = []" by (simp add: q_nodes_def f)
  then have "lbq_inv q1" "contents q1 = []" using cap f by (auto simp: lbq_inv_def contents_def)
  then show ?thesis unfolding eq using f
    by simp (simp add: unlock_take_def unlock_put_def holding_def)
qed

section \<open>Walks along the chain\<close>

lemma nodes_append: "nodes (i + j) h a = nodes i h a @ nodes j h (last (a # nodes i h a))"
proof (induction i arbitrary: a)
  case (Suc i)
  have "last (a # nodes (Suc i) h a) = last (nd_next (h a) # nodes i h (nd_next (h a)))" by simp
  with Suc.IH [of "nd_next (h a)"] show ?case by (simp del: last.simps)
qed simp

lemma nodes_split:
  assumes "nodes k h a = xs @ p # ys"
  shows "nodes (length xs) h a = xs" and "nd_next (h (last (a # xs))) = p" and "nodes (length ys) h p = ys"
    and "k = Suc (length xs + length ys)"
proof -
  show k: "k = Suc (length xs + length ys)" using arg_cong [OF assms, of length] by simp
  have e: "nodes (length xs) h a @ nodes (Suc (length ys)) h (last (a # nodes (length xs) h a)) = xs @ p # ys"
    using assms unfolding k add_Suc_right [symmetric] nodes_append .
  then show xs: "nodes (length xs) h a = xs" by (simp add: append_eq_append_conv)
  from e have "nodes (Suc (length ys)) h (last (a # xs)) = p # ys" unfolding xs by (simp only: same_append_eq)
  then show "nd_next (h (last (a # xs))) = p" "nodes (length ys) h p = ys"
    unfolding nodes.simps by (metis list.inject)+
qed

lemma find_node_none:
  assumes "nd_next (h (last (a # nodes k h a))) = null"
    and "\<And>p. p \<in> set (nodes k h a) \<Longrightarrow> \<not> P (h p) p"
  shows "find_node n P h a = None"
  using assms
proof (induction n arbitrary: a k)
  case (Suc n)
  show ?case
  proof (cases k)
    case 0
    with Suc.prems show ?thesis by simp
  next
    case (Suc j)
    have "last (a # nodes k h a) = last (nd_next (h a) # nodes j h (nd_next (h a)))" unfolding Suc by simp
    then have "find_node n P h (nd_next (h a)) = None"
      using Suc.prems \<open>k = Suc j\<close> by (intro Suc.IH [where k = j]) (simp_all del: last.simps)
    then show ?thesis using Suc.prems(2) [of "nd_next (h a)"] Suc by (simp add: Let_def)
  qed
qed simp

lemma find_node_some:
  assumes "nodes k h a = xs @ p # ys" and "null \<notin> set (xs @ [p])" and "\<And>x. x \<in> set xs \<Longrightarrow> \<not> P (h x) x"
    and "P (h p) p" and "length xs < n"
  shows "find_node n P h a = Some (p, last (a # xs))"
  using assms
proof (induction xs arbitrary: a n k)
  case Nil
  then show ?case using nodes_split(2) [OF Nil.prems(1)] by (cases n) auto
next
  case (Cons x xs)
  obtain m where n: "n = Suc m" using Cons.prems(5) by (cases n) auto
  obtain j where k: "k = Suc j" using Cons.prems(1) by (cases k) auto
  have x: "nd_next (h a) = x" and rest: "nodes j h x = xs @ p # ys" using Cons.prems(1) unfolding k by auto
  have "find_node m P h x = Some (p, last (x # xs))"
    using Cons.prems n by (intro Cons.IH [OF rest]) auto
  then show ?case using Cons.prems(2,3) x n by (simp add: Let_def)
qed

lemma values_from_nodes:
  assumes "nd_next (h (last (a # nodes k h a))) = null" and "null \<notin> set (nodes k h a)" and "k < n"
  shows "values_from n h (nd_next (h a)) = map (\<lambda>p. nd_value (h p)) (nodes k h a)"
  using assms
proof (induction k arbitrary: a n)
  case 0
  then show ?case by (cases n) auto
next
  case (Suc k)
  obtain m where n: "n = Suc m" using Suc.prems(3) by (cases n) auto
  have "last (a # nodes (Suc k) h a) = last (nd_next (h a) # nodes k h (nd_next (h a)))" by simp
  then have "values_from m h (nd_next (h (nd_next (h a)))) = map (\<lambda>p. nd_value (h p)) (nodes k h (nd_next (h a)))"
    using Suc.prems n by (intro Suc.IH) (simp_all del: last.simps)
  then show ?case using Suc.prems(2) n by simp
qed

lemma inv_bound:
  assumes "lbq_inv q"
  shows "length (q_nodes q) < q_new q" and "null \<notin> set (q_nodes q)" and "q_head q \<noteq> null"
proof -
  have d: "distinct (q_head q # q_nodes q)" and s: "set (q_head q # q_nodes q) \<subseteq> {1..<q_new q}"
    using assms unfolding lbq_inv_def by blast+
  have "length (q_head q # q_nodes q) = card (set (q_head q # q_nodes q))" using distinct_card [OF d] by simp
  also have "\<dots> \<le> card {1..<q_new q}" by (rule card_mono) (use s in auto)
  finally show "length (q_nodes q) < q_new q" by (cases "q_new q") auto
  show "null \<notin> set (q_nodes q)" "q_head q \<noteq> null" using s by (auto simp: null_def)
qed

lemma toArray_contents:
  assumes "lbq_inv q" and "ends q"
  shows "toArray q = contents q"
proof -
  have "nd_next (q_heap q (last (q_head q # q_nodes q))) = null"
    using assms unfolding lbq_inv_def ends_def by metis
  with values_from_nodes [of "q_heap q" "q_head q" "nat (q_count q)" "q_new q"] inv_bound [OF assms(1)]
  show ?thesis by (simp add: toArray_def contents_def q_nodes_def del: last.simps)
qed

text \<open>Cutting a node out of the chain.\<close>

lemma unlink_nodes:
  fixes dv :: 'a
  assumes n: "nodes k h a = xs @ p # ys" and d: "distinct (a # xs @ p # ys)"
  defines "r \<equiv> last (a # xs)"
  defines "h1 \<equiv> h(p := node_unlink dv (h p))"
  defines "h' \<equiv> h1(r := (h1 r)\<lparr>nd_next := nd_next (h1 p)\<rparr>)"
  shows "nodes (k - 1) h' a = xs @ ys"
    and "x \<in> set (xs @ ys) \<Longrightarrow> nd_value (h' x) = nd_value (h x) \<and> nd_unlinked (h' x) = nd_unlinked (h x)
           \<and> nd_dequeued (h' x) = nd_dequeued (h x)"
    and "nd_next (h' r) = nd_next (h p)" and "x \<noteq> r \<Longrightarrow> nd_next (h' x) = nd_next (h x)"
proof -
  note S = nodes_split [OF n]
  have r: "r \<in> set (a # xs)" unfolding r_def by (rule last_in_set) simp
  have "r \<noteq> p" using r d by auto
  show next_r: "nd_next (h' r) = nd_next (h p)" by (simp add: h'_def h1_def node_unlink_def)
  show next_x: "x \<noteq> r \<Longrightarrow> nd_next (h' x) = nd_next (h x)" for x by (simp add: h'_def h1_def node_unlink_def)
  show "x \<in> set (xs @ ys) \<Longrightarrow> nd_value (h' x) = nd_value (h x) \<and> nd_unlinked (h' x) = nd_unlinked (h x)
           \<and> nd_dequeued (h' x) = nd_dequeued (h x)"
    using d by (auto simp: h'_def h1_def)
  have "r \<notin> set (butlast (a # xs))"
    unfolding r_def by (rule last_notin_butlast) (use d in auto)
  then have front: "nodes (length xs) h' a = xs"
    using nodes_cong [of a "length xs" h h'] S(1) next_x by metis
  have rear: "nodes (length ys) h' r = ys"
  proof (cases ys)
    case Nil
    then show ?thesis by simp
  next
    case (Cons y zs)
    then have y: "nd_next (h p) = y" and zs: "nodes (length zs) h y = zs" using S(3) by auto
    have "r \<notin> set (butlast (y # zs))" using r d Cons in_set_butlastD by fastforce
    then have "nodes (length zs) h' y = zs" using nodes_cong [of y "length zs" h h'] zs next_x by metis
    then show ?thesis using Cons next_r y by simp
  qed
  have "k - 1 = length xs + length ys" using S(4) by simp
  then show "nodes (k - 1) h' a = xs @ ys"
    using nodes_append [of "length xs" "length ys" h' a] front rear unfolding r_def by simp
qed

lemma q_unlink_effect:
  assumes inv: "lbq_inv q" and ends: "ends q" and split: "q_nodes q = xs @ p # ys"
  shows "lbq_inv (q_unlink d p (last (q_head q # xs)) q)"
    and "contents (q_unlink d p (last (q_head q # xs)) q) = map (\<lambda>x. nd_value (q_heap q x)) (xs @ ys)"
    and "q_capacity (q_unlink d p (last (q_head q # xs)) q) = q_capacity q"
    and "holding (q_unlink d p (last (q_head q # xs)) q) = holding q"
    and "ends (q_unlink d p (last (q_head q # xs)) q)"
    and "q_nodes (q_unlink d p (last (q_head q # xs)) q) = xs @ ys"
proof -
  let ?r = "last (q_head q # xs)" and ?h = "q_heap q" and ?k = "nat (q_count q)"
  let ?h1 = "?h(p := node_unlink d (?h p))"
  let ?h' = "?h1(?r := (?h1 ?r)\<lparr>nd_next := nd_next (?h1 p)\<rparr>)"
  define q1 where "q1 = q\<lparr>q_heap := ?h', q_tail := (if q_tail q = p then ?r else q_tail q), q_count := q_count q - 1\<rparr>"
  have eq: "q_unlink d p ?r q = (if q_count q = q_capacity q then signalNotFull q1 else q1)"
    by (simp add: q_unlink_def q1_def Let_def)
  have I: "distinct (q_head q # xs @ p # ys)" "set (q_head q # xs @ p # ys) \<subseteq> {1..<q_new q}"
    "q_tail q = last (q_head q # xs @ p # ys)" "0 \<le> q_count q" "q_count q \<le> q_capacity q" "0 < q_capacity q"
    and flags: "\<And>x. x \<in> set (xs @ p # ys) \<Longrightarrow> \<not> nd_unlinked (?h x) \<and> \<not> nd_dequeued (?h x)"
    using inv unfolding lbq_inv_def split by auto
  have n: "nodes ?k ?h (q_head q) = xs @ p # ys" using split by (simp add: q_nodes_def)
  note U = unlink_nodes [OF n I(1), where dv = d]
  have k1: "nat (q_count q - 1) = ?k - 1" by simp
  have nodes1: "q_nodes q1 = xs @ ys" unfolding q_nodes_def q1_def using U(1) by (simp add: k1 del: last.simps)
  have pos: "1 \<le> q_count q" using count_nodes [OF inv] split by simp
  have tail1: "q_tail q1 = last (q_head q # xs @ ys)"
  proof (cases ys)
    case Nil
    then show ?thesis using I(3) by (simp add: q1_def)
  next
    case (Cons y zs)
    then have "q_tail q = last (y # zs)" using I(3) by simp
    moreover have "last (y # zs) \<in> set (y # zs)" by (rule last_in_set) simp
    ultimately have "q_tail q \<noteq> p" using I(1) Cons by auto
    then show ?thesis using Cons \<open>q_tail q = last (y # zs)\<close> by (simp add: q1_def)
  qed
  have heap1: "q_heap q1 = ?h'" by (simp add: q1_def)
  have "lbq_inv q1"
    unfolding lbq_inv_def nodes1 tail1
  proof (intro conjI ballI)
    fix x assume x: "x \<in> set (xs @ ys)"
    then have "x \<in> set (xs @ p # ys)" by auto
    then show "\<not> nd_unlinked (q_heap q1 x)" "\<not> nd_dequeued (q_heap q1 x)"
      unfolding heap1 using U(2) [OF x] flags by metis+
  qed (use I pos in \<open>auto simp: q1_def\<close>)
  moreover have "contents q1 = map (\<lambda>x. nd_value (?h x)) (xs @ ys)"
    unfolding contents_def nodes1 heap1 by (rule map_cong [OF refl]) (use U(2) in metis)
  moreover have "ends q1"
  proof (cases ys)
    case Nil
    then have "q_tail q = p" using I(3) by simp
    then show ?thesis using ends U(3) unfolding ends_def heap1 by (simp add: q1_def del: last.simps)
  next
    case (Cons y zs)
    have l: "q_tail q1 = last ys" "q_tail q = last ys" using tail1 I(3) Cons by simp_all
    have "last ys \<in> set ys" "?r \<in> set (q_head q # xs)" using Cons by (metis last_in_set list.distinct(1))+
    then have "q_tail q1 \<noteq> ?r" using I(1) unfolding l(1) by auto
    then show ?thesis using ends U(4) [of "q_tail q1"] l unfolding ends_def heap1 by metis
  qed
  moreover have "q_capacity q1 = q_capacity q" "holding q1 = holding q" by (simp_all add: q1_def holding_def)
  ultimately show "lbq_inv (q_unlink d p ?r q)" "contents (q_unlink d p ?r q) = map (\<lambda>x. nd_value (?h x)) (xs @ ys)"
    "q_capacity (q_unlink d p ?r q) = q_capacity q" "holding (q_unlink d p ?r q) = holding q" "ends (q_unlink d p ?r q)"
    "q_nodes (q_unlink d p ?r q) = xs @ ys"
    unfolding eq using nodes1 by (simp_all split: if_split)
qed

lemma unlock_both: "holding x = (Suc a, Suc b) \<Longrightarrow> holding (unlock_take (unlock_put x)) = (a, b)"
  by (simp add: holding_def unlock_take_def unlock_put_def)

lemma remove_effect:
  assumes inv: "lbq_inv q" and ends: "ends q"
  shows "fst (lbq_remove d v q) = (v \<in> set (contents q)) \<and> moves q (snd (lbq_remove d v q)) (remove1 v (contents q))"
proof -
  define ql where "ql = lock_take (lock_put q)"
  have ql: "lbq_inv ql" "ends ql" "contents ql = contents q" "q_capacity ql = q_capacity q"
    "holding ql = (Suc (q_put q), Suc (q_take q))" "q_nodes ql = q_nodes q"
    using inv ends by (simp_all add: ql_def) (simp add: holding_def lock_take_def lock_put_def)
  let ?P = "\<lambda>n p. nd_value n = v"
  let ?f = "find_node (q_new ql) ?P (q_heap ql) (q_head ql)"
  have call: "lbq_remove d v q = (case ?f of None \<Rightarrow> (False, unlock_take (unlock_put ql))
      | Some (p, r) \<Rightarrow> (True, unlock_take (unlock_put (q_unlink d p r ql))))"
    unfolding lbq_remove_def ql_def Let_def ..
  have cont: "contents ql = map (\<lambda>p. nd_value (q_heap ql p)) (q_nodes ql)" by (simp add: contents_def)
  show ?thesis
  proof (cases "v \<in> set (contents ql)")
    case False
    have "nd_next (q_heap ql (last (q_head ql # q_nodes ql))) = null"
      using ql(1,2) unfolding lbq_inv_def ends_def by metis
    then have "?f = None"
      using False unfolding cont by (intro find_node_none [where k = "nat (q_count ql)"]) (auto simp: q_nodes_def)
    with False ql inv show ?thesis unfolding call
      by (simp add: moves_def remove1_idem) (simp add: holding_def unlock_put_def unlock_take_def)
  next
    case True
    then obtain p where "p \<in> set (q_nodes ql) \<and> nd_value (q_heap ql p) = v" unfolding cont by auto
    then obtain xs p ys where s: "q_nodes ql = xs @ p # ys" "nd_value (q_heap ql p) = v"
      "\<forall>x \<in> set xs. nd_value (q_heap ql x) \<noteq> v"
      using split_list_first_prop [of "q_nodes ql" "\<lambda>x. nd_value (q_heap ql x) = v"] by blast
    have f: "?f = Some (p, last (q_head ql # xs))"
    proof (rule find_node_some)
      show "nodes (nat (q_count ql)) (q_heap ql) (q_head ql) = xs @ p # ys" using s(1) by (simp add: q_nodes_def)
      show "null \<notin> set (xs @ [p])" using inv_bound(2) [OF ql(1)] s(1) by auto
      show "length xs < q_new ql" using inv_bound(1) [OF ql(1)] s(1) by simp
    qed (use s in auto)
    define q2 where "q2 = q_unlink d p (last (q_head ql # xs)) ql"
    have r: "lbq_remove d v q = (True, unlock_take (unlock_put q2))"
      unfolding call f q2_def by (simp del: last.simps)
    note U = q_unlink_effect [OF ql(1,2) s(1), of d, folded q2_def]
    have hold: "holding (unlock_take (unlock_put q2)) = holding q"
      using unlock_both [of q2 "q_put q" "q_take q"] U(4) ql(5) by (simp add: holding_def [of q])
    have "remove1 v (contents ql) = map (\<lambda>x. nd_value (q_heap ql x)) (xs @ ys)"
      unfolding cont s(1) using s(2,3) by (auto simp: remove1_append)
    with U hold ql True inv show ?thesis unfolding r by (simp add: moves_def)
  qed
qed

text \<open>Draining the first \<open>n\<close> elements into a sink that takes everything.\<close>

lemma drain_all:
  assumes "distinct (a # nodes n h a)" and "null \<notin> set (nodes n h a)"
  shows "drain d (\<lambda>_. None) n i a h =
     (None, i + n, last (a # nodes n h a),
      (\<lambda>x. if x \<in> set (nodes n h a) then (h x)\<lparr>nd_value := d, nd_dequeued := True\<rparr> else h x),
      map (\<lambda>p. nd_value (h p)) (nodes n h a))"
  using assms
proof (induction n arbitrary: i a h)
  case (Suc n)
  let ?p = "nd_next (h a)" and ?m = "(h (nd_next (h a)))\<lparr>nd_value := d, nd_dequeued := True\<rparr>"
  let ?h1 = "h(?p := ?m)"
  have same: "nodes n ?h1 ?p = nodes n h ?p" by (rule nodes_cong) simp
  have IH: "drain d (\<lambda>_. None) n (Suc i) ?p ?h1 =
     (None, Suc i + n, last (?p # nodes n h ?p),
      (\<lambda>x. if x \<in> set (nodes n h ?p) then (?h1 x)\<lparr>nd_value := d, nd_dequeued := True\<rparr> else ?h1 x),
      map (\<lambda>p. nd_value (?h1 p)) (nodes n h ?p))"
    by (rule Suc.IH [of ?p ?h1 "Suc i", unfolded same]) (use Suc.prems in simp_all)
  have "(\<lambda>x. if x \<in> set (nodes n h ?p) then (?h1 x)\<lparr>nd_value := d, nd_dequeued := True\<rparr> else ?h1 x)
      = (\<lambda>x. if x \<in> set (nodes (Suc n) h a) then (h x)\<lparr>nd_value := d, nd_dequeued := True\<rparr> else h x)"
    by (auto simp: fun_eq_iff)
  moreover have "map (\<lambda>p. nd_value (?h1 p)) (nodes n h ?p) = map (\<lambda>p. nd_value (h p)) (nodes n h ?p)"
    using Suc.prems(1) by (intro map_cong) auto
  ultimately show ?case using IH Suc.prems(2) by (simp add: getAndDequeue_def Let_def)
qed simp

lemma nodes_take: "k \<le> n \<Longrightarrow> nodes k h a = take k (nodes n h a)"
  using nodes_append [of k "n - k" h a] by simp

lemma drain_chain:
  fixes d :: 'a
  assumes inv: "lbq_inv q" and k: "0 < k" "k \<le> nat (q_count q)"
  defines "ps \<equiv> take k (q_nodes q)"
  defines "q' \<equiv> q\<lparr>q_heap := (\<lambda>x. if x \<in> set ps then (q_heap q x)\<lparr>nd_value := d, nd_dequeued := True\<rparr> else q_heap q x),
     q_head := last ps, q_count := q_count q - int k\<rparr>"
  shows "lbq_inv q'" and "contents q' = drop k (contents q)" and "ends q \<Longrightarrow> ends q'"
proof -
  let ?h = "q_heap q" and ?n = "nat (q_count q)"
  let ?h' = "\<lambda>x. if x \<in> set ps then (?h x)\<lparr>nd_value := d, nd_dequeued := True\<rparr> else ?h x"
  define qs where "qs = drop k (q_nodes q)"
  have split: "q_nodes q = ps @ qs" by (simp add: ps_def qs_def)
  have len: "length ps = k" "ps \<noteq> []" using k by (auto simp: ps_def q_nodes_def)
  have I: "distinct (q_head q # q_nodes q)" "set (q_head q # q_nodes q) \<subseteq> {1..<q_new q}"
    "q_tail q = last (q_head q # q_nodes q)" "0 \<le> q_count q" "q_count q \<le> q_capacity q" "0 < q_capacity q"
    and flags: "\<And>x. x \<in> set (q_nodes q) \<Longrightarrow> \<not> nd_unlinked (?h x) \<and> \<not> nd_dequeued (?h x)"
    using inv unfolding lbq_inv_def by auto
  have next': "nd_next (?h' x) = nd_next (?h x)" for x by simp
  have cnt: "nat (q_count q - int k) = ?n - k" using k by simp
  have "nodes (?n - k) ?h (last ps) = qs"
  proof -
    have a: "nodes (k + (?n - k)) ?h (q_head q) = nodes k ?h (q_head q) @ nodes (?n - k) ?h (last (q_head q # nodes k ?h (q_head q)))"
      by (rule nodes_append)
    have "nodes k ?h (q_head q) = ps" using nodes_take [OF k(2)] by (simp add: ps_def q_nodes_def)
    with a k len show ?thesis by (simp add: q_nodes_def qs_def)
  qed
  then have nodes': "q_nodes q' = qs"
    unfolding q_nodes_def q'_def using nodes_cong [of "last ps" "?n - k" ?h ?h'] next' cnt by simp
  have out: "x \<in> set qs \<Longrightarrow> x \<notin> set ps" for x using I(1) unfolding split by auto
  show "contents q' = drop k (contents q)"
    unfolding contents_def nodes' drop_map qs_def [symmetric] by (rule map_cong [OF refl]) (use out in \<open>simp add: q'_def\<close>)
  have tail: "last (q_head q # q_nodes q) = last (last ps # qs)"
    unfolding split using len(2) by (cases qs) simp_all
  have lastin: "last ps \<in> set ps" using len(2) by simp
  show "lbq_inv q'"
    unfolding lbq_inv_def nodes'
  proof (intro conjI ballI)
    have "distinct (ps @ qs)" using I(1) split by (metis distinct.simps(2))
    then show "distinct (q_head q' # qs)" using lastin by (auto simp: q'_def)
    have "set (q_head q' # qs) \<subseteq> set (q_nodes q)"
      using lastin unfolding split by (auto simp: q'_def)
    then show "set (q_head q' # qs) \<subseteq> {1..<q_new q'}" using I(2) by (auto simp: q'_def)
    show "q_tail q' = last (q_head q' # qs)" using I(3) tail by (simp add: q'_def del: last.simps)
    fix x assume x: "x \<in> set qs"
    then show "\<not> nd_unlinked (q_heap q' x)" "\<not> nd_dequeued (q_heap q' x)"
      using out [OF x] flags [of x] split by (simp_all add: q'_def)
  qed (use I k in \<open>auto simp: q'_def\<close>)
  show "ends q \<Longrightarrow> ends q'" by (simp add: ends_def q'_def)
qed

lemma drainTo_effect:
  assumes inv: "lbq_inv q" and m: "0 \<le> maxElements"
  defines "k \<equiv> nat (min maxElements (q_count q))"
  shows "\<exists>q'. drainTo d (\<lambda>_. None) maxElements q = (Ret (int k), take k (contents q), q')
     \<and> moves q q' (drop k (contents q))"
proof -
  have c: "0 \<le> q_count q" using inv unfolding lbq_inv_def by blast
  have k: "int k = min maxElements (q_count q)" "k \<le> nat (q_count q)" using m c by (auto simp: k_def)
  define ql where "ql = lock_take q"
  have ql: "lbq_inv ql" "contents ql = contents q" "q_count ql = q_count q" "ends ql = ends q" "q_capacity ql = q_capacity q"
    "q_nodes ql = q_nodes q" "q_take ql = Suc (q_take q)" "q_put ql = q_put q" "q_head ql = q_head q" "q_heap ql = q_heap q"
    using inv by (simp_all add: ql_def) (simp_all add: lock_take_def)
  let ?ps = "take k (q_nodes ql)"
  let ?h = "\<lambda>x. if x \<in> set ?ps then (q_heap ql x)\<lparr>nd_value := d, nd_dequeued := True\<rparr> else q_heap ql x"
  have nodes: "nodes k (q_heap ql) (q_head ql) = ?ps" using nodes_take [OF k(2)] ql by (simp add: q_nodes_def)
  have d: "distinct (q_head ql # ?ps)" "null \<notin> set ?ps"
    using ql(1) inv_bound(2) [OF ql(1)] set_take_subset [of k "q_nodes ql"] unfolding lbq_inv_def by auto
  have D: "drain d (\<lambda>_. None) k 0 (q_head ql) (q_heap ql) = (None, k, last (q_head ql # ?ps), ?h, take k (contents ql))"
    using drain_all [of "q_head ql" k "q_heap ql" d 0] d unfolding nodes by (simp add: contents_def take_map)
  have call: "drainTo d (\<lambda>_. None) maxElements q =
     (case drain d (\<lambda>_. None) k 0 (q_head ql) (q_heap ql) of
        (x, i, node, h, vs) \<Rightarrow>
          (let q1 = ql\<lparr>q_heap := h\<rparr>;
               q2 = (if i > 0 then q1\<lparr>q_head := node, q_count := q_count q1 - int i\<rparr> else q1);
               full = (i > 0 \<and> q_count q1 = q_capacity q1);
               q3 = unlock_take q2;
               q4 = (if full then signalNotFull q3 else q3)
           in (case x of None \<Rightarrow> Ret (int k) | Some e \<Rightarrow> Throw e, vs, q4)))"
    unfolding drainTo_def Let_def ql_def [symmetric] ql(3) k(1) [symmetric] by simp
  show ?thesis
  proof (cases "k = 0")
    case True
    then have "?h = q_heap ql" by simp
    then have "drainTo d (\<lambda>_. None) maxElements q = (Ret (int k), [], unlock_take ql)"
      unfolding call D using True by simp
    with True inv ql show ?thesis by (simp add: moves_def) (simp add: holding_def)
  next
    case False
    let ?q' = "ql\<lparr>q_heap := ?h, q_head := last ?ps, q_count := q_count ql - int k\<rparr>"
    have ne: "?ps \<noteq> []" using False k(2) ql(3) count_nodes [OF ql(1)] by auto
    have "k \<le> nat (q_count ql)" using k(2) ql(3) by simp
    note C = drain_chain [OF ql(1) _ this, where d = d]
    have "drainTo d (\<lambda>_. None) maxElements q = (Ret (int k), take k (contents q),
        if q_count ql = q_capacity ql then signalNotFull (unlock_take ?q') else unlock_take ?q')"
      unfolding call D using False ne ql(2) by (simp add: Let_def)
    moreover have "lbq_inv ?q'" "contents ?q' = drop k (contents q)" "ends q \<Longrightarrow> ends ?q'"
      using C False ql by simp_all
    ultimately show ?thesis using ql by (auto simp: moves_def) (simp_all add: holding_def)
  qed
qed

text \<open>Iterating over a queue that does not change meanwhile.\<close>

fun iterate :: "nat \<Rightarrow> 'a \<Rightarrow> 'a lbq \<Rightarrow> 'a qiter \<Rightarrow> 'a list" where
  "iterate 0 d q it = []"
| "iterate (Suc n) d q it =
     (if hasNext it then
        (case iter_next d q it of
           (Ret v, it') \<Rightarrow> v # iterate n d q it'
         | _ \<Rightarrow> [])
      else [])"

lemma iterate_nodes:
  assumes "nd_next (q_heap q (last (a # nodes k (q_heap q) a))) = null" and "null \<notin> set (nodes k (q_heap q) a)"
    and "\<And>p. p \<in> set (nodes k (q_heap q) a) \<Longrightarrow> \<not> nd_unlinked (q_heap q p) \<and> \<not> nd_dequeued (q_heap q p)"
    and "k < n" and "it_current it = nd_next (q_heap q a)"
    and "it_current it \<noteq> null \<Longrightarrow> it_element it = nd_value (q_heap q (it_current it))"
  shows "iterate n d q it = map (\<lambda>p. nd_value (q_heap q p)) (nodes k (q_heap q) a)"
  using assms
proof (induction k arbitrary: a n it)
  case 0
  then show ?case by (cases n) (auto simp: hasNext_def)
next
  case (Suc k)
  let ?h = "q_heap q"
  let ?p = "nd_next (?h a)"
  obtain m where n: "n = Suc m" using Suc.prems(4) by (cases n) auto
  have p: "?p \<noteq> null" "\<not> nd_unlinked (?h ?p)" "\<not> nd_dequeued (?h ?p)" using Suc.prems(2,3) by auto
  have "nd_next (?h ?p) = null \<or> \<not> nd_unlinked (?h (nd_next (?h ?p)))"
  proof (cases k)
    case 0
    then show ?thesis using Suc.prems(1) by simp
  next
    case (Suc j)
    then show ?thesis using Suc.prems(3) [of "nd_next (?h ?p)"] by simp
  qed
  then have nn: "nextNode q ?p = nd_next (?h ?p)"
    using p by (cases "q_new q") (auto simp: nextNode_def)
  obtain it' where it': "iter_next d q it = (Ret (nd_value (?h ?p)), it')" "it_current it' = nd_next (?h ?p)"
    "it_current it' \<noteq> null \<Longrightarrow> it_element it' = nd_value (?h (it_current it'))"
    using Suc.prems(5,6) p nn by (simp add: iter_next_def Let_def)
  have "last (a # nodes (Suc k) ?h a) = last (?p # nodes k ?h ?p)" by simp
  then have "iterate m d q it' = map (\<lambda>p. nd_value (?h p)) (nodes k ?h ?p)"
    using Suc.prems it' n by (intro Suc.IH) (simp_all del: last.simps)
  then show ?case using n it' p Suc.prems(5) by (simp add: hasNext_def)
qed

lemma iterate_contents:
  assumes "lbq_inv q" and "ends q"
  shows "iterate (q_new q) d q (iterator d q) = contents q"
proof -
  have "nd_next (q_heap q (last (q_head q # q_nodes q))) = null"
    using assms unfolding lbq_inv_def ends_def by metis
  moreover have "\<And>p. p \<in> set (q_nodes q) \<Longrightarrow> \<not> nd_unlinked (q_heap q p) \<and> \<not> nd_dequeued (q_heap q p)"
    using assms(1) unfolding lbq_inv_def by blast
  moreover have "nat (q_count q) < q_new q" using inv_bound(1) [OF assms(1)] by (simp add: q_nodes_def)
  moreover have "it_current (iterator d q) = nd_next (q_heap q (q_head q))"
    "it_current (iterator d q) \<noteq> null \<Longrightarrow> it_element (iterator d q) = nd_value (q_heap q (it_current (iterator d q)))"
    by (simp_all add: iterator_def Let_def)
  ultimately show ?thesis
    unfolding contents_def q_nodes_def
    by (intro iterate_nodes) (use inv_bound(2) [OF assms(1)] in \<open>simp_all add: q_nodes_def del: last.simps\<close>)
qed

section \<open>Copies of a queue\<close>

lemma const_iterator_moves: "const_iterator = iterator" "const_iter_next = iter_next"
  by (auto simp: fun_eq_iff const_iterator_def iterator_def const_iter_next_def iter_next_def nextNode_def Let_def)

text \<open>The copy constructor walks the source with its constant iterator; the destructor cuts the chain apart.\<close>

fun const_iterate :: "nat \<Rightarrow> 'a \<Rightarrow> 'a lbq \<Rightarrow> 'a qiter \<Rightarrow> 'a list" where
  "const_iterate 0 d q it = []"
| "const_iterate (Suc n) d q it =
     (if hasNext it then
        (case const_iter_next d q it of
           (Ret v, it') \<Rightarrow> v # const_iterate n d q it'
         | _ \<Rightarrow> [])
      else [])"

definition lbq_from_queue :: "'a \<Rightarrow> 'a lbq \<Rightarrow> 'a lbq outcome" where
  "lbq_from_queue d q =
     (case enqueue_all 0 (const_iterate (q_new q) d q (const_iterator d q)) (lbq_new d) of
        (Ret n, q') \<Rightarrow> Ret (q'\<lparr>q_count := n\<rparr>)
      | (Throw x, _) \<Rightarrow> Throw x
      | (Undefined f, _) \<Rightarrow> Undefined f)"

definition lbq_destroy :: "'a lbq \<Rightarrow> 'a lbq" where
  "lbq_destroy q = purgeList q"

lemma const_iterate_contents:
  assumes "lbq_inv q" and "ends q"
  shows "const_iterate (q_new q) d q (const_iterator d q) = contents q"
proof -
  have "const_iterate n d q it = iterate n d q it" for n it
    by (induction n arbitrary: it) (simp_all add: const_iterator_moves split: prod.split outcome.split)
  then show ?thesis using iterate_contents [OF assms] by (simp add: const_iterator_moves)
qed

text \<open>While the loop runs the count of the queue is not yet written; the local count stands for it.\<close>

lemma enqueue_all_effect:
  assumes "lbq_inv (q\<lparr>q_count := c\<rparr>)" and "ends q" and "c + int (length vs) \<le> q_capacity q"
  shows "\<exists>q'. enqueue_all c vs q = (Ret (c + int (length vs)), q') \<and> lbq_inv (q'\<lparr>q_count := c + int (length vs)\<rparr>)
     \<and> ends q' \<and> contents (q'\<lparr>q_count := c + int (length vs)\<rparr>) = contents (q\<lparr>q_count := c\<rparr>) @ vs
     \<and> q_capacity q' = q_capacity q \<and> q_put q' = q_put q \<and> q_take q' = q_take q"
  using assms
proof (induction vs arbitrary: c q)
  case (Cons v vs)
  let ?q = "q\<lparr>q_count := c\<rparr>" and ?e = "enqueue v q"
  obtain c' q' where call: "insert_locked v ?q = (c', q')" by fastforce
  have room: "q_count ?q < q_capacity ?q" using Cons.prems(3) by simp
  note I = insert_locked_effect [OF Cons.prems(1) room call]
  have same: "q_capacity ?e = q_capacity q" "q_put ?e = q_put q" "q_take ?e = q_take q"
    by (simp_all add: enqueue_def Let_def)
  have chain: "same_chain q' (?e\<lparr>q_count := c + 1\<rparr>)"
    using call by (auto simp: same_chain_def insert_locked_def enqueue_def signal_def Let_def)
  have "lbq_inv (?e\<lparr>q_count := c + 1\<rparr>)" "contents (?e\<lparr>q_count := c + 1\<rparr>) = contents ?q @ [v]"
    using I same_chain_facts(1,2) [OF chain] by simp_all
  moreover have "ends ?e" using I same_chain_facts(3) [OF chain] by (simp add: ends_def)
  moreover have "(c + 1) + int (length vs) \<le> q_capacity ?e" using Cons.prems(3) same by simp
  ultimately obtain qn where
    "enqueue_all (c + 1) vs ?e = (Ret (c + 1 + int (length vs)), qn)" "lbq_inv (qn\<lparr>q_count := c + 1 + int (length vs)\<rparr>)"
    "ends qn" "contents (qn\<lparr>q_count := c + 1 + int (length vs)\<rparr>) = (contents ?q @ [v]) @ vs"
    "q_capacity qn = q_capacity ?e" "q_put qn = q_put ?e" "q_take qn = q_take ?e"
    using Cons.IH [of "c + 1" ?e] by auto
  with room same show ?case by (auto simp: algebra_simps)
qed simp

lemma lbq_new_inv: "lbq_inv (lbq_new d)" "ends (lbq_new d)" "contents (lbq_new d) = []" "holding (lbq_new d) = (0, 0)"
  by (simp_all add: lbq_inv_def ends_def lbq_new_def q_nodes_def holding_def new_node_def contents_def MAX_VALUE_def)

lemma lbq_from_effect:
  assumes "int (length vs) \<le> MAX_VALUE"
  shows "\<exists>q'. lbq_from d vs = Ret q' \<and> lbq_inv q' \<and> ends q' \<and> contents q' = vs \<and> holding q' = (0, 0) \<and> q_capacity q' = MAX_VALUE"
proof -
  have c: "(lbq_new d)\<lparr>q_count := 0\<rparr> = lbq_new d" "q_capacity (lbq_new d) = MAX_VALUE" by (simp_all add: lbq_new_def)
  obtain q' where "enqueue_all 0 vs (lbq_new d) = (Ret (int (length vs)), q')"
    "lbq_inv (q'\<lparr>q_count := int (length vs)\<rparr>)" "ends q'" "contents (q'\<lparr>q_count := int (length vs)\<rparr>) = vs"
    "q_capacity q' = MAX_VALUE" "q_put q' = 0" "q_take q' = 0"
    using enqueue_all_effect [of 0 "lbq_new d" vs] assms lbq_new_inv [of d] c by (auto simp: holding_def)
  then show ?thesis by (auto simp: lbq_from_def ends_def holding_def)
qed

lemma lbq_from_queue_effect:
  assumes "lbq_inv q" and "ends q"
  shows "lbq_from_queue d q = lbq_from d (contents q)"
  by (simp add: lbq_from_queue_def lbq_from_def const_iterate_contents [OF assms])

section \<open>The queue as a collection\<close>

text \<open>
  The functions \<^verbatim>\<open>LinkedBlockingQueue\<close> gives to its base classes, for calls that are not interrupted.
  \<open>add\<close> is inherited from \<^verbatim>\<open>AbstractQueue\<close>.
\<close>

definition lbq_queue :: "'a \<Rightarrow> ('a lbq, 'a) queue_ops" where
  "lbq_queue d = \<lparr>v_offer = offer False, v_poll = poll d, v_peek = peek\<rparr>"

definition lbq_coll :: "'a \<Rightarrow> ('a lbq, 'a qiter, 'a) coll_ops" where
  "lbq_coll d = \<lparr>v_size = lbq_size, v_iterator = iterator d, v_hasNext = \<lambda>_. hasNext, v_next = iter_next d,
     v_remove = iter_remove d, v_add = queue_add (lbq_queue d), v_clear = \<lambda>q. (Ret (), lbq_clear q)\<rparr>"

text \<open>\<^verbatim>\<open>operator=\<close>: clear, then \<^verbatim>\<open>AbstractQueue::addAll\<close>.\<close>

definition lbq_assign :: "'a \<Rightarrow> bool \<Rightarrow> 'a list \<Rightarrow> 'a lbq \<Rightarrow> bool outcome \<times> 'a lbq" where
  "lbq_assign d same_object collection q = queue_addAll (lbq_queue d) same_object collection (lbq_clear q)"

text \<open>A queue between two calls: in order, its chain ended, no lock held.\<close>

definition lbq_ok :: "'a lbq \<Rightarrow> bool" where
  "lbq_ok q \<longleftrightarrow> lbq_inv q \<and> ends q \<and> holding q = (0, 0)"

definition lbq_view :: "'a lbq \<Rightarrow> 'a qiter \<Rightarrow> 'a list \<Rightarrow> 'a list \<Rightarrow> bool \<Rightarrow> bool" where
  "lbq_view q it xs ys b \<longleftrightarrow> lbq_ok q
     \<and> (\<exists>ps rs. q_nodes q = ps @ rs \<and> xs = map (\<lambda>p. nd_value (q_heap q p)) ps \<and> ys = map (\<lambda>p. nd_value (q_heap q p)) rs
          \<and> it_current it = (case rs of [] \<Rightarrow> null | r # _ \<Rightarrow> r)
          \<and> (rs \<noteq> [] \<longrightarrow> it_element it = nd_value (q_heap q (hd rs)))
          \<and> (b \<longrightarrow> ps \<noteq> [] \<and> it_last it = last ps))"

lemma lbq_viewE:
  assumes "lbq_view q it xs ys b"
  obtains ps rs where "lbq_inv q" and "ends q" and "holding q = (0, 0)"
    and "q_nodes q = ps @ rs" and "xs = map (\<lambda>p. nd_value (q_heap q p)) ps" and "ys = map (\<lambda>p. nd_value (q_heap q p)) rs"
    and "it_current it = (case rs of [] \<Rightarrow> null | r # _ \<Rightarrow> r)" and "rs \<noteq> [] \<longrightarrow> it_element it = nd_value (q_heap q (hd rs))"
    and "b \<longrightarrow> ps \<noteq> [] \<and> it_last it = last ps"
  using assms unfolding lbq_view_def lbq_ok_def by (elim conjE exE) (rule that)

lemma moves_ok: "lbq_ok q \<Longrightarrow> moves q q' vs \<Longrightarrow> lbq_ok q' \<and> contents q' = vs \<and> q_capacity q' = q_capacity q"
  by (simp add: lbq_ok_def moves_def)

text \<open>What follows a node in the chain.\<close>

lemma successor:
  assumes "lbq_inv q" and "ends q" and "q_nodes q = ps @ rs"
  shows "nd_next (q_heap q (last (q_head q # ps))) = (case rs of [] \<Rightarrow> null | r # _ \<Rightarrow> r)"
proof (cases rs)
  case Nil
  then have "q_tail q = last (q_head q # ps)" using assms(1,3) unfolding lbq_inv_def by simp
  then show ?thesis using assms(2) Nil unfolding ends_def by simp
next
  case (Cons r zs)
  then have "nodes (nat (q_count q)) (q_heap q) (q_head q) = ps @ r # zs" using assms(3) by (simp add: q_nodes_def)
  from nodes_split(2) [OF this] show ?thesis using Cons by simp
qed

lemma view_iterator:
  assumes "lbq_ok q"
  shows "lbq_view q (iterator d q) [] (contents q) False"
proof -
  have s: "nd_next (q_heap q (q_head q)) = (case q_nodes q of [] \<Rightarrow> null | r # _ \<Rightarrow> r)"
    using successor [of q "[]" "q_nodes q"] assms by (simp add: lbq_ok_def)
  have nn: "null \<notin> set (q_nodes q)" using inv_bound(2) [of q] assms by (simp add: lbq_ok_def)
  show ?thesis
    unfolding lbq_view_def
  proof (intro conjI exI)
    show "q_nodes q = [] @ q_nodes q" by simp
  qed (use assms s nn in \<open>auto simp: contents_def iterator_def Let_def split: list.splits\<close>)
qed

lemma view_hasNext:
  assumes "lbq_view q it xs ys b"
  shows "hasNext it \<longleftrightarrow> ys \<noteq> []"
proof -
  obtain ps rs where "lbq_inv q" "q_nodes q = ps @ rs" "ys = map (\<lambda>p. nd_value (q_heap q p)) rs"
    "it_current it = (case rs of [] \<Rightarrow> null | r # _ \<Rightarrow> r)" using assms by (rule lbq_viewE)
  moreover then have "null \<notin> set rs" using inv_bound(2) [of q] by simp
  ultimately show ?thesis by (cases rs) (simp_all add: hasNext_def)
qed

lemma view_next:
  assumes "lbq_view q it xs (y # ys) b"
  shows "\<exists>it'. iter_next d q it = (Ret y, it') \<and> lbq_view q it' (xs @ [y]) ys True"
proof -
  let ?v = "\<lambda>p. nd_value (q_heap q p)"
  obtain ps rs where v: "q_nodes q = ps @ rs" "xs = map ?v ps" "y # ys = map ?v rs"
    "it_current it = (case rs of [] \<Rightarrow> null | r # _ \<Rightarrow> r)" "rs \<noteq> [] \<longrightarrow> it_element it = ?v (hd rs)"
    using assms by (rule lbq_viewE)
  have ok: "lbq_inv q" "ends q" "lbq_ok q" using assms by (simp_all add: lbq_view_def lbq_ok_def)
  obtain r zs where r: "rs = r # zs" using v(3) by (cases rs) auto
  have nn: "r \<noteq> null" "null \<notin> set zs" using inv_bound(2) [OF ok(1)] v(1) r by auto
  have flags: "\<And>p. p \<in> set (r # zs) \<Longrightarrow> \<not> nd_unlinked (q_heap q p) \<and> \<not> nd_dequeued (q_heap q p)"
    using ok(1) v(1) r unfolding lbq_inv_def by auto
  have succ: "nd_next (q_heap q r) = (case zs of [] \<Rightarrow> null | r # _ \<Rightarrow> r)"
    using successor [OF ok(1,2), of "ps @ [r]" zs] v(1) r by simp
  have "skip_unlinked n (q_heap q) (nd_next (q_heap q r)) = nd_next (q_heap q r)" for n
    using succ flags nn by (cases n; cases zs) auto
  then have n: "nextNode q r = (case zs of [] \<Rightarrow> null | r # _ \<Rightarrow> r)"
    using flags [of r] succ by (simp add: nextNode_def)
  let ?c = "nextNode q r"
  let ?it = "\<lparr>it_current = ?c, it_last = r, it_element = (if ?c = null then d else ?v ?c)\<rparr>"
  have "iter_next d q it = (Ret y, ?it)"
    using v(3,4,5) r nn by (simp add: iter_next_def Let_def)
  moreover have "lbq_view q ?it (xs @ [y]) ys True"
    unfolding lbq_view_def
  proof (intro conjI exI)
    show "q_nodes q = (ps @ [r]) @ zs" using v(1) r by simp
  qed (use ok v r n nn in \<open>auto split: list.splits\<close>)
  ultimately show ?thesis by blast
qed

lemma view_remove:
  assumes "lbq_view q it (xs @ [x]) ys True"
  shows "\<exists>q' it'. iter_remove d q it = (Ret (), q', it') \<and> lbq_view q' it' xs ys False"
proof -
  let ?v = "\<lambda>p. nd_value (q_heap q p)"
  obtain ps rs where v: "q_nodes q = ps @ rs" "xs @ [x] = map ?v ps" "ys = map ?v rs"
    "it_current it = (case rs of [] \<Rightarrow> null | r # _ \<Rightarrow> r)" "rs \<noteq> [] \<longrightarrow> it_element it = ?v (hd rs)"
    "True \<longrightarrow> ps \<noteq> [] \<and> it_last it = last ps"
    using assms by (rule lbq_viewE)
  then have last: "ps \<noteq> []" "it_last it = last ps" by simp_all
  define zs p where "zs = butlast ps" and "p = last ps"
  have ps: "ps = zs @ [p]" using last(1) by (simp add: zs_def p_def)
  have xs: "xs = map ?v zs" using v(2) ps by simp
  define ql where "ql = lock_take (lock_put q)"
  have ok: "lbq_inv q" "ends q" "holding q = (0, 0)" using assms by (simp_all add: lbq_view_def lbq_ok_def)
  then have ql: "lbq_inv ql" "ends ql" "q_nodes ql = zs @ p # rs" "holding ql = (Suc 0, Suc 0)"
    "q_heap ql = q_heap q" "q_head ql = q_head q" "q_new ql = q_new q"
    using v(1) ps by (simp_all add: ql_def) (simp_all add: lock_take_def lock_put_def holding_def)
  have nn: "p \<noteq> null" using inv_bound(2) [OF ok(1)] v(1) ps by auto
  have dist: "distinct (zs @ p # rs)" using ql(1,3) unfolding lbq_inv_def by auto
  have "find_node (q_new ql) (\<lambda>_ a. a = p) (q_heap ql) (q_head ql) = Some (p, last (q_head ql # zs))"
  proof (rule find_node_some)
    show "nodes (nat (q_count ql)) (q_heap ql) (q_head ql) = zs @ p # rs" using ql(3) by (simp add: q_nodes_def)
    show "null \<notin> set (zs @ [p])" using inv_bound(2) [OF ql(1)] ql(3) by auto
    show "length zs < q_new ql" using inv_bound(1) [OF ql(1)] ql(3) by simp
  qed (use dist in auto)
  then have f: "find_node (q_new ql) (\<lambda>_ a. a = it_last it) (q_heap ql) (q_head ql) = Some (p, last (q_head ql # zs))"
    using last(2) ps by simp
  define q2 where "q2 = q_unlink d p (last (q_head ql # zs)) ql"
  have U: "lbq_inv q2" "contents q2 = map ?v (zs @ rs)" "holding q2 = (Suc 0, Suc 0)" "ends q2" "q_nodes q2 = zs @ rs"
    using q_unlink_effect [OF ql(1,2,3), of d] ql(4,5) unfolding q2_def by simp_all
  let ?q' = "unlock_take (unlock_put q2)" and ?it' = "it\<lparr>it_last := null\<rparr>"
  have "iter_remove d q it = (Ret (), ?q', ?it')"
    using nn last(2) ps f unfolding iter_remove_def ql_def [symmetric] q2_def Let_def by (simp del: last.simps)
  moreover have "lbq_view ?q' ?it' xs ys False"
  proof -
    have vals: "map (\<lambda>p. nd_value (q_heap q2 p)) (zs @ rs) = map ?v (zs @ rs)"
      using U(2) unfolding contents_def U(5) .
    have heap: "q_heap ?q' = q_heap q2" by (simp add: unlock_take_def unlock_put_def)
    have ok': "lbq_ok ?q'" using U unlock_both [OF U(3)] by (simp add: lbq_ok_def)
    show ?thesis
      unfolding lbq_view_def heap
    proof (intro conjI exI)
      show "q_nodes ?q' = zs @ rs" using U(5) by simp
      show "xs = map (\<lambda>p. nd_value (q_heap q2 p)) zs" "ys = map (\<lambda>p. nd_value (q_heap q2 p)) rs"
        using vals xs v(3) by simp_all
      show "rs \<noteq> [] \<longrightarrow> it_element ?it' = nd_value (q_heap q2 (hd rs))"
        using vals v(5) by (cases rs) simp_all
    qed (use ok' v(4) in simp_all)
  qed
  ultimately show ?thesis by blast
qed

definition lbq_limit :: "'a lbq \<Rightarrow> enat" where
  "lbq_limit q = enat (nat (q_capacity q))"

lemma room: "lbq_ok q \<Longrightarrow> enat (length (contents q)) < lbq_limit q \<longleftrightarrow> q_count q < q_capacity q"
  using length_contents [of q] by (auto simp: lbq_ok_def lbq_limit_def)

interpretation lbq: iterable "lbq_coll d" lbq_ok contents lbq_view
proof
  fix q :: "'a lbq" and it and xs ys :: "'a list" and x y :: 'a and b
  show "lbq_ok q \<Longrightarrow> v_size (lbq_coll d) q = int (length (contents q))"
    by (simp add: lbq_coll_def lbq_size_def lbq_ok_def length_contents)
  show "lbq_view q it xs ys b \<Longrightarrow> lbq_ok q \<and> contents q = xs @ ys"
    by (auto simp: lbq_view_def contents_def)
  show "lbq_ok q \<Longrightarrow> lbq_view q (v_iterator (lbq_coll d) q) [] (contents q) False"
    by (simp add: lbq_coll_def view_iterator)
  show "lbq_view q it xs ys b \<Longrightarrow> v_hasNext (lbq_coll d) q it = (ys \<noteq> [])"
    using view_hasNext [of q it xs ys b] by (simp add: lbq_coll_def)
  show "lbq_view q it xs (y # ys) b \<Longrightarrow>
      \<exists>it'. v_next (lbq_coll d) q it = (Ret y, it') \<and> lbq_view q it' (xs @ [y]) ys True"
    using view_next [of q it xs y ys b d] by (simp add: lbq_coll_def)
  show "lbq_view q it (xs @ [x]) ys True \<Longrightarrow>
      \<exists>q' it'. v_remove (lbq_coll d) q it = (Ret (), q', it') \<and> lbq_view q' it' xs ys False"
    using view_remove [of q it xs x ys d] by (simp add: lbq_coll_def)
qed

interpretation lbq: fifo_queue "lbq_queue d" lbq_ok contents lbq_limit
proof
  fix q :: "'a lbq" and v r :: 'a
  assume ok: "lbq_ok q"
  then have inv: "lbq_inv q" by (simp add: lbq_ok_def)
  show "\<exists>q'. v_offer (lbq_queue d) v q = (Ret (enat (length (contents q)) < lbq_limit q), q') \<and> lbq_ok q'
      \<and> lbq_limit q' = lbq_limit q
      \<and> contents q' = (if enat (length (contents q)) < lbq_limit q then contents q @ [v] else contents q)"
    using offer_effect [OF inv, of v] moves_ok [OF ok] unfolding room [OF ok] by (auto simp: lbq_queue_def lbq_limit_def)
  show "\<exists>q'. v_poll (lbq_queue d) r q = (Ret (contents q \<noteq> [], if contents q = [] then r else hd (contents q)), q')
      \<and> lbq_ok q' \<and> lbq_limit q' = lbq_limit q \<and> contents q' = tl (contents q)"
    using poll_effect [OF inv, of d r] moves_ok [OF ok] by (auto simp: lbq_queue_def lbq_limit_def)
  show "\<exists>q'. v_peek (lbq_queue d) r q = (Ret (contents q \<noteq> [], if contents q = [] then r else hd (contents q)), q')
      \<and> lbq_ok q' \<and> lbq_limit q' = lbq_limit q \<and> contents q' = contents q"
    using peek_effect [OF inv, of r] moves_ok [OF ok] by (auto simp: lbq_queue_def lbq_limit_def)
qed

section \<open>The cleared queue\<close>

text \<open>\<^verbatim>\<open>purgeList\<close> only resets links, and only those of the nodes it walks over.\<close>

lemma purge_value: "nd_value (purge n p h x) = nd_value (h x)"
  by (induction n arbitrary: p h) auto

lemma purge_next: "nd_next (h x) = null \<Longrightarrow> nd_next (purge n p h x) = null"
  by (induction n arbitrary: p h) auto

lemma purge_null [simp]: "purge n null h = h"
  by (cases n) simp_all

lemma purge_other:
  assumes "nd_next (h (last (p # nodes k h p))) = null" and "distinct (p # nodes k h p)" and "x \<notin> set (p # nodes k h p)"
  shows "purge n p h x = h x"
  using assms
proof (induction k arbitrary: n p h)
  case 0
  then show ?case by (cases n) auto
next
  case (Suc k)
  let ?p = "nd_next (h p)"
  define h' where "h' = h(p := (h p)\<lparr>nd_next := null\<rparr>)"
  have other: "h' y = h y" if "y \<noteq> p" for y using that by (simp add: h'_def)
  have same: "nodes k h' ?p = nodes k h ?p"
    by (rule nodes_cong) (use Suc.prems(2) in \<open>auto simp: h'_def dest: in_set_butlastD split: if_splits\<close>)
  have "last (?p # nodes k h ?p) \<in> set (?p # nodes k h ?p)" by (rule last_in_set) simp
  then have l: "last (?p # nodes k h ?p) \<noteq> p" using Suc.prems(2) by auto
  have "last (p # nodes (Suc k) h p) = last (?p # nodes k h ?p)" by simp
  then have "purge m ?p h' x = h' x" for m
    using Suc.prems l by (intro Suc.IH) (simp_all add: same other del: last.simps)
  then show ?case using Suc.prems(3) other [of x] by (cases n) (auto simp: h'_def)
qed

text \<open>
  The head keeps its link to the first purged node, and that node keeps its value: it is still found
  by everything that follows the links instead of the count.
\<close>

lemma clear_stale:
  assumes inv: "lbq_inv q" and ends: "ends q" and c: "contents q = v # vs"
  shows "toArray (lbq_clear q) = [v]"
proof -
  let ?h = "q_heap q" and ?a = "q_head q"
  obtain p zs where z: "q_nodes q = p # zs" using c by (cases "q_nodes q") (auto simp: contents_def)
  have d: "distinct (?a # p # zs)" "set (?a # p # zs) \<subseteq> {1..<q_new q}" "p \<noteq> null"
    using inv inv_bound(2) [OF inv] unfolding lbq_inv_def z by auto
  have nx: "nd_next (?h ?a) = p" using successor [OF inv ends, of "[]"] z by simp
  have zs: "nodes (length zs) ?h p = zs"
    using nodes_split(3) [of "nat (q_count q)" ?h ?a "[]" p zs] z by (simp add: q_nodes_def)
  have l: "nd_next (?h (last (p # zs))) = null"
    using successor [OF inv ends, of "p # zs" "[]"] z by simp
  let ?h' = "purge (q_new q) p ?h"
  have a': "nd_next (?h' ?a) = p"
    using purge_other [of ?h p "length zs" ?a "q_new q"] zs l d nx by (simp del: last.simps)
  obtain m where m: "q_new q = Suc (Suc m)" using d(1,2) by (cases "q_new q"; cases "q_new q - 1") auto
  have p': "nd_next (?h' p) = null" using d(3) m by (simp add: purge_next)
  have v: "nd_value (?h' p) = v" using c z by (simp add: purge_value contents_def)
  have "toArray (lbq_clear q) = values_from (q_new q) ?h' (nd_next (?h' ?a))"
    by (simp add: lbq_clear_def toArray_def purgeList_def lock_take_def lock_put_def unlock_put_def unlock_take_def
        signal_def Let_def nx)
  then show ?thesis using a' p' v d(3) m by simp
qed

section \<open>Properties\<close>

definition lbq_small :: "nat lbq" where
  "lbq_small = (lbq_new 0)\<lparr>q_capacity := 3\<rparr>"

definition lbq_demo :: "nat lbq" where
  "lbq_demo = snd (add_each (queue_add (lbq_queue 0)) False [7, 8, 9] lbq_small)"

lemma small: "lbq_ok lbq_small" "contents lbq_small = []" "lbq_limit lbq_small = 3" "q_capacity lbq_small = 3"
  by (simp_all add: lbq_small_def lbq_ok_def lbq_inv_def ends_def lbq_new_def q_nodes_def holding_def new_node_def
      contents_def lbq_limit_def numeral_eq_enat)

lemma small_filled:
  assumes "length vs \<le> 3"
  obtains q where "add_each (queue_add (lbq_queue 0)) False vs lbq_small = (Ret (vs \<noteq> []), q)" and "lbq_ok q"
    and "lbq_limit q = 3" and "contents q = vs"
  using lbq.add_each_fits [OF small(1), of vs 0 False] assms by (auto simp: small numeral_eq_enat)

lemma demo: "lbq_ok lbq_demo" "contents lbq_demo = [7, 8, 9]" "q_capacity lbq_demo = 3" "q_count lbq_demo = 3"
proof -
  obtain q where q: "add_each (queue_add (lbq_queue 0)) False [7, 8, 9] lbq_small = (Ret ([7, 8, 9] \<noteq> ([] :: nat list)), q)"
    "lbq_ok q" "lbq_limit q = 3" "contents q = [7, 8, 9]"
    by (rule small_filled [of "[7, 8, 9]"]) simp
  then have d: "lbq_demo = q" by (simp only: lbq_demo_def snd_conv)
  show "lbq_ok lbq_demo" "contents lbq_demo = [7, 8, 9]" using q d by simp_all
  show "q_capacity lbq_demo = 3" using q(2,3) d by (auto simp: lbq_limit_def lbq_ok_def lbq_inv_def numeral_eq_enat)
  show "q_count lbq_demo = 3" using length_contents [of q] q(2,4) d by (auto simp: lbq_ok_def)
qed

text \<open>
  A work queue that has room for all of them hands out the tasks added to it in the order in
  which they were added, each once, and is empty afterwards.
\<close>

theorem lbq_fifo:
  assumes "lbq_ok q" and "contents q = []" and "int (length vs) \<le> q_capacity q"
  shows "\<exists>q' q''. add_each (queue_add (lbq_queue d)) False vs q = (Ret (vs \<noteq> []), q')
     \<and> remove_n (length vs) (lbq_queue d) d q' = (vs, q'') \<and> contents q'' = []"
  by (rule lbq.fifo_order) (use assms in \<open>auto simp: lbq_limit_def\<close>)

theorem lbq_fifo_witness:
  "\<exists>q' q''. add_each (queue_add (lbq_queue 0)) False [7, 8] lbq_small = (Ret ([7, 8] \<noteq> ([] :: nat list)), q')
     \<and> remove_n (length [7, 8 :: nat]) (lbq_queue 0) 0 q' = ([7, 8], q'') \<and> contents q'' = []"
  by (rule lbq_fifo [OF small(1,2)]) (simp add: small)

text \<open>
  The copy of a queue is a queue of its own, in order and unlocked, with the same elements in the same order, and
  taking them all from the copy gives the contents of the original.
\<close>

theorem lbq_copy:
  assumes "lbq_ok q" and "int (length (contents q)) \<le> MAX_VALUE"
  shows "\<exists>q' q''. lbq_from_queue d q = Ret q' \<and> lbq_ok q' \<and> contents q' = contents q \<and> q_capacity q' = MAX_VALUE
     \<and> remove_n (length (contents q)) (lbq_queue d) d q' = (contents q, q'') \<and> contents q'' = []"
proof -
  have i: "lbq_inv q" "ends q" using assms(1) by (simp_all add: lbq_ok_def)
  obtain q' where q': "lbq_from d (contents q) = Ret q'" "lbq_ok q'" "contents q' = contents q" "q_capacity q' = MAX_VALUE"
    using lbq_from_effect [OF assms(2), of d] by (auto simp: lbq_ok_def)
  then show ?thesis using lbq.remove_n_effect [OF q'(2), of "length (contents q)" d d] lbq_from_queue_effect [OF i, of d] by auto
qed

theorem lbq_copy_witness:
  "\<exists>q' q''. lbq_from_queue 0 lbq_demo = Ret q' \<and> lbq_ok q' \<and> contents q' = [7, 8, 9]
     \<and> remove_n 3 (lbq_queue 0) 0 q' = ([7, 8, 9], q'') \<and> contents q'' = []"
  using lbq_copy [OF demo(1), of 0] by (auto simp: demo MAX_VALUE_def numeral_3_eq_3)

text \<open>
  C22: put waits exactly when the queue is full and take exactly when it is empty; otherwise put appends
  the element and take removes the first one.  Both return with the locks as they found them and the
  chain of nodes in order.
\<close>

theorem lbq_blocking:
  assumes "lbq_ok q"
  shows "(if q_count q < q_capacity q then \<exists>q'. lbq_put False v q = (Some (Ret ()), q') \<and> lbq_ok q' \<and> contents q' = contents q @ [v]
          else lbq_put False v q = (None, q))
     \<and> (if contents q = [] then lbq_take d False q = (None, q)
          else \<exists>q'. lbq_take d False q = (Some (Ret (hd (contents q))), q') \<and> lbq_ok q' \<and> contents q' = tl (contents q))"
proof
  have inv: "lbq_inv q" using assms by (simp add: lbq_ok_def)
  show "if q_count q < q_capacity q then \<exists>q'. lbq_put False v q = (Some (Ret ()), q') \<and> lbq_ok q' \<and> contents q' = contents q @ [v]
       else lbq_put False v q = (None, q)"
    using put_effect [OF inv, of v] moves_ok [OF assms] by (auto split: if_splits)
  show "if contents q = [] then lbq_take d False q = (None, q)
       else \<exists>q'. lbq_take d False q = (Some (Ret (hd (contents q))), q') \<and> lbq_ok q' \<and> contents q' = tl (contents q)"
    using take_effect [OF inv, of d] moves_ok [OF assms] by (auto split: if_splits)
qed

theorem lbq_blocking_witness:
  "lbq_put False 5 lbq_demo = (None, lbq_demo)
     \<and> (\<exists>q'. lbq_take 0 False lbq_demo = (Some (Ret 7), q') \<and> lbq_ok q' \<and> contents q' = [8, 9])"
  using lbq_blocking [OF demo(1), of 5 0] by (simp add: demo)

text \<open>
  remove(value) removes the first element that is equal to the value and says whether there was one;
  removeAll keeps exactly the elements that are not in the given collection.
\<close>

theorem lbq_removal:
  assumes "lbq_ok q" and "length (contents q) < n"
  shows "(\<exists>q'. lbq_remove d v q = (v \<in> set (contents q), q') \<and> lbq_ok q' \<and> contents q' = remove1 v (contents q))
     \<and> (\<exists>q'. coll_removeAll n (lbq_coll d) vs q = Some (Ret (\<exists>u \<in> set (contents q). u \<in> set vs), q') \<and> lbq_ok q'
          \<and> contents q' = filter (\<lambda>u. u \<notin> set vs) (contents q))"
proof
  have "lbq_inv q" "ends q" using assms(1) by (simp_all add: lbq_ok_def)
  from remove_effect [OF this, of d v]
  show "\<exists>q'. lbq_remove d v q = (v \<in> set (contents q), q') \<and> lbq_ok q' \<and> contents q' = remove1 v (contents q)"
    using moves_ok [OF assms(1)] by (cases "lbq_remove d v q") auto
  show "\<exists>q'. coll_removeAll n (lbq_coll d) vs q = Some (Ret (\<exists>u \<in> set (contents q). u \<in> set vs), q') \<and> lbq_ok q'
          \<and> contents q' = filter (\<lambda>u. u \<notin> set vs) (contents q)"
    by (rule lbq.coll_removeAll_effect [OF assms])
qed

theorem lbq_removal_witness:
  "(\<exists>q'. lbq_remove 0 8 lbq_demo = (True, q') \<and> lbq_ok q' \<and> contents q' = [7, 9])
     \<and> (\<exists>q'. coll_removeAll 4 (lbq_coll 0) [9, 7] lbq_demo = Some (Ret True, q') \<and> lbq_ok q' \<and> contents q' = [8])"
  using lbq_removal [OF demo(1), of 4 0 8 "[9, 7]"] by (simp add: demo)

text \<open>
  drainTo moves the first min(maxElements, size) elements to a sink that takes them all, in order,
  and returns their number; the others stay.
\<close>

theorem lbq_drainTo:
  assumes "lbq_ok q" and "0 \<le> maxElements"
  shows "\<exists>k q'. k = nat (min maxElements (q_count q)) \<and> drainTo d (\<lambda>_. None) maxElements q = (Ret (int k), take k (contents q), q')
     \<and> lbq_ok q' \<and> contents q' = drop k (contents q)"
  using drainTo_effect [of q maxElements d] moves_ok [OF assms(1)] assms by (auto simp: lbq_ok_def)

theorem lbq_drainTo_witness:
  "\<exists>q'. drainTo 0 (\<lambda>_. None) 2 lbq_demo = (Ret 2, [7, 8], q') \<and> lbq_ok q' \<and> contents q' = [9]"
  using lbq_drainTo [OF demo(1), of 2 0] by (auto simp: demo numeral_2_eq_2)

text \<open>
  A timed offer that gives up on a full queue, and a timed poll that gives up on an empty one, return
  false without releasing the lock they took.
\<close>

theorem timed_calls_keep_lock:
  assumes "lbq_ok q"
  shows "(q_count q = q_capacity q \<longrightarrow>
        (\<exists>q'. offer_timed False True v q = (Some (Ret False), q') \<and> contents q' = contents q \<and> holding q' = (1, 0)))
     \<and> (contents q = [] \<longrightarrow>
        (\<exists>q'. poll_timed d False True r q = (Some (Ret (False, r)), q') \<and> contents q' = [] \<and> holding q' = (0, 1)))"
proof -
  have "q_put q = 0" "q_take q = 0" using assms by (simp_all add: lbq_ok_def holding_def)
  moreover have "contents q = [] \<longrightarrow> q_count q = 0" using length_contents [of q] assms by (auto simp: lbq_ok_def)
  ultimately show ?thesis by (simp add: offer_timed_def poll_timed_def)
qed

theorem timed_calls_keep_lock_witness:
  "\<exists>q'. offer_timed False True 5 lbq_demo = (Some (Ret False), q') \<and> contents q' = [7, 8, 9] \<and> holding q' = (1, 0)"
  using timed_calls_keep_lock [OF demo(1), of 5 0 0] by (simp add: demo)

text \<open>
  clear makes the queue empty for size and poll but sends no signal, even when the queue was full, and
  leaves the first element behind the head, where toArray still finds it.
\<close>

theorem lbq_clear_result:
  assumes "lbq_ok q" and "contents q = v # vs"
  shows "lbq_size (lbq_clear q) = 0 \<and> fst (poll d r (lbq_clear q)) = Ret (False, r)
     \<and> q_signals (lbq_clear q) = q_signals q \<and> toArray (lbq_clear q) = [v]"
proof -
  have i: "lbq_inv q" "ends q" using assms(1) by (simp_all add: lbq_ok_def)
  have "lbq_inv (lbq_clear q)" "contents (lbq_clear q) = []" using clear_effect [OF i(1)] by simp_all
  then have "q_count (lbq_clear q) = 0" using length_contents [of "lbq_clear q"] by simp
  then show ?thesis using clear_stale [OF i assms(2)] clear_effect [OF i(1)] by (simp add: lbq_size_def poll_def)
qed

theorem lbq_clear_result_witness:
  "q_count lbq_demo = q_capacity lbq_demo \<and> q_signals (lbq_clear lbq_demo) = q_signals lbq_demo
     \<and> lbq_size (lbq_clear lbq_demo) = 0 \<and> toArray (lbq_clear lbq_demo) = [7]"
  using lbq_clear_result [OF demo(1), of 7 "[8, 9]" 0 0] by (simp add: demo)

text \<open>
  Two threads poll a queue with one element and both see it before either takes the lock: the second one
  to get the lock returns true although it got no element.
\<close>

theorem poll_race:
  assumes "lbq_ok q" and "contents q = [v]"
  shows "\<exists>q' q''. poll_locked d r q = (Ret (True, v), q') \<and> contents q' = [] \<and> poll_locked d r q' = (Ret (True, r), q'')"
proof -
  have inv: "lbq_inv q" and c: "q_count q = 1" using assms length_contents [of q] by (simp_all add: lbq_ok_def)
  obtain q' where q': "poll d r q = (Ret (True, v), q')" "moves q q' []"
    using poll_effect [OF inv, of d r] assms(2) by auto
  then have "lbq_inv q'" "contents q' = []" by (simp_all add: moves_def)
  then have "q_count q' = 0" using length_contents [of q'] by simp
  then have "poll_locked d r q' = (Ret (True, r), after_remove (- 1) (lock_take q'))" by (simp add: poll_locked_def)
  moreover have "poll_locked d r q = (Ret (True, v), q')" using q'(1) c by (simp add: poll_def)
  ultimately show ?thesis using \<open>contents q' = []\<close> by blast
qed

theorem poll_race_witness:
  "\<exists>q q' q''. poll_locked 0 5 q = (Ret (True, 7), q') \<and> contents q' = [] \<and> poll_locked 0 5 q' = (Ret (True, 5::nat), q'')"
proof -
  obtain q where "lbq_ok q" "contents q = [7 :: nat]" by (rule small_filled [of "[7]"]) simp
  from poll_race [OF this, of 0 5] show ?thesis by blast
qed

end
