(* ===== verification/Linked_List.thy ===== *)
theory Linked_List
  imports Collections
begin

text \<open>
  \<^verbatim>\<open>decaf::util::LinkedList\<close> (LinkedList.h) with the parts of \<^verbatim>\<open>AbstractSequentialList\<close> it inherits: a doubly
  linked list between two sentinel nodes that are part of the list object, its deque interface and its
  iterators.  The nodes live on an explicit heap; the nodes that were deleted are recorded, so that the
  invariant can say that no node is deleted twice and no deleted node is reached again.
\<close>

section \<open>State\<close>

record 'a lnode =
  ln_value :: 'a
  ln_prev :: addr
  ln_next :: addr

record 'a llist =
  ll_heap :: "addr \<Rightarrow> 'a lnode"
  ll_new :: addr
  ll_size :: int
  ll_modCount :: int
  ll_deleted :: "addr list"

text \<open>The addresses of the sentinels \<^verbatim>\<open>head\<close> and \<^verbatim>\<open>tail\<close>; 0 is NULL.\<close>

definition HEAD :: addr where
  "HEAD = 1"

definition TAIL :: addr where
  "TAIL = 2"

definition ll_empty :: "'a \<Rightarrow> 'a llist" where
  "ll_empty d = \<lparr>ll_heap = (\<lambda>_. \<lparr>ln_value = d, ln_prev = 0, ln_next = 0\<rparr>)
       (HEAD := \<lparr>ln_value = d, ln_prev = 0, ln_next = TAIL\<rparr>, TAIL := \<lparr>ln_value = d, ln_prev = HEAD, ln_next = 0\<rparr>),
     ll_new = 3, ll_size = 0, ll_modCount = 0, ll_deleted = []\<rparr>"

section \<open>Building blocks\<close>

text \<open>A new node between the neighbours \<open>p\<close> and \<open>q\<close>.\<close>

definition link_in :: "addr \<Rightarrow> addr \<Rightarrow> 'a \<Rightarrow> 'a llist \<Rightarrow> 'a llist" where
  "link_in p q v l =
     (let a = ll_new l;
          h = (ll_heap l)(a := \<lparr>ln_value = v, ln_prev = p, ln_next = q\<rparr>);
          h = h(q := (h q)\<lparr>ln_prev := a\<rparr>);
          h = h(p := (h p)\<lparr>ln_next := a\<rparr>)
      in l\<lparr>ll_heap := h, ll_new := Suc a\<rparr>)"

text \<open>The neighbours \<open>p\<close> and \<open>q\<close> of \<open>x\<close> are linked to each other and \<open>x\<close> is deleted.\<close>

definition link_out :: "addr \<Rightarrow> addr \<Rightarrow> addr \<Rightarrow> 'a llist \<Rightarrow> 'a llist" where
  "link_out p x q l =
     (let h = ll_heap l;
          h = h(q := (h q)\<lparr>ln_prev := p\<rparr>);
          h = h(p := (h p)\<lparr>ln_next := q\<rparr>)
      in l\<lparr>ll_heap := h, ll_deleted := x # ll_deleted l\<rparr>)"

definition count_change :: "int \<Rightarrow> 'a llist \<Rightarrow> 'a llist" where
  "count_change n l = l\<lparr>ll_size := ll_size l + n, ll_modCount := ll_modCount l + 1\<rparr>"

fun walk_next :: "nat \<Rightarrow> (addr \<Rightarrow> 'a lnode) \<Rightarrow> addr \<Rightarrow> addr" where
  "walk_next 0 h p = p"
| "walk_next (Suc n) h p = walk_next n h (ln_next (h p))"

fun walk_prev :: "nat \<Rightarrow> (addr \<Rightarrow> 'a lnode) \<Rightarrow> addr \<Rightarrow> addr" where
  "walk_prev 0 h p = p"
| "walk_prev (Suc n) h p = walk_prev n h (ln_prev (h p))"

definition removeAtFront :: "'a llist \<Rightarrow> 'a outcome \<times> 'a llist" where
  "removeAtFront l =
     (let h = ll_heap l; oldNode = ln_next (h HEAD) in
      if oldNode = TAIL then (Throw (NoSuchElementException ''The Collection is empty.''), l)
      else (Ret (ln_value (h oldNode)), count_change (- 1) (link_out HEAD oldNode (ln_next (h oldNode)) l)))"

definition removeAtEnd :: "'a llist \<Rightarrow> 'a outcome \<times> 'a llist" where
  "removeAtEnd l =
     (let h = ll_heap l in
      if ln_next (h HEAD) = TAIL then (Throw (NoSuchElementException ''The Collection is empty.''), l)
      else
        (let oldNode = ln_prev (h TAIL) in
         (Ret (ln_value (h oldNode)), count_change (- 1) (link_out (ln_prev (h oldNode)) oldNode TAIL l))))"

definition addToFront :: "'a \<Rightarrow> 'a llist \<Rightarrow> 'a llist" where
  "addToFront v l = count_change 1 (link_in HEAD (ln_next (ll_heap l HEAD)) v l)"

definition addToEnd :: "'a \<Rightarrow> 'a llist \<Rightarrow> 'a llist" where
  "addToEnd v l = count_change 1 (link_in (ln_prev (ll_heap l TAIL)) TAIL v l)"

definition addAtLocation :: "int \<Rightarrow> 'a \<Rightarrow> 'a llist \<Rightarrow> 'a llist" where
  "addAtLocation index v l =
     (let h = ll_heap l;
          location =
            (if index \<le> ll_size l div 2 then walk_next (nat index) h (ln_next (h HEAD))
             else walk_prev (nat (ll_size l - index)) h TAIL)
      in count_change 1 (link_in (ln_prev (h location)) location v l))"

text \<open>The loop that links the elements of a collection in behind \<open>previous\<close>.\<close>

fun link_all :: "addr \<Rightarrow> 'a list \<Rightarrow> 'a llist \<Rightarrow> 'a llist" where
  "link_all previous [] l = l"
| "link_all previous (v # vs) l =
     link_all (ll_new l) vs (link_in previous (ln_next (ll_heap l previous)) v l)"

definition addAllAtLocation :: "int \<Rightarrow> 'a list \<Rightarrow> 'a llist \<Rightarrow> bool outcome \<times> 'a llist" where
  "addAllAtLocation index collection l =
     (if index < 0 \<or> index > ll_size l then
        (Throw (IndexOutOfBoundsException ''Index for add is outside bounds of this LinkedList.''), l)
      else if collection = [] then (Ret False, l)
      else
        (let h = ll_heap l;
             previous =
               (if index < ll_size l div 2 then walk_next (nat index) h HEAD
                else walk_prev (nat (ll_size l - index + 1)) h TAIL)
         in (Ret True, count_change (int (length collection)) (link_all previous collection l))))"

text \<open>The nodes from \<open>current\<close> up to the tail; there are fewer of them than addresses in use.\<close>

fun nodes_from :: "nat \<Rightarrow> (addr \<Rightarrow> 'a lnode) \<Rightarrow> addr \<Rightarrow> addr list" where
  "nodes_from 0 h current = []"
| "nodes_from (Suc n) h current =
     (if current = TAIL then [] else current # nodes_from n h (ln_next (h current)))"

text \<open>\<^verbatim>\<open>purgeList\<close> deletes the nodes between the sentinels, the last one deleted first in the record.\<close>

definition ll_purgeList :: "'a llist \<Rightarrow> 'a llist" where
  "ll_purgeList l =
     l\<lparr>ll_deleted := rev (nodes_from (ll_new l) (ll_heap l) (ln_next (ll_heap l HEAD))) @ ll_deleted l\<rparr>"

section \<open>List interface\<close>

text \<open>The text of the exception continues with the index that was given.\<close>

definition ll_range_error :: exn where
  "ll_range_error = IndexOutOfBoundsException ''Index given is outside bounds of this list''"

definition locate :: "int \<Rightarrow> 'a llist \<Rightarrow> addr" where
  "locate index l =
     (if index < ll_size l div 2 then walk_next (nat (index + 1)) (ll_heap l) HEAD
      else walk_prev (nat (ll_size l - index)) (ll_heap l) TAIL)"

definition ll_get :: "int \<Rightarrow> 'a llist \<Rightarrow> 'a outcome" where
  "ll_get index l =
     (if index < 0 \<or> index \<ge> ll_size l then Throw ll_range_error
      else Ret (ln_value (ll_heap l (locate index l))))"

definition ll_set :: "int \<Rightarrow> 'a \<Rightarrow> 'a llist \<Rightarrow> 'a outcome \<times> 'a llist" where
  "ll_set index element l =
     (if index < 0 \<or> index \<ge> ll_size l then (Throw ll_range_error, l)
      else
        (let p = locate index l; h = ll_heap l in
         (Ret (ln_value (h p)), l\<lparr>ll_heap := h(p := (h p)\<lparr>ln_value := element\<rparr>)\<rparr>)))"

definition ll_add :: "'a \<Rightarrow> 'a llist \<Rightarrow> bool outcome \<times> 'a llist" where
  "ll_add v l = (Ret True, addToEnd v l)"

definition ll_add_at :: "int \<Rightarrow> 'a \<Rightarrow> 'a llist \<Rightarrow> unit outcome \<times> 'a llist" where
  "ll_add_at index v l =
     (if index < 0 \<or> index > ll_size l then (Throw ll_range_error, l)
      else (Ret (), addAtLocation index v l))"

definition ll_addAll :: "'a list \<Rightarrow> 'a llist \<Rightarrow> bool outcome \<times> 'a llist" where
  "ll_addAll collection l = addAllAtLocation (ll_size l) collection l"

definition ll_addAll_at :: "int \<Rightarrow> 'a list \<Rightarrow> 'a llist \<Rightarrow> bool outcome \<times> 'a llist" where
  "ll_addAll_at index collection l = addAllAtLocation index collection l"

definition ll_clear :: "'a llist \<Rightarrow> 'a llist" where
  "ll_clear l0 =
     (let l = ll_purgeList l0;
          h = ll_heap l;
          h = h(HEAD := (h HEAD)\<lparr>ln_next := TAIL\<rparr>);
          h = h(TAIL := (h TAIL)\<lparr>ln_prev := HEAD\<rparr>)
      in l\<lparr>ll_heap := h, ll_size := 0, ll_modCount := ll_modCount l + 1\<rparr>)"

text \<open>
  \<^verbatim>\<open>copy\<close> and both \<^verbatim>\<open>operator=\<close>; the copy constructors start from an empty list instead and the
  destructor deletes the nodes.
\<close>

definition ll_destroy :: "'a llist \<Rightarrow> 'a llist" where
  "ll_destroy l = ll_purgeList l"

definition ll_assign :: "'a list \<Rightarrow> 'a llist \<Rightarrow> 'a llist" where
  "ll_assign collection l = snd (addAllAtLocation 0 collection (ll_clear l))"

definition ll_copy :: "'a list \<Rightarrow> 'a llist \<Rightarrow> 'a llist" where
  "ll_copy collection l = snd (addAllAtLocation 0 collection (ll_clear l))"

definition ll_from :: "'a \<Rightarrow> 'a list \<Rightarrow> 'a llist" where
  "ll_from d collection = snd (addAllAtLocation 0 collection (ll_empty d))"

definition ll_isEmpty :: "'a llist \<Rightarrow> bool" where
  "ll_isEmpty l \<longleftrightarrow> ll_size l = 0"

fun index_from :: "nat \<Rightarrow> (addr \<Rightarrow> 'a lnode) \<Rightarrow> 'a \<Rightarrow> int \<Rightarrow> addr \<Rightarrow> int" where
  "index_from 0 h v i location = - 1"
| "index_from (Suc n) h v i location =
     (if location = TAIL then - 1
      else if ln_value (h location) = v then i
      else index_from n h v (i + 1) (ln_next (h location)))"

definition ll_indexOf :: "'a \<Rightarrow> 'a llist \<Rightarrow> int" where
  "ll_indexOf v l =
     (if ll_size l = 0 then - 1 else index_from (ll_new l) (ll_heap l) v 0 (ln_next (ll_heap l HEAD)))"

fun last_index_from :: "nat \<Rightarrow> (addr \<Rightarrow> 'a lnode) \<Rightarrow> 'a \<Rightarrow> int \<Rightarrow> addr \<Rightarrow> int" where
  "last_index_from 0 h v i location = - 1"
| "last_index_from (Suc n) h v i location =
     (if location = HEAD then - 1
      else if ln_value (h location) = v then i
      else last_index_from n h v (i - 1) (ln_prev (h location)))"

definition ll_lastIndexOf :: "'a \<Rightarrow> 'a llist \<Rightarrow> int" where
  "ll_lastIndexOf v l =
     (if ll_size l = 0 then - 1
      else last_index_from (ll_new l) (ll_heap l) v (ll_size l - 1) (ln_prev (ll_heap l TAIL)))"

definition ll_contains :: "'a \<Rightarrow> 'a llist \<Rightarrow> bool" where
  "ll_contains v l \<longleftrightarrow> ll_indexOf v l \<noteq> - 1"

definition ll_toArray :: "'a llist \<Rightarrow> 'a list" where
  "ll_toArray l =
     map (\<lambda>p. ln_value (ll_heap l p)) (nodes_from (ll_new l) (ll_heap l) (ln_next (ll_heap l HEAD)))"

section \<open>Deque interface\<close>



definition pollFirst :: "'a \<Rightarrow> 'a llist \<Rightarrow> (bool \<times> 'a) outcome \<times> 'a llist" where
  "pollFirst result l =
     (if ll_size l = 0 then (Ret (False, result), l)
      else
        (let v = ln_value (ll_heap l (ln_next (ll_heap l HEAD))) in
         case removeAtFront l of
           (Ret _, l') \<Rightarrow> (Ret (True, v), l')
         | (Throw x, l') \<Rightarrow> (Throw x, l')
         | (Undefined f, l') \<Rightarrow> (Undefined f, l')))"

definition pollLast :: "'a \<Rightarrow> 'a llist \<Rightarrow> (bool \<times> 'a) outcome \<times> 'a llist" where
  "pollLast result l =
     (if ll_size l = 0 then (Ret (False, result), l)
      else
        (let v = ln_value (ll_heap l (ln_prev (ll_heap l TAIL))) in
         case removeAtEnd l of
           (Ret _, l') \<Rightarrow> (Ret (True, v), l')
         | (Throw x, l') \<Rightarrow> (Throw x, l')
         | (Undefined f, l') \<Rightarrow> (Undefined f, l')))"

definition peekFirst :: "'a \<Rightarrow> 'a llist \<Rightarrow> (bool \<times> 'a) outcome" where
  "peekFirst result l =
     Ret (if ll_size l = 0 then (False, result) else (True, ln_value (ll_heap l (ln_next (ll_heap l HEAD)))))"

definition peekLast :: "'a \<Rightarrow> 'a llist \<Rightarrow> (bool \<times> 'a) outcome" where
  "peekLast result l =
     Ret (if ll_size l = 0 then (False, result) else (True, ln_value (ll_heap l (ln_prev (ll_heap l TAIL)))))"

definition getFirst :: "'a llist \<Rightarrow> 'a outcome" where
  "getFirst l =
     (if ll_size l = 0 then Throw (NoSuchElementException ''The list is Empty'')
      else Ret (ln_value (ll_heap l (ln_next (ll_heap l HEAD)))))"

definition getLast :: "'a llist \<Rightarrow> 'a outcome" where
  "getLast l =
     (if ll_size l = 0 then Throw (NoSuchElementException ''The list is Empty'')
      else Ret (ln_value (ll_heap l (ln_prev (ll_heap l TAIL)))))"



definition offerFirst :: "'a \<Rightarrow> 'a llist \<Rightarrow> bool outcome \<times> 'a llist" where
  "offerFirst element l = (Ret True, addToFront element l)"

definition offerLast :: "'a \<Rightarrow> 'a llist \<Rightarrow> bool outcome \<times> 'a llist" where
  "offerLast element l = (Ret True, addToEnd element l)"

text \<open>The queue and stack names for the same operations; \<^verbatim>\<open>poll\<close>, \<^verbatim>\<open>peek\<close> and \<^verbatim>\<open>element\<close> repeat the bodies above.\<close>

definition ll_offer :: "'a \<Rightarrow> 'a llist \<Rightarrow> bool outcome \<times> 'a llist" where
  "ll_offer v l = (Ret True, addToEnd v l)"

definition ll_poll :: "'a \<Rightarrow> 'a llist \<Rightarrow> (bool \<times> 'a) outcome \<times> 'a llist" where
  "ll_poll result l = pollFirst result l"

definition ll_peek :: "'a \<Rightarrow> 'a llist \<Rightarrow> (bool \<times> 'a) outcome" where
  "ll_peek result l = peekFirst result l"

definition ll_element :: "'a llist \<Rightarrow> 'a outcome" where
  "ll_element l = getFirst l"

definition ll_remove_head :: "'a llist \<Rightarrow> 'a outcome \<times> 'a llist" where
  "ll_remove_head l = removeAtFront l"

definition removeFirst :: "'a llist \<Rightarrow> 'a outcome \<times> 'a llist" where
  "removeFirst l = removeAtFront l"

definition removeLast :: "'a llist \<Rightarrow> 'a outcome \<times> 'a llist" where
  "removeLast l = removeAtEnd l"

definition addFirst :: "'a \<Rightarrow> 'a llist \<Rightarrow> 'a llist" where
  "addFirst v l = addToFront v l"

definition addLast :: "'a \<Rightarrow> 'a llist \<Rightarrow> 'a llist" where
  "addLast v l = addToEnd v l"

definition ll_push :: "'a \<Rightarrow> 'a llist \<Rightarrow> 'a llist" where
  "ll_push element l = addToFront element l"

definition ll_pop :: "'a llist \<Rightarrow> 'a outcome \<times> 'a llist" where
  "ll_pop l = removeAtFront l"

section \<open>Iterators\<close>

record liter =
  li_current :: addr
  li_last :: addr
  li_index :: int
  li_expected :: int

definition concurrent_error :: exn where
  "concurrent_error = ConcurrentModificationException ''List modified outside of this Iterator.''"

text \<open>\<^verbatim>\<open>LinkedListIterator\<close>: the constructor walks from the nearer end to the node before \<open>index\<close>.\<close>

definition listIterator :: "int \<Rightarrow> 'a llist \<Rightarrow> liter outcome" where
  "listIterator index l =
     (if index < 0 \<or> index > ll_size l then Throw (IndexOutOfBoundsException ''Given index is out of range.'')
      else
        Ret \<lparr>li_current =
               (if index < ll_size l div 2 then walk_next (nat index) (ll_heap l) HEAD
                else walk_prev (nat (ll_size l - index + 1)) (ll_heap l) TAIL),
             li_last = 0, li_index = index - 1, li_expected = ll_modCount l\<rparr>)"

text \<open>\<^verbatim>\<open>ConstLinkedListIterator\<close> has the same constructor, without the modification count.\<close>

definition const_listIterator :: "int \<Rightarrow> 'a llist \<Rightarrow> liter outcome" where
  "const_listIterator index l = listIterator index l"

definition li_hasNext :: "'a llist \<Rightarrow> liter \<Rightarrow> bool" where
  "li_hasNext l it \<longleftrightarrow> ln_next (ll_heap l (li_current it)) \<noteq> TAIL"

definition li_hasPrevious :: "liter \<Rightarrow> bool" where
  "li_hasPrevious it \<longleftrightarrow> li_current it \<noteq> HEAD"

text \<open>Its \<^verbatim>\<open>next\<close> and \<^verbatim>\<open>previous\<close> do not look at that count.\<close>

definition const_next :: "'a llist \<Rightarrow> liter \<Rightarrow> 'a outcome \<times> liter" where
  "const_next l it =
     (let c = ln_next (ll_heap l (li_current it)) in
      if c = TAIL then (Throw (NoSuchElementException ''No more elements to return from this ListIterator''), it)
      else (Ret (ln_value (ll_heap l c)), it\<lparr>li_current := c, li_last := c, li_index := li_index it + 1\<rparr>))"

definition li_next :: "'a llist \<Rightarrow> liter \<Rightarrow> 'a outcome \<times> liter" where
  "li_next l it =
     (if li_expected it \<noteq> ll_modCount l then (Throw concurrent_error, it)
      else
        (let c = ln_next (ll_heap l (li_current it)) in
         if c = TAIL then (Throw (NoSuchElementException ''No more elements to return from next()''), it)
         else (Ret (ln_value (ll_heap l c)), it\<lparr>li_current := c, li_last := c, li_index := li_index it + 1\<rparr>)))"

definition const_previous :: "'a llist \<Rightarrow> liter \<Rightarrow> 'a outcome \<times> liter" where
  "const_previous l it =
     (if li_current it = HEAD then
        (Throw (IllegalStateException ''No previous element, must call next() before calling previous().''), it)
      else
        (let c = li_current it in
         (Ret (ln_value (ll_heap l c)),
          it\<lparr>li_last := c, li_current := ln_prev (ll_heap l c), li_index := li_index it - 1\<rparr>)))"

definition li_previous :: "'a llist \<Rightarrow> liter \<Rightarrow> 'a outcome \<times> liter" where
  "li_previous l it =
     (if li_expected it \<noteq> ll_modCount l then (Throw concurrent_error, it) else const_previous l it)"

definition li_remove :: "'a llist \<Rightarrow> liter \<Rightarrow> unit outcome \<times> 'a llist \<times> liter" where
  "li_remove l it =
     (if li_expected it \<noteq> ll_modCount l then (Throw concurrent_error, l, it)
      else if li_last it = 0 then
        (Throw (IllegalStateException ''Invalid State to call remove, must call next() before remove()''), l, it)
      else
        (let x = li_last it; q = ln_next (ll_heap l x); p = ln_prev (ll_heap l x) in
         (Ret (), count_change (- 1) (link_out p x q l),
          \<lparr>li_current = p, li_last = 0,
           li_index = (if li_current it = x then li_index it - 1 else li_index it),
           li_expected = li_expected it + 1\<rparr>)))"

definition li_add :: "'a \<Rightarrow> 'a llist \<Rightarrow> liter \<Rightarrow> unit outcome \<times> 'a llist \<times> liter" where
  "li_add e l it =
     (if li_expected it \<noteq> ll_modCount l then (Throw concurrent_error, l, it)
      else
        (Ret (), count_change 1 (link_in (li_current it) (ln_next (ll_heap l (li_current it))) e l),
         \<lparr>li_current = ll_new l, li_last = 0, li_index = li_index it + 1, li_expected = li_expected it + 1\<rparr>))"

definition li_set :: "'a \<Rightarrow> 'a llist \<Rightarrow> liter \<Rightarrow> unit outcome \<times> 'a llist" where
  "li_set e l it =
     (if li_expected it \<noteq> ll_modCount l then (Throw concurrent_error, l)
      else if li_last it \<noteq> 0 then
        (let x = li_last it; h = ll_heap l in (Ret (), l\<lparr>ll_heap := h(x := (h x)\<lparr>ln_value := e\<rparr>)\<rparr>))
      else (Throw (IllegalStateException ''Iterator next has not been called.''), l))"

definition li_nextIndex :: "liter \<Rightarrow> int" where
  "li_nextIndex it = li_index it + 1"

definition li_previousIndex :: "liter \<Rightarrow> int" where
  "li_previousIndex it = li_index it"

definition const_write :: "'a llist \<Rightarrow> liter \<Rightarrow> unit outcome \<times> 'a llist \<times> liter" where
  "const_write l it = (Throw (UnsupportedOperationException ''Cannot write to a const ListIterator.''), l, it)"

text \<open>\<^verbatim>\<open>ReverseIterator\<close>.\<close>

record riter =
  ri_current :: addr
  ri_expected :: int
  ri_canRemove :: bool

definition descendingIterator :: "'a llist \<Rightarrow> riter" where
  "descendingIterator l = \<lparr>ri_current = TAIL, ri_expected = ll_modCount l, ri_canRemove = False\<rparr>"

definition ri_hasNext :: "'a llist \<Rightarrow> riter \<Rightarrow> bool" where
  "ri_hasNext l it \<longleftrightarrow> ln_prev (ll_heap l (ri_current it)) \<noteq> HEAD"

definition const_ri_next :: "'a llist \<Rightarrow> riter \<Rightarrow> 'a outcome \<times> riter" where
  "const_ri_next l it =
     (let c = ln_prev (ll_heap l (ri_current it)) in
      if c = HEAD then (Throw (NoSuchElementException ''No more elements to return from next()''), it)
      else (Ret (ln_value (ll_heap l c)), it\<lparr>ri_current := c\<rparr>))"

definition ri_next :: "'a llist \<Rightarrow> riter \<Rightarrow> 'a outcome \<times> riter" where
  "ri_next l it =
     (if ri_expected it \<noteq> ll_modCount l then (Throw concurrent_error, it)
      else
        (let c = ln_prev (ll_heap l (ri_current it)) in
         if c = HEAD then (Throw (NoSuchElementException ''No more elements to return from next()''), it)
         else (Ret (ln_value (ll_heap l c)), it\<lparr>ri_current := c, ri_canRemove := True\<rparr>)))"

definition ri_remove :: "'a llist \<Rightarrow> riter \<Rightarrow> unit outcome \<times> 'a llist \<times> riter" where
  "ri_remove l it =
     (if ri_expected it \<noteq> ll_modCount l then (Throw concurrent_error, l, it)
      else if \<not> ri_canRemove it then
        (Throw (IllegalStateException ''Invalid State to call remove, must call next() before remove()''), l, it)
      else
        (let x = ri_current it; p = ln_prev (ll_heap l x); q = ln_next (ll_heap l x) in
         (Ret (), count_change (- 1) (link_out p x q l),
          \<lparr>ri_current = q, ri_expected = ri_expected it + 1, ri_canRemove = False\<rparr>)))"

definition const_ri_remove :: "'a llist \<Rightarrow> riter \<Rightarrow> unit outcome \<times> 'a llist \<times> riter" where
  "const_ri_remove l it = (Throw (UnsupportedOperationException ''Cannot write to a const Iterator.''), l, it)"

text \<open>
  The functions the base classes use, forwards and backwards.  \<^verbatim>\<open>iterator()\<close> is \<^verbatim>\<open>listIterator(0)\<close>, whose range
  check cannot fail for a list of non-negative size.
\<close>

definition first_iterator :: "'a llist \<Rightarrow> liter" where
  "first_iterator l =
     (case listIterator 0 l of
        Ret it \<Rightarrow> it
      | _ \<Rightarrow> \<lparr>li_current = HEAD, li_last = 0, li_index = - 1, li_expected = ll_modCount l\<rparr>)"

definition ll_coll :: "('a llist, liter, 'a) coll_ops" where
  "ll_coll = \<lparr>v_size = ll_size, v_iterator = first_iterator, v_hasNext = li_hasNext, v_next = li_next,
     v_remove = li_remove, v_add = ll_add, v_clear = \<lambda>l. (Ret (), ll_clear l)\<rparr>"

text \<open>\<^verbatim>\<open>operator==\<close>, and with the negated answer \<^verbatim>\<open>operator!=\<close>: the inherited \<^verbatim>\<open>equals\<close>.\<close>

definition ll_equal :: "nat \<Rightarrow> bool \<Rightarrow> 'a list \<Rightarrow> 'a llist \<Rightarrow> (bool outcome \<times> 'a llist) option" where
  "ll_equal n same_object other l = coll_equals n ll_coll same_object other l"

definition ll_reverse :: "('a llist, riter, 'a) coll_ops" where
  "ll_reverse = \<lparr>v_size = ll_size, v_iterator = descendingIterator, v_hasNext = ri_hasNext, v_next = ri_next,
     v_remove = ri_remove, v_add = ll_add, v_clear = \<lambda>l. (Ret (), ll_clear l)\<rparr>"

definition ll_queue :: "('a llist, 'a) queue_ops" where
  "ll_queue = \<lparr>v_offer = ll_offer, v_poll = ll_poll, v_peek = \<lambda>r l. (ll_peek r l, l)\<rparr>"

definition removeFirstOccurrence :: "'a \<Rightarrow> 'a llist \<Rightarrow> (bool outcome \<times> 'a llist) option" where
  "removeFirstOccurrence v l = coll_remove (ll_new l) ll_coll v l"

definition ll_remove :: "'a \<Rightarrow> 'a llist \<Rightarrow> (bool outcome \<times> 'a llist) option" where
  "ll_remove v l = removeFirstOccurrence v l"

definition removeLastOccurrence :: "'a \<Rightarrow> 'a llist \<Rightarrow> (bool outcome \<times> 'a llist) option" where
  "removeLastOccurrence v l = coll_remove (ll_new l) ll_reverse v l"

section \<open>AbstractSequentialList\<close>

text \<open>
  Every access goes through a list iterator at the index; an iterator that runs off the end is an
  index out of bounds.
\<close>

definition no_element :: "string \<Rightarrow> 'b outcome \<Rightarrow> 'b outcome" where
  "no_element msg r =
     (case r of Throw (ContainerException NoSuchElement _) \<Rightarrow> Throw (IndexOutOfBoundsException msg) | _ \<Rightarrow> r)"

definition seq_get :: "int \<Rightarrow> 'a llist \<Rightarrow> 'a outcome" where
  "seq_get index l =
     no_element ''get called with invalid index.''
       (case const_listIterator index l of
          Ret it \<Rightarrow> fst (const_next l it)
        | Throw x \<Rightarrow> Throw x
        | Undefined f \<Rightarrow> Undefined f)"

definition seq_set :: "int \<Rightarrow> 'a \<Rightarrow> 'a llist \<Rightarrow> 'a outcome \<times> 'a llist" where
  "seq_set index element l =
     apfst (no_element ''set called with invalid index.'')
       (case listIterator index l of
          Ret it \<Rightarrow>
            (case li_next l it of
               (Ret result, it') \<Rightarrow>
                 (case li_set element l it' of
                    (Ret _, l') \<Rightarrow> (Ret result, l')
                  | (Throw x, l') \<Rightarrow> (Throw x, l')
                  | (Undefined f, l') \<Rightarrow> (Undefined f, l'))
             | (Throw x, _) \<Rightarrow> (Throw x, l)
             | (Undefined f, _) \<Rightarrow> (Undefined f, l))
        | Throw x \<Rightarrow> (Throw x, l)
        | Undefined f \<Rightarrow> (Undefined f, l))"

definition seq_add :: "int \<Rightarrow> 'a \<Rightarrow> 'a llist \<Rightarrow> unit outcome \<times> 'a llist" where
  "seq_add index element l =
     apfst (no_element ''add called with invalid index.'')
       (case listIterator index l of
          Ret it \<Rightarrow> (case li_add element l it of (r, l', _) \<Rightarrow> (r, l'))
        | Throw x \<Rightarrow> (Throw x, l)
        | Undefined f \<Rightarrow> (Undefined f, l))"

definition removeAt :: "int \<Rightarrow> 'a llist \<Rightarrow> 'a outcome \<times> 'a llist" where
  "removeAt index l =
     apfst (no_element ''set called with invalid index.'')
       (case listIterator index l of
          Ret it \<Rightarrow>
            (case li_next l it of
               (Ret result, it') \<Rightarrow>
                 (case li_remove l it' of
                    (Ret _, l', _) \<Rightarrow> (Ret result, l')
                  | (Throw x, l', _) \<Rightarrow> (Throw x, l')
                  | (Undefined f, l', _) \<Rightarrow> (Undefined f, l'))
             | (Throw x, _) \<Rightarrow> (Throw x, l)
             | (Undefined f, _) \<Rightarrow> (Undefined f, l))
        | Throw x \<Rightarrow> (Throw x, l)
        | Undefined f \<Rightarrow> (Undefined f, l))"

fun li_add_all :: "'a list \<Rightarrow> 'a llist \<Rightarrow> liter \<Rightarrow> unit outcome \<times> 'a llist \<times> liter" where
  "li_add_all [] l it = (Ret (), l, it)"
| "li_add_all (v # vs) l it =
     (case li_add v l it of
        (Ret _, l', it') \<Rightarrow> li_add_all vs l' it'
      | (Throw x, l', it') \<Rightarrow> (Throw x, l', it')
      | (Undefined f, l', it') \<Rightarrow> (Undefined f, l', it'))"

definition seq_addAll :: "int \<Rightarrow> 'a list \<Rightarrow> 'a llist \<Rightarrow> bool outcome \<times> 'a llist" where
  "seq_addAll index source l =
     (case listIterator index l of
        Ret it \<Rightarrow>
          (case li_add_all source l it of
             (Ret _, l', it') \<Rightarrow> (Ret (li_nextIndex it \<noteq> li_nextIndex it'), l')
           | (Throw x, l', _) \<Rightarrow> (Throw x, l')
           | (Undefined f, l', _) \<Rightarrow> (Undefined f, l'))
      | Throw x \<Rightarrow> (Throw x, l)
      | Undefined f \<Rightarrow> (Undefined f, l))"

section \<open>Invariant\<close>

text \<open>Consecutive nodes point at each other.\<close>

fun linked :: "(addr \<Rightarrow> 'a lnode) \<Rightarrow> addr list \<Rightarrow> bool" where
  "linked h [] = True"
| "linked h [x] = True"
| "linked h (x # y # zs) \<longleftrightarrow> ln_next (h x) = y \<and> ln_prev (h y) = x \<and> linked h (y # zs)"

text \<open>
  \<open>ps\<close> are the nodes between the sentinels; they are distinct, and every allocated node is one of them or
  was deleted, but not both and not twice.
\<close>

definition ll_rep :: "'a llist \<Rightarrow> addr list \<Rightarrow> bool" where
  "ll_rep l ps \<longleftrightarrow> linked (ll_heap l) (HEAD # ps @ [TAIL]) \<and> distinct (HEAD # TAIL # ps @ ll_deleted l)
     \<and> set (HEAD # TAIL # ps @ ll_deleted l) = {1..<ll_new l} \<and> ll_size l = int (length ps)"

definition ll_nodes :: "'a llist \<Rightarrow> addr list" where
  "ll_nodes l = map (\<lambda>k. walk_next (Suc k) (ll_heap l) HEAD) [0..<nat (ll_size l)]"

definition ll_ok :: "'a llist \<Rightarrow> bool" where
  "ll_ok l \<longleftrightarrow> ll_rep l (ll_nodes l)"

definition vals :: "'a llist \<Rightarrow> addr list \<Rightarrow> 'a list" where
  "vals l ps = map (\<lambda>p. ln_value (ll_heap l p)) ps"

definition elems :: "'a llist \<Rightarrow> 'a list" where
  "elems l = vals l (ll_nodes l)"

lemma linked_append:
  "A \<noteq> [] \<Longrightarrow> B \<noteq> [] \<Longrightarrow> linked h (A @ B) \<longleftrightarrow> linked h A \<and> linked h B \<and> ln_next (h (last A)) = hd B \<and> ln_prev (h (hd B)) = last A"
proof (induction h A rule: linked.induct)
  case (2 h x)
  then show ?case by (cases B) auto
qed auto

lemma linked_cong:
  assumes "\<And>x. x \<in> set (butlast A) \<Longrightarrow> ln_next (h' x) = ln_next (h x)" and "\<And>x. x \<in> set (tl A) \<Longrightarrow> ln_prev (h' x) = ln_prev (h x)"
  shows "linked h' A = linked h A"
  using assms
proof (induction h A rule: linked.induct)
  case (3 h x y zs)
  have "linked h' (y # zs) = linked h (y # zs)" by (rule 3) (use 3(2,3) in auto)
  moreover have "ln_next (h' x) = ln_next (h x)" "ln_prev (h' y) = ln_prev (h y)" using 3(2) [of x] 3(3) [of y] by simp_all
  ultimately show ?case by simp
qed simp_all

lemma linked_nth:
  "linked h C \<Longrightarrow> Suc i < length C \<Longrightarrow> ln_next (h (C ! i)) = C ! Suc i \<and> ln_prev (h (C ! Suc i)) = C ! i"
  by (induction h C arbitrary: i rule: linked.induct) (auto simp: nth_Cons split: nat.split)

lemma walk_next_nth: "linked h C \<Longrightarrow> i + k < length C \<Longrightarrow> walk_next k h (C ! i) = C ! (i + k)"
  by (induction k arbitrary: i) (simp_all add: linked_nth)

lemma walk_prev_nth: "linked h C \<Longrightarrow> k \<le> i \<Longrightarrow> i < length C \<Longrightarrow> walk_prev k h (C ! i) = C ! (i - k)"
proof (induction k arbitrary: i)
  case (Suc k)
  then obtain j where j: "i = Suc j" by (cases i) auto
  have "ln_prev (h (C ! i)) = C ! j" using linked_nth [OF Suc.prems(1), of j] Suc.prems(3) j by simp
  with Suc j show ?case by simp
qed simp

lemma rep_walk:
  assumes "ll_rep l ps"
  shows "k \<le> Suc (length ps) \<Longrightarrow> walk_next k (ll_heap l) HEAD = (HEAD # ps @ [TAIL]) ! k"
    and "k \<le> Suc (length ps) \<Longrightarrow> walk_prev k (ll_heap l) TAIL = (HEAD # ps @ [TAIL]) ! (Suc (length ps) - k)"
  using assms walk_next_nth [of "ll_heap l" "HEAD # ps @ [TAIL]" 0 k]
    walk_prev_nth [of "ll_heap l" "HEAD # ps @ [TAIL]" k "Suc (length ps)"]
  by (auto simp: ll_rep_def nth_append)

lemma rep_nodes: "ll_rep l ps \<Longrightarrow> ll_nodes l = ps"
proof (rule nth_equalityI)
  assume r: "ll_rep l ps"
  then show "length (ll_nodes l) = length ps" by (simp add: ll_nodes_def ll_rep_def)
  then show "ll_nodes l ! i = ps ! i" if "i < length (ll_nodes l)" for i
    using rep_walk(1) [OF r, of "Suc i"] that by (simp add: ll_nodes_def nth_append)
qed

lemma rep_ok: "ll_rep l ps \<Longrightarrow> ll_ok l \<and> ll_nodes l = ps \<and> elems l = vals l ps"
  by (simp add: ll_ok_def elems_def rep_nodes)

lemma okE:
  assumes "ll_ok l"
  obtains ps where "ll_rep l ps" and "elems l = vals l ps"
  using assms that by (simp add: ll_ok_def elems_def)

lemma ok_size: "ll_ok l \<Longrightarrow> ll_size l = int (length (elems l))"
  by (simp add: ll_ok_def ll_rep_def elems_def vals_def)

lemma rep_split:
  assumes "ll_rep l (xs @ ys)"
  shows "linked (ll_heap l) (HEAD # xs)" and "linked (ll_heap l) (ys @ [TAIL])"
    and "ln_next (ll_heap l (last (HEAD # xs))) = hd (ys @ [TAIL])" and "ln_prev (ll_heap l (hd (ys @ [TAIL]))) = last (HEAD # xs)"
  using assms linked_append [of "HEAD # xs" "ys @ [TAIL]" "ll_heap l"] by (simp_all add: ll_rep_def)

section \<open>Linking nodes in and out\<close>

lemma disjoint_ends:
  assumes "distinct (HEAD # TAIL # xs @ ys @ zs)"
  shows "set (HEAD # xs) \<inter> set (ys @ [TAIL]) = {}" and "distinct (HEAD # xs)" and "distinct (ys @ [TAIL])"
    and "last (HEAD # xs) \<in> set (HEAD # xs)" and "hd (ys @ [TAIL]) \<in> set (ys @ [TAIL])"
    and "last (HEAD # xs) \<notin> set (butlast (HEAD # xs))" and "hd (ys @ [TAIL]) \<notin> set (tl (ys @ [TAIL]))"
proof -
  show d: "set (HEAD # xs) \<inter> set (ys @ [TAIL]) = {}" "distinct (HEAD # xs)" "distinct (ys @ [TAIL])"
    using assms by auto
  show "last (HEAD # xs) \<in> set (HEAD # xs)" by (rule last_in_set) simp
  show "hd (ys @ [TAIL]) \<in> set (ys @ [TAIL])" by (rule hd_in_set) simp
  show "last (HEAD # xs) \<notin> set (butlast (HEAD # xs))"
    using d(2) by (metis append_butlast_last_id distinct_append disjoint_insert(2) list.distinct(1) list.set_intros(1) list.simps(15))
  show "hd (ys @ [TAIL]) \<notin> set (tl (ys @ [TAIL]))" using d(3) by (cases ys) auto
qed

lemma link_in_effect:
  assumes rep: "ll_rep l (xs @ ys)"
  defines "p \<equiv> last (HEAD # xs)" and "q \<equiv> hd (ys @ [TAIL])" and "a \<equiv> ll_new l"
  shows "ll_rep (count_change 1 (link_in p q v l)) (xs @ a # ys)"
    and "vals (count_change 1 (link_in p q v l)) (xs @ a # ys) = vals l xs @ v # vals l ys"
proof -
  let ?A = "HEAD # xs" and ?B = "ys @ [TAIL]" and ?h = "ll_heap l"
  have eq: "set (HEAD # TAIL # xs @ ys @ ll_deleted l) = {1..<a}" using rep by (simp add: ll_rep_def a_def)
  then have D: "distinct (HEAD # TAIL # xs @ ys @ ll_deleted l)" "set (HEAD # TAIL # xs @ ys @ ll_deleted l) \<subseteq> {1..<a}"
    "ll_size l = int (length (xs @ ys))" using rep by (simp_all add: ll_rep_def)
  note E = disjoint_ends [OF D(1), folded p_def q_def]
  have fresh: "a \<notin> set ?A" "a \<notin> set ?B" "a \<noteq> p" "a \<noteq> q" using D(2) E(4,5) by auto
  have "p \<noteq> q" using E(1,4,5) by blast
  define h' where "h' = ll_heap (link_in p q v l)"
  have h': "h' x = (if x = a then \<lparr>ln_value = v, ln_prev = p, ln_next = q\<rparr>
      else if x = p then (?h x)\<lparr>ln_next := a\<rparr> else if x = q then (?h x)\<lparr>ln_prev := a\<rparr> else ?h x)" for x
    using fresh \<open>p \<noteq> q\<close> by (simp add: h'_def link_in_def a_def Let_def)
  note S = rep_split [OF rep, folded p_def q_def]
  have "linked h' ?A"
  proof (rule linked_cong [THEN iffD2, OF _ _ S(1)])
    show "ln_next (h' x) = ln_next (?h x)" if "x \<in> set (butlast ?A)" for x
      using that E(6) fresh(1) in_set_butlastD [of x ?A] by (auto simp: h')
    show "ln_prev (h' x) = ln_prev (?h x)" if "x \<in> set (tl ?A)" for x
    proof -
      have "x \<in> set ?A" using that by simp
      then have "x \<noteq> q" "x \<noteq> a" using E(1,5) fresh(1) by auto
      then show ?thesis by (simp add: h')
    qed
  qed
  moreover have "linked h' ?B"
  proof (rule linked_cong [THEN iffD2, OF _ _ S(2)])
    show "ln_next (h' x) = ln_next (?h x)" if "x \<in> set (butlast ?B)" for x
    proof -
      have "x \<in> set ?B" using that by (rule in_set_butlastD)
      then have "x \<noteq> p" "x \<noteq> a" using E(1,4) fresh(2) by auto
      then show ?thesis by (simp add: h')
    qed
    show "ln_prev (h' x) = ln_prev (?h x)" if "x \<in> set (tl ?B)" for x
    proof -
      have "x \<in> set ?B" using that by (rule list.set_sel(2) [rotated]) simp
      then show ?thesis using that E(7) fresh(2) by (auto simp: h')
    qed
  qed
  moreover have "ln_next (h' p) = a" "ln_prev (h' a) = p" "ln_next (h' a) = q" "ln_prev (h' q) = a"
    using fresh \<open>p \<noteq> q\<close> by (auto simp: h')
  ultimately have "linked h' (?A @ [a] @ ?B)"
    by (subst linked_append, simp, simp, subst linked_append) (simp_all add: p_def q_def last_ConsL del: last.simps)
  moreover have "ll_heap l' = h'" "ll_deleted l' = ll_deleted l" "ll_new l' = Suc a" "ll_size l' = ll_size l + 1"
    if "l' = count_change 1 (link_in p q v l)" for l'
    using that by (simp_all add: count_change_def h'_def) (simp_all add: link_in_def Let_def a_def)
  moreover have "a \<noteq> 0" "a \<notin> set (ll_deleted l)" using D(2) by (auto simp: HEAD_def)
  then have "set (HEAD # TAIL # (xs @ a # ys) @ ll_deleted l) = {1..<Suc a}"
    "distinct (HEAD # TAIL # (xs @ a # ys) @ ll_deleted l)"
    using eq D(1) fresh by (simp_all add: insert_commute atLeastLessThanSuc) auto
  ultimately show "ll_rep (count_change 1 (link_in p q v l)) (xs @ a # ys)"
    using D(3) by (simp add: ll_rep_def)
  have "ln_value (h' x) = ln_value (?h x)" if "x \<in> set (xs @ ys)" for x using that fresh(1,2) by (auto simp: h')
  moreover have "ll_heap (count_change 1 (link_in p q v l)) = h'" by (simp add: count_change_def h'_def)
  ultimately show "vals (count_change 1 (link_in p q v l)) (xs @ a # ys) = vals l xs @ v # vals l ys"
    by (simp add: vals_def h')
qed

lemma link_out_effect:
  assumes rep: "ll_rep l (xs @ x # ys)"
  defines "p \<equiv> last (HEAD # xs)" and "q \<equiv> hd (ys @ [TAIL])"
  shows "ll_rep (count_change (- 1) (link_out p x q l)) (xs @ ys)"
    and "vals (count_change (- 1) (link_out p x q l)) (xs @ ys) = vals l (xs @ ys)"
    and "ln_next (ll_heap l x) = q" and "ln_prev (ll_heap l x) = p"
proof -
  let ?A = "HEAD # xs" and ?B = "ys @ [TAIL]" and ?h = "ll_heap l"
  have "set (HEAD # TAIL # (xs @ ys) @ x # ll_deleted l) = set (HEAD # TAIL # (xs @ x # ys) @ ll_deleted l)" by auto
  then have D: "distinct (HEAD # TAIL # xs @ ys @ x # ll_deleted l)" "set (HEAD # TAIL # (xs @ ys) @ x # ll_deleted l) = {1..<ll_new l}"
    "ll_size l = int (length (xs @ x # ys))" using rep by (auto simp: ll_rep_def)
  note E = disjoint_ends [OF D(1), folded p_def q_def]
  have "p \<noteq> q" using E(1,4,5) by blast
  define h' where "h' = ll_heap (link_out p x q l)"
  have h': "h' y = (if y = p then (?h y)\<lparr>ln_next := q\<rparr> else if y = q then (?h y)\<lparr>ln_prev := p\<rparr> else ?h y)" for y
    using \<open>p \<noteq> q\<close> by (simp add: h'_def link_out_def Let_def)
  note S = rep_split [OF rep, folded p_def] and T = rep_split [of l "xs @ [x]" ys, folded q_def]
  have S2: "linked ?h ?B" "ln_next (?h x) = q" "ln_prev (?h x) = p" using S(4) T rep by simp_all
  show "ln_next (ll_heap l x) = q" "ln_prev (ll_heap l x) = p" using S2 by simp_all
  have "linked h' ?A"
  proof (rule linked_cong [THEN iffD2, OF _ _ S(1)])
    show "ln_next (h' y) = ln_next (?h y)" if "y \<in> set (butlast ?A)" for y
      using that E(6) by (auto simp: h')
    show "ln_prev (h' y) = ln_prev (?h y)" if "y \<in> set (tl ?A)" for y
    proof -
      have "y \<in> set ?A" using that by simp
      then have "y \<noteq> q" using E(1,5) by auto
      then show ?thesis by (simp add: h')
    qed
  qed
  moreover have "linked h' ?B"
  proof (rule linked_cong [THEN iffD2, OF _ _ S2(1)])
    show "ln_next (h' y) = ln_next (?h y)" if "y \<in> set (butlast ?B)" for y
    proof -
      have "y \<in> set ?B" using that by (rule in_set_butlastD)
      then have "y \<noteq> p" using E(1,4) by auto
      then show ?thesis by (simp add: h')
    qed
    show "ln_prev (h' y) = ln_prev (?h y)" if "y \<in> set (tl ?B)" for y
      using that E(7) by (auto simp: h')
  qed
  moreover have "ln_next (h' p) = q" "ln_prev (h' q) = p" using \<open>p \<noteq> q\<close> by (auto simp: h')
  ultimately have "linked h' (?A @ ?B)"
    by (subst linked_append) (simp_all add: p_def q_def del: last.simps)
  then show "ll_rep (count_change (- 1) (link_out p x q l)) (xs @ ys)"
    using D by (simp add: ll_rep_def count_change_def h'_def) (simp add: link_out_def Let_def)
  have "ln_value (h' y) = ln_value (?h y)" for y by (simp add: h')
  then show "vals (count_change (- 1) (link_out p x q l)) (xs @ ys) = vals l (xs @ ys)"
    by (simp add: vals_def count_change_def h'_def)
qed

section \<open>Effect of the operations\<close>

lemma chain_nth:
  assumes "i \<le> length ps"
  shows "(HEAD # ps @ [TAIL]) ! i = last (HEAD # take i ps)" and "(HEAD # ps @ [TAIL]) ! Suc i = hd (drop i ps @ [TAIL])"
proof -
  show "(HEAD # ps @ [TAIL]) ! i = last (HEAD # take i ps)"
    using assms by (cases i) (auto simp: nth_append last_conv_nth)
  show "(HEAD # ps @ [TAIL]) ! Suc i = hd (drop i ps @ [TAIL])"
    using assms by (cases "i = length ps") (auto simp: nth_append hd_append hd_drop_conv_nth)
qed

lemma vals_simps [simp]: "vals l [] = []" "vals l (p # ps) = ln_value (ll_heap l p) # vals l ps"
  "vals l (xs @ ys) = vals l xs @ vals l ys" "length (vals l ps) = length ps" "vals l (take i ps) = take i (vals l ps)"
  "vals l (drop i ps) = drop i (vals l ps)"
  by (simp_all add: vals_def take_map drop_map)

text \<open>A node linked in before position \<open>i\<close>.\<close>

lemma insert_at:
  fixes v :: 'a
  assumes rep: "ll_rep l ps" and i: "i \<le> length ps"
  defines "l' \<equiv> count_change 1 (link_in (last (HEAD # take i ps)) (hd (drop i ps @ [TAIL])) v l)"
  shows "ll_rep l' (take i ps @ ll_new l # drop i ps)" and "ll_ok l'"
    and "elems l' = take i (vals l ps) @ v # drop i (vals l ps)"
proof -
  have r: "ll_rep l (take i ps @ drop i ps)" using rep by simp
  show l': "ll_rep l' (take i ps @ ll_new l # drop i ps)"
    unfolding l'_def by (rule link_in_effect(1) [OF r])
  have "vals l' (take i ps @ ll_new l # drop i ps) = take i (vals l ps) @ v # drop i (vals l ps)"
    using link_in_effect(2) [OF r, of v] unfolding l'_def by simp
  then show "ll_ok l'" "elems l' = take i (vals l ps) @ v # drop i (vals l ps)" using rep_ok [OF l'] by simp_all
qed

lemma nth_first: "ll_rep l ps \<Longrightarrow> ln_next (ll_heap l HEAD) = hd (ps @ [TAIL])"
  using rep_split(3) [of l "[]" ps] by simp

lemma nth_last: "ll_rep l ps \<Longrightarrow> ln_prev (ll_heap l TAIL) = last (HEAD # ps)"
  using rep_split(4) [of l ps "[]"] by simp

lemma addToFront_effect: "ll_ok l \<Longrightarrow> ll_ok (addToFront v l) \<and> elems (addToFront v l) = v # elems l"
  using insert_at [of l "ll_nodes l" 0 v] nth_first [of l "ll_nodes l"]
  by (simp add: ll_ok_def addToFront_def elems_def)

lemma addToEnd_effect: "ll_ok l \<Longrightarrow> ll_ok (addToEnd v l) \<and> elems (addToEnd v l) = elems l @ [v]"
  using insert_at [of l "ll_nodes l" "length (ll_nodes l)" v] nth_last [of l "ll_nodes l"]
  by (simp add: ll_ok_def addToEnd_def elems_def del: last.simps)

lemma addAtLocation_effect:
  assumes ok: "ll_ok l" and i: "i \<le> length (elems l)"
  shows "ll_ok (addAtLocation (int i) v l) \<and> elems (addAtLocation (int i) v l) = take i (elems l) @ v # drop i (elems l)"
proof -
  let ?ps = "ll_nodes l" and ?h = "ll_heap l"
  have rep: "ll_rep l ?ps" using ok by (simp add: ll_ok_def)
  have n: "ll_size l = int (length ?ps)" "i \<le> length ?ps" using rep i by (simp_all add: ll_rep_def elems_def)
  define q where "q = hd (drop i ?ps @ [TAIL])"
  have "walk_next i ?h (ln_next (?h HEAD)) = q"
    using rep_walk(1) [OF rep, of "Suc i"] chain_nth(2) [OF n(2)] n(2) by (simp add: q_def)
  moreover have "walk_prev (length ?ps - i) ?h TAIL = q"
    using rep_walk(2) [OF rep, of "length ?ps - i"] chain_nth(2) [OF n(2)] n(2) by (simp add: q_def Suc_diff_le)
  moreover have "nat (int (length ?ps) - int i) = length ?ps - i" by simp
  moreover have "ln_prev (?h q) = last (HEAD # take i ?ps)"
    using rep_split(4) [of l "take i ?ps" "drop i ?ps"] rep unfolding q_def by simp
  ultimately have "addAtLocation (int i) v l = count_change 1 (link_in (last (HEAD # take i ?ps)) q v l)"
    by (simp add: addAtLocation_def Let_def n(1) del: last.simps)
  then show ?thesis using insert_at [OF rep n(2), of v, folded q_def] by (simp add: elems_def del: last.simps)
qed

text \<open>A node linked out at position \<open>i\<close>.\<close>

lemma delete_at:
  assumes rep: "ll_rep l ps" and i: "i < length ps"
  defines "l' \<equiv> count_change (- 1) (link_out (last (HEAD # take i ps)) (ps ! i) (hd (drop (Suc i) ps @ [TAIL])) l)"
  shows "ll_rep l' (take i ps @ drop (Suc i) ps)" and "ll_ok l'"
    and "elems l' = take i (vals l ps) @ drop (Suc i) (vals l ps)"
    and "vals l' (take i ps @ drop (Suc i) ps) = take i (vals l ps) @ drop (Suc i) (vals l ps)"
proof -
  have r: "ll_rep l (take i ps @ ps ! i # drop (Suc i) ps)" using rep id_take_nth_drop [OF i] by simp
  show l': "ll_rep l' (take i ps @ drop (Suc i) ps)"
    unfolding l'_def by (rule link_out_effect(1) [OF r])
  show v: "vals l' (take i ps @ drop (Suc i) ps) = take i (vals l ps) @ drop (Suc i) (vals l ps)"
    using link_out_effect(2) [OF r] unfolding l'_def by simp
  then show "ll_ok l'" "elems l' = take i (vals l ps) @ drop (Suc i) (vals l ps)" using rep_ok [OF l'] by simp_all
qed

lemma neighbours:
  assumes rep: "ll_rep l ps" and i: "i < length ps"
  shows "ln_next (ll_heap l (ps ! i)) = hd (drop (Suc i) ps @ [TAIL])" and "ln_prev (ll_heap l (ps ! i)) = last (HEAD # take i ps)"
  using link_out_effect(3,4) [of l "take i ps" "ps ! i" "drop (Suc i) ps"] rep id_take_nth_drop [OF i] by simp_all

lemma rep_not_sentinel: "ll_rep l ps \<Longrightarrow> p \<in> set ps \<Longrightarrow> p \<noteq> HEAD \<and> p \<noteq> TAIL \<and> p \<noteq> 0"
proof -
  assume r: "ll_rep l ps" and p: "p \<in> set ps"
  then have "p \<in> {1..<ll_new l}" unfolding ll_rep_def by (metis UnCI list.set_intros(2) set_append)
  with r p show ?thesis by (auto simp: ll_rep_def)
qed

lemma removeAtFront_effect:
  assumes ok: "ll_ok l"
  shows "if elems l = [] then removeAtFront l = (Throw (NoSuchElementException ''The Collection is empty.''), l)
     else \<exists>l'. removeAtFront l = (Ret (hd (elems l)), l') \<and> ll_ok l' \<and> elems l' = tl (elems l)"
proof -
  have rep: "ll_rep l (ll_nodes l)" using ok by (simp add: ll_ok_def)
  show ?thesis
  proof (cases "ll_nodes l")
    case Nil
    then show ?thesis using nth_first [OF rep] by (simp add: removeAtFront_def elems_def)
  next
    case (Cons p ps)
    then have h: "ln_next (ll_heap l HEAD) = p" "p \<noteq> TAIL" "ln_next (ll_heap l p) = hd (ps @ [TAIL])"
      using nth_first [OF rep] rep_not_sentinel [OF rep, of p] neighbours(1) [OF rep, of 0] by simp_all
    with delete_at(2,3) [OF rep, of 0] Cons show ?thesis by (simp add: removeAtFront_def elems_def)
  qed
qed

lemma removeAtEnd_effect:
  assumes ok: "ll_ok l"
  shows "if elems l = [] then removeAtEnd l = (Throw (NoSuchElementException ''The Collection is empty.''), l)
     else \<exists>l'. removeAtEnd l = (Ret (last (elems l)), l') \<and> ll_ok l' \<and> elems l' = butlast (elems l)"
proof -
  let ?ps = "ll_nodes l"
  have rep: "ll_rep l ?ps" using ok by (simp add: ll_ok_def)
  show ?thesis
  proof (cases "?ps = []")
    case True
    then show ?thesis using nth_first [OF rep] by (simp add: removeAtEnd_def elems_def)
  next
    case False
    define i where "i = length ?ps - 1"
    have i: "i < length ?ps" "Suc i = length ?ps" "?ps ! i = last ?ps" using False by (simp_all add: i_def last_conv_nth)
    have "ln_next (ll_heap l HEAD) \<noteq> TAIL"
      using nth_first [OF rep] rep_not_sentinel [OF rep, of "hd ?ps"] False by (simp add: hd_append)
    moreover have "ln_prev (ll_heap l TAIL) = ?ps ! i" using nth_last [OF rep] False i by simp
    moreover have "ln_prev (ll_heap l (?ps ! i)) = last (HEAD # take i ?ps)" by (rule neighbours(2) [OF rep i(1)])
    ultimately have "removeAtEnd l = (Ret (ln_value (ll_heap l (?ps ! i))),
        count_change (- 1) (link_out (last (HEAD # take i ?ps)) (?ps ! i) TAIL l))"
      by (simp add: removeAtEnd_def Let_def del: last.simps)
    moreover have "drop (Suc i) ?ps = []" using i(2) by simp
    moreover have "ln_value (ll_heap l (?ps ! i)) = last (elems l)"
      using False i(3) by (simp add: elems_def vals_def last_map)
    moreover have "take i (elems l) = butlast (elems l)" by (simp add: butlast_conv_take i_def elems_def)
    ultimately show ?thesis using delete_at(2,3) [OF rep i(1)] False by (simp add: elems_def vals_def del: last.simps)
  qed
qed

text \<open>Adding a collection: the size is set once, after the last element.\<close>

lemma rep_modCount [simp]: "ll_rep (l\<lparr>ll_modCount := m\<rparr>) ps = ll_rep l ps"
  by (simp add: ll_rep_def)

lemma vals_frame [simp]: "vals (l\<lparr>ll_modCount := m\<rparr>) ps = vals l ps" "vals (l\<lparr>ll_size := n\<rparr>) ps = vals l ps"
  by (simp_all add: vals_def)

lemma link_in_frame: "link_in p q v (l\<lparr>ll_size := n\<rparr>) = (link_in p q v l)\<lparr>ll_size := n\<rparr>"
  by (simp add: link_in_def Let_def)

lemma link_all_effect:
  assumes "ll_rep (l\<lparr>ll_size := int (length (xs @ ys))\<rparr>) (xs @ ys)"
  shows "\<exists>as. ll_rep ((link_all (last (HEAD # xs)) vs l)\<lparr>ll_size := int (length (xs @ as @ ys))\<rparr>) (xs @ as @ ys)
     \<and> length as = length vs \<and> vals (link_all (last (HEAD # xs)) vs l) (xs @ as @ ys) = vals l xs @ vs @ vals l ys"
  using assms
proof (induction vs arbitrary: l xs)
  case Nil
  then show ?case by (intro exI [of _ "[]"]) simp
next
  case (Cons v vs)
  let ?p = "last (HEAD # xs)" and ?a = "ll_new l"
  let ?ls = "l\<lparr>ll_size := int (length (xs @ ys))\<rparr>"
  define l1 where "l1 = link_in ?p (hd (ys @ [TAIL])) v l"
  have q: "ln_next (ll_heap l ?p) = hd (ys @ [TAIL])" using rep_split(3) [OF Cons.prems] by simp
  have c: "count_change 1 (link_in ?p (hd (ys @ [TAIL])) v ?ls) =
      l1\<lparr>ll_size := int (length ((xs @ [?a]) @ ys)), ll_modCount := ll_modCount l + 1\<rparr>"
    by (simp add: count_change_def link_in_frame l1_def) (simp add: link_in_def Let_def)
  note E = link_in_effect [OF Cons.prems, of v, unfolded c]
  have r1: "ll_rep (l1\<lparr>ll_size := int (length ((xs @ [?a]) @ ys))\<rparr>) ((xs @ [?a]) @ ys)"
    using E(1) by (simp add: ll_rep_def)
  have v1: "vals l1 (xs @ [?a]) @ vals l1 ys = vals l xs @ v # vals l ys" using E(2) by (simp add: vals_def)
  then have v2: "vals l1 (xs @ [?a]) = vals l xs @ [v]" "vals l1 ys = vals l ys"
    using append_eq_append_conv [of "vals l1 (xs @ [?a])" "vals l xs @ [v]" "vals l1 ys" "vals l ys"] by auto
  obtain as where as: "ll_rep ((link_all (last (HEAD # xs @ [?a])) vs l1)\<lparr>ll_size := int (length ((xs @ [?a]) @ as @ ys))\<rparr>) ((xs @ [?a]) @ as @ ys)"
    "length as = length vs" "vals (link_all (last (HEAD # xs @ [?a])) vs l1) ((xs @ [?a]) @ as @ ys) = vals l1 (xs @ [?a]) @ vs @ vals l1 ys"
    using Cons.IH [OF r1] by blast
  have "link_all ?p (v # vs) l = link_all (last (HEAD # xs @ [?a])) vs l1" by (simp add: q l1_def del: last.simps) simp
  with as v2 show ?case by (intro exI [of _ "?a # as"]) simp
qed

lemma addAllAtLocation_effect:
  assumes ok: "ll_ok l" and i: "i \<le> length (elems l)"
  shows "\<exists>l'. addAllAtLocation (int i) vs l = (Ret (vs \<noteq> []), l') \<and> ll_ok l'
     \<and> elems l' = take i (elems l) @ vs @ drop i (elems l)"
proof (cases "vs = []")
  case True
  then show ?thesis using ok i ok_size [OF ok] by (auto simp: addAllAtLocation_def)
next
  case False
  let ?ps = "ll_nodes l" and ?h = "ll_heap l"
  have rep: "ll_rep l ?ps" using ok by (simp add: ll_ok_def)
  have n: "ll_size l = int (length ?ps)" "i \<le> length ?ps" using rep i by (simp_all add: ll_rep_def elems_def)
  define p where "p = last (HEAD # take i ?ps)"
  have "walk_next i ?h HEAD = p" using rep_walk(1) [OF rep, of i] chain_nth(1) [OF n(2)] n(2) by (simp add: p_def)
  moreover have "walk_prev (Suc (length ?ps - i)) ?h TAIL = p"
    using rep_walk(2) [OF rep, of "Suc (length ?ps - i)"] chain_nth(1) [OF n(2)] n(2) by (simp add: p_def)
  moreover have "nat (int (length ?ps) - int i + 1) = Suc (length ?ps - i)" using n(2) by simp
  ultimately have call: "addAllAtLocation (int i) vs l =
      (Ret True, count_change (int (length vs)) (link_all p vs l))"
    using False n by (simp add: addAllAtLocation_def Let_def del: walk_prev.simps)
  have "l\<lparr>ll_size := int (length (take i ?ps @ drop i ?ps))\<rparr> = l" using n(1) by simp
  then obtain as where as: "ll_rep ((link_all p vs l)\<lparr>ll_size := int (length (take i ?ps @ as @ drop i ?ps))\<rparr>) (take i ?ps @ as @ drop i ?ps)"
    "length as = length vs" "vals (link_all p vs l) (take i ?ps @ as @ drop i ?ps) = take i (elems l) @ vs @ drop i (elems l)"
    using link_all_effect [where l = l and xs = "take i ?ps" and ys = "drop i ?ps" and vs = vs] rep unfolding p_def elems_def by auto
  have "ll_size (link_all p vs l) = ll_size l" for p
    by (induction vs arbitrary: p l) (simp_all add: link_in_def Let_def)
  then have "count_change (int (length vs)) (link_all p vs l) =
      (link_all p vs l)\<lparr>ll_size := int (length (take i ?ps @ as @ drop i ?ps)), ll_modCount := ll_modCount (link_all p vs l) + 1\<rparr>"
    using n as(2) by (simp add: count_change_def)
  then show ?thesis using call as rep_ok [of "count_change (int (length vs)) (link_all p vs l)"] False by simp
qed

lemma locate_nth:
  assumes ok: "ll_ok l" and i: "i < length (elems l)"
  shows "locate (int i) l = ll_nodes l ! i"
proof -
  let ?ps = "ll_nodes l"
  have rep: "ll_rep l ?ps" using ok by (simp add: ll_ok_def)
  have n: "ll_size l = int (length ?ps)" "i < length ?ps" using rep i by (simp_all add: ll_rep_def elems_def)
  have "walk_next (Suc i) (ll_heap l) HEAD = ?ps ! i" using rep_walk(1) [OF rep, of "Suc i"] n(2) by (simp add: nth_append)
  moreover have "walk_prev (length ?ps - i) (ll_heap l) TAIL = ?ps ! i"
    using rep_walk(2) [OF rep, of "length ?ps - i"] n(2) by (simp add: nth_append Suc_diff_le)
  moreover have "nat (int i + 1) = Suc i" "nat (int (length ?ps) - int i) = length ?ps - i" by simp_all
  ultimately show ?thesis by (simp add: locate_def n(1) del: walk_next.simps)
qed

lemma get_effect:
  assumes "ll_ok l"
  shows "ll_get index l = (if 0 \<le> index \<and> index < ll_size l then Ret (elems l ! nat index) else Throw ll_range_error)"
proof (cases "0 \<le> index \<and> index < ll_size l")
  case True
  then have i: "nat index < length (elems l)" "int (nat index) = index" using ok_size [OF assms] by auto
  with True locate_nth [OF assms i(1)] show ?thesis by (simp add: ll_get_def elems_def vals_def)
qed (auto simp: ll_get_def)

lemma set_value:
  fixes v :: 'a
  assumes rep: "ll_rep l ps" and i: "i < length ps"
  defines "l' \<equiv> l\<lparr>ll_heap := (ll_heap l)(ps ! i := (ll_heap l (ps ! i))\<lparr>ln_value := v\<rparr>)\<rparr>"
  shows "ll_rep l' ps" and "vals l' ps = (vals l ps)[i := v]"
proof -
  have "linked (ll_heap l') (HEAD # ps @ [TAIL]) = linked (ll_heap l) (HEAD # ps @ [TAIL])"
    by (rule linked_cong) (simp_all add: l'_def)
  then show "ll_rep l' ps" using rep by (simp add: ll_rep_def) (simp add: l'_def)
  have "distinct ps" using rep by (simp add: ll_rep_def)
  then show "vals l' ps = (vals l ps)[i := v]"
    using i by (auto intro!: nth_equalityI simp: vals_def l'_def nth_list_update nth_eq_iff_index_eq)
qed

lemma set_effect:
  assumes "ll_ok l"
  shows "if 0 \<le> index \<and> index < ll_size l
     then \<exists>l'. ll_set index v l = (Ret (elems l ! nat index), l') \<and> ll_ok l' \<and> elems l' = (elems l)[nat index := v]
     else ll_set index v l = (Throw ll_range_error, l)"
proof (cases "0 \<le> index \<and> index < ll_size l")
  case True
  then have i: "nat index < length (elems l)" "int (nat index) = index" using ok_size [OF assms] by auto
  have rep: "ll_rep l (ll_nodes l)" and n: "nat index < length (ll_nodes l)" using assms i by (simp_all add: ll_ok_def elems_def)
  note S = set_value [OF rep n, of v]
  show ?thesis using True locate_nth [OF assms i(1)] S rep_ok [OF S(1)] i(2) n
    by (simp add: ll_set_def elems_def Let_def) (simp add: vals_def)
qed (auto simp: ll_set_def)

subsection \<open>Walks over the whole list\<close>

lemma nodes_from_suffix:
  assumes "ll_rep l (xs @ ys)" and "length ys < n"
  shows "nodes_from n (ll_heap l) (hd (ys @ [TAIL])) = ys"
  using assms
proof (induction ys arbitrary: xs n)
  case Nil
  then show ?case by (cases n) auto
next
  case (Cons y ys)
  obtain m where m: "n = Suc m" using Cons.prems(2) by (cases n) auto
  have "ln_next (ll_heap l y) = hd (ys @ [TAIL])" using rep_split(3) [of l "xs @ [y]" ys] Cons.prems(1) by simp
  moreover have "nodes_from m (ll_heap l) (hd (ys @ [TAIL])) = ys"
    using Cons.IH [of "xs @ [y]" m] Cons.prems m by simp
  ultimately show ?case using m rep_not_sentinel [OF Cons.prems(1), of y] by simp
qed

lemma rep_bound: "ll_rep l ps \<Longrightarrow> length ps < ll_new l"
proof -
  assume r: "ll_rep l ps"
  then have d: "distinct (HEAD # ps)" and s: "set (HEAD # ps) \<subseteq> {1..<ll_new l}" by (auto simp: ll_rep_def)
  have "length (HEAD # ps) = card (set (HEAD # ps))" using distinct_card [OF d] by simp
  also have "\<dots> \<le> card {1..<ll_new l}" by (rule card_mono) (use s in auto)
  finally show "length ps < ll_new l" by (cases "ll_new l") auto
qed

lemma all_nodes:
  assumes "ll_rep l ps"
  shows "nodes_from (ll_new l) (ll_heap l) (ln_next (ll_heap l HEAD)) = ps"
  using nodes_from_suffix [of l "[]" ps "ll_new l"] nth_first [OF assms] rep_bound [OF assms] assms by simp

lemma toArray_effect: "ll_ok l \<Longrightarrow> ll_toArray l = elems l"
  using all_nodes [of l "ll_nodes l"] by (simp add: ll_ok_def ll_toArray_def elems_def vals_def)

lemma index_from_suffix:
  assumes "ll_rep l (xs @ ys)" and "length ys < n"
  shows "index_from n (ll_heap l) v i (hd (ys @ [TAIL])) = (if v \<in> set (vals l ys) then i + first_index v (vals l ys) else - 1)"
  using assms
proof (induction ys arbitrary: xs n i)
  case Nil
  then show ?case by (cases n) auto
next
  case (Cons y ys)
  obtain m where m: "n = Suc m" using Cons.prems(2) by (cases n) auto
  have "ln_next (ll_heap l y) = hd (ys @ [TAIL])" using rep_split(3) [of l "xs @ [y]" ys] Cons.prems(1) by simp
  moreover have "index_from m (ll_heap l) v (i + 1) (hd (ys @ [TAIL])) =
      (if v \<in> set (vals l ys) then i + 1 + first_index v (vals l ys) else - 1)"
    using Cons.IH [of "xs @ [y]" m "i + 1"] Cons.prems m by simp
  ultimately show ?case using m rep_not_sentinel [OF Cons.prems(1), of y] by (auto simp: first_index_def)
qed

lemma indexOf_effect:
  assumes "ll_ok l"
  shows "ll_indexOf v l = first_index v (elems l)"
proof -
  have rep: "ll_rep l (ll_nodes l)" using assms by (simp add: ll_ok_def)
  show ?thesis
    using index_from_suffix [of l "[]" "ll_nodes l" "ll_new l" v 0] rep rep_bound [OF rep] nth_first [OF rep] ok_size [OF assms]
    by (auto simp: ll_indexOf_def elems_def first_index_def)
qed

lemma contains_effect: "ll_ok l \<Longrightarrow> ll_contains v l \<longleftrightarrow> v \<in> set (elems l)"
  by (simp add: ll_contains_def indexOf_effect first_index_def)

lemma last_index_from_prefix:
  assumes "ll_rep l (xs @ ys)" and "length xs < n"
  shows "last_index_from n (ll_heap l) v (int (length xs) - 1) (last (HEAD # xs)) = last_index v (vals l xs)"
  using assms
proof (induction xs arbitrary: ys n rule: rev_induct)
  case Nil
  then show ?case by (cases n) (auto simp: last_index_def)
next
  case (snoc x xs)
  obtain m where m: "n = Suc m" using snoc.prems(2) by (cases n) auto
  have p: "ln_prev (ll_heap l x) = last (HEAD # xs)" using rep_split(4) [of l xs "x # ys"] snoc.prems(1) by simp
  have IH: "last_index_from m (ll_heap l) v (int (length xs) - 1) (last (HEAD # xs)) = last_index v (vals l xs)"
    using snoc.IH [of "x # ys" m] snoc.prems m by simp
  have "x \<noteq> HEAD" using rep_not_sentinel [OF snoc.prems(1), of x] by simp
  moreover have "int (length (xs @ [x])) - 1 - 1 = int (length xs) - 1" by simp
  ultimately have "last_index_from n (ll_heap l) v (int (length (xs @ [x])) - 1) (last (HEAD # xs @ [x])) =
      (if ln_value (ll_heap l x) = v then int (length xs) else last_index v (vals l xs))"
    using IH by (simp add: m p del: last.simps) (simp add: p IH)
  also have "\<dots> = last_index v (vals l (xs @ [x]))" by (auto simp: last_index_def first_index_def)
  finally show ?case .
qed

lemma lastIndexOf_effect:
  assumes "ll_ok l"
  shows "ll_lastIndexOf v l = last_index v (elems l)"
proof -
  have rep: "ll_rep l (ll_nodes l)" using assms by (simp add: ll_ok_def)
  show ?thesis
    using last_index_from_prefix [of l "ll_nodes l" "[]" "ll_new l" v] rep rep_bound [OF rep] nth_last [OF rep] ok_size [OF assms]
    by (auto simp: ll_lastIndexOf_def elems_def last_index_def)
qed

lemma ll_clear_effect:
  assumes "ll_ok l"
  shows "ll_ok (ll_clear l) \<and> elems (ll_clear l) = [] \<and> ll_deleted (ll_clear l) = rev (ll_nodes l) @ ll_deleted l"
proof -
  have rep: "ll_rep l (ll_nodes l)" using assms by (simp add: ll_ok_def)
  have d: "ll_deleted (ll_clear l) = rev (ll_nodes l) @ ll_deleted l"
    using all_nodes [OF rep] by (simp add: ll_clear_def ll_purgeList_def Let_def)
  have "HEAD \<noteq> TAIL" by (simp add: HEAD_def TAIL_def)
  then have f: "ll_new (ll_clear l) = ll_new l" "ll_size (ll_clear l) = 0" "ln_next (ll_heap (ll_clear l) HEAD) = TAIL"
    "ln_prev (ll_heap (ll_clear l) TAIL) = HEAD"
    by (simp_all add: ll_clear_def ll_purgeList_def Let_def)
  then have "ll_rep (ll_clear l) []" using rep unfolding ll_rep_def d by auto
  from rep_ok [OF this] d show ?thesis by simp
qed

lemma ll_empty_ok: "ll_ok (ll_empty d)" "elems (ll_empty d) = []"
proof -
  have "ll_rep (ll_empty d) []" by (auto simp: ll_rep_def ll_empty_def HEAD_def TAIL_def)
  from rep_ok [OF this] show "ll_ok (ll_empty d)" "elems (ll_empty d) = []" by simp_all
qed

subsection \<open>The ends of the list\<close>

lemma first_value: "ll_ok l \<Longrightarrow> elems l \<noteq> [] \<Longrightarrow> ln_value (ll_heap l (ln_next (ll_heap l HEAD))) = hd (elems l)"
  using nth_first [of l "ll_nodes l"] by (cases "ll_nodes l") (simp_all add: ll_ok_def elems_def)

lemma last_value: "ll_ok l \<Longrightarrow> elems l \<noteq> [] \<Longrightarrow> ln_value (ll_heap l (ln_prev (ll_heap l TAIL))) = last (elems l)"
  using nth_last [of l "ll_nodes l"] by (auto simp: ll_ok_def elems_def vals_def last_map)

lemma pollFirst_effect:
  assumes "ll_ok l"
  shows "\<exists>l'. pollFirst r l = (Ret (elems l \<noteq> [], if elems l = [] then r else hd (elems l)), l') \<and> ll_ok l' \<and> elems l' = tl (elems l)"
  using removeAtFront_effect [OF assms] first_value [OF assms] ok_size [OF assms] assms
  by (cases "elems l = []") (auto simp: pollFirst_def Let_def)

lemma pollLast_effect:
  assumes "ll_ok l"
  shows "\<exists>l'. pollLast r l = (Ret (elems l \<noteq> [], if elems l = [] then r else last (elems l)), l') \<and> ll_ok l' \<and> elems l' = butlast (elems l)"
  using removeAtEnd_effect [OF assms] last_value [OF assms] ok_size [OF assms] assms
  by (cases "elems l = []") (auto simp: pollLast_def Let_def)

lemma ends_effect:
  assumes "ll_ok l"
  shows "peekFirst r l = Ret (elems l \<noteq> [], if elems l = [] then r else hd (elems l))"
    and "peekLast r l = Ret (elems l \<noteq> [], if elems l = [] then r else last (elems l))"
    and "getFirst l = (if elems l = [] then Throw (NoSuchElementException ''The list is Empty'') else Ret (hd (elems l)))"
    and "getLast l = (if elems l = [] then Throw (NoSuchElementException ''The list is Empty'') else Ret (last (elems l)))"
  using first_value [OF assms] last_value [OF assms] ok_size [OF assms]
  by (auto simp: peekFirst_def peekLast_def getFirst_def getLast_def)

section \<open>Effect of the iterators\<close>

text \<open>A list iterator stands between the nodes \<open>ps\<close> and the nodes \<open>rs\<close>.\<close>

definition li_at :: "'a llist \<Rightarrow> liter \<Rightarrow> addr list \<Rightarrow> addr list \<Rightarrow> bool" where
  "li_at l it ps rs \<longleftrightarrow> ll_rep l (ps @ rs) \<and> li_current it = last (HEAD # ps) \<and> li_index it = int (length ps) - 1
     \<and> li_expected it = ll_modCount l"

lemma listIterator_at:
  assumes ok: "ll_ok l"
  shows "if 0 \<le> index \<and> index \<le> ll_size l
     then \<exists>it. listIterator index l = Ret it \<and> li_at l it (take (nat index) (ll_nodes l)) (drop (nat index) (ll_nodes l)) \<and> li_last it = 0
     else listIterator index l = Throw (IndexOutOfBoundsException ''Given index is out of range.'')"
proof (cases "0 \<le> index \<and> index \<le> ll_size l")
  case True
  let ?ps = "ll_nodes l"
  have rep: "ll_rep l ?ps" using ok by (simp add: ll_ok_def)
  define i where "i = nat index"
  have n: "ll_size l = int (length ?ps)" "i \<le> length ?ps" "index = int i" using rep True by (auto simp: ll_rep_def i_def)
  have "walk_next i (ll_heap l) HEAD = last (HEAD # take i ?ps)"
    using rep_walk(1) [OF rep, of i] chain_nth(1) [OF n(2)] n(2) by simp
  moreover have "walk_prev (Suc (length ?ps - i)) (ll_heap l) TAIL = last (HEAD # take i ?ps)"
    using rep_walk(2) [OF rep, of "Suc (length ?ps - i)"] chain_nth(1) [OF n(2)] n(2) by simp
  moreover have "nat (int (length ?ps) - int i + 1) = Suc (length ?ps - i)" using n(2) by simp
  ultimately show ?thesis
    using n rep by (simp add: listIterator_def li_at_def del: walk_prev.simps last.simps)
qed (auto simp: listIterator_def)

lemma li_at_next:
  assumes "li_at l it ps (r # rs)"
  shows "\<exists>it'. li_next l it = (Ret (ln_value (ll_heap l r)), it') \<and> const_next l it = (Ret (ln_value (ll_heap l r)), it')
     \<and> li_at l it' (ps @ [r]) rs \<and> li_last it' = r"
proof -
  have "ln_next (ll_heap l (li_current it)) = r" "r \<noteq> TAIL"
    using rep_split(3) [of l ps "r # rs"] rep_not_sentinel [of l "ps @ r # rs" r] assms by (simp_all add: li_at_def)
  with assms show ?thesis by (simp add: li_next_def const_next_def li_at_def Let_def)
qed

lemma li_at_end:
  assumes "li_at l it ps []"
  shows "li_next l it = (Throw (NoSuchElementException ''No more elements to return from next()''), it)"
    and "const_next l it = (Throw (NoSuchElementException ''No more elements to return from this ListIterator''), it)"
proof -
  have "ln_next (ll_heap l (li_current it)) = TAIL" using rep_split(3) [of l ps "[]"] assms by (simp add: li_at_def)
  with assms show "li_next l it = (Throw (NoSuchElementException ''No more elements to return from next()''), it)"
    "const_next l it = (Throw (NoSuchElementException ''No more elements to return from this ListIterator''), it)"
    by (simp_all add: li_next_def const_next_def li_at_def)
qed

lemma li_at_hasNext: "li_at l it ps rs \<Longrightarrow> li_hasNext l it \<longleftrightarrow> rs \<noteq> []"
  using rep_split(3) [of l ps rs] rep_not_sentinel [of l "ps @ rs" "hd rs"]
  by (cases rs) (auto simp: li_hasNext_def li_at_def)

lemma li_at_previous:
  assumes "li_at l it (ps @ [p]) rs"
  shows "\<exists>it'. li_previous l it = (Ret (ln_value (ll_heap l p)), it') \<and> li_at l it' ps (p # rs) \<and> li_last it' = p"
proof -
  have "p \<noteq> HEAD" "ln_prev (ll_heap l p) = last (HEAD # ps)"
    using rep_split(4) [of l ps "p # rs"] rep_not_sentinel [of l "ps @ p # rs" p] assms by (simp_all add: li_at_def)
  with assms show ?thesis by (simp add: li_previous_def const_previous_def li_at_def Let_def del: last.simps) simp
qed

text \<open>Removing the element that \<^verbatim>\<open>next\<close> or \<^verbatim>\<open>previous\<close> returned.\<close>

lemma li_at_remove:
  assumes "li_at l it (ps @ [p]) rs" and "li_last it = p"
  shows "\<exists>l' it'. li_remove l it = (Ret (), l', it') \<and> li_at l' it' ps rs \<and> li_last it' = 0
     \<and> vals l' (ps @ rs) = vals l (ps @ rs)"
proof -
  have rep: "ll_rep l (ps @ p # rs)" and c: "li_current it = p" "li_expected it = ll_modCount l" "li_index it = int (length ps)"
    using assms(1) by (simp_all add: li_at_def)
  have "p \<noteq> 0" using rep_not_sentinel [OF rep, of p] by simp
  with link_out_effect [OF rep] c assms(2) show ?thesis
    by (simp add: li_remove_def li_at_def Let_def del: last.simps) (simp add: count_change_def link_out_def Let_def)
qed

lemma li_at_remove_back:
  assumes "li_at l it ps (r # rs)" and "li_last it = r"
  shows "\<exists>l' it'. li_remove l it = (Ret (), l', it') \<and> li_at l' it' ps rs \<and> li_last it' = 0
     \<and> vals l' (ps @ rs) = vals l (ps @ rs)"
proof -
  have rep: "ll_rep l (ps @ r # rs)" and c: "li_current it = last (HEAD # ps)" "li_expected it = ll_modCount l"
    "li_index it = int (length ps) - 1"
    using assms(1) by (simp_all add: li_at_def)
  have "r \<noteq> 0" "last (HEAD # ps) \<noteq> r" using rep_not_sentinel [OF rep, of r] rep by (auto simp: ll_rep_def)
  with link_out_effect [OF rep] c assms(2) show ?thesis
    by (simp add: li_remove_def li_at_def Let_def del: last.simps) (simp add: count_change_def link_out_def Let_def)
qed

lemma li_at_add:
  assumes "li_at l it ps rs"
  shows "\<exists>l' it' p. li_add v l it = (Ret (), l', it') \<and> li_at l' it' (ps @ [p]) rs \<and> li_last it' = 0
     \<and> vals l' ((ps @ [p]) @ rs) = vals l ps @ v # vals l rs"
proof -
  have rep: "ll_rep l (ps @ rs)" and c: "li_current it = last (HEAD # ps)" "li_expected it = ll_modCount l"
    "li_index it = int (length ps) - 1"
    using assms by (simp_all add: li_at_def)
  have "ln_next (ll_heap l (last (HEAD # ps))) = hd (rs @ [TAIL])" by (rule rep_split(3) [OF rep])
  then have "li_add v l it = (Ret (), count_change 1 (link_in (last (HEAD # ps)) (hd (rs @ [TAIL])) v l),
      \<lparr>li_current = ll_new l, li_last = 0, li_index = int (length ps), li_expected = ll_modCount l + 1\<rparr>)"
    using c by (simp add: li_add_def del: last.simps)
  moreover have "ll_modCount (count_change 1 (link_in p q v l)) = ll_modCount l + 1" for p q
    by (simp add: count_change_def link_in_def Let_def)
  ultimately show ?thesis using link_in_effect [OF rep, of v] by (simp add: li_at_def del: last.simps) simp
qed

text \<open>The reverse iterator has passed the nodes \<open>rs\<close>.\<close>

definition ri_at :: "'a llist \<Rightarrow> riter \<Rightarrow> addr list \<Rightarrow> addr list \<Rightarrow> bool" where
  "ri_at l it ps rs \<longleftrightarrow> ll_rep l (ps @ rs) \<and> ri_current it = hd (rs @ [TAIL]) \<and> ri_expected it = ll_modCount l"

lemma ri_at_next:
  assumes "ri_at l it (ps @ [p]) rs"
  shows "\<exists>it'. ri_next l it = (Ret (ln_value (ll_heap l p)), it') \<and> ri_at l it' ps (p # rs) \<and> ri_canRemove it'"
proof -
  have "ln_prev (ll_heap l (ri_current it)) = p" "p \<noteq> HEAD"
    using rep_split(4) [of l "ps @ [p]" rs] rep_not_sentinel [of l "ps @ p # rs" p] assms by (simp_all add: ri_at_def)
  with assms show ?thesis by (simp add: ri_next_def ri_at_def Let_def)
qed

lemma ri_at_hasNext: "ri_at l it ps rs \<Longrightarrow> ri_hasNext l it \<longleftrightarrow> ps \<noteq> []"
  using rep_split(4) [of l ps rs] rep_not_sentinel [of l "ps @ rs" "last ps"]
  by (cases "ps = []") (auto simp: ri_hasNext_def ri_at_def)

lemma ri_at_remove:
  assumes "ri_at l it ps (r # rs)" and "ri_canRemove it"
  shows "\<exists>l' it'. ri_remove l it = (Ret (), l', it') \<and> ri_at l' it' ps rs \<and> vals l' (ps @ rs) = vals l (ps @ rs)"
proof -
  have rep: "ll_rep l (ps @ r # rs)" and c: "ri_current it = r" "ri_expected it = ll_modCount l"
    using assms(1) by (simp_all add: ri_at_def)
  with link_out_effect [OF rep] assms(2) show ?thesis
    by (simp add: ri_remove_def ri_at_def Let_def del: last.simps) (simp add: count_change_def link_out_def Let_def)
qed

section \<open>The list as a collection\<close>

definition ll_view :: "'a llist \<Rightarrow> liter \<Rightarrow> 'a list \<Rightarrow> 'a list \<Rightarrow> bool \<Rightarrow> bool" where
  "ll_view l it xs ys b \<longleftrightarrow>
     (\<exists>ps rs. li_at l it ps rs \<and> xs = vals l ps \<and> ys = vals l rs \<and> (b \<longrightarrow> ps \<noteq> [] \<and> li_last it = last ps))"

definition ri_view :: "'a llist \<Rightarrow> riter \<Rightarrow> 'a list \<Rightarrow> 'a list \<Rightarrow> bool \<Rightarrow> bool" where
  "ri_view l it xs ys b \<longleftrightarrow>
     (\<exists>ps rs. ri_at l it ps rs \<and> xs = rev (vals l rs) \<and> ys = rev (vals l ps) \<and> (b \<longrightarrow> rs \<noteq> [] \<and> ri_canRemove it))"

lemma vals_Nil [simp]: "vals l ps = [] \<longleftrightarrow> ps = []"
  by (simp add: vals_def)

lemma vals_Cons_eq: "y # ys = vals l rs \<Longrightarrow> \<exists>r zs. rs = r # zs \<and> y = ln_value (ll_heap l r) \<and> ys = vals l zs"
  by (cases rs) simp_all

lemma vals_snoc_eq: "xs @ [x] = vals l ps \<Longrightarrow> \<exists>zs p. ps = zs @ [p] \<and> x = ln_value (ll_heap l p) \<and> xs = vals l zs"
  by (cases ps rule: rev_cases) simp_all

lemma ll_view_next:
  assumes "ll_view l it xs (y # ys) b"
  shows "\<exists>it'. li_next l it = (Ret y, it') \<and> ll_view l it' (xs @ [y]) ys True"
proof -
  obtain ps rs where v: "li_at l it ps rs" "xs = vals l ps" "y # ys = vals l rs" using assms unfolding ll_view_def by auto
  obtain r zs where r: "rs = r # zs" "y = ln_value (ll_heap l r)" "ys = vals l zs" using vals_Cons_eq [OF v(3)] by blast
  obtain it' where "li_next l it = (Ret y, it')" "li_at l it' (ps @ [r]) zs" "li_last it' = r"
    using li_at_next [of l it ps r zs] v(1) r by auto
  with v r show ?thesis unfolding ll_view_def by (intro exI [of _ it'] conjI exI [of _ "ps @ [r]"] exI [of _ zs]) simp_all
qed

lemma ll_view_remove:
  assumes "ll_view l it (xs @ [x]) ys True"
  shows "\<exists>l' it'. li_remove l it = (Ret (), l', it') \<and> ll_view l' it' xs ys False"
proof -
  obtain ps rs where v: "li_at l it ps rs" "xs @ [x] = vals l ps" "ys = vals l rs" "li_last it = last ps"
    using assms unfolding ll_view_def by auto
  obtain zs p where p: "ps = zs @ [p]" "xs = vals l zs" using vals_snoc_eq [OF v(2)] by blast
  obtain l' it' where c: "li_remove l it = (Ret (), l', it')" "li_at l' it' zs rs" "vals l' (zs @ rs) = vals l (zs @ rs)"
    using li_at_remove [of l it zs p rs] v(1,4) p by auto
  then have "vals l' zs = xs" "vals l' rs = ys" using p v(3) by (simp_all add: append_eq_append_conv)
  with c show ?thesis unfolding ll_view_def by blast
qed

lemma ri_view_next:
  assumes "ri_view l it xs (y # ys) b"
  shows "\<exists>it'. ri_next l it = (Ret y, it') \<and> ri_view l it' (xs @ [y]) ys True"
proof -
  obtain ps rs where v: "ri_at l it ps rs" "xs = rev (vals l rs)" "y # ys = rev (vals l ps)" using assms unfolding ri_view_def by auto
  have "rev (y # ys) = vals l ps" by (simp only: v(3) rev_rev_ident)
  then have e: "rev ys @ [y] = vals l ps" by simp
  obtain zs p where p: "ps = zs @ [p]" "y = ln_value (ll_heap l p)" "rev ys = vals l zs" using vals_snoc_eq [OF e] by blast
  obtain it' where "ri_next l it = (Ret y, it')" "ri_at l it' zs (p # rs)" "ri_canRemove it'"
    using ri_at_next [of l it zs p rs] v(1) p by auto
  moreover have "ys = rev (vals l zs)" by (simp add: p(3) [symmetric])
  ultimately show ?thesis using v p unfolding ri_view_def
    by (intro exI [of _ it'] conjI exI [of _ zs] exI [of _ "p # rs"]) simp_all
qed

lemma ri_view_remove:
  assumes "ri_view l it (xs @ [x]) ys True"
  shows "\<exists>l' it'. ri_remove l it = (Ret (), l', it') \<and> ri_view l' it' xs ys False"
proof -
  obtain ps rs where v: "ri_at l it ps rs" "xs @ [x] = rev (vals l rs)" "ys = rev (vals l ps)" "ri_canRemove it"
    using assms unfolding ri_view_def by auto
  have "rev (xs @ [x]) = vals l rs" by (simp only: v(2) rev_rev_ident)
  then have e: "x # rev xs = vals l rs" by simp
  obtain r zs where r: "rs = r # zs" "rev xs = vals l zs" using vals_Cons_eq [OF e] by blast
  obtain l' it' where c: "ri_remove l it = (Ret (), l', it')" "ri_at l' it' ps zs" "vals l' (ps @ zs) = vals l (ps @ zs)"
    using ri_at_remove [of l it ps r zs] v(1,4) r by auto
  then have "vals l' ps = vals l ps" "vals l' zs = rev xs" using r(2) by (simp_all add: append_eq_append_conv)
  then have "xs = rev (vals l' zs)" "ys = rev (vals l' ps)" using v(3) by simp_all
  with c(2) have "ri_view l' it' xs ys False" unfolding ri_view_def by blast
  with c show ?thesis by blast
qed

lemma first_iterator_at:
  assumes "ll_ok l"
  shows "li_at l (first_iterator l) [] (ll_nodes l)"
  using listIterator_at [OF assms, of 0] ok_size [OF assms] by (auto simp: first_iterator_def)

interpretation ll: iterable ll_coll ll_ok elems ll_view
proof
  fix l :: "'a llist" and it and xs ys :: "'a list" and x y :: 'a and b
  show "ll_ok l \<Longrightarrow> v_size ll_coll l = int (length (elems l))" by (simp add: ll_coll_def ok_size)
  show "ll_view l it xs ys b \<Longrightarrow> ll_ok l \<and> elems l = xs @ ys"
    using rep_ok [of l] by (fastforce simp: ll_view_def li_at_def)
  show "ll_ok l \<Longrightarrow> ll_view l (v_iterator ll_coll l) [] (elems l) False"
    using first_iterator_at [of l] unfolding ll_view_def
    by (intro exI [of _ "[]"] exI [of _ "ll_nodes l"]) (simp add: ll_coll_def elems_def)
  show "ll_view l it xs ys b \<Longrightarrow> v_hasNext ll_coll l it = (ys \<noteq> [])"
    using li_at_hasNext [of l it] by (auto simp: ll_coll_def ll_view_def)
  show "ll_view l it xs (y # ys) b \<Longrightarrow> \<exists>it'. v_next ll_coll l it = (Ret y, it') \<and> ll_view l it' (xs @ [y]) ys True"
    using ll_view_next [of l it xs y ys b] by (simp add: ll_coll_def)
  show "ll_view l it (xs @ [x]) ys True \<Longrightarrow> \<exists>l' it'. v_remove ll_coll l it = (Ret (), l', it') \<and> ll_view l' it' xs ys False"
    using ll_view_remove [of l it xs x ys] by (simp add: ll_coll_def)
qed

interpretation ri: iterable ll_reverse ll_ok "\<lambda>l. rev (elems l)" ri_view
proof
  fix l :: "'a llist" and it and xs ys :: "'a list" and x y :: 'a and b
  show "ll_ok l \<Longrightarrow> v_size ll_reverse l = int (length (rev (elems l)))" by (simp add: ll_reverse_def ok_size)
  show "ri_view l it xs ys b \<Longrightarrow> ll_ok l \<and> rev (elems l) = xs @ ys"
    using rep_ok [of l] by (fastforce simp: ri_view_def ri_at_def)
  show "ll_ok l \<Longrightarrow> ri_view l (v_iterator ll_reverse l) [] (rev (elems l)) False"
    unfolding ri_view_def ri_at_def
    by (intro exI [of _ "ll_nodes l"] exI [of _ "[]"]) (simp add: ll_ok_def elems_def ll_reverse_def descendingIterator_def)
  show "ri_view l it xs ys b \<Longrightarrow> v_hasNext ll_reverse l it = (ys \<noteq> [])"
    using ri_at_hasNext [of l it] by (auto simp: ll_reverse_def ri_view_def)
  show "ri_view l it xs (y # ys) b \<Longrightarrow> \<exists>it'. v_next ll_reverse l it = (Ret y, it') \<and> ri_view l it' (xs @ [y]) ys True"
    using ri_view_next [of l it xs y ys b] by (simp add: ll_reverse_def)
  show "ri_view l it (xs @ [x]) ys True \<Longrightarrow> \<exists>l' it'. v_remove ll_reverse l it = (Ret (), l', it') \<and> ri_view l' it' xs ys False"
    using ri_view_remove [of l it xs x ys] by (simp add: ll_reverse_def)
qed

interpretation ll: fifo_queue ll_queue ll_ok elems "\<lambda>_. \<infinity>"
proof
  fix l :: "'a llist" and v r :: 'a
  assume "ll_ok l"
  then show "\<exists>l'. v_offer ll_queue v l = (Ret (enat (length (elems l)) < \<infinity>), l') \<and> ll_ok l' \<and> (\<infinity>::enat) = \<infinity>
      \<and> elems l' = (if enat (length (elems l)) < \<infinity> then elems l @ [v] else elems l)"
    "\<exists>l'. v_poll ll_queue r l = (Ret (elems l \<noteq> [], if elems l = [] then r else hd (elems l)), l') \<and> ll_ok l' \<and> (\<infinity>::enat) = \<infinity> \<and> elems l' = tl (elems l)"
    "\<exists>l'. v_peek ll_queue r l = (Ret (elems l \<noteq> [], if elems l = [] then r else hd (elems l)), l') \<and> ll_ok l' \<and> (\<infinity>::enat) = \<infinity> \<and> elems l' = elems l"
    using addToEnd_effect [of l v] pollFirst_effect [of l r] ends_effect(1) [of l r]
    by (simp_all add: ll_queue_def ll_offer_def ll_poll_def ll_peek_def)
qed

section \<open>The inherited operations\<close>

lemma at_index:
  assumes "ll_ok l" and "i \<le> length (elems l)"
  obtains it ps rs where "listIterator (int i) l = Ret it" and "li_at l it ps rs" and "ll_nodes l = ps @ rs"
    and "vals l ps = take i (elems l)" and "vals l rs = drop i (elems l)" and "length ps = i"
proof -
  obtain it where "listIterator (int i) l = Ret it" "li_at l it (take i (ll_nodes l)) (drop i (ll_nodes l))"
    using listIterator_at [OF assms(1), of "int i"] ok_size [OF assms(1)] assms(2) by auto
  moreover have "length (take i (ll_nodes l)) = i" using assms(2) by (simp add: elems_def)
  moreover have "vals l (take i (ll_nodes l)) = take i (elems l)" "vals l (drop i (ll_nodes l)) = drop i (elems l)"
    by (simp_all add: elems_def)
  ultimately show ?thesis by (metis that append_take_drop_id)
qed

lemma drop_nonempty:
  assumes "vals l rs = drop i vs" and "i < length vs"
  obtains r zs where "rs = r # zs" and "ln_value (ll_heap l r) = vs ! i" and "vals l zs = drop (Suc i) vs"
  using assms Cons_nth_drop_Suc [OF assms(2), symmetric] that by (cases rs) simp_all

lemma seq_get_effect:
  assumes "ll_ok l" and "i < length (elems l)"
  shows "seq_get (int i) l = Ret (elems l ! i)"
proof -
  obtain it ps rs where c: "listIterator (int i) l = Ret it" "li_at l it ps rs" "vals l rs = drop i (elems l)"
    by (rule at_index [OF assms(1) less_imp_le [OF assms(2)]])
  obtain r zs where r: "rs = r # zs" "ln_value (ll_heap l r) = elems l ! i"
    by (rule drop_nonempty [OF c(3) assms(2)])
  with c li_at_next [of l it ps r zs] show ?thesis by (auto simp: seq_get_def const_listIterator_def no_element_def)
qed

lemma li_at_set:
  assumes "li_at l it (ps @ [p]) rs" and "li_last it = p"
  shows "\<exists>l'. li_set v l it = (Ret (), l') \<and> ll_ok l' \<and> elems l' = vals l ps @ v # vals l rs"
proof -
  have rep: "ll_rep l (ps @ p # rs)" and e: "li_expected it = ll_modCount l" using assms by (simp_all add: li_at_def)
  have "p \<noteq> 0" using rep_not_sentinel [OF rep, of p] by simp
  note S = set_value [OF rep, of "length ps" v]
  show ?thesis using S rep_ok [of "l\<lparr>ll_heap := (ll_heap l)(p := (ll_heap l p)\<lparr>ln_value := v\<rparr>)\<rparr>" "ps @ p # rs"] e \<open>p \<noteq> 0\<close> assms(2)
    by (simp add: li_set_def Let_def list_update_append)
qed

lemma seq_set_effect:
  assumes "ll_ok l" and "i < length (elems l)"
  shows "\<exists>l'. seq_set (int i) v l = (Ret (elems l ! i), l') \<and> ll_ok l' \<and> elems l' = (elems l)[i := v]"
proof -
  obtain it ps rs where c: "listIterator (int i) l = Ret it" "li_at l it ps rs" "vals l ps = take i (elems l)" "vals l rs = drop i (elems l)"
    by (rule at_index [OF assms(1) less_imp_le [OF assms(2)]])
  obtain r zs where r: "rs = r # zs" "ln_value (ll_heap l r) = elems l ! i" "vals l zs = drop (Suc i) (elems l)"
    by (rule drop_nonempty [OF c(4) assms(2)])
  obtain it' where n: "li_next l it = (Ret (elems l ! i), it')" "li_at l it' (ps @ [r]) zs" "li_last it' = r"
    using li_at_next [of l it ps r zs] c r by auto
  obtain l' where "li_set v l it' = (Ret (), l')" "ll_ok l'" "elems l' = take i (elems l) @ v # drop (Suc i) (elems l)"
    using li_at_set [OF n(2,3), of v] c r by auto
  then show ?thesis using c n upd_conv_take_nth_drop [OF assms(2), of v] by (simp add: seq_set_def no_element_def)
qed

lemma seq_add_effect:
  assumes "ll_ok l" and "i \<le> length (elems l)"
  shows "\<exists>l'. seq_add (int i) v l = (Ret (), l') \<and> ll_ok l' \<and> elems l' = take i (elems l) @ v # drop i (elems l)"
proof -
  obtain it ps rs where c: "listIterator (int i) l = Ret it" "li_at l it ps rs" "vals l ps = take i (elems l)" "vals l rs = drop i (elems l)"
    by (rule at_index [OF assms])
  obtain l' it' p where a: "li_add v l it = (Ret (), l', it')" "li_at l' it' (ps @ [p]) rs"
    "vals l' ((ps @ [p]) @ rs) = vals l ps @ v # vals l rs"
    using li_at_add [OF c(2), of v] by blast
  then have "ll_rep l' ((ps @ [p]) @ rs)" by (simp add: li_at_def)
  from rep_ok [OF this] a c show ?thesis by (simp add: seq_add_def no_element_def)
qed

lemma li_add_all_effect:
  assumes "li_at l it ps rs"
  shows "\<exists>l' it' as. li_add_all vs l it = (Ret (), l', it') \<and> li_at l' it' (ps @ as) rs \<and> length as = length vs
     \<and> vals l' (ps @ as @ rs) = vals l ps @ vs @ vals l rs"
  using assms
proof (induction vs arbitrary: l it ps)
  case Nil
  then show ?case by (intro exI [of _ "[]"] exI) (auto intro!: exI [of _ "[]"])
next
  case (Cons v vs)
  obtain l1 it1 p where a: "li_add v l it = (Ret (), l1, it1)" "li_at l1 it1 (ps @ [p]) rs"
    "vals l1 ((ps @ [p]) @ rs) = vals l ps @ v # vals l rs"
    using li_at_add [OF Cons.prems, of v] by blast
  then have v: "vals l1 (ps @ [p]) = vals l ps @ [v]" "vals l1 rs = vals l rs"
    using append_eq_append_conv [of "vals l1 (ps @ [p])" "vals l ps @ [v]" "vals l1 rs" "vals l rs"] by auto
  obtain l' it' as where b: "li_add_all vs l1 it1 = (Ret (), l', it')" "li_at l' it' ((ps @ [p]) @ as) rs" "length as = length vs"
    "vals l' ((ps @ [p]) @ as @ rs) = vals l1 (ps @ [p]) @ vs @ vals l1 rs"
    using Cons.IH [OF a(2)] by blast
  show ?case
  proof (intro exI conjI)
    show "li_add_all (v # vs) l it = (Ret (), l', it')" using a b by simp
    show "li_at l' it' (ps @ p # as) rs" using b(2) by simp
    show "vals l' (ps @ (p # as) @ rs) = vals l ps @ (v # vs) @ vals l rs" using b(4) v by simp
  qed (use b in simp)
qed

lemma seq_addAll_effect:
  assumes "ll_ok l" and "i \<le> length (elems l)"
  shows "\<exists>l'. seq_addAll (int i) vs l = (Ret (vs \<noteq> []), l') \<and> ll_ok l' \<and> elems l' = take i (elems l) @ vs @ drop i (elems l)"
proof -
  obtain it ps rs where c: "listIterator (int i) l = Ret it" "li_at l it ps rs" "vals l ps = take i (elems l)" "vals l rs = drop i (elems l)"
    by (rule at_index [OF assms])
  obtain l' it' as where a: "li_add_all vs l it = (Ret (), l', it')" "li_at l' it' (ps @ as) rs" "length as = length vs"
    "vals l' (ps @ as @ rs) = vals l ps @ vs @ vals l rs"
    using li_add_all_effect [OF c(2), of vs] by blast
  then have rep: "ll_rep l' (ps @ as @ rs)" by (simp add: li_at_def)
  have "li_nextIndex it = int (length ps)" "li_nextIndex it' = int (length ps + length vs)"
    using c(2) a(2,3) by (simp_all add: li_at_def li_nextIndex_def)
  with rep_ok [OF rep] a c show ?thesis by (simp add: seq_addAll_def)
qed

lemma removeAt_effect:
  assumes "ll_ok l"
  shows "if 0 \<le> index \<and> index < ll_size l
     then \<exists>l'. removeAt index l = (Ret (elems l ! nat index), l') \<and> ll_ok l'
       \<and> elems l' = take (nat index) (elems l) @ drop (Suc (nat index)) (elems l)
     else \<exists>msg. removeAt index l = (Throw (IndexOutOfBoundsException msg), l)"
proof (cases "0 \<le> index \<and> index \<le> ll_size l")
  case True
  define i where "i = nat index"
  have i: "index = int i" "i \<le> length (elems l)" using True ok_size [OF assms] by (auto simp: i_def)
  obtain it ps rs where c: "listIterator (int i) l = Ret it" "li_at l it ps rs" "vals l ps = take i (elems l)" "vals l rs = drop i (elems l)"
    by (rule at_index [OF assms i(2)])
  show ?thesis
  proof (cases "i = length (elems l)")
    case True
    then have "rs = []" using c(4) by simp
    with c li_at_end(1) [of l it ps] have "removeAt index l = (Throw (IndexOutOfBoundsException ''set called with invalid index.''), l)"
      by (simp add: removeAt_def no_element_def i(1))
    with True i ok_size [OF assms] show ?thesis by auto
  next
    case False
    then have lt: "i < length (elems l)" using i(2) by simp
    obtain r zs where r: "rs = r # zs" "ln_value (ll_heap l r) = elems l ! i" "vals l zs = drop (Suc i) (elems l)"
      by (rule drop_nonempty [OF c(4) lt])
    obtain it' where n: "li_next l it = (Ret (elems l ! i), it')" "li_at l it' (ps @ [r]) zs" "li_last it' = r"
      using li_at_next [of l it ps r zs] c r by auto
    obtain l' it'' where d: "li_remove l it' = (Ret (), l', it'')" "li_at l' it'' ps zs" "vals l' (ps @ zs) = vals l (ps @ zs)"
      using li_at_remove [OF n(2,3)] by blast
    then have rep: "ll_rep l' (ps @ zs)" by (simp add: li_at_def)
    have "removeAt index l = (Ret (elems l ! i), l')" using c n d by (simp add: removeAt_def no_element_def i(1))
    with rep_ok [OF rep] d c r lt ok_size [OF assms] show ?thesis by (simp add: i(1))
  qed
next
  case False
  then have "listIterator index l = Throw (IndexOutOfBoundsException ''Given index is out of range.'')"
    using listIterator_at [OF assms, of index] by auto
  with False show ?thesis by (auto simp: removeAt_def no_element_def)
qed

section \<open>Properties\<close>


text \<open>A client program: a sequence of calls, and what the list interface says they do.\<close>

datatype 'a ll_op =
    AddFirst 'a | AddLast 'a | RemoveFirst | RemoveLast | AddAt int 'a | RemoveAt int | SetAt int 'a
  | AddAllAt int "'a list" | RemoveFirstOccurrence 'a | RemoveLastOccurrence 'a | Clear

fun ll_apply :: "'a ll_op \<Rightarrow> 'a llist \<Rightarrow> 'a llist" where
  "ll_apply (AddFirst v) l = addFirst v l"
| "ll_apply (AddLast v) l = addLast v l"
| "ll_apply RemoveFirst l = snd (removeFirst l)"
| "ll_apply RemoveLast l = snd (removeLast l)"
| "ll_apply (AddAt i v) l = snd (ll_add_at i v l)"
| "ll_apply (RemoveAt i) l = snd (removeAt i l)"
| "ll_apply (SetAt i v) l = snd (ll_set i v l)"
| "ll_apply (AddAllAt i vs) l = snd (ll_addAll_at i vs l)"
| "ll_apply (RemoveFirstOccurrence v) l = (case removeFirstOccurrence v l of Some (_, l') \<Rightarrow> l' | None \<Rightarrow> l)"
| "ll_apply (RemoveLastOccurrence v) l = (case removeLastOccurrence v l of Some (_, l') \<Rightarrow> l' | None \<Rightarrow> l)"
| "ll_apply Clear l = ll_clear l"

fun list_apply :: "'a ll_op \<Rightarrow> 'a list \<Rightarrow> 'a list" where
  "list_apply (AddFirst v) xs = v # xs"
| "list_apply (AddLast v) xs = xs @ [v]"
| "list_apply RemoveFirst xs = tl xs"
| "list_apply RemoveLast xs = butlast xs"
| "list_apply (AddAt i v) xs =
     (if 0 \<le> i \<and> i \<le> int (length xs) then take (nat i) xs @ v # drop (nat i) xs else xs)"
| "list_apply (RemoveAt i) xs =
     (if 0 \<le> i \<and> i < int (length xs) then take (nat i) xs @ drop (Suc (nat i)) xs else xs)"
| "list_apply (SetAt i v) xs = (if 0 \<le> i \<and> i < int (length xs) then xs[nat i := v] else xs)"
| "list_apply (AddAllAt i vs) xs =
     (if 0 \<le> i \<and> i \<le> int (length xs) then take (nat i) xs @ vs @ drop (nat i) xs else xs)"
| "list_apply (RemoveFirstOccurrence v) xs = remove1 v xs"
| "list_apply (RemoveLastOccurrence v) xs = rev (remove1 v (rev xs))"
| "list_apply Clear xs = []"

lemma elems_bound: "ll_ok l \<Longrightarrow> length (elems l) < ll_new l"
  using rep_bound [of l "ll_nodes l"] by (simp add: ll_ok_def elems_def)

lemma occurrence_effect:
  assumes "ll_ok l"
  shows "\<exists>l'. removeFirstOccurrence v l = Some (Ret (v \<in> set (elems l)), l') \<and> ll_ok l' \<and> elems l' = remove1 v (elems l)"
    and "\<exists>l'. removeLastOccurrence v l = Some (Ret (v \<in> set (elems l)), l') \<and> ll_ok l' \<and> elems l' = rev (remove1 v (rev (elems l)))"
  using ll.coll_remove_effect [OF assms elems_bound [OF assms], of v] ri.coll_remove_effect [OF assms, of "ll_new l" v] elems_bound [OF assms]
  unfolding removeFirstOccurrence_def removeLastOccurrence_def by (auto simp: rev_swap)

lemma add_at_effect:
  assumes "ll_ok l"
  shows "ll_ok (snd (ll_add_at i v l)) \<and> elems (snd (ll_add_at i v l)) = list_apply (AddAt i v) (elems l)"
  using addAtLocation_effect [OF assms, of "nat i" v] ok_size [OF assms] assms by (auto simp: ll_add_at_def)

lemma addAll_at_effect:
  assumes "ll_ok l"
  shows "ll_ok (snd (ll_addAll_at i vs l)) \<and> elems (snd (ll_addAll_at i vs l)) = list_apply (AddAllAt i vs) (elems l)"
proof (cases "0 \<le> i \<and> i \<le> int (length (elems l))")
  case True
  then have "nat i \<le> length (elems l)" "int (nat i) = i" by auto
  with addAllAtLocation_effect [OF assms this(1), of vs] True show ?thesis by (auto simp: ll_addAll_at_def)
next
  case False
  with ok_size [OF assms] assms show ?thesis by (auto simp: ll_addAll_at_def addAllAtLocation_def)
qed

lemma apply_step:
  assumes "ll_ok l"
  shows "ll_ok (ll_apply x l) \<and> elems (ll_apply x l) = list_apply x (elems l)"
proof (cases x)
  case RemoveFirst
  then show ?thesis using removeAtFront_effect [OF assms] assms by (auto simp: removeFirst_def split: if_splits)
next
  case RemoveLast
  then show ?thesis using removeAtEnd_effect [OF assms] assms by (auto simp: removeLast_def split: if_splits)
next
  case (RemoveAt i)
  then show ?thesis using removeAt_effect [OF assms, of i] ok_size [OF assms] assms by (auto split: if_splits)
next
  case (SetAt i v)
  then show ?thesis using set_effect [OF assms, of i v] ok_size [OF assms] assms by (auto split: if_splits)
next
  case (RemoveFirstOccurrence v)
  then show ?thesis using occurrence_effect(1) [OF assms, of v] by auto
next
  case (RemoveLastOccurrence v)
  then show ?thesis using occurrence_effect(2) [OF assms, of v] by auto
qed (use assms in \<open>simp_all add: addFirst_def addLast_def addToFront_effect addToEnd_effect ll_clear_effect add_at_effect addAll_at_effect
       del: list_apply.simps(5,8)\<close>)

lemma apply_steps:
  "ll_ok l \<Longrightarrow> ll_ok (fold ll_apply xs l) \<and> elems (fold ll_apply xs l) = fold list_apply xs (elems l)"
  by (induction xs arbitrary: l) (simp_all add: apply_step)

text \<open>
  C23: After any sequence of calls, positions in or out of range, the list holds what the same calls make of a
  sequence, and every node ever allocated is either linked in the list or was deleted exactly once.
\<close>

theorem ll_refines_sequence:
  "elems (fold ll_apply calls (ll_empty d)) = fold list_apply calls []
   \<and> ll_size (fold ll_apply calls (ll_empty d)) = int (length (fold list_apply calls []))
   \<and> distinct (ll_nodes (fold ll_apply calls (ll_empty d)) @ ll_deleted (fold ll_apply calls (ll_empty d)))
   \<and> set (ll_nodes (fold ll_apply calls (ll_empty d)) @ ll_deleted (fold ll_apply calls (ll_empty d)))
       = {3..<ll_new (fold ll_apply calls (ll_empty d))}"
proof -
  define l where "l = fold ll_apply calls (ll_empty d)"
  have l: "ll_ok l" "elems l = fold list_apply calls []" unfolding l_def using apply_steps [OF ll_empty_ok(1), of calls d] by (simp_all add: ll_empty_ok)
  then have rep: "ll_rep l (ll_nodes l)" by (simp add: ll_ok_def)
  then have d: "distinct (HEAD # TAIL # ll_nodes l @ ll_deleted l)" "set (HEAD # TAIL # ll_nodes l @ ll_deleted l) = {1..<ll_new l}"
    by (simp_all add: ll_rep_def)
  then have "set (ll_nodes l @ ll_deleted l) = {1..<ll_new l} - {1, 2}" by (auto simp: HEAD_def TAIL_def)
  also have "\<dots> = {3..<ll_new l}" by auto
  finally show ?thesis using d(1) l ok_size [OF l(1)] unfolding l_def [symmetric] by simp
qed

definition ll_demo :: "nat llist" where
  "ll_demo = fold ll_apply [AddLast 4, AddLast 5] (ll_empty 0)"

lemma ll_pair: "ll_ok ll_demo" "elems ll_demo = [4, 5]" "ll_size ll_demo = 2"
proof -
  show ok: "ll_ok ll_demo" and e: "elems ll_demo = [4, 5]"
    unfolding ll_demo_def using apply_steps [OF ll_empty_ok(1), of "[AddLast 4, AddLast 5]" "0 :: nat"] by (simp_all add: ll_empty_ok)
  show "ll_size ll_demo = 2" using ok_size [OF ok] e by simp
qed

text \<open>
  A list constructed from a list, assigned from it or filled by copy holds the same elements in the same order
  whatever it held before, and operator== accepts it.
\<close>

theorem ll_copies:
  assumes "ll_ok l" and "length (elems l) < n"
  shows "ll_ok (ll_assign vs l) \<and> elems (ll_assign vs l) = vs \<and> elems (ll_copy vs l) = vs
     \<and> elems (ll_from d (elems l)) = elems l
     \<and> (\<exists>l'. ll_equal n False (elems (ll_from d (elems l))) l = Some (Ret True, l') \<and> elems l' = elems l)"
proof -
  have c: "ll_ok (ll_clear l)" "elems (ll_clear l) = []" using ll_clear_effect [OF assms(1)] by simp_all
  have "ll_ok (ll_assign vs l)" "elems (ll_assign vs l) = vs"
    using addAllAtLocation_effect [OF c(1), of 0 vs] c(2) by (auto simp: ll_assign_def)
  moreover have e: "elems (ll_from d (elems l)) = elems l"
    using addAllAtLocation_effect [OF ll_empty_ok(1) [of d], of 0 "elems l"] by (auto simp: ll_from_def ll_empty_ok)
  moreover have "ll_copy vs l = ll_assign vs l" by (simp add: ll_copy_def ll_assign_def)
  ultimately show ?thesis using ll.coll_equals_effect [OF assms, of "elems l"] by (auto simp: ll_equal_def)
qed

theorem ll_copies_witness:
  "elems (ll_assign [9] ll_demo) = [9] \<and> elems (ll_from 0 [4, 5 :: nat]) = [4, 5]
     \<and> (\<exists>l'. ll_equal 3 False [4, 5] ll_demo = Some (Ret True, l') \<and> elems l' = [4, 5])"
  using ll_copies [OF ll_pair(1), of 3 "[9]" 0] by (auto simp: ll_pair)

text \<open>
  The queue interface of the list is first in, first out: what is added comes out in the same order,
  however much it is.
\<close>

theorem ll_fifo:
  assumes "ll_ok l" and "elems l = []"
  shows "\<exists>l' l''. add_each (queue_add ll_queue) False vs l = (Ret (vs \<noteq> []), l')
     \<and> remove_n (length vs) ll_queue d l' = (vs, l'') \<and> elems l'' = []"
  by (rule ll.fifo_order) (use assms in auto)

theorem ll_fifo_witness:
  "\<exists>l' l''. add_each (queue_add ll_queue) False [4, 5 :: nat] (ll_empty 0) = (Ret ([4, 5 :: nat] \<noteq> []), l')
     \<and> remove_n (length [4, 5 :: nat]) ll_queue 0 l' = ([4, 5], l'') \<and> elems l'' = []"
  by (rule ll_fifo [OF ll_empty_ok])

text \<open>
  The positional access LinkedList implements from the nearer end agrees with the one it could have
  inherited from AbstractSequentialList, which always walks with an iterator: the same result and the
  same list for every position in range.
\<close>

theorem positional_equivalence:
  assumes "ll_ok l" and "0 \<le> index" and "index < ll_size l"
  shows "ll_get index l = seq_get index l
     \<and> fst (ll_set index v l) = fst (seq_set index v l) \<and> elems (snd (ll_set index v l)) = elems (snd (seq_set index v l))
     \<and> fst (ll_add_at index v l) = fst (seq_add index v l) \<and> elems (snd (ll_add_at index v l)) = elems (snd (seq_add index v l))
     \<and> fst (ll_addAll_at index vs l) = fst (seq_addAll index vs l)
     \<and> elems (snd (ll_addAll_at index vs l)) = elems (snd (seq_addAll index vs l))"
proof -
  define i where "i = nat index"
  have i: "index = int i" "i < length (elems l)" "i \<le> length (elems l)" using assms ok_size [OF assms(1)] by (auto simp: i_def)
  have "ll_get index l = seq_get index l" using get_effect [OF assms(1)] seq_get_effect [OF assms(1) i(2)] assms i(1) by simp
  moreover have "fst (ll_set index v l) = fst (seq_set index v l) \<and> elems (snd (ll_set index v l)) = elems (snd (seq_set index v l))"
    using set_effect [OF assms(1), of index v] seq_set_effect [OF assms(1) i(2), of v] assms i(1) by auto
  moreover have "fst (ll_add_at index v l) = fst (seq_add index v l) \<and> elems (snd (ll_add_at index v l)) = elems (snd (seq_add index v l))"
    using add_at_effect [OF assms(1), of index v] seq_add_effect [OF assms(1) i(3), of v] assms i by (auto simp: ll_add_at_def)
  moreover have "fst (ll_addAll_at index vs l) = fst (seq_addAll index vs l) \<and> elems (snd (ll_addAll_at index vs l)) = elems (snd (seq_addAll index vs l))"
    using addAllAtLocation_effect [OF assms(1) i(3), of vs] seq_addAll_effect [OF assms(1) i(3), of vs] i(1) by (auto simp: ll_addAll_at_def)
  ultimately show ?thesis by blast
qed

theorem positional_equivalence_witness:
  "0 < ll_size ll_demo \<and> ll_get 1 ll_demo = seq_get 1 ll_demo"
  using positional_equivalence [OF ll_pair(1), of 1 0 "[]"] by (simp add: ll_pair)

text \<open>
  indexOf and lastIndexOf return the first and the last position of the value, -1 when it is not in the
  list, and removing the first or last occurrence removes exactly that element.
\<close>

theorem ll_occurrences:
  assumes "ll_ok l"
  shows "ll_indexOf v l = first_index v (elems l) \<and> ll_lastIndexOf v l = last_index v (elems l)
     \<and> (\<exists>l'. removeFirstOccurrence v l = Some (Ret (v \<in> set (elems l)), l') \<and> ll_ok l' \<and> elems l' = remove1 v (elems l))
     \<and> (\<exists>l'. removeLastOccurrence v l = Some (Ret (v \<in> set (elems l)), l') \<and> ll_ok l' \<and> elems l' = rev (remove1 v (rev (elems l))))"
  using indexOf_effect [OF assms] lastIndexOf_effect [OF assms] occurrence_effect [OF assms] by blast

theorem ll_occurrences_witness:
  "ll_indexOf 5 ll_demo = 1"
  using ll_occurrences [OF ll_pair(1), of 5] by (simp add: ll_pair first_index_def)

text \<open>
  The list is a stack and a double-ended queue: pop returns what push put on top and restores the list, the last
  element is the one addLast added, and on an empty list the accessors throw or report that there is none.
\<close>

theorem ll_deque:
  assumes "ll_ok l"
  shows "(\<exists>l'. ll_pop (ll_push v l) = (Ret v, l') \<and> ll_ok l' \<and> elems l' = elems l)
     \<and> (\<exists>l'. removeLast (addLast v l) = (Ret v, l') \<and> ll_ok l' \<and> elems l' = elems l)
     \<and> getFirst (addFirst v l) = Ret v \<and> getLast (addLast v l) = Ret v
     \<and> (elems l = [] \<longrightarrow> ll_element l = Throw (NoSuchElementException ''The list is Empty'')
          \<and> fst (ll_remove_head l) = Throw (NoSuchElementException ''The Collection is empty.'')
          \<and> pollLast r l = (Ret (False, r), l) \<and> ll_peek r l = Ret (False, r))"
proof -
  have f: "ll_ok (addToFront v l)" "elems (addToFront v l) = v # elems l" using addToFront_effect [OF assms] by simp_all
  have e: "ll_ok (addToEnd v l)" "elems (addToEnd v l) = elems l @ [v]" using addToEnd_effect [OF assms] by simp_all
  have "\<exists>l'. ll_pop (ll_push v l) = (Ret v, l') \<and> ll_ok l' \<and> elems l' = elems l"
    using removeAtFront_effect [OF f(1)] f(2) by (simp add: ll_pop_def ll_push_def)
  moreover have "\<exists>l'. removeLast (addLast v l) = (Ret v, l') \<and> ll_ok l' \<and> elems l' = elems l"
    using removeAtEnd_effect [OF e(1)] e(2) by (simp add: removeLast_def addLast_def)
  moreover have "getFirst (addFirst v l) = Ret v" "getLast (addLast v l) = Ret v"
    using ends_effect(3) [OF f(1)] ends_effect(4) [OF e(1)] f(2) e(2) by (simp_all add: addFirst_def addLast_def)
  moreover have "elems l = [] \<longrightarrow> ll_element l = Throw (NoSuchElementException ''The list is Empty'')
      \<and> fst (ll_remove_head l) = Throw (NoSuchElementException ''The Collection is empty.'')
      \<and> pollLast r l = (Ret (False, r), l) \<and> ll_peek r l = Ret (False, r)"
    using ends_effect(1,3) [OF assms] removeAtFront_effect [OF assms] ok_size [OF assms]
    by (auto simp: ll_element_def ll_remove_head_def ll_peek_def pollLast_def)
  ultimately show ?thesis by blast
qed

theorem ll_deque_witness:
  "\<exists>l'. ll_pop (ll_push 6 ll_demo) = (Ret 6, l') \<and> ll_ok l' \<and> elems l' = [4, 5]"
  using ll_deque [OF ll_pair(1), of 6 0] by (simp add: ll_pair)

end
