(* ===== verification/Abstract_List.thy ===== *)
theory Abstract_List
  imports Collections
begin

text \<open>
  \<^verbatim>\<open>decaf::util::AbstractList\<close> (AbstractList.h): the list iterators and the bulk operations a list with positional
  access inherits.  They only use the virtual functions \<^verbatim>\<open>size\<close>, \<^verbatim>\<open>get\<close>, \<^verbatim>\<open>set\<close>, \<^verbatim>\<open>add\<close>, \<^verbatim>\<open>removeAt\<close> and the modification
  count of the list below, which are the record \<open>list_ops\<close>.
\<close>

section \<open>Virtual functions\<close>

record ('c, 'e) list_ops =
  vl_size :: "'c \<Rightarrow> int"
  vl_modCount :: "'c \<Rightarrow> int"
  vl_get :: "int \<Rightarrow> 'c \<Rightarrow> 'e outcome"
  vl_set :: "int \<Rightarrow> 'e \<Rightarrow> 'c \<Rightarrow> 'e outcome \<times> 'c"
  vl_add_at :: "int \<Rightarrow> 'e \<Rightarrow> 'c \<Rightarrow> unit outcome \<times> 'c"
  vl_removeAt :: "int \<Rightarrow> 'c \<Rightarrow> 'e outcome \<times> 'c"

text \<open>What AbstractList itself says of the optional ones.\<close>

definition list_add_unsupported :: "int \<Rightarrow> 'e \<Rightarrow> 'c \<Rightarrow> unit outcome \<times> 'c" where
  "list_add_unsupported index element c =
     (Throw (UnsupportedOperationException ''Abstract list does not implement the add method.''), c)"

definition list_removeAt_unsupported :: "int \<Rightarrow> 'c \<Rightarrow> 'e outcome \<times> 'c" where
  "list_removeAt_unsupported index c =
     (Throw (UnsupportedOperationException ''Abstract list does not implement the removeAt method.''), c)"

definition list_set_unsupported :: "int \<Rightarrow> 'e \<Rightarrow> 'c \<Rightarrow> 'e outcome \<times> 'c" where
  "list_set_unsupported index element c =
     (Throw (UnsupportedOperationException ''Abstract list does not implement the set method.''), c)"

section \<open>SimpleListIterator\<close>

record sliter =
  sl_numLeft :: int
  sl_expected :: int
  sl_last :: int

definition out_of_bounds :: "exn \<Rightarrow> bool" where
  "out_of_bounds x \<longleftrightarrow> (case x of ContainerException IndexOutOfBounds _ \<Rightarrow> True | _ \<Rightarrow> False)"

definition modified :: exn where
  "modified = ConcurrentModificationException ''Concurrent Modification of Parent List detected.''"

definition sl_new :: "('c, 'e) list_ops \<Rightarrow> int \<Rightarrow> 'c \<Rightarrow> sliter outcome" where
  "sl_new L start c =
     (if start < 0 \<or> start > vl_size L c then
        Throw (IndexOutOfBoundsException ''start index passed was negative or greater than size()'')
      else Ret \<lparr>sl_numLeft = vl_size L c - start, sl_expected = vl_modCount L c, sl_last = - 1\<rparr>)"

definition sl_hasNext :: "sliter \<Rightarrow> bool" where
  "sl_hasNext it \<longleftrightarrow> sl_numLeft it > 0"

definition sl_next :: "('c, 'e) list_ops \<Rightarrow> 'c \<Rightarrow> sliter \<Rightarrow> 'e outcome \<times> sliter" where
  "sl_next L c it =
     (if sl_expected it \<noteq> vl_modCount L c then (Throw modified, it)
      else
        (let index = vl_size L c - sl_numLeft it in
         case vl_get L index c of
           Ret result \<Rightarrow> (Ret result, it\<lparr>sl_last := index, sl_numLeft := sl_numLeft it - 1\<rparr>)
         | Throw x \<Rightarrow>
             (Throw (if out_of_bounds x then NoSuchElementException ''Next called without a next element to process.'' else x), it)
         | Undefined f \<Rightarrow> (Undefined f, it)))"

definition sl_remove :: "('c, 'e) list_ops \<Rightarrow> 'c \<Rightarrow> sliter \<Rightarrow> unit outcome \<times> 'c \<times> sliter" where
  "sl_remove L c it =
     (if sl_last it = - 1 then (Throw (IllegalStateException ''Remove called before next() was called.''), c, it)
      else if sl_expected it \<noteq> vl_modCount L c then (Throw modified, c, it)
      else
        (let left = (if sl_last it = vl_size L c - sl_numLeft it then sl_numLeft it - 1 else sl_numLeft it) in
         case vl_removeAt L (sl_last it) c of
           (Ret _, c') \<Rightarrow> (Ret (), c', \<lparr>sl_numLeft = left, sl_expected = vl_modCount L c', sl_last = - 1\<rparr>)
         | (Throw x, c') \<Rightarrow>
             (Throw (if out_of_bounds x then ConcurrentModificationException ''Concurrent Modification detected.'' else x), c',
              it\<lparr>sl_numLeft := left\<rparr>)
         | (Undefined f, c') \<Rightarrow> (Undefined f, c', it\<lparr>sl_numLeft := left\<rparr>)))"

definition sl_add :: "('c, 'e) list_ops \<Rightarrow> 'e \<Rightarrow> 'c \<Rightarrow> sliter \<Rightarrow> unit outcome \<times> 'c \<times> sliter" where
  "sl_add L value c it =
     (if sl_expected it \<noteq> vl_modCount L c then (Throw modified, c, it)
      else
        (case vl_add_at L (vl_size L c - sl_numLeft it) value c of
           (Ret _, c') \<Rightarrow> (Ret (), c', it\<lparr>sl_expected := vl_modCount L c', sl_last := - 1\<rparr>)
         | (Throw x, c') \<Rightarrow>
             (Throw (if out_of_bounds x then NoSuchElementException ''Add called without a next element to process.'' else x), c', it)
         | (Undefined f, c') \<Rightarrow> (Undefined f, c', it)))"

definition sl_hasPrevious :: "('c, 'e) list_ops \<Rightarrow> 'c \<Rightarrow> sliter \<Rightarrow> bool" where
  "sl_hasPrevious L c it \<longleftrightarrow> sl_numLeft it < vl_size L c"

definition sl_nextIndex :: "('c, 'e) list_ops \<Rightarrow> 'c \<Rightarrow> sliter \<Rightarrow> int" where
  "sl_nextIndex L c it = vl_size L c - sl_numLeft it"

definition sl_previousIndex :: "('c, 'e) list_ops \<Rightarrow> 'c \<Rightarrow> sliter \<Rightarrow> int" where
  "sl_previousIndex L c it = vl_size L c - sl_numLeft it - 1"

definition sl_previous :: "('c, 'e) list_ops \<Rightarrow> 'c \<Rightarrow> sliter \<Rightarrow> 'e outcome \<times> sliter" where
  "sl_previous L c it =
     (if sl_expected it \<noteq> vl_modCount L c then
        (Throw (ConcurrentModificationException ''Concurrent Modification detected.''), it)
      else
        (let index = vl_size L c - sl_numLeft it - 1 in
         case vl_get L index c of
           Ret result \<Rightarrow> (Ret result, it\<lparr>sl_numLeft := sl_numLeft it + 1, sl_last := index\<rparr>)
         | Throw x \<Rightarrow> (Throw (if out_of_bounds x then NoSuchElementException ''No previous element exists.'' else x), it)
         | Undefined f \<Rightarrow> (Undefined f, it)))"

definition sl_set :: "('c, 'e) list_ops \<Rightarrow> 'e \<Rightarrow> 'c \<Rightarrow> sliter \<Rightarrow> unit outcome \<times> 'c" where
  "sl_set L value c it =
     (if sl_expected it \<noteq> vl_modCount L c then
        (Throw (ConcurrentModificationException ''Concurrent Modification detected.''), c)
      else
        (case vl_set L (sl_last it) value c of
           (Ret _, c') \<Rightarrow> (Ret (), c')
         | (Throw x, c') \<Rightarrow> (Throw (if out_of_bounds x then IllegalStateException '''' else x), c')
         | (Undefined f, c') \<Rightarrow> (Undefined f, c')))"

text \<open>\<^verbatim>\<open>ConstSimpleListIterator\<close> has the same \<^verbatim>\<open>next\<close> and \<^verbatim>\<open>previous\<close> and refuses to write.\<close>

definition sl_const_write :: "string \<Rightarrow> 'c \<Rightarrow> sliter \<Rightarrow> unit outcome \<times> 'c \<times> sliter" where
  "sl_const_write msg c it = (Throw (UnsupportedOperationException msg), c, it)"

definition sl_const_new :: "('c, 'e) list_ops \<Rightarrow> int \<Rightarrow> 'c \<Rightarrow> sliter outcome" where
  "sl_const_new L start c =
     (if start < 0 \<or> start > vl_size L c then
        Throw (IndexOutOfBoundsException ''start index passed was negative or greater than size()'')
      else Ret \<lparr>sl_numLeft = vl_size L c - start, sl_expected = vl_modCount L c, sl_last = - 1\<rparr>)"

definition sl_const_next :: "('c, 'e) list_ops \<Rightarrow> 'c \<Rightarrow> sliter \<Rightarrow> 'e outcome \<times> sliter" where
  "sl_const_next L c it =
     (if sl_expected it \<noteq> vl_modCount L c then (Throw modified, it)
      else
        (let index = vl_size L c - sl_numLeft it in
         case vl_get L index c of
           Ret result \<Rightarrow> (Ret result, it\<lparr>sl_last := index, sl_numLeft := sl_numLeft it - 1\<rparr>)
         | Throw x \<Rightarrow>
             (Throw (if out_of_bounds x then NoSuchElementException ''Next called without a next element to process.'' else x), it)
         | Undefined f \<Rightarrow> (Undefined f, it)))"

definition sl_const_previous :: "('c, 'e) list_ops \<Rightarrow> 'c \<Rightarrow> sliter \<Rightarrow> 'e outcome \<times> sliter" where
  "sl_const_previous L c it =
     (if sl_expected it \<noteq> vl_modCount L c then
        (Throw (ConcurrentModificationException ''Concurrent Modification detected.''), it)
      else
        (let index = vl_size L c - sl_numLeft it - 1 in
         case vl_get L index c of
           Ret result \<Rightarrow> (Ret result, it\<lparr>sl_numLeft := sl_numLeft it + 1, sl_last := index\<rparr>)
         | Throw x \<Rightarrow> (Throw (if out_of_bounds x then NoSuchElementException ''No previous element exists.'' else x), it)
         | Undefined f \<Rightarrow> (Undefined f, it)))"

text \<open>The iterators of a constant list read like the others.\<close>

lemma const_iterators_read:
  "sl_const_new = sl_new" "sl_const_next = sl_next" "sl_const_previous = sl_previous"
  by (simp_all add: fun_eq_iff sl_const_new_def sl_new_def sl_const_next_def sl_next_def
      sl_const_previous_def sl_previous_def)

section \<open>Operations\<close>

text \<open>\<^verbatim>\<open>iterator()\<close> is \<^verbatim>\<open>listIterator(0)\<close>; its range check cannot fail.\<close>

definition sl_first :: "('c, 'e) list_ops \<Rightarrow> 'c \<Rightarrow> sliter" where
  "sl_first L c = \<lparr>sl_numLeft = vl_size L c, sl_expected = vl_modCount L c, sl_last = - 1\<rparr>"

definition list_coll :: "('c, 'e) list_ops \<Rightarrow> ('e \<Rightarrow> 'c \<Rightarrow> bool outcome \<times> 'c) \<Rightarrow> ('c \<Rightarrow> unit outcome \<times> 'c) \<Rightarrow> ('c, sliter, 'e) coll_ops" where
  "list_coll L add clear = \<lparr>v_size = vl_size L, v_iterator = sl_first L, v_hasNext = \<lambda>_. sl_hasNext, v_next = sl_next L,
     v_remove = sl_remove L, v_add = add, v_clear = clear\<rparr>"

definition list_add :: "('c, 'e) list_ops \<Rightarrow> 'e \<Rightarrow> 'c \<Rightarrow> bool outcome \<times> 'c" where
  "list_add L value c =
     (case vl_add_at L (vl_size L c) value c of
        (Ret _, c') \<Rightarrow> (Ret True, c')
      | (Throw x, c') \<Rightarrow> (Throw x, c')
      | (Undefined f, c') \<Rightarrow> (Undefined f, c'))"

fun list_add_each :: "('c, 'e) list_ops \<Rightarrow> int \<Rightarrow> 'e list \<Rightarrow> 'c \<Rightarrow> unit outcome \<times> 'c" where
  "list_add_each L index [] c = (Ret (), c)"
| "list_add_each L index (v # vs) c =
     (case vl_add_at L index v c of
        (Ret _, c') \<Rightarrow> list_add_each L (index + 1) vs c'
      | (Throw x, c') \<Rightarrow> (Throw x, c')
      | (Undefined f, c') \<Rightarrow> (Undefined f, c'))"

definition list_addAll :: "('c, 'e) list_ops \<Rightarrow> int \<Rightarrow> 'e list \<Rightarrow> 'c \<Rightarrow> bool outcome \<times> 'c" where
  "list_addAll L index source c =
     (case list_add_each L index source c of
        (Ret _, c') \<Rightarrow> (Ret (source \<noteq> []), c')
      | (Throw x, c') \<Rightarrow> (Throw x, c')
      | (Undefined f, c') \<Rightarrow> (Undefined f, c'))"

fun list_index_from :: "nat \<Rightarrow> ('c, 'e) list_ops \<Rightarrow> 'e \<Rightarrow> 'c \<Rightarrow> sliter \<Rightarrow> int outcome option" where
  "list_index_from 0 L value c it = None"
| "list_index_from (Suc n) L value c it =
     (if sl_hasNext it then
        (case sl_next L c it of
           (Ret v, it') \<Rightarrow>
             if value = v then Some (Ret (sl_previousIndex L c it')) else list_index_from n L value c it'
         | (Throw x, _) \<Rightarrow> Some (Throw x)
         | (Undefined f, _) \<Rightarrow> Some (Undefined f))
      else Some (Ret (- 1)))"

definition list_indexOf :: "nat \<Rightarrow> ('c, 'e) list_ops \<Rightarrow> 'e \<Rightarrow> 'c \<Rightarrow> int outcome option" where
  "list_indexOf n L value c = list_index_from n L value c (sl_first L c)"

fun list_last_index_from :: "nat \<Rightarrow> ('c, 'e) list_ops \<Rightarrow> 'e \<Rightarrow> 'c \<Rightarrow> sliter \<Rightarrow> int outcome option" where
  "list_last_index_from 0 L value c it = None"
| "list_last_index_from (Suc n) L value c it =
     (if sl_hasPrevious L c it then
        (case sl_previous L c it of
           (Ret v, it') \<Rightarrow>
             if value = v then Some (Ret (sl_nextIndex L c it')) else list_last_index_from n L value c it'
         | (Throw x, _) \<Rightarrow> Some (Throw x)
         | (Undefined f, _) \<Rightarrow> Some (Undefined f))
      else Some (Ret (- 1)))"

definition list_lastIndexOf :: "nat \<Rightarrow> ('c, 'e) list_ops \<Rightarrow> 'e \<Rightarrow> 'c \<Rightarrow> int outcome option" where
  "list_lastIndexOf n L value c =
     (case sl_new L (vl_size L c) c of
        Ret it \<Rightarrow> list_last_index_from n L value c it
      | Throw x \<Rightarrow> Some (Throw x)
      | Undefined f \<Rightarrow> Some (Undefined f))"

text \<open>\<^verbatim>\<open>removeRange\<close> and \<^verbatim>\<open>clear\<close>.\<close>

fun remove_n_next :: "nat \<Rightarrow> ('c, 'e) list_ops \<Rightarrow> 'c \<Rightarrow> sliter \<Rightarrow> unit outcome \<times> 'c" where
  "remove_n_next 0 L c it = (Ret (), c)"
| "remove_n_next (Suc n) L c it =
     (case sl_next L c it of
        (Ret _, it1) \<Rightarrow>
          (case sl_remove L c it1 of
             (Ret _, c', it2) \<Rightarrow> remove_n_next n L c' it2
           | (Throw x, c', _) \<Rightarrow> (Throw x, c')
           | (Undefined f, c', _) \<Rightarrow> (Undefined f, c'))
      | (Throw x, _) \<Rightarrow> (Throw x, c)
      | (Undefined f, _) \<Rightarrow> (Undefined f, c))"

definition removeRange :: "('c, 'e) list_ops \<Rightarrow> int \<Rightarrow> int \<Rightarrow> 'c \<Rightarrow> unit outcome \<times> 'c" where
  "removeRange L start stop c =
     (case sl_new L start c of
        Ret it \<Rightarrow> remove_n_next (nat (stop - start)) L c it
      | Throw x \<Rightarrow> (Throw x, c)
      | Undefined f \<Rightarrow> (Undefined f, c))"

definition list_clear :: "('c, 'e) list_ops \<Rightarrow> 'c \<Rightarrow> unit outcome \<times> 'c" where
  "list_clear L c = removeRange L 0 (vl_size L c) c"

section \<open>What the inherited operations rely on\<close>

definition sl_view :: "('c, 'e) list_ops \<Rightarrow> ('c \<Rightarrow> bool) \<Rightarrow> ('c \<Rightarrow> 'e list) \<Rightarrow> 'c \<Rightarrow> sliter \<Rightarrow> 'e list \<Rightarrow> 'e list \<Rightarrow> bool \<Rightarrow> bool" where
  "sl_view L invar elems c it xs ys b \<longleftrightarrow> invar c \<and> elems c = xs @ ys \<and> sl_numLeft it = int (length ys)
     \<and> sl_expected it = vl_modCount L c \<and> (b \<longrightarrow> xs \<noteq> [] \<and> sl_last it = int (length xs) - 1)"

text \<open>A list that can be read, changed and cut at a position.\<close>

locale random_access =
  fixes L :: "('c, 'e) list_ops"
    and invar :: "'c \<Rightarrow> bool"
    and elems :: "'c \<Rightarrow> 'e list"
  assumes length_law: "invar c \<Longrightarrow> vl_size L c = int (length (elems c))"
    and get_law: "invar c \<Longrightarrow> i < length (elems c) \<Longrightarrow> vl_get L (int i) c = Ret (elems c ! i)"
    and get_range_law: "invar c \<Longrightarrow> index < 0 \<or> int (length (elems c)) \<le> index \<Longrightarrow>
      \<exists>msg. vl_get L index c = Throw (IndexOutOfBoundsException msg)"
    and set_law: "invar c \<Longrightarrow> i < length (elems c) \<Longrightarrow>
      \<exists>c'. vl_set L (int i) v c = (Ret (elems c ! i), c') \<and> invar c' \<and> elems c' = (elems c)[i := v]"
    and removeAt_law: "invar c \<Longrightarrow> i < length (elems c) \<Longrightarrow>
      \<exists>c'. vl_removeAt L (int i) c = (Ret (elems c ! i), c') \<and> invar c' \<and> elems c' = take i (elems c) @ drop (Suc i) (elems c)"
begin

lemma sl_view_next:
  assumes "sl_view L invar elems c it xs (y # ys) b"
  shows "\<exists>it'. sl_next L c it = (Ret y, it') \<and> sl_view L invar elems c it' (xs @ [y]) ys True"
proof -
  have v: "invar c" "elems c = xs @ y # ys" "sl_numLeft it = int (length (y # ys))" "sl_expected it = vl_modCount L c"
    using assms unfolding sl_view_def by auto
  have "vl_size L c - sl_numLeft it = int (length xs)" using length_law [OF v(1)] v(2,3) by simp
  moreover have "vl_get L (int (length xs)) c = Ret y" using get_law [OF v(1), of "length xs"] v(2) by simp
  ultimately show ?thesis using v by (simp add: sl_next_def sl_view_def)
qed

lemma sl_view_end:
  assumes "sl_view L invar elems c it xs [] b"
  shows "sl_next L c it = (Throw (NoSuchElementException ''Next called without a next element to process.''), it)"
proof -
  have v: "invar c" "elems c = xs" "sl_numLeft it = 0" "sl_expected it = vl_modCount L c" using assms unfolding sl_view_def by auto
  obtain msg where "vl_get L (vl_size L c) c = Throw (IndexOutOfBoundsException msg)"
    using get_range_law [OF v(1), of "vl_size L c"] length_law [OF v(1)] by auto
  then show ?thesis using v by (simp add: sl_next_def out_of_bounds_def)
qed

lemma sl_view_previous:
  assumes "sl_view L invar elems c it (xs @ [x]) ys b"
  shows "\<exists>it'. sl_previous L c it = (Ret x, it') \<and> sl_view L invar elems c it' xs (x # ys) False"
proof -
  have v: "invar c" "elems c = (xs @ [x]) @ ys" "sl_numLeft it = int (length ys)" "sl_expected it = vl_modCount L c"
    using assms unfolding sl_view_def by auto
  have "vl_size L c - sl_numLeft it - 1 = int (length xs)" using length_law [OF v(1)] v(2,3) by simp
  moreover have "vl_get L (int (length xs)) c = Ret x" using get_law [OF v(1), of "length xs"] v(2) by (simp add: nth_append)
  ultimately show ?thesis using v by (simp add: sl_previous_def sl_view_def)
qed

lemma sl_view_remove:
  assumes "sl_view L invar elems c it (xs @ [x]) ys True"
  shows "\<exists>c' it'. sl_remove L c it = (Ret (), c', it') \<and> sl_view L invar elems c' it' xs ys False"
proof -
  have v: "invar c" "elems c = (xs @ [x]) @ ys" "sl_numLeft it = int (length ys)" "sl_expected it = vl_modCount L c"
    "sl_last it = int (length xs)" using assms unfolding sl_view_def by auto
  obtain c' where c': "vl_removeAt L (int (length xs)) c = (Ret x, c')" "invar c'" "elems c' = xs @ ys"
    using removeAt_law [OF v(1), of "length xs"] v(2) by (auto simp: nth_append)
  have "sl_last it \<noteq> vl_size L c - sl_numLeft it" using length_law [OF v(1)] v by simp
  with v c' show ?thesis by (simp add: sl_remove_def sl_view_def)
qed

lemma sl_view_first: "invar c \<Longrightarrow> sl_view L invar elems c (sl_first L c) [] (elems c) False"
  by (simp add: sl_view_def sl_first_def length_law)

lemma list_index_from_effect:
  assumes "sl_view L invar elems c it xs ys b" and "length ys < n"
  shows "list_index_from n L v c it = Some (Ret (if v \<in> set ys then int (length xs) + first_index v ys else - 1))"
  using assms
proof (induction ys arbitrary: it xs b n)
  case Nil
  then show ?case by (cases n) (auto simp: sl_hasNext_def sl_view_def)
next
  case (Cons y ys)
  obtain m where m: "n = Suc m" using Cons.prems(2) by (cases n) auto
  obtain it' where n: "sl_next L c it = (Ret y, it')" "sl_view L invar elems c it' (xs @ [y]) ys True"
    using sl_view_next [OF Cons.prems(1)] by blast
  have "sl_hasNext it" using Cons.prems(1) by (simp add: sl_hasNext_def sl_view_def)
  moreover have "sl_previousIndex L c it' = int (length xs)"
    using n(2) length_law [of c] by (simp add: sl_previousIndex_def sl_view_def)
  moreover have "list_index_from m L v c it' = Some (Ret (if v \<in> set ys then int (length (xs @ [y])) + first_index v ys else - 1))"
    using Cons.IH [OF n(2)] Cons.prems(2) m by simp
  ultimately show ?case using n(1) m by (auto simp: first_index_def)
qed

lemma list_indexOf_effect:
  assumes "invar c" and "length (elems c) < n"
  shows "list_indexOf n L v c = Some (Ret (first_index v (elems c)))"
  using list_index_from_effect [OF sl_view_first [OF assms(1)] assms(2)] by (simp add: list_indexOf_def first_index_def)

lemma list_last_index_from_effect:
  assumes "sl_view L invar elems c it xs ys b" and "length xs < n"
  shows "list_last_index_from n L v c it = Some (Ret (last_index v xs))"
  using assms
proof (induction xs arbitrary: it ys b n rule: rev_induct)
  case Nil
  then show ?case using length_law [of c] by (cases n) (auto simp: sl_hasPrevious_def sl_view_def last_index_def)
next
  case (snoc x xs)
  obtain m where m: "n = Suc m" using snoc.prems(2) by (cases n) auto
  obtain it' where n: "sl_previous L c it = (Ret x, it')" "sl_view L invar elems c it' xs (x # ys) False"
    using sl_view_previous [OF snoc.prems(1)] by blast
  have "sl_hasPrevious L c it" using snoc.prems(1) length_law [of c] by (simp add: sl_hasPrevious_def sl_view_def)
  moreover have "sl_nextIndex L c it' = int (length xs)"
    using n(2) length_law [of c] by (simp add: sl_nextIndex_def sl_view_def)
  moreover have "list_last_index_from m L v c it' = Some (Ret (last_index v xs))"
    using snoc.IH [OF n(2)] snoc.prems(2) m by simp
  ultimately show ?case using n(1) m by (auto simp: last_index_def first_index_def)
qed

lemma list_lastIndexOf_effect:
  assumes "invar c" and "length (elems c) < n"
  shows "list_lastIndexOf n L v c = Some (Ret (last_index v (elems c)))"
proof -
  let ?it = "\<lparr>sl_numLeft = 0, sl_expected = vl_modCount L c, sl_last = - 1\<rparr>"
  have "sl_view L invar elems c ?it (elems c) [] False" using assms(1) by (simp add: sl_view_def)
  from list_last_index_from_effect [OF this assms(2)] show ?thesis
    using length_law [OF assms(1)] by (simp add: list_lastIndexOf_def sl_new_def)
qed

lemma remove_n_next_effect:
  assumes "sl_view L invar elems c it xs ys b" and "n \<le> length ys"
  shows "\<exists>c'. remove_n_next n L c it = (Ret (), c') \<and> invar c' \<and> elems c' = xs @ drop n ys"
  using assms
proof (induction n arbitrary: c it ys b)
  case 0
  then show ?case by (simp add: sl_view_def)
next
  case (Suc n)
  then obtain y zs where y: "ys = y # zs" by (cases ys) auto
  obtain it1 where n: "sl_next L c it = (Ret y, it1)" "sl_view L invar elems c it1 (xs @ [y]) zs True"
    using sl_view_next Suc.prems(1) unfolding y by blast
  obtain c2 it2 where r: "sl_remove L c it1 = (Ret (), c2, it2)" "sl_view L invar elems c2 it2 xs zs False"
    using sl_view_remove [OF n(2)] by blast
  with n Suc.IH [OF r(2)] Suc.prems(2) y show ?case by simp
qed

lemma removeRange_effect:
  assumes "invar c" and "i \<le> j" and "j \<le> length (elems c)"
  shows "\<exists>c'. removeRange L (int i) (int j) c = (Ret (), c') \<and> invar c' \<and> elems c' = take i (elems c) @ drop j (elems c)"
proof -
  let ?it = "\<lparr>sl_numLeft = vl_size L c - int i, sl_expected = vl_modCount L c, sl_last = - 1\<rparr>"
  have v: "sl_view L invar elems c ?it (take i (elems c)) (drop i (elems c)) False"
    using assms length_law [OF assms(1)] by (simp add: sl_view_def of_nat_diff)
  have "removeRange L (int i) (int j) c = remove_n_next (j - i) L c ?it"
    using assms length_law [OF assms(1)] by (simp add: removeRange_def sl_new_def nat_diff_distrib)
  with remove_n_next_effect [OF v, of "j - i"] assms show ?thesis by auto
qed

end

text \<open>Such a list is an iterable container, whatever its \<^verbatim>\<open>add\<close> and \<^verbatim>\<open>clear\<close> do.\<close>

sublocale random_access \<subseteq> lst: iterable "list_coll L add clear" invar elems "sl_view L invar elems"
proof
  fix c it xs ys x y b
  show "invar c \<Longrightarrow> v_size (list_coll L add clear) c = int (length (elems c))" by (simp add: list_coll_def length_law)
  show "sl_view L invar elems c it xs ys b \<Longrightarrow> invar c \<and> elems c = xs @ ys" by (simp add: sl_view_def)
  show "invar c \<Longrightarrow> sl_view L invar elems c (v_iterator (list_coll L add clear) c) [] (elems c) False"
    by (simp add: list_coll_def sl_view_first)
  show "sl_view L invar elems c it xs ys b \<Longrightarrow> v_hasNext (list_coll L add clear) c it = (ys \<noteq> [])"
    by (simp add: list_coll_def sl_hasNext_def sl_view_def)
  show "sl_view L invar elems c it xs (y # ys) b \<Longrightarrow>
      \<exists>it'. v_next (list_coll L add clear) c it = (Ret y, it') \<and> sl_view L invar elems c it' (xs @ [y]) ys True"
    by (simp add: list_coll_def sl_view_next)
  show "sl_view L invar elems c it (xs @ [x]) ys True \<Longrightarrow>
      \<exists>c' it'. v_remove (list_coll L add clear) c it = (Ret (), c', it') \<and> sl_view L invar elems c' it' xs ys False"
    by (simp add: list_coll_def sl_view_remove)
qed

end
