(* ===== verification/Array_List.thy ===== *)
theory Array_List
  imports Abstract_List
begin

text \<open>
  \<^verbatim>\<open>decaf::util::ArrayList\<close> (ArrayList.h) and the copy loop it is built on, the template
  \<^verbatim>\<open>System::arraycopy\<close> (System.h), which is the one used for every element type that is a class.
  The array is a list as long as the memory that was allocated for it; an access beyond it is
  undefined.  \<open>d\<close> is \<^verbatim>\<open>E()\<close>, the value new elements have.
\<close>

section \<open>System::arraycopy\<close>

text \<open>
  The loop copies from the first element to the last.  The two arrays may be the same one, so there is a
  function for each case.
\<close>

fun copy_within :: "nat \<Rightarrow> nat \<Rightarrow> nat \<Rightarrow> 'a list \<Rightarrow> 'a list outcome" where
  "copy_within 0 srcPos destPos a = Ret a"
| "copy_within (Suc n) srcPos destPos a =
     (if srcPos < length a \<and> destPos < length a
      then copy_within n (Suc srcPos) (Suc destPos) (a[destPos := a ! srcPos])
      else Undefined OutOfBounds)"

fun copy_between :: "nat \<Rightarrow> nat \<Rightarrow> nat \<Rightarrow> 'a list \<Rightarrow> 'a list \<Rightarrow> 'a list outcome" where
  "copy_between 0 srcPos destPos src dest = Ret dest"
| "copy_between (Suc n) srcPos destPos src dest =
     (if srcPos < length src \<and> destPos < length dest
      then copy_between n (Suc srcPos) (Suc destPos) src (dest[destPos := src ! srcPos])
      else Undefined OutOfBounds)"

section \<open>State\<close>

record 'a alist =
  al_elements :: "'a list"
  al_capacity :: int
  al_head :: int
  al_curSize :: int
  al_modCount :: int

definition touch :: "'a alist \<Rightarrow> 'a alist" where
  "touch l = l\<lparr>al_modCount := al_modCount l + 1\<rparr>"

definition new_array :: "'a \<Rightarrow> int \<Rightarrow> 'a list" where
  "new_array d n = replicate (nat n) d"

text \<open>The result of a copy becomes the array of the list.\<close>

definition with_array :: "'a list outcome \<Rightarrow> int \<Rightarrow> 'a alist \<Rightarrow> 'a alist outcome" where
  "with_array r cap l =
     (case r of
        Ret a \<Rightarrow> Ret (l\<lparr>al_elements := a, al_capacity := cap\<rparr>)
      | Throw x \<Rightarrow> Throw x
      | Undefined f \<Rightarrow> Undefined f)"

section \<open>Capacity\<close>

definition ensureCapacity :: "'a \<Rightarrow> int \<Rightarrow> 'a alist \<Rightarrow> 'a alist outcome" where
  "ensureCapacity d minimumCapacity l =
     (if minimumCapacity < 0 \<or> al_capacity l \<ge> minimumCapacity then Ret l
      else
        (let newCapacity = (if minimumCapacity = 0 then 10 else minimumCapacity);
             newElements = new_array d newCapacity
         in with_array
              (if al_curSize l > 0
               then copy_between (nat (al_curSize l)) (nat (al_head l)) 0 (al_elements l) newElements
               else Ret newElements)
              newCapacity (touch l)))"

definition trimToSize :: "'a \<Rightarrow> 'a alist \<Rightarrow> 'a alist outcome" where
  "trimToSize d l =
     (if al_curSize l < al_capacity l then
        (let newCapacity = (if al_curSize l = 0 then 10 else al_curSize l);
             newElements = new_array d newCapacity
         in with_array
              (if al_curSize l > 0 then copy_between (nat (al_curSize l)) 0 0 (al_elements l) newElements
               else Ret newElements)
              newCapacity (touch l))
      else Ret (touch l))"

text \<open>
  The three ways to make room: a new array when there is no space left, otherwise the elements are
  moved inside the array.
\<close>

definition expandFront :: "'a \<Rightarrow> int \<Rightarrow> 'a alist \<Rightarrow> 'a alist outcome" where
  "expandFront d amount l =
     (if amount = 0 then Ret l
      else if amount > al_capacity l - al_curSize l then
        (let cap = al_capacity l + amount + 11 in
         with_array
           (if al_curSize l > 0 then copy_between (nat (al_curSize l)) 0 (nat amount) (al_elements l) (new_array d cap)
            else Ret (new_array d cap))
           cap l)
      else
        with_array
          (if al_curSize l > 0 then copy_within (nat (al_curSize l)) 0 (nat amount) (al_elements l)
           else Ret (al_elements l))
          (al_capacity l) l)"

definition expandEnd :: "'a \<Rightarrow> int \<Rightarrow> 'a alist \<Rightarrow> 'a alist outcome" where
  "expandEnd d amount l =
     (if amount = 0 then Ret l
      else if amount > al_capacity l - al_curSize l then
        (let cap = al_capacity l + amount + 11 in
         with_array (copy_between (nat (al_curSize l)) 0 0 (al_elements l) (new_array d cap)) cap l)
      else Ret l)"

definition expandMiddle :: "'a \<Rightarrow> int \<Rightarrow> int \<Rightarrow> 'a alist \<Rightarrow> 'a alist outcome" where
  "expandMiddle d index amount l =
     (if amount = 0 then Ret l
      else
        (let grow = (amount > al_capacity l - al_curSize l);
             cap = (if grow then al_capacity l + amount + 11 else al_capacity l);
             copy = (\<lambda>n s t dest. if grow then copy_between n s t (al_elements l) dest else copy_within n s t dest);
             first = (if grow then new_array d cap else al_elements l)
         in with_array
              (case (if al_curSize l > 0 then copy (nat index) 0 0 first else Ret first) of
                 Ret a \<Rightarrow>
                   if al_curSize l > index
                   then copy (nat (al_curSize l - index)) (nat index) (nat (index + amount)) a
                   else Ret a
               | r \<Rightarrow> r)
              cap l))"

section \<open>Constructors and operations\<close>

definition al_blank :: "'a alist" where
  "al_blank = \<lparr>al_elements = [], al_capacity = 0, al_head = 0, al_curSize = 0, al_modCount = 0\<rparr>"

definition al_new :: "'a \<Rightarrow> 'a alist outcome" where
  "al_new d = ensureCapacity d 10 al_blank"

text \<open>\<^verbatim>\<open>this->elements[this->head++] = iter->next(); this->curSize++;\<close>\<close>

fun store_all :: "'a list \<Rightarrow> 'a alist \<Rightarrow> 'a alist outcome" where
  "store_all [] l = Ret l"
| "store_all (v # vs) l =
     (if nat (al_head l) < length (al_elements l)
      then store_all vs (l\<lparr>al_elements := (al_elements l)[nat (al_head l) := v],
                          al_head := al_head l + 1, al_curSize := al_curSize l + 1\<rparr>)
      else Undefined OutOfBounds)"

definition al_from :: "'a \<Rightarrow> 'a list \<Rightarrow> 'a alist outcome" where
  "al_from d collection =
     (let cap = int (length collection) + int (length collection) div 10
      in store_all collection (al_blank\<lparr>al_elements := new_array d cap, al_capacity := cap\<rparr>))"

definition al_with_capacity :: "'a \<Rightarrow> int \<Rightarrow> 'a alist outcome" where
  "al_with_capacity d initialCapacity =
     (if initialCapacity < 0 then Throw (IllegalArgumentException ''Initial Capacity argument cannot be negative.'')
      else Ret (al_blank\<lparr>al_elements := new_array d initialCapacity, al_capacity := initialCapacity\<rparr>))"

definition al_clear :: "'a \<Rightarrow> 'a alist \<Rightarrow> 'a alist outcome" where
  "al_clear d l =
     (if al_curSize l > 0
      then Ret (touch (l\<lparr>al_curSize := 0, al_capacity := 10, al_elements := new_array d 10\<rparr>))
      else ensureCapacity d 10 l)"

definition al_range_error :: exn where
  "al_range_error = IndexOutOfBoundsException ''Index greater than size() or negative''"

definition al_get :: "int \<Rightarrow> 'a alist \<Rightarrow> 'a outcome" where
  "al_get index l =
     (if index < 0 \<or> index \<ge> al_curSize l then Throw al_range_error
      else if nat index < length (al_elements l) then Ret (al_elements l ! nat index)
      else Undefined OutOfBounds)"

definition al_set :: "int \<Rightarrow> 'a \<Rightarrow> 'a alist \<Rightarrow> 'a outcome \<times> 'a alist" where
  "al_set index element l =
     (if index < 0 \<or> index \<ge> al_curSize l then (Throw al_range_error, l)
      else if nat index < length (al_elements l)
      then (Ret (al_elements l ! nat index), l\<lparr>al_elements := (al_elements l)[nat index := element]\<rparr>)
      else (Undefined OutOfBounds, l))"

text \<open>The assignments \<^verbatim>\<open>this->elements[index] = element\<close> after the room was made.\<close>

fun write_all :: "nat \<Rightarrow> 'a list \<Rightarrow> 'a alist \<Rightarrow> 'a alist outcome" where
  "write_all i [] l = Ret l"
| "write_all i (v # vs) l =
     (if i < length (al_elements l)
      then write_all (Suc i) vs (l\<lparr>al_elements := (al_elements l)[i := v], al_curSize := al_curSize l + 1\<rparr>)
      else Undefined OutOfBounds)"

definition finish :: "'b \<Rightarrow> nat \<Rightarrow> 'a list \<Rightarrow> 'a alist outcome \<Rightarrow> 'a alist \<Rightarrow> 'b outcome \<times> 'a alist" where
  "finish result i vs r l =
     (case r of
        Ret l1 \<Rightarrow>
          (case write_all i vs l1 of
             Ret l2 \<Rightarrow> (Ret result, touch l2)
           | Throw x \<Rightarrow> (Throw x, l)
           | Undefined f \<Rightarrow> (Undefined f, l))
      | Throw x \<Rightarrow> (Throw x, l)
      | Undefined f \<Rightarrow> (Undefined f, l))"

definition al_add :: "'a \<Rightarrow> 'a \<Rightarrow> 'a alist \<Rightarrow> bool outcome \<times> 'a alist" where
  "al_add d v l = finish True (nat (al_curSize l)) [v] (expandEnd d 1 l) l"

definition make_room :: "'a \<Rightarrow> int \<Rightarrow> int \<Rightarrow> 'a alist \<Rightarrow> 'a alist outcome" where
  "make_room d index amount l =
     (if index = 0 then expandFront d amount l
      else if index = al_curSize l then expandEnd d amount l
      else expandMiddle d index amount l)"

definition al_add_at :: "'a \<Rightarrow> int \<Rightarrow> 'a \<Rightarrow> 'a alist \<Rightarrow> unit outcome \<times> 'a alist" where
  "al_add_at d index v l =
     (if index < 0 \<or> index > al_curSize l
      then (Throw (IndexOutOfBoundsException ''Index was negative or greater than size()''), l)
      else finish () (nat index) [v] (make_room d index 1 l) l)"

definition al_addAll :: "'a \<Rightarrow> 'a list \<Rightarrow> 'a alist \<Rightarrow> bool outcome \<times> 'a alist" where
  "al_addAll d collection l =
     (if collection = [] then (Ret False, l)
      else finish True (nat (al_curSize l)) collection (expandEnd d (int (length collection)) l) l)"

definition al_addAll_at :: "'a \<Rightarrow> int \<Rightarrow> 'a list \<Rightarrow> 'a alist \<Rightarrow> bool outcome \<times> 'a alist" where
  "al_addAll_at d index collection l =
     (if index < 0 \<or> index > al_curSize l then (Throw (IndexOutOfBoundsException ''Index greater than size()''), l)
      else if collection = [] then (Ret False, l)
      else finish True (nat index) collection (make_room d index (int (length collection)) l) l)"

definition al_removeAt :: "'a \<Rightarrow> int \<Rightarrow> 'a alist \<Rightarrow> 'a outcome \<times> 'a alist" where
  "al_removeAt d index l =
     (if index < 0 \<or> index \<ge> al_curSize l then (Throw al_range_error, l)
      else
        (let old = al_elements l ! nat index;
             moved = (case copy_within (nat index) 0 0 (al_elements l) of
                        Ret a \<Rightarrow>
                          if al_curSize l > index
                          then copy_within (nat (al_curSize l - index - 1)) (nat (index + 1)) (nat index) a
                          else Ret a
                      | r \<Rightarrow> r)
         in case moved of
              Ret a \<Rightarrow>
                (let size = al_curSize l - 1 in
                 (Ret old, touch (l\<lparr>al_elements := a[nat size := d], al_curSize := size\<rparr>)))
            | Throw x \<Rightarrow> (Throw x, l)
            | Undefined f \<Rightarrow> (Undefined f, l)))"

fun al_index_from :: "nat \<Rightarrow> 'a \<Rightarrow> int \<Rightarrow> 'a alist \<Rightarrow> int" where
  "al_index_from 0 v i l = - 1"
| "al_index_from (Suc n) v i l =
     (if i < al_curSize l then if al_elements l ! nat i = v then i else al_index_from n v (i + 1) l else - 1)"

definition al_indexOf :: "'a \<Rightarrow> 'a alist \<Rightarrow> int" where
  "al_indexOf v l = al_index_from (Suc (nat (al_curSize l))) v 0 l"

fun al_last_index_from :: "nat \<Rightarrow> 'a \<Rightarrow> 'a alist \<Rightarrow> int" where
  "al_last_index_from 0 v l = - 1"
| "al_last_index_from (Suc i) v l = (if al_elements l ! i = v then int i else al_last_index_from i v l)"

definition al_lastIndexOf :: "'a \<Rightarrow> 'a alist \<Rightarrow> int" where
  "al_lastIndexOf v l = al_last_index_from (nat (al_curSize l)) v l"

definition al_remove :: "'a \<Rightarrow> 'a \<Rightarrow> 'a alist \<Rightarrow> bool outcome \<times> 'a alist" where
  "al_remove d v l =
     (let result = al_indexOf v l in
      if result \<noteq> - 1 then
        (case al_removeAt d result l of
           (Ret _, l') \<Rightarrow> (Ret True, l')
         | (Throw x, l') \<Rightarrow> (Throw x, l')
         | (Undefined f, l') \<Rightarrow> (Undefined f, l'))
      else (Ret False, l))"

definition al_contains :: "'a \<Rightarrow> 'a alist \<Rightarrow> bool" where
  "al_contains v l \<longleftrightarrow> al_indexOf v l \<noteq> - 1"

definition al_toArray :: "'a alist \<Rightarrow> 'a list" where
  "al_toArray l = map (\<lambda>i. al_elements l ! i) [0..<nat (al_curSize l)]"

definition al_isEmpty :: "'a alist \<Rightarrow> bool" where
  "al_isEmpty l \<longleftrightarrow> al_curSize l = 0"

text \<open>
  \<^verbatim>\<open>operator=\<close>: clear, then the elements of the other list at the end, or those of another collection at
  position 0.
\<close>

definition al_assign :: "'a \<Rightarrow> 'a list \<Rightarrow> 'a alist \<Rightarrow> bool outcome \<times> 'a alist" where
  "al_assign d collection l =
     (case al_clear d l of
        Ret l' \<Rightarrow> al_addAll d collection l'
      | Throw x \<Rightarrow> (Throw x, l)
      | Undefined f \<Rightarrow> (Undefined f, l))"

definition al_assign_collection :: "'a \<Rightarrow> 'a list \<Rightarrow> 'a alist \<Rightarrow> bool outcome \<times> 'a alist" where
  "al_assign_collection d collection l =
     (case al_clear d l of
        Ret l' \<Rightarrow> al_addAll_at d 0 collection l'
      | Throw x \<Rightarrow> (Throw x, l)
      | Undefined f \<Rightarrow> (Undefined f, l))"

text \<open>The functions the base class uses.\<close>

definition al_list :: "'a \<Rightarrow> ('a alist, 'a) list_ops" where
  "al_list d = \<lparr>vl_size = al_curSize, vl_modCount = al_modCount, vl_get = al_get, vl_set = al_set,
     vl_add_at = al_add_at d, vl_removeAt = al_removeAt d\<rparr>"

section \<open>The copy loops\<close>

lemma copy_between_effect:
  "s + n \<le> length src \<Longrightarrow> t + n \<le> length dest \<Longrightarrow>
   copy_between n s t src dest = Ret (take t dest @ take n (drop s src) @ drop (t + n) dest)"
proof (induction n arbitrary: s t dest)
  case (Suc n)
  have "take (Suc n) (drop s src) = src ! s # take n (drop (Suc s) src)"
    using Suc.prems(1) by (simp add: Cons_nth_drop_Suc [symmetric] take_Suc_Cons)
  with Suc show ?case by (simp add: take_update_swap [symmetric] take_Suc_conv_app_nth)
qed simp

text \<open>Inside one array, the loop is right when it moves the elements towards the front.\<close>

lemma copy_within_down:
  "t \<le> s \<Longrightarrow> s + n \<le> length a \<Longrightarrow> copy_within n s t a = Ret (take t a @ take n (drop s a) @ drop (t + n) a)"
proof (induction n arbitrary: s t a)
  case (Suc n)
  have "take (Suc n) (drop s a) = a ! s # take n (drop (Suc s) a)"
    using Suc.prems(2) by (simp add: Cons_nth_drop_Suc [symmetric] take_Suc_Cons)
  with Suc show ?case by (simp add: take_Suc_conv_app_nth)
qed simp

text \<open>Moved by one position towards the end, every element becomes a copy of the first one.\<close>

lemma copy_within_up:
  "Suc s + n \<le> length a \<Longrightarrow> copy_within n s (Suc s) a = Ret (take (Suc s) a @ replicate n (a ! s) @ drop (Suc s + n) a)"
proof (induction n arbitrary: s a)
  case (Suc n)
  have "replicate (Suc n) x = x # replicate n x" for x :: 'a by simp
  with Suc show ?case by (simp add: take_Suc_conv_app_nth)
qed simp

section \<open>Invariant\<close>

definition al_ok :: "'a alist \<Rightarrow> bool" where
  "al_ok l \<longleftrightarrow> al_capacity l = int (length (al_elements l)) \<and> 0 \<le> al_curSize l \<and> al_curSize l \<le> al_capacity l"

definition al_elems :: "'a alist \<Rightarrow> 'a list" where
  "al_elems l = take (nat (al_curSize l)) (al_elements l)"

lemma al_size: "al_ok l \<Longrightarrow> al_curSize l = int (length (al_elems l))"
  by (auto simp: al_ok_def al_elems_def)

lemma touch_simps [simp]: "al_ok (touch l) = al_ok l" "al_elems (touch l) = al_elems l" "al_curSize (touch l) = al_curSize l"
  "al_capacity (touch l) = al_capacity l" "al_elements (touch l) = al_elements l" "al_head (touch l) = al_head l"
  by (simp_all add: touch_def al_ok_def al_elems_def)

lemma new_array_length [simp]: "length (new_array d n) = nat n"
  by (simp add: new_array_def)

text \<open>A list with room for \<open>k\<close> more elements at the end.\<close>

definition roomy :: "nat \<Rightarrow> 'a alist \<Rightarrow> 'a alist \<Rightarrow> bool" where
  "roomy k l l' \<longleftrightarrow> al_ok l' \<and> al_curSize l' = al_curSize l \<and> al_elems l' = al_elems l \<and> al_curSize l + int k \<le> al_capacity l'
     \<and> al_head l' = al_head l"

lemma expandEnd_effect:
  assumes ok: "al_ok l"
  shows "\<exists>l'. expandEnd d (int k) l = Ret l' \<and> roomy k l l'"
proof -
  define n where "n = nat (al_curSize l)"
  have n: "al_curSize l = int n" "n \<le> length (al_elements l)" "al_capacity l = int (length (al_elements l))"
    using ok by (auto simp: al_ok_def n_def)
  show ?thesis
  proof (cases "int k > al_capacity l - al_curSize l")
    case True
    let ?c = "length (al_elements l) + k + 11"
    have c: "al_capacity l + int k + 11 = int ?c" using n by simp
    have "copy_between n 0 0 (al_elements l) (new_array d (int ?c)) = Ret (take n (al_elements l) @ drop n (new_array d (int ?c)))"
      using copy_between_effect [of 0 n "al_elements l" 0 "new_array d (int ?c)"] n(2) by simp
    then have "expandEnd d (int k) l = Ret (l\<lparr>al_elements := take n (al_elements l) @ drop n (new_array d (int ?c)), al_capacity := int ?c\<rparr>)"
      using True n c by (simp add: expandEnd_def with_array_def Let_def del: of_nat_add)
    then show ?thesis using n by (simp add: roomy_def al_ok_def al_elems_def)
  next
    case False
    then show ?thesis using ok by (simp add: expandEnd_def roomy_def)
  qed
qed

lemma write_all_effect:
  assumes "i + length vs \<le> length (al_elements l)"
  shows "write_all i vs l = Ret (l\<lparr>al_elements := take i (al_elements l) @ vs @ drop (i + length vs) (al_elements l),
     al_curSize := al_curSize l + int (length vs)\<rparr>)"
  using assms
proof (induction vs arbitrary: i l)
  case (Cons v vs)
  then show ?case by (simp add: take_Suc_conv_app_nth)
qed simp

lemma append_effect:
  assumes ok: "al_ok l"
  shows "\<exists>l'. finish r (nat (al_curSize l)) vs (expandEnd d (int (length vs)) l) l = (Ret r, l') \<and> al_ok l' \<and> al_elems l' = al_elems l @ vs"
proof -
  obtain l1 where l1: "expandEnd d (int (length vs)) l = Ret l1" "roomy (length vs) l l1" using expandEnd_effect [OF ok] by blast
  define n where "n = nat (al_curSize l)"
  define xs where "xs = al_elems l"
  have n: "al_curSize l = int n" "al_curSize l1 = int n" "n + length vs \<le> length (al_elements l1)" "al_capacity l1 = int (length (al_elements l1))"
    "take n (al_elements l1) = xs" "length xs = n"
    using l1(2) ok by (auto simp: roomy_def al_ok_def n_def al_elems_def xs_def)
  then have "nat (int n + int (length vs)) = length (xs @ vs)" by simp
  with write_all_effect [OF n(3)] l1(1) n show ?thesis unfolding xs_def [symmetric]
    by (simp add: finish_def al_ok_def al_elems_def)
qed

lemma al_add_effect: "al_ok l \<Longrightarrow> \<exists>l'. al_add d v l = (Ret True, l') \<and> al_ok l' \<and> al_elems l' = al_elems l @ [v]"
  using append_effect [of l True "[v]" d] by (simp add: al_add_def)

lemma al_addAll_effect: "al_ok l \<Longrightarrow> \<exists>l'. al_addAll d vs l = (Ret (vs \<noteq> []), l') \<and> al_ok l' \<and> al_elems l' = al_elems l @ vs"
  using append_effect [of l True vs d] by (auto simp: al_addAll_def)

lemma al_get_effect:
  assumes "al_ok l"
  shows "al_get index l = (if 0 \<le> index \<and> index < al_curSize l then Ret (al_elems l ! nat index) else Throw al_range_error)"
  using assms by (auto simp: al_get_def al_ok_def al_elems_def)

lemma al_set_effect:
  assumes "al_ok l"
  shows "if 0 \<le> index \<and> index < al_curSize l
     then \<exists>l'. al_set index v l = (Ret (al_elems l ! nat index), l') \<and> al_ok l' \<and> al_elems l' = (al_elems l)[nat index := v]
     else al_set index v l = (Throw al_range_error, l)"
  using assms by (auto simp: al_set_def al_ok_def al_elems_def take_update_swap)

lemma al_removeAt_effect:
  assumes ok: "al_ok l"
  shows "if 0 \<le> index \<and> index < al_curSize l
     then \<exists>l'. al_removeAt d index l = (Ret (al_elems l ! nat index), l') \<and> al_ok l'
       \<and> al_elems l' = take (nat index) (al_elems l) @ drop (Suc (nat index)) (al_elems l)
     else al_removeAt d index l = (Throw al_range_error, l)"
proof (cases "0 \<le> index \<and> index < al_curSize l")
  case True
  define i n where "i = nat index" and "n = nat (al_curSize l)"
  let ?a = "al_elements l"
  have n: "index = int i" "al_curSize l = int n" "i < n" "n \<le> length ?a" "al_capacity l = int (length ?a)"
    using True ok by (auto simp: al_ok_def i_def n_def)
  obtain m where m: "n = Suc (i + m)" using n(3) less_iff_Suc_add by blast
  have k: "nat (int n - int i - 1) = m" "nat (int i + 1) = Suc i" "nat (int n - 1) = i + m" using m by auto
  let ?b = "take i ?a @ take m (drop (Suc i) ?a) @ drop (i + m) ?a"
  have c: "copy_within i 0 0 ?a = Ret ?a" "copy_within m (Suc i) i ?a = Ret ?b"
    using copy_within_down [of 0 0 i ?a] copy_within_down [of i "Suc i" m ?a] n m by simp_all
  have "al_removeAt d index l = (Ret (?a ! i), touch (l\<lparr>al_elements := ?b[i + m := d], al_curSize := int (i + m)\<rparr>))"
    using n c k m by (simp add: al_removeAt_def Let_def)
  moreover have "take (i + m) (?b[i + m := d]) = take i (take n ?a) @ drop (Suc i) (take n ?a)"
    using n m by (simp add: take_drop add.commute)
  moreover have "nat (1 + (int i + int m)) = Suc (i + m)" by simp
  ultimately show ?thesis using n True m by (simp add: al_ok_def al_elems_def)
next
  case False
  then show ?thesis by (auto simp: al_removeAt_def)
qed

lemma toArray_elems: "al_ok l \<Longrightarrow> al_toArray l = al_elems l"
  by (auto intro!: nth_equalityI simp: al_toArray_def al_elems_def al_ok_def)

lemma nth_elems: "al_ok l \<Longrightarrow> i < length (al_elems l) \<Longrightarrow> al_elements l ! i = al_elems l ! i"
  by (simp add: al_elems_def)

lemma al_index_from_effect:
  assumes ok: "al_ok l" and "i \<le> length (al_elems l)" and "length (al_elems l) - i < n"
  shows "al_index_from n v (int i) l = (if v \<in> set (drop i (al_elems l)) then int i + first_index v (drop i (al_elems l)) else - 1)"
  using assms(2,3)
proof (induction n arbitrary: i)
  case (Suc n)
  show ?case
  proof (cases "i < length (al_elems l)")
    case True
    have "al_index_from n v (int (Suc i)) l =
        (if v \<in> set (drop (Suc i) (al_elems l)) then int (Suc i) + first_index v (drop (Suc i) (al_elems l)) else - 1)"
      using Suc True by (intro Suc.IH) auto
    then show ?thesis using True al_size [OF ok] nth_elems [OF ok True] Cons_nth_drop_Suc [OF True, symmetric]
      by (auto simp: first_index_def add.commute)
  next
    case False
    then show ?thesis using Suc.prems(1) al_size [OF ok] by simp
  qed
qed simp

lemma al_indexOf_effect: "al_ok l \<Longrightarrow> al_indexOf v l = first_index v (al_elems l)"
  using al_index_from_effect [of l 0 "Suc (nat (al_curSize l))" v] al_size [of l]
  by (auto simp: al_indexOf_def first_index_def simp del: al_index_from.simps)

lemma al_last_index_from_effect:
  assumes ok: "al_ok l" and "i \<le> length (al_elems l)"
  shows "al_last_index_from i v l = last_index v (take i (al_elems l))"
  using assms(2)
proof (induction i)
  case (Suc i)
  then have "i < length (al_elems l)" by simp
  with Suc nth_elems [OF ok this] show ?case by (auto simp: take_Suc_conv_app_nth last_index_def first_index_def)
qed (simp add: last_index_def)

lemma al_lastIndexOf_effect: "al_ok l \<Longrightarrow> al_lastIndexOf v l = last_index v (al_elems l)"
  using al_last_index_from_effect [of l "length (al_elems l)" v] al_size [of l] by (simp add: al_lastIndexOf_def)

lemma remove1_split:
  "v \<in> set xs \<Longrightarrow> remove1 v xs = take (length (takeWhile (\<lambda>x. x \<noteq> v) xs)) xs @ drop (Suc (length (takeWhile (\<lambda>x. x \<noteq> v) xs))) xs"
  by (induction xs) auto

lemma takeWhile_shorter: "v \<in> set xs \<Longrightarrow> length (takeWhile (\<lambda>x. x \<noteq> v) xs) < length xs"
  by (induction xs) auto

lemma al_remove_effect:
  assumes "al_ok l"
  shows "\<exists>l'. al_remove d v l = (Ret (v \<in> set (al_elems l)), l') \<and> al_ok l' \<and> al_elems l' = remove1 v (al_elems l)"
proof (cases "v \<in> set (al_elems l)")
  case True
  define i where "i = length (takeWhile (\<lambda>x. x \<noteq> v) (al_elems l))"
  have i: "al_indexOf v l = int i" using True al_indexOf_effect [OF assms] by (simp add: first_index_def i_def)
  have "int i < al_curSize l"
    using takeWhile_shorter [OF True] al_size [OF assms] by (simp add: i_def)
  with al_removeAt_effect [OF assms, where d = d and index = "int i"] obtain l' where "al_removeAt d (int i) l = (Ret (al_elems l ! i), l')" "al_ok l'"
    "al_elems l' = take i (al_elems l) @ drop (Suc i) (al_elems l)" by auto
  with i True remove1_split [OF True] show ?thesis by (simp add: al_remove_def i_def)
next
  case False
  then show ?thesis using al_indexOf_effect [OF assms, of v] assms by (simp add: al_remove_def first_index_def remove1_idem)
qed

interpretation al: random_access "al_list d" al_ok al_elems
proof
  fix l :: "'a alist" and i index and v :: 'a
  assume ok: "al_ok l"
  then show "vl_size (al_list d) l = int (length (al_elems l))" by (simp add: al_list_def al_size)
  show "index < 0 \<or> int (length (al_elems l)) \<le> index \<Longrightarrow> \<exists>msg. vl_get (al_list d) index l = Throw (IndexOutOfBoundsException msg)"
    using al_get_effect [OF ok, of index] al_size [OF ok] by (auto simp: al_list_def al_range_error_def)
  assume i: "i < length (al_elems l)"
  show "vl_get (al_list d) (int i) l = Ret (al_elems l ! i)"
    using al_get_effect [OF ok, of "int i"] al_size [OF ok] i by (simp add: al_list_def)
  show "\<exists>l'. vl_set (al_list d) (int i) v l = (Ret (al_elems l ! i), l') \<and> al_ok l' \<and> al_elems l' = (al_elems l)[i := v]"
    using al_set_effect [OF ok, of "int i" v] al_size [OF ok] i by (simp add: al_list_def)
  show "\<exists>l'. vl_removeAt (al_list d) (int i) l = (Ret (al_elems l ! i), l') \<and> al_ok l'
      \<and> al_elems l' = take i (al_elems l) @ drop (Suc i) (al_elems l)"
    using al_removeAt_effect [OF ok, where d = d and index = "int i"] al_size [OF ok] i by (simp add: al_list_def)
qed

section \<open>Inserting\<close>

text \<open>When there is no room, the elements go to a new array and insertion is right.\<close>

lemma insert_grows:
  assumes ok: "al_ok l" and full: "al_curSize l = al_capacity l" and i: "i \<le> length (al_elems l)"
  shows "\<exists>l'. al_add_at d (int i) v l = (Ret (), l') \<and> al_ok l' \<and> al_elems l' = take i (al_elems l) @ v # drop i (al_elems l)"
proof -
  let ?a = "al_elements l"
  define n where "n = length ?a"
  have n: "al_capacity l = int n" "al_curSize l = int n" "al_elems l = ?a" "length ?a = n" "i \<le> n"
    using ok full i by (auto simp: al_ok_def n_def al_elems_def)
  let ?c = "12 + n"
  let ?na = "new_array d (int ?c)"
  have c: "int n + 1 + 11 = int ?c" by simp
  obtain b where b: "make_room d (int i) 1 l = Ret (l\<lparr>al_elements := b, al_capacity := int ?c\<rparr>)" "length b = ?c"
    "take i b = take i ?a" "take (n - i) (drop (Suc i) b) = drop i ?a"
  proof (cases "i = n")
    case True
    show ?thesis
    proof (cases "i = 0")
      case True
      with n c show ?thesis
        by (intro that [of ?na]) (simp_all add: make_room_def expandFront_def with_array_def Let_def \<open>i = n\<close>)
    next
      case False
      have "copy_between n 0 0 ?a ?na = Ret (?a @ drop n ?na)" using copy_between_effect [of 0 n ?a 0 ?na] n by simp
      with False True n c show ?thesis
        by (intro that [of "?a @ drop n ?na"]) (simp_all add: make_room_def expandEnd_def with_array_def Let_def)
    qed
  next
    case False
    show ?thesis
    proof (cases "i = 0")
      case True
      have "copy_between n 0 1 ?a ?na = Ret (take 1 ?na @ ?a @ drop (Suc n) ?na)"
        using copy_between_effect [of 0 n ?a 1 ?na] n by simp
      with True False n c show ?thesis
        by (intro that [of "take 1 ?na @ ?a @ drop (Suc n) ?na"]) (simp_all add: make_room_def expandFront_def with_array_def Let_def)
    next
      case i0: False
      let ?b1 = "take i ?a @ drop i ?na"
      let ?b2 = "take (Suc i) ?b1 @ drop i ?a @ drop (Suc n) ?b1"
      have "copy_between i 0 0 ?a ?na = Ret ?b1" using copy_between_effect [of 0 i ?a 0 ?na] n by simp
      moreover have "copy_between (n - i) i (Suc i) ?a ?b1 = Ret ?b2"
        using copy_between_effect [of i "n - i" ?a "Suc i" ?b1] n by simp
      moreover have "nat (int n - int i) = n - i" "nat (int i + 1) = Suc i" "nat (12 + int n) = 12 + n" by simp_all
      ultimately show ?thesis using i0 False n c
        by (intro that [of ?b2]) (simp_all add: make_room_def expandMiddle_def with_array_def Let_def min_def)
    qed
  qed
  let ?l1 = "l\<lparr>al_elements := b, al_capacity := int ?c\<rparr>"
  have w: "write_all i [v] ?l1 = Ret (?l1\<lparr>al_elements := take i b @ v # drop (Suc i) b, al_curSize := int n + 1\<rparr>)"
    using write_all_effect [of i "[v]" ?l1] b(2) n by simp
  have "al_add_at d (int i) v l = (Ret (), touch (?l1\<lparr>al_elements := take i b @ v # drop (Suc i) b, al_curSize := int n + 1\<rparr>))"
    using w b(1) n by (simp add: al_add_at_def finish_def del: write_all.simps)
  moreover have "take (Suc n) (take i b @ v # drop (Suc i) b) = take i ?a @ v # drop i ?a"
    using b n by (simp add: Suc_diff_le)
  moreover have "nat (int n + 1) = Suc n" by simp
  ultimately show ?thesis using b(2) n by (simp add: al_ok_def al_elems_def)
qed

text \<open>
  When there is room, the elements behind the new one are moved inside the array, by one position
  towards the end, and are all overwritten with the first of them.
\<close>

lemma insert_in_place:
  assumes ok: "al_ok l" and room: "al_curSize l < al_capacity l" and i: "i < length (al_elems l)"
  shows "\<exists>l'. al_add_at d (int i) v l = (Ret (), l') \<and> al_ok l'
     \<and> al_elems l' = take i (al_elems l) @ v # replicate (length (al_elems l) - i) (al_elems l ! i)"
proof -
  let ?a = "al_elements l"
  define n where "n = nat (al_curSize l)"
  have n: "al_curSize l = int n" "Suc n \<le> length ?a" "i < n" "al_capacity l = int (length ?a)" "al_elems l = take n ?a"
    "length (al_elems l) = n"
    using ok room i by (auto simp: al_ok_def n_def al_elems_def)
  let ?b = "take (Suc i) ?a @ replicate (n - i) (?a ! i) @ drop (Suc n) ?a"
  have up: "copy_within (n - i) i (Suc i) ?a = Ret ?b" using copy_within_up [of i "n - i" ?a] n by simp
  have keep: "copy_within i 0 0 ?a = Ret ?a" using copy_within_down [of 0 0 i ?a] n by simp
  have m: "make_room d (int i) 1 l = Ret (l\<lparr>al_elements := ?b, al_capacity := al_capacity l\<rparr>)"
  proof (cases "i = 0")
    case True
    with up n show ?thesis by (simp add: make_room_def expandFront_def with_array_def)
  next
    case False
    have "nat (int n - int i) = n - i" "nat (int i + 1) = Suc i" by simp_all
    with False up keep n show ?thesis by (simp add: make_room_def expandMiddle_def with_array_def Let_def)
  qed
  let ?l1 = "l\<lparr>al_elements := ?b, al_capacity := al_capacity l\<rparr>"
  have len: "length ?b = length ?a" using n by simp
  have w: "write_all i [v] ?l1 = Ret (?l1\<lparr>al_elements := take i ?b @ v # drop (Suc i) ?b, al_curSize := int n + 1\<rparr>)"
    using write_all_effect [of i "[v]" ?l1] len n by simp
  have "al_add_at d (int i) v l = (Ret (), touch (?l1\<lparr>al_elements := take i ?b @ v # drop (Suc i) ?b, al_curSize := int n + 1\<rparr>))"
    using w m n by (simp add: al_add_at_def finish_def del: write_all.simps)
  moreover have "take (Suc n) (take i ?b @ v # drop (Suc i) ?b) = take i ?a @ v # replicate (n - i) (?a ! i)"
    using n by (simp add: Suc_diff_le min_def)
  moreover have "nat (int n + 1) = Suc n" by simp
  ultimately show ?thesis using n len by (simp add: al_ok_def al_elems_def min_def)
qed

lemma insert_at_end:
  assumes ok: "al_ok l" and i: "i = length (al_elems l)"
  shows "\<exists>l'. al_add_at d (int i) v l = (Ret (), l') \<and> al_ok l' \<and> al_elems l' = al_elems l @ [v]"
proof (cases "i = 0")
  case False
  then show ?thesis using append_effect [OF ok, of "()" "[v]" d] al_size [OF ok] i by (simp add: al_add_at_def make_room_def)
next
  case True
  show ?thesis
  proof (cases "al_curSize l = al_capacity l")
    case True
    with insert_grows [OF ok True, of i d v] i show ?thesis by simp
  next
    case False
    have z: "al_curSize l = 0" "al_elems l = []" using True i al_size [OF ok] by simp_all
    then have "1 \<le> al_capacity l" "al_capacity l = int (length (al_elements l))" using ok False by (auto simp: al_ok_def Suc_le_eq)
    then show ?thesis using z True
      by (cases "al_elements l") (auto simp: al_add_at_def make_room_def expandFront_def with_array_def finish_def al_ok_def al_elems_def)
  qed
qed

section \<open>Capacity and construction\<close>

lemma trimToSize_effect:
  assumes ok: "al_ok l"
  shows "\<exists>l'. trimToSize d l = Ret l' \<and> al_ok l' \<and> al_elems l' = al_elems l"
proof (cases "al_curSize l < al_capacity l")
  case True
  define n where "n = nat (al_curSize l)"
  have n: "al_curSize l = int n" "n \<le> length (al_elements l)" using ok by (auto simp: al_ok_def n_def)
  show ?thesis
  proof (cases "n = 0")
    case True
    then show ?thesis using n \<open>al_curSize l < al_capacity l\<close> by (simp add: trimToSize_def with_array_def Let_def al_ok_def al_elems_def)
  next
    case False
    have "copy_between n 0 0 (al_elements l) (new_array d (int n)) = Ret (take n (al_elements l))"
      using copy_between_effect [of 0 n "al_elements l" 0 "new_array d (int n)"] n by simp
    then show ?thesis using n False \<open>al_curSize l < al_capacity l\<close>
      by (simp add: trimToSize_def with_array_def Let_def al_ok_def al_elems_def)
  qed
next
  case False
  then show ?thesis using ok by (simp add: trimToSize_def)
qed

lemma ensureCapacity_effect:
  assumes ok: "al_ok l" and head: "al_head l = 0 \<or> al_curSize l = 0"
  shows "\<exists>l'. ensureCapacity d k l = Ret l' \<and> al_ok l' \<and> al_elems l' = al_elems l \<and> k \<le> al_capacity l' \<and> al_head l' = al_head l"
proof (cases "k < 0 \<or> al_capacity l \<ge> k")
  case True
  then show ?thesis using ok by (auto simp: ensureCapacity_def al_ok_def)
next
  case False
  define n where "n = nat (al_curSize l)"
  have n: "al_curSize l = int n" "n \<le> length (al_elements l)" "n \<le> nat k" "k \<noteq> 0" using ok False by (auto simp: al_ok_def n_def)
  show ?thesis
  proof (cases "n = 0")
    case True
    then show ?thesis using n False by (simp add: ensureCapacity_def with_array_def Let_def al_ok_def al_elems_def)
  next
    case n0: False
    then have h: "al_head l = 0" using head n by simp
    have "copy_between n 0 0 (al_elements l) (new_array d k) = Ret (take n (al_elements l) @ drop n (new_array d k))"
      using copy_between_effect [of 0 n "al_elements l" 0 "new_array d k"] n by simp
    then show ?thesis using n n0 h False
      by (simp add: ensureCapacity_def with_array_def Let_def al_ok_def al_elems_def nat_le_iff)
  qed
qed

lemma al_clear_effect:
  assumes ok: "al_ok l"
  shows "\<exists>l'. al_clear d l = Ret l' \<and> al_ok l' \<and> al_elems l' = []"
proof (cases "al_curSize l > 0")
  case True
  then show ?thesis by (simp add: al_clear_def al_ok_def al_elems_def)
next
  case False
  then have z: "al_curSize l = 0" using ok by (simp add: al_ok_def)
  with ensureCapacity_effect [OF ok, of d 10] show ?thesis by (auto simp: al_clear_def al_elems_def)
qed

lemma store_all_effect:
  assumes "al_head l = int n" and "n + length vs \<le> length (al_elements l)"
  shows "store_all vs l = Ret (l\<lparr>al_elements := take n (al_elements l) @ vs @ drop (n + length vs) (al_elements l),
     al_head := int (n + length vs), al_curSize := al_curSize l + int (length vs)\<rparr>)"
  using assms
proof (induction vs arbitrary: n l)
  case (Cons v vs)
  have "store_all (v # vs) l = store_all vs (l\<lparr>al_elements := (al_elements l)[n := v], al_head := int (Suc n), al_curSize := al_curSize l + 1\<rparr>)"
    using Cons.prems by (simp add: add.commute)
  with Cons.IH [of "l\<lparr>al_elements := (al_elements l)[n := v], al_head := int (Suc n), al_curSize := al_curSize l + 1\<rparr>" "Suc n"] Cons.prems
  show ?case by (simp add: take_Suc_conv_app_nth)
qed simp

lemma al_from_effect:
  "\<exists>l. al_from d vs = Ret l \<and> al_ok l \<and> al_elems l = vs \<and> al_head l = int (length vs)
     \<and> al_capacity l = int (length vs + length vs div 10)"
proof -
  define c where "c = length vs + length vs div 10"
  have c: "int (length vs) + int (length vs) div 10 = int c" by (simp add: c_def zdiv_int)
  let ?l = "al_blank\<lparr>al_elements := new_array d (int c), al_capacity := int c\<rparr>"
  have "store_all vs ?l = Ret (?l\<lparr>al_elements := vs @ drop (length vs) (new_array d (int c)), al_head := int (length vs), al_curSize := int (length vs)\<rparr>)"
    using store_all_effect [of ?l 0 vs] by (simp add: al_blank_def c_def)
  then show ?thesis unfolding al_from_def Let_def c c_def [symmetric]
    by (simp add: al_ok_def al_elems_def c_def)
qed

lemma al_new_effect: "\<exists>l. al_new d = Ret l \<and> al_ok l \<and> al_elems l = [] \<and> al_capacity l = 10 \<and> al_head l = 0"
  by (simp add: al_new_def ensureCapacity_def al_blank_def with_array_def al_ok_def al_elems_def Let_def)

section \<open>Properties\<close>

text \<open>A client that only appends, changes and removes, on a new list or on a copy of a collection.\<close>

datatype 'a al_op =
    Append 'a | AppendAll "'a list" | ChangeAt int 'a | DeleteAt int | Delete 'a | DeleteAll "'a list" | Trim | Reset

fun al_apply :: "'a \<Rightarrow> 'a al_op \<Rightarrow> 'a alist \<Rightarrow> 'a alist outcome" where
  "al_apply d (Append v) l = Ret (snd (al_add d v l))"
| "al_apply d (AppendAll vs) l = Ret (snd (al_addAll d vs l))"
| "al_apply d (ChangeAt i v) l = Ret (snd (al_set i v l))"
| "al_apply d (DeleteAt i) l = Ret (snd (al_removeAt d i l))"
| "al_apply d (Delete v) l = Ret (snd (al_remove d v l))"
| "al_apply d (DeleteAll vs) l =
     (case coll_removeAll (Suc (nat (al_curSize l))) (list_coll (al_list d) (al_add d) (\<lambda>l. (Ret (), l))) vs l of
        Some (Ret _, l') \<Rightarrow> Ret l'
      | Some (Throw x, _) \<Rightarrow> Throw x
      | Some (Undefined f, _) \<Rightarrow> Undefined f
      | None \<Rightarrow> Undefined OutOfBounds)"
| "al_apply d Trim l = trimToSize d l"
| "al_apply d Reset l = al_clear d l"

fun al_applys :: "'a \<Rightarrow> 'a al_op list \<Rightarrow> 'a alist \<Rightarrow> 'a alist outcome" where
  "al_applys d [] l = Ret l"
| "al_applys d (x # xs) l =
     (case al_apply d x l of Ret l' \<Rightarrow> al_applys d xs l' | Throw e \<Rightarrow> Throw e | Undefined f \<Rightarrow> Undefined f)"

fun al_spec :: "'a al_op \<Rightarrow> 'a list \<Rightarrow> 'a list" where
  "al_spec (Append v) xs = xs @ [v]"
| "al_spec (AppendAll vs) xs = xs @ vs"
| "al_spec (ChangeAt i v) xs = (if 0 \<le> i \<and> i < int (length xs) then xs[nat i := v] else xs)"
| "al_spec (DeleteAt i) xs = (if 0 \<le> i \<and> i < int (length xs) then take (nat i) xs @ drop (Suc (nat i)) xs else xs)"
| "al_spec (Delete v) xs = remove1 v xs"
| "al_spec (DeleteAll vs) xs = filter (\<lambda>u. u \<notin> set vs) xs"
| "al_spec Trim xs = xs"
| "al_spec Reset xs = []"

lemma al_apply_step:
  assumes ok: "al_ok l"
  shows "\<exists>l'. al_apply d x l = Ret l' \<and> al_ok l' \<and> al_elems l' = al_spec x (al_elems l)"
proof (cases x)
  case (Append v)
  then show ?thesis using al_add_effect [OF ok, of d v] by auto
next
  case (AppendAll vs)
  then show ?thesis using al_addAll_effect [OF ok, of d vs] by auto
next
  case (ChangeAt i v)
  then show ?thesis using al_set_effect [OF ok, of i v] al_size [OF ok] ok by (auto split: if_splits)
next
  case (DeleteAt i)
  then show ?thesis using al_removeAt_effect [OF ok, where d = d and index = i] al_size [OF ok] ok by (auto split: if_splits)
next
  case (Delete v)
  then show ?thesis using al_remove_effect [OF ok, of d v] by auto
next
  case (DeleteAll vs)
  have "length (al_elems l) < Suc (nat (al_curSize l))" using al_size [OF ok] by simp
  from al.lst.coll_removeAll_effect [OF ok this, of d "al_add d" "\<lambda>l. (Ret (), l)" vs] DeleteAll show ?thesis by auto
next
  case Trim
  then show ?thesis using trimToSize_effect [OF ok, of d] by simp
next
  case Reset
  then show ?thesis using al_clear_effect [OF ok, of d] by simp
qed

lemma al_apply_steps:
  "al_ok l \<Longrightarrow> \<exists>l'. al_applys d xs l = Ret l' \<and> al_ok l' \<and> al_elems l' = fold al_spec xs (al_elems l)"
proof (induction xs arbitrary: l)
  case (Cons x xs)
  obtain l1 where l1: "al_apply d x l = Ret l1" "al_ok l1" "al_elems l1 = al_spec x (al_elems l)"
    using al_apply_step [OF Cons.prems] by blast
  with Cons.IH [OF l1(2)] show ?case by simp
qed simp

text \<open>
  An array list that is appended to, changed, cut and trimmed, whether new or copied from a collection, never
  leaves its array and holds what the same calls make of a sequence.
\<close>

theorem al_refines_sequence:
  "(case al_from d vs of Ret l \<Rightarrow> \<exists>l'. al_applys d calls l = Ret l' \<and> al_toArray l' = fold al_spec calls vs | _ \<Rightarrow> False)
   \<and> (case al_new d of Ret l \<Rightarrow> \<exists>l'. al_applys d calls l = Ret l' \<and> al_toArray l' = fold al_spec calls [] | _ \<Rightarrow> False)"
proof -
  obtain l where "al_from d vs = Ret l" "al_ok l" "al_elems l = vs" using al_from_effect [of d vs] by blast
  moreover obtain l2 where "al_new d = Ret l2" "al_ok l2" "al_elems l2 = []" using al_new_effect [of d] by blast
  ultimately show ?thesis using al_apply_steps [of l d calls] al_apply_steps [of l2 d calls] by (auto simp: toArray_elems)
qed

text \<open>
  Inserting before an element is right when the array is full, because the elements go to a new one.  When there
  is room, all elements from the position on are overwritten with the first of them.
\<close>

theorem al_insert_before:
  assumes "al_ok l" and "i < length (al_elems l)"
  shows "\<exists>l'. al_add_at d (int i) v l = (Ret (), l')
     \<and> al_elems l' = take i (al_elems l) @ v # (if al_curSize l < al_capacity l
          then replicate (length (al_elems l) - i) (al_elems l ! i) else drop i (al_elems l))"
proof (cases "al_curSize l < al_capacity l")
  case True
  with insert_in_place [OF assms(1) True assms(2), of d v] show ?thesis by auto
next
  case False
  then have "al_curSize l = al_capacity l" using assms(1) by (simp add: al_ok_def)
  with insert_grows [OF assms(1) this, of i d v] assms(2) False show ?thesis by auto
qed

definition al_demo :: "nat alist" where
  "al_demo = \<lparr>al_elements = [7, 8, 9, 0], al_capacity = 4, al_head = 0, al_curSize = 3, al_modCount = 0\<rparr>"

theorem al_insert_before_witness:
  "al_elems al_demo = [7, 8, 9] \<and> (\<exists>l'. al_add_at 0 0 1 al_demo = (Ret (), l') \<and> al_elems l' = [1, 7, 7, 7])"
  using al_insert_before [of al_demo 0 0 1] by (simp add: al_demo_def al_ok_def al_elems_def numeral_3_eq_3)

text \<open>
  A list made from a non-empty collection keeps the write position of its constructor, and asking it for more
  capacity reads beyond the end of its array.
\<close>

theorem copied_list_ensureCapacity:
  assumes "vs \<noteq> []" and "int (length vs + length vs div 10) < minimumCapacity"
  shows "\<exists>l. al_from d vs = Ret l \<and> al_elems l = vs \<and> ensureCapacity d minimumCapacity l = Undefined OutOfBounds"
proof -
  obtain l where l: "al_from d vs = Ret l" "al_ok l" "al_elems l = vs" "al_head l = int (length vs)"
    "al_capacity l = int (length vs + length vs div 10)" using al_from_effect [of d vs] by blast
  have size: "al_curSize l = int (length vs)" "length (al_elements l) = length vs + length vs div 10"
    using al_size [OF l(2)] l by (auto simp: al_ok_def)
  have over: "copy_between n s t src dest = Undefined OutOfBounds" if "length src < s + n" "s \<le> length src" for n s t and src dest :: "'a list"
    using that by (induction n arbitrary: s t dest) auto
  have "length vs div 10 < length vs" using assms(1) by simp
  then have "copy_between (length vs) (length vs) 0 (al_elements l) (new_array d minimumCapacity) = Undefined OutOfBounds"
    using size(2) by (intro over) simp_all
  then show ?thesis using l assms size by (auto simp: ensureCapacity_def with_array_def Let_def)
qed

theorem copied_list_ensureCapacity_witness:
  "\<exists>l. al_from 0 [7, 8 :: nat] = Ret l \<and> al_elems l = [7, 8] \<and> ensureCapacity 0 10 l = Undefined OutOfBounds"
  by (rule copied_list_ensureCapacity) simp_all

end
