(* ===== verification/Priority_Queue.thy ===== *)
theory Priority_Queue
  imports Collections "HOL-Library.Multiset"
begin

text \<open>
  \<^verbatim>\<open>PriorityQueue\<close> (PriorityQueue.h) with its default comparator \<^verbatim>\<open>Less\<close> (comparators/Less.h): a binary heap in an
  array.  The theory holds every member function, what a \<^verbatim>\<open>Comparator\<close> promises as the locale \<open>comparator\<close>, what a
  client of a priority queue relies on as the locale \<open>min_queue\<close>, and the interpretations of both.
\<close>

section \<open>State\<close>

text \<open>
  The array is a list; the field \<open>pq_capacity\<close> is the number the code keeps of its length.  The two constants of
  \<^verbatim>\<open>PriorityQueueBase\<close> are initialised in the library, and so is the body of \<^verbatim>\<open>Math::ceil\<close>: they are the parameters
  in \<open>pq_base\<close>, with \<open>pq_ceil n\<close> for \<^verbatim>\<open>(int) Math::ceil((double) n * 1.1)\<close>.
\<close>

record pq_base =
  DEFAULT_CAPACITY :: int
  DEFAULT_CAPACITY_RATIO :: int
  pq_ceil :: "int \<Rightarrow> int"

record 'e pq =
  pq_size :: int
  pq_capacity :: int
  pq_elements :: "'e list"
  pq_comparator :: "'e \<Rightarrow> 'e \<Rightarrow> int"

definition Less_compare :: "'e :: ord \<Rightarrow> 'e \<Rightarrow> int" where
  "Less_compare o1 o2 = (if o1 > o2 then 1 else if o1 < o2 then - 1 else 0)"

section \<open>The heap\<close>

definition swap :: "nat \<Rightarrow> nat \<Rightarrow> 'e list \<Rightarrow> 'e list" where
  "swap i j a = a[i := a ! j, j := a ! i]"

text \<open>
  The loops of \<^verbatim>\<open>upHeap\<close> and \<^verbatim>\<open>downHeap\<close>.  They stay below \<^verbatim>\<open>_size\<close>, which the callers keep within the array.  The
  parent of position 0 is 0 in the code too, because \<^verbatim>\<open>int\<close> division rounds towards zero.
\<close>

function upHeap :: "('e \<Rightarrow> 'e \<Rightarrow> int) \<Rightarrow> nat \<Rightarrow> 'e list \<Rightarrow> 'e list" where
  "upHeap compare current a =
     (let parent = (current - 1) div 2 in
      if current \<noteq> 0 \<and> compare (a ! current) (a ! parent) < 0
      then upHeap compare parent (swap current parent a)
      else a)"
  by pat_completeness auto
termination
  by (relation "measure (\<lambda>(_, current, _). current)") auto

declare upHeap.simps [simp del]

function downHeap :: "('e \<Rightarrow> 'e \<Rightarrow> int) \<Rightarrow> nat \<Rightarrow> nat \<Rightarrow> 'e list \<Rightarrow> 'e list" where
  "downHeap compare sz current a =
     (let left = 2 * current + 1 in
      if left < sz then
        (let child = (if left + 1 < sz \<and> compare (a ! (left + 1)) (a ! left) < 0 then left + 1 else left) in
         if compare (a ! current) (a ! child) < 0 then a
         else downHeap compare sz child (swap current child a))
      else a)"
  by pat_completeness auto
termination
  by (relation "measure (\<lambda>(_, sz, current, _). sz - current)") auto

declare downHeap.simps [simp del]

section \<open>Operations\<close>

text \<open>
  \<open>d\<close> is the value \<^verbatim>\<open>E()\<close>.  \<^verbatim>\<open>new E[n]\<close> throws for a negative \<open>n\<close>; where the code has deleted the old array before, the
  array is gone then.
\<close>

definition bad_alloc :: exn where
  "bad_alloc = OtherException ''std::bad_alloc''"

definition initQueue :: "'e \<Rightarrow> int \<Rightarrow> ('e \<Rightarrow> 'e \<Rightarrow> int) \<Rightarrow> 'e pq outcome" where
  "initQueue d initialSize compare =
     (if initialSize < 0 then Throw bad_alloc
      else Ret \<lparr>pq_size = 0, pq_capacity = initialSize, pq_elements = replicate (nat initialSize) d, pq_comparator = compare\<rparr>)"

definition pq_new :: "pq_base \<Rightarrow> 'e :: ord \<Rightarrow> 'e pq outcome" where
  "pq_new B d = initQueue d (DEFAULT_CAPACITY B) Less_compare"

definition pq_new_capacity :: "'e :: ord \<Rightarrow> int \<Rightarrow> 'e pq outcome" where
  "pq_new_capacity d initialCapacity = initQueue d initialCapacity Less_compare"

definition pq_new_comparator :: "'e \<Rightarrow> int \<Rightarrow> ('e \<Rightarrow> 'e \<Rightarrow> int) option \<Rightarrow> 'e pq outcome" where
  "pq_new_comparator d initialCapacity comparator =
     (case comparator of
        None \<Rightarrow> Throw (NullPointerException ''Passed Comparator Cannot be NULL.'')
      | Some compare \<Rightarrow> initQueue d initialCapacity compare)"

definition pq_clear :: "pq_base \<Rightarrow> 'e \<Rightarrow> 'e pq \<Rightarrow> unit outcome \<times> 'e pq" where
  "pq_clear B d q =
     (if DEFAULT_CAPACITY B < 0 then (Throw bad_alloc, q\<lparr>pq_elements := []\<rparr>)
      else (Ret (), q\<lparr>pq_elements := replicate (nat (DEFAULT_CAPACITY B)) d, pq_capacity := DEFAULT_CAPACITY B, pq_size := 0\<rparr>))"

definition increaseCapacity :: "pq_base \<Rightarrow> 'e \<Rightarrow> int \<Rightarrow> 'e pq \<Rightarrow> unit outcome \<times> 'e pq" where
  "increaseCapacity B d sz q =
     (if sz > pq_capacity q then
        (let new = sz * DEFAULT_CAPACITY_RATIO B; old = nat (pq_capacity q) in
         if new < 0 then (Throw bad_alloc, q)
         else if new < pq_capacity q \<or> length (pq_elements q) < old then (Undefined OutOfBounds, q)
         else (Ret (), q\<lparr>pq_elements := take old (pq_elements q) @ replicate (nat new - old) d, pq_capacity := new\<rparr>))
      else (Ret (), q))"

definition pq_offer :: "pq_base \<Rightarrow> 'e \<Rightarrow> 'e \<Rightarrow> 'e pq \<Rightarrow> bool outcome \<times> 'e pq" where
  "pq_offer B d value q0 =
     (case increaseCapacity B d (pq_size q0 + 1) q0 of
        (Ret _, q) \<Rightarrow>
          (let n = nat (pq_size q) in
           if length (pq_elements q) \<le> n then (Undefined OutOfBounds, q)
           else (Ret True, q\<lparr>pq_elements := upHeap (pq_comparator q) n ((pq_elements q)[n := value]), pq_size := pq_size q + 1\<rparr>))
      | (Throw x, q) \<Rightarrow> (Throw x, q)
      | (Undefined f, q) \<Rightarrow> (Undefined f, q))"

text \<open>The handlers of \<^verbatim>\<open>add\<close>, which let three classes through and turn everything else into one.\<close>

definition pq_add_handler :: "exn \<Rightarrow> exn" where
  "pq_add_handler x =
     (case x of
        ContainerException UnsupportedOperation _ \<Rightarrow> x
      | IllegalArgumentException _ \<Rightarrow> x
      | ContainerException IllegalState _ \<Rightarrow> x
      | NullPointerException e \<Rightarrow> UnsupportedOperationException e
      | _ \<Rightarrow> UnsupportedOperationException ''caught unknown exception'')"

definition pq_add :: "pq_base \<Rightarrow> 'e \<Rightarrow> 'e \<Rightarrow> 'e pq \<Rightarrow> bool outcome \<times> 'e pq" where
  "pq_add B d value q =
     (case pq_offer B d value q of
        (Throw x, q') \<Rightarrow> (Throw (pq_add_handler x), q')
      | r \<Rightarrow> r)"

definition pq_removeAt :: "'e \<Rightarrow> int \<Rightarrow> 'e pq \<Rightarrow> unit outcome \<times> 'e pq" where
  "pq_removeAt d index q =
     (let size = pq_size q - 1; a = pq_elements q in
      if size < 0 \<or> int (length a) \<le> size \<or> index < 0 \<or> int (length a) \<le> index
      then (Undefined OutOfBounds, q\<lparr>pq_size := size\<rparr>)
      else
        (let a = a[nat index := a ! nat size];
             a = downHeap (pq_comparator q) (nat size) (nat index) a
         in (Ret (), q\<lparr>pq_elements := a[nat size := d], pq_size := size\<rparr>)))"

definition pq_poll :: "'e \<Rightarrow> 'e \<Rightarrow> 'e pq \<Rightarrow> (bool \<times> 'e) outcome \<times> 'e pq" where
  "pq_poll d result q =
     (if pq_size q = 0 then (Ret (False, result), q)
      else if pq_elements q = [] then (Undefined OutOfBounds, q)
      else
        (case pq_removeAt d 0 q of
           (Ret _, q') \<Rightarrow> (Ret (True, pq_elements q ! 0), q')
         | (Throw x, q') \<Rightarrow> (Throw x, q')
         | (Undefined f, q') \<Rightarrow> (Undefined f, q')))"

definition pq_peek :: "'e \<Rightarrow> 'e pq \<Rightarrow> (bool \<times> 'e) outcome \<times> 'e pq" where
  "pq_peek result q =
     (if pq_size q = 0 then (Ret (False, result), q)
      else if pq_elements q = [] then (Undefined OutOfBounds, q)
      else (Ret (True, pq_elements q ! 0), q))"

text \<open>\<^verbatim>\<open>remove()\<close> and \<^verbatim>\<open>remove(value)\<close>.\<close>

definition pq_remove_head :: "'e \<Rightarrow> 'e pq \<Rightarrow> 'e outcome \<times> 'e pq" where
  "pq_remove_head d q = taken (pq_poll d d q)"

fun target_index :: "('e \<Rightarrow> 'e \<Rightarrow> int) \<Rightarrow> 'e \<Rightarrow> 'e list \<Rightarrow> nat" where
  "target_index compare value [] = 0"
| "target_index compare value (x # xs) = (if compare value x = 0 then 0 else Suc (target_index compare value xs))"

definition pq_remove :: "'e \<Rightarrow> 'e \<Rightarrow> 'e pq \<Rightarrow> bool outcome \<times> 'e pq" where
  "pq_remove d value q =
     (let targetIndex = int (target_index (pq_comparator q) value (take (nat (pq_size q)) (pq_elements q))) in
      if pq_size q = 0 \<or> pq_size q = targetIndex then (Ret False, q)
      else
        (case pq_removeAt d targetIndex q of
           (Ret _, q') \<Rightarrow> (Ret True, q')
         | (Throw x, q') \<Rightarrow> (Throw x, q')
         | (Undefined f, q') \<Rightarrow> (Undefined f, q')))"

section \<open>Copying\<close>

text \<open>
  \<^verbatim>\<open>initCapacity\<close> throws the array of this queue away and sets its size to 0 before it reads the size of the source,
  which may be the same object.
\<close>

definition initCapacity :: "pq_base \<Rightarrow> 'e \<Rightarrow> int \<Rightarrow> 'e pq \<Rightarrow> unit outcome \<times> 'e pq" where
  "initCapacity B d c_size q =
     (let n = (if c_size = 0 then 1 else pq_ceil B c_size) in
      if n < 0 then (Throw bad_alloc, q\<lparr>pq_size := 0, pq_capacity := n, pq_elements := []\<rparr>)
      else (Ret (), q\<lparr>pq_size := 0, pq_capacity := n, pq_elements := replicate (nat n) d\<rparr>))"

definition getFromPriorityQueue :: "pq_base \<Rightarrow> 'e \<Rightarrow> bool \<Rightarrow> 'e pq \<Rightarrow> 'e pq \<Rightarrow> unit outcome \<times> 'e pq" where
  "getFromPriorityQueue B d same_object c q0 =
     (let n = (if same_object then 0 else pq_size c) in
      case initCapacity B d n q0 of
        (Ret _, q) \<Rightarrow>
          if length (pq_elements q) < nat n \<or> length (pq_elements c) < nat n then (Undefined OutOfBounds, q)
          else (Ret (), q\<lparr>pq_comparator := pq_comparator c,
                          pq_elements := take (nat n) (pq_elements c) @ drop (nat n) (pq_elements q), pq_size := n\<rparr>)
      | (Throw x, q) \<Rightarrow> (Throw x, q)
      | (Undefined f, q) \<Rightarrow> (Undefined f, q))"

text \<open>\<open>vs\<close> are the elements of the collection; they are read after \<open>initCapacity\<close>.\<close>

definition getFromCollection :: "pq_base \<Rightarrow> 'e :: ord \<Rightarrow> bool \<Rightarrow> 'e list \<Rightarrow> 'e pq \<Rightarrow> unit outcome \<times> 'e pq" where
  "getFromCollection B d same_object vs q0 =
     (let vs = (if same_object then [] else vs) in
      case initCapacity B d (int (length vs)) q0 of
        (Ret _, q) \<Rightarrow> unit_result (add_each (pq_offer B d) False vs (q\<lparr>pq_comparator := Less_compare\<rparr>))
      | (Throw x, q) \<Rightarrow> (Throw x, q)
      | (Undefined f, q) \<Rightarrow> (Undefined f, q))"

text \<open>The members before the bodies of the copying constructors run.\<close>

definition pq_blank :: "('e \<Rightarrow> 'e \<Rightarrow> int) \<Rightarrow> 'e pq" where
  "pq_blank compare = \<lparr>pq_size = 0, pq_capacity = 0, pq_elements = [], pq_comparator = compare\<rparr>"

definition pq_from :: "pq_base \<Rightarrow> 'e :: ord \<Rightarrow> 'e list \<Rightarrow> unit outcome \<times> 'e pq" where
  "pq_from B d vs = getFromCollection B d False vs (pq_blank Less_compare)"

definition pq_from_queue :: "pq_base \<Rightarrow> 'e \<Rightarrow> 'e pq \<Rightarrow> unit outcome \<times> 'e pq" where
  "pq_from_queue B d source = getFromPriorityQueue B d False source (pq_blank (pq_comparator source))"

definition pq_assign :: "pq_base \<Rightarrow> 'e :: ord \<Rightarrow> bool \<Rightarrow> 'e list \<Rightarrow> 'e pq \<Rightarrow> unit outcome \<times> 'e pq" where
  "pq_assign B d same_object source q = getFromCollection B d same_object source q"

definition pq_assign_queue :: "pq_base \<Rightarrow> 'e \<Rightarrow> bool \<Rightarrow> 'e pq \<Rightarrow> 'e pq \<Rightarrow> unit outcome \<times> 'e pq" where
  "pq_assign_queue B d same_object source q = getFromPriorityQueue B d same_object source q"

section \<open>Iterators\<close>

record pqiter =
  pqi_position :: int
  pqi_allowRemove :: bool

definition pq_iterator :: "'e pq \<Rightarrow> pqiter" where
  "pq_iterator q = \<lparr>pqi_position = 0, pqi_allowRemove = False\<rparr>"

definition pqi_hasNext :: "'e pq \<Rightarrow> pqiter \<Rightarrow> bool" where
  "pqi_hasNext q it \<longleftrightarrow> pqi_position it < pq_size q"

definition pqi_next :: "'e pq \<Rightarrow> pqiter \<Rightarrow> 'e outcome \<times> pqiter" where
  "pqi_next q it =
     (if \<not> pqi_hasNext q it then (Throw (NoSuchElementException ''No more elements to Iterate over.''), it)
      else
        (let p = pqi_position it in
         if p < 0 \<or> int (length (pq_elements q)) \<le> p then (Undefined OutOfBounds, it\<lparr>pqi_allowRemove := True\<rparr>)
         else (Ret (pq_elements q ! nat p), \<lparr>pqi_position = p + 1, pqi_allowRemove = True\<rparr>)))"

definition pqi_remove :: "'e \<Rightarrow> 'e pq \<Rightarrow> pqiter \<Rightarrow> unit outcome \<times> 'e pq \<times> pqiter" where
  "pqi_remove d q it =
     (if \<not> pqi_allowRemove it then (Throw (IllegalStateException ''No more elements to Iterate over.''), q, it)
      else
        (case pq_removeAt d (pqi_position it) q of
           (r, q') \<Rightarrow> (r, q', \<lparr>pqi_position = pqi_position it - 1, pqi_allowRemove = False\<rparr>)))"

definition const_pqi_remove :: "'e pq \<Rightarrow> pqiter \<Rightarrow> unit outcome \<times> 'e pq \<times> pqiter" where
  "const_pqi_remove q it =
     (Throw (UnsupportedOperationException ''PriorityQueue::Iterator::remove - Not Valid on a Const Iterator''), q, it)"

text \<open>The functions the base classes call.\<close>

definition pq_queue :: "pq_base \<Rightarrow> 'e \<Rightarrow> ('e pq, 'e) queue_ops" where
  "pq_queue B d = \<lparr>v_offer = pq_offer B d, v_poll = pq_poll d, v_peek = pq_peek\<rparr>"

definition pq_coll :: "pq_base \<Rightarrow> 'e \<Rightarrow> ('e pq, pqiter, 'e) coll_ops" where
  "pq_coll B d = \<lparr>v_size = pq_size, v_iterator = pq_iterator, v_hasNext = pqi_hasNext, v_next = pqi_next,
     v_remove = pqi_remove d, v_add = pq_add B d, v_clear = pq_clear B d\<rparr>"

section \<open>Comparators\<close>

text \<open>What Comparator.h asks of every implementation of \<^verbatim>\<open>compare\<close>.\<close>

locale comparator =
  fixes compare :: "'e \<Rightarrow> 'e \<Rightarrow> int"
  assumes sgn_law: "sgn (compare x y) = - sgn (compare y x)"
    and trans_law: "compare x y > 0 \<Longrightarrow> compare y z > 0 \<Longrightarrow> compare x z > 0"
    and zero_law: "compare x y = 0 \<Longrightarrow> sgn (compare x z) = sgn (compare y z)"
begin

lemma flip: "compare x y < 0 \<longleftrightarrow> compare y x > 0" "compare x y = 0 \<longleftrightarrow> compare y x = 0"
  using sgn_law [of x y] by (auto simp: sgn_if split: if_splits)

lemma refl_le: "compare x x \<le> 0"
  using flip(1) [of x x] by linarith

lemma total_le: "compare x y \<le> 0 \<or> compare y x \<le> 0"
  using flip(1) [of x y] by linarith

lemma trans_le: "compare x y \<le> 0 \<Longrightarrow> compare y z \<le> 0 \<Longrightarrow> compare x z \<le> 0"
proof -
  assume le: "compare x y \<le> 0" "compare y z \<le> 0"
  consider "compare x y = 0" | "compare y z = 0" | "compare y x > 0" "compare z y > 0"
    using le flip(1) [of x y] flip(1) [of y z] by linarith
  then show "compare x z \<le> 0"
  proof cases
    case 1
    then show ?thesis using zero_law [OF 1, of z] le(2) by (auto simp: sgn_if split: if_splits)
  next
    case 2
    then show ?thesis using zero_law [OF 2, of x] le(1) flip(1) [of x y] flip(1) [of x z] flip(2) [of x z] flip(2) [of x y]
      by (auto simp: sgn_if split: if_splits)
  next
    case 3
    then show ?thesis using trans_law [OF 3(2,1)] flip(1) [of x z] by linarith
  qed
qed

end

interpretation less: comparator "Less_compare :: 'e :: linorder \<Rightarrow> 'e \<Rightarrow> int"
  by unfold_locales (auto simp: Less_compare_def split: if_splits)

lemma Less_compare_le [simp]: "Less_compare x y \<le> 0 \<longleftrightarrow> x \<le> y" for x y :: "'e :: linorder"
  by (auto simp: Less_compare_def)

section \<open>Heap order\<close>

lemma length_swap [simp]: "length (swap i j a) = length a"
  by (simp add: swap_def)

lemma nth_swap:
  "i < length a \<Longrightarrow> j < length a \<Longrightarrow> k < length a \<Longrightarrow>
     swap i j a ! k = (if k = j then a ! i else if k = i then a ! j else a ! k)"
  by (simp add: swap_def nth_list_update)

lemma mset_take_swap:
  assumes "i < n" and "j < n" and "n \<le> length a"
  shows "mset (take n (swap i j a)) = mset (take n a)"
proof -
  have "take n (swap i j a) = (take n a)[i := take n a ! j, j := take n a ! i]"
    using assms by (simp add: swap_def take_update_swap)
  then show ?thesis using assms mset_swap [of j "take n a" i] by simp
qed

definition parent :: "nat \<Rightarrow> nat" where
  "parent i = (i - 1) div 2"

lemma parent_less [simp]: "0 < i \<Longrightarrow> parent i < i"
  by (simp add: parent_def)

lemma children [simp]: "parent (2 * c + 1) = c" "parent (Suc (2 * c)) = c" "parent (2 * c + 2) = c" "parent (Suc (Suc (2 * c))) = c"
  by (simp_all add: parent_def)

lemma child_cases: "0 < i \<Longrightarrow> parent i = c \<Longrightarrow> i = 2 * c + 1 \<or> i = 2 * c + 2"
  by (auto simp: parent_def)

definition heap :: "('e \<Rightarrow> 'e \<Rightarrow> int) \<Rightarrow> nat \<Rightarrow> 'e list \<Rightarrow> bool" where
  "heap compare n a \<longleftrightarrow> (\<forall>i. 0 < i \<and> i < n \<longrightarrow> compare (a ! parent i) (a ! i) \<le> 0)"

lemma heap_cong: "(\<And>i. i < n \<Longrightarrow> a ! i = b ! i) \<Longrightarrow> heap compare n a = heap compare n b"
  unfolding heap_def by (metis less_trans parent_less)

text \<open>
  The order with one place where it may fail: above position \<open>c\<close> while an element rises, below it while one sinks.
  The other neighbours of \<open>c\<close> are in order with each other.
\<close>

definition around :: "('e \<Rightarrow> 'e \<Rightarrow> int) \<Rightarrow> nat \<Rightarrow> nat \<Rightarrow> 'e list \<Rightarrow> bool" where
  "around compare n c a \<longleftrightarrow> (\<forall>i. 0 < i \<and> i < n \<and> 0 < c \<and> parent i = c \<longrightarrow> compare (a ! parent c) (a ! i) \<le> 0)"

definition rising :: "('e \<Rightarrow> 'e \<Rightarrow> int) \<Rightarrow> nat \<Rightarrow> nat \<Rightarrow> 'e list \<Rightarrow> bool" where
  "rising compare n c a \<longleftrightarrow> (\<forall>i. 0 < i \<and> i < n \<and> i \<noteq> c \<longrightarrow> compare (a ! parent i) (a ! i) \<le> 0) \<and> around compare n c a"

definition sinking :: "('e \<Rightarrow> 'e \<Rightarrow> int) \<Rightarrow> nat \<Rightarrow> nat \<Rightarrow> 'e list \<Rightarrow> bool" where
  "sinking compare n c a \<longleftrightarrow> (\<forall>i. 0 < i \<and> i < n \<and> parent i \<noteq> c \<longrightarrow> compare (a ! parent i) (a ! i) \<le> 0) \<and> around compare n c a"

context comparator
begin

lemma heap_min:
  assumes "heap compare n a" and "i < n"
  shows "compare (a ! 0) (a ! i) \<le> 0"
  using assms(2)
proof (induction i rule: less_induct)
  case (less i)
  show ?case
  proof (cases "i = 0")
    case False
    then have "parent i < i" by simp
    then have "compare (a ! 0) (a ! parent i) \<le> 0" using less by simp
    moreover have "compare (a ! parent i) (a ! i) \<le> 0" using assms(1) less.prems False by (simp add: heap_def)
    ultimately show ?thesis by (rule trans_le)
  qed (simp add: refl_le)
qed

lemma rising_step:
  assumes "rising compare n c a" and "c < n" and "n \<le> length a" and "0 < c" and less: "compare (a ! c) (a ! parent c) < 0"
  shows "rising compare n (parent c) (swap c (parent c) a)"
proof -
  define p where "p = parent c"
  define b where "b = swap c p a"
  have p: "p < c" using assms(4) by (simp add: p_def)
  have at: "b ! k = (if k = p then a ! c else if k = c then a ! p else a ! k)" if "k < n" for k
    using nth_swap [of c a p k] that p assms(2,3) by (simp add: b_def)
  have r: "compare (a ! parent i) (a ! i) \<le> 0" if "0 < i" "i < n" "i \<noteq> c" for i
    using assms(1) that by (simp add: rising_def)
  have below: "compare (a ! p) (a ! i) \<le> 0" if "0 < i" "i < n" "parent i = c" for i
    using assms(1,4) that by (simp add: rising_def around_def p_def)
  have "compare (b ! parent i) (b ! i) \<le> 0" if i: "0 < i" "i < n" "i \<noteq> p" for i
  proof -
    have pi: "parent i < i" using i(1) by simp
    consider "i = c" | "i \<noteq> c" "parent i = c" | "i \<noteq> c" "parent i = p" | "i \<noteq> c" "parent i \<noteq> c" "parent i \<noteq> p" by blast
    then show ?thesis
    proof cases
      case 1
      then show ?thesis using at [of i] at [of p] p i less by (simp add: p_def [symmetric])
    next
      case 2
      then show ?thesis using at [of i] at [of c] p i pi below [of i] by simp
    next
      case 3
      have "compare (a ! p) (a ! i) \<le> 0" using r [of i] 3 i by simp
      then have "compare (a ! c) (a ! i) \<le> 0" using trans_le [of "a ! c" "a ! p" "a ! i"] less by (simp add: p_def [symmetric])
      then show ?thesis using at [of i] at [of p] 3 i pi by simp
    next
      case 4
      then show ?thesis using at [of i] at [of "parent i"] i pi r [of i] by simp
    qed
  qed
  moreover have "compare (b ! parent p) (b ! i) \<le> 0" if i: "0 < i" "i < n" "0 < p" "parent i = p" for i
  proof -
    have pp: "parent p < p" using i(3) by simp
    have top: "compare (a ! parent p) (a ! p) \<le> 0" using r [of p] i p assms(2) by simp
    have "compare (a ! parent p) (a ! i) \<le> 0" if "i \<noteq> c"
      using trans_le [OF top, of "a ! i"] r [of i] i that by simp
    moreover have "i \<noteq> p" using parent_less [of i] i by auto
    ultimately show ?thesis using at [of i] at [of "parent p"] i p pp assms(2) top by (cases "i = c") simp_all
  qed
  ultimately show ?thesis by (simp add: rising_def around_def p_def b_def)
qed

lemma upHeap_effect:
  assumes "rising compare n c a" and "c < n" and "n \<le> length a"
  shows "heap compare n (upHeap compare c a) \<and> length (upHeap compare c a) = length a
     \<and> mset (take n (upHeap compare c a)) = mset (take n a)"
  using assms
proof (induction c arbitrary: a rule: less_induct)
  case (less c)
  show ?case
  proof (cases "0 < c \<and> compare (a ! c) (a ! parent c) < 0")
    case True
    let ?a = "swap c (parent c) a"
    have p: "parent c < c" using True by simp
    have u: "upHeap compare c a = upHeap compare (parent c) ?a"
      using True by (subst upHeap.simps) (simp add: parent_def Let_def)
    have "rising compare n (parent c) ?a" using rising_step [OF less.prems] True by blast
    from less.IH [OF p this] less.prems p show ?thesis by (simp add: u mset_take_swap)
  next
    case False
    then have u: "upHeap compare c a = a" by (subst upHeap.simps) (auto simp: parent_def Let_def)
    have "compare (a ! parent i) (a ! i) \<le> 0" if "0 < i" "i < n" for i
    proof (cases "i = c")
      case True
      then show ?thesis using False that flip(1) [of "a ! c" "a ! parent c"] by auto
    qed (use less.prems(1) that in \<open>simp add: rising_def\<close>)
    then show ?thesis by (simp add: u heap_def)
  qed
qed

lemma sinking_step:
  assumes "sinking compare n c a" and "n \<le> length a" and m: "m < n" "0 < m" "parent m = c"
    and small: "\<And>i. 0 < i \<Longrightarrow> i < n \<Longrightarrow> parent i = c \<Longrightarrow> compare (a ! m) (a ! i) \<le> 0"
    and less: "\<not> compare (a ! c) (a ! m) < 0"
  shows "sinking compare n m (swap c m a)"
proof -
  define b where "b = swap c m a"
  have c: "c < m" using parent_less [OF m(2)] m(3) by simp
  have at: "b ! k = (if k = m then a ! c else if k = c then a ! m else a ! k)" if "k < n" for k
    using nth_swap [of c a m k] that c m assms(2) by (simp add: b_def)
  have r: "compare (a ! parent i) (a ! i) \<le> 0" if "0 < i" "i < n" "parent i \<noteq> c" for i
    using assms(1) that by (simp add: sinking_def)
  have above: "compare (a ! parent c) (a ! m) \<le> 0" if "0 < c"
    using assms(1) m that by (simp add: sinking_def around_def)
  have le: "compare (a ! m) (a ! c) \<le> 0" using less flip(1) [of "a ! c" "a ! m"] by linarith
  have "compare (b ! parent i) (b ! i) \<le> 0" if i: "0 < i" "i < n" "parent i \<noteq> m" for i
  proof -
    have pi: "parent i < i" using i(1) by simp
    consider "i = m" | "i = c" | "i \<noteq> m" "parent i = c" | "i \<noteq> m" "i \<noteq> c" "parent i \<noteq> c" by blast
    then show ?thesis
    proof cases
      case 1
      then show ?thesis using at [of m] at [of c] c m le by simp
    next
      case 2
      then show ?thesis using at [of c] at [of "parent c"] i pi c m above by simp
    next
      case 3
      then show ?thesis using at [of i] at [of c] i pi c m small [of i] by simp
    next
      case 4
      then show ?thesis using at [of i] at [of "parent i"] i pi r [of i] by simp
    qed
  qed
  moreover have "compare (b ! c) (b ! i) \<le> 0" if i: "0 < i" "i < n" "parent i = m" for i
  proof -
    have "m < i" using parent_less [OF i(1)] i(3) by simp
    then show ?thesis using at [of i] at [of c] c m i r [of i] by simp
  qed
  ultimately show ?thesis by (simp add: sinking_def around_def b_def m(3))
qed

lemma downHeap_effect:
  assumes "sinking compare n c a" and "n \<le> length a"
  shows "heap compare n (downHeap compare n c a) \<and> length (downHeap compare n c a) = length a
     \<and> mset (take n (downHeap compare n c a)) = mset (take n a)"
  using assms
proof (induction "n - c" arbitrary: c a rule: less_induct)
  case less
  have rest: "compare (a ! parent i) (a ! i) \<le> 0" if "0 < i" "i < n" "parent i \<noteq> c" for i
    using less.prems(1) that by (simp add: sinking_def)
  show ?case
  proof (cases "2 * c + 1 < n")
    case False
    then have d: "downHeap compare n c a = a" by (subst downHeap.simps) (simp add: Let_def)
    have "parent i \<noteq> c" if "0 < i" "i < n" for i using child_cases [of i c] that False by auto
    then show ?thesis using rest by (simp add: d heap_def)
  next
    case True
    define m where "m = (if 2 * c + 1 + 1 < n \<and> compare (a ! (2 * c + 1 + 1)) (a ! (2 * c + 1)) < 0 then 2 * c + 1 + 1 else 2 * c + 1)"
    have m: "m < n" "0 < m" "parent m = c" "c < m" using True by (auto simp: m_def)
    have small: "compare (a ! m) (a ! i) \<le> 0" if i: "0 < i" "i < n" "parent i = c" for i
      using child_cases [OF i(1,3)] i(2) refl_le flip(1) [of "a ! (2 * c + 2)" "a ! (2 * c + 1)"] by (auto simp: m_def)
    have d: "downHeap compare n c a = (if compare (a ! c) (a ! m) < 0 then a else downHeap compare n m (swap c m a))"
      using True unfolding m_def by (subst downHeap.simps) (simp only: Let_def if_True)
    show ?thesis
    proof (cases "compare (a ! c) (a ! m) < 0")
      case stop: True
      have "compare (a ! parent i) (a ! i) \<le> 0" if i: "0 < i" "i < n" for i
      proof (cases "parent i = c")
        case True
        then show ?thesis using trans_le [of "a ! c" "a ! m" "a ! i"] small [OF i True] stop by simp
      qed (use rest i in simp)
      then show ?thesis using stop by (simp add: d heap_def)
    next
      case go: False
      have s: "sinking compare n m (swap c m a)" by (rule sinking_step [OF less.prems m(1-3) small go])
      have "n - m < n - c" using m by simp
      from less.hyps [OF this s] less.prems(2) m go show ?thesis by (simp add: d mset_take_swap)
    qed
  qed
qed

end

section \<open>Invariant\<close>

text \<open>What is assumed of the constants of the library: the array does not shrink when it is to grow.\<close>

definition base_ok :: "pq_base \<Rightarrow> bool" where
  "base_ok B \<longleftrightarrow> 0 \<le> DEFAULT_CAPACITY B \<and> 1 \<le> DEFAULT_CAPACITY_RATIO B \<and> (\<forall>n > 0. n \<le> pq_ceil B n)"

definition pq_wf :: "'e pq \<Rightarrow> bool" where
  "pq_wf q \<longleftrightarrow> 0 \<le> pq_size q \<and> pq_size q \<le> pq_capacity q \<and> int (length (pq_elements q)) = pq_capacity q"

definition pq_ok :: "'e pq \<Rightarrow> bool" where
  "pq_ok q \<longleftrightarrow> pq_wf q \<and> comparator (pq_comparator q) \<and> heap (pq_comparator q) (nat (pq_size q)) (pq_elements q)"

definition pq_bag :: "'e pq \<Rightarrow> 'e multiset" where
  "pq_bag q = mset (take (nat (pq_size q)) (pq_elements q))"

lemma size_bag: "pq_wf q \<Longrightarrow> int (size (pq_bag q)) = pq_size q"
  by (auto simp: pq_wf_def pq_bag_def min_def)

lemma downHeap_perm:
  "n \<le> length a \<Longrightarrow> length (downHeap compare n c a) = length a \<and> mset (take n (downHeap compare n c a)) = mset (take n a)"
proof (induction "n - c" arbitrary: c a rule: less_induct)
  case less
  define m where "m = (if 2 * c + 1 + 1 < n \<and> compare (a ! (2 * c + 1 + 1)) (a ! (2 * c + 1)) < 0 then 2 * c + 1 + 1 else 2 * c + 1)"
  have d: "downHeap compare n c a = (if 2 * c + 1 < n then if compare (a ! c) (a ! m) < 0 then a else downHeap compare n m (swap c m a) else a)"
    unfolding m_def by (subst downHeap.simps) (simp only: Let_def)
  show ?case
  proof (cases "2 * c + 1 < n \<and> \<not> compare (a ! c) (a ! m) < 0")
    case True
    then have m: "m < n" "c < m" by (auto simp: m_def)
    then show ?thesis using True less.prems less.hyps [of m "swap c m a"] by (simp add: d mset_take_swap)
  qed (auto simp: d)
qed

lemma increaseCapacity_effect:
  assumes "base_ok B" and wf: "pq_wf q"
  shows "\<exists>q'. increaseCapacity B d (pq_size q + 1) q = (Ret (), q') \<and> pq_wf q' \<and> pq_size q' = pq_size q
     \<and> pq_comparator q' = pq_comparator q \<and> pq_size q < pq_capacity q'
     \<and> take (nat (pq_size q)) (pq_elements q') = take (nat (pq_size q)) (pq_elements q)"
proof (cases "pq_size q + 1 > pq_capacity q")
  case True
  define new where "new = (pq_size q + 1) * DEFAULT_CAPACITY_RATIO B"
  have full: "pq_size q = pq_capacity q" using True wf by (simp add: pq_wf_def)
  have "pq_size q + 1 \<le> new" using assms by (simp add: new_def base_ok_def pq_wf_def mult_le_cancel_left1)
  then have new: "pq_capacity q < new" "0 \<le> pq_capacity q" "length (pq_elements q) = nat (pq_capacity q)"
    using full wf by (auto simp: pq_wf_def)
  then have "increaseCapacity B d (pq_size q + 1) q =
      (Ret (), q\<lparr>pq_elements := pq_elements q @ replicate (nat new - nat (pq_capacity q)) d, pq_capacity := new\<rparr>)"
    using True by (simp add: increaseCapacity_def Let_def new_def [symmetric])
  with new full show ?thesis by (auto simp: pq_wf_def)
next
  case False
  with wf show ?thesis by (simp add: increaseCapacity_def)
qed

lemma pq_offer_effect:
  assumes B: "base_ok B" and ok: "pq_ok q"
  shows "\<exists>q'. pq_offer B d v q = (Ret True, q') \<and> pq_ok q' \<and> pq_bag q' = add_mset v (pq_bag q)
     \<and> pq_comparator q' = pq_comparator q"
proof -
  have wf: "pq_wf q" using ok by (simp add: pq_ok_def)
  obtain q1 where q1: "increaseCapacity B d (pq_size q + 1) q = (Ret (), q1)" "pq_wf q1" "pq_size q1 = pq_size q"
    "pq_comparator q1 = pq_comparator q" "pq_size q < pq_capacity q1"
    "take (nat (pq_size q)) (pq_elements q1) = take (nat (pq_size q)) (pq_elements q)"
    using increaseCapacity_effect [OF B wf] by blast
  define n where "n = nat (pq_size q)"
  let ?a = "(pq_elements q1)[n := v]" and ?cmp = "pq_comparator q"
  have n: "n < length (pq_elements q1)" "nat (pq_size q + 1) = Suc n" "take n (pq_elements q1) = take n (pq_elements q)"
    "n \<le> length (pq_elements q)"
    using q1 wf by (auto simp: n_def pq_wf_def)
  have c: "comparator ?cmp" and h: "heap ?cmp n (pq_elements q)" using ok by (auto simp: pq_ok_def n_def)
  have same: "?a ! i = pq_elements q ! i" if "i < n" for i
    using n(3) that by (metis nth_list_update_neq nth_take less_irrefl)
  have "rising ?cmp (Suc n) n ?a"
    unfolding rising_def around_def
  proof (intro conjI allI impI)
    fix i assume "0 < i \<and> i < Suc n \<and> i \<noteq> n"
    then have i: "0 < i" "i < n" "parent i < n" using parent_less [of i] by linarith+
    show "?cmp (?a ! parent i) (?a ! i) \<le> 0"
      unfolding same [OF i(2)] same [OF i(3)] using h i by (simp add: heap_def)
  next
    fix i assume "0 < i \<and> i < Suc n \<and> 0 < n \<and> parent i = n"
    then show "?cmp (?a ! parent n) (?a ! i) \<le> 0" using parent_less [of i] by auto
  qed
  from comparator.upHeap_effect [OF c this] n(1)
  have u: "heap ?cmp (Suc n) (upHeap ?cmp n ?a)" "length (upHeap ?cmp n ?a) = length (pq_elements q1)"
    "mset (take (Suc n) (upHeap ?cmp n ?a)) = mset (take (Suc n) ?a)" by simp_all
  have "take (Suc n) ?a = take n (pq_elements q) @ [v]" using n by (simp add: take_Suc_conv_app_nth)
  then have "pq_offer B d v q = (Ret True, q1\<lparr>pq_elements := upHeap ?cmp n ?a, pq_size := pq_size q + 1\<rparr>)"
    "mset (take (Suc n) (upHeap ?cmp n ?a)) = add_mset v (mset (take n (pq_elements q)))"
    using q1 n(1) u(3) by (simp_all add: pq_offer_def Let_def n_def)
  then show ?thesis using u(1,2) q1 c n(2) wf by (simp add: pq_ok_def pq_wf_def pq_bag_def n_def [symmetric])
qed

text \<open>
  \<^verbatim>\<open>removeAt\<close> takes away the element at the index.  The order survives when the last element, which takes its place, may
  stand below the parent of that place.
\<close>

lemma pq_removeAt_effect:
  assumes wf: "pq_wf q" and k: "k < nat (pq_size q)"
  shows "\<exists>q'. pq_removeAt d (int k) q = (Ret (), q') \<and> pq_wf q' \<and> pq_size q' = pq_size q - 1
     \<and> pq_comparator q' = pq_comparator q \<and> pq_bag q = add_mset (pq_elements q ! k) (pq_bag q')
     \<and> (pq_ok q \<and> (k = 0 \<or> pq_comparator q (pq_elements q ! parent k) (pq_elements q ! nat (pq_size q - 1)) \<le> 0) \<longrightarrow> pq_ok q')"
proof -
  define n where "n = nat (pq_size q - 1)"
  let ?a = "pq_elements q" and ?cmp = "pq_comparator q"
  define b where "b = ?a[k := ?a ! n]"
  define e where "e = downHeap ?cmp n k b"
  have n: "pq_size q = int (Suc n)" "n < length ?a" "k \<le> n" "length b = length ?a" using wf k by (auto simp: pq_wf_def n_def b_def)
  have e: "length e = length ?a" "mset (take n e) = mset (take n b)"
    using downHeap_perm [of n b ?cmp k] n by (simp_all add: e_def)
  let ?q = "q\<lparr>pq_elements := e[n := d], pq_size := pq_size q - 1\<rparr>"
  have call: "pq_removeAt d (int k) q = (Ret (), ?q)"
    using n by (simp add: pq_removeAt_def Let_def b_def e_def)
  have "add_mset (?a ! k) (mset (take n b)) = mset (take (Suc n) ?a)"
  proof (cases "k < n")
    case True
    then have "take n b = (take n ?a)[k := ?a ! n]" by (simp add: b_def take_update_swap)
    moreover have "?a ! k \<in># mset (take n ?a)" using True n nth_mem_mset [of k "take n ?a"] by simp
    ultimately show ?thesis using True n by (simp add: mset_update take_Suc_conv_app_nth)
  next
    case False
    then have "k = n" using n by simp
    then show ?thesis using n by (simp add: b_def take_Suc_conv_app_nth)
  qed
  moreover have s: "nat (pq_size q) = Suc n" "nat (pq_size q - 1) = n" using n(1) by simp_all
  ultimately have bag: "pq_bag q = add_mset (?a ! k) (pq_bag ?q)" using e n(2) by (simp add: pq_bag_def)
  have "heap ?cmp n e" if ok: "pq_ok q" and fits: "k = 0 \<or> ?cmp (?a ! parent k) (?a ! n) \<le> 0"
  proof -
    have c: "comparator ?cmp" and h: "heap ?cmp (Suc n) ?a" using ok s by (simp_all add: pq_ok_def)
    have b: "b ! i = (if i = k then ?a ! n else ?a ! i)" if "i < n" for i using that n by (auto simp: b_def)
    have o: "?cmp (?a ! parent i) (?a ! i) \<le> 0" if "0 < i" "i \<le> n" for i using h that by (simp add: heap_def)
    have "sinking ?cmp n k b"
      unfolding sinking_def around_def
    proof (intro conjI allI impI)
      fix i assume i: "0 < i \<and> i < n \<and> parent i \<noteq> k"
      then have "parent i < n" using parent_less [of i] by linarith
      then show "?cmp (b ! parent i) (b ! i) \<le> 0" using i b [of i] b [of "parent i"] o [of i] fits by auto
    next
      fix i assume i: "0 < i \<and> i < n \<and> 0 < k \<and> parent i = k"
      then have p: "k < i" "parent k < k" using parent_less [of i] by auto
      have "?cmp (?a ! parent k) (?a ! i) \<le> 0"
        using comparator.trans_le [OF c, of "?a ! parent k" "?a ! k" "?a ! i"] o [of k] o [of i] i p by simp
      then show "?cmp (b ! parent k) (b ! i) \<le> 0" using b [of i] b [of "parent k"] i p by auto
    qed
    then show ?thesis using comparator.downHeap_effect [OF c] n unfolding e_def by simp
  qed
  moreover have "heap ?cmp n (e[n := d]) = heap ?cmp n e"
    by (rule heap_cong) simp
  ultimately have "pq_ok q \<and> (k = 0 \<or> ?cmp (?a ! parent k) (?a ! n) \<le> 0) \<longrightarrow> pq_ok ?q"
    using wf n(2) e s by (auto simp: pq_ok_def pq_wf_def)
  moreover have "pq_wf ?q" using wf n e by (simp add: pq_wf_def)
  ultimately show ?thesis using call bag by (simp add: n_def)
qed

lemma bag_nonempty: "pq_wf q \<Longrightarrow> pq_bag q = {#} \<longleftrightarrow> pq_size q = 0"
  using size_bag [of q] by auto

lemma bag_elements:
  assumes "pq_wf q"
  shows "x \<in># pq_bag q \<longleftrightarrow> (\<exists>i < nat (pq_size q). x = pq_elements q ! i)"
proof -
  have "nat (pq_size q) \<le> length (pq_elements q)" using assms by (auto simp: pq_wf_def)
  then show ?thesis by (auto simp: pq_bag_def in_set_conv_nth)
qed

lemma root_least:
  assumes ok: "pq_ok q" and "x \<in># pq_bag q"
  shows "pq_comparator q (pq_elements q ! 0) x \<le> 0"
proof -
  have wf: "pq_wf q" and c: "comparator (pq_comparator q)" and h: "heap (pq_comparator q) (nat (pq_size q)) (pq_elements q)"
    using ok by (simp_all add: pq_ok_def)
  obtain i where "i < nat (pq_size q)" "x = pq_elements q ! i" using assms(2) bag_elements [OF wf] by auto
  then show ?thesis using comparator.heap_min [OF c h] by simp
qed

lemma pq_poll_effect:
  assumes "pq_ok q"
  shows "if pq_bag q = {#} then pq_poll d r q = (Ret (False, r), q)
     else \<exists>q'. pq_poll d r q = (Ret (True, pq_elements q ! 0), q') \<and> pq_ok q' \<and> pq_comparator q' = pq_comparator q
       \<and> pq_bag q = add_mset (pq_elements q ! 0) (pq_bag q')"
proof -
  have wf: "pq_wf q" using assms by (simp add: pq_ok_def)
  show ?thesis
  proof (cases "pq_size q = 0")
    case False
    then have s: "0 < nat (pq_size q)" "pq_elements q \<noteq> []" using wf by (auto simp: pq_wf_def)
    with pq_removeAt_effect [OF wf s(1), of d] assms False bag_nonempty [OF wf] show ?thesis by (auto simp: pq_poll_def)
  qed (simp add: bag_nonempty [OF wf] pq_poll_def)
qed

section \<open>The priority queue as an interface\<close>

text \<open>
  What a client of a priority queue relies on: \<^verbatim>\<open>offer\<close> always takes the element, \<^verbatim>\<open>poll\<close> delivers one that is least
  and removes it, \<^verbatim>\<open>peek\<close> shows one that is least.
\<close>

locale min_queue =
  fixes Q :: "('c, 'e) queue_ops"
    and invar :: "'c \<Rightarrow> bool"
    and bag :: "'c \<Rightarrow> 'e multiset"
    and le :: "'e \<Rightarrow> 'e \<Rightarrow> bool"
  assumes offer_law: "invar c \<Longrightarrow> \<exists>c'. v_offer Q v c = (Ret True, c') \<and> invar c' \<and> bag c' = add_mset v (bag c)"
    and poll_empty_law: "invar c \<Longrightarrow> bag c = {#} \<Longrightarrow> v_poll Q r c = (Ret (False, r), c)"
    and poll_law: "invar c \<Longrightarrow> bag c \<noteq> {#} \<Longrightarrow> \<exists>x c'. v_poll Q r c = (Ret (True, x), c') \<and> invar c'
      \<and> bag c = add_mset x (bag c') \<and> (\<forall>y \<in># bag c. le x y)"
    and peek_law: "invar c \<Longrightarrow> bag c \<noteq> {#} \<Longrightarrow> \<exists>x. v_peek Q r c = (Ret (True, x), c) \<and> x \<in># bag c \<and> (\<forall>y \<in># bag c. le x y)"
begin

lemma offer_each_effect:
  "invar c \<Longrightarrow> \<exists>c'. add_each (v_offer Q) b vs c = (Ret (b \<or> vs \<noteq> []), c') \<and> invar c' \<and> bag c' = bag c + mset vs"
proof (induction vs arbitrary: b c)
  case (Cons v vs)
  obtain c1 where c1: "v_offer Q v c = (Ret True, c1)" "invar c1" "bag c1 = add_mset v (bag c)"
    using offer_law [OF Cons.prems] by blast
  with Cons.IH [OF c1(2), of True] show ?case by auto
qed simp

text \<open>Taking everything out sorts it.\<close>

lemma remove_n_sorts:
  assumes "invar c" and "size (bag c) = n"
  shows "\<exists>xs c'. remove_n n Q d c = (xs, c') \<and> invar c' \<and> bag c' = {#} \<and> sorted_wrt le xs \<and> mset xs = bag c"
  using assms
proof (induction n arbitrary: c)
  case (Suc n)
  then have "bag c \<noteq> {#}" by auto
  then obtain x c1 where x: "v_poll Q d c = (Ret (True, x), c1)" "invar c1" "bag c = add_mset x (bag c1)" "\<forall>y \<in># bag c. le x y"
    using poll_law [OF Suc.prems(1)] by blast
  then have "size (bag c1) = n" using Suc.prems(2) by simp
  then obtain xs c2 where "remove_n n Q d c1 = (xs, c2)" "invar c2" "bag c2 = {#}" "sorted_wrt le xs" "mset xs = bag c1"
    using Suc.IH [OF x(2)] by blast
  moreover have "\<forall>y \<in> set xs. le x y" using x(3,4) \<open>mset xs = bag c1\<close> by (metis set_mset_mset union_single_eq_member insert_DiffM add_mset_remove_trivial in_diffD)
  ultimately show ?case using x(1,3) by (simp add: queue_remove_def taken_def)
qed simp

lemma sorting:
  assumes "invar c" and "bag c = {#}"
  shows "\<exists>c' c'' xs. add_each (v_offer Q) False vs c = (Ret (vs \<noteq> []), c')
     \<and> remove_n (length vs) Q d c' = (xs, c'') \<and> sorted_wrt le xs \<and> mset xs = mset vs \<and> bag c'' = {#}"
proof -
  obtain c' where c': "add_each (v_offer Q) False vs c = (Ret (vs \<noteq> []), c')" "invar c'" "bag c' = mset vs"
    using offer_each_effect [OF assms(1), of False vs] assms(2) by auto
  with remove_n_sorts [OF c'(2), of "length vs" d] show ?thesis by auto
qed

end

interpretation pq: min_queue "pq_queue B d" "\<lambda>q. base_ok B \<and> pq_ok q \<and> pq_comparator q = cmp" pq_bag "\<lambda>x y. cmp x y \<le> 0"
  for B d cmp
proof
  fix q :: "'a pq" and v r
  assume q: "base_ok B \<and> pq_ok q \<and> pq_comparator q = cmp"
  show "\<exists>c'. v_offer (pq_queue B d) v q = (Ret True, c') \<and> (base_ok B \<and> pq_ok c' \<and> pq_comparator c' = cmp)
      \<and> pq_bag c' = add_mset v (pq_bag q)"
    using pq_offer_effect [of B q d v] q by (auto simp: pq_queue_def)
  show "pq_bag q = {#} \<Longrightarrow> v_poll (pq_queue B d) r q = (Ret (False, r), q)"
    using pq_poll_effect [of q d r] q by (simp add: pq_queue_def)
  show "pq_bag q \<noteq> {#} \<Longrightarrow> \<exists>x c'. v_poll (pq_queue B d) r q = (Ret (True, x), c') \<and> (base_ok B \<and> pq_ok c' \<and> pq_comparator c' = cmp)
      \<and> pq_bag q = add_mset x (pq_bag c') \<and> (\<forall>y \<in># pq_bag q. cmp x y \<le> 0)"
    using pq_poll_effect [of q d r] root_least [of q] q by (auto simp: pq_queue_def)
  show "pq_bag q \<noteq> {#} \<Longrightarrow> \<exists>x. v_peek (pq_queue B d) r q = (Ret (True, x), q) \<and> x \<in># pq_bag q \<and> (\<forall>y \<in># pq_bag q. cmp x y \<le> 0)"
    using pq_poll_effect [of q d r] root_least [of q] q bag_nonempty [of q] by (auto simp: pq_queue_def pq_peek_def pq_ok_def pq_wf_def)
qed

text \<open>The elements can be read through the iterator.\<close>

definition pq_elems :: "'e pq \<Rightarrow> 'e list" where
  "pq_elems q = take (nat (pq_size q)) (pq_elements q)"

definition pq_view :: "'e pq \<Rightarrow> pqiter \<Rightarrow> 'e list \<Rightarrow> 'e list \<Rightarrow> bool \<Rightarrow> bool" where
  "pq_view q it xs ys b \<longleftrightarrow> pq_wf q \<and> pq_elems q = xs @ ys \<and> pqi_position it = int (length xs) \<and> pqi_allowRemove it = b"

lemma length_elems: "pq_wf q \<Longrightarrow> int (length (pq_elems q)) = pq_size q"
  by (auto simp: pq_wf_def pq_elems_def min_def)

interpretation pq: readable "pq_coll B d" pq_wf pq_elems pq_view for B d
proof
  fix q :: "'a pq" and it xs ys y b
  show "pq_wf q \<Longrightarrow> v_size (pq_coll B d) q = int (length (pq_elems q))" by (simp add: length_elems pq_coll_def)
  show "pq_view q it xs ys b \<Longrightarrow> pq_wf q \<and> pq_elems q = xs @ ys" by (simp add: pq_view_def)
  show "pq_wf q \<Longrightarrow> pq_view q (v_iterator (pq_coll B d) q) [] (pq_elems q) False" by (simp add: pq_view_def pq_coll_def pq_iterator_def)
  show "pq_view q it xs ys b \<Longrightarrow> v_hasNext (pq_coll B d) q it \<longleftrightarrow> ys \<noteq> []"
    using length_elems [of q] by (cases ys) (auto simp: pq_view_def pq_coll_def pqi_hasNext_def)
  assume v: "pq_view q it xs (y # ys) b"
  then have wf: "pq_wf q" and e: "pq_elems q = xs @ y # ys" and p: "pqi_position it = int (length xs)" by (simp_all add: pq_view_def)
  have "length xs < nat (pq_size q)" using length_elems [OF wf] e by simp
  moreover have "y = pq_elements q ! length xs" using e calculation by (metis nth_append_length nth_take pq_elems_def)
  moreover have "nat (pq_size q) \<le> length (pq_elements q)" using wf by (auto simp: pq_wf_def)
  ultimately show "\<exists>it'. v_next (pq_coll B d) q it = (Ret y, it') \<and> pq_view q it' (xs @ [y]) ys True"
    using wf e p by (auto simp: pq_coll_def pqi_next_def pqi_hasNext_def pq_view_def Let_def)
qed

section \<open>Properties\<close>

text \<open>Constants for which the assumptions hold.\<close>

definition base_demo :: pq_base where
  "base_demo = \<lparr>DEFAULT_CAPACITY = 11, DEFAULT_CAPACITY_RATIO = 2, pq_ceil = (\<lambda>n. n + n div 10 + 1)\<rparr>"

lemma base_demo_ok: "base_ok base_demo"
  by (simp add: base_ok_def base_demo_def)

lemma pq_blank_ok: "pq_ok (pq_blank (Less_compare :: 'e :: linorder \<Rightarrow> 'e \<Rightarrow> int))" "pq_bag (pq_blank cmp) = {#}"
  using less.comparator_axioms by (auto simp: pq_ok_def pq_wf_def pq_blank_def heap_def pq_bag_def)

text \<open>
  C24: Whatever is offered to an empty priority queue and taken out again comes out in the order of the comparator,
  every element as often as it was offered.
\<close>

theorem pq_sorts:
  assumes "base_ok B" and "pq_ok q" and "pq_bag q = {#}"
  shows "\<exists>q' q'' xs. add_each (pq_offer B d) False vs q = (Ret (vs \<noteq> []), q')
     \<and> remove_n (length vs) (pq_queue B d) d q' = (xs, q'')
     \<and> sorted_wrt (\<lambda>x y. pq_comparator q x y \<le> 0) xs \<and> mset xs = mset vs \<and> pq_bag q'' = {#}"
  using pq.sorting [where B = B and cmp = "pq_comparator q" and c = q and vs = vs and d = d] assms by (simp add: pq_queue_def)

theorem pq_sorts_witness:
  "\<exists>q' q'' xs. add_each (pq_offer base_demo 0) False [3, 1, 2 :: nat] (pq_blank Less_compare) = (Ret True, q')
     \<and> remove_n 3 (pq_queue base_demo 0) 0 q' = (xs, q'') \<and> sorted xs \<and> mset xs = mset [3, 1, 2] \<and> pq_bag q'' = {#}"
  using pq_sorts [OF base_demo_ok pq_blank_ok, of 0 "[3, 1, 2 :: nat]"] by (simp add: pq_blank_def numeral_3_eq_3)

text \<open>
  remove(value) takes out one element the comparator holds equal to the value and says whether there was one; the rest of
  the queue is kept.
\<close>

theorem pq_remove_one:
  assumes "pq_wf q"
  shows "if \<exists>x \<in># pq_bag q. pq_comparator q v x = 0
     then \<exists>x q'. pq_remove d v q = (Ret True, q') \<and> pq_comparator q v x = 0 \<and> pq_wf q' \<and> pq_bag q = add_mset x (pq_bag q')
     else pq_remove d v q = (Ret False, q)"
proof -
  let ?xs = "pq_elems q" and ?P = "\<lambda>x. pq_comparator q v x = 0"
  define k where "k = target_index (pq_comparator q) v ?xs"
  have found: "(\<exists>x \<in> set xs. ?P x) \<Longrightarrow> target_index (pq_comparator q) v xs < length xs \<and> ?P (xs ! target_index (pq_comparator q) v xs)"
    "\<not> (\<exists>x \<in> set xs. ?P x) \<Longrightarrow> target_index (pq_comparator q) v xs = length xs" for xs
    by (induction xs) auto
  have bag: "set_mset (pq_bag q) = set ?xs" by (simp add: pq_bag_def pq_elems_def)
  have n: "int (length ?xs) = pq_size q" by (rule length_elems [OF assms])
  show ?thesis
  proof (cases "\<exists>x \<in># pq_bag q. ?P x")
    case True
    then have k: "k < length ?xs" "?P (?xs ! k)" using found(1) [of ?xs] bag by (auto simp: k_def)
    then have k': "k < nat (pq_size q)" "?P (pq_elements q ! k)" using n by (auto simp: pq_elems_def)
    obtain q' where q': "pq_removeAt d (int k) q = (Ret (), q')" "pq_wf q'" "pq_bag q = add_mset (pq_elements q ! k) (pq_bag q')"
      using pq_removeAt_effect [OF assms k'(1), of d] by blast
    moreover have "pq_size q \<noteq> 0" "pq_size q \<noteq> int k" using k(1) n by auto
    ultimately have "pq_remove d v q = (Ret True, q')" by (simp add: pq_remove_def Let_def k_def [symmetric] pq_elems_def [symmetric])
    with q' k'(2) True show ?thesis by auto
  next
    case False
    then have "k = length ?xs" using found(2) [of ?xs] bag by (simp add: k_def)
    then have "pq_remove d v q = (Ret False, q)" using n by (simp add: pq_remove_def Let_def k_def [symmetric] pq_elems_def [symmetric])
    with False show ?thesis by simp
  qed
qed

definition pq_demo :: "nat pq" where
  "pq_demo = snd (add_each (pq_offer base_demo 0) False [1, 4, 2, 7, 6, 5, 3] (pq_blank Less_compare))"

lemma pq_demo_state: "pq_ok pq_demo" "pq_bag pq_demo = mset [1, 4, 2, 7, 6, 5, 3]" "pq_comparator pq_demo = Less_compare"
proof -
  let ?vs = "[1, 4, 2, 7, 6, 5, 3 :: nat]"
  have "base_ok base_demo \<and> pq_ok (pq_blank Less_compare :: nat pq) \<and> pq_comparator (pq_blank Less_compare :: nat pq) = Less_compare"
    using base_demo_ok pq_blank_ok by (simp add: pq_blank_def)
  from pq.offer_each_effect [where d = 0, OF this, of False ?vs]
  obtain q where q: "add_each (pq_offer base_demo 0) False ?vs (pq_blank Less_compare) = (Ret True, q)"
    "pq_ok q" "pq_comparator q = Less_compare" "pq_bag q = mset ?vs"
    by (auto simp only: pq_queue_def queue_ops.simps pq_blank_ok empty_neutral simp_thms list.distinct)
  from q(1) have "pq_demo = q" by (simp only: pq_demo_def snd_conv)
  with q show "pq_ok pq_demo" "pq_bag pq_demo = mset ?vs" "pq_comparator pq_demo = Less_compare" by simp_all
qed

theorem pq_remove_one_witness:
  "\<exists>x q'. pq_remove 0 7 pq_demo = (Ret True, q') \<and> Less_compare 7 x = 0 \<and> pq_wf q' \<and> pq_bag pq_demo = add_mset x (pq_bag q')"
  using pq_remove_one [of pq_demo 7 0] pq_demo_state by (simp add: pq_ok_def Less_compare_def)

text \<open>
  After remove(value) the queue can be out of order: of the elements 1 to 7 the value 7 is removed, and then 4
  comes out before 3.
\<close>

theorem pq_remove_disorders:
  "case pq_remove 0 7 pq_demo of (r, q) \<Rightarrow> r = Ret True \<and> fst (remove_n 6 (pq_queue base_demo 0) 0 q) = [1, 2, 4, 3, 5, 6]"
  by code_simp

text \<open>
  The iterator's remove does not take away the element that next returned but the one after it.
\<close>

theorem pq_iterator_remove:
  assumes "pq_wf q" and "pq_view q it xs (y # z # zs) b"
  shows "\<exists>it' q' it''. pqi_next q it = (Ret y, it') \<and> pqi_remove d q it' = (Ret (), q', it'') \<and> pq_bag q = add_mset z (pq_bag q')"
proof -
  obtain it' where it': "pqi_next q it = (Ret y, it')" "pq_view q it' (xs @ [y]) (z # zs) True"
    using pq.next_law [OF assms(2)] by (auto simp: pq_coll_def)
  let ?k = "length xs + 1"
  have p: "pqi_position it' = int ?k" "pqi_allowRemove it'" and e: "pq_elems q = (xs @ [y]) @ z # zs"
    using it'(2) by (simp_all add: pq_view_def)
  have k: "?k < nat (pq_size q)" using length_elems [OF assms(1)] e by simp
  have "pq_elems q ! ?k = z" by (simp add: e nth_append)
  then have "pq_elements q ! ?k = z" using k by (simp add: pq_elems_def)
  with pq_removeAt_effect [OF assms(1) k, of d] it'(1) p show ?thesis by (auto simp: pqi_remove_def)
qed

theorem pq_iterator_remove_witness:
  "\<exists>it' q' it''. pqi_next pq_demo (pq_iterator pq_demo) = (Ret 1, it') \<and> pqi_remove 0 pq_demo it' = (Ret (), q', it'')
     \<and> pq_bag pq_demo = add_mset 4 (pq_bag q')"
proof (rule pq_iterator_remove [where xs = "[]" and zs = "[2, 7, 6, 5, 3]"])
  show wf: "pq_wf pq_demo" using pq_demo_state(1) by (simp add: pq_ok_def)
  have "pq_elems pq_demo = [1, 4, 2, 7, 6, 5, 3]" by code_simp
  then show "pq_view pq_demo (pq_iterator pq_demo) [] (1 # 4 # [2, 7, 6, 5, 3]) False"
    using wf by (simp add: pq_view_def pq_iterator_def)
qed

lemma initCapacity_effect:
  assumes "base_ok B" and "0 \<le> n"
  obtains k where "n \<le> k" and "0 \<le> k"
    and "\<And>q. initCapacity B d n q = (Ret (), q\<lparr>pq_size := 0, pq_capacity := k, pq_elements := replicate (nat k) d\<rparr>)"
proof (rule that)
  let ?k = "if n = 0 then 1 else pq_ceil B n"
  show k: "n \<le> ?k" using assms by (simp add: base_ok_def)
  then show "0 \<le> ?k" using assms(2) by linarith
  then show "initCapacity B d n q = (Ret (), q\<lparr>pq_size := 0, pq_capacity := ?k, pq_elements := replicate (nat ?k) d\<rparr>)" for q
    by (simp only: initCapacity_def Let_def linorder_not_less [symmetric] if_False)
qed

text \<open>
  A queue made from a collection holds its elements, a copy of a queue has the same elements and
  comparator in a heap of its own, and the assignment of a queue to itself leaves it empty.
\<close>

theorem pq_copies:
  fixes vs :: "'e :: linorder list"
  assumes "base_ok B" and "pq_ok q"
  shows "(\<exists>q'. pq_from B d vs = (Ret (), q') \<and> pq_ok q' \<and> pq_bag q' = mset vs)
     \<and> (\<exists>q'. pq_from_queue B d q = (Ret (), q') \<and> pq_ok q' \<and> pq_bag q' = pq_bag q \<and> pq_comparator q' = pq_comparator q)
     \<and> (\<exists>q'. pq_assign_queue B d True q q = (Ret (), q') \<and> pq_bag q' = {#})"
proof (intro conjI)
  obtain k where "int (length vs) \<le> k" and k: "0 \<le> k"
    "\<And>q. initCapacity B d (int (length vs)) q = (Ret (), q\<lparr>pq_size := 0, pq_capacity := k, pq_elements := replicate (nat k) d\<rparr>)"
    by (rule initCapacity_effect [OF assms(1) of_nat_0_le_iff, of "length vs" d]) (rule that)
  let ?q = "\<lparr>pq_size = 0, pq_capacity = k, pq_elements = replicate (nat k) d, pq_comparator = Less_compare\<rparr>"
  have ok: "base_ok B \<and> pq_ok ?q \<and> pq_comparator ?q = Less_compare" and empty: "pq_bag ?q = {#}"
    using k(1) assms(1) less.comparator_axioms by (auto simp: pq_ok_def pq_wf_def heap_def pq_bag_def)
  have "pq_from B d vs = unit_result (add_each (pq_offer B d) False vs ?q)"
    by (simp add: pq_from_def getFromCollection_def pq_blank_def k(2))
  then show "\<exists>q'. pq_from B d vs = (Ret (), q') \<and> pq_ok q' \<and> pq_bag q' = mset vs"
    using pq.offer_each_effect [where d = d, OF ok, of False vs] empty by (auto simp: pq_queue_def unit_result_def)
next
  define n where "n = nat (pq_size q)"
  have wf: "pq_wf q" using assms(2) by (simp add: pq_ok_def)
  then have "0 \<le> pq_size q" by (simp add: pq_wf_def)
  then obtain k where k: "pq_size q \<le> k" "0 \<le> k"
    "\<And>q0. initCapacity B d (pq_size q) q0 = (Ret (), q0\<lparr>pq_size := 0, pq_capacity := k, pq_elements := replicate (nat k) d\<rparr>)"
    by (rule initCapacity_effect [OF assms(1)]) (rule that)
  have n: "n \<le> nat k" "n \<le> length (pq_elements q)" "pq_size q = int n" using k wf by (auto simp: n_def pq_wf_def)
  let ?a = "take n (pq_elements q) @ drop n (replicate (nat k) d)"
  have "pq_from_queue B d q = (Ret (), \<lparr>pq_size = pq_size q, pq_capacity = k, pq_elements = ?a, pq_comparator = pq_comparator q\<rparr>)"
    using k n(1,2) by (simp add: pq_from_queue_def getFromPriorityQueue_def Let_def pq_blank_def n_def [symmetric])
  moreover have "heap (pq_comparator q) n ?a = heap (pq_comparator q) n (pq_elements q)"
    by (rule heap_cong) (use n in \<open>simp add: nth_append\<close>)
  ultimately show "\<exists>q'. pq_from_queue B d q = (Ret (), q') \<and> pq_ok q' \<and> pq_bag q' = pq_bag q \<and> pq_comparator q' = pq_comparator q"
    using assms(2) k(1,2) n by (auto simp: pq_ok_def pq_wf_def pq_bag_def n_def [symmetric])
next
  show "\<exists>q'. pq_assign_queue B d True q q = (Ret (), q') \<and> pq_bag q' = {#}"
    by (simp add: pq_assign_queue_def getFromPriorityQueue_def initCapacity_def Let_def pq_bag_def)
qed

theorem pq_copies_witness:
  "(\<exists>q'. pq_from base_demo 0 [3, 1, 2 :: nat] = (Ret (), q') \<and> pq_ok q' \<and> pq_bag q' = mset [3, 1, 2])
     \<and> (\<exists>q'. pq_assign_queue base_demo 0 True pq_demo pq_demo = (Ret (), q') \<and> pq_bag q' = {#})"
  using pq_copies [OF base_demo_ok pq_demo_state(1), of 0 "[3, 1, 2]"] by blast

end
