(* ===== verification/Abstract_Set.thy ===== *)
theory Abstract_Set
  imports Collections
begin

text \<open>
  \<^verbatim>\<open>AbstractSet::removeAll\<close> (AbstractSet.h), which the views of the maps inherit, and what the maps of the library share:
  the part of an entry that the iterator of a view returns.
\<close>

section \<open>AbstractSet\<close>

text \<open>
  \<^verbatim>\<open>AbstractSet::removeAll\<close> walks over the smaller of the two collections: its own elements, with \<^verbatim>\<open>remove\<close> of the
  iterator, or those of the argument, with \<^verbatim>\<open>remove\<close> of the set.
\<close>

fun remove_each :: "('e \<Rightarrow> 'c \<Rightarrow> bool outcome \<times> 'c) \<Rightarrow> bool \<Rightarrow> 'e list \<Rightarrow> 'c \<Rightarrow> bool outcome \<times> 'c" where
  "remove_each remove result [] c = (Ret result, c)"
| "remove_each remove result (v # vs) c =
     (case remove v c of
        (Ret b, c') \<Rightarrow> remove_each remove (b \<or> result) vs c'
      | (Throw x, c') \<Rightarrow> (Throw x, c')
      | (Undefined f, c') \<Rightarrow> (Undefined f, c'))"

definition set_removeAll :: "nat \<Rightarrow> ('c, 'i, 'e) coll_ops \<Rightarrow> ('e \<Rightarrow> 'c \<Rightarrow> bool outcome \<times> 'c) \<Rightarrow> 'e list \<Rightarrow> 'c \<Rightarrow> (bool outcome \<times> 'c) option" where
  "set_removeAll n A remove collection c =
     (if v_size A c \<le> int (length collection)
      then with_iterator n A (\<lambda>v result. if v \<in> set collection then (Remove, True) else (Keep, result)) False c
      else Some (remove_each remove False collection c))"

section \<open>Iterators of a map\<close>

text \<open>The iterators over entries, keys and values differ in the part of the entry that \<^verbatim>\<open>next\<close> returns.\<close>

definition project :: "('k \<times> 'v \<Rightarrow> 'e) \<Rightarrow> ('k \<times> 'v) outcome \<times> 'i \<Rightarrow> 'e outcome \<times> 'i" where
  "project f r = (case r of (Ret e, it) \<Rightarrow> (Ret (f e), it) | (Throw x, it) \<Rightarrow> (Throw x, it) | (Undefined u, it) \<Rightarrow> (Undefined u, it))"

section \<open>What the sets rely on\<close>

text \<open>What \<^verbatim>\<open>AbstractSet\<close> relies on: its own \<^verbatim>\<open>remove\<close> takes the value out.\<close>

locale value_set = iterable A invar elems view
  for A :: "('c, 'i, 'e) coll_ops"
    and invar :: "'c \<Rightarrow> bool"
    and elems :: "'c \<Rightarrow> 'e list"
    and view :: "'c \<Rightarrow> 'i \<Rightarrow> 'e list \<Rightarrow> 'e list \<Rightarrow> bool \<Rightarrow> bool" +
  fixes remove :: "'e \<Rightarrow> 'c \<Rightarrow> bool outcome \<times> 'c"
  assumes remove_value_law: "invar c \<Longrightarrow> \<exists>c'. remove v c = (Ret (v \<in> set (elems c)), c') \<and> invar c'
      \<and> elems c' = filter (\<lambda>u. u \<noteq> v) (elems c)"
begin

lemma remove_each_effect:
  "invar c \<Longrightarrow> \<exists>c'. remove_each remove b vs c = (Ret (b \<or> (\<exists>u \<in> set (elems c). u \<in> set vs)), c') \<and> invar c'
     \<and> elems c' = filter (\<lambda>u. u \<notin> set vs) (elems c)"
proof (induction vs arbitrary: b c)
  case (Cons v vs)
  obtain c1 where c1: "remove v c = (Ret (v \<in> set (elems c)), c1)" "invar c1" "elems c1 = filter (\<lambda>u. u \<noteq> v) (elems c)"
    using remove_value_law [OF Cons.prems] by blast
  obtain c2 where "remove_each remove (v \<in> set (elems c) \<or> b) vs c1 = (Ret ((v \<in> set (elems c) \<or> b) \<or> (\<exists>u \<in> set (elems c1). u \<in> set vs)), c2)"
    "invar c2" "elems c2 = filter (\<lambda>u. u \<notin> set vs) (elems c1)"
    using Cons.IH [OF c1(2)] by blast
  with c1 show ?case by (auto intro!: filter_cong)
qed simp

text \<open>Both ways of \<open>removeAll\<close> do the same.\<close>

lemma set_removeAll_effect:
  assumes "invar c" and "length (elems c) < n"
  shows "\<exists>c'. set_removeAll n A remove vs c = Some (Ret (\<exists>u \<in> set (elems c). u \<in> set vs), c') \<and> invar c'
     \<and> elems c' = filter (\<lambda>u. u \<notin> set vs) (elems c)"
  using coll_removeAll_effect [OF assms, of vs] remove_each_effect [OF assms(1), of False vs]
  by (auto simp: set_removeAll_def coll_removeAll_def)

end

end
