(* ===== verification/Stl_Map.thy ===== *)
theory Stl_Map
  imports Abstract_Set
begin

text \<open>
  \<^verbatim>\<open>StlMap\<close> (StlMap.h) for the default comparator \<^verbatim>\<open>Less\<close>, with its iterators and the collection views of its entries, keys and
  values.
\<close>

section \<open>State\<close>

text \<open>
  The \<^verbatim>\<open>std::map\<close> is the list of its entries in the order of the keys.  \<open>sm_generation\<close> counts how often all its
  nodes were thrown away; an iterator remembers the count, so that a node it points to can be told from a later node
  with the same key.
\<close>

record ('k, 'v) stlmap =
  sm_entries :: "('k \<times> 'v) list"
  sm_modCount :: int
  sm_generation :: nat

text \<open>The operations of \<^verbatim>\<open>std::map\<close>: \<^verbatim>\<open>operator[]\<close> with an assignment, \<^verbatim>\<open>insert\<close> of a range, which keeps what is there, and \<^verbatim>\<open>erase\<close>.\<close>

fun std_assign :: "'k :: linorder \<Rightarrow> 'v \<Rightarrow> ('k \<times> 'v) list \<Rightarrow> ('k \<times> 'v) list" where
  "std_assign k v [] = [(k, v)]"
| "std_assign k v ((k', v') # xs) =
     (if k < k' then (k, v) # (k', v') # xs
      else if k = k' then (k, v) # xs
      else (k', v') # std_assign k v xs)"

definition std_insert :: "'k :: linorder \<Rightarrow> 'v \<Rightarrow> ('k \<times> 'v) list \<Rightarrow> ('k \<times> 'v) list" where
  "std_insert k v xs = (if map_of xs k = None then std_assign k v xs else xs)"

definition std_insert_range :: "('k :: linorder \<times> 'v) list \<Rightarrow> ('k \<times> 'v) list \<Rightarrow> ('k \<times> 'v) list" where
  "std_insert_range ys xs = fold (\<lambda>(k, v). std_insert k v) ys xs"

definition std_erase :: "'k \<Rightarrow> ('k \<times> 'v) list \<Rightarrow> ('k \<times> 'v) list" where
  "std_erase k xs = filter (\<lambda>(k', _). k' \<noteq> k) xs"

text \<open>The position \<^verbatim>\<open>begin()\<close> and the position after a key; \<open>None\<close> is \<^verbatim>\<open>end()\<close>.\<close>

definition std_begin :: "('k \<times> 'v) list \<Rightarrow> 'k option" where
  "std_begin xs = (case xs of [] \<Rightarrow> None | (k, _) # _ \<Rightarrow> Some k)"

definition std_next :: "'k :: linorder \<Rightarrow> ('k \<times> 'v) list \<Rightarrow> 'k option" where
  "std_next k xs = std_begin (dropWhile (\<lambda>(k', _). k' \<le> k) xs)"

section \<open>Operations\<close>

definition sm_new :: "('k, 'v) stlmap" where
  "sm_new = \<lparr>sm_entries = [], sm_modCount = 0, sm_generation = 0\<rparr>"

definition sm_clear :: "('k, 'v) stlmap \<Rightarrow> ('k, 'v) stlmap" where
  "sm_clear m = m\<lparr>sm_entries := [], sm_generation := Suc (sm_generation m)\<rparr>"

definition sm_containsKey :: "'k \<Rightarrow> ('k, 'v) stlmap \<Rightarrow> bool" where
  "sm_containsKey key m \<longleftrightarrow> sm_entries m \<noteq> [] \<and> map_of (sm_entries m) key \<noteq> None"

definition sm_containsValue :: "'v \<Rightarrow> ('k, 'v) stlmap \<Rightarrow> bool" where
  "sm_containsValue v m \<longleftrightarrow> sm_entries m \<noteq> [] \<and> list_ex (\<lambda>(_, v'). v' = v) (sm_entries m)"

definition sm_isEmpty :: "('k, 'v) stlmap \<Rightarrow> bool" where
  "sm_isEmpty m \<longleftrightarrow> sm_entries m = []"

definition sm_size :: "('k, 'v) stlmap \<Rightarrow> int" where
  "sm_size m = int (length (sm_entries m))"

definition sm_get :: "'k \<Rightarrow> ('k, 'v) stlmap \<Rightarrow> 'v outcome" where
  "sm_get key m =
     (case map_of (sm_entries m) key of
        None \<Rightarrow> Throw (NoSuchElementException ''Key does not exist in map'')
      | Some v \<Rightarrow> Ret v)"

definition sm_put :: "'k :: linorder \<Rightarrow> 'v \<Rightarrow> ('k, 'v) stlmap \<Rightarrow> bool \<times> ('k, 'v) stlmap" where
  "sm_put key v m =
     (sm_containsKey key m, m\<lparr>sm_entries := std_assign key v (sm_entries m), sm_modCount := sm_modCount m + 1\<rparr>)"

text \<open>\<open>put\<close> with a third argument that receives the old value, if there is one.\<close>

definition sm_put_old :: "'k :: linorder \<Rightarrow> 'v \<Rightarrow> 'v \<Rightarrow> ('k, 'v) stlmap \<Rightarrow> (bool \<times> 'v) \<times> ('k, 'v) stlmap" where
  "sm_put_old key v oldValue m =
     ((if sm_containsKey key m then (True, the (map_of (sm_entries m) key)) else (False, oldValue)),
      m\<lparr>sm_entries := std_assign key v (sm_entries m), sm_modCount := sm_modCount m + 1\<rparr>)"

definition sm_putAll_stl :: "('k :: linorder \<times> 'v) list \<Rightarrow> ('k, 'v) stlmap \<Rightarrow> ('k, 'v) stlmap" where
  "sm_putAll_stl other m =
     m\<lparr>sm_entries := std_insert_range other (sm_entries m), sm_modCount := sm_modCount m + 1\<rparr>"

text \<open>A map of another class is given by its entries in the order of its key set.\<close>

definition sm_putAll :: "('k :: linorder \<times> 'v) list \<Rightarrow> ('k, 'v) stlmap \<Rightarrow> ('k, 'v) stlmap" where
  "sm_putAll other m = fold (\<lambda>(key, v) m. snd (sm_put key v m)) other m"

definition sm_remove :: "'k \<Rightarrow> ('k, 'v) stlmap \<Rightarrow> 'v outcome \<times> ('k, 'v) stlmap" where
  "sm_remove key m =
     (case map_of (sm_entries m) key of
        None \<Rightarrow> (Throw (NoSuchElementException ''Key is not present in this Map.''), m)
      | Some v \<Rightarrow> (Ret v, m\<lparr>sm_entries := std_erase key (sm_entries m), sm_modCount := sm_modCount m + 1\<rparr>))"

text \<open>The source may be the map itself, which is then empty when its entries are read.\<close>

definition sm_copy_stl :: "bool \<Rightarrow> ('k :: linorder \<times> 'v) list \<Rightarrow> ('k, 'v) stlmap \<Rightarrow> ('k, 'v) stlmap" where
  "sm_copy_stl same_object other m =
     (let m = sm_clear m in m\<lparr>sm_entries := std_insert_range (if same_object then [] else other) (sm_entries m)\<rparr>)"

definition sm_copy :: "bool \<Rightarrow> ('k :: linorder \<times> 'v) list \<Rightarrow> ('k, 'v) stlmap \<Rightarrow> ('k, 'v) stlmap" where
  "sm_copy same_object other m = sm_putAll (if same_object then [] else other) (sm_clear m)"

definition sm_from_stl :: "('k :: linorder \<times> 'v) list \<Rightarrow> ('k, 'v) stlmap" where
  "sm_from_stl other = sm_copy_stl False other sm_new"

definition sm_from :: "('k :: linorder \<times> 'v) list \<Rightarrow> ('k, 'v) stlmap" where
  "sm_from other = sm_copy False other sm_new"

definition sm_equals_stl :: "('k, 'v) stlmap \<Rightarrow> ('k, 'v) stlmap \<Rightarrow> bool" where
  "sm_equals_stl m other \<longleftrightarrow> sm_entries m = sm_entries other"

text \<open>The keys of this map are looked up in both; \<open>get\<close> is the one of the source.\<close>

fun sm_equals_loop :: "'k list \<Rightarrow> ('k \<Rightarrow> 'v outcome) \<Rightarrow> ('k, 'v) stlmap \<Rightarrow> bool outcome" where
  "sm_equals_loop [] get m = Ret True"
| "sm_equals_loop (key # ks) get m =
     (if \<not> sm_containsKey key m then Ret False
      else
        (case sm_get key m of
           Ret v \<Rightarrow>
             (case get key of
                Ret v' \<Rightarrow> if v = v' then sm_equals_loop ks get m else Ret False
              | Throw x \<Rightarrow> Throw x
              | Undefined f \<Rightarrow> Undefined f)
         | Throw x \<Rightarrow> Throw x
         | Undefined f \<Rightarrow> Undefined f))"

definition sm_equals :: "('k \<Rightarrow> 'v outcome) \<Rightarrow> ('k, 'v) stlmap \<Rightarrow> bool outcome" where
  "sm_equals get m = sm_equals_loop (map fst (sm_entries m)) get m"

section \<open>Iterators\<close>

record 'k smiter =
  si_expected :: int
  si_future :: "'k option"
  si_current :: "'k option"
  si_generation :: nat

definition sm_iterator :: "('k, 'v) stlmap \<Rightarrow> 'k smiter" where
  "sm_iterator m = \<lparr>si_expected = sm_modCount m, si_future = std_begin (sm_entries m), si_current = None,
     si_generation = sm_generation m\<rparr>"

definition checkHasNext :: "'k smiter \<Rightarrow> bool" where
  "checkHasNext it \<longleftrightarrow> si_future it \<noteq> None"

definition sm_modified :: exn where
  "sm_modified = ConcurrentModificationException ''StlMap modified outside this iterator''"

text \<open>\<open>makeNext\<close>, and the entry that \<open>currentEntry\<close> points to after it.\<close>

definition makeNext :: "('k :: linorder, 'v) stlmap \<Rightarrow> 'k smiter \<Rightarrow> ('k \<times> 'v) outcome \<times> 'k smiter" where
  "makeNext m it =
     (if si_expected it \<noteq> sm_modCount m then (Throw sm_modified, it)
      else
        (case si_future it of
           None \<Rightarrow> (Throw (NoSuchElementException ''No next element''), it)
         | Some k \<Rightarrow>
             (case map_of (sm_entries m) k of
                Some v \<Rightarrow>
                  if si_generation it = sm_generation m
                  then (Ret (k, v), it\<lparr>si_current := Some k, si_future := std_next k (sm_entries m)\<rparr>)
                  else (Undefined UseAfterFree, it)
              | None \<Rightarrow> (Undefined UseAfterFree, it))))"

definition doRemove :: "('k, 'v) stlmap \<Rightarrow> 'k smiter \<Rightarrow> unit outcome \<times> ('k, 'v) stlmap \<times> 'k smiter" where
  "doRemove m it =
     (if si_expected it \<noteq> sm_modCount m then (Throw sm_modified, m, it)
      else
        (case si_current it of
           None \<Rightarrow> (Throw (IllegalStateException ''Remove called before call to next()''), m, it)
         | Some k \<Rightarrow>
             if si_generation it = sm_generation m then
               (Ret (), m\<lparr>sm_entries := std_erase k (sm_entries m), sm_modCount := sm_modCount m + 1\<rparr>,
                it\<lparr>si_current := None, si_expected := si_expected it + 1\<rparr>)
             else (Undefined UseAfterFree, m, it)))"

definition entry_next :: "('k :: linorder, 'v) stlmap \<Rightarrow> 'k smiter \<Rightarrow> ('k \<times> 'v) outcome \<times> 'k smiter" where
  "entry_next m it = project (\<lambda>e. e) (makeNext m it)"

definition key_next :: "('k :: linorder, 'v) stlmap \<Rightarrow> 'k smiter \<Rightarrow> 'k outcome \<times> 'k smiter" where
  "key_next m it = project fst (makeNext m it)"

definition value_next :: "('k :: linorder, 'v) stlmap \<Rightarrow> 'k smiter \<Rightarrow> 'v outcome \<times> 'k smiter" where
  "value_next m it = project snd (makeNext m it)"

definition const_sm_remove :: "('k, 'v) stlmap \<Rightarrow> 'k smiter \<Rightarrow> unit outcome \<times> ('k, 'v) stlmap \<times> 'k smiter" where
  "const_sm_remove m it = (Throw (UnsupportedOperationException ''Cannot write to a const Iterator.''), m, it)"

section \<open>Views\<close>

definition view_ops :: "(('k, 'v) stlmap \<Rightarrow> 'k smiter \<Rightarrow> 'e outcome \<times> 'k smiter) \<Rightarrow> (('k, 'v) stlmap, 'k smiter, 'e) coll_ops" where
  "view_ops next = \<lparr>v_size = sm_size, v_iterator = sm_iterator, v_hasNext = \<lambda>_. checkHasNext, v_next = next,
     v_remove = doRemove, v_add = coll_add, v_clear = \<lambda>m. (Ret (), sm_clear m)\<rparr>"

definition entrySet :: "(('k :: linorder, 'v) stlmap, 'k smiter, 'k \<times> 'v) coll_ops" where
  "entrySet = view_ops entry_next"

definition keySet :: "(('k :: linorder, 'v) stlmap, 'k smiter, 'k) coll_ops" where
  "keySet = view_ops key_next"

definition values_view :: "(('k :: linorder, 'v) stlmap, 'k smiter, 'v) coll_ops" where
  "values_view = view_ops value_next"

definition entrySet_contains :: "'k \<times> 'v \<Rightarrow> ('k, 'v) stlmap \<Rightarrow> bool" where
  "entrySet_contains e m \<longleftrightarrow> (case e of (k, v) \<Rightarrow> sm_containsKey k m \<and> sm_get k m = Ret v)"

definition entrySet_remove :: "'k \<times> 'v \<Rightarrow> ('k, 'v) stlmap \<Rightarrow> bool outcome \<times> ('k, 'v) stlmap" where
  "entrySet_remove e m =
     (case e of (k, v) \<Rightarrow> if sm_containsKey k m \<and> sm_get k m = Ret v then (Ret True, snd (sm_remove k m)) else (Ret False, m))"

definition keySet_contains :: "'k \<Rightarrow> ('k, 'v) stlmap \<Rightarrow> bool" where
  "keySet_contains k m \<longleftrightarrow> sm_containsKey k m"

definition keySet_remove :: "'k \<Rightarrow> ('k, 'v) stlmap \<Rightarrow> bool outcome \<times> ('k, 'v) stlmap" where
  "keySet_remove k m = (if sm_containsKey k m then (Ret True, snd (sm_remove k m)) else (Ret False, m))"

definition values_contains :: "'v \<Rightarrow> ('k, 'v) stlmap \<Rightarrow> bool" where
  "values_contains v m \<longleftrightarrow> sm_containsValue v m"

text \<open>The views of a constant map refuse to be changed; the texts of the messages are the arguments.\<close>

definition const_view_write :: "string \<Rightarrow> ('k, 'v) stlmap \<Rightarrow> 'r outcome \<times> ('k, 'v) stlmap" where
  "const_view_write msg m = (Throw (UnsupportedOperationException msg), m)"

section \<open>Sorted entries\<close>

lemma std_begin_None [simp]: "std_begin xs = None \<longleftrightarrow> xs = []"
  by (cases xs) (auto simp: std_begin_def)

definition sm_ok :: "('k :: linorder, 'v) stlmap \<Rightarrow> bool" where
  "sm_ok m \<longleftrightarrow> sorted_wrt (<) (map fst (sm_entries m))"

lemma std_assign_keys: "set (map fst (std_assign k v xs)) = insert k (set (map fst xs))"
  by (induction k v xs rule: std_assign.induct) auto

lemma std_assign_sorted: "sorted_wrt (<) (map fst xs) \<Longrightarrow> sorted_wrt (<) (map fst (std_assign k v xs))"
proof (induction k v xs rule: std_assign.induct)
  case (2 k v k' v' xs)
  then show ?case using std_assign_keys [of k v xs] by (auto dest: less_trans)
qed simp

lemma above_first: "sorted_wrt (<) (map fst ((k', v') # xs)) \<Longrightarrow> k \<le> k' \<Longrightarrow> map_of xs k = None" for k :: "'k :: linorder"
  by (force simp: map_of_eq_None_iff)

lemma std_assign_map_of: "sorted_wrt (<) (map fst xs) \<Longrightarrow> map_of (std_assign k v xs) = (map_of xs)(k \<mapsto> v)"
  by (induction k v xs rule: std_assign.induct) (auto simp: fun_eq_iff)

lemma std_erase_map_of: "map_of (std_erase k xs) = (map_of xs)(k := None)"
  by (induction xs) (auto simp: std_erase_def fun_eq_iff)

lemma std_erase_sorted: "sorted_wrt (<) (map fst xs) \<Longrightarrow> sorted_wrt (<) (map fst (std_erase k xs))"
  by (induction xs) (auto simp: std_erase_def)

lemma std_insert_range_effect:
  "sorted_wrt (<) (map fst xs) \<Longrightarrow> sorted_wrt (<) (map fst (std_insert_range ys xs))
     \<and> map_of (std_insert_range ys xs) = map_of ys ++ map_of xs"
proof (induction ys arbitrary: xs)
  case (Cons y ys)
  obtain k v where y: "y = (k, v)" by (cases y)
  have s: "sorted_wrt (<) (map fst (std_insert k v xs))" using Cons.prems by (simp add: std_insert_def std_assign_sorted)
  have m: "map_of (std_insert k v xs) = (if map_of xs k = None then (map_of xs)(k \<mapsto> v) else map_of xs)"
    using Cons.prems by (simp add: std_insert_def std_assign_map_of)
  have "map_of ys ++ map_of (std_insert k v xs) = (map_of ys)(k \<mapsto> v) ++ map_of xs"
    unfolding m by (auto simp: map_add_def fun_eq_iff split: option.split)
  with Cons.IH [OF s] y show ?case by (simp add: std_insert_range_def fun_upd_def)
qed (simp add: std_insert_range_def)

lemma sorted_entry:
  assumes "sorted_wrt (<) (map fst (ps @ (k, v) # rs))"
  shows "map_of (ps @ (k, v) # rs) k = Some v" and "std_next k (ps @ (k, v) # rs) = std_begin rs"
    and "std_erase k (ps @ (k, v) # rs) = ps @ rs"
proof -
  have below: "\<And>e. e \<in> set ps \<Longrightarrow> fst e < k" and above: "\<And>e. e \<in> set rs \<Longrightarrow> k < fst e"
    using assms by (auto simp: sorted_wrt_append)
  then have "map_of ps k = None" by (force simp: map_of_eq_None_iff)
  then show "map_of (ps @ (k, v) # rs) k = Some v" by (simp add: map_add_def)
  have "dropWhile (\<lambda>(k', _). k' \<le> k) (ps @ (k, v) # rs) = dropWhile (\<lambda>(k', _). k' \<le> k) rs"
    using below by (subst dropWhile_append2) (fastforce dest: less_imp_le)+
  also have "\<dots> = rs"
  proof (cases rs)
    case (Cons e es)
    then show ?thesis using above [of e] by (auto split: prod.splits)
  qed simp
  finally show "std_next k (ps @ (k, v) # rs) = std_begin rs" by (simp add: std_next_def)
  show "std_erase k (ps @ (k, v) # rs) = ps @ rs"
  proof -
    have "filter (\<lambda>(k', _). k' \<noteq> k) ps = ps" using below by (intro filter_True) fastforce
    moreover have "filter (\<lambda>(k', _). k' \<noteq> k) rs = rs" using above by (intro filter_True) fastforce
    ultimately show ?thesis by (simp add: std_erase_def)
  qed
qed

section \<open>The views as collections\<close>

definition sm_view :: "('k \<times> 'v \<Rightarrow> 'e) \<Rightarrow> ('k :: linorder, 'v) stlmap \<Rightarrow> 'k smiter \<Rightarrow> 'e list \<Rightarrow> 'e list \<Rightarrow> bool \<Rightarrow> bool" where
  "sm_view f m it xs ys b \<longleftrightarrow> sm_ok m
     \<and> (\<exists>ps rs. sm_entries m = ps @ rs \<and> xs = map f ps \<and> ys = map f rs \<and> si_future it = std_begin rs
          \<and> (b \<longrightarrow> ps \<noteq> [] \<and> si_current it = Some (fst (last ps))))
     \<and> si_expected it = sm_modCount m \<and> si_generation it = sm_generation m"

lemma iterable_view:
  "iterable (view_ops (\<lambda>m it. project f (makeNext m it))) sm_ok (\<lambda>m. map f (sm_entries m)) (sm_view f)"
proof
  fix m :: "('a :: linorder, 'b) stlmap" and it xs ys x y b
  let ?A = "view_ops (\<lambda>m it. project f (makeNext m it))"
  show "sm_ok m \<Longrightarrow> v_size ?A m = int (length (map f (sm_entries m)))" by (simp add: view_ops_def sm_size_def)
  show "sm_view f m it xs ys b \<Longrightarrow> sm_ok m \<and> map f (sm_entries m) = xs @ ys" by (auto simp: sm_view_def)
  show "sm_ok m \<Longrightarrow> sm_view f m (v_iterator ?A m) [] (map f (sm_entries m)) False"
    by (simp add: sm_view_def view_ops_def sm_iterator_def)
  show "sm_view f m it xs ys b \<Longrightarrow> v_hasNext ?A m it \<longleftrightarrow> ys \<noteq> []"
    using std_begin_None by (fastforce simp: sm_view_def view_ops_def checkHasNext_def)
  show "\<exists>it'. v_next ?A m it = (Ret y, it') \<and> sm_view f m it' (xs @ [y]) ys True" if v: "sm_view f m it xs (y # ys) b"
  proof -
    obtain ps k v rs where e: "sm_entries m = ps @ (k, v) # rs" "xs = map f ps" "y = f (k, v)" "ys = map f rs" "si_future it = Some k"
      using v by (auto simp: sm_view_def std_begin_def)
    have ok: "sm_ok m" "si_expected it = sm_modCount m" "si_generation it = sm_generation m" using v by (simp_all add: sm_view_def)
    note S = sorted_entry [of ps k v rs, folded e(1), OF ok(1) [unfolded sm_ok_def]]
    let ?it = "it\<lparr>si_current := Some k, si_future := std_begin rs\<rparr>"
    have "v_next ?A m it = (Ret y, ?it)" using S ok e(3,5) by (simp add: view_ops_def makeNext_def project_def)
    moreover have "sm_view f m ?it (xs @ [y]) ys True"
      unfolding sm_view_def by (intro conjI exI [of _ "ps @ [(k, v)]"] exI [of _ rs]) (use ok e in auto)
    ultimately show ?thesis by blast
  qed
  show "\<exists>c' it'. v_remove ?A m it = (Ret (), c', it') \<and> sm_view f c' it' xs ys False" if v: "sm_view f m it (xs @ [x]) ys True"
  proof -
    obtain ps rs where e: "sm_entries m = ps @ rs" "xs @ [x] = map f ps" "ys = map f rs" "si_future it = std_begin rs" "ps \<noteq> []"
      "si_current it = Some (fst (last ps))"
      using v by (auto simp: sm_view_def)
    obtain qs k v where ps: "ps = qs @ [(k, v)]" using e(5) by (metis append_butlast_last_id prod.exhaust)
    have ok: "sm_ok m" "si_expected it = sm_modCount m" "si_generation it = sm_generation m" using v by (simp_all add: sm_view_def)
    have s: "sm_entries m = qs @ (k, v) # rs" using e(1) ps by simp
    note S = sorted_entry [of qs k v rs, folded s, OF ok(1) [unfolded sm_ok_def]]
    let ?m = "m\<lparr>sm_entries := qs @ rs, sm_modCount := sm_modCount m + 1\<rparr>"
    let ?it = "it\<lparr>si_current := None, si_expected := si_expected it + 1\<rparr>"
    have "v_remove ?A m it = (Ret (), ?m, ?it)" using S(3) ok e(6) ps by (simp add: view_ops_def doRemove_def)
    moreover have "sm_ok ?m" using ok(1) std_erase_sorted [of "sm_entries m" k] S(3) by (simp add: sm_ok_def)
    then have "sm_view f ?m ?it xs ys False"
      unfolding sm_view_def by (intro conjI exI [of _ qs] exI [of _ rs]) (use ok e ps in auto)
    ultimately show ?thesis by blast
  qed
qed

lemma views:
  "entrySet = view_ops (\<lambda>m it. project (\<lambda>e. e) (makeNext m it))" "keySet = view_ops (\<lambda>m it. project fst (makeNext m it))"
  "values_view = view_ops (\<lambda>m it. project snd (makeNext m it))"
  by (simp_all add: entrySet_def keySet_def values_view_def entry_next_def [abs_def] key_next_def [abs_def] value_next_def [abs_def])

interpretation sm_values: iterable values_view sm_ok "\<lambda>m. map snd (sm_entries m)" "sm_view snd"
  unfolding views by (rule iterable_view)

lemma sm_lookup: "sm_ok m \<Longrightarrow> sm_containsKey k m \<longleftrightarrow> k \<in> fst ` set (sm_entries m)"
  by (auto simp: sm_containsKey_def map_of_eq_None_iff)

lemma sm_entry: "sm_ok m \<Longrightarrow> map_of (sm_entries m) k = Some v \<longleftrightarrow> (k, v) \<in> set (sm_entries m)"
  unfolding sm_ok_def using strict_sorted_iff [of "map fst (sm_entries m)"] by (auto intro: map_of_is_SomeI dest: map_of_SomeD)

lemma sm_remove_effect:
  assumes "sm_ok m" and "(k, v) \<in> set (sm_entries m)"
  shows "\<exists>m'. sm_remove k m = (Ret v, m') \<and> sm_ok m' \<and> sm_entries m' = std_erase k (sm_entries m)"
  using assms sm_entry [OF assms(1), of k v] std_erase_sorted by (auto simp: sm_remove_def sm_ok_def)

interpretation sm_keys: value_set keySet sm_ok "\<lambda>m. map fst (sm_entries m)" "sm_view fst" keySet_remove
proof -
  have "\<exists>m'. keySet_remove k m = (Ret (k \<in> set (map fst (sm_entries m))), m') \<and> sm_ok m'
      \<and> map fst (sm_entries m') = filter (\<lambda>u. u \<noteq> k) (map fst (sm_entries m))" if ok: "sm_ok m" for k :: 'a and m :: "('a, 'b) stlmap"
  proof (cases "k \<in> fst ` set (sm_entries m)")
    case True
    then obtain v where "(k, v) \<in> set (sm_entries m)" by auto
    with sm_remove_effect [OF ok this] True sm_lookup [OF ok, of k] show ?thesis
      by (auto simp: keySet_remove_def std_erase_def filter_map comp_def case_prod_unfold)
  next
    case False
    with sm_lookup [OF ok, of k] ok show ?thesis by (force simp: keySet_remove_def intro!: filter_True [symmetric])
  qed
  then show "value_set keySet sm_ok (\<lambda>m. map fst (sm_entries m)) (sm_view fst) (keySet_remove :: 'a \<Rightarrow> ('a, 'b) stlmap \<Rightarrow> _)"
    unfolding views by (intro value_set.intro value_set_axioms.intro iterable_view)
qed

interpretation sm_set: value_set entrySet sm_ok sm_entries "sm_view (\<lambda>e. e)" entrySet_remove
proof -
  have "\<exists>m'. entrySet_remove e m = (Ret (e \<in> set (sm_entries m)), m') \<and> sm_ok m'
      \<and> sm_entries m' = filter (\<lambda>u. u \<noteq> e) (sm_entries m)" if ok: "sm_ok m" for e :: "'a \<times> 'b" and m :: "('a, 'b) stlmap"
  proof -
    obtain k v where e: "e = (k, v)" by (cases e)
    have c: "sm_containsKey k m \<and> sm_get k m = Ret v \<longleftrightarrow> e \<in> set (sm_entries m)"
      using sm_entry [OF ok, of k v] e by (auto simp: sm_containsKey_def sm_get_def split: option.split)
    show ?thesis
    proof (cases "e \<in> set (sm_entries m)")
      case True
      then obtain ps rs where s: "sm_entries m = ps @ (k, v) # rs" using e by (auto dest: split_list)
      have "std_erase k (sm_entries m) = ps @ rs" using sorted_entry(3) [of ps k v rs] ok s by (simp add: sm_ok_def)
      moreover have "distinct (sm_entries m)"
        using ok strict_sorted_iff [of "map fst (sm_entries m)"] by (auto simp: sm_ok_def distinct_map)
      then have "filter (\<lambda>u. u \<noteq> e) ps = ps" "filter (\<lambda>u. u \<noteq> e) rs = rs" using s e by (auto intro!: filter_True)
      ultimately have "std_erase k (sm_entries m) = filter (\<lambda>u. u \<noteq> e) (sm_entries m)" using s e by simp
      with sm_remove_effect [OF ok, of k v] True c e show ?thesis by (auto simp: entrySet_remove_def)
    next
      case False
      then have "filter (\<lambda>u. u \<noteq> e) (sm_entries m) = sm_entries m" by (auto intro!: filter_True)
      with False c e ok show ?thesis by (auto simp: entrySet_remove_def)
    qed
  qed
  then show "value_set entrySet sm_ok sm_entries (sm_view (\<lambda>e. e)) (entrySet_remove :: 'a \<times> 'b \<Rightarrow> ('a, 'b) stlmap \<Rightarrow> _)"
    using iterable_view [of "\<lambda>e :: 'a \<times> 'b. e"] unfolding views by (intro value_set.intro value_set_axioms.intro) simp_all
qed

section \<open>Properties\<close>

datatype ('k, 'v) sm_op =
    Put 'k 'v
  | Erase 'k
  | PutAll "('k \<times> 'v) list"
  | PutAllStl "('k \<times> 'v) list"
  | Copy "('k \<times> 'v) list"
  | CopyStl "('k \<times> 'v) list"
  | Clear_map
  | EraseEntries "('k \<times> 'v) list"

text \<open>A call on the map, and what it makes of a partial function.\<close>

fun sm_apply :: "('k :: linorder, 'v) sm_op \<Rightarrow> ('k, 'v) stlmap \<Rightarrow> ('k, 'v) stlmap" where
  "sm_apply (Put k v) m = snd (sm_put k v m)"
| "sm_apply (Erase k) m = snd (sm_remove k m)"
| "sm_apply (PutAll xs) m = sm_putAll xs m"
| "sm_apply (PutAllStl xs) m = sm_putAll_stl xs m"
| "sm_apply (Copy xs) m = sm_copy False xs m"
| "sm_apply (CopyStl xs) m = sm_copy_stl False xs m"
| "sm_apply Clear_map m = sm_clear m"
| "sm_apply (EraseEntries es) m =
     (case set_removeAll (Suc (length (sm_entries m))) entrySet entrySet_remove es m of Some (_, m') \<Rightarrow> m' | None \<Rightarrow> m)"

fun map_apply :: "('k, 'v) sm_op \<Rightarrow> ('k \<rightharpoonup> 'v) \<Rightarrow> ('k \<rightharpoonup> 'v)" where
  "map_apply (Put k v) f = f(k \<mapsto> v)"
| "map_apply (Erase k) f = f(k := None)"
| "map_apply (PutAll xs) f = f ++ map_of (rev xs)"
| "map_apply (PutAllStl xs) f = map_of xs ++ f"
| "map_apply (Copy xs) f = map_of (rev xs)"
| "map_apply (CopyStl xs) f = map_of xs"
| "map_apply Clear_map f = Map.empty"
| "map_apply (EraseEntries es) f = (\<lambda>k. case f k of Some v \<Rightarrow> if (k, v) \<in> set es then None else Some v | None \<Rightarrow> None)"

lemma sm_put_effect:
  "sm_ok m \<Longrightarrow> sm_ok (snd (sm_put k v m)) \<and> map_of (sm_entries (snd (sm_put k v m))) = (map_of (sm_entries m))(k \<mapsto> v)"
  by (simp add: sm_put_def sm_ok_def std_assign_sorted std_assign_map_of)

lemma sm_putAll_effect:
  "sm_ok m \<Longrightarrow> sm_ok (sm_putAll xs m) \<and> map_of (sm_entries (sm_putAll xs m)) = map_of (sm_entries m) ++ map_of (rev xs)"
proof (induction xs arbitrary: m)
  case (Cons x xs)
  obtain k v where x: "x = (k, v)" by (cases x)
  note P = sm_put_effect [OF Cons.prems, of k v]
  have "(map_of (sm_entries m))(k \<mapsto> v) ++ map_of (rev xs) = map_of (sm_entries m) ++ ([k \<mapsto> v] ++ map_of (rev xs))"
    by (simp add: map_add_assoc)
  with Cons.IH [of "snd (sm_put k v m)"] P x show ?case by (simp add: sm_putAll_def fun_upd_def)
qed (simp add: sm_putAll_def)

lemma sm_clear_effect: "sm_ok (sm_clear m)" "sm_entries (sm_clear m) = []"
  by (simp_all add: sm_clear_def sm_ok_def)

lemma sm_apply_step:
  assumes "sm_ok m"
  shows "sm_ok (sm_apply x m) \<and> map_of (sm_entries (sm_apply x m)) = map_apply x (map_of (sm_entries m))"
proof (cases x)
  case (Put k v)
  then show ?thesis using sm_put_effect [OF assms] by simp
next
  case (Erase k)
  then show ?thesis using assms std_erase_sorted [of "sm_entries m" k]
    by (auto simp: sm_remove_def sm_ok_def std_erase_map_of fun_upd_idem split: option.split)
next
  case (PutAll xs)
  then show ?thesis using sm_putAll_effect [OF assms] by simp
next
  case (PutAllStl xs)
  then show ?thesis using std_insert_range_effect [of "sm_entries m" xs] assms by (simp add: sm_putAll_stl_def sm_ok_def)
next
  case (Copy xs)
  then show ?thesis using sm_putAll_effect [OF sm_clear_effect(1), of xs m] by (simp add: sm_copy_def sm_clear_effect)
next
  case (CopyStl xs)
  then show ?thesis using std_insert_range_effect [of "[]" xs] by (simp add: sm_copy_stl_def Let_def sm_ok_def sm_clear_effect)
next
  case Clear_map
  then show ?thesis by (simp add: sm_clear_effect)
next
  case (EraseEntries es)
  obtain m' where m': "set_removeAll (Suc (length (sm_entries m))) entrySet entrySet_remove es m
      = Some (Ret (\<exists>u \<in> set (sm_entries m). u \<in> set es), m')" "sm_ok m'" "sm_entries m' = filter (\<lambda>u. u \<notin> set es) (sm_entries m)"
    using sm_set.set_removeAll_effect [OF assms, of "Suc (length (sm_entries m))" es] by auto
  have sub: "map_of (sm_entries m') k = Some v \<longleftrightarrow> map_of (sm_entries m) k = Some v \<and> (k, v) \<notin> set es" for k v
    using sm_entry [OF m'(2), of k v] sm_entry [OF assms, of k v] m'(3) by simp
  have "map_of (sm_entries m') k = map_apply x (map_of (sm_entries m)) k" for k
  proof (cases "map_of (sm_entries m') k")
    case None
    then show ?thesis using sub [of k] EraseEntries by (auto split: option.split)
  next
    case (Some v)
    then show ?thesis using sub [of k v] EraseEntries by simp
  qed
  then show ?thesis using m' EraseEntries by (auto simp: fun_eq_iff)
qed

lemma sm_apply_steps:
  "sm_ok m \<Longrightarrow> sm_ok (fold sm_apply xs m) \<and> map_of (sm_entries (fold sm_apply xs m)) = fold map_apply xs (map_of (sm_entries m))"
  by (induction xs arbitrary: m) (simp_all add: sm_apply_step)

lemma sm_new_ok: "sm_ok sm_new" "sm_entries sm_new = []"
  by (simp_all add: sm_ok_def sm_new_def)


text \<open>
  The two overloads of putAll differ: with the entries of another StlMap the values that are already there stay, with those
  of a map of another class they are replaced, as calling put for each entry would.
\<close>

theorem sm_putAll_overloads:
  assumes "sm_ok m" and "map_of (sm_entries m) k = Some v" and "map_of other k = Some w" and "distinct (map fst other)"
  shows "sm_get k (sm_putAll_stl other m) = Ret v \<and> sm_get k (sm_putAll other m) = Ret w"
proof -
  have "map_of (sm_entries (sm_putAll_stl other m)) = map_of other ++ map_of (sm_entries m)"
    using std_insert_range_effect [of "sm_entries m" other] assms(1) by (simp add: sm_putAll_stl_def sm_ok_def)
  moreover have "map_of (rev other) = map_of other"
    using assms(4) by (metis map_of_inject_set set_rev distinct_rev rev_map)
  ultimately show ?thesis using sm_putAll_effect [OF assms(1), of other] assms(2,3) by (simp add: sm_get_def map_add_def)
qed

definition sm_demo :: "(nat, nat) stlmap" where
  "sm_demo = \<lparr>sm_entries = [(1, 10), (2, 20)], sm_modCount = 2, sm_generation = 0\<rparr>"

lemma sm_demo_ok: "sm_ok sm_demo" "sm_entries sm_demo = [(1, 10), (2, 20)]" "sm_modCount sm_demo = 2" "sm_generation sm_demo = 0"
  by (simp_all add: sm_demo_def sm_ok_def)

theorem sm_putAll_overloads_witness:
  "sm_get 2 (sm_putAll_stl [(2, 7)] sm_demo) = Ret 20 \<and> sm_get 2 (sm_putAll [(2, 7)] sm_demo) = Ret 7"
  by (rule sm_putAll_overloads) (simp_all add: sm_demo_ok)

text \<open>
  An iterator of a map that is changed by put or remove notices it and throws.  A map that is cleared does
  not count as changed: the next step of the iterator follows a pointer into a node that was freed.
\<close>

theorem sm_clear_dangling:
  assumes "sm_ok m" and "sm_entries m \<noteq> []" and "map_of (sm_entries m) k = Some w"
  shows "fst (makeNext (snd (sm_put k v m)) (sm_iterator m)) = Throw sm_modified
     \<and> fst (makeNext (snd (sm_remove k m)) (sm_iterator m)) = Throw sm_modified
     \<and> fst (makeNext (sm_clear m) (sm_iterator m)) = Undefined UseAfterFree"
proof -
  obtain k' where "std_begin (sm_entries m) = Some k'" using assms(2) by (cases "std_begin (sm_entries m)") auto
  then show ?thesis using assms(3) by (simp add: makeNext_def sm_iterator_def sm_put_def sm_remove_def sm_clear_def)
qed

theorem sm_clear_dangling_witness:
  "fst (makeNext (sm_clear sm_demo) (sm_iterator sm_demo)) = Undefined UseAfterFree"
  using sm_clear_dangling [OF sm_demo_ok(1), of 1 10 5] by (simp add: sm_demo_ok)

text \<open>
  equals with a map of another class is not symmetric: it is true when the other map has the same value for every key of
  this one, whatever else it holds, and throws instead of being false when the other map lacks the first key of this one.
\<close>

theorem sm_equals_one_sided:
  assumes "sm_ok m" and get: "\<And>k. get k = (case other k of Some v \<Rightarrow> Ret v | None \<Rightarrow> Throw x)"
  shows "(sm_equals get m = Ret True \<longleftrightarrow> map_of (sm_entries m) \<subseteq>\<^sub>m other)
     \<and> (sm_entries m = (k, v) # es \<and> other k = None \<longrightarrow> sm_equals get m = Throw x)"
proof -
  have loop: "sm_equals_loop ks get m = Ret True \<longleftrightarrow> (\<forall>k \<in> set ks. other k = map_of (sm_entries m) k)"
    if "set ks \<subseteq> fst ` set (sm_entries m)" for ks
    using that
  proof (induction ks)
    case (Cons k ks)
    then have "k \<in> fst ` set (sm_entries m)" by simp
    then obtain v where v: "(k, v) \<in> set (sm_entries m)" by auto
    then have "map_of (sm_entries m) k = Some v" "sm_containsKey k m" "sm_get k m = Ret v"
      using sm_entry [OF assms(1), of k v] sm_lookup [OF assms(1), of k] by (force simp: sm_get_def)+
    with Cons get [of k] show ?case by (auto split: option.splits)
  qed simp
  have "sm_equals get m = Ret True \<longleftrightarrow> map_of (sm_entries m) \<subseteq>\<^sub>m other"
    using loop [of "map fst (sm_entries m)"] by (auto simp: sm_equals_def map_le_def dom_map_of_conv_image_fst)
  moreover have "sm_equals get m = Throw x" if e: "sm_entries m = (k, v) # es" and "other k = None"
    using that get [of k] by (simp add: sm_equals_def sm_containsKey_def sm_get_def)
  ultimately show ?thesis by blast
qed

theorem sm_equals_one_sided_witness:
  "sm_equals (\<lambda>k. case [1 \<mapsto> 10, 2 \<mapsto> 20, 3 \<mapsto> 30] k of Some v \<Rightarrow> Ret v | None \<Rightarrow> Throw sm_modified) sm_demo = Ret True"
  using sm_equals_one_sided [OF sm_demo_ok(1), where other = "[1 \<mapsto> 10, 2 \<mapsto> 20, 3 \<mapsto> 30]" and x = sm_modified, OF refl]
  by (auto simp: sm_demo_ok map_le_def)

text \<open>
  removeAll on the key set of a map keeps exactly the entries whose keys are not in the argument, whichever of the two
  collections it walks over, and ends.
\<close>

theorem sm_keySet_removeAll:
  assumes "sm_ok m" and "length (sm_entries m) < n"
  shows "\<exists>m'. set_removeAll n keySet keySet_remove ks m = Some (Ret (\<exists>u \<in> set (map fst (sm_entries m)). u \<in> set ks), m')
     \<and> sm_ok m' \<and> map fst (sm_entries m') = filter (\<lambda>u. u \<notin> set ks) (map fst (sm_entries m))"
  by (rule sm_keys.set_removeAll_effect) (use assms in simp_all)

theorem sm_keySet_removeAll_witness:
  "\<exists>m'. set_removeAll 3 keySet keySet_remove [2] sm_demo = Some (Ret True, m') \<and> sm_ok m' \<and> map fst (sm_entries m') = [1]"
  using sm_keySet_removeAll [OF sm_demo_ok(1), of 3 "[2]"] by (simp add: sm_demo_ok)

end
