(* ===== verification/Hash_Map.thy ===== *)
theory Hash_Map
  imports Abstract_Set Complex_Main "HOL-Library.Multiset"
begin

unbundle bit_operations_syntax

text \<open>
  \<^verbatim>\<open>HashMap\<close> (HashMap.h) without its iterators and views, the parts of \<^verbatim>\<open>ArrayPointer\<close> (ArrayPointer.h) it uses,
  and the hash functions of HashCode.h.
\<close>

section \<open>ArrayPointer\<close>

text \<open>
  An array of pointers on a 32-bit machine.  \<^verbatim>\<open>new\<close> throws for a negative length and for an array of more than
  \<^verbatim>\<open>PTRDIFF_MAX\<close> bytes, and \<^verbatim>\<open>throw ex\<close> makes a plain \<^verbatim>\<open>std::exception\<close> of it.  For length 0 no array is
  allocated, and copying the pointer, which every use in \<^verbatim>\<open>HashMap\<close> does first, follows a NULL pointer.  The number that
  replaces \<^verbatim>\<open>%d\<close> in the message is left out.
\<close>

definition ap_new :: "u32 \<Rightarrow> 'a option list outcome" where
  "ap_new n =
     (if n = 0 then Undefined NullDereference
      else if sint n < 0 \<or> 2 ^ 31 \<le> 4 * sint n then Throw (OtherException ''std::exception'')
      else Ret (replicate (unat n) None))"

definition ap_get :: "'a list \<Rightarrow> int \<Rightarrow> 'a outcome" where
  "ap_get xs i =
     (if xs = [] then Throw (NullPointerException ''ArrayPointer operator& - Pointee is NULL.'')
      else if i < 0 \<or> int (length xs) \<le> i
      then Throw (IndexOutOfBoundsException ''Array Index %d is out of bounds for this array.'')
      else Ret (xs ! nat i))"

section \<open>Hash functions\<close>

text \<open>\<^verbatim>\<open>int\<close> and \<^verbatim>\<open>unsigned int\<close> have 32 bits, \<^verbatim>\<open>char\<close> is signed.\<close>

definition hash_bool :: "bool \<Rightarrow> u32" where
  "hash_bool arg = (if arg then 1231 else 1237)"

definition hash_char :: "8 word \<Rightarrow> u32" where
  "hash_char arg = signed arg"

definition hash_uchar :: "8 word \<Rightarrow> u32" where
  "hash_uchar arg = unsigned arg"

definition hash_short :: "16 word \<Rightarrow> u32" where
  "hash_short arg = signed arg"

definition hash_ushort :: "16 word \<Rightarrow> u32" where
  "hash_ushort arg = unsigned arg"

definition hash_int :: "u32 \<Rightarrow> u32" where
  "hash_int arg = arg"

definition hash_long_long :: "64 word \<Rightarrow> u32" where
  "hash_long_long arg = unsigned (arg XOR drop_bit 32 arg)"

definition hash_string :: "8 word list \<Rightarrow> u32" where
  "hash_string arg = foldl (\<lambda>h c. 31 * h + hash_char c) 0 arg"

text \<open>A pointer is hashed with the function of what it points to, NULL is 0.\<close>

definition hash_pointer :: "('a \<Rightarrow> u32) \<Rightarrow> 'a option \<Rightarrow> u32" where
  "hash_pointer hash arg = (case arg of Some v \<Rightarrow> hash v | None \<Rightarrow> 0)"

section \<open>State\<close>

text \<open>
  \<open>hm_heap\<close> holds the entries that are allocated, \<open>hm_fresh\<close> is the next address \<^verbatim>\<open>new\<close> returns; an address below it with no
  entry has been freed.  The load factor is the value of the \<^verbatim>\<open>float\<close>, which is exact; \<^verbatim>\<open>elementCount\<close>, \<^verbatim>\<open>threshold\<close> and
  \<^verbatim>\<open>modCount\<close> are unbounded.  The hash function is the argument \<open>hash\<close> of the operations.
\<close>

record ('k, 'v) hnode =
  origKeyHash :: u32
  hn_key :: 'k
  hn_value :: 'v
  hn_next :: "addr option"

type_synonym ('k, 'v) hheap = "addr \<Rightarrow> ('k, 'v) hnode option"

record ('k, 'v) hashmap =
  elementCount :: int
  elementData :: "addr option list"
  hm_modCount :: int
  loadFactor :: rat
  threshold :: int
  hm_heap :: "('k, 'v) hheap"
  hm_fresh :: addr

text \<open>
  A loop along the \<^verbatim>\<open>next\<close> pointers that has followed more pointers than entries were ever allocated is in a cycle: this
  bounds the loops below.
\<close>

abbreviation chain_fuel :: "('k, 'v) hashmap \<Rightarrow> nat" where
  "chain_fuel m \<equiv> Suc (hm_fresh m)"

section \<open>Construction and the table\<close>

definition computeThreshold :: "('k, 'v) hashmap \<Rightarrow> unit outcome \<times> ('k, 'v) hashmap" where
  "computeThreshold m =
     (let t = \<lfloor>of_nat (length (elementData m)) * loadFactor m\<rfloor> in
      if t < 2 ^ 31 then (Ret (), m\<lparr>threshold := t\<rparr>) else (Undefined ConversionOverflow, m))"

definition calculateCapacity :: "u32 \<Rightarrow> u32" where
  "calculateCapacity x =
     (if push_bit 30 1 \<le>s x then push_bit 30 1
      else if x = 0 then 16
      else
        (let x = x - 1;
             x = x OR signed_drop_bit 1 x;
             x = x OR signed_drop_bit 2 x;
             x = x OR signed_drop_bit 4 x;
             x = x OR signed_drop_bit 8 x;
             x = x OR signed_drop_bit 16 x
         in x + 1))"

definition hm_blank :: "('k, 'v) hashmap" where
  "hm_blank = \<lparr>elementCount = 0, elementData = [], hm_modCount = 0, loadFactor = 3 / 4, threshold = 0,
     hm_heap = (\<lambda>_. None), hm_fresh = 0\<rparr>"

definition hm_allocate :: "u32 \<Rightarrow> ('k, 'v) hashmap \<Rightarrow> unit outcome \<times> ('k, 'v) hashmap" where
  "hm_allocate capacity m = and_then (ap_new capacity, m) (\<lambda>a m. (Ret (), m\<lparr>elementData := a\<rparr>))"

definition hm_new :: "unit outcome \<times> ('k, 'v) hashmap" where
  "hm_new = and_then (hm_allocate (calculateCapacity 12) hm_blank) (\<lambda>_. computeThreshold)"

definition hm_new_capacity :: "u32 \<Rightarrow> unit outcome \<times> ('k, 'v) hashmap" where
  "hm_new_capacity capacity =
     (if 0 \<le>s capacity
      then and_then (hm_allocate (calculateCapacity capacity) hm_blank) (\<lambda>_. computeThreshold)
      else (Throw (IllegalArgumentException ''Invalid capacity configuration''), hm_blank))"

definition hm_new_loadFactor :: "u32 \<Rightarrow> rat \<Rightarrow> unit outcome \<times> ('k, 'v) hashmap" where
  "hm_new_loadFactor capacity lf =
     (if 0 \<le>s capacity \<and> lf > 0
      then and_then (hm_allocate (calculateCapacity capacity) hm_blank)
             (\<lambda>_ m. computeThreshold (m\<lparr>loadFactor := lf\<rparr>))
      else (Throw (IllegalArgumentException ''Invalid configuration''), hm_blank))"

text \<open>The bucket of a hash value, and the head of its chain.\<close>

definition bucket_index :: "u32 \<Rightarrow> ('k, 'v) hashmap \<Rightarrow> int" where
  "bucket_index hash m = sint (hash AND (of_nat (length (elementData m)) - 1))"

definition bucket :: "int \<Rightarrow> ('k, 'v) hashmap \<Rightarrow> addr option outcome" where
  "bucket index m = ap_get (elementData m) index"

section \<open>Loops along a chain\<close>

fun find_loop :: "nat \<Rightarrow> ('k, 'v) hheap \<Rightarrow> 'k \<Rightarrow> u32 \<Rightarrow> addr option \<Rightarrow> addr option outcome" where
  "find_loop 0 h key keyHash entry = Undefined InfiniteLoop"
| "find_loop (Suc n) h key keyHash entry =
     (case entry of
        None \<Rightarrow> Ret None
      | Some a \<Rightarrow>
          (case h a of
             None \<Rightarrow> Undefined UseAfterFree
           | Some e \<Rightarrow>
               if origKeyHash e \<noteq> keyHash \<or> key \<noteq> hn_key e then find_loop n h key keyHash (hn_next e) else Ret (Some a)))"

definition findKeyEntry :: "'k \<Rightarrow> int \<Rightarrow> u32 \<Rightarrow> ('k, 'v) hashmap \<Rightarrow> addr option outcome" where
  "findKeyEntry key index keyHash m =
     (case bucket index m of
        Ret entry \<Rightarrow> find_loop (chain_fuel m) (hm_heap m) key keyHash entry
      | Throw x \<Rightarrow> Throw x
      | Undefined f \<Rightarrow> Undefined f)"

definition getEntry :: "('k \<Rightarrow> u32) \<Rightarrow> 'k \<Rightarrow> ('k, 'v) hashmap \<Rightarrow> addr option outcome" where
  "getEntry hash key m = findKeyEntry key (bucket_index (hash key) m) (hash key) m"

fun value_loop :: "nat \<Rightarrow> ('k, 'v) hheap \<Rightarrow> 'v \<Rightarrow> addr option \<Rightarrow> bool outcome" where
  "value_loop 0 h v entry = Undefined InfiniteLoop"
| "value_loop (Suc n) h v entry =
     (case entry of
        None \<Rightarrow> Ret False
      | Some a \<Rightarrow>
          (case h a of
             None \<Rightarrow> Undefined UseAfterFree
           | Some e \<Rightarrow> if v = hn_value e then Ret True else value_loop n h v (hn_next e)))"

fun value_buckets :: "nat \<Rightarrow> ('k, 'v) hheap \<Rightarrow> 'v \<Rightarrow> addr option list \<Rightarrow> bool outcome" where
  "value_buckets n h v [] = Ret False"
| "value_buckets n h v (p # ps) =
     (case value_loop n h v p of
        Ret False \<Rightarrow> value_buckets n h v ps
      | r \<Rightarrow> r)"

text \<open>The loops of the destructor and of \<^verbatim>\<open>clear\<close>: read the next pointer, then delete.\<close>

fun free_chain :: "nat \<Rightarrow> ('k, 'v) hheap \<Rightarrow> addr option \<Rightarrow> ('k, 'v) hheap outcome" where
  "free_chain 0 h entry = Undefined InfiniteLoop"
| "free_chain (Suc n) h entry =
     (case entry of
        None \<Rightarrow> Ret h
      | Some temp \<Rightarrow>
          (case h temp of
             None \<Rightarrow> Undefined UseAfterFree
           | Some e \<Rightarrow> free_chain n (h(temp := None)) (hn_next e)))"

fun free_buckets :: "nat \<Rightarrow> ('k, 'v) hheap \<Rightarrow> addr option list \<Rightarrow> ('k, 'v) hheap outcome" where
  "free_buckets n h [] = Ret h"
| "free_buckets n h (p # ps) =
     (case free_chain n h p of
        Ret h \<Rightarrow> free_buckets n h ps
      | r \<Rightarrow> r)"

text \<open>One chain is moved to the new table, each entry to the head of its new chain.\<close>

fun rehash_chain :: "nat \<Rightarrow> u32 \<Rightarrow> ('k, 'v) hheap \<Rightarrow> addr option list \<Rightarrow> addr option
    \<Rightarrow> (('k, 'v) hheap \<times> addr option list) outcome" where
  "rehash_chain 0 len h newData entry = Undefined InfiniteLoop"
| "rehash_chain (Suc n) len h newData entry =
     (case entry of
        None \<Rightarrow> Ret (h, newData)
      | Some a \<Rightarrow>
          (case h a of
             None \<Rightarrow> Undefined UseAfterFree
           | Some e \<Rightarrow>
               (let index = sint (origKeyHash e AND (len - 1)) in
                case ap_get newData index of
                  Ret p \<Rightarrow> rehash_chain n len (h(a \<mapsto> e\<lparr>hn_next := p\<rparr>)) (newData[nat index := Some a]) (hn_next e)
                | Throw x \<Rightarrow> Throw x
                | Undefined f \<Rightarrow> Undefined f)))"

fun rehash_buckets :: "nat \<Rightarrow> u32 \<Rightarrow> ('k, 'v) hheap \<Rightarrow> addr option list \<Rightarrow> addr option list
    \<Rightarrow> (('k, 'v) hheap \<times> addr option list) outcome" where
  "rehash_buckets n len h newData [] = Ret (h, newData)"
| "rehash_buckets n len h newData (p # ps) =
     (case rehash_chain n len h newData p of
        Ret (h, newData) \<Rightarrow> rehash_buckets n len h newData ps
      | r \<Rightarrow> r)"

section \<open>Operations\<close>

definition rehash :: "u32 \<Rightarrow> ('k, 'v) hashmap \<Rightarrow> unit outcome \<times> ('k, 'v) hashmap" where
  "rehash capacity m =
     (let len = calculateCapacity (if capacity = 0 then 1 else push_bit 1 capacity) in
      and_then (ap_new len, m) (\<lambda>newData m.
      and_then (rehash_buckets (chain_fuel m) len (hm_heap m) newData (elementData m), m) (\<lambda>(h, newData) m.
      computeThreshold (m\<lparr>hm_heap := h, elementData := newData\<rparr>))))"

definition rehash_table :: "('k, 'v) hashmap \<Rightarrow> unit outcome \<times> ('k, 'v) hashmap" where
  "rehash_table m = rehash (of_nat (length (elementData m))) m"

text \<open>\<open>d\<close> is the value \<^verbatim>\<open>V()\<close>.\<close>

definition createHashedEntry :: "'k \<Rightarrow> int \<Rightarrow> u32 \<Rightarrow> 'v \<Rightarrow> ('k, 'v) hashmap \<Rightarrow> addr outcome \<times> ('k, 'v) hashmap" where
  "createHashedEntry key index hash d m =
     (let a = hm_fresh m in
      and_then (bucket index m, m) (\<lambda>p m.
        (Ret a, m\<lparr>hm_fresh := Suc a, hm_heap := (hm_heap m)(a \<mapsto> \<lparr>origKeyHash = hash, hn_key = key, hn_value = d, hn_next = p\<rparr>),
                 elementData := (elementData m)[nat index := Some a]\<rparr>)))"

definition createEntry :: "('k \<Rightarrow> u32) \<Rightarrow> 'k \<Rightarrow> int \<Rightarrow> 'v \<Rightarrow> ('k, 'v) hashmap \<Rightarrow> addr outcome \<times> ('k, 'v) hashmap" where
  "createEntry hash key index v m = createHashedEntry key index (hash key) v m"

definition setValue :: "addr \<Rightarrow> 'v \<Rightarrow> ('k, 'v) hashmap \<Rightarrow> unit outcome \<times> ('k, 'v) hashmap" where
  "setValue a v m =
     (case hm_heap m a of
        None \<Rightarrow> (Undefined UseAfterFree, m)
      | Some e \<Rightarrow> (Ret (), m\<lparr>hm_heap := (hm_heap m)(a \<mapsto> e\<lparr>hn_value := v\<rparr>)\<rparr>))"

definition getValue :: "addr \<Rightarrow> ('k, 'v) hashmap \<Rightarrow> 'v outcome" where
  "getValue a m = (case hm_heap m a of None \<Rightarrow> Undefined UseAfterFree | Some e \<Rightarrow> Ret (hn_value e))"

definition putImpl_old :: "('k \<Rightarrow> u32) \<Rightarrow> 'v \<Rightarrow> 'k \<Rightarrow> 'v \<Rightarrow> 'v \<Rightarrow> ('k, 'v) hashmap \<Rightarrow> (bool \<times> 'v) outcome \<times> ('k, 'v) hashmap" where
  "putImpl_old hash d key v oldValue m =
     (let h = hash key; index = bucket_index h m in
      and_then (findKeyEntry key index h m, m) (\<lambda>entry m.
        (case entry of
           None \<Rightarrow>
             and_then (createHashedEntry key index h d (m\<lparr>hm_modCount := hm_modCount m + 1\<rparr>)) (\<lambda>entry m.
             let m = m\<lparr>elementCount := elementCount m + 1\<rparr> in
             and_then (if elementCount m > threshold m then rehash_table m else (Ret (), m)) (\<lambda>_ m.
             and_then (setValue entry v m) (\<lambda>_ m. (Ret (False, oldValue), m))))
         | Some entry \<Rightarrow>
             and_then (getValue entry m, m) (\<lambda>old m.
             and_then (setValue entry v m) (\<lambda>_ m. (Ret (True, old), m))))))"

definition putImpl :: "('k \<Rightarrow> u32) \<Rightarrow> 'v \<Rightarrow> 'k \<Rightarrow> 'v \<Rightarrow> ('k, 'v) hashmap \<Rightarrow> bool outcome \<times> ('k, 'v) hashmap" where
  "putImpl hash d key v m = and_then (putImpl_old hash d key v d m) (\<lambda>(replaced, _) m. (Ret replaced, m))"

definition hm_put :: "('k \<Rightarrow> u32) \<Rightarrow> 'v \<Rightarrow> 'k \<Rightarrow> 'v \<Rightarrow> ('k, 'v) hashmap \<Rightarrow> bool outcome \<times> ('k, 'v) hashmap" where
  "hm_put hash d key v m = putImpl hash d key v m"

definition hm_put_old :: "('k \<Rightarrow> u32) \<Rightarrow> 'v \<Rightarrow> 'k \<Rightarrow> 'v \<Rightarrow> 'v \<Rightarrow> ('k, 'v) hashmap \<Rightarrow> (bool \<times> 'v) outcome \<times> ('k, 'v) hashmap" where
  "hm_put_old hash d key v oldValue m = putImpl_old hash d key v oldValue m"

text \<open>A map that is the argument of an operation is the list of the entries its iterator returns.\<close>

fun put_each :: "('k \<Rightarrow> u32) \<Rightarrow> 'v \<Rightarrow> ('k \<times> 'v) list \<Rightarrow> ('k, 'v) hashmap \<Rightarrow> unit outcome \<times> ('k, 'v) hashmap" where
  "put_each hash d [] m = (Ret (), m)"
| "put_each hash d ((key, v) # es) m = and_then (putImpl hash d key v m) (\<lambda>_ m. put_each hash d es m)"

definition putAllImpl :: "('k \<Rightarrow> u32) \<Rightarrow> 'v \<Rightarrow> ('k \<times> 'v) list \<Rightarrow> ('k, 'v) hashmap \<Rightarrow> unit outcome \<times> ('k, 'v) hashmap" where
  "putAllImpl hash d other m =
     (let capacity = elementCount m + int (length other) in
      and_then (if capacity > threshold m then rehash (of_int capacity) m else (Ret (), m)) (\<lambda>_ m.
      put_each hash d other m))"

definition hm_putAll :: "('k \<Rightarrow> u32) \<Rightarrow> 'v \<Rightarrow> ('k \<times> 'v) list \<Rightarrow> ('k, 'v) hashmap \<Rightarrow> unit outcome \<times> ('k, 'v) hashmap" where
  "hm_putAll hash d other m = (if other \<noteq> [] then putAllImpl hash d other m else (Ret (), m))"

definition hm_from :: "('k \<Rightarrow> u32) \<Rightarrow> 'v \<Rightarrow> ('k \<times> 'v) list \<Rightarrow> unit outcome \<times> ('k, 'v) hashmap" where
  "hm_from hash d other =
     and_then (hm_allocate (calculateCapacity (of_nat (length other))) hm_blank) (\<lambda>_ m.
     and_then (computeThreshold m) (\<lambda>_ m. hm_putAll hash d other m))"

text \<open>The destructor: what is left of the heap.\<close>

definition hm_destroy :: "('k, 'v) hashmap \<Rightarrow> ('k, 'v) hheap outcome" where
  "hm_destroy m = free_buckets (chain_fuel m) (hm_heap m) (elementData m)"

definition hm_clear :: "('k, 'v) hashmap \<Rightarrow> unit outcome \<times> ('k, 'v) hashmap" where
  "hm_clear m =
     (if elementCount m > 0 then
        and_then (free_buckets (chain_fuel m) (hm_heap m) (elementData m), m\<lparr>elementCount := 0\<rparr>) (\<lambda>h m.
          (Ret (), m\<lparr>hm_heap := h, elementData := replicate (length (elementData m)) None, hm_modCount := hm_modCount m + 1\<rparr>))
      else (Ret (), m))"

definition hm_isEmpty :: "('k, 'v) hashmap \<Rightarrow> bool" where
  "hm_isEmpty m \<longleftrightarrow> elementCount m = 0"

definition hm_size :: "('k, 'v) hashmap \<Rightarrow> int" where
  "hm_size m = elementCount m"

definition hm_containsKey :: "('k \<Rightarrow> u32) \<Rightarrow> 'k \<Rightarrow> ('k, 'v) hashmap \<Rightarrow> bool outcome" where
  "hm_containsKey hash key m = map_outcome (\<lambda>entry. entry \<noteq> None) (getEntry hash key m)"

definition hm_containsValue :: "'v \<Rightarrow> ('k, 'v) hashmap \<Rightarrow> bool outcome" where
  "hm_containsValue v m = value_buckets (chain_fuel m) (hm_heap m) v (elementData m)"

definition hm_get :: "('k \<Rightarrow> u32) \<Rightarrow> 'k \<Rightarrow> ('k, 'v) hashmap \<Rightarrow> 'v outcome" where
  "hm_get hash key m =
     (case getEntry hash key m of
        Ret (Some entry) \<Rightarrow> getValue entry m
      | Ret None \<Rightarrow> Throw (NoSuchElementException ''The specified key is not present in the Map'')
      | Throw x \<Rightarrow> Throw x
      | Undefined f \<Rightarrow> Undefined f)"

text \<open>\<^verbatim>\<open>removeEntry(key)\<close>: the loop delivers the entry and its predecessor.\<close>

fun remove_loop :: "nat \<Rightarrow> ('k, 'v) hheap \<Rightarrow> 'k \<Rightarrow> u32 \<Rightarrow> addr option \<Rightarrow> addr option
    \<Rightarrow> (addr option \<times> addr option) outcome" where
  "remove_loop 0 h key hash prev current = Undefined InfiniteLoop"
| "remove_loop (Suc n) h key hash prev current =
     (case current of
        None \<Rightarrow> Ret (prev, None)
      | Some a \<Rightarrow>
          (case h a of
             None \<Rightarrow> Undefined UseAfterFree
           | Some e \<Rightarrow>
               if \<not> (origKeyHash e = hash \<and> key = hn_key e) then remove_loop n h key hash current (hn_next e)
               else Ret (prev, current)))"

text \<open>\<^verbatim>\<open>elementData[index] = p\<close> and \<^verbatim>\<open>a->next = p\<close>.\<close>

definition set_head :: "int \<Rightarrow> addr option \<Rightarrow> ('k, 'v) hashmap \<Rightarrow> unit outcome \<times> ('k, 'v) hashmap" where
  "set_head index p m = and_then (bucket index m, m) (\<lambda>_ m. (Ret (), m\<lparr>elementData := (elementData m)[nat index := p]\<rparr>))"

definition set_next :: "addr \<Rightarrow> addr option \<Rightarrow> ('k, 'v) hashmap \<Rightarrow> unit outcome \<times> ('k, 'v) hashmap" where
  "set_next a p m =
     (case hm_heap m a of
        None \<Rightarrow> (Undefined UseAfterFree, m)
      | Some e \<Rightarrow> (Ret (), m\<lparr>hm_heap := (hm_heap m)(a \<mapsto> e\<lparr>hn_next := p\<rparr>)\<rparr>))"

definition get_node :: "addr \<Rightarrow> ('k, 'v) hashmap \<Rightarrow> ('k, 'v) hnode outcome" where
  "get_node a m = (case hm_heap m a of None \<Rightarrow> Undefined UseAfterFree | Some e \<Rightarrow> Ret e)"

definition delete_node :: "addr \<Rightarrow> ('k, 'v) hashmap \<Rightarrow> unit outcome \<times> ('k, 'v) hashmap" where
  "delete_node a m =
     (case hm_heap m a of
        None \<Rightarrow> (Undefined DoubleDelete, m)
      | Some _ \<Rightarrow> (Ret (), m\<lparr>hm_heap := (hm_heap m)(a := None)\<rparr>))"

definition count_removal :: "('k, 'v) hashmap \<Rightarrow> ('k, 'v) hashmap" where
  "count_removal m = m\<lparr>hm_modCount := hm_modCount m + 1, elementCount := elementCount m - 1\<rparr>"

definition removeEntry_key :: "('k \<Rightarrow> u32) \<Rightarrow> 'k \<Rightarrow> ('k, 'v) hashmap \<Rightarrow> addr option outcome \<times> ('k, 'v) hashmap" where
  "removeEntry_key hash key m =
     (let h = hash key; index = bucket_index h m in
      and_then (bucket index m, m) (\<lambda>current m.
      and_then (remove_loop (chain_fuel m) (hm_heap m) key h None current, m) (\<lambda>(prev, current) m.
        (case current of
           None \<Rightarrow> (Ret None, m)
         | Some a \<Rightarrow>
             and_then (get_node a m, m) (\<lambda>e m.
             and_then (case prev of None \<Rightarrow> set_head index (hn_next e) m | Some l \<Rightarrow> set_next l (hn_next e) m) (\<lambda>_ m.
             (Ret (Some a), count_removal m)))))))"

text \<open>\<^verbatim>\<open>removeEntry(entry)\<close>: the loop looks for the predecessor.\<close>

fun pred_loop :: "nat \<Rightarrow> ('k, 'v) hheap \<Rightarrow> addr \<Rightarrow> addr option \<Rightarrow> addr outcome" where
  "pred_loop 0 h entry current = Undefined InfiniteLoop"
| "pred_loop (Suc n) h entry current =
     (case current of
        None \<Rightarrow> Undefined NullDereference
      | Some a \<Rightarrow>
          (case h a of
             None \<Rightarrow> Undefined UseAfterFree
           | Some e \<Rightarrow> if hn_next e \<noteq> Some entry then pred_loop n h entry (hn_next e) else Ret a))"

definition removeEntry :: "addr \<Rightarrow> ('k, 'v) hashmap \<Rightarrow> unit outcome \<times> ('k, 'v) hashmap" where
  "removeEntry entry m =
     and_then (get_node entry m, m) (\<lambda>e m.
     let index = bucket_index (origKeyHash e) m in
     and_then (bucket index m, m) (\<lambda>current m.
     and_then (if current = Some entry then set_head index (hn_next e) m
               else and_then (pred_loop (chain_fuel m) (hm_heap m) entry current, m) (\<lambda>l m. set_next l (hn_next e) m)) (\<lambda>_ m.
     and_then (delete_node entry m) (\<lambda>_ m. (Ret (), count_removal m)))))"

definition hm_remove :: "('k \<Rightarrow> u32) \<Rightarrow> 'k \<Rightarrow> ('k, 'v) hashmap \<Rightarrow> 'v outcome \<times> ('k, 'v) hashmap" where
  "hm_remove hash key m =
     and_then (removeEntry_key hash key m) (\<lambda>entry m.
       (case entry of
          None \<Rightarrow> (Throw (NoSuchElementException ''Specified key not present in the Map.''), m)
        | Some a \<Rightarrow>
            and_then (getValue a m, m) (\<lambda>oldValue m.
            and_then (delete_node a m) (\<lambda>_ m. (Ret oldValue, m)))))"

text \<open>The source of \<^verbatim>\<open>copy\<close> may be the map itself, which is empty when its entries are read.\<close>

definition hm_copy :: "('k \<Rightarrow> u32) \<Rightarrow> 'v \<Rightarrow> bool \<Rightarrow> ('k \<times> 'v) list \<Rightarrow> ('k, 'v) hashmap \<Rightarrow> unit outcome \<times> ('k, 'v) hashmap" where
  "hm_copy hash d same_object other m =
     (let capacity = calculateCapacity (of_nat (length other)) in
      and_then (hm_clear m) (\<lambda>_ m.
      and_then (if sint capacity > int (length (elementData m)) then hm_allocate capacity m else (Ret (), m)) (\<lambda>_ m.
      and_then (computeThreshold m) (\<lambda>_ m.
      hm_putAll hash d (if same_object then [] else other) m))))"

section \<open>The capacity is a power of two\<close>

text \<open>
  \<open>k\<close> is the highest bit of a number.  Once its \<open>s\<close> bits from \<open>k\<close> downwards are set, or-ing the number with itself shifted
  by \<open>s\<close> doubles the run of bits that are set.
\<close>

definition bits_set :: "nat \<Rightarrow> nat \<Rightarrow> u32 \<Rightarrow> bool" where
  "bits_set k s x \<longleftrightarrow> (\<forall>i. bit x i \<longrightarrow> i \<le> k) \<and> (\<forall>i. i \<le> k \<and> k < i + s \<longrightarrow> bit x i)"

lemma bits_set_double:
  assumes "bits_set k s x" and "k < 31" and "t = s + s"
  shows "bits_set k t (x OR signed_drop_bit s x)"
  unfolding bits_set_def assms(3)
proof (intro conjI allI impI)
  have top: "\<not> bit x 31" using assms by (auto simp: bits_set_def)
  fix i
  show "i \<le> k" if "bit (x OR signed_drop_bit s x) i"
    using that assms(1) top by (auto simp: bits_set_def bit_or_iff bit_signed_drop_bit_iff split: if_splits)
  assume i: "i \<le> k \<and> k < i + (s + s)"
  show "bit (x OR signed_drop_bit s x) i"
  proof (cases "k < i + s")
    case True
    then show ?thesis using assms(1) i by (simp add: bits_set_def bit_or_iff)
  next
    case False
    then have "bit x (s + i)" using assms(1) i by (simp add: bits_set_def add.commute)
    then show ?thesis using False assms(2) by (auto simp: bit_or_iff bit_signed_drop_bit_iff)
  qed
qed

lemma highest_bit:
  assumes "(y :: u32) \<noteq> 0"
  obtains k where "bits_set k 1 y" and "2 ^ k \<le> unat y" and "unat y < 2 ^ Suc k"
proof -
  define S where "S = {i. bit y i}"
  have "S \<subseteq> {..<32}" using bit_imp_le_length by (fastforce simp: S_def)
  then have fin: "finite S" using finite_subset by blast
  have "S \<noteq> {}" using assms by (auto simp: S_def bit_eq_iff)
  with fin have k: "Max S \<in> S" "\<And>i. i \<in> S \<Longrightarrow> i \<le> Max S" by simp_all
  then have "bits_set (Max S) 1 y" by (auto simp: bits_set_def S_def less_Suc_eq_le dest: le_antisym)
  moreover have "2 ^ Max S \<le> unat y"
  proof (rule ccontr)
    assume "\<not> ?thesis"
    then have "\<not> bit (unat y) (Max S)" by (simp add: bit_iff_odd)
    with k(1) show False by (simp add: S_def bit_unsigned_iff)
  qed
  moreover have "take_bit (Suc (Max S)) (unat y) = unat y"
  proof (rule bit_eqI)
    fix i
    show "bit (take_bit (Suc (Max S)) (unat y)) i \<longleftrightarrow> bit (unat y) i"
      using k(2) [of i] by (auto simp: bit_take_bit_iff bit_unsigned_iff S_def less_Suc_eq_le)
  qed
  then have "unat y < 2 ^ Suc (Max S)" by (metis take_bit_nat_less_exp)
  ultimately show thesis by (rule that)
qed

lemma all_bits_set:
  assumes "bits_set k 32 x" and "k < 31"
  shows "unat (x + 1) = 2 ^ Suc k"
proof -
  have "x = mask (Suc k)"
    using assms by (intro bit_eqI) (auto simp: bits_set_def bit_mask_iff less_Suc_eq_le)
  then have "x + 1 = 2 ^ Suc k" by (simp add: mask_eq_exp_minus_1)
  moreover have "(2 :: nat) ^ Suc k < 2 ^ 32" using assms(2) by (intro power_strict_increasing) simp_all
  then have "unat (of_nat (2 ^ Suc k) :: u32) = 2 ^ Suc k" by (rule unat_of_nat_u32)
  ultimately show ?thesis by simp
qed

lemma sint_of_nat_u32: "n < 2 ^ 31 \<Longrightarrow> sint (of_nat n :: u32) = int n"
  by (simp add: signed_of_nat signed_take_bit_int_eq_self)

lemma sint_unat_u32:
  assumes "unat (x :: u32) < 2 ^ 31"
  shows "sint x = int (unat x)"
  using sint_of_nat_u32 [OF assms] by simp

lemma calculateCapacity_power:
  assumes "0 < n" and "n \<le> 2 ^ 30"
  obtains k where "k \<le> 30" and "unat (calculateCapacity (of_nat n)) = 2 ^ k" and "n \<le> 2 ^ k" and "2 ^ k < 2 * n"
proof -
  define x :: u32 where "x = of_nat n"
  have n: "unat x = n" "sint x = int n" using assms sint_of_nat_u32 [of n] unat_of_nat_u32 [of n] by (simp_all add: x_def)
  have p: "push_bit 30 1 = (2 ^ 30 :: u32)" "sint (2 ^ 30 :: u32) = 2 ^ 30"
    using sint_of_nat_u32 [of "2 ^ 30"] by (simp_all add: push_bit_of_1)
  consider "n = 2 ^ 30" | "n = 1" | "1 < n" "n < 2 ^ 30" using assms by fastforce
  then show thesis
  proof cases
    case 1
    then have "calculateCapacity x = 2 ^ 30" using p n by (simp add: calculateCapacity_def word_sle_eq)
    then show ?thesis using that [of 30] 1 unat_of_nat_u32 [of "2 ^ 30"] by (simp add: x_def)
  next
    case 2
    then have "x = 1" by (simp add: x_def)
    then have "calculateCapacity x = 1" using p by (simp add: calculateCapacity_def word_sle_eq)
    then show ?thesis using that [of 0] 2 by (simp add: x_def)
  next
    case 3
    have x: "x \<noteq> 0" using n 3 by auto
    then have x: "x \<noteq> 0" "unat (x - 1) = n - 1" using n by (simp_all add: unat_minus_one)
    then have y: "x - 1 \<noteq> 0" using 3 by auto
    obtain k where k: "bits_set k 1 (x - 1)" "2 ^ k \<le> unat (x - 1)" "unat (x - 1) < 2 ^ Suc k"
      using highest_bit [OF y] .
    have "(2 :: nat) ^ k < 2 ^ 30" using k(2) x(2) 3 by linarith
    then have k30: "k < 30" by (rule power_less_imp_less_exp [rotated]) simp
    have "\<not> push_bit 30 1 \<le>s x" using p n 3 by (simp add: word_sle_eq)
    then have c: "unat (calculateCapacity x) = 2 ^ Suc k"
      unfolding calculateCapacity_def Let_def using x(1) k30
      by (simp only: if_False) (intro all_bits_set bits_set_double k(1), simp_all)
    show ?thesis by (rule that [of "Suc k"]) (use k30 c k x 3 in \<open>simp_all add: x_def\<close>)
  qed
qed

section \<open>Chains\<close>

text \<open>The entries reached from a pointer, as a relation and as a function.\<close>

fun hchain :: "('k, 'v) hheap \<Rightarrow> addr option \<Rightarrow> addr list \<Rightarrow> bool" where
  "hchain h p [] \<longleftrightarrow> p = None"
| "hchain h p (a # as) \<longleftrightarrow> p = Some a \<and> (\<exists>e. h a = Some e \<and> hchain h (hn_next e) as)"

fun follow :: "nat \<Rightarrow> ('k, 'v) hheap \<Rightarrow> addr option \<Rightarrow> addr list" where
  "follow 0 h p = []"
| "follow (Suc n) h p =
     (case p of
        None \<Rightarrow> []
      | Some a \<Rightarrow> (case h a of None \<Rightarrow> [] | Some e \<Rightarrow> a # follow n h (hn_next e)))"

lemma hchain_None [simp]: "hchain h None as \<longleftrightarrow> as = []"
  by (cases as) auto

lemma hchain_follow: "hchain h p as \<Longrightarrow> length as \<le> n \<Longrightarrow> follow n h p = as"
proof (induction as arbitrary: p n)
  case Nil
  then show ?case by (cases n) auto
next
  case (Cons a as)
  then show ?case by (cases n) auto
qed

lemma hchain_frame: "hchain h p as \<Longrightarrow> (\<And>a. a \<in> set as \<Longrightarrow> h' a = h a) \<Longrightarrow> hchain h' p as"
  by (induction as arbitrary: p) auto

lemma hchain_upd: "hchain h p as \<Longrightarrow> a \<notin> set as \<Longrightarrow> hchain (h(a := x)) p as"
  by (erule hchain_frame) (simp only: fun_upd_apply, metis)

lemma hchain_data:
  assumes "hchain h p as" and "h a = Some e" and "hn_next e' = hn_next e"
  shows "hchain (h(a \<mapsto> e')) p as"
  using assms(1) by (induction as arbitrary: p) (auto simp: assms(2,3))

text \<open>The loops over a chain.\<close>

lemma find_loop_chain:
  "hchain h p as \<Longrightarrow> length as < n \<Longrightarrow>
   find_loop n h key keyHash p
     = Ret (find (\<lambda>a. \<exists>e. h a = Some e \<and> origKeyHash e = keyHash \<and> hn_key e = key) as)"
proof (induction as arbitrary: p n)
  case Nil
  then show ?case by (cases n) auto
next
  case (Cons a as)
  then show ?case by (cases n) auto
qed

lemma value_loop_chain:
  "hchain h p as \<Longrightarrow> length as < n \<Longrightarrow> value_loop n h v p = Ret (\<exists>a \<in> set as. \<exists>e. h a = Some e \<and> hn_value e = v)"
proof (induction as arbitrary: p n)
  case Nil
  then show ?case by (cases n) auto
next
  case (Cons a as)
  then show ?case by (cases n) auto
qed

lemma free_chain_chain:
  "hchain h p as \<Longrightarrow> length as < n \<Longrightarrow> distinct as \<Longrightarrow> free_chain n h p = Ret (\<lambda>a. if a \<in> set as then None else h a)"
proof (induction as arbitrary: p n h)
  case Nil
  then show ?case by (cases n) auto
next
  case (Cons a as)
  then obtain e m where e: "p = Some a" "h a = Some e" "hchain h (hn_next e) as" and m: "n = Suc m" by (cases n) auto
  have "hchain (h(a := None)) (hn_next e) as" using e(3) Cons.prems(3) by (intro hchain_upd) auto
  then have "free_chain m (h(a := None)) (hn_next e) = Ret (\<lambda>b. if b \<in> set as then None else (h(a := None)) b)"
    by (rule Cons.IH) (use Cons.prems(2,3) m in \<open>simp_all add: fun_upd_def\<close>)
  moreover have "(\<lambda>b. if b \<in> set as then None else (h(a := None)) b) = (\<lambda>b. if b \<in> set (a # as) then None else h b)" by auto
  ultimately show ?case using e(1,2) m by (simp only: free_chain.simps option.case)
qed

text \<open>The entry that the loop of \<^verbatim>\<open>removeEntry(key)\<close> stops at, with its predecessor.\<close>

lemma remove_loop_chain:
  assumes "hchain h p (as @ a # bs)" and "h a = Some e" and "origKeyHash e = hash" and "hn_key e = key"
    and "\<And>b f. b \<in> set as \<Longrightarrow> h b = Some f \<Longrightarrow> hn_key f \<noteq> key" and "length as < n"
  shows "remove_loop n h key hash prev p = Ret (if as = [] then prev else Some (List.last as), Some a)"
  using assms(1,5,6)
proof (induction as arbitrary: p n prev)
  case Nil
  then show ?case using assms(2-4) by (cases n) auto
next
  case (Cons b as)
  then obtain f m where f: "p = Some b" "h b = Some f" "hchain h (hn_next f) (as @ a # bs)" and m: "n = Suc m"
    by (cases n) auto
  have "hn_key f \<noteq> key" using Cons.prems(2) f(2) by auto
  moreover have "remove_loop m h key hash p (hn_next f) = Ret (if as = [] then p else Some (List.last as), Some a)"
    by (rule Cons.IH [OF f(3)]) (use Cons.prems(2,3) m in auto)
  ultimately show ?case using m f by simp
qed

lemma remove_loop_none:
  assumes "hchain h p as" and "\<And>b f. b \<in> set as \<Longrightarrow> h b = Some f \<Longrightarrow> hn_key f \<noteq> key" and "length as < n"
  shows "\<exists>l. remove_loop n h key hash prev p = Ret (l, None)"
  using assms
proof (induction as arbitrary: p n prev)
  case Nil
  then show ?case by (cases n) auto
next
  case (Cons b as)
  then obtain f m where f: "p = Some b" "h b = Some f" "hchain h (hn_next f) as" and m: "n = Suc m"
    by (cases n) auto
  have "hn_key f \<noteq> key" using Cons.prems(2) f(2) by auto
  moreover have "\<exists>l. remove_loop m h key hash p (hn_next f) = Ret (l, None)"
    by (rule Cons.IH [OF f(3)]) (use Cons.prems(2,3) m in auto)
  ultimately show ?case using m f by simp
qed

lemma pred_loop_chain:
  assumes "hchain h p (as @ b # a # bs)" and "distinct (as @ b # a # bs)" and "length as < n"
  shows "pred_loop n h a p = Ret b"
  using assms
proof (induction as arbitrary: p n)
  case Nil
  then show ?case by (cases n) auto
next
  case (Cons c as)
  then obtain f m where f: "p = Some c" "h c = Some f" "hchain h (hn_next f) (as @ b # a # bs)" and m: "n = Suc m"
    by (cases n) auto
  have "hn_next f \<noteq> Some a" using f(3) Cons.prems(2) by (cases as) auto
  with Cons.IH [OF f(3), of m] Cons.prems m f show ?case by auto
qed

text \<open>Taking an entry out of a chain.\<close>

lemma hchain_unlink:
  assumes "hchain h p (as @ b # a # bs)" and "distinct (as @ b # a # bs)" and "h a = Some e" and "h b = Some f"
  shows "hchain (h(b \<mapsto> f\<lparr>hn_next := hn_next e\<rparr>)) p (as @ b # bs)"
  using assms(1,2)
proof (induction as arbitrary: p)
  case Nil
  then have "hchain h (hn_next e) bs" "b \<notin> set bs" using assms(3,4) by auto
  then have "hchain (h(b \<mapsto> f\<lparr>hn_next := hn_next e\<rparr>)) (hn_next e) bs" by (rule hchain_upd)
  with Nil show ?case by (simp add: fun_upd_def)
next
  case (Cons c as)
  then show ?case by auto
qed

section \<open>Well-formed maps\<close>

text \<open>The number of the bucket, and the lengths a table can have: a power of two that can be allocated.\<close>

definition slot :: "nat \<Rightarrow> u32 \<Rightarrow> nat" where
  "slot len hash = unat (hash AND (of_nat len - 1))"

definition table_length :: "nat \<Rightarrow> bool" where
  "table_length n \<longleftrightarrow> (\<exists>k \<le> 28. n = 2 ^ k)"

lemma table_length_bounds:
  assumes "table_length n"
  shows "0 < n" and "n \<le> 2 ^ 28"
proof -
  obtain k where "k \<le> 28" "n = 2 ^ k" using assms by (auto simp: table_length_def)
  moreover from this have "(2 :: nat) ^ k \<le> 2 ^ 28" by (intro power_increasing) simp_all
  ultimately show "0 < n" and "n \<le> 2 ^ 28" by simp_all
qed

lemma slot_less:
  assumes "table_length n"
  shows "slot n hash < n"
proof -
  obtain k where k: "n = 2 ^ k" using assms by (auto simp: table_length_def)
  then have "hash AND (of_nat n - 1) = take_bit k hash"
    by (simp add: take_bit_eq_mask mask_eq_exp_minus_1)
  then show ?thesis using k by (simp add: slot_def unsigned_take_bit_eq)
qed

lemma sint_slot:
  assumes "table_length n"
  shows "sint (hash AND (of_nat n - 1)) = int (slot n hash)"
proof -
  have "slot n hash < 2 ^ 31" using slot_less [OF assms, of hash] table_length_bounds(2) [OF assms] by simp
  then show ?thesis unfolding slot_def by (rule sint_unat_u32)
qed

text \<open>
  A table of pointers with the entries of each bucket: every chain is linked, and every entry is in the bucket of its hash.
\<close>

definition placed :: "('k, 'v) hheap \<Rightarrow> addr option list \<Rightarrow> addr list list \<Rightarrow> bool" where
  "placed h ps css \<longleftrightarrow> length ps = length css
     \<and> (\<forall>i < length css. hchain h (ps ! i) (css ! i)
          \<and> (\<forall>a \<in> set (css ! i). \<exists>e. h a = Some e \<and> slot (length css) (origKeyHash e) = i))"

text \<open>
  The invariant, for the entries \<open>css\<close> of the buckets: exactly these are allocated, each once, with the hash value of its key,
  no two have the same key, and they are counted.
\<close>

definition hm_rep :: "('k \<Rightarrow> u32) \<Rightarrow> ('k, 'v) hashmap \<Rightarrow> addr list list \<Rightarrow> bool" where
  "hm_rep hash m css \<longleftrightarrow>
     placed (hm_heap m) (elementData m) css \<and> table_length (length css)
   \<and> distinct (concat css) \<and> dom (hm_heap m) = set (concat css)
   \<and> (\<forall>a e. hm_heap m a = Some e \<longrightarrow> origKeyHash e = hash (hn_key e) \<and> a < hm_fresh m)
   \<and> (\<forall>a b e f. hm_heap m a = Some e \<and> hm_heap m b = Some f \<and> hn_key e = hn_key f \<longrightarrow> a = b)
   \<and> elementCount m = int (length (concat css))
   \<and> 0 < loadFactor m \<and> loadFactor m < 4 \<and> threshold m = \<lfloor>of_nat (length css) * loadFactor m\<rfloor>"

lemma hm_repI:
  assumes "placed (hm_heap m) (elementData m) css" and "table_length (length css)"
    and "distinct (concat css)" and "dom (hm_heap m) = set (concat css)"
    and "\<And>a e. hm_heap m a = Some e \<Longrightarrow> origKeyHash e = hash (hn_key e) \<and> a < hm_fresh m"
    and "\<And>a b e f. hm_heap m a = Some e \<Longrightarrow> hm_heap m b = Some f \<Longrightarrow> hn_key e = hn_key f \<Longrightarrow> a = b"
    and "elementCount m = int (length (concat css))"
    and "0 < loadFactor m" and "loadFactor m < 4" and "threshold m = \<lfloor>of_nat (length css) * loadFactor m\<rfloor>"
  shows "hm_rep hash m css"
  unfolding hm_rep_def using assms by blast

text \<open>The entries in the order of the buckets.\<close>

definition hm_chains :: "('k, 'v) hashmap \<Rightarrow> addr list list" where
  "hm_chains m = map (follow (hm_fresh m) (hm_heap m)) (elementData m)"

definition node_entry :: "('k, 'v) hheap \<Rightarrow> addr \<Rightarrow> 'k \<times> 'v" where
  "node_entry h a = (hn_key (the (h a)), hn_value (the (h a)))"

definition hm_entries :: "('k, 'v) hashmap \<Rightarrow> ('k \<times> 'v) list" where
  "hm_entries m = map (node_entry (hm_heap m)) (concat (hm_chains m))"

definition hm_ok :: "('k \<Rightarrow> u32) \<Rightarrow> ('k, 'v) hashmap \<Rightarrow> bool" where
  "hm_ok hash m \<longleftrightarrow> hm_rep hash m (hm_chains m)"

lemma length_below:
  assumes "distinct as" and "\<And>a. a \<in> set as \<Longrightarrow> a < (n :: nat)"
  shows "length as \<le> n"
proof -
  have "card (set as) \<le> card {..<n}" using assms(2) by (intro card_mono) auto
  then show ?thesis using distinct_card [OF assms(1)] by simp
qed

lemma concat_nth_in: "i < length css \<Longrightarrow> set (css ! i) \<subseteq> set (concat css)"
  by (auto intro!: bexI [of _ "css ! i"])

lemma concat_nth_distinct: "distinct (concat css) \<Longrightarrow> i < length css \<Longrightarrow> distinct (css ! i)"
  by (auto simp: distinct_concat_iff)

lemma concat_nth_disjoint:
  assumes "distinct (concat css)" and "i < length css" and "j < length css" and "a \<in> set (css ! i)" and "a \<in> set (css ! j)"
  shows "i = j"
  using assms
proof (induction css arbitrary: i j)
  case (Cons c css)
  have "a \<notin> set c \<or> a \<notin> set (concat css)" using Cons.prems(1) by auto
  moreover have "a \<in> set (concat css)" if "n < length css" "a \<in> set (css ! n)" for n using that concat_nth_in [of n css] by blast
  ultimately show ?case using Cons by (cases i; cases j) auto
qed simp

lemma rep_chain_length:
  assumes "hm_rep hash m css" and "i < length css"
  shows "length (css ! i) \<le> hm_fresh m"
proof (rule length_below)
  show "distinct (css ! i)" using assms by (intro concat_nth_distinct) (auto simp: hm_rep_def)
  fix a
  assume "a \<in> set (css ! i)"
  then have "a \<in> dom (hm_heap m)" using assms concat_nth_in [of i css] by (auto simp: hm_rep_def)
  then show "a < hm_fresh m" using assms(1) by (auto simp: hm_rep_def)
qed

lemma rep_chains:
  assumes "hm_rep hash m css"
  shows "hm_chains m = css"
proof (rule nth_equalityI)
  show len: "length (hm_chains m) = length css" using assms by (simp add: hm_chains_def hm_rep_def placed_def)
  fix i
  assume "i < length (hm_chains m)"
  with len have i: "i < length css" by simp
  then have "hchain (hm_heap m) (elementData m ! i) (css ! i)" "length (elementData m) = length css"
    using assms by (auto simp: hm_rep_def placed_def)
  with rep_chain_length [OF assms i] i show "hm_chains m ! i = css ! i"
    by (simp add: hm_chains_def hchain_follow)
qed

lemma hm_rep_ok: "hm_rep hash m css \<Longrightarrow> hm_ok hash m"
  using rep_chains by (fastforce simp: hm_ok_def)

text \<open>What the map contains, read off the heap.\<close>

lemma hm_entries_iff:
  assumes "hm_ok hash m"
  shows "(k, v) \<in> set (hm_entries m) \<longleftrightarrow> (\<exists>a e. hm_heap m a = Some e \<and> hn_key e = k \<and> hn_value e = v)"
proof -
  have "set (concat (hm_chains m)) = dom (hm_heap m)" using assms by (simp add: hm_ok_def hm_rep_def)
  then have "set (hm_entries m) = node_entry (hm_heap m) ` dom (hm_heap m)"
    unfolding hm_entries_def set_map by (rule arg_cong)
  then show ?thesis by (force simp: node_entry_def image_iff)
qed

lemma hm_entries_distinct:
  assumes "hm_ok hash m"
  shows "distinct (map fst (hm_entries m))"
proof -
  have D: "distinct (concat (hm_chains m))" "dom (hm_heap m) = set (concat (hm_chains m))"
    using assms by (auto simp: hm_ok_def hm_rep_def)
  have "inj_on (\<lambda>a. hn_key (the (hm_heap m a))) (dom (hm_heap m))"
    using assms unfolding inj_on_def hm_ok_def hm_rep_def by (metis domD option.sel)
  with D show ?thesis unfolding hm_entries_def by (simp add: comp_def node_entry_def distinct_map)
qed

lemma hm_abs_iff:
  assumes "hm_ok hash m"
  shows "map_of (hm_entries m) k = Some v \<longleftrightarrow> (\<exists>a e. hm_heap m a = Some e \<and> hn_key e = k \<and> hn_value e = v)"
  using hm_entries_iff [OF assms, of k v] hm_entries_distinct [OF assms] map_of_eq_Some_iff by metis

lemma hm_abs_eqI:
  assumes "hm_ok hash m" and "\<And>k v. (\<exists>a e. hm_heap m a = Some e \<and> hn_key e = k \<and> hn_value e = v) \<longleftrightarrow> f k = Some v"
  shows "map_of (hm_entries m) = f"
proof
  fix k
  have "map_of (hm_entries m) k = Some v \<longleftrightarrow> f k = Some v" for v using hm_abs_iff [OF assms(1)] assms(2) by simp
  then show "map_of (hm_entries m) k = f k" by (metis not_None_eq)
qed

section \<open>Lookup\<close>

lemma ok_facts:
  assumes "hm_ok hash m"
  shows "length (elementData m) = length (hm_chains m)" and "table_length (length (elementData m))"
    and "i < length (elementData m) \<Longrightarrow> hchain (hm_heap m) (elementData m ! i) (hm_chains m ! i)"
    and "i < length (elementData m) \<Longrightarrow> length (hm_chains m ! i) < chain_fuel m"
    and "i < length (elementData m) \<Longrightarrow> distinct (hm_chains m ! i)"
  using assms rep_chain_length [of hash m "hm_chains m" i] concat_nth_distinct [of "hm_chains m" i]
  by (auto simp: hm_ok_def hm_rep_def placed_def less_Suc_eq_le)

lemma ok_counts:
  assumes "hm_ok hash m"
  shows "distinct (concat (hm_chains m))" and "elementCount m = int (length (concat (hm_chains m)))"
    and "0 < loadFactor m" and "loadFactor m < 4" and "threshold m = \<lfloor>of_nat (length (hm_chains m)) * loadFactor m\<rfloor>"
  using assms by (simp_all add: hm_ok_def hm_rep_def)

lemma ok_slot: "hm_ok hash m \<Longrightarrow> slot (length (elementData m)) h < length (elementData m)"
  by (rule slot_less) (rule ok_facts(2))

lemma ok_bucket:
  assumes "hm_ok hash m"
  shows "bucket_index h m = int (slot (length (elementData m)) h)"
    and "bucket (bucket_index h m) m = Ret (elementData m ! slot (length (elementData m)) h)"
  using sint_slot [OF ok_facts(2) [OF assms], of h] ok_slot [OF assms, of h]
  by (auto simp: bucket_index_def bucket_def ap_get_def)

lemma placedD:
  "placed h ps css \<Longrightarrow> i < length css \<Longrightarrow> a \<in> set (css ! i) \<Longrightarrow> \<exists>e. h a = Some e \<and> slot (length css) (origKeyHash e) = i"
  by (simp add: placed_def)

lemma ok_placed: "hm_ok hash m \<Longrightarrow> placed (hm_heap m) (elementData m) (hm_chains m)"
  by (simp add: hm_ok_def hm_rep_def)

lemma ok_nodes: "hm_ok hash m \<Longrightarrow> set (concat (hm_chains m)) = dom (hm_heap m)"
  by (simp add: hm_ok_def hm_rep_def)

lemma ok_key_unique:
  "hm_ok hash m \<Longrightarrow> hm_heap m a = Some e \<Longrightarrow> hm_heap m b = Some f \<Longrightarrow> hn_key e = hn_key f \<Longrightarrow> a = b"
  unfolding hm_ok_def hm_rep_def by blast

lemma ok_node: "hm_ok hash m \<Longrightarrow> hm_heap m a = Some e \<Longrightarrow> origKeyHash e = hash (hn_key e) \<and> a < hm_fresh m"
  unfolding hm_ok_def hm_rep_def by blast

lemma ok_location:
  assumes "hm_ok hash m" and "hm_heap m a = Some e"
  shows "a \<in> set (hm_chains m ! slot (length (elementData m)) (hash (hn_key e)))"
proof -
  have "a \<in> set (concat (hm_chains m))" using assms(2) ok_nodes [OF assms(1)] by auto
  then obtain c where "c \<in> set (hm_chains m)" "a \<in> set c" by auto
  then obtain i where i: "i < length (hm_chains m)" "a \<in> set (hm_chains m ! i)" by (metis in_set_conv_nth)
  then have "slot (length (hm_chains m)) (origKeyHash e) = i"
    using placedD [OF ok_placed [OF assms(1)]] assms(2) by force
  then show ?thesis using i ok_node [OF assms] ok_facts(1) [OF assms(1)] by simp
qed

lemma ok_in_chain:
  assumes "hm_ok hash m" and "i < length (elementData m)" and "a \<in> set (hm_chains m ! i)"
  obtains e where "hm_heap m a = Some e" and "slot (length (elementData m)) (hash (hn_key e)) = i" and "origKeyHash e = hash (hn_key e)"
  using placedD [OF ok_placed [OF assms(1)], of i a] ok_node [OF assms(1), of a] ok_facts(1) [OF assms(1)] assms(2,3) by auto

lemma find_this: "a \<in> set xs \<Longrightarrow> find (\<lambda>b. b = a) xs = Some a"
  by (induction xs) auto

lemma findKeyEntry_present:
  assumes "hm_ok hash m" and "hm_heap m a = Some e" and "hn_key e = k"
  shows "findKeyEntry k (bucket_index (hash k) m) (hash k) m = Ret (Some a)"
proof -
  let ?i = "slot (length (elementData m)) (hash k)" and ?P = "\<lambda>a. \<exists>e. hm_heap m a = Some e \<and> origKeyHash e = hash k \<and> hn_key e = k"
  have i: "?i < length (elementData m)" using assms(1) by (rule ok_slot)
  have in_chain: "a \<in> set (hm_chains m ! ?i)" using ok_location [OF assms(1,2)] assms(3) by simp
  have "?P a" using ok_node [OF assms(1,2)] assms by auto
  moreover have "?P b \<Longrightarrow> b = a" for b using ok_key_unique [OF assms(1) assms(2)] assms(3) by auto
  ultimately have P: "?P = (\<lambda>b. b = a)" by blast
  have "find ?P (hm_chains m ! ?i) = Some a"
    unfolding P using in_chain by (rule find_this)
  then show ?thesis
    by (simp add: findKeyEntry_def ok_bucket(2) [OF assms(1)] find_loop_chain [OF ok_facts(3,4) [OF assms(1) i]] del: find_loop.simps)
qed

lemma findKeyEntry_absent:
  assumes "hm_ok hash m" and "\<And>a e. hm_heap m a = Some e \<Longrightarrow> hn_key e \<noteq> k"
  shows "findKeyEntry k (bucket_index (hash k) m) (hash k) m = Ret None"
proof -
  let ?i = "slot (length (elementData m)) (hash k)"
  have i: "?i < length (elementData m)" using assms(1) by (rule ok_slot)
  have "find (\<lambda>a. \<exists>e. hm_heap m a = Some e \<and> origKeyHash e = hash k \<and> hn_key e = k) (hm_chains m ! ?i) = None"
    using assms(2) by (auto simp: find_None_iff)
  then show ?thesis
    by (simp add: findKeyEntry_def ok_bucket(2) [OF assms(1)] find_loop_chain [OF ok_facts(3,4) [OF assms(1) i]] del: find_loop.simps)
qed

lemma hm_present:
  assumes "hm_ok hash m" and "map_of (hm_entries m) k = Some v"
  obtains a e where "hm_heap m a = Some e" and "hn_key e = k" and "hn_value e = v"
    and "findKeyEntry k (bucket_index (hash k) m) (hash k) m = Ret (Some a)"
  using hm_abs_iff [OF assms(1), of k v] assms findKeyEntry_present [OF assms(1)] by blast

lemma hm_absent:
  assumes "hm_ok hash m" and "map_of (hm_entries m) k = None"
  shows "hm_heap m a = Some e \<Longrightarrow> hn_key e \<noteq> k" and "findKeyEntry k (bucket_index (hash k) m) (hash k) m = Ret None"
proof -
  show none: "hm_heap m a = Some e \<Longrightarrow> hn_key e \<noteq> k" for a e using hm_abs_iff [OF assms(1), of k] assms(2) by auto
  show "findKeyEntry k (bucket_index (hash k) m) (hash k) m = Ret None" by (rule findKeyEntry_absent [OF assms(1) none])
qed

lemma hm_get_effect:
  assumes "hm_ok hash m"
  shows "hm_get hash k m =
     (case map_of (hm_entries m) k of
        Some v \<Rightarrow> Ret v | None \<Rightarrow> Throw (NoSuchElementException ''The specified key is not present in the Map''))"
proof (cases "map_of (hm_entries m) k")
  case None
  then show ?thesis using hm_absent(2) [OF assms None] by (simp add: hm_get_def getEntry_def)
next
  case (Some v)
  then show ?thesis by (rule hm_present [OF assms]) (simp add: Some hm_get_def getEntry_def getValue_def)
qed

lemma hm_containsKey_effect:
  assumes "hm_ok hash m"
  shows "hm_containsKey hash k m = Ret (map_of (hm_entries m) k \<noteq> None)"
proof (cases "map_of (hm_entries m) k")
  case None
  then show ?thesis using hm_absent(2) [OF assms None] by (simp add: hm_containsKey_def getEntry_def)
next
  case (Some v)
  then show ?thesis by (rule hm_present [OF assms]) (simp add: Some hm_containsKey_def getEntry_def)
qed

lemma value_buckets_chains:
  assumes "length ps = length css" and "\<And>i. i < length css \<Longrightarrow> hchain h (ps ! i) (css ! i) \<and> length (css ! i) < n"
  shows "value_buckets n h v ps = Ret (\<exists>a \<in> set (concat css). \<exists>e. h a = Some e \<and> hn_value e = v)"
  using assms
proof (induction ps css rule: list_induct2)
  case (Cons p ps c css)
  have "hchain h p c" "length c < n" using Cons.prems [of 0] by auto
  moreover have "value_buckets n h v ps = Ret (\<exists>a \<in> set (concat css). \<exists>e. h a = Some e \<and> hn_value e = v)"
    using Cons.prems [of "Suc _"] by (intro Cons.IH) auto
  ultimately show ?case by (auto simp: value_loop_chain split: bool.split)
qed simp

lemma hm_containsValue_effect:
  assumes "hm_ok hash m"
  shows "hm_containsValue v m = Ret (v \<in> ran (map_of (hm_entries m)))"
proof -
  have "hm_containsValue v m = Ret (\<exists>a \<in> set (concat (hm_chains m)). \<exists>e. hm_heap m a = Some e \<and> hn_value e = v)"
    unfolding hm_containsValue_def using ok_facts [OF assms] by (intro value_buckets_chains) auto
  also have "(\<exists>a \<in> set (concat (hm_chains m)). \<exists>e. hm_heap m a = Some e \<and> hn_value e = v) \<longleftrightarrow> v \<in> ran (map_of (hm_entries m))"
    unfolding ok_nodes [OF assms] ran_def using hm_abs_iff [OF assms, of _ v] by auto
  finally show ?thesis .
qed

section \<open>Adding entries\<close>

lemma concat_update:
  assumes "i < length css"
  shows "concat css = concat (take i css) @ css ! i @ concat (drop (Suc i) css)"
    and "concat (css[i := xs]) = concat (take i css) @ xs @ concat (drop (Suc i) css)"
proof -
  show "concat css = concat (take i css) @ css ! i @ concat (drop (Suc i) css)"
    using id_take_nth_drop [OF assms] by (metis concat.simps(2) concat_append)
  show "concat (css[i := xs]) = concat (take i css) @ xs @ concat (drop (Suc i) css)"
    using upd_conv_take_nth_drop [OF assms, of xs] by simp
qed

lemma mset_concat_cons: "i < length css \<Longrightarrow> mset (concat (css[i := a # css ! i])) = add_mset a (mset (concat css))"
  by (simp add: concat_update(2) concat_update(1) [of i css] del: concat_append)

text \<open>A new entry at the head of its chain.\<close>

lemma placed_insert:
  assumes "placed h ps css" and "i < length css" and "a \<notin> set (concat css)" and "hn_next e = ps ! i"
    and "slot (length css) (origKeyHash e) = i"
  shows "placed (h(a \<mapsto> e)) (ps[i := Some a]) (css[i := a # css ! i])"
  unfolding placed_def
proof (intro conjI allI impI)
  have len: "length ps = length css" using assms(1) by (simp add: placed_def)
  then show "length (ps[i := Some a]) = length (css[i := a # css ! i])" by simp
  fix j
  assume "j < length (css[i := a # css ! i])"
  then have j: "j < length css" by simp
  have a: "a \<notin> set (css ! j)" using assms(3) concat_nth_in [OF j] by blast
  have c: "hchain (h(a \<mapsto> e)) (ps ! j) (css ! j)" using assms(1) j a by (intro hchain_upd) (simp_all add: placed_def)
  show "hchain (h(a \<mapsto> e)) (ps[i := Some a] ! j) (css[i := a # css ! i] ! j)"
    using c assms(2,4) len j by (cases "i = j") (simp_all add: fun_upd_def)
  show "\<forall>b \<in> set (css[i := a # css ! i] ! j). \<exists>f. (h(a \<mapsto> e)) b = Some f
      \<and> slot (length (css[i := a # css ! i])) (origKeyHash f) = j"
    using placedD [OF assms(1) j] assms(2,5) a by (cases "i = j") auto
qed

definition same_data :: "('k, 'v) hheap \<Rightarrow> ('k, 'v) hheap \<Rightarrow> bool" where
  "same_data h h' \<longleftrightarrow> (\<forall>a. map_option (\<lambda>e. (origKeyHash e, hn_key e, hn_value e)) (h a)
     = map_option (\<lambda>e. (origKeyHash e, hn_key e, hn_value e)) (h' a))"

lemma same_data_trans: "same_data h h' \<Longrightarrow> same_data h' h'' \<Longrightarrow> same_data h h''"
  by (simp add: same_data_def)

lemma same_dataD:
  assumes "same_data h h'" and "h' a = Some e"
  obtains f where "h a = Some f" and "origKeyHash f = origKeyHash e" and "hn_key f = hn_key e" and "hn_value f = hn_value e"
  using assms(1) [unfolded same_data_def, THEN spec, of a] assms(2) by (cases "h a") auto

lemma same_data_sym: "same_data h h' \<Longrightarrow> same_data h' h"
  by (simp add: same_data_def)

lemma same_data_dom: "same_data h h' \<Longrightarrow> dom h' = dom h"
proof -
  assume s: "same_data h h'"
  have "h a = None \<longleftrightarrow> h' a = None" for a using s [unfolded same_data_def, THEN spec, of a] by (cases "h a"; cases "h' a") simp_all
  then show ?thesis by (auto simp: dom_def)
qed

text \<open>Rehashing moves the entries of a chain, then of all chains, to the new table.\<close>

lemma rehash_chain_effect:
  assumes "hchain h p as" and "placed h ps css" and "table_length (length css)" and "distinct (as @ concat css)" and "length as < n"
  shows "\<exists>h' ps' css'. rehash_chain n (of_nat (length css)) h ps p = Ret (h', ps') \<and> placed h' ps' css' \<and> length css' = length css
     \<and> mset (concat css') = mset as + mset (concat css) \<and> same_data h h' \<and> (\<forall>b. b \<notin> set as \<longrightarrow> h' b = h b)"
  using assms
proof (induction as arbitrary: n h p ps css)
  case Nil
  then show ?case by (cases n) (auto simp: same_data_def)
next
  case (Cons a as)
  then obtain e m where e: "p = Some a" "h a = Some e" "hchain h (hn_next e) as" and m: "n = Suc m" "length as < m"
    by (cases n) auto
  define i where "i = slot (length css) (origKeyHash e)"
  define h1 where "h1 = h(a \<mapsto> e\<lparr>hn_next := ps ! i\<rparr>)"
  define css1 where "css1 = css[i := a # css ! i]"
  have i: "i < length css" unfolding i_def using Cons.prems(3) by (rule slot_less)
  have len: "length ps = length css" "length css1 = length css" using Cons.prems(2) by (simp_all add: placed_def css1_def)
  have P: "placed h1 (ps[i := Some a]) css1"
    unfolding h1_def css1_def using Cons.prems(2,4) i by (intro placed_insert) (auto simp: i_def)
  have C: "hchain h1 (hn_next e) as" unfolding h1_def using e(3) Cons.prems(4) by (intro hchain_upd) auto
  have ms: "mset (concat css1) = add_mset a (mset (concat css))" unfolding css1_def using i by (rule mset_concat_cons)
  then have "mset (as @ concat css1) = mset ((a # as) @ concat css)" by simp
  then have D: "distinct (as @ concat css1)" using Cons.prems(4) by (metis mset_eq_imp_distinct_iff)
  obtain h' ps' css' where r: "rehash_chain m (of_nat (length css)) h1 (ps[i := Some a]) (hn_next e) = Ret (h', ps')"
    "placed h' ps' css'" "length css' = length css" "mset (concat css') = mset as + mset (concat css1)" "same_data h1 h'"
    "\<forall>b. b \<notin> set as \<longrightarrow> h' b = h1 b"
    using Cons.IH [OF C P _ D m(2)] Cons.prems(3) len(2) by auto
  have "rehash_chain n (of_nat (length css)) h ps p = Ret (h', ps')"
    using r(1) e(1,2) m(1) i len sint_slot [OF Cons.prems(3), of "origKeyHash e", folded i_def]
    by (auto simp: ap_get_def Let_def h1_def)
  moreover have "same_data h h1" using e(2) by (simp add: same_data_def h1_def)
  then have "same_data h h'" using r(5) by (rule same_data_trans)
  moreover have "\<forall>b. b \<notin> set (a # as) \<longrightarrow> h' b = h b" using r(6) by (simp add: h1_def)
  ultimately show ?case using r(2-4) ms by auto
qed

lemma rehash_buckets_effect:
  assumes "length ps = length css" and "\<And>i. i < length css \<Longrightarrow> hchain h (ps ! i) (css ! i) \<and> length (css ! i) < n"
    and "placed h qs dss" and "table_length (length dss)" and "distinct (concat css @ concat dss)"
  shows "\<exists>h' qs' dss'. rehash_buckets n (of_nat (length dss)) h qs ps = Ret (h', qs') \<and> placed h' qs' dss'
     \<and> length dss' = length dss \<and> mset (concat dss') = mset (concat css) + mset (concat dss) \<and> same_data h h'"
  using assms
proof (induction ps css arbitrary: h qs dss rule: list_induct2)
  case Nil
  then show ?case by (auto simp: same_data_def)
next
  case (Cons p ps c css)
  have "hchain h p c" "length c < n" using Cons.prems(1) [of 0] by auto
  moreover have "distinct (c @ concat dss)" using Cons.prems(4) by auto
  ultimately obtain h1 qs1 dss1 where r: "rehash_chain n (of_nat (length dss)) h qs p = Ret (h1, qs1)" "placed h1 qs1 dss1"
    "length dss1 = length dss" "mset (concat dss1) = mset c + mset (concat dss)" "same_data h h1" "\<forall>b. b \<notin> set c \<longrightarrow> h1 b = h b"
    using rehash_chain_effect [OF _ Cons.prems(2,3), of p c n] by blast
  have H: "hchain h1 (ps ! i) (css ! i) \<and> length (css ! i) < n" if i: "i < length css" for i
  proof
    have "set c \<inter> set (concat css) = {}" using Cons.prems(4) by (simp only: concat.simps distinct_append)
    then have "set (css ! i) \<inter> set c = {}" using concat_nth_in [OF i] by blast
    then have same: "h1 b = h b" if "b \<in> set (css ! i)" for b using that r(6) by blast
    have "hchain h (ps ! i) (css ! i)" using Cons.prems(1) [of "Suc i"] i by simp
    then show "hchain h1 (ps ! i) (css ! i)" by (rule hchain_frame) (rule same)
    show "length (css ! i) < n" using Cons.prems(1) [of "Suc i"] i by simp
  qed
  have "mset (concat css @ concat dss1) = mset (concat (c # css) @ concat dss)" using r(4) by simp
  then have D: "distinct (concat css @ concat dss1)" using Cons.prems(4) by (metis mset_eq_imp_distinct_iff)
  have T: "table_length (length dss1)" using Cons.prems(3) r(3) by simp
  obtain h' qs' dss' where q: "rehash_buckets n (of_nat (length dss)) h1 qs1 ps = Ret (h', qs')" "placed h' qs' dss'"
    "length dss' = length dss" "mset (concat dss') = mset (concat css) + mset (concat dss1)" "same_data h1 h'"
    using Cons.IH [OF H r(2) T D] unfolding r(3) by blast
  have "rehash_buckets n (of_nat (length dss)) h qs (p # ps) = Ret (h', qs')" using r(1) q(1) by simp
  moreover have "mset (concat dss') = mset (concat (c # css)) + mset (concat dss)" using r(4) q(4) by simp
  ultimately show ?case using q(2,3) same_data_trans [OF r(5) q(5)] by blast
qed

lemma table_threshold:
  assumes "table_length n" and "0 < lf" and "lf < (4 :: rat)"
  shows "\<lfloor>of_nat n * lf\<rfloor> < 2 ^ 31"
proof -
  have "n \<le> 2 ^ 28" using assms(1) by (rule table_length_bounds)
  then have "(of_nat n :: rat) \<le> of_nat (2 ^ 28)" by (subst of_nat_le_iff)
  then have "of_nat n * lf \<le> of_nat (2 ^ 28) * 4" using assms(2,3) by (intro mult_mono) auto
  also have "\<dots> < of_int (2 ^ 31)" by simp
  finally show ?thesis by (simp only: floor_less_iff)
qed

lemma computeThreshold_effect:
  assumes "table_length (length (elementData m))" and "0 < loadFactor m" and "loadFactor m < 4"
  shows "computeThreshold m = (Ret (), m\<lparr>threshold := \<lfloor>of_nat (length (elementData m)) * loadFactor m\<rfloor>\<rparr>)"
  using table_threshold [OF assms] by (simp add: computeThreshold_def Let_def)

lemma capacity_table:
  assumes "0 < n" and "n \<le> 2 ^ 28"
  obtains l where "calculateCapacity (of_nat n) = of_nat l" and "table_length l" and "n \<le> l" and "l < 2 * n"
proof -
  have "n \<le> 2 ^ 30" using assms(2) by simp
  then obtain k where k: "unat (calculateCapacity (of_nat n)) = 2 ^ k" "n \<le> 2 ^ k" "2 ^ k < 2 * n"
    using calculateCapacity_power [OF assms(1)] by metis
  have "(2 :: nat) ^ k < 2 ^ 29" using k(3) assms(2) by simp
  then have "k < 29" by (rule power_less_imp_less_exp [rotated]) simp
  moreover have "calculateCapacity (of_nat n) = of_nat (2 ^ k)" using k(1) by (metis of_nat_unat ucast_id)
  ultimately show thesis using that [of "2 ^ k"] k(2,3) by (force simp: table_length_def)
qed

lemma ap_new_table:
  assumes "table_length n"
  shows "ap_new (of_nat n) = Ret (replicate n None)"
proof -
  have "0 < n" "n < 2 ^ 29" using table_length_bounds [OF assms] by simp_all
  then show ?thesis using sint_of_nat_u32 [of n] unat_of_nat_u32 [of n]
    by (cases "(of_nat n :: u32) = 0") (auto simp: ap_new_def)
qed

lemma placed_empty: "placed h (replicate n None) (replicate n [])"
  by (simp add: placed_def)

text \<open>A map with other chains for the same entries.\<close>

lemma rep_move:
  assumes "hm_ok hash m" and "placed h' ps dss" and "table_length (length dss)"
    and "mset (concat dss) = mset (concat (hm_chains m))" and "same_data (hm_heap m) h'"
  shows "hm_rep hash (m\<lparr>hm_heap := h', elementData := ps, threshold := \<lfloor>of_nat (length dss) * loadFactor m\<rfloor>\<rparr>) dss"
proof -
  have R: "distinct (concat (hm_chains m))" "elementCount m = int (length (concat (hm_chains m)))" "0 < loadFactor m" "loadFactor m < 4"
    using assms(1) by (simp_all add: hm_ok_def hm_rep_def)
  have "distinct (concat dss)" using R(1) assms(4) by (metis mset_eq_imp_distinct_iff)
  moreover have "length (concat dss) = length (concat (hm_chains m))" using assms(4) by (metis size_mset)
  moreover have "dom h' = set (concat dss)"
    using same_data_dom [OF assms(5)] ok_nodes [OF assms(1)] assms(4) by (metis set_mset_mset)
  moreover have "origKeyHash e = hash (hn_key e) \<and> a < hm_fresh m" if "h' a = Some e" for a e
    using same_dataD [OF assms(5) that] ok_node [OF assms(1)] by metis
  moreover have "a = b" if e: "h' a = Some e" and f: "h' b = Some f" and k: "hn_key e = hn_key f" for a b e f
    by (rule same_dataD [OF assms(5) e], rule same_dataD [OF assms(5) f]) (metis ok_key_unique [OF assms(1)] k)
  ultimately show ?thesis using assms(2,3) R by (simp add: hm_rep_def)
qed

text \<open>
  What rehashing leaves alone: the entries, their number and the counter of modifications.
\<close>

definition same_map :: "('k, 'v) hashmap \<Rightarrow> ('k, 'v) hashmap \<Rightarrow> bool" where
  "same_map m m' \<longleftrightarrow> same_data (hm_heap m) (hm_heap m') \<and> elementCount m' = elementCount m \<and> hm_modCount m' = hm_modCount m
     \<and> loadFactor m' = loadFactor m \<and> hm_fresh m' = hm_fresh m"

lemma same_map_refl: "same_map m m"
  by (simp add: same_map_def same_data_def)

lemma same_data_entries:
  assumes "hm_ok hash m" and "hm_ok hash m'" and "same_data (hm_heap m) (hm_heap m')"
  shows "map_of (hm_entries m') = map_of (hm_entries m)"
proof (rule hm_abs_eqI [OF assms(2)])
  fix k v
  have "(\<exists>a e. hm_heap m' a = Some e \<and> hn_key e = k \<and> hn_value e = v)
      \<longleftrightarrow> (\<exists>a e. hm_heap m a = Some e \<and> hn_key e = k \<and> hn_value e = v)"
    using same_dataD [OF assms(3)] same_dataD [OF same_data_sym [OF assms(3)]] by metis
  then show "(\<exists>a e. hm_heap m' a = Some e \<and> hn_key e = k \<and> hn_value e = v) \<longleftrightarrow> map_of (hm_entries m) k = Some v"
    using hm_abs_iff [OF assms(1)] by simp
qed

lemma rehash_effect:
  assumes "hm_ok hash m" and "0 < n" and "n \<le> 2 ^ 27"
  obtains m' where "rehash (of_nat n) m = (Ret (), m')" and "hm_ok hash m'" and "same_map m m'"
    and "2 * n \<le> length (elementData m')" and "length (elementData m') < 4 * n"
proof -
  have "(of_nat n :: u32) \<noteq> 0" using assms(2,3) unat_of_nat_u32 [of n] by auto
  moreover have "push_bit 1 (of_nat n) = (of_nat (2 * n) :: u32)" by (simp add: push_bit_eq_mult mult.commute)
  moreover obtain l where l: "calculateCapacity (of_nat (2 * n)) = of_nat l" "table_length l" "2 * n \<le> l" "l < 2 * (2 * n)"
    using capacity_table [of "2 * n"] assms(2,3) by auto
  ultimately have cap: "calculateCapacity (if (of_nat n :: u32) = 0 then 1 else push_bit 1 (of_nat n)) = of_nat l" by presburger
  have R: "distinct (concat (hm_chains m))" "0 < loadFactor m" "loadFactor m < 4"
    using assms(1) by (simp_all add: hm_ok_def hm_rep_def)
  have old: "hchain (hm_heap m) (elementData m ! i) (hm_chains m ! i) \<and> length (hm_chains m ! i) < chain_fuel m"
    if "i < length (hm_chains m)" for i using ok_facts [OF assms(1)] that by simp
  have "table_length (length (replicate l ([] :: addr list)))" using l(2) by simp
  moreover have "distinct (concat (hm_chains m) @ concat (replicate l []))" using R(1) by simp
  ultimately obtain h' qs dss where r:
    "rehash_buckets (chain_fuel m) (of_nat (length (replicate l ([] :: addr list)))) (hm_heap m) (replicate l None) (elementData m) = Ret (h', qs)"
    "placed h' qs dss" "length dss = l" "mset (concat dss) = mset (concat (hm_chains m))" "same_data (hm_heap m) h'"
    using rehash_buckets_effect [OF ok_facts(1) [OF assms(1)] old placed_empty [of "hm_heap m" l]] by auto
  let ?m = "m\<lparr>hm_heap := h', elementData := qs, threshold := \<lfloor>of_nat (length dss) * loadFactor m\<rfloor>\<rparr>"
  have len: "length qs = l" using r(2,3) by (simp add: placed_def)
  have "computeThreshold (m\<lparr>hm_heap := h', elementData := qs\<rparr>) = (Ret (), ?m)"
    using computeThreshold_effect [of "m\<lparr>hm_heap := h', elementData := qs\<rparr>"] R l(2) len r(3) by simp
  then have "rehash (of_nat n) m = (Ret (), ?m)"
    using r(1) by (simp add: rehash_def cap Let_def ap_new_table [OF l(2)])
  moreover have "hm_ok hash ?m" using rep_move [OF assms(1) r(2) _ r(4,5)] l(2) r(3) by (intro hm_rep_ok) simp
  moreover have "same_map m ?m" using r(5) by (simp add: same_map_def)
  moreover have "2 * n \<le> length (elementData ?m)" "length (elementData ?m) < 4 * n" using l(3,4) len by simp_all
  ultimately show thesis by (rule that)
qed

lemma heap_upd_ex: "(\<exists>b f. (h(a \<mapsto> e)) b = Some f \<and> P f) \<longleftrightarrow> P e \<or> (\<exists>b f. b \<noteq> a \<and> h b = Some f \<and> P f)"
  by auto

lemma setValue_effect:
  assumes "hm_ok hash m" and "hm_heap m a = Some e"
  obtains m' where "setValue a v m = (Ret (), m')" and "hm_ok hash m'" and "m' = m\<lparr>hm_heap := hm_heap m'\<rparr>"
    and "map_of (hm_entries m') = (map_of (hm_entries m))(hn_key e \<mapsto> v)"
proof -
  define h' where "h' = (hm_heap m)(a \<mapsto> e\<lparr>hn_value := v\<rparr>)"
  let ?m = "m\<lparr>hm_heap := h'\<rparr>"
  have "placed h' (elementData m) (hm_chains m)"
    unfolding placed_def
  proof (intro conjI allI impI)
    show "length (elementData m) = length (hm_chains m)" by (rule ok_facts(1) [OF assms(1)])
    fix i
    assume i: "i < length (hm_chains m)"
    then have "hchain (hm_heap m) (elementData m ! i) (hm_chains m ! i)" using ok_placed [OF assms(1)] by (simp add: placed_def)
    then show "hchain h' (elementData m ! i) (hm_chains m ! i)" unfolding h'_def using assms(2) by (rule hchain_data) simp
    show "\<forall>b \<in> set (hm_chains m ! i). \<exists>f. h' b = Some f \<and> slot (length (hm_chains m)) (origKeyHash f) = i"
      using placedD [OF ok_placed [OF assms(1)] i] assms(2) by (fastforce simp: h'_def)
  qed
  moreover have "dom h' = dom (hm_heap m)" using assms(2) by (auto simp: h'_def)
  moreover have "origKeyHash f = hash (hn_key f) \<and> b < hm_fresh m" if "h' b = Some f" for b f
    using that ok_node [OF assms(1)] assms(2) by (auto simp: h'_def split: if_splits)
  moreover have "b = c" if "h' b = Some f" "h' c = Some g" "hn_key f = hn_key g" for b c f g
    using that ok_key_unique [OF assms(1)] assms(2) by (auto simp: h'_def split: if_splits)
  ultimately have "hm_rep hash ?m (hm_chains m)" using assms(1) by (simp add: hm_ok_def hm_rep_def)
  then have ok: "hm_ok hash ?m" by (rule hm_rep_ok)
  have "map_of (hm_entries ?m) = (map_of (hm_entries m))(hn_key e \<mapsto> v)"
  proof (rule hm_abs_eqI [OF ok])
    fix k w
    have "(\<exists>b f. b \<noteq> a \<and> hm_heap m b = Some f \<and> hn_key f = k \<and> hn_value f = w)
        \<longleftrightarrow> k \<noteq> hn_key e \<and> (\<exists>b f. hm_heap m b = Some f \<and> hn_key f = k \<and> hn_value f = w)"
      using ok_key_unique [OF assms(1) _ assms(2)] assms(2) by (metis option.inject)
    then show "(\<exists>b f. hm_heap ?m b = Some f \<and> hn_key f = k \<and> hn_value f = w) \<longleftrightarrow> ((map_of (hm_entries m))(hn_key e \<mapsto> v)) k = Some w"
      using hm_abs_iff [OF assms(1), of k w]
        heap_upd_ex [of "hm_heap m" a "e\<lparr>hn_value := v\<rparr>" "\<lambda>f. hn_key f = k \<and> hn_value f = w"] by (auto simp: h'_def)
  qed
  then show thesis using that [of ?m] ok assms(2) by (simp add: setValue_def h'_def)
qed

text \<open>A new entry, before its value is set.\<close>

lemma createHashedEntry_effect:
  assumes "hm_ok hash m" and "map_of (hm_entries m) k = None"
  obtains m' where "createHashedEntry k (bucket_index (hash k) m) (hash k) d (m\<lparr>hm_modCount := hm_modCount m + 1\<rparr>) = (Ret (hm_fresh m), m')"
    and "hm_ok hash (m'\<lparr>elementCount := elementCount m' + 1\<rparr>)" and "elementCount m' = elementCount m" and "threshold m' = threshold m"
    and "map_of (hm_entries (m'\<lparr>elementCount := elementCount m' + 1\<rparr>)) = (map_of (hm_entries m))(k \<mapsto> d)"
    and "\<exists>e. hm_heap m' (hm_fresh m) = Some e \<and> hn_key e = k" and "loadFactor m' = loadFactor m"
    and "length (elementData m') = length (elementData m)" and "hm_modCount m' = hm_modCount m + 1"
proof -
  define a where "a = hm_fresh m"
  define i where "i = slot (length (elementData m)) (hash k)"
  define e where "e = \<lparr>origKeyHash = hash k, hn_key = k, hn_value = d, hn_next = elementData m ! i\<rparr>"
  define css where "css = (hm_chains m)[i := a # hm_chains m ! i]"
  let ?m = "m\<lparr>hm_modCount := hm_modCount m + 1, hm_fresh := Suc a, hm_heap := (hm_heap m)(a \<mapsto> e), elementData := (elementData m)[i := Some a]\<rparr>"
  let ?m1 = "?m\<lparr>elementCount := elementCount ?m + 1\<rparr>"
  have i: "i < length (hm_chains m)" unfolding i_def using ok_slot [OF assms(1)] ok_facts(1) [OF assms(1)] by simp
  have fresh: "hm_heap m a = None" using ok_node [OF assms(1), of a] by (cases "hm_heap m a") (auto simp: a_def)
  then have new: "a \<notin> set (concat (hm_chains m))" using ok_nodes [OF assms(1)] by auto
  have C1: "placed ((hm_heap m)(a \<mapsto> e)) ((elementData m)[i := Some a]) css"
    unfolding css_def using new i ok_facts(1) [OF assms(1)] by (intro placed_insert ok_placed [OF assms(1)]) (simp_all add: e_def i_def)
  have "mset (concat css) = add_mset a (mset (concat (hm_chains m)))" unfolding css_def using i by (rule mset_concat_cons)
  then have "mset (concat css) = mset (a # concat (hm_chains m))" by simp
  then have C: "placed ((hm_heap m)(a \<mapsto> e)) ((elementData m)[i := Some a]) css" "distinct (concat css)" "set (concat css) = insert a (set (concat (hm_chains m)))"
      "length (concat css) = Suc (length (concat (hm_chains m)))"
    using C1 new ok_counts(1) [OF assms(1)] mset_eq_imp_distinct_iff mset_eq_setD mset_eq_length
    by (metis, metis distinct.simps(2), metis list.simps(15), metis length_Cons)
  have keys: "b = c" if "((hm_heap m)(a \<mapsto> e)) b = Some f" "((hm_heap m)(a \<mapsto> e)) c = Some g" "hn_key f = hn_key g" for b c f g
  proof -
    have "hn_key e = k" by (simp add: e_def)
    then have "hn_key f = k" if "b = a" using that \<open>((hm_heap m)(a \<mapsto> e)) b = Some f\<close> by simp
    moreover have "hn_key g = k" if "c = a" using that \<open>((hm_heap m)(a \<mapsto> e)) c = Some g\<close> \<open>hn_key e = k\<close> by simp
    moreover have "hm_heap m b = Some f" "hn_key f \<noteq> k" if "b \<noteq> a"
      using that \<open>((hm_heap m)(a \<mapsto> e)) b = Some f\<close> hm_absent(1) [OF assms, of b f] by simp_all
    moreover have "hm_heap m c = Some g" "hn_key g \<noteq> k" if "c \<noteq> a"
      using that \<open>((hm_heap m)(a \<mapsto> e)) c = Some g\<close> hm_absent(1) [OF assms, of c g] by simp_all
    ultimately show ?thesis using that(3) ok_key_unique [OF assms(1), of b f c g] by metis
  qed
  have nodes: "origKeyHash f = hash (hn_key f) \<and> b < Suc a" if "((hm_heap m)(a \<mapsto> e)) b = Some f" for b f
    using that ok_node [OF assms(1), of b f] by (auto simp: e_def a_def split: if_splits)
  have len: "length css = length (elementData m)" "length (hm_chains m) = length (elementData m)"
    using ok_facts(1) [OF assms(1)] by (simp_all add: css_def)
  have m1: "hm_heap ?m1 = (hm_heap m)(a \<mapsto> e)" "hm_fresh ?m1 = Suc a" by simp_all
  have "hm_rep hash ?m1 css"
  proof (rule hm_repI)
    show "b = c" if "hm_heap ?m1 b = Some f" "hm_heap ?m1 c = Some g" "hn_key f = hn_key g" for b c f g
      using that unfolding m1 by (rule keys)
    show "origKeyHash f = hash (hn_key f) \<and> b < hm_fresh ?m1" if "hm_heap ?m1 b = Some f" for b f
      using that unfolding m1 by (rule nodes)
  qed (use C ok_facts(2) [OF assms(1)] ok_counts [OF assms(1)] ok_nodes [OF assms(1)] len in simp_all)
  then have ok: "hm_ok hash ?m1" by (rule hm_rep_ok)
  have "map_of (hm_entries ?m1) = (map_of (hm_entries m))(k \<mapsto> d)"
  proof (rule hm_abs_eqI [OF ok])
    fix k' w
    have "(\<exists>b f. b \<noteq> a \<and> hm_heap m b = Some f \<and> hn_key f = k' \<and> hn_value f = w) \<longleftrightarrow> map_of (hm_entries m) k' = Some w"
      using hm_abs_iff [OF assms(1), of k' w] fresh by (metis option.distinct(1))
    then show "(\<exists>b f. hm_heap ?m1 b = Some f \<and> hn_key f = k' \<and> hn_value f = w) \<longleftrightarrow> ((map_of (hm_entries m))(k \<mapsto> d)) k' = Some w"
      using heap_upd_ex [of "hm_heap m" a e "\<lambda>f. hn_key f = k' \<and> hn_value f = w"] assms(2) by (auto simp: e_def)
  qed
  moreover have "createHashedEntry k (bucket_index (hash k) m) (hash k) d (m\<lparr>hm_modCount := hm_modCount m + 1\<rparr>) = (Ret a, ?m)"
    using ok_bucket [OF assms(1), of "hash k"] by (simp add: createHashedEntry_def Let_def bucket_def a_def e_def i_def)
  ultimately show thesis using that [of ?m] ok by (simp add: a_def e_def)
qed

text \<open>
  \<open>put\<close>: the map is updated, and the table at most grows four times, which happens when there are more entries than the
  threshold.  The table must be small enough that its successor can be allocated.
\<close>

lemma hm_count: "hm_ok hash m \<Longrightarrow> elementCount m = int (card (dom (map_of (hm_entries m))))"
proof -
  assume ok: "hm_ok hash m"
  have "length (map fst (hm_entries m)) = length (concat (hm_chains m))" by (simp add: hm_entries_def)
  then show ?thesis
    using distinct_card [OF hm_entries_distinct [OF ok]] ok_counts(2) [OF ok] by (simp add: dom_map_of_conv_image_fst)
qed

definition grows :: "('k, 'v) hashmap \<Rightarrow> ('k, 'v) hashmap \<Rightarrow> bool" where
  "grows m m' \<longleftrightarrow> loadFactor m' = loadFactor m \<and> length (elementData m) \<le> length (elementData m')
     \<and> (length (elementData m') = length (elementData m)
        \<or> length (elementData m') < 4 * length (elementData m) \<and> threshold m < elementCount m')"

lemma grow_effect:
  assumes "hm_ok hash m" and "length (elementData m) \<le> 2 ^ 27"
  obtains m' where "(if elementCount m > threshold m then rehash_table m else (Ret (), m)) = (Ret (), m')" and "hm_ok hash m'"
    and "same_map m m'" and "grows m m'"
proof (cases "elementCount m > threshold m")
  case True
  have n: "0 < length (elementData m)" using table_length_bounds(1) [OF ok_facts(2) [OF assms(1)]] .
  show ?thesis
    by (rule rehash_effect [OF assms(1) n assms(2)], rule that) (use True in \<open>auto simp: rehash_table_def grows_def same_map_def\<close>)
next
  case False
  then show ?thesis using that [of m] assms(1) same_map_refl by (auto simp: grows_def)
qed

lemma put_absent:
  assumes "hm_ok hash m" and "length (elementData m) \<le> 2 ^ 27" and "map_of (hm_entries m) k = None"
  shows "\<exists>m'. putImpl_old hash d k v oldValue m = (Ret (False, oldValue), m')
     \<and> hm_ok hash m' \<and> map_of (hm_entries m') = (map_of (hm_entries m))(k \<mapsto> v)
     \<and> hm_modCount m' = hm_modCount m + 1 \<and> grows m m'"
proof -
  obtain m1 where m1: "createHashedEntry k (bucket_index (hash k) m) (hash k) d (m\<lparr>hm_modCount := hm_modCount m + 1\<rparr>) = (Ret (hm_fresh m), m1)"
    and ok1: "hm_ok hash (m1\<lparr>elementCount := elementCount m1 + 1\<rparr>)" and f1: "elementCount m1 = elementCount m" "threshold m1 = threshold m"
    and map1: "map_of (hm_entries (m1\<lparr>elementCount := elementCount m1 + 1\<rparr>)) = (map_of (hm_entries m))(k \<mapsto> d)"
    and e1: "\<exists>e. hm_heap m1 (hm_fresh m) = Some e \<and> hn_key e = k" and l1: "loadFactor m1 = loadFactor m"
      "length (elementData m1) = length (elementData m)" "hm_modCount m1 = hm_modCount m + 1"
    by (rule createHashedEntry_effect [OF assms(1,3), of d]) (rule that)
  define m2 where "m2 = m1\<lparr>elementCount := elementCount m1 + 1\<rparr>"
  have "length (elementData m2) \<le> 2 ^ 27" using assms(2) l1(2) by (simp add: m2_def)
  then obtain m3 where m3: "(if elementCount m2 > threshold m2 then rehash_table m2 else (Ret (), m2)) = (Ret (), m3)"
    and ok3: "hm_ok hash m3" and s3: "same_map m2 m3" and g3: "grows m2 m3"
    by (rule grow_effect [OF ok1 [folded m2_def]]) (rule that)
  have map3: "map_of (hm_entries m3) = (map_of (hm_entries m))(k \<mapsto> d)"
    using same_data_entries [OF ok1 [folded m2_def] ok3] s3 map1 by (simp add: same_map_def m2_def)
  obtain e where "hm_heap m2 (hm_fresh m) = Some e" "hn_key e = k" using e1 by (auto simp: m2_def)
  then obtain f where f: "hm_heap m3 (hm_fresh m) = Some f" "hn_key f = k"
    using same_dataD [OF same_data_sym] s3 unfolding same_map_def by metis
  obtain m4 where m4: "setValue (hm_fresh m) v m3 = (Ret (), m4)" "hm_ok hash m4" "m4 = m3\<lparr>hm_heap := hm_heap m4\<rparr>"
    "map_of (hm_entries m4) = (map_of (hm_entries m3))(k \<mapsto> v)"
    by (rule setValue_effect [OF ok3 f(1), unfolded f(2)]) (rule that)
  have e4: "elementData m4 = elementData m3" "loadFactor m4 = loadFactor m3" "elementCount m4 = elementCount m3" "hm_modCount m4 = hm_modCount m3"
    by (subst m4(3), simp)+
  have "putImpl_old hash d k v oldValue m = (Ret (False, oldValue), m4)"
    unfolding putImpl_old_def Let_def hm_absent(2) [OF assms(1,3)] and_then.simps option.case m1
      m2_def [symmetric] m3 m4(1) ..
  moreover have "map_of (hm_entries m4) = (map_of (hm_entries m))(k \<mapsto> v)" using m4(4) map3 by simp
  moreover have "hm_modCount m4 = hm_modCount m + 1" using e4(4) s3 l1(3) by (simp add: same_map_def m2_def)
  moreover have "grows m m4" using g3 e4 l1 f1 unfolding grows_def by (simp add: m2_def)
  ultimately show ?thesis using m4(2) by blast
qed

lemma put_present:
  assumes "hm_ok hash m" and "map_of (hm_entries m) k = Some w"
  shows "\<exists>m'. putImpl_old hash d k v oldValue m = (Ret (True, w), m')
     \<and> hm_ok hash m' \<and> map_of (hm_entries m') = (map_of (hm_entries m))(k \<mapsto> v)
     \<and> hm_modCount m' = hm_modCount m \<and> grows m m'"
proof (rule hm_present [OF assms])
  fix a e
  assume e: "hm_heap m a = Some e" "hn_key e = k" "hn_value e = w"
    and find: "findKeyEntry k (bucket_index (hash k) m) (hash k) m = Ret (Some a)"
  obtain m' where m': "setValue a v m = (Ret (), m')" "hm_ok hash m'" "m' = m\<lparr>hm_heap := hm_heap m'\<rparr>"
    "map_of (hm_entries m') = (map_of (hm_entries m))(k \<mapsto> v)"
    by (rule setValue_effect [OF assms(1) e(1), unfolded e(2)]) (rule that)
  have "elementData m' = elementData m" "loadFactor m' = loadFactor m" "hm_modCount m' = hm_modCount m" by (subst m'(3), simp)+
  then have "hm_modCount m' = hm_modCount m" "grows m m'" by (simp_all add: grows_def)
  moreover have "getValue a m = Ret w" using e by (simp add: getValue_def)
  then have "putImpl_old hash d k v oldValue m = (Ret (True, w), m')"
    unfolding putImpl_old_def Let_def find and_then.simps option.case by (simp add: m'(1))
  ultimately show ?thesis using m' by blast
qed

lemma putImpl_effect:
  assumes "hm_ok hash m" and "length (elementData m) \<le> 2 ^ 27"
  obtains m' where "putImpl hash d k v m = (Ret (map_of (hm_entries m) k \<noteq> None), m')"
    and "hm_ok hash m'" and "map_of (hm_entries m') = (map_of (hm_entries m))(k \<mapsto> v)"
    and "hm_modCount m' = hm_modCount m + (if map_of (hm_entries m) k = None then 1 else 0)" and "grows m m'"
proof (cases "map_of (hm_entries m) k")
  case None
  then show ?thesis using put_absent [OF assms None, of d v d] that by (auto simp: putImpl_def)
next
  case (Some w)
  then show ?thesis using put_present [OF assms(1) Some, of d v d] that by (auto simp: putImpl_def)
qed

section \<open>Removing entries\<close>

text \<open>A map after one of its entries has been taken out of its chain and deleted.\<close>

lemma rep_delete:
  assumes "hm_ok hash m" and "hm_heap m a = Some e" and "i < length (hm_chains m)" and "hm_chains m ! i = as @ a # bs"
    and "same_data (hm_heap m) h" and "placed (h(a := None)) ps ((hm_chains m)[i := as @ bs])"
  shows "hm_rep hash (count_removal (m\<lparr>hm_heap := h(a := None), elementData := ps\<rparr>)) ((hm_chains m)[i := as @ bs])"
    (is "hm_rep hash ?m ?css")
proof -
  have m: "hm_heap ?m = h(a := None)" "hm_fresh ?m = hm_fresh m" by (simp_all add: count_removal_def)
  have "mset (concat (hm_chains m)) = mset (a # concat ?css)"
    using concat_update [OF assms(3)] assms(4) by simp
  then have css: "distinct (a # concat ?css)" "set (concat (hm_chains m)) = set (a # concat ?css)"
      "length (concat (hm_chains m)) = Suc (length (concat ?css))"
    using ok_counts(1) [OF assms(1)] mset_eq_imp_distinct_iff mset_eq_setD mset_eq_length by (metis, metis, metis length_Cons)
  show ?thesis
  proof (rule hm_repI)
    show "placed (hm_heap ?m) (elementData ?m) ?css" using assms(6) by (simp add: count_removal_def)
    show "dom (hm_heap ?m) = set (concat ?css)"
      using css(1,2) ok_nodes [OF assms(1)] same_data_dom [OF assms(5)] unfolding m dom_fun_upd by auto
    show "origKeyHash f = hash (hn_key f) \<and> b < hm_fresh ?m" if "hm_heap ?m b = Some f" for b f
    proof -
      have "h b = Some f" using that unfolding m by (simp split: if_splits)
      from same_dataD [OF assms(5) this] show ?thesis using ok_node [OF assms(1)] m(2) by metis
    qed
    show "b = c" if "hm_heap ?m b = Some f" "hm_heap ?m c = Some g" "hn_key f = hn_key g" for b c f g
    proof -
      have "h b = Some f" "h c = Some g" using that(1,2) unfolding m by (simp_all split: if_splits)
      from same_dataD [OF assms(5) this(1)] same_dataD [OF assms(5) this(2)] that(3)
      show ?thesis using ok_key_unique [OF assms(1)] by metis
    qed
  qed (use css ok_counts [OF assms(1)] ok_facts(1,2) [OF assms(1)] in \<open>simp_all add: count_removal_def\<close>)
qed

lemma delete_entries:
  assumes "hm_ok hash m" and "hm_heap m a = Some e" and "same_data (hm_heap m) h" and "hm_ok hash m'" and "hm_heap m' = h(a := None)"
  shows "map_of (hm_entries m') = (map_of (hm_entries m))(hn_key e := None)"
proof (rule hm_abs_eqI [OF assms(4)])
  fix k w
  have "(\<exists>b f. b \<noteq> a \<and> h b = Some f \<and> hn_key f = k \<and> hn_value f = w)
      \<longleftrightarrow> (\<exists>b f. b \<noteq> a \<and> hm_heap m b = Some f \<and> hn_key f = k \<and> hn_value f = w)"
    using same_dataD [OF assms(3)] same_dataD [OF same_data_sym [OF assms(3)]] by metis
  also have "\<dots> \<longleftrightarrow> k \<noteq> hn_key e \<and> (\<exists>b f. hm_heap m b = Some f \<and> hn_key f = k \<and> hn_value f = w)"
    using ok_key_unique [OF assms(1) _ assms(2)] assms(2) by (metis option.inject)
  finally show "(\<exists>b f. hm_heap m' b = Some f \<and> hn_key f = k \<and> hn_value f = w) \<longleftrightarrow> ((map_of (hm_entries m))(hn_key e := None)) k = Some w"
    using hm_abs_iff [OF assms(1), of k w] unfolding assms(5) by (auto split: if_splits)
qed

text \<open>The two ways to take an entry out: it is the head of its chain, or it has a predecessor.\<close>

lemma placed_unlink:
  assumes "placed h ps css" and "distinct (concat css)" and "i < length css" and "css ! i = as @ a # bs" and "h a = Some e"
  shows "as = [] \<Longrightarrow> placed (h(a := None)) (ps[i := hn_next e]) (css[i := as @ bs])"
    and "as = cs @ [l] \<Longrightarrow> h l = Some f \<Longrightarrow>
      placed (h(l \<mapsto> f\<lparr>hn_next := hn_next e\<rparr>, a := None)) ps (css[i := as @ bs])"
proof -
  have len: "length ps = length css" using assms(1) by (simp add: placed_def)
  have C: "hchain h (ps ! i) (as @ a # bs)" using assms(1,3,4) by (auto simp: placed_def)
  have D: "distinct (as @ a # bs)" using concat_nth_distinct [OF assms(2,3)] assms(4) by simp
  have others: "set (css ! j) \<inter> set (as @ a # bs) = {}" if "j < length css" "j \<noteq> i" for j
    using concat_nth_disjoint [OF assms(2) that(1) assms(3)] that(2) assms(4) by (metis disjoint_iff)
  show "placed (h(a := None)) (ps[i := hn_next e]) (css[i := as @ bs])" if "as = []"
    unfolding placed_def
  proof (intro conjI allI impI)
    fix j
    assume "j < length (css[i := as @ bs])"
    then have j: "j < length css" by simp
    show "hchain (h(a := None)) (ps[i := hn_next e] ! j) (css[i := as @ bs] ! j)"
    proof (cases "j = i")
      case True
      then show ?thesis using that C D assms(5) len j by (auto intro: hchain_upd)
    next
      case False
      then show ?thesis using others [OF j False] assms(1) j by (simp add: placed_def hchain_upd)
    qed
    show "\<forall>b \<in> set (css[i := as @ bs] ! j). \<exists>f. (h(a := None)) b = Some f \<and> slot (length (css[i := as @ bs])) (origKeyHash f) = j"
      using placedD [OF assms(1) j] others [OF j] D assms(4) that j by (cases "j = i") auto
  qed (simp add: len)
  show "placed (h(l \<mapsto> f\<lparr>hn_next := hn_next e\<rparr>, a := None)) ps (css[i := as @ bs])"
    if cs: "as = cs @ [l]" and l: "h l = Some f"
    unfolding placed_def
  proof (intro conjI allI impI)
    define h1 where "h1 = h(l \<mapsto> f\<lparr>hn_next := hn_next e\<rparr>)"
    fix j
    assume "j < length (css[i := as @ bs])"
    then have j: "j < length css" by simp
    show "hchain (h(l \<mapsto> f\<lparr>hn_next := hn_next e\<rparr>, a := None)) (ps ! j) (css[i := as @ bs] ! j)"
      unfolding h1_def [symmetric]
    proof (cases "j = i")
      case True
      have "hchain h (ps ! i) (cs @ l # a # bs)" "distinct (cs @ l # a # bs)" using C D cs by simp_all
      then have "hchain h1 (ps ! i) (cs @ l # bs)" unfolding h1_def using assms(5) l by (rule hchain_unlink)
      then have "hchain h1 (ps ! i) (as @ bs)" using cs by simp
      then show "hchain (h1(a := None)) (ps ! j) (css[i := as @ bs] ! j)" using True D j by (intro hchain_upd) auto
    next
      case False
      have "l \<in> set (as @ a # bs)" using cs by simp
      then have "l \<notin> set (css ! j)" "a \<notin> set (css ! j)" using others [OF j False] by auto
      then show "hchain (h1(a := None)) (ps ! j) (css[i := as @ bs] ! j)"
        using False assms(1) j unfolding h1_def by (simp add: placed_def hchain_upd)
    qed
    show "\<forall>b \<in> set (css[i := as @ bs] ! j). \<exists>g. (h(l \<mapsto> f\<lparr>hn_next := hn_next e\<rparr>, a := None)) b = Some g
        \<and> slot (length (css[i := as @ bs])) (origKeyHash g) = j"
    proof
      fix b
      assume "b \<in> set (css[i := as @ bs] ! j)"
      then have b: "b \<in> set (css ! j)" "b \<noteq> a" using others [OF j] D assms(4) j by (cases "j = i"; auto)+
      obtain g where "h b = Some g" "slot (length css) (origKeyHash g) = j" using placedD [OF assms(1) j b(1)] by blast
      with b(2) l show "\<exists>g. (h(l \<mapsto> f\<lparr>hn_next := hn_next e\<rparr>, a := None)) b = Some g \<and> slot (length (css[i := as @ bs])) (origKeyHash g) = j"
        by (cases "b = l") auto
    qed
  qed (simp add: len)
qed

text \<open>What is true after an entry is gone.\<close>

definition removed :: "('k \<Rightarrow> u32) \<Rightarrow> addr \<Rightarrow> ('k, 'v) hashmap \<Rightarrow> ('k, 'v) hashmap \<Rightarrow> bool" where
  "removed hash a m m' \<longleftrightarrow> hm_heap m a \<noteq> None \<and> hm_ok hash m' \<and> concat (hm_chains m') = remove1 a (concat (hm_chains m))
     \<and> map_of (hm_entries m') = (map_of (hm_entries m))(hn_key (the (hm_heap m a)) := None)
     \<and> length (elementData m') = length (elementData m) \<and> loadFactor m' = loadFactor m \<and> hm_modCount m' = hm_modCount m + 1
     \<and> same_data ((hm_heap m)(a := None)) (hm_heap m') \<and> elementCount m' = elementCount m - 1"

lemma remove1_concat:
  assumes "distinct (concat css)" and "i < length css" and "css ! i = as @ a # bs"
  shows "concat (css[i := as @ bs]) = remove1 a (concat css)"
  using assms(1) concat_update(1) [OF assms(2)] concat_update(2) [OF assms(2), of "as @ bs"] assms(3)
  by (simp add: remove1_append)

lemma ok_split:
  assumes "hm_ok hash m" and "hm_heap m a = Some e"
  obtains as bs where "hm_chains m ! slot (length (elementData m)) (hash (hn_key e)) = as @ a # bs"
  using ok_location [OF assms] by (auto simp: in_set_conv_decomp)

lemma unlink_effect:
  assumes "hm_ok hash m" and "hm_heap m a = Some e" and "i = slot (length (elementData m)) (hash (hn_key e))"
    and "hm_chains m ! i = as @ a # bs"
  obtains m1 where "(if as = [] then set_head (int i) (hn_next e) m else set_next (List.last as) (hn_next e) m) = (Ret (), m1)"
    and "hm_heap m1 a = Some e" and "removed hash a m (count_removal (m1\<lparr>hm_heap := (hm_heap m1)(a := None)\<rparr>))"
    and "hm_chains (count_removal (m1\<lparr>hm_heap := (hm_heap m1)(a := None)\<rparr>)) = (hm_chains m)[i := as @ bs]"
proof -
  have i: "i < length (hm_chains m)" "i < length (elementData m)"
    using ok_slot [OF assms(1)] ok_facts(1) [OF assms(1)] assms(3) by simp_all
  have D: "distinct (as @ a # bs)" using ok_facts(5) [OF assms(1) i(2)] assms(4) by simp
  note U = placed_unlink [OF ok_placed [OF assms(1)] ok_counts(1) [OF assms(1)] i(1) assms(4,2)]
  note goal = that
  have finish: thesis if r: "(if as = [] then set_head (int i) (hn_next e) m else set_next (List.last as) (hn_next e) m)
        = (Ret (), m\<lparr>hm_heap := h, elementData := ps\<rparr>)"
      and h: "same_data (hm_heap m) h" "h a = Some e" and p: "placed (h(a := None)) ps ((hm_chains m)[i := as @ bs])" for h ps
  proof (rule goal [OF r])
    let ?m = "count_removal (m\<lparr>hm_heap := h(a := None), elementData := ps\<rparr>)"
    have rep: "hm_rep hash ?m ((hm_chains m)[i := as @ bs])" using rep_delete [OF assms(1,2) i(1) assms(4) h(1) p] .
    then have "concat (hm_chains ?m) = remove1 a (concat (hm_chains m))"
      using rep_chains [OF rep] remove1_concat [OF ok_counts(1) [OF assms(1)] i(1) assms(4)] by simp
    moreover have "map_of (hm_entries ?m) = (map_of (hm_entries m))(hn_key e := None)"
      by (rule delete_entries [OF assms(1,2) h(1) hm_rep_ok [OF rep]]) (simp add: count_removal_def)
    moreover have "same_data ((hm_heap m)(a := None)) (h(a := None))" using h(1) by (simp add: same_data_def)
    moreover have "length ps = length (elementData m)" using p ok_facts(1) [OF assms(1)] by (simp add: placed_def)
    ultimately have "removed hash a m ?m"
      using hm_rep_ok [OF rep] assms(2) unfolding removed_def by (simp add: count_removal_def fun_upd_def)
    moreover have "count_removal ((m\<lparr>hm_heap := h, elementData := ps\<rparr>)
        \<lparr>hm_heap := (hm_heap (m\<lparr>hm_heap := h, elementData := ps\<rparr>))(a := None)\<rparr>) = ?m" (is "?m' = ?m")
      by (simp add: count_removal_def)
    ultimately show "removed hash a m ?m'" "hm_chains ?m' = (hm_chains m)[i := as @ bs]"
      using rep_chains [OF rep] by (simp_all only:)
  qed (simp add: h)
  show thesis
  proof (cases as rule: rev_cases)
    case Nil
    show ?thesis
      by (rule finish [where h = "hm_heap m" and ps = "(elementData m)[i := hn_next e]"])
        (use Nil U(1) assms(2) i ok_bucket(2) [OF assms(1)] in \<open>auto simp: set_head_def bucket_def ap_get_def same_data_def\<close>)
  next
    case (snoc cs l)
    then have "l \<in> set (hm_chains m ! i)" "l \<noteq> a" using assms(4) D by auto
    then obtain f where f: "hm_heap m l = Some f" using placedD [OF ok_placed [OF assms(1)] i(1)] by blast
    show ?thesis
      by (rule finish [where h = "(hm_heap m)(l \<mapsto> f\<lparr>hn_next := hn_next e\<rparr>)" and ps = "elementData m"])
        (use snoc f U(2) [OF snoc f] \<open>l \<noteq> a\<close> assms(2) in \<open>auto simp: set_next_def same_data_def\<close>)
  qed
qed

lemma count_removal_heap: "count_removal (m\<lparr>hm_heap := h\<rparr>) = (count_removal m)\<lparr>hm_heap := h\<rparr>" "hm_heap (count_removal m) = hm_heap m"
  by (simp_all add: count_removal_def)

text \<open>\<^verbatim>\<open>removeEntry(key)\<close> leaves it to the caller to delete the entry.\<close>

lemma removeEntry_key_present:
  assumes "hm_ok hash m" and "hm_heap m a = Some e" and "hn_key e = k"
  obtains m1 where "removeEntry_key hash k m = (Ret (Some a), m1)" and "hm_heap m1 a = Some e"
    and "removed hash a m (m1\<lparr>hm_heap := (hm_heap m1)(a := None)\<rparr>)"
proof -
  define i where "i = slot (length (elementData m)) (hash (hn_key e))"
  obtain as bs where split: "hm_chains m ! i = as @ a # bs" unfolding i_def by (rule ok_split [OF assms(1,2)])
  have i: "i < length (elementData m)" unfolding i_def using ok_slot [OF assms(1)] .
  have index: "bucket_index (hash k) m = int i" "bucket (int i) m = Ret (elementData m ! i)"
    using ok_bucket [OF assms(1), of "hash k"] by (simp_all add: i_def assms(3))
  have C: "hchain (hm_heap m) (elementData m ! i) (as @ a # bs)" "distinct (as @ a # bs)" "length (as @ a # bs) < chain_fuel m"
    using ok_facts(3-5) [OF assms(1) i] split by simp_all
  have "hn_key f \<noteq> k" if "b \<in> set as" "hm_heap m b = Some f" for b f
    using that C(2) ok_key_unique [OF assms(1) that(2) assms(2)] assms(3) by auto
  then have "remove_loop (chain_fuel m) (hm_heap m) k (hash k) None (elementData m ! i)
      = Ret (if as = [] then None else Some (List.last as), Some a)"
    using C(3) ok_node [OF assms(1,2)] assms(3) by (intro remove_loop_chain [OF C(1) assms(2)]) auto
  moreover obtain m1 where m1: "(if as = [] then set_head (int i) (hn_next e) m else set_next (List.last as) (hn_next e) m) = (Ret (), m1)"
    "hm_heap m1 a = Some e" "removed hash a m (count_removal (m1\<lparr>hm_heap := (hm_heap m1)(a := None)\<rparr>))"
    by (rule unlink_effect [OF assms(1,2) i_def split]) (rule that)
  ultimately have "removeEntry_key hash k m = (Ret (Some a), count_removal m1)"
    using assms(2) by (simp add: removeEntry_key_def Let_def index get_node_def del: remove_loop.simps split: if_splits)
  then show thesis using that [of "count_removal m1"] m1(2,3) by (simp add: count_removal_heap)
qed

lemma removeEntry_key_absent:
  assumes "hm_ok hash m" and "\<And>a e. hm_heap m a = Some e \<Longrightarrow> hn_key e \<noteq> k"
  shows "removeEntry_key hash k m = (Ret None, m)"
proof -
  define i where "i = slot (length (elementData m)) (hash k)"
  have i: "i < length (elementData m)" unfolding i_def using ok_slot [OF assms(1)] .
  have index: "bucket_index (hash k) m = int i" "bucket (int i) m = Ret (elementData m ! i)"
    using ok_bucket [OF assms(1), of "hash k"] by (simp_all add: i_def)
  have "\<exists>l. remove_loop (chain_fuel m) (hm_heap m) k (hash k) None (elementData m ! i) = Ret (l, None)"
    by (rule remove_loop_none [OF ok_facts(3) [OF assms(1) i] _ ok_facts(4) [OF assms(1) i]]) (rule assms(2))
  then obtain l where "remove_loop (chain_fuel m) (hm_heap m) k (hash k) None (elementData m ! i) = Ret (l, None)" ..
  then show ?thesis by (simp add: removeEntry_key_def Let_def index del: remove_loop.simps)
qed

lemma hm_remove_effect:
  assumes "hm_ok hash m"
  shows "map_of (hm_entries m) k = None \<Longrightarrow>
      hm_remove hash k m = (Throw (NoSuchElementException ''Specified key not present in the Map.''), m)"
    and "map_of (hm_entries m) k = Some v \<Longrightarrow>
      \<exists>m' a e. hm_remove hash k m = (Ret v, m') \<and> hm_heap m a = Some e \<and> hn_key e = k \<and> removed hash a m m'"
proof -
  show "hm_remove hash k m = (Throw (NoSuchElementException ''Specified key not present in the Map.''), m)"
    if "map_of (hm_entries m) k = None"
    using removeEntry_key_absent [OF assms hm_absent(1) [OF assms that]] by (simp add: hm_remove_def)
  assume "map_of (hm_entries m) k = Some v"
  then obtain a e where e: "hm_heap m a = Some e" "hn_key e = k" "hn_value e = v" by (rule hm_present [OF assms])
  obtain m1 where m1: "removeEntry_key hash k m = (Ret (Some a), m1)" "hm_heap m1 a = Some e"
    "removed hash a m (m1\<lparr>hm_heap := (hm_heap m1)(a := None)\<rparr>)"
    by (rule removeEntry_key_present [OF assms e(1,2)]) (rule that)
  then have "hm_remove hash k m = (Ret v, m1\<lparr>hm_heap := (hm_heap m1)(a := None)\<rparr>)"
    by (simp add: hm_remove_def getValue_def delete_node_def e(3))
  then show "\<exists>m' a e. hm_remove hash k m = (Ret v, m') \<and> hm_heap m a = Some e \<and> hn_key e = k \<and> removed hash a m m'"
    using m1(3) e(1,2) by blast
qed

text \<open>\<^verbatim>\<open>removeEntry(entry)\<close>.\<close>

lemma removeEntry_effect:
  assumes "hm_ok hash m" and "hm_heap m a = Some e"
  obtains m' where "removeEntry a m = (Ret (), m')" and "removed hash a m m'"
proof -
  define i where "i = slot (length (elementData m)) (hash (hn_key e))"
  obtain as bs where split: "hm_chains m ! i = as @ a # bs" unfolding i_def by (rule ok_split [OF assms(1,2)])
  have i: "i < length (elementData m)" unfolding i_def using ok_slot [OF assms(1)] .
  have index: "bucket_index (origKeyHash e) m = int i" "bucket (int i) m = Ret (elementData m ! i)"
    using ok_bucket [OF assms(1), of "origKeyHash e"] ok_node [OF assms] by (simp_all add: i_def)
  have C: "hchain (hm_heap m) (elementData m ! i) (as @ a # bs)" "distinct (as @ a # bs)" "length (as @ a # bs) < chain_fuel m"
    using ok_facts(3-5) [OF assms(1) i] split by simp_all
  obtain m1 where m1: "(if as = [] then set_head (int i) (hn_next e) m else set_next (List.last as) (hn_next e) m) = (Ret (), m1)"
    "hm_heap m1 a = Some e" "removed hash a m (count_removal (m1\<lparr>hm_heap := (hm_heap m1)(a := None)\<rparr>))"
    by (rule unlink_effect [OF assms i_def split]) (rule that)
  have U: "(if elementData m ! i = Some a then set_head (int i) (hn_next e) m
         else and_then (pred_loop (chain_fuel m) (hm_heap m) a (elementData m ! i), m) (\<lambda>l m. set_next l (hn_next e) m)) = (Ret (), m1)"
  proof (cases as rule: rev_cases)
    case Nil
    then show ?thesis using m1(1) C(1) by simp
  next
    case (snoc cs l)
    then have "pred_loop (chain_fuel m) (hm_heap m) a (elementData m ! i) = Ret l"
      using C by (intro pred_loop_chain [of _ _ cs l a bs]) auto
    moreover have "elementData m ! i \<noteq> Some a" using C(1,2) snoc by (cases cs) auto
    ultimately show ?thesis using m1(1) snoc by (simp del: pred_loop.simps)
  qed
  have "get_node a m = Ret e" using assms(2) by (simp add: get_node_def)
  then have "removeEntry a m = and_then (delete_node a m1) (\<lambda>_ m. (Ret (), count_removal m))"
    unfolding removeEntry_def Let_def by (simp only: and_then.simps index U)
  also have "\<dots> = (Ret (), count_removal (m1\<lparr>hm_heap := (hm_heap m1)(a := None)\<rparr>))" using m1(2) by (simp add: delete_node_def)
  finally show thesis using m1(3) by (rule that)
qed

section \<open>Clearing, copying and sequences of calls\<close>

lemma free_buckets_effect:
  assumes "length ps = length css" and "\<And>i. i < length css \<Longrightarrow> hchain h (ps ! i) (css ! i) \<and> length (css ! i) < n"
    and "distinct (concat css)"
  shows "free_buckets n h ps = Ret (\<lambda>a. if a \<in> set (concat css) then None else h a)"
  using assms
proof (induction ps css arbitrary: h rule: list_induct2)
  case (Cons p ps c css)
  have c: "hchain h p c" "length c < n" "distinct c" "set c \<inter> set (concat css) = {}"
    using Cons.prems(1) [of 0] Cons.prems(2) by (simp_all only: concat.simps distinct_append) auto
  define h1 where "h1 = (\<lambda>a. if a \<in> set c then None else h a)"
  have "hchain h1 (ps ! i) (css ! i) \<and> length (css ! i) < n" if i: "i < length css" for i
  proof
    have C: "hchain h (ps ! i) (css ! i)" using Cons.prems(1) [of "Suc i"] i by simp
    have "set (css ! i) \<inter> set c = {}" using c(4) concat_nth_in [OF i] by blast
    then have "h1 b = h b" if "b \<in> set (css ! i)" for b using that by (auto simp: h1_def)
    then show "hchain h1 (ps ! i) (css ! i)" by (rule hchain_frame [OF C])
    show "length (css ! i) < n" using Cons.prems(1) [of "Suc i"] i by simp
  qed
  then have "free_buckets n h1 ps = Ret (\<lambda>a. if a \<in> set (concat css) then None else h1 a)"
    using Cons.prems(2) by (intro Cons.IH) auto
  moreover have "(\<lambda>a. if a \<in> set (concat css) then None else h1 a) = (\<lambda>a. if a \<in> set (concat (c # css)) then None else h a)"
    by (auto simp: h1_def)
  moreover have "free_chain n h p = Ret h1" unfolding h1_def using c(1-3) by (rule free_chain_chain)
  ultimately show ?case by (simp only: free_buckets.simps outcome.case)
qed simp

lemma free_all:
  assumes "hm_ok hash m"
  shows "free_buckets (chain_fuel m) (hm_heap m) (elementData m) = Ret (\<lambda>_. None)"
proof -
  have "free_buckets (chain_fuel m) (hm_heap m) (elementData m) = Ret (\<lambda>a. if a \<in> set (concat (hm_chains m)) then None else hm_heap m a)"
    using ok_facts [OF assms] ok_counts(1) [OF assms] by (intro free_buckets_effect) auto
  also have "(\<lambda>a. if a \<in> set (concat (hm_chains m)) then None else hm_heap m a) = (\<lambda>_. None)"
    unfolding ok_nodes [OF assms] by auto
  finally show ?thesis .
qed

lemma rep_empty:
  assumes "table_length n" and "elementData m = replicate n None" and "hm_heap m = (\<lambda>_. None)" and "elementCount m = 0"
    and "0 < loadFactor m" and "loadFactor m < 4" and "threshold m = \<lfloor>of_nat n * loadFactor m\<rfloor>"
  shows "hm_rep hash m (replicate n [])"
  by (rule hm_repI) (use assms placed_empty [of "\<lambda>_. None" n] in \<open>simp_all add: dom_def\<close>)

lemma rep_empty_entries: "hm_rep hash m (replicate n []) \<Longrightarrow> hm_entries m = []"
  by (simp add: hm_entries_def rep_chains)

lemma hm_clear_effect:
  assumes "hm_ok hash m"
  obtains m' where "hm_clear m = (Ret (), m')" and "hm_ok hash m'" and "hm_entries m' = []" and "loadFactor m' = loadFactor m"
    and "length (elementData m') = length (elementData m)"
    and "hm_modCount m' = hm_modCount m + (if hm_entries m = [] then 0 else 1)"
proof (cases "elementCount m > 0")
  case True
  let ?m = "m\<lparr>elementCount := 0, hm_heap := \<lambda>_. None, elementData := replicate (length (elementData m)) None, hm_modCount := hm_modCount m + 1\<rparr>"
  have "hm_entries m \<noteq> []" using True ok_counts(2) [OF assms] by (auto simp: hm_entries_def)
  moreover have "hm_clear m = (Ret (), ?m)" using True free_all [OF assms] by (simp add: hm_clear_def del: free_buckets.simps)
  moreover have "hm_rep hash ?m (replicate (length (elementData m)) [])"
    using ok_facts(1,2) [OF assms] ok_counts(3-5) [OF assms] by (intro rep_empty) simp_all
  ultimately show ?thesis using rep_empty_entries [of hash ?m] by (intro that [of ?m]) (simp_all add: hm_rep_ok)
next
  case False
  then have "hm_entries m = []" using ok_counts(2) [OF assms] by (simp add: hm_entries_def)
  with False assms show ?thesis by (intro that [of m]) (simp_all add: hm_clear_def)
qed

text \<open>
  With the default load factor, the length of the table is bounded by the number of entries that were put into the map.
\<close>

definition hm_small :: "nat \<Rightarrow> ('k, 'v) hashmap \<Rightarrow> bool" where
  "hm_small w m \<longleftrightarrow> loadFactor m = 3 / 4 \<and> length (elementData m) \<le> max 16 (8 * w) \<and> elementCount m \<le> int w"

lemma hm_small_length: "hm_small w m \<Longrightarrow> w \<le> 2 ^ 24 \<Longrightarrow> length (elementData m) \<le> 2 ^ 27"
  by (auto simp: hm_small_def max_def split: if_splits)

lemma hm_small_mono: "hm_small w m \<Longrightarrow> w \<le> w' \<Longrightarrow> hm_small w' m"
  by (auto simp: hm_small_def)

lemma grows_small:
  assumes "hm_ok hash m" and "hm_small w m" and "grows m m'" and "elementCount m' \<le> int (Suc w)"
  shows "hm_small (Suc w) m'"
proof -
  have "length (elementData m') \<le> max 16 (8 * Suc w)"
  proof (cases "length (elementData m') = length (elementData m)")
    case True
    then show ?thesis using assms(2) by (auto simp: hm_small_def)
  next
    case False
    then have g: "length (elementData m') < 4 * length (elementData m)" "threshold m < elementCount m'"
      using assms(3) by (auto simp: grows_def)
    have lf: "loadFactor m = 3 / 4" using assms(2) by (simp only: hm_small_def)
    have "threshold m = \<lfloor>of_nat (length (elementData m)) * (3 / 4 :: rat)\<rfloor>"
      using ok_counts(5) [OF assms(1)] unfolding lf ok_facts(1) [OF assms(1)] .
    then have "\<lfloor>of_nat (length (elementData m)) * (3 / 4 :: rat)\<rfloor> < int (Suc w)" using g(2) assms(4) by linarith
    then have "(of_nat (length (elementData m)) :: rat) * 3 < of_nat (4 * Suc w)" by (simp add: floor_less_iff)
    then have "(of_nat (length (elementData m) * 3) :: rat) < of_nat (4 * Suc w)" by simp
    then have "length (elementData m) * 3 < 4 * Suc w" by (subst (asm) of_nat_less_iff)
    then show ?thesis using g(1) by simp
  qed
  then show ?thesis using assms by (simp add: hm_small_def grows_def)
qed

lemma hm_put_small:
  assumes "hm_ok hash m" and "hm_small w m" and "w \<le> 2 ^ 24"
  obtains m' where "putImpl hash d k v m = (Ret (map_of (hm_entries m) k \<noteq> None), m')" and "hm_ok hash m'" and "hm_small (Suc w) m'"
    and "map_of (hm_entries m') = (map_of (hm_entries m))(k \<mapsto> v)"
    and "hm_modCount m' = hm_modCount m + (if map_of (hm_entries m) k = None then 1 else 0)"
proof (rule putImpl_effect [OF assms(1) hm_small_length [OF assms(2,3)]])
  fix m'
  assume m': "putImpl hash d k v m = (Ret (map_of (hm_entries m) k \<noteq> None), m')" "hm_ok hash m'"
    "map_of (hm_entries m') = (map_of (hm_entries m))(k \<mapsto> v)"
    "hm_modCount m' = hm_modCount m + (if map_of (hm_entries m) k = None then 1 else 0)" "grows m m'"
  have "card (insert k (dom (map_of (hm_entries m)))) \<le> Suc (card (dom (map_of (hm_entries m))))"
    by (rule card_insert_le_m1) simp_all
  then have "elementCount m' \<le> elementCount m + 1" using hm_count [OF m'(2)] hm_count [OF assms(1)] by (simp add: m'(3))
  then have "elementCount m' \<le> int (Suc w)" using assms(2) by (simp add: hm_small_def)
  then show thesis using that m' grows_small [OF assms(1,2) m'(5)] by blast
qed

lemma put_each_effect:
  assumes "hm_ok hash m" and "hm_small w m" and "w + length es \<le> 2 ^ 24"
  shows "\<exists>m'. put_each hash d es m = (Ret (), m') \<and> hm_ok hash m' \<and> hm_small (w + length es) m'
     \<and> map_of (hm_entries m') = map_of (hm_entries m) ++ map_of (rev es)
     \<and> (fst ` set es \<subseteq> dom (map_of (hm_entries m)) \<longrightarrow> hm_modCount m' = hm_modCount m)"
  using assms
proof (induction es arbitrary: m w)
  case (Cons x es)
  obtain k v where x: "x = (k, v)" by (cases x)
  have w: "w \<le> 2 ^ 24" using Cons.prems(3) by simp
  obtain m1 where m1: "putImpl hash d k v m = (Ret (map_of (hm_entries m) k \<noteq> None), m1)" "hm_ok hash m1" "hm_small (Suc w) m1"
    "map_of (hm_entries m1) = (map_of (hm_entries m))(k \<mapsto> v)"
    "hm_modCount m1 = hm_modCount m + (if map_of (hm_entries m) k = None then 1 else 0)"
    by (rule hm_put_small [OF Cons.prems(1,2) w]) (rule that)
  have "Suc w + length es \<le> 2 ^ 24" using Cons.prems(3) by simp
  with Cons.IH [OF m1(2,3)] obtain m2 where m2: "put_each hash d es m1 = (Ret (), m2)" "hm_ok hash m2" "hm_small (Suc w + length es) m2"
    "map_of (hm_entries m2) = map_of (hm_entries m1) ++ map_of (rev es)"
    "fst ` set es \<subseteq> dom (map_of (hm_entries m1)) \<longrightarrow> hm_modCount m2 = hm_modCount m1" by blast
  have "map_of (hm_entries m2) = map_of (hm_entries m) ++ map_of (rev (x # es))"
    unfolding m2(4) m1(4) x by (auto simp: map_add_def fun_eq_iff split: option.split)
  moreover have "hm_modCount m2 = hm_modCount m" if "fst ` set (x # es) \<subseteq> dom (map_of (hm_entries m))"
    using that m1(5) m2(5) unfolding m1(4) x by (auto split: if_splits)
  ultimately show ?case using m1(1) m2(1-3) x by auto
qed simp

lemma putAll_effect:
  assumes "hm_ok hash m" and "hm_small w m" and "w + 2 * length es \<le> 2 ^ 24"
  shows "\<exists>m'. hm_putAll hash d es m = (Ret (), m') \<and> hm_ok hash m' \<and> hm_small (w + 2 * length es) m'
     \<and> map_of (hm_entries m') = map_of (hm_entries m) ++ map_of (rev es)
     \<and> (fst ` set es \<subseteq> dom (map_of (hm_entries m)) \<longrightarrow> hm_modCount m' = hm_modCount m)"
proof (cases "es = []")
  case True
  then show ?thesis using assms by (simp add: hm_putAll_def)
next
  case es: False
  define c where "c = nat (elementCount m) + length es"
  have c: "elementCount m + int (length es) = int c" "0 < c" "c \<le> w + length es"
    using hm_count [OF assms(1)] assms(2) es by (simp_all add: c_def hm_small_def)
  obtain m1 where m1: "(if elementCount m + int (length es) > threshold m then rehash (of_int (elementCount m + int (length es))) m else (Ret (), m)) = (Ret (), m1)"
    "hm_ok hash m1" "same_map m m1" "hm_small (w + length es) m1"
  proof (cases "int c > threshold m")
    case True
    have c27: "c \<le> 2 ^ 27" using c(3) assms(3) by simp
    show ?thesis
      by (rule rehash_effect [OF assms(1) c(2) c27], rule that)
        (use True c assms(2) in \<open>auto simp: hm_small_def same_map_def\<close>)
  next
    case False
    then show ?thesis using that [of m] assms(1) same_map_refl [of m] hm_small_mono [OF assms(2)] by (simp add: c(1))
  qed
  have same: "map_of (hm_entries m1) = map_of (hm_entries m)" "hm_modCount m1 = hm_modCount m" "elementCount m1 = elementCount m"
    using same_data_entries [OF assms(1) m1(2)] m1(3) by (simp_all add: same_map_def)
  have "w + length es + length es \<le> 2 ^ 24" using assms(3) by simp
  from put_each_effect [OF m1(2,4) this, of d] obtain m2 where "put_each hash d es m1 = (Ret (), m2)" "hm_ok hash m2"
    "hm_small (w + length es + length es) m2" "map_of (hm_entries m2) = map_of (hm_entries m) ++ map_of (rev es)"
    "fst ` set es \<subseteq> dom (map_of (hm_entries m)) \<longrightarrow> hm_modCount m2 = hm_modCount m"
    unfolding same by blast
  moreover from this(3) have "hm_small (w + 2 * length es) m2" by (simp add: mult_2 add.assoc)
  moreover have "hm_putAll hash d es m = put_each hash d es m1"
    unfolding hm_putAll_def putAllImpl_def Let_def m1(1) using es by simp
  ultimately show ?thesis by auto
qed

lemma capacity_12: "calculateCapacity 12 = 16" "calculateCapacity 0 = 16"
  by code_simp+

lemma table_length_16: "table_length 16"
  unfolding table_length_def by (rule exI [of _ 4]) simp

text \<open>A table of a given length, as the constructors and \<^verbatim>\<open>copy\<close> make it.\<close>

lemma allocate_effect:
  assumes "table_length n" and "hm_heap m = (\<lambda>_. None)" and "elementCount m = 0" and "0 < loadFactor m" and "loadFactor m < 4"
  obtains m' where "and_then (hm_allocate (of_nat n) m) (\<lambda>_. computeThreshold) = (Ret (), m')" and "hm_ok hash m'" and "hm_entries m' = []"
    and "loadFactor m' = loadFactor m" and "elementData m' = replicate n None" and "hm_modCount m' = hm_modCount m"
proof -
  let ?m = "m\<lparr>elementData := replicate n None, threshold := \<lfloor>of_nat n * loadFactor m\<rfloor>\<rparr>"
  have "and_then (hm_allocate (of_nat n) m) (\<lambda>_. computeThreshold) = (Ret (), ?m)"
    using computeThreshold_effect [of "m\<lparr>elementData := replicate n None\<rparr>"] assms
    by (simp add: hm_allocate_def ap_new_table)
  moreover have "hm_rep hash ?m (replicate n [])" using assms by (intro rep_empty) simp_all
  ultimately show thesis using that [of ?m] hm_rep_ok [of hash ?m] rep_empty_entries [of hash ?m] by simp
qed

lemma hm_new_effect:
  obtains m :: "('k, 'v) hashmap" where "hm_new = (Ret (), m)" and "hm_ok hash m" and "hm_entries m = []" and "hm_small 0 m"
proof -
  obtain m' :: "('k, 'v) hashmap" where m': "and_then (hm_allocate (of_nat 16) hm_blank) (\<lambda>_. computeThreshold) = (Ret (), m')"
    "hm_ok hash m'" "hm_entries m' = []" "loadFactor m' = loadFactor (hm_blank :: ('k, 'v) hashmap)" "elementData m' = replicate 16 None"
    by (rule allocate_effect [OF table_length_16, of hm_blank hash]) (simp_all add: hm_blank_def)
  then have "hm_new = (Ret (), m')" by (simp add: hm_new_def capacity_12)
  moreover have "hm_small 0 m'" using m' hm_count [OF m'(2)] by (simp add: hm_small_def hm_blank_def)
  ultimately show thesis using m'(2,3) that by blast
qed

lemma capacity_of_size:
  assumes "n \<le> 2 ^ 24"
  obtains l where "calculateCapacity (of_nat n) = of_nat l" and "table_length l" and "n \<le> l" and "l \<le> max 16 (2 * n)"
proof (cases "n = 0")
  case True
  then show ?thesis using that [of 16] capacity_12(2) table_length_16 by simp
next
  case False
  then have n: "0 < n" "n \<le> 2 ^ 28" using assms by simp_all
  show ?thesis by (rule capacity_table [OF n], rule that) auto
qed

lemma hm_copy_effect:
  assumes "hm_ok hash m" and "hm_small w m" and "w + 3 * length es \<le> 2 ^ 24"
  shows "\<exists>m'. hm_copy hash d same_object es m = (Ret (), m') \<and> hm_ok hash m' \<and> hm_small (w + 3 * length es) m'
     \<and> map_of (hm_entries m') = (if same_object then Map.empty else map_of (rev es))"
proof -
  obtain m1 where m1: "hm_clear m = (Ret (), m1)" "hm_ok hash m1" "hm_entries m1 = []" "loadFactor m1 = loadFactor m"
    "length (elementData m1) = length (elementData m)"
    by (rule hm_clear_effect [OF assms(1)]) (rule that)
  have "concat (hm_chains m1) = []" using m1(3) unfolding hm_entries_def map_is_Nil_conv .
  then have "dom (hm_heap m1) = {}" using ok_nodes [OF m1(2)] by (metis set_empty)
  then have empty: "hm_heap m1 = (\<lambda>_. None)" "elementCount m1 = 0"
    using hm_count [OF m1(2)] by (simp_all add: m1(3))
  have lf: "loadFactor m1 = 3 / 4" using m1(4) assms(2) by (simp only: hm_small_def)
  have n: "length es \<le> 2 ^ 24" using assms(3) by simp
  obtain l where l: "calculateCapacity (of_nat (length es)) = of_nat l" "table_length l" "length es \<le> l" "l \<le> max 16 (2 * length es)"
    by (rule capacity_of_size [OF n]) (rule that)
  have sl: "sint (of_nat l :: u32) = int l" using table_length_bounds(2) [OF l(2)] by (intro sint_of_nat_u32) simp
  obtain m2 where m2: "and_then (if int l > int (length (elementData m1)) then hm_allocate (of_nat l) m1 else (Ret (), m1)) (\<lambda>_. computeThreshold) = (Ret (), m2)"
    "hm_ok hash m2" "hm_entries m2 = []" "hm_small (w + length es) m2"
  proof (cases "int l > int (length (elementData m1))")
    case True
    have p: "0 < loadFactor m1" "loadFactor m1 < 4" using lf by simp_all
    obtain m2 where m2: "and_then (hm_allocate (of_nat l) m1) (\<lambda>_. computeThreshold) = (Ret (), m2)" "hm_ok hash m2" "hm_entries m2 = []"
      "loadFactor m2 = loadFactor m1" "elementData m2 = replicate l None"
      by (rule allocate_effect [OF l(2) empty p]) (rule that)
    then have "hm_small (w + length es) m2" using lf l(4) hm_count [OF m2(2)] by (auto simp: hm_small_def max_def split: if_splits)
    then show ?thesis using that m2 True by auto
  next
    case False
    have "m1\<lparr>threshold := \<lfloor>of_nat (length (elementData m1)) * loadFactor m1\<rfloor>\<rparr> = m1"
      using ok_counts(5) [OF m1(2)] ok_facts(1) [OF m1(2)] by simp
    then have "computeThreshold m1 = (Ret (), m1)"
      using computeThreshold_effect [OF ok_facts(2) [OF m1(2)] ok_counts(3,4) [OF m1(2)]] by simp
    moreover have "hm_small (w + length es) m1" using assms(2) m1(4,5) empty(2) by (auto simp: hm_small_def)
    ultimately show ?thesis using that m1(2,3) False by auto
  qed
  define es' where "es' = (if same_object then [] else es)"
  have "w + length es + 2 * length es' \<le> 2 ^ 24" using assms(3) by (simp add: es'_def)
  from putAll_effect [OF m2(2,4) this, of d] obtain m3 where m3: "hm_putAll hash d es' m2 = (Ret (), m3)" "hm_ok hash m3"
    "hm_small (w + length es + 2 * length es') m3" "map_of (hm_entries m3) = map_of (rev es')"
    by (auto simp: m2(3))
  have "hm_copy hash d same_object es m = (Ret (), m3)"
    unfolding hm_copy_def Let_def l(1) m1(1) and_then.simps sl es'_def [symmetric] and_then_assoc [symmetric] m2(1) m3(1) ..
  moreover have "hm_small (w + 3 * length es) m3" using hm_small_mono [OF m3(3)] by (simp add: es'_def)
  ultimately show ?thesis using m3(2,4) by (auto simp: es'_def)
qed

lemma hm_from_effect:
  fixes es :: "('a \<times> 'b) list"
  assumes "3 * length es \<le> 2 ^ 24"
  shows "\<exists>m'. hm_from hash d es = (Ret (), m') \<and> hm_ok hash m' \<and> map_of (hm_entries m') = map_of (rev es)"
proof -
  have n: "length es \<le> 2 ^ 24" using assms by simp
  obtain l where l: "calculateCapacity (of_nat (length es)) = of_nat l" "table_length l" "length es \<le> l" "l \<le> max 16 (2 * length es)"
    by (rule capacity_of_size [OF n]) (rule that)
  obtain m2 :: "('a, 'b) hashmap" where m2: "and_then (hm_allocate (of_nat l) hm_blank) (\<lambda>_. computeThreshold) = (Ret (), m2)" "hm_ok hash m2" "hm_entries m2 = []"
      "loadFactor m2 = loadFactor (hm_blank :: ('a, 'b) hashmap)" "elementData m2 = replicate l None"
    by (rule allocate_effect [OF l(2), of hm_blank hash]) (simp_all add: hm_blank_def)
  have "hm_small (length es) m2" using m2(4,5) l(4) hm_count [OF m2(2)] m2(3) by (auto simp: hm_small_def hm_blank_def)
  moreover have "length es + 2 * length es \<le> 2 ^ 24" using assms by simp
  ultimately obtain m3 where m3: "hm_putAll hash d es m2 = (Ret (), m3)" "hm_ok hash m3" "map_of (hm_entries m3) = map_of (rev es)"
    using putAll_effect [OF m2(2), of "length es" es d] by (auto simp: m2(3))
  have "hm_from hash d es = (Ret (), m3)"
    unfolding hm_from_def l(1) and_then_assoc [symmetric] m2(1) and_then.simps m3(1) ..
  with m3 show ?thesis by blast
qed

lemma hm_destroy_effect: "hm_ok hash m \<Longrightarrow> hm_destroy m = Ret (\<lambda>_. None)"
  unfolding hm_destroy_def by (rule free_all)

end
