(* ===== verification/Hash_Map_Views.thy ===== *)
theory Hash_Map_Views
  imports Hash_Map
begin

text \<open>
  The iterators of \<^verbatim>\<open>HashMap\<close> (HashMap.h), the sets of its entries and keys and the collection of its values, and the
  operations of the map that use them.
\<close>

section \<open>Iterators\<close>

record hmiter =
  hi_position :: nat
  hi_expected :: int
  futureEntry :: "addr option"
  currentEntry :: "addr option"
  prevEntry :: "addr option"

definition hm_iterator :: "('k, 'v) hashmap \<Rightarrow> hmiter" where
  "hm_iterator m = \<lparr>hi_position = 0, hi_expected = hm_modCount m, futureEntry = None, currentEntry = None, prevEntry = None\<rparr>"

text \<open>\<^verbatim>\<open>position\<close> is \<^verbatim>\<open>mutable\<close>: looking for the next entry skips empty buckets.\<close>

fun skip_loop :: "addr option list \<Rightarrow> nat \<Rightarrow> nat" where
  "skip_loop [] position = position"
| "skip_loop (p # ps) position = (if p = None then skip_loop ps (Suc position) else position)"

definition hm_checkHasNext :: "('k, 'v) hashmap \<Rightarrow> hmiter \<Rightarrow> bool \<times> hmiter" where
  "hm_checkHasNext m it =
     (if futureEntry it \<noteq> None then (True, it)
      else
        (let position = skip_loop (drop (hi_position it) (elementData m)) (hi_position it) in
         (position < length (elementData m), it\<lparr>hi_position := position\<rparr>)))"

definition hm_modified :: exn where
  "hm_modified = ConcurrentModificationException ''HashMap modified outside this iterator''"

text \<open>\<open>hm_makeNext\<close> delivers the entry that \<^verbatim>\<open>currentEntry\<close> points to afterwards.\<close>

definition hm_makeNext :: "('k, 'v) hashmap \<Rightarrow> hmiter \<Rightarrow> ('k \<times> 'v) outcome \<times> hmiter" where
  "hm_makeNext m it =
     (if hi_expected it \<noteq> hm_modCount m then (Throw hm_modified, it)
      else
        (case hm_checkHasNext m it of
           (False, it) \<Rightarrow> (Throw (NoSuchElementException ''No next element''), it)
         | (True, it) \<Rightarrow>
             (case futureEntry it of
                None \<Rightarrow>
                  and_then (bucket (int (hi_position it)) m, it\<lparr>hi_position := Suc (hi_position it)\<rparr>) (\<lambda>current it.
                    (case current of
                       None \<Rightarrow> (Undefined NullDereference, it)
                     | Some a \<Rightarrow>
                         and_then (get_node a m, it\<lparr>currentEntry := Some a\<rparr>) (\<lambda>e it.
                           (Ret (hn_key e, hn_value e), it\<lparr>futureEntry := hn_next e, prevEntry := None\<rparr>))))
              | Some a \<Rightarrow>
                  (let it = (if currentEntry it \<noteq> None then it\<lparr>prevEntry := currentEntry it\<rparr> else it) in
                   and_then (get_node a m, it\<lparr>currentEntry := Some a\<rparr>) (\<lambda>e it.
                     (Ret (hn_key e, hn_value e), it\<lparr>futureEntry := hn_next e\<rparr>))))))"

definition hm_doRemove :: "('k, 'v) hashmap \<Rightarrow> hmiter \<Rightarrow> unit outcome \<times> ('k, 'v) hashmap \<times> hmiter" where
  "hm_doRemove m it =
     (if hi_expected it \<noteq> hm_modCount m then (Throw hm_modified, m, it)
      else
        (case currentEntry it of
           None \<Rightarrow> (Throw (IllegalStateException ''Remove called before call to next()''), m, it)
         | Some a \<Rightarrow>
             (case and_then (get_node a m, m) (\<lambda>e m.
                   and_then
                     (case prevEntry it of
                        None \<Rightarrow>
                          (let index = bucket_index (origKeyHash e) m in
                           and_then (bucket index m, m) (\<lambda>head m.
                             (case head of
                                None \<Rightarrow> (Undefined NullDereference, m)
                              | Some h \<Rightarrow> and_then (get_node h m, m) (\<lambda>f m. set_head index (hn_next f) m))))
                      | Some l \<Rightarrow> set_next l (hn_next e) m) (\<lambda>_ m.
                   and_then (delete_node a m) (\<lambda>_ m. (Ret (), count_removal m)))) of
                (Ret _, m) \<Rightarrow> (Ret (), m, it\<lparr>currentEntry := None, hi_expected := hi_expected it + 1\<rparr>)
              | (Throw x, m) \<Rightarrow> (Throw x, m, it)
              | (Undefined f, m) \<Rightarrow> (Undefined f, m, it))))"

definition hm_entry_next :: "('k, 'v) hashmap \<Rightarrow> hmiter \<Rightarrow> ('k \<times> 'v) outcome \<times> hmiter" where
  "hm_entry_next m it = project (\<lambda>e. e) (hm_makeNext m it)"

definition hm_key_next :: "('k, 'v) hashmap \<Rightarrow> hmiter \<Rightarrow> 'k outcome \<times> hmiter" where
  "hm_key_next m it = project fst (hm_makeNext m it)"

definition hm_value_next :: "('k, 'v) hashmap \<Rightarrow> hmiter \<Rightarrow> 'v outcome \<times> hmiter" where
  "hm_value_next m it = project snd (hm_makeNext m it)"

text \<open>The iterators of a constant map have the same members and the same \<^verbatim>\<open>makeNext\<close>, written a second time.\<close>

definition const_hm_iterator :: "('k, 'v) hashmap \<Rightarrow> hmiter" where
  "const_hm_iterator m = \<lparr>hi_position = 0, hi_expected = hm_modCount m, futureEntry = None, currentEntry = None, prevEntry = None\<rparr>"

definition const_hm_checkHasNext :: "('k, 'v) hashmap \<Rightarrow> hmiter \<Rightarrow> bool \<times> hmiter" where
  "const_hm_checkHasNext m it = hm_checkHasNext m it"

definition const_hm_makeNext :: "('k, 'v) hashmap \<Rightarrow> hmiter \<Rightarrow> ('k \<times> 'v) outcome \<times> hmiter" where
  "const_hm_makeNext m it = hm_makeNext m it"

definition const_hm_entry_next :: "('k, 'v) hashmap \<Rightarrow> hmiter \<Rightarrow> ('k \<times> 'v) outcome \<times> hmiter" where
  "const_hm_entry_next m it = project (\<lambda>e. e) (const_hm_makeNext m it)"

definition const_hm_key_next :: "('k, 'v) hashmap \<Rightarrow> hmiter \<Rightarrow> 'k outcome \<times> hmiter" where
  "const_hm_key_next m it = project fst (const_hm_makeNext m it)"

definition const_hm_value_next :: "('k, 'v) hashmap \<Rightarrow> hmiter \<Rightarrow> 'v outcome \<times> hmiter" where
  "const_hm_value_next m it = project snd (const_hm_makeNext m it)"

definition const_hm_remove :: "('k, 'v) hashmap \<Rightarrow> hmiter \<Rightarrow> unit outcome \<times> ('k, 'v) hashmap \<times> hmiter" where
  "const_hm_remove m it = (Throw (UnsupportedOperationException ''Cannot write to a const Iterator.''), m, it)"

section \<open>Views\<close>

text \<open>
  The loops of the base class call \<^verbatim>\<open>next\<close> right after \<^verbatim>\<open>hasNext\<close>, which would skip the same empty buckets again: the
  position that \<^verbatim>\<open>hasNext\<close> has reached is left out here (\<open>hm_hasNext_next\<close> below).
\<close>

definition hm_view_ops :: "(('k, 'v) hashmap \<Rightarrow> hmiter \<Rightarrow> 'e outcome \<times> hmiter) \<Rightarrow> (('k, 'v) hashmap, hmiter, 'e) coll_ops" where
  "hm_view_ops next = \<lparr>v_size = hm_size, v_iterator = hm_iterator, v_hasNext = \<lambda>m it. fst (hm_checkHasNext m it), v_next = next,
     v_remove = hm_doRemove, v_add = coll_add, v_clear = hm_clear\<rparr>"

definition hm_entrySet :: "(('k, 'v) hashmap, hmiter, 'k \<times> 'v) coll_ops" where
  "hm_entrySet = hm_view_ops hm_entry_next"

definition hm_keySet :: "(('k, 'v) hashmap, hmiter, 'k) coll_ops" where
  "hm_keySet = hm_view_ops hm_key_next"

definition hm_values :: "(('k, 'v) hashmap, hmiter, 'v) coll_ops" where
  "hm_values = hm_view_ops hm_value_next"

definition hm_entrySet_contains :: "('k \<Rightarrow> u32) \<Rightarrow> 'k \<times> 'v \<Rightarrow> ('k, 'v) hashmap \<Rightarrow> bool outcome" where
  "hm_entrySet_contains hash entry m =
     (case getEntry hash (fst entry) m of
        Ret None \<Rightarrow> Ret False
      | Ret (Some a) \<Rightarrow> map_outcome (\<lambda>v. snd entry = v) (getValue a m)
      | Throw x \<Rightarrow> Throw x
      | Undefined f \<Rightarrow> Undefined f)"

definition hm_entrySet_remove :: "('k \<Rightarrow> u32) \<Rightarrow> 'k \<times> 'v \<Rightarrow> ('k, 'v) hashmap \<Rightarrow> bool outcome \<times> ('k, 'v) hashmap" where
  "hm_entrySet_remove hash entry m =
     and_then (getEntry hash (fst entry) m, m) (\<lambda>result m.
       (case result of
          None \<Rightarrow> (Ret False, m)
        | Some a \<Rightarrow>
            and_then (getValue a m, m) (\<lambda>v m.
              if snd entry = v then and_then (removeEntry a m) (\<lambda>_ m. (Ret True, m)) else (Ret False, m))))"

definition hm_keySet_contains :: "('k \<Rightarrow> u32) \<Rightarrow> 'k \<Rightarrow> ('k, 'v) hashmap \<Rightarrow> bool outcome" where
  "hm_keySet_contains hash key m = hm_containsKey hash key m"

definition hm_keySet_remove :: "('k \<Rightarrow> u32) \<Rightarrow> 'k \<Rightarrow> ('k, 'v) hashmap \<Rightarrow> bool outcome \<times> ('k, 'v) hashmap" where
  "hm_keySet_remove hash key m =
     and_then (removeEntry_key hash key m) (\<lambda>entry m.
       (case entry of
          None \<Rightarrow> (Ret False, m)
        | Some a \<Rightarrow> and_then (delete_node a m) (\<lambda>_ m. (Ret True, m))))"

definition hm_values_contains :: "'v \<Rightarrow> ('k, 'v) hashmap \<Rightarrow> bool outcome" where
  "hm_values_contains v m = hm_containsValue v m"

text \<open>
  The views of a constant map: they read like the others, have only iterators that cannot remove, and refuse to be changed.
\<close>

definition const_view_clear :: "string \<Rightarrow> ('k, 'v) hashmap \<Rightarrow> unit outcome \<times> ('k, 'v) hashmap" where
  "const_view_clear msg m = (Throw (UnsupportedOperationException msg), m)"

definition const_hm_view_ops :: "string \<Rightarrow> (('k, 'v) hashmap \<Rightarrow> hmiter \<Rightarrow> 'e outcome \<times> hmiter) \<Rightarrow> (('k, 'v) hashmap, hmiter, 'e) coll_ops" where
  "const_hm_view_ops msg next = \<lparr>v_size = hm_size, v_iterator = const_hm_iterator, v_hasNext = \<lambda>m it. fst (const_hm_checkHasNext m it),
     v_next = next, v_remove = const_hm_remove, v_add = coll_add, v_clear = const_view_clear msg\<rparr>"

definition const_hm_entrySet :: "(('k, 'v) hashmap, hmiter, 'k \<times> 'v) coll_ops" where
  "const_hm_entrySet = const_hm_view_ops ''Can't clear a const collection'' const_hm_entry_next"

definition const_hm_entrySet_remove :: "'k \<times> 'v \<Rightarrow> ('k, 'v) hashmap \<Rightarrow> bool outcome \<times> ('k, 'v) hashmap" where
  "const_hm_entrySet_remove entry m = (Throw (UnsupportedOperationException ''Can't remove from const collection''), m)"

definition const_hm_keySet :: "(('k, 'v) hashmap, hmiter, 'k) coll_ops" where
  "const_hm_keySet = const_hm_view_ops ''Can't modify a const collection'' const_hm_key_next"

definition const_hm_keySet_remove :: "'k \<Rightarrow> ('k, 'v) hashmap \<Rightarrow> bool outcome \<times> ('k, 'v) hashmap" where
  "const_hm_keySet_remove key m = (Throw (UnsupportedOperationException ''Can't modify a const collection''), m)"

definition const_hm_values :: "(('k, 'v) hashmap, hmiter, 'v) coll_ops" where
  "const_hm_values = const_hm_view_ops ''Can't modify a const collection'' const_hm_value_next"

text \<open>Asking one of them for an iterator that is not constant.\<close>

definition const_view_iterator :: "hmiter outcome" where
  "const_view_iterator = Throw (UnsupportedOperationException ''Can't return a non-const iterator for a const collection'')"

section \<open>equals\<close>

text \<open>
  The other map is given by its \<^verbatim>\<open>size\<close>, \<^verbatim>\<open>containsKey\<close> and \<^verbatim>\<open>get\<close>.  A \<^verbatim>\<open>NullPointerException\<close> counts as a difference (so would a
  \<^verbatim>\<open>ClassCastException\<close>, which no container of the library throws).  \<open>None\<close>: the loop has not ended within \<open>n\<close> passes.
\<close>

fun hm_equals_loop :: "nat \<Rightarrow> ('k \<Rightarrow> bool outcome) \<Rightarrow> ('k \<Rightarrow> 'v outcome) \<Rightarrow> ('k, 'v) hashmap \<Rightarrow> hmiter \<Rightarrow> bool outcome option" where
  "hm_equals_loop 0 containsKey get m it = None"
| "hm_equals_loop (Suc n) containsKey get m it =
     (case const_hm_checkHasNext m it of
        (False, it) \<Rightarrow> Some (Ret True)
      | (True, it) \<Rightarrow>
          (case const_hm_entry_next m it of
             (Ret (key, mine), it) \<Rightarrow>
               (case containsKey key of
                  Ret False \<Rightarrow> Some (Ret False)
                | Ret True \<Rightarrow>
                    (case get key of
                       Ret v \<Rightarrow> if v \<noteq> mine then Some (Ret False) else hm_equals_loop n containsKey get m it
                     | Throw x \<Rightarrow> Some (Throw x)
                     | Undefined f \<Rightarrow> Some (Undefined f))
                | r \<Rightarrow> Some r)
           | (Throw x, it) \<Rightarrow> Some (Throw x)
           | (Undefined f, it) \<Rightarrow> Some (Undefined f)))"

fun null_pointer_false :: "bool outcome \<Rightarrow> bool outcome" where
  "null_pointer_false (Throw (NullPointerException _)) = Ret False"
| "null_pointer_false r = r"

definition hm_equals :: "nat \<Rightarrow> bool \<Rightarrow> int \<Rightarrow> ('k \<Rightarrow> bool outcome) \<Rightarrow> ('k \<Rightarrow> 'v outcome) \<Rightarrow> ('k, 'v) hashmap \<Rightarrow> bool outcome option" where
  "hm_equals n same_object other_size containsKey get m =
     (if same_object then Some (Ret True)
      else if hm_size m \<noteq> other_size then Some (Ret False)
      else map_option null_pointer_false (hm_equals_loop n containsKey get m (const_hm_iterator m)))"

section \<open>The position of an iterator\<close>

definition first_of :: "'a list \<Rightarrow> 'a option" where
  "first_of xs = (case xs of [] \<Rightarrow> None | x # _ \<Rightarrow> Some x)"

definition last_of :: "'a list \<Rightarrow> 'a option" where
  "last_of xs = (if xs = [] then None else Some (List.last xs))"

lemma first_of_None [simp]: "first_of xs = None \<longleftrightarrow> xs = []"
  by (cases xs) (simp_all add: first_of_def)

lemma last_of_simps [simp]: "last_of [] = None" "last_of (xs @ [x]) = Some x"
  by (simp_all add: last_of_def)

text \<open>
  The iterator has passed the buckets before \<^verbatim>\<open>position\<close> but for the entries \<open>bs\<close> at the end of the last one; \<open>as\<close> are those of
  that bucket it has passed.
\<close>

definition hm_pos :: "addr list list \<Rightarrow> hmiter \<Rightarrow> addr list \<Rightarrow> addr list \<Rightarrow> bool" where
  "hm_pos css it ps rs \<longleftrightarrow> (\<exists>as bs. hi_position it \<le> length css \<and> concat (take (hi_position it) css) = ps @ bs
     \<and> rs = bs @ concat (drop (hi_position it) css) \<and> futureEntry it = first_of bs
     \<and> (if hi_position it = 0 then as = [] \<and> bs = [] else css ! (hi_position it - 1) = as @ bs)
     \<and> (case currentEntry it of
          None \<Rightarrow> prevEntry it = last_of as
        | Some a \<Rightarrow> \<exists>as'. as = as' @ [a] \<and> prevEntry it = last_of as'))"

lemma hm_pos_concat: "hm_pos css it ps rs \<Longrightarrow> concat css = ps @ rs"
proof -
  assume "hm_pos css it ps rs"
  then obtain bs where "concat (take (hi_position it) css) = ps @ bs" "rs = bs @ concat (drop (hi_position it) css)"
    by (auto simp: hm_pos_def)
  then show ?thesis using append_take_drop_id [of "hi_position it" css] by (metis append_assoc concat_append)
qed

lemma hm_pos_start: "hm_pos css (hm_iterator m) [] (concat css)"
  by (simp add: hm_pos_def hm_iterator_def first_of_def)

lemma skip_loop_effect:
  "skip_loop ps i = i + length (takeWhile (\<lambda>p. p = None) ps)"
  by (induction ps arbitrary: i) auto

lemma ok_empty_bucket:
  assumes "hm_ok hash m" and "i < length (elementData m)"
  shows "elementData m ! i = first_of (hm_chains m ! i)"
  using ok_facts(3) [OF assms] by (cases "hm_chains m ! i") (simp_all add: first_of_def)

text \<open>The bucket in which the next entry is found when the last one is exhausted.\<close>

lemma concat_drop_first:
  assumes "concat (drop n css) = y # ys"
  obtains q bs where "n \<le> q" and "q < length css" and "css ! q = y # bs" and "ys = bs @ concat (drop (Suc q) css)"
    and "\<And>j. n \<le> j \<Longrightarrow> j < q \<Longrightarrow> css ! j = []"
  using assms
proof (induction "length css - n" arbitrary: n thesis)
  case 0
  then show ?case by simp
next
  case (Suc l)
  then have n: "n < length css" by simp
  then have d: "drop n css = css ! n # drop (Suc n) css" by (simp add: Cons_nth_drop_Suc)
  show ?case
  proof (cases "css ! n")
    case Nil
    then have "concat (drop (Suc n) css) = y # ys" "l = length css - Suc n" using Suc.prems(2) Suc.hyps(2) d by simp_all
    then obtain q bs where q: "Suc n \<le> q" "q < length css" "css ! q = y # bs" "ys = bs @ concat (drop (Suc q) css)"
      "\<And>j. Suc n \<le> j \<Longrightarrow> j < q \<Longrightarrow> css ! j = []"
      using Suc.hyps(1) [of "Suc n"] by blast
    moreover have "css ! j = []" if "n \<le> j" "j < q" for j using that Nil q(5) [of j] by (cases "j = n") auto
    ultimately show ?thesis by (intro Suc.prems(1) [of q bs]) auto
  next
    case (Cons b bs)
    then show ?thesis using Suc.prems(2) d n by (intro Suc.prems(1) [of n bs]) auto
  qed
qed

lemma hm_checkHasNext_first:
  assumes "hm_ok hash m" and "n \<le> q" and "q < length (hm_chains m)" and "hm_chains m ! q \<noteq> []"
    and "\<And>j. n \<le> j \<Longrightarrow> j < q \<Longrightarrow> hm_chains m ! j = []"
  shows "skip_loop (drop n (elementData m)) n = q"
proof -
  have len: "length (elementData m) = length (hm_chains m)" using ok_facts(1) [OF assms(1)] .
  have "drop n (elementData m) = take (q - n) (drop n (elementData m)) @ drop q (elementData m)"
    using append_take_drop_id [of "q - n" "drop n (elementData m)"] assms(2) by simp
  moreover have "drop q (elementData m) = elementData m ! q # drop (Suc q) (elementData m)"
    using assms(3) len by (simp add: Cons_nth_drop_Suc)
  moreover have "elementData m ! q \<noteq> None" using ok_empty_bucket [OF assms(1), of q] assms(3,4) len by simp
  moreover have "p = None" if p: "p \<in> set (take (q - n) (drop n (elementData m)))" for p
  proof -
    obtain j where "n \<le> j" "j < n + (q - n)" "j < length (elementData m)" "p = elementData m ! j" using p by (rule in_set_slice)
    then show ?thesis using ok_empty_bucket [OF assms(1), of j] assms(2) assms(5) [of j] by simp
  qed
  ultimately obtain A r where A: "drop n (elementData m) = A @ elementData m ! q # r" "\<And>p. p \<in> set A \<Longrightarrow> p = None"
      "elementData m ! q \<noteq> None" "A = take (q - n) (drop n (elementData m))"
    by metis
  then have "takeWhile (\<lambda>p. p = None) (A @ elementData m ! q # r) = A" by (subst takeWhile_append2) auto
  moreover have "length A = q - n" using A(4) assms(2,3) len by simp
  ultimately have "length (takeWhile (\<lambda>p. p = None) (drop n (elementData m))) = q - n" unfolding A(1) by simp
  then show ?thesis using assms(2) by (simp add: skip_loop_effect)
qed

lemma hm_hasNext_pos:
  assumes "hm_ok hash m" and "hm_pos (hm_chains m) it ps rs"
  shows "fst (hm_checkHasNext m it) \<longleftrightarrow> rs \<noteq> []"
proof -
  obtain bs where bs: "rs = bs @ concat (drop (hi_position it) (hm_chains m))" "futureEntry it = first_of bs"
    using assms(2) by (auto simp: hm_pos_def)
  have len: "length (elementData m) = length (hm_chains m)" using ok_facts(1) [OF assms(1)] .
  consider "bs \<noteq> []" | "bs = []" "rs = []" | y ys where "bs = []" "concat (drop (hi_position it) (hm_chains m)) = y # ys"
    using bs(1) by (cases "concat (drop (hi_position it) (hm_chains m))") auto
  then show ?thesis
  proof cases
    case 1
    then show ?thesis using bs by (auto simp: hm_checkHasNext_def)
  next
    case 2
    then have all: "c = []" if "c \<in> set (drop (hi_position it) (hm_chains m))" for c using bs(1) that by simp
    have "p = None" if p: "p \<in> set (drop (hi_position it) (elementData m))" for p
    proof -
      have "p \<in> set (take (length (elementData m)) (drop (hi_position it) (elementData m)))" using p by simp
      then obtain j where j: "hi_position it \<le> j" "j < length (elementData m)" "p = elementData m ! j" by (rule in_set_slice)
      then have "hm_chains m ! j = drop (hi_position it) (hm_chains m) ! (j - hi_position it)" using len by simp
      then have "hm_chains m ! j \<in> set (drop (hi_position it) (hm_chains m))" using j len by (simp only:) (rule nth_mem, simp)
      then show ?thesis using all ok_empty_bucket [OF assms(1) j(2)] j(3) by simp
    qed
    then have "takeWhile (\<lambda>p. p = None) (drop (hi_position it) (elementData m)) = drop (hi_position it) (elementData m)"
      by (simp add: takeWhile_eq_all_conv)
    then have "length (takeWhile (\<lambda>p. p = None) (drop (hi_position it) (elementData m))) = length (drop (hi_position it) (elementData m))"
      by (rule arg_cong)
    then show ?thesis using 2 bs(2) by (simp add: hm_checkHasNext_def Let_def skip_loop_effect)
  next
    case 3
    from concat_drop_first [OF 3(2)] obtain q cs where q: "hi_position it \<le> q" "q < length (hm_chains m)" "hm_chains m ! q = y # cs"
      "\<And>j. hi_position it \<le> j \<Longrightarrow> j < q \<Longrightarrow> hm_chains m ! j = []" by metis
    have "hm_chains m ! q \<noteq> []" using q(3) by simp
    with hm_checkHasNext_first [OF assms(1) q(1,2) _ q(4)] 3 q(2) bs len show ?thesis by (simp add: hm_checkHasNext_def Let_def)
  qed
qed

lemma ok_next:
  assumes "hm_ok hash m" and "i < length (hm_chains m)" and "hm_chains m ! i = as @ a # bs"
  obtains e where "hm_heap m a = Some e" and "hn_next e = first_of bs"
proof -
  have chain_next: "\<exists>e. h a = Some e \<and> hn_next e = first_of bs" if "hchain h p (as @ a # bs)" for h :: "('a, 'b) hheap" and p
    using that by (induction as arbitrary: p) (auto simp: first_of_def split: list.split)
  show thesis using chain_next ok_facts(1,3) [OF assms(1)] assms(2,3) that by metis
qed

lemma hm_next_pos:
  assumes "hm_ok hash m" and "hm_pos (hm_chains m) it ps (y # rs)" and "hi_expected it = hm_modCount m"
  obtains it' where "hm_makeNext m it = (Ret (node_entry (hm_heap m) y), it')" and "hm_pos (hm_chains m) it' (ps @ [y]) rs"
    and "currentEntry it' = Some y" and "hi_expected it' = hm_modCount m"
proof -
  let ?css = "hm_chains m" and ?p = "hi_position it"
  obtain as bs where pos: "?p \<le> length ?css" "concat (take ?p ?css) = ps @ bs" "y # rs = bs @ concat (drop ?p ?css)" "futureEntry it = first_of bs"
      "if ?p = 0 then as = [] \<and> bs = [] else ?css ! (?p - 1) = as @ bs"
    and cur: "case currentEntry it of None \<Rightarrow> prevEntry it = last_of as | Some a \<Rightarrow> \<exists>as'. as = as' @ [a] \<and> prevEntry it = last_of as'"
    using assms(2) by (auto simp: hm_pos_def)
  have len: "length (elementData m) = length ?css" using ok_facts(1) [OF assms(1)] .
  show thesis
  proof (cases bs)
    case (Cons b bs')
    then have y: "y = b" "rs = bs' @ concat (drop ?p ?css)" and p: "?p \<noteq> 0" "?css ! (?p - 1) = as @ b # bs'" using pos(3,5) by (auto split: if_splits)
    then have "?p - 1 < length ?css" using pos(1) by simp
    then obtain e where e: "hm_heap m b = Some e" "hn_next e = first_of bs'" by (rule ok_next [OF assms(1) _ p(2)])
    define prev where "prev = (if currentEntry it \<noteq> None then currentEntry it else prevEntry it)"
    have prev: "prev = last_of as" using cur by (auto simp: prev_def last_of_def split: option.splits)
    let ?it = "it\<lparr>prevEntry := prev, currentEntry := Some b, futureEntry := first_of bs'\<rparr>"
    have "hm_makeNext m it = (Ret (node_entry (hm_heap m) y), ?it)"
      using assms(3) pos(4) Cons e y(1) by (simp add: hm_makeNext_def hm_checkHasNext_def first_of_def get_node_def node_entry_def prev_def Let_def)
    moreover have "hm_pos ?css ?it (ps @ [y]) rs"
      unfolding hm_pos_def by (rule exI [of _ "as @ [b]"], rule exI [of _ bs']) (use pos p y Cons prev in auto)
    ultimately show ?thesis using assms(3) y(1) by (intro that [of ?it]) simp_all
  next
    case Nil
    then have "concat (drop ?p ?css) = y # rs" using pos(3) by simp
    from concat_drop_first [OF this] obtain q cs where q: "?p \<le> q" "q < length ?css" "?css ! q = y # cs" "rs = cs @ concat (drop (Suc q) ?css)"
      "\<And>j. ?p \<le> j \<Longrightarrow> j < q \<Longrightarrow> ?css ! j = []" by metis
    obtain e where e: "hm_heap m y = Some e" "hn_next e = first_of cs"
      by (rule ok_next [OF assms(1) q(2), of "[]" y cs]) (use q(3) in auto)
    let ?it = "it\<lparr>hi_position := Suc q, currentEntry := Some y, futureEntry := first_of cs, prevEntry := None\<rparr>"
    have "skip_loop (drop ?p (elementData m)) ?p = q" by (rule hm_checkHasNext_first [OF assms(1) q(1,2) _ q(5)]) (simp add: q(3))
    moreover have "bucket (int q) m = Ret (Some y)"
      using ok_empty_bucket [OF assms(1), of q] q(2,3) len by (auto simp: bucket_def ap_get_def first_of_def)
    ultimately have "hm_makeNext m it = (Ret (node_entry (hm_heap m) y), ?it)"
      using assms(3) pos(4) Nil e q(2) len
      by (simp add: hm_makeNext_def hm_checkHasNext_def Let_def get_node_def node_entry_def first_of_def [of "[]"])
    moreover have "hm_pos ?css ?it (ps @ [y]) rs"
    proof -
      have "take q ?css = take ?p ?css @ take (q - ?p) (drop ?p ?css)" using q(1) by (simp add: take_add [symmetric])
      moreover have "c = []" if "c \<in> set (take (q - ?p) (drop ?p ?css))" for c
        using that q(5) by (auto simp: in_set_conv_nth)
      then have "concat (take (q - ?p) (drop ?p ?css)) = []" by simp
      ultimately have "concat (take q ?css) = ps" using pos(2) Nil by simp
      then have "concat (take (Suc q) ?css) = (ps @ [y]) @ cs" using q(2,3) by (simp add: take_Suc_conv_app_nth)
      then show ?thesis
        unfolding hm_pos_def by (intro exI [of _ "[y]"] exI [of _ cs]) (use q in auto)
    qed
    ultimately show ?thesis using assms(3) by (intro that [of ?it]) simp_all
  qed
qed

lemma hm_remove_pos:
  assumes "hm_ok hash m" and "hm_pos (hm_chains m) it (ps @ [y]) rs" and "currentEntry it = Some y" and "hi_expected it = hm_modCount m"
  obtains m' it' where "hm_doRemove m it = (Ret (), m', it')" and "removed hash y m m'" and "hm_pos (hm_chains m') it' ps rs"
    and "hi_expected it' = hm_modCount m'"
proof -
  let ?css = "hm_chains m" and ?p = "hi_position it"
  obtain as bs where pos: "?p \<le> length ?css" "concat (take ?p ?css) = (ps @ [y]) @ bs" "rs = bs @ concat (drop ?p ?css)" "futureEntry it = first_of bs"
      "?p \<noteq> 0" "?css ! (?p - 1) = as @ y # bs" and prev: "prevEntry it = last_of as"
    using assms(2,3) by (auto simp: hm_pos_def split: if_splits)
  define i where "i = ?p - 1"
  have p: "?p = Suc i" "i < length ?css" using pos(1,5) by (simp_all add: i_def)
  have css: "?css ! i = as @ y # bs" using pos(6) by (simp add: i_def)
  have len: "length (elementData m) = length ?css" using ok_facts(1) [OF assms(1)] .
  obtain e where e: "hm_heap m y = Some e" "slot (length (elementData m)) (hash (hn_key e)) = i" "origKeyHash e = hash (hn_key e)"
    by (rule ok_in_chain [OF assms(1), of i y]) (use p(2) css len in auto)
  obtain m1 where m1: "(if as = [] then set_head (int i) (hn_next e) m else set_next (List.last as) (hn_next e) m) = (Ret (), m1)"
    "hm_heap m1 y = Some e" and r: "removed hash y m (count_removal (m1\<lparr>hm_heap := (hm_heap m1)(y := None)\<rparr>))"
    and c: "hm_chains (count_removal (m1\<lparr>hm_heap := (hm_heap m1)(y := None)\<rparr>)) = ?css[i := as @ bs]"
    by (rule unlink_effect [OF assms(1) e(1) e(2) [symmetric] css]) (rule that)
  define m2 where "m2 = count_removal (m1\<lparr>hm_heap := (hm_heap m1)(y := None)\<rparr>)"
  let ?it = "it\<lparr>currentEntry := None, hi_expected := hi_expected it + 1\<rparr>"
  have index: "bucket_index (origKeyHash e) m = int i" "bucket (int i) m = Ret (elementData m ! i)"
    using ok_bucket [OF assms(1), of "origKeyHash e"] e(2,3) by simp_all
  have "elementData m ! i = first_of (as @ y # bs)" using ok_empty_bucket [OF assms(1), of i] p(2) len css by simp
  then have "as = [] \<Longrightarrow> elementData m ! i = Some y" by (simp add: first_of_def)
  then have "hm_doRemove m it = (Ret (), m2, ?it)"
    using assms(3,4) m1 e(1) prev index
    by (cases "as = []") (simp_all add: hm_doRemove_def get_node_def delete_node_def last_of_def Let_def m2_def)
  moreover have "hm_pos (hm_chains m2) ?it ps rs"
  proof -
    have t: "take (Suc i) (?css[i := as @ bs]) = take i ?css @ [as @ bs]" "drop (Suc i) (?css[i := as @ bs]) = drop (Suc i) ?css"
      using p(2) by (simp_all add: take_Suc_conv_app_nth)
    have "concat (take i ?css) @ as = ps" using pos(2) css p by (simp add: take_Suc_conv_app_nth)
    then show ?thesis unfolding m2_def c hm_pos_def
      by (intro exI [of _ as] exI [of _ bs]) (use t pos(3,4) prev p in auto)
  qed
  moreover have "hi_expected ?it = hm_modCount m2" using r assms(4) by (simp add: removed_def m2_def)
  ultimately show thesis using that r by (auto simp: m2_def)
qed

text \<open>Asking whether there is a next entry does not change which one it is.\<close>

lemma hm_hasNext_next:
  assumes "hi_expected it = hm_modCount m"
  shows "hm_makeNext m (snd (hm_checkHasNext m it)) = hm_makeNext m it"
proof (cases "futureEntry it = None")
  case True
  define p where "p = skip_loop (drop (hi_position it) (elementData m)) (hi_position it)"
  have "skip_loop (drop p (elementData m)) p = p"
  proof -
    have "p = hi_position it + length (takeWhile (\<lambda>x. x = None) (drop (hi_position it) (elementData m)))"
      by (simp add: p_def skip_loop_effect)
    then have "drop p (elementData m) = dropWhile (\<lambda>x. x = None) (drop (hi_position it) (elementData m))"
      by (simp add: dropWhile_eq_drop add.commute)
    moreover have "takeWhile (\<lambda>x. x = None) (dropWhile (\<lambda>x. x = None) xs) = []" for xs :: "addr option list"
      by (induction xs) auto
    ultimately show ?thesis by (simp add: skip_loop_effect)
  qed
  then show ?thesis using True assms by (simp add: hm_makeNext_def hm_checkHasNext_def Let_def p_def [symmetric])
next
  case False
  then show ?thesis by (simp add: hm_checkHasNext_def)
qed

section \<open>The views as collections\<close>

lemma removed_node_entry:
  assumes "removed hash a m m'" and "b \<noteq> a" and "b \<in> set (concat (hm_chains m))" and "hm_ok hash m"
  shows "node_entry (hm_heap m') b = node_entry (hm_heap m) b"
proof -
  obtain e where e: "hm_heap m b = Some e" using assms(3) ok_nodes [OF assms(4)] by auto
  have "same_data (hm_heap m') ((hm_heap m)(a := None))" using assms(1) unfolding removed_def by (blast intro: same_data_sym)
  then obtain f where "hm_heap m' b = Some f" "hn_key f = hn_key e" "hn_value f = hn_value e"
    using same_dataD [of "hm_heap m'" "(hm_heap m)(a := None)" b e] e assms(2) by auto
  then show ?thesis using e by (simp add: node_entry_def)
qed

lemma remove1_filter: "distinct xs \<Longrightarrow> remove1 a xs = filter (\<lambda>b. b \<noteq> a) xs"
  by (induction xs) (auto intro!: filter_True [symmetric])

lemma removed_entries:
  assumes "hm_ok hash m" and "hm_heap m a = Some e" and "removed hash a m m'"
  shows "hm_entries m' = filter (\<lambda>x. fst x \<noteq> hn_key e) (hm_entries m)"
proof -
  let ?L = "concat (hm_chains m)"
  have "remove1 a ?L = filter (\<lambda>b. b \<noteq> a) ?L" using ok_counts(1) [OF assms(1)] by (rule remove1_filter)
  then have "hm_entries m' = map (node_entry (hm_heap m')) (filter (\<lambda>b. b \<noteq> a) ?L)"
    using assms(3) by (simp add: hm_entries_def removed_def)
  also have "\<dots> = map (node_entry (hm_heap m)) (filter (\<lambda>b. b \<noteq> a) ?L)"
  proof (rule map_cong [OF refl])
    fix b
    assume "b \<in> set (filter (\<lambda>b. b \<noteq> a) ?L)"
    then show "node_entry (hm_heap m') b = node_entry (hm_heap m) b"
      using removed_node_entry [OF assms(3) _ _ assms(1), of b] by simp
  qed
  also have "filter (\<lambda>b. b \<noteq> a) ?L = filter ((\<lambda>x. fst x \<noteq> hn_key e) \<circ> node_entry (hm_heap m)) ?L"
  proof (rule filter_cong [OF refl])
    fix b
    assume "b \<in> set ?L"
    then obtain f where "hm_heap m b = Some f" using ok_nodes [OF assms(1)] by auto
    then show "b \<noteq> a \<longleftrightarrow> ((\<lambda>x. fst x \<noteq> hn_key e) \<circ> node_entry (hm_heap m)) b"
      using ok_key_unique [OF assms(1) _ assms(2), of b f] assms(2) by (auto simp: node_entry_def)
  qed
  finally show ?thesis by (simp add: hm_entries_def filter_map)
qed

definition hm_view :: "('k \<Rightarrow> u32) \<Rightarrow> ('k \<times> 'v \<Rightarrow> 'e) \<Rightarrow> ('k, 'v) hashmap \<Rightarrow> hmiter \<Rightarrow> 'e list \<Rightarrow> 'e list \<Rightarrow> bool \<Rightarrow> bool" where
  "hm_view hash f m it xs ys b \<longleftrightarrow> hm_ok hash m \<and> hi_expected it = hm_modCount m
     \<and> (\<exists>ps rs. hm_pos (hm_chains m) it ps rs \<and> xs = map (\<lambda>a. f (node_entry (hm_heap m) a)) ps
          \<and> ys = map (\<lambda>a. f (node_entry (hm_heap m) a)) rs \<and> (b \<longrightarrow> ps \<noteq> [] \<and> currentEntry it = Some (List.last ps)))"

lemma hm_readable_view:
  "readable (hm_view_ops (\<lambda>m it. project f (hm_makeNext m it))) (hm_ok hash) (\<lambda>m. map f (hm_entries m)) (hm_view hash f)"
proof
  fix m :: "('a, 'b) hashmap" and it xs ys y b
  let ?A = "hm_view_ops (\<lambda>m it. project f (hm_makeNext m it))" and ?f = "\<lambda>a. f (node_entry (hm_heap m) a)"
  show "hm_ok hash m \<Longrightarrow> v_size ?A m = int (length (map f (hm_entries m)))"
    using ok_counts(2) [of hash m] by (simp add: hm_view_ops_def hm_size_def hm_entries_def)
  show "hm_ok hash m \<and> map f (hm_entries m) = xs @ ys" if "hm_view hash f m it xs ys b"
    using that hm_pos_concat by (fastforce simp: hm_view_def hm_entries_def comp_def)
  show "hm_view hash f m (v_iterator ?A m) [] (map f (hm_entries m)) False" if "hm_ok hash m"
  proof -
    have "hi_expected (hm_iterator m) = hm_modCount m" by (simp add: hm_iterator_def)
    moreover have "map f (hm_entries m) = map ?f (concat (hm_chains m))" by (simp add: hm_entries_def comp_def)
    ultimately show ?thesis using that hm_pos_start [of "hm_chains m" m]
      unfolding hm_view_def by (intro conjI exI [of _ "[]"] exI [of _ "concat (hm_chains m)"]) (simp_all add: hm_view_ops_def)
  qed
  show "v_hasNext ?A m it \<longleftrightarrow> ys \<noteq> []" if v: "hm_view hash f m it xs ys b"
  proof -
    obtain ps rs where "hm_ok hash m" "hm_pos (hm_chains m) it ps rs" "ys = map ?f rs" using v by (auto simp: hm_view_def)
    then show ?thesis using hm_hasNext_pos [of hash m it ps rs] by (simp add: hm_view_ops_def)
  qed
  show "\<exists>it'. v_next ?A m it = (Ret y, it') \<and> hm_view hash f m it' (xs @ [y]) ys True" if v: "hm_view hash f m it xs (y # ys) b"
  proof -
    obtain ps a rs where e: "hm_pos (hm_chains m) it ps (a # rs)" "xs = map ?f ps" "y = ?f a" "ys = map ?f rs"
      using v by (auto simp: hm_view_def Cons_eq_map_conv)
    have ok: "hm_ok hash m" "hi_expected it = hm_modCount m" using v by (simp_all add: hm_view_def)
    obtain it' where it': "hm_makeNext m it = (Ret (node_entry (hm_heap m) a), it')" "hm_pos (hm_chains m) it' (ps @ [a]) rs"
      "currentEntry it' = Some a" "hi_expected it' = hm_modCount m"
      by (rule hm_next_pos [OF ok(1) e(1) ok(2)]) (rule that)
    have "v_next ?A m it = (Ret y, it')" using it'(1) e(3) by (simp add: hm_view_ops_def project_def)
    moreover have "hm_view hash f m it' (xs @ [y]) ys True"
      unfolding hm_view_def by (intro conjI exI [of _ "ps @ [a]"] exI [of _ rs]) (use ok it' e in auto)
    ultimately show ?thesis by blast
  qed
qed

lemma hm_view_remove:
  assumes v: "hm_view hash f m it (xs @ [x]) ys True"
  shows "\<exists>m' it' a. hm_doRemove m it = (Ret (), m', it') \<and> hm_view hash f m' it' xs ys False \<and> removed hash a m m'"
proof -
  let ?f = "\<lambda>a. f (node_entry (hm_heap m) a)"
  obtain qs rs where e0: "hm_pos (hm_chains m) it qs rs" "xs @ [x] = map ?f qs" "ys = map ?f rs" "qs \<noteq> []" "currentEntry it = Some (List.last qs)"
    using v by (auto simp: hm_view_def)
  obtain ps a where qs: "qs = ps @ [a]" using e0(4) by (metis rev_exhaust)
  have e: "hm_pos (hm_chains m) it (ps @ [a]) rs" "xs = map ?f ps" "currentEntry it = Some a" using e0 qs by simp_all
  have ok: "hm_ok hash m" "hi_expected it = hm_modCount m" using v by (simp_all add: hm_view_def)
  obtain m' it' where r: "hm_doRemove m it = (Ret (), m', it')" "removed hash a m m'" "hm_pos (hm_chains m') it' ps rs"
    "hi_expected it' = hm_modCount m'"
    by (rule hm_remove_pos [OF ok(1) e(1,3) ok(2)]) (rule that)
  have "distinct (ps @ [a] @ rs)" "set (ps @ [a] @ rs) = set (concat (hm_chains m))"
    using hm_pos_concat [OF e(1)] ok_counts(1) [OF ok(1)] by (metis append_assoc)+
  then have "node_entry (hm_heap m') b = node_entry (hm_heap m) b" if "b \<in> set ps \<union> set rs" for b
    using that by (intro removed_node_entry [OF r(2) _ _ ok(1)]) auto
  then have "hm_view hash f m' it' xs ys False"
    unfolding hm_view_def using r(2-4) e(2) e0(3) by (intro conjI exI [of _ ps] exI [of _ rs]) (auto simp: removed_def)
  then show ?thesis using r(1,2) by blast
qed

text \<open>
  The same with any property \<open>Q\<close> of the map that holds at the start and that taking out an entry keeps.
\<close>

lemma hm_iterable_with:
  assumes "\<And>m m' a. hm_ok hash m \<Longrightarrow> Q m \<Longrightarrow> removed hash a m m' \<Longrightarrow> Q m'"
  shows "iterable (hm_view_ops (\<lambda>m it. project f (hm_makeNext m it))) (\<lambda>m. hm_ok hash m \<and> Q m) (\<lambda>m. map f (hm_entries m))
     (\<lambda>m it xs ys b. hm_view hash f m it xs ys b \<and> Q m)"
proof
  fix m :: "('a, 'b) hashmap" and it xs ys x y b
  let ?A = "hm_view_ops (\<lambda>m it. project f (hm_makeNext m it))"
  note R = hm_readable_view [of f hash]
  show "hm_ok hash m \<and> Q m \<Longrightarrow> v_size ?A m = int (length (map f (hm_entries m)))" using readable.size_law [OF R] by blast
  show "hm_view hash f m it xs ys b \<and> Q m \<Longrightarrow> (hm_ok hash m \<and> Q m) \<and> map f (hm_entries m) = xs @ ys" using readable.view_law [OF R] by blast
  show "hm_ok hash m \<and> Q m \<Longrightarrow> hm_view hash f m (v_iterator ?A m) [] (map f (hm_entries m)) False \<and> Q m" using readable.iterator_law [OF R] by blast
  show "hm_view hash f m it xs ys b \<and> Q m \<Longrightarrow> v_hasNext ?A m it \<longleftrightarrow> ys \<noteq> []" using readable.hasNext_law [OF R] by blast
  show "hm_view hash f m it xs (y # ys) b \<and> Q m \<Longrightarrow> \<exists>it'. v_next ?A m it = (Ret y, it') \<and> hm_view hash f m it' (xs @ [y]) ys True \<and> Q m"
    using readable.next_law [OF R] by blast
  assume v: "hm_view hash f m it (xs @ [x]) ys True \<and> Q m"
  then obtain m' it' a where "hm_doRemove m it = (Ret (), m', it')" "hm_view hash f m' it' xs ys False" "removed hash a m m'"
    using hm_view_remove [of hash f m it xs x ys] by blast
  moreover have "hm_ok hash m" using v by (simp add: hm_view_def)
  ultimately show "\<exists>m' it'. v_remove ?A m it = (Ret (), m', it') \<and> hm_view hash f m' it' xs ys False \<and> Q m'"
    using assms v by (auto simp: hm_view_ops_def)
qed

lemma hm_iterable_view:
  "iterable (hm_view_ops (\<lambda>m it. project f (hm_makeNext m it))) (hm_ok hash) (\<lambda>m. map f (hm_entries m)) (hm_view hash f)"
  using hm_iterable_with [of hash "\<lambda>_. True" f] by simp

lemma hm_views:
  "hm_entrySet = hm_view_ops (\<lambda>m it. project (\<lambda>e. e) (hm_makeNext m it))" "hm_keySet = hm_view_ops (\<lambda>m it. project fst (hm_makeNext m it))"
  "hm_values = hm_view_ops (\<lambda>m it. project snd (hm_makeNext m it))"
  by (simp_all add: hm_entrySet_def hm_keySet_def hm_values_def hm_entry_next_def [abs_def] hm_key_next_def [abs_def] hm_value_next_def [abs_def])

interpretation hm_value_view: iterable hm_values "hm_ok hash" "\<lambda>m. map snd (hm_entries m)" "hm_view hash snd"
  for hash :: "'k \<Rightarrow> u32"
  unfolding hm_views by (rule hm_iterable_view)

lemma key_in_entries: "k \<in> fst ` set xs \<longleftrightarrow> map_of xs k \<noteq> None"
  by (simp add: map_of_eq_None_iff)

lemma hm_keySet_remove_effect:
  assumes "hm_ok hash m"
  shows "\<exists>m'. hm_keySet_remove hash k m = (Ret (k \<in> set (map fst (hm_entries m))), m') \<and> hm_ok hash m'
     \<and> map fst (hm_entries m') = filter (\<lambda>u. u \<noteq> k) (map fst (hm_entries m)) \<and> (m' = m \<or> (\<exists>a. removed hash a m m'))"
proof (cases "map_of (hm_entries m) k")
  case None
  then have "hm_keySet_remove hash k m = (Ret False, m)"
    using removeEntry_key_absent [OF assms hm_absent(1) [OF assms None]] by (simp add: hm_keySet_remove_def)
  moreover have "k \<notin> set (map fst (hm_entries m))" using None key_in_entries [of k "hm_entries m"] by simp
  ultimately show ?thesis using assms by (auto intro!: filter_True [symmetric])
next
  case (Some v)
  then obtain a e where e: "hm_heap m a = Some e" "hn_key e = k" by (rule hm_present [OF assms])
  obtain m1 where m1: "removeEntry_key hash k m = (Ret (Some a), m1)" "hm_heap m1 a = Some e"
    "removed hash a m (m1\<lparr>hm_heap := (hm_heap m1)(a := None)\<rparr>)"
    by (rule removeEntry_key_present [OF assms e]) (rule that)
  let ?m = "m1\<lparr>hm_heap := (hm_heap m1)(a := None)\<rparr>"
  have "hm_keySet_remove hash k m = (Ret True, ?m)" using m1(1,2) by (simp add: hm_keySet_remove_def delete_node_def)
  moreover have "k \<in> set (map fst (hm_entries m))" using Some key_in_entries [of k "hm_entries m"] by simp
  moreover have "map fst (hm_entries ?m) = filter (\<lambda>u. u \<noteq> k) (map fst (hm_entries m))"
    using removed_entries [OF assms e(1) m1(3)] e(2) by (simp add: filter_map comp_def)
  ultimately show ?thesis using m1(3) by (auto simp: removed_def)
qed

lemma hm_entrySet_remove_effect:
  assumes "hm_ok hash m"
  shows "\<exists>m'. hm_entrySet_remove hash x m = (Ret (x \<in> set (hm_entries m)), m') \<and> hm_ok hash m'
     \<and> hm_entries m' = filter (\<lambda>u. u \<noteq> x) (hm_entries m) \<and> (m' = m \<or> (\<exists>a. removed hash a m m'))"
proof -
  obtain k v where x: "x = (k, v)" by (cases x)
  have mem: "(k, w) \<in> set (hm_entries m) \<longleftrightarrow> map_of (hm_entries m) k = Some w" for w
    using hm_entries_iff [OF assms] hm_abs_iff [OF assms] by simp
  show ?thesis
  proof (cases "map_of (hm_entries m) k")
    case None
    then have "hm_entrySet_remove hash x m = (Ret False, m)" using hm_absent(2) [OF assms None] by (simp add: x hm_entrySet_remove_def getEntry_def)
    then show ?thesis using None mem x assms by (auto intro!: filter_True [symmetric])
  next
    case (Some w)
    then obtain a e where e: "hm_heap m a = Some e" "hn_key e = k" "hn_value e = w"
      and find: "findKeyEntry k (bucket_index (hash k) m) (hash k) m = Ret (Some a)" by (rule hm_present [OF assms])
    show ?thesis
    proof (cases "v = w")
      case True
      obtain m' where m': "removeEntry a m = (Ret (), m')" "removed hash a m m'"
        by (rule removeEntry_effect [OF assms e(1)]) (rule that)
      have "hm_entrySet_remove hash x m = (Ret True, m')"
        using find m'(1) e True by (simp add: x hm_entrySet_remove_def getEntry_def getValue_def)
      moreover have "hm_entries m' = filter (\<lambda>u. u \<noteq> x) (hm_entries m)"
        unfolding removed_entries [OF assms e(1) m'(2)] by (rule filter_cong) (use mem Some True e(2) x in auto)
      ultimately show ?thesis using Some mem True x m'(2) by (auto simp: removed_def)
    next
      case False
      then have "hm_entrySet_remove hash x m = (Ret False, m)"
        using find e by (simp add: x hm_entrySet_remove_def getEntry_def getValue_def)
      then show ?thesis using Some mem False x assms by (auto intro!: filter_True [symmetric])
    qed
  qed
qed

interpretation hm_key_view: value_set hm_keySet "hm_ok hash" "\<lambda>m. map fst (hm_entries m)" "hm_view hash fst" "hm_keySet_remove hash"
  for hash :: "'k \<Rightarrow> u32"
  unfolding hm_views
  using hm_iterable_view [of fst hash] hm_keySet_remove_effect [of hash] by (intro value_set.intro value_set_axioms.intro) blast+

interpretation hm_entry_view: value_set hm_entrySet "hm_ok hash" hm_entries "hm_view hash (\<lambda>e. e)" "hm_entrySet_remove hash"
  for hash :: "'k \<Rightarrow> u32"
  unfolding hm_views
  using hm_iterable_view [of "\<lambda>e. e" hash] hm_entrySet_remove_effect [of hash]
  by (intro value_set.intro value_set_axioms.intro) (simp, blast)

text \<open>The views of a constant map can be read in the same way.\<close>

lemma hm_const_readable:
  "readable (const_hm_view_ops msg (\<lambda>m it. project f (const_hm_makeNext m it))) (hm_ok hash) (\<lambda>m. map f (hm_entries m)) (hm_view hash f)"
  using hm_readable_view [of f hash]
  by (simp add: readable_def const_hm_view_ops_def hm_view_ops_def const_hm_makeNext_def const_hm_checkHasNext_def
      const_hm_iterator_def [abs_def] hm_iterator_def [abs_def])

lemma const_hm_views:
  "const_hm_entrySet = const_hm_view_ops ''Can't clear a const collection'' (\<lambda>m it. project (\<lambda>e. e) (const_hm_makeNext m it))"
  "const_hm_keySet = const_hm_view_ops ''Can't modify a const collection'' (\<lambda>m it. project fst (const_hm_makeNext m it))"
  "const_hm_values = const_hm_view_ops ''Can't modify a const collection'' (\<lambda>m it. project snd (const_hm_makeNext m it))"
  by (simp_all add: const_hm_entrySet_def const_hm_keySet_def const_hm_values_def const_hm_entry_next_def [abs_def]
      const_hm_key_next_def [abs_def] const_hm_value_next_def [abs_def])

interpretation const_key_view: readable const_hm_keySet "hm_ok hash" "\<lambda>m. map fst (hm_entries m)" "hm_view hash fst"
  for hash :: "'k \<Rightarrow> u32"
  unfolding const_hm_views by (rule hm_const_readable)

interpretation const_value_view: readable const_hm_values "hm_ok hash" "\<lambda>m. map snd (hm_entries m)" "hm_view hash snd"
  for hash :: "'k \<Rightarrow> u32"
  unfolding const_hm_views by (rule hm_const_readable)

section \<open>The loop of equals\<close>

lemma entries_map_le:
  assumes "distinct (map fst xs)"
  shows "(\<forall>x \<in> set xs. f (fst x) = Some (snd x)) \<longleftrightarrow> map_of xs \<subseteq>\<^sub>m f"
proof -
  have "map_of xs \<subseteq>\<^sub>m f \<longleftrightarrow> (\<forall>k v. map_of xs k = Some v \<longrightarrow> f k = Some v)" unfolding map_le_def dom_def by force
  also have "\<dots> \<longleftrightarrow> (\<forall>k v. (k, v) \<in> set xs \<longrightarrow> f k = Some v)" using map_of_eq_Some_iff [OF assms] by simp
  finally show ?thesis by auto
qed

lemma hm_equals_loop_effect:
  assumes "hm_ok hash m" and contains: "\<And>k. containsKey k = Ret (other k \<noteq> None)" and get: "\<And>k v. other k = Some v \<Longrightarrow> get k = Ret v"
    and "hm_pos (hm_chains m) it ps rs" and "hi_expected it = hm_modCount m" and "length rs < n"
  shows "hm_equals_loop n containsKey get m it
     = Some (Ret (\<forall>a \<in> set rs. other (fst (node_entry (hm_heap m) a)) = Some (snd (node_entry (hm_heap m) a))))"
  using assms(4-6)
proof (induction rs arbitrary: n it ps)
  case Nil
  then obtain n' where n: "n = Suc n'" by (cases n) auto
  have "\<not> fst (hm_checkHasNext m it)" using hm_hasNext_pos [OF assms(1) Nil(1)] by simp
  then show ?case using n by (cases "hm_checkHasNext m it") (simp add: const_hm_checkHasNext_def)
next
  case (Cons y rs)
  obtain n' where n: "n = Suc n'" "length rs < n'" using Cons.prems(3) by (cases n) auto
  have more: "fst (hm_checkHasNext m it)" using hm_hasNext_pos [OF assms(1) Cons.prems(1)] by simp
  obtain it' where it': "hm_makeNext m it = (Ret (node_entry (hm_heap m) y), it')" "hm_pos (hm_chains m) it' (ps @ [y]) rs"
    "hi_expected it' = hm_modCount m"
    by (rule hm_next_pos [OF assms(1) Cons.prems(1,2)]) (rule that)
  obtain k v where kv: "node_entry (hm_heap m) y = (k, v)" by (cases "node_entry (hm_heap m) y")
  have "const_hm_entry_next m (snd (hm_checkHasNext m it)) = (Ret (k, v), it')"
    using hm_hasNext_next [OF Cons.prems(2)] it'(1) kv by (simp add: const_hm_entry_next_def const_hm_makeNext_def project_def)
  moreover obtain it0 where it0: "hm_checkHasNext m it = (True, it0)" using more by (cases "hm_checkHasNext m it") auto
  ultimately have e: "const_hm_entry_next m it0 = (Ret (k, v), it')" by simp
  show ?case
  proof (cases "other k")
    case None
    then show ?thesis using n(1) it0 e contains [of k] kv by (simp add: const_hm_checkHasNext_def)
  next
    case (Some w)
    then show ?thesis using n(1) it0 e contains [of k] get [of k w] kv Cons.IH [OF it'(2,3) n(2)]
      by (simp add: const_hm_checkHasNext_def)
  qed
qed

text \<open>
  C27: equals with a map of any class that answers size, containsKey and get like a finite partial function returns, and is true
  exactly when both maps have the same entries, whatever the hash function, the sizes of the tables and the order of the
  insertions were.
\<close>

theorem hm_equals_same_map:
  assumes "hm_ok hash m" and "finite (dom other)" and "other_size = int (card (dom other))"
    and "\<And>k. containsKey k = Ret (other k \<noteq> None)" and "\<And>k v. other k = Some v \<Longrightarrow> get k = Ret v" and "length (hm_entries m) < n"
  shows "hm_equals n False other_size containsKey get m = Some (Ret (map_of (hm_entries m) = other))"
proof -
  let ?M = "map_of (hm_entries m)"
  have size: "hm_size m = int (card (dom ?M))" using hm_count [OF assms(1)] by (simp add: hm_size_def)
  show ?thesis
  proof (cases "card (dom ?M) = card (dom other)")
    case True
    have start: "hm_pos (hm_chains m) (const_hm_iterator m) [] (concat (hm_chains m))"
      using hm_pos_start [of "hm_chains m" m] by (simp add: const_hm_iterator_def hm_iterator_def)
    have "hm_equals_loop n containsKey get m (const_hm_iterator m)
        = Some (Ret (\<forall>a \<in> set (concat (hm_chains m)). other (fst (node_entry (hm_heap m) a)) = Some (snd (node_entry (hm_heap m) a))))"
      by (rule hm_equals_loop_effect [OF assms(1,4,5) start]) (use assms(6) in \<open>simp_all add: const_hm_iterator_def hm_entries_def\<close>)
    also have "(\<forall>a \<in> set (concat (hm_chains m)). other (fst (node_entry (hm_heap m) a)) = Some (snd (node_entry (hm_heap m) a)))
        \<longleftrightarrow> (\<forall>x \<in> set (hm_entries m). other (fst x) = Some (snd x))"
      by (simp add: hm_entries_def)
    also have "\<dots> \<longleftrightarrow> ?M \<subseteq>\<^sub>m other"
      by (rule entries_map_le [OF hm_entries_distinct [OF assms(1)]])
    also have "\<dots> \<longleftrightarrow> ?M = other"
    proof
      assume le: "?M \<subseteq>\<^sub>m other"
      then have "dom ?M = dom other" using True assms(2) by (intro card_subset_eq map_le_implies_dom_le) auto
      with le show "?M = other" by (intro map_le_antisym) (auto simp: map_le_def)
    qed simp
    finally show ?thesis using True assms(3) size by (simp add: hm_equals_def)
  next
    case False
    then show ?thesis using assms(3) size by (auto simp: hm_equals_def)
  qed
qed

section \<open>Sequences of calls\<close>

text \<open>
  A client that uses the map and its views, with the \<^verbatim>\<open>NoSuchElementException\<close> of \<^verbatim>\<open>remove\<close> caught; \<open>None\<close> is any other exception,
  undefined behaviour, or a loop that does not end.
\<close>

datatype ('k, 'v) hm_call =
    HPut 'k 'v
  | HRemove 'k
  | HPutAll "('k \<times> 'v) list"
  | HCopy bool "('k \<times> 'v) list"
  | HClear
  | HRemoveEntry "'k \<times> 'v"
  | HRemoveKeys "'k list"
  | HRetainKeys "'k list"

definition settled :: "'a outcome \<times> 's \<Rightarrow> 's option" where
  "settled r = (case r of (Ret _, s) \<Rightarrow> Some s | (Throw (ContainerException NoSuchElement _), s) \<Rightarrow> Some s | _ \<Rightarrow> None)"

fun hm_apply :: "('k \<Rightarrow> u32) \<Rightarrow> 'v \<Rightarrow> ('k, 'v) hm_call \<Rightarrow> ('k, 'v) hashmap \<Rightarrow> ('k, 'v) hashmap option" where
  "hm_apply hash d (HPut k v) m = settled (hm_put hash d k v m)"
| "hm_apply hash d (HRemove k) m = settled (hm_remove hash k m)"
| "hm_apply hash d (HPutAll es) m = settled (hm_putAll hash d es m)"
| "hm_apply hash d (HCopy same_object es) m = settled (hm_copy hash d same_object es m)"
| "hm_apply hash d HClear m = settled (hm_clear m)"
| "hm_apply hash d (HRemoveEntry x) m = settled (hm_entrySet_remove hash x m)"
| "hm_apply hash d (HRemoveKeys ks) m =
     Option.bind (set_removeAll (Suc (nat (hm_size m))) hm_keySet (hm_keySet_remove hash) ks m) settled"
| "hm_apply hash d (HRetainKeys ks) m = Option.bind (coll_retainAll (Suc (nat (hm_size m))) hm_keySet ks m) settled"

fun hm_run :: "('k \<Rightarrow> u32) \<Rightarrow> 'v \<Rightarrow> ('k, 'v) hm_call list \<Rightarrow> ('k, 'v) hashmap \<Rightarrow> ('k, 'v) hashmap option" where
  "hm_run hash d [] m = Some m"
| "hm_run hash d (c # cs) m = Option.bind (hm_apply hash d c m) (hm_run hash d cs)"

text \<open>What the calls do to a partial function, and a bound for how much they can make the table grow.\<close>

fun hm_spec :: "('k, 'v) hm_call \<Rightarrow> ('k \<rightharpoonup> 'v) \<Rightarrow> ('k \<rightharpoonup> 'v)" where
  "hm_spec (HPut k v) f = f(k \<mapsto> v)"
| "hm_spec (HRemove k) f = f(k := None)"
| "hm_spec (HPutAll es) f = f ++ map_of (rev es)"
| "hm_spec (HCopy same_object es) f = (if same_object then Map.empty else map_of (rev es))"
| "hm_spec HClear f = Map.empty"
| "hm_spec (HRemoveEntry x) f = (if f (fst x) = Some (snd x) then f(fst x := None) else f)"
| "hm_spec (HRemoveKeys ks) f = f |` (- set ks)"
| "hm_spec (HRetainKeys ks) f = f |` set ks"

fun hm_weight :: "('k, 'v) hm_call \<Rightarrow> nat" where
  "hm_weight (HPut k v) = 1"
| "hm_weight (HPutAll es) = 2 * length es"
| "hm_weight (HCopy _ es) = 3 * length es"
| "hm_weight _ = 0"

text \<open>Operations that only remove keep the load factor and the length of the table.\<close>

lemma hm_fewer:
  assumes "hm_small w m" and "hm_ok hash m" and "hm_ok hash m'" and "loadFactor m' = loadFactor m" and "length (elementData m') = length (elementData m)"
    and "dom (map_of (hm_entries m')) \<subseteq> dom (map_of (hm_entries m))"
  shows "hm_small w m'"
proof -
  have "card (dom (map_of (hm_entries m'))) \<le> card (dom (map_of (hm_entries m)))" using assms(6) by (intro card_mono) (simp_all add: finite_dom_map_of)
  then show ?thesis using assms(1,4,5) hm_count [OF assms(2)] hm_count [OF assms(3)] by (simp add: hm_small_def)
qed

lemma map_of_without:
  assumes "distinct (map fst xs)"
  shows "map_of (filter (\<lambda>u. u \<noteq> x) xs) = (if map_of xs (fst x) = Some (snd x) then (map_of xs)(fst x := None) else map_of xs)"
  using assms
proof (induction xs)
  case (Cons y ys)
  obtain k v where y: "y = (k, v)" by (cases y)
  have "map_of ys k = None" using Cons.prems y by (simp add: map_of_eq_None_iff)
  with Cons y show ?case by (cases x) (auto simp: fun_eq_iff)
qed simp

text \<open>A map from which entries of another were taken.\<close>

definition hm_within :: "('k, 'v) hashmap \<Rightarrow> ('k, 'v) hashmap \<Rightarrow> bool" where
  "hm_within m m' \<longleftrightarrow> set (hm_entries m') \<subseteq> set (hm_entries m) \<and> loadFactor m' = loadFactor m
     \<and> length (elementData m') = length (elementData m)"

lemma within_removed:
  assumes "hm_ok hash m" and "hm_within m0 m" and "removed hash a m m'"
  shows "hm_within m0 m'"
proof -
  obtain e where "hm_heap m a = Some e" using assms(3) by (auto simp: removed_def)
  then have "set (hm_entries m') \<subseteq> set (hm_entries m)" using removed_entries [OF assms(1) _ assms(3)] by auto
  then show ?thesis using assms(2,3) by (auto simp: hm_within_def removed_def)
qed

lemma within_small:
  assumes "hm_small w m" and "hm_ok hash m" and "hm_ok hash m'" and "hm_within m m'"
  shows "hm_small w m'"
  using assms(4) by (intro hm_fewer [OF assms(1-3)]) (auto simp: hm_within_def dom_map_of_conv_image_fst)

lemma within_keys:
  assumes "hm_ok hash m" and "hm_ok hash m'" and "hm_within m m'" and "map fst (hm_entries m') = filter P (map fst (hm_entries m))"
  shows "map_of (hm_entries m') = map_of (hm_entries m) |` {k. P k}"
proof (rule ext)
  fix k
  have D: "distinct (map fst (hm_entries m))" "distinct (map fst (hm_entries m'))" using hm_entries_distinct assms(1,2) by blast+
  have keys: "k \<in> fst ` set (hm_entries m') \<longleftrightarrow> k \<in> fst ` set (hm_entries m) \<and> P k"
    using arg_cong [OF assms(4), of set] by auto
  show "map_of (hm_entries m') k = (map_of (hm_entries m) |` {k. P k}) k"
  proof (cases "map_of (hm_entries m') k")
    case None
    then have "map_of (hm_entries m) k = None \<or> \<not> P k" using keys by (simp add: map_of_eq_None_iff)
    then show ?thesis using None by (auto simp: restrict_map_def)
  next
    case (Some v)
    then have "(k, v) \<in> set (hm_entries m')" by (rule map_of_SomeD)
    then have "(k, v) \<in> set (hm_entries m)" "P k" using assms(3) keys by (auto simp: hm_within_def rev_image_eqI)
    then show ?thesis using Some map_of_is_SomeI [OF D(1)] by (simp add: restrict_map_def)
  qed
qed

lemma hm_keys_within:
  "value_set hm_keySet (\<lambda>m. hm_ok hash m \<and> hm_within m0 m) (\<lambda>m. map fst (hm_entries m))
     (\<lambda>m it xs ys b. hm_view hash fst m it xs ys b \<and> hm_within m0 m) (hm_keySet_remove hash)"
proof (intro value_set.intro value_set_axioms.intro)
  show "iterable hm_keySet (\<lambda>m. hm_ok hash m \<and> hm_within m0 m) (\<lambda>m. map fst (hm_entries m))
     (\<lambda>m it xs ys b. hm_view hash fst m it xs ys b \<and> hm_within m0 m)"
    unfolding hm_views by (rule hm_iterable_with) (rule within_removed)
  fix m k
  assume m: "hm_ok hash m \<and> hm_within m0 m"
  then obtain m' where m': "hm_keySet_remove hash k m = (Ret (k \<in> set (map fst (hm_entries m))), m')" "hm_ok hash m'"
    "map fst (hm_entries m') = filter (\<lambda>u. u \<noteq> k) (map fst (hm_entries m))" "m' = m \<or> (\<exists>a. removed hash a m m')"
    using hm_keySet_remove_effect [of hash m k] by blast
  then have "hm_within m0 m'" using m within_removed [of hash m m0] by blast
  then show "\<exists>m'. hm_keySet_remove hash k m = (Ret (k \<in> set (map fst (hm_entries m))), m') \<and> (hm_ok hash m' \<and> hm_within m0 m')
      \<and> map fst (hm_entries m') = filter (\<lambda>u. u \<noteq> k) (map fst (hm_entries m))"
    using m' by blast
qed

lemma hm_size_entries: "hm_ok hash m \<Longrightarrow> hm_size m = int (length (hm_entries m))"
  using ok_counts(2) [of hash m] by (simp add: hm_size_def hm_entries_def)

lemma hm_within_refl: "hm_within m m"
  by (simp add: hm_within_def)

lemma removeKeys_effect:
  assumes "hm_ok hash m"
  obtains m' b where "set_removeAll (Suc (nat (hm_size m))) hm_keySet (hm_keySet_remove hash) ks m = Some (Ret b, m')" and "hm_ok hash m'"
    and "hm_within m m'" and "map_of (hm_entries m') = map_of (hm_entries m) |` (- set ks)"
proof -
  have n: "length (map fst (hm_entries m)) < Suc (nat (hm_size m))" using hm_size_entries [OF assms] by simp
  have I: "hm_ok hash m \<and> hm_within m m" using assms hm_within_refl by blast
  obtain m' b where m': "set_removeAll (Suc (nat (hm_size m))) hm_keySet (hm_keySet_remove hash) ks m = Some (Ret b, m')"
    "hm_ok hash m'" "hm_within m m'" "map fst (hm_entries m') = filter (\<lambda>u. u \<notin> set ks) (map fst (hm_entries m))"
    using value_set.set_removeAll_effect [OF hm_keys_within I n, of ks] by blast
  then show thesis using within_keys [OF assms m'(2-4)] that by (simp add: Compl_eq)
qed

lemma retainKeys_effect:
  assumes "hm_ok hash m"
  obtains m' b where "coll_retainAll (Suc (nat (hm_size m))) hm_keySet ks m = Some (Ret b, m')" and "hm_ok hash m'"
    and "hm_within m m'" and "map_of (hm_entries m') = map_of (hm_entries m) |` set ks"
proof -
  have n: "length (map fst (hm_entries m)) < Suc (nat (hm_size m))" using hm_size_entries [OF assms] by simp
  have I: "hm_ok hash m \<and> hm_within m m" using assms hm_within_refl by blast
  obtain m' b where m': "coll_retainAll (Suc (nat (hm_size m))) hm_keySet ks m = Some (Ret b, m')"
    "hm_ok hash m'" "hm_within m m'" "map fst (hm_entries m') = filter (\<lambda>u. u \<in> set ks) (map fst (hm_entries m))"
    using iterable.coll_retainAll_effect [OF value_set.axioms(1) [OF hm_keys_within] I n, of ks] by blast
  then show thesis using within_keys [OF assms m'(2-4)] that by simp
qed

lemma hm_apply_step:
  assumes "hm_ok hash m" and "hm_small w m" and "w + hm_weight c \<le> 2 ^ 24"
  shows "\<exists>m'. hm_apply hash d c m = Some m' \<and> hm_ok hash m' \<and> hm_small (w + hm_weight c) m'
     \<and> map_of (hm_entries m') = hm_spec c (map_of (hm_entries m))"
proof (cases c)
  case (HPut k v)
  have w: "w \<le> 2 ^ 24" using assms(3) by simp
  show ?thesis
    by (rule hm_put_small [OF assms(1,2) w, of d k v]) (use HPut in \<open>simp add: settled_def hm_put_def\<close>)
next
  case (HRemove k)
  show ?thesis
  proof (cases "map_of (hm_entries m) k")
    case None
    then show ?thesis using HRemove hm_remove_effect(1) [OF assms(1) None] assms by (simp add: settled_def fun_upd_idem)
  next
    case (Some v)
    then obtain m' a e where m': "hm_remove hash k m = (Ret v, m')" "hm_heap m a = Some e" "hn_key e = k" "removed hash a m m'"
      using hm_remove_effect(2) [OF assms(1) Some] by blast
    moreover have "hm_small w m'" using within_small [OF assms(2,1)] within_removed [OF assms(1) hm_within_refl m'(4)] m'(4)
      by (auto simp: removed_def)
    ultimately show ?thesis using HRemove by (auto simp: settled_def removed_def)
  qed
next
  case (HPutAll es)
  then show ?thesis using putAll_effect [OF assms(1,2), of es d] assms(3) by (auto simp: settled_def)
next
  case (HCopy b es)
  then show ?thesis using hm_copy_effect [OF assms(1,2), of es d b] assms(3) by (auto simp: settled_def)
next
  case HClear
  obtain m' where m': "hm_clear m = (Ret (), m')" "hm_ok hash m'" "hm_entries m' = []" "loadFactor m' = loadFactor m"
    "length (elementData m') = length (elementData m)"
    by (rule hm_clear_effect [OF assms(1)]) (rule that)
  then have "hm_small w m'" by (intro within_small [OF assms(2,1)]) (simp_all add: hm_within_def)
  then show ?thesis using HClear m' by (simp add: settled_def)
next
  case (HRemoveEntry x)
  obtain m' where m': "hm_entrySet_remove hash x m = (Ret (x \<in> set (hm_entries m)), m')" "hm_ok hash m'"
    "hm_entries m' = filter (\<lambda>u. u \<noteq> x) (hm_entries m)" "m' = m \<or> (\<exists>a. removed hash a m m')"
    using hm_entrySet_remove_effect [OF assms(1)] by blast
  then have "hm_small w m'" using within_small [OF assms(2,1) m'(2)] within_removed [OF assms(1) hm_within_refl] assms(2) by blast
  moreover have "map_of (hm_entries m') = hm_spec c (map_of (hm_entries m))"
    unfolding HRemoveEntry m'(3) using map_of_without [OF hm_entries_distinct [OF assms(1)], of x] by simp
  ultimately show ?thesis using HRemoveEntry m'(1,2) by (simp add: settled_def)
next
  case (HRemoveKeys ks)
  show ?thesis
    by (rule removeKeys_effect [OF assms(1), of ks])
      (use HRemoveKeys within_small [OF assms(2,1)] in \<open>simp add: settled_def\<close>)
next
  case (HRetainKeys ks)
  show ?thesis
    by (rule retainKeys_effect [OF assms(1), of ks])
      (use HRetainKeys within_small [OF assms(2,1)] in \<open>simp add: settled_def\<close>)
qed

lemma hm_run_steps:
  "hm_ok hash m \<Longrightarrow> hm_small w m \<Longrightarrow> w + sum_list (map hm_weight cs) \<le> 2 ^ 24 \<Longrightarrow>
   \<exists>m'. hm_run hash d cs m = Some m' \<and> hm_ok hash m' \<and> map_of (hm_entries m') = fold hm_spec cs (map_of (hm_entries m))"
proof (induction cs arbitrary: m w)
  case (Cons c cs)
  have "w + hm_weight c \<le> 2 ^ 24" using Cons.prems(3) by simp
  from hm_apply_step [OF Cons.prems(1,2) this, of d] obtain m1 where m1: "hm_apply hash d c m = Some m1" "hm_ok hash m1"
    "hm_small (w + hm_weight c) m1" "map_of (hm_entries m1) = hm_spec c (map_of (hm_entries m))" by blast
  moreover have "w + hm_weight c + sum_list (map hm_weight cs) \<le> 2 ^ 24" using Cons.prems(3) by simp
  ultimately show ?case using Cons.IH [OF m1(2,3)] by auto
qed simp

text \<open>
  C26: After any sequence of calls of the map and its views that put fewer than about sixteen million entries into it, each of which
  returns, the hash table answers get, containsKey, containsValue and size like the partial function the same calls build,
  whatever the hash function is, and its destructor then frees every entry that was ever allocated and not yet freed, once.
\<close>

theorem hm_refines_map:
  assumes "sum_list (map hm_weight calls) \<le> 2 ^ 24"
  shows "fst (hm_new :: unit outcome \<times> ('k, 'v) hashmap) = Ret () \<and>
     (\<exists>m. hm_run hash d calls (snd hm_new) = Some (m :: ('k, 'v) hashmap)
        \<and> hm_get hash k m = (case fold hm_spec calls Map.empty k of
             Some v \<Rightarrow> Ret v | None \<Rightarrow> Throw (NoSuchElementException ''The specified key is not present in the Map''))
        \<and> hm_containsKey hash k m = Ret (fold hm_spec calls Map.empty k \<noteq> None)
        \<and> hm_containsValue v m = Ret (v \<in> ran (fold hm_spec calls Map.empty))
        \<and> hm_size m = int (card (dom (fold hm_spec calls Map.empty)))
        \<and> hm_destroy m = Ret (\<lambda>_. None))"
proof -
  obtain m0 :: "('k, 'v) hashmap" where m0: "hm_new = (Ret (), m0)" "hm_ok hash m0" "hm_entries m0 = []" "hm_small 0 m0"
    by (rule hm_new_effect)
  obtain m where m: "hm_run hash d calls m0 = Some m" "hm_ok hash m" "map_of (hm_entries m) = fold hm_spec calls Map.empty"
    using hm_run_steps [OF m0(2,4), of calls d] assms m0(3) by auto
  have "fst (hm_new :: unit outcome \<times> ('k, 'v) hashmap) = Ret ()" "snd hm_new = m0" by (simp_all only: m0(1) fst_conv snd_conv)
  then show ?thesis
    using m(1) hm_get_effect [OF m(2), of k] hm_containsKey_effect [OF m(2), of k] hm_containsValue_effect [OF m(2), of v]
      hm_count [OF m(2)] hm_destroy_effect [OF m(2)] unfolding m(3) by (intro conjI exI [of _ m]) (simp_all add: hm_size_def)
qed

text \<open>A witness with keys that share a bucket and a table that grows.\<close>

theorem hm_refines_map_witness:
  "\<exists>m. hm_run hash_int 0 [HPut 1 10, HPut 17 20, HPut 1 30, HRemove 5] (snd hm_new) = Some (m :: (u32, nat) hashmap)
     \<and> hm_get hash_int 1 m = Ret 30 \<and> hm_size m = 2 \<and> hm_destroy m = Ret (\<lambda>_. None)"
proof -
  let ?calls = "[HPut 1 10, HPut 17 20, HPut 1 30, HRemove 5] :: (u32, nat) hm_call list"
  have "sum_list (map hm_weight ?calls) \<le> 2 ^ 24" by simp
  from hm_refines_map [OF this, of hash_int 0 1 0] show ?thesis by (auto simp: card_insert_if)
qed

text \<open>A map for the examples.\<close>

definition hm_demo :: "(u32, nat) hashmap" where
  "hm_demo = snd (hm_putAll hash_int 0 [(1, 10), (17, 20)] (snd hm_new))"

lemma hm_demo_ok: "hm_ok hash_int hm_demo" "map_of (hm_entries hm_demo) = [1 \<mapsto> 10, 17 \<mapsto> 20]" "length (hm_entries hm_demo) = 2"
proof -
  obtain m0 :: "(u32, nat) hashmap" where m0: "hm_new = (Ret (), m0)" "hm_ok hash_int m0" "hm_entries m0 = []" "hm_small 0 m0"
    by (rule hm_new_effect)
  have "snd hm_new = m0" by (simp only: m0(1) snd_conv)
  then show ok: "hm_ok hash_int hm_demo" "map_of (hm_entries hm_demo) = [1 \<mapsto> 10, 17 \<mapsto> 20]"
    using putAll_effect [OF m0(2,4), of "[(1, 10), (17, 20)]" 0] m0(3) by (auto simp: hm_demo_def fun_upd_twist)
  have "hm_size hm_demo = 2" using hm_count [OF ok(1)] unfolding ok(2) by (simp add: hm_size_def)
  then show "length (hm_entries hm_demo) = 2" using hm_size_entries [OF ok(1)] by simp
qed

theorem hm_equals_same_map_witness:
  "hm_equals 3 False 2 (\<lambda>k. Ret ([17 \<mapsto> 20, 1 \<mapsto> 10] k \<noteq> None)) (\<lambda>k. Ret (the ([17 \<mapsto> 20, 1 \<mapsto> 10] k))) hm_demo = Some (Ret True)"
proof -
  have "hm_equals 3 False 2 (\<lambda>k. Ret ([17 \<mapsto> 20, 1 \<mapsto> 10] k \<noteq> None)) (\<lambda>k. Ret (the ([17 \<mapsto> 20, 1 \<mapsto> 10] k))) hm_demo
      = Some (Ret (map_of (hm_entries hm_demo) = [17 \<mapsto> 20, 1 \<mapsto> 10]))"
    by (rule hm_equals_same_map [OF hm_demo_ok(1)]) (use hm_demo_ok(3) in auto)
  then show ?thesis unfolding hm_demo_ok(2) by (simp add: fun_upd_twist)
qed

text \<open>
  An iteration over the keys of a hash map ends, visits every key of the map once and no other, and leaves the map as it was;
  this holds for the views of the map and for those of a constant map.
\<close>

theorem hm_iteration_complete:
  assumes "hm_ok hash m" and "length (hm_entries m) < n"
  shows "\<exists>ks. coll_toArray n hm_keySet m = Some (Ret ks, m) \<and> coll_toArray n const_hm_keySet m = Some (Ret ks, m)
     \<and> distinct ks \<and> set ks = dom (map_of (hm_entries m)) \<and> length ks = nat (hm_size m)"
proof (intro exI conjI)
  show "coll_toArray n hm_keySet m = Some (Ret (map fst (hm_entries m)), m)"
    "coll_toArray n const_hm_keySet m = Some (Ret (map fst (hm_entries m)), m)"
    using hm_key_view.coll_toArray_result [OF assms(1), of n] const_key_view.coll_toArray_result [OF assms(1), of n] assms(2) by simp_all
  show "distinct (map fst (hm_entries m))" using assms(1) by (rule hm_entries_distinct)
  show "set (map fst (hm_entries m)) = dom (map_of (hm_entries m))" by (simp add: dom_map_of_conv_image_fst)
  show "length (map fst (hm_entries m)) = nat (hm_size m)" using hm_size_entries [OF assms(1)] by simp
qed

theorem hm_iteration_complete_witness:
  "\<exists>ks. coll_toArray 3 hm_keySet hm_demo = Some (Ret ks, hm_demo) \<and> distinct ks \<and> set ks = {1, 17}"
  using hm_iteration_complete [OF hm_demo_ok(1), of 3] unfolding hm_demo_ok(2,3) by (auto simp: insert_commute)

text \<open>
  C28: The capacity that the constructors and rehashing compute for a positive number up to 2 ^ 30 is the least power of two that
  is not below it, by shifting and or-ing 32-bit integers.
\<close>

theorem calculateCapacity_least:
  assumes "0 < n" and "n \<le> 2 ^ 30"
  shows "\<exists>k. unat (calculateCapacity (of_nat n)) = 2 ^ k \<and> n \<le> 2 ^ k \<and> (\<forall>j. n \<le> 2 ^ j \<longrightarrow> k \<le> j)"
proof -
  obtain k where k: "unat (calculateCapacity (of_nat n)) = 2 ^ k" "n \<le> 2 ^ k" "2 ^ k < 2 * n"
    using calculateCapacity_power [OF assms] by metis
  have "k \<le> j" if "n \<le> 2 ^ j" for j
  proof -
    have "(2 :: nat) ^ k < 2 ^ Suc j" using k(3) that by simp
    then have "k < Suc j" by (rule power_less_imp_less_exp [rotated]) simp
    then show ?thesis by simp
  qed
  with k show ?thesis by blast
qed

theorem calculateCapacity_least_witness:
  "\<exists>k. unat (calculateCapacity (of_nat 100)) = 2 ^ k \<and> 100 \<le> (2 :: nat) ^ k \<and> (\<forall>j. 100 \<le> (2 :: nat) ^ j \<longrightarrow> k \<le> j)"
  by (rule calculateCapacity_least) simp_all

text \<open>
  Seven entries in a table of sixteen buckets, two of them in the same bucket of this table and of the next larger one.
\<close>

definition hm_seven :: "(u32, nat) hashmap" where
  "hm_seven = snd (hm_putAll hash_int 0 [(0, 0), (32, 1), (1, 2), (2, 3), (3, 4), (4, 5), (5, 6)] (snd hm_new))"

text \<open>
  Rehashing does not count as a modification.  A client takes the first entry of a map from an iterator, calls putAll with
  the same map, which changes no entry but makes the table grow, and then removes the entry through the iterator, which does not
  notice the change: the iterator takes another entry out of the table and frees the one it stands on, which stays in
  the table, and the next lookup reads freed memory.
\<close>

theorem hm_rehash_unnoticed:
  "case hm_makeNext hm_seven (hm_iterator hm_seven) of (r, it) \<Rightarrow>
     r = Ret (32, 1)
   \<and> (case hm_putAll hash_int 0 (hm_entries hm_seven) hm_seven of (r, m) \<Rightarrow>
        r = Ret () \<and> hm_modCount m = hm_modCount hm_seven
      \<and> (case hm_doRemove m it of (r, m', _) \<Rightarrow> r = Ret () \<and> hm_get hash_int 0 m' = Undefined UseAfterFree))"
  by code_simp

end
