(* ===== verification/Linked_Hash_Map.thy ===== *)
theory Linked_Hash_Map
  imports Hash_Map_Views
begin

text \<open>
  \<^verbatim>\<open>LinkedHashMap\<close> (LinkedHashMap.h): a \<^verbatim>\<open>HashMap\<close> whose entries are also in a doubly linked list, and \<^verbatim>\<open>LRUCache\<close>
  (LRUCache.h), which bounds it.
\<close>

section \<open>State\<close>

text \<open>
  A \<^verbatim>\<open>LinkedHashMapEntry\<close> is a \<^verbatim>\<open>HashMapEntry\<close> with two more pointers.  \<open>lh_chain\<close> holds the pointers of every such entry at its
  address in the heap of the base class; an entry for which it holds nothing is a plain \<^verbatim>\<open>HashMapEntry\<close>, and the pointers of one that has
  been freed cannot be reached.
\<close>

record lhnode =
  chainForward :: "addr option"
  chainBackward :: "addr option"

record ('k, 'v) linkedmap =
  lh_base :: "('k, 'v) hashmap"
  lh_chain :: "addr \<Rightarrow> lhnode option"
  lh_head :: "addr option"
  lh_tail :: "addr option"
  accessOrder :: bool

text \<open>Reading the pointers of an entry, \<^verbatim>\<open>p->chainForward = q\<close> and \<^verbatim>\<open>p->chainBackward = q\<close>.\<close>

definition get_chain :: "addr option \<Rightarrow> ('k, 'v) linkedmap \<Rightarrow> lhnode outcome" where
  "get_chain p l =
     (case p of
        None \<Rightarrow> Undefined NullDereference
      | Some a \<Rightarrow>
          (case hm_heap (lh_base l) a of
             None \<Rightarrow> Undefined UseAfterFree
           | Some _ \<Rightarrow> (case lh_chain l a of None \<Rightarrow> Undefined OutOfBounds | Some c \<Rightarrow> Ret c)))"

definition set_forward :: "addr option \<Rightarrow> addr option \<Rightarrow> ('k, 'v) linkedmap \<Rightarrow> unit outcome \<times> ('k, 'v) linkedmap" where
  "set_forward p q l = and_then (get_chain p l, l) (\<lambda>c l. (Ret (), l\<lparr>lh_chain := (lh_chain l)(the p \<mapsto> c\<lparr>chainForward := q\<rparr>)\<rparr>))"

definition set_backward :: "addr option \<Rightarrow> addr option \<Rightarrow> ('k, 'v) linkedmap \<Rightarrow> unit outcome \<times> ('k, 'v) linkedmap" where
  "set_backward p q l = and_then (get_chain p l, l) (\<lambda>c l. (Ret (), l\<lparr>lh_chain := (lh_chain l)(the p \<mapsto> c\<lparr>chainBackward := q\<rparr>)\<rparr>))"

text \<open>An operation of the base class.\<close>

definition on_base :: "(('k, 'v) hashmap \<Rightarrow> 'a outcome \<times> ('k, 'v) hashmap) \<Rightarrow> ('k, 'v) linkedmap \<Rightarrow> 'a outcome \<times> ('k, 'v) linkedmap" where
  "on_base f l = (case f (lh_base l) of (r, m) \<Rightarrow> (r, l\<lparr>lh_base := m\<rparr>))"

section \<open>The list\<close>

text \<open>The neighbours of an entry are linked past it, in \<^verbatim>\<open>remove\<close> and, after the entry is gone, in \<^verbatim>\<open>doRemove\<close>.\<close>

definition bypass :: "addr option \<Rightarrow> addr option \<Rightarrow> ('k, 'v) linkedmap \<Rightarrow> unit outcome \<times> ('k, 'v) linkedmap" where
  "bypass prev nxt l =
     and_then (if prev \<noteq> None then set_forward prev nxt l else (Ret (), l\<lparr>lh_head := nxt\<rparr>)) (\<lambda>_ l.
     if nxt \<noteq> None then set_backward nxt prev l else (Ret (), l\<lparr>lh_tail := prev\<rparr>))"

text \<open>The four assignments that put an entry behind the last one.\<close>

definition append_entry :: "addr \<Rightarrow> ('k, 'v) linkedmap \<Rightarrow> unit outcome \<times> ('k, 'v) linkedmap" where
  "append_entry entry l =
     and_then (set_backward (Some entry) (lh_tail l) l) (\<lambda>_ l.
     and_then (set_forward (Some entry) None l) (\<lambda>_ l.
     and_then (set_forward (lh_tail l) (Some entry) l) (\<lambda>_ l.
     (Ret (), l\<lparr>lh_tail := Some entry\<rparr>))))"

definition linkEntry :: "addr \<Rightarrow> ('k, 'v) linkedmap \<Rightarrow> unit outcome \<times> ('k, 'v) linkedmap" where
  "linkEntry entry l =
     (if lh_tail l = Some entry then (Ret (), l)
      else if lh_head l = None then (Ret (), l\<lparr>lh_head := Some entry, lh_tail := Some entry\<rparr>)
      else
        and_then (get_chain (Some entry) l, l) (\<lambda>c l.
          let prev = chainBackward c; nxt = chainForward c in
          if prev = None then
            (if nxt \<noteq> None then
               (if accessOrder l then
                  and_then (set_backward nxt None (l\<lparr>lh_head := nxt\<rparr>)) (\<lambda>_ l. append_entry entry l)
                else (Ret (), l))
             else append_entry entry l)
          else if nxt = None then (Ret (), l)
          else if accessOrder l then
            and_then (set_forward prev nxt l) (\<lambda>_ l.
            and_then (set_backward nxt prev l) (\<lambda>_ l.
            append_entry entry l))
          else (Ret (), l)))"

text \<open>The constructor of the entry sets both pointers to NULL.\<close>

definition lh_createHashedEntry :: "'k \<Rightarrow> int \<Rightarrow> u32 \<Rightarrow> 'v \<Rightarrow> ('k, 'v) linkedmap \<Rightarrow> addr outcome \<times> ('k, 'v) linkedmap" where
  "lh_createHashedEntry key index hash d l =
     and_then (on_base (createHashedEntry key index hash d) l) (\<lambda>entry l.
     and_then (linkEntry entry (l\<lparr>lh_chain := (lh_chain l)(entry \<mapsto> \<lparr>chainForward = None, chainBackward = None\<rparr>)\<rparr>)) (\<lambda>_ l.
     (Ret entry, l)))"

definition lh_createEntry :: "('k \<Rightarrow> u32) \<Rightarrow> 'k \<Rightarrow> int \<Rightarrow> 'v \<Rightarrow> ('k, 'v) linkedmap \<Rightarrow> addr outcome \<times> ('k, 'v) linkedmap" where
  "lh_createEntry hash key index v l =
     and_then (on_base (createEntry hash key index v) l) (\<lambda>entry l.
     and_then (linkEntry entry (l\<lparr>lh_chain := (lh_chain l)(entry \<mapsto> \<lparr>chainForward = None, chainBackward = None\<rparr>)\<rparr>)) (\<lambda>_ l.
     (Ret entry, l)))"

text \<open>\<^verbatim>\<open>getEntry\<close> is a constant member function that changes the list: \<^verbatim>\<open>head\<close> and \<^verbatim>\<open>tail\<close> are \<^verbatim>\<open>mutable\<close>.\<close>

definition lh_getEntry :: "('k \<Rightarrow> u32) \<Rightarrow> 'k \<Rightarrow> ('k, 'v) linkedmap \<Rightarrow> addr option outcome \<times> ('k, 'v) linkedmap" where
  "lh_getEntry hash key l =
     (let h = hash key; index = bucket_index h (lh_base l) in
      and_then (findKeyEntry key index h (lh_base l), l) (\<lambda>result l.
        if result \<noteq> None \<and> accessOrder l \<and> lh_tail l \<noteq> result then
          and_then (get_chain result l, l) (\<lambda>c l.
            let prev = chainBackward c; nxt = chainForward c in
            and_then (set_backward nxt prev l) (\<lambda>_ l.
            and_then (if prev \<noteq> None then set_forward prev nxt l else (Ret (), l\<lparr>lh_head := nxt\<rparr>)) (\<lambda>_ l.
            and_then (append_entry (the result) l) (\<lambda>_ l. (Ret result, l)))))
        else (Ret result, l)))"

section \<open>Operations\<close>

definition lh_init :: "bool \<Rightarrow> unit outcome \<times> ('k, 'v) hashmap \<Rightarrow> unit outcome \<times> ('k, 'v) linkedmap" where
  "lh_init order b =
     (case b of (r, m) \<Rightarrow> (r, \<lparr>lh_base = m, lh_chain = \<lambda>_. None, lh_head = None, lh_tail = None, accessOrder = order\<rparr>))"

definition lh_new :: "unit outcome \<times> ('k, 'v) linkedmap" where
  "lh_new = lh_init False hm_new"

definition lh_new_capacity :: "u32 \<Rightarrow> unit outcome \<times> ('k, 'v) linkedmap" where
  "lh_new_capacity capacity = lh_init False (hm_new_capacity capacity)"

definition lh_new_loadFactor :: "u32 \<Rightarrow> rat \<Rightarrow> unit outcome \<times> ('k, 'v) linkedmap" where
  "lh_new_loadFactor capacity load = lh_init False (hm_new_loadFactor capacity load)"

definition lh_new_order :: "u32 \<Rightarrow> rat \<Rightarrow> bool \<Rightarrow> unit outcome \<times> ('k, 'v) linkedmap" where
  "lh_new_order capacity load order = lh_init order (hm_new_loadFactor capacity load)"

text \<open>The base class is constructed first, so its constructor makes the entries with its own \<^verbatim>\<open>createHashedEntry\<close>.\<close>

definition lh_from :: "('k \<Rightarrow> u32) \<Rightarrow> 'v \<Rightarrow> ('k \<times> 'v) list \<Rightarrow> unit outcome \<times> ('k, 'v) linkedmap" where
  "lh_from hash d other = lh_init False (hm_from hash d other)"

definition lh_size :: "('k, 'v) linkedmap \<Rightarrow> int" where
  "lh_size l = hm_size (lh_base l)"

definition lh_isEmpty :: "('k, 'v) linkedmap \<Rightarrow> bool" where
  "lh_isEmpty l \<longleftrightarrow> hm_isEmpty (lh_base l)"

fun list_value_loop :: "nat \<Rightarrow> ('k, 'v) linkedmap \<Rightarrow> 'v \<Rightarrow> addr option \<Rightarrow> bool outcome" where
  "list_value_loop 0 l v entry = Undefined InfiniteLoop"
| "list_value_loop (Suc n) l v entry =
     (case entry of
        None \<Rightarrow> Ret False
      | Some a \<Rightarrow>
          (case getValue a (lh_base l) of
             Ret w \<Rightarrow>
               if v = w then Ret True
               else (case get_chain entry l of
                       Ret c \<Rightarrow> list_value_loop n l v (chainForward c)
                     | Throw x \<Rightarrow> Throw x
                     | Undefined f \<Rightarrow> Undefined f)
           | Throw x \<Rightarrow> Throw x
           | Undefined f \<Rightarrow> Undefined f))"

definition lh_containsValue :: "'v \<Rightarrow> ('k, 'v) linkedmap \<Rightarrow> bool outcome" where
  "lh_containsValue v l = list_value_loop (chain_fuel (lh_base l)) l v (lh_head l)"

definition lh_clear :: "('k, 'v) linkedmap \<Rightarrow> unit outcome \<times> ('k, 'v) linkedmap" where
  "lh_clear l = and_then (on_base hm_clear l) (\<lambda>_ l. (Ret (), l\<lparr>lh_head := None, lh_tail := None\<rparr>))"

definition lh_putImpl_old :: "('k \<Rightarrow> u32) \<Rightarrow> 'v \<Rightarrow> 'k \<Rightarrow> 'v \<Rightarrow> 'v \<Rightarrow> ('k, 'v) linkedmap \<Rightarrow> (bool \<times> 'v) outcome \<times> ('k, 'v) linkedmap" where
  "lh_putImpl_old hash d key v oldValue l =
     (let l = (if elementCount (lh_base l) = 0 then l\<lparr>lh_head := None, lh_tail := None\<rparr> else l);
          h = hash key; index = bucket_index h (lh_base l) in
      and_then (findKeyEntry key index h (lh_base l), l) (\<lambda>entry l.
        (case entry of
           None \<Rightarrow>
             (let m = lh_base l;
                  m = m\<lparr>hm_modCount := hm_modCount m + 1, elementCount := elementCount m + 1\<rparr>;
                  l = l\<lparr>lh_base := m\<rparr> in
              and_then (if elementCount m > threshold m
                        then and_then (on_base rehash_table l) (\<lambda>_ l. (Ret (bucket_index h (lh_base l)), l))
                        else (Ret index, l)) (\<lambda>index l.
              and_then (lh_createHashedEntry key index h d l) (\<lambda>entry l.
              and_then (on_base (setValue entry v) l) (\<lambda>_ l. (Ret (False, oldValue), l)))))
         | Some entry \<Rightarrow>
             and_then (linkEntry entry l) (\<lambda>_ l.
             and_then (getValue entry (lh_base l), l) (\<lambda>old l.
             and_then (on_base (setValue entry v) l) (\<lambda>_ l. (Ret (True, old), l)))))))"

definition lh_putImpl :: "('k \<Rightarrow> u32) \<Rightarrow> 'v \<Rightarrow> 'k \<Rightarrow> 'v \<Rightarrow> ('k, 'v) linkedmap \<Rightarrow> bool outcome \<times> ('k, 'v) linkedmap" where
  "lh_putImpl hash d key v l = and_then (lh_putImpl_old hash d key v d l) (\<lambda>(replaced, _) l. (Ret replaced, l))"

definition lh_remove :: "('k \<Rightarrow> u32) \<Rightarrow> 'k \<Rightarrow> ('k, 'v) linkedmap \<Rightarrow> 'v outcome \<times> ('k, 'v) linkedmap" where
  "lh_remove hash key l =
     and_then (on_base (removeEntry_key hash key) l) (\<lambda>toRemove l.
       (case toRemove of
          None \<Rightarrow> (Throw (NoSuchElementException ''Specified key not present in the Map.''), l)
        | Some a \<Rightarrow>
            and_then (get_chain (Some a) l, l) (\<lambda>c l.
            and_then (bypass (chainBackward c) (chainForward c) l) (\<lambda>_ l.
            and_then (getValue a (lh_base l), l) (\<lambda>oldValue l.
            and_then (on_base (delete_node a) l) (\<lambda>_ l. (Ret oldValue, l)))))))"

text \<open>
  The virtual function \<^verbatim>\<open>removeEldestEntry\<close> is the argument \<open>removeEldest\<close> of \<^verbatim>\<open>put\<close>; it sees the eldest entry and the map.
  \<^verbatim>\<open>onEviction\<close> does nothing.
\<close>

definition lh_removeEldestEntry :: "'k \<times> 'v \<Rightarrow> ('k, 'v) linkedmap \<Rightarrow> bool" where
  "lh_removeEldestEntry eldest l = False"

definition onEviction :: "'k \<times> 'v \<Rightarrow> ('k, 'v) linkedmap \<Rightarrow> unit outcome \<times> ('k, 'v) linkedmap" where
  "onEviction eldest l = (Ret (), l)"

definition evict :: "('k \<Rightarrow> u32) \<Rightarrow> ('k \<times> 'v \<Rightarrow> ('k, 'v) linkedmap \<Rightarrow> bool) \<Rightarrow> ('k, 'v) linkedmap \<Rightarrow> unit outcome \<times> ('k, 'v) linkedmap" where
  "evict hash removeEldest l =
     (case lh_head l of
        None \<Rightarrow> (Undefined NullDereference, l)
      | Some a \<Rightarrow>
          and_then (get_node a (lh_base l), l) (\<lambda>e l.
            if removeEldest (hn_key e, hn_value e) l then
              and_then (onEviction (hn_key e, hn_value e) l) (\<lambda>_ l.
              and_then (lh_remove hash (hn_key e) l) (\<lambda>_ l. (Ret (), l)))
            else (Ret (), l)))"

definition lh_put :: "('k \<Rightarrow> u32) \<Rightarrow> 'v \<Rightarrow> ('k \<times> 'v \<Rightarrow> ('k, 'v) linkedmap \<Rightarrow> bool) \<Rightarrow> 'k \<Rightarrow> 'v \<Rightarrow> ('k, 'v) linkedmap
    \<Rightarrow> bool outcome \<times> ('k, 'v) linkedmap" where
  "lh_put hash d removeEldest key v l =
     and_then (lh_putImpl hash d key v l) (\<lambda>result l.
     and_then (evict hash removeEldest l) (\<lambda>_ l. (Ret result, l)))"

definition lh_put_old :: "('k \<Rightarrow> u32) \<Rightarrow> 'v \<Rightarrow> ('k \<times> 'v \<Rightarrow> ('k, 'v) linkedmap \<Rightarrow> bool) \<Rightarrow> 'k \<Rightarrow> 'v \<Rightarrow> 'v \<Rightarrow> ('k, 'v) linkedmap
    \<Rightarrow> (bool \<times> 'v) outcome \<times> ('k, 'v) linkedmap" where
  "lh_put_old hash d removeEldest key v oldValue l =
     and_then (lh_putImpl_old hash d key v oldValue l) (\<lambda>result l.
     and_then (evict hash removeEldest l) (\<lambda>_ l. (Ret result, l)))"


text \<open>
  What the base class does with the virtual functions: \<^verbatim>\<open>containsKey\<close> and \<^verbatim>\<open>get\<close> look the entry up with \<^verbatim>\<open>getEntry\<close>, \<^verbatim>\<open>putAll\<close> calls
  \<^verbatim>\<open>putImpl\<close>, \<^verbatim>\<open>copy\<close> calls \<^verbatim>\<open>clear\<close> and \<^verbatim>\<open>putAll\<close>.
\<close>

definition lh_containsKey :: "('k \<Rightarrow> u32) \<Rightarrow> 'k \<Rightarrow> ('k, 'v) linkedmap \<Rightarrow> bool outcome \<times> ('k, 'v) linkedmap" where
  "lh_containsKey hash key l = and_then (lh_getEntry hash key l) (\<lambda>entry l. (Ret (entry \<noteq> None), l))"

definition lh_get :: "('k \<Rightarrow> u32) \<Rightarrow> 'k \<Rightarrow> ('k, 'v) linkedmap \<Rightarrow> 'v outcome \<times> ('k, 'v) linkedmap" where
  "lh_get hash key l =
     and_then (lh_getEntry hash key l) (\<lambda>entry l.
       (case entry of
          Some a \<Rightarrow> (getValue a (lh_base l), l)
        | None \<Rightarrow> (Throw (NoSuchElementException ''The specified key is not present in the Map''), l)))"

fun lh_put_each :: "('k \<Rightarrow> u32) \<Rightarrow> 'v \<Rightarrow> ('k \<times> 'v) list \<Rightarrow> ('k, 'v) linkedmap \<Rightarrow> unit outcome \<times> ('k, 'v) linkedmap" where
  "lh_put_each hash d [] l = (Ret (), l)"
| "lh_put_each hash d ((key, v) # es) l = and_then (lh_putImpl hash d key v l) (\<lambda>_ l. lh_put_each hash d es l)"

definition lh_putAll :: "('k \<Rightarrow> u32) \<Rightarrow> 'v \<Rightarrow> ('k \<times> 'v) list \<Rightarrow> ('k, 'v) linkedmap \<Rightarrow> unit outcome \<times> ('k, 'v) linkedmap" where
  "lh_putAll hash d other l =
     (if other \<noteq> [] then
        (let capacity = elementCount (lh_base l) + int (length other) in
         and_then (if capacity > threshold (lh_base l) then on_base (rehash (of_int capacity)) l else (Ret (), l)) (\<lambda>_ l.
         lh_put_each hash d other l))
      else (Ret (), l))"

definition lh_copy :: "('k \<Rightarrow> u32) \<Rightarrow> 'v \<Rightarrow> bool \<Rightarrow> ('k \<times> 'v) list \<Rightarrow> ('k, 'v) linkedmap \<Rightarrow> unit outcome \<times> ('k, 'v) linkedmap" where
  "lh_copy hash d same_object other l =
     (let capacity = calculateCapacity (of_nat (length other)) in
      and_then (lh_clear l) (\<lambda>_ l.
      and_then (if sint capacity > int (length (elementData (lh_base l))) then on_base (hm_allocate capacity) l else (Ret (), l)) (\<lambda>_ l.
      and_then (on_base computeThreshold l) (\<lambda>_ l.
      lh_putAll hash d (if same_object then [] else other) l))))"

section \<open>Iterators and views\<close>

record lhiter =
  li_expected :: int
  li_future :: "addr option"
  li_current :: "addr option"

definition lh_iterator :: "('k, 'v) linkedmap \<Rightarrow> lhiter" where
  "lh_iterator l = \<lparr>li_expected = hm_modCount (lh_base l), li_future = lh_head l, li_current = None\<rparr>"

definition lh_checkHasNext :: "('k, 'v) linkedmap \<Rightarrow> lhiter \<Rightarrow> bool" where
  "lh_checkHasNext l it \<longleftrightarrow> li_future it \<noteq> None"

definition lh_modified :: exn where
  "lh_modified = ConcurrentModificationException ''LinkedHashMap modified outside this iterator''"

text \<open>\<open>lh_makeNext\<close> delivers the entry that \<^verbatim>\<open>currentEntry\<close> points to afterwards.\<close>

definition lh_makeNext :: "('k, 'v) linkedmap \<Rightarrow> lhiter \<Rightarrow> ('k \<times> 'v) outcome \<times> lhiter" where
  "lh_makeNext l it =
     (if li_expected it \<noteq> hm_modCount (lh_base l) then (Throw lh_modified, it)
      else
        (case li_future it of
           None \<Rightarrow> (Throw (NoSuchElementException ''No next element''), it)
         | Some a \<Rightarrow>
             and_then (get_chain (Some a) l, it\<lparr>li_current := Some a\<rparr>) (\<lambda>c it.
             and_then (get_node a (lh_base l), it\<lparr>li_future := chainForward c\<rparr>) (\<lambda>e it.
               (Ret (hn_key e, hn_value e), it)))))"

definition lh_doRemove :: "('k, 'v) linkedmap \<Rightarrow> lhiter \<Rightarrow> unit outcome \<times> ('k, 'v) linkedmap \<times> lhiter" where
  "lh_doRemove l it =
     (if li_expected it \<noteq> hm_modCount (lh_base l) then (Throw lh_modified, l, it)
      else
        (case li_current it of
           None \<Rightarrow> (Throw (IllegalStateException ''Remove called before call to next()''), l, it)
         | Some a \<Rightarrow>
             (case and_then (get_chain (Some a) l, l) (\<lambda>c l.
                   and_then (on_base (removeEntry a) l) (\<lambda>_ l. bypass (chainBackward c) (chainForward c) l)) of
                (Ret _, l) \<Rightarrow> (Ret (), l, it\<lparr>li_current := None, li_expected := li_expected it + 1\<rparr>)
              | (Throw x, l) \<Rightarrow> (Throw x, l, it)
              | (Undefined f, l) \<Rightarrow> (Undefined f, l, it))))"

definition lh_entry_next :: "('k, 'v) linkedmap \<Rightarrow> lhiter \<Rightarrow> ('k \<times> 'v) outcome \<times> lhiter" where
  "lh_entry_next l it = project (\<lambda>e. e) (lh_makeNext l it)"

definition lh_key_next :: "('k, 'v) linkedmap \<Rightarrow> lhiter \<Rightarrow> 'k outcome \<times> lhiter" where
  "lh_key_next l it = project fst (lh_makeNext l it)"

definition lh_value_next :: "('k, 'v) linkedmap \<Rightarrow> lhiter \<Rightarrow> 'v outcome \<times> lhiter" where
  "lh_value_next l it = project snd (lh_makeNext l it)"

text \<open>The iterators of a constant map have the same members and the same \<^verbatim>\<open>makeNext\<close>, written a second time.\<close>

definition const_lh_iterator :: "('k, 'v) linkedmap \<Rightarrow> lhiter" where
  "const_lh_iterator l = \<lparr>li_expected = hm_modCount (lh_base l), li_future = lh_head l, li_current = None\<rparr>"

definition const_lh_checkHasNext :: "('k, 'v) linkedmap \<Rightarrow> lhiter \<Rightarrow> bool" where
  "const_lh_checkHasNext l it \<longleftrightarrow> li_future it \<noteq> None"

definition const_lh_makeNext :: "('k, 'v) linkedmap \<Rightarrow> lhiter \<Rightarrow> ('k \<times> 'v) outcome \<times> lhiter" where
  "const_lh_makeNext l it = lh_makeNext l it"

definition const_lh_entry_next :: "('k, 'v) linkedmap \<Rightarrow> lhiter \<Rightarrow> ('k \<times> 'v) outcome \<times> lhiter" where
  "const_lh_entry_next l it = project (\<lambda>e. e) (const_lh_makeNext l it)"

definition const_lh_key_next :: "('k, 'v) linkedmap \<Rightarrow> lhiter \<Rightarrow> 'k outcome \<times> lhiter" where
  "const_lh_key_next l it = project fst (const_lh_makeNext l it)"

definition const_lh_value_next :: "('k, 'v) linkedmap \<Rightarrow> lhiter \<Rightarrow> 'v outcome \<times> lhiter" where
  "const_lh_value_next l it = project snd (const_lh_makeNext l it)"

definition const_lh_remove :: "('k, 'v) linkedmap \<Rightarrow> lhiter \<Rightarrow> unit outcome \<times> ('k, 'v) linkedmap \<times> lhiter" where
  "const_lh_remove l it = (Throw (UnsupportedOperationException ''Cannot write to a const Iterator.''), l, it)"

text \<open>
  The views replace the iterators of the views of \<^verbatim>\<open>HashMap\<close> and inherit the rest of them: \<^verbatim>\<open>size\<close> and \<^verbatim>\<open>clear\<close> of the map, and
  \<^verbatim>\<open>contains\<close> and \<^verbatim>\<open>remove\<close>.
\<close>

definition lh_view_ops :: "(('k, 'v) linkedmap \<Rightarrow> lhiter \<Rightarrow> 'e outcome \<times> lhiter) \<Rightarrow> (('k, 'v) linkedmap, lhiter, 'e) coll_ops" where
  "lh_view_ops next = \<lparr>v_size = lh_size, v_iterator = lh_iterator, v_hasNext = lh_checkHasNext, v_next = next,
     v_remove = lh_doRemove, v_add = coll_add, v_clear = lh_clear\<rparr>"

definition lh_entrySet :: "(('k, 'v) linkedmap, lhiter, 'k \<times> 'v) coll_ops" where
  "lh_entrySet = lh_view_ops lh_entry_next"

definition lh_keySet :: "(('k, 'v) linkedmap, lhiter, 'k) coll_ops" where
  "lh_keySet = lh_view_ops lh_key_next"

definition lh_values :: "(('k, 'v) linkedmap, lhiter, 'v) coll_ops" where
  "lh_values = lh_view_ops lh_value_next"

definition lh_entrySet_contains :: "('k \<Rightarrow> u32) \<Rightarrow> 'k \<times> 'v \<Rightarrow> ('k, 'v) linkedmap \<Rightarrow> bool outcome \<times> ('k, 'v) linkedmap" where
  "lh_entrySet_contains hash entry l =
     and_then (lh_getEntry hash (fst entry) l) (\<lambda>result l.
       (case result of
          None \<Rightarrow> (Ret False, l)
        | Some a \<Rightarrow> and_then (getValue a (lh_base l), l) (\<lambda>v l. (Ret (snd entry = v), l))))"

definition lh_entrySet_remove :: "('k \<Rightarrow> u32) \<Rightarrow> 'k \<times> 'v \<Rightarrow> ('k, 'v) linkedmap \<Rightarrow> bool outcome \<times> ('k, 'v) linkedmap" where
  "lh_entrySet_remove hash entry l =
     and_then (lh_getEntry hash (fst entry) l) (\<lambda>result l.
       (case result of
          None \<Rightarrow> (Ret False, l)
        | Some a \<Rightarrow>
            and_then (getValue a (lh_base l), l) (\<lambda>v l.
              if snd entry = v then and_then (on_base (removeEntry a) l) (\<lambda>_ l. (Ret True, l)) else (Ret False, l))))"

definition lh_keySet_contains :: "('k \<Rightarrow> u32) \<Rightarrow> 'k \<Rightarrow> ('k, 'v) linkedmap \<Rightarrow> bool outcome \<times> ('k, 'v) linkedmap" where
  "lh_keySet_contains hash key l = lh_containsKey hash key l"

definition lh_keySet_remove :: "('k \<Rightarrow> u32) \<Rightarrow> 'k \<Rightarrow> ('k, 'v) linkedmap \<Rightarrow> bool outcome \<times> ('k, 'v) linkedmap" where
  "lh_keySet_remove hash key l = on_base (hm_keySet_remove hash key) l"

definition lh_values_contains :: "'v \<Rightarrow> ('k, 'v) linkedmap \<Rightarrow> bool outcome" where
  "lh_values_contains v l = lh_containsValue v l"

definition const_lh_view_clear :: "string \<Rightarrow> ('k, 'v) linkedmap \<Rightarrow> unit outcome \<times> ('k, 'v) linkedmap" where
  "const_lh_view_clear msg l = (Throw (UnsupportedOperationException msg), l)"

definition const_lh_view_ops :: "string \<Rightarrow> (('k, 'v) linkedmap \<Rightarrow> lhiter \<Rightarrow> 'e outcome \<times> lhiter) \<Rightarrow> (('k, 'v) linkedmap, lhiter, 'e) coll_ops" where
  "const_lh_view_ops msg next = \<lparr>v_size = lh_size, v_iterator = const_lh_iterator, v_hasNext = const_lh_checkHasNext,
     v_next = next, v_remove = const_lh_remove, v_add = coll_add, v_clear = const_lh_view_clear msg\<rparr>"

definition const_lh_entrySet :: "(('k, 'v) linkedmap, lhiter, 'k \<times> 'v) coll_ops" where
  "const_lh_entrySet = const_lh_view_ops ''Can't clear a const collection'' const_lh_entry_next"

definition const_lh_keySet :: "(('k, 'v) linkedmap, lhiter, 'k) coll_ops" where
  "const_lh_keySet = const_lh_view_ops ''Can't modify a const collection'' const_lh_key_next"

definition const_lh_values :: "(('k, 'v) linkedmap, lhiter, 'v) coll_ops" where
  "const_lh_values = const_lh_view_ops ''Can't modify a const collection'' const_lh_value_next"

text \<open>Asking a view of a constant map for an iterator that is not constant.\<close>

definition const_lh_view_iterator :: "lhiter outcome" where
  "const_lh_view_iterator = Throw (UnsupportedOperationException ''Can't return a non-const iterator for a const collection'')"

section \<open>LRUCache\<close>

text \<open>A cache is a map in a record of its own with the limit; \<open>on_map\<close> calls a function of the map.\<close>

record ('k, 'v) lrucache =
  lru_map :: "('k, 'v) linkedmap"
  maxCacheSize :: int

definition on_map :: "(('k, 'v) linkedmap \<Rightarrow> 'a outcome \<times> ('k, 'v) linkedmap) \<Rightarrow> ('k, 'v) lrucache \<Rightarrow> 'a outcome \<times> ('k, 'v) lrucache" where
  "on_map f c = (case f (lru_map c) of (r, l) \<Rightarrow> (r, c\<lparr>lru_map := l\<rparr>))"

definition lru_new :: "unit outcome \<times> ('k, 'v) lrucache" where
  "lru_new = (case lh_new_order 0 (3 / 4) True of (r, l) \<Rightarrow> (r, \<lparr>lru_map = l, maxCacheSize = 10000\<rparr>))"

definition checked_size :: "int \<Rightarrow> unit outcome" where
  "checked_size n = (if n \<le> 0 then Throw (IllegalArgumentException ''Cache size must be greater than zero.'') else Ret ())"

definition lru_new_max :: "int \<Rightarrow> unit outcome \<times> ('k, 'v) lrucache" where
  "lru_new_max maximumCacheSize =
     and_then (case lh_new_order 0 (3 / 4) True of (r, l) \<Rightarrow> (r, \<lparr>lru_map = l, maxCacheSize = maximumCacheSize\<rparr>)) (\<lambda>_ c.
     (checked_size maximumCacheSize, c))"

definition lru_new_order :: "u32 \<Rightarrow> int \<Rightarrow> rat \<Rightarrow> bool \<Rightarrow> unit outcome \<times> ('k, 'v) lrucache" where
  "lru_new_order initialCapacity maximumCacheSize lf order =
     and_then (case lh_new_order initialCapacity lf order of (r, l) \<Rightarrow> (r, \<lparr>lru_map = l, maxCacheSize = maximumCacheSize\<rparr>)) (\<lambda>_ c.
     (checked_size maximumCacheSize, c))"

definition getMaxCacheSize :: "('k, 'v) lrucache \<Rightarrow> int" where
  "getMaxCacheSize c = maxCacheSize c"

definition setMaxCacheSize :: "int \<Rightarrow> ('k, 'v) lrucache \<Rightarrow> unit outcome \<times> ('k, 'v) lrucache" where
  "setMaxCacheSize n c = and_then (checked_size n, c) (\<lambda>_ c. (Ret (), c\<lparr>maxCacheSize := n\<rparr>))"

definition lru_removeEldestEntry :: "int \<Rightarrow> 'k \<times> 'v \<Rightarrow> ('k, 'v) linkedmap \<Rightarrow> bool" where
  "lru_removeEldestEntry maxSize eldest l = (if lh_size l > maxSize then True else False)"

definition lru_put :: "('k \<Rightarrow> u32) \<Rightarrow> 'v \<Rightarrow> 'k \<Rightarrow> 'v \<Rightarrow> ('k, 'v) lrucache \<Rightarrow> bool outcome \<times> ('k, 'v) lrucache" where
  "lru_put hash d key v c = on_map (lh_put hash d (lru_removeEldestEntry (maxCacheSize c)) key v) c"

definition lru_get :: "('k \<Rightarrow> u32) \<Rightarrow> 'k \<Rightarrow> ('k, 'v) lrucache \<Rightarrow> 'v outcome \<times> ('k, 'v) lrucache" where
  "lru_get hash key c = on_map (lh_get hash key) c"

definition lru_remove :: "('k \<Rightarrow> u32) \<Rightarrow> 'k \<Rightarrow> ('k, 'v) lrucache \<Rightarrow> 'v outcome \<times> ('k, 'v) lrucache" where
  "lru_remove hash key c = on_map (lh_remove hash key) c"

definition lru_putAll :: "('k \<Rightarrow> u32) \<Rightarrow> 'v \<Rightarrow> ('k \<times> 'v) list \<Rightarrow> ('k, 'v) lrucache \<Rightarrow> unit outcome \<times> ('k, 'v) lrucache" where
  "lru_putAll hash d other c = on_map (lh_putAll hash d other) c"


section \<open>Lists of entries\<close>

text \<open>
  \<open>dseg ch p as q\<close>: the entries \<open>as\<close> are linked in this order, the first one backward to \<open>p\<close>, the last one forward to \<open>q\<close>.
\<close>

fun first_or :: "addr option \<Rightarrow> addr list \<Rightarrow> addr option" where
  "first_or q [] = q"
| "first_or q (a # as) = Some a"

fun last_or :: "addr option \<Rightarrow> addr list \<Rightarrow> addr option" where
  "last_or p [] = p"
| "last_or p (a # as) = last_or (Some a) as"

fun dseg :: "(addr \<Rightarrow> lhnode option) \<Rightarrow> addr option \<Rightarrow> addr list \<Rightarrow> addr option \<Rightarrow> bool" where
  "dseg ch p [] q \<longleftrightarrow> True"
| "dseg ch p (a # as) q \<longleftrightarrow> ch a = Some \<lparr>chainForward = first_or q as, chainBackward = p\<rparr> \<and> dseg ch (Some a) as q"

lemma first_or_append [simp]: "first_or q (as @ bs) = first_or (first_or q bs) as"
  by (cases as) simp_all

lemma last_or_append [simp]: "last_or p (as @ bs) = last_or (last_or p as) bs"
  by (induction as arbitrary: p) simp_all

lemma first_or_None [simp]: "first_or None as = None \<longleftrightarrow> as = []"
  by (cases as) simp_all

lemma last_or_snoc: "as \<noteq> [] \<Longrightarrow> last_or p as = Some (List.last as)"
  by (induction as arbitrary: p) simp_all

lemma last_or_None [simp]: "last_or None as = None \<longleftrightarrow> as = []"
  using last_or_snoc [of as None] by (cases "as = []") simp_all

lemma dseg_append [simp]: "dseg ch p (as @ bs) q \<longleftrightarrow> dseg ch p as (first_or q bs) \<and> dseg ch (last_or p as) bs q"
  by (induction as arbitrary: p) simp_all

lemma dseg_upd [simp]: "a \<notin> set as \<Longrightarrow> dseg (ch(a := c)) p as q \<longleftrightarrow> dseg ch p as q"
  by (induction as arbitrary: p) auto

text \<open>The entries reached from the first one.\<close>

fun list_nodes :: "nat \<Rightarrow> (addr \<Rightarrow> lhnode option) \<Rightarrow> addr option \<Rightarrow> addr list" where
  "list_nodes 0 ch p = []"
| "list_nodes (Suc n) ch p =
     (case p of
        None \<Rightarrow> []
      | Some a \<Rightarrow> a # (case ch a of None \<Rightarrow> [] | Some c \<Rightarrow> list_nodes n ch (chainForward c)))"

lemma dseg_nodes: "dseg ch p as None \<Longrightarrow> length as \<le> n \<Longrightarrow> list_nodes n ch (first_or None as) = as"
proof (induction as arbitrary: p n)
  case Nil
  then show ?case by (cases n) simp_all
next
  case (Cons a as)
  then show ?case by (cases n) auto
qed

text \<open>The assignments that link two segments past what was between them.\<close>

lemma dseg_end:
  assumes "dseg ch p (as @ [a]) q" and "distinct (as @ [a])" and "ch a = Some c"
  shows "dseg (ch(a \<mapsto> c\<lparr>chainForward := q'\<rparr>)) p (as @ [a]) q'"
  using assms by simp

lemma dseg_start:
  assumes "dseg ch p (a # as) q" and "distinct (a # as)" and "ch a = Some c"
  shows "dseg (ch(a \<mapsto> c\<lparr>chainBackward := p'\<rparr>)) p' (a # as) q"
  using assms by simp

section \<open>Well-formed maps\<close>

text \<open>The entries \<open>ns\<close> of the list are those of the hash table.\<close>

definition lh_rep :: "('k \<Rightarrow> u32) \<Rightarrow> ('k, 'v) linkedmap \<Rightarrow> addr list \<Rightarrow> bool" where
  "lh_rep hash l ns \<longleftrightarrow> hm_ok hash (lh_base l) \<and> distinct ns \<and> set ns = dom (hm_heap (lh_base l))
     \<and> dseg (lh_chain l) None ns None \<and> lh_head l = first_or None ns \<and> lh_tail l = last_or None ns"

definition lh_nodes :: "('k, 'v) linkedmap \<Rightarrow> addr list" where
  "lh_nodes l = list_nodes (hm_fresh (lh_base l)) (lh_chain l) (lh_head l)"

definition lh_entries :: "('k, 'v) linkedmap \<Rightarrow> ('k \<times> 'v) list" where
  "lh_entries l = map (node_entry (hm_heap (lh_base l))) (lh_nodes l)"

definition lh_ok :: "('k \<Rightarrow> u32) \<Rightarrow> ('k, 'v) linkedmap \<Rightarrow> bool" where
  "lh_ok hash l \<longleftrightarrow> lh_rep hash l (lh_nodes l)"

lemma lh_repD:
  assumes "lh_rep hash l ns"
  shows "hm_ok hash (lh_base l)" and "distinct ns" and "set ns = dom (hm_heap (lh_base l))" and "dseg (lh_chain l) None ns None"
    and "lh_head l = first_or None ns" and "lh_tail l = last_or None ns"
  using assms by (simp_all add: lh_rep_def)

lemma lh_rep_nodes: "lh_rep hash l ns \<Longrightarrow> lh_nodes l = ns"
proof -
  assume r: "lh_rep hash l ns"
  have "a < hm_fresh (lh_base l)" if "a \<in> set ns" for a using that lh_repD(3) [OF r] ok_node [OF lh_repD(1) [OF r]] by auto
  then have "length ns \<le> hm_fresh (lh_base l)" by (rule length_below [OF lh_repD(2) [OF r]])
  then show ?thesis using dseg_nodes [OF lh_repD(4) [OF r]] lh_repD(5) [OF r] by (simp add: lh_nodes_def)
qed

lemma lh_rep_ok: "lh_rep hash l ns \<Longrightarrow> lh_ok hash l"
  using lh_rep_nodes by (fastforce simp: lh_ok_def)

lemma rep_entries: "lh_rep hash l ns \<Longrightarrow> lh_entries l = map (node_entry (hm_heap (lh_base l))) ns"
  by (simp add: lh_entries_def lh_rep_nodes)

text \<open>The list and the table hold the same entries.\<close>

lemma lh_entries_mset:
  assumes "lh_rep hash l ns"
  shows "mset (lh_entries l) = mset (hm_entries (lh_base l))"
proof -
  have ok: "hm_ok hash (lh_base l)" using lh_repD(1) [OF assms] .
  have "set ns = set (concat (hm_chains (lh_base l)))" using lh_repD(3) [OF assms] ok_nodes [OF ok] by simp
  then have "mset ns = mset (concat (hm_chains (lh_base l)))"
    using lh_repD(2) [OF assms] ok_counts(1) [OF ok] by (simp only: set_eq_iff_mset_eq_distinct)
  then show ?thesis unfolding rep_entries [OF assms] hm_entries_def mset_map by (rule arg_cong)
qed

lemma lh_entries_facts:
  assumes "lh_rep hash l ns"
  shows "distinct (map fst (lh_entries l))" and "map_of (lh_entries l) = map_of (hm_entries (lh_base l))"
    and "lh_size l = int (length (lh_entries l))"
proof -
  note M = lh_entries_mset [OF assms]
  have ok: "hm_ok hash (lh_base l)" using lh_repD(1) [OF assms] .
  have "mset (map fst (lh_entries l)) = mset (map fst (hm_entries (lh_base l)))" using M by (simp only: mset_map)
  then show D: "distinct (map fst (lh_entries l))" using hm_entries_distinct [OF ok] mset_eq_imp_distinct_iff by blast
  have "set (lh_entries l) = set (hm_entries (lh_base l))" using M by (rule mset_eq_setD)
  then show "map_of (lh_entries l) = map_of (hm_entries (lh_base l))"
    using D hm_entries_distinct [OF ok] by (metis map_of_inject_set)
  show "lh_size l = int (length (lh_entries l))"
    using hm_size_entries [OF ok] mset_eq_length [OF M] by (simp add: lh_size_def)
qed

text \<open>The base class may be in any other state with the same entries in its heap.\<close>

lemma rep_base:
  assumes "lh_rep hash l ns" and "hm_ok hash m" and "dom (hm_heap m) = dom (hm_heap (lh_base l))"
  shows "lh_rep hash (l\<lparr>lh_base := m\<rparr>) ns"
  using assms by (simp add: lh_rep_def)


section \<open>Changing the list\<close>

text \<open>The list alone, without the table, and what the functions on the list leave as it is.\<close>

definition lh_linked :: "('k, 'v) linkedmap \<Rightarrow> addr list \<Rightarrow> bool" where
  "lh_linked l ns \<longleftrightarrow> distinct ns \<and> dseg (lh_chain l) None ns None \<and> lh_head l = first_or None ns \<and> lh_tail l = last_or None ns"

definition relinked :: "('k, 'v) linkedmap \<Rightarrow> ('k, 'v) linkedmap \<Rightarrow> bool" where
  "relinked l l' \<longleftrightarrow> lh_base l' = lh_base l \<and> accessOrder l' = accessOrder l"

abbreviation live :: "('k, 'v) linkedmap \<Rightarrow> addr set" where
  "live l \<equiv> dom (hm_heap (lh_base l))"

lemma lh_rep_linked: "lh_rep hash l ns \<longleftrightarrow> hm_ok hash (lh_base l) \<and> lh_linked l ns \<and> set ns = live l"
  by (auto simp: lh_rep_def lh_linked_def)

lemma relinked_refl [simp]: "relinked l l"
  by (simp add: relinked_def)

lemma get_chain_live: "a \<in> live l \<Longrightarrow> lh_chain l a = Some c \<Longrightarrow> get_chain (Some a) l = Ret c"
  by (auto simp: get_chain_def)

lemma set_pointer_live:
  assumes "a \<in> live l" and "lh_chain l a = Some c"
  shows "set_forward (Some a) q l = (Ret (), l\<lparr>lh_chain := (lh_chain l)(a \<mapsto> c\<lparr>chainForward := q\<rparr>)\<rparr>)"
    and "set_backward (Some a) q l = (Ret (), l\<lparr>lh_chain := (lh_chain l)(a \<mapsto> c\<lparr>chainBackward := q\<rparr>)\<rparr>)"
  using get_chain_live [OF assms] by (simp_all add: set_forward_def set_backward_def)

lemma linked_node:
  assumes "lh_linked l (as @ a # bs)"
  shows "lh_chain l a = Some \<lparr>chainForward = first_or None bs, chainBackward = last_or None as\<rparr>"
  using assms by (simp add: lh_linked_def)

text \<open>The first assignment of \<open>bypass\<close>: what is before the entry is linked to what is behind it.\<close>

lemma bypass_forward:
  assumes "lh_linked l (as @ a # bs)" and "set as \<subseteq> live l"
  obtains l1 where "(if last_or None as \<noteq> None then set_forward (last_or None as) q l else (Ret (), l\<lparr>lh_head := q\<rparr>)) = (Ret (), l1)"
    and "dseg (lh_chain l1) None as q" and "\<And>b. b \<notin> set as \<Longrightarrow> lh_chain l1 b = lh_chain l b"
    and "lh_head l1 = first_or q as" and "lh_tail l1 = lh_tail l" and "relinked l l1" and "dseg (lh_chain l1) (Some a) bs None"
proof (cases as rule: rev_cases)
  case Nil
  then show ?thesis using assms by (intro that [of "l\<lparr>lh_head := q\<rparr>"]) (simp_all add: lh_linked_def relinked_def)
next
  case (snoc cs y)
  then have y: "lh_chain l y = Some \<lparr>chainForward = Some a, chainBackward = last_or None cs\<rparr>" "y \<in> live l"
    using assms by (simp_all add: lh_linked_def)
  let ?l = "l\<lparr>lh_chain := (lh_chain l)(y \<mapsto> \<lparr>chainForward = q, chainBackward = last_or None cs\<rparr>)\<rparr>"
  have "lh_head l = first_or q as" using assms(1) snoc by (cases cs) (simp_all add: lh_linked_def)
  moreover have "set_forward (last_or None as) q l = (Ret (), ?l)" using set_pointer_live(1) [OF y(2,1), of q] snoc by simp
  ultimately show ?thesis using assms(1) snoc by (intro that [of ?l]) (auto simp: lh_linked_def relinked_def)
qed

lemma bypass_effect:
  assumes "lh_linked l (as @ a # bs)" and "set as \<union> set bs \<subseteq> live l"
  obtains l' where "bypass (last_or None as) (first_or None bs) l = (Ret (), l')" and "lh_linked l' (as @ bs)" and "relinked l l'"
    and "lh_chain l' a = lh_chain l a"
proof -
  have live: "set as \<subseteq> live l" using assms(2) by simp
  obtain l1 where l1: "(if last_or None as \<noteq> None then set_forward (last_or None as) (first_or None bs) l else (Ret (), l\<lparr>lh_head := first_or None bs\<rparr>)) = (Ret (), l1)"
    "dseg (lh_chain l1) None as (first_or None bs)" "\<And>b. b \<notin> set as \<Longrightarrow> lh_chain l1 b = lh_chain l b"
    "lh_head l1 = first_or (first_or None bs) as" "lh_tail l1 = lh_tail l" "relinked l l1" "dseg (lh_chain l1) (Some a) bs None"
    by (rule bypass_forward [OF assms(1) live]) (rule that)
  have D: "distinct (as @ a # bs)" "lh_tail l = last_or (Some a) bs" using assms(1) by (simp_all add: lh_linked_def)
  then have a: "lh_chain l1 a = lh_chain l a" using l1(3) by simp
  show thesis
  proof (cases bs)
    case Nil
    then have "bypass (last_or None as) (first_or None bs) l = (Ret (), l1\<lparr>lh_tail := last_or None as\<rparr>)" unfolding bypass_def l1(1) by simp
    then show ?thesis by (rule that) (use l1 Nil D(1) a in \<open>simp_all add: lh_linked_def relinked_def\<close>)
  next
    case (Cons b bs')
    then have b: "lh_chain l1 b = Some \<lparr>chainForward = first_or None bs', chainBackward = Some a\<rparr>" "b \<in> live l1"
      using l1(6,7) assms(2) by (simp_all add: relinked_def)
    let ?l = "l1\<lparr>lh_chain := (lh_chain l1)(b \<mapsto> \<lparr>chainForward = first_or None bs', chainBackward = last_or None as\<rparr>)\<rparr>"
    have "bypass (last_or None as) (first_or None bs) l = (Ret (), ?l)"
      unfolding bypass_def l1(1) using Cons set_pointer_live(2) [OF b(2,1), of "last_or None as"] by simp
    moreover have "lh_linked ?l (as @ bs)" using l1 Cons D by (simp add: lh_linked_def)
    ultimately show ?thesis by (rule that) (use l1(6) a Cons D(1) in \<open>auto simp: relinked_def\<close>)
  qed
qed

text \<open>An entry that is not in the list is put at its end.\<close>

lemma lh_append_effect:
  assumes "lh_linked l ns" and "ns \<noteq> []" and "a \<notin> set ns" and "List.last ns \<in> live l" and "a \<in> live l" and "lh_chain l a = Some c"
  obtains l' where "append_entry a l = (Ret (), l')" and "lh_linked l' (ns @ [a])" and "relinked l l'"
proof -
  obtain ms y where ns: "ns = ms @ [y]" using assms(2) by (metis rev_exhaust)
  have y: "lh_chain l y = Some \<lparr>chainForward = None, chainBackward = last_or None ms\<rparr>" "y \<in> live l" "y \<noteq> a"
    using assms ns by (auto simp: lh_linked_def)
  have tail: "lh_tail l = Some y" using assms(1) ns by (simp add: lh_linked_def)
  define l1 where "l1 = l\<lparr>lh_chain := (lh_chain l)(a \<mapsto> \<lparr>chainForward = None, chainBackward = Some y\<rparr>)\<rparr>"
  have 1: "and_then (set_backward (Some a) (lh_tail l) l) (\<lambda>_ l. set_forward (Some a) None l) = (Ret (), l1)"
    using assms(5,6) tail by (simp add: set_pointer_live(2) [OF assms(5,6)] set_forward_def get_chain_def l1_def) (cases c, auto)
  have 2: "lh_chain l1 y = Some \<lparr>chainForward = None, chainBackward = last_or None ms\<rparr>" "y \<in> live l1" "lh_tail l1 = Some y"
    using y tail by (simp_all add: l1_def)
  let ?l = "l1\<lparr>lh_chain := (lh_chain l1)(y \<mapsto> \<lparr>chainForward = Some a, chainBackward = last_or None ms\<rparr>), lh_tail := Some a\<rparr>"
  have "append_entry a l = (Ret (), ?l)"
    unfolding append_entry_def and_then_assoc [symmetric] 1 using set_pointer_live(1) [OF 2(2,1), of "Some a"] 2(3) by simp
  moreover have "lh_linked ?l (ns @ [a])" using assms(1,3) y ns by (simp add: lh_linked_def l1_def)
  ultimately show thesis by (rule that) (simp add: relinked_def l1_def)
qed


definition to_end :: "'a \<Rightarrow> 'a list \<Rightarrow> 'a list" where
  "to_end a ns = filter (\<lambda>b. b \<noteq> a) ns @ [a]"

lemma filter_other: "distinct (as @ a # bs) \<Longrightarrow> filter (\<lambda>b. b \<noteq> a) (as @ a # bs) = as @ bs"
proof -
  assume "distinct (as @ a # bs)"
  then have "filter (\<lambda>b. b \<noteq> a) as = as" "filter (\<lambda>b. b \<noteq> a) bs = bs" by (auto simp: filter_id_conv)
  then show ?thesis by simp
qed

lemma move_effect:
  assumes "lh_linked l (as @ a # bs)" and "set (as @ a # bs) \<subseteq> live l" and "bs \<noteq> []"
  obtains l' where "and_then (bypass (last_or None as) (first_or None bs) l) (\<lambda>_ l. append_entry a l) = (Ret (), l')"
    and "lh_linked l' (to_end a (as @ a # bs))" and "relinked l l'"
proof -
  have "set as \<union> set bs \<subseteq> live l" using assms(2) by simp
  then obtain l1 where l1: "bypass (last_or None as) (first_or None bs) l = (Ret (), l1)" "lh_linked l1 (as @ bs)" "relinked l l1"
      "lh_chain l1 a = lh_chain l a"
    by (rule bypass_effect [OF assms(1)]) (rule that)
  have D: "distinct (as @ a # bs)" using assms(1) by (simp add: lh_linked_def)
  have "List.last (as @ bs) \<in> set (as @ bs)" using assms(3) by (intro last_in_set) simp
  then have "List.last (as @ bs) \<in> live l1" using assms(2) l1(3) by (auto simp: relinked_def)
  moreover have "as @ bs \<noteq> []" "a \<notin> set (as @ bs)" "a \<in> live l1" "lh_chain l1 a = Some \<lparr>chainForward = first_or None bs, chainBackward = last_or None as\<rparr>"
    using assms D l1(3,4) linked_node [OF assms(1)] by (auto simp: relinked_def)
  ultimately obtain l2 where l2: "append_entry a l1 = (Ret (), l2)" "lh_linked l2 ((as @ bs) @ [a])" "relinked l1 l2"
    using lh_append_effect [OF l1(2)] by metis
  then show thesis using l1(1,3) filter_other [OF D] by (intro that [of l2]) (simp_all add: to_end_def relinked_def)
qed

lemma linkEntry_present:
  assumes "lh_linked l ns" and "set ns \<subseteq> live l" and "a \<in> set ns"
  obtains l' where "linkEntry a l = (Ret (), l')" and "lh_linked l' (if accessOrder l then to_end a ns else ns)" and "relinked l l'"
proof -
  obtain as bs where ns: "ns = as @ a # bs" using assms(3) by (auto simp: in_set_conv_decomp)
  have D: "distinct (as @ a # bs)" using assms(1) ns by (simp add: lh_linked_def)
  show thesis
  proof (cases "bs = []")
    case True
    then have "linkEntry a l = (Ret (), l)" "to_end a ns = ns"
      using assms(1) ns filter_other [OF D] by (simp_all add: linkEntry_def lh_linked_def to_end_def)
    then show ?thesis using assms(1) by (intro that [of l]) simp_all
  next
    case False
    have c: "lh_chain l a = Some \<lparr>chainForward = first_or None bs, chainBackward = last_or None as\<rparr>"
      using assms(1) unfolding ns by (rule linked_node)
    have "a \<notin> set bs" using D by simp
    then have "lh_tail l \<noteq> Some a"
      using assms(1) ns last_or_snoc [OF False, of "Some a"] last_in_set [OF False] by (auto simp: lh_linked_def)
    moreover have "lh_head l \<noteq> None" using assms(1) ns by (cases as) (simp_all add: lh_linked_def)
    ultimately have "linkEntry a l = (if accessOrder l then and_then (bypass (last_or None as) (first_or None bs) l) (\<lambda>_ l. append_entry a l) else (Ret (), l))"
      using assms(2) ns False by (auto simp: linkEntry_def get_chain_live [OF _ c] bypass_def and_then_assoc Let_def)
    moreover obtain l' where "and_then (bypass (last_or None as) (first_or None bs) l) (\<lambda>_ l. append_entry a l) = (Ret (), l')"
      "lh_linked l' (to_end a ns)" "relinked l l'"
      using move_effect [OF assms(1) [unfolded ns] _ False] assms(2) ns by metis
    ultimately show ?thesis using that [of l] that [of l'] assms(1) by (cases "accessOrder l") simp_all
  qed
qed

lemma linkEntry_new:
  assumes "lh_linked l ns" and "set ns \<subseteq> live l" and "a \<notin> set ns" and "a \<in> live l"
    and "lh_chain l a = Some \<lparr>chainForward = None, chainBackward = None\<rparr>"
  obtains l' where "linkEntry a l = (Ret (), l')" and "lh_linked l' (ns @ [a])" and "relinked l l'"
proof (cases "ns = []")
  case True
  then have "linkEntry a l = (Ret (), l\<lparr>lh_head := Some a, lh_tail := Some a\<rparr>)" using assms(1) by (simp add: linkEntry_def lh_linked_def)
  then show ?thesis by (rule that) (use True assms(5) in \<open>simp_all add: lh_linked_def relinked_def\<close>)
next
  case False
  have "lh_tail l = Some (List.last ns)" "List.last ns \<in> set ns" using assms(1) False by (simp_all add: lh_linked_def last_or_snoc)
  then have "linkEntry a l = append_entry a l" "List.last ns \<in> live l"
    using assms(1,3) subsetD [OF assms(2)] False by (auto simp: linkEntry_def lh_linked_def get_chain_live [OF assms(4,5)] Let_def)
  then show ?thesis using lh_append_effect [OF assms(1) False assms(3) _ assms(4,5)] that by metis
qed

text \<open>\<^verbatim>\<open>getEntry\<close> does the two assignments of \<open>bypass\<close> in the other order.\<close>

lemma unlink_order:
  assumes "lh_linked l (as @ a # bs)" and "set (as @ a # bs) \<subseteq> live l" and "bs \<noteq> []"
  shows "and_then (set_backward (first_or None bs) (last_or None as) l) (\<lambda>_ l.
           if last_or None as \<noteq> None then set_forward (last_or None as) (first_or None bs) l
           else (Ret (), l\<lparr>lh_head := first_or None bs\<rparr>))
       = bypass (last_or None as) (first_or None bs) l"
proof -
  obtain b bs' where bs: "bs = b # bs'" using assms(3) by (cases bs) auto
  have b: "b \<in> live l" "lh_chain l b = Some \<lparr>chainForward = first_or None bs', chainBackward = Some a\<rparr>"
    using assms(1,2) bs by (simp_all add: lh_linked_def)
  show ?thesis
  proof (cases as rule: rev_cases)
    case Nil
    then show ?thesis using bs b by (auto simp: bypass_def set_backward_def get_chain_def)
  next
    case (snoc cs y)
    then have y: "y \<in> live l" "lh_chain l y = Some \<lparr>chainForward = Some a, chainBackward = last_or None cs\<rparr>" "y \<noteq> b"
      using assms(1,2) bs by (auto simp: lh_linked_def)
    then show ?thesis using snoc bs b
      by (auto simp: bypass_def set_backward_def set_forward_def get_chain_def fun_upd_twist split: option.split)
  qed
qed

lemma getEntry_present:
  assumes "lh_rep hash l ns" and "hm_heap (lh_base l) a = Some e" and "hn_key e = k"
  obtains l' where "lh_getEntry hash k l = (Ret (Some a), l')" and "lh_rep hash l' (if accessOrder l then to_end a ns else ns)" and "relinked l l'"
proof -
  note R = lh_repD [OF assms(1)]
  have L: "lh_linked l ns" "set ns \<subseteq> live l" using assms(1) by (simp_all add: lh_rep_linked)
  have find: "findKeyEntry k (bucket_index (hash k) (lh_base l)) (hash k) (lh_base l) = Ret (Some a)"
    using R(1) assms(2,3) by (rule findKeyEntry_present)
  have "a \<in> set ns" using R(3) assms(2) by auto
  then obtain as bs where ns: "ns = as @ a # bs" by (auto simp: in_set_conv_decomp)
  have D: "distinct (as @ a # bs)" using R(2) ns by simp
  show thesis
  proof (cases "accessOrder l \<and> bs \<noteq> []")
    case True
    then have bs: "bs \<noteq> []" by simp
    have "a \<notin> set bs" using D by simp
    then have tail: "lh_tail l \<noteq> Some a" using R(6) ns last_or_snoc [OF bs, of "Some a"] last_in_set [OF bs] by auto
    have c: "get_chain (Some a) l = Ret \<lparr>chainForward = first_or None bs, chainBackward = last_or None as\<rparr>"
      using L assms(2) unfolding ns by (intro get_chain_live linked_node) auto
    obtain l' where l': "and_then (bypass (last_or None as) (first_or None bs) l) (\<lambda>_ l. append_entry a l) = (Ret (), l')"
      "lh_linked l' (to_end a ns)" "relinked l l'"
      using move_effect [OF L [unfolded ns] bs] ns by metis
    have "lh_getEntry hash k l
        = and_then (and_then (bypass (last_or None as) (first_or None bs) l) (\<lambda>_ l. append_entry a l)) (\<lambda>_ l. (Ret (Some a), l))"
      unfolding unlink_order [OF L [unfolded ns] bs, symmetric] using True tail find c
      by (simp add: lh_getEntry_def Let_def and_then_assoc del: not_None_eq cong: if_cong)
    then have "lh_getEntry hash k l = (Ret (Some a), l')" unfolding l'(1) by simp
    moreover have "set (to_end a ns) = live l" using R(3) assms(2) by (auto simp: to_end_def)
    then have "lh_rep hash l' (to_end a ns)" using l'(2,3) R(1) by (simp add: lh_rep_linked relinked_def)
    ultimately show ?thesis using that l'(3) True by simp
  next
    case False
    then have "lh_getEntry hash k l = (Ret (Some a), l)" using find R(6) ns by (auto simp: lh_getEntry_def Let_def)
    moreover have "(if accessOrder l then to_end a ns else ns) = ns" using False ns filter_other [OF D] by (auto simp: to_end_def)
    ultimately show ?thesis using that [of l] assms(1) by simp
  qed
qed

lemma getEntry_absent:
  assumes "lh_rep hash l ns" and "map_of (lh_entries l) k = None"
  shows "lh_getEntry hash k l = (Ret None, l)"
  using hm_absent(2) [OF lh_repD(1) [OF assms(1)]] assms(2) lh_entries_facts(2) [OF assms(1)] by (simp add: lh_getEntry_def Let_def)


section \<open>Lookup\<close>

text \<open>
  The specification of the map: the list of its entries in the order of the iterator.  In access order an entry that is looked up or
  put moves to the end.
\<close>

definition without :: "'k \<Rightarrow> ('k \<times> 'v) list \<Rightarrow> ('k \<times> 'v) list" where
  "without k es = filter (\<lambda>x. fst x \<noteq> k) es"

definition lh_touch :: "bool \<Rightarrow> 'k \<Rightarrow> ('k \<times> 'v) list \<Rightarrow> ('k \<times> 'v) list" where
  "lh_touch order k es = (case map_of es k of None \<Rightarrow> es | Some v \<Rightarrow> if order then without k es @ [(k, v)] else es)"

definition ordered_put :: "bool \<Rightarrow> 'k \<Rightarrow> 'v \<Rightarrow> ('k \<times> 'v) list \<Rightarrow> ('k \<times> 'v) list" where
  "ordered_put order k v es =
     (if order \<or> map_of es k = None then without k es @ [(k, v)] else map (\<lambda>x. if fst x = k then (k, v) else x) es)"

lemma without_absent: "map_of es k = None \<Longrightarrow> without k es = es"
  by (auto simp: without_def map_of_eq_None_iff filter_id_conv)

lemma node_entry_same: "same_data h h' \<Longrightarrow> node_entry h' a = node_entry h a"
  unfolding same_data_def by (drule spec [of _ a]) (cases "h a"; cases "h' a"; simp add: node_entry_def)

lemma rep_without:
  assumes "lh_rep hash l ns" and "hm_heap (lh_base l) a = Some e"
  shows "map (node_entry (hm_heap (lh_base l))) (filter (\<lambda>b. b \<noteq> a) ns) = without (hn_key e) (lh_entries l)"
proof -
  have "filter (\<lambda>b. b \<noteq> a) ns = filter ((\<lambda>x. fst x \<noteq> hn_key e) \<circ> node_entry (hm_heap (lh_base l))) ns"
  proof (rule filter_cong [OF refl])
    fix b
    assume "b \<in> set ns"
    then obtain f where "hm_heap (lh_base l) b = Some f" using lh_repD(3) [OF assms(1)] by auto
    then show "b \<noteq> a \<longleftrightarrow> ((\<lambda>x. fst x \<noteq> hn_key e) \<circ> node_entry (hm_heap (lh_base l))) b"
      using ok_key_unique [OF lh_repD(1) [OF assms(1)] _ assms(2), of b f] assms(2) by (auto simp: node_entry_def)
  qed
  then show ?thesis by (simp add: without_def rep_entries [OF assms(1)] filter_map)
qed

lemma lh_present:
  assumes "lh_rep hash l ns" and "map_of (lh_entries l) k = Some v"
  obtains a e where "hm_heap (lh_base l) a = Some e" and "hn_key e = k" and "hn_value e = v" and "a \<in> set ns"
proof -
  have "map_of (hm_entries (lh_base l)) k = Some v" using assms(2) lh_entries_facts(2) [OF assms(1)] by simp
  then show thesis by (rule hm_present [OF lh_repD(1) [OF assms(1)]]) (use that lh_repD(3) [OF assms(1)] in auto)
qed

lemma lh_getEntry_effect:
  assumes "lh_ok hash l"
  obtains p l' where "lh_getEntry hash k l = (Ret p, l')" and "lh_ok hash l'" and "relinked l l'"
    and "lh_entries l' = lh_touch (accessOrder l) k (lh_entries l)"
    and "case map_of (lh_entries l) k of None \<Rightarrow> p = None | Some v \<Rightarrow> \<exists>a e. p = Some a \<and> hm_heap (lh_base l) a = Some e \<and> hn_key e = k \<and> hn_value e = v"
proof -
  have r: "lh_rep hash l (lh_nodes l)" using assms by (simp add: lh_ok_def)
  show thesis
  proof (cases "map_of (lh_entries l) k")
    case None
    then show ?thesis using that [OF getEntry_absent [OF r None] assms] by (simp add: lh_touch_def)
  next
    case (Some v)
    then obtain a e where e: "hm_heap (lh_base l) a = Some e" "hn_key e = k" "hn_value e = v" by (rule lh_present [OF r])
    obtain l' where l': "lh_getEntry hash k l = (Ret (Some a), l')" "lh_rep hash l' (if accessOrder l then to_end a (lh_nodes l) else lh_nodes l)" "relinked l l'"
      by (rule getEntry_present [OF r e(1,2)]) (rule that)
    have "lh_entries l' = lh_touch (accessOrder l) k (lh_entries l)"
      unfolding rep_entries [OF l'(2)] using l'(3) Some e rep_without [OF r e(1)]
      by (simp add: relinked_def lh_touch_def to_end_def node_entry_def [of _ a] rep_entries [OF r])
    then show ?thesis using that [OF l'(1) lh_rep_ok [OF l'(2)] l'(3)] Some e by simp
  qed
qed

lemma lh_get_effect:
  assumes "lh_ok hash l"
  obtains l' where "lh_get hash k l =
      (case map_of (lh_entries l) k of
         Some v \<Rightarrow> Ret v | None \<Rightarrow> Throw (NoSuchElementException ''The specified key is not present in the Map''), l')"
    and "lh_ok hash l'" and "relinked l l'" and "lh_entries l' = lh_touch (accessOrder l) k (lh_entries l)"
proof (rule lh_getEntry_effect [OF assms, of k])
  fix p l'
  assume l': "lh_getEntry hash k l = (Ret p, l')" "lh_ok hash l'" "relinked l l'" "lh_entries l' = lh_touch (accessOrder l) k (lh_entries l)"
    "case map_of (lh_entries l) k of None \<Rightarrow> p = None | Some v \<Rightarrow> \<exists>a e. p = Some a \<and> hm_heap (lh_base l) a = Some e \<and> hn_key e = k \<and> hn_value e = v"
  then show thesis by (intro that [of l']) (auto simp: lh_get_def getValue_def relinked_def split: option.splits)
qed

lemma lh_containsKey_effect:
  assumes "lh_ok hash l"
  obtains l' where "lh_containsKey hash k l = (Ret (map_of (lh_entries l) k \<noteq> None), l')" and "lh_ok hash l'" and "relinked l l'"
    and "lh_entries l' = lh_touch (accessOrder l) k (lh_entries l)"
proof (rule lh_getEntry_effect [OF assms, of k])
  fix p l'
  assume l': "lh_getEntry hash k l = (Ret p, l')" "lh_ok hash l'" "relinked l l'" "lh_entries l' = lh_touch (accessOrder l) k (lh_entries l)"
    "case map_of (lh_entries l) k of None \<Rightarrow> p = None | Some v \<Rightarrow> \<exists>a e. p = Some a \<and> hm_heap (lh_base l) a = Some e \<and> hn_key e = k \<and> hn_value e = v"
  then show thesis by (intro that [of l']) (auto simp: lh_containsKey_def split: option.splits)
qed

lemma list_value_loop_effect:
  assumes "dseg (lh_chain l) p ns None" and "set ns \<subseteq> live l" and "length ns < n"
  shows "list_value_loop n l v (first_or None ns) = Ret (v \<in> (\<lambda>a. snd (node_entry (hm_heap (lh_base l)) a)) ` set ns)"
  using assms
proof (induction ns arbitrary: n p)
  case Nil
  then show ?case by (cases n) simp_all
next
  case (Cons a ns)
  obtain n' where n: "n = Suc n'" "length ns < n'" using Cons.prems(3) by (cases n) auto
  obtain e where e: "hm_heap (lh_base l) a = Some e" using Cons.prems(2) by auto
  have "get_chain (Some a) l = Ret \<lparr>chainForward = first_or None ns, chainBackward = p\<rparr>"
    using Cons.prems e by (intro get_chain_live) auto
  then show ?case using Cons.IH [of "Some a" n'] Cons.prems n e by (auto simp: getValue_def node_entry_def [of _ a])
qed

lemma lh_containsValue_effect:
  assumes "lh_ok hash l"
  shows "lh_containsValue v l = Ret (v \<in> snd ` set (lh_entries l))"
proof -
  have r: "lh_rep hash l (lh_nodes l)" using assms by (simp add: lh_ok_def)
  note R = lh_repD [OF r]
  have "length (lh_nodes l) \<le> hm_fresh (lh_base l)"
    using R(2) R(3) ok_node [OF R(1)] by (intro length_below) (auto simp: dom_def)
  then show ?thesis
    using list_value_loop_effect [OF R(4), of "chain_fuel (lh_base l)" v] R(3,5)
    by (simp add: lh_containsValue_def rep_entries [OF r] image_image del: list_value_loop.simps)
qed


section \<open>Adding entries\<close>

text \<open>Neither rehashing nor making an entry reads the number of entries or the counter of modifications.\<close>

lemma rehash_counters:
  assumes "rehash n m = (Ret (), m')"
  shows "rehash n (m\<lparr>hm_modCount := i, elementCount := c\<rparr>) = (Ret (), m'\<lparr>hm_modCount := i, elementCount := c\<rparr>)"
proof -
  define len where "len = calculateCapacity (if n = 0 then 1 else push_bit 1 n)"
  obtain newData :: "addr option list" where 1: "ap_new len = Ret newData"
    using assms by (cases "ap_new len :: addr option list outcome") (auto simp: rehash_def Let_def len_def)
  obtain h ps where 2: "rehash_buckets (chain_fuel m) len (hm_heap m) newData (elementData m) = Ret (h, ps)"
    using assms 1 by (cases "rehash_buckets (chain_fuel m) len (hm_heap m) newData (elementData m)") (auto simp: rehash_def Let_def len_def)
  show ?thesis using assms 1 2
    by (auto simp: rehash_def Let_def len_def computeThreshold_def split: if_splits)
qed

lemma createHashedEntry_counters:
  "createHashedEntry k index h d (m\<lparr>elementCount := c\<rparr>)
     = (case createHashedEntry k index h d m of (r, m') \<Rightarrow> (r, m'\<lparr>elementCount := c\<rparr>))"
  by (cases "bucket index m") (simp_all add: createHashedEntry_def bucket_def Let_def)

text \<open>The table grows, when it has to, before the entry is made.\<close>

lemma lh_grow:
  assumes "hm_ok hash m" and "length (elementData m) \<le> 2 ^ 27"
  obtains m' where "hm_ok hash m'" and "same_map m m'"
    and "(if elementCount m + 1 > threshold m then rehash_table (m\<lparr>hm_modCount := hm_modCount m + 1, elementCount := elementCount m + 1\<rparr>)
          else (Ret (), m\<lparr>hm_modCount := hm_modCount m + 1, elementCount := elementCount m + 1\<rparr>))
        = (Ret (), m'\<lparr>hm_modCount := hm_modCount m' + 1, elementCount := elementCount m' + 1\<rparr>)"
    and "grows m (m'\<lparr>elementCount := elementCount m' + 1\<rparr>)" and "elementCount m + 1 \<le> threshold m \<Longrightarrow> m' = m"
proof (cases "elementCount m + 1 > threshold m")
  case True
  have n: "0 < length (elementData m)" using table_length_bounds(1) [OF ok_facts(2) [OF assms(1)]] .
  obtain m' where m': "rehash (of_nat (length (elementData m))) m = (Ret (), m')" "hm_ok hash m'" "same_map m m'"
    "2 * length (elementData m) \<le> length (elementData m')" "length (elementData m') < 4 * length (elementData m)"
    by (rule rehash_effect [OF assms(1) n assms(2)]) (rule that)
  show ?thesis
    by (rule that [OF m'(2,3)])
      (use True m'(3-5) rehash_counters [OF m'(1)] in \<open>auto simp: rehash_table_def same_map_def grows_def\<close>)
next
  case False
  then show ?thesis using that [OF assms(1) same_map_refl] by (simp add: grows_def)
qed

lemma lh_createHashedEntry_effect:
  assumes "lh_rep hash l ns" and "map_of (hm_entries m) k = None" and "hm_ok hash m" and "same_map (lh_base l) m"
  obtains l' a where "lh_createHashedEntry k (bucket_index (hash k) m) (hash k) d
        (l\<lparr>lh_base := m\<lparr>hm_modCount := hm_modCount m + 1, elementCount := elementCount m + 1\<rparr>\<rparr>) = (Ret a, l')"
    and "lh_rep hash l' (ns @ [a])" and "accessOrder l' = accessOrder l" and "hm_modCount (lh_base l') = hm_modCount m + 1"
    and "elementCount (lh_base l') = elementCount m + 1" and "loadFactor (lh_base l') = loadFactor m"
    and "length (elementData (lh_base l')) = length (elementData m)"
    and "\<exists>e. hm_heap (lh_base l') a = Some e \<and> hn_key e = k" and "lh_entries l' = lh_entries l @ [(k, d)]"
proof -
  note R = lh_repD [OF assms(1)]
  define a where "a = hm_fresh m"
  define i where "i = slot (length (elementData m)) (hash k)"
  define e where "e = \<lparr>origKeyHash = hash k, hn_key = k, hn_value = d, hn_next = elementData m ! i\<rparr>"
  obtain m3 where m3: "createHashedEntry k (bucket_index (hash k) m) (hash k) d (m\<lparr>hm_modCount := hm_modCount m + 1\<rparr>) = (Ret a, m3)"
    "hm_ok hash (m3\<lparr>elementCount := elementCount m3 + 1\<rparr>)" "elementCount m3 = elementCount m"
    "loadFactor m3 = loadFactor m" "length (elementData m3) = length (elementData m)" "hm_modCount m3 = hm_modCount m + 1"
    by (rule createHashedEntry_effect [OF assms(3,2), of d], rule that [folded a_def]) (simp_all add: a_def)
  have heap: "hm_heap m3 = (hm_heap m)(a \<mapsto> e)"
    using m3(1) ok_bucket [OF assms(3), of "hash k"] by (auto simp: createHashedEntry_def Let_def bucket_def a_def e_def i_def)
  define m4 where "m4 = m3\<lparr>elementCount := elementCount m3 + 1\<rparr>"
  have m4: "createHashedEntry k (bucket_index (hash k) m) (hash k) d (m\<lparr>hm_modCount := hm_modCount m + 1, elementCount := elementCount m + 1\<rparr>) = (Ret a, m4)"
    using createHashedEntry_counters [where m = "m\<lparr>hm_modCount := hm_modCount m + 1\<rparr>" and c = "elementCount m + 1"]
      m3(1,3) by (simp add: m4_def)
  let ?l = "l\<lparr>lh_base := m4, lh_chain := (lh_chain l)(a \<mapsto> \<lparr>chainForward = None, chainBackward = None\<rparr>)\<rparr>"
  have dom: "dom (hm_heap m) = live l" using assms(4) unfolding same_map_def by (blast intro!: same_data_dom)
  have new: "a \<notin> live l" using dom ok_node [OF assms(3), of a] by (auto simp: a_def)
  have "lh_linked ?l ns" "set ns \<subseteq> live ?l" "a \<notin> set ns" "a \<in> live ?l"
    using R new dom by (auto simp: lh_linked_def m4_def heap)
  then obtain l' where l': "linkEntry a ?l = (Ret (), l')" "lh_linked l' (ns @ [a])" "relinked ?l l'"
    using linkEntry_new [of ?l ns a] by auto
  have base: "lh_base l' = m4" using l'(3) by (simp add: relinked_def)
  have rep: "lh_rep hash l' (ns @ [a])"
    using l'(2) m3(2) R(3) dom by (auto simp: lh_rep_linked base m4_def heap)
  have "node_entry (hm_heap m4) b = node_entry (hm_heap (lh_base l)) b" if "b \<in> set ns" for b
  proof -
    have "node_entry (hm_heap m4) b = node_entry (hm_heap m) b" using that new R(3) by (auto simp: m4_def heap node_entry_def)
    then show ?thesis using node_entry_same [of "hm_heap (lh_base l)" "hm_heap m" b] assms(4) by (simp add: same_map_def)
  qed
  then have "lh_entries l' = lh_entries l @ [(k, d)]"
    unfolding rep_entries [OF rep] rep_entries [OF assms(1)] base by (simp add: m4_def heap node_entry_def e_def)
  moreover have "lh_createHashedEntry k (bucket_index (hash k) m) (hash k) d
        (l\<lparr>lh_base := m\<lparr>hm_modCount := hm_modCount m + 1, elementCount := elementCount m + 1\<rparr>\<rparr>) = (Ret a, l')"
    using m4 l'(1) by (simp add: lh_createHashedEntry_def on_base_def)
  ultimately show thesis using rep l'(3) m3
    by (intro that [of a l']) (simp_all add: base relinked_def m4_def heap e_def)
qed


lemma set_entries:
  assumes "lh_rep hash l ns" and "hm_heap (lh_base l) a = Some e"
  obtains m' where "setValue a v (lh_base l) = (Ret (), m')" and "lh_rep hash (l\<lparr>lh_base := m'\<rparr>) ns" and "m' = (lh_base l)\<lparr>hm_heap := hm_heap m'\<rparr>"
    and "lh_entries (l\<lparr>lh_base := m'\<rparr>) = map (\<lambda>x. if fst x = hn_key e then (hn_key e, v) else x) (lh_entries l)"
proof -
  note R = lh_repD [OF assms(1)]
  obtain m' where m': "setValue a v (lh_base l) = (Ret (), m')" "hm_ok hash m'" "m' = (lh_base l)\<lparr>hm_heap := hm_heap m'\<rparr>"
    by (rule setValue_effect [OF R(1) assms(2), of v]) (rule that)
  have heap: "hm_heap m' = (hm_heap (lh_base l))(a \<mapsto> e\<lparr>hn_value := v\<rparr>)" using m'(1) assms(2) by (auto simp: setValue_def)
  have rep: "lh_rep hash (l\<lparr>lh_base := m'\<rparr>) ns" by (rule rep_base [OF assms(1) m'(2)]) (use heap assms(2) in auto)
  have "node_entry (hm_heap m') b = (if fst (node_entry (hm_heap (lh_base l)) b) = hn_key e then (hn_key e, v) else node_entry (hm_heap (lh_base l)) b)"
    if "b \<in> set ns" for b
  proof -
    have "b \<in> live l" using \<open>b \<in> set ns\<close> R(3) by simp
    then obtain f where f: "hm_heap (lh_base l) b = Some f" by auto
    then have "hn_key f = hn_key e \<longleftrightarrow> b = a" using ok_key_unique [OF R(1) f assms(2)] assms(2) by auto
    then show ?thesis using f by (simp add: node_entry_def heap)
  qed
  then show thesis using that [OF m'(1) rep m'(3)] by (simp add: rep_entries [OF rep] rep_entries [OF assms(1)])
qed

lemma put_over: "map (\<lambda>x. if fst x = k then (k, v) else x) (without k es @ [(k, w)]) = without k es @ [(k, v)]"
  by (auto simp: without_def intro!: map_idI)

lemma lh_put_present:
  assumes "lh_ok hash l" and "map_of (lh_entries l) k = Some w"
  obtains l' where "lh_putImpl_old hash d k v oldValue l = (Ret (True, w), l')" and "lh_ok hash l'" and "accessOrder l' = accessOrder l"
    and "lh_entries l' = ordered_put (accessOrder l) k v (lh_entries l)"
    and "hm_modCount (lh_base l') = hm_modCount (lh_base l)" and "grows (lh_base l) (lh_base l')"
proof -
  define ns where "ns = lh_nodes l"
  have r: "lh_rep hash l ns" using assms(1) by (simp add: lh_ok_def ns_def)
  note R = lh_repD [OF r]
  obtain a e where e: "hm_heap (lh_base l) a = Some e" "hn_key e = k" "hn_value e = w" "a \<in> set ns" by (rule lh_present [OF r assms(2)])
  have find: "findKeyEntry k (bucket_index (hash k) (lh_base l)) (hash k) (lh_base l) = Ret (Some a)"
    using R(1) e(1,2) by (rule findKeyEntry_present)
  have "elementCount (lh_base l) \<noteq> 0" using lh_entries_facts(3) [OF r] assms(2) by (auto simp: lh_size_def hm_size_def)
  moreover have "lh_linked l ns" "set ns \<subseteq> live l" using r by (simp_all add: lh_rep_linked)
  then obtain l1 where l1: "linkEntry a l = (Ret (), l1)" "lh_linked l1 (if accessOrder l then to_end a ns else ns)" "relinked l l1"
    using linkEntry_present e(4) by metis
  have base: "lh_base l1 = lh_base l" "accessOrder l1 = accessOrder l" using l1(3) by (simp_all add: relinked_def)
  have rep1: "lh_rep hash l1 (if accessOrder l then to_end a ns else ns)"
    using l1(2) R(1,3) e(4) by (auto simp: lh_rep_linked base to_end_def)
  have e1: "hm_heap (lh_base l1) a = Some e" using e(1) base by simp
  obtain m' where m': "setValue a v (lh_base l1) = (Ret (), m')" "lh_rep hash (l1\<lparr>lh_base := m'\<rparr>) (if accessOrder l then to_end a ns else ns)"
    "m' = (lh_base l1)\<lparr>hm_heap := hm_heap m'\<rparr>" "lh_entries (l1\<lparr>lh_base := m'\<rparr>) = map (\<lambda>x. if fst x = k then (k, v) else x) (lh_entries l1)"
    by (rule set_entries [OF rep1 e1, of v, unfolded e(2)]) (rule that)
  ultimately have "lh_putImpl_old hash d k v oldValue l = (Ret (True, w), l1\<lparr>lh_base := m'\<rparr>)"
    using find l1(1) e(1,3) base by (simp add: lh_putImpl_old_def Let_def on_base_def getValue_def)
  moreover have "lh_entries l1 = (if accessOrder l then without k (lh_entries l) @ [(k, w)] else lh_entries l)"
    unfolding rep_entries [OF rep1] base using e rep_without [OF r e(1)] by (simp add: to_end_def node_entry_def [of _ a] rep_entries [OF r])
  then have "lh_entries (l1\<lparr>lh_base := m'\<rparr>) = ordered_put (accessOrder l) k v (lh_entries l)"
    unfolding m'(4) using assms(2) put_over [of k v "lh_entries l" w] by (simp add: ordered_put_def)
  moreover have "hm_modCount m' = hm_modCount (lh_base l)" "grows (lh_base l) m'" by (subst m'(3), simp add: base grows_def)+
  ultimately show thesis using lh_rep_ok [OF m'(2)] base(2) by (intro that [of "l1\<lparr>lh_base := m'\<rparr>"]) simp_all
qed


lemma lh_put_absent:
  assumes "lh_ok hash l" and "length (elementData (lh_base l)) \<le> 2 ^ 27" and "map_of (lh_entries l) k = None"
  obtains l' where "lh_putImpl_old hash d k v oldValue l = (Ret (False, oldValue), l')" and "lh_ok hash l'" and "accessOrder l' = accessOrder l"
    and "lh_entries l' = ordered_put (accessOrder l) k v (lh_entries l)"
    and "hm_modCount (lh_base l') = hm_modCount (lh_base l) + 1" and "grows (lh_base l) (lh_base l')"
proof -
  let ?m = "lh_base l"
  have r: "lh_rep hash l (lh_nodes l)" using assms(1) by (simp add: lh_ok_def)
  note R = lh_repD [OF r]
  have none: "map_of (hm_entries ?m) k = None" using assms(3) lh_entries_facts(2) [OF r] by simp
  have start: "(if elementCount ?m = 0 then l\<lparr>lh_head := None, lh_tail := None\<rparr> else l) = l"
    using lh_entries_facts(3) [OF r] R(5,6) by (auto simp: lh_size_def hm_size_def rep_entries [OF r])
  obtain m2 where ok2: "hm_ok hash m2" and s2: "same_map ?m m2"
    and grow: "(if elementCount ?m + 1 > threshold ?m then rehash_table (?m\<lparr>hm_modCount := hm_modCount ?m + 1, elementCount := elementCount ?m + 1\<rparr>)
          else (Ret (), ?m\<lparr>hm_modCount := hm_modCount ?m + 1, elementCount := elementCount ?m + 1\<rparr>))
        = (Ret (), m2\<lparr>hm_modCount := hm_modCount m2 + 1, elementCount := elementCount m2 + 1\<rparr>)"
    and g2: "grows ?m (m2\<lparr>elementCount := elementCount m2 + 1\<rparr>)" and same: "elementCount ?m + 1 \<le> threshold ?m \<Longrightarrow> m2 = ?m"
    by (rule lh_grow [OF R(1) assms(2)]) (rule that)
  have none2: "map_of (hm_entries m2) k = None" using same_data_entries [OF R(1) ok2] s2 none by (simp add: same_map_def)
  let ?b = "\<lambda>m. m\<lparr>hm_modCount := hm_modCount m + 1, elementCount := elementCount m + 1\<rparr>"
  obtain l3 a where l3: "lh_createHashedEntry k (bucket_index (hash k) m2) (hash k) d (l\<lparr>lh_base := ?b m2\<rparr>) = (Ret a, l3)"
    "lh_rep hash l3 (lh_nodes l @ [a])" "accessOrder l3 = accessOrder l" "hm_modCount (lh_base l3) = hm_modCount m2 + 1"
    "elementCount (lh_base l3) = elementCount m2 + 1" "loadFactor (lh_base l3) = loadFactor m2"
    "length (elementData (lh_base l3)) = length (elementData m2)"
    "\<exists>e. hm_heap (lh_base l3) a = Some e \<and> hn_key e = k" "lh_entries l3 = lh_entries l @ [(k, d)]"
    by (rule lh_createHashedEntry_effect [OF r none2 ok2 s2, of d]) (rule that)
  obtain e where e: "hm_heap (lh_base l3) a = Some e" "hn_key e = k" using l3(8) by blast
  obtain m4 where m4: "setValue a v (lh_base l3) = (Ret (), m4)" "lh_rep hash (l3\<lparr>lh_base := m4\<rparr>) (lh_nodes l @ [a])"
    "m4 = (lh_base l3)\<lparr>hm_heap := hm_heap m4\<rparr>" "lh_entries (l3\<lparr>lh_base := m4\<rparr>) = map (\<lambda>x. if fst x = k then (k, v) else x) (lh_entries l3)"
    by (rule set_entries [OF l3(2) e(1), of v, unfolded e(2)]) (rule that)
  have "(if elementCount (?b ?m) > threshold (?b ?m)
         then and_then (on_base rehash_table (l\<lparr>lh_base := ?b ?m\<rparr>)) (\<lambda>_ l. (Ret (bucket_index (hash k) (lh_base l)), l))
         else (Ret (bucket_index (hash k) ?m), l\<lparr>lh_base := ?b ?m\<rparr>)) = (Ret (bucket_index (hash k) m2), l\<lparr>lh_base := ?b m2\<rparr>)"
    using grow same by (cases "elementCount ?m + 1 > threshold ?m") (auto simp: on_base_def bucket_index_def)
  then have "lh_putImpl_old hash d k v oldValue l = (Ret (False, oldValue), l3\<lparr>lh_base := m4\<rparr>)"
    unfolding lh_putImpl_old_def start Let_def hm_absent(2) [OF R(1) none] and_then.simps option.case
    by (simp add: l3(1) on_base_def m4(1) del: hashmap.update_convs)
  moreover have "lh_entries (l3\<lparr>lh_base := m4\<rparr>) = ordered_put (accessOrder l) k v (lh_entries l)"
    unfolding m4(4) l3(9) using put_over [of k v "lh_entries l" d] assms(3) by (simp only: ordered_put_def without_absent [OF assms(3)] simp_thms if_True)
  moreover have "hm_modCount m4 = hm_modCount ?m + 1" using s2 l3(4) by (subst m4(3)) (simp add: same_map_def)
  moreover have "grows ?m m4" using g2 l3 by (subst m4(3)) (simp add: grows_def)
  ultimately show thesis using lh_rep_ok [OF m4(2)] l3(3) by (intro that [of "l3\<lparr>lh_base := m4\<rparr>"]) simp_all
qed


lemma ordered_put_length: "length (ordered_put b k v es) \<le> Suc (length es)"
  by (simp add: ordered_put_def without_def)

lemma lh_putImpl_effect:
  assumes "lh_ok hash l" and "hm_small w (lh_base l)" and "w \<le> 2 ^ 24"
  obtains l' where "lh_putImpl_old hash d k v oldValue l
        = (Ret (map_of (lh_entries l) k \<noteq> None, case map_of (lh_entries l) k of None \<Rightarrow> oldValue | Some old \<Rightarrow> old), l')"
    and "lh_ok hash l'" and "accessOrder l' = accessOrder l" and "lh_entries l' = ordered_put (accessOrder l) k v (lh_entries l)"
    and "hm_small (Suc w) (lh_base l')"
proof -
  have r: "lh_rep hash l (lh_nodes l)" using assms(1) by (simp add: lh_ok_def)
  have ok: "hm_ok hash (lh_base l)" using lh_repD(1) [OF r] .
  have len: "length (elementData (lh_base l)) \<le> 2 ^ 27" using assms(2,3) by (rule hm_small_length)
  have small: "hm_small (Suc w) (lh_base l')"
    if "lh_ok hash l'" "lh_entries l' = ordered_put (accessOrder l) k v (lh_entries l)" "grows (lh_base l) (lh_base l')" for l'
  proof (rule grows_small [OF ok assms(2) that(3)])
    have "elementCount (lh_base l') = int (length (lh_entries l'))" "elementCount (lh_base l) = int (length (lh_entries l))"
      using lh_entries_facts(3) that(1) assms(1) by (force simp: lh_ok_def lh_size_def hm_size_def)+
    then show "elementCount (lh_base l') \<le> int (Suc w)"
      using that(2) ordered_put_length [of "accessOrder l" k v "lh_entries l"] assms(2) by (simp add: hm_small_def)
  qed
  show thesis
  proof (cases "map_of (lh_entries l) k")
    case None
    show ?thesis by (rule lh_put_absent [OF assms(1) len None, of d v oldValue], rule that) (use None small in auto)
  next
    case (Some old)
    show ?thesis by (rule lh_put_present [OF assms(1) Some, of d v oldValue], rule that) (use Some small in auto)
  qed
qed

section \<open>Removing entries\<close>

lemma removed_rep:
  assumes "lh_rep hash l ns" and "hm_heap (lh_base l) a = Some e" and "removed hash a (lh_base l) (lh_base l')"
    and "lh_linked l' (filter (\<lambda>b. b \<noteq> a) ns)"
  shows "lh_rep hash l' (filter (\<lambda>b. b \<noteq> a) ns)" and "lh_entries l' = without (hn_key e) (lh_entries l)"
proof -
  have same: "same_data ((hm_heap (lh_base l))(a := None)) (hm_heap (lh_base l'))" and ok: "hm_ok hash (lh_base l')"
    using assms(3) by (simp_all add: removed_def)
  have "live l' = live l - {a}" using same_data_dom [OF same] by auto
  then show rep: "lh_rep hash l' (filter (\<lambda>b. b \<noteq> a) ns)" using assms(4) ok lh_repD(3) [OF assms(1)] by (auto simp: lh_rep_linked)
  have "node_entry (hm_heap (lh_base l')) b = node_entry (hm_heap (lh_base l)) b" if "b \<noteq> a" for b
    using node_entry_same [OF same, of b] that by (simp add: node_entry_def)
  then show "lh_entries l' = without (hn_key e) (lh_entries l)"
    unfolding rep_entries [OF rep] rep_without [OF assms(1,2), symmetric] by (auto intro!: map_cong)
qed

lemma lh_rep_split:
  assumes "lh_rep hash l ns" and "hm_heap (lh_base l) a = Some e"
  obtains as bs where "ns = as @ a # bs" and "filter (\<lambda>b. b \<noteq> a) ns = as @ bs"
    and "lh_chain l a = Some \<lparr>chainForward = first_or None bs, chainBackward = last_or None as\<rparr>"
proof -
  have "a \<in> set ns" using lh_repD(3) [OF assms(1)] assms(2) by auto
  then obtain as bs where ns: "ns = as @ a # bs" by (auto simp: in_set_conv_decomp)
  show thesis
  proof (rule that [OF ns])
    show "filter (\<lambda>b. b \<noteq> a) ns = as @ bs" using lh_repD(2) [OF assms(1)] unfolding ns by (rule filter_other)
    show "lh_chain l a = Some \<lparr>chainForward = first_or None bs, chainBackward = last_or None as\<rparr>"
      using assms(1) unfolding ns by (intro linked_node) (simp add: lh_rep_linked)
  qed
qed

lemma lh_remove_present:
  assumes "lh_ok hash l" and "map_of (lh_entries l) k = Some v"
  obtains l' a where "lh_remove hash k l = (Ret v, l')" and "lh_ok hash l'" and "lh_entries l' = without k (lh_entries l)"
    and "accessOrder l' = accessOrder l" and "removed hash a (lh_base l) (lh_base l')"
proof -
  have r: "lh_rep hash l (lh_nodes l)" using assms(1) by (simp add: lh_ok_def)
  note R = lh_repD [OF r]
  obtain a e where e: "hm_heap (lh_base l) a = Some e" "hn_key e = k" "hn_value e = v" by (rule lh_present [OF r assms(2)])
  obtain m1 where m1: "removeEntry_key hash k (lh_base l) = (Ret (Some a), m1)" "hm_heap m1 a = Some e"
    "removed hash a (lh_base l) (m1\<lparr>hm_heap := (hm_heap m1)(a := None)\<rparr>)"
    by (rule removeEntry_key_present [OF R(1) e(1,2)]) (rule that)
  obtain as bs where s: "lh_nodes l = as @ a # bs" "filter (\<lambda>b. b \<noteq> a) (lh_nodes l) = as @ bs"
    "lh_chain l a = Some \<lparr>chainForward = first_or None bs, chainBackward = last_or None as\<rparr>"
    by (rule lh_rep_split [OF r e(1)]) (rule that)
  let ?l = "l\<lparr>lh_base := m1\<rparr>"
  have "same_data ((hm_heap (lh_base l))(a := None)) ((hm_heap m1)(a := None))" using m1(3) by (simp add: removed_def)
  from same_data_dom [OF this] have dom: "dom (hm_heap m1) = live l" using m1(2) e(1) by auto
  have "lh_linked ?l (as @ a # bs)" "set as \<union> set bs \<subseteq> live ?l" using r dom s(1) by (auto simp: lh_rep_def lh_linked_def)
  then obtain l2 where l2: "bypass (last_or None as) (first_or None bs) ?l = (Ret (), l2)" "lh_linked l2 (as @ bs)" "relinked ?l l2"
    using bypass_effect by metis
  have base: "lh_base l2 = m1" "accessOrder l2 = accessOrder l" using l2(3) by (simp_all add: relinked_def)
  let ?l' = "l2\<lparr>lh_base := m1\<lparr>hm_heap := (hm_heap m1)(a := None)\<rparr>\<rparr>"
  have "get_chain (Some a) ?l = Ret \<lparr>chainForward = first_or None bs, chainBackward = last_or None as\<rparr>"
    using m1(2) s(3) by (simp add: get_chain_def)
  then have "lh_remove hash k l = (Ret v, ?l')"
    using m1(1,2) l2(1) base e(3) by (simp add: lh_remove_def on_base_def getValue_def delete_node_def)
  moreover have "lh_linked ?l' (filter (\<lambda>b. b \<noteq> a) (lh_nodes l))" using l2(2) s(2) by (simp add: lh_linked_def)
  then have "lh_ok hash ?l'" "lh_entries ?l' = without k (lh_entries l)"
    using removed_rep [OF r e(1), of ?l'] m1(3) e(2) by (simp_all add: lh_rep_ok)
  ultimately show thesis using m1(3) base(2) by (intro that [of ?l' a]) simp_all
qed

lemma lh_remove_absent:
  assumes "lh_ok hash l" and "map_of (lh_entries l) k = None"
  shows "lh_remove hash k l = (Throw (NoSuchElementException ''Specified key not present in the Map.''), l)"
proof -
  have r: "lh_rep hash l (lh_nodes l)" using assms(1) by (simp add: lh_ok_def)
  have "map_of (hm_entries (lh_base l)) k = None" using assms(2) lh_entries_facts(2) [OF r] by simp
  from hm_absent(1) [OF lh_repD(1) [OF r] this] have "removeEntry_key hash k (lh_base l) = (Ret None, lh_base l)"
    by (rule removeEntry_key_absent [OF lh_repD(1) [OF r]])
  then show ?thesis by (simp add: lh_remove_def on_base_def)
qed

lemma removed_small: "hm_small w m \<Longrightarrow> removed hash a m m' \<Longrightarrow> hm_small w m'"
  by (simp add: hm_small_def removed_def)

text \<open>The eviction removes the first entry of the list.\<close>

lemma evict_effect:
  assumes "lh_ok hash l" and "lh_entries l = x # es" and "hm_small w (lh_base l)"
  obtains l' where "evict hash policy l = (Ret (), l')" and "lh_ok hash l'" and "accessOrder l' = accessOrder l"
    and "lh_entries l' = (if policy x l then es else x # es)" and "hm_small w (lh_base l')"
proof -
  have r: "lh_rep hash l (lh_nodes l)" using assms(1) by (simp add: lh_ok_def)
  note R = lh_repD [OF r]
  obtain a as where ns: "lh_nodes l = a # as" using assms(2) rep_entries [OF r] by (cases "lh_nodes l") auto
  then have "a \<in> live l" using R(3) by auto
  then obtain e where e: "hm_heap (lh_base l) a = Some e" by auto
  have head: "lh_head l = Some a" using R(5) ns by simp
  have x: "x = (hn_key e, hn_value e)" using assms(2) rep_entries [OF r] ns e by (simp add: node_entry_def)
  have D: "distinct (map fst (x # es))" using lh_entries_facts(1) [OF r] assms(2) by simp
  have w: "without (hn_key e) (x # es) = es"
    using D x by (simp add: without_def) (metis (mono_tags, lifting) filter_True image_eqI)
  have some: "map_of (lh_entries l) (hn_key e) = Some (hn_value e)" using assms(2) x by simp
  show thesis
  proof (cases "policy x l")
    case True
    obtain l' a where l': "lh_remove hash (hn_key e) l = (Ret (hn_value e), l')" "lh_ok hash l'" "lh_entries l' = without (hn_key e) (lh_entries l)"
      "accessOrder l' = accessOrder l" "removed hash a (lh_base l) (lh_base l')"
      by (rule lh_remove_present [OF assms(1) some]) (rule that)
    then have "evict hash policy l = (Ret (), l')" using True head e x by (simp add: evict_def get_node_def onEviction_def)
    then show ?thesis using that l' True assms(2) w removed_small [OF assms(3) l'(5)] by simp
  next
    case False
    then have "evict hash policy l = (Ret (), l)" using head e x by (simp add: evict_def get_node_def)
    then show ?thesis using that assms False by simp
  qed
qed


section \<open>Putting many entries, clearing, copying\<close>

lemma lh_put_each_effect:
  assumes "lh_ok hash l" and "hm_small w (lh_base l)" and "w + length es \<le> 2 ^ 24"
  shows "\<exists>l'. lh_put_each hash d es l = (Ret (), l') \<and> lh_ok hash l' \<and> hm_small (w + length es) (lh_base l')
     \<and> accessOrder l' = accessOrder l \<and> lh_entries l' = fold (\<lambda>(k, v). ordered_put (accessOrder l) k v) es (lh_entries l)"
  using assms
proof (induction es arbitrary: l w)
  case (Cons x es)
  obtain k v where x: "x = (k, v)" by (cases x)
  have w: "w \<le> 2 ^ 24" using Cons.prems(3) by simp
  obtain l1 where l1: "lh_putImpl_old hash d k v d l
        = (Ret (map_of (lh_entries l) k \<noteq> None, case map_of (lh_entries l) k of None \<Rightarrow> d | Some old \<Rightarrow> old), l1)" "lh_ok hash l1"
    "accessOrder l1 = accessOrder l" "lh_entries l1 = ordered_put (accessOrder l) k v (lh_entries l)" "hm_small (Suc w) (lh_base l1)"
    by (rule lh_putImpl_effect [OF Cons.prems(1,2) w]) (rule that)
  have "Suc w + length es \<le> 2 ^ 24" using Cons.prems(3) by simp
  from Cons.IH [OF l1(2,5) this] obtain l2 where "lh_put_each hash d es l1 = (Ret (), l2)" "lh_ok hash l2"
    "hm_small (Suc w + length es) (lh_base l2)" "accessOrder l2 = accessOrder l"
    "lh_entries l2 = fold (\<lambda>(k, v). ordered_put (accessOrder l) k v) es (ordered_put (accessOrder l) k v (lh_entries l))"
    unfolding l1(3,4) by blast
  then show ?case using l1(1) by (auto simp: x lh_putImpl_def)
qed simp

text \<open>The base class in another state with the same entries.\<close>

lemma lh_same_map:
  assumes "lh_ok hash l" and "hm_ok hash m" and "same_map (lh_base l) m"
  shows "lh_ok hash (l\<lparr>lh_base := m\<rparr>)" and "lh_entries (l\<lparr>lh_base := m\<rparr>) = lh_entries l"
proof -
  have r: "lh_rep hash l (lh_nodes l)" using assms(1) by (simp add: lh_ok_def)
  have same: "same_data (hm_heap (lh_base l)) (hm_heap m)" using assms(3) by (simp add: same_map_def)
  have rep: "lh_rep hash (l\<lparr>lh_base := m\<rparr>) (lh_nodes l)" by (rule rep_base [OF r assms(2) same_data_dom [OF same]])
  then show "lh_ok hash (l\<lparr>lh_base := m\<rparr>)" by (rule lh_rep_ok)
  show "lh_entries (l\<lparr>lh_base := m\<rparr>) = lh_entries l"
    unfolding rep_entries [OF rep] rep_entries [OF r] using node_entry_same [OF same] by simp
qed

lemma lh_putAll_effect:
  assumes "lh_ok hash l" and "hm_small w (lh_base l)" and "w + 2 * length es \<le> 2 ^ 24"
  shows "\<exists>l'. lh_putAll hash d es l = (Ret (), l') \<and> lh_ok hash l' \<and> hm_small (w + 2 * length es) (lh_base l')
     \<and> accessOrder l' = accessOrder l \<and> lh_entries l' = fold (\<lambda>(k, v). ordered_put (accessOrder l) k v) es (lh_entries l)"
proof (cases "es = []")
  case True
  then show ?thesis using assms by (simp add: lh_putAll_def)
next
  case es: False
  let ?m = "lh_base l"
  have ok: "hm_ok hash ?m" using assms(1) by (simp add: lh_ok_def lh_rep_def)
  define c where "c = nat (elementCount ?m) + length es"
  have c: "elementCount ?m + int (length es) = int c" "0 < c" "c \<le> w + length es"
    using hm_count [OF ok] assms(2) es by (simp_all add: c_def hm_small_def)
  obtain m1 where m1: "(if int c > threshold ?m then rehash (of_int (int c)) ?m else (Ret (), ?m)) = (Ret (), m1)"
    "hm_ok hash m1" "same_map ?m m1" "hm_small (w + length es) m1"
  proof (cases "int c > threshold ?m")
    case True
    have c27: "c \<le> 2 ^ 27" using c(3) assms(3) by simp
    show ?thesis
      by (rule rehash_effect [OF ok c(2) c27], rule that) (use True c assms(2) in \<open>auto simp: hm_small_def same_map_def\<close>)
  next
    case False
    then show ?thesis using that [of ?m] ok same_map_refl [of ?m] hm_small_mono [OF assms(2)] by simp
  qed
  let ?l = "l\<lparr>lh_base := m1\<rparr>"
  have l1: "lh_ok hash ?l" "lh_entries ?l = lh_entries l" using lh_same_map [OF assms(1) m1(2,3)] by simp_all
  have "hm_small (w + length es) (lh_base ?l)" "w + length es + length es \<le> 2 ^ 24" using m1(4) assms(3) by simp_all
  from lh_put_each_effect [OF l1(1) this, of d] obtain l2 where l2: "lh_put_each hash d es ?l = (Ret (), l2)" "lh_ok hash l2"
    "hm_small (w + length es + length es) (lh_base l2)" "accessOrder l2 = accessOrder l"
    "lh_entries l2 = fold (\<lambda>(k, v). ordered_put (accessOrder l) k v) es (lh_entries l)"
    unfolding l1(2) by auto
  have "(if int c > threshold ?m then on_base (rehash (of_int (int c))) l else (Ret (), l)) = (Ret (), ?l)"
    using m1(1) by (cases "int c > threshold ?m") (auto simp: on_base_def)
  then have "lh_putAll hash d es l = (Ret (), l2)"
    unfolding lh_putAll_def Let_def c(1) using es l2(1) by simp
  moreover have "hm_small (w + 2 * length es) (lh_base l2)" using l2(3) by (simp add: mult_2 add.assoc)
  ultimately show ?thesis using l2 by blast
qed

lemma lh_empty:
  assumes "hm_ok hash m" and "hm_entries m = []"
  shows "lh_ok hash \<lparr>lh_base = m, lh_chain = ch, lh_head = None, lh_tail = None, accessOrder = b\<rparr>" (is "lh_ok hash ?l")
    and "lh_entries \<lparr>lh_base = m, lh_chain = ch, lh_head = None, lh_tail = None, accessOrder = b\<rparr> = []"
proof -
  have "concat (hm_chains m) = []" using assms(2) unfolding hm_entries_def map_is_Nil_conv .
  then have "dom (hm_heap m) = {}" using ok_nodes [OF assms(1)] by (metis set_empty)
  then have rep: "lh_rep hash ?l []" using assms(1) by (simp add: lh_rep_def)
  then show "lh_ok hash ?l" by (rule lh_rep_ok)
  show "lh_entries ?l = []" using rep_entries [OF rep] by simp
qed

lemma lh_clear_effect:
  assumes "lh_ok hash l"
  obtains l' where "lh_clear l = (Ret (), l')" and "lh_ok hash l'" and "lh_entries l' = []" and "accessOrder l' = accessOrder l"
    and "hm_small w (lh_base l) \<Longrightarrow> hm_small w (lh_base l')"
proof -
  have ok: "hm_ok hash (lh_base l)" using assms by (simp add: lh_ok_def lh_rep_def)
  obtain m where m: "hm_clear (lh_base l) = (Ret (), m)" "hm_ok hash m" "hm_entries m = []" "loadFactor m = loadFactor (lh_base l)"
    "length (elementData m) = length (elementData (lh_base l))"
    by (rule hm_clear_effect [OF ok]) (rule that)
  let ?l = "\<lparr>lh_base = m, lh_chain = lh_chain l, lh_head = None, lh_tail = None, accessOrder = accessOrder l\<rparr>"
  have "lh_clear l = (Ret (), ?l)" using m(1) by (simp add: lh_clear_def on_base_def)
  moreover have "hm_small w m" if "hm_small w (lh_base l)" using that m(4,5) hm_count [OF m(2)] m(3) by (simp add: hm_small_def)
  ultimately show thesis using that [of ?l] lh_empty [OF m(2,3), of "lh_chain l" "accessOrder l"] by simp
qed

lemma lh_new_effect:
  obtains l :: "('k, 'v) linkedmap" where "lh_new = (Ret (), l)" and "lh_ok hash l" and "lh_entries l = []" and "accessOrder l = False"
    and "hm_small 0 (lh_base l)"
proof -
  obtain m :: "('k, 'v) hashmap" where m: "hm_new = (Ret (), m)" "hm_ok hash m" "hm_entries m = []" "hm_small 0 m" by (rule hm_new_effect)
  let ?l = "\<lparr>lh_base = m, lh_chain = \<lambda>_. None, lh_head = None, lh_tail = None, accessOrder = False\<rparr>"
  have "lh_new = (Ret (), ?l)" unfolding lh_new_def lh_init_def m(1) by simp
  then show thesis using that lh_empty [OF m(2,3), of "\<lambda>_. None" False] m(4) by simp
qed

lemma lh_new_order_effect:
  obtains l :: "('k, 'v) linkedmap" where "lh_new_order 0 (3 / 4) order = (Ret (), l)" and "lh_ok hash l" and "lh_entries l = []"
    and "accessOrder l = order" and "hm_small 0 (lh_base l)"
proof -
  define b :: "('k, 'v) hashmap" where "b = hm_blank"
  have b: "b\<lparr>loadFactor := 3 / 4\<rparr> = b" "hm_heap b = (\<lambda>_. None)" "elementCount b = 0" "loadFactor b = 3 / 4" by (simp_all add: b_def hm_blank_def)
  then have lf: "0 < loadFactor b" "loadFactor b < 4" by simp_all
  obtain m where m: "and_then (hm_allocate (of_nat 16) b) (\<lambda>_. computeThreshold) = (Ret (), m)" "hm_ok hash m" "hm_entries m = []"
      "loadFactor m = loadFactor b" "elementData m = replicate 16 None"
    by (rule allocate_effect [OF table_length_16 b(2,3) lf]) (rule that)
  have "and_then (hm_allocate (of_nat 16) b) (\<lambda>_ m. computeThreshold (m\<lparr>loadFactor := 3 / 4\<rparr>)) = (Ret (), m)"
  proof -
    have "b\<lparr>elementData := xs, loadFactor := 3 / 4\<rparr> = b\<lparr>elementData := xs\<rparr>" for xs by (simp add: b_def hm_blank_def)
    then show ?thesis using m(1) by (simp add: hm_allocate_def ap_new_def)
  qed
  then have "hm_new_loadFactor 0 (3 / 4) = (Ret (), m)" by (simp add: hm_new_loadFactor_def capacity_12 b_def)
  moreover have "hm_small 0 m" using m b(4) hm_count [OF m(2)] by (simp add: hm_small_def)
  ultimately show thesis using that lh_empty [OF m(2,3), of "\<lambda>_. None" order] by (simp add: lh_new_order_def lh_init_def)
qed

end
