(* ===== verification/Lru_Cache.thy ===== *)
theory Lru_Cache
  imports Linked_Hash_Map
begin

text \<open>
  The iterators of \<^verbatim>\<open>LinkedHashMap\<close> and its views as collections, what a sequence of calls does to the map and to an
  \<^verbatim>\<open>LRUCache\<close>, and what goes wrong.
\<close>

section \<open>Iteration\<close>

definition lh_view :: "('k \<Rightarrow> u32) \<Rightarrow> ('k \<times> 'v \<Rightarrow> 'e) \<Rightarrow> ('k, 'v) linkedmap \<Rightarrow> lhiter \<Rightarrow> 'e list \<Rightarrow> 'e list \<Rightarrow> bool \<Rightarrow> bool" where
  "lh_view hash f l it xs ys b \<longleftrightarrow> lh_ok hash l \<and> li_expected it = hm_modCount (lh_base l)
     \<and> (\<exists>ps rs. lh_nodes l = ps @ rs \<and> li_future it = first_or None rs \<and> xs = map (\<lambda>a. f (node_entry (hm_heap (lh_base l)) a)) ps
          \<and> ys = map (\<lambda>a. f (node_entry (hm_heap (lh_base l)) a)) rs \<and> (b \<longrightarrow> ps \<noteq> [] \<and> li_current it = Some (List.last ps)))"

lemma ok_rep: "lh_ok hash l \<Longrightarrow> lh_rep hash l (lh_nodes l)"
  by (simp add: lh_ok_def)

lemma lh_next_node:
  assumes "lh_ok hash l" and "lh_nodes l = ps @ a # rs" and "li_future it = Some a" and "li_expected it = hm_modCount (lh_base l)"
  shows "lh_makeNext l it = (Ret (node_entry (hm_heap (lh_base l)) a), it\<lparr>li_current := Some a, li_future := first_or None rs\<rparr>)"
proof -
  have L: "lh_linked l (ps @ a # rs)" "a \<in> live l" using ok_rep [OF assms(1)] assms(2) by (auto simp: lh_rep_linked)
  then obtain e where e: "hm_heap (lh_base l) a = Some e" by auto
  then show ?thesis using assms(3,4) get_chain_live [OF L(2) linked_node [OF L(1)]]
    by (simp add: lh_makeNext_def get_node_def node_entry_def)
qed

lemma lh_readable_view:
  "readable (lh_view_ops (\<lambda>l it. project f (lh_makeNext l it))) (lh_ok hash) (\<lambda>l. map f (lh_entries l)) (lh_view hash f)"
proof
  fix l :: "('a, 'b) linkedmap" and it xs ys y b
  let ?A = "lh_view_ops (\<lambda>l it. project f (lh_makeNext l it))" and ?f = "\<lambda>a. f (node_entry (hm_heap (lh_base l)) a)"
  show "lh_ok hash l \<Longrightarrow> v_size ?A l = int (length (map f (lh_entries l)))"
    using lh_entries_facts(3) [OF ok_rep] by (simp add: lh_view_ops_def)
  show "lh_ok hash l \<and> map f (lh_entries l) = xs @ ys" if "lh_view hash f l it xs ys b"
    using that by (auto simp: lh_view_def lh_entries_def)
  show "lh_view hash f l (v_iterator ?A l) [] (map f (lh_entries l)) False" if ok: "lh_ok hash l"
    unfolding lh_view_def using ok lh_repD(5) [OF ok_rep [OF ok]]
    by (intro conjI exI [of _ "[]"] exI [of _ "lh_nodes l"]) (simp_all add: lh_view_ops_def lh_iterator_def lh_entries_def)
  show "v_hasNext ?A l it \<longleftrightarrow> ys \<noteq> []" if "lh_view hash f l it xs ys b"
    using that by (auto simp: lh_view_def lh_view_ops_def lh_checkHasNext_def)
  show "\<exists>it'. v_next ?A l it = (Ret y, it') \<and> lh_view hash f l it' (xs @ [y]) ys True" if v: "lh_view hash f l it xs (y # ys) b"
  proof -
    obtain ps a rs where e: "lh_nodes l = ps @ a # rs" "li_future it = Some a" "xs = map ?f ps" "y = ?f a" "ys = map ?f rs"
      using v by (auto simp: lh_view_def Cons_eq_map_conv)
    have ok: "lh_ok hash l" "li_expected it = hm_modCount (lh_base l)" using v by (simp_all add: lh_view_def)
    let ?it = "it\<lparr>li_current := Some a, li_future := first_or None rs\<rparr>"
    have "v_next ?A l it = (Ret y, ?it)" using lh_next_node [OF ok(1) e(1,2) ok(2)] e(4) by (simp add: lh_view_ops_def project_def)
    moreover have "lh_view hash f l ?it (xs @ [y]) ys True"
      unfolding lh_view_def by (intro conjI exI [of _ "ps @ [a]"] exI [of _ rs]) (use ok e in auto)
    ultimately show ?thesis by blast
  qed
qed

lemma lh_view_remove:
  assumes v: "lh_view hash f l it (xs @ [x]) ys True"
  obtains l' it' a where "lh_doRemove l it = (Ret (), l', it')" and "lh_view hash f l' it' xs ys False" and "removed hash a (lh_base l) (lh_base l')"
    and "accessOrder l' = accessOrder l" and "\<exists>k. lh_entries l' = without k (lh_entries l)"
proof -
  let ?f = "\<lambda>a. f (node_entry (hm_heap (lh_base l)) a)"
  obtain qs rs where e0: "lh_nodes l = qs @ rs" "li_future it = first_or None rs" "xs @ [x] = map ?f qs" "ys = map ?f rs" "qs \<noteq> []"
      "li_current it = Some (List.last qs)"
    using v by (auto simp: lh_view_def)
  obtain ps a where qs: "qs = ps @ [a]" using e0(5) by (metis rev_exhaust)
  have e: "lh_nodes l = ps @ a # rs" "xs = map ?f ps" "li_current it = Some a" using e0 qs by simp_all
  have ok: "lh_ok hash l" "li_expected it = hm_modCount (lh_base l)" using v by (simp_all add: lh_view_def)
  have r: "lh_rep hash l (ps @ a # rs)" using ok_rep [OF ok(1)] e(1) by simp
  note R = lh_repD [OF r]
  have L: "lh_linked l (ps @ a # rs)" "a \<in> live l" using r by (auto simp: lh_rep_linked)
  then obtain n where n: "hm_heap (lh_base l) a = Some n" by auto
  have D: "filter (\<lambda>b. b \<noteq> a) (ps @ a # rs) = ps @ rs" using R(2) by (rule filter_other)
  obtain m where m: "removeEntry a (lh_base l) = (Ret (), m)" "removed hash a (lh_base l) m" by (rule removeEntry_effect [OF R(1) n])
  let ?l = "l\<lparr>lh_base := m\<rparr>"
  have "same_data ((hm_heap (lh_base l))(a := None)) (hm_heap m)" using m(2) by (simp add: removed_def)
  from same_data_dom [OF this] have "set ps \<union> set rs \<subseteq> live ?l" using R(2,3) by auto
  moreover have "lh_linked ?l (ps @ a # rs)" using L(1) by (simp add: lh_linked_def)
  ultimately obtain l' where l': "bypass (last_or None ps) (first_or None rs) ?l = (Ret (), l')" "lh_linked l' (ps @ rs)" "relinked ?l l'"
    using bypass_effect by metis
  have base: "lh_base l' = m" "accessOrder l' = accessOrder l" using l'(3) by (simp_all add: relinked_def)
  have rep: "lh_rep hash l' (ps @ rs)" "lh_entries l' = without (hn_key n) (lh_entries l)"
    using removed_rep [OF r n, of l'] m(2) base l'(2) D by simp_all
  have same: "?f b = f (node_entry (hm_heap (lh_base l')) b)" if "b \<in> set ps \<union> set rs" for b
  proof -
    have "b \<noteq> a" "b \<in> set (concat (hm_chains (lh_base l)))" using that R(2,3) ok_nodes [OF R(1)] by auto
    then show ?thesis using removed_node_entry [OF m(2) _ _ R(1), of b] base by simp
  qed
  let ?it = "it\<lparr>li_current := None, li_expected := li_expected it + 1\<rparr>"
  have "lh_doRemove l it = (Ret (), l', ?it)"
    using ok(2) e(3) get_chain_live [OF L(2) linked_node [OF L(1)]] m(1) l'(1) by (simp add: lh_doRemove_def on_base_def)
  moreover have "lh_view hash f l' ?it xs ys False"
    unfolding lh_view_def using lh_rep_ok [OF rep(1)] m(2) base ok(2) e(2) e0(2,4) lh_rep_nodes [OF rep(1)] same
    by (intro conjI exI [of _ ps] exI [of _ rs]) (auto simp: removed_def)
  ultimately show thesis using that m(2) base rep(2) by blast
qed

text \<open>
  The same with any property \<open>Q\<close> of the map that taking out an entry keeps.
\<close>

lemma lh_iterable_with:
  assumes "\<And>l l' a k. lh_ok hash l \<Longrightarrow> Q l \<Longrightarrow> removed hash a (lh_base l) (lh_base l') \<Longrightarrow> accessOrder l' = accessOrder l
      \<Longrightarrow> lh_entries l' = without k (lh_entries l) \<Longrightarrow> Q l'"
  shows "iterable (lh_view_ops (\<lambda>l it. project f (lh_makeNext l it))) (\<lambda>l. lh_ok hash l \<and> Q l) (\<lambda>l. map f (lh_entries l))
     (\<lambda>l it xs ys b. lh_view hash f l it xs ys b \<and> Q l)"
proof
  fix l :: "('a, 'b) linkedmap" and it xs ys x y b
  let ?A = "lh_view_ops (\<lambda>l it. project f (lh_makeNext l it))"
  note R = lh_readable_view [of f hash]
  show "lh_ok hash l \<and> Q l \<Longrightarrow> v_size ?A l = int (length (map f (lh_entries l)))" using readable.size_law [OF R] by blast
  show "lh_view hash f l it xs ys b \<and> Q l \<Longrightarrow> (lh_ok hash l \<and> Q l) \<and> map f (lh_entries l) = xs @ ys" using readable.view_law [OF R] by blast
  show "lh_ok hash l \<and> Q l \<Longrightarrow> lh_view hash f l (v_iterator ?A l) [] (map f (lh_entries l)) False \<and> Q l" using readable.iterator_law [OF R] by blast
  show "lh_view hash f l it xs ys b \<and> Q l \<Longrightarrow> v_hasNext ?A l it \<longleftrightarrow> ys \<noteq> []" using readable.hasNext_law [OF R] by blast
  show "lh_view hash f l it xs (y # ys) b \<and> Q l \<Longrightarrow> \<exists>it'. v_next ?A l it = (Ret y, it') \<and> lh_view hash f l it' (xs @ [y]) ys True \<and> Q l"
    using readable.next_law [OF R] by blast
  assume v: "lh_view hash f l it (xs @ [x]) ys True \<and> Q l"
  then have "lh_view hash f l it (xs @ [x]) ys True" ..
  then obtain l' it' a where "lh_doRemove l it = (Ret (), l', it')" "lh_view hash f l' it' xs ys False" "removed hash a (lh_base l) (lh_base l')"
    "accessOrder l' = accessOrder l" "\<exists>k. lh_entries l' = without k (lh_entries l)"
    by (rule lh_view_remove)
  moreover have "lh_ok hash l" using v by (simp add: lh_view_def)
  ultimately show "\<exists>l' it'. v_remove ?A l it = (Ret (), l', it') \<and> lh_view hash f l' it' xs ys False \<and> Q l'"
    using assms v by (auto simp: lh_view_ops_def)
qed

lemma lh_views:
  "lh_entrySet = lh_view_ops (\<lambda>l it. project (\<lambda>e. e) (lh_makeNext l it))" "lh_keySet = lh_view_ops (\<lambda>l it. project fst (lh_makeNext l it))"
  "lh_values = lh_view_ops (\<lambda>l it. project snd (lh_makeNext l it))"
  by (simp_all add: lh_entrySet_def lh_keySet_def lh_values_def lh_entry_next_def [abs_def] lh_key_next_def [abs_def] lh_value_next_def [abs_def])

lemma lh_iterable_view:
  "iterable (lh_view_ops (\<lambda>l it. project f (lh_makeNext l it))) (lh_ok hash) (\<lambda>l. map f (lh_entries l)) (lh_view hash f)"
  using lh_iterable_with [of hash "\<lambda>_. True" f] by simp

interpretation lh_entry_view: iterable lh_entrySet "lh_ok hash" lh_entries "lh_view hash (\<lambda>e. e)"
  for hash :: "'k \<Rightarrow> u32"
  unfolding lh_views using lh_iterable_view [of "\<lambda>e. e" hash] by simp

interpretation lh_key_view: iterable lh_keySet "lh_ok hash" "\<lambda>l. map fst (lh_entries l)" "lh_view hash fst"
  for hash :: "'k \<Rightarrow> u32"
  unfolding lh_views by (rule lh_iterable_view)

interpretation lh_value_view: iterable lh_values "lh_ok hash" "\<lambda>l. map snd (lh_entries l)" "lh_view hash snd"
  for hash :: "'k \<Rightarrow> u32"
  unfolding lh_views by (rule lh_iterable_view)

lemma lh_const_readable:
  "readable (const_lh_view_ops msg (\<lambda>l it. project f (const_lh_makeNext l it))) (lh_ok hash) (\<lambda>l. map f (lh_entries l)) (lh_view hash f)"
  using lh_readable_view [of f hash]
  by (simp add: readable_def const_lh_view_ops_def lh_view_ops_def const_lh_makeNext_def const_lh_checkHasNext_def lh_checkHasNext_def
      const_lh_iterator_def lh_iterator_def)

interpretation const_lh_entry_view: readable const_lh_entrySet "lh_ok hash" lh_entries "lh_view hash (\<lambda>e. e)"
  for hash :: "'k \<Rightarrow> u32"
  using lh_const_readable [of "''Can't clear a const collection''" "\<lambda>e. e" hash]
  by (simp add: const_lh_entrySet_def const_lh_entry_next_def [abs_def])


section \<open>Sequences of calls\<close>

text \<open>
  The calls of a client.  \<open>LRetainKeys\<close> is \<^verbatim>\<open>retainAll\<close> of the set of keys, which removes through its iterator.
\<close>

datatype ('k, 'v) lh_call =
    LPut 'k 'v
  | LGet 'k
  | LContainsKey 'k
  | LRemove 'k
  | LPutAll "('k \<times> 'v) list"
  | LClear
  | LRetainKeys "'k list"

fun lh_apply :: "('k \<Rightarrow> u32) \<Rightarrow> 'v \<Rightarrow> ('k \<times> 'v \<Rightarrow> ('k, 'v) linkedmap \<Rightarrow> bool) \<Rightarrow> ('k, 'v) lh_call \<Rightarrow> ('k, 'v) linkedmap \<Rightarrow> ('k, 'v) linkedmap option" where
  "lh_apply hash d policy (LPut k v) l = settled (lh_put hash d policy k v l)"
| "lh_apply hash d policy (LGet k) l = settled (lh_get hash k l)"
| "lh_apply hash d policy (LContainsKey k) l = settled (lh_containsKey hash k l)"
| "lh_apply hash d policy (LRemove k) l = settled (lh_remove hash k l)"
| "lh_apply hash d policy (LPutAll es) l = settled (lh_putAll hash d es l)"
| "lh_apply hash d policy LClear l = settled (lh_clear l)"
| "lh_apply hash d policy (LRetainKeys ks) l = Option.bind (coll_retainAll (Suc (nat (lh_size l))) lh_keySet ks l) settled"

fun lh_run :: "('k \<Rightarrow> u32) \<Rightarrow> 'v \<Rightarrow> ('k \<times> 'v \<Rightarrow> ('k, 'v) linkedmap \<Rightarrow> bool) \<Rightarrow> ('k, 'v) lh_call list \<Rightarrow> ('k, 'v) linkedmap \<Rightarrow> ('k, 'v) linkedmap option" where
  "lh_run hash d policy [] l = Some l"
| "lh_run hash d policy (c # cs) l = Option.bind (lh_apply hash d policy c l) (lh_run hash d policy cs)"

text \<open>What they do to the list of entries, where \<open>full\<close> tells for which number of entries the eldest is removed.\<close>

fun lh_spec :: "bool \<Rightarrow> (int \<Rightarrow> bool) \<Rightarrow> ('k, 'v) lh_call \<Rightarrow> ('k \<times> 'v) list \<Rightarrow> ('k \<times> 'v) list" where
  "lh_spec order full (LPut k v) es =
     (let es' = ordered_put order k v es in if full (int (length es')) then tl es' else es')"
| "lh_spec order full (LGet k) es = lh_touch order k es"
| "lh_spec order full (LContainsKey k) es = lh_touch order k es"
| "lh_spec order full (LRemove k) es = without k es"
| "lh_spec order full (LPutAll xs) es = fold (\<lambda>(k, v). ordered_put order k v) xs es"
| "lh_spec order full LClear es = []"
| "lh_spec order full (LRetainKeys ks) es = filter (\<lambda>x. fst x \<in> set ks) es"

fun lh_weight :: "('k, 'v) lh_call \<Rightarrow> nat" where
  "lh_weight (LPut k v) = 1"
| "lh_weight (LPutAll es) = 2 * length es"
| "lh_weight _ = 0"

text \<open>Removing through the iterator leaves part of the entries, in their order.\<close>

definition lh_part :: "bool \<Rightarrow> nat \<Rightarrow> ('k \<times> 'v) list \<Rightarrow> ('k, 'v) linkedmap \<Rightarrow> bool" where
  "lh_part order w es l \<longleftrightarrow> (\<exists>K. lh_entries l = filter (\<lambda>x. fst x \<notin> K) es) \<and> hm_small w (lh_base l) \<and> accessOrder l = order"

lemma lh_part_removed:
  assumes "lh_part order w es l" and "removed hash a (lh_base l) (lh_base l')" and "accessOrder l' = accessOrder l"
    and "lh_entries l' = without k (lh_entries l)"
  shows "lh_part order w es l'"
proof -
  obtain K where "lh_entries l = filter (\<lambda>x. fst x \<notin> K) es" using assms(1) by (auto simp: lh_part_def)
  then have "lh_entries l' = filter (\<lambda>x. fst x \<notin> insert k K) es" using assms(4) by (auto simp: without_def intro!: filter_cong)
  then have "\<exists>K. lh_entries l' = filter (\<lambda>x. fst x \<notin> K) es" by (rule exI)
  moreover have "hm_small w (lh_base l')" using assms(1,2) removed_small by (auto simp only: lh_part_def)
  ultimately show ?thesis using assms(1,3) by (simp add: lh_part_def)
qed

lemma part_keys:
  assumes "map fst (filter (\<lambda>x. fst x \<notin> K) es) = filter (\<lambda>k. k \<in> S) (map fst es)"
  shows "filter (\<lambda>x. fst x \<notin> K) es = filter (\<lambda>x. fst x \<in> S) es"
proof (rule filter_cong [OF refl])
  fix x
  assume x: "x \<in> set es"
  have "fst x \<notin> K \<longleftrightarrow> fst x \<in> set (map fst (filter (\<lambda>x. fst x \<notin> K) es))" using x by auto
  also have "\<dots> \<longleftrightarrow> fst x \<in> S" unfolding assms using x by simp
  finally show "fst x \<notin> K \<longleftrightarrow> fst x \<in> S" .
qed

lemma lh_retain_effect:
  assumes "lh_ok hash l" and "hm_small w (lh_base l)"
  obtains l' b where "coll_retainAll (Suc (nat (lh_size l))) lh_keySet ks l = Some (Ret b, l')" and "lh_ok hash l'"
    and "lh_entries l' = filter (\<lambda>x. fst x \<in> set ks) (lh_entries l)" and "accessOrder l' = accessOrder l" and "hm_small w (lh_base l')"
proof -
  let ?Q = "lh_part (accessOrder l) w (lh_entries l)"
  have I: "iterable lh_keySet (\<lambda>l. lh_ok hash l \<and> ?Q l) (\<lambda>l. map fst (lh_entries l)) (\<lambda>l it xs ys b. lh_view hash fst l it xs ys b \<and> ?Q l)"
    unfolding lh_views by (rule lh_iterable_with) (rule lh_part_removed)
  have "\<exists>K. lh_entries l = filter (\<lambda>x. fst x \<notin> K) (lh_entries l)" by (rule exI [of _ "{}"]) simp
  then have 0: "lh_ok hash l \<and> ?Q l" using assms by (simp add: lh_part_def)
  have n: "length (map fst (lh_entries l)) < Suc (nat (lh_size l))" using lh_entries_facts(3) [OF ok_rep [OF assms(1)]] by simp
  obtain l' b where l': "coll_retainAll (Suc (nat (lh_size l))) lh_keySet ks l = Some (Ret b, l')" "lh_ok hash l'" "?Q l'"
    "map fst (lh_entries l') = filter (\<lambda>u. u \<in> set ks) (map fst (lh_entries l))"
    using iterable.coll_retainAll_effect [OF I 0 n, of ks] by blast
  then obtain K where K: "lh_entries l' = filter (\<lambda>x. fst x \<notin> K) (lh_entries l)" by (auto simp: lh_part_def)
  have "lh_entries l' = filter (\<lambda>x. fst x \<in> set ks) (lh_entries l)" using part_keys [of K "lh_entries l" "set ks"] l'(4) K by simp
  then show thesis using that l'(1-3) by (simp add: lh_part_def)
qed

lemma ordered_put_nonempty: "ordered_put b k v es \<noteq> []"
  by (auto simp: ordered_put_def split: if_splits)

lemma lh_put_effect:
  assumes "lh_ok hash l" and "hm_small w (lh_base l)" and "w \<le> 2 ^ 24" and "policy = (\<lambda>x l. full (lh_size l))"
  obtains l' where "lh_put hash d policy k v l = (Ret (map_of (lh_entries l) k \<noteq> None), l')" and "lh_ok hash l'" and "accessOrder l' = accessOrder l"
    and "lh_entries l' = lh_spec (accessOrder l) full (LPut k v) (lh_entries l)" and "hm_small (Suc w) (lh_base l')"
proof -
  obtain l1 where l1: "lh_putImpl_old hash d k v d l
        = (Ret (map_of (lh_entries l) k \<noteq> None, case map_of (lh_entries l) k of None \<Rightarrow> d | Some old \<Rightarrow> old), l1)" "lh_ok hash l1"
    "accessOrder l1 = accessOrder l" "lh_entries l1 = ordered_put (accessOrder l) k v (lh_entries l)" "hm_small (Suc w) (lh_base l1)"
    by (rule lh_putImpl_effect [OF assms(1-3)]) (rule that)
  obtain x es where x: "lh_entries l1 = x # es" using l1(4) ordered_put_nonempty by (metis list.exhaust)
  obtain l2 where l2: "evict hash policy l1 = (Ret (), l2)" "lh_ok hash l2" "accessOrder l2 = accessOrder l1"
    "lh_entries l2 = (if policy x l1 then es else x # es)" "hm_small (Suc w) (lh_base l2)"
    by (rule evict_effect [OF l1(2) x l1(5)]) (rule that)
  have "lh_entries l2 = lh_spec (accessOrder l) full (LPut k v) (lh_entries l)"
    using l2(4) x l1(4) assms(4) lh_entries_facts(3) [OF ok_rep [OF l1(2)]] by (simp add: Let_def)
  moreover have "lh_put hash d policy k v l = (Ret (map_of (lh_entries l) k \<noteq> None), l2)"
    using l1(1) l2(1) by (simp add: lh_put_def lh_putImpl_def)
  ultimately show thesis using that l2(2,3,5) l1(3) by simp
qed


lemma lh_apply_step:
  assumes "lh_ok hash l" and "hm_small w (lh_base l)" and "w + lh_weight c \<le> 2 ^ 24" and "policy = (\<lambda>x l. full (lh_size l))"
  shows "\<exists>l'. lh_apply hash d policy c l = Some l' \<and> lh_ok hash l' \<and> hm_small (w + lh_weight c) (lh_base l')
     \<and> accessOrder l' = accessOrder l \<and> lh_entries l' = lh_spec (accessOrder l) full c (lh_entries l)"
proof (cases c)
  case (LPut k v)
  have w: "w \<le> 2 ^ 24" using assms(3) by simp
  show ?thesis by (rule lh_put_effect [OF assms(1,2) w assms(4), of d k v]) (use LPut in \<open>simp add: settled_def del: lh_spec.simps\<close>)
next
  case (LGet k)
  show ?thesis
    by (rule lh_get_effect [OF assms(1), of k])
      (use LGet assms(2) in \<open>auto simp: settled_def relinked_def split: option.split\<close>)
next
  case (LContainsKey k)
  show ?thesis
    by (rule lh_containsKey_effect [OF assms(1), of k]) (use LContainsKey assms(2) in \<open>auto simp: settled_def relinked_def\<close>)
next
  case (LRemove k)
  show ?thesis
  proof (cases "map_of (lh_entries l) k")
    case None
    then show ?thesis using LRemove lh_remove_absent [OF assms(1) None] assms(1,2) by (simp add: settled_def without_absent)
  next
    case (Some v)
    show ?thesis
      by (rule lh_remove_present [OF assms(1) Some]) (use LRemove removed_small [OF assms(2)] in \<open>auto simp: settled_def\<close>)
  qed
next
  case (LPutAll es)
  then show ?thesis using lh_putAll_effect [OF assms(1,2), of es d] assms(3) by (auto simp: settled_def)
next
  case LClear
  show ?thesis by (rule lh_clear_effect [OF assms(1), of w]) (use LClear assms(2) in \<open>simp add: settled_def\<close>)
next
  case (LRetainKeys ks)
  show ?thesis by (rule lh_retain_effect [OF assms(1,2), of ks]) (use LRetainKeys in \<open>simp add: settled_def\<close>)
qed

lemma lh_run_steps:
  assumes "policy = (\<lambda>x l. full (lh_size l))"
  shows "lh_ok hash l \<Longrightarrow> hm_small w (lh_base l) \<Longrightarrow> w + sum_list (map lh_weight cs) \<le> 2 ^ 24 \<Longrightarrow>
   \<exists>l'. lh_run hash d policy cs l = Some l' \<and> lh_ok hash l' \<and> accessOrder l' = accessOrder l
     \<and> lh_entries l' = fold (lh_spec (accessOrder l) full) cs (lh_entries l)"
proof (induction cs arbitrary: l w)
  case (Cons c cs)
  have "w + lh_weight c \<le> 2 ^ 24" using Cons.prems(3) by simp
  from lh_apply_step [OF Cons.prems(1,2) this assms] obtain l1 where l1: "lh_apply hash d policy c l = Some l1" "lh_ok hash l1"
    "hm_small (w + lh_weight c) (lh_base l1)" "accessOrder l1 = accessOrder l" "lh_entries l1 = lh_spec (accessOrder l) full c (lh_entries l)"
    by blast
  moreover have "w + lh_weight c + sum_list (map lh_weight cs) \<le> 2 ^ 24" using Cons.prems(3) by simp
  ultimately show ?case using Cons.IH [OF l1(2,3)] by auto
qed simp




section \<open>The cache\<close>

datatype ('k, 'v) lru_call =
    CPut 'k 'v
  | CGet 'k
  | CRemove 'k

fun lru_apply :: "('k \<Rightarrow> u32) \<Rightarrow> 'v \<Rightarrow> ('k, 'v) lru_call \<Rightarrow> ('k, 'v) lrucache \<Rightarrow> ('k, 'v) lrucache option" where
  "lru_apply hash d (CPut k v) c = settled (lru_put hash d k v c)"
| "lru_apply hash d (CGet k) c = settled (lru_get hash k c)"
| "lru_apply hash d (CRemove k) c = settled (lru_remove hash k c)"

fun lru_run :: "('k \<Rightarrow> u32) \<Rightarrow> 'v \<Rightarrow> ('k, 'v) lru_call list \<Rightarrow> ('k, 'v) lrucache \<Rightarrow> ('k, 'v) lrucache option" where
  "lru_run hash d [] c = Some c"
| "lru_run hash d (x # xs) c = Option.bind (lru_apply hash d x c) (lru_run hash d xs)"

text \<open>The specification: the keys in the order of their last use, of which a put keeps the last \<open>n\<close>.\<close>

fun lru_spec :: "nat \<Rightarrow> ('k, 'v) lru_call \<Rightarrow> ('k \<times> 'v) list \<Rightarrow> ('k \<times> 'v) list" where
  "lru_spec n (CPut k v) es = (let es' = without k es @ [(k, v)] in drop (length es' - n) es')"
| "lru_spec n (CGet k) es = (case map_of es k of None \<Rightarrow> es | Some v \<Rightarrow> without k es @ [(k, v)])"
| "lru_spec n (CRemove k) es = without k es"

fun as_lh_call :: "('k, 'v) lru_call \<Rightarrow> ('k, 'v) lh_call" where
  "as_lh_call (CPut k v) = LPut k v"
| "as_lh_call (CGet k) = LGet k"
| "as_lh_call (CRemove k) = LRemove k"

lemma settled_on_map: "settled (on_map f c) = map_option (\<lambda>l. c\<lparr>lru_map := l\<rparr>) (settled (f (lru_map c)))"
  by (cases "f (lru_map c)") (auto simp: on_map_def settled_def split: outcome.split exn.split container_error.split)

lemma lru_apply_map:
  "lru_apply hash d x c = map_option (\<lambda>l. c\<lparr>lru_map := l\<rparr>) (lh_apply hash d (lru_removeEldestEntry (maxCacheSize c)) (as_lh_call x) (lru_map c))"
  by (cases x) (simp_all add: lru_put_def lru_get_def lru_remove_def settled_on_map)

lemma lru_run_map:
  "lru_run hash d xs c = map_option (\<lambda>l. c\<lparr>lru_map := l\<rparr>) (lh_run hash d (lru_removeEldestEntry (maxCacheSize c)) (map as_lh_call xs) (lru_map c))"
proof (induction xs arbitrary: c)
  case (Cons x xs)
  then show ?case
    by (cases "lh_apply hash d (lru_removeEldestEntry (maxCacheSize c)) (as_lh_call x) (lru_map c)")
      (simp_all add: lru_apply_map option.map_comp comp_def)
qed simp

text \<open>A put adds at most one entry to a cache within its limit, so removing one is enough.\<close>

lemma without_length: "length (without k es) \<le> length es"
  by (simp add: without_def)

lemma without_shorter: "map_of es k = Some v \<Longrightarrow> length (without k es) < length es"
  unfolding without_def by (rule length_filter_less [of "(k, v)"]) (auto dest: map_of_SomeD)

lemma touch_length: "length (lh_touch order k es) \<le> length es"
  using without_shorter [of es k] by (auto simp: lh_touch_def Suc_le_eq split: option.split)

lemma lru_spec_step:
  assumes "length es \<le> n" and "0 < n"
  shows "lh_spec True (\<lambda>m. m > int n) (as_lh_call x) es = lru_spec n x es" and "length (lru_spec n x es) \<le> n"
proof -
  have last_n: "drop (length xs - n) xs = (if int (length xs) > int n then tl xs else xs)" if "length xs \<le> Suc n" for xs :: "('a \<times> 'b) list"
    using that by (cases "length xs = Suc n") (auto simp: drop_Suc)
  have "length (without k es @ [(k, v)]) \<le> Suc n" for k v using without_length [of k es] assms(1) by simp
  from last_n [OF this] show "lh_spec True (\<lambda>m. m > int n) (as_lh_call x) es = lru_spec n x es"
    by (cases x) (auto simp only: as_lh_call.simps lh_spec.simps lru_spec.simps ordered_put_def Let_def lh_touch_def simp_thms if_True)
  show "length (lru_spec n x es) \<le> n"
  proof (cases x)
    case (CGet k)
    then show ?thesis using touch_length [of True k es] assms(1) by (cases "map_of es k") (simp_all add: lh_touch_def)
  next
    case (CRemove k)
    then show ?thesis using without_length [of k es] assms(1) by simp
  qed (simp add: Let_def)
qed

lemma lru_spec_steps:
  "length es \<le> n \<Longrightarrow> 0 < n \<Longrightarrow>
   fold (lh_spec True (\<lambda>m. m > int n)) (map as_lh_call xs) es = fold (lru_spec n) xs es \<and> length (fold (lru_spec n) xs es) \<le> n"
proof (induction xs arbitrary: es)
  case (Cons x xs)
  then show ?case using lru_spec_step [OF Cons.prems, of x] by simp
qed simp

lemma lru_weight: "sum_list (map lh_weight (map as_lh_call xs)) \<le> length xs"
proof (induction xs)
  case (Cons x xs)
  have "lh_weight (as_lh_call x) \<le> 1" by (cases x) simp_all
  with Cons show ?case by simp
qed simp




section \<open>What goes wrong\<close>

text \<open>
  putAll does not evict: a cache with the limit 1 holds three entries after putAll with three, and still three
  after a further put, which evicts one entry for the one it adds.
\<close>

theorem lru_putAll_exceeds_limit:
  "case lru_putAll hash_int 0 [(1, 10), (2, 20), (3, 30)] (snd (lru_new_max 1) :: (u32, nat) lrucache) of (r, c) \<Rightarrow>
     r = Ret () \<and> getMaxCacheSize c = 1 \<and> lh_size (lru_map c) = 3
   \<and> (case lru_put hash_int 0 4 40 c of (r, c) \<Rightarrow> r = Ret False \<and> lh_size (lru_map c) = 3)"
  by code_simp

definition lh_demo :: "bool \<Rightarrow> (u32, nat) linkedmap" where
  "lh_demo order = snd (lh_putAll hash_int 0 [(1, 10), (2, 20), (3, 30)] (snd (lh_new_order 0 (3 / 4) order)))"

text \<open>
  The sets of keys and of entries inherit remove from HashMap, which frees the entry without taking it out of the linked list:
  after keySet().remove of the first key, which reports success, an iteration and the next put read the freed entry.
\<close>

theorem lh_keySet_remove_dangling:
  "case lh_keySet_remove hash_int 1 (lh_demo False) of (r, l) \<Rightarrow>
     r = Ret True \<and> lh_size l = 2
   \<and> fst (lh_entry_next l (lh_iterator l)) = Undefined UseAfterFree
   \<and> fst (lh_put hash_int 0 lh_removeEldestEntry 2 21 l) = Undefined UseAfterFree
   \<and> fst (lh_entrySet_remove hash_int (1, 10) (lh_demo False)) = Ret True
   \<and> (case lh_entrySet_remove hash_int (1, 10) (lh_demo False) of (_, l) \<Rightarrow> lh_containsValue 30 l = Undefined UseAfterFree)"
  by code_simp

text \<open>
  The constructor that copies a HashMap makes the entries with the function of the base class: the map has its
  entries and finds them, but the linked list is empty, so that an iteration visits none of them and no value is found, and removing
  one reads the list pointers beyond the end of the entry.
\<close>

theorem lh_from_not_linked:
  "case lh_from hash_int 0 [(1, 10), (2, 20)] of (r, l :: (u32, nat) linkedmap) \<Rightarrow>
     r = Ret () \<and> lh_size l = 2 \<and> fst (lh_get hash_int 1 l) = Ret 10
   \<and> coll_toArray 3 lh_entrySet l = Some (Ret [], l) \<and> lh_containsValue 10 l = Ret False
   \<and> fst (lh_remove hash_int 1 l) = Undefined OutOfBounds"
proof -
  define l :: "(u32, nat) linkedmap" where "l = snd (lh_from hash_int 0 [(1, 10), (2, 20)])"
  have f: "lh_head l = None" "lh_size l = 2" by (simp_all add: l_def lh_from_def lh_init_def lh_size_def split_beta) code_simp
  then have "coll_toArray 3 lh_entrySet l = Some (Ret [], l)"
    by (simp add: coll_toArray_def with_iterator_def numeral_eq_Suc lh_entrySet_def lh_view_ops_def lh_iterator_def lh_checkHasNext_def)
  moreover have "fst (lh_from hash_int 0 [(1, 10), (2, 20)] :: unit outcome \<times> (u32, nat) linkedmap) = Ret ()" by code_simp
  moreover have "fst (lh_get hash_int 1 l) = Ret 10" "lh_containsValue 10 l = Ret False" "fst (lh_remove hash_int 1 l) = Undefined OutOfBounds"
    unfolding l_def by code_simp+
  ultimately show ?thesis using f(2) by (simp add: l_def split_beta)
qed

text \<open>
  In access order a lookup changes the order of the iteration and does not count as a modification.  An iterator that has
  passed the first entry is not told that get has moved it to the end, and visits it a second time; containsKey moves entries too.
\<close>

theorem lh_get_unnoticed:
  "case lh_entry_next (lh_demo True) (lh_iterator (lh_demo True)) of (r, it) \<Rightarrow>
     r = Ret (1, 10)
   \<and> (case lh_get hash_int 1 (lh_demo True) of (_, l) \<Rightarrow>
        (case lh_entry_next l it of (r, it) \<Rightarrow> r = Ret (2, 20)
      \<and> (case lh_entry_next l it of (r, it) \<Rightarrow> r = Ret (3, 30)
      \<and> (case lh_entry_next l it of (r, it) \<Rightarrow> r = Ret (1, 10) \<and> \<not> lh_checkHasNext l it))))
   \<and> (case lh_containsKey hash_int 1 (lh_demo True) of (_, l) \<Rightarrow> fst (lh_entry_next l (lh_iterator l)) = Ret (2, 20))"
  by code_simp

end
