(* ===== verification/Hash_Set.thy ===== *)
theory Hash_Set
  imports Lru_Cache
begin

text \<open>
  \<^verbatim>\<open>HashSet\<close> (HashSet.h), the keys of a map it has as a member, and \<^verbatim>\<open>LinkedHashSet\<close> (LinkedHashSet.h), which gives it a
  \<^verbatim>\<open>LinkedHashMap\<close> for that map.
\<close>

section \<open>The backing map\<close>

text \<open>
  The set calls its map through the virtual functions of \<^verbatim>\<open>HashMap\<close>.  The value of every key is the address of the set, which
  is not used; \<open>b_put\<close> and \<open>b_remove\<close> leave it out.
\<close>

record ('m, 'i, 'e) backing =
  b_put :: "'e \<Rightarrow> 'm \<Rightarrow> bool outcome \<times> 'm"
  b_remove :: "'e \<Rightarrow> 'm \<Rightarrow> unit outcome \<times> 'm"
  b_containsKey :: "'e \<Rightarrow> 'm \<Rightarrow> bool outcome \<times> 'm"
  b_clear :: "'m \<Rightarrow> unit outcome \<times> 'm"
  b_size :: "'m \<Rightarrow> int"
  b_isEmpty :: "'m \<Rightarrow> bool"
  b_keySet :: "('m, 'i, 'e) coll_ops"

definition no_value :: "'v outcome \<times> 'm \<Rightarrow> unit outcome \<times> 'm" where
  "no_value r = map_prod (map_outcome (\<lambda>_. ())) id r"

definition hash_backing :: "('e \<Rightarrow> u32) \<Rightarrow> addr \<Rightarrow> (('e, addr option) hashmap, hmiter, 'e) backing" where
  "hash_backing hash this = \<lparr>b_put = \<lambda>v. hm_put hash None v (Some this), b_remove = \<lambda>v m. no_value (hm_remove hash v m),
     b_containsKey = \<lambda>v m. (hm_containsKey hash v m, m), b_clear = hm_clear, b_size = hm_size, b_isEmpty = hm_isEmpty,
     b_keySet = hm_keySet\<rparr>"

definition linked_backing :: "('e \<Rightarrow> u32) \<Rightarrow> addr \<Rightarrow> (('e, addr option) linkedmap, lhiter, 'e) backing" where
  "linked_backing hash this = \<lparr>b_put = \<lambda>v. lh_put hash None lh_removeEldestEntry v (Some this), b_remove = \<lambda>v l. no_value (lh_remove hash v l),
     b_containsKey = lh_containsKey hash, b_clear = lh_clear, b_size = lh_size, b_isEmpty = lh_isEmpty,
     b_keySet = lh_keySet\<rparr>"

section \<open>Operations\<close>

definition hs_add :: "('m, 'i, 'e) backing \<Rightarrow> 'e \<Rightarrow> 'm \<Rightarrow> bool outcome \<times> 'm" where
  "hs_add B v m = b_put B v m"

definition hs_clear :: "('m, 'i, 'e) backing \<Rightarrow> 'm \<Rightarrow> unit outcome \<times> 'm" where
  "hs_clear B m = b_clear B m"

definition hs_contains :: "('m, 'i, 'e) backing \<Rightarrow> 'e \<Rightarrow> 'm \<Rightarrow> bool outcome \<times> 'm" where
  "hs_contains B v m = b_containsKey B v m"

definition hs_isEmpty :: "('m, 'i, 'e) backing \<Rightarrow> 'm \<Rightarrow> bool" where
  "hs_isEmpty B m = b_isEmpty B m"

definition hs_remove :: "('m, 'i, 'e) backing \<Rightarrow> 'e \<Rightarrow> 'm \<Rightarrow> bool outcome \<times> 'm" where
  "hs_remove B v m =
     (case b_remove B v m of
        (Ret _, m) \<Rightarrow> (Ret True, m)
      | (Throw (ContainerException NoSuchElement _), m) \<Rightarrow> (Ret False, m)
      | (Throw x, m) \<Rightarrow> (Throw x, m)
      | (Undefined f, m) \<Rightarrow> (Undefined f, m))"

definition hs_size :: "('m, 'i, 'e) backing \<Rightarrow> 'm \<Rightarrow> int" where
  "hs_size B m = b_size B m"

text \<open>The iterator is that of the keys.  What the set overrides of \<^verbatim>\<open>AbstractCollection\<close>:\<close>

definition hs_ops :: "('m, 'i, 'e) backing \<Rightarrow> ('m, 'i, 'e) coll_ops" where
  "hs_ops B = (b_keySet B)\<lparr>v_size := hs_size B, v_add := hs_add B, v_clear := hs_clear B\<rparr>"

definition hs_addAll :: "('m, 'i, 'e) backing \<Rightarrow> 'e list \<Rightarrow> 'm \<Rightarrow> bool outcome \<times> 'm" where
  "hs_addAll B collection m = coll_addAll (hs_ops B) collection m"

definition hs_assign :: "('m, 'i, 'e) backing \<Rightarrow> 'e list \<Rightarrow> 'm \<Rightarrow> unit outcome \<times> 'm" where
  "hs_assign B collection m = and_then (hs_clear B m) (\<lambda>_ m. unit_result (hs_addAll B collection m))"

definition hs_removeAll :: "('m, 'i, 'e) backing \<Rightarrow> 'e list \<Rightarrow> 'm \<Rightarrow> (bool outcome \<times> 'm) option" where
  "hs_removeAll B collection m = set_removeAll (Suc (nat (hs_size B m))) (hs_ops B) (hs_remove B) collection m"

definition hs_retainAll :: "('m, 'i, 'e) backing \<Rightarrow> 'e list \<Rightarrow> 'm \<Rightarrow> (bool outcome \<times> 'm) option" where
  "hs_retainAll B collection m = coll_retainAll (Suc (nat (hs_size B m))) (hs_ops B) collection m"

text \<open>The capacity of the map of a copied set, and the copying, with \<open>new\<close> the constructor of the map.\<close>

definition hs_capacity :: "'e list \<Rightarrow> u32" where
  "hs_capacity collection = (if length collection < 6 then 11 else of_nat (length collection) * 2)"

definition hs_from :: "('m, 'i, 'e) backing \<Rightarrow> (u32 \<Rightarrow> unit outcome \<times> 'm) \<Rightarrow> 'e list \<Rightarrow> unit outcome \<times> 'm" where
  "hs_from B new collection = and_then (new (hs_capacity collection)) (\<lambda>_ m. unit_result (add_each (hs_add B) False collection m))"

definition hs_new :: "unit outcome \<times> ('e, addr option) hashmap" where
  "hs_new = hm_new"

definition hs_new_capacity :: "u32 \<Rightarrow> unit outcome \<times> ('e, addr option) hashmap" where
  "hs_new_capacity capacity = hm_new_capacity capacity"

definition hs_new_loadFactor :: "u32 \<Rightarrow> rat \<Rightarrow> unit outcome \<times> ('e, addr option) hashmap" where
  "hs_new_loadFactor capacity lf = hm_new_loadFactor capacity lf"

definition hash_set_from :: "('e \<Rightarrow> u32) \<Rightarrow> addr \<Rightarrow> 'e list \<Rightarrow> unit outcome \<times> ('e, addr option) hashmap" where
  "hash_set_from hash this collection = hs_from (hash_backing hash this) hm_new_capacity collection"

definition ls_new :: "unit outcome \<times> ('e, addr option) linkedmap" where
  "ls_new = lh_new"

definition ls_new_capacity :: "u32 \<Rightarrow> unit outcome \<times> ('e, addr option) linkedmap" where
  "ls_new_capacity capacity = lh_new_capacity capacity"

definition ls_new_loadFactor :: "u32 \<Rightarrow> rat \<Rightarrow> unit outcome \<times> ('e, addr option) linkedmap" where
  "ls_new_loadFactor capacity lf = lh_new_loadFactor capacity lf"

definition linked_set_from :: "('e \<Rightarrow> u32) \<Rightarrow> addr \<Rightarrow> 'e list \<Rightarrow> unit outcome \<times> ('e, addr option) linkedmap" where
  "linked_set_from hash this collection = hs_from (linked_backing hash this) lh_new_capacity collection"


section \<open>What the set relies on\<close>

text \<open>
  The contract of the backing map.  \<open>invar w m\<close> bounds what was put into the map by \<open>w\<close>, as long as this is at most \<open>2 ^ 24\<close>; \<open>keys m\<close> are its keys in the
  order of the iterator.
\<close>

locale backing_map =
  fixes B :: "('m, 'i, 'e) backing"
    and invar :: "nat \<Rightarrow> 'm \<Rightarrow> bool"
    and keys :: "'m \<Rightarrow> 'e list"
    and view :: "nat \<Rightarrow> 'm \<Rightarrow> 'i \<Rightarrow> 'e list \<Rightarrow> 'e list \<Rightarrow> bool \<Rightarrow> bool"
  assumes keySet_law: "iterable (b_keySet B) (invar w) keys (view w)"
    and distinct_law: "invar w m \<Longrightarrow> distinct (keys m)"
    and mono_law: "invar w m \<Longrightarrow> w \<le> w' \<Longrightarrow> invar w' m"
    and b_size_law: "invar w m \<Longrightarrow> b_size B m = int (length (keys m))"
    and put_law: "invar w m \<Longrightarrow> w \<le> 2 ^ 24 \<Longrightarrow>
      \<exists>m'. b_put B v m = (Ret (v \<in> set (keys m)), m') \<and> invar (Suc w) m' \<and> set (keys m') = insert v (set (keys m))"
    and remove_law: "invar w m \<Longrightarrow>
      (if v \<in> set (keys m) then \<exists>m'. b_remove B v m = (Ret (), m') \<and> invar w m' \<and> keys m' = filter (\<lambda>u. u \<noteq> v) (keys m)
       else \<exists>msg. b_remove B v m = (Throw (NoSuchElementException msg), m))"
    and contains_law: "invar w m \<Longrightarrow> \<exists>m'. b_containsKey B v m = (Ret (v \<in> set (keys m)), m') \<and> invar w m' \<and> keys m' = keys m"
    and clear_law: "invar w m \<Longrightarrow> \<exists>m'. b_clear B m = (Ret (), m') \<and> invar w m' \<and> keys m' = []"
begin

lemma hs_remove_effect:
  assumes "invar w m"
  shows "\<exists>m'. hs_remove B v m = (Ret (v \<in> set (keys m)), m') \<and> invar w m' \<and> keys m' = filter (\<lambda>u. u \<noteq> v) (keys m)"
proof (cases "v \<in> set (keys m)")
  case True
  then show ?thesis using remove_law [OF assms, of v] by (auto simp: hs_remove_def)
next
  case False
  then have "filter (\<lambda>u. u \<noteq> v) (keys m) = keys m" by (auto simp: filter_id_conv)
  with False show ?thesis using remove_law [OF assms, of v] assms by (auto simp: hs_remove_def)
qed

lemma hs_value_set: "value_set (hs_ops B) (invar w) keys (view w) (hs_remove B)"
proof (intro value_set.intro value_set_axioms.intro)
  have "readable (hs_ops B) (invar w) keys (view w)"
    using iterable.axioms(1) [OF keySet_law [of w]] b_size_law by (simp add: readable_def hs_ops_def hs_size_def)
  moreover have "iterable_axioms (hs_ops B) (view w)"
    using iterable.axioms(2) [OF keySet_law [of w]] by (simp add: iterable_axioms_def hs_ops_def)
  ultimately show "iterable (hs_ops B) (invar w) keys (view w)" by (rule iterable.intro)
  show "invar w c \<Longrightarrow> \<exists>c'. hs_remove B v c = (Ret (v \<in> set (keys c)), c') \<and> invar w c' \<and> keys c' = filter (\<lambda>u. u \<noteq> v) (keys c)" for c v
    by (rule hs_remove_effect)
qed

lemma hs_passes: "invar w m \<Longrightarrow> length (keys m) < Suc (nat (hs_size B m))"
  using b_size_law [of w m] by (simp add: hs_size_def)

lemma hs_removeAll_effect:
  assumes "invar w m"
  obtains m' where "hs_removeAll B vs m = Some (Ret (\<exists>u \<in> set (keys m). u \<in> set vs), m')" and "invar w m'"
    and "keys m' = filter (\<lambda>u. u \<notin> set vs) (keys m)"
  using value_set.set_removeAll_effect [OF hs_value_set assms hs_passes [OF assms], of vs] by (auto simp: hs_removeAll_def)

lemma hs_retainAll_effect:
  assumes "invar w m"
  obtains m' b where "hs_retainAll B vs m = Some (Ret b, m')" and "invar w m'" and "keys m' = filter (\<lambda>u. u \<in> set vs) (keys m)"
  using iterable.coll_retainAll_effect [OF value_set.axioms(1) [OF hs_value_set] assms hs_passes [OF assms], of vs]
  by (auto simp: hs_retainAll_def)

lemma add_each_effect:
  "invar w m \<Longrightarrow> w + length vs \<le> 2 ^ 24 \<Longrightarrow>
   \<exists>m' r'. add_each (hs_add B) r vs m = (Ret r', m') \<and> invar (w + length vs) m' \<and> set (keys m') = set (keys m) \<union> set vs"
proof (induction vs arbitrary: w m r)
  case (Cons v vs)
  obtain m1 where m1: "b_put B v m = (Ret (v \<in> set (keys m)), m1)" "invar (Suc w) m1" "set (keys m1) = insert v (set (keys m))"
    using put_law [OF Cons.prems(1), of v] Cons.prems(2) by auto
  have "Suc w + length vs \<le> 2 ^ 24" using Cons.prems(2) by simp
  from Cons.IH [OF m1(2) this, of "v \<in> set (keys m) \<or> r"] show ?case using m1 by (auto simp: hs_add_def)
qed auto

lemma hs_addAll_effect:
  assumes "invar w m" and "w + length vs \<le> 2 ^ 24"
  obtains m' r where "hs_addAll B vs m = (Ret r, m')" and "invar (w + length vs) m'" and "set (keys m') = set (keys m) \<union> set vs"
  using add_each_effect [OF assms, of False] by (auto simp: hs_addAll_def coll_addAll_def hs_ops_def)

lemma hs_assign_effect:
  assumes "invar w m" and "w + length vs \<le> 2 ^ 24"
  obtains m' where "hs_assign B vs m = (Ret (), m')" and "invar (w + length vs) m'" and "set (keys m') = set vs"
proof -
  obtain m1 where m1: "b_clear B m = (Ret (), m1)" "invar w m1" "keys m1 = []" using clear_law [OF assms(1)] by blast
  show thesis
    by (rule hs_addAll_effect [OF m1(2) assms(2)], rule that) (use m1 in \<open>simp_all add: hs_assign_def hs_clear_def unit_result_def\<close>)
qed

end

section \<open>Sequences of calls\<close>

datatype 'e hs_call =
    SAdd 'e
  | SRemove 'e
  | SAddAll "'e list"
  | SAssign "'e list"
  | SClear
  | SRemoveAll "'e list"
  | SRetainAll "'e list"
  | SContains 'e

fun hs_apply :: "('m, 'i, 'e) backing \<Rightarrow> 'e hs_call \<Rightarrow> 'm \<Rightarrow> 'm option" where
  "hs_apply B (SAdd v) m = settled (hs_add B v m)"
| "hs_apply B (SRemove v) m = settled (hs_remove B v m)"
| "hs_apply B (SAddAll vs) m = settled (hs_addAll B vs m)"
| "hs_apply B (SAssign vs) m = settled (hs_assign B vs m)"
| "hs_apply B SClear m = settled (hs_clear B m)"
| "hs_apply B (SRemoveAll vs) m = Option.bind (hs_removeAll B vs m) settled"
| "hs_apply B (SRetainAll vs) m = Option.bind (hs_retainAll B vs m) settled"
| "hs_apply B (SContains v) m = settled (hs_contains B v m)"

fun hs_run :: "('m, 'i, 'e) backing \<Rightarrow> 'e hs_call list \<Rightarrow> 'm \<Rightarrow> 'm option" where
  "hs_run B [] m = Some m"
| "hs_run B (c # cs) m = Option.bind (hs_apply B c m) (hs_run B cs)"

fun hs_spec :: "'e hs_call \<Rightarrow> 'e set \<Rightarrow> 'e set" where
  "hs_spec (SAdd v) S = insert v S"
| "hs_spec (SRemove v) S = S - {v}"
| "hs_spec (SAddAll vs) S = S \<union> set vs"
| "hs_spec (SAssign vs) S = set vs"
| "hs_spec SClear S = {}"
| "hs_spec (SRemoveAll vs) S = S - set vs"
| "hs_spec (SRetainAll vs) S = S \<inter> set vs"
| "hs_spec (SContains v) S = S"

fun hs_weight :: "'e hs_call \<Rightarrow> nat" where
  "hs_weight (SAdd v) = 1"
| "hs_weight (SAddAll vs) = length vs"
| "hs_weight (SAssign vs) = length vs"
| "hs_weight _ = 0"

context backing_map
begin

lemma hs_apply_step:
  assumes "invar w m" and "w + hs_weight c \<le> 2 ^ 24"
  shows "\<exists>m'. hs_apply B c m = Some m' \<and> invar (w + hs_weight c) m' \<and> set (keys m') = hs_spec c (set (keys m))"
proof (cases c)
  case (SAdd v)
  then show ?thesis using put_law [OF assms(1), of v] assms(2) by (auto simp: settled_def hs_add_def)
next
  case (SRemove v)
  then show ?thesis using hs_remove_effect [OF assms(1), of v] by (auto simp: settled_def)
next
  case (SAddAll vs)
  then have "w + length vs \<le> 2 ^ 24" using assms(2) by simp
  then show ?thesis by (rule hs_addAll_effect [OF assms(1)]) (use SAddAll in \<open>simp add: settled_def\<close>)
next
  case (SAssign vs)
  then have "w + length vs \<le> 2 ^ 24" using assms(2) by simp
  then show ?thesis by (rule hs_assign_effect [OF assms(1)]) (use SAssign in \<open>simp add: settled_def\<close>)
next
  case SClear
  then show ?thesis using clear_law [OF assms(1)] by (auto simp: settled_def hs_clear_def)
next
  case (SRemoveAll vs)
  show ?thesis by (rule hs_removeAll_effect [OF assms(1), of vs]) (use SRemoveAll in \<open>auto simp: settled_def\<close>)
next
  case (SRetainAll vs)
  show ?thesis by (rule hs_retainAll_effect [OF assms(1), of vs]) (use SRetainAll in \<open>auto simp: settled_def\<close>)
next
  case (SContains v)
  then show ?thesis using contains_law [OF assms(1), of v] by (auto simp: settled_def hs_contains_def)
qed

lemma hs_run_steps:
  "invar w m \<Longrightarrow> w + sum_list (map hs_weight cs) \<le> 2 ^ 24 \<Longrightarrow>
   \<exists>m'. hs_run B cs m = Some m' \<and> invar (w + sum_list (map hs_weight cs)) m' \<and> set (keys m') = fold hs_spec cs (set (keys m))"
proof (induction cs arbitrary: w m)
  case (Cons c cs)
  have "w + hs_weight c \<le> 2 ^ 24" using Cons.prems(2) by simp
  from hs_apply_step [OF Cons.prems(1) this] obtain m1 where m1: "hs_apply B c m = Some m1" "invar (w + hs_weight c) m1"
    "set (keys m1) = hs_spec c (set (keys m))" by blast
  moreover have "w + hs_weight c + sum_list (map hs_weight cs) \<le> 2 ^ 24" using Cons.prems(2) by simp
  ultimately show ?case using Cons.IH [OF m1(2)] by (auto simp: add.assoc)
qed auto

text \<open>What a client sees of the set.\<close>

lemma hs_observations:
  assumes "invar w m"
  shows "fst (hs_contains B v m) = Ret (v \<in> set (keys m))" and "hs_size B m = int (card (set (keys m)))"
    and "length (keys m) < n \<Longrightarrow> coll_toArray n (hs_ops B) m = Some (Ret (keys m), m)"
  using contains_law [OF assms, of v] b_size_law [OF assms] distinct_law [OF assms] distinct_card [of "keys m"]
    readable.coll_toArray_result [OF iterable.axioms(1) [OF value_set.axioms(1) [OF hs_value_set]] assms, of n]
  by (auto simp: hs_contains_def hs_size_def)

end


text \<open>A map that keeps the order in which keys were put.\<close>

fun hs_order :: "'e hs_call \<Rightarrow> 'e list \<Rightarrow> 'e list" where
  "hs_order (SAdd v) xs = (if v \<in> set xs then xs else xs @ [v])"
| "hs_order (SRemove v) xs = filter (\<lambda>u. u \<noteq> v) xs"
| "hs_order (SAddAll vs) xs = fold (\<lambda>v xs. if v \<in> set xs then xs else xs @ [v]) vs xs"
| "hs_order (SAssign vs) xs = fold (\<lambda>v xs. if v \<in> set xs then xs else xs @ [v]) vs []"
| "hs_order SClear xs = []"
| "hs_order (SRemoveAll vs) xs = filter (\<lambda>u. u \<notin> set vs) xs"
| "hs_order (SRetainAll vs) xs = filter (\<lambda>u. u \<in> set vs) xs"
| "hs_order (SContains v) xs = xs"

locale ordered_backing = backing_map B invar keys view
  for B :: "('m, 'i, 'e) backing"
    and invar :: "nat \<Rightarrow> 'm \<Rightarrow> bool"
    and keys :: "'m \<Rightarrow> 'e list"
    and view :: "nat \<Rightarrow> 'm \<Rightarrow> 'i \<Rightarrow> 'e list \<Rightarrow> 'e list \<Rightarrow> bool \<Rightarrow> bool" +
  assumes order_law: "invar w m \<Longrightarrow> w \<le> 2 ^ 24 \<Longrightarrow> keys (snd (b_put B v m)) = (if v \<in> set (keys m) then keys m else keys m @ [v])"
begin

lemma add_each_order:
  "invar w m \<Longrightarrow> w + length vs \<le> 2 ^ 24 \<Longrightarrow>
   keys (snd (add_each (hs_add B) r vs m)) = fold (\<lambda>v xs. if v \<in> set xs then xs else xs @ [v]) vs (keys m)"
proof (induction vs arbitrary: w m r)
  case (Cons v vs)
  obtain m1 where m1: "b_put B v m = (Ret (v \<in> set (keys m)), m1)" "invar (Suc w) m1"
    using put_law [OF Cons.prems(1), of v] Cons.prems(2) by auto
  have "Suc w + length vs \<le> 2 ^ 24" "w \<le> 2 ^ 24" using Cons.prems(2) by simp_all
  then show ?case using Cons.IH [OF m1(2)] order_law [OF Cons.prems(1), of v] m1(1) by (simp add: hs_add_def)
qed simp

lemma hs_apply_order:
  assumes "invar w m" and "w + hs_weight c \<le> 2 ^ 24" and "hs_apply B c m = Some m'"
  shows "keys m' = hs_order c (keys m)"
proof (cases c)
  case (SAdd v)
  then show ?thesis
    using put_law [OF assms(1), of v] order_law [OF assms(1), of v] assms(2,3) by (auto simp: settled_def hs_add_def)
next
  case (SRemove v)
  then show ?thesis using hs_remove_effect [OF assms(1), of v] assms(3) by (auto simp: settled_def)
next
  case (SAddAll vs)
  then have "w + length vs \<le> 2 ^ 24" using assms(2) by simp
  from add_each_effect [OF assms(1) this, of False] add_each_order [OF assms(1) this, of False] show ?thesis
    using SAddAll assms(3) by (auto simp: settled_def hs_addAll_def coll_addAll_def hs_ops_def)
next
  case (SAssign vs)
  obtain m1 where m1: "b_clear B m = (Ret (), m1)" "invar w m1" "keys m1 = []" using clear_law [OF assms(1)] by blast
  have "w + length vs \<le> 2 ^ 24" using SAssign assms(2) by simp
  from add_each_effect [OF m1(2) this, of False] add_each_order [OF m1(2) this, of False] show ?thesis
    using SAssign assms(3) m1 by (auto simp: settled_def hs_assign_def hs_clear_def hs_addAll_def coll_addAll_def hs_ops_def unit_result_def)
next
  case SClear
  then show ?thesis using clear_law [OF assms(1)] assms(3) by (auto simp: settled_def hs_clear_def)
next
  case (SRemoveAll vs)
  show ?thesis by (rule hs_removeAll_effect [OF assms(1), of vs]) (use SRemoveAll assms(3) in \<open>auto simp: settled_def\<close>)
next
  case (SRetainAll vs)
  show ?thesis by (rule hs_retainAll_effect [OF assms(1), of vs]) (use SRetainAll assms(3) in \<open>auto simp: settled_def\<close>)
next
  case (SContains v)
  then show ?thesis using contains_law [OF assms(1), of v] assms(3) by (auto simp: settled_def hs_contains_def)
qed

lemma hs_run_order:
  "invar w m \<Longrightarrow> w + sum_list (map hs_weight cs) \<le> 2 ^ 24 \<Longrightarrow> hs_run B cs m = Some m' \<Longrightarrow> keys m' = fold hs_order cs (keys m)"
proof (induction cs arbitrary: w m)
  case (Cons c cs)
  have w: "w + hs_weight c \<le> 2 ^ 24" using Cons.prems(2) by simp
  from hs_apply_step [OF Cons.prems(1) this] obtain m1 where m1: "hs_apply B c m = Some m1" "invar (w + hs_weight c) m1" by blast
  moreover have "w + hs_weight c + sum_list (map hs_weight cs) \<le> 2 ^ 24" using Cons.prems(2) by simp
  ultimately show ?case using Cons.IH [OF m1(2)] hs_apply_order [OF Cons.prems(1) w m1(1)] Cons.prems(3) by simp
qed simp

end

section \<open>The two maps\<close>

lemma key_set: "set (map fst xs) = dom (map_of xs)"
  by (simp add: dom_map_of_conv_image_fst)

lemma hash_keys_iterable:
  "iterable hm_keySet (\<lambda>m. hm_ok hash m \<and> hm_small w m) (\<lambda>m. map fst (hm_entries m)) (\<lambda>m it xs ys b. hm_view hash fst m it xs ys b \<and> hm_small w m)"
  unfolding hm_views by (rule hm_iterable_with) (rule removed_small)

interpretation hash_set: backing_map "hash_backing hash this" "\<lambda>w m. hm_ok hash m \<and> hm_small w m" "\<lambda>m. map fst (hm_entries m)"
    "\<lambda>w m it xs ys b. hm_view hash fst m it xs ys b \<and> hm_small w m"
  for hash :: "'e \<Rightarrow> u32" and this
proof (rule backing_map.intro)
  fix w w' :: nat and m :: "('e, addr option) hashmap" and v
  let ?B = "hash_backing hash this" and ?I = "\<lambda>w m. hm_ok hash m \<and> hm_small w m" and ?k = "\<lambda>m. map fst (hm_entries m)"
  show "iterable (b_keySet ?B) (?I w) ?k (\<lambda>m it xs ys b. hm_view hash fst m it xs ys b \<and> hm_small w m)"
    using hash_keys_iterable by (simp add: hash_backing_def)
  assume I: "?I w m"
  then have ok: "hm_ok hash m" and small: "hm_small w m" by simp_all
  have key: "v \<in> set (?k m) \<longleftrightarrow> map_of (hm_entries m) v \<noteq> None" unfolding key_set by auto
  show "distinct (?k m)" using ok by (rule hm_entries_distinct)
  show "?I w' m" if "w \<le> w'" using ok hm_small_mono [OF small that] by simp
  show "b_size ?B m = int (length (?k m))" using hm_size_entries [OF ok] by (simp add: hash_backing_def)
  show "\<exists>m'. b_put ?B v m = (Ret (v \<in> set (?k m)), m') \<and> ?I (Suc w) m' \<and> set (?k m') = insert v (set (?k m))" if "w \<le> 2 ^ 24"
    by (rule hm_put_small [OF ok small that, of None v "Some this"])
      (simp add: hash_backing_def hm_put_def key_set domIff del: set_map)
  show "if v \<in> set (?k m) then \<exists>m'. b_remove ?B v m = (Ret (), m') \<and> ?I w m' \<and> ?k m' = filter (\<lambda>u. u \<noteq> v) (?k m)
      else \<exists>msg. b_remove ?B v m = (Throw (NoSuchElementException msg), m)"
  proof (cases "map_of (hm_entries m) v")
    case None
    then show ?thesis using key hm_remove_effect(1) [OF ok None] by (auto simp: hash_backing_def no_value_def)
  next
    case (Some x)
    then obtain m' a e where m': "hm_remove hash v m = (Ret x, m')" "hm_heap m a = Some e" "hn_key e = v" "removed hash a m m'"
      using hm_remove_effect(2) [OF ok Some] by blast
    then have "?k m' = filter (\<lambda>u. u \<noteq> v) (?k m)" using removed_entries [OF ok m'(2,4)] by (simp add: filter_map comp_def)
    moreover have "hm_ok hash m'" "hm_small w m'" using m'(4) removed_small [OF small m'(4)] by (simp_all add: removed_def)
    ultimately show ?thesis using Some key m'(1) by (auto simp: hash_backing_def no_value_def)
  qed
  show "\<exists>m'. b_containsKey ?B v m = (Ret (v \<in> set (?k m)), m') \<and> ?I w m' \<and> ?k m' = ?k m"
    using hm_containsKey_effect [OF ok, of v] I by (simp add: hash_backing_def key del: set_map not_None_eq)
  show "\<exists>m'. b_clear ?B m = (Ret (), m') \<and> ?I w m' \<and> ?k m' = []"
    by (rule hm_clear_effect [OF ok]) (use small in \<open>simp add: hash_backing_def hm_small_def hm_count\<close>)
qed


lemma linked_keys_iterable:
  "iterable lh_keySet (\<lambda>l. lh_ok hash l \<and> hm_small w (lh_base l) \<and> \<not> accessOrder l) (\<lambda>l. map fst (lh_entries l))
     (\<lambda>l it xs ys b. lh_view hash fst l it xs ys b \<and> hm_small w (lh_base l) \<and> \<not> accessOrder l)"
  unfolding lh_views by (rule lh_iterable_with) (use removed_small in \<open>blast\<close>)

lemma ordered_put_keys:
  "map fst (ordered_put False v x es) = (if v \<in> set (map fst es) then map fst es else map fst es @ [v])"
proof (cases "map_of es v")
  case None
  then show ?thesis using without_absent [OF None] by (auto simp: ordered_put_def key_set simp del: set_map)
next
  case (Some y)
  then have "v \<in> set (map fst es)" unfolding key_set by auto
  with Some show ?thesis by (auto simp: ordered_put_def)
qed

lemma touch_insertion: "lh_touch False k es = es"
  by (simp add: lh_touch_def split: option.split)

lemma never_evicts: "(lh_removeEldestEntry :: 'k \<times> 'v \<Rightarrow> ('k, 'v) linkedmap \<Rightarrow> bool) = (\<lambda>x l. (\<lambda>_. False) (lh_size l))"
  by (simp add: fun_eq_iff lh_removeEldestEntry_def)

lemma linked_set_put:
  assumes "lh_ok hash l" and "hm_small w (lh_base l)" and "\<not> accessOrder l" and "w \<le> 2 ^ 24"
  shows "\<exists>l'. b_put (linked_backing hash this) v l = (Ret (v \<in> set (map fst (lh_entries l))), l') \<and> lh_ok hash l' \<and> hm_small (Suc w) (lh_base l')
     \<and> \<not> accessOrder l' \<and> map fst (lh_entries l') = (if v \<in> set (map fst (lh_entries l)) then map fst (lh_entries l) else map fst (lh_entries l) @ [v])"
proof (rule lh_put_effect [OF assms(1,2,4) never_evicts, of None v "Some this"])
  fix l'
  assume l': "lh_put hash None lh_removeEldestEntry v (Some this) l = (Ret (map_of (lh_entries l) v \<noteq> None), l')" "lh_ok hash l'"
    "accessOrder l' = accessOrder l" "lh_entries l' = lh_spec (accessOrder l) (\<lambda>_. False) (LPut v (Some this)) (lh_entries l)"
    "hm_small (Suc w) (lh_base l')"
  have key: "v \<in> set (map fst (lh_entries l)) \<longleftrightarrow> map_of (lh_entries l) v \<noteq> None" unfolding key_set by auto
  have "map fst (lh_entries l') = (if v \<in> set (map fst (lh_entries l)) then map fst (lh_entries l) else map fst (lh_entries l) @ [v])"
    using l'(4) assms(3) ordered_put_keys [of v "Some this" "lh_entries l"] by (simp only: lh_spec.simps Let_def if_False)
  then show ?thesis using l' assms(3) unfolding key by (intro exI [of _ l']) (simp add: linked_backing_def del: not_None_eq)
qed

interpretation linked_set: ordered_backing "linked_backing hash this" "\<lambda>w l. lh_ok hash l \<and> hm_small w (lh_base l) \<and> \<not> accessOrder l"
    "\<lambda>l. map fst (lh_entries l)" "\<lambda>w l it xs ys b. lh_view hash fst l it xs ys b \<and> hm_small w (lh_base l) \<and> \<not> accessOrder l"
  for hash :: "'e \<Rightarrow> u32" and this
proof (intro ordered_backing.intro backing_map.intro ordered_backing_axioms.intro)
  fix w w' :: nat and l :: "('e, addr option) linkedmap" and v
  let ?B = "linked_backing hash this" and ?I = "\<lambda>w l. lh_ok hash l \<and> hm_small w (lh_base l) \<and> \<not> accessOrder l" and ?k = "\<lambda>l. map fst (lh_entries l)"
  show "iterable (b_keySet ?B) (?I w) ?k (\<lambda>l it xs ys b. lh_view hash fst l it xs ys b \<and> hm_small w (lh_base l) \<and> \<not> accessOrder l)"
    using linked_keys_iterable by (simp add: linked_backing_def)
  assume I: "?I w l"
  then have ok: "lh_ok hash l" and small: "hm_small w (lh_base l)" and order: "\<not> accessOrder l" by simp_all
  have key: "v \<in> set (?k l) \<longleftrightarrow> map_of (lh_entries l) v \<noteq> None" unfolding key_set by auto
  show "distinct (?k l)" using lh_entries_facts(1) [OF ok_rep [OF ok]] .
  show "?I w' l" if "w \<le> w'" using I hm_small_mono [OF small that] by simp
  show "b_size ?B l = int (length (?k l))" using lh_entries_facts(3) [OF ok_rep [OF ok]] by (simp add: linked_backing_def)
  show "\<exists>l'. b_put ?B v l = (Ret (v \<in> set (?k l)), l') \<and> ?I (Suc w) l' \<and> set (?k l') = insert v (set (?k l))" if w: "w \<le> 2 ^ 24"
  proof -
    obtain l' where l': "b_put ?B v l = (Ret (v \<in> set (?k l)), l')" "?I (Suc w) l'" "?k l' = (if v \<in> set (?k l) then ?k l else ?k l @ [v])"
      using linked_set_put [OF ok small order w, of this v] by blast
    have "set (?k l') = insert v (set (?k l))" unfolding l'(3) by auto
    then show ?thesis using l'(1,2) by blast
  qed
  show "?k (snd (b_put ?B v l)) = (if v \<in> set (?k l) then ?k l else ?k l @ [v])" if w: "w \<le> 2 ^ 24"
    using linked_set_put [OF ok small order w, of this v] by (metis snd_conv)
  show "if v \<in> set (?k l) then \<exists>l'. b_remove ?B v l = (Ret (), l') \<and> ?I w l' \<and> ?k l' = filter (\<lambda>u. u \<noteq> v) (?k l)
      else \<exists>msg. b_remove ?B v l = (Throw (NoSuchElementException msg), l)"
  proof (cases "map_of (lh_entries l) v")
    case None
    then show ?thesis using key lh_remove_absent [OF ok None] by (auto simp: linked_backing_def no_value_def)
  next
    case (Some x)
    show ?thesis
      by (rule lh_remove_present [OF ok Some])
        (use Some key removed_small [OF small] order in \<open>auto simp: linked_backing_def no_value_def without_def filter_map comp_def\<close>)
  qed
  show "\<exists>l'. b_containsKey ?B v l = (Ret (v \<in> set (?k l)), l') \<and> ?I w l' \<and> ?k l' = ?k l"
    by (rule lh_containsKey_effect [OF ok, of v])
      (use I order in \<open>simp add: linked_backing_def key touch_insertion relinked_def del: set_map not_None_eq\<close>)
  show "\<exists>l'. b_clear ?B l = (Ret (), l') \<and> ?I w l' \<and> ?k l' = []"
    by (rule lh_clear_effect [OF ok, of w]) (use small order in \<open>simp add: linked_backing_def\<close>)
qed


section \<open>Properties\<close>



text \<open>
  A LinkedHashSet iterates over its elements in the order in which they were first added, whatever calls were made
  (among them removals, and adding elements again, which do not change the order of the others).
\<close>

theorem ls_insertion_order:
  fixes hash :: "'e \<Rightarrow> u32"
  assumes "sum_list (map hs_weight calls) \<le> 2 ^ 24" and "length (fold hs_order calls []) < n"
  shows "fst (ls_new :: unit outcome \<times> ('e, addr option) linkedmap) = Ret () \<and>
     (\<exists>l. hs_run (linked_backing hash this) calls (snd ls_new) = Some l
        \<and> coll_toArray n (hs_ops (linked_backing hash this)) l = Some (Ret (fold hs_order calls []), l)
        \<and> fst (hs_contains (linked_backing hash this) v l) = Ret (v \<in> set (fold hs_order calls []))
        \<and> distinct (fold hs_order calls []))"
proof -
  let ?B = "linked_backing hash this"
  obtain l0 :: "('e, addr option) linkedmap" where l0: "lh_new = (Ret (), l0)" "lh_ok hash l0" "lh_entries l0 = []" "accessOrder l0 = False"
    "hm_small 0 (lh_base l0)"
    by (rule lh_new_effect)
  have new: "fst (ls_new :: unit outcome \<times> ('e, addr option) linkedmap) = Ret ()" "snd ls_new = l0" unfolding ls_new_def l0(1) by simp_all
  have I0: "lh_ok hash l0 \<and> hm_small 0 (lh_base l0) \<and> \<not> accessOrder l0" and w: "0 + sum_list (map hs_weight calls) \<le> 2 ^ 24" using l0 assms by simp_all
  from linked_set.hs_run_steps [OF I0 w, of this] obtain l where l: "hs_run ?B calls l0 = Some l"
    "lh_ok hash l \<and> hm_small (0 + sum_list (map hs_weight calls)) (lh_base l) \<and> \<not> accessOrder l" by blast
  have keys: "map fst (lh_entries l) = fold hs_order calls []" using linked_set.hs_run_order [OF I0 w l(1)] l0(3) by simp
  note O = linked_set.hs_observations [OF l(2), where this = this] and D = linked_set.distinct_law [OF l(2)]
  show ?thesis unfolding new(2) by (intro conjI exI [of _ l]) (use new l(1) O(1) [of v] O(3) [of n] D assms(2) in \<open>simp_all only: keys\<close>)
qed

theorem ls_insertion_order_witness:
  "\<exists>l. hs_run (linked_backing hash_int 7) [SAdd 3, SAdd 1, SAdd 2, SAdd 3, SRemove 1, SAdd 1] (snd ls_new) = Some l
     \<and> coll_toArray 4 (hs_ops (linked_backing hash_int 7)) l = Some (Ret [3, 2, 1], l)"
proof -
  let ?calls = "[SAdd 3, SAdd 1, SAdd 2, SAdd 3, SRemove 1, SAdd 1] :: u32 hs_call list"
  have f: "fold hs_order ?calls [] = [3, 2, 1]" by simp
  have "sum_list (map hs_weight ?calls) \<le> 2 ^ 24" "length (fold hs_order ?calls []) < 4" by (simp, simp only: f) simp
  from ls_insertion_order [OF this, of hash_int 7] show ?thesis unfolding f by blast
qed

text \<open>
  add of a HashSet returns true exactly when the set contained the element before, the opposite of what its documentation says,
  because it passes on the result of put, which tells whether a value was replaced.
\<close>

theorem hs_add_result:
  assumes "hm_ok hash m" and "hm_small w m" and "w \<le> 2 ^ 24"
  shows "fst (hs_add (hash_backing hash this) v m) = fst (hs_contains (hash_backing hash this) v m)"
  using hash_set.put_law [OF conjI [OF assms(1,2)] assms(3), of this v] hash_set.contains_law [OF conjI [OF assms(1,2)], of this v]
  by (auto simp: hs_add_def hs_contains_def)

theorem hs_add_result_witness:
  "fst (hs_add (hash_backing hash_int 7) 1 (snd hs_new)) = Ret False"
proof -
  obtain m0 :: "(u32, addr option) hashmap" where m0: "hm_new = (Ret (), m0)" "hm_ok hash_int m0" "hm_entries m0 = []" "hm_small 0 m0"
    by (rule hm_new_effect)
  have new: "snd hs_new = m0" unfolding hs_new_def m0(1) by simp
  have "fst (hs_add (hash_backing hash_int 7) 1 m0) = fst (hs_contains (hash_backing hash_int 7) 1 m0)"
    by (rule hs_add_result [OF m0(2,4)]) simp
  also have "\<dots> = Ret False" using hash_set.contains_law [OF conjI [OF m0(2,4)], of 7 1] m0(3) by (auto simp: hs_contains_def)
  finally show ?thesis unfolding new .
qed

end
