(* ===== verification/Copy_On_Write.thy ===== *)
theory Copy_On_Write
  imports Array_List "HOL-Library.Sublist"
begin

text \<open>
  \<^verbatim>\<open>decaf::util::concurrent::CopyOnWriteArrayList\<close> (CopyOnWriteArrayList.h) and \<^verbatim>\<open>CopyOnWriteArraySet\<close>
  (CopyOnWriteArraySet.h).  A writer holds the write lock, copies the array, changes the copy and makes it the array of the
  list; a reader takes the array under the read lock and then works on it without any lock.

  The arrays are objects on a heap that the list and its iterators share; an array is identified by its position in
  \<open>cw_heap\<close>.  \<^verbatim>\<open>Pointer<Array>\<close> counts references, so that an array lives as long as anybody can use it, and the
  model never takes one away.  The write lock is reentrant (ReentrantReadWriteLock.h): the model keeps how often its owner has
  locked it.  A call of a reader takes the read lock and returns it before it does anything else.  \<open>d\<close> is \<^verbatim>\<open>E()\<close>,
  the value that new elements have.
\<close>

section \<open>Array\<close>

text \<open>The NULL pointer in \<^verbatim>\<open>elements\<close> is the empty list, as \<^verbatim>\<open>reserve\<close> only allocates arrays that are not empty.\<close>

record 'a carr =
  ca_size :: int
  ca_capacity :: int
  ca_elements :: "'a list"

definition array_null :: "'a carr" where
  "array_null = \<lparr>ca_size = 0, ca_capacity = 0, ca_elements = []\<rparr>"

text \<open>\<^verbatim>\<open>System::arraycopy\<close> with the check for a NULL source.\<close>

definition arraycopy :: "nat \<Rightarrow> nat \<Rightarrow> nat \<Rightarrow> 'a list \<Rightarrow> 'a list \<Rightarrow> 'a list outcome" where
  "arraycopy n srcPos destPos src dest =
     (if src = [] then Throw (NullPointerException ''Given Source Pointer was null.'')
      else copy_between n srcPos destPos src dest)"

text \<open>\<^verbatim>\<open>(int)(capacity*1.5)\<close> is rounded towards zero, and a capacity is never negative.\<close>

definition reserve :: "'a \<Rightarrow> int \<Rightarrow> 'a carr \<Rightarrow> 'a carr outcome" where
  "reserve d requested a =
     (if ca_capacity a < requested then
        (let newlen = max (ca_capacity a * 3 div 2) requested;
             newbuf = new_array d newlen
         in case (if ca_elements a \<noteq> [] then arraycopy (nat (ca_size a)) 0 0 (ca_elements a) newbuf else Ret newbuf) of
              Ret e \<Rightarrow> Ret (a\<lparr>ca_elements := e, ca_capacity := newlen\<rparr>)
            | Throw x \<Rightarrow> Throw x
            | Undefined f \<Rightarrow> Undefined f)
      else Ret a)"

definition array_sized :: "'a \<Rightarrow> int \<Rightarrow> 'a carr outcome" where
  "array_sized d capacity = reserve d capacity array_null"

definition array_copied :: "'a \<Rightarrow> 'a carr \<Rightarrow> int \<Rightarrow> 'a carr outcome" where
  "array_copied d src capacity =
     (case reserve d (max (ca_size src) capacity) array_null of
        Ret a \<Rightarrow>
          (case (if ca_size src > 0 then arraycopy (nat (ca_size src)) 0 0 (ca_elements src) (ca_elements a)
                 else Ret (ca_elements a)) of
             Ret e \<Rightarrow> Ret (a\<lparr>ca_elements := e, ca_size := ca_size src\<rparr>)
           | Throw x \<Rightarrow> Throw x
           | Undefined f \<Rightarrow> Undefined f)
      | Throw x \<Rightarrow> Throw x
      | Undefined f \<Rightarrow> Undefined f)"

text \<open>\<^verbatim>\<open>elements[i]\<close>.\<close>

definition element :: "'a carr \<Rightarrow> int \<Rightarrow> 'a outcome" where
  "element a i =
     (if 0 \<le> i \<and> nat i < length (ca_elements a) then Ret (ca_elements a ! nat i) else Undefined OutOfBounds)"

section \<open>State\<close>

record 'a cow =
  cw_heap :: "'a carr list"
  cw_array :: addr
  cw_hold :: nat

definition snapshot :: "'a cow \<Rightarrow> 'a carr" where
  "snapshot l = cw_heap l ! cw_array l"

definition length_of :: "addr \<Rightarrow> 'a cow \<Rightarrow> int" where
  "length_of p l = ca_size (cw_heap l ! p)"

text \<open>\<^verbatim>\<open>new Array(...)\<close>, \<^verbatim>\<open>p->elements[i] = v\<close>, \<^verbatim>\<open>p->size = n\<close>, \<^verbatim>\<open>this->array.swap(p)\<close> and the copy from one array to another.\<close>

definition allocate :: "'a carr outcome \<Rightarrow> 'a cow \<Rightarrow> addr outcome \<times> 'a cow" where
  "allocate r l =
     (case r of
        Ret a \<Rightarrow> (Ret (length (cw_heap l)), l\<lparr>cw_heap := cw_heap l @ [a]\<rparr>)
      | Throw x \<Rightarrow> (Throw x, l)
      | Undefined f \<Rightarrow> (Undefined f, l))"

definition load :: "addr \<Rightarrow> int \<Rightarrow> 'a cow \<Rightarrow> 'a outcome \<times> 'a cow" where
  "load p i l = (element (cw_heap l ! p) i, l)"

definition store :: "addr \<Rightarrow> int \<Rightarrow> 'a \<Rightarrow> 'a cow \<Rightarrow> unit outcome \<times> 'a cow" where
  "store p i v l =
     (let a = cw_heap l ! p in
      if 0 \<le> i \<and> nat i < length (ca_elements a)
      then (Ret (), l\<lparr>cw_heap := (cw_heap l)[p := a\<lparr>ca_elements := (ca_elements a)[nat i := v]\<rparr>]\<rparr>)
      else (Undefined OutOfBounds, l))"

definition resize :: "addr \<Rightarrow> int \<Rightarrow> 'a cow \<Rightarrow> 'a cow" where
  "resize p n l = l\<lparr>cw_heap := (cw_heap l)[p := (cw_heap l ! p)\<lparr>ca_size := n\<rparr>]\<rparr>"

definition transfer_part :: "addr \<Rightarrow> int \<Rightarrow> addr \<Rightarrow> int \<Rightarrow> int \<Rightarrow> 'a cow \<Rightarrow> unit outcome \<times> 'a cow" where
  "transfer_part q srcPos p destPos n l =
     (case arraycopy (nat n) (nat srcPos) (nat destPos) (ca_elements (cw_heap l ! q)) (ca_elements (cw_heap l ! p)) of
        Ret e \<Rightarrow> (Ret (), l\<lparr>cw_heap := (cw_heap l)[p := (cw_heap l ! p)\<lparr>ca_elements := e\<rparr>]\<rparr>)
      | Throw x \<Rightarrow> (Throw x, l)
      | Undefined f \<Rightarrow> (Undefined f, l))"

definition swap_in :: "addr \<Rightarrow> 'a cow \<Rightarrow> 'a cow" where
  "swap_in p l = l\<lparr>cw_array := p\<rparr>"

text \<open>
  \<^verbatim>\<open>writeLock().lock(); try { ... unlock(); return r; } catch (Exception&) { unlock(); throw; }\<close>: every way out of the
  block gives the lock back once.
\<close>

definition write_locked :: "('a cow \<Rightarrow> 'b outcome \<times> 'a cow) \<Rightarrow> 'a cow \<Rightarrow> 'b outcome \<times> 'a cow" where
  "write_locked body l =
     (case body (l\<lparr>cw_hold := cw_hold l + 1\<rparr>) of (r, l') \<Rightarrow> (r, l'\<lparr>cw_hold := cw_hold l' - 1\<rparr>))"

text \<open>
  What a collection passed as an argument answers: whether it is the list itself, \<^verbatim>\<open>isEmpty()\<close>, \<^verbatim>\<open>size()\<close>, the elements its
  iterator returns, and \<^verbatim>\<open>contains\<close>.  These are separate calls, so that they need not fit together when another thread
  changes the collection.
\<close>

record 'a argument =
  arg_same :: bool
  arg_isEmpty :: bool
  arg_size :: int
  arg_elements :: "'a list"
  arg_contains :: "'a \<Rightarrow> bool"

text \<open>An argument that nobody else changes.\<close>

definition quiet :: "'a list \<Rightarrow> 'a argument" where
  "quiet vs = \<lparr>arg_same = False, arg_isEmpty = (vs = []), arg_size = int (length vs), arg_elements = vs,
     arg_contains = (\<lambda>v. v \<in> set vs)\<rparr>"

section \<open>ArrayListIterator\<close>

record citer =
  ci_array :: addr
  ci_position :: int

definition ci_new :: "addr \<Rightarrow> int \<Rightarrow> 'a cow \<Rightarrow> citer outcome" where
  "ci_new p index l =
     (if index < 0 \<or> index > length_of p l then Throw (IndexOutOfBoundsException ''Iterator created with invalid index.'')
      else Ret \<lparr>ci_array = p, ci_position = index\<rparr>)"

definition ci_hasNext :: "'a cow \<Rightarrow> citer \<Rightarrow> bool" where
  "ci_hasNext l it \<longleftrightarrow> ci_position it < length_of (ci_array it) l"

definition ci_next :: "'a cow \<Rightarrow> citer \<Rightarrow> 'a outcome \<times> citer" where
  "ci_next l it =
     (if ci_position it \<ge> length_of (ci_array it) l then (Throw (NoSuchElementException ''''), it)
      else (element (cw_heap l ! ci_array it) (ci_position it), it\<lparr>ci_position := ci_position it + 1\<rparr>))"

definition ci_remove :: "'a cow \<Rightarrow> citer \<Rightarrow> unit outcome \<times> 'a cow \<times> citer" where
  "ci_remove l it = (Throw (UnsupportedOperationException ''CopyOnWriteArrayList Iterator cannot remove elements.''), l, it)"

definition ci_add :: "'a \<Rightarrow> 'a cow \<Rightarrow> citer \<Rightarrow> unit outcome \<times> 'a cow \<times> citer" where
  "ci_add e l it = (Throw (UnsupportedOperationException ''CopyOnWriteArrayList Iterator cannot add elements.''), l, it)"

definition ci_set :: "'a \<Rightarrow> 'a cow \<Rightarrow> citer \<Rightarrow> unit outcome \<times> 'a cow \<times> citer" where
  "ci_set e l it = (Throw (UnsupportedOperationException ''CopyOnWriteArrayList Iterator cannot add elements.''), l, it)"

definition ci_hasPrevious :: "citer \<Rightarrow> bool" where
  "ci_hasPrevious it \<longleftrightarrow> ci_position it > 0"

definition ci_previous :: "'a cow \<Rightarrow> citer \<Rightarrow> 'a outcome \<times> citer" where
  "ci_previous l it =
     (if ci_position it \<le> 0 then (Throw (NoSuchElementException ''''), it)
      else (element (cw_heap l ! ci_array it) (ci_position it), it\<lparr>ci_position := ci_position it - 1\<rparr>))"

definition ci_nextIndex :: "citer \<Rightarrow> int" where
  "ci_nextIndex it = ci_position it"

definition ci_previousIndex :: "citer \<Rightarrow> int" where
  "ci_previousIndex it = ci_position it - 1"

section \<open>Readers\<close>

function scan_up :: "'a \<Rightarrow> int \<Rightarrow> 'a carr \<Rightarrow> int outcome" where
  "scan_up v i a =
     (if i < ca_size a then
        (case element a i of
           Ret x \<Rightarrow> if x = v then Ret i else scan_up v (i + 1) a
         | Throw e \<Rightarrow> Throw e
         | Undefined f \<Rightarrow> Undefined f)
      else Ret (- 1))"
  by pat_completeness auto

termination scan_up
  by (relation "measure (\<lambda>(v, i, a). nat (ca_size a - i))") auto

function scan_down :: "'a \<Rightarrow> int \<Rightarrow> 'a carr \<Rightarrow> int outcome" where
  "scan_down v i a =
     (if i \<ge> 0 then
        (case element a i of
           Ret x \<Rightarrow> if x = v then Ret i else scan_down v (i - 1) a
         | Throw e \<Rightarrow> Throw e
         | Undefined f \<Rightarrow> Undefined f)
      else Ret (- 1))"
  by pat_completeness auto

termination scan_down
  by (relation "measure (\<lambda>(v, i, a). nat (i + 1))") auto

declare scan_up.simps [simp del] scan_down.simps [simp del]

definition cow_indexOf :: "'a \<Rightarrow> 'a cow \<Rightarrow> int outcome" where
  "cow_indexOf v l = scan_up v 0 (snapshot l)"

definition cow_lastIndexOf :: "'a \<Rightarrow> 'a cow \<Rightarrow> int outcome" where
  "cow_lastIndexOf v l = scan_down v (ca_size (snapshot l) - 1) (snapshot l)"

text \<open>The numbers that replace \<^verbatim>\<open>%d\<close> in the messages are left out.\<close>

definition cow_indexOf_from :: "'a \<Rightarrow> int \<Rightarrow> 'a cow \<Rightarrow> int outcome" where
  "cow_indexOf_from v index l =
     (if index < 0 then Throw (IndexOutOfBoundsException ''Index given %d, actual size %d'')
      else scan_up v index (snapshot l))"

definition cow_lastIndexOf_from :: "'a \<Rightarrow> int \<Rightarrow> 'a cow \<Rightarrow> int outcome" where
  "cow_lastIndexOf_from v index l =
     (if index \<ge> ca_size (snapshot l) then Throw (IndexOutOfBoundsException ''Index given %d, actual size %d'')
      else scan_down v (index - 1) (snapshot l))"

definition cow_contains :: "'a \<Rightarrow> 'a cow \<Rightarrow> bool outcome" where
  "cow_contains v l =
     (case scan_up v 0 (snapshot l) of
        Ret i \<Rightarrow> Ret (i \<noteq> - 1)
      | Throw e \<Rightarrow> Throw e
      | Undefined f \<Rightarrow> Undefined f)"

fun cow_containsAll :: "'a list \<Rightarrow> 'a cow \<Rightarrow> bool outcome" where
  "cow_containsAll [] l = Ret True"
| "cow_containsAll (v # vs) l =
     (case cow_contains v l of
        Ret b \<Rightarrow> if b then cow_containsAll vs l else Ret False
      | r \<Rightarrow> r)"

definition cow_isEmpty :: "'a cow \<Rightarrow> bool" where
  "cow_isEmpty l \<longleftrightarrow> ca_size (snapshot l) = 0"

definition cow_size :: "'a cow \<Rightarrow> int" where
  "cow_size l = ca_size (snapshot l)"

text \<open>\<^verbatim>\<open>result[i] = current->elements[i]\<close>, with \<open>n\<close> elements still to be read.\<close>

fun read_from :: "nat \<Rightarrow> int \<Rightarrow> 'a carr \<Rightarrow> 'a list outcome" where
  "read_from 0 i a = Ret []"
| "read_from (Suc n) i a =
     (case element a i of
        Ret x \<Rightarrow> (case read_from n (i + 1) a of Ret xs \<Rightarrow> Ret (x # xs) | r \<Rightarrow> r)
      | Throw e \<Rightarrow> Throw e
      | Undefined f \<Rightarrow> Undefined f)"

definition cow_toArray :: "'a cow \<Rightarrow> 'a list outcome" where
  "cow_toArray l = read_from (nat (ca_size (snapshot l))) 0 (snapshot l)"

definition cow_toString :: "'a cow \<Rightarrow> string" where
  "cow_toString l = ''''"

definition cow_iterator :: "'a cow \<Rightarrow> citer outcome" where
  "cow_iterator l = ci_new (cw_array l) 0 l"

definition cow_listIterator :: "int \<Rightarrow> 'a cow \<Rightarrow> citer outcome" where
  "cow_listIterator index l = ci_new (cw_array l) index l"

fun equals_loop :: "'a cow \<Rightarrow> citer \<Rightarrow> 'a list \<Rightarrow> bool outcome" where
  "equals_loop l it [] = Ret (\<not> ci_hasNext l it)"
| "equals_loop l it (v # vs) =
     (if ci_hasNext l it then
        (case ci_next l it of
           (Ret x, it') \<Rightarrow> if x \<noteq> v then Ret False else equals_loop l it' vs
         | (Throw e, _) \<Rightarrow> Throw e
         | (Undefined f, _) \<Rightarrow> Undefined f)
      else Ret False)"

definition cow_equals :: "bool \<Rightarrow> 'a argument \<Rightarrow> 'a cow \<Rightarrow> bool outcome" where
  "cow_equals is_list other l =
     (if arg_same other then Ret True
      else if \<not> is_list then Ret False
      else if cow_size l \<noteq> arg_size other then Ret False
      else
        (case cow_iterator l of
           Ret it \<Rightarrow> equals_loop l it (arg_elements other)
         | Throw e \<Rightarrow> Throw e
         | Undefined f \<Rightarrow> Undefined f))"

definition checkIndexInclusive :: "int \<Rightarrow> int \<Rightarrow> 'a cow \<Rightarrow> unit outcome \<times> 'a cow" where
  "checkIndexInclusive index n l =
     (if index < 0 \<or> index > n then (Throw (IndexOutOfBoundsException ''Index is %d, size is %d''), l) else (Ret (), l))"

definition checkIndexExclusive :: "int \<Rightarrow> int \<Rightarrow> 'a cow \<Rightarrow> unit outcome \<times> 'a cow" where
  "checkIndexExclusive index n l =
     (if index < 0 \<or> index \<ge> n then (Throw (IndexOutOfBoundsException ''Index is %d, size is %d''), l) else (Ret (), l))"

definition cow_get :: "int \<Rightarrow> 'a cow \<Rightarrow> 'a outcome" where
  "cow_get index l =
     fst (and_then (checkIndexExclusive index (ca_size (snapshot l)) l) (\<lambda>_ l. (element (snapshot l) index, l)))"

section \<open>Writers\<close>

definition cow_set :: "'a \<Rightarrow> int \<Rightarrow> 'a \<Rightarrow> 'a cow \<Rightarrow> 'a outcome \<times> 'a cow" where
  "cow_set d index v = write_locked (\<lambda>l.
     let oldArray = cw_array l; n = length_of oldArray l in
     and_then (checkIndexExclusive index n l) (\<lambda>_ l.
     and_then (allocate (array_copied d (cw_heap l ! oldArray) n) l) (\<lambda>newArray l.
     and_then (load newArray index l) (\<lambda>old l.
     and_then (store newArray index v l) (\<lambda>_ l.
       (Ret old, swap_in newArray l))))))"

definition cow_add :: "'a \<Rightarrow> 'a \<Rightarrow> 'a cow \<Rightarrow> bool outcome \<times> 'a cow" where
  "cow_add d v = write_locked (\<lambda>l.
     let oldArray = cw_array l; n = length_of oldArray l in
     and_then (allocate (array_copied d (cw_heap l ! oldArray) (n + 1)) l) (\<lambda>newArray l.
     and_then (store newArray n v l) (\<lambda>_ l.
       (Ret True, swap_in newArray (resize newArray (length_of newArray l + 1) l)))))"

text \<open>\<^verbatim>\<open>newArray->elements[newArray->size++] = iter->next()\<close>.\<close>

fun append_each :: "addr \<Rightarrow> 'a list \<Rightarrow> 'a cow \<Rightarrow> unit outcome \<times> 'a cow" where
  "append_each p [] l = (Ret (), l)"
| "append_each p (v # vs) l =
     and_then (store p (length_of p l) v l) (\<lambda>_ l. append_each p vs (resize p (length_of p l + 1) l))"

definition cow_addAll :: "'a \<Rightarrow> 'a argument \<Rightarrow> 'a cow \<Rightarrow> bool outcome \<times> 'a cow" where
  "cow_addAll d collection = write_locked (\<lambda>l.
     let oldArray = cw_array l; n = length_of oldArray l in
     and_then (allocate (array_copied d (cw_heap l ! oldArray) (n + arg_size collection)) l) (\<lambda>newArray l.
     and_then (append_each newArray (arg_elements collection) l) (\<lambda>_ l.
       (Ret True, swap_in newArray l))))"

definition cow_clear :: "'a cow \<Rightarrow> unit outcome \<times> 'a cow" where
  "cow_clear = write_locked (\<lambda>l. and_then (allocate (Ret array_null) l) (\<lambda>newArray l. (Ret (), swap_in newArray l)))"

definition cow_add_at :: "'a \<Rightarrow> int \<Rightarrow> 'a \<Rightarrow> 'a cow \<Rightarrow> unit outcome \<times> 'a cow" where
  "cow_add_at d index v = write_locked (\<lambda>l.
     let oldArray = cw_array l; n = length_of oldArray l in
     and_then (checkIndexInclusive index n l) (\<lambda>_ l.
     and_then (allocate (array_sized d (n + 1)) l) (\<lambda>newArray l.
     and_then (if n > 0 then transfer_part oldArray 0 newArray 0 index l else (Ret (), l)) (\<lambda>_ l.
     and_then (if n > index then transfer_part oldArray index newArray (index + 1) (n - index) l else (Ret (), l)) (\<lambda>_ l.
     and_then (store newArray index v l) (\<lambda>_ l.
       (Ret (), swap_in newArray (resize newArray (n + 1) l))))))))"

text \<open>\<^verbatim>\<open>newArray->elements[pos++] = iter->next()\<close>.\<close>

fun write_each :: "addr \<Rightarrow> int \<Rightarrow> 'a list \<Rightarrow> 'a cow \<Rightarrow> unit outcome \<times> 'a cow" where
  "write_each p pos [] l = (Ret (), l)"
| "write_each p pos (v # vs) l = and_then (store p pos v l) (\<lambda>_ l. write_each p (pos + 1) vs l)"

definition cow_addAll_at :: "'a \<Rightarrow> int \<Rightarrow> 'a argument \<Rightarrow> 'a cow \<Rightarrow> bool outcome \<times> 'a cow" where
  "cow_addAll_at d index collection = write_locked (\<lambda>l.
     let oldArray = cw_array l; n = length_of oldArray l in
     and_then (checkIndexInclusive index n l) (\<lambda>_ l.
     let csize = arg_size collection in
     if csize = 0 then (Ret False, l)
     else
       and_then (allocate (array_sized d (n + csize)) l) (\<lambda>newArray l.
       and_then (if n > 0 then transfer_part oldArray 0 newArray 0 index l else (Ret (), l)) (\<lambda>_ l.
       and_then (write_each newArray index (arg_elements collection) l) (\<lambda>_ l.
       and_then (if n > index then transfer_part oldArray index newArray (index + csize) (n - index) l else (Ret (), l)) (\<lambda>_ l.
         (Ret True, swap_in newArray (resize newArray (n + csize) l))))))))"

definition cow_removeAt :: "'a \<Rightarrow> int \<Rightarrow> 'a cow \<Rightarrow> 'a outcome \<times> 'a cow" where
  "cow_removeAt d index = write_locked (\<lambda>l.
     let oldArray = cw_array l; n = length_of oldArray l in
     and_then (checkIndexExclusive index n l) (\<lambda>_ l.
     and_then (load oldArray index l) (\<lambda>old l.
     if n = 1 then and_then (allocate (Ret array_null) l) (\<lambda>newArray l. (Ret old, swap_in newArray l))
     else
       and_then (allocate (array_sized d (n - 1)) l) (\<lambda>newArray l.
       and_then (transfer_part oldArray 0 newArray 0 index l) (\<lambda>_ l.
       and_then (if n > index then transfer_part oldArray (index + 1) newArray index (n - index - 1) l else (Ret (), l)) (\<lambda>_ l.
         (Ret old, swap_in newArray (resize newArray (n - 1) l))))))))"

definition cow_remove :: "'a \<Rightarrow> 'a \<Rightarrow> 'a cow \<Rightarrow> bool outcome \<times> 'a cow" where
  "cow_remove d v = write_locked (\<lambda>l.
     and_then (cow_indexOf v l, l) (\<lambda>index l.
     if index = - 1 then (Ret False, l)
     else and_then (cow_removeAt d index l) (\<lambda>_ l. (Ret True, l))))"

text \<open>
  The loops of \<^verbatim>\<open>removeAll\<close> and \<^verbatim>\<open>retainAll\<close>: the values of the old array from \<open>i\<close> on, \<open>n\<close> of them, that pass the test go to
  \<open>buffer->elements[count++]\<close>.
\<close>

fun keep_loop :: "nat \<Rightarrow> ('a \<Rightarrow> bool) \<Rightarrow> addr \<Rightarrow> int \<Rightarrow> addr \<Rightarrow> int \<Rightarrow> 'a cow \<Rightarrow> int outcome \<times> 'a cow" where
  "keep_loop 0 P oldArray i buffer count l = (Ret count, l)"
| "keep_loop (Suc n) P oldArray i buffer count l =
     and_then (load oldArray i l) (\<lambda>value l.
     if P value then
       and_then (store buffer count value l) (\<lambda>_ l.
         keep_loop n P oldArray (i + 1) buffer (count + 1) (resize buffer (length_of buffer l + 1) l))
     else keep_loop n P oldArray (i + 1) buffer count l)"

definition cow_removeAll :: "'a \<Rightarrow> 'a argument \<Rightarrow> 'a cow \<Rightarrow> bool outcome \<times> 'a cow" where
  "cow_removeAll d collection l =
     (if arg_isEmpty collection then (Ret False, l)
      else write_locked (\<lambda>l.
        let oldArray = cw_array l; n = length_of oldArray l in
        if n = 0 then (Ret False, l)
        else
          and_then (allocate (array_sized d n) l) (\<lambda>buffer l.
          and_then (keep_loop (nat n) (\<lambda>v. \<not> arg_contains collection v) oldArray 0 buffer 0 l) (\<lambda>count l.
          and_then (allocate (if count = 0 then Ret array_null else array_copied d (cw_heap l ! buffer) count) l) (\<lambda>newArray l.
            (Ret True, swap_in newArray l))))) l)"

definition cow_retainAll :: "'a \<Rightarrow> 'a argument \<Rightarrow> 'a cow \<Rightarrow> bool outcome \<times> 'a cow" where
  "cow_retainAll d collection = write_locked (\<lambda>l.
     let oldArray = cw_array l; n = length_of oldArray l in
     if n = 0 then (Ret False, l)
     else if arg_isEmpty collection then
       and_then (allocate (Ret array_null) l) (\<lambda>newArray l. (Ret True, swap_in newArray l))
     else
       and_then (allocate (array_sized d n) l) (\<lambda>buffer l.
       and_then (keep_loop (nat n) (arg_contains collection) oldArray 0 buffer 0 l) (\<lambda>count l.
         if count = 0 then and_then (allocate (Ret array_null) l) (\<lambda>newArray l. (Ret True, swap_in newArray l))
         else (Ret True, swap_in buffer l))))"

definition cow_addIfAbsent :: "'a \<Rightarrow> 'a \<Rightarrow> 'a cow \<Rightarrow> bool outcome \<times> 'a cow" where
  "cow_addIfAbsent d v = write_locked (\<lambda>l.
     let oldArray = cw_array l; n = length_of oldArray l in
     and_then (if n \<noteq> 0 then cow_indexOf v l else Ret (- 1), l) (\<lambda>index l.
     if index \<noteq> - 1 then (Ret False, l)
     else
       and_then (allocate (array_copied d (cw_heap l ! oldArray) (n + 1)) l) (\<lambda>newArray l.
       and_then (store newArray n v l) (\<lambda>_ l.
         (Ret True, swap_in newArray (resize newArray (length_of newArray l + 1) l))))))"

fun absent_loop :: "addr \<Rightarrow> int \<Rightarrow> 'a list \<Rightarrow> 'a cow \<Rightarrow> int outcome \<times> 'a cow" where
  "absent_loop buffer count [] l = (Ret count, l)"
| "absent_loop buffer count (v # vs) l =
     and_then (cow_indexOf v l, l) (\<lambda>index l.
     if index = - 1 then
       and_then (store buffer count v l) (\<lambda>_ l.
         absent_loop buffer (count + 1) vs (resize buffer (length_of buffer l + 1) l))
     else absent_loop buffer count vs l)"

definition cow_addAllAbsent :: "'a \<Rightarrow> 'a argument \<Rightarrow> 'a cow \<Rightarrow> int outcome \<times> 'a cow" where
  "cow_addAllAbsent d collection l =
     (if arg_size collection = 0 then (Ret 0, l)
      else write_locked (\<lambda>l.
        let oldArray = cw_array l; n = length_of oldArray l in
        and_then (allocate (array_sized d (arg_size collection)) l) (\<lambda>buffer l.
        and_then (absent_loop buffer 0 (arg_elements collection) l) (\<lambda>count l.
        and_then (allocate (array_copied d (cw_heap l ! oldArray) (n + count)) l) (\<lambda>newArray l.
        and_then (transfer_part buffer 0 newArray n count l) (\<lambda>_ l.
          (Ret count, swap_in newArray (resize newArray (n + count) l))))))) l)"

text \<open>\<^verbatim>\<open>buffer->elements[size + index++] = iter->next(); buffer->size++\<close>.\<close>

fun fill_each :: "addr \<Rightarrow> int \<Rightarrow> 'a list \<Rightarrow> 'a cow \<Rightarrow> unit outcome \<times> 'a cow" where
  "fill_each p i [] l = (Ret (), l)"
| "fill_each p i (v # vs) l =
     and_then (store p i v l) (\<lambda>_ l. fill_each p (i + 1) vs (resize p (length_of p l + 1) l))"

definition doCopyCollection :: "'a \<Rightarrow> 'a argument \<Rightarrow> 'a cow \<Rightarrow> unit outcome \<times> 'a cow" where
  "doCopyCollection d collection l =
     (if arg_same collection \<or> arg_isEmpty collection then (Ret (), l)
      else write_locked (\<lambda>l.
        let oldArray = cw_array l; n = length_of oldArray l in
        and_then (allocate (array_copied d (cw_heap l ! oldArray) (n + arg_size collection)) l) (\<lambda>buffer l.
        and_then (fill_each buffer n (arg_elements collection) l) (\<lambda>_ l.
          (Ret (), swap_in buffer l)))) l)"

definition cow_copy :: "'a \<Rightarrow> 'a argument \<Rightarrow> 'a cow \<Rightarrow> unit outcome \<times> 'a cow" where
  "cow_copy d collection = write_locked (\<lambda>l.
     and_then (cow_clear l) (\<lambda>_ l. doCopyCollection d collection l))"

section \<open>Construction\<close>

definition cow_new :: "'a cow" where
  "cow_new = \<lparr>cw_heap = [array_null], cw_array = 0, cw_hold = 0\<rparr>"

definition cow_from :: "'a \<Rightarrow> 'a argument \<Rightarrow> unit outcome \<times> 'a cow" where
  "cow_from d collection = doCopyCollection d collection cow_new"

text \<open>From an array with \<open>size\<close> elements; \<open>vs\<close> are the elements that the array has.\<close>

fun array_loop :: "nat \<Rightarrow> int \<Rightarrow> 'a list \<Rightarrow> addr \<Rightarrow> 'a cow \<Rightarrow> unit outcome \<times> 'a cow" where
  "array_loop 0 i vs temp l = (Ret (), l)"
| "array_loop (Suc n) i vs temp l =
     (if nat i < length vs then
        and_then (store temp i (vs ! nat i) l) (\<lambda>_ l. array_loop n (i + 1) vs temp (resize temp (length_of temp l + 1) l))
      else (Undefined OutOfBounds, l))"

definition cow_from_array :: "'a \<Rightarrow> 'a list \<Rightarrow> int \<Rightarrow> unit outcome \<times> 'a cow" where
  "cow_from_array d vs n =
     and_then (allocate (array_sized d n) cow_new) (\<lambda>temp l.
     and_then (array_loop (nat n) 0 vs temp l) (\<lambda>_ l.
       (Ret (), swap_in temp l)))"

section \<open>Invariant\<close>

definition carr_ok :: "'a carr \<Rightarrow> bool" where
  "carr_ok a \<longleftrightarrow> ca_capacity a = int (length (ca_elements a)) \<and> 0 \<le> ca_size a \<and> ca_size a \<le> ca_capacity a"

definition carr_elems :: "'a carr \<Rightarrow> 'a list" where
  "carr_elems a = take (nat (ca_size a)) (ca_elements a)"

definition cow_ok :: "'a cow \<Rightarrow> bool" where
  "cow_ok l \<longleftrightarrow> cw_array l < length (cw_heap l) \<and> list_all carr_ok (cw_heap l)"

definition cow_elems :: "'a cow \<Rightarrow> 'a list" where
  "cow_elems l = carr_elems (snapshot l)"

text \<open>After a call of a writer: the list holds \<open>xs\<close>, the lock is held as before, and no array that was there has changed.\<close>

definition published :: "'a cow \<Rightarrow> 'a list \<Rightarrow> 'a cow \<Rightarrow> bool" where
  "published l xs l' \<longleftrightarrow> cow_ok l' \<and> cow_elems l' = xs \<and> cw_hold l' = cw_hold l \<and> prefix (cw_heap l) (cw_heap l')"

lemma published_refl: "cow_ok l \<Longrightarrow> published l (cow_elems l) l"
  by (simp add: published_def)

lemma published_trans: "published l xs l1 \<Longrightarrow> published l1 ys l2 \<Longrightarrow> published l ys l2"
  by (auto simp: published_def)

text \<open>An array with the elements \<open>xs\<close> and room for more.\<close>

definition holds :: "'a carr \<Rightarrow> 'a list \<Rightarrow> nat \<Rightarrow> bool" where
  "holds a xs k \<longleftrightarrow> ca_size a = int (length xs) \<and> ca_capacity a = int (length (ca_elements a))
     \<and> length xs + k = length (ca_elements a) \<and> take (length xs) (ca_elements a) = xs"

lemma holds_ok: "holds a xs k \<Longrightarrow> carr_ok a" "holds a xs k \<Longrightarrow> carr_elems a = xs"
  by (auto simp: holds_def carr_ok_def carr_elems_def)

lemma holds_full: "holds a xs 0 \<longleftrightarrow> ca_elements a = xs \<and> ca_size a = int (length xs) \<and> ca_capacity a = int (length xs)"
  unfolding holds_def by (metis add.right_neutral order_refl take_all)

lemma ok_holds:
  assumes "carr_ok a"
  shows "holds a (carr_elems a) (length (ca_elements a) - length (carr_elems a))"
  using assms by (auto simp: holds_def carr_ok_def carr_elems_def)

lemma snapshot_ok: "cow_ok l \<Longrightarrow> carr_ok (snapshot l)"
  by (auto simp: cow_ok_def snapshot_def list_all_length)

lemma ok_size_elems: "carr_ok a \<Longrightarrow> ca_size a = int (length (carr_elems a))"
  by (auto simp: carr_ok_def carr_elems_def)

lemma snapshot_size: "cow_ok l \<Longrightarrow> ca_size (snapshot l) = int (length (cow_elems l))"
  by (simp add: ok_size_elems snapshot_ok cow_elems_def)

lemma element_elems:
  assumes "carr_ok a" and "0 \<le> i" and "i < ca_size a"
  shows "element a i = Ret (carr_elems a ! nat i)"
  using assms by (auto simp: element_def carr_ok_def carr_elems_def)

lemma array_null_holds: "holds array_null [] 0"
  by (simp add: holds_def array_null_def)

lemma array_sized_holds: "\<exists>a. array_sized d (int n) = Ret a \<and> holds a [] n"
  by (auto simp: array_sized_def reserve_def array_null_def holds_def Let_def max_def)

lemma array_copied_holds:
  assumes "carr_ok a" and "length (carr_elems a) \<le> n"
  shows "\<exists>b. array_copied d a (int n) = Ret b \<and> holds b (carr_elems a) (n - length (carr_elems a))"
proof -
  define k where "k = nat (ca_size a)"
  have k: "ca_size a = int k" "k \<le> length (ca_elements a)" "k \<le> n" "carr_elems a = take k (ca_elements a)"
    using assms by (auto simp: carr_ok_def carr_elems_def k_def)
  have m: "max (int k) (int n) = int n" using k by simp
  obtain b where b: "reserve d (int n) array_null = Ret b" "holds b [] n"
    using array_sized_holds [of d n] by (auto simp: array_sized_def)
  have len: "length (ca_elements b) = n" "ca_capacity b = int n" using b(2) by (auto simp: holds_def)
  show ?thesis
  proof (cases "k = 0")
    case True
    then show ?thesis using b k m by (auto simp: array_copied_def holds_def)
  next
    case False
    then have "ca_elements a \<noteq> []" using k(2) by auto
    moreover have "copy_between k 0 0 (ca_elements a) (ca_elements b) = Ret (take k (ca_elements a) @ drop k (ca_elements b))"
      using copy_between_effect [of 0 k "ca_elements a" 0 "ca_elements b"] k len by simp
    ultimately show ?thesis using False b(1) k m len by (auto simp: array_copied_def arraycopy_def holds_def)
  qed
qed

section \<open>Readers see the array of the moment\<close>

lemma scan_up_effect:
  assumes "carr_ok a" and "carr_elems a = xs @ ys"
  shows "scan_up v (int (length xs)) a = Ret (if v \<in> set ys then int (length xs) + first_index v ys else - 1)"
  using assms(2)
proof (induction ys arbitrary: xs)
  case Nil
  then show ?case using ok_size_elems [OF assms(1)] by (simp add: scan_up.simps)
next
  case (Cons y ys)
  have "element a (int (length xs)) = Ret y"
    using element_elems [OF assms(1), of "int (length xs)"] ok_size_elems [OF assms(1)] Cons.prems by simp
  moreover have "int (length xs) < ca_size a" using ok_size_elems [OF assms(1)] Cons.prems by simp
  ultimately show ?case using Cons.IH [of "xs @ [y]"] Cons.prems
    by (subst scan_up.simps) (auto simp: first_index_def add.commute)
qed

lemma scan_down_effect:
  assumes "carr_ok a" and "carr_elems a = xs @ ys"
  shows "scan_down v (int (length xs) - 1) a = Ret (last_index v xs)"
  using assms(2)
proof (induction xs arbitrary: ys rule: rev_induct)
  case Nil
  then show ?case by (simp add: scan_down.simps last_index_def)
next
  case (snoc x xs)
  have "element a (int (length xs)) = Ret x"
    using element_elems [OF assms(1), of "int (length xs)"] ok_size_elems [OF assms(1)] snoc.prems by (simp add: nth_append)
  then show ?case using snoc.IH [of "x # ys"] snoc.prems
    by (subst scan_down.simps) (auto simp: last_index_def first_index_def)
qed

lemma cow_indexOf_effect: "cow_ok l \<Longrightarrow> cow_indexOf v l = Ret (first_index v (cow_elems l))"
  using scan_up_effect [OF snapshot_ok, of l "[]" "cow_elems l" v]
  by (simp add: cow_indexOf_def cow_elems_def first_index_def)

lemma cow_lastIndexOf_effect: "cow_ok l \<Longrightarrow> cow_lastIndexOf v l = Ret (last_index v (cow_elems l))"
  using scan_down_effect [OF snapshot_ok, of l "cow_elems l" "[]" v] snapshot_size [of l]
  by (simp add: cow_lastIndexOf_def cow_elems_def)

lemma cow_contains_effect: "cow_ok l \<Longrightarrow> cow_contains v l = Ret (v \<in> set (cow_elems l))"
  using cow_indexOf_effect [of l v] by (auto simp: cow_contains_def cow_indexOf_def first_index_def)

lemma cow_containsAll_effect: "cow_ok l \<Longrightarrow> cow_containsAll vs l = Ret (set vs \<subseteq> set (cow_elems l))"
  by (induction vs) (simp_all add: cow_contains_effect)

lemma cow_size_effect: "cow_ok l \<Longrightarrow> cow_size l = int (length (cow_elems l))"
  by (simp add: cow_size_def snapshot_size)

lemma cow_isEmpty_effect: "cow_ok l \<Longrightarrow> cow_isEmpty l \<longleftrightarrow> cow_elems l = []"
  by (simp add: cow_isEmpty_def snapshot_size)

lemma cow_get_effect:
  "cow_ok l \<Longrightarrow> cow_get i l = (if 0 \<le> i \<and> i < int (length (cow_elems l)) then Ret (cow_elems l ! nat i)
     else Throw (IndexOutOfBoundsException ''Index is %d, size is %d''))"
  using element_elems [OF snapshot_ok, of l i] snapshot_size [of l]
  by (auto simp: cow_get_def checkIndexExclusive_def cow_elems_def)

lemma read_from_effect:
  assumes "carr_ok a" and "carr_elems a = xs @ ys"
  shows "read_from (length ys) (int (length xs)) a = Ret ys"
  using assms(2)
proof (induction ys arbitrary: xs)
  case (Cons y ys)
  have "element a (int (length xs)) = Ret y"
    using element_elems [OF assms(1), of "int (length xs)"] ok_size_elems [OF assms(1)] Cons.prems by simp
  then show ?case using Cons.IH [of "xs @ [y]"] Cons.prems by (simp add: add.commute)
qed simp

lemma cow_toArray_effect: "cow_ok l \<Longrightarrow> cow_toArray l = Ret (cow_elems l)"
  using read_from_effect [OF snapshot_ok, of l "[]" "cow_elems l"] snapshot_size [of l]
  by (simp add: cow_toArray_def cow_elems_def)

section \<open>Writers\<close>

lemma hold_irrelevant [simp]: "cow_ok (l\<lparr>cw_hold := n\<rparr>) = cow_ok l" "cow_elems (l\<lparr>cw_hold := n\<rparr>) = cow_elems l"
  by (simp_all add: cow_ok_def cow_elems_def snapshot_def)

lemma length_of_elems: "cow_ok l \<Longrightarrow> length_of (cw_array l) l = int (length (cow_elems l))"
  by (simp add: length_of_def snapshot_size [symmetric] snapshot_def)

text \<open>It is enough to look at the block: the lock is taken and given back around it.\<close>

lemma writer:
  assumes "\<And>l. cow_ok l \<Longrightarrow> cow_elems l = xs \<Longrightarrow> length_of (cw_array l) l = int (length xs) \<Longrightarrow> \<exists>l'. body l = (r, l') \<and> published l ys l'"
    and "cow_ok l" and "cow_elems l = xs"
  shows "\<exists>l'. write_locked body l = (r, l') \<and> published l ys l'"
proof -
  obtain l' where "body (l\<lparr>cw_hold := cw_hold l + 1\<rparr>) = (r, l')" "published (l\<lparr>cw_hold := cw_hold l + 1\<rparr>) ys l'"
    using assms(1) [of "l\<lparr>cw_hold := cw_hold l + 1\<rparr>"] assms(2,3) length_of_elems [of "l\<lparr>cw_hold := cw_hold l + 1\<rparr>"] by auto
  then show ?thesis by (auto simp: write_locked_def published_def)
qed



lemma old_array_ok: "cow_ok l \<Longrightarrow> carr_ok (cw_heap l ! cw_array l)" "carr_elems (cw_heap l ! cw_array l) = cow_elems l"
  using snapshot_ok [of l] by (simp_all add: snapshot_def cow_elems_def)

lemma publish:
  assumes "cow_ok l" and "list_all carr_ok bs" and "holds a xs k"
  shows "published l xs (l\<lparr>cw_heap := cw_heap l @ bs @ [a], cw_array := length (cw_heap l) + length bs\<rparr>)"
  using assms holds_ok [OF assms(3)]
  by (auto simp: published_def cow_ok_def cow_elems_def snapshot_def nth_append)

lemmas publish_one = publish [where bs = "[]", simplified]

text \<open>One more element in an array that is being built: the last one allocated.\<close>

lemma push_effect:
  assumes "holds a xs (Suc k)"
  obtains a1 a2 where "store (length h) (int (length xs)) v (l\<lparr>cw_heap := h @ [a]\<rparr>) = (Ret (), l\<lparr>cw_heap := h @ [a1]\<rparr>)"
    and "length_of (length h) (l\<lparr>cw_heap := h @ [a1]\<rparr>) = int (length xs)"
    and "resize (length h) (int (length xs) + 1) (l\<lparr>cw_heap := h @ [a1]\<rparr>) = l\<lparr>cw_heap := h @ [a2]\<rparr>"
    and "holds a2 (xs @ [v]) k"
proof
  let ?a1 = "a\<lparr>ca_elements := (ca_elements a)[length xs := v]\<rparr>"
  have a: "length xs < length (ca_elements a)" "ca_size a = int (length xs)" using assms by (auto simp: holds_def)
  then show "store (length h) (int (length xs)) v (l\<lparr>cw_heap := h @ [a]\<rparr>) = (Ret (), l\<lparr>cw_heap := h @ [?a1]\<rparr>)"
    by (simp add: store_def Let_def)
  show "length_of (length h) (l\<lparr>cw_heap := h @ [?a1]\<rparr>) = int (length xs)" using a by (simp add: length_of_def)
  show "resize (length h) (int (length xs) + 1) (l\<lparr>cw_heap := h @ [?a1]\<rparr>) = l\<lparr>cw_heap := h @ [?a1\<lparr>ca_size := int (length xs) + 1\<rparr>]\<rparr>"
    by (simp add: resize_def)
  show "holds (?a1\<lparr>ca_size := int (length xs) + 1\<rparr>) (xs @ [v]) k"
    using assms a by (auto simp: holds_def take_Suc_conv_app_nth)
qed

lemma allocate_Ret [simp]: "allocate (Ret a) l = (Ret (length (cw_heap l)), l\<lparr>cw_heap := cw_heap l @ [a]\<rparr>)"
  by (simp add: allocate_def)

lemma append_body:
  assumes "cow_ok l" and "cow_elems l = xs"
  shows "\<exists>l'. and_then (allocate (array_copied d (cw_heap l ! cw_array l) (int (length xs) + 1)) l) (\<lambda>newArray l.
     and_then (store newArray (int (length xs)) v l) (\<lambda>_ l.
       (Ret True, swap_in newArray (resize newArray (length_of newArray l + 1) l)))) = (Ret True, l') \<and> published l (xs @ [v]) l'"
proof -
  obtain b where b: "array_copied d (cw_heap l ! cw_array l) (int (Suc (length xs))) = Ret b" "holds b xs 1"
    using array_copied_holds [OF old_array_ok(1) [OF assms(1)], of "Suc (length xs)" d] assms(2) old_array_ok(2) [of l] by auto
  have "holds b xs (Suc 0)" using b(2) by simp
  from push_effect [OF this, of "cw_heap l" v l] obtain a1 a2
    where "store (length (cw_heap l)) (int (length xs)) v (l\<lparr>cw_heap := cw_heap l @ [b]\<rparr>) = (Ret (), l\<lparr>cw_heap := cw_heap l @ [a1]\<rparr>)"
    "length_of (length (cw_heap l)) (l\<lparr>cw_heap := cw_heap l @ [a1]\<rparr>) = int (length xs)"
    "resize (length (cw_heap l)) (int (length xs) + 1) (l\<lparr>cw_heap := cw_heap l @ [a1]\<rparr>) = l\<lparr>cw_heap := cw_heap l @ [a2]\<rparr>"
    "holds a2 (xs @ [v]) 0" .
  moreover have "array_copied d (cw_heap l ! cw_array l) (int (length xs) + 1) = Ret b" using b(1) by (simp add: add.commute)
  ultimately show ?thesis using publish_one [OF assms(1)] by (simp add: swap_in_def)
qed

lemma cow_add_effect:
  assumes "cow_ok l"
  shows "\<exists>l'. cow_add d v l = (Ret True, l') \<and> published l (cow_elems l @ [v]) l'"
  unfolding cow_add_def by (rule writer [OF _ assms refl]) (simp add: append_body length_of_elems Let_def)

lemma cow_addIfAbsent_effect:
  assumes "cow_ok l"
  shows "\<exists>l'. cow_addIfAbsent d v l = (Ret (v \<notin> set (cow_elems l)), l')
     \<and> published l (if v \<in> set (cow_elems l) then cow_elems l else cow_elems l @ [v]) l'"
  unfolding cow_addIfAbsent_def
proof (rule writer [OF _ assms refl], goal_cases)
  case (1 l1)
  with append_body [OF 1(1) refl, of d v] published_refl [of l1] show ?case
    by (auto simp: length_of_elems Let_def cow_indexOf_effect first_index_def)
qed

text \<open>The three loops that add the elements of a collection to a new array.\<close>

lemma append_each_effect:
  assumes "holds a xs (length vs + k)"
  shows "\<exists>a'. append_each (length h) vs (l\<lparr>cw_heap := h @ [a]\<rparr>) = (Ret (), l\<lparr>cw_heap := h @ [a']\<rparr>) \<and> holds a' (xs @ vs) k"
  using assms
proof (induction vs arbitrary: xs a)
  case Nil
  then show ?case by auto
next
  case (Cons v vs)
  have size: "length_of (length h) (l\<lparr>cw_heap := h @ [a]\<rparr>) = int (length xs)" using Cons.prems by (simp add: length_of_def holds_def)
  have "holds a xs (Suc (length vs + k))" using Cons.prems by simp
  from push_effect [OF this, of h v l] obtain a1 a2
    where s: "store (length h) (int (length xs)) v (l\<lparr>cw_heap := h @ [a]\<rparr>) = (Ret (), l\<lparr>cw_heap := h @ [a1]\<rparr>)"
    "length_of (length h) (l\<lparr>cw_heap := h @ [a1]\<rparr>) = int (length xs)"
    "resize (length h) (int (length xs) + 1) (l\<lparr>cw_heap := h @ [a1]\<rparr>) = l\<lparr>cw_heap := h @ [a2]\<rparr>" "holds a2 (xs @ [v]) (length vs + k)" .
  from Cons.IH [OF s(4)] s(1-3) size show ?case by simp
qed

lemma fill_each_effect:
  assumes "holds a xs (length vs + k)"
  shows "\<exists>a'. fill_each (length h) (int (length xs)) vs (l\<lparr>cw_heap := h @ [a]\<rparr>) = (Ret (), l\<lparr>cw_heap := h @ [a']\<rparr>) \<and> holds a' (xs @ vs) k"
  using assms
proof (induction vs arbitrary: xs a)
  case Nil
  then show ?case by auto
next
  case (Cons v vs)
  have "holds a xs (Suc (length vs + k))" using Cons.prems by simp
  from push_effect [OF this, of h v l] obtain a1 a2
    where s: "store (length h) (int (length xs)) v (l\<lparr>cw_heap := h @ [a]\<rparr>) = (Ret (), l\<lparr>cw_heap := h @ [a1]\<rparr>)"
    "length_of (length h) (l\<lparr>cw_heap := h @ [a1]\<rparr>) = int (length xs)"
    "resize (length h) (int (length xs) + 1) (l\<lparr>cw_heap := h @ [a1]\<rparr>) = l\<lparr>cw_heap := h @ [a2]\<rparr>" "holds a2 (xs @ [v]) (length vs + k)" .
  with Cons.IH [OF s(4)] show ?case by (simp add: add.commute)
qed

lemma copied_old:
  assumes "cow_ok l"
  obtains b where "array_copied d (cw_heap l ! cw_array l) (int (length (cow_elems l)) + int k) = Ret b"
    and "holds b (cow_elems l) k"
  using array_copied_holds [OF old_array_ok(1) [OF assms], of "length (cow_elems l) + k" d] old_array_ok(2) [of l] by auto

lemma cow_addAll_effect:
  assumes "cow_ok l"
  shows "\<exists>l'. cow_addAll d (quiet vs) l = (Ret True, l') \<and> published l (cow_elems l @ vs) l'"
  unfolding cow_addAll_def
proof (rule writer [OF _ assms refl], goal_cases)
  case (1 l)
  obtain b where b: "array_copied d (cw_heap l ! cw_array l) (int (length (cow_elems l)) + int (length vs)) = Ret b"
    "holds b (cow_elems l) (length vs)"
    by (rule copied_old [OF 1(1)])
  obtain a where a: "append_each (length (cw_heap l)) vs (l\<lparr>cw_heap := cw_heap l @ [b]\<rparr>) = (Ret (), l\<lparr>cw_heap := cw_heap l @ [a]\<rparr>)"
    "holds a (cow_elems l @ vs) 0"
    using append_each_effect [of b "cow_elems l" vs 0] b(2) by auto
  with b(1) 1 publish_one [OF 1(1) a(2)] show ?case by (simp add: length_of_elems Let_def quiet_def swap_in_def)
qed

lemma cow_clear_effect:
  assumes "cow_ok l"
  shows "\<exists>l'. cow_clear l = (Ret (), l') \<and> published l [] l'"
  unfolding cow_clear_def
proof (rule writer [OF _ assms refl], goal_cases)
  case (1 l)
  then show ?case using publish_one [OF 1(1) array_null_holds] by (simp add: swap_in_def)
qed

lemma doCopyCollection_effect:
  assumes "cow_ok l"
  shows "\<exists>l'. doCopyCollection d (quiet vs) l = (Ret (), l') \<and> published l (cow_elems l @ vs) l'"
proof (cases "vs = []")
  case True
  then show ?thesis using published_refl [OF assms] by (simp add: doCopyCollection_def quiet_def)
next
  case False
  then have n: "\<not> (arg_same (quiet vs) \<or> arg_isEmpty (quiet vs))" by (simp add: quiet_def)
  show ?thesis unfolding doCopyCollection_def if_not_P [OF n]
  proof (rule writer [OF _ assms refl], goal_cases)
    case (1 l)
    obtain b where b: "array_copied d (cw_heap l ! cw_array l) (int (length (cow_elems l)) + int (length vs)) = Ret b"
      "holds b (cow_elems l) (length vs)"
      by (rule copied_old [OF 1(1)])
    obtain a where a: "fill_each (length (cw_heap l)) (int (length (cow_elems l))) vs (l\<lparr>cw_heap := cw_heap l @ [b]\<rparr>)
        = (Ret (), l\<lparr>cw_heap := cw_heap l @ [a]\<rparr>)" "holds a (cow_elems l @ vs) 0"
      using fill_each_effect [of b "cow_elems l" vs 0] b(2) by auto
    with b(1) 1 publish_one [OF 1(1) a(2)] show ?case by (simp add: length_of_elems Let_def quiet_def swap_in_def)
  qed
qed

lemma cow_copy_effect:
  assumes "cow_ok l"
  shows "\<exists>l'. cow_copy d (quiet vs) l = (Ret (), l') \<and> published l vs l'"
  unfolding cow_copy_def
proof (rule writer [OF _ assms refl], goal_cases)
  case (1 l)
  obtain l1 where l1: "cow_clear l = (Ret (), l1)" "published l [] l1" using cow_clear_effect [OF 1(1)] by blast
  then have "cow_ok l1" "cow_elems l1 = []" by (simp_all add: published_def)
  with doCopyCollection_effect [of l1 d vs] l1 published_trans [OF l1(2)] show ?case by auto
qed

lemma cow_set_effect:
  assumes "cow_ok l"
  shows "\<exists>l'. cow_set d i v l = (if 0 \<le> i \<and> i < int (length (cow_elems l)) then Ret (cow_elems l ! nat i)
       else Throw (IndexOutOfBoundsException ''Index is %d, size is %d''), l')
     \<and> published l (if 0 \<le> i \<and> i < int (length (cow_elems l)) then (cow_elems l)[nat i := v] else cow_elems l) l'"
  unfolding cow_set_def
proof (rule writer [OF _ assms refl], goal_cases)
  case (1 l1)
  show ?case
  proof (cases "0 \<le> i \<and> i < int (length (cow_elems l))")
    case False
    with 1 published_refl [OF 1(1)] show ?thesis by (auto simp: length_of_elems checkIndexExclusive_def Let_def)
  next
    case True
    define k where "k = nat i"
    have k: "i = int k" "k < length (cow_elems l)" using True by (auto simp: k_def)
    obtain b where b: "array_copied d (cw_heap l1 ! cw_array l1) (int (length (cow_elems l))) = Ret b" "holds b (cow_elems l) 0"
      using copied_old [OF 1(1), of d 0] 1(2) by auto
    then have e: "ca_elements b = cow_elems l" "holds (b\<lparr>ca_elements := (cow_elems l)[k := v]\<rparr>) ((cow_elems l)[k := v]) 0"
      by (simp_all add: holds_full)
    then have "element b (int k) = Ret (cow_elems l ! k)" using k by (simp add: element_def)
    with b(1) e(1) k 1 publish_one [OF 1(1) e(2)] show ?thesis
      by (simp add: length_of_elems checkIndexExclusive_def Let_def load_def store_def swap_in_def)
  qed
qed

text \<open>Copies from an older array into the one that is being built.\<close>

lemma transfer_effect:
  assumes "q < length h" and "ca_elements (h ! q) \<noteq> []" and "s + n \<le> length (ca_elements (h ! q))" and "t + n \<le> length (ca_elements a)"
  shows "transfer_part q (int s) (length h) (int t) (int n) (l\<lparr>cw_heap := h @ [a]\<rparr>) =
    (Ret (), l\<lparr>cw_heap := h @ [a\<lparr>ca_elements := take t (ca_elements a) @ take n (drop s (ca_elements (h ! q))) @ drop (t + n) (ca_elements a)\<rparr>]\<rparr>)"
  using copy_between_effect [of s n "ca_elements (h ! q)" t "ca_elements a"] assms
  by (simp add: transfer_part_def arraycopy_def nth_append)

lemma write_each_effect:
  assumes "i + length vs \<le> length (ca_elements a)"
  shows "write_each (length h) (int i) vs (l\<lparr>cw_heap := h @ [a]\<rparr>) =
    (Ret (), l\<lparr>cw_heap := h @ [a\<lparr>ca_elements := take i (ca_elements a) @ vs @ drop (i + length vs) (ca_elements a)\<rparr>]\<rparr>)"
  using assms
proof (induction vs arbitrary: i a)
  case (Cons v vs)
  let ?a = "a\<lparr>ca_elements := (ca_elements a)[i := v]\<rparr>"
  have "store (length h) (int i) v (l\<lparr>cw_heap := h @ [a]\<rparr>) = (Ret (), l\<lparr>cw_heap := h @ [?a]\<rparr>)"
    using Cons.prems by (simp add: store_def Let_def)
  moreover have "take (Suc i) ((ca_elements a)[i := v]) = take i (ca_elements a) @ [v]" using Cons.prems by (simp add: take_Suc_conv_app_nth)
  ultimately show ?case using Cons.IH [of "Suc i" ?a] Cons.prems by (simp add: add.commute)
qed simp

text \<open>The elements before a position, moved to the front of a new array.\<close>

lemma front_copied:
  assumes "cow_ok l" and "cow_elems l = xs" and "i \<le> length xs" and "i \<le> length (ca_elements a)"
  shows "(if int (length xs) > 0 then transfer_part (cw_array l) 0 (length (cw_heap l)) 0 (int i) (l\<lparr>cw_heap := cw_heap l @ [a]\<rparr>)
      else (Ret (), l\<lparr>cw_heap := cw_heap l @ [a]\<rparr>)) =
    (Ret (), l\<lparr>cw_heap := cw_heap l @ [a\<lparr>ca_elements := take i xs @ drop i (ca_elements a)\<rparr>]\<rparr>)"
proof (cases "xs = []")
  case False
  let ?S = "ca_elements (cw_heap l ! cw_array l)"
  have q: "cw_array l < length (cw_heap l)" using assms(1) by (simp add: cow_ok_def)
  have "xs = take (length xs) ?S" "length xs \<le> length ?S"
    using old_array_ok [of l] ok_holds [of "cw_heap l ! cw_array l"] assms(1,2) by (auto simp: holds_def)
  then have "take i ?S = take i xs" "i \<le> length ?S" "?S \<noteq> []" using assms(3) False by (metis min.absorb1 take_take, auto)
  with transfer_effect [OF q, of 0 i 0 a l] assms(4) False show ?thesis by simp
qed (use assms in simp)

text \<open>The elements from a position on, moved behind what is there.\<close>

lemma rest_copied:
  assumes "cow_ok l" and "cow_elems l = xs" and "s < length xs" and "t + (length xs - s) \<le> length (ca_elements a)"
  shows "transfer_part (cw_array l) (int s) (length (cw_heap l)) (int t) (int (length xs - s)) (l\<lparr>cw_heap := cw_heap l @ [a]\<rparr>) =
    (Ret (), l\<lparr>cw_heap := cw_heap l @ [a\<lparr>ca_elements := take t (ca_elements a) @ drop s xs @ drop (t + (length xs - s)) (ca_elements a)\<rparr>]\<rparr>)"
proof -
  let ?S = "ca_elements (cw_heap l ! cw_array l)"
  have q: "cw_array l < length (cw_heap l)" using assms(1) by (simp add: cow_ok_def)
  have S: "take (length xs) ?S = xs" "length xs \<le> length ?S"
    using old_array_ok [of l] ok_holds [of "cw_heap l ! cw_array l"] assms(1,2) by (auto simp: holds_def)
  have "take (length xs - s) (drop s ?S) = drop s xs" using S(1) by (metis drop_take)
  moreover have "?S \<noteq> []" using S assms(3) by auto
  ultimately show ?thesis using transfer_effect [OF q, of s "length xs - s" t a l] S(2) assms(3,4) by simp
qed

lemma sized_new:
  obtains b where "array_sized d (int n) = Ret b" and "length (ca_elements b) = n" and "ca_capacity b = int n"
  using array_sized_holds [of d n] by (auto simp: holds_def)

lemma publish_full:
  assumes "cow_ok l" and "length xs = n" and "ca_elements a = xs" and "ca_capacity a = int n"
  shows "published l xs (l\<lparr>cw_heap := cw_heap l @ [a\<lparr>ca_size := int n\<rparr>], cw_array := length (cw_heap l)\<rparr>)"
  using publish_one [OF assms(1), of "a\<lparr>ca_size := int n\<rparr>" xs 0] assms by (simp add: holds_full)

lemma cow_add_at_effect:
  assumes "cow_ok l" and "cow_elems l = xs"
  shows "\<exists>l'. cow_add_at d i v l = (if 0 \<le> i \<and> i \<le> int (length xs) then Ret ()
       else Throw (IndexOutOfBoundsException ''Index is %d, size is %d''), l')
     \<and> published l (if 0 \<le> i \<and> i \<le> int (length xs) then take (nat i) xs @ v # drop (nat i) xs else xs) l'"
  unfolding cow_add_at_def
proof (rule writer [OF _ assms], goal_cases)
  case (1 l1)
  show ?case
  proof (cases "0 \<le> i \<and> i \<le> int (length xs)")
    case False
    with 1 published_refl [OF 1(1)] show ?thesis by (auto simp: checkIndexInclusive_def Let_def)
  next
    case True
    define k where "k = nat i"
    have k: "i = int k" "k \<le> length xs" using True by (auto simp: k_def)
    obtain b where b: "array_sized d (int (Suc (length xs))) = Ret b" "length (ca_elements b) = Suc (length xs)" "ca_capacity b = int (Suc (length xs))"
      by (rule sized_new)
    let ?a = "b\<lparr>ca_elements := take k xs @ drop k (ca_elements b)\<rparr>"
    have f: "(if int (length xs) > 0 then transfer_part (cw_array l1) 0 (length (cw_heap l1)) 0 (int k) (l1\<lparr>cw_heap := cw_heap l1 @ [b]\<rparr>)
      else (Ret (), l1\<lparr>cw_heap := cw_heap l1 @ [b]\<rparr>)) = (Ret (), l1\<lparr>cw_heap := cw_heap l1 @ [?a]\<rparr>)"
      using front_copied [OF 1(1,2) k(2), of b] b(2) k(2) by simp
    let ?c = "b\<lparr>ca_elements := take k xs @ ca_elements b ! k # drop k xs\<rparr>"
    have e: "drop k (ca_elements b) = ca_elements b ! k # drop (Suc k) (ca_elements b)" using b(2) k(2) by (simp add: Cons_nth_drop_Suc)
    have r: "(if int (length xs) > int k then transfer_part (cw_array l1) (int k) (length (cw_heap l1)) (int k + 1) (int (length xs) - int k) (l1\<lparr>cw_heap := cw_heap l1 @ [?a]\<rparr>)
      else (Ret (), l1\<lparr>cw_heap := cw_heap l1 @ [?a]\<rparr>)) = (Ret (), l1\<lparr>cw_heap := cw_heap l1 @ [?c]\<rparr>)"
      using rest_copied [OF 1(1,2), of k "Suc k" ?a] b(2) k(2) e by (auto simp: of_nat_diff add.commute min_def)
    have s: "store (length (cw_heap l1)) (int k) v (l1\<lparr>cw_heap := cw_heap l1 @ [?c]\<rparr>)
      = (Ret (), l1\<lparr>cw_heap := cw_heap l1 @ [b\<lparr>ca_elements := take k xs @ v # drop k xs\<rparr>]\<rparr>)"
      using k(2) by (simp add: store_def Let_def list_update_append)
    have "published l1 (take k xs @ v # drop k xs) (l1\<lparr>cw_heap := cw_heap l1 @ [b\<lparr>ca_elements := take k xs @ v # drop k xs, ca_size := int (Suc (length xs))\<rparr>], cw_array := length (cw_heap l1)\<rparr>)"
      using publish_full [OF 1(1), of "take k xs @ v # drop k xs" "Suc (length xs)" "b\<lparr>ca_elements := take k xs @ v # drop k xs\<rparr>"] b(3) k(2) by simp
    with b(1) f r s k(2) show ?thesis unfolding Let_def 1(3) k(1) by (simp add: checkIndexInclusive_def swap_in_def resize_def add.commute)
  qed
qed

lemma cow_addAll_at_effect:
  assumes "cow_ok l" and "cow_elems l = xs"
  shows "\<exists>l'. cow_addAll_at d i (quiet vs) l = (if 0 \<le> i \<and> i \<le> int (length xs) then Ret (vs \<noteq> [])
       else Throw (IndexOutOfBoundsException ''Index is %d, size is %d''), l')
     \<and> published l (if 0 \<le> i \<and> i \<le> int (length xs) then take (nat i) xs @ vs @ drop (nat i) xs else xs) l'"
  unfolding cow_addAll_at_def
proof (rule writer [OF _ assms], goal_cases)
  case (1 l1)
  show ?case
  proof (cases "0 \<le> i \<and> i \<le> int (length xs) \<and> vs \<noteq> []")
    case False
    with 1 published_refl [OF 1(1)] show ?thesis by (auto simp: checkIndexInclusive_def Let_def quiet_def)
  next
    case True
    define k where "k = nat i"
    define m where "m = length vs"
    have k: "i = int k" "k \<le> length xs" using True by (auto simp: k_def)
    have q: "arg_size (quiet vs) = int m" "arg_elements (quiet vs) = vs" "m \<noteq> 0" using True by (simp_all add: quiet_def m_def)
    obtain b where b: "array_sized d (int (length xs + m)) = Ret b" "length (ca_elements b) = length xs + m" "ca_capacity b = int (length xs + m)"
      by (rule sized_new)
    let ?a = "b\<lparr>ca_elements := take k xs @ drop k (ca_elements b)\<rparr>"
    have f: "(if int (length xs) > 0 then transfer_part (cw_array l1) 0 (length (cw_heap l1)) 0 (int k) (l1\<lparr>cw_heap := cw_heap l1 @ [b]\<rparr>)
      else (Ret (), l1\<lparr>cw_heap := cw_heap l1 @ [b]\<rparr>)) = (Ret (), l1\<lparr>cw_heap := cw_heap l1 @ [?a]\<rparr>)"
      using front_copied [OF 1(1,2) k(2), of b] b(2) k(2) by simp
    let ?w = "b\<lparr>ca_elements := take k xs @ vs @ drop (k + m) (ca_elements b)\<rparr>"
    have w: "write_each (length (cw_heap l1)) (int k) vs (l1\<lparr>cw_heap := cw_heap l1 @ [?a]\<rparr>) = (Ret (), l1\<lparr>cw_heap := cw_heap l1 @ [?w]\<rparr>)"
      using write_each_effect [of k vs ?a "cw_heap l1" l1] b(2) k(2) by (simp add: m_def add.commute)
    let ?c = "b\<lparr>ca_elements := take k xs @ vs @ drop k xs\<rparr>"
    have r: "(if int (length xs) > int k then transfer_part (cw_array l1) (int k) (length (cw_heap l1)) (int k + int m) (int (length xs) - int k) (l1\<lparr>cw_heap := cw_heap l1 @ [?w]\<rparr>)
      else (Ret (), l1\<lparr>cw_heap := cw_heap l1 @ [?w]\<rparr>)) = (Ret (), l1\<lparr>cw_heap := cw_heap l1 @ [?c]\<rparr>)"
      using rest_copied [OF 1(1,2), of k "k + m" ?w] b(2) k(2) by (auto simp: of_nat_diff m_def)
    have "published l1 (take k xs @ vs @ drop k xs) (l1\<lparr>cw_heap := cw_heap l1 @ [?c\<lparr>ca_size := int (length xs + m)\<rparr>], cw_array := length (cw_heap l1)\<rparr>)"
      by (rule publish_full [OF 1(1)]) (use b(3) k(2) in \<open>simp_all add: m_def\<close>)
    with b(1) f w r k(2) q(3) True show ?thesis unfolding Let_def 1(3) k(1) q(1,2)
      by (simp add: checkIndexInclusive_def swap_in_def resize_def add.commute)
  qed
qed

lemma cow_removeAt_effect:
  assumes "cow_ok l" and "cow_elems l = xs"
  shows "\<exists>l'. cow_removeAt d i l = (if 0 \<le> i \<and> i < int (length xs) then Ret (xs ! nat i)
       else Throw (IndexOutOfBoundsException ''Index is %d, size is %d''), l')
     \<and> published l (if 0 \<le> i \<and> i < int (length xs) then take (nat i) xs @ drop (Suc (nat i)) xs else xs) l'"
  unfolding cow_removeAt_def
proof (rule writer [OF _ assms], goal_cases)
  case (1 l1)
  show ?case
  proof (cases "0 \<le> i \<and> i < int (length xs)")
    case False
    with 1 published_refl [OF 1(1)] show ?thesis by (auto simp: checkIndexExclusive_def Let_def)
  next
    case True
    define k where "k = nat i"
    have k: "i = int k" "k < length xs" using True by (auto simp: k_def)
    have ld: "load (cw_array l1) (int k) l1 = (Ret (xs ! k), l1)"
      using element_elems [OF old_array_ok(1) [OF 1(1)], of "int k"] old_array_ok(2) [of l1] 1 k(2) by (simp add: load_def length_of_def)
    show ?thesis
    proof (cases "length xs = 1")
      case True
      with ld k publish_one [OF 1(1) array_null_holds] show ?thesis unfolding Let_def 1(3) k(1)
        by (simp add: checkIndexExclusive_def swap_in_def)
    next
      case False
      define n where "n = length xs - 1"
      have n: "length xs = Suc n" "n \<noteq> 0" "k \<le> n" "int (length xs) - 1 = int n" "int (length xs) - int k - 1 = int (length xs - Suc k)"
        using False k(2) by (auto simp: n_def of_nat_diff)
      obtain b where b: "array_sized d (int n) = Ret b" "length (ca_elements b) = n" "ca_capacity b = int n"
        by (rule sized_new)
      let ?a = "b\<lparr>ca_elements := take k xs @ drop k (ca_elements b)\<rparr>"
      have f: "transfer_part (cw_array l1) 0 (length (cw_heap l1)) 0 (int k) (l1\<lparr>cw_heap := cw_heap l1 @ [b]\<rparr>)
        = (Ret (), l1\<lparr>cw_heap := cw_heap l1 @ [?a]\<rparr>)"
        using front_copied [OF 1(1,2), of k b] b(2) n k(2) by simp
      let ?c = "b\<lparr>ca_elements := take k xs @ drop (Suc k) xs\<rparr>"
      have r: "transfer_part (cw_array l1) (int k + 1) (length (cw_heap l1)) (int k) (int (length xs - Suc k)) (l1\<lparr>cw_heap := cw_heap l1 @ [?a]\<rparr>)
        = (Ret (), l1\<lparr>cw_heap := cw_heap l1 @ [?c]\<rparr>)"
      proof (cases "Suc k < length xs")
        case True
        then show ?thesis using rest_copied [OF 1(1,2), of "Suc k" k ?a] b(2) n(1,3) by (simp add: add.commute)
      next
        case False
        then have "k = n" using n by simp
        moreover have "ca_elements (cw_heap l1 ! cw_array l1) \<noteq> []"
          using old_array_ok(2) [of l1] 1(2) k(2) by (auto simp: carr_elems_def)
        moreover have "cw_array l1 < length (cw_heap l1)" using 1(1) by (simp add: cow_ok_def)
        ultimately show ?thesis using b(2) n by (simp add: transfer_part_def arraycopy_def nth_append)
      qed
      have "published l1 (take k xs @ drop (Suc k) xs) (l1\<lparr>cw_heap := cw_heap l1 @ [?c\<lparr>ca_size := int n\<rparr>], cw_array := length (cw_heap l1)\<rparr>)"
        by (rule publish_full [OF 1(1)]) (use b(3) n in simp_all)
      with b(1) f r k(2) ld False n(2) show ?thesis unfolding Let_def 1(3) k(1) n(4,5)
        by (simp add: checkIndexExclusive_def swap_in_def resize_def)
    qed
  qed
qed

lemma cow_remove_effect:
  assumes "cow_ok l"
  shows "\<exists>l'. cow_remove d v l = (Ret (v \<in> set (cow_elems l)), l') \<and> published l (remove1 v (cow_elems l)) l'"
  unfolding cow_remove_def
proof (rule writer [OF _ assms refl], goal_cases)
  case (1 l1)
  show ?case
  proof (cases "v \<in> set (cow_elems l1)")
    case True
    define k where "k = length (takeWhile (\<lambda>x. x \<noteq> v) (cow_elems l1))"
    have k: "first_index v (cow_elems l1) = int k" using True by (simp add: first_index_def k_def)
    moreover have "k < length (cow_elems l1)" unfolding k_def using True by (rule takeWhile_shorter)
    moreover have "remove1 v (cow_elems l1) = take k (cow_elems l1) @ drop (Suc k) (cow_elems l1)"
      using remove1_split [OF True] by (simp add: k_def)
    ultimately show ?thesis using cow_removeAt_effect [OF 1(1) refl, of d "int k"] True 1 by (auto simp: cow_indexOf_effect)
  next
    case False
    then show ?thesis using 1 published_refl [OF 1(1)] by (simp add: cow_indexOf_effect first_index_def remove1_idem)
  qed
qed

text \<open>The loop of \<^verbatim>\<open>removeAll\<close> and \<^verbatim>\<open>retainAll\<close> leaves the elements that pass the test in the buffer.\<close>

lemma keep_loop_effect:
  assumes "q < length h" and "carr_ok (h ! q)" and "carr_elems (h ! q) = us @ ws" and "holds a xs (length ws + k)"
  shows "\<exists>a'. keep_loop (length ws) P q (int (length us)) (length h) (int (length xs)) (l\<lparr>cw_heap := h @ [a]\<rparr>)
      = (Ret (int (length (xs @ filter P ws))), l\<lparr>cw_heap := h @ [a']\<rparr>)
     \<and> holds a' (xs @ filter P ws) (length ws + k - length (filter P ws))"
  using assms(3,4)
proof (induction ws arbitrary: us xs a k)
  case Nil
  then show ?case by auto
next
  case (Cons w ws)
  have "element (h ! q) (int (length us)) = Ret w"
    using element_elems [OF assms(2), of "int (length us)"] ok_size_elems [OF assms(2)] Cons.prems(1) by simp
  then have ld: "load q (int (length us)) (l\<lparr>cw_heap := h @ [a]\<rparr>) = (Ret w, l\<lparr>cw_heap := h @ [a]\<rparr>)"
    using assms(1) by (simp add: load_def nth_append)
  have us: "int (length us) + 1 = int (length (us @ [w]))" "carr_elems (h ! q) = (us @ [w]) @ ws" using Cons.prems(1) by simp_all
  show ?case
  proof (cases "P w")
    case True
    have "holds a xs (Suc (length ws + k))" using Cons.prems(2) by simp
    from push_effect [OF this, of h w l] obtain a1 a2
      where s: "store (length h) (int (length xs)) w (l\<lparr>cw_heap := h @ [a]\<rparr>) = (Ret (), l\<lparr>cw_heap := h @ [a1]\<rparr>)"
      "length_of (length h) (l\<lparr>cw_heap := h @ [a1]\<rparr>) = int (length xs)"
      "resize (length h) (int (length xs) + 1) (l\<lparr>cw_heap := h @ [a1]\<rparr>) = l\<lparr>cw_heap := h @ [a2]\<rparr>" "holds a2 (xs @ [w]) (length ws + k)" .
    have "int (length xs) + 1 = int (length (xs @ [w]))" by simp
    then show ?thesis using Cons.IH [OF us(2) s(4)] s(1-3) ld True us(1) by (simp add: add.commute)
  next
    case False
    have "holds a xs (length ws + Suc k)" using Cons.prems(2) by simp
    from Cons.IH [OF us(2) this] ld False us(1) show ?thesis by (simp add: add.commute)
  qed
qed

lemma kept:
  assumes "cow_ok l" and "cow_elems l = xs"
  obtains b a where "array_sized d (int (length xs)) = Ret b"
    and "keep_loop (length xs) P (cw_array l) 0 (length (cw_heap l)) 0 (l\<lparr>cw_heap := cw_heap l @ [b]\<rparr>)
      = (Ret (int (length (filter P xs))), l\<lparr>cw_heap := cw_heap l @ [a]\<rparr>)"
    and "holds a (filter P xs) (length xs - length (filter P xs))"
proof -
  obtain b where b: "array_sized d (int (length xs)) = Ret b" "holds b [] (length xs + 0)"
    using array_sized_holds [of d "length xs"] by auto
  from assms(1) have "cw_array l < length (cw_heap l)" by (simp add: cow_ok_def)
  from keep_loop_effect [OF this old_array_ok(1) [OF assms(1)] _ b(2), of "[]" P l] b(1) old_array_ok(2) [of l] assms(2)
  show thesis using that by auto
qed

lemma cow_removeAll_effect:
  assumes "cow_ok l" and "cow_elems l = xs"
  shows "\<exists>l'. cow_removeAll d (quiet vs) l = (Ret (vs \<noteq> [] \<and> xs \<noteq> []), l') \<and> published l (filter (\<lambda>u. u \<notin> set vs) xs) l'"
proof (cases "vs = []")
  case True
  then show ?thesis using published_refl [OF assms(1)] assms(2) by (simp add: cow_removeAll_def quiet_def)
next
  case False
  then have n: "\<not> arg_isEmpty (quiet vs)" and c: "arg_contains (quiet vs) = (\<lambda>v. v \<in> set vs)" by (simp_all add: quiet_def)
  show ?thesis unfolding cow_removeAll_def if_not_P [OF n]
  proof (rule writer [OF _ assms], goal_cases)
    case (1 l)
    obtain b a where k: "array_sized d (int (length xs)) = Ret b"
      "keep_loop (length xs) (\<lambda>u. u \<notin> set vs) (cw_array l) 0 (length (cw_heap l)) 0 (l\<lparr>cw_heap := cw_heap l @ [b]\<rparr>)
        = (Ret (int (length (filter (\<lambda>u. u \<notin> set vs) xs))), l\<lparr>cw_heap := cw_heap l @ [a]\<rparr>)"
      "holds a (filter (\<lambda>u. u \<notin> set vs) xs) (length xs - length (filter (\<lambda>u. u \<notin> set vs) xs))"
      by (rule kept [OF 1(1,2)])
    define ys where "ys = filter (\<lambda>u. u \<notin> set vs) xs"
    note k = k [folded ys_def]
    have "\<exists>c m. (if int (length ys) = 0 then Ret array_null else array_copied d a (int (length ys))) = Ret c \<and> holds c ys m"
    proof (cases "ys = []")
      case True
      then show ?thesis using array_null_holds by (intro exI [of _ array_null] exI [of _ 0]) simp
    next
      case False
      then show ?thesis using array_copied_holds [OF holds_ok(1) [OF k(3)], of "length ys" d] holds_ok(2) [OF k(3)] by auto
    qed
    then obtain c m where c': "(if int (length ys) = 0 then Ret array_null else array_copied d a (int (length ys))) = Ret c" "holds c ys m"
      by blast
    have "published l ys (l\<lparr>cw_heap := cw_heap l @ [a] @ [c], cw_array := length (cw_heap l) + length [a]\<rparr>)"
      by (rule publish [OF 1(1) _ c'(2)]) (simp add: holds_ok(1) [OF k(3)])
    then show ?case
    proof (cases "xs = []")
      case True
      then show ?thesis using 1 published_refl [OF 1(1)] by (simp add: Let_def)
    next
      case False
      then show ?thesis using k(1,2) c'(1) \<open>vs \<noteq> []\<close> \<open>published l ys _\<close> unfolding Let_def 1(3) c ys_def [symmetric]
        by (cases "ys = []") (simp_all add: swap_in_def)
    qed
  qed
qed

lemma cow_retainAll_effect:
  assumes "cow_ok l" and "cow_elems l = xs"
  shows "\<exists>l'. cow_retainAll d (quiet vs) l = (Ret (xs \<noteq> []), l') \<and> published l (filter (\<lambda>u. u \<in> set vs) xs) l'"
  unfolding cow_retainAll_def
proof (rule writer [OF _ assms], goal_cases)
  case (1 l)
  obtain b a where k: "array_sized d (int (length xs)) = Ret b"
    "keep_loop (length xs) (\<lambda>u. u \<in> set vs) (cw_array l) 0 (length (cw_heap l)) 0 (l\<lparr>cw_heap := cw_heap l @ [b]\<rparr>)
      = (Ret (int (length (filter (\<lambda>u. u \<in> set vs) xs))), l\<lparr>cw_heap := cw_heap l @ [a]\<rparr>)"
    "holds a (filter (\<lambda>u. u \<in> set vs) xs) (length xs - length (filter (\<lambda>u. u \<in> set vs) xs))"
    by (rule kept [OF 1(1,2)])
  have q: "arg_contains (quiet vs) = (\<lambda>v. v \<in> set vs)" "arg_isEmpty (quiet vs) \<longleftrightarrow> vs = []" by (simp_all add: quiet_def)
  define ys where "ys = filter (\<lambda>u. u \<in> set vs) xs"
  note k = k [folded ys_def]
  have p: "published l ys (l\<lparr>cw_heap := cw_heap l @ [a], cw_array := length (cw_heap l)\<rparr>)" by (rule publish_one [OF 1(1) k(3)])
  have e: "published l [] (l\<lparr>cw_heap := cw_heap l @ [a] @ [array_null], cw_array := length (cw_heap l) + length [a]\<rparr>)"
    by (rule publish [OF 1(1) _ array_null_holds]) (simp add: holds_ok(1) [OF k(3)])
  show ?case
  proof (cases "xs = [] \<or> vs = []")
    case True
    then show ?thesis using 1 published_refl [OF 1(1)] publish_one [OF 1(1) array_null_holds] by (auto simp: Let_def q swap_in_def)
  next
    case False
    then show ?thesis using k(1,2) p e unfolding Let_def 1(3) q ys_def [symmetric] by (cases "ys = []") (simp_all add: swap_in_def)
  qed
qed

text \<open>The loop of \<^verbatim>\<open>addAllAbsent\<close> compares with the list only, not with what the buffer already has.\<close>

lemma absent_loop_effect:
  assumes "cow_ok l" and "holds a us (length vs + k)"
  shows "\<exists>a'. absent_loop (length (cw_heap l)) (int (length us)) vs (l\<lparr>cw_heap := cw_heap l @ [a]\<rparr>)
      = (Ret (int (length (us @ filter (\<lambda>v. v \<notin> set (cow_elems l)) vs))), l\<lparr>cw_heap := cw_heap l @ [a']\<rparr>)
     \<and> holds a' (us @ filter (\<lambda>v. v \<notin> set (cow_elems l)) vs) (length vs + k - length (filter (\<lambda>v. v \<notin> set (cow_elems l)) vs))"
  using assms(2)
proof (induction vs arbitrary: us a k)
  case Nil
  then show ?case by auto
next
  case (Cons v vs)
  have "snapshot (l\<lparr>cw_heap := cw_heap l @ [a]\<rparr>) = snapshot l" using assms(1) by (simp add: snapshot_def cow_ok_def nth_append)
  then have i: "cow_indexOf v (l\<lparr>cw_heap := cw_heap l @ [a]\<rparr>) = Ret (first_index v (cow_elems l))"
    using cow_indexOf_effect [OF assms(1), of v] by (simp add: cow_indexOf_def)
  show ?case
  proof (cases "v \<in> set (cow_elems l)")
    case False
    have "holds a us (Suc (length vs + k))" using Cons.prems by simp
    from push_effect [OF this, of "cw_heap l" v l] obtain a1 a2
      where s: "store (length (cw_heap l)) (int (length us)) v (l\<lparr>cw_heap := cw_heap l @ [a]\<rparr>) = (Ret (), l\<lparr>cw_heap := cw_heap l @ [a1]\<rparr>)"
      "length_of (length (cw_heap l)) (l\<lparr>cw_heap := cw_heap l @ [a1]\<rparr>) = int (length us)"
      "resize (length (cw_heap l)) (int (length us) + 1) (l\<lparr>cw_heap := cw_heap l @ [a1]\<rparr>) = l\<lparr>cw_heap := cw_heap l @ [a2]\<rparr>"
      "holds a2 (us @ [v]) (length vs + k)" .
    from Cons.IH [OF s(4)] s(1-3) i False show ?thesis by (simp add: first_index_def add.commute)
  next
    case True
    have "holds a us (length vs + Suc k)" using Cons.prems by simp
    from Cons.IH [OF this] i True show ?thesis by (simp add: first_index_def)
  qed
qed

lemma cow_addAllAbsent_effect:
  assumes "cow_ok l" and "cow_elems l = xs"
  shows "\<exists>l'. cow_addAllAbsent d (quiet vs) l = (Ret (int (length (filter (\<lambda>v. v \<notin> set xs) vs))), l')
     \<and> published l (xs @ filter (\<lambda>v. v \<notin> set xs) vs) l'"
proof (cases "vs = []")
  case True
  then show ?thesis using published_refl [OF assms(1)] assms(2) by (simp add: cow_addAllAbsent_def quiet_def)
next
  case False
  then have n: "arg_size (quiet vs) \<noteq> 0" and q: "arg_size (quiet vs) = int (length vs)" "arg_elements (quiet vs) = vs"
    by (simp_all add: quiet_def)
  show ?thesis unfolding cow_addAllAbsent_def if_not_P [OF n]
  proof (rule writer [OF _ assms], goal_cases)
    case (1 l)
    define ys where "ys = filter (\<lambda>v. v \<notin> set xs) vs"
    obtain b where b: "array_sized d (int (length vs)) = Ret b" "holds b [] (length vs + 0)"
      using array_sized_holds [of d "length vs"] by auto
    obtain a where a: "absent_loop (length (cw_heap l)) 0 vs (l\<lparr>cw_heap := cw_heap l @ [b]\<rparr>) = (Ret (int (length ys)), l\<lparr>cw_heap := cw_heap l @ [a]\<rparr>)"
      "holds a ys (length vs - length ys)"
      using absent_loop_effect [OF 1(1) b(2)] 1(2) by (auto simp: ys_def)
    obtain c where c: "array_copied d (cw_heap l ! cw_array l) (int (length xs) + int (length ys)) = Ret c" "holds c xs (length ys)"
      using copied_old [OF 1(1), of d "length ys"] 1(2) by auto
    have old: "cw_array l < length (cw_heap l)" using 1(1) by (simp add: cow_ok_def)
    let ?c = "c\<lparr>ca_elements := xs @ ys\<rparr>"
    have "length ys \<le> length vs" by (simp add: ys_def)
    then have len: "length xs + length ys = length (ca_elements c)" "take (length xs) (ca_elements c) = xs" "take (length ys) (ca_elements a) = ys"
      "length (ca_elements a) = length vs" "length ys \<le> length vs" "ca_capacity c = int (length xs + length ys)"
      using a(2) c(2) by (auto simp: holds_def)
    moreover have "ca_elements a \<noteq> []" using len(4) False by auto
    ultimately have t: "transfer_part (length (cw_heap l)) 0 (Suc (length (cw_heap l))) (int (length xs)) (int (length ys)) (l\<lparr>cw_heap := cw_heap l @ [a, c]\<rparr>)
      = (Ret (), l\<lparr>cw_heap := cw_heap l @ [a, ?c]\<rparr>)"
      using transfer_effect [of "length (cw_heap l)" "cw_heap l @ [a]" 0 "length ys" "length xs" c l] by simp
    have "holds (?c\<lparr>ca_size := int (length xs) + int (length ys)\<rparr>) (xs @ ys) 0" using len(6) by (simp add: holds_full)
    from publish [OF 1(1) _ this, of "[a]"] holds_ok(1) [OF a(2)]
    have "published l (xs @ ys) (l\<lparr>cw_heap := cw_heap l @ [a, ?c\<lparr>ca_size := int (length xs) + int (length ys)\<rparr>], cw_array := Suc (length (cw_heap l))\<rparr>)"
      by simp
    then show ?case using b(1) a(1) c(1) t old unfolding Let_def 1(3) q ys_def [symmetric]
      by (simp add: swap_in_def resize_def nth_append list_update_append)
  qed
qed

section \<open>Construction and iterators\<close>

lemma cow_new_ok: "cow_ok cow_new" "cow_elems cow_new = []"
  by (simp_all add: cow_ok_def cow_new_def carr_ok_def array_null_def cow_elems_def snapshot_def carr_elems_def)

lemma cow_from_effect: "\<exists>l. cow_from d (quiet vs) = (Ret (), l) \<and> published cow_new vs l"
  using doCopyCollection_effect [OF cow_new_ok(1), of d vs] by (simp add: cow_from_def cow_new_ok)

text \<open>The array of a list made from a collection has no room left.\<close>

lemma cow_from_exact:
  assumes "vs \<noteq> []"
  shows "\<exists>l. cow_from d (quiet vs) = (Ret (), l) \<and> ca_elements (cw_heap l ! cw_array l) = vs"
proof -
  define l0 :: "'a cow" where "l0 = cow_new\<lparr>cw_hold := 1\<rparr>"
  have l0: "cw_heap l0 = [array_null]" "cw_array l0 = 0" "length_of 0 l0 = 0" "cow_ok l0" "cow_elems l0 = []"
    by (simp_all add: l0_def cow_new_ok) (simp_all add: cow_new_def length_of_def array_null_def)
  obtain b where b: "array_copied d array_null (int (length vs)) = Ret b" "holds b [] (length vs + 0)"
    using copied_old [OF l0(4), of d "length vs"] l0 by auto
  obtain a where a: "fill_each (length (cw_heap l0)) 0 vs (l0\<lparr>cw_heap := cw_heap l0 @ [b]\<rparr>) = (Ret (), l0\<lparr>cw_heap := cw_heap l0 @ [a]\<rparr>)"
    "holds a vs 0"
    using fill_each_effect [OF b(2), of "cw_heap l0" l0] by auto
  have "arg_elements (quiet vs) = vs" "arg_size (quiet vs) = int (length vs)" "\<not> (arg_same (quiet vs) \<or> arg_isEmpty (quiet vs))"
    using assms by (simp_all add: quiet_def)
  then show ?thesis using a b(1) l0(3) unfolding cow_from_def doCopyCollection_def write_locked_def
    by (simp add: Let_def swap_in_def holds_full l0_def cow_new_def)
qed

lemma array_loop_effect:
  assumes "i + n \<le> length vs" and "holds a (take i vs) (n + k)"
  shows "\<exists>a'. array_loop n (int i) vs (length h) (l\<lparr>cw_heap := h @ [a]\<rparr>) = (Ret (), l\<lparr>cw_heap := h @ [a']\<rparr>)
     \<and> holds a' (take (i + n) vs) k"
  using assms
proof (induction n arbitrary: i a)
  case (Suc n)
  have "holds a (take i vs) (Suc (n + k))" "length (take i vs) = i" using Suc.prems by simp_all
  from push_effect [OF this(1), of h "vs ! i" l, unfolded this(2)] obtain a1 a2
    where s: "store (length h) (int i) (vs ! i) (l\<lparr>cw_heap := h @ [a]\<rparr>) = (Ret (), l\<lparr>cw_heap := h @ [a1]\<rparr>)"
    "length_of (length h) (l\<lparr>cw_heap := h @ [a1]\<rparr>) = int i"
    "resize (length h) (int i + 1) (l\<lparr>cw_heap := h @ [a1]\<rparr>) = l\<lparr>cw_heap := h @ [a2]\<rparr>" "holds a2 (take i vs @ [vs ! i]) (n + k)" .
  have "holds a2 (take (Suc i) vs) (n + k)" using s(4) Suc.prems(1) by (simp add: take_Suc_conv_app_nth)
  from Suc.IH [OF _ this] Suc.prems(1) s(1-3) show ?case by (simp add: add.commute)
qed auto

lemma cow_from_array_effect:
  assumes "n \<le> length vs"
  shows "\<exists>l. cow_from_array d vs (int n) = (Ret (), l) \<and> published cow_new (take n vs) l"
proof -
  obtain b where b: "array_sized d (int n) = Ret b" "holds b [] n" using array_sized_holds [of d n] by blast
  define l0 :: "'a cow" where "l0 = cow_new"
  obtain a where a: "array_loop n 0 vs (length (cw_heap l0)) (l0\<lparr>cw_heap := cw_heap l0 @ [b]\<rparr>)
      = (Ret (), l0\<lparr>cw_heap := cw_heap l0 @ [a]\<rparr>)" "holds a (take n vs) 0"
    using array_loop_effect [of 0 n vs b 0 "cw_heap l0" l0] assms b(2) by auto
  moreover have "cow_ok l0" by (simp add: l0_def cow_new_ok)
  ultimately show ?thesis using b(1) publish_one [OF _ a(2), of l0] unfolding l0_def [symmetric] by (simp add: cow_from_array_def swap_in_def flip: l0_def)
qed

text \<open>An iterator stands between the elements of the array it was made for.\<close>

definition ci_at :: "'a cow \<Rightarrow> citer \<Rightarrow> 'a list \<Rightarrow> 'a list \<Rightarrow> bool" where
  "ci_at l it xs ys \<longleftrightarrow> ci_array it < length (cw_heap l) \<and> carr_ok (cw_heap l ! ci_array it)
     \<and> carr_elems (cw_heap l ! ci_array it) = xs @ ys \<and> ci_position it = int (length xs)"

lemma cow_iterator_effect:
  "cow_ok l \<Longrightarrow> \<exists>it. cow_iterator l = Ret it \<and> ci_at l it [] (cow_elems l)"
  using length_of_elems [of l] old_array_ok [of l] by (simp add: cow_iterator_def ci_new_def ci_at_def cow_ok_def)

lemma cow_listIterator_effect:
  assumes "cow_ok l"
  shows "if 0 \<le> i \<and> i \<le> int (length (cow_elems l))
     then \<exists>it. cow_listIterator i l = Ret it \<and> ci_at l it (take (nat i) (cow_elems l)) (drop (nat i) (cow_elems l))
     else cow_listIterator i l = Throw (IndexOutOfBoundsException ''Iterator created with invalid index.'')"
  using length_of_elems [OF assms] old_array_ok [of l] assms
  by (auto simp: cow_listIterator_def ci_new_def ci_at_def cow_ok_def)

lemma ci_at_size: "ci_at l it xs ys \<Longrightarrow> length_of (ci_array it) l = int (length xs + length ys)"
  using ok_size_elems [of "cw_heap l ! ci_array it"] by (simp add: ci_at_def length_of_def)

lemma ci_at_hasNext: "ci_at l it xs ys \<Longrightarrow> ci_hasNext l it \<longleftrightarrow> ys \<noteq> []"
  using ci_at_size [of l it xs ys] by (auto simp: ci_hasNext_def ci_at_def)

lemma ci_at_next:
  assumes "ci_at l it xs (y # ys)"
  shows "\<exists>it'. ci_next l it = (Ret y, it') \<and> ci_at l it' (xs @ [y]) ys"
proof -
  have "element (cw_heap l ! ci_array it) (ci_position it) = Ret y"
    using element_elems [of "cw_heap l ! ci_array it" "ci_position it"] ci_at_size [OF assms] assms
    by (simp add: ci_at_def length_of_def)
  then show ?thesis using assms ci_at_size [OF assms] by (simp add: ci_next_def ci_at_def add.commute)
qed

lemma ci_at_end: "ci_at l it xs [] \<Longrightarrow> ci_next l it = (Throw (NoSuchElementException ''''), it)"
  using ci_at_size [of l it xs "[]"] by (simp add: ci_next_def ci_at_def)

text \<open>What a writer does is not seen by an iterator that is there.\<close>

lemma ci_at_stable:
  assumes "ci_at l it xs ys" and "prefix (cw_heap l) (cw_heap l')"
  shows "ci_at l' it xs ys"
  using assms by (auto simp: ci_at_def prefix_def nth_append)

lemma equals_loop_effect: "ci_at l it xs ys \<Longrightarrow> equals_loop l it vs = Ret (ys = vs)"
proof (induction vs arbitrary: it xs ys)
  case Nil
  then show ?case by (simp add: ci_at_hasNext)
next
  case (Cons v vs)
  show ?case
  proof (cases ys)
    case Nil
    then show ?thesis using Cons.prems by (simp add: ci_at_hasNext)
  next
    case y: (Cons y zs)
    then obtain it' where "ci_next l it = (Ret y, it')" "ci_at l it' (xs @ [y]) zs"
      using ci_at_next [of l it xs y zs] Cons.prems by auto
    with Cons.IH y Cons.prems show ?thesis by (simp add: ci_at_hasNext)
  qed
qed

lemma cow_equals_effect: "cow_ok l \<Longrightarrow> cow_equals True (quiet vs) l = Ret (cow_elems l = vs)"
  using cow_iterator_effect [of l] equals_loop_effect [of l _ "[]" "cow_elems l" vs]
  by (auto simp: cow_equals_def quiet_def cow_size_effect)

section \<open>Properties\<close>

text \<open>The calls of a client, with what they return, and what they do to a sequence.\<close>

datatype 'a cow_call =
    CAdd 'a | CAddAll "'a list" | CAddAt int 'a | CAddAllAt int "'a list" | CAddIfAbsent 'a | CAddAllAbsent "'a list"
  | CSet int 'a | CRemove 'a | CRemoveAt int | CRemoveAll "'a list" | CRetainAll "'a list" | CClear | CCopy "'a list"
  | CGet int | CIndexOf 'a | CLastIndexOf 'a | CContains 'a | CContainsAll "'a list" | CEquals "'a list" | CSize | CToArray

datatype 'a cow_answer = AUnit | ABool bool | AInt int | AElem 'a | AList "'a list"

fun answer :: "('b \<Rightarrow> 'a cow_answer) \<Rightarrow> 'b outcome \<times> 's \<Rightarrow> 'a cow_answer outcome \<times> 's" where
  "answer f (Ret v, s) = (Ret (f v), s)"
| "answer f (Throw x, s) = (Throw x, s)"
| "answer f (Undefined u, s) = (Undefined u, s)"

fun cow_run :: "'a \<Rightarrow> 'a cow_call \<Rightarrow> 'a cow \<Rightarrow> 'a cow_answer outcome \<times> 'a cow" where
  "cow_run d (CAdd v) l = answer ABool (cow_add d v l)"
| "cow_run d (CAddAll vs) l = answer ABool (cow_addAll d (quiet vs) l)"
| "cow_run d (CAddAt i v) l = answer (\<lambda>_. AUnit) (cow_add_at d i v l)"
| "cow_run d (CAddAllAt i vs) l = answer ABool (cow_addAll_at d i (quiet vs) l)"
| "cow_run d (CAddIfAbsent v) l = answer ABool (cow_addIfAbsent d v l)"
| "cow_run d (CAddAllAbsent vs) l = answer AInt (cow_addAllAbsent d (quiet vs) l)"
| "cow_run d (CSet i v) l = answer AElem (cow_set d i v l)"
| "cow_run d (CRemove v) l = answer ABool (cow_remove d v l)"
| "cow_run d (CRemoveAt i) l = answer AElem (cow_removeAt d i l)"
| "cow_run d (CRemoveAll vs) l = answer ABool (cow_removeAll d (quiet vs) l)"
| "cow_run d (CRetainAll vs) l = answer ABool (cow_retainAll d (quiet vs) l)"
| "cow_run d CClear l = answer (\<lambda>_. AUnit) (cow_clear l)"
| "cow_run d (CCopy vs) l = answer (\<lambda>_. AUnit) (cow_copy d (quiet vs) l)"
| "cow_run d (CGet i) l = answer AElem (cow_get i l, l)"
| "cow_run d (CIndexOf v) l = answer AInt (cow_indexOf v l, l)"
| "cow_run d (CLastIndexOf v) l = answer AInt (cow_lastIndexOf v l, l)"
| "cow_run d (CContains v) l = answer ABool (cow_contains v l, l)"
| "cow_run d (CContainsAll vs) l = answer ABool (cow_containsAll vs l, l)"
| "cow_run d (CEquals vs) l = answer ABool (cow_equals True (quiet vs) l, l)"
| "cow_run d CSize l = (Ret (AInt (cow_size l)), l)"
| "cow_run d CToArray l = answer AList (cow_toArray l, l)"

fun cow_spec :: "'a cow_call \<Rightarrow> 'a list \<Rightarrow> 'a cow_answer outcome \<times> 'a list" where
  "cow_spec (CAdd v) xs = (Ret (ABool True), xs @ [v])"
| "cow_spec (CAddAll vs) xs = (Ret (ABool True), xs @ vs)"
| "cow_spec (CAddAt i v) xs =
     (if 0 \<le> i \<and> i \<le> int (length xs) then (Ret AUnit, take (nat i) xs @ v # drop (nat i) xs)
      else (Throw (IndexOutOfBoundsException ''Index is %d, size is %d''), xs))"
| "cow_spec (CAddAllAt i vs) xs =
     (if 0 \<le> i \<and> i \<le> int (length xs) then (Ret (ABool (vs \<noteq> [])), take (nat i) xs @ vs @ drop (nat i) xs)
      else (Throw (IndexOutOfBoundsException ''Index is %d, size is %d''), xs))"
| "cow_spec (CAddIfAbsent v) xs = (Ret (ABool (v \<notin> set xs)), if v \<in> set xs then xs else xs @ [v])"
| "cow_spec (CAddAllAbsent vs) xs =
     (Ret (AInt (int (length (filter (\<lambda>v. v \<notin> set xs) vs)))), xs @ filter (\<lambda>v. v \<notin> set xs) vs)"
| "cow_spec (CSet i v) xs =
     (if 0 \<le> i \<and> i < int (length xs) then (Ret (AElem (xs ! nat i)), xs[nat i := v])
      else (Throw (IndexOutOfBoundsException ''Index is %d, size is %d''), xs))"
| "cow_spec (CRemove v) xs = (Ret (ABool (v \<in> set xs)), remove1 v xs)"
| "cow_spec (CRemoveAt i) xs =
     (if 0 \<le> i \<and> i < int (length xs) then (Ret (AElem (xs ! nat i)), take (nat i) xs @ drop (Suc (nat i)) xs)
      else (Throw (IndexOutOfBoundsException ''Index is %d, size is %d''), xs))"
| "cow_spec (CRemoveAll vs) xs = (Ret (ABool (vs \<noteq> [] \<and> xs \<noteq> [])), filter (\<lambda>u. u \<notin> set vs) xs)"
| "cow_spec (CRetainAll vs) xs = (Ret (ABool (xs \<noteq> [])), filter (\<lambda>u. u \<in> set vs) xs)"
| "cow_spec CClear xs = (Ret AUnit, [])"
| "cow_spec (CCopy vs) xs = (Ret AUnit, vs)"
| "cow_spec (CGet i) xs =
     (if 0 \<le> i \<and> i < int (length xs) then (Ret (AElem (xs ! nat i)), xs)
      else (Throw (IndexOutOfBoundsException ''Index is %d, size is %d''), xs))"
| "cow_spec (CIndexOf v) xs = (Ret (AInt (first_index v xs)), xs)"
| "cow_spec (CLastIndexOf v) xs = (Ret (AInt (last_index v xs)), xs)"
| "cow_spec (CContains v) xs = (Ret (ABool (v \<in> set xs)), xs)"
| "cow_spec (CContainsAll vs) xs = (Ret (ABool (set vs \<subseteq> set xs)), xs)"
| "cow_spec (CEquals vs) xs = (Ret (ABool (xs = vs)), xs)"
| "cow_spec CSize xs = (Ret (AInt (int (length xs))), xs)"
| "cow_spec CToArray xs = (Ret (AList xs), xs)"

lemma answer_writer:
  assumes "\<exists>l'. r = (x, l') \<and> published l ys l'"
  shows "\<exists>l'. answer f r = (fst (answer f (x, ())), l') \<and> published l ys l'"
  using assms by (cases x) auto

lemma cow_run_step:
  assumes "cow_ok l"
  shows "\<exists>l'. cow_run d c l = (fst (cow_spec c (cow_elems l)), l') \<and> published l (snd (cow_spec c (cow_elems l))) l'"
proof (cases c)
  case (CAdd v)
  then show ?thesis using answer_writer [OF cow_add_effect [OF assms, of d v], of ABool] by simp
next
  case (CAddAll vs)
  then show ?thesis using answer_writer [OF cow_addAll_effect [OF assms, of d vs], of ABool] by simp
next
  case (CAddAt i v)
  then show ?thesis using answer_writer [OF cow_add_at_effect [OF assms refl, of d i v], of "\<lambda>_. AUnit"] by (auto split: if_splits)
next
  case (CAddAllAt i vs)
  then show ?thesis using answer_writer [OF cow_addAll_at_effect [OF assms refl, of d i vs], of ABool] by (auto split: if_splits)
next
  case (CAddIfAbsent v)
  then show ?thesis using answer_writer [OF cow_addIfAbsent_effect [OF assms, of d v], of ABool] by simp
next
  case (CAddAllAbsent vs)
  then show ?thesis using answer_writer [OF cow_addAllAbsent_effect [OF assms refl, of d vs], of AInt] by simp
next
  case (CSet i v)
  then show ?thesis using answer_writer [OF cow_set_effect [OF assms, of d i v], of AElem] by (auto split: if_splits)
next
  case (CRemove v)
  then show ?thesis using answer_writer [OF cow_remove_effect [OF assms, of d v], of ABool] by simp
next
  case (CRemoveAt i)
  then show ?thesis using answer_writer [OF cow_removeAt_effect [OF assms refl, of d i], of AElem] by (auto split: if_splits)
next
  case (CRemoveAll vs)
  then show ?thesis using answer_writer [OF cow_removeAll_effect [OF assms refl, of d vs], of ABool] by simp
next
  case (CRetainAll vs)
  then show ?thesis using answer_writer [OF cow_retainAll_effect [OF assms refl, of d vs], of ABool] by simp
next
  case CClear
  then show ?thesis using answer_writer [OF cow_clear_effect [OF assms], of "\<lambda>_. AUnit"] by simp
next
  case (CCopy vs)
  then show ?thesis using answer_writer [OF cow_copy_effect [OF assms, of d vs], of "\<lambda>_. AUnit"] by simp
qed (use assms published_refl [OF assms] in \<open>simp_all add: cow_get_effect cow_indexOf_effect cow_lastIndexOf_effect
  cow_contains_effect cow_containsAll_effect cow_equals_effect cow_size_effect cow_toArray_effect\<close>)

fun runs :: "('c \<Rightarrow> 's \<Rightarrow> 'r \<times> 's) \<Rightarrow> 'c list \<Rightarrow> 's \<Rightarrow> 'r list \<times> 's" where
  "runs f [] s = ([], s)"
| "runs f (c # cs) s = (case f c s of (r, s1) \<Rightarrow> (case runs f cs s1 of (rs, s2) \<Rightarrow> (r # rs, s2)))"

lemma cow_run_steps:
  "cow_ok l \<Longrightarrow> \<exists>l'. runs (cow_run d) cs l = (fst (runs cow_spec cs (cow_elems l)), l')
     \<and> published l (snd (runs cow_spec cs (cow_elems l))) l'"
proof (induction cs arbitrary: l)
  case Nil
  then show ?case by (simp add: published_refl)
next
  case (Cons c cs)
  obtain l1 where l1: "cow_run d c l = (fst (cow_spec c (cow_elems l)), l1)" "published l (snd (cow_spec c (cow_elems l))) l1"
    using cow_run_step [OF Cons.prems] by blast
  then have "cow_ok l1" "cow_elems l1 = snd (cow_spec c (cow_elems l))" by (simp_all add: published_def)
  with Cons.IH [of l1] l1 published_trans [OF l1(2)] show ?case by (auto split: prod.split)
qed


text \<open>
  Several threads use one list.  A call of a writer is one step, as the write lock keeps all other callers out, and a reader
  takes the array in one step under the read lock.  The calls of an iterator need no lock and may come at any time between
  them.  \<open>wd_seen\<close> is what the iterator of a thread has returned so far, \<open>wd_start\<close> what the list held when it was made.
\<close>

record 'a cow_world =
  wd_list :: "'a cow"
  wd_iter :: "nat \<Rightarrow> citer option"
  wd_seen :: "nat \<Rightarrow> 'a list"
  wd_start :: "nat \<Rightarrow> 'a list"

definition world :: "'a cow \<Rightarrow> 'a cow_world" where
  "world l = \<lparr>wd_list = l, wd_iter = Map.empty, wd_seen = (\<lambda>_. []), wd_start = (\<lambda>_. [])\<rparr>"

inductive cow_step :: "'a \<Rightarrow> 'a cow_world \<Rightarrow> 'a cow_world \<Rightarrow> bool" for d where
  Call: "cow_run d c (wd_list w) = (r, l') \<Longrightarrow> cow_step d w (w\<lparr>wd_list := l'\<rparr>)"
| Open: "cow_iterator (wd_list w) = Ret it \<Longrightarrow>
     cow_step d w (w\<lparr>wd_iter := (wd_iter w)(t \<mapsto> it), wd_seen := (wd_seen w)(t := []),
       wd_start := (wd_start w)(t := cow_elems (wd_list w))\<rparr>)"
| Next: "wd_iter w t = Some it \<Longrightarrow> ci_next (wd_list w) it = (Ret v, it') \<Longrightarrow>
     cow_step d w (w\<lparr>wd_iter := (wd_iter w)(t \<mapsto> it'), wd_seen := (wd_seen w)(t := wd_seen w t @ [v])\<rparr>)"



definition world_ok :: "'a cow_world \<Rightarrow> bool" where
  "world_ok w \<longleftrightarrow> cow_ok (wd_list w) \<and> (\<forall>t it. wd_iter w t = Some it \<longrightarrow>
     (\<exists>ys. wd_start w t = wd_seen w t @ ys \<and> ci_at (wd_list w) it (wd_seen w t) ys))"

lemma world_okD:
  assumes "world_ok w" and "wd_iter w t = Some it"
  obtains ys where "wd_start w t = wd_seen w t @ ys" and "ci_at (wd_list w) it (wd_seen w t) ys"
  using assms unfolding world_ok_def by blast

lemma world_ok_step:
  assumes "world_ok w" and "cow_step d w w'"
  shows "world_ok w'"
  using assms(2)
proof cases
  case 1: (Call c r l')
  have "cow_ok (wd_list w)" using assms(1) by (simp add: world_ok_def)
  from cow_run_step [OF this, of d c] 1(2) have p: "cow_ok l'" "prefix (cw_heap (wd_list w)) (cw_heap l')"
    by (auto simp: published_def)
  show ?thesis unfolding world_ok_def
  proof (intro conjI allI impI)
    show "cow_ok (wd_list w')" using 1(1) p(1) by simp
    fix t it assume "wd_iter w' t = Some it"
    then have "wd_iter w t = Some it" using 1(1) by simp
    then obtain ys where "wd_start w t = wd_seen w t @ ys" "ci_at (wd_list w) it (wd_seen w t) ys" by (rule world_okD [OF assms(1)])
    then show "\<exists>ys. wd_start w' t = wd_seen w' t @ ys \<and> ci_at (wd_list w') it (wd_seen w' t) ys"
      using ci_at_stable [OF _ p(2)] 1(1) by simp
  qed
next
  case 2: (Open it t)
  have ok: "cow_ok (wd_list w)" using assms(1) by (simp add: world_ok_def)
  with cow_iterator_effect [OF ok] 2 assms(1) show ?thesis by (auto simp: world_ok_def)
next
  case 3: (Next t it v it')
  obtain ys where ys: "wd_start w t = wd_seen w t @ ys" "ci_at (wd_list w) it (wd_seen w t) ys" by (rule world_okD [OF assms(1) 3(2)])
  show ?thesis
  proof (cases ys)
    case Nil
    then show ?thesis using ci_at_end [of "wd_list w" it "wd_seen w t"] ys(2) 3(3) by simp
  next
    case (Cons z zs)
    with ci_at_next [of "wd_list w" it "wd_seen w t" z zs] ys 3 assms(1) show ?thesis by (auto simp: world_ok_def)
  qed
qed

interpretation cow_iters: step_system "\<lambda>w. \<exists>l. cow_ok l \<and> w = world l" "cow_step d" world_ok for d
proof
  show "\<exists>l. cow_ok l \<and> w = world l \<Longrightarrow> world_ok w" for w :: "'a cow_world" by (auto simp: world_ok_def world_def)
  show "world_ok w \<Longrightarrow> cow_step d w w' \<Longrightarrow> world_ok w'" for w w' :: "'a cow_world" by (rule world_ok_step)
qed

text \<open>
  C30: An iterator shows the list as it was when the iterator was made, whatever other threads do to the list meanwhile: what
  it has returned is a prefix of the contents of that moment, it has a next element as long as one of these is missing, and
  \<^verbatim>\<open>next\<close> returns that one.
\<close>

theorem cow_snapshot_iteration:
  assumes "cow_ok l" and "(cow_step d)\<^sup>*\<^sup>* (world l) w" and "wd_iter w t = Some it"
  shows "\<exists>ys. wd_start w t = wd_seen w t @ ys \<and> (ci_hasNext (wd_list w) it \<longleftrightarrow> ys \<noteq> [])
     \<and> fst (ci_next (wd_list w) it) = (case ys of [] \<Rightarrow> Throw (NoSuchElementException '''') | y # _ \<Rightarrow> Ret y)"
proof -
  have "world_ok w" using cow_iters.invar_reachable [OF _ assms(2)] assms(1) by blast
  then obtain ys where "wd_start w t = wd_seen w t @ ys" "ci_at (wd_list w) it (wd_seen w t) ys" using assms(3) by (rule world_okD)
  then show ?thesis using ci_at_hasNext [of "wd_list w" it] ci_at_end [of "wd_list w" it] ci_at_next [of "wd_list w" it]
    by (intro exI [of _ ys]) (cases ys; fastforce)
qed

definition cow_demo :: "nat cow" where
  "cow_demo = \<lparr>cw_heap = [\<lparr>ca_size = 2, ca_capacity = 2, ca_elements = [7, 8]\<rparr>], cw_array = 0, cw_hold = 0\<rparr>"

lemma cow_demo_ok: "cow_ok cow_demo" "cow_elems cow_demo = [7, 8]"
  by (simp_all add: cow_demo_def cow_ok_def carr_ok_def cow_elems_def snapshot_def carr_elems_def)

text \<open>A thread opens an iterator, another one clears the list, and the first one still sees both elements.\<close>

theorem cow_snapshot_iteration_witness:
  "\<exists>w it. (cow_step 0)\<^sup>*\<^sup>* (world cow_demo) w \<and> wd_iter w 1 = Some it \<and> cow_elems (wd_list w) = []
     \<and> wd_start w 1 = [7, 8] \<and> fst (ci_next (wd_list w) it) = Ret 7"
proof -
  let ?it = "\<lparr>ci_array = 0, ci_position = 0\<rparr>"
  let ?w1 = "(world cow_demo)\<lparr>wd_iter := (wd_iter (world cow_demo))(1 \<mapsto> ?it), wd_seen := (wd_seen (world cow_demo))(1 := []),
       wd_start := (wd_start (world cow_demo))(1 := cow_elems (wd_list (world cow_demo)))\<rparr>"
  obtain l' where l': "cow_clear cow_demo = (Ret (), l')" "published cow_demo [] l'" using cow_clear_effect [OF cow_demo_ok(1)] by blast
  have "cow_step 0 (world cow_demo) ?w1"
    by (rule Open) (simp add: world_def cow_iterator_def ci_new_def cow_demo_def length_of_def)
  moreover have "cow_step 0 ?w1 (?w1\<lparr>wd_list := l'\<rparr>)" by (rule Call [of _ CClear]) (simp add: world_def l'(1))
  ultimately have r: "(cow_step 0)\<^sup>*\<^sup>* (world cow_demo) (?w1\<lparr>wd_list := l'\<rparr>)"
    by (rule converse_rtranclp_into_rtranclp [OF _ r_into_rtranclp])
  from cow_snapshot_iteration [OF cow_demo_ok(1) r, of 1 ?it] have "fst (ci_next l' ?it) = Ret 7"
    by (auto simp: world_def cow_demo_ok)
  then show ?thesis using r l'(2) by (intro exI [of _ "?w1\<lparr>wd_list := l'\<rparr>"] exI [of _ ?it]) (simp add: world_def cow_demo_ok published_def)
qed

text \<open>
  \<^verbatim>\<open>previous\<close> of an iterator inside the list returns the element behind the iterator, the one \<^verbatim>\<open>next\<close> would
  return, and not the one before it.  Behind the last element of a list made from a collection it reads beyond the array.
\<close>

theorem cow_previous_wrong:
  assumes "cow_ok l" and "cow_elems l = xs @ [x, y] @ ys" and "cow_listIterator (int (length xs + 1)) l = Ret it"
  shows "ci_hasPrevious it \<and> fst (ci_previous l it) = Ret y \<and> fst (ci_next l it) = Ret y
     \<and> (\<exists>m jt. cow_from d (quiet (xs @ [x])) = (Ret (), m) \<and> cow_listIterator (int (length xs + 1)) m = Ret jt
          \<and> ci_hasPrevious jt \<and> fst (ci_previous m jt) = Undefined OutOfBounds)"
proof -
  have at: "ci_at l it (xs @ [x]) (y # ys)"
    using cow_listIterator_effect [OF assms(1), of "int (length xs + 1)"] assms(2,3) by (auto simp: nat_add_distrib)
  then have p: "ci_position it = int (length xs + 1)" by (simp add: ci_at_def)
  have n: "fst (ci_next l it) = Ret y" using ci_at_next [OF at] by auto
  then have "fst (ci_previous l it) = Ret y" using p ci_at_size [OF at] by (simp add: ci_previous_def ci_next_def)
  moreover obtain m where m: "cow_from d (quiet (xs @ [x])) = (Ret (), m)" "published cow_new (xs @ [x]) m"
    using cow_from_effect [of d "xs @ [x]"] by blast
  let ?jt = "\<lparr>ci_array = cw_array m, ci_position = int (length xs + 1)\<rparr>"
  have "cow_ok m" "cow_elems m = xs @ [x]" using m(2) by (simp_all add: published_def)
  then have "cow_listIterator (int (length xs + 1)) m = Ret ?jt" using length_of_elems [of m] by (simp add: cow_listIterator_def ci_new_def)
  moreover have "length (ca_elements (cw_heap m ! cw_array m)) = length xs + 1"
    using cow_from_exact [of "xs @ [x]" d] m(1) by simp
  ultimately show ?thesis using m(1) n p
    by (intro conjI exI [of _ m] exI [of _ ?jt]) (simp_all add: ci_hasPrevious_def ci_previous_def element_def)
qed

theorem cow_previous_wrong_witness:
  "\<exists>it. cow_listIterator 1 cow_demo = Ret it \<and> fst (ci_previous cow_demo it) = Ret 8"
proof -
  let ?it = "\<lparr>ci_array = 0, ci_position = 1\<rparr>"
  have "cow_listIterator 1 cow_demo = Ret ?it" by (simp add: cow_listIterator_def ci_new_def cow_demo_def length_of_def)
  then show ?thesis using cow_previous_wrong [of cow_demo "[]" 7 8 "[]" ?it] cow_demo_ok by simp
qed

text \<open>
  The answers of a list that another thread changes between \<^verbatim>\<open>size()\<close> and \<^verbatim>\<open>iterator()\<close>: the calls before are answered by
  one state, the iterator by a later one.
\<close>

definition observed :: "'a cow \<Rightarrow> 'a cow \<Rightarrow> 'a argument" where
  "observed before after = \<lparr>arg_same = False, arg_isEmpty = cow_isEmpty before, arg_size = cow_size before,
     arg_elements = cow_elems after, arg_contains = (\<lambda>v. v \<in> set (cow_elems after))\<rparr>"

lemma store_full: "holds a xs 0 \<Longrightarrow> store (length h) (int (length xs)) v (l\<lparr>cw_heap := h @ [a]\<rparr>) = (Undefined OutOfBounds, l\<lparr>cw_heap := h @ [a]\<rparr>)"
  by (simp add: holds_full store_def Let_def)

lemma append_each_overflow:
  assumes "holds a xs k" and "k < length vs"
  shows "fst (append_each (length h) vs (l\<lparr>cw_heap := h @ [a]\<rparr>)) = Undefined OutOfBounds"
  using assms
proof (induction vs arbitrary: xs a k)
  case (Cons v vs)
  have size: "length_of (length h) (l\<lparr>cw_heap := h @ [a]\<rparr>) = int (length xs)" using Cons.prems by (simp add: length_of_def holds_def)
  show ?case
  proof (cases k)
    case 0
    then show ?thesis using Cons.prems(1) size by (simp add: store_full)
  next
    case (Suc n)
    with Cons.prems(1) have "holds a xs (Suc n)" by simp
    from push_effect [OF this, of h v l] obtain a1 a2
      where s: "store (length h) (int (length xs)) v (l\<lparr>cw_heap := h @ [a]\<rparr>) = (Ret (), l\<lparr>cw_heap := h @ [a1]\<rparr>)"
      "length_of (length h) (l\<lparr>cw_heap := h @ [a1]\<rparr>) = int (length xs)"
      "resize (length h) (int (length xs) + 1) (l\<lparr>cw_heap := h @ [a1]\<rparr>) = l\<lparr>cw_heap := h @ [a2]\<rparr>" "holds a2 (xs @ [v]) n" .
    with Cons.IH [OF s(4)] Cons.prems(2) Suc size show ?thesis by simp
  qed
qed simp

text \<open>
  When another thread adds an element to the argument of \<^verbatim>\<open>addAll\<close> after its size was read and before its iterator is made,
  the element is written beyond the end of the new array.
\<close>

theorem cow_addAll_race:
  assumes "cow_ok l" and "cow_ok m"
  shows "fst (cow_addAll d (observed m (snd (cow_add e v m))) l) = Undefined OutOfBounds"
proof -
  obtain m' where m': "cow_add e v m = (Ret True, m')" "cow_elems m' = cow_elems m @ [v]"
    using cow_add_effect [OF assms(2), of e v] by (auto simp: published_def)
  define l1 where "l1 = l\<lparr>cw_hold := cw_hold l + 1\<rparr>"
  have ok: "cow_ok l1" using assms(1) by (simp add: l1_def)
  have o: "arg_size (observed m m') = int (length (cow_elems m))" "arg_elements (observed m m') = cow_elems m @ [v]"
    using cow_size_effect [OF assms(2)] m'(2) by (simp_all add: observed_def)
  obtain b where b: "array_copied d (cw_heap l1 ! cw_array l1) (int (length (cow_elems l1)) + int (length (cow_elems m))) = Ret b"
    "holds b (cow_elems l1) (length (cow_elems m))" by (rule copied_old [OF ok])
  have "fst (append_each (length (cw_heap l1)) (cow_elems m @ [v]) (l1\<lparr>cw_heap := cw_heap l1 @ [b]\<rparr>)) = Undefined OutOfBounds"
    by (rule append_each_overflow [OF b(2)]) simp
  then obtain s where "append_each (length (cw_heap l1)) (cow_elems m @ [v]) (l1\<lparr>cw_heap := cw_heap l1 @ [b]\<rparr>) = (Undefined OutOfBounds, s)"
    by (metis prod.collapse)
  then show ?thesis using b(1) m'(1) length_of_elems [OF ok] unfolding cow_addAll_def write_locked_def l1_def [symmetric] Let_def
    by (simp add: o)
qed

theorem cow_addAll_race_witness:
  "fst (cow_addAll 0 (observed cow_demo (snd (cow_add 0 9 cow_demo))) cow_demo) = Undefined OutOfBounds"
  by (rule cow_addAll_race) (simp_all add: cow_demo_ok)

end
