(* ===== verification/Copy_On_Write_Set.thy ===== *)
theory Copy_On_Write_Set
  imports Copy_On_Write
begin

text \<open>
  \<^verbatim>\<open>decaf::util::concurrent::CopyOnWriteArraySet\<close> (CopyOnWriteArraySet.h): a set that hands every call on to the
  copy-on-write list it has as its only member, so that its state is the state of that list.
\<close>

section \<open>Operations\<close>

definition cs_new :: "'a cow" where
  "cs_new = cow_new"

definition cs_copy :: "'a \<Rightarrow> 'a argument \<Rightarrow> 'a cow \<Rightarrow> unit outcome \<times> 'a cow" where
  "cs_copy d collection = cow_copy d collection"

definition cs_from :: "'a \<Rightarrow> 'a argument \<Rightarrow> unit outcome \<times> 'a cow" where
  "cs_from d collection = cs_copy d collection cs_new"

text \<open>The constructor from an array with \<open>n\<close> elements; \<open>vs\<close> are the elements that the array has.\<close>

fun insert_loop :: "'a \<Rightarrow> nat \<Rightarrow> nat \<Rightarrow> 'a list \<Rightarrow> 'a cow \<Rightarrow> unit outcome \<times> 'a cow" where
  "insert_loop d 0 i vs l = (Ret (), l)"
| "insert_loop d (Suc n) i vs l =
     (if i < length vs then and_then (cow_addIfAbsent d (vs ! i) l) (\<lambda>_ l. insert_loop d n (Suc i) vs l)
      else (Undefined OutOfBounds, l))"

definition cs_from_array :: "'a \<Rightarrow> 'a list \<Rightarrow> int \<Rightarrow> unit outcome \<times> 'a cow" where
  "cs_from_array d vs n = insert_loop d (nat n) 0 vs cs_new"

definition cs_iterator :: "'a cow \<Rightarrow> citer outcome" where
  "cs_iterator s = cow_iterator s"

definition cs_size :: "'a cow \<Rightarrow> int" where
  "cs_size s = cow_size s"

definition cs_isEmpty :: "'a cow \<Rightarrow> bool" where
  "cs_isEmpty s = cow_isEmpty s"

definition cs_add :: "'a \<Rightarrow> 'a \<Rightarrow> 'a cow \<Rightarrow> bool outcome \<times> 'a cow" where
  "cs_add d v = cow_addIfAbsent d v"

definition cs_addAll :: "'a \<Rightarrow> 'a argument \<Rightarrow> 'a cow \<Rightarrow> bool outcome \<times> 'a cow" where
  "cs_addAll d collection s =
     and_then (cow_addAllAbsent d collection s) (\<lambda>count s. (Ret (if count > 0 then True else False), s))"

definition cs_clear :: "'a cow \<Rightarrow> unit outcome \<times> 'a cow" where
  "cs_clear = cow_clear"

definition cs_contains :: "'a \<Rightarrow> 'a cow \<Rightarrow> bool outcome" where
  "cs_contains v s = cow_contains v s"

definition cs_containsAll :: "'a list \<Rightarrow> 'a cow \<Rightarrow> bool outcome" where
  "cs_containsAll vs s = cow_containsAll vs s"

definition cs_remove :: "'a \<Rightarrow> 'a \<Rightarrow> 'a cow \<Rightarrow> bool outcome \<times> 'a cow" where
  "cs_remove d v = cow_remove d v"

definition cs_removeAll :: "'a \<Rightarrow> 'a argument \<Rightarrow> 'a cow \<Rightarrow> bool outcome \<times> 'a cow" where
  "cs_removeAll d collection = cow_removeAll d collection"

definition cs_retainAll :: "'a \<Rightarrow> 'a argument \<Rightarrow> 'a cow \<Rightarrow> bool outcome \<times> 'a cow" where
  "cs_retainAll d collection = cow_retainAll d collection"

definition cs_toArray :: "'a cow \<Rightarrow> 'a list outcome" where
  "cs_toArray s = cow_toArray s"

text \<open>
  \<^verbatim>\<open>equals\<close> makes a copy of the list and marks in an array of flags which of its elements the other set has.  For an empty
  list \<^verbatim>\<open>ArrayPointer<bool>(0, false)\<close> has no \<^verbatim>\<open>ArrayData\<close>, and its destructor at the end follows the NULL pointer.
\<close>

fun match_loop :: "'a list \<Rightarrow> bool list \<Rightarrow> 'a cow \<Rightarrow> bool list outcome" where
  "match_loop [] matched l = Ret matched"
| "match_loop (v # vs) matched l =
     (case cow_indexOf v l of
        Ret matchedAt \<Rightarrow>
          if matchedAt \<ge> 0 then
            (if int (length matched) \<le> matchedAt
             then Throw (IndexOutOfBoundsException ''Array Index %d is out of bounds for this array.'')
             else match_loop vs (matched[nat matchedAt := True]) l)
          else match_loop vs matched l
      | Throw x \<Rightarrow> Throw x
      | Undefined f \<Rightarrow> Undefined f)"

definition cs_equals :: "'a \<Rightarrow> bool \<Rightarrow> 'a argument \<Rightarrow> 'a cow \<Rightarrow> bool outcome" where
  "cs_equals d is_set other s =
     (if arg_same other then Ret True
      else if \<not> is_set then Ret False
      else if cs_size s \<noteq> arg_size other then Ret False
      else
        (case cow_from d (observed s s) of
           (Ret _, array) \<Rightarrow>
             (let n = cow_size array in
              if n = 0 then Undefined NullDereference
              else
                (case match_loop (arg_elements other) (replicate (nat n) False) array of
                   Ret matched \<Rightarrow> Ret (False \<notin> set matched)
                 | Throw x \<Rightarrow> Throw x
                 | Undefined f \<Rightarrow> Undefined f))
         | (Throw x, _) \<Rightarrow> Throw x
         | (Undefined f, _) \<Rightarrow> Undefined f))"

section \<open>What the calls do\<close>

text \<open>A list without duplicates, seen as the set of its elements.\<close>

definition cs_ok :: "'a cow \<Rightarrow> bool" where
  "cs_ok s \<longleftrightarrow> cow_ok s \<and> distinct (cow_elems s)"

definition cs_abs :: "'a cow \<Rightarrow> 'a set" where
  "cs_abs s = set (cow_elems s)"

lemma cs_okI: "published l xs s \<Longrightarrow> distinct xs \<Longrightarrow> cs_ok s \<and> cs_abs s = set xs"
  by (simp add: published_def cs_ok_def cs_abs_def)

datatype 'a cs_call =
    SAdd 'a | SAddAll "'a list" | SRemove 'a | SRemoveAll "'a list" | SRetainAll "'a list" | SClear | SCopy "'a list"
  | SContains 'a | SContainsAll "'a list" | SSize

fun cs_run :: "'a \<Rightarrow> 'a cs_call \<Rightarrow> 'a cow \<Rightarrow> 'a cow_answer outcome \<times> 'a cow" where
  "cs_run d (SAdd v) s = answer ABool (cs_add d v s)"
| "cs_run d (SAddAll vs) s = answer ABool (cs_addAll d (quiet vs) s)"
| "cs_run d (SRemove v) s = answer ABool (cs_remove d v s)"
| "cs_run d (SRemoveAll vs) s = answer ABool (cs_removeAll d (quiet vs) s)"
| "cs_run d (SRetainAll vs) s = answer ABool (cs_retainAll d (quiet vs) s)"
| "cs_run d SClear s = answer (\<lambda>_. AUnit) (cs_clear s)"
| "cs_run d (SCopy vs) s = answer (\<lambda>_. AUnit) (cs_copy d (quiet vs) s)"
| "cs_run d (SContains v) s = answer ABool (cs_contains v s, s)"
| "cs_run d (SContainsAll vs) s = answer ABool (cs_containsAll vs s, s)"
| "cs_run d SSize s = (Ret (AInt (cs_size s)), s)"

fun cs_spec :: "'a cs_call \<Rightarrow> 'a set \<Rightarrow> 'a cow_answer outcome \<times> 'a set" where
  "cs_spec (SAdd v) S = (Ret (ABool (v \<notin> S)), insert v S)"
| "cs_spec (SAddAll vs) S = (Ret (ABool (\<not> set vs \<subseteq> S)), S \<union> set vs)"
| "cs_spec (SRemove v) S = (Ret (ABool (v \<in> S)), S - {v})"
| "cs_spec (SRemoveAll vs) S = (Ret (ABool (vs \<noteq> [] \<and> S \<noteq> {})), S - set vs)"
| "cs_spec (SRetainAll vs) S = (Ret (ABool (S \<noteq> {})), S \<inter> set vs)"
| "cs_spec SClear S = (Ret AUnit, {})"
| "cs_spec (SCopy vs) S = (Ret AUnit, set vs)"
| "cs_spec (SContains v) S = (Ret (ABool (v \<in> S)), S)"
| "cs_spec (SContainsAll vs) S = (Ret (ABool (set vs \<subseteq> S)), S)"
| "cs_spec SSize S = (Ret (AInt (int (card S))), S)"

text \<open>The arguments that are taken over into the set have no duplicates.\<close>

fun plain :: "'a cs_call \<Rightarrow> bool" where
  "plain (SAddAll vs) = distinct vs"
| "plain (SCopy vs) = distinct vs"
| "plain _ = True"

lemma answer_set:
  assumes "\<exists>s'. r = (Ret x, s') \<and> published s xs s'" and "distinct xs" and "set xs = S"
  shows "\<exists>s'. answer f r = (Ret (f x), s') \<and> cs_ok s' \<and> cs_abs s' = S"
  using assms cs_okI by fastforce

lemma cs_run_step:
  assumes ok: "cs_ok s" and "plain c"
  shows "\<exists>s'. cs_run d c s = (fst (cs_spec c (cs_abs s)), s') \<and> cs_ok s' \<and> cs_abs s' = snd (cs_spec c (cs_abs s))"
proof -
  have l: "cow_ok s" and dist: "distinct (cow_elems s)" using ok by (simp_all add: cs_ok_def)
  show ?thesis
  proof (cases c)
    case (SAdd v)
    then show ?thesis using answer_set [OF cow_addIfAbsent_effect [OF l, of d v], of "insert v (cs_abs s)" ABool] dist
      by (cases "v \<in> set (cow_elems s)") (simp_all add: cs_add_def cs_abs_def insert_absorb)
  next
    case (SAddAll vs)
    obtain s' where "cow_addAllAbsent d (quiet vs) s = (Ret (int (length (filter (\<lambda>v. v \<notin> set (cow_elems s)) vs))), s')"
      "published s (cow_elems s @ filter (\<lambda>v. v \<notin> set (cow_elems s)) vs) s'" using cow_addAllAbsent_effect [OF l refl] by blast
    then show ?thesis using SAddAll dist assms(2) cs_okI [of s "cow_elems s @ filter (\<lambda>v. v \<notin> set (cow_elems s)) vs" s']
      by (auto simp: cs_addAll_def cs_abs_def filter_empty_conv subset_iff)
  next
    case (SRemove v)
    then show ?thesis using answer_set [OF cow_remove_effect [OF l, of d v], of "cs_abs s - {v}" ABool] dist
      by (simp add: cs_remove_def cs_abs_def)
  next
    case (SRemoveAll vs)
    then show ?thesis using answer_set [OF cow_removeAll_effect [OF l refl, of d vs], of "cs_abs s - set vs" ABool] dist
      by (auto simp: cs_removeAll_def cs_abs_def)
  next
    case (SRetainAll vs)
    then show ?thesis using answer_set [OF cow_retainAll_effect [OF l refl, of d vs], of "cs_abs s \<inter> set vs" ABool] dist
      by (auto simp: cs_retainAll_def cs_abs_def)
  next
    case SClear
    then show ?thesis using answer_set [OF cow_clear_effect [OF l], of "{}" "\<lambda>_. AUnit"] by (simp add: cs_clear_def)
  next
    case (SCopy vs)
    then show ?thesis using answer_set [OF cow_copy_effect [OF l, of d vs], of "set vs" "\<lambda>_. AUnit"] assms(2) by (simp add: cs_copy_def)
  qed (use l dist ok in \<open>simp_all add: cs_contains_def cs_containsAll_def cs_size_def cs_abs_def cow_contains_effect
    cow_containsAll_effect cow_size_effect distinct_card\<close>)
qed

lemma cs_run_steps:
  "cs_ok s \<Longrightarrow> list_all plain cs \<Longrightarrow> \<exists>s'. runs (cs_run d) cs s = (fst (runs cs_spec cs (cs_abs s)), s') \<and> cs_ok s'
     \<and> cs_abs s' = snd (runs cs_spec cs (cs_abs s))"
proof (induction cs arbitrary: s)
  case (Cons c cs)
  obtain s1 where s1: "cs_run d c s = (fst (cs_spec c (cs_abs s)), s1)" "cs_ok s1" "cs_abs s1 = snd (cs_spec c (cs_abs s))"
    using cs_run_step [OF Cons.prems(1), of c d] Cons.prems(2) by auto
  obtain s2 where "runs (cs_run d) cs s1 = (fst (runs cs_spec cs (cs_abs s1)), s2)" "cs_ok s2" "cs_abs s2 = snd (runs cs_spec cs (cs_abs s1))"
    using Cons.IH [OF s1(2)] Cons.prems(2) by auto
  with s1 show ?case by (auto split: prod.split)
qed simp

lemma insert_loop_effect:
  assumes "cs_ok s" and "i + n \<le> length vs"
  shows "\<exists>s'. insert_loop d n i vs s = (Ret (), s') \<and> cs_ok s' \<and> cs_abs s' = cs_abs s \<union> set (take n (drop i vs))"
  using assms
proof (induction n arbitrary: i s)
  case (Suc n)
  obtain s1 where s1: "cow_addIfAbsent d (vs ! i) s = (Ret (vs ! i \<notin> cs_abs s), s1)" "cs_ok s1" "cs_abs s1 = insert (vs ! i) (cs_abs s)"
    using cs_run_step [OF Suc.prems(1), of "SAdd (vs ! i)" d]
    by (cases "cow_addIfAbsent d (vs ! i) s" rule: prod.exhaust) (auto simp: cs_add_def elim: answer.elims)
  have "take (Suc n) (drop i vs) = vs ! i # take n (drop (Suc i) vs)"
    using Suc.prems(2) by (simp add: Cons_nth_drop_Suc [symmetric] take_Suc_Cons)
  with Suc.IH [OF s1(2), of "Suc i"] s1 Suc.prems(2) show ?case by auto
qed simp

lemma cs_new_ok: "cs_ok cs_new" "cs_abs cs_new = {}"
  by (simp_all add: cs_ok_def cs_abs_def cs_new_def cow_new_ok)

section \<open>Properties\<close>

text \<open>
  Whatever sequence of calls is made on a copy-on-write set made from an array (with or without duplicates), it answers like a
  set and holds every element once, provided that collections that are added or copied do not hold an element twice themselves.
\<close>

theorem cs_refines_set:
  assumes "n \<le> length vs" and "list_all plain calls"
  shows "case cs_from_array d vs (int n) of
      (Ret _, s) \<Rightarrow> \<exists>s' xs. runs (cs_run d) calls s = (fst (runs cs_spec calls (set (take n vs))), s')
        \<and> cs_toArray s' = Ret xs \<and> distinct xs \<and> set xs = snd (runs cs_spec calls (set (take n vs)))
    | _ \<Rightarrow> False"
proof -
  obtain s where s: "cs_from_array d vs (int n) = (Ret (), s)" "cs_ok s" "cs_abs s = set (take n vs)"
    using insert_loop_effect [OF cs_new_ok(1), of 0 n vs d] assms(1) by (auto simp: cs_from_array_def cs_new_ok(2))
  with cs_run_steps [OF s(2) assms(2), of d] show ?thesis
    by (auto simp: cs_toArray_def cow_toArray_effect cs_ok_def cs_abs_def)
qed

theorem cs_refines_set_witness:
  "case cs_from_array 0 [7, 8, 7 :: nat] 3 of
     (Ret _, s) \<Rightarrow> \<exists>s' xs. runs (cs_run 0) [SSize, SAdd 8, SAddAll [8, 9], SRemove 7, SSize] s =
         ([Ret (AInt 2), Ret (ABool False), Ret (ABool True), Ret (ABool True), Ret (AInt 2)], s')
       \<and> cs_toArray s' = Ret xs \<and> distinct xs \<and> set xs = {8, 9}
   | _ \<Rightarrow> False"
proof -
  have e: "runs cs_spec [SSize, SAdd 8, SAddAll [8, 9], SRemove 7, SSize] (set (take 3 [7, 8, 7 :: nat])) =
      ([Ret (AInt 2), Ret (ABool False), Ret (ABool True), Ret (ABool True), Ret (AInt 2)], {8, 9})"
    by (auto simp: numeral_3_eq_3 insert_commute insert_absorb)
  show ?thesis
    using cs_refines_set [of 3 "[7, 8, 7 :: nat]" "[SSize, SAdd 8, SAddAll [8, 9], SRemove 7, SSize]" 0]
    unfolding e fst_conv snd_conv by (simp only: of_nat_numeral) simp
qed

text \<open>
  \<^verbatim>\<open>addAll\<close> of a collection that holds a new element twice puts it into the set twice; after \<^verbatim>\<open>remove\<close>
  of the element the set still contains it.
\<close>

theorem cs_addAll_duplicates:
  assumes "cow_ok s" and "v \<notin> set (cow_elems s)"
  shows "\<exists>s1 s2. cs_addAll d (quiet [v, v]) s = (Ret True, s1) \<and> cs_size s1 = cs_size s + 2
     \<and> cs_remove d v s1 = (Ret True, s2) \<and> cs_contains v s2 = Ret True"
proof -
  obtain s1 where s1: "cow_addAllAbsent d (quiet [v, v]) s = (Ret 2, s1)" "cow_ok s1" "cow_elems s1 = cow_elems s @ [v, v]"
    using cow_addAllAbsent_effect [OF assms(1) refl, of d "[v, v]"] assms(2) by (auto simp: published_def)
  obtain s2 where "cow_remove d v s1 = (Ret True, s2)" "cow_ok s2" "cow_elems s2 = cow_elems s @ [v]"
    using cow_remove_effect [OF s1(2), of d v] s1(3) assms(2) by (auto simp: published_def remove1_append)
  with s1 show ?thesis using assms(1)
    by (simp add: cs_addAll_def cs_remove_def cs_size_def cs_contains_def cow_size_effect cow_contains_effect)
qed

theorem cs_addAll_duplicates_witness:
  "\<exists>s1 s2. cs_addAll 0 (quiet [5, 5]) cow_demo = (Ret True, s1) \<and> cs_size s1 = cs_size cow_demo + 2
     \<and> cs_remove 0 5 s1 = (Ret True, s2) \<and> cs_contains 5 s2 = Ret True"
  by (rule cs_addAll_duplicates) (simp_all add: cow_demo_ok)

lemma match_loop_effect:
  assumes "cow_ok l" and "length matched = length (cow_elems l)" and "distinct (cow_elems l)"
  shows "match_loop vs matched l = Ret (map (\<lambda>i. matched ! i \<or> cow_elems l ! i \<in> set vs) [0..<length (cow_elems l)])"
  using assms(2)
proof (induction vs arbitrary: matched)
  case Nil
  then show ?case using map_nth [of matched] by simp
next
  case (Cons v vs)
  define k where "k = length (takeWhile (\<lambda>x. x \<noteq> v) (cow_elems l))"
  show ?case
  proof (cases "v \<in> set (cow_elems l)")
    case False
    then have "cow_elems l ! i \<noteq> v" if "i < length (cow_elems l)" for i using that by auto
    with False Cons.IH [OF Cons.prems] show ?thesis by (simp add: cow_indexOf_effect [OF assms(1)] first_index_def)
  next
    case True
    then have k: "k < length (cow_elems l)" unfolding k_def by (rule takeWhile_shorter)
    then have "cow_elems l ! k = v" unfolding k_def using nth_length_takeWhile by blast
    then have eq: "cow_elems l ! i = v \<longleftrightarrow> i = k" if "i < length (cow_elems l)" for i
      using that k nth_eq_iff_index_eq [OF assms(3)] by metis
    have "match_loop (v # vs) matched l = match_loop vs (matched[k := True]) l"
      using True k Cons.prems by (simp add: cow_indexOf_effect [OF assms(1)] first_index_def k_def)
    also have "\<dots> = Ret (map (\<lambda>i. matched[k := True] ! i \<or> cow_elems l ! i \<in> set vs) [0..<length (cow_elems l)])"
      using Cons.prems by (intro Cons.IH) simp
    also have "\<dots> = Ret (map (\<lambda>i. matched ! i \<or> cow_elems l ! i \<in> set (v # vs)) [0..<length (cow_elems l)])"
      using eq Cons.prems k by (auto simp: nth_list_update)
    finally show ?thesis .
  qed
qed

text \<open>
  \<^verbatim>\<open>equals\<close> with another set compares the elements in any order, unless both sets are empty: then it ends in an access
  through a NULL pointer.
\<close>

theorem cs_equals_same_set:
  assumes "cs_ok s" and "distinct vs"
  shows "cs_equals d True (quiet vs) s =
     (if cow_elems s = [] \<and> vs = [] then Undefined NullDereference else Ret (cs_abs s = set vs))"
proof -
  have l: "cow_ok s" and dist: "distinct (cow_elems s)" using assms(1) by (simp_all add: cs_ok_def)
  have o: "observed s s = quiet (cow_elems s)"
    using l by (simp add: observed_def quiet_def cow_isEmpty_effect cow_size_effect)
  obtain l1 where l1: "cow_from d (quiet (cow_elems s)) = (Ret (), l1)" "cow_ok l1" "cow_elems l1 = cow_elems s"
    using cow_from_effect [of d "cow_elems s"] by (auto simp: published_def)
  show ?thesis
  proof (cases "length (cow_elems s) = length vs")
    case False
    then have "cs_abs s \<noteq> set vs" using dist assms(2) by (auto simp: cs_abs_def) (metis distinct_card)
    with False l show ?thesis by (auto simp: cs_equals_def quiet_def cs_size_def cow_size_effect)
  next
    case True
    let ?m = "map (\<lambda>i. replicate (length vs) False ! i \<or> cow_elems s ! i \<in> set vs) [0..<length vs]"
    have m: "match_loop vs (replicate (length vs) False) l1 = Ret ?m"
      using match_loop_effect [OF l1(2), of "replicate (length vs) False" vs] l1(3) True dist by simp
    have "False \<notin> set ?m \<longleftrightarrow> (\<forall>i < length vs. cow_elems s ! i \<in> set vs)" by (auto simp: image_iff)
    also have "\<dots> \<longleftrightarrow> cs_abs s \<subseteq> set vs" using True by (metis cs_abs_def in_set_conv_nth subset_iff)
    also have "\<dots> \<longleftrightarrow> cs_abs s = set vs"
      using True dist assms(2) by (metis List.finite_set card_subset_eq cs_abs_def distinct_card order_refl)
    finally have f: "False \<notin> set ?m \<longleftrightarrow> cs_abs s = set vs" .
    have n: "cow_size l1 = int (length vs)" using l1 True by (simp add: cow_size_effect)
    show ?thesis
    proof (cases "vs = []")
      case True
      then show ?thesis using l l1(1) n \<open>length (cow_elems s) = length vs\<close> unfolding cs_equals_def o
        by (simp add: cs_size_def cow_size_effect quiet_def)
    next
      case False
      moreover have "cs_size s = arg_size (quiet vs)" "arg_elements (quiet vs) = vs" "\<not> arg_same (quiet vs)"
        using l True by (simp_all add: cs_size_def cow_size_effect quiet_def)
      ultimately show ?thesis using l1(1) m n f unfolding cs_equals_def o by (simp del: map_eq_conv set_map)
    qed
  qed
qed

theorem cs_equals_same_set_witness:
  "cs_equals 0 True (quiet [8, 7]) cow_demo = Ret True \<and> cs_equals 0 True (quiet []) (cs_new :: nat cow) = Undefined NullDereference"
  using cs_equals_same_set [of cow_demo "[8, 7]" 0] cs_equals_same_set [of "cs_new :: nat cow" "[]" 0] cs_new_ok
  by (auto simp: cs_ok_def cs_abs_def cow_demo_ok cs_new_def cow_new_ok)

end
