(* ===== verification/Locked_Programs.thy ===== *)
theory Locked_Programs
  imports AMQ_Prelude
begin

text \<open>
  Operations of an object that is shared between threads and protected by a recursive mutex, as programs whose steps can be
  interleaved; the schedules of several threads; and that operations which are one critical section behave as if they were executed
  one after the other.
\<close>

section \<open>Programs\<close>

text \<open>
  \<open>Act\<close> reads and changes the shared state \<open>'s\<close> in one step and tells how the thread goes on, \<open>Lock\<close> and \<open>Unlock\<close> are the
  calls of the mutex, \<open>Return\<close> is the end with a result or an exception.
\<close>

datatype ('s, 'r) prog =
    Return "'r outcome"
  | Act "'s \<Rightarrow> 's \<times> ('s, 'r) prog"
  | Lock "('s, 'r) prog"
  | Unlock "('s, 'r) prog"

text \<open>The program goes on with its result or exception.\<close>

primrec finish_prog :: "('s, 'a) prog \<Rightarrow> ('a outcome \<Rightarrow> ('s, 'b) prog) \<Rightarrow> ('s, 'b) prog" where
  "finish_prog (Return r) rest = rest r"
| "finish_prog (Act f) rest = Act (\<lambda>s. map_prod id (\<lambda>g. g rest) (map_prod id finish_prog (f s)))"
| "finish_prog (Lock p) rest = Lock (finish_prog p rest)"
| "finish_prog (Unlock p) rest = Unlock (finish_prog p rest)"

text \<open>A call, whose exception leaves the caller too.\<close>

definition call_prog :: "('s, 'a) prog \<Rightarrow> ('a \<Rightarrow> ('s, 'b) prog) \<Rightarrow> ('s, 'b) prog" where
  "call_prog p rest = finish_prog p (\<lambda>r. case r of Ret v \<Rightarrow> rest v | Throw x \<Rightarrow> Return (Throw x) | Undefined f \<Rightarrow> Return (Undefined f))"

text \<open>
  \<^verbatim>\<open>synchronized(&mutex) { ... }\<close>: the destructor of the lock object releases the mutex however the block is left.
\<close>

definition synchronized :: "('s, 'r) prog \<Rightarrow> ('s, 'r) prog" where
  "synchronized p = Lock (finish_prog p (\<lambda>r. Unlock (Return r)))"

definition get_state :: "('s \<Rightarrow> ('s, 'r) prog) \<Rightarrow> ('s, 'r) prog" where
  "get_state rest = Act (\<lambda>s. (s, rest s))"

definition change_state :: "('s \<Rightarrow> 's) \<Rightarrow> ('s, 'r) prog \<Rightarrow> ('s, 'r) prog" where
  "change_state f rest = Act (\<lambda>s. (f s, rest))"

text \<open>A program that no other thread disturbs.\<close>

primrec alone :: "('s, 'r) prog \<Rightarrow> 's \<Rightarrow> 'r outcome \<times> 's" where
  "alone (Return r) = (\<lambda>s. (r, s))"
| "alone (Act f) = (\<lambda>s. case map_prod id alone (f s) of (s', g) \<Rightarrow> g s')"
| "alone (Lock p) = alone p"
| "alone (Unlock p) = alone p"

lemma alone_finish: "alone (finish_prog p rest) s = (case alone p s of (r, s') \<Rightarrow> alone (rest r) s')"
proof (induction p arbitrary: s)
  case (Act f)
  obtain s' p' where f: "f s = (s', p')" by (cases "f s")
  then show ?case using Act [of "f s" p'] rangeI [of f s] by simp
qed simp_all

lemma alone_call: "alone (call_prog p rest) s = and_then (alone p s) (\<lambda>v s. alone (rest v) s)"
  by (cases "alone p s"; cases "fst (alone p s)") (simp_all add: call_prog_def alone_finish)

lemma alone_simps [simp]:
  "alone (synchronized p) s = alone p s"
  "alone (get_state rest) s = alone (rest s) s"
  "alone (change_state f q) s = alone q (f s)"
  by (simp_all add: synchronized_def alone_finish get_state_def change_state_def split: prod.split)

section \<open>Critical sections\<close>

text \<open>
  \<open>inside d p\<close>: with the mutex acquired \<open>d\<close> times, the program releases it as often, and then returns without a further step.
  \<open>one_section p\<close>: the program is such a section from its first step on.
\<close>

primrec inside :: "('s, 'r) prog \<Rightarrow> nat \<Rightarrow> bool" where
  "inside (Return r) = (\<lambda>d. d = 0)"
| "inside (Act f) = (\<lambda>d. d > 0 \<and> (\<forall>s. snd (map_prod id inside (f s)) d))"
| "inside (Lock p) = (\<lambda>d. d > 0 \<and> inside p (Suc d))"
| "inside (Unlock p) = (\<lambda>d. d > 0 \<and> inside p (d - 1))"

definition one_section :: "('s, 'r) prog \<Rightarrow> bool" where
  "one_section p \<longleftrightarrow> (\<exists>q. p = Lock q \<and> inside q 1)"

text \<open>
  \<open>body p\<close>: the program is a piece of a section, which leaves the mutex acquired as often as it found it.
\<close>

primrec nested :: "('s, 'r) prog \<Rightarrow> nat \<Rightarrow> nat \<Rightarrow> bool" where
  "nested (Return r) = (\<lambda>d n. n = d)"
| "nested (Act f) = (\<lambda>d n. \<forall>s. snd (map_prod id nested (f s)) d n)"
| "nested (Lock p) = (\<lambda>d n. nested p d (Suc n))"
| "nested (Unlock p) = (\<lambda>d n. d < n \<and> nested p d (n - 1))"

definition body :: "('s, 'r) prog \<Rightarrow> bool" where
  "body p \<longleftrightarrow> (\<forall>d > 0. nested p d d)"

lemma nested_finish: "nested p d n \<Longrightarrow> (\<And>r. nested (rest r) d' d) \<Longrightarrow> d' \<le> d \<Longrightarrow> nested (finish_prog p rest) d' n"
proof (induction p arbitrary: n)
  case (Act f)
  have "nested (finish_prog (snd (f s)) rest) d' n" for s
  proof -
    have "nested (snd (f s)) d n" using Act.prems(1) by (simp add: split_beta)
    then show ?thesis using Act.IH [of "f s" "snd (f s)" n] rangeI [of f s] Act.prems(2,3) by (cases "f s") simp
  qed
  then show ?case by (simp add: split_beta)
qed auto

lemma inside_finish: "nested p d n \<Longrightarrow> 0 < d \<Longrightarrow> d \<le> n \<Longrightarrow> (\<And>r. inside (rest r) d) \<Longrightarrow> inside (finish_prog p rest) n"
proof (induction p arbitrary: n)
  case (Act f)
  have "inside (finish_prog (snd (f s)) rest) n" for s
  proof -
    have "nested (snd (f s)) d n" using Act.prems(1) by (simp add: split_beta)
    then show ?thesis using Act.IH [of "f s" "snd (f s)" n] rangeI [of f s] Act.prems(2-4) by (cases "f s") simp
  qed
  then show ?case using Act.prems(2,3) by (simp add: split_beta)
qed auto

lemma body_Return [simp]: "body (Return r)"
  by (simp add: body_def)

lemma body_get [intro]: "(\<And>s. body (rest s)) \<Longrightarrow> body (get_state rest)"
  by (simp add: body_def get_state_def)

lemma body_change [intro]: "body q \<Longrightarrow> body (change_state f q)"
  by (simp add: body_def change_state_def)

lemma body_synchronized [intro]: "body p \<Longrightarrow> body (synchronized p)"
  unfolding body_def synchronized_def by (auto intro!: nested_finish [where d = "Suc _"])

lemma body_call [intro]: "body p \<Longrightarrow> (\<And>v. body (rest v)) \<Longrightarrow> body (call_prog p rest)"
  unfolding body_def call_prog_def by (auto intro!: nested_finish split: outcome.split)

lemma body_if [intro]: "body p \<Longrightarrow> body q \<Longrightarrow> body (if c then p else q)"
  by simp

lemma synchronized_section: "body p \<Longrightarrow> one_section (synchronized p)"
  unfolding one_section_def synchronized_def body_def by (auto intro!: inside_finish [of _ 1])

section \<open>Threads\<close>

text \<open>
  The shared state, the thread that has the mutex with the number of times it acquired it, and what is left to do for
  every thread.
\<close>

record ('s, 'r) machine =
  shared :: 's
  owner :: "(nat \<times> nat) option"
  progs :: "nat \<Rightarrow> ('s, 'r) prog"

definition start :: "(nat \<Rightarrow> ('s, 'r) prog) \<Rightarrow> 's \<Rightarrow> ('s, 'r) machine" where
  "start P s = \<lparr>shared = s, owner = None, progs = P\<rparr>"

text \<open>One step of a thread; \<open>None\<close>: it has returned or waits for the mutex, or releases a mutex it does not have.\<close>

definition thread_step :: "nat \<Rightarrow> ('s, 'r) machine \<Rightarrow> ('s, 'r) machine option" where
  "thread_step t M =
     (case progs M t of
        Return r \<Rightarrow> None
      | Act f \<Rightarrow> (case f (shared M) of (s, p) \<Rightarrow> Some (M\<lparr>shared := s, progs := (progs M)(t := p)\<rparr>))
      | Lock p \<Rightarrow>
          (case owner M of
             None \<Rightarrow> Some (M\<lparr>owner := Some (t, 1), progs := (progs M)(t := p)\<rparr>)
           | Some (u, n) \<Rightarrow> if u = t then Some (M\<lparr>owner := Some (t, Suc n), progs := (progs M)(t := p)\<rparr>) else None)
      | Unlock p \<Rightarrow>
          (case owner M of
             None \<Rightarrow> None
           | Some (u, n) \<Rightarrow>
               if u = t then Some (M\<lparr>owner := if n = 1 then None else Some (t, n - 1), progs := (progs M)(t := p)\<rparr>) else None))"

fun run_schedule :: "nat list \<Rightarrow> ('s, 'r) machine \<Rightarrow> ('s, 'r) machine option" where
  "run_schedule [] M = Some M"
| "run_schedule (t # ts) M = Option.bind (thread_step t M) (run_schedule ts)"

text \<open>The programs of some threads one after the other.\<close>

fun serial :: "(nat \<Rightarrow> ('s, 'r) prog) \<Rightarrow> nat list \<Rightarrow> 's \<Rightarrow> 's" where
  "serial P [] s = s"
| "serial P (t # ts) s = serial P ts (snd (alone (P t) s))"

lemma serial_append: "serial P (ts @ us) s = serial P us (serial P ts s)"
  by (induction ts arbitrary: s) simp_all

text \<open>
  The threads \<open>order\<close> have left their sections, in this order, and have the results and the state they would have had
  one after the other; a thread within its section still has to do what makes it the next of them.
\<close>

definition serialized :: "(nat \<Rightarrow> ('s, 'r) prog) \<Rightarrow> 's \<Rightarrow> nat list \<Rightarrow> ('s, 'r) machine \<Rightarrow> bool" where
  "serialized P s order M \<longleftrightarrow>
     (\<forall>t. one_section (P t) \<or> (\<exists>r. P t = Return r)) \<and> distinct order \<and> (\<forall>t \<in> set order. one_section (P t))
   \<and> (\<forall>i < length order. progs M (order ! i) = Return (fst (alone (P (order ! i)) (serial P (take i order) s))))
   \<and> (case owner M of
        None \<Rightarrow> shared M = serial P order s \<and> (\<forall>t. t \<notin> set order \<longrightarrow> progs M t = P t)
      | Some (u, n) \<Rightarrow> u \<notin> set order \<and> one_section (P u) \<and> inside (progs M u) n \<and> 0 < n
          \<and> alone (progs M u) (shared M) = alone (P u) (serial P order s)
          \<and> (\<forall>t. t \<notin> set order \<and> t \<noteq> u \<longrightarrow> progs M t = P t))"

lemma serialized_start:
  "\<forall>t. one_section (P t) \<or> (\<exists>r. P t = Return r) \<Longrightarrow> serialized P s [] (start P s)"
  by (simp add: serialized_def start_def)

lemma other_thread:
  assumes "serialized P s order M" and "thread_step t M = Some M'" and "\<And>n. owner M \<noteq> Some (t, n)"
  obtains q where "owner M = None" and "t \<notin> set order" and "P t = Lock q" and "inside q 1" and "progs M t = P t"
proof -
  have fin: "\<exists>r. progs M t = Return r" if "t \<in> set order" using assms(1) that by (auto simp: serialized_def in_set_conv_nth)
  then have t: "t \<notin> set order" using assms(2) by (auto simp: thread_step_def)
  have p: "progs M t = P t"
  proof (cases "owner M")
    case (Some x)
    then show ?thesis using assms(1) assms(3) [of "snd x"] t by (cases x) (auto simp: serialized_def)
  qed (use assms(1) t in \<open>auto simp: serialized_def\<close>)
  have "\<not> (\<exists>r. P t = Return r)" using p assms(2) by (auto simp: thread_step_def)
  moreover have "one_section (P t) \<or> (\<exists>r. P t = Return r)" using assms(1) by (simp add: serialized_def)
  ultimately obtain q where q: "P t = Lock q" "inside q 1" unfolding one_section_def by blast
  have "owner M = None"
  proof (cases "owner M")
    case (Some x)
    then show ?thesis using assms(2) assms(3) [of "snd x"] p q by (cases x) (auto simp: thread_step_def split: if_splits)
  qed
  then show thesis using that t q p by blast
qed

lemma upd_finished:
  assumes "\<forall>i < length order. ps (order ! i) = Q i" and "t \<notin> set order"
  shows "\<forall>i < length order. (ps(t := p)) (order ! i) = Q i"
  using assms by (metis fun_upd_apply nth_mem)

text \<open>Every step keeps this; leaving the section appends the thread.\<close>

lemma serialized_step:
  assumes "serialized P s order M" and "thread_step t M = Some M'"
  shows "\<exists>order'. serialized P s order' M'"
proof (cases "\<exists>n. owner M = Some (t, n)")
  case False
  then obtain q where q: "owner M = None" "t \<notin> set order" "P t = Lock q" "inside q 1" "progs M t = P t"
    using other_thread [OF assms] by metis
  have M': "M' = M\<lparr>owner := Some (t, 1), progs := (progs M)(t := q)\<rparr>" using assms(2) q by (simp add: thread_step_def)
  have "serialized P s order M'"
    using assms(1) q upd_finished [of order "progs M" _ t q] unfolding serialized_def M' by (auto simp: one_section_def)
  then show ?thesis ..
next
  case True
  then obtain n where n: "owner M = Some (t, n)" ..
  then have t: "t \<notin> set order" "one_section (P t)" "inside (progs M t) n" "0 < n" "alone (progs M t) (shared M) = alone (P t) (serial P order s)"
    and rest: "\<And>u. u \<notin> set order \<Longrightarrow> u \<noteq> t \<Longrightarrow> progs M u = P u"
    and fin: "\<forall>i < length order. progs M (order ! i) = Return (fst (alone (P (order ! i)) (serial P (take i order) s)))"
    and base: "\<forall>t. one_section (P t) \<or> (\<exists>r. P t = Return r)" "distinct order" "\<forall>t \<in> set order. one_section (P t)"
    using assms(1) by (auto simp: serialized_def)
  have go: "serialized P s order (M\<lparr>shared := s', owner := Some (t, n'), progs := (progs M)(t := p)\<rparr>)"
    if "inside p n'" "0 < n'" "alone p s' = alone (progs M t) (shared M)" for p s' n'
    using that t rest base upd_finished [OF fin t(1), of p] by (auto simp: serialized_def)
  show ?thesis
  proof (cases "progs M t")
    case (Return r)
    then show ?thesis using assms(2) by (simp add: thread_step_def)
  next
    case (Act f)
    obtain s' p where f: "f (shared M) = (s', p)" by (cases "f (shared M)")
    have "inside p n" using t(3) Act f by (auto dest!: spec [of _ "shared M"])
    moreover have "alone p s' = alone (progs M t) (shared M)" using Act f by simp
    moreover have "M' = M\<lparr>shared := s', owner := Some (t, n), progs := (progs M)(t := p)\<rparr>"
      using assms(2) Act f n by (auto simp: thread_step_def)
    ultimately show ?thesis using go t(4) by blast
  next
    case (Lock p)
    then have "M' = M\<lparr>shared := shared M, owner := Some (t, Suc n), progs := (progs M)(t := p)\<rparr>"
      using assms(2) n by (auto simp: thread_step_def)
    then show ?thesis using go [of p "Suc n" "shared M"] Lock t(3) by auto
  next
    case (Unlock p)
    then have p: "inside p (n - 1)" "alone p (shared M) = alone (P t) (serial P order s)" using t(3,5) by simp_all
    show ?thesis
    proof (cases "n = 1")
      case False
      then have "M' = M\<lparr>shared := shared M, owner := Some (t, n - 1), progs := (progs M)(t := p)\<rparr>"
        using assms(2) n Unlock by (auto simp: thread_step_def)
      then show ?thesis using go [of p "n - 1" "shared M"] p Unlock False t(4) by auto
    next
      case True
      then obtain r where r: "p = Return r" using p(1) by (cases p) auto
      then have res: "alone (P t) (serial P order s) = (r, shared M)" using p(2) by simp
      have M': "M' = M\<lparr>owner := None, progs := (progs M)(t := p)\<rparr>" using assms(2) n Unlock True by (simp add: thread_step_def)
      have "progs M' ((order @ [t]) ! i) = Return (fst (alone (P ((order @ [t]) ! i)) (serial P (take i (order @ [t])) s)))"
        if "i < length (order @ [t])" for i
        using that upd_finished [OF fin t(1), of p] res r by (cases "i = length order") (auto simp: M' nth_append)
      moreover have "shared M' = serial P (order @ [t]) s" using res by (simp add: M' serial_append)
      ultimately have "serialized P s (order @ [t]) M'"
        using base t(1,2) rest by (auto simp: serialized_def M')
      then show ?thesis ..
    qed
  qed
qed

section \<open>Schedules\<close>

text \<open>The machine as a step system.\<close>

interpretation sections: step_system "\<lambda>M. (\<forall>t. one_section (P t) \<or> (\<exists>r. P t = Return r)) \<and> M = start P s" "\<lambda>M M'. \<exists>t. thread_step t M = Some M'"
    "\<lambda>M. \<exists>order. serialized P s order M"
  for P :: "nat \<Rightarrow> ('s, 'r) prog" and s
proof
  show "\<exists>order. serialized P s order M" if "(\<forall>t. one_section (P t) \<or> (\<exists>r. P t = Return r)) \<and> M = start P s" for M
  proof -
    have "serialized P s [] M" using serialized_start [of P s] that by simp
    then show ?thesis ..
  qed
  fix M M' :: "('s, 'r) machine"
  assume "\<exists>order. serialized P s order M" and "\<exists>t. thread_step t M = Some M'"
  then obtain order t where "serialized P s order M" "thread_step t M = Some M'" by blast
  then show "\<exists>order. serialized P s order M'" by (rule serialized_step)
qed

lemma run_schedule_steps: "run_schedule ts M = Some M' \<Longrightarrow> (\<lambda>M M'. \<exists>t. thread_step t M = Some M')\<^sup>*\<^sup>* M M'"
proof (induction ts arbitrary: M)
  case (Cons t ts)
  then obtain M1 where "thread_step t M = Some M1" "run_schedule ts M1 = Some M'" by (auto simp: bind_eq_Some_conv)
  then have "(\<lambda>M M'. \<exists>t. thread_step t M = Some M') M M1" "(\<lambda>M M'. \<exists>t. thread_step t M = Some M')\<^sup>*\<^sup>* M1 M'"
    using Cons.IH by blast+
  then show ?case by (rule converse_rtranclp_into_rtranclp)
qed simp

lemma schedule_serialized:
  assumes "\<forall>t. one_section (P t) \<or> (\<exists>r. P t = Return r)" and "run_schedule ts (start P s) = Some M"
  obtains order where "serialized P s order M"
proof -
  have "(\<forall>t. one_section (P t) \<or> (\<exists>r. P t = Return r)) \<and> start P s = start P s" using assms(1) by simp
  from sections.invar_reachable [OF this run_schedule_steps [OF assms(2)]] show thesis using that by blast
qed

text \<open>When all threads have returned, the order contains them all.\<close>

lemma serialized_complete:
  assumes "serialized P s order M" and "\<And>t. \<exists>r. progs M t = Return r"
  shows "set order = {t. one_section (P t)}" and "shared M = serial P order s"
proof -
  have none: "owner M = None"
  proof (cases "owner M")
    case (Some x)
    then have "inside (progs M (fst x)) (snd x)" "0 < snd x" using assms(1) by (auto simp: serialized_def split: prod.splits)
    then show ?thesis using assms(2) [of "fst x"] by auto
  qed
  then show "shared M = serial P order s" using assms(1) by (simp add: serialized_def)
  have "t \<in> set order" if "one_section (P t)" for t
  proof (rule ccontr)
    assume "t \<notin> set order"
    then have "progs M t = P t" using assms(1) none by (simp add: serialized_def)
    then show False using assms(2) [of t] that by (auto simp: one_section_def)
  qed
  then show "set order = {t. one_section (P t)}" using assms(1) by (auto simp: serialized_def)
qed

section \<open>Completion\<close>

lemma run_schedule_append: "run_schedule (ts @ us) M = Option.bind (run_schedule ts M) (run_schedule us)"
  by (induction ts arbitrary: M) (simp_all add: Option.bind_assoc split: Option.bind_split)

text \<open>The thread that has the mutex can leave its section whatever the others do.\<close>

lemma leave_section:
  "inside p n \<Longrightarrow> owner M = Some (t, n) \<Longrightarrow> progs M t = p \<Longrightarrow> 0 < n \<Longrightarrow>
   \<exists>ts M'. run_schedule ts M = Some M' \<and> owner M' = None \<and> (\<exists>r. progs M' t = Return r) \<and> (\<forall>u. u \<noteq> t \<longrightarrow> progs M' u = progs M u)"
proof (induction p arbitrary: n M)
  case (Act f)
  obtain s p where f: "f (shared M) = (s, p)" by (cases "f (shared M)")
  then have "inside p n" using Act.prems(1) by (auto dest!: spec [of _ "shared M"])
  let ?M = "M\<lparr>shared := s, progs := (progs M)(t := p)\<rparr>"
  have st: "thread_step t M = Some ?M" using Act.prems(3) f by (simp add: thread_step_def)
  obtain ts M' where "run_schedule ts ?M = Some M'" "owner M' = None" "\<exists>r. progs M' t = Return r" "\<forall>u. u \<noteq> t \<longrightarrow> progs M' u = progs ?M u"
    using Act.IH [of "f (shared M)" p n ?M] f rangeI [of f "shared M"] \<open>inside p n\<close> Act.prems(2,4) by auto
  then show ?case using st by (intro exI [of _ "t # ts"] exI [of _ M']) simp
next
  case (Lock p)
  let ?M = "M\<lparr>owner := Some (t, Suc n), progs := (progs M)(t := p)\<rparr>"
  have st: "thread_step t M = Some ?M" using Lock.prems by (simp add: thread_step_def)
  obtain ts M' where "run_schedule ts ?M = Some M'" "owner M' = None" "\<exists>r. progs M' t = Return r" "\<forall>u. u \<noteq> t \<longrightarrow> progs M' u = progs ?M u"
    using Lock.IH [of "Suc n" ?M] Lock.prems by auto
  then show ?case using st by (intro exI [of _ "t # ts"] exI [of _ M']) simp
next
  case (Unlock p)
  let ?M = "M\<lparr>owner := if n = 1 then None else Some (t, n - 1), progs := (progs M)(t := p)\<rparr>"
  have st: "thread_step t M = Some ?M" using Unlock.prems by (simp add: thread_step_def)
  show ?case
  proof (cases "n = 1")
    case True
    then have "\<exists>r. p = Return r" using Unlock.prems(1) by (cases p) auto
    then show ?thesis using st True by (intro exI [of _ "[t]"] exI [of _ ?M]) simp
  next
    case False
    then obtain ts M' where "run_schedule ts ?M = Some M'" "owner M' = None" "\<exists>r. progs M' t = Return r" "\<forall>u. u \<noteq> t \<longrightarrow> progs M' u = progs ?M u"
      using Unlock.IH [of "n - 1" ?M] Unlock.prems by auto
    then show ?thesis using st by (intro exI [of _ "t # ts"] exI [of _ M']) simp
  qed
qed simp

lemma enter_and_leave:
  assumes "owner M = None" and "one_section (progs M t)"
  shows "\<exists>ts M'. run_schedule ts M = Some M' \<and> owner M' = None \<and> (\<exists>r. progs M' t = Return r) \<and> (\<forall>u. u \<noteq> t \<longrightarrow> progs M' u = progs M u)"
proof -
  obtain q where q: "progs M t = Lock q" "inside q 1" using assms(2) by (auto simp: one_section_def)
  let ?M = "M\<lparr>owner := Some (t, 1), progs := (progs M)(t := q)\<rparr>"
  have st: "thread_step t M = Some ?M" using assms(1) q by (simp add: thread_step_def)
  obtain ts M' where "run_schedule ts ?M = Some M'" "owner M' = None" "\<exists>r. progs M' t = Return r" "\<forall>u. u \<noteq> t \<longrightarrow> progs M' u = progs ?M u"
    using leave_section [OF q(2), of ?M t] by auto
  then show ?thesis using st by (intro exI [of _ "t # ts"] exI [of _ M']) simp
qed

lemma complete_threads:
  "owner M = None \<Longrightarrow> \<forall>t. one_section (progs M t) \<or> (\<exists>r. progs M t = Return r) \<Longrightarrow>
   \<exists>us M'. run_schedule us M = Some M' \<and> owner M' = None \<and> (\<forall>t. one_section (progs M' t) \<or> (\<exists>r. progs M' t = Return r))
     \<and> (\<forall>t \<in> set ts. \<exists>r. progs M' t = Return r) \<and> (\<forall>t. (\<exists>r. progs M t = Return r) \<longrightarrow> progs M' t = progs M t)"
proof (induction ts arbitrary: M)
  case Nil
  then show ?case by (intro exI [of _ "[]"] exI [of _ M]) simp
next
  case (Cons t ts)
  show ?case
  proof (cases "\<exists>r. progs M t = Return r")
    case True
    obtain us M' where M': "run_schedule us M = Some M'" "owner M' = None" "\<forall>t. one_section (progs M' t) \<or> (\<exists>r. progs M' t = Return r)"
      "\<forall>t \<in> set ts. \<exists>r. progs M' t = Return r" "\<forall>t. (\<exists>r. progs M t = Return r) \<longrightarrow> progs M' t = progs M t"
      using Cons.IH [OF Cons.prems] by blast
    moreover have "\<exists>r. progs M' t = Return r" using M'(5) True by metis
    ultimately show ?thesis by (intro exI [of _ us] exI [of _ M']) simp
  next
    case False
    then have "one_section (progs M t)" using Cons.prems(2) by blast
    then obtain vs M1 where M1: "run_schedule vs M = Some M1" "owner M1 = None" "\<exists>r. progs M1 t = Return r" "\<And>u. u \<noteq> t \<Longrightarrow> progs M1 u = progs M u"
      using enter_and_leave [OF Cons.prems(1)] by blast
    have "one_section (progs M1 u) \<or> (\<exists>r. progs M1 u = Return r)" for u
      using M1(3) M1(4) [of u] Cons.prems(2) by (cases "u = t") auto
    then obtain us M' where M': "run_schedule us M1 = Some M'" "owner M' = None" "\<forall>t. one_section (progs M' t) \<or> (\<exists>r. progs M' t = Return r)"
      "\<forall>t \<in> set ts. \<exists>r. progs M' t = Return r" "\<forall>t. (\<exists>r. progs M1 t = Return r) \<longrightarrow> progs M' t = progs M1 t"
      using Cons.IH [OF M1(2)] by blast
    have "\<exists>r. progs M' t = Return r" using M'(5) M1(3) by metis
    moreover have "progs M' u = progs M u" if "\<exists>r. progs M u = Return r" for u
    proof -
      have "u \<noteq> t" using that False by blast
      then have "progs M1 u = progs M u" by (rule M1(4))
      then show ?thesis using M'(5) that by metis
    qed
    moreover have "run_schedule (vs @ us) M = Some M'" using M1(1) M'(1) by (simp add: run_schedule_append)
    ultimately show ?thesis using M'(2-4) by (intro exI [of _ "vs @ us"] exI [of _ M']) simp
  qed
qed

text \<open>Every schedule can be continued until all threads of a finite number have returned.\<close>

lemma schedule_completes:
  assumes "\<forall>t. one_section (P t) \<or> (\<exists>r. P t = Return r)" and "run_schedule ts (start P s) = Some M" and "finite {t. one_section (P t)}"
  obtains us M' where "run_schedule (ts @ us) (start P s) = Some M'" and "\<And>t. \<exists>r. progs M' t = Return r"
proof -
  obtain order where S: "serialized P s order M" by (rule schedule_serialized [OF assms(1,2)])
  obtain vs M1 where M1: "run_schedule vs M = Some M1" "owner M1 = None" "\<forall>t. t \<in> set order \<or> progs M1 t = P t \<or> (\<exists>r. progs M1 t = Return r)"
    "\<forall>t \<in> set order. \<exists>r. progs M1 t = Return r"
  proof (cases "owner M")
    case None
    have "\<forall>t \<in> set order. \<exists>r. progs M t = Return r" using S by (auto simp: serialized_def in_set_conv_nth)
    moreover have "\<forall>t. t \<in> set order \<or> progs M t = P t \<or> (\<exists>r. progs M t = Return r)" using S None by (auto simp: serialized_def)
    ultimately show thesis using None that [of "[]" M] by simp
  next
    case (Some x)
    obtain u n where x: "x = (u, n)" by (cases x)
    then have i: "inside (progs M u) n" "0 < n" "u \<notin> set order" "\<forall>t. t \<notin> set order \<and> t \<noteq> u \<longrightarrow> progs M t = P t"
      using S Some by (auto simp: serialized_def)
    obtain vs M1 where v: "run_schedule vs M = Some M1" "owner M1 = None" "\<exists>r. progs M1 u = Return r" "\<forall>t. t \<noteq> u \<longrightarrow> progs M1 t = progs M t"
      using leave_section [OF i(1), of M u] Some x i(2) by auto
    have "\<forall>t \<in> set order. \<exists>r. progs M1 t = Return r" using S i(3) v(4) by (auto simp: serialized_def in_set_conv_nth)
    moreover have "\<forall>t. t \<in> set order \<or> progs M1 t = P t \<or> (\<exists>r. progs M1 t = Return r)" using i(4) v(3,4) by metis
    ultimately show thesis using that v(1,2) by blast
  qed
  have all: "\<forall>t. one_section (progs M1 t) \<or> (\<exists>r. progs M1 t = Return r)" using M1(3,4) assms(1) by metis
  obtain l where l: "set l = {t. one_section (P t)}" using finite_list [OF assms(3)] by blast
  obtain us M' where M': "run_schedule us M1 = Some M'" "\<forall>t \<in> set l. \<exists>r. progs M' t = Return r"
    "\<forall>t. (\<exists>r. progs M1 t = Return r) \<longrightarrow> progs M' t = progs M1 t"
    using complete_threads [OF M1(2) all, of l] by blast
  have "\<exists>r. progs M' t = Return r" for t
  proof (cases "\<exists>r. progs M1 t = Return r")
    case True
    then show ?thesis using M'(3) by metis
  next
    case False
    then have "progs M1 t = P t" using M1(3,4) by blast
    then have "t \<in> set l" using assms(1) False l by auto
    then show ?thesis using M'(2) by blast
  qed
  moreover have "run_schedule (ts @ vs @ us) (start P s) = Some M'" using assms(2) M1(1) M'(1) by (simp add: run_schedule_append)
  ultimately show thesis using that by blast
qed

end
