(* ===== verification/Concurrent_Stl_Map.thy ===== *)
theory Concurrent_Stl_Map
  imports Stl_Map Locked_Programs
begin

text \<open>
  \<^verbatim>\<open>ConcurrentStlMap\<close> (ConcurrentStlMap.h): a \<^verbatim>\<open>std::map\<close> whose operations hold a recursive mutex.  Every operation is a
  program of \<open>Locked_Programs\<close>, with the blocks \<^verbatim>\<open>synchronized(&mutex)\<close> nested as in the code, so that other threads can
  take steps in between.  The members are those of \<^verbatim>\<open>StlMap\<close> and the mutex, which is part of the machine.
\<close>

section \<open>Operations\<close>

type_synonym ('k, 'v, 'r) map_prog = "(('k, 'v) stlmap, 'r) prog"

definition give :: "'r \<Rightarrow> ('k, 'v, 'r) map_prog" where
  "give v = Return (Ret v)"

definition cm_clear :: "('k, 'v, unit) map_prog" where
  "cm_clear = synchronized (change_state sm_clear (give ()))"

definition cm_containsKey :: "'k \<Rightarrow> ('k, 'v, bool) map_prog" where
  "cm_containsKey key =
     synchronized (get_state (\<lambda>m. if sm_entries m \<noteq> [] then give (map_of (sm_entries m) key \<noteq> None) else give False))"

definition cm_containsValue :: "'v \<Rightarrow> ('k, 'v, bool) map_prog" where
  "cm_containsValue v =
     synchronized (get_state (\<lambda>m. if sm_entries m = [] then give False else give (list_ex (\<lambda>(_, v'). v' = v) (sm_entries m))))"

definition cm_isEmpty :: "('k, 'v, bool) map_prog" where
  "cm_isEmpty = synchronized (get_state (\<lambda>m. give (sm_entries m = [])))"

definition cm_size :: "('k, 'v, int) map_prog" where
  "cm_size = synchronized (get_state (\<lambda>m. give (int (length (sm_entries m)))))"

definition cm_get :: "'k \<Rightarrow> ('k, 'v, 'v) map_prog" where
  "cm_get key =
     synchronized (get_state (\<lambda>m.
       case map_of (sm_entries m) key of
         Some v \<Rightarrow> give v
       | None \<Rightarrow> Return (Throw (NoSuchElementException ''Key does not exist in map''))))"

definition cm_count_change :: "('k, 'v) stlmap \<Rightarrow> ('k, 'v) stlmap" where
  "cm_count_change m = m\<lparr>sm_modCount := sm_modCount m + 1\<rparr>"

definition assign :: "'k :: linorder \<Rightarrow> 'v \<Rightarrow> ('k, 'v) stlmap \<Rightarrow> ('k, 'v) stlmap" where
  "assign key v m = m\<lparr>sm_entries := std_assign key v (sm_entries m)\<rparr>"

definition erase :: "'k \<Rightarrow> ('k, 'v) stlmap \<Rightarrow> ('k, 'v) stlmap" where
  "erase key m = m\<lparr>sm_entries := std_erase key (sm_entries m)\<rparr>"

definition cm_put :: "'k :: linorder \<Rightarrow> 'v \<Rightarrow> ('k, 'v, bool) map_prog" where
  "cm_put key v =
     synchronized (call_prog (cm_containsKey key) (\<lambda>result. change_state cm_count_change (change_state (assign key v) (give result))))"

definition cm_put_old :: "'k :: linorder \<Rightarrow> 'v \<Rightarrow> 'v \<Rightarrow> ('k, 'v, bool \<times> 'v) map_prog" where
  "cm_put_old key v oldValue =
     synchronized (call_prog (cm_containsKey key) (\<lambda>result. get_state (\<lambda>m.
       let old = (if result then the (map_of (sm_entries m) key) else oldValue) in
       change_state cm_count_change (change_state (assign key v) (give (result, old))))))"

definition cm_putAll_stl :: "('k :: linorder \<times> 'v) list \<Rightarrow> ('k, 'v, unit) map_prog" where
  "cm_putAll_stl other =
     synchronized (change_state (\<lambda>m. m\<lparr>sm_entries := std_insert_range other (sm_entries m)\<rparr>) (change_state cm_count_change (give ())))"

text \<open>Another map is given by its entries in the order of its key set.\<close>

fun put_entries :: "('k :: linorder \<times> 'v) list \<Rightarrow> ('k, 'v, unit) map_prog" where
  "put_entries [] = change_state cm_count_change (give ())"
| "put_entries ((key, v) # es) = call_prog (cm_put key v) (\<lambda>_. put_entries es)"

definition cm_putAll :: "('k :: linorder \<times> 'v) list \<Rightarrow> ('k, 'v, unit) map_prog" where
  "cm_putAll other = synchronized (put_entries other)"

text \<open>\<open>d\<close> is the value \<^verbatim>\<open>V()\<close>, which is returned when the key is absent.\<close>

definition cm_remove :: "'v \<Rightarrow> 'k \<Rightarrow> ('k, 'v, 'v) map_prog" where
  "cm_remove d key =
     synchronized (get_state (\<lambda>m.
       case map_of (sm_entries m) key of
         None \<Rightarrow> give d
       | Some v \<Rightarrow> change_state (erase key) (change_state cm_count_change (give v))))"

definition cm_putIfAbsent :: "'k :: linorder \<Rightarrow> 'v \<Rightarrow> ('k, 'v, bool) map_prog" where
  "cm_putIfAbsent key v =
     synchronized (call_prog (cm_containsKey key) (\<lambda>present.
       if \<not> present then call_prog (cm_put key v) (\<lambda>_. give True) else give False))"

text \<open>The condition \<^verbatim>\<open>containsKey(key) && get(key) == value\<close>.\<close>

definition maps_to :: "'k \<Rightarrow> 'v \<Rightarrow> ('k, 'v, bool) map_prog" where
  "maps_to key v = call_prog (cm_containsKey key) (\<lambda>present. if present then call_prog (cm_get key) (\<lambda>v'. give (v' = v)) else give False)"

definition cm_remove_value :: "'v \<Rightarrow> 'k \<Rightarrow> 'v \<Rightarrow> ('k, 'v, bool) map_prog" where
  "cm_remove_value d key v =
     synchronized (call_prog (maps_to key v) (\<lambda>b. if b then call_prog (cm_remove d key) (\<lambda>_. give True) else give False))"

definition cm_replace_value :: "'k :: linorder \<Rightarrow> 'v \<Rightarrow> 'v \<Rightarrow> ('k, 'v, bool) map_prog" where
  "cm_replace_value key oldValue newValue =
     synchronized (call_prog (maps_to key oldValue) (\<lambda>b. if b then call_prog (cm_put key newValue) (\<lambda>_. give True) else give False))"

definition cm_replace :: "'k :: linorder \<Rightarrow> 'v \<Rightarrow> ('k, 'v, 'v) map_prog" where
  "cm_replace key v =
     synchronized (call_prog (cm_containsKey key) (\<lambda>present.
       if present then call_prog (cm_get key) (\<lambda>result. call_prog (cm_put key v) (\<lambda>_. give result))
       else Return (Throw (NoSuchElementException ''Value to Replace was not in the Map.''))))"

text \<open>
  The other map is read without its lock; it is the list of its entries.  It may be the map itself, which is then empty when its entries
  are read.
\<close>

definition cm_copy_stl :: "bool \<Rightarrow> ('k :: linorder \<times> 'v) list \<Rightarrow> ('k, 'v, unit) map_prog" where
  "cm_copy_stl same_object other =
     synchronized (change_state sm_clear (change_state
       (\<lambda>m. m\<lparr>sm_entries := std_insert_range (if same_object then [] else other) (sm_entries m)\<rparr>) (give ())))"

definition cm_copy :: "bool \<Rightarrow> ('k :: linorder \<times> 'v) list \<Rightarrow> ('k, 'v, unit) map_prog" where
  "cm_copy same_object other = synchronized (call_prog cm_clear (\<lambda>_. cm_putAll (if same_object then [] else other)))"

definition cm_new :: "('k, 'v) stlmap" where
  "cm_new = \<lparr>sm_entries = [], sm_modCount = 0, sm_generation = 0\<rparr>"

definition cm_from_stl :: "('k :: linorder \<times> 'v) list \<Rightarrow> ('k, 'v) stlmap" where
  "cm_from_stl other = snd (alone (cm_copy_stl False other) cm_new)"

definition cm_from :: "('k :: linorder \<times> 'v) list \<Rightarrow> ('k, 'v) stlmap" where
  "cm_from other = snd (alone (cm_copy False other) cm_new)"

definition cm_equals_stl :: "('k \<times> 'v) list \<Rightarrow> ('k, 'v, bool) map_prog" where
  "cm_equals_stl other = synchronized (get_state (\<lambda>m. give (sm_entries m = other)))"

text \<open>The keys of this map are looked up in both; \<open>source\<close> is \<^verbatim>\<open>get\<close> of the other map.\<close>

fun equals_keys :: "('k \<Rightarrow> 'v outcome) \<Rightarrow> 'k list \<Rightarrow> ('k, 'v, bool) map_prog" where
  "equals_keys source [] = give True"
| "equals_keys source (key # ks) =
     call_prog (cm_containsKey key) (\<lambda>present.
       if \<not> present then give False
       else call_prog (cm_get key) (\<lambda>v. call_prog (Return (source key)) (\<lambda>v'. if v \<noteq> v' then give False else equals_keys source ks)))"

definition cm_equals :: "('k \<Rightarrow> 'v outcome) \<Rightarrow> ('k, 'v, bool) map_prog" where
  "cm_equals source = synchronized (get_state (\<lambda>m. equals_keys source (map fst (sm_entries m))))"

section \<open>Iterators\<close>

text \<open>The constructor reads the map without the mutex.  An iterator belongs to one thread; a program returns its new state with its result.\<close>

definition cm_iterator :: "('k, 'v) stlmap \<Rightarrow> 'k smiter" where
  "cm_iterator m = \<lparr>si_expected = sm_modCount m, si_future = std_begin (sm_entries m), si_current = None,
     si_generation = sm_generation m\<rparr>"

definition cm_checkHasNext :: "'k smiter \<Rightarrow> ('k, 'v, bool) map_prog" where
  "cm_checkHasNext it = synchronized (get_state (\<lambda>m. give (si_future it \<noteq> None)))"

definition cm_checkConcurrentMod :: "'k smiter \<Rightarrow> ('k, 'v, unit) map_prog" where
  "cm_checkConcurrentMod it =
     get_state (\<lambda>m. if si_expected it \<noteq> sm_modCount m
       then Return (Throw (ConcurrentModificationException ''StlMap modified outside this iterator'')) else give ())"

text \<open>\<^verbatim>\<open>futureEntry++\<close> reads the node it points to.\<close>

definition cm_advance :: "'k :: linorder smiter \<Rightarrow> ('k, 'v, 'k smiter) map_prog" where
  "cm_advance it =
     get_state (\<lambda>m. case si_future it of
         None \<Rightarrow> Return (Undefined NullDereference)
       | Some k \<Rightarrow>
           if map_of (sm_entries m) k \<noteq> None \<and> si_generation it = sm_generation m
           then give (it\<lparr>si_current := Some k, si_future := std_next k (sm_entries m)\<rparr>)
           else Return (Undefined UseAfterFree))"

definition cm_makeNext :: "'k :: linorder smiter \<Rightarrow> ('k, 'v, 'k smiter) map_prog" where
  "cm_makeNext it =
     synchronized (call_prog (cm_checkConcurrentMod it) (\<lambda>_. call_prog (cm_checkHasNext it) (\<lambda>b.
       if \<not> b then Return (Throw (NoSuchElementException ''No next element'')) else cm_advance it)))"

definition cm_doRemove :: "'k smiter \<Rightarrow> ('k, 'v, 'k smiter) map_prog" where
  "cm_doRemove it =
     synchronized (call_prog (cm_checkConcurrentMod it) (\<lambda>_. get_state (\<lambda>m.
       case si_current it of
         None \<Rightarrow> Return (Throw (IllegalStateException ''Remove called before call to next()''))
       | Some k \<Rightarrow>
           if si_generation it = sm_generation m
           then change_state (erase k) (change_state cm_count_change (give (it\<lparr>si_current := None, si_expected := si_expected it + 1\<rparr>)))
           else Return (Undefined UseAfterFree))))"

text \<open>\<^verbatim>\<open>next\<close> reads the entry \<^verbatim>\<open>currentEntry\<close> points to within the same block; \<open>f\<close> is the part of it that is returned.\<close>

definition cm_next :: "('k :: linorder \<times> 'v \<Rightarrow> 'e) \<Rightarrow> 'k smiter \<Rightarrow> ('k, 'v, 'e \<times> 'k smiter) map_prog" where
  "cm_next f it =
     synchronized (call_prog (cm_makeNext it) (\<lambda>it. get_state (\<lambda>m.
       let k = the (si_current it) in
       case map_of (sm_entries m) k of
         Some v \<Rightarrow> give (f (k, v), it)
       | None \<Rightarrow> Return (Undefined UseAfterFree))))"

definition cm_entry_next :: "'k :: linorder smiter \<Rightarrow> ('k, 'v, ('k \<times> 'v) \<times> 'k smiter) map_prog" where
  "cm_entry_next it = cm_next (\<lambda>e. e) it"

definition cm_key_next :: "'k :: linorder smiter \<Rightarrow> ('k, 'v, 'k \<times> 'k smiter) map_prog" where
  "cm_key_next it = cm_next fst it"

definition cm_value_next :: "'k :: linorder smiter \<Rightarrow> ('k, 'v, 'v \<times> 'k smiter) map_prog" where
  "cm_value_next it = cm_next snd it"

text \<open>The iterators of a constant map also hold the mutex while they compare the counters.\<close>

definition const_cm_makeNext :: "'k :: linorder smiter \<Rightarrow> ('k, 'v, 'k smiter) map_prog" where
  "const_cm_makeNext it =
     synchronized (call_prog (synchronized (cm_checkConcurrentMod it)) (\<lambda>_. call_prog (cm_checkHasNext it) (\<lambda>b.
       if \<not> b then Return (Throw (NoSuchElementException ''No next element'')) else cm_advance it)))"

definition const_cm_next :: "('k :: linorder \<times> 'v \<Rightarrow> 'e) \<Rightarrow> 'k smiter \<Rightarrow> ('k, 'v, 'e \<times> 'k smiter) map_prog" where
  "const_cm_next f it =
     synchronized (call_prog (const_cm_makeNext it) (\<lambda>it. get_state (\<lambda>m.
       let k = the (si_current it) in
       case map_of (sm_entries m) k of
         Some v \<Rightarrow> give (f (k, v), it)
       | None \<Rightarrow> Return (Undefined UseAfterFree))))"

definition const_cm_remove :: "'k smiter \<Rightarrow> ('k, 'v, 'k smiter) map_prog" where
  "const_cm_remove it = Return (Throw (UnsupportedOperationException ''Cannot write to a const Iterator.''))"

section \<open>Views\<close>

definition cm_entrySet_contains :: "'k \<times> 'v \<Rightarrow> ('k, 'v, bool) map_prog" where
  "cm_entrySet_contains entry = synchronized (maps_to (fst entry) (snd entry))"

definition cm_entrySet_remove :: "'v \<Rightarrow> 'k \<times> 'v \<Rightarrow> ('k, 'v, bool) map_prog" where
  "cm_entrySet_remove d entry =
     synchronized (call_prog (maps_to (fst entry) (snd entry)) (\<lambda>b.
       if b then call_prog (cm_remove d (fst entry)) (\<lambda>_. give True) else give False))"

definition cm_keySet_contains :: "'k \<Rightarrow> ('k, 'v, bool) map_prog" where
  "cm_keySet_contains key = cm_containsKey key"

definition cm_keySet_remove :: "'v \<Rightarrow> 'k \<Rightarrow> ('k, 'v, bool) map_prog" where
  "cm_keySet_remove d key =
     synchronized (call_prog (cm_containsKey key) (\<lambda>b. if b then call_prog (cm_remove d key) (\<lambda>_. give True) else give False))"

definition cm_values_contains :: "'v \<Rightarrow> ('k, 'v, bool) map_prog" where
  "cm_values_contains v = cm_containsValue v"

text \<open>The operations that the base classes of the views call, for a thread that no other thread disturbs.\<close>

definition iter_result :: "('e \<times> 'i) outcome \<times> 's \<Rightarrow> 'i \<Rightarrow> 'e outcome \<times> 'i" where
  "iter_result r it =
     (case fst r of Ret (e, it') \<Rightarrow> (Ret e, it') | Throw x \<Rightarrow> (Throw x, it) | Undefined f \<Rightarrow> (Undefined f, it))"

definition remove_result :: "'i outcome \<times> 's \<Rightarrow> 'i \<Rightarrow> unit outcome \<times> 's \<times> 'i" where
  "remove_result r it =
     (case r of (Ret it', s) \<Rightarrow> (Ret (), s, it') | (Throw x, s) \<Rightarrow> (Throw x, s, it) | (Undefined f, s) \<Rightarrow> (Undefined f, s, it))"

definition cm_view_ops :: "('k :: linorder \<times> 'v \<Rightarrow> 'e) \<Rightarrow> (('k, 'v) stlmap, 'k smiter, 'e) coll_ops" where
  "cm_view_ops f = \<lparr>v_size = \<lambda>m. (case fst (alone cm_size m) of Ret n \<Rightarrow> n | _ \<Rightarrow> 0), v_iterator = cm_iterator,
     v_hasNext = \<lambda>m it. fst (alone (cm_checkHasNext it) m) = Ret True, v_next = \<lambda>m it. iter_result (alone (cm_next f it) m) it,
     v_remove = \<lambda>m it. remove_result (alone (cm_doRemove it) m) it, v_add = coll_add, v_clear = alone cm_clear\<rparr>"

definition cm_entrySet :: "(('k :: linorder, 'v) stlmap, 'k smiter, 'k \<times> 'v) coll_ops" where
  "cm_entrySet = cm_view_ops (\<lambda>e. e)"

definition cm_keySet :: "(('k :: linorder, 'v) stlmap, 'k smiter, 'k) coll_ops" where
  "cm_keySet = cm_view_ops fst"

definition cm_values :: "(('k :: linorder, 'v) stlmap, 'k smiter, 'v) coll_ops" where
  "cm_values = cm_view_ops snd"

text \<open>The views of a constant map.\<close>

definition const_cm_view_ops :: "string \<Rightarrow> ('k :: linorder \<times> 'v \<Rightarrow> 'e) \<Rightarrow> (('k, 'v) stlmap, 'k smiter, 'e) coll_ops" where
  "const_cm_view_ops msg f = \<lparr>v_size = \<lambda>m. (case fst (alone cm_size m) of Ret n \<Rightarrow> n | _ \<Rightarrow> 0), v_iterator = cm_iterator,
     v_hasNext = \<lambda>m it. fst (alone (cm_checkHasNext it) m) = Ret True, v_next = \<lambda>m it. iter_result (alone (const_cm_next f it) m) it,
     v_remove = \<lambda>m it. remove_result (alone (const_cm_remove it) m) it, v_add = coll_add, v_clear = const_view_write msg\<rparr>"

definition const_cm_entrySet :: "(('k :: linorder, 'v) stlmap, 'k smiter, 'k \<times> 'v) coll_ops" where
  "const_cm_entrySet = const_cm_view_ops ''Can't clear a const collection'' (\<lambda>e. e)"

definition const_cm_entrySet_remove :: "'k \<times> 'v \<Rightarrow> ('k, 'v, bool) map_prog" where
  "const_cm_entrySet_remove entry = Return (Throw (UnsupportedOperationException ''Can't remove from const collection''))"

definition const_cm_keySet :: "(('k :: linorder, 'v) stlmap, 'k smiter, 'k) coll_ops" where
  "const_cm_keySet = const_cm_view_ops ''Can't modify a const collection'' fst"

definition const_cm_keySet_remove :: "'k \<Rightarrow> ('k, 'v, bool) map_prog" where
  "const_cm_keySet_remove key = Return (Throw (UnsupportedOperationException ''Can't modify a const collection''))"

definition const_cm_values :: "(('k :: linorder, 'v) stlmap, 'k smiter, 'v) coll_ops" where
  "const_cm_values = const_cm_view_ops ''Can't modify a const collection'' snd"

definition const_cm_view_iterator :: "'k smiter outcome" where
  "const_cm_view_iterator = Throw (UnsupportedOperationException ''Can't return a non-const iterator for a const collection'')"


section \<open>The operations without other threads\<close>

lemma alone_give [simp]: "alone (give v) m = (Ret v, m)"
  by (simp add: give_def)

lemma present_entries: "map_of xs k \<noteq> None \<Longrightarrow> xs \<noteq> []"
  by auto

lemma containsKey_alone [simp]: "alone (cm_containsKey key) m = (Ret (map_of (sm_entries m) key \<noteq> None), m)"
  by (auto simp: cm_containsKey_def)

lemma get_alone: "alone (cm_get key) m =
    (case map_of (sm_entries m) key of Some v \<Rightarrow> Ret v | None \<Rightarrow> Throw (NoSuchElementException ''Key does not exist in map''), m)"
  by (simp add: cm_get_def split: option.split)

lemma put_alone: "alone (cm_put key v) m = (Ret (map_of (sm_entries m) key \<noteq> None), assign key v (cm_count_change m))"
  by (simp add: cm_put_def alone_call)

lemma put_entries_alone:
  "alone (put_entries es) m = (Ret (), cm_count_change (fold (\<lambda>(key, v) m. assign key v (cm_count_change m)) es m))"
  by (induction es arbitrary: m) (auto simp: alone_call put_alone)

lemma remove_alone:
  "alone (cm_remove d key) m =
     (case map_of (sm_entries m) key of None \<Rightarrow> (Ret d, m) | Some v \<Rightarrow> (Ret v, cm_count_change (erase key m)))"
  by (simp add: cm_remove_def split: option.split)

lemma maps_to_alone: "alone (maps_to key v) m = (Ret (map_of (sm_entries m) key = Some v), m)"
  by (auto simp: maps_to_def alone_call get_alone split: option.split)

text \<open>The iterators do what those of \<^verbatim>\<open>StlMap\<close> do.\<close>

lemma sm_modified_text: "sm_modified = ConcurrentModificationException ''StlMap modified outside this iterator''"
  by (simp add: sm_modified_def)

lemma cm_next_alone: "iter_result (alone (cm_next f it) m) it = project f (makeNext m it)"
  by (auto simp: cm_next_def cm_makeNext_def cm_checkConcurrentMod_def cm_checkHasNext_def cm_advance_def alone_call makeNext_def
      iter_result_def project_def sm_modified_text Let_def split: option.split)

lemma const_cm_next_alone: "alone (const_cm_next f it) m = alone (cm_next f it) m"
  by (simp add: const_cm_next_def cm_next_def const_cm_makeNext_def cm_makeNext_def alone_call)

lemma cm_doRemove_alone: "remove_result (alone (cm_doRemove it) m) it = doRemove m it"
  by (auto simp: cm_doRemove_def cm_checkConcurrentMod_def alone_call doRemove_def remove_result_def sm_modified_text
      erase_def cm_count_change_def split: option.split)

lemma cm_views_alone: "cm_view_ops f = view_ops (\<lambda>m it. project f (makeNext m it))"
  by (simp add: cm_view_ops_def view_ops_def cm_next_alone cm_doRemove_alone cm_size_def sm_size_def cm_checkHasNext_def
      checkHasNext_def cm_clear_def cm_iterator_def sm_iterator_def fun_eq_iff)


interpretation cm_entry_view: iterable cm_entrySet sm_ok sm_entries "sm_view (\<lambda>e. e)"
  unfolding cm_entrySet_def cm_views_alone using iterable_view [of "\<lambda>e. e"] by simp

interpretation cm_key_view: iterable cm_keySet sm_ok "\<lambda>m. map fst (sm_entries m)" "sm_view fst"
  unfolding cm_keySet_def cm_views_alone by (rule iterable_view)

interpretation cm_value_view: iterable cm_values sm_ok "\<lambda>m. map snd (sm_entries m)" "sm_view snd"
  unfolding cm_values_def cm_views_alone by (rule iterable_view)

lemma const_cm_readable: "readable (const_cm_view_ops msg f) sm_ok (\<lambda>m. map f (sm_entries m)) (sm_view f)"
proof -
  have "readable (cm_view_ops f) sm_ok (\<lambda>m. map f (sm_entries m)) (sm_view f)"
    unfolding cm_views_alone by (rule iterable.axioms(1) [OF iterable_view])
  then show ?thesis by (simp add: readable_def const_cm_view_ops_def cm_view_ops_def const_cm_next_alone)
qed

interpretation const_cm_key_view: readable const_cm_keySet sm_ok "\<lambda>m. map fst (sm_entries m)" "sm_view fst"
  unfolding const_cm_keySet_def by (rule const_cm_readable)

section \<open>The operations are critical sections\<close>

lemma body_give [simp]: "body (give v)"
  by (simp add: give_def)

lemma body_option [intro]: "body p \<Longrightarrow> (\<And>v. body (f v)) \<Longrightarrow> body (case x of None \<Rightarrow> p | Some v \<Rightarrow> f v)"
  by (cases x) simp_all

lemma body_containsKey [simp]: "body (cm_containsKey key)"
  unfolding cm_containsKey_def by (intro body_synchronized body_get body_if body_give)

lemma body_getter [simp]: "body (cm_get key)"
  unfolding cm_get_def by (intro body_synchronized body_get body_option body_give body_Return)

lemma body_put [simp]: "body (cm_put key v)"
  unfolding cm_put_def by (intro body_synchronized body_call body_containsKey body_change body_give)

lemma body_put_entries [simp]: "body (put_entries es)"
proof (induction es)
  case Nil
  show ?case unfolding put_entries.simps by (intro body_change body_give)
next
  case (Cons e es)
  then show ?case by (cases e) (auto intro: body_call)
qed

lemma body_remove [simp]: "body (cm_remove d key)"
  unfolding cm_remove_def by (intro body_synchronized body_get body_option body_give body_change)

lemma body_maps_to [simp]: "body (maps_to key v)"
  unfolding maps_to_def by (intro body_call body_if body_give body_containsKey body_getter)

lemmas map_bodies = body_call body_if body_give body_containsKey body_getter body_put body_put_entries body_remove body_maps_to
  body_get body_change body_option body_Return

lemma map_sections:
  "one_section (cm_put key v)" "one_section (cm_get key)" "one_section (cm_containsKey key)" "one_section (cm_remove d key)"
  "one_section (cm_putIfAbsent key v)" "one_section (cm_remove_value d key v)" "one_section (cm_replace_value key v w)"
  "one_section (cm_replace key v)" "one_section (cm_putAll es)" "one_section cm_clear" "one_section cm_size"
proof -
  show "one_section (cm_put key v)" by (subst cm_put_def) (intro synchronized_section map_bodies)
  show "one_section (cm_get key)" by (subst cm_get_def) (intro synchronized_section map_bodies)
  show "one_section (cm_containsKey key)" by (subst cm_containsKey_def) (intro synchronized_section map_bodies)
  show "one_section (cm_remove d key)" by (subst cm_remove_def) (intro synchronized_section map_bodies)
  show "one_section (cm_putIfAbsent key v)" by (subst cm_putIfAbsent_def) (intro synchronized_section map_bodies)
  show "one_section (cm_remove_value d key v)" by (subst cm_remove_value_def) (intro synchronized_section map_bodies)
  show "one_section (cm_replace_value key v w)" by (subst cm_replace_value_def) (intro synchronized_section map_bodies)
  show "one_section (cm_replace key v)" by (subst cm_replace_def) (intro synchronized_section map_bodies)
  show "one_section (cm_putAll es)" by (subst cm_putAll_def) (intro synchronized_section map_bodies)
  show "one_section cm_clear" by (subst cm_clear_def) (intro synchronized_section map_bodies)
  show "one_section cm_size" by (subst cm_size_def) (intro synchronized_section map_bodies)
qed

section \<open>Calls of several threads\<close>

datatype ('k, 'v) cm_call =
    MPut 'k 'v
  | MGet 'k
  | MContainsKey 'k
  | MRemove 'k
  | MPutIfAbsent 'k 'v
  | MRemoveValue 'k 'v
  | MReplaceValue 'k 'v 'v
  | MReplace 'k 'v
  | MPutAll "('k \<times> 'v) list"
  | MClear
  | MSize

datatype 'v cm_answer = Flag bool | Value 'v | Number int | Nothing

definition answered :: "('a \<Rightarrow> 'b) \<Rightarrow> ('s, 'a) prog \<Rightarrow> ('s, 'b) prog" where
  "answered f p = finish_prog p (\<lambda>r. Return (map_outcome f r))"

fun op_prog :: "'v \<Rightarrow> ('k :: linorder, 'v) cm_call \<Rightarrow> ('k, 'v, 'v cm_answer) map_prog" where
  "op_prog d (MPut k v) = answered Flag (cm_put k v)"
| "op_prog d (MGet k) = answered Value (cm_get k)"
| "op_prog d (MContainsKey k) = answered Flag (cm_containsKey k)"
| "op_prog d (MRemove k) = answered Value (cm_remove d k)"
| "op_prog d (MPutIfAbsent k v) = answered Flag (cm_putIfAbsent k v)"
| "op_prog d (MRemoveValue k v) = answered Flag (cm_remove_value d k v)"
| "op_prog d (MReplaceValue k v w) = answered Flag (cm_replace_value k v w)"
| "op_prog d (MReplace k v) = answered Value (cm_replace k v)"
| "op_prog d (MPutAll es) = answered (\<lambda>_. Nothing) (cm_putAll es)"
| "op_prog d MClear = answered (\<lambda>_. Nothing) cm_clear"
| "op_prog d MSize = answered Number cm_size"

text \<open>What the calls answer and do for a partial function.\<close>

fun cm_spec :: "'v \<Rightarrow> ('k, 'v) cm_call \<Rightarrow> ('k \<Rightarrow> 'v option) \<Rightarrow> 'v cm_answer outcome \<times> ('k \<Rightarrow> 'v option)" where
  "cm_spec d (MPut k v) M = (Ret (Flag (M k \<noteq> None)), M(k \<mapsto> v))"
| "cm_spec d (MGet k) M =
     (case M k of Some v \<Rightarrow> Ret (Value v) | None \<Rightarrow> Throw (NoSuchElementException ''Key does not exist in map''), M)"
| "cm_spec d (MContainsKey k) M = (Ret (Flag (M k \<noteq> None)), M)"
| "cm_spec d (MRemove k) M = (Ret (Value (case M k of Some v \<Rightarrow> v | None \<Rightarrow> d)), M(k := None))"
| "cm_spec d (MPutIfAbsent k v) M = (if M k = None then (Ret (Flag True), M(k \<mapsto> v)) else (Ret (Flag False), M))"
| "cm_spec d (MRemoveValue k v) M = (if M k = Some v then (Ret (Flag True), M(k := None)) else (Ret (Flag False), M))"
| "cm_spec d (MReplaceValue k v w) M = (if M k = Some v then (Ret (Flag True), M(k \<mapsto> w)) else (Ret (Flag False), M))"
| "cm_spec d (MReplace k v) M =
     (case M k of
        Some w \<Rightarrow> (Ret (Value w), M(k \<mapsto> v))
      | None \<Rightarrow> (Throw (NoSuchElementException ''Value to Replace was not in the Map.''), M))"
| "cm_spec d (MPutAll es) M = (Ret Nothing, M ++ map_of (rev es))"
| "cm_spec d MClear M = (Ret Nothing, Map.empty)"
| "cm_spec d MSize M = (Ret (Number (int (card (dom M)))), M)"

lemma inside_answered: "inside p n \<Longrightarrow> inside (answered f p) n"
  unfolding answered_def
proof (induction p arbitrary: n)
  case (Act g)
  have "inside (finish_prog (snd (g s)) (\<lambda>r. Return (map_outcome f r))) n" for s
  proof -
    have "inside (snd (g s)) n" using Act.prems by (simp add: split_beta)
    then show ?thesis using Act.IH [of "g s" "snd (g s)" n] rangeI [of g s] by (cases "g s") simp
  qed
  then show ?case using Act.prems by (simp add: split_beta)
qed auto

lemma section_answered: "one_section p \<Longrightarrow> one_section (answered f p)"
  using inside_answered by (auto simp: one_section_def answered_def)

lemma op_section: "one_section (op_prog d c)"
  by (cases c) (simp_all add: map_sections section_answered)

lemma answered_alone: "alone (answered f p) m = map_prod (map_outcome f) id (alone p m)"
  by (simp add: answered_def alone_finish split: prod.split)


lemma ok_changes [simp]:
  "sm_entries (cm_count_change m) = sm_entries m" "sm_entries (assign k v m) = std_assign k v (sm_entries m)"
  "sm_entries (erase k m) = std_erase k (sm_entries m)" "sm_entries (sm_clear m) = []"
  by (simp_all add: cm_count_change_def assign_def erase_def sm_clear_def)

lemma assign_each:
  "sorted_wrt (<) (map fst (sm_entries m)) \<Longrightarrow>
   sorted_wrt (<) (map fst (sm_entries (fold (\<lambda>(k, v) m. assign k v (cm_count_change m)) es m)))
   \<and> map_of (sm_entries (fold (\<lambda>(k, v) m. assign k v (cm_count_change m)) es m)) = map_of (sm_entries m) ++ map_of (rev es)"
proof (induction es arbitrary: m)
  case (Cons e es)
  obtain k v where e: "e = (k, v)" by (cases e)
  have s: "sorted_wrt (<) (map fst (sm_entries (assign k v (cm_count_change m))))" using Cons.prems by (simp add: std_assign_sorted)
  have "map_of (sm_entries (assign k v (cm_count_change m))) ++ map_of (rev es) = map_of (sm_entries m) ++ map_of (rev (e # es))"
    using Cons.prems e by (auto simp: std_assign_map_of map_add_def fun_eq_iff split: option.split)
  with Cons.IH [OF s] e show ?case by simp
qed simp

lemma sm_size_card: "sm_ok m \<Longrightarrow> int (length (sm_entries m)) = int (card (dom (map_of (sm_entries m))))"
proof -
  assume "sm_ok m"
  then have "distinct (map fst (sm_entries m))" unfolding sm_ok_def by (simp add: strict_sorted_iff)
  then show ?thesis using distinct_card [of "map fst (sm_entries m)"] by (simp add: dom_map_of_conv_image_fst)
qed

text \<open>Without other threads a call does what the specification says.\<close>

lemma op_alone:
  assumes "sm_ok m" and "alone (op_prog d c) m = (r, m')"
  shows "sm_ok m'" and "(r, map_of (sm_entries m')) = cm_spec d c (map_of (sm_entries m))"
proof -
  have s: "sorted_wrt (<) (map fst (sm_entries m))" using assms(1) by (simp add: sm_ok_def)
  note A = std_assign_sorted [OF s] std_assign_map_of [OF s] std_erase_sorted [OF s] std_erase_map_of
    assign_each [OF s] sm_size_card [OF assms(1), symmetric]
  note R = answered_alone alone_call put_alone get_alone remove_alone maps_to_alone put_entries_alone
    cm_putIfAbsent_def cm_remove_value_def cm_replace_value_def cm_replace_def cm_putAll_def cm_clear_def cm_size_def
  show "sm_ok m'"
    using assms A s by (cases c) (auto simp: sm_ok_def R split: option.splits if_splits)
  show "(r, map_of (sm_entries m')) = cm_spec d c (map_of (sm_entries m))"
    using assms(2) A by (cases c) (auto simp: R split: option.splits if_splits)
qed

definition threads :: "'v \<Rightarrow> nat \<Rightarrow> (nat \<Rightarrow> ('k :: linorder, 'v) cm_call) \<Rightarrow> nat \<Rightarrow> ('k, 'v, 'v cm_answer) map_prog" where
  "threads d n calls t = (if t < n then op_prog d (calls t) else Return (Ret Nothing))"

fun in_turn :: "'v \<Rightarrow> (nat \<Rightarrow> ('k, 'v) cm_call) \<Rightarrow> nat list \<Rightarrow> ('k \<Rightarrow> 'v option) \<Rightarrow> ('k \<Rightarrow> 'v option)" where
  "in_turn d calls [] M = M"
| "in_turn d calls (t # ts) M = in_turn d calls ts (snd (cm_spec d (calls t) M))"

lemma threads_sections: "\<forall>t. one_section (threads d n calls t) \<or> (\<exists>r. threads d n calls t = Return r)"
  by (simp add: threads_def op_section)

lemma threads_set: "{t. one_section (threads d n calls t)} = {..<n}"
proof -
  have "\<not> one_section (Return r)" for r :: "'b cm_answer outcome" by (simp add: one_section_def)
  then show ?thesis by (auto simp: threads_def op_section split: if_splits)
qed

lemma serial_in_turn:
  "sm_ok m \<Longrightarrow> set ts \<subseteq> {..<n} \<Longrightarrow> sm_ok (serial (threads d n calls) ts m)
     \<and> map_of (sm_entries (serial (threads d n calls) ts m)) = in_turn d calls ts (map_of (sm_entries m))"
proof (induction ts arbitrary: m)
  case (Cons t ts)
  obtain r m' where a: "alone (op_prog d (calls t)) m = (r, m')" by (cases "alone (op_prog d (calls t)) m")
  note O = op_alone [OF Cons.prems(1) a]
  have "threads d n calls t = op_prog d (calls t)" "set ts \<subseteq> {..<n}" using Cons.prems(2) by (simp_all add: threads_def)
  then show ?case using Cons.IH [OF O(1)] a arg_cong [OF O(2), of snd] by simp
qed simp

lemma calls_serialized:
  assumes "sm_ok m" and "run_schedule ts (start (threads d n calls) m) = Some M" and "\<And>t. \<exists>r. progs M t = Return r"
  shows "\<exists>order. distinct order \<and> set order = {..<n}
     \<and> (\<forall>i < n. progs M (order ! i) = Return (fst (cm_spec d (calls (order ! i)) (in_turn d calls (take i order) (map_of (sm_entries m))))))
     \<and> map_of (sm_entries (shared M)) = in_turn d calls order (map_of (sm_entries m))"
proof -
  obtain order where S: "serialized (threads d n calls) m order M" by (rule schedule_serialized [OF threads_sections assms(2)])
  note C = serialized_complete [OF S assms(3), unfolded threads_set]
  have d: "distinct order" using S by (simp add: serialized_def)
  then have len: "length order = n" using C(1) distinct_card [OF d] by simp
  have "progs M (order ! i) = Return (fst (cm_spec d (calls (order ! i)) (in_turn d calls (take i order) (map_of (sm_entries m)))))"
    if i: "i < n" for i
  proof -
    have "set (take i order) \<subseteq> {..<n}" using C(1) set_take_subset [of i order] by blast
    note T = serial_in_turn [OF assms(1) this, of d calls]
    let ?m = "serial (threads d n calls) (take i order) m"
    obtain r m' where a: "alone (op_prog d (calls (order ! i))) ?m = (r, m')" by (cases "alone (op_prog d (calls (order ! i))) ?m")
    have "order ! i < n" using C(1) i len nth_mem [of i order] by auto
    then have "progs M (order ! i) = Return r" using S i len a by (simp add: serialized_def threads_def)
    then show ?thesis using op_alone(2) [OF conjunct1 [OF T] a] conjunct2 [OF T] by (metis fst_conv)
  qed
  moreover have "map_of (sm_entries (shared M)) = in_turn d calls order (map_of (sm_entries m))"
    using C serial_in_turn [OF assms(1), of order n d calls] by simp
  ultimately show ?thesis using d C(1) by blast
qed


text \<open>The steps of one program, as a schedule sees them.\<close>

lemmas run_simps = run_schedule.simps thread_step_def start_def threads_def synchronized_def call_prog_def get_state_def change_state_def
  give_def answered_def cm_put_def cm_putIfAbsent_def cm_containsKey_def cm_new_def cm_count_change_def assign_def

text \<open>Two threads put a value for the same absent key; thread 1 is first.\<close>

lemma two_put_if_absent:
  "\<exists>M. run_schedule (replicate 12 1 @ replicate 5 0) (start (threads (0 :: int) 2 (\<lambda>t. MPutIfAbsent (5 :: int) (int t))) cm_new) = Some M
     \<and> (\<forall>t. \<exists>r. progs M t = Return r) \<and> progs M 0 = Return (Ret (Flag False)) \<and> progs M 1 = Return (Ret (Flag True))
     \<and> sm_entries (shared M) = [(5, 1)]"
  by (simp add: run_simps numeral_eq_Suc)


lemma absent_once:
  "\<forall>t \<in> set ts. calls t = MPutIfAbsent k (vals t) \<Longrightarrow> in_turn d calls ts M = (if ts = [] \<or> M k \<noteq> None then M else M(k \<mapsto> vals (hd ts)))"
  by (induction ts arbitrary: M) auto

text \<open>
  C35: When several threads call putIfAbsent for the same key, which is absent, exactly one call returns true and its value is the
  one the map has afterwards; all other calls return false.
\<close>

theorem cm_putIfAbsent_once:
  assumes "sm_ok m" and "map_of (sm_entries m) k = None" and "0 < n"
    and "run_schedule ts (start (threads d n (\<lambda>t. MPutIfAbsent k (vals t))) m) = Some M" and "\<And>t. \<exists>r. progs M t = Return r"
  shows "\<exists>t < n. progs M t = Return (Ret (Flag True)) \<and> (\<forall>u < n. u \<noteq> t \<longrightarrow> progs M u = Return (Ret (Flag False)))
     \<and> map_of (sm_entries (shared M)) = (map_of (sm_entries m))(k \<mapsto> vals t)"
proof -
  let ?c = "\<lambda>t. MPutIfAbsent k (vals t)"
  obtain order where o: "distinct order" "set order = {..<n}"
    and a: "\<And>i. i < n \<Longrightarrow> progs M (order ! i) = Return (fst (cm_spec d (?c (order ! i)) (in_turn d ?c (take i order) (map_of (sm_entries m)))))"
    and e: "map_of (sm_entries (shared M)) = in_turn d ?c order (map_of (sm_entries m))"
    using calls_serialized [OF assms(1,4,5)] by blast
  have n: "length order = n" using o distinct_card [of order] by simp
  have one: "in_turn d ?c xs (map_of (sm_entries m)) = (if xs = [] then map_of (sm_entries m) else (map_of (sm_entries m))(k \<mapsto> vals (hd xs)))" for xs
    using absent_once [of xs ?c k vals d "map_of (sm_entries m)"] assms(2) by simp
  have "progs M u = Return (Ret (Flag False))" if "u < n" "u \<noteq> order ! 0" for u
  proof -
    have "u \<in> set order" using o(2) that(1) by simp
    then obtain i where i: "i < n" "u = order ! i" using n by (auto simp: in_set_conv_nth)
    then have "i \<noteq> 0" using that(2) by metis
    then have "take i order \<noteq> []" using i(1) n by auto
    then show ?thesis using a [OF i(1)] i(2) by (simp add: one)
  qed
  moreover have ne: "order \<noteq> []" using n assms(3) by force
  moreover have "order ! 0 < n"
  proof -
    have "order ! 0 \<in> set order" using ne by (simp add: hd_conv_nth [symmetric])
    then show ?thesis unfolding o(2) by simp
  qed
  moreover have "progs M (order ! 0) = Return (Ret (Flag True))" using a [OF assms(3)] assms(2) by simp
  ultimately show ?thesis using e by (intro exI [of _ "order ! 0"]) (simp add: one hd_conv_nth)
qed

theorem cm_putIfAbsent_once_witness:
  "\<exists>M. run_schedule (replicate 12 1 @ replicate 5 0) (start (threads (0 :: int) 2 (\<lambda>t. MPutIfAbsent (5 :: int) (int t))) cm_new) = Some M
     \<and> (\<exists>t < 2. progs M t = Return (Ret (Flag True)) \<and> (\<forall>u < 2. u \<noteq> t \<longrightarrow> progs M u = Return (Ret (Flag False))))"
proof -
  obtain M where M: "run_schedule (replicate 12 1 @ replicate 5 0) (start (threads (0 :: int) 2 (\<lambda>t. MPutIfAbsent (5 :: int) (int t))) cm_new) = Some M"
    "\<forall>t. \<exists>r. progs M t = Return r" using two_put_if_absent by blast
  have ok: "sm_ok (cm_new :: (int, int) stlmap)" "map_of (sm_entries (cm_new :: (int, int) stlmap)) 5 = None" "0 < (2 :: nat)"
    by (simp_all add: sm_ok_def cm_new_def)
  show ?thesis using cm_putIfAbsent_once [OF ok M(1)] M by blast
qed

text \<open>
  The operations cannot block each other for ever: however the calls of some threads have been interleaved so far, the schedule can be
  continued until every call has returned.
\<close>

theorem cm_completes:
  assumes "run_schedule ts (start (threads d n calls) m) = Some M"
  shows "\<exists>us M'. run_schedule (ts @ us) (start (threads d n calls) m) = Some M' \<and> (\<forall>t. \<exists>r. progs M' t = Return r)"
proof -
  have "finite {t. one_section (threads d n calls t)}" by (simp add: threads_set)
  then show ?thesis using schedule_completes [OF threads_sections assms] by metis
qed

theorem cm_completes_witness:
  "\<exists>us M'. run_schedule ([1, 1, 1] @ us) (start (threads (0 :: int) 2 (\<lambda>t. MPutIfAbsent (5 :: int) (int t))) cm_new) = Some M'
     \<and> (\<forall>t. \<exists>r. progs M' t = Return r)"
proof -
  have "\<exists>M. run_schedule [1, 1, 1] (start (threads (0 :: int) 2 (\<lambda>t. MPutIfAbsent (5 :: int) (int t))) cm_new) = Some M"
    by (simp add: run_simps)
  then obtain M where "run_schedule [1, 1, 1] (start (threads (0 :: int) 2 (\<lambda>t. MPutIfAbsent (5 :: int) (int t))) cm_new) = Some M" ..
  then show ?thesis by (rule cm_completes)
qed

text \<open>
  clear and copy of a map do not count a change, so the check of an iterator does not see them: the next element is then read from a
  released node, where every other operation makes next throw a ConcurrentModificationException.
\<close>

lemma cm_clear_unnoticed:
  "let m = snd (alone (cm_put 3 30) cm_new); it = cm_iterator m in
     fst (alone (call_prog (cm_clear :: (int, int, unit) map_prog) (\<lambda>_. cm_key_next it)) m) = Undefined UseAfterFree
   \<and> fst (alone (call_prog (cm_copy_stl False [(3 :: int, 31 :: int)]) (\<lambda>_. cm_key_next it)) m) = Undefined UseAfterFree
   \<and> fst (alone (call_prog (cm_put 4 (40 :: int)) (\<lambda>_. cm_key_next it)) m)
       = Throw (ConcurrentModificationException ''StlMap modified outside this iterator'')"
  by code_simp

text \<open>\<^verbatim>\<open>equals\<close> of another map asks for the keys of this map only.\<close>

lemma cm_equals_one_sided:
  assumes "sm_ok m" and "\<And>k v. map_of (sm_entries m) k = Some v \<Longrightarrow> source k = Ret v"
  shows "fst (alone (cm_equals source) m) = Ret True"
proof -
  have "fst (alone (equals_keys source ks) m) = Ret True" if "set ks \<subseteq> fst ` set (sm_entries m)" for ks
    using that
  proof (induction ks)
    case (Cons k ks)
    then obtain v where "map_of (sm_entries m) k = Some v" by (metis list.set_intros(1) map_of_eq_None_iff not_None_eq subsetD)
    then show ?case using Cons assms(2) by (simp add: alone_call get_alone)
  qed simp
  then show ?thesis by (simp add: cm_equals_def)
qed

end
