(* ===== verification/Std_Nodes.thy ===== *)
theory Std_Nodes
  imports Abstract_Set
begin

text \<open>
  The node-based containers of the standard library, \<^verbatim>\<open>std::list\<close> and \<^verbatim>\<open>std::set\<close>, as sequences of nodes with an address each,
  and the iterator that \<^verbatim>\<open>StlSet\<close>, \<^verbatim>\<open>StlQueue\<close> and \<^verbatim>\<open>StlList\<close> put on top of them.  Addresses are not used
  again, so an iterator at a node that was erased is told from an iterator at a new node with the same value.
\<close>

section \<open>Nodes\<close>

record 'e std_nodes =
  nd_cells :: "(addr \<times> 'e) list"
  nd_fresh :: addr

definition nd_values :: "'e std_nodes \<Rightarrow> 'e list" where
  "nd_values c = map snd (nd_cells c)"

definition nd_empty :: "'e std_nodes" where
  "nd_empty = \<lparr>nd_cells = [], nd_fresh = 0\<rparr>"

text \<open>\<^verbatim>\<open>begin()\<close> and \<^verbatim>\<open>++\<close>; \<open>None\<close> is \<^verbatim>\<open>end()\<close>.\<close>

fun first_node :: "(addr \<times> 'e) list \<Rightarrow> addr option" where
  "first_node [] = None"
| "first_node ((a, _) # _) = Some a"

fun node_after :: "addr \<Rightarrow> (addr \<times> 'e) list \<Rightarrow> addr option" where
  "node_after a [] = None"
| "node_after a ((b, _) # cs) = (if a = b then first_node cs else node_after a cs)"

text \<open>\<^verbatim>\<open>insert\<close> before a position, \<^verbatim>\<open>erase\<close>, and the assignment to an element.\<close>

fun put_before :: "addr option \<Rightarrow> addr \<times> 'e \<Rightarrow> (addr \<times> 'e) list \<Rightarrow> (addr \<times> 'e) list" where
  "put_before p n [] = [n]"
| "put_before p n ((b, v) # cs) = (if p = Some b then n # (b, v) # cs else (b, v) # put_before p n cs)"

definition nd_insert :: "addr option \<Rightarrow> 'e \<Rightarrow> 'e std_nodes \<Rightarrow> 'e std_nodes" where
  "nd_insert p v c = c\<lparr>nd_cells := put_before p (nd_fresh c, v) (nd_cells c), nd_fresh := Suc (nd_fresh c)\<rparr>"

definition nd_erase :: "addr \<Rightarrow> 'e std_nodes \<Rightarrow> 'e std_nodes" where
  "nd_erase a c = c\<lparr>nd_cells := filter (\<lambda>(b, _). b \<noteq> a) (nd_cells c)\<rparr>"

definition nd_clear :: "'e std_nodes \<Rightarrow> 'e std_nodes" where
  "nd_clear c = c\<lparr>nd_cells := []\<rparr>"

definition nd_write :: "addr \<Rightarrow> 'e \<Rightarrow> 'e std_nodes \<Rightarrow> 'e std_nodes" where
  "nd_write a v c = c\<lparr>nd_cells := map (\<lambda>(b, u). (b, if b = a then v else u)) (nd_cells c)\<rparr>"

text \<open>The assignment of a container, and the insertion of a range, which append copies of the elements.\<close>

definition nd_append :: "'e list \<Rightarrow> 'e std_nodes \<Rightarrow> 'e std_nodes" where
  "nd_append vs c = fold (nd_insert None) vs c"

section \<open>The iterator\<close>

record std_iter =
  it_current :: "addr option"
  it_previous :: "addr option"

definition node_hasNext :: "'e std_nodes \<Rightarrow> std_iter \<Rightarrow> bool" where
  "node_hasNext c it \<longleftrightarrow> it_current it \<noteq> None"

text \<open>\<^verbatim>\<open>previous = current; return *(current++)\<close>.\<close>

definition node_next :: "string \<Rightarrow> 'e std_nodes \<Rightarrow> std_iter \<Rightarrow> 'e outcome \<times> std_iter" where
  "node_next msg c it =
     (case it_current it of
        None \<Rightarrow> (Throw (NoSuchElementException msg), it)
      | Some a \<Rightarrow>
          (case map_of (nd_cells c) a of
             None \<Rightarrow> (Undefined UseAfterFree, it)
           | Some v \<Rightarrow> (Ret v, it\<lparr>it_previous := Some a, it_current := node_after a (nd_cells c)\<rparr>)))"

definition node_remove :: "string \<Rightarrow> 'e std_nodes \<Rightarrow> std_iter \<Rightarrow> unit outcome \<times> 'e std_nodes \<times> std_iter" where
  "node_remove msg c it =
     (case it_previous it of
        None \<Rightarrow> (Throw (IllegalStateException msg), c, it)
      | Some a \<Rightarrow>
          (case map_of (nd_cells c) a of
             None \<Rightarrow> (Undefined UseAfterFree, c, it)
           | Some _ \<Rightarrow> (Ret (), nd_erase a c, it\<lparr>it_previous := None\<rparr>)))"

section \<open>Facts\<close>

definition nd_ok :: "'e std_nodes \<Rightarrow> bool" where
  "nd_ok c \<longleftrightarrow> distinct (map fst (nd_cells c)) \<and> (\<forall>(a, _) \<in> set (nd_cells c). a < nd_fresh c)"

lemma nd_values_length: "length (nd_values c) = length (nd_cells c)"
  by (simp add: nd_values_def)

lemma nd_empty_facts [simp]: "nd_ok nd_empty" "nd_values nd_empty = []"
  by (simp_all add: nd_ok_def nd_values_def nd_empty_def)

lemma nd_clear_facts [simp]: "nd_ok (nd_clear c)" "nd_values (nd_clear c) = []"
  by (simp_all add: nd_ok_def nd_values_def nd_clear_def)

lemma put_before_split:
  "a \<notin> fst ` set as \<Longrightarrow> put_before (Some a) n (as @ (a, v) # bs) = as @ n # (a, v) # bs"
  by (induction as) auto

lemma put_before_end: "put_before None n cs = cs @ [n]"
  by (induction cs) auto

lemma put_before_first: "cs \<noteq> [] \<Longrightarrow> put_before (first_node cs) n cs = n # cs"
  by (cases cs) auto

lemma put_before_position:
  "distinct (map fst (as @ bs)) \<Longrightarrow> put_before (first_node bs) n (as @ bs) = as @ n # bs"
  by (cases bs) (auto simp: put_before_end put_before_split)

lemma put_before_first_node: "distinct (map fst cs) \<Longrightarrow> put_before (first_node cs) n cs = n # cs"
  using put_before_position [of "[]" cs n] by simp

lemma node_after_split: "a \<notin> fst ` set as \<Longrightarrow> node_after a (as @ (a, v) # bs) = first_node bs"
  by (induction as) auto

lemma map_of_split: "a \<notin> fst ` set as \<Longrightarrow> map_of (as @ (a, v) # bs) a = Some v"
  by (induction as) auto

lemma filter_split:
  "distinct (map fst (as @ (a, v) # bs)) \<Longrightarrow> filter (\<lambda>(b, _). b \<noteq> a) (as @ (a, v) # bs) = as @ bs"
proof -
  assume d: "distinct (map fst (as @ (a, v) # bs))"
  have "\<forall>n \<in> set as. case n of (b, _) \<Rightarrow> b \<noteq> a" "\<forall>n \<in> set bs. case n of (b, _) \<Rightarrow> b \<noteq> a" using d by (auto intro: rev_image_eqI)
  then show ?thesis by simp
qed

text \<open>Inserting at a position, given by the nodes from there on.\<close>

lemma nd_insert_effect:
  assumes "nd_ok c" and "nd_cells c = as @ bs"
  shows "nd_cells (nd_insert (first_node bs) v c) = as @ (nd_fresh c, v) # bs" and "nd_ok (nd_insert (first_node bs) v c)"
proof -
  have d: "distinct (map fst (as @ bs))" "\<forall>(a, _) \<in> set (as @ bs). a < nd_fresh c" using assms by (simp_all add: nd_ok_def)
  then show cells: "nd_cells (nd_insert (first_node bs) v c) = as @ (nd_fresh c, v) # bs"
    using assms(2) put_before_position [OF d(1)] by (simp add: nd_insert_def)
  have "nd_fresh (nd_insert (first_node bs) v c) = Suc (nd_fresh c)" by (simp add: nd_insert_def)
  then show "nd_ok (nd_insert (first_node bs) v c)" using d unfolding nd_ok_def cells by (fastforce simp: less_Suc_eq)
qed

lemma nd_append_effect:
  assumes "nd_ok c"
  shows "nd_ok (nd_append vs c) \<and> nd_values (nd_append vs c) = nd_values c @ vs"
  using assms
proof (induction vs arbitrary: c)
  case (Cons v vs)
  have "nd_ok (nd_insert None v c)" "nd_values (nd_insert None v c) = nd_values c @ [v]"
    using nd_insert_effect [OF Cons.prems, of "nd_cells c" "[]"] by (simp_all add: nd_values_def)
  then show ?case using Cons.IH by (simp add: nd_append_def)
qed (simp add: nd_append_def)

lemma nd_erase_effect:
  assumes "nd_ok c" and "nd_cells c = as @ (a, v) # bs"
  shows "nd_cells (nd_erase a c) = as @ bs" and "nd_ok (nd_erase a c)"
proof -
  have d: "distinct (map fst (as @ (a, v) # bs))" using assms by (simp add: nd_ok_def)
  show cells: "nd_cells (nd_erase a c) = as @ bs" using assms(2) filter_split [OF d] by (simp add: nd_erase_def)
  have "nd_fresh (nd_erase a c) = nd_fresh c" by (simp add: nd_erase_def)
  then show "nd_ok (nd_erase a c)" using assms d unfolding nd_ok_def cells by auto
qed

lemma nd_write_effect:
  assumes "nd_ok c" and "nd_cells c = as @ (a, u) # bs"
  shows "nd_cells (nd_write a v c) = as @ (a, v) # bs" and "nd_ok (nd_write a v c)"
proof -
  have d: "distinct (map fst (as @ (a, u) # bs))" using assms by (simp add: nd_ok_def)
  then have "map (\<lambda>(b, u). (b, if b = a then v else u)) as = as" "map (\<lambda>(b, u). (b, if b = a then v else u)) bs = bs"
    by (force intro!: map_idI)+
  then show cells: "nd_cells (nd_write a v c) = as @ (a, v) # bs" using assms(2) by (simp add: nd_write_def)
  have "nd_fresh (nd_write a v c) = nd_fresh c" by (simp add: nd_write_def)
  then show "nd_ok (nd_write a v c)" using assms d unfolding nd_ok_def cells by auto
qed

section \<open>The iterator as the base classes use it\<close>

text \<open>The nodes \<open>as\<close> are passed and \<open>bs\<close> are to come; with \<open>b\<close> the last one passed can be removed.\<close>

definition std_view :: "'e std_nodes \<Rightarrow> std_iter \<Rightarrow> 'e list \<Rightarrow> 'e list \<Rightarrow> bool \<Rightarrow> bool" where
  "std_view c it xs ys b \<longleftrightarrow> nd_ok c \<and> (\<exists>as bs. nd_cells c = as @ bs \<and> xs = map snd as \<and> ys = map snd bs
     \<and> it_current it = first_node bs \<and> (b \<longrightarrow> as \<noteq> [] \<and> it_previous it = Some (fst (last as))))"

lemma std_view_ok: "std_view c it xs ys b \<Longrightarrow> nd_ok c \<and> nd_values c = xs @ ys"
  by (auto simp: std_view_def nd_values_def)

lemma std_view_begin: "nd_ok c \<Longrightarrow> std_view c \<lparr>it_current = first_node (nd_cells c), it_previous = p\<rparr> [] (nd_values c) False"
  by (auto simp: std_view_def nd_values_def)

lemma std_view_hasNext: "std_view c it xs ys b \<Longrightarrow> node_hasNext c it \<longleftrightarrow> ys \<noteq> []"
  unfolding std_view_def node_hasNext_def by (elim conjE exE, rename_tac as bs) (case_tac bs; auto)

lemma std_view_split:
  assumes "std_view c it xs (y # ys) b"
  obtains as a bs where "nd_cells c = as @ (a, y) # bs" and "xs = map snd as" and "ys = map snd bs" and "it_current it = Some a"
    and "a \<notin> fst ` set as" and "map_of (nd_cells c) a = Some y" and "nd_ok c"
proof -
  obtain as bs' where s: "nd_ok c" "nd_cells c = as @ bs'" "xs = map snd as" "y # ys = map snd bs'" "it_current it = first_node bs'"
    using assms by (auto simp: std_view_def)
  obtain a bs where bs: "bs' = (a, y) # bs" "ys = map snd bs" using s(4) by (cases bs') auto
  have a: "a \<notin> fst ` set as" using s(1,2) bs by (auto simp: nd_ok_def)
  show thesis using that [OF _ s(3) bs(2)] s(1,2,5) bs(1) a map_of_split [OF a, of y bs] by simp
qed

lemma std_view_next:
  assumes "std_view c it xs (y # ys) b"
  shows "\<exists>it'. node_next msg c it = (Ret y, it') \<and> std_view c it' (xs @ [y]) ys True"
proof -
  obtain as a bs where s: "nd_cells c = as @ (a, y) # bs" "xs = map snd as" "ys = map snd bs" "it_current it = Some a"
    "a \<notin> fst ` set as" "map_of (nd_cells c) a = Some y" "nd_ok c" using assms by (rule std_view_split)
  then have "node_next msg c it = (Ret y, it\<lparr>it_previous := Some a, it_current := first_node bs\<rparr>)"
    unfolding node_next_def s(4) option.case s(6) by (simp add: node_after_split)
  moreover have "std_view c (it\<lparr>it_previous := Some a, it_current := first_node bs\<rparr>) (xs @ [y]) ys True"
    unfolding std_view_def using s by (intro conjI exI [of _ "as @ [(a, y)]"] exI [of _ bs]) simp_all
  ultimately show ?thesis by blast
qed

lemma std_view_remove:
  assumes "std_view c it (xs @ [x]) ys True"
  shows "\<exists>c' it'. node_remove msg c it = (Ret (), c', it') \<and> std_view c' it' xs ys False"
proof -
  obtain as' bs where s': "nd_ok c" "nd_cells c = as' @ bs" "xs @ [x] = map snd as'" "ys = map snd bs" "it_current it = first_node bs"
    "as' \<noteq> []" "it_previous it = Some (fst (last as'))" using assms by (auto simp: std_view_def)
  obtain as a where as: "as' = as @ [(a, x)]" "xs = map snd as" using s'(3) by (cases as' rule: rev_cases) auto
  have cells: "nd_cells c = as @ (a, x) # bs" using s'(2) as by simp
  note e = nd_erase_effect [OF s'(1) cells]
  have "a \<notin> fst ` set as" using s'(1) cells by (auto simp: nd_ok_def)
  then have "node_remove msg c it = (Ret (), nd_erase a c, it\<lparr>it_previous := None\<rparr>)"
    using s'(7) as(1) cells map_of_split [of a as x bs] by (simp add: node_remove_def)
  moreover have "std_view (nd_erase a c) (it\<lparr>it_previous := None\<rparr>) xs ys False"
    unfolding std_view_def using e s'(4,5) as(2) by (intro conjI exI [of _ as] exI [of _ bs]) simp_all
  ultimately show ?thesis by blast
qed

end
