(* ===== verification/Stl_Set.thy ===== *)
theory Stl_Set
  imports Std_Nodes
begin

text \<open>
  \<^verbatim>\<open>StlSet\<close> (StlSet.h): a \<^verbatim>\<open>std::set\<close>, the sorted sequence of its nodes, behind the interface of the library's sets.
\<close>

section \<open>Operations\<close>

text \<open>\<^verbatim>\<open>find\<close> of the standard set, and the node before which \<^verbatim>\<open>insert\<close> puts a value that is not there.\<close>

definition ss_find :: "'e \<Rightarrow> 'e std_nodes \<Rightarrow> addr option" where
  "ss_find v c = map_option fst (find (\<lambda>(_, u). u = v) (nd_cells c))"

fun set_position :: "'e :: linorder \<Rightarrow> (addr \<times> 'e) list \<Rightarrow> addr option" where
  "set_position v [] = None"
| "set_position v ((a, u) # cs) = (if v < u then Some a else set_position v cs)"

definition ss_new :: "'e std_nodes" where
  "ss_new = nd_empty"

definition ss_clear :: "'e std_nodes \<Rightarrow> unit outcome \<times> 'e std_nodes" where
  "ss_clear c = (Ret (), nd_clear c)"

definition ss_contains :: "'e \<Rightarrow> 'e std_nodes \<Rightarrow> bool" where
  "ss_contains v c \<longleftrightarrow> ss_find v c \<noteq> None"

definition ss_isEmpty :: "'e std_nodes \<Rightarrow> bool" where
  "ss_isEmpty c \<longleftrightarrow> nd_cells c = []"

definition ss_size :: "'e std_nodes \<Rightarrow> int" where
  "ss_size c = int (length (nd_cells c))"

definition ss_add :: "'e :: linorder \<Rightarrow> 'e std_nodes \<Rightarrow> bool outcome \<times> 'e std_nodes" where
  "ss_add v c =
     (if ss_find v c \<noteq> None then (Ret False, c) else (Ret True, nd_insert (set_position v (nd_cells c)) v c))"

definition ss_remove :: "'e \<Rightarrow> 'e std_nodes \<Rightarrow> bool outcome \<times> 'e std_nodes" where
  "ss_remove v c = (case ss_find v c of None \<Rightarrow> (Ret False, c) | Some a \<Rightarrow> (Ret True, nd_erase a c))"

text \<open>The iterator starts with \<^verbatim>\<open>previous\<close> at the first element, not at the end.\<close>

definition ss_iterator :: "'e std_nodes \<Rightarrow> std_iter" where
  "ss_iterator c = \<lparr>it_current = first_node (nd_cells c), it_previous = first_node (nd_cells c)\<rparr>"

definition ss_next :: "'e std_nodes \<Rightarrow> std_iter \<Rightarrow> 'e outcome \<times> std_iter" where
  "ss_next = node_next ''Set::Iterator::next - No more elements to return''"

definition ss_iter_remove :: "'e std_nodes \<Rightarrow> std_iter \<Rightarrow> unit outcome \<times> 'e std_nodes \<times> std_iter" where
  "ss_iter_remove = node_remove ''Set::Iterator::remove - Invalid State to call remove''"

definition const_ss_iter_remove :: "'e std_nodes \<Rightarrow> std_iter \<Rightarrow> unit outcome \<times> 'e std_nodes \<times> std_iter" where
  "const_ss_iter_remove c it =
     (Throw (UnsupportedOperationException ''Set::Iterator::remove - Not Valid on a Const Iterator''), c, it)"

text \<open>What the base classes call; the second for a constant set.\<close>

definition ss_ops :: "('e :: linorder std_nodes, std_iter, 'e) coll_ops" where
  "ss_ops = \<lparr>v_size = ss_size, v_iterator = ss_iterator, v_hasNext = node_hasNext, v_next = ss_next, v_remove = ss_iter_remove,
     v_add = ss_add, v_clear = ss_clear\<rparr>"

definition const_ss_ops :: "('e :: linorder std_nodes, std_iter, 'e) coll_ops" where
  "const_ss_ops = ss_ops\<lparr>v_remove := const_ss_iter_remove\<rparr>"

text \<open>The inherited operations; \<^verbatim>\<open>containsAll\<close> calls the \<^verbatim>\<open>contains\<close> above.\<close>

definition ss_containsAll :: "'e list \<Rightarrow> 'e std_nodes \<Rightarrow> bool" where
  "ss_containsAll collection c = list_all (\<lambda>v. ss_contains v c) collection"

definition ss_addAll :: "'e :: linorder list \<Rightarrow> 'e std_nodes \<Rightarrow> bool outcome \<times> 'e std_nodes" where
  "ss_addAll collection c = coll_addAll ss_ops collection c"

definition ss_assign :: "'e :: linorder list \<Rightarrow> 'e std_nodes \<Rightarrow> unit outcome \<times> 'e std_nodes" where
  "ss_assign collection c = coll_assign ss_ops collection c"

definition ss_removeAll :: "'e :: linorder list \<Rightarrow> 'e std_nodes \<Rightarrow> (bool outcome \<times> 'e std_nodes) option" where
  "ss_removeAll collection c = set_removeAll (Suc (length (nd_cells c))) ss_ops ss_remove collection c"

definition ss_retainAll :: "'e :: linorder list \<Rightarrow> 'e std_nodes \<Rightarrow> (bool outcome \<times> 'e std_nodes) option" where
  "ss_retainAll collection c = coll_retainAll (Suc (length (nd_cells c))) ss_ops collection c"

definition ss_toArray :: "'e :: linorder std_nodes \<Rightarrow> ('e list outcome \<times> 'e std_nodes) option" where
  "ss_toArray c = coll_toArray (Suc (length (nd_cells c))) const_ss_ops c"

text \<open>
  An argument is the list of its elements; \<open>stl_set\<close>: the \<^verbatim>\<open>dynamic_cast\<close> finds that it is an \<^verbatim>\<open>StlSet\<close>, \<open>same_object\<close>: that it is this
  set, which is then empty when its elements are copied.
\<close>

definition ss_equals :: "bool \<Rightarrow> bool \<Rightarrow> 'e list \<Rightarrow> 'e std_nodes \<Rightarrow> bool" where
  "ss_equals stl_set same_object collection c =
     (if \<not> stl_set then
        (if same_object then True
         else if ss_size c = int (length collection) then ss_containsAll collection c else False)
      else nd_values c = collection)"

definition ss_copy :: "bool \<Rightarrow> bool \<Rightarrow> 'e :: linorder list \<Rightarrow> 'e std_nodes \<Rightarrow> unit outcome \<times> 'e std_nodes" where
  "ss_copy stl_set same_object collection c =
     (if \<not> stl_set then coll_copy ss_ops collection c
      else (Ret (), nd_append (if same_object then [] else collection) (nd_clear c)))"

definition ss_from_stl :: "'e :: linorder list \<Rightarrow> unit outcome \<times> 'e std_nodes" where
  "ss_from_stl source = ss_copy True False source ss_new"

definition ss_from :: "'e :: linorder list \<Rightarrow> unit outcome \<times> 'e std_nodes" where
  "ss_from source = coll_copy ss_ops source ss_new"

section \<open>Effects\<close>

definition ss_ok :: "'e :: linorder std_nodes \<Rightarrow> bool" where
  "ss_ok c \<longleftrightarrow> nd_ok c \<and> sorted_wrt (<) (nd_values c)"

lemma ss_contains_iff: "ss_contains v c \<longleftrightarrow> v \<in> set (nd_values c)"
  by (force simp: ss_contains_def ss_find_def nd_values_def find_None_iff)

lemma ss_find_Some:
  assumes "nd_ok c" and "ss_find v c = Some a"
  obtains as bs where "nd_cells c = as @ (a, v) # bs"
proof -
  obtain n where n: "find (\<lambda>(_, u). u = v) (nd_cells c) = Some n" "fst n = a" using assms(2) by (auto simp: ss_find_def)
  then have "n \<in> set (nd_cells c)" "snd n = v" by (auto simp: find_Some_iff dest: nth_mem)
  then show thesis using that n(2) by (metis prod.collapse split_list)
qed

lemma set_position_split:
  "sorted_wrt (<) (map snd cs) \<Longrightarrow> v \<notin> snd ` set cs \<Longrightarrow>
   \<exists>as bs. cs = as @ bs \<and> set_position v cs = first_node bs \<and> (\<forall>u \<in> snd ` set as. u < v) \<and> (\<forall>u \<in> snd ` set bs. v < u)"
proof (induction cs)
  case (Cons n cs)
  obtain a u where n: "n = (a, u)" by (cases n)
  show ?case
  proof (cases "v < u")
    case True
    then show ?thesis using Cons.prems n by (intro exI [of _ "[]"] exI [of _ "n # cs"]) (auto intro: less_trans)
  next
    case False
    then have "u < v" using Cons.prems(2) n by auto
    moreover obtain as bs where "cs = as @ bs" "set_position v cs = first_node bs" "\<forall>u \<in> snd ` set as. u < v" "\<forall>u \<in> snd ` set bs. v < u"
      using Cons.IH Cons.prems by auto
    ultimately show ?thesis using False n by (intro exI [of _ "n # as"] exI [of _ bs]) simp
  qed
qed simp

lemma ss_add_effect:
  assumes "ss_ok c"
  shows "\<exists>c'. ss_add v c = (Ret (v \<notin> set (nd_values c)), c') \<and> ss_ok c' \<and> set (nd_values c') = insert v (set (nd_values c))"
proof (cases "v \<in> set (nd_values c)")
  case True
  then show ?thesis using assms ss_contains_iff [of v c] by (auto simp: ss_add_def ss_contains_def)
next
  case False
  then have ret: "ss_add v c = (Ret True, nd_insert (set_position v (nd_cells c)) v c)"
    using ss_contains_iff [of v c] by (simp add: ss_add_def ss_contains_def)
  have ok: "nd_ok c" "sorted_wrt (<) (map snd (nd_cells c))" "v \<notin> snd ` set (nd_cells c)"
    using assms False by (simp_all add: ss_ok_def nd_values_def)
  from set_position_split [OF ok(2,3)] obtain as bs where s: "nd_cells c = as @ bs" "set_position v (nd_cells c) = first_node bs"
    "\<forall>u \<in> snd ` set as. u < v" "\<forall>u \<in> snd ` set bs. v < u" by (elim exE conjE)
  note e = nd_insert_effect [OF ok(1) s(1), of v]
  have "sorted_wrt (<) (nd_values (nd_insert (first_node bs) v c))"
  proof -
    have "sorted_wrt (<) (map snd as @ map snd bs)" using ok(2) s(1) by simp
    then show ?thesis unfolding nd_values_def e(1) using s(3,4) by (simp add: sorted_wrt_append)
  qed
  moreover have "set (nd_values (nd_insert (first_node bs) v c)) = insert v (set (nd_values c))"
    unfolding nd_values_def e(1) s(1) by auto
  ultimately show ?thesis using e(2) ret s(2) False by (simp add: ss_ok_def)
qed

lemma ss_remove_effect:
  assumes "ss_ok c"
  shows "\<exists>c'. ss_remove v c = (Ret (v \<in> set (nd_values c)), c') \<and> ss_ok c' \<and> nd_values c' = filter (\<lambda>u. u \<noteq> v) (nd_values c)"
proof (cases "ss_find v c")
  case None
  then have "v \<notin> set (nd_values c)" using ss_contains_iff [of v c] by (simp add: ss_contains_def)
  then show ?thesis using assms None by (auto simp: ss_remove_def intro!: filter_True [symmetric])
next
  case (Some a)
  have ok: "nd_ok c" using assms by (simp add: ss_ok_def)
  then obtain as bs where s: "nd_cells c = as @ (a, v) # bs" using Some by (rule ss_find_Some)
  note e = nd_erase_effect [OF ok s]
  have sorted: "sorted_wrt (<) (map snd as @ v # map snd bs)" using assms s by (simp add: ss_ok_def nd_values_def)
  then have "filter (\<lambda>u. u \<noteq> v) (map snd as) = map snd as" "filter (\<lambda>u. u \<noteq> v) (map snd bs) = map snd bs"
    by (auto simp: sorted_wrt_append intro!: filter_True)
  then have "filter (\<lambda>u. u \<noteq> v) (map snd as @ v # map snd bs) = map snd as @ map snd bs" by simp
  then have "nd_values (nd_erase a c) = filter (\<lambda>u. u \<noteq> v) (nd_values c)" using e s by (simp add: nd_values_def)
  moreover have "v \<in> set (nd_values c)" using s by (simp add: nd_values_def)
  moreover have "ss_ok (nd_erase a c)" using e sorted by (auto simp: ss_ok_def nd_values_def sorted_wrt_append)
  ultimately show ?thesis using Some by (simp add: ss_remove_def)
qed

definition ss_view :: "'e :: linorder std_nodes \<Rightarrow> std_iter \<Rightarrow> 'e list \<Rightarrow> 'e list \<Rightarrow> bool \<Rightarrow> bool" where
  "ss_view c it xs ys b \<longleftrightarrow> std_view c it xs ys b \<and> sorted_wrt (<) (xs @ ys)"

interpretation ss: value_set ss_ops ss_ok nd_values ss_view ss_remove
proof
  show "ss_ok c \<Longrightarrow> v_size ss_ops c = int (length (nd_values c))" for c :: "'a std_nodes"
    by (simp add: ss_ops_def ss_size_def nd_values_length)
  show "ss_view c it xs ys b \<Longrightarrow> ss_ok c \<and> nd_values c = xs @ ys" for c :: "'a std_nodes" and it xs ys b
    by (auto simp: ss_view_def ss_ok_def dest: std_view_ok)
  show "ss_ok c \<Longrightarrow> ss_view c (v_iterator ss_ops c) [] (nd_values c) False" for c :: "'a std_nodes"
    by (simp add: ss_view_def ss_ok_def ss_ops_def ss_iterator_def std_view_begin)
  show "ss_view c it xs ys b \<Longrightarrow> v_hasNext ss_ops c it \<longleftrightarrow> ys \<noteq> []" for c :: "'a std_nodes" and it xs ys b
    using std_view_hasNext [of c it xs ys b] by (simp add: ss_view_def ss_ops_def)
  show "\<exists>it'. v_next ss_ops c it = (Ret y, it') \<and> ss_view c it' (xs @ [y]) ys True" if "ss_view c it xs (y # ys) b" for c :: "'a std_nodes" and it xs y ys b
    using that std_view_next [of c it xs y ys b "''Set::Iterator::next - No more elements to return''"]
    by (auto simp: ss_view_def ss_ops_def ss_next_def)
  show "\<exists>c' it'. v_remove ss_ops c it = (Ret (), c', it') \<and> ss_view c' it' xs ys False" if "ss_view c it (xs @ [x]) ys True" for c :: "'a std_nodes" and it xs x ys
    using that std_view_remove [of c it xs x ys "''Set::Iterator::remove - Invalid State to call remove''"]
    by (auto simp: ss_view_def ss_ops_def ss_iter_remove_def sorted_wrt_append)
  show "\<exists>c'. ss_remove v c = (Ret (v \<in> set (nd_values c)), c') \<and> ss_ok c' \<and> nd_values c' = filter (\<lambda>u. u \<noteq> v) (nd_values c)"
    if "ss_ok c" for c :: "'a std_nodes" and v using ss_remove_effect [OF that] .
qed

interpretation const_ss: readable const_ss_ops ss_ok nd_values ss_view
  using ss.readable_axioms by (simp add: readable_def const_ss_ops_def ss_ops_def)

lemma ss_add_each:
  "ss_ok c \<Longrightarrow> \<exists>c'. add_each ss_add b vs c = (Ret (b \<or> \<not> set vs \<subseteq> set (nd_values c)), c') \<and> ss_ok c'
     \<and> set (nd_values c') = set (nd_values c) \<union> set vs"
proof (induction vs arbitrary: c b)
  case (Cons v vs)
  obtain c1 where c1: "ss_add v c = (Ret (v \<notin> set (nd_values c)), c1)" "ss_ok c1" "set (nd_values c1) = insert v (set (nd_values c))"
    using ss_add_effect [OF Cons.prems] by blast
  from Cons.IH [OF c1(2), of "v \<notin> set (nd_values c) \<or> b"] c1 show ?case by auto
qed simp

lemma ss_clear_ok [simp]: "ss_ok (nd_clear c)" "ss_ok nd_empty"
  by (simp_all add: ss_ok_def)

section \<open>Sequences of calls\<close>

text \<open>\<open>CopyOf True vs\<close> copies another \<^verbatim>\<open>StlSet\<close>, whose elements are therefore sorted and different.\<close>

datatype 'e ss_call =
    InsertOne 'e
  | EraseOne 'e
  | InsertAll "'e list"
  | CopyOf bool "'e list"
  | ReplaceBy "'e list"
  | EraseAll
  | EraseEach "'e list"
  | KeepEach "'e list"

fun proper_call :: "'e :: linorder ss_call \<Rightarrow> bool" where
  "proper_call (CopyOf stl_set vs) = (stl_set \<longrightarrow> sorted_wrt (<) vs)"
| "proper_call _ = True"

definition flagged :: "unit outcome \<times> 'c \<Rightarrow> bool outcome \<times> 'c" where
  "flagged r = (map_outcome (\<lambda>_. True) (fst r), snd r)"

fun ss_apply :: "'e :: linorder ss_call \<Rightarrow> 'e std_nodes \<Rightarrow> (bool outcome \<times> 'e std_nodes) option" where
  "ss_apply (InsertOne v) c = Some (ss_add v c)"
| "ss_apply (EraseOne v) c = Some (ss_remove v c)"
| "ss_apply (InsertAll vs) c = Some (ss_addAll vs c)"
| "ss_apply (CopyOf stl_set vs) c = Some (flagged (ss_copy stl_set False vs c))"
| "ss_apply (ReplaceBy vs) c = Some (flagged (ss_assign vs c))"
| "ss_apply EraseAll c = Some (flagged (ss_clear c))"
| "ss_apply (EraseEach vs) c = ss_removeAll vs c"
| "ss_apply (KeepEach vs) c = ss_retainAll vs c"

text \<open>The answers of the calls and the set they leave; \<open>None\<close> if a call does not return.\<close>

fun ss_run :: "'e :: linorder ss_call list \<Rightarrow> 'e std_nodes \<Rightarrow> (bool list \<times> 'e std_nodes) option" where
  "ss_run [] c = Some ([], c)"
| "ss_run (x # xs) c =
     (case ss_apply x c of
        Some (Ret b, c') \<Rightarrow> map_option (map_prod ((#) b) id) (ss_run xs c')
      | _ \<Rightarrow> None)"

fun ss_spec :: "'e ss_call \<Rightarrow> 'e set \<Rightarrow> bool \<times> 'e set" where
  "ss_spec (InsertOne v) S = (v \<notin> S, insert v S)"
| "ss_spec (EraseOne v) S = (v \<in> S, S - {v})"
| "ss_spec (InsertAll vs) S = (\<not> set vs \<subseteq> S, S \<union> set vs)"
| "ss_spec (CopyOf _ vs) S = (True, set vs)"
| "ss_spec (ReplaceBy vs) S = (True, set vs)"
| "ss_spec EraseAll S = (True, {})"
| "ss_spec (EraseEach vs) S = (S \<inter> set vs \<noteq> {}, S - set vs)"
| "ss_spec (KeepEach vs) S = (\<not> S \<subseteq> set vs, S \<inter> set vs)"

fun ss_spec_run :: "'e ss_call list \<Rightarrow> 'e set \<Rightarrow> bool list \<times> 'e set" where
  "ss_spec_run [] S = ([], S)"
| "ss_spec_run (x # xs) S = (case ss_spec x S of (b, S') \<Rightarrow> map_prod ((#) b) id (ss_spec_run xs S'))"

lemma ss_replaced:
  "ss_ok c \<Longrightarrow> \<exists>c'. unit_result (add_each ss_add False vs (nd_clear c)) = (Ret (), c') \<and> ss_ok c' \<and> set (nd_values c') = set vs"
  using ss_add_each [of "nd_clear c" False vs] by (auto simp: unit_result_def)

lemma ss_copy_effect:
  assumes "ss_ok c" and "stl_set \<Longrightarrow> sorted_wrt (<) vs"
  shows "\<exists>c'. ss_copy stl_set False vs c = (Ret (), c') \<and> ss_ok c' \<and> set (nd_values c') = set vs"
proof (cases stl_set)
  case True
  then show ?thesis using assms(2) nd_append_effect [of "nd_clear c" vs] by (simp add: ss_copy_def ss_ok_def)
next
  case False
  then show ?thesis using ss_replaced [OF assms(1)] by (simp add: ss_copy_def coll_copy_def ss_ops_def ss_clear_def)
qed

lemma ss_apply_step:
  assumes "ss_ok c" and "proper_call x"
  shows "\<exists>c'. ss_apply x c = Some (Ret (fst (ss_spec x (set (nd_values c)))), c') \<and> ss_ok c'
     \<and> set (nd_values c') = snd (ss_spec x (set (nd_values c)))"
proof (cases x)
  case (InsertOne v)
  then show ?thesis using ss_add_effect [OF assms(1), of v] by simp
next
  case (EraseOne v)
  then show ?thesis using ss_remove_effect [OF assms(1), of v] by auto
next
  case (InsertAll vs)
  then show ?thesis using ss_add_each [OF assms(1), of False vs] by (simp add: ss_addAll_def coll_addAll_def ss_ops_def)
next
  case (CopyOf stl_set vs)
  then have "stl_set \<Longrightarrow> sorted_wrt (<) vs" using assms(2) by simp
  from ss_copy_effect [OF assms(1) this] obtain c' where "ss_copy stl_set False vs c = (Ret (), c')" "ss_ok c'" "set (nd_values c') = set vs"
    by blast
  then show ?thesis using CopyOf by (simp add: flagged_def)
next
  case (ReplaceBy vs)
  obtain c' where c': "unit_result (add_each ss_add False vs (nd_clear c)) = (Ret (), c')" "ss_ok c'" "set (nd_values c') = set vs"
    using ss_replaced [OF assms(1)] by blast
  then have "ss_assign vs c = (Ret (), c')" by (simp add: ss_assign_def coll_assign_def ss_ops_def ss_clear_def)
  then show ?thesis using ReplaceBy c'(2,3) by (simp add: flagged_def)
next
  case EraseAll
  then show ?thesis by (simp add: flagged_def ss_clear_def)
next
  case (EraseEach vs)
  then show ?thesis using ss.set_removeAll_effect [OF assms(1), of "Suc (length (nd_cells c))" vs]
    by (auto simp: ss_removeAll_def nd_values_length)
next
  case (KeepEach vs)
  then show ?thesis using ss.coll_retainAll_effect [OF assms(1), of "Suc (length (nd_cells c))" vs]
    by (auto simp: ss_retainAll_def nd_values_length)
qed

lemma ss_run_steps:
  "ss_ok c \<Longrightarrow> list_all proper_call xs \<Longrightarrow> \<exists>c'. ss_run xs c = Some (fst (ss_spec_run xs (set (nd_values c))), c') \<and> ss_ok c'
     \<and> set (nd_values c') = snd (ss_spec_run xs (set (nd_values c)))"
proof (induction xs arbitrary: c)
  case (Cons x xs)
  have "proper_call x" "list_all proper_call xs" using Cons.prems(2) by simp_all
  from ss_apply_step [OF Cons.prems(1) this(1)] obtain c1 where c1: "ss_apply x c = Some (Ret (fst (ss_spec x (set (nd_values c)))), c1)"
    "ss_ok c1" "set (nd_values c1) = snd (ss_spec x (set (nd_values c)))" by blast
  from Cons.IH [OF c1(2) \<open>list_all proper_call xs\<close>] c1(1,3) show ?case by (auto split: prod.split)
qed simp

text \<open>
  Whatever sequence of calls is made on an StlSet, every call returns the answer it gives for a mathematical set (add tells whether
  the element is new), and afterwards contains and size answer for that set and toArray lists it in ascending order.
\<close>

theorem ss_refines_set:
  assumes "list_all proper_call xs"
  shows "\<exists>c. ss_run xs ss_new = Some (fst (ss_spec_run xs {}), c)
     \<and> ss_toArray c = Some (Ret (sorted_list_of_set (snd (ss_spec_run xs {}))), c)
     \<and> (\<forall>v. ss_contains v c \<longleftrightarrow> v \<in> snd (ss_spec_run xs {})) \<and> ss_size c = int (card (snd (ss_spec_run xs {})))"
proof -
  have new: "ss_ok ss_new" "set (nd_values ss_new) = {}" by (simp_all add: ss_new_def)
  obtain c where c: "ss_run xs ss_new = Some (fst (ss_spec_run xs {}), c)" "ss_ok c" "set (nd_values c) = snd (ss_spec_run xs {})"
    using ss_run_steps [OF new(1) assms, unfolded new(2)] by blast
  have sorted: "sorted (nd_values c)" "distinct (nd_values c)" using c(2) by (simp_all add: ss_ok_def strict_sorted_iff)
  have "ss_toArray c = Some (Ret (nd_values c), c)"
    using const_ss.coll_toArray_result [OF c(2), of "Suc (length (nd_cells c))"] by (simp add: ss_toArray_def nd_values_length)
  moreover have "nd_values c = sorted_list_of_set (snd (ss_spec_run xs {}))"
    using sorted_list_of_set.idem_if_sorted_distinct [OF sorted] c(3) by simp
  moreover have "ss_size c = int (card (snd (ss_spec_run xs {})))"
    using distinct_card [OF sorted(2)] c(3) by (simp add: ss_size_def nd_values_length)
  ultimately show ?thesis using c(1,3) ss_contains_iff [of _ c] by auto
qed

theorem ss_refines_set_witness:
  "\<exists>c. ss_run [InsertAll [3, 1, 2 :: int], EraseOne 2, InsertOne 3] ss_new = Some ([True, True, False], c)
     \<and> ss_toArray c = Some (Ret [1, 3], c)"
  using ss_refines_set [of "[InsertAll [3, 1, 2 :: int], EraseOne 2, InsertOne 3]"] by (auto simp: insert_Diff_if insert_commute)

text \<open>
  The iterator is not fail-fast, and \<^verbatim>\<open>remove\<close> before the first \<^verbatim>\<open>next\<close> does not throw: it erases the first element, to which the iterator
  itself points, so that the following \<^verbatim>\<open>next\<close> reads a node that is released.
\<close>

lemma ss_remove_before_next:
  assumes "nd_ok c" and "nd_cells c = (a, v) # cs"
  shows "ss_iter_remove c (ss_iterator c) = (Ret (), nd_erase a c, \<lparr>it_current = Some a, it_previous = None\<rparr>)"
    and "nd_values (nd_erase a c) = map snd cs"
    and "fst (ss_next (nd_erase a c) \<lparr>it_current = Some a, it_previous = None\<rparr>) = Undefined UseAfterFree"
proof -
  note e = nd_erase_effect [of c "[]" a v cs, simplified, OF assms]
  show "ss_iter_remove c (ss_iterator c) = (Ret (), nd_erase a c, \<lparr>it_current = Some a, it_previous = None\<rparr>)"
    using assms(2) by (simp add: ss_iter_remove_def ss_iterator_def node_remove_def)
  show "nd_values (nd_erase a c) = map snd cs" using e(1) by (simp add: nd_values_def)
  have "a \<notin> fst ` set cs" using assms by (simp add: nd_ok_def)
  then have "map_of (nd_cells (nd_erase a c)) a = None" by (simp add: e(1) map_of_eq_None_iff)
  then show "fst (ss_next (nd_erase a c) \<lparr>it_current = Some a, it_previous = None\<rparr>) = Undefined UseAfterFree"
    by (simp add: ss_next_def node_next_def)
qed

text \<open>Copying a set from itself empties it.\<close>

lemma ss_copy_self: "ss_copy True True vs c = (Ret (), nd_clear c)"
  by (simp add: ss_copy_def nd_append_def)

lemma ss_equals_set:
  assumes "ss_ok c" and "distinct vs"
  shows "ss_equals False False vs c \<longleftrightarrow> set (nd_values c) = set vs"
proof -
  have c: "distinct (nd_values c)" using assms(1) by (simp add: ss_ok_def strict_sorted_iff)
  have "ss_containsAll vs c \<longleftrightarrow> set vs \<subseteq> set (nd_values c)" by (auto simp: ss_containsAll_def list_all_iff ss_contains_iff)
  moreover have "length (nd_values c) = card (set (nd_values c))" "length vs = card (set vs)" using c assms(2) by (simp_all add: distinct_card)
  ultimately show ?thesis
    using card_subset_eq [of "set (nd_values c)" "set vs"] by (auto simp: ss_equals_def ss_size_def nd_values_length [symmetric])
qed

end
