(* ===== verification/Stl_Queue.thy ===== *)
theory Stl_Queue
  imports Std_Nodes
begin

text \<open>
  \<^verbatim>\<open>StlQueue\<close> (StlQueue.h): a \<^verbatim>\<open>std::list\<close> used as a queue.  \<^verbatim>\<open>front\<close> and \<^verbatim>\<open>back\<close> return references, which are the address of a node
  or, for an empty queue, the static object of \<^verbatim>\<open>getSafeValue\<close>, one for all queues of a type.
\<close>

section \<open>Operations\<close>

datatype place = In_Node addr | Safe_Value

definition sq_new :: "'e std_nodes" where
  "sq_new = nd_empty"

definition sq_clear :: "'e std_nodes \<Rightarrow> 'e std_nodes" where
  "sq_clear c = nd_clear c"

definition sq_front :: "'e std_nodes \<Rightarrow> place" where
  "sq_front c = (case nd_cells c of [] \<Rightarrow> Safe_Value | n # _ \<Rightarrow> In_Node (fst n))"

definition sq_back :: "'e std_nodes \<Rightarrow> place" where
  "sq_back c = (if nd_cells c = [] then Safe_Value else In_Node (fst (last (nd_cells c))))"

text \<open>What a client does with the reference; \<open>safe\<close> is the value of the static object.\<close>

fun read_place :: "place \<Rightarrow> 'e \<Rightarrow> 'e std_nodes \<Rightarrow> 'e outcome" where
  "read_place Safe_Value safe c = Ret safe"
| "read_place (In_Node a) safe c = (case map_of (nd_cells c) a of Some v \<Rightarrow> Ret v | None \<Rightarrow> Undefined UseAfterFree)"

fun write_place :: "place \<Rightarrow> 'e \<Rightarrow> 'e \<Rightarrow> 'e std_nodes \<Rightarrow> unit outcome \<times> 'e \<times> 'e std_nodes" where
  "write_place Safe_Value v safe c = (Ret (), v, c)"
| "write_place (In_Node a) v safe c =
     (if map_of (nd_cells c) a \<noteq> None then (Ret (), safe, nd_write a v c) else (Undefined UseAfterFree, safe, c))"

definition sq_push :: "'e \<Rightarrow> 'e std_nodes \<Rightarrow> 'e std_nodes" where
  "sq_push v c = nd_insert None v c"

definition sq_enqueueFront :: "'e \<Rightarrow> 'e std_nodes \<Rightarrow> 'e std_nodes" where
  "sq_enqueueFront v c = nd_insert (first_node (nd_cells c)) v c"

definition sq_pop :: "'e \<Rightarrow> 'e std_nodes \<Rightarrow> 'e \<times> 'e std_nodes" where
  "sq_pop safe c = (case nd_cells c of [] \<Rightarrow> (safe, c) | n # _ \<Rightarrow> (snd n, nd_erase (fst n) c))"

definition sq_size :: "'e std_nodes \<Rightarrow> nat" where
  "sq_size c = length (nd_cells c)"

definition sq_empty :: "'e std_nodes \<Rightarrow> bool" where
  "sq_empty c \<longleftrightarrow> nd_cells c = []"

definition sq_toArray :: "'e std_nodes \<Rightarrow> 'e list" where
  "sq_toArray c = map snd (nd_cells c)"

text \<open>\<open>target\<close> is another queue.\<close>

definition sq_reverse :: "'e std_nodes \<Rightarrow> 'e std_nodes \<Rightarrow> 'e std_nodes" where
  "sq_reverse c target = nd_append (rev (map snd (nd_cells c))) target"

definition sq_iterator :: "'e std_nodes \<Rightarrow> std_iter" where
  "sq_iterator c = \<lparr>it_current = first_node (nd_cells c), it_previous = None\<rparr>"

definition sq_next :: "'e std_nodes \<Rightarrow> std_iter \<Rightarrow> 'e outcome \<times> std_iter" where
  "sq_next = node_next ''Queue::Iterator::next - No more elements to return''"

definition sq_iter_remove :: "'e std_nodes \<Rightarrow> std_iter \<Rightarrow> unit outcome \<times> 'e std_nodes \<times> std_iter" where
  "sq_iter_remove = node_remove ''Queue::Iterator::remove - Invalid State to call remove''"

section \<open>Effects\<close>

lemma sq_push_effect: "nd_ok c \<Longrightarrow> nd_ok (sq_push v c) \<and> nd_values (sq_push v c) = nd_values c @ [v]"
  using nd_insert_effect [of c "nd_cells c" "[]" v] by (simp add: sq_push_def nd_values_def)

lemma sq_enqueueFront_effect: "nd_ok c \<Longrightarrow> nd_ok (sq_enqueueFront v c) \<and> nd_values (sq_enqueueFront v c) = v # nd_values c"
  using nd_insert_effect [of c "[]" "nd_cells c" v] by (simp add: sq_enqueueFront_def nd_values_def)

lemma sq_pop_effect:
  assumes "nd_ok c"
  shows "fst (sq_pop safe c) = (if nd_values c = [] then safe else hd (nd_values c))"
    and "nd_ok (snd (sq_pop safe c))" and "nd_values (snd (sq_pop safe c)) = tl (nd_values c)"
proof -
  have e: "nd_ok (nd_erase a c)" "nd_values (nd_erase a c) = map snd cs" if "nd_cells c = (a, v) # cs" for a v cs
    using nd_erase_effect [OF assms, of "[]" a v cs] that by (simp_all add: nd_values_def)
  show "fst (sq_pop safe c) = (if nd_values c = [] then safe else hd (nd_values c))"
    by (auto simp: sq_pop_def nd_values_def split: list.split)
  show "nd_ok (snd (sq_pop safe c))" and "nd_values (snd (sq_pop safe c)) = tl (nd_values c)"
    using assms e by (auto simp: sq_pop_def nd_values_def split: list.split)
qed

text \<open>The elements a reference to the front or the back leads to.\<close>

lemma sq_read:
  assumes "nd_ok c"
  shows "read_place (sq_front c) safe c = Ret (if nd_values c = [] then safe else hd (nd_values c))"
    and "read_place (sq_back c) safe c = Ret (if nd_values c = [] then safe else last (nd_values c))"
proof -
  show "read_place (sq_front c) safe c = Ret (if nd_values c = [] then safe else hd (nd_values c))"
    by (cases "nd_cells c") (simp_all add: sq_front_def nd_values_def)
  show "read_place (sq_back c) safe c = Ret (if nd_values c = [] then safe else last (nd_values c))"
  proof (cases "nd_cells c" rule: rev_cases)
    case (snoc cs n)
    obtain a v where n: "n = (a, v)" by (cases n)
    have "a \<notin> fst ` set cs" using assms snoc n by (simp add: nd_ok_def)
    then show ?thesis using snoc n map_of_split [of a cs v "[]"] by (simp add: sq_back_def nd_values_def)
  qed (simp add: sq_back_def nd_values_def)
qed

lemma sq_write_node:
  assumes "nd_ok c" and "nd_cells c = as @ (a, u) # bs"
  shows "write_place (In_Node a) v safe c = (Ret (), safe, nd_write a v c)" and "nd_ok (nd_write a v c)"
    and "nd_values (nd_write a v c) = map snd as @ v # map snd bs"
proof -
  have "a \<notin> fst ` set as" using assms by (auto simp: nd_ok_def)
  then show "write_place (In_Node a) v safe c = (Ret (), safe, nd_write a v c)" using assms(2) map_of_split [of a as u bs] by simp
  show "nd_ok (nd_write a v c)" "nd_values (nd_write a v c) = map snd as @ v # map snd bs"
    using nd_write_effect [OF assms] by (simp_all add: nd_values_def)
qed

lemma sq_write_front:
  assumes "nd_ok c"
  shows "\<exists>c'. write_place (sq_front c) v safe c = (Ret (), if nd_values c = [] then v else safe, c') \<and> nd_ok c'
     \<and> nd_values c' = (case nd_values c of [] \<Rightarrow> [] | _ # xs \<Rightarrow> v # xs)"
proof (cases "nd_cells c")
  case (Cons n cs)
  then show ?thesis using sq_write_node(1) [OF assms, of "[]" "fst n" "snd n" cs v safe]
    sq_write_node(2,3) [OF assms, of "[]" "fst n" "snd n" cs v] by (auto simp: sq_front_def nd_values_def)
qed (use assms in \<open>simp add: sq_front_def nd_values_def\<close>)

lemma sq_write_back:
  assumes "nd_ok c"
  shows "\<exists>c'. write_place (sq_back c) v safe c = (Ret (), if nd_values c = [] then v else safe, c') \<and> nd_ok c'
     \<and> nd_values c' = (if nd_values c = [] then [] else butlast (nd_values c) @ [v])"
proof (cases "nd_cells c" rule: rev_cases)
  case (snoc cs n)
  then show ?thesis using sq_write_node(1) [OF assms, of cs "fst n" "snd n" "[]" v safe]
    sq_write_node(2,3) [OF assms, of cs "fst n" "snd n" "[]" v] by (auto simp: sq_back_def nd_values_def)
qed (use assms in \<open>simp add: sq_back_def nd_values_def\<close>)

text \<open>The iterator with \<^verbatim>\<open>size\<close>, \<^verbatim>\<open>push\<close> and \<^verbatim>\<open>clear\<close>, as a loop of a client uses it.\<close>

definition sq_ops :: "('e std_nodes, std_iter, 'e) coll_ops" where
  "sq_ops = \<lparr>v_size = \<lambda>c. int (sq_size c), v_iterator = sq_iterator, v_hasNext = node_hasNext, v_next = sq_next, v_remove = sq_iter_remove,
     v_add = \<lambda>v c. (Ret True, sq_push v c), v_clear = \<lambda>c. (Ret (), sq_clear c)\<rparr>"

interpretation sq: iterable sq_ops nd_ok nd_values std_view
proof
  show "nd_ok c \<Longrightarrow> v_size sq_ops c = int (length (nd_values c))" for c :: "'a std_nodes"
    by (simp add: sq_ops_def sq_size_def nd_values_length)
  show "std_view c it xs ys b \<Longrightarrow> nd_ok c \<and> nd_values c = xs @ ys" for c :: "'a std_nodes" and it xs ys b
    by (rule std_view_ok)
  show "nd_ok c \<Longrightarrow> std_view c (v_iterator sq_ops c) [] (nd_values c) False" for c :: "'a std_nodes"
    by (simp add: sq_ops_def sq_iterator_def std_view_begin)
  show "std_view c it xs ys b \<Longrightarrow> v_hasNext sq_ops c it \<longleftrightarrow> ys \<noteq> []" for c :: "'a std_nodes" and it xs ys b
    using std_view_hasNext [of c it xs ys b] by (simp add: sq_ops_def)
  show "\<exists>it'. v_next sq_ops c it = (Ret y, it') \<and> std_view c it' (xs @ [y]) ys True" if "std_view c it xs (y # ys) b" for c :: "'a std_nodes" and it xs y ys b
    using std_view_next [OF that] by (simp add: sq_ops_def sq_next_def)
  show "\<exists>c' it'. v_remove sq_ops c it = (Ret (), c', it') \<and> std_view c' it' xs ys False" if "std_view c it (xs @ [x]) ys True" for c :: "'a std_nodes" and it xs x ys
    using std_view_remove [OF that] by (simp add: sq_ops_def sq_iter_remove_def)
qed

section \<open>Sequences of calls\<close>

datatype 'e sq_call = Push 'e | Push_Front 'e | Pop | Clear | Set_Front 'e | Set_Back 'e | Get_Front | Get_Back

text \<open>The value that is read, if any, the static value and the queue after the call; \<open>None\<close>: undefined behaviour.\<close>

fun sq_apply :: "'e sq_call \<Rightarrow> 'e \<times> 'e std_nodes \<Rightarrow> ('e option \<times> 'e \<times> 'e std_nodes) option" where
  "sq_apply (Push v) (safe, c) = Some (None, safe, sq_push v c)"
| "sq_apply (Push_Front v) (safe, c) = Some (None, safe, sq_enqueueFront v c)"
| "sq_apply Pop (safe, c) = (case sq_pop safe c of (v, c') \<Rightarrow> Some (Some v, safe, c'))"
| "sq_apply Clear (safe, c) = Some (None, safe, sq_clear c)"
| "sq_apply (Set_Front v) (safe, c) = (case write_place (sq_front c) v safe c of (Ret _, s) \<Rightarrow> Some (None, s) | _ \<Rightarrow> None)"
| "sq_apply (Set_Back v) (safe, c) = (case write_place (sq_back c) v safe c of (Ret _, s) \<Rightarrow> Some (None, s) | _ \<Rightarrow> None)"
| "sq_apply Get_Front (safe, c) = (case read_place (sq_front c) safe c of Ret v \<Rightarrow> Some (Some v, safe, c) | _ \<Rightarrow> None)"
| "sq_apply Get_Back (safe, c) = (case read_place (sq_back c) safe c of Ret v \<Rightarrow> Some (Some v, safe, c) | _ \<Rightarrow> None)"

fun sq_run :: "'e sq_call list \<Rightarrow> 'e \<times> 'e std_nodes \<Rightarrow> ('e option list \<times> 'e \<times> 'e std_nodes) option" where
  "sq_run [] s = Some ([], s)"
| "sq_run (x # xs) s = Option.bind (sq_apply x s) (\<lambda>(r, s'). map_option (map_prod ((#) r) id) (sq_run xs s'))"

fun sq_spec :: "'e sq_call \<Rightarrow> 'e \<times> 'e list \<Rightarrow> 'e option \<times> 'e \<times> 'e list" where
  "sq_spec (Push v) (safe, vs) = (None, safe, vs @ [v])"
| "sq_spec (Push_Front v) (safe, vs) = (None, safe, v # vs)"
| "sq_spec Pop (safe, vs) = (Some (if vs = [] then safe else hd vs), safe, tl vs)"
| "sq_spec Clear (safe, vs) = (None, safe, [])"
| "sq_spec (Set_Front v) (safe, vs) = (None, if vs = [] then (v, []) else (safe, v # tl vs))"
| "sq_spec (Set_Back v) (safe, vs) = (None, if vs = [] then (v, []) else (safe, butlast vs @ [v]))"
| "sq_spec Get_Front (safe, vs) = (Some (if vs = [] then safe else hd vs), safe, vs)"
| "sq_spec Get_Back (safe, vs) = (Some (if vs = [] then safe else last vs), safe, vs)"

fun sq_spec_run :: "'e sq_call list \<Rightarrow> 'e \<times> 'e list \<Rightarrow> 'e option list \<times> 'e \<times> 'e list" where
  "sq_spec_run [] s = ([], s)"
| "sq_spec_run (x # xs) s = (case sq_spec x s of (r, s') \<Rightarrow> map_prod ((#) r) id (sq_spec_run xs s'))"

lemma sq_apply_step:
  assumes "nd_ok c"
  shows "\<exists>r safe' c'. sq_apply x (safe, c) = Some (r, safe', c') \<and> nd_ok c' \<and> sq_spec x (safe, nd_values c) = (r, safe', nd_values c')"
proof (cases x)
  case (Set_Front v)
  then show ?thesis using sq_write_front [OF assms, of v safe] by (cases "nd_values c") auto
next
  case (Set_Back v)
  then show ?thesis using sq_write_back [OF assms, of v safe] by (cases "nd_values c = []") auto
next
  case Pop
  then show ?thesis using sq_pop_effect [OF assms, of safe] by (cases "sq_pop safe c") auto
qed (use assms sq_push_effect [OF assms] sq_enqueueFront_effect [OF assms] sq_read [OF assms] in \<open>auto simp: sq_clear_def\<close>)

lemma sq_run_steps:
  "nd_ok c \<Longrightarrow> \<exists>rs safe' c'. sq_run xs (safe, c) = Some (rs, safe', c') \<and> nd_ok c' \<and> sq_spec_run xs (safe, nd_values c) = (rs, safe', nd_values c')"
proof (induction xs arbitrary: safe c)
  case (Cons x xs)
  obtain r s1 c1 where c1: "sq_apply x (safe, c) = Some (r, s1, c1)" "nd_ok c1" "sq_spec x (safe, nd_values c) = (r, s1, nd_values c1)"
    using sq_apply_step [OF Cons.prems] by blast
  with Cons.IH [OF c1(2), of s1] show ?case by auto
qed simp

text \<open>
  Whatever calls are made on a new StlQueue, also through the references front and back return, they read what the same calls read
  from a plain sequence, first in first out; on an empty queue they read and write the static value that all queues of the type share, and
  no call reads a released node.
\<close>

theorem sq_refines_sequence:
  "\<exists>rs safe' c. sq_run xs (safe, sq_new) = Some (rs, safe', c) \<and> sq_spec_run xs (safe, []) = (rs, safe', sq_toArray c)
     \<and> sq_size c = length (snd (snd (sq_spec_run xs (safe, []))))"
proof -
  have new: "nd_ok (sq_new :: 'a std_nodes)" "nd_values (sq_new :: 'a std_nodes) = []" by (simp_all add: sq_new_def)
  show ?thesis using sq_run_steps [OF new(1), of xs safe] new(2) by (auto simp: sq_toArray_def sq_size_def nd_values_def)
qed

text \<open>\<^verbatim>\<open>reverse\<close> twice restores the order.\<close>

lemma sq_reverse_effect: "nd_ok target \<Longrightarrow> nd_ok (sq_reverse c target) \<and> sq_toArray (sq_reverse c target) = sq_toArray target @ rev (sq_toArray c)"
  using nd_append_effect [of target "rev (map snd (nd_cells c))"] by (simp add: sq_reverse_def sq_toArray_def nd_values_def)

lemma sq_reverse_twice: "sq_toArray (sq_reverse (sq_reverse c sq_new) sq_new) = sq_toArray c"
proof -
  have "nd_ok (sq_new :: 'a std_nodes)" "sq_toArray (sq_new :: 'a std_nodes) = []" by (simp_all add: sq_new_def) (simp add: sq_toArray_def nd_empty_def)
  then show ?thesis using sq_reverse_effect by (metis append_Nil rev_rev_ident)
qed

text \<open>The value written through \<^verbatim>\<open>front\<close> of one empty queue is what \<^verbatim>\<open>pop\<close> of another empty queue returns.\<close>

lemma sq_safe_value_shared:
  "case write_place (sq_front sq_new) v safe sq_new of (r, safe', c) \<Rightarrow> r = Ret () \<and> c = sq_new \<and> fst (sq_pop safe' sq_new) = v"
  by (simp add: sq_front_def sq_pop_def sq_new_def nd_empty_def)

end
