(* ===== verification/Stl_List.thy ===== *)
theory Stl_List
  imports Std_Nodes
begin

text \<open>
  \<^verbatim>\<open>StlList\<close> (StlList.h): a \<^verbatim>\<open>std::list\<close> behind the interface of the library's lists.  It overrides the positional operations of
  \<^verbatim>\<open>AbstractList\<close> and has a list iterator of its own.
\<close>

section \<open>Operations\<close>

definition stl_new :: "'e std_nodes" where
  "stl_new = nd_empty"

definition stl_clear :: "'e std_nodes \<Rightarrow> unit outcome \<times> 'e std_nodes" where
  "stl_clear c = (Ret (), nd_clear c)"

definition stl_isEmpty :: "'e std_nodes \<Rightarrow> bool" where
  "stl_isEmpty c \<longleftrightarrow> nd_cells c = []"

definition stl_size :: "'e std_nodes \<Rightarrow> int" where
  "stl_size c = int (length (nd_cells c))"

text \<open>\<^verbatim>\<open>begin()\<close> advanced by an index, up to the end.\<close>

definition advance :: "int \<Rightarrow> 'e std_nodes \<Rightarrow> addr option" where
  "advance index c = first_node (drop (nat index) (nd_cells c))"

definition stl_get :: "int \<Rightarrow> 'e std_nodes \<Rightarrow> 'e outcome" where
  "stl_get index c =
     (if index < 0 \<or> index \<ge> stl_size c then Throw (IndexOutOfBoundsException ''List::get - Index greater than size() or negative'')
      else Ret (snd (nd_cells c ! nat index)))"

definition stl_set :: "int \<Rightarrow> 'e \<Rightarrow> 'e std_nodes \<Rightarrow> 'e outcome \<times> 'e std_nodes" where
  "stl_set index element c =
     (if index < 0 \<or> index \<ge> stl_size c then (Throw (IndexOutOfBoundsException ''List::get - Index greater than size() or negative''), c)
      else case nd_cells c ! nat index of (a, oldValue) \<Rightarrow> (Ret oldValue, nd_write a element c))"

definition stl_add_at :: "int \<Rightarrow> 'e \<Rightarrow> 'e std_nodes \<Rightarrow> unit outcome \<times> 'e std_nodes" where
  "stl_add_at index element c =
     (if index < 0 \<or> index > stl_size c then (Throw (IndexOutOfBoundsException ''List::add - Index greater than size()''), c)
      else (Ret (), nd_insert (advance index c) element c))"

definition stl_add :: "'e \<Rightarrow> 'e std_nodes \<Rightarrow> bool outcome \<times> 'e std_nodes" where
  "stl_add v c = (Ret True, nd_insert None v c)"

text \<open>\<^verbatim>\<open>std::list::remove\<close> erases every node with the value.\<close>

definition stl_remove :: "'e \<Rightarrow> 'e std_nodes \<Rightarrow> bool outcome \<times> 'e std_nodes" where
  "stl_remove v c =
     (let c' = c\<lparr>nd_cells := filter (\<lambda>(_, u). u \<noteq> v) (nd_cells c)\<rparr> in (Ret (stl_size c \<noteq> stl_size c'), c'))"

definition stl_removeAt :: "int \<Rightarrow> 'e std_nodes \<Rightarrow> 'e outcome \<times> 'e std_nodes" where
  "stl_removeAt index c =
     (if index < 0 \<or> index \<ge> stl_size c
      then (Throw (IndexOutOfBoundsException ''List::removeAt - Index greater than size() or negative''), c)
      else case nd_cells c ! nat index of (a, oldValue) \<Rightarrow> (Ret oldValue, nd_erase a c))"

text \<open>\<^verbatim>\<open>std::find\<close> with \<^verbatim>\<open>std::distance\<close>: the number of elements before the first equal one.\<close>

fun distance_to :: "'e \<Rightarrow> 'e list \<Rightarrow> nat option" where
  "distance_to v [] = None"
| "distance_to v (u # us) = (if u = v then Some 0 else map_option Suc (distance_to v us))"

definition stl_indexOf :: "'e \<Rightarrow> 'e std_nodes \<Rightarrow> int" where
  "stl_indexOf v c = (case distance_to v (map snd (nd_cells c)) of None \<Rightarrow> - 1 | Some i \<Rightarrow> int i)"

definition stl_lastIndexOf :: "'e \<Rightarrow> 'e std_nodes \<Rightarrow> int" where
  "stl_lastIndexOf v c = (case distance_to v (rev (map snd (nd_cells c))) of None \<Rightarrow> - 1 | Some i \<Rightarrow> stl_size c - int i - 1)"

definition stl_contains :: "'e \<Rightarrow> 'e std_nodes \<Rightarrow> bool" where
  "stl_contains v c \<longleftrightarrow> distance_to v (map snd (nd_cells c)) \<noteq> None"

section \<open>The list iterator\<close>

definition stl_list_iterator :: "int \<Rightarrow> 'e std_nodes \<Rightarrow> std_iter" where
  "stl_list_iterator index c = \<lparr>it_current = (if index < stl_size c then advance index c else None), it_previous = None\<rparr>"

definition stl_listIterator :: "int \<Rightarrow> 'e std_nodes \<Rightarrow> std_iter outcome" where
  "stl_listIterator index c =
     (if index < 0 \<or> index > stl_size c
      then Throw (IndexOutOfBoundsException ''List::listIterator - Index greater than size() or negative'')
      else Ret (stl_list_iterator index c))"

definition stl_iterator :: "'e std_nodes \<Rightarrow> std_iter" where
  "stl_iterator c = stl_list_iterator 0 c"

definition stl_next :: "'e std_nodes \<Rightarrow> std_iter \<Rightarrow> 'e outcome \<times> std_iter" where
  "stl_next = node_next ''List::Iterator::next - No more elements to return''"

definition stl_iter_remove :: "'e std_nodes \<Rightarrow> std_iter \<Rightarrow> unit outcome \<times> 'e std_nodes \<times> std_iter" where
  "stl_iter_remove = node_remove ''List::Iterator::remove - Invalid State to call remove''"

text \<open>The iterator is at the end or at a node that is still there.\<close>

definition usable :: "'e std_nodes \<Rightarrow> std_iter \<Rightarrow> bool" where
  "usable c it \<longleftrightarrow> (case it_current it of None \<Rightarrow> True | Some a \<Rightarrow> map_of (nd_cells c) a \<noteq> None)"

definition stl_iter_add :: "'e \<Rightarrow> 'e std_nodes \<Rightarrow> std_iter \<Rightarrow> unit outcome \<times> 'e std_nodes" where
  "stl_iter_add e c it = (if usable c it then (Ret (), nd_insert (it_current it) e c) else (Undefined UseAfterFree, c))"

definition stl_iter_set :: "'e \<Rightarrow> 'e std_nodes \<Rightarrow> std_iter \<Rightarrow> unit outcome \<times> 'e std_nodes" where
  "stl_iter_set e c it =
     (case it_current it of
        None \<Rightarrow> (Ret (), nd_insert None e c)
      | Some a \<Rightarrow> if map_of (nd_cells c) a \<noteq> None then (Ret (), nd_write a e c) else (Undefined UseAfterFree, c))"

definition stl_hasPrevious :: "'e std_nodes \<Rightarrow> std_iter \<Rightarrow> bool" where
  "stl_hasPrevious c it \<longleftrightarrow> it_current it \<noteq> first_node (nd_cells c)"

text \<open>\<^verbatim>\<open>return *(iter--)\<close> reads the element \<^verbatim>\<open>current\<close> is at; at the end there is none.\<close>

definition stl_previous :: "'e std_nodes \<Rightarrow> std_iter \<Rightarrow> 'e outcome" where
  "stl_previous c it =
     (if it_current it = first_node (nd_cells c) then Throw (NoSuchElementException ''List::ListIterator::previous - No Previous element.'')
      else
        case it_current it of
          None \<Rightarrow> Undefined OutOfBounds
        | Some a \<Rightarrow> (case map_of (nd_cells c) a of Some v \<Rightarrow> Ret v | None \<Rightarrow> Undefined UseAfterFree))"

definition node_index :: "addr \<Rightarrow> 'e std_nodes \<Rightarrow> int outcome" where
  "node_index a c = (case distance_to a (map fst (nd_cells c)) of Some i \<Rightarrow> Ret (int i) | None \<Rightarrow> Undefined UseAfterFree)"

definition stl_nextIndex :: "'e std_nodes \<Rightarrow> std_iter \<Rightarrow> int outcome" where
  "stl_nextIndex c it = (case it_current it of None \<Rightarrow> Ret (stl_size c) | Some a \<Rightarrow> node_index a c)"

definition stl_previousIndex :: "'e std_nodes \<Rightarrow> std_iter \<Rightarrow> int outcome" where
  "stl_previousIndex c it =
     (if it_current it = first_node (nd_cells c) then Ret (- 1)
      else case it_current it of
          None \<Rightarrow> Ret (stl_size c - 1)
        | Some a \<Rightarrow> map_outcome (\<lambda>i. i - 1) (node_index a c))"

text \<open>The iterator of a constant list refuses \<^verbatim>\<open>remove\<close>, \<^verbatim>\<open>add\<close> and \<^verbatim>\<open>set\<close>.\<close>

definition const_stl_refuse :: "string \<Rightarrow> 'e std_nodes \<Rightarrow> std_iter \<Rightarrow> unit outcome \<times> 'e std_nodes \<times> std_iter" where
  "const_stl_refuse operation c it =
     (Throw (UnsupportedOperationException (''List::ListIterator::'' @ operation @ '' - Const Iterator.'')), c, it)"

section \<open>Operations with collections\<close>

text \<open>\<^verbatim>\<open>addAll\<close> inserts the elements, copied before, one after the other with \<^verbatim>\<open>add\<close> of a list iterator.\<close>

fun add_with :: "std_iter \<Rightarrow> 'e list \<Rightarrow> 'e std_nodes \<Rightarrow> bool outcome \<times> 'e std_nodes" where
  "add_with it [] c = (Ret True, c)"
| "add_with it (v # vs) c = and_then (stl_iter_add v c it) (\<lambda>_ c. add_with it vs c)"

definition stl_addAll :: "'e list \<Rightarrow> 'e std_nodes \<Rightarrow> bool outcome \<times> 'e std_nodes" where
  "stl_addAll collection c =
     (if collection = [] then (Ret False, c)
      else and_then (stl_listIterator (stl_size c) c, c) (\<lambda>it c. add_with it collection c))"

definition stl_addAll_at :: "int \<Rightarrow> 'e list \<Rightarrow> 'e std_nodes \<Rightarrow> bool outcome \<times> 'e std_nodes" where
  "stl_addAll_at index collection c =
     (if index < 0 \<or> index > stl_size c then (Throw (IndexOutOfBoundsException ''List::addAll - Index greater than size()''), c)
      else if collection = [] then (Ret False, c)
      else and_then (stl_listIterator index c, c) (\<lambda>it c. add_with it collection c))"

definition stl_ops :: "('e std_nodes, std_iter, 'e) coll_ops" where
  "stl_ops = \<lparr>v_size = stl_size, v_iterator = stl_iterator, v_hasNext = node_hasNext, v_next = stl_next, v_remove = stl_iter_remove,
     v_add = stl_add, v_clear = stl_clear\<rparr>"

definition const_stl_ops :: "('e std_nodes, std_iter, 'e) coll_ops" where
  "const_stl_ops = stl_ops\<lparr>v_remove := const_stl_refuse ''remove''\<rparr>"

definition stl_containsAll :: "'e list \<Rightarrow> 'e std_nodes \<Rightarrow> bool" where
  "stl_containsAll collection c = list_all (\<lambda>v. stl_contains v c) collection"

definition stl_removeAll :: "'e list \<Rightarrow> 'e std_nodes \<Rightarrow> (bool outcome \<times> 'e std_nodes) option" where
  "stl_removeAll collection c = coll_removeAll (Suc (length (nd_cells c))) stl_ops collection c"

definition stl_retainAll :: "'e list \<Rightarrow> 'e std_nodes \<Rightarrow> (bool outcome \<times> 'e std_nodes) option" where
  "stl_retainAll collection c = coll_retainAll (Suc (length (nd_cells c))) stl_ops collection c"

definition stl_toArray :: "'e std_nodes \<Rightarrow> ('e list outcome \<times> 'e std_nodes) option" where
  "stl_toArray c = coll_toArray (Suc (length (nd_cells c))) const_stl_ops c"

text \<open>\<open>other_stl\<close>: the \<^verbatim>\<open>dynamic_cast\<close> finds that the argument is an \<^verbatim>\<open>StlList\<close>; \<open>same_object\<close>: that it is this list.\<close>

definition stl_equals :: "bool \<Rightarrow> bool \<Rightarrow> 'e list \<Rightarrow> 'e std_nodes \<Rightarrow> bool" where
  "stl_equals other_stl same_object collection c =
     (if \<not> other_stl then
        (if same_object then True
         else if stl_size c = int (length collection) then stl_containsAll collection c else False)
      else nd_values c = collection)"

definition stl_copy :: "bool \<Rightarrow> bool \<Rightarrow> 'e list \<Rightarrow> 'e std_nodes \<Rightarrow> unit outcome \<times> 'e std_nodes" where
  "stl_copy other_stl same_object collection c =
     (if \<not> other_stl then coll_copy stl_ops collection c
      else (Ret (), nd_append (if same_object then [] else collection) (nd_clear c)))"

definition stl_from_stl :: "'e list \<Rightarrow> unit outcome \<times> 'e std_nodes" where
  "stl_from_stl source = stl_copy True False source stl_new"

definition stl_from :: "'e list \<Rightarrow> unit outcome \<times> 'e std_nodes" where
  "stl_from source = coll_copy stl_ops source stl_new"

section \<open>Effects\<close>

lemma stl_size_values: "stl_size c = int (length (nd_values c))"
  by (simp add: stl_size_def nd_values_length)

lemma split_at_index:
  assumes "i < length (nd_values c)"
  obtains as a v bs where "nd_cells c = as @ (a, v) # bs" and "length as = i" and "v = nd_values c ! i" and "nd_cells c ! i = (a, v)"
proof -
  have i: "i < length (nd_cells c)" using assms by (simp add: nd_values_length)
  obtain a v where n: "nd_cells c ! i = (a, v)" by (cases "nd_cells c ! i")
  have "nd_cells c = take i (nd_cells c) @ (a, v) # drop (Suc i) (nd_cells c)" using id_take_nth_drop [OF i] n by simp
  then show thesis by (rule that) (use i n in \<open>simp_all add: nd_values_def\<close>)
qed

lemma stl_get_effect:
  "stl_get i c = (if i < 0 \<or> i \<ge> int (length (nd_values c)) then Throw (IndexOutOfBoundsException ''List::get - Index greater than size() or negative'')
     else Ret (nd_values c ! nat i))"
  by (auto simp: stl_get_def stl_size_values nd_values_def nat_less_iff)

lemma stl_set_effect:
  assumes "nd_ok c" and "0 \<le> i" and "i < int (length (nd_values c))"
  shows "\<exists>c'. stl_set i v c = (Ret (nd_values c ! nat i), c') \<and> nd_ok c' \<and> nd_values c' = (nd_values c)[nat i := v]"
proof -
  have "nat i < length (nd_values c)" using assms(2,3) by simp
  then obtain as a u bs where s: "nd_cells c = as @ (a, u) # bs" "length as = nat i" "u = nd_values c ! nat i" "nd_cells c ! nat i = (a, u)"
    by (rule split_at_index)
  have "stl_set i v c = (Ret u, nd_write a v c)" using s(4) assms(2,3) by (simp add: stl_set_def stl_size_values)
  moreover have "nd_values (nd_write a v c) = (nd_values c)[nat i := v]"
    unfolding nd_values_def nd_write_effect(1) [OF assms(1) s(1)] s(1) using s(2) by (simp add: list_update_append)
  ultimately show ?thesis using nd_write_effect(2) [OF assms(1) s(1)] s(3) by simp
qed

lemma stl_removeAt_effect:
  assumes "nd_ok c" and "0 \<le> i" and "i < int (length (nd_values c))"
  shows "\<exists>c'. stl_removeAt i c = (Ret (nd_values c ! nat i), c') \<and> nd_ok c' \<and> nd_values c' = take (nat i) (nd_values c) @ drop (Suc (nat i)) (nd_values c)"
proof -
  have "nat i < length (nd_values c)" using assms(2,3) by simp
  then obtain as a u bs where s: "nd_cells c = as @ (a, u) # bs" "length as = nat i" "u = nd_values c ! nat i" "nd_cells c ! nat i = (a, u)"
    by (rule split_at_index)
  have "stl_removeAt i c = (Ret u, nd_erase a c)" using s(4) assms(2,3) by (simp add: stl_removeAt_def stl_size_values)
  moreover have "nd_values (nd_erase a c) = take (nat i) (nd_values c) @ drop (Suc (nat i)) (nd_values c)"
    unfolding nd_values_def nd_erase_effect(1) [OF assms(1) s(1)] s(1) using s(2) by simp
  ultimately show ?thesis using nd_erase_effect(2) [OF assms(1) s(1)] s(3) by simp
qed

lemma nd_insert_at:
  assumes "nd_ok c" and "i \<le> length (nd_values c)"
  shows "nd_ok (nd_insert (first_node (drop i (nd_cells c))) v c)
     \<and> nd_values (nd_insert (first_node (drop i (nd_cells c))) v c) = take i (nd_values c) @ v # drop i (nd_values c)"
  using nd_insert_effect [OF assms(1), of "take i (nd_cells c)" "drop i (nd_cells c)" v] by (simp add: nd_values_def take_map drop_map)

lemma stl_add_at_effect:
  assumes "nd_ok c" and "0 \<le> i" and "i \<le> int (length (nd_values c))"
  shows "\<exists>c'. stl_add_at i v c = (Ret (), c') \<and> nd_ok c' \<and> nd_values c' = take (nat i) (nd_values c) @ v # drop (nat i) (nd_values c)"
proof -
  have "stl_add_at i v c = (Ret (), nd_insert (first_node (drop (nat i) (nd_cells c))) v c)"
    using assms(2,3) by (simp add: stl_add_at_def stl_size_values advance_def)
  then show ?thesis using nd_insert_at [OF assms(1), of "nat i" v] assms(2,3) by simp
qed

lemma stl_add_effect: "nd_ok c \<Longrightarrow> \<exists>c'. stl_add v c = (Ret True, c') \<and> nd_ok c' \<and> nd_values c' = nd_values c @ [v]"
  using nd_append_effect [of c "[v]"] by (simp add: stl_add_def nd_append_def)

lemma stl_remove_effect:
  assumes "nd_ok c"
  shows "\<exists>c'. stl_remove v c = (Ret (v \<in> set (nd_values c)), c') \<and> nd_ok c' \<and> nd_values c' = filter (\<lambda>u. u \<noteq> v) (nd_values c)"
proof -
  let ?c = "c\<lparr>nd_cells := filter (\<lambda>(_, u). u \<noteq> v) (nd_cells c)\<rparr>"
  have vals: "nd_values ?c = filter (\<lambda>u. u \<noteq> v) (nd_values c)"
    by (simp add: nd_values_def filter_map comp_def case_prod_unfold)
  have "length (filter (\<lambda>u. u \<noteq> v) vs) = length vs \<longleftrightarrow> v \<notin> set vs" for vs :: "'a list"
    using length_filter_less [of v vs "\<lambda>u. u \<noteq> v"] filter_True [of vs "\<lambda>u. u \<noteq> v"] by (metis nat_neq_iff)
  then have "stl_size c \<noteq> stl_size ?c \<longleftrightarrow> v \<in> set (nd_values c)" unfolding stl_size_values vals by (metis of_nat_eq_iff)
  moreover have "nd_ok ?c" using assms by (auto simp: nd_ok_def distinct_map_filter)
  ultimately show ?thesis using vals unfolding stl_remove_def Let_def by blast
qed

text \<open>\<^verbatim>\<open>addAll\<close>: every element is inserted before the node of the iterator, so that they arrive in order.\<close>

lemma add_with_effect:
  assumes "nd_ok c" and "nd_cells c = as @ bs" and "it_current it = first_node bs"
  shows "\<exists>c'. add_with it vs c = (Ret True, c') \<and> nd_ok c' \<and> nd_values c' = map snd as @ vs @ map snd bs"
  using assms
proof (induction vs arbitrary: c as)
  case Nil
  then show ?case by (auto simp: nd_values_def)
next
  case (Cons v vs)
  have "usable c it"
  proof (cases bs)
    case (Cons n bs')
    have "fst n \<notin> fst ` set as" using Cons.prems(1,2) Cons by (auto simp: nd_ok_def)
    then show ?thesis using Cons.prems(2,3) Cons map_of_split [of "fst n" as "snd n" bs'] by (cases n) (simp add: usable_def)
  qed (use Cons.prems(3) in \<open>simp add: usable_def\<close>)
  then have step: "stl_iter_add v c it = (Ret (), nd_insert (first_node bs) v c)" using Cons.prems(3) by (simp add: stl_iter_add_def)
  note e = nd_insert_effect [OF Cons.prems(1,2), of v]
  have cells: "nd_cells (nd_insert (first_node bs) v c) = (as @ [(nd_fresh c, v)]) @ bs" using e(1) by simp
  from Cons.IH [OF e(2) cells Cons.prems(3)] step show ?case by simp
qed

lemma stl_addAll_at_effect:
  assumes "nd_ok c" and "0 \<le> i" and "i \<le> int (length (nd_values c))"
  shows "\<exists>c'. stl_addAll_at i vs c = (Ret (vs \<noteq> []), c') \<and> nd_ok c' \<and> nd_values c' = take (nat i) (nd_values c) @ vs @ drop (nat i) (nd_values c)"
proof (cases "vs = []")
  case True
  then show ?thesis using assms by (simp add: stl_addAll_at_def stl_size_values)
next
  case False
  let ?it = "stl_list_iterator i c"
  have it: "stl_listIterator i c = Ret ?it" using assms(2,3) by (simp add: stl_listIterator_def stl_size_values)
  have cur: "it_current ?it = first_node (drop (nat i) (nd_cells c))"
    using assms(2,3) by (auto simp: stl_list_iterator_def advance_def stl_size_def nd_values_length)
  obtain c' where "add_with ?it vs c = (Ret True, c')" "nd_ok c'"
    "nd_values c' = map snd (take (nat i) (nd_cells c)) @ vs @ map snd (drop (nat i) (nd_cells c))"
    using add_with_effect [OF assms(1) append_take_drop_id [symmetric] cur] by blast
  then show ?thesis using False it assms(2,3) by (simp add: stl_addAll_at_def stl_size_values nd_values_def take_map drop_map)
qed

lemma stl_addAll_effect:
  assumes "nd_ok c"
  shows "\<exists>c'. stl_addAll vs c = (Ret (vs \<noteq> []), c') \<and> nd_ok c' \<and> nd_values c' = nd_values c @ vs"
proof -
  have "stl_addAll vs c = stl_addAll_at (int (length (nd_values c))) vs c" by (simp add: stl_addAll_def stl_addAll_at_def stl_size_values)
  then show ?thesis using stl_addAll_at_effect [OF assms, of "int (length (nd_values c))" vs] by simp
qed

lemma distance_to_None: "distance_to v us = None \<longleftrightarrow> v \<notin> set us"
  by (induction us) auto

lemma distance_to_Some: "distance_to v us = Some i \<longleftrightarrow> i < length us \<and> us ! i = v \<and> v \<notin> set (take i us)"
proof (induction us arbitrary: i)
  case (Cons u us)
  then show ?case by (cases i) auto
qed simp

lemma stl_contains_iff: "stl_contains v c \<longleftrightarrow> v \<in> set (nd_values c)"
  using distance_to_None [of v "nd_values c"] by (simp add: stl_contains_def nd_values_def)

interpretation stl_list: iterable stl_ops nd_ok nd_values std_view
proof
  show "nd_ok c \<Longrightarrow> v_size stl_ops c = int (length (nd_values c))" for c :: "'a std_nodes"
    by (simp add: stl_ops_def stl_size_values)
  show "std_view c it xs ys b \<Longrightarrow> nd_ok c \<and> nd_values c = xs @ ys" for c :: "'a std_nodes" and it xs ys b
    by (rule std_view_ok)
  show "nd_ok c \<Longrightarrow> std_view c (v_iterator stl_ops c) [] (nd_values c) False" for c :: "'a std_nodes"
    using std_view_begin [of c None] by (cases "nd_cells c") (simp_all add: stl_ops_def stl_iterator_def stl_list_iterator_def stl_size_def advance_def)
  show "std_view c it xs ys b \<Longrightarrow> v_hasNext stl_ops c it \<longleftrightarrow> ys \<noteq> []" for c :: "'a std_nodes" and it xs ys b
    using std_view_hasNext [of c it xs ys b] by (simp add: stl_ops_def)
  show "\<exists>it'. v_next stl_ops c it = (Ret y, it') \<and> std_view c it' (xs @ [y]) ys True" if "std_view c it xs (y # ys) b" for c :: "'a std_nodes" and it xs y ys b
    using std_view_next [OF that] by (simp add: stl_ops_def stl_next_def)
  show "\<exists>c' it'. v_remove stl_ops c it = (Ret (), c', it') \<and> std_view c' it' xs ys False" if "std_view c it (xs @ [x]) ys True" for c :: "'a std_nodes" and it xs x ys
    using std_view_remove [OF that] by (simp add: stl_ops_def stl_iter_remove_def)
qed

interpretation const_stl_list: readable const_stl_ops nd_ok nd_values std_view
  using stl_list.readable_axioms by (simp add: readable_def const_stl_ops_def stl_ops_def)

section \<open>Sequences of calls\<close>

datatype 'e stl_call =
    Append 'e
  | Insert int 'e
  | Put int 'e
  | Get int
  | Take_Out int
  | Drop_Value 'e
  | Append_All "'e list"
  | Insert_All int "'e list"
  | Copy bool "'e list"
  | Empty
  | Drop_All "'e list"
  | Retain_All "'e list"
  | Index_Of 'e
  | Last_Index_Of 'e

datatype 'e stl_answer = Element 'e | Bool bool | Index int | No_Answer

definition reply :: "('a \<Rightarrow> 'e stl_answer) \<Rightarrow> 'a outcome \<times> 'c \<Rightarrow> 'e stl_answer outcome \<times> 'c" where
  "reply f r = map_prod (map_outcome f) id r"

fun stl_apply :: "'e stl_call \<Rightarrow> 'e std_nodes \<Rightarrow> ('e stl_answer outcome \<times> 'e std_nodes) option" where
  "stl_apply (Append v) c = Some (reply Bool (stl_add v c))"
| "stl_apply (Insert i v) c = Some (reply (\<lambda>_. No_Answer) (stl_add_at i v c))"
| "stl_apply (Put i v) c = Some (reply Element (stl_set i v c))"
| "stl_apply (Get i) c = Some (reply Element (stl_get i c, c))"
| "stl_apply (Take_Out i) c = Some (reply Element (stl_removeAt i c))"
| "stl_apply (Drop_Value v) c = Some (reply Bool (stl_remove v c))"
| "stl_apply (Append_All vs) c = Some (reply Bool (stl_addAll vs c))"
| "stl_apply (Insert_All i vs) c = Some (reply Bool (stl_addAll_at i vs c))"
| "stl_apply (Copy other_stl vs) c = Some (reply (\<lambda>_. No_Answer) (stl_copy other_stl False vs c))"
| "stl_apply Empty c = Some (reply (\<lambda>_. No_Answer) (stl_clear c))"
| "stl_apply (Drop_All vs) c = map_option (reply Bool) (stl_removeAll vs c)"
| "stl_apply (Retain_All vs) c = map_option (reply Bool) (stl_retainAll vs c)"
| "stl_apply (Index_Of v) c = Some (Ret (Index (stl_indexOf v c)), c)"
| "stl_apply (Last_Index_Of v) c = Some (Ret (Index (stl_lastIndexOf v c)), c)"

text \<open>The same calls on a plain sequence; a call that throws leaves it unchanged.\<close>

definition guarded :: "bool \<Rightarrow> string \<Rightarrow> 'e stl_answer \<times> 'e list \<Rightarrow> 'e list \<Rightarrow> 'e stl_answer outcome \<times> 'e list" where
  "guarded valid msg r vs = (if valid then (Ret (fst r), snd r) else (Throw (IndexOutOfBoundsException msg), vs))"

abbreviation inner :: "int \<Rightarrow> 'e list \<Rightarrow> bool" where
  "inner i vs \<equiv> 0 \<le> i \<and> i < int (length vs)"

abbreviation border :: "int \<Rightarrow> 'e list \<Rightarrow> bool" where
  "border i vs \<equiv> 0 \<le> i \<and> i \<le> int (length vs)"

fun stl_spec :: "'e stl_call \<Rightarrow> 'e list \<Rightarrow> 'e stl_answer outcome \<times> 'e list" where
  "stl_spec (Append v) vs = (Ret (Bool True), vs @ [v])"
| "stl_spec (Insert i v) vs = guarded (border i vs) ''List::add - Index greater than size()''
     (No_Answer, take (nat i) vs @ v # drop (nat i) vs) vs"
| "stl_spec (Put i v) vs = guarded (inner i vs) ''List::get - Index greater than size() or negative'' (Element (vs ! nat i), vs[nat i := v]) vs"
| "stl_spec (Get i) vs = guarded (inner i vs) ''List::get - Index greater than size() or negative'' (Element (vs ! nat i), vs) vs"
| "stl_spec (Take_Out i) vs = guarded (inner i vs) ''List::removeAt - Index greater than size() or negative''
     (Element (vs ! nat i), take (nat i) vs @ drop (Suc (nat i)) vs) vs"
| "stl_spec (Drop_Value v) vs = (Ret (Bool (v \<in> set vs)), filter (\<lambda>u. u \<noteq> v) vs)"
| "stl_spec (Append_All ws) vs = (Ret (Bool (ws \<noteq> [])), vs @ ws)"
| "stl_spec (Insert_All i ws) vs = guarded (border i vs) ''List::addAll - Index greater than size()''
     (Bool (ws \<noteq> []), take (nat i) vs @ ws @ drop (nat i) vs) vs"
| "stl_spec (Copy _ ws) vs = (Ret No_Answer, ws)"
| "stl_spec Empty vs = (Ret No_Answer, [])"
| "stl_spec (Drop_All ws) vs = (Ret (Bool (\<exists>u \<in> set vs. u \<in> set ws)), filter (\<lambda>u. u \<notin> set ws) vs)"
| "stl_spec (Retain_All ws) vs = (Ret (Bool (\<exists>u \<in> set vs. u \<notin> set ws)), filter (\<lambda>u. u \<in> set ws) vs)"
| "stl_spec (Index_Of v) vs = (Ret (Index (if v \<in> set vs then int (LEAST i. i < length vs \<and> vs ! i = v) else - 1)), vs)"
| "stl_spec (Last_Index_Of v) vs = (Ret (Index (if v \<in> set vs then int (GREATEST i. i < length vs \<and> vs ! i = v) else - 1)), vs)"

fun stl_run :: "'e stl_call list \<Rightarrow> 'e std_nodes \<Rightarrow> ('e stl_answer outcome list \<times> 'e std_nodes) option" where
  "stl_run [] c = Some ([], c)"
| "stl_run (x # xs) c = Option.bind (stl_apply x c) (\<lambda>(r, c'). map_option (map_prod ((#) r) id) (stl_run xs c'))"

fun stl_spec_run :: "'e stl_call list \<Rightarrow> 'e list \<Rightarrow> 'e stl_answer outcome list \<times> 'e list" where
  "stl_spec_run [] vs = ([], vs)"
| "stl_spec_run (x # xs) vs = (case stl_spec x vs of (r, vs') \<Rightarrow> map_prod ((#) r) id (stl_spec_run xs vs'))"

lemma stl_indexOf_least:
  "stl_indexOf v c = (if v \<in> set (nd_values c) then int (LEAST i. i < length (nd_values c) \<and> nd_values c ! i = v) else - 1)"
proof (cases "distance_to v (nd_values c)")
  case None
  then show ?thesis using distance_to_None [of v "nd_values c"] by (simp add: stl_indexOf_def nd_values_def [symmetric])
next
  case (Some i)
  then have i: "i < length (nd_values c)" "nd_values c ! i = v" "v \<notin> set (take i (nd_values c))" by (simp_all add: distance_to_Some)
  have "(LEAST j. j < length (nd_values c) \<and> nd_values c ! j = v) = i"
  proof (rule Least_equality)
    show "i \<le> j" if "j < length (nd_values c) \<and> nd_values c ! j = v" for j
    proof (rule ccontr)
      assume "\<not> i \<le> j"
      then have "v \<in> set (take i (nd_values c))" using that i(1) by (auto simp: in_set_conv_nth intro!: exI [of _ j])
      then show False using i(3) by simp
    qed
  qed (use i in simp)
  then show ?thesis using Some i nth_mem [OF i(1)] by (simp add: stl_indexOf_def nd_values_def [symmetric])
qed

lemma stl_lastIndexOf_greatest:
  "stl_lastIndexOf v c = (if v \<in> set (nd_values c) then int (GREATEST i. i < length (nd_values c) \<and> nd_values c ! i = v) else - 1)"
proof (cases "distance_to v (rev (nd_values c))")
  case None
  then show ?thesis using distance_to_None [of v "rev (nd_values c)"] by (simp add: stl_lastIndexOf_def nd_values_def [symmetric])
next
  case (Some i)
  let ?n = "length (nd_values c)"
  have i: "i < ?n" "rev (nd_values c) ! i = v" "v \<notin> set (take i (rev (nd_values c)))" using Some by (simp_all add: distance_to_Some)
  have here: "nd_values c ! (?n - Suc i) = v" using i(1,2) by (simp add: rev_nth)
  have "(GREATEST j. j < ?n \<and> nd_values c ! j = v) = ?n - Suc i"
  proof (rule Greatest_equality)
    show "j \<le> ?n - Suc i" if "j < ?n \<and> nd_values c ! j = v" for j
    proof (rule ccontr)
      assume "\<not> j \<le> ?n - Suc i"
      then have "?n - Suc j < i" using that i(1) by linarith
      moreover have "rev (nd_values c) ! (?n - Suc j) = v"
      proof -
        have "?n - Suc (?n - Suc j) = j" "?n - Suc j < ?n" using that by linarith+
        then show ?thesis using that by (simp add: rev_nth)
      qed
      ultimately have "v \<in> set (take i (rev (nd_values c)))" using i(1) by (auto simp: in_set_conv_nth intro!: exI [of _ "?n - Suc j"])
      then show False using i(3) by simp
    qed
  qed (use i(1) here in simp)
  moreover have "v \<in> set (nd_values c)" using here i(1) nth_mem [of "?n - Suc i" "nd_values c"] by auto
  ultimately show ?thesis using Some i(1) by (simp add: stl_lastIndexOf_def stl_size_values nd_values_def [symmetric])
qed

lemma stl_copy_effect:
  assumes "nd_ok c"
  shows "\<exists>c'. stl_copy other_stl False vs c = (Ret (), c') \<and> nd_ok c' \<and> nd_values c' = vs"
proof (cases other_stl)
  case True
  then show ?thesis using nd_append_effect [of "nd_clear c" vs] by (simp add: stl_copy_def)
next
  case False
  have "\<exists>b c'. add_each stl_add r ws d = (Ret b, c') \<and> nd_ok c' \<and> nd_values c' = nd_values d @ ws" if "nd_ok d" for r ws d
    using that
  proof (induction ws arbitrary: r d)
    case (Cons w ws)
    obtain d1 where d1: "stl_add w d = (Ret True, d1)" "nd_ok d1" "nd_values d1 = nd_values d @ [w]" using stl_add_effect [OF Cons.prems] by blast
    from Cons.IH [OF d1(2), of True] d1(1,3) show ?case by auto
  qed simp
  from this [of "nd_clear c" False vs] False show ?thesis
    by (auto simp: stl_copy_def coll_copy_def stl_ops_def stl_clear_def unit_result_def)
qed

lemma guardedI:
  assumes "valid \<Longrightarrow> \<exists>c'. r = (Ret a, c') \<and> nd_ok c' \<and> nd_values c' = vs'"
    and "\<not> valid \<Longrightarrow> r = (Throw (IndexOutOfBoundsException msg), c)" and "nd_ok c"
  shows "\<exists>s c'. reply f r = (s, c') \<and> nd_ok c' \<and> guarded valid msg (f a, vs') (nd_values c) = (s, nd_values c')"
  using assms by (cases valid) (auto simp: reply_def guarded_def)

lemma answeredI:
  assumes "\<exists>c'. r = (Ret a, c') \<and> nd_ok c' \<and> nd_values c' = vs'"
  shows "\<exists>s c'. reply f r = (s, c') \<and> nd_ok c' \<and> (Ret (f a), vs') = (s, nd_values c')"
  using assms by (auto simp: reply_def)

lemma stl_out_of_range:
  "\<not> border i (nd_values c) \<Longrightarrow> stl_add_at i v c = (Throw (IndexOutOfBoundsException ''List::add - Index greater than size()''), c)"
  "\<not> border i (nd_values c) \<Longrightarrow> stl_addAll_at i vs c = (Throw (IndexOutOfBoundsException ''List::addAll - Index greater than size()''), c)"
  "\<not> inner i (nd_values c) \<Longrightarrow> stl_set i v c = (Throw (IndexOutOfBoundsException ''List::get - Index greater than size() or negative''), c)"
  "\<not> inner i (nd_values c) \<Longrightarrow> stl_removeAt i c = (Throw (IndexOutOfBoundsException ''List::removeAt - Index greater than size() or negative''), c)"
  "\<not> inner i (nd_values c) \<Longrightarrow> stl_get i c = Throw (IndexOutOfBoundsException ''List::get - Index greater than size() or negative'')"
  by (auto simp: stl_add_at_def stl_addAll_at_def stl_set_def stl_removeAt_def stl_get_def stl_size_values)

lemma stl_apply_step:
  assumes "nd_ok c"
  shows "\<exists>r c'. stl_apply x c = Some (r, c') \<and> nd_ok c' \<and> stl_spec x (nd_values c) = (r, nd_values c')"
proof (cases x)
  case (Append v)
  then show ?thesis using answeredI [OF stl_add_effect [OF assms], of Bool v] by simp
next
  case (Insert i v)
  have "\<exists>s c'. reply (\<lambda>_. No_Answer) (stl_add_at i v c) = (s, c') \<and> nd_ok c'
     \<and> guarded (border i (nd_values c)) ''List::add - Index greater than size()''
         (No_Answer, take (nat i) (nd_values c) @ v # drop (nat i) (nd_values c)) (nd_values c) = (s, nd_values c')"
    by (rule guardedI) (use stl_add_at_effect [OF assms, of i v] stl_out_of_range(1) [of i c v] assms in blast)+
  then show ?thesis using Insert by simp
next
  case (Put i v)
  have "\<exists>s c'. reply Element (stl_set i v c) = (s, c') \<and> nd_ok c'
     \<and> guarded (inner i (nd_values c)) ''List::get - Index greater than size() or negative''
         (Element (nd_values c ! nat i), (nd_values c)[nat i := v]) (nd_values c) = (s, nd_values c')"
    by (rule guardedI) (use stl_set_effect [OF assms, of i v] stl_out_of_range(3) [of i c v] assms in blast)+
  then show ?thesis using Put by simp
next
  case (Get i)
  have "\<exists>s c'. reply Element (stl_get i c, c) = (s, c') \<and> nd_ok c'
     \<and> guarded (inner i (nd_values c)) ''List::get - Index greater than size() or negative''
         (Element (nd_values c ! nat i), nd_values c) (nd_values c) = (s, nd_values c')"
    by (rule guardedI) (use stl_get_effect [of i c] stl_out_of_range(5) [of i c] assms in auto)
  then show ?thesis using Get by simp
next
  case (Take_Out i)
  have "\<exists>s c'. reply Element (stl_removeAt i c) = (s, c') \<and> nd_ok c'
     \<and> guarded (inner i (nd_values c)) ''List::removeAt - Index greater than size() or negative''
         (Element (nd_values c ! nat i), take (nat i) (nd_values c) @ drop (Suc (nat i)) (nd_values c)) (nd_values c) = (s, nd_values c')"
    by (rule guardedI) (use stl_removeAt_effect [OF assms, of i] stl_out_of_range(4) [of i c] assms in blast)+
  then show ?thesis using Take_Out by simp
next
  case (Drop_Value v)
  then show ?thesis using answeredI [OF stl_remove_effect [OF assms], of Bool v] by simp
next
  case (Append_All vs)
  then show ?thesis using answeredI [OF stl_addAll_effect [OF assms], of Bool vs] by simp
next
  case (Insert_All i vs)
  have "\<exists>s c'. reply Bool (stl_addAll_at i vs c) = (s, c') \<and> nd_ok c'
     \<and> guarded (border i (nd_values c)) ''List::addAll - Index greater than size()''
         (Bool (vs \<noteq> []), take (nat i) (nd_values c) @ vs @ drop (nat i) (nd_values c)) (nd_values c) = (s, nd_values c')"
    by (rule guardedI) (use stl_addAll_at_effect [OF assms, of i vs] stl_out_of_range(2) [of i c vs] assms in blast)+
  then show ?thesis using Insert_All by simp
next
  case (Copy other_stl vs)
  then show ?thesis using answeredI [OF stl_copy_effect [OF assms], of "\<lambda>_. No_Answer" other_stl vs] by simp
next
  case (Drop_All vs)
  then show ?thesis using stl_list.coll_removeAll_effect [OF assms, of "Suc (length (nd_cells c))" vs]
    by (auto simp: stl_removeAll_def nd_values_length reply_def)
next
  case (Retain_All vs)
  then show ?thesis using stl_list.coll_retainAll_effect [OF assms, of "Suc (length (nd_cells c))" vs]
    by (auto simp: stl_retainAll_def nd_values_length reply_def)
qed (use assms in \<open>simp_all add: reply_def stl_clear_def stl_indexOf_least stl_lastIndexOf_greatest\<close>)

lemma stl_run_steps:
  "nd_ok c \<Longrightarrow> \<exists>rs c'. stl_run xs c = Some (rs, c') \<and> nd_ok c' \<and> stl_spec_run xs (nd_values c) = (rs, nd_values c')"
proof (induction xs arbitrary: c)
  case (Cons x xs)
  obtain r c1 where c1: "stl_apply x c = Some (r, c1)" "nd_ok c1" "stl_spec x (nd_values c) = (r, nd_values c1)"
    using stl_apply_step [OF Cons.prems] by blast
  with Cons.IH [OF c1(2)] show ?case by auto
qed simp


section \<open>What the list iterator does otherwise\<close>

text \<open>
  \<^verbatim>\<open>previous\<close> returns the next element and does not move, and reads beyond the last element at the end of the list; \<^verbatim>\<open>set\<close>
  replaces the next element instead of the last one returned, and appends at the end.
\<close>

lemma stl_previous_is_next:
  assumes "std_view c it (x # xs) (y # ys) b"
  shows "stl_previous c it = Ret y"
proof -
  obtain as a bs where s: "nd_cells c = as @ (a, y) # bs" "x # xs = map snd as" "it_current it = Some a" "a \<notin> fst ` set as"
    "map_of (nd_cells c) a = Some y" using assms by (rule std_view_split)
  obtain m as' where as: "as = m # as'" using s(2) by auto
  have "it_current it \<noteq> first_node (nd_cells c)" using s(1,3,4) as by (cases m) auto
  then show ?thesis using s(3,5) by (simp add: stl_previous_def)
qed

lemma stl_previous_at_end:
  assumes "std_view c it (x # xs) [] b"
  shows "stl_previous c it = Undefined OutOfBounds"
proof -
  obtain n as where "nd_cells c = n # as" "it_current it = None" using assms by (auto simp: std_view_def Cons_eq_map_conv)
  then show ?thesis by (cases n) (simp add: stl_previous_def)
qed

lemma stl_set_replaces_next:
  assumes "std_view c it xs (y # ys) b"
  shows "\<exists>c'. stl_iter_set e c it = (Ret (), c') \<and> nd_values c' = xs @ e # ys"
proof -
  obtain as a bs where s: "nd_cells c = as @ (a, y) # bs" "xs = map snd as" "ys = map snd bs" "it_current it = Some a"
    "map_of (nd_cells c) a = Some y" "nd_ok c" using assms by (rule std_view_split)
  have "nd_values (nd_write a e c) = xs @ e # ys" using nd_write_effect(1) [OF s(6,1), of e] s(2,3) by (simp add: nd_values_def)
  then show ?thesis using s(4,5) by (simp add: stl_iter_set_def)
qed

end
