(* ===== verification/Synchronous_Queue.thy ===== *)
theory Synchronous_Queue
  imports Collections
begin

text \<open>
  \<^verbatim>\<open>SynchronousQueue\<close> (SynchronousQueue.h).  The class has no members; the bodies of the operations that should hand an element to
  another thread are commented out.  What is left is modelled: a queue without capacity, which keeps the contract of queues, and
  blocking operations that return at once.
\<close>

section \<open>Operations\<close>

text \<open>\<open>d\<close> is the value \<^verbatim>\<open>E()\<close>; \<^verbatim>\<open>throw false\<close> throws a value of type \<^verbatim>\<open>bool\<close>.\<close>

definition sy_put :: "'e \<Rightarrow> unit outcome" where
  "sy_put v = Ret ()"

definition sy_timed_offer :: "'e \<Rightarrow> int \<Rightarrow> bool outcome" where
  "sy_timed_offer v timeout = Throw (OtherException ''false'')"

definition sy_offer :: "'e \<Rightarrow> bool outcome" where
  "sy_offer v = Ret False"

definition sy_take :: "'e \<Rightarrow> 'e outcome" where
  "sy_take d = Ret d"

text \<open>Next to the result, the value that the reference has afterwards.\<close>

definition sy_timed_poll :: "'e \<Rightarrow> int \<Rightarrow> (bool \<times> 'e) outcome" where
  "sy_timed_poll result timeout = Ret (False, result)"

definition sy_poll :: "'e \<Rightarrow> (bool \<times> 'e) outcome" where
  "sy_poll result = Ret (False, result)"

definition sy_peek :: "'e \<Rightarrow> (bool \<times> 'e) outcome" where
  "sy_peek result = Ret (False, result)"

definition sy_equals :: "bool \<Rightarrow> bool" where
  "sy_equals same_object \<longleftrightarrow> same_object"

definition sy_isEmpty :: bool where
  "sy_isEmpty = True"

definition sy_size :: int where
  "sy_size = 0"

definition sy_remainingCapacity :: int where
  "sy_remainingCapacity = 0"

definition sy_clear :: "unit outcome" where
  "sy_clear = Ret ()"

definition sy_contains :: "'e \<Rightarrow> bool" where
  "sy_contains v = False"

definition sy_containsAll :: "'e list \<Rightarrow> bool" where
  "sy_containsAll collection \<longleftrightarrow> collection = []"

definition sy_remove :: "'e \<Rightarrow> bool outcome" where
  "sy_remove v = Ret False"

definition sy_removeAll :: "'e list \<Rightarrow> bool outcome" where
  "sy_removeAll collection = Ret False"

definition sy_retainAll :: "'e list \<Rightarrow> bool outcome" where
  "sy_retainAll collection = Ret False"

definition sy_toArray :: "'e list" where
  "sy_toArray = []"

text \<open>The iterator.\<close>

definition sy_hasNext :: bool where
  "sy_hasNext = False"

definition sy_next :: "'e outcome" where
  "sy_next = Throw (NoSuchElementException ''Cannot traverse a Synchronous Queue.'')"

definition sy_iter_remove :: "unit outcome" where
  "sy_iter_remove = Throw (IllegalStateException ''No Elements to remove from a Synchronous Queue.'')"

text \<open>\<^verbatim>\<open>while (count < maxElements && poll(element)) { c.add(element); ++count; }\<close>; the other version has no limit.\<close>

fun sy_drain :: "nat \<Rightarrow> int option \<Rightarrow> 'e \<Rightarrow> int \<Rightarrow> 'e list \<Rightarrow> (int outcome \<times> 'e list) option" where
  "sy_drain 0 limit element count sink = None"
| "sy_drain (Suc n) limit element count sink =
     (if limit \<noteq> None \<and> \<not> count < the limit then Some (Ret count, sink)
      else
        case sy_poll element of
          Ret (True, v) \<Rightarrow> sy_drain n limit v (count + 1) (sink @ [v])
        | Ret (False, v) \<Rightarrow> Some (Ret count, sink)
        | Throw x \<Rightarrow> Some (Throw x, sink)
        | Undefined f \<Rightarrow> Some (Undefined f, sink))"

definition sy_drainTo :: "nat \<Rightarrow> bool \<Rightarrow> int option \<Rightarrow> 'e \<Rightarrow> 'e list \<Rightarrow> (int outcome \<times> 'e list) option" where
  "sy_drainTo n same_object limit d sink =
     (if same_object then Some (Throw (IllegalArgumentException ''Cannot drain a Collection to Itself.''), sink)
      else sy_drain n limit d 0 sink)"

section \<open>As the base classes see it\<close>

definition sy_queue_ops :: "(unit, 'e) queue_ops" where
  "sy_queue_ops = \<lparr>v_offer = \<lambda>v c. (sy_offer v, c), v_poll = \<lambda>r c. (sy_poll r, c), v_peek = \<lambda>r c. (sy_peek r, c)\<rparr>"

definition sy_ops :: "(unit, unit, 'e) coll_ops" where
  "sy_ops = \<lparr>v_size = \<lambda>_. sy_size, v_iterator = \<lambda>_. (), v_hasNext = \<lambda>_ _. sy_hasNext, v_next = \<lambda>_ it. (sy_next, it),
     v_remove = \<lambda>c it. (sy_iter_remove, c, it), v_add = queue_add sy_queue_ops, v_clear = \<lambda>c. (sy_clear, c)\<rparr>"

interpretation sy: fifo_queue sy_queue_ops "\<lambda>_. True" "\<lambda>_. []" "\<lambda>_. 0"
  by standard (simp_all add: sy_queue_ops_def sy_offer_def sy_poll_def sy_peek_def zero_enat_def)

interpretation sy_coll: iterable sy_ops "\<lambda>_. True" "\<lambda>_. []" "\<lambda>c it xs ys b. xs = [] \<and> ys = []"
  by standard (simp_all add: sy_ops_def sy_size_def sy_hasNext_def)

text \<open>The operations of the base classes answer for an empty queue that is full; adding throws.\<close>

lemma sy_queue_results:
  "queue_add sy_queue_ops v () = (Throw (IllegalStateException ''Unable to add specified element to the Queue.''), ())"
  "queue_remove sy_queue_ops d () = (Throw (NoSuchElementException ''Unable to remove specified element from the Queue.''), ())"
  "queue_element sy_queue_ops d () = (Throw (NoSuchElementException ''Unable to remove specified element from the Queue.''), ())"
  using sy.queue_add_effect [where v = v] sy.queue_remove_effect [where d = d] sy.queue_element_effect [where d = d]
  by (simp_all add: zero_enat_def)

lemma sy_overridden:
  "coll_contains (Suc n) sy_ops v () = Some (Ret (sy_contains v), ())"
  "coll_containsAll (Suc n) sy_ops vs () = Some (Ret (sy_containsAll vs), ())"
  "coll_toArray (Suc n) sy_ops () = Some (Ret (sy_toArray :: 'e list), ())"
  "coll_isEmpty sy_ops () = sy_isEmpty"
  using sy_coll.coll_contains_result [where v = v and n = "Suc n"] sy_coll.coll_containsAll_result [where vs = vs and n = "Suc n"]
    sy_coll.coll_toArray_result [where n = "Suc n"] sy_coll.coll_isEmpty_effect
  by (simp_all add: sy_contains_def sy_containsAll_def sy_toArray_def sy_isEmpty_def)

text \<open>Nothing is ever handed over: what is put is not what is taken, whatever it is.\<close>

lemma sy_no_handoff: "v \<noteq> d \<Longrightarrow> sy_put v = Ret () \<and> sy_take d = Ret d \<and> sy_take d \<noteq> Ret v"
  by (simp add: sy_put_def sy_take_def)

lemma sy_drainTo_nothing: "sy_drainTo (Suc n) False limit d sink = Some (Ret 0, sink)"
  by (simp add: sy_drainTo_def sy_poll_def)

end
