(* ===== verification/Future_Task.thy ===== *)
theory Future_Task
  imports AMQ_Prelude
begin

unbundle bit_operations_syntax

text \<open>
  \<^verbatim>\<open>FutureTask\<close> (FutureTask.h): a task that one thread runs and others cancel or wait for.  The members of
  \<^verbatim>\<open>FutureTaskSync\<close> are shared; every access to one of them is a step of its own, so that the operations of any number
  of threads interleave.  \<^verbatim>\<open>AbstractQueuedSynchronizer\<close> is in the compiled library: \<^verbatim>\<open>compareAndSetState\<close> is one step,
  \<^verbatim>\<open>releaseShared\<close> calls \<^verbatim>\<open>tryReleaseShared\<close>, and \<^verbatim>\<open>acquireSharedInterruptibly\<close> waits until \<^verbatim>\<open>tryAcquireShared\<close> succeeds.
\<close>

section \<open>State\<close>

datatype sync_state = READY | RUNNING | RAN | CANCELLED

fun code :: "sync_state \<Rightarrow> int" where
  "code READY = 0"
| "code RUNNING = 1"
| "code RAN = 2"
| "code CANCELLED = 4"

definition ranOrCancelled :: "sync_state \<Rightarrow> bool" where
  "ranOrCancelled s \<longleftrightarrow> code s AND (code RAN OR code CANCELLED) \<noteq> 0"

lemma ranOrCancelled_iff [simp]: "ranOrCancelled s \<longleftrightarrow> s = RAN \<or> s = CANCELLED"
  by (cases s) (simp_all add: ranOrCancelled_def)

text \<open>
  What leaves the callable: an exception of the library, one of the standard library or anything else.  A standard exception
  is copied as a plain \<^verbatim>\<open>std::exception\<close>, which does not keep its text; what remains is the text of that class.
\<close>

datatype thrown = Decaf_Exception exn | Std_Exception string | Unknown_Exception

fun caught :: "thrown \<Rightarrow> exn" where
  "caught (Decaf_Exception x) = x"
| "caught (Std_Exception what) = OtherException ''std::exception''"
| "caught Unknown_Exception = OtherException ''FutureTask Caught Unknown exception during task execution.''"

text \<open>
  \<^verbatim>\<open>FutureTaskAdapter\<close>: the task is a \<^verbatim>\<open>Runnable\<close> with the result to return, or a \<^verbatim>\<open>Callable\<close>.  What they do is a function of the number of
  calls so far.
\<close>

datatype 'v adapter = Runnable_Task "nat \<Rightarrow> thrown option" 'v | Callable_Task "nat \<Rightarrow> thrown + 'v"

fun adapter_call :: "'v adapter \<Rightarrow> nat \<Rightarrow> thrown + 'v" where
  "adapter_call (Runnable_Task run result) i = (case run i of None \<Rightarrow> Inr result | Some x \<Rightarrow> Inl x)"
| "adapter_call (Callable_Task call) i = call i"

text \<open>
  \<open>ft_calls\<close>, \<open>ft_done\<close> and \<open>ft_interrupted\<close> record the calls of the task, of \<^verbatim>\<open>done()\<close> and of \<^verbatim>\<open>interrupt()\<close>.
\<close>

record 'v future =
  ft_state :: sync_state
  ft_result :: 'v
  ft_exception :: "exn option"
  ft_runner :: "nat option"
  ft_calls :: nat
  ft_done :: nat
  ft_interrupted :: "nat list"

definition ft_sync :: "'v \<Rightarrow> 'v future" where
  "ft_sync d = \<lparr>ft_state = READY, ft_result = d, ft_exception = None, ft_runner = None, ft_calls = 0, ft_done = 0, ft_interrupted = []\<rparr>"

definition new_from_callable :: "'v \<Rightarrow> 'v adapter option \<Rightarrow> 'v future outcome" where
  "new_from_callable d task =
     (if task = None then Throw (NullPointerException ''The Callable pointer passed to the constructor was NULL'') else Ret (ft_sync d))"

definition new_from_runnable :: "'v \<Rightarrow> 'v adapter option \<Rightarrow> 'v future outcome" where
  "new_from_runnable d task =
     (if task = None then Throw (NullPointerException ''The Runnable pointer passed to the constructor was NULL'') else Ret (ft_sync d))"

section \<open>Steps\<close>

datatype 'v ft_reply = Void | Answer bool | Result 'v | Cancellation | Execution exn | Timeout

text \<open>
  Where a thread is in its operation.  \<open>Set\<close> and \<open>Set_Exception\<close> are also reached from \<^verbatim>\<open>innerRun\<close>; they carry what the operation returns
  when they are done.
\<close>

datatype 'v pc =
    Run | Run_Runner | Run_Check | Run_Call
  | Set 'v "'v ft_reply" | Set_Cas sync_state 'v "'v ft_reply" | Store 'v "'v ft_reply"
  | Set_Exception exn "'v ft_reply" | Set_Exception_Cas sync_state exn "'v ft_reply" | Store_Exception exn "'v ft_reply"
  | Release "'v ft_reply" | Release_Done "'v ft_reply" | Done_Hook "'v ft_reply"
  | Cancel bool | Cancel_Cas sync_state bool | Cancel_Runner bool | Interrupt nat
  | Get_State bool | Get_Runner bool | Get_Cancelled | Get_Exception | Get_Result
  | Is_Done | Is_Done_Runner | Is_Cancelled
  | Reset | Reset_Runner | Reset_Check | Reset_Call | Reset_Clear | Reset_Cas
  | Finished "'v ft_reply"

text \<open>\<^verbatim>\<open>compareAndSetState\<close>.\<close>

definition cas :: "sync_state \<Rightarrow> sync_state \<Rightarrow> 'v future \<Rightarrow> bool \<times> 'v future" where
  "cas expected new F = (if ft_state F = expected then (True, F\<lparr>ft_state := new\<rparr>) else (False, F))"

text \<open>\<^verbatim>\<open>tryReleaseShared\<close>.\<close>

definition tryReleaseShared :: "'v future \<Rightarrow> 'v future" where
  "tryReleaseShared F = F\<lparr>ft_runner := None\<rparr>"

text \<open>
  One step of thread \<open>t\<close>; \<open>None\<close>: it has finished or waits.  \<open>late\<close>: the time of a timed \<^verbatim>\<open>get\<close> is over.
\<close>

fun task_step :: "'v adapter \<Rightarrow> nat \<Rightarrow> bool \<Rightarrow> 'v future \<Rightarrow> 'v pc \<Rightarrow> ('v future \<times> 'v pc) option" where
  "task_step task t late F Run = (case cas READY RUNNING F of (b, F) \<Rightarrow> Some (F, if b then Run_Runner else Finished Void))"
| "task_step task t late F Run_Runner = Some (F\<lparr>ft_runner := Some t\<rparr>, Run_Check)"
| "task_step task t late F Run_Check = Some (F, if ft_state F = RUNNING then Run_Call else Release Void)"
| "task_step task t late F Run_Call =
     Some (F\<lparr>ft_calls := Suc (ft_calls F)\<rparr>,
       case adapter_call task (ft_calls F) of Inr v \<Rightarrow> Set v Void | Inl x \<Rightarrow> Set_Exception (caught x) Void)"
| "task_step task t late F (Set v k) =
     Some (F, if ft_state F = RAN then Finished k else if ft_state F = CANCELLED then Release k else Set_Cas (ft_state F) v k)"
| "task_step task t late F (Set_Cas s v k) = (case cas s RAN F of (b, F) \<Rightarrow> Some (F, if b then Store v k else Set v k))"
| "task_step task t late F (Store v k) = Some (F\<lparr>ft_result := v\<rparr>, Release_Done k)"
| "task_step task t late F (Set_Exception x k) =
     Some (F, if ft_state F = RAN then Finished k else if ft_state F = CANCELLED then Release k else Set_Exception_Cas (ft_state F) x k)"
| "task_step task t late F (Set_Exception_Cas s x k) =
     (case cas s RAN F of (b, F) \<Rightarrow> Some (F, if b then Store_Exception x k else Set_Exception x k))"
| "task_step task t late F (Store_Exception x k) = Some (F\<lparr>ft_exception := Some x\<rparr>, Release_Done k)"
| "task_step task t late F (Release k) = Some (tryReleaseShared F, Finished k)"
| "task_step task t late F (Release_Done k) = Some (tryReleaseShared F, Done_Hook k)"
| "task_step task t late F (Done_Hook k) = Some (F\<lparr>ft_done := Suc (ft_done F)\<rparr>, Finished k)"
| "task_step task t late F (Cancel b) =
     Some (F, if ranOrCancelled (ft_state F) then Finished (Answer False) else Cancel_Cas (ft_state F) b)"
| "task_step task t late F (Cancel_Cas s b) =
     (case cas s CANCELLED F of (c, F) \<Rightarrow> Some (F, if c then (if b then Cancel_Runner b else Release_Done (Answer True)) else Cancel b))"
| "task_step task t late F (Cancel_Runner b) =
     Some (F, case ft_runner F of Some r \<Rightarrow> Interrupt r | None \<Rightarrow> Release_Done (Answer True))"
| "task_step task t late F (Interrupt r) = Some (F\<lparr>ft_interrupted := ft_interrupted F @ [r]\<rparr>, Release_Done (Answer True))"
| "task_step task t late F (Get_State timed) =
     (if ranOrCancelled (ft_state F) then Some (F, Get_Runner timed) else if timed \<and> late then Some (F, Finished Timeout) else None)"
| "task_step task t late F (Get_Runner timed) =
     Some (F, if ft_runner F = None then Get_Cancelled else if timed \<and> late then Finished Timeout else Get_State timed)"
| "task_step task t late F Get_Cancelled = Some (F, if ft_state F = CANCELLED then Finished Cancellation else Get_Exception)"
| "task_step task t late F Get_Exception = Some (F, case ft_exception F of Some x \<Rightarrow> Finished (Execution x) | None \<Rightarrow> Get_Result)"
| "task_step task t late F Get_Result = Some (F, Finished (Result (ft_result F)))"
| "task_step task t late F Is_Done = Some (F, if ranOrCancelled (ft_state F) then Is_Done_Runner else Finished (Answer False))"
| "task_step task t late F Is_Done_Runner = Some (F, Finished (Answer (ft_runner F = None)))"
| "task_step task t late F Is_Cancelled = Some (F, Finished (Answer (ft_state F = CANCELLED)))"
| "task_step task t late F Reset = (case cas READY RUNNING F of (b, F) \<Rightarrow> Some (F, if b then Reset_Runner else Finished (Answer False)))"
| "task_step task t late F Reset_Runner = Some (F\<lparr>ft_runner := Some t\<rparr>, Reset_Check)"
| "task_step task t late F Reset_Check = Some (F, if ft_state F = RUNNING then Reset_Call else Reset_Clear)"
| "task_step task t late F Reset_Call =
     Some (F\<lparr>ft_calls := Suc (ft_calls F)\<rparr>,
       case adapter_call task (ft_calls F) of Inr v \<Rightarrow> Reset_Clear | Inl x \<Rightarrow> Set_Exception (caught x) (Answer False))"
| "task_step task t late F Reset_Clear = Some (F\<lparr>ft_runner := None\<rparr>, Reset_Cas)"
| "task_step task t late F Reset_Cas = (case cas RUNNING READY F of (b, F) \<Rightarrow> Some (F, Finished (Answer b)))"
| "task_step task t late F (Finished k) = None"

text \<open>The task with its threads.\<close>

record 'v tasks =
  future :: "'v future"
  pcs :: "nat \<Rightarrow> 'v pc"

definition move :: "'v adapter \<Rightarrow> nat \<times> bool \<Rightarrow> 'v tasks \<Rightarrow> 'v tasks option" where
  "move task e M = (case e of (t, late) \<Rightarrow>
     map_option (\<lambda>(F, p). \<lparr>future = F, pcs = (pcs M)(t := p)\<rparr>) (task_step task t late (future M) (pcs M t)))"

fun task_moves :: "'v adapter \<Rightarrow> (nat \<times> bool) list \<Rightarrow> 'v tasks \<Rightarrow> 'v tasks option" where
  "task_moves task [] M = Some M"
| "task_moves task (e # es) M = Option.bind (move task e M) (task_moves task es)"

definition begin_tasks :: "'v \<Rightarrow> (nat \<Rightarrow> 'v pc) \<Rightarrow> 'v tasks" where
  "begin_tasks d ops = \<lparr>future = ft_sync d, pcs = ops\<rparr>"

lemma move_cases:
  assumes "move task e M = Some M'"
  obtains t late F p where "e = (t, late)" and "task_step task t late (future M) (pcs M t) = Some (F, p)"
    and "M' = \<lparr>future = F, pcs = (pcs M)(t := p)\<rparr>"
  using assms by (cases e) (auto simp: move_def)

section \<open>The hook is called once\<close>

text \<open>A thread between making the state final and calling \<^verbatim>\<open>done()\<close>.\<close>

fun closing :: "'v pc \<Rightarrow> bool" where
  "closing (Store v k) = True"
| "closing (Store_Exception x k) = True"
| "closing (Release_Done k) = True"
| "closing (Done_Hook k) = True"
| "closing (Cancel_Runner b) = True"
| "closing (Interrupt r) = True"
| "closing _ = False"

text \<open>The operations, as a thread starts them.\<close>

fun operation :: "'v pc \<Rightarrow> bool" where
  "operation Run = True"
| "operation (Set v k) = (k = Void)"
| "operation (Set_Exception x k) = (k = Void)"
| "operation (Cancel b) = True"
| "operation (Get_State timed) = True"
| "operation Is_Done = True"
| "operation Is_Cancelled = True"
| "operation Reset = True"
| "operation (Finished k) = (k = Void)"
| "operation _ = False"

text \<open>The values that a compare-and-set expects are not final.\<close>

fun expects :: "'v pc \<Rightarrow> bool" where
  "expects (Set_Cas s v k) = (\<not> ranOrCancelled s)"
| "expects (Set_Exception_Cas s x k) = (\<not> ranOrCancelled s)"
| "expects (Cancel_Cas s b) = (\<not> ranOrCancelled s)"
| "expects _ = True"

definition hook_once :: "'v tasks \<Rightarrow> bool" where
  "hook_once M \<longleftrightarrow> (\<forall>t. expects (pcs M t)) \<and> (\<forall>t u. closing (pcs M t) \<and> closing (pcs M u) \<longrightarrow> t = u)
     \<and> (if \<exists>t. closing (pcs M t) then ranOrCancelled (ft_state (future M)) \<and> ft_done (future M) = 0
        else ft_done (future M) = (if ranOrCancelled (ft_state (future M)) then 1 else 0))"

text \<open>How a step changes these.\<close>

lemma step_expects: "task_step task t late F p = Some (F', p') \<Longrightarrow> expects p'"
  by (cases p) (auto simp: cas_def split: if_splits option.splits sum.splits)

lemma step_closing:
  assumes "task_step task t late F p = Some (F', p')" and "expects p"
  shows "closing p \<Longrightarrow> ft_state F' = ft_state F \<and> (closing p' \<and> ft_done F' = ft_done F \<or> \<not> closing p' \<and> ft_done F' = Suc (ft_done F))"
    and "\<not> closing p \<Longrightarrow> ft_done F' = ft_done F \<and> (if closing p' then \<not> ranOrCancelled (ft_state F) \<and> ranOrCancelled (ft_state F')
      else ranOrCancelled (ft_state F') = ranOrCancelled (ft_state F))"
proof -
  show "ft_state F' = ft_state F \<and> (closing p' \<and> ft_done F' = ft_done F \<or> \<not> closing p' \<and> ft_done F' = Suc (ft_done F))" if "closing p"
    using assms that by (cases p) (auto simp: tryReleaseShared_def split: option.splits)
  show "ft_done F' = ft_done F \<and> (if closing p' then \<not> ranOrCancelled (ft_state F) \<and> ranOrCancelled (ft_state F')
      else ranOrCancelled (ft_state F') = ranOrCancelled (ft_state F))" if "\<not> closing p"
    using assms that by (cases p) (auto simp: cas_def tryReleaseShared_def split: if_splits option.splits sum.splits)
qed

lemma hook_once_move:
  assumes "hook_once M" and "move task e M = Some M'"
  shows "hook_once M'"
proof -
  obtain t late F p where s: "task_step task t late (future M) (pcs M t) = Some (F, p)" and M': "M' = \<lparr>future = F, pcs = (pcs M)(t := p)\<rparr>"
    using assms(2) by (rule move_cases)
  have ex: "expects (pcs M t)" and uniq: "\<And>u v. closing (pcs M u) \<Longrightarrow> closing (pcs M v) \<Longrightarrow> u = v" using assms(1) by (auto simp: hook_once_def)
  have exp: "\<forall>u. expects (pcs M' u)" using assms(1) step_expects [OF s] by (auto simp: hook_once_def M')
  show ?thesis
  proof (cases "closing (pcs M t)")
    case True
    note c = step_closing(1) [OF s ex True]
    have others: "\<not> closing (pcs M u)" if "u \<noteq> t" for u using uniq [OF True] that by blast
    then have cl: "(\<exists>u. closing (pcs M' u)) \<longleftrightarrow> closing p" by (auto simp: M')
    have "ranOrCancelled (ft_state (future M)) \<and> ft_done (future M) = 0" using assms(1) True unfolding hook_once_def by metis
    then show ?thesis using c cl exp others unfolding hook_once_def by (auto simp: M')
  next
    case False
    note c = step_closing(2) [OF s ex False]
    show ?thesis
    proof (cases "closing p")
      case True
      then have "\<not> ranOrCancelled (ft_state (future M))" using c by simp
      then have none: "\<not> closing (pcs M u)" "ft_done (future M) = 0" for u using assms(1) by (auto simp: hook_once_def split: if_splits)
      then have "\<exists>u. closing (pcs M' u)" using True by (auto simp: M')
      then show ?thesis using none True c exp unfolding hook_once_def by (auto simp: M')
    next
      case False
      then have same: "closing (pcs M' u) \<longleftrightarrow> closing (pcs M u)" for u using \<open>\<not> closing (pcs M t)\<close> by (simp add: M')
      have fin: "ranOrCancelled (ft_state (future M')) = ranOrCancelled (ft_state (future M))" "ft_done (future M') = ft_done (future M)"
        using c False by (simp_all add: M' del: ranOrCancelled_iff)
      show ?thesis using assms(1) exp unfolding hook_once_def same fin by blast
    qed
  qed
qed

text \<open>Steps as a step system, for any property a step keeps.\<close>

lemma moves_steps: "task_moves task es M = Some M' \<Longrightarrow> (\<lambda>M M'. \<exists>e. move task e M = Some M')\<^sup>*\<^sup>* M M'"
proof (induction es arbitrary: M)
  case (Cons e es)
  then obtain M1 where "move task e M = Some M1" "task_moves task es M1 = Some M'" by (auto simp: bind_eq_Some_conv)
  then have "(\<lambda>M M'. \<exists>e. move task e M = Some M') M M1" "(\<lambda>M M'. \<exists>e. move task e M = Some M')\<^sup>*\<^sup>* M1 M'"
    using Cons.IH by blast+
  then show ?case by (rule converse_rtranclp_into_rtranclp)
qed simp

lemma operation_start: "operation p \<Longrightarrow> expects p \<and> \<not> closing p"
  by (cases p) simp_all

lemma hook_once_begin:
  assumes "\<forall>t. operation (ops t)"
  shows "hook_once (begin_tasks d ops)"
proof -
  have "expects (ops t)" "\<not> closing (ops t)" for t using assms operation_start by blast+
  then show ?thesis by (simp add: hook_once_def begin_tasks_def ft_sync_def)
qed

interpretation hook: step_system "\<lambda>M. \<exists>d ops. (\<forall>t. operation (ops t)) \<and> M = begin_tasks d ops" "\<lambda>M M'. \<exists>e. move task e M = Some M'" hook_once
  for task
  by standard (auto intro: hook_once_begin dest: hook_once_move)

section \<open>The task is called once and get returns what it returned\<close>

text \<open>The result or the exception of the task is where \<^verbatim>\<open>get\<close> looks for it.\<close>

definition stored :: "'v adapter \<Rightarrow> 'v future \<Rightarrow> bool" where
  "stored task F = (case adapter_call task 0 of
     Inr v \<Rightarrow> ft_result F = v \<and> ft_exception F = None | Inl x \<Rightarrow> ft_exception F = Some (caught x))"

text \<open>A thread that runs the task, until it has released the waiting threads.\<close>

fun active :: "'v pc \<Rightarrow> bool" where
  "active Run_Runner = True"
| "active Run_Check = True"
| "active Run_Call = True"
| "active (Set v k) = True"
| "active (Set_Cas s v k) = True"
| "active (Store v k) = True"
| "active (Set_Exception x k) = True"
| "active (Set_Exception_Cas s x k) = True"
| "active (Store_Exception x k) = True"
| "active (Release k) = True"
| "active (Release_Done k) = (k = Void)"
| "active _ = False"

abbreviation storing :: "'v pc \<Rightarrow> bool" where
  "storing p \<equiv> (\<exists>v k. p = Store v k) \<or> (\<exists>x k. p = Store_Exception x k)"

text \<open>Unless the task was cancelled, the thread that runs it is the runner.\<close>

definition owns :: "'v future \<Rightarrow> nat \<Rightarrow> bool" where
  "owns F t \<longleftrightarrow> ft_state F = RUNNING \<and> ft_runner F = Some t \<or> ft_state F = CANCELLED"

definition thrown_by :: "'v adapter \<Rightarrow> exn \<Rightarrow> bool" where
  "thrown_by task x \<longleftrightarrow> (\<exists>e. adapter_call task 0 = Inl e \<and> x = caught e)"

text \<open>What is known of the shared members while a thread is at a place.\<close>

fun thread_ok :: "'v adapter \<Rightarrow> 'v future \<Rightarrow> nat \<Rightarrow> 'v pc \<Rightarrow> bool" where
  "thread_ok task F t Run_Runner = (ft_calls F = 0 \<and> (ft_state F = RUNNING \<or> ft_state F = CANCELLED))"
| "thread_ok task F t Run_Check = (ft_calls F = 0 \<and> owns F t)"
| "thread_ok task F t Run_Call = (ft_calls F = 0 \<and> owns F t)"
| "thread_ok task F t (Set v k) = (k = Void \<and> ft_calls F = 1 \<and> adapter_call task 0 = Inr v \<and> owns F t)"
| "thread_ok task F t (Set_Cas s v k) = (s = RUNNING \<and> k = Void \<and> ft_calls F = 1 \<and> adapter_call task 0 = Inr v \<and> owns F t)"
| "thread_ok task F t (Store v k) =
     (k = Void \<and> ft_calls F = 1 \<and> adapter_call task 0 = Inr v \<and> ft_state F = RAN \<and> ft_runner F = Some t)"
| "thread_ok task F t (Set_Exception x k) = (k = Void \<and> ft_calls F = 1 \<and> thrown_by task x \<and> owns F t)"
| "thread_ok task F t (Set_Exception_Cas s x k) = (s = RUNNING \<and> k = Void \<and> ft_calls F = 1 \<and> thrown_by task x \<and> owns F t)"
| "thread_ok task F t (Store_Exception x k) = (k = Void \<and> ft_calls F = 1 \<and> thrown_by task x \<and> ft_state F = RAN \<and> ft_runner F = Some t)"
| "thread_ok task F t (Release k) = (k = Void \<and> ft_state F = CANCELLED)"
| "thread_ok task F t (Release_Done k) =
     (k = Void \<and> ft_calls F = 1 \<and> ft_state F = RAN \<and> stored task F \<and> ft_runner F = Some t \<or> k = Answer True \<and> ft_state F = CANCELLED)"
| "thread_ok task F t (Done_Hook k) = ((k = Void \<or> k = Answer True) \<and> ranOrCancelled (ft_state F))"
| "thread_ok task F t (Cancel_Cas s b) = (\<not> ranOrCancelled s)"
| "thread_ok task F t (Cancel_Runner b) = (ft_state F = CANCELLED)"
| "thread_ok task F t (Interrupt r) = (ft_state F = CANCELLED)"
| "thread_ok task F t (Get_Runner timed) = ranOrCancelled (ft_state F)"
| "thread_ok task F t Get_Cancelled = (ft_state F = CANCELLED \<or> ft_state F = RAN \<and> stored task F)"
| "thread_ok task F t Get_Exception = (ft_state F = RAN \<and> stored task F)"
| "thread_ok task F t Get_Result = (ft_state F = RAN \<and> stored task F \<and> ft_exception F = None)"
| "thread_ok task F t (Finished (Result v)) = (ft_state F = RAN \<and> adapter_call task 0 = Inr v)"
| "thread_ok task F t (Finished (Execution x)) = (ft_state F = RAN \<and> thrown_by task x)"
| "thread_ok task F t (Finished Cancellation) = (ft_state F = CANCELLED)"
| "thread_ok task F t Reset = False"
| "thread_ok task F t Reset_Runner = False"
| "thread_ok task F t Reset_Check = False"
| "thread_ok task F t Reset_Call = False"
| "thread_ok task F t Reset_Clear = False"
| "thread_ok task F t Reset_Cas = False"
| "thread_ok task F t _ = True"

definition future_ok :: "'v adapter \<Rightarrow> 'v tasks \<Rightarrow> bool" where
  "future_ok task M \<longleftrightarrow>
     (\<forall>t. thread_ok task (future M) t (pcs M t)) \<and> (\<forall>t u. active (pcs M t) \<and> active (pcs M u) \<longrightarrow> t = u)
   \<and> (ft_state (future M) = READY \<longrightarrow> ft_calls (future M) = 0 \<and> (\<forall>t. \<not> active (pcs M t)))
   \<and> (ft_state (future M) = RUNNING \<longrightarrow> (\<exists>t. active (pcs M t)))
   \<and> (\<forall>t. ft_runner (future M) = Some t \<longrightarrow> active (pcs M t))
   \<and> (ft_state (future M) = RAN \<longrightarrow> ft_calls (future M) = 1 \<and> (stored task (future M) \<or> (\<exists>t. storing (pcs M t))))
   \<and> (\<forall>x. ft_exception (future M) = Some x \<longrightarrow> thrown_by task x) \<and> ft_calls (future M) \<le> 1"

lemma stored_exception: "stored task F \<Longrightarrow> ft_exception F = Some x \<Longrightarrow> thrown_by task x"
  by (auto simp: stored_def thrown_by_def split: sum.splits)

lemma stored_result: "stored task F \<Longrightarrow> ft_exception F = None \<Longrightarrow> adapter_call task 0 = Inr (ft_result F)"
  by (auto simp: stored_def split: sum.splits)

text \<open>The final states are kept, and so is what is stored.\<close>

definition settled_frame :: "'v adapter \<Rightarrow> 'v future \<Rightarrow> 'v future \<Rightarrow> bool" where
  "settled_frame task F F' \<longleftrightarrow> (ft_state F = CANCELLED \<longrightarrow> ft_state F' = CANCELLED) \<and> (ft_state F = RAN \<longrightarrow> ft_state F' = RAN)
     \<and> (stored task F \<and> ft_state F = RAN \<longrightarrow> stored task F' \<and> ft_exception F' = ft_exception F)"

lemma step_settled:
  assumes "task_step task t late F p = Some (F', p')" and "thread_ok task F t p"
  shows "settled_frame task F F'"
  using assms by (cases p)
    (auto simp: settled_frame_def cas_def tryReleaseShared_def stored_def thrown_by_def split: if_splits option.splits sum.splits)

lemma inactive_ok: "\<not> active p \<Longrightarrow> thread_ok task F u p \<Longrightarrow> settled_frame task F F' \<Longrightarrow> thread_ok task F' u p"
  by (cases "(task, F, u, p)" rule: thread_ok.cases) (auto simp: settled_frame_def)

text \<open>What a thread that does not run the task changes.\<close>

lemma inactive_step:
  assumes "task_step task t late F p = Some (F', p')" and "thread_ok task F t p" and "\<not> active p" and "ft_state F \<noteq> READY"
  shows "ft_calls F' = ft_calls F \<and> ft_result F' = ft_result F \<and> ft_exception F' = ft_exception F \<and> \<not> active p'
     \<and> (ft_state F' = ft_state F \<and> ft_runner F' = ft_runner F \<or> ft_state F' = CANCELLED \<and> ft_state F \<noteq> RAN)"
  using assms by (cases p) (auto simp: cas_def tryReleaseShared_def split: if_splits option.splits)

lemma active_ok:
  assumes "active p" and "thread_ok task F u p"
    and "ft_calls F' = ft_calls F \<and> ft_result F' = ft_result F \<and> ft_exception F' = ft_exception F
     \<and> (ft_state F' = ft_state F \<and> ft_runner F' = ft_runner F \<or> ft_state F' = CANCELLED \<and> ft_state F \<noteq> RAN)"
  shows "thread_ok task F' u p"
  using assms by (cases "(task, F, u, p)" rule: thread_ok.cases) (auto simp: owns_def stored_def split: if_splits sum.splits)

text \<open>The place a thread task_moves to.\<close>

lemma stored_update [simp]:
  "stored task (F\<lparr>ft_state := s\<rparr>) = stored task F" "stored task (F\<lparr>ft_runner := r\<rparr>) = stored task F"
  "stored task (F\<lparr>ft_calls := n\<rparr>) = stored task F" "stored task (F\<lparr>ft_done := n\<rparr>) = stored task F"
  "stored task (F\<lparr>ft_interrupted := l\<rparr>) = stored task F"
  by (auto simp: stored_def split: sum.splits)

lemma stored_now:
  "adapter_call task 0 = Inr v \<Longrightarrow> \<forall>x. ft_exception F = Some x \<longrightarrow> thrown_by task x \<Longrightarrow> stored task (F\<lparr>ft_result := v\<rparr>)"
  "thrown_by task x \<Longrightarrow> stored task (F\<lparr>ft_exception := Some x\<rparr>)"
  by (cases "ft_exception F") (auto simp: stored_def thrown_by_def)

lemma own_ok:
  assumes "task_step task t late F p = Some (F', p')" and "thread_ok task F t p"
    and "ft_state F = READY \<longrightarrow> ft_calls F = 0 \<and> \<not> active p"
    and "\<And>timed. p = Get_Runner timed \<Longrightarrow> ft_runner F = None \<Longrightarrow> ft_state F = RAN \<Longrightarrow> stored task F"
    and "\<forall>x. ft_exception F = Some x \<longrightarrow> thrown_by task x"
  shows "thread_ok task F' t p'"
proof (cases p)
  case Run_Call
  then show ?thesis using assms(1,2) by (auto simp: thrown_by_def owns_def split: sum.splits)
next
  case (Store v k)
  then show ?thesis using assms(1,2) stored_now(1) [OF _ assms(5)] by auto
next
  case (Store_Exception x k)
  then show ?thesis using assms(1,2) stored_now(2) by auto
next
  case Get_Exception
  then show ?thesis using assms(1,2) stored_exception by (auto split: option.splits)
next
  case Get_Result
  then show ?thesis using assms(1,2) stored_result by auto
next
  case (Get_Runner timed)
  then show ?thesis using assms(1,2,4) by auto
next
  case (Release_Done k)
  then show ?thesis using assms(1,2) by (cases "k = Void") (auto simp: tryReleaseShared_def)
qed (use assms(1-3) in \<open>auto simp: cas_def tryReleaseShared_def owns_def split: if_splits option.splits\<close>)

text \<open>How a step changes the parts of the invariant that are about all threads.\<close>

lemma step_active:
  assumes "task_step task t late F p = Some (F', p')" and "thread_ok task F t p" and "ft_state F = READY \<longrightarrow> ft_calls F = 0 \<and> \<not> active p"
  shows "active p' \<Longrightarrow> active p \<or> ft_state F = READY"
    and "ft_state F' = READY \<Longrightarrow> ft_state F = READY \<and> ft_calls F' = 0 \<and> \<not> active p'"
    and "ft_state F' = RUNNING \<Longrightarrow> active p' \<or> \<not> active p \<and> ft_state F = RUNNING"
    and "ft_runner F' = Some u \<Longrightarrow> u = t \<and> active p' \<or> ft_runner F = Some u \<and> (u = t \<longrightarrow> active p \<longrightarrow> active p')"
    and "ft_state F' = RAN \<Longrightarrow> storing p' \<or> ft_state F = RAN \<and> ft_calls F' = ft_calls F \<and> (\<not> storing p \<and> ft_result F' = ft_result F \<and> ft_exception F' = ft_exception F \<or> storing p)"
    and "ft_calls F' = ft_calls F \<or> ft_calls F = 0 \<and> ft_calls F' = 1"
proof -
  note R = cas_def tryReleaseShared_def owns_def
  show "active p' \<Longrightarrow> active p \<or> ft_state F = READY"
    using assms by (cases p) (auto simp: R split: if_splits option.splits sum.splits)
  show "ft_state F' = READY \<Longrightarrow> ft_state F = READY \<and> ft_calls F' = 0 \<and> \<not> active p'"
    using assms by (cases p) (auto simp: R split: if_splits option.splits sum.splits)
  show "ft_state F' = RUNNING \<Longrightarrow> active p' \<or> \<not> active p \<and> ft_state F = RUNNING"
    using assms by (cases p) (auto simp: R split: if_splits option.splits sum.splits)
  show "ft_runner F' = Some u \<Longrightarrow> u = t \<and> active p' \<or> ft_runner F = Some u \<and> (u = t \<longrightarrow> active p \<longrightarrow> active p')"
    using assms by (cases p) (auto simp: R split: if_splits option.splits sum.splits)
  show "ft_state F' = RAN \<Longrightarrow> storing p' \<or> ft_state F = RAN \<and> ft_calls F' = ft_calls F \<and> (\<not> storing p \<and> ft_result F' = ft_result F \<and> ft_exception F' = ft_exception F \<or> storing p)"
    using assms by (cases p) (auto simp: R split: if_splits option.splits sum.splits)
  show "ft_calls F' = ft_calls F \<or> ft_calls F = 0 \<and> ft_calls F' = 1"
    using assms by (cases p) (auto simp: R split: if_splits option.splits sum.splits)
qed

lemma step_exception:
  "task_step task t late F p = Some (F', p') \<Longrightarrow> thread_ok task F t p \<Longrightarrow> \<forall>x. ft_exception F = Some x \<longrightarrow> thrown_by task x \<Longrightarrow>
   \<forall>x. ft_exception F' = Some x \<longrightarrow> thrown_by task x"
  by (cases p) (auto simp: cas_def tryReleaseShared_def split: if_splits option.splits)

lemma step_storing:
  "task_step task t late F p = Some (F', p') \<Longrightarrow> thread_ok task F t p \<Longrightarrow> storing p \<Longrightarrow> p' = Release_Done Void"
  by (cases p) auto

lemma future_ok_facts:
  assumes "future_ok task M"
  shows "thread_ok task (future M) t (pcs M t)" and "active (pcs M t) \<Longrightarrow> active (pcs M u) \<Longrightarrow> t = u"
    and "ft_state (future M) = READY \<longrightarrow> ft_calls (future M) = 0 \<and> \<not> active (pcs M t)"
    and "ft_runner (future M) = None \<Longrightarrow> ft_state (future M) = RAN \<Longrightarrow> stored task (future M)"
    and "\<forall>x. ft_exception (future M) = Some x \<longrightarrow> thrown_by task x"
proof -
  show ok: "thread_ok task (future M) t (pcs M t)" for t using assms by (simp add: future_ok_def)
  show "active (pcs M t) \<Longrightarrow> active (pcs M u) \<Longrightarrow> t = u" and "ft_state (future M) = READY \<longrightarrow> ft_calls (future M) = 0 \<and> \<not> active (pcs M t)"
    and "\<forall>x. ft_exception (future M) = Some x \<longrightarrow> thrown_by task x" using assms by (simp_all add: future_ok_def)
  have "\<not> storing (pcs M u)" if "ft_runner (future M) = None" for u using ok [of u] that by auto
  then show "ft_runner (future M) = None \<Longrightarrow> ft_state (future M) = RAN \<Longrightarrow> stored task (future M)"
    using assms unfolding future_ok_def by blast
qed

lemma future_ok_move:
  assumes "future_ok task M" and "move task e M = Some M'"
  shows "future_ok task M'"
proof -
  obtain t late F p where s: "task_step task t late (future M) (pcs M t) = Some (F, p)" and M': "M' = \<lparr>future = F, pcs = (pcs M)(t := p)\<rparr>"
    using assms(2) by (rule move_cases)
  note facts = future_ok_facts [OF assms(1)]
  note active = step_active [OF s facts(1,3)]
  have frame: "settled_frame task (future M) F" by (rule step_settled [OF s facts(1)])
  have own: "thread_ok task F t p" by (rule own_ok [OF s facts(1,3) _ facts(5)]) (rule facts(4))
  have other: "thread_ok task F u (pcs M u)" if "u \<noteq> t" for u
  proof (cases "active (pcs M u)")
    case True
    then have "\<not> active (pcs M t)" "ft_state (future M) \<noteq> READY" using that facts(2,3) by blast+
    from inactive_step [OF s facts(1) this] show ?thesis using active_ok [OF True facts(1)] by blast
  qed (rule inactive_ok [OF _ facts(1) frame])
  have pc: "pcs M' u = (if u = t then p else pcs M u)" "future M' = F" for u by (simp_all add: M')
  have 1: "\<forall>u. thread_ok task F u (pcs M' u)" using own other by (simp add: pc)
  have 2: "\<forall>u v. active (pcs M' u) \<and> active (pcs M' v) \<longrightarrow> u = v"
    using active(1) facts(2,3) by (auto simp: pc)
  have 3: "ft_state F = READY \<longrightarrow> ft_calls F = 0 \<and> (\<forall>u. \<not> active (pcs M' u))" using active(2) facts(3) by (auto simp: pc)
  have 4: "ft_state F = RUNNING \<longrightarrow> (\<exists>u. active (pcs M' u))"
  proof
    assume "ft_state F = RUNNING"
    from active(3) [OF this] show "\<exists>u. active (pcs M' u)"
    proof
      assume a: "\<not> active (pcs M t) \<and> ft_state (future M) = RUNNING"
      then obtain u where "active (pcs M u)" using assms(1) unfolding future_ok_def by blast
      then have "active (pcs M' u)" using a by (auto simp: pc)
      then show ?thesis ..
    qed (use pc in \<open>metis\<close>)
  qed
  have 5: "\<forall>u. ft_runner F = Some u \<longrightarrow> active (pcs M' u)"
    using active(4) assms(1) unfolding future_ok_def by (auto simp: pc)
  have 6: "ft_state F = RAN \<longrightarrow> ft_calls F = 1 \<and> (stored task F \<or> (\<exists>u. storing (pcs M' u)))"
  proof
    assume ran: "ft_state F = RAN"
    show "ft_calls F = 1 \<and> (stored task F \<or> (\<exists>u. storing (pcs M' u)))"
    proof (cases "storing p")
      case True
      then have "ft_calls F = 1" using own by auto
      moreover have "storing (pcs M' t)" using True by (simp add: pc)
      ultimately show ?thesis by blast
    next
      case False
      then have old: "ft_state (future M) = RAN" "ft_calls F = ft_calls (future M)" using active(5) [OF ran] by auto
      then have c: "ft_calls F = 1" "stored task (future M) \<or> (\<exists>u. storing (pcs M u))" using assms(1) by (simp_all add: future_ok_def)
      from c(2) show ?thesis
      proof
        assume "stored task (future M)"
        then show ?thesis using frame old(1) c(1) by (simp add: settled_frame_def)
      next
        assume "\<exists>u. storing (pcs M u)"
        then obtain u where u: "storing (pcs M u)" by blast
        show ?thesis
        proof (cases "u = t")
          case True
          then have "p = Release_Done Void" using step_storing [OF s facts(1)] u by blast
          then show ?thesis using own c(1) by simp
        next
          case False
          then have "storing (pcs M' u)" using u by (simp add: pc)
          then show ?thesis using c(1) by blast
        qed
      qed
    qed
  qed
  have 7: "\<forall>x. ft_exception F = Some x \<longrightarrow> thrown_by task x" by (rule step_exception [OF s facts(1,5)])
  have 8: "ft_calls F \<le> 1" using active(6) assms(1) by (auto simp: future_ok_def)
  show ?thesis unfolding future_ok_def pc(2) using 1 2 3 4 5 6 7 8 by (intro conjI)
qed

text \<open>The operations of threads that leave it to \<^verbatim>\<open>run\<close> to set the result.\<close>

fun user_operation :: "'v pc \<Rightarrow> bool" where
  "user_operation Run = True"
| "user_operation (Cancel b) = True"
| "user_operation (Get_State timed) = True"
| "user_operation Is_Done = True"
| "user_operation Is_Cancelled = True"
| "user_operation (Finished k) = (k = Void)"
| "user_operation _ = False"

lemma user_start: "user_operation p \<Longrightarrow> \<not> active p \<and> thread_ok task F t p"
  by (cases p) auto

lemma future_ok_begin:
  assumes "\<forall>t. user_operation (ops t)"
  shows "future_ok task (begin_tasks d ops)"
proof -
  have "\<not> active (ops t)" "thread_ok task F t (ops t)" for t F using assms user_start by blast+
  then show ?thesis by (simp add: future_ok_def begin_tasks_def ft_sync_def)
qed

interpretation users: step_system "\<lambda>M. \<exists>d ops. (\<forall>t. user_operation (ops t)) \<and> M = begin_tasks d ops" "\<lambda>M M'. \<exists>e. move task e M = Some M'"
    "future_ok task"
  for task
  by standard (auto intro: future_ok_begin dest: future_ok_move)

lemma users_ok:
  assumes "\<forall>t. user_operation (ops t)" and "task_moves task es (begin_tasks d ops) = Some M"
  shows "future_ok task M"
  using users.invar_reachable [OF _ moves_steps [OF assms(2)]] assms(1) by blast

text \<open>
  C37: However many threads run, cancel and wait for a FutureTask, in every interleaving the task is called at most once; a get that
  returns a value returns what that call returned, one that throws an ExecutionException reports what it threw, and one that throws a
  CancellationException was cancelled: no get returns a result that is not stored yet.
\<close>

theorem ft_get_correct:
  assumes "\<forall>t. user_operation (ops t)" and "task_moves task es (begin_tasks d ops) = Some M"
  shows "ft_calls (future M) \<le> 1
     \<and> (\<forall>t v. pcs M t = Finished (Result v) \<longrightarrow> ft_calls (future M) = 1 \<and> adapter_call task 0 = Inr v)
     \<and> (\<forall>t x. pcs M t = Finished (Execution x) \<longrightarrow> ft_calls (future M) = 1 \<and> (\<exists>e. adapter_call task 0 = Inl e \<and> x = caught e))
     \<and> (\<forall>t. pcs M t = Finished Cancellation \<longrightarrow> ft_state (future M) = CANCELLED)"
proof -
  note ok = users_ok [OF assms]
  have calls: "ft_calls (future M) \<le> 1" "ft_state (future M) = RAN \<longrightarrow> ft_calls (future M) = 1" using ok by (simp_all add: future_ok_def)
  have "ft_calls (future M) = 1 \<and> adapter_call task 0 = Inr v" if "pcs M t = Finished (Result v)" for t v
    using future_ok_facts(1) [OF ok, of t] that calls(2) by simp
  moreover have "ft_calls (future M) = 1 \<and> (\<exists>e. adapter_call task 0 = Inl e \<and> x = caught e)" if "pcs M t = Finished (Execution x)" for t x
    using future_ok_facts(1) [OF ok, of t] that calls(2) by (simp add: thrown_by_def)
  moreover have "ft_state (future M) = CANCELLED" if "pcs M t = Finished Cancellation" for t
    using future_ok_facts(1) [OF ok, of t] that by simp
  ultimately show ?thesis using calls(1) by blast
qed

definition two_threads :: "'v pc \<Rightarrow> 'v pc \<Rightarrow> nat \<Rightarrow> 'v pc" where
  "two_threads p q t = (if t = 0 then p else if t = 1 then q else Finished Void)"

lemmas run_steps = move_def begin_tasks_def ft_sync_def two_threads_def cas_def tryReleaseShared_def

theorem ft_get_correct_witness:
  "\<exists>M. task_moves (Callable_Task (\<lambda>i. Inr (7 :: int))) (replicate 8 (0, False) @ replicate 5 (1, False)) (begin_tasks 0 (two_threads Run (Get_State False))) = Some M
     \<and> pcs M 1 = Finished (Result 7) \<and> ft_calls (future M) \<le> 1"
proof -
  let ?run = "task_moves (Callable_Task (\<lambda>i. Inr (7 :: int))) (replicate 8 (0, False) @ replicate 5 (1, False)) (begin_tasks 0 (two_threads Run (Get_State False)))"
  have "\<exists>M. ?run = Some M \<and> pcs M 1 = Finished (Result 7)" by (simp add: run_steps numeral_eq_Suc)
  then obtain M where M: "?run = Some M" "pcs M 1 = Finished (Result 7)" by blast
  have "\<forall>t. user_operation (two_threads Run (Get_State False) t)" by (simp add: two_threads_def)
  from ft_get_correct [OF this M(1)] show ?thesis using M by blast
qed

text \<open>
  C38: The hook done() is called at most once, whatever operations the threads call, set, setException and runAndReset included; once
  the task has run or was cancelled and all operations have returned, it was called exactly once.
\<close>

theorem ft_done_once:
  assumes "\<forall>t. operation (ops t)" and "task_moves task es (begin_tasks d ops) = Some M"
  shows "ft_done (future M) \<le> 1
     \<and> ((\<forall>t. \<exists>k. pcs M t = Finished k) \<longrightarrow> ft_done (future M) = (if ranOrCancelled (ft_state (future M)) then 1 else 0))"
proof -
  have "hook_once M" using hook.invar_reachable [OF _ moves_steps [OF assms(2)]] assms(1) by blast
  moreover have "\<not> closing (pcs M t)" if "\<forall>t. \<exists>k. pcs M t = Finished k" for t using that by (metis closing.simps)
  ultimately show ?thesis unfolding hook_once_def by (auto split: if_splits)
qed

theorem ft_done_once_witness:
  "\<exists>M. task_moves (Callable_Task (\<lambda>i. Inr (7 :: int))) (replicate 5 (0, False) @ replicate 2 (1, False) @ replicate 3 (0, False) @ replicate 2 (1, False))
       (begin_tasks 0 (two_threads Run (Cancel False))) = Some M \<and> ft_done (future M) \<le> 1"
proof -
  let ?run = "task_moves (Callable_Task (\<lambda>i. Inr (7 :: int))) (replicate 5 (0, False) @ replicate 2 (1, False) @ replicate 3 (0, False) @ replicate 2 (1, False))
       (begin_tasks 0 (two_threads Run (Cancel False)))"
  have "\<exists>M. ?run = Some M" by (simp add: run_steps numeral_eq_Suc)
  then obtain M where M: "?run = Some M" ..
  have "\<forall>t. operation (two_threads Run (Cancel False) t)" by (simp add: two_threads_def)
  from ft_done_once [OF this M] show ?thesis using M by blast
qed

section \<open>Waiting threads go on\<close>

text \<open>A waiting get returns when the state is final and there is no runner.\<close>

lemma get_returns:
  assumes "ranOrCancelled (ft_state (future M))" and "ft_runner (future M) = None" and "pcs M t = Get_State timed"
  shows "\<exists>n M' k. task_moves task (replicate n (t, False)) M = Some M' \<and> pcs M' t = Finished k"
proof -
  have last: "\<exists>n M' k. task_moves task (replicate n (t, False)) N = Some M' \<and> pcs M' t = Finished k" if "pcs N t = Get_Exception" "future N = future M" for N
  proof (cases "ft_exception (future M)")
    case None
    then show ?thesis using that by (intro exI [of _ 2]) (simp add: numeral_eq_Suc move_def)
  next
    case (Some x)
    then show ?thesis using that by (intro exI [of _ 1]) (simp add: move_def)
  qed
  show ?thesis
  proof (cases "ft_state (future M) = CANCELLED")
    case True
    then show ?thesis using assms by (intro exI [of _ 3]) (auto simp: numeral_eq_Suc move_def)
  next
    case False
    let ?L = "\<lparr>future = future M, pcs = (pcs M)(t := Get_Exception)\<rparr>"
    obtain n M' k where n: "task_moves task (replicate n (t, False)) ?L = Some M'" "pcs M' t = Finished k" using last [of ?L] by auto
    then have "task_moves task (replicate (Suc (Suc (Suc n))) (t, False)) M = Some M'" using assms False by (auto simp: move_def)
    then show ?thesis using n(2) by blast
  qed
qed



text \<open>
  \<^verbatim>\<open>set\<close> is public.  Without a runner the state is final before the result is stored, and a get in between returns the value the
  result was constructed with.
\<close>

lemma ft_set_race:
  "\<exists>M. task_moves (Callable_Task (\<lambda>i. Inr (7 :: int))) (replicate 2 (0, False) @ replicate 5 (1, False)) (begin_tasks 0 (two_threads (Set 5 Void) (Get_State False))) = Some M
     \<and> pcs M 1 = Finished (Result 0)"
  by (simp add: run_steps numeral_eq_Suc)

end
