(* ===== verification/Shared_Pointer.thy ===== *)
theory Shared_Pointer
  imports AMQ_Prelude
begin

text \<open>
  \<^verbatim>\<open>Pointer\<close> (Pointer.h) and \<^verbatim>\<open>AtomicRefCounter\<close> (AtomicRefCounter.h): pointers that share the ownership of an object through a counter on
  the heap.  The \<^verbatim>\<open>Pointer\<close> objects of a program are named by numbers; a temporary of a function is a pair outside of them.
\<close>

section \<open>State\<close>

text \<open>
  A \<^verbatim>\<open>Pointer\<close> has the address of its object, or NULL, and the address of its counter.  \<open>pw_objects\<close> are the objects that were
  created with \<^verbatim>\<open>new\<close> and not deleted.
\<close>

type_synonym pointer = "addr option \<times> addr"

record pointers =
  pw_handles :: "nat \<Rightarrow> pointer option"
  pw_counters :: "addr \<Rightarrow> int option"
  pw_fresh :: addr
  pw_objects :: "addr set"

definition pw_empty :: pointers where
  "pw_empty = \<lparr>pw_handles = (\<lambda>_. None), pw_counters = (\<lambda>_. None), pw_fresh = 0, pw_objects = {}\<rparr>"

section \<open>The counter\<close>

definition counter_new :: "pointers \<Rightarrow> addr \<times> pointers" where
  "counter_new w = (pw_fresh w, w\<lparr>pw_counters := (pw_counters w)(pw_fresh w \<mapsto> 1), pw_fresh := Suc (pw_fresh w)\<rparr>)"

definition counter_copy :: "addr \<Rightarrow> pointers \<Rightarrow> unit outcome \<times> pointers" where
  "counter_copy c w =
     (case pw_counters w c of
        None \<Rightarrow> (Undefined UseAfterFree, w)
      | Some n \<Rightarrow> (Ret (), w\<lparr>pw_counters := (pw_counters w)(c \<mapsto> n + 1)\<rparr>))"

definition counter_release :: "addr \<Rightarrow> pointers \<Rightarrow> bool outcome \<times> pointers" where
  "counter_release c w =
     (case pw_counters w c of
        None \<Rightarrow> (Undefined UseAfterFree, w)
      | Some n \<Rightarrow>
          if n - 1 = 0 then (Ret True, w\<lparr>pw_counters := (pw_counters w)(c := None)\<rparr>)
          else (Ret False, w\<lparr>pw_counters := (pw_counters w)(c \<mapsto> n - 1)\<rparr>))"

section \<open>Pointers\<close>

definition onDeleteFunc :: "addr option \<Rightarrow> pointers \<Rightarrow> unit outcome \<times> pointers" where
  "onDeleteFunc v w =
     (case v of
        None \<Rightarrow> (Ret (), w)
      | Some a \<Rightarrow> if a \<in> pw_objects w then (Ret (), w\<lparr>pw_objects := pw_objects w - {a}\<rparr>) else (Undefined DoubleDelete, w))"

text \<open>The body of the destructor.\<close>

definition destruct :: "pointer \<Rightarrow> pointers \<Rightarrow> unit outcome \<times> pointers" where
  "destruct p w = and_then (counter_release (snd p) w) (\<lambda>b w. if b then onDeleteFunc (fst p) w else (Ret (), w))"

text \<open>The constructors, before the object has a name.\<close>

definition construct :: "addr option \<Rightarrow> pointers \<Rightarrow> pointer outcome \<times> pointers" where
  "construct v w = (case counter_new w of (c, w) \<Rightarrow> (Ret (v, c), w))"

definition construct_copy :: "pointer \<Rightarrow> pointers \<Rightarrow> pointer outcome \<times> pointers" where
  "construct_copy p w = and_then (counter_copy (snd p) w) (\<lambda>_ w. (Ret p, w))"

definition class_cast :: exn where
  "class_cast = OtherException ''Failed to cast source pointer of type %s to this type: %s.''"

text \<open>\<open>castable\<close>: what \<^verbatim>\<open>dynamic_cast\<close> finds for the object.\<close>

definition construct_cast :: "bool \<Rightarrow> pointer \<Rightarrow> pointers \<Rightarrow> pointer outcome \<times> pointers" where
  "construct_cast castable p w =
     and_then (counter_copy (snd p) w) (\<lambda>_ w.
       if fst p = None \<or> \<not> castable then
         and_then (counter_release (snd p) w) (\<lambda>_ w. (Throw class_cast, w))
       else (Ret p, w))"

definition set_handle :: "nat \<Rightarrow> pointer option \<Rightarrow> pointers \<Rightarrow> pointers" where
  "set_handle h p w = w\<lparr>pw_handles := (pw_handles w)(h := p)\<rparr>"

text \<open>The operations on named pointers.  A call for a pointer that does not exist is not made.\<close>

definition ptr_new :: "nat \<Rightarrow> addr option \<Rightarrow> pointers \<Rightarrow> unit outcome \<times> pointers" where
  "ptr_new h v w = and_then (construct v w) (\<lambda>p w. (Ret (), set_handle h (Some p) w))"

definition ptr_copy :: "nat \<Rightarrow> nat \<Rightarrow> pointers \<Rightarrow> unit outcome \<times> pointers" where
  "ptr_copy h src w = and_then (construct_copy (the (pw_handles w src)) w) (\<lambda>p w. (Ret (), set_handle h (Some p) w))"

definition ptr_cast :: "bool \<Rightarrow> nat \<Rightarrow> nat \<Rightarrow> pointers \<Rightarrow> unit outcome \<times> pointers" where
  "ptr_cast castable h src w =
     and_then (construct_cast castable (the (pw_handles w src)) w) (\<lambda>p w. (Ret (), set_handle h (Some p) w))"

definition ptr_destroy :: "nat \<Rightarrow> pointers \<Rightarrow> unit outcome \<times> pointers" where
  "ptr_destroy h w = destruct (the (pw_handles w h)) (set_handle h None w)"

definition ptr_swap :: "nat \<Rightarrow> nat \<Rightarrow> pointers \<Rightarrow> unit outcome \<times> pointers" where
  "ptr_swap h k w =
     (let p = pw_handles w h; q = pw_handles w k in (Ret (), set_handle k p (set_handle h q w)))"

text \<open>A temporary takes the place of the pointer, whose old contents are then destructed.\<close>

definition swap_with :: "nat \<Rightarrow> pointer \<Rightarrow> pointers \<Rightarrow> unit outcome \<times> pointers" where
  "swap_with h temp w = destruct (the (pw_handles w h)) (set_handle h (Some temp) w)"

definition ptr_reset :: "nat \<Rightarrow> addr option \<Rightarrow> pointers \<Rightarrow> unit outcome \<times> pointers" where
  "ptr_reset h v w = and_then (construct v w) (swap_with h)"

definition ptr_assign :: "nat \<Rightarrow> nat \<Rightarrow> pointers \<Rightarrow> unit outcome \<times> pointers" where
  "ptr_assign h right w =
     (if h = right then (Ret (), w) else and_then (construct_copy (the (pw_handles w right)) w) (swap_with h))"

definition ptr_release :: "nat \<Rightarrow> pointers \<Rightarrow> addr option \<times> pointers" where
  "ptr_release h w = (case the (pw_handles w h) of (v, c) \<Rightarrow> (v, set_handle h (Some (None, c)) w))"

definition ptr_get :: "nat \<Rightarrow> pointers \<Rightarrow> addr option" where
  "ptr_get h w = fst (the (pw_handles w h))"

definition ptr_deref :: "string \<Rightarrow> nat \<Rightarrow> pointers \<Rightarrow> addr outcome" where
  "ptr_deref operator h w =
     (case ptr_get h w of
        None \<Rightarrow> Throw (NullPointerException (''Pointer operator'' @ operator @ '' - Pointee is NULL.''))
      | Some a \<Rightarrow> Ret a)"

definition ptr_not :: "nat \<Rightarrow> pointers \<Rightarrow> bool" where
  "ptr_not h w \<longleftrightarrow> ptr_get h w = None"

definition ptr_equal :: "nat \<Rightarrow> nat \<Rightarrow> pointers \<Rightarrow> bool" where
  "ptr_equal h k w \<longleftrightarrow> ptr_get h w = ptr_get k w"

text \<open>\<^verbatim>\<open>PointerComparator::compare\<close> compares the objects.\<close>

definition ptr_compare :: "(addr \<Rightarrow> addr \<Rightarrow> bool) \<Rightarrow> nat \<Rightarrow> nat \<Rightarrow> pointers \<Rightarrow> int outcome" where
  "ptr_compare lt h k w =
     (case ptr_deref ''&'' h w of
        Ret a \<Rightarrow>
          (case ptr_deref ''&'' k w of
             Ret b \<Rightarrow> Ret (if lt a b then - 1 else if lt b a then 1 else 0)
           | Throw x \<Rightarrow> Throw x
           | Undefined f \<Rightarrow> Undefined f)
      | Throw x \<Rightarrow> Throw x
      | Undefined f \<Rightarrow> Undefined f)"

section \<open>Invariant\<close>

text \<open>\<open>x\<close> is the temporary that exists within a function, if any.\<close>

definition sharers :: "pointers \<Rightarrow> addr \<Rightarrow> nat set" where
  "sharers w c = {h. \<exists>v. pw_handles w h = Some (v, c)}"

definition refs :: "pointers \<Rightarrow> pointer option \<Rightarrow> addr \<Rightarrow> nat" where
  "refs w x c = card (sharers w c) + (case x of Some p \<Rightarrow> if snd p = c then 1 else 0 | None \<Rightarrow> 0)"

definition existing :: "pointers \<Rightarrow> pointer option \<Rightarrow> pointer set" where
  "existing w x = ran (pw_handles w) \<union> set_option x"

text \<open>Pointers share a counter exactly if they share an object.\<close>

definition matched :: "pointer set \<Rightarrow> bool" where
  "matched P \<longleftrightarrow> (\<forall>p \<in> P. \<forall>q \<in> P. snd p = snd q \<longrightarrow> fst p = fst q) \<and> (\<forall>p \<in> P. \<forall>q \<in> P. fst p = fst q \<and> fst p \<noteq> None \<longrightarrow> snd p = snd q)"

definition counted :: "pointers \<Rightarrow> pointer option \<Rightarrow> bool" where
  "counted w x \<longleftrightarrow> (\<forall>c. pw_counters w c = (if refs w x c = 0 then None else Some (int (refs w x c))))"

definition pw_inv :: "pointers \<Rightarrow> pointer option \<Rightarrow> bool" where
  "pw_inv w x \<longleftrightarrow> finite (dom (pw_handles w)) \<and> counted w x \<and> (\<forall>p \<in> existing w x. snd p < pw_fresh w) \<and> matched (existing w x)
     \<and> pw_objects w = {a. \<exists>c. (Some a, c) \<in> existing w x}"

lemma matchedD: "matched P \<Longrightarrow> p \<in> P \<Longrightarrow> q \<in> P \<Longrightarrow> snd p = snd q \<Longrightarrow> fst p = fst q"
  "matched P \<Longrightarrow> p \<in> P \<Longrightarrow> q \<in> P \<Longrightarrow> fst p = fst q \<Longrightarrow> fst p \<noteq> None \<Longrightarrow> snd p = snd q"
  unfolding matched_def by blast+

lemma matched_subset: "matched P \<Longrightarrow> Q \<subseteq> P \<Longrightarrow> matched Q"
  unfolding matched_def by blast

lemma matched_insert:
  assumes "matched P" and "\<And>q. q \<in> P \<Longrightarrow> snd q \<noteq> snd p" and "\<And>q. q \<in> P \<Longrightarrow> fst q \<noteq> fst p \<or> fst p = None"
  shows "matched (insert p P)"
  using assms unfolding matched_def by (metis insert_iff)

lemma countedD: "counted w x \<Longrightarrow> pw_counters w c = (if refs w x c = 0 then None else Some (int (refs w x c)))"
  unfolding counted_def by blast

lemma sharers_finite: "pw_inv w x \<Longrightarrow> finite (sharers w c)"
  unfolding pw_inv_def sharers_def by (elim conjE) (erule rev_finite_subset, auto)

lemma sharers_none: "sharers w c = {} \<longleftrightarrow> (\<forall>p \<in> ran (pw_handles w). snd p \<noteq> c)"
  by (auto simp: sharers_def ran_def)

lemma refs_zero:
  assumes "finite (sharers w c)"
  shows "refs w x c = 0 \<longleftrightarrow> (\<forall>p \<in> existing w x. snd p \<noteq> c)"
proof -
  have "card (sharers w c) = 0 \<longleftrightarrow> (\<forall>p \<in> ran (pw_handles w). snd p \<noteq> c)" using assms sharers_none [of w c] by simp
  then show ?thesis by (cases x) (simp_all add: refs_def existing_def)
qed

lemma pw_inv_empty: "pw_inv pw_empty None"
  by (simp add: pw_inv_def pw_empty_def counted_def matched_def refs_def sharers_def existing_def)

lemma counter_of:
  assumes "pw_inv w x" and "p \<in> existing w x"
  shows "pw_counters w (snd p) = Some (int (refs w x (snd p)))" and "0 < refs w x (snd p)"
proof -
  have "refs w x (snd p) \<noteq> 0" using refs_zero [OF sharers_finite [OF assms(1)]] assms(2) by blast
  then show "0 < refs w x (snd p)" "pw_counters w (snd p) = Some (int (refs w x (snd p)))" using assms(1) countedD [of w x "snd p"] by (simp_all add: pw_inv_def)
qed

section \<open>Effects\<close>

text \<open>Moving a pointer between a name and the temporary changes no counter.\<close>

lemma pw_inv_moved:
  assumes "pw_inv w x" and "\<And>c. refs w' x' c = refs w x c" and "existing w' x' = existing w x" and "finite (dom (pw_handles w'))"
    and "pw_counters w' = pw_counters w" and "pw_fresh w' = pw_fresh w" and "pw_objects w' = pw_objects w"
  shows "pw_inv w' x'"
proof -
  have "counted w' x'" using assms(1) unfolding pw_inv_def counted_def assms(2,5) by blast
  then show ?thesis using assms(1,4) unfolding pw_inv_def assms(3,6,7) by blast
qed

lemma set_handle_fields [simp]:
  "pw_handles (set_handle h p w) = (pw_handles w)(h := p)" "pw_counters (set_handle h p w) = pw_counters w"
  "pw_fresh (set_handle h p w) = pw_fresh w" "pw_objects (set_handle h p w) = pw_objects w"
  by (simp_all add: set_handle_def)

lemma set_handle_finite: "pw_inv w x \<Longrightarrow> finite (dom (pw_handles (set_handle h p w)))"
  by (cases p) (simp_all add: pw_inv_def)

lemma sharers_set:
  "sharers (set_handle h (Some p) w) c = (if snd p = c then insert h (sharers w c) else sharers w c - {h})"
  "sharers (set_handle h None w) c = sharers w c - {h}"
  by (cases p) (auto simp: sharers_def)

lemma sharers_handle: "pw_handles w h = Some q \<Longrightarrow> h \<in> sharers w c \<longleftrightarrow> snd q = c" "pw_handles w h = None \<Longrightarrow> h \<notin> sharers w c"
  by (cases q) (auto simp: sharers_def)

lemma ran_put: "set_option (m h) \<union> ran (m(h \<mapsto> p)) = insert p (ran m)"
proof (rule set_eqI)
  fix r
  have "r \<in> ran (m(h \<mapsto> p)) \<longleftrightarrow> r = p \<or> (\<exists>k. k \<noteq> h \<and> m k = Some r)" by (auto simp: ran_def)
  moreover have "r \<in> ran m \<longleftrightarrow> m h = Some r \<or> (\<exists>k. k \<noteq> h \<and> m k = Some r)" by (auto simp: ran_def)
  moreover have "r \<in> set_option (m h) \<longleftrightarrow> m h = Some r" by (cases "m h") auto
  ultimately show "r \<in> set_option (m h) \<union> ran (m(h \<mapsto> p)) \<longleftrightarrow> r \<in> insert p (ran m)" by blast
qed

lemma ran_take: "set_option (m h) \<union> ran (m(h := None)) = ran m"
proof (rule set_eqI)
  fix r
  have "r \<in> ran (m(h := None)) \<longleftrightarrow> (\<exists>k. k \<noteq> h \<and> m k = Some r)" by (auto simp: ran_def)
  moreover have "r \<in> ran m \<longleftrightarrow> m h = Some r \<or> (\<exists>k. k \<noteq> h \<and> m k = Some r)" by (auto simp: ran_def)
  moreover have "r \<in> set_option (m h) \<longleftrightarrow> m h = Some r" by (cases "m h") auto
  ultimately show "r \<in> set_option (m h) \<union> ran (m(h := None)) \<longleftrightarrow> r \<in> ran m" by blast
qed

lemma store_ok:
  assumes "pw_inv w (Some p)" and "pw_handles w h = None"
  shows "pw_inv (set_handle h (Some p) w) None"
proof (rule pw_inv_moved [OF assms(1)])
  show "refs (set_handle h (Some p) w) None c = refs w (Some p) c" for c
    using sharers_finite [OF assms(1), of c] sharers_handle(2) [OF assms(2)] by (simp add: refs_def sharers_set)
  show "existing (set_handle h (Some p) w) None = existing w (Some p)"
    using ran_put [of "pw_handles w" h p] assms(2) by (simp add: existing_def)
qed (rule set_handle_finite [OF assms(1)], simp_all)

lemma exchange_ok:
  assumes "pw_inv w (Some p)" and "pw_handles w h = Some q"
  shows "pw_inv (set_handle h (Some p) w) (Some q)"
proof (rule pw_inv_moved [OF assms(1)])
  show "refs (set_handle h (Some p) w) (Some q) c = refs w (Some p) c" for c
    using sharers_finite [OF assms(1), of c] sharers_handle(1) [OF assms(2), of c] card_Suc_Diff1 [of "sharers w c" h]
    by (auto simp: refs_def sharers_set insert_absorb)
  show "existing (set_handle h (Some p) w) (Some q) = existing w (Some p)"
    using ran_put [of "pw_handles w" h p] assms(2) by (simp add: existing_def)
qed (rule set_handle_finite [OF assms(1)], simp_all)

lemma take_ok:
  assumes "pw_inv w None" and "pw_handles w h = Some q"
  shows "pw_inv (set_handle h None w) (Some q)"
proof (rule pw_inv_moved [OF assms(1)])
  show "refs (set_handle h None w) (Some q) c = refs w None c" for c
    using sharers_finite [OF assms(1), of c] sharers_handle(1) [OF assms(2), of c] card_Suc_Diff1 [of "sharers w c" h]
    by (auto simp: refs_def sharers_set)
  show "existing (set_handle h None w) (Some q) = existing w None"
    using ran_take [of "pw_handles w" h] assms(2) by (simp add: existing_def)
qed (rule set_handle_finite [OF assms(1)], simp_all)

text \<open>Creating a pointer for an object that was just created with \<^verbatim>\<open>new\<close>, or for NULL.\<close>

fun new_object :: "addr option \<Rightarrow> pointers \<Rightarrow> pointers" where
  "new_object None w = w"
| "new_object (Some a) w = w\<lparr>pw_objects := insert a (pw_objects w)\<rparr>"

lemma new_object_fields [simp]:
  "pw_handles (new_object v w) = pw_handles w" "pw_counters (new_object v w) = pw_counters w" "pw_fresh (new_object v w) = pw_fresh w"
  "pw_objects (new_object v w) = pw_objects w \<union> set_option v"
  by (cases v; auto)+

lemma construct_ok:
  assumes "pw_inv w None" and "\<And>a. v = Some a \<Longrightarrow> a \<notin> pw_objects w"
  shows "\<exists>c w'. construct v (new_object v w) = (Ret (v, c), w') \<and> pw_inv w' (Some (v, c)) \<and> pw_handles w' = pw_handles w"
proof -
  let ?c = "pw_fresh w"
  define w' where "w' = snd (construct v (new_object v w))"
  have w': "construct v (new_object v w) = (Ret (v, ?c), w')" "pw_handles w' = pw_handles w" "pw_counters w' = (pw_counters w)(?c \<mapsto> 1)"
    "pw_fresh w' = Suc ?c" "pw_objects w' = pw_objects w \<union> set_option v" by (simp_all add: w'_def construct_def counter_new_def)
  have old: "snd p < ?c" if "p \<in> existing w None" for p using assms(1) that by (auto simp: pw_inv_def)
  have ex: "existing w' (Some (v, ?c)) = insert (v, ?c) (existing w None)" using w'(2) by (auto simp: existing_def)
  have "snd p \<noteq> ?c" if "p \<in> existing w None" for p using old [OF that] by simp
  then have zero: "refs w None ?c = 0" using refs_zero [OF sharers_finite [OF assms(1)]] by blast
  have refs: "refs w' (Some (v, ?c)) c = (if c = ?c then 1 else refs w None c)" for c
    using zero w'(2) by (auto simp: refs_def sharers_def)
  have null: "fst p \<noteq> v \<or> v = None" if "p \<in> existing w None" for p
  proof (cases v)
    case (Some a)
    have "fst p \<noteq> Some a"
    proof
      assume "fst p = Some a"
      then have "a \<in> pw_objects w" using assms(1) that by (cases p) (auto simp: pw_inv_def)
      then show False using assms(2) Some by blast
    qed
    then show ?thesis using Some by simp
  qed simp
  have objs: "pw_objects w = {a. \<exists>c. (Some a, c) \<in> existing w None}" using assms(1) by (simp add: pw_inv_def)
  have "pw_inv w' (Some (v, ?c))"
    unfolding pw_inv_def ex
  proof (intro conjI)
    show "finite (dom (pw_handles w'))" using assms(1) w'(2) by (simp add: pw_inv_def)
    have "counted w None" using assms(1) by (simp add: pw_inv_def)
    then show "counted w' (Some (v, ?c))" unfolding counted_def w'(3) refs by simp
    show "\<forall>p \<in> insert (v, ?c) (existing w None). snd p < pw_fresh w'"
      unfolding w'(4) using less_SucI [OF old] by (metis insert_iff lessI snd_conv)
    show "matched (insert (v, ?c) (existing w None))"
    proof (rule matched_insert)
      show "matched (existing w None)" using assms(1) by (simp add: pw_inv_def)
      show "snd q \<noteq> snd (v, ?c)" if "q \<in> existing w None" for q using old [OF that] by simp
      show "fst q \<noteq> fst (v, ?c) \<or> fst (v, ?c) = None" if "q \<in> existing w None" for q using null [OF that] by simp
    qed
    show "pw_objects w' = {a. \<exists>c. (Some a, c) \<in> insert (v, ?c) (existing w None)}" unfolding w'(5) objs by auto
  qed
  then show ?thesis using w'(1,2) by blast
qed

lemma copy_ok:
  assumes "pw_inv w None" and "p \<in> existing w None"
  shows "\<exists>w'. counter_copy (snd p) w = (Ret (), w') \<and> pw_inv w' (Some p) \<and> pw_handles w' = pw_handles w"
proof -
  let ?c = "snd p"
  note c = counter_of [OF assms]
  let ?w = "w\<lparr>pw_counters := (pw_counters w)(?c \<mapsto> int (refs w None ?c) + 1)\<rparr>"
  have step: "counter_copy ?c w = (Ret (), ?w)" using c by (simp add: counter_copy_def)
  have ex: "existing ?w (Some p) = existing w None" using assms(2) by (simp add: existing_def insert_absorb)
  have refs: "refs ?w (Some p) c = (if c = ?c then refs w None c + 1 else refs w None c)" for c by (auto simp: refs_def sharers_def)
  have cnt: "pw_counters w d = (if refs w None d = 0 then None else Some (int (refs w None d)))" for d
    using assms(1) by (intro countedD) (simp add: pw_inv_def)
  have "counted ?w (Some p)" unfolding counted_def refs using cnt by simp
  then have "pw_inv ?w (Some p)" using assms(1) unfolding pw_inv_def ex by simp
  then show ?thesis using step by auto
qed

lemma destruct_ok:
  assumes "pw_inv w (Some p)"
  shows "\<exists>w'. destruct p w = (Ret (), w') \<and> pw_inv w' None \<and> pw_handles w' = pw_handles w"
proof -
  let ?c = "snd p"
  have p: "p \<in> existing w (Some p)" by (simp add: existing_def)
  note c = counter_of [OF assms p]
  have refs: "refs w (Some p) d = (if d = ?c then refs w None d + 1 else refs w None d)" for d by (auto simp: refs_def)
  have ex: "existing w (Some p) = insert p (existing w None)" by (auto simp: existing_def)
  have cnt: "pw_counters w d = (if refs w (Some p) d = 0 then None else Some (int (refs w (Some p) d)))" for d
    using assms by (intro countedD) (simp add: pw_inv_def)
  have match: "matched (insert p (existing w None))" using assms by (simp add: pw_inv_def ex)
  have none: "refs w None d = 0 \<longleftrightarrow> (\<forall>q \<in> existing w None. snd q \<noteq> d)" for d
    by (rule refs_zero [OF sharers_finite [OF assms]])
  show ?thesis
  proof (cases "refs w None ?c = 0")
    case True
    then have last: "\<forall>q \<in> existing w None. snd q \<noteq> ?c" by (simp add: none)
    let ?w = "w\<lparr>pw_counters := (pw_counters w)(?c := None)\<rparr>"
    have rel: "counter_release ?c w = (Ret True, ?w)" using c(1) True by (simp add: counter_release_def refs)
    have own: "fst q \<noteq> fst p \<or> fst p = None" if "q \<in> existing w None" for q
      using matchedD(2) [OF match, of p q] that last by (metis insertCI)
    have objs: "pw_objects w = {a. \<exists>c. (Some a, c) \<in> insert p (existing w None)}" using assms unfolding pw_inv_def ex by blast
    let ?w' = "?w\<lparr>pw_objects := pw_objects w - set_option (fst p)\<rparr>"
    have del: "onDeleteFunc (fst p) ?w = (Ret (), ?w')"
      using objs by (cases p; cases "fst p") (auto simp: onDeleteFunc_def)
    have inv: "pw_inv ?w' None"
      unfolding pw_inv_def
    proof (intro conjI)
      have e: "existing ?w' None = existing w None" "\<And>d. refs ?w' None d = refs w None d" by (simp_all add: existing_def refs_def sharers_def)
      show "finite (dom (pw_handles ?w'))" using assms by (simp add: pw_inv_def)
      show "counted ?w' None" unfolding counted_def e using cnt True by (simp add: refs)
      show "\<forall>q \<in> existing ?w' None. snd q < pw_fresh ?w'" unfolding e using assms unfolding pw_inv_def ex by simp
      show "matched (existing ?w' None)" unfolding e using match by (rule matched_subset) auto
      show "pw_objects ?w' = {a. \<exists>c. (Some a, c) \<in> existing ?w' None}" unfolding e using objs own by (cases p) (fastforce)
    qed
    show ?thesis using rel del inv by (simp add: destruct_def)
  next
    case False
    let ?w = "w\<lparr>pw_counters := (pw_counters w)(?c \<mapsto> int (refs w (Some p) ?c) - 1)\<rparr>"
    have rel: "counter_release ?c w = (Ret False, ?w)" using c(1) False by (simp add: counter_release_def refs)
    have "\<not> (\<forall>q \<in> existing w None. snd q \<noteq> ?c)" using False by (simp add: none)
    then obtain q where q: "q \<in> existing w None" "snd q = ?c" by auto
    then have "fst q = fst p" using matchedD(1) [OF match, of q p] by auto
    then have same: "insert p (existing w None) = existing w None" using q by (metis insert_absorb prod_eqI)
    have e: "existing ?w None = existing w (Some p)" "\<And>d. refs ?w None d = refs w None d"
      using ex same by (simp_all add: existing_def refs_def sharers_def)
    have "counted ?w None" unfolding counted_def e using cnt False by (simp add: refs)
    then have "pw_inv ?w None" using assms unfolding pw_inv_def e by simp
    then show ?thesis using rel by (simp add: destruct_def)
  qed
qed

text \<open>The operations, each with what it makes the pointers point to.\<close>

lemma swap_with_ok:
  assumes "pw_inv w (Some p)" and "pw_handles w h = Some q"
  shows "\<exists>w'. swap_with h p w = (Ret (), w') \<and> pw_inv w' None \<and> pw_handles w' = (pw_handles w)(h \<mapsto> p)"
  using destruct_ok [OF exchange_ok [OF assms]] assms(2) by (auto simp: swap_with_def)

lemma ptr_new_ok:
  assumes "pw_inv w None" and "\<And>a. v = Some a \<Longrightarrow> a \<notin> pw_objects w" and "pw_handles w h = None"
  shows "\<exists>c w'. ptr_new h v (new_object v w) = (Ret (), w') \<and> pw_inv w' None \<and> pw_handles w' = (pw_handles w)(h \<mapsto> (v, c))"
proof -
  obtain c w' where c: "construct v (new_object v w) = (Ret (v, c), w')" "pw_inv w' (Some (v, c))" "pw_handles w' = pw_handles w"
    using construct_ok [OF assms(1,2)] by blast
  then have "pw_inv (set_handle h (Some (v, c)) w') None" using assms(3) by (intro store_ok) simp_all
  then show ?thesis using c by (auto simp: ptr_new_def)
qed

lemma ptr_reset_ok:
  assumes "pw_inv w None" and "\<And>a. v = Some a \<Longrightarrow> a \<notin> pw_objects w" and "pw_handles w h = Some q"
  shows "\<exists>c w'. ptr_reset h v (new_object v w) = (Ret (), w') \<and> pw_inv w' None \<and> pw_handles w' = (pw_handles w)(h \<mapsto> (v, c))"
proof -
  obtain c w' where c: "construct v (new_object v w) = (Ret (v, c), w')" "pw_inv w' (Some (v, c))" "pw_handles w' = pw_handles w"
    using construct_ok [OF assms(1,2)] by blast
  then show ?thesis using swap_with_ok [OF c(2), of h q] assms(3) by (auto simp: ptr_reset_def)
qed

lemma handle_exists: "pw_handles w h = Some p \<Longrightarrow> p \<in> existing w x"
  by (auto simp: existing_def ran_def)

lemma ptr_copy_ok:
  assumes "pw_inv w None" and "pw_handles w h = None" and "pw_handles w k = Some p"
  shows "\<exists>w'. ptr_copy h k w = (Ret (), w') \<and> pw_inv w' None \<and> pw_handles w' = (pw_handles w)(h \<mapsto> p)"
proof -
  obtain w' where w': "counter_copy (snd p) w = (Ret (), w')" "pw_inv w' (Some p)" "pw_handles w' = pw_handles w"
    using copy_ok [OF assms(1) handle_exists [OF assms(3)]] by blast
  then have "pw_inv (set_handle h (Some p) w') None" using assms(2) by (intro store_ok) simp_all
  then show ?thesis using w' assms(3) by (auto simp: ptr_copy_def construct_copy_def)
qed

lemma ptr_cast_ok:
  assumes "pw_inv w None" and "pw_handles w k = Some p"
  shows "castable \<and> fst p \<noteq> None \<Longrightarrow> ptr_cast castable h k w = ptr_copy h k w"
    and "\<not> (castable \<and> fst p \<noteq> None) \<Longrightarrow> ptr_cast castable h k w = (Throw class_cast, w)"
proof -
  note c = counter_of [OF assms(1) handle_exists [OF assms(2)]]
  show "castable \<and> fst p \<noteq> None \<Longrightarrow> ptr_cast castable h k w = ptr_copy h k w"
    using assms(2) c by (auto simp: ptr_cast_def ptr_copy_def construct_cast_def construct_copy_def counter_copy_def)
  show "\<not> (castable \<and> fst p \<noteq> None) \<Longrightarrow> ptr_cast castable h k w = (Throw class_cast, w)"
    using assms(2) c by (auto simp: ptr_cast_def construct_cast_def counter_copy_def counter_release_def fun_upd_idem)
qed

lemma ptr_assign_ok:
  assumes "pw_inv w None" and "pw_handles w h = Some q" and "pw_handles w k = Some p"
  shows "\<exists>w'. ptr_assign h k w = (Ret (), w') \<and> pw_inv w' None \<and> pw_handles w' = (pw_handles w)(h \<mapsto> p)"
proof (cases "h = k")
  case True
  then show ?thesis using assms by (auto simp: ptr_assign_def fun_upd_idem)
next
  case False
  obtain w' where w': "counter_copy (snd p) w = (Ret (), w')" "pw_inv w' (Some p)" "pw_handles w' = pw_handles w"
    using copy_ok [OF assms(1) handle_exists [OF assms(3)]] by blast
  then show ?thesis using swap_with_ok [OF w'(2), of h q] False assms(2,3) by (auto simp: ptr_assign_def construct_copy_def)
qed

lemma ptr_destroy_ok:
  assumes "pw_inv w None" and "pw_handles w h = Some q"
  shows "\<exists>w'. ptr_destroy h w = (Ret (), w') \<and> pw_inv w' None \<and> pw_handles w' = (pw_handles w)(h := None)"
  using destruct_ok [OF take_ok [OF assms]] assms(2) by (auto simp: ptr_destroy_def)

lemma ptr_swap_ok:
  assumes "pw_inv w None" and "pw_handles w h = Some p" and "pw_handles w k = Some q"
  shows "\<exists>w'. ptr_swap h k w = (Ret (), w') \<and> pw_inv w' None \<and> pw_handles w' = (pw_handles w)(h \<mapsto> q, k \<mapsto> p)"
proof (cases "h = k")
  case True
  then have "ptr_swap h k w = (Ret (), w)" using assms by (simp add: ptr_swap_def set_handle_def Let_def fun_upd_idem)
  then show ?thesis using assms True by (auto simp: fun_upd_idem)
next
  case False
  have "pw_inv (set_handle k (Some p) (set_handle h None w)) (Some q)" using False assms(3) by (intro exchange_ok take_ok assms(1,2)) simp
  then have "pw_inv (set_handle h (Some q) (set_handle k (Some p) (set_handle h None w))) None" using False by (intro store_ok) simp_all
  moreover have "set_handle h (Some q) (set_handle k (Some p) (set_handle h None w)) = set_handle k (Some p) (set_handle h (Some q) w)"
    using False by (simp add: set_handle_def fun_upd_twist)
  ultimately show ?thesis using assms by (auto simp: ptr_swap_def Let_def)
qed

section \<open>Call sequences\<close>

text \<open>
  The calls of a program.  \<open>Construct\<close> and \<open>Reset\<close> get an object that was just created with \<^verbatim>\<open>new\<close>, or NULL; \<^verbatim>\<open>release\<close>, which gives up the
  ownership, is treated below.
\<close>

datatype ptr_call =
    Construct nat "addr option" | Copy_Construct nat nat | Dynamic_Cast bool nat nat | Destruct nat
  | Reset_Pointer nat "addr option" | Swap_Pointers nat nat | Assign_Pointer nat nat
  | Get_Pointer nat | Dereference string nat | Is_Null nat | Is_Equal nat nat

datatype ptr_answer = No_Answer | Address "addr option" | Truth bool

fun silent :: "unit outcome \<times> pointers \<Rightarrow> ptr_answer outcome \<times> pointers" where
  "silent r = and_then r (\<lambda>_ w. (Ret No_Answer, w))"

fun call_pointer :: "ptr_call \<Rightarrow> pointers \<Rightarrow> ptr_answer outcome \<times> pointers" where
  "call_pointer (Construct h v) w = silent (ptr_new h v (new_object v w))"
| "call_pointer (Copy_Construct h k) w = silent (ptr_copy h k w)"
| "call_pointer (Dynamic_Cast castable h k) w = silent (ptr_cast castable h k w)"
| "call_pointer (Destruct h) w = silent (ptr_destroy h w)"
| "call_pointer (Reset_Pointer h v) w = silent (ptr_reset h v (new_object v w))"
| "call_pointer (Swap_Pointers h k) w = silent (ptr_swap h k w)"
| "call_pointer (Assign_Pointer h k) w = silent (ptr_assign h k w)"
| "call_pointer (Get_Pointer h) w = (Ret (Address (ptr_get h w)), w)"
| "call_pointer (Dereference operator h) w = and_then (ptr_deref operator h w, w) (\<lambda>a w. (Ret (Address (Some a)), w))"
| "call_pointer (Is_Null h) w = (Ret (Truth (ptr_not h w)), w)"
| "call_pointer (Is_Equal h k) w = (Ret (Truth (ptr_equal h k w)), w)"

fun call_pointers :: "ptr_call list \<Rightarrow> pointers \<Rightarrow> ptr_answer outcome list \<times> pointers" where
  "call_pointers [] w = ([], w)"
| "call_pointers (x # xs) w = (case call_pointer x w of (r, w) \<Rightarrow> case call_pointers xs w of (rs, w) \<Rightarrow> (r # rs, w))"

text \<open>
  What the calls promise: each pointer that exists has an address or NULL, and nothing is shared.  A program does not construct a pointer
  twice, uses only pointers that exist and passes an object once; \<open>None\<close> otherwise.
\<close>

type_synonym targets = "nat \<rightharpoonup> addr option"

definition unowned :: "addr option \<Rightarrow> targets \<Rightarrow> bool" where
  "unowned v m \<longleftrightarrow> v = None \<or> v \<notin> ran m"

fun spec_call :: "ptr_call \<Rightarrow> targets \<Rightarrow> (ptr_answer outcome \<times> targets) option" where
  "spec_call (Construct h v) m = (if m h = None \<and> unowned v m then Some (Ret No_Answer, m(h \<mapsto> v)) else None)"
| "spec_call (Copy_Construct h k) m =
     (case (m h, m k) of (None, Some v) \<Rightarrow> Some (Ret No_Answer, m(h \<mapsto> v)) | _ \<Rightarrow> None)"
| "spec_call (Dynamic_Cast castable h k) m =
     (case (m h, m k) of
        (None, Some v) \<Rightarrow> Some (if castable \<and> v \<noteq> None then (Ret No_Answer, m(h \<mapsto> v)) else (Throw class_cast, m))
      | _ \<Rightarrow> None)"
| "spec_call (Destruct h) m = (case m h of Some v \<Rightarrow> Some (Ret No_Answer, m(h := None)) | None \<Rightarrow> None)"
| "spec_call (Reset_Pointer h v) m = (if m h \<noteq> None \<and> unowned v m then Some (Ret No_Answer, m(h \<mapsto> v)) else None)"
| "spec_call (Swap_Pointers h k) m =
     (case (m h, m k) of (Some u, Some v) \<Rightarrow> Some (Ret No_Answer, m(h \<mapsto> v, k \<mapsto> u)) | _ \<Rightarrow> None)"
| "spec_call (Assign_Pointer h k) m =
     (case (m h, m k) of (Some u, Some v) \<Rightarrow> Some (Ret No_Answer, m(h \<mapsto> v)) | _ \<Rightarrow> None)"
| "spec_call (Get_Pointer h) m = map_option (\<lambda>v. (Ret (Address v), m)) (m h)"
| "spec_call (Dereference operator h) m =
     map_option (\<lambda>v. (if v = None then Throw (NullPointerException (''Pointer operator'' @ operator @ '' - Pointee is NULL.'')) else Ret (Address v), m)) (m h)"
| "spec_call (Is_Null h) m = map_option (\<lambda>v. (Ret (Truth (v = None)), m)) (m h)"
| "spec_call (Is_Equal h k) m =
     (case (m h, m k) of (Some u, Some v) \<Rightarrow> Some (Ret (Truth (u = v)), m) | _ \<Rightarrow> None)"

fun spec_calls :: "ptr_call list \<Rightarrow> targets \<Rightarrow> (ptr_answer outcome list \<times> targets) option" where
  "spec_calls [] m = Some ([], m)"
| "spec_calls (x # xs) m =
     Option.bind (spec_call x m) (\<lambda>(r, m). map_option (\<lambda>(rs, m). (r # rs, m)) (spec_calls xs m))"

definition targets_of :: "pointers \<Rightarrow> targets" where
  "targets_of w h = map_option fst (pw_handles w h)"

lemma targets_update: "pw_handles w' = (pw_handles w)(h := p) \<Longrightarrow> targets_of w' = (targets_of w)(h := map_option fst p)"
  by (auto simp: targets_of_def)

lemma targets_ran: "ran (targets_of w) = fst ` existing w None"
  by (force simp: targets_of_def existing_def ran_def image_def)

lemma targets_objects: "pw_inv w None \<Longrightarrow> pw_objects w = {a. Some a \<in> ran (targets_of w)}"
  unfolding targets_ran pw_inv_def by force

lemma unowned_fresh:
  assumes "pw_inv w None" and "unowned v (targets_of w)" and "v = Some a"
  shows "a \<notin> pw_objects w"
  using assms unfolding targets_objects [OF assms(1)] by (auto simp: unowned_def)

lemma targets_simps:
  "targets_of w h = None \<longleftrightarrow> pw_handles w h = None" "targets_of w h = Some v \<longleftrightarrow> (\<exists>c. pw_handles w h = Some (v, c))"
  by (auto simp: targets_of_def)

lemma silent_refines:
  assumes "\<exists>w'. r = (Ret (), w') \<and> pw_inv w' None \<and> pw_handles w' = (pw_handles w)(h := p)"
  shows "\<exists>w'. silent r = (Ret No_Answer, w') \<and> pw_inv w' None \<and> targets_of w' = (targets_of w)(h := map_option fst p)"
proof -
  obtain w' where w': "r = (Ret (), w')" "pw_inv w' None" "pw_handles w' = (pw_handles w)(h := p)" using assms by blast
  then show ?thesis using targets_update [OF w'(3)] by simp
qed

lemma call_refines:
  assumes "pw_inv w None" and "spec_call x (targets_of w) = Some (r, m)"
  shows "\<exists>w'. call_pointer x w = (r, w') \<and> pw_inv w' None \<and> targets_of w' = m"
proof (cases x)
  case (Construct h v)
  then have h: "pw_handles w h = None" "unowned v (targets_of w)" "r = Ret No_Answer" "m = (targets_of w)(h \<mapsto> v)"
    using assms(2) by (simp_all add: targets_simps split: if_splits)
  obtain c where "\<exists>w'. ptr_new h v (new_object v w) = (Ret (), w') \<and> pw_inv w' None \<and> pw_handles w' = (pw_handles w)(h \<mapsto> (v, c))"
    using ptr_new_ok [OF assms(1) unowned_fresh [OF assms(1) h(2)] h(1)] by blast
  from silent_refines [OF this] show ?thesis using Construct h by simp
next
  case (Reset_Pointer h v)
  then have h: "unowned v (targets_of w)" "r = Ret No_Answer" "m = (targets_of w)(h \<mapsto> v)" and "targets_of w h \<noteq> None"
    using assms(2) by (simp_all split: if_splits)
  then obtain q where q: "pw_handles w h = Some q" by (auto simp: targets_of_def)
  obtain c where "\<exists>w'. ptr_reset h v (new_object v w) = (Ret (), w') \<and> pw_inv w' None \<and> pw_handles w' = (pw_handles w)(h \<mapsto> (v, c))"
    using ptr_reset_ok [OF assms(1) unowned_fresh [OF assms(1) h(1)] q] by blast
  from silent_refines [OF this] show ?thesis using Reset_Pointer h by simp
next
  case (Copy_Construct h k)
  then obtain v c where h: "pw_handles w h = None" "pw_handles w k = Some (v, c)" "r = Ret No_Answer" "m = (targets_of w)(h \<mapsto> v)"
    using assms(2) by (auto simp: targets_simps split: option.splits)
  from silent_refines [OF ptr_copy_ok [OF assms(1) h(1,2)]] show ?thesis using Copy_Construct h by simp
next
  case (Dynamic_Cast castable h k)
  then obtain v c where h: "pw_handles w h = None" "pw_handles w k = Some (v, c)"
    and rm: "(r, m) = (if castable \<and> v \<noteq> None then (Ret No_Answer, (targets_of w)(h \<mapsto> v)) else (Throw class_cast, targets_of w))"
    using assms(2) by (auto simp: targets_simps split: option.splits)
  show ?thesis
  proof (cases "castable \<and> v \<noteq> None")
    case True
    then have "call_pointer x w = silent (ptr_copy h k w)" using ptr_cast_ok(1) [OF assms(1) h(2)] Dynamic_Cast by simp
    then show ?thesis using silent_refines [OF ptr_copy_ok [OF assms(1) h(1,2)]] True rm by simp
  next
    case False
    then have "call_pointer x w = (Throw class_cast, w)" using ptr_cast_ok(2) [OF assms(1) h(2)] Dynamic_Cast by simp
    then show ?thesis using False rm assms(1) by (auto split: if_splits)
  qed
next
  case (Destruct h)
  then obtain v c where h: "pw_handles w h = Some (v, c)" "r = Ret No_Answer" "m = (targets_of w)(h := None)"
    using assms(2) by (auto simp: targets_simps split: option.splits)
  from silent_refines [OF ptr_destroy_ok [OF assms(1) h(1)]] show ?thesis using Destruct h by simp
next
  case (Swap_Pointers h k)
  then obtain u b v c where h: "pw_handles w h = Some (u, b)" "pw_handles w k = Some (v, c)" "r = Ret No_Answer" "m = (targets_of w)(h \<mapsto> v, k \<mapsto> u)"
    using assms(2) by (auto simp: targets_simps split: option.splits)
  obtain w' where w': "ptr_swap h k w = (Ret (), w')" "pw_inv w' None" "pw_handles w' = (pw_handles w)(h \<mapsto> (v, c), k \<mapsto> (u, b))"
    using ptr_swap_ok [OF assms(1) h(1,2)] by blast
  then have "targets_of w' = m" using h(4) by (simp add: targets_of_def fun_eq_iff)
  then show ?thesis using Swap_Pointers w' h by simp
next
  case (Assign_Pointer h k)
  then obtain q v c where h: "pw_handles w h = Some q" "pw_handles w k = Some (v, c)" "r = Ret No_Answer" "m = (targets_of w)(h \<mapsto> v)"
    using assms(2) by (auto simp: targets_simps split: option.splits)
  from silent_refines [OF ptr_assign_ok [OF assms(1) h(1,2)]] show ?thesis using Assign_Pointer h by simp
next
  case (Get_Pointer h)
  then show ?thesis using assms by (auto simp: ptr_get_def targets_of_def)
next
  case (Dereference operator h)
  then show ?thesis using assms by (auto simp: ptr_deref_def ptr_get_def targets_of_def)
next
  case (Is_Null h)
  then show ?thesis using assms by (auto simp: ptr_not_def ptr_get_def targets_of_def)
next
  case (Is_Equal h k)
  then show ?thesis using assms by (auto simp: ptr_equal_def ptr_get_def targets_of_def split: option.splits)
qed

lemma calls_refine:
  "pw_inv w None \<Longrightarrow> spec_calls xs (targets_of w) = Some (rs, m) \<Longrightarrow>
   \<exists>w'. call_pointers xs w = (rs, w') \<and> pw_inv w' None \<and> targets_of w' = m"
proof (induction xs arbitrary: w rs)
  case (Cons x xs)
  then obtain r m1 rs1 where x: "spec_call x (targets_of w) = Some (r, m1)" "spec_calls xs m1 = Some (rs1, m)" "rs = r # rs1"
    by (auto simp: bind_eq_Some_conv)
  then obtain w1 where w1: "call_pointer x w = (r, w1)" "pw_inv w1 None" "targets_of w1 = m1" using call_refines [OF Cons.prems(1)] by blast
  then show ?case using Cons.IH [of w1 rs1] x by auto
qed simp

text \<open>
  C40: After any calls on Pointer objects (construction, copies, casts, assignments, swaps, resets, destruction) every answer and exception is
  the one of independent pointers; the objects that are alive are exactly those that some Pointer points to, so none is deleted
  too early, twice or never, and each counter is the number of pointers that share it.
\<close>

theorem ptr_object_lifetime:
  assumes "spec_calls xs Map.empty = Some (rs, m)"
  shows "\<exists>w. call_pointers xs pw_empty = (rs, w) \<and> targets_of w = m \<and> pw_objects w = {a. Some a \<in> ran m}
     \<and> (\<forall>c. pw_counters w c = (let n = card {h. \<exists>v. pw_handles w h = Some (v, c)} in if n = 0 then None else Some (int n)))"
proof -
  have "targets_of pw_empty = Map.empty" by (simp add: targets_of_def pw_empty_def fun_eq_iff)
  then obtain w where w: "call_pointers xs pw_empty = (rs, w)" "pw_inv w None" "targets_of w = m"
    using calls_refine [OF pw_inv_empty, of xs rs m] assms by auto
  have "counted w None" using w(2) by (simp add: pw_inv_def)
  then have "\<forall>c. pw_counters w c = (let n = card {h. \<exists>v. pw_handles w h = Some (v, c)} in if n = 0 then None else Some (int n))"
    by (simp add: counted_def refs_def sharers_def Let_def)
  then show ?thesis using w targets_objects [OF w(2)] by blast
qed

theorem ptr_object_lifetime_witness:
  "\<exists>w. call_pointers [Construct 0 (Some 7), Copy_Construct 1 0, Construct 2 None, Destruct 0, Dereference ''->'' 1, Dereference ''->'' 2,
         Assign_Pointer 1 2] pw_empty
       = ([Ret No_Answer, Ret No_Answer, Ret No_Answer, Ret No_Answer, Ret (Address (Some 7)),
           Throw (NullPointerException ''Pointer operator-> - Pointee is NULL.''), Ret No_Answer], w) \<and> pw_objects w = {}"
proof -
  have "spec_calls [Construct 0 (Some 7), Copy_Construct 1 0, Construct 2 None, Destruct 0, Dereference ''->'' 1, Dereference ''->'' 2,
         Assign_Pointer 1 2] Map.empty
       = Some ([Ret No_Answer, Ret No_Answer, Ret No_Answer, Ret No_Answer, Ret (Address (Some 7)),
           Throw (NullPointerException ''Pointer operator-> - Pointee is NULL.''), Ret No_Answer], [1 \<mapsto> None, 2 \<mapsto> None])"
    by (simp add: unowned_def fun_eq_iff)
  from ptr_object_lifetime [OF this] show ?thesis by (auto simp: ran_def)
qed

text \<open>
  \<^verbatim>\<open>release\<close> takes the object out of one pointer only.  When others share it, they still delete it, or the object is never deleted, by the
  order in which they are destroyed.
\<close>

lemma ptr_release_shared:
  "\<exists>w. call_pointers [Construct 0 (Some 7), Copy_Construct 1 0] pw_empty = ([Ret No_Answer, Ret No_Answer], w)
     \<and> fst (ptr_release 0 w) = Some 7
     \<and> pw_objects (snd (call_pointers [Destruct 0, Destruct 1] (snd (ptr_release 0 w)))) = {}
     \<and> pw_objects (snd (call_pointers [Destruct 1, Destruct 0] (snd (ptr_release 0 w)))) = {7}"
  by (simp add: ptr_new_def ptr_copy_def construct_def construct_copy_def counter_new_def counter_copy_def counter_release_def ptr_release_def
      ptr_destroy_def destruct_def onDeleteFunc_def pw_empty_def set_handle_def)

end
