(* ===== verification/Spec2Isabelle.thy ===== *)
theory Spec2Isabelle
  imports Example Linked_Blocking_Queue Linked_List Array_List Priority_Queue Stl_Map Hash_Set Copy_On_Write_Set Concurrent_Stl_Map
    Stl_Set Stl_Queue Stl_List Synchronous_Queue Future_Task Shared_Pointer
begin

text \<open>
  A verification of the ActiveMQ producer and consumer wrapper and of the container library it is built on.

  \<^bold>\<open>The program.\<close>  An application sends texts through a \<^verbatim>\<open>CDSAMQProducerPoolMgr\<close>, which connects to the broker
  on the first message, lends one of a fixed number of producers to each call of \<^verbatim>\<open>sendmessage\<close>, and takes
  sessions from a pool of the library.  It receives through a \<^verbatim>\<open>CDSAMQConsumerPool\<close>, which runs consumers in a
  \<^verbatim>\<open>ThreadPoolExecutor\<close>; a consumer hands each text to the application's task and acknowledges or recovers
  according to the answer, until the shared stop flag is down.  The decaf containers under include/ are templates
  whose bodies are in the headers: the executor queues its tasks in a \<^verbatim>\<open>LinkedBlockingQueue\<close>, and the lists are the ones
  the library's interfaces pass around.

  \<^bold>\<open>The theories.\<close>
  \<^item> \<open>AMQ_Prelude\<close>: machine types, exceptions, the outcome of a call (returned, threw, undefined behaviour), shared
    lemmas, and the locale \<open>step_system\<close> for invariants of step relations.
  \<^item> \<open>CMS_Interface\<close>: the calls to code that is not in the repository, as events of a trace; the answer of each
    is a function of the trace so far, kept in the record \<open>env\<close>.
  \<^item> \<open>Producer\<close> (DSAMQProducer.h, .cpp), \<open>Producer_Pool\<close> (DSAMQProducerPool.h), \<open>Producer_Pool_Mgr\<close>
    (DSAMQProducerPoolMgr.h, .cpp): state as records, one definition per member function.  \<open>Producer_Pool\<close> states what the
    manager relies on as the locale \<open>object_pool\<close> and interprets it on the code's operations.
  \<^item> \<open>Producer_Threads\<close>: \<^verbatim>\<open>sendmessage\<close> cut into atomic steps and run by any number of threads.
  \<^item> \<open>Stopper\<close> (DSRTSingleton.h, DSAMQStopper.h): the singleton and the stop flag, sequential and interleaved.
  \<^item> \<open>Consumer\<close> (DSAMQTask.h, DSAMQConsumer.h) and \<open>Consumer_Pool\<close> (DSAMQConsumerPool.h): the consumer loop with every
    catch clause, and starting, replacing and stopping the consumers.
  \<^item> \<open>Example\<close> (example.cpp): the command line and both modes of the sample program.
  \<^item> \<open>Collections\<close> (AbstractCollection.h, AbstractQueue.h): the inherited operations, as functions of a record of the
    virtual functions.  The locales \<open>readable\<close>, \<open>iterable\<close> (which extends it) and \<open>fifo_queue\<close> state what these rely on.
  \<^item> \<open>Linked_Blocking_Queue\<close> (LinkedBlockingQueue.h), \<open>Linked_List\<close> (LinkedList.h, AbstractSequentialList.h),
    \<open>Abstract_List\<close> (AbstractList.h) and \<open>Array_List\<close> (ArrayList.h, the template \<^verbatim>\<open>arraycopy\<close> of System.h): nodes on
    a heap of addresses, arrays as lists with a check of every index.  Each container interprets the locales above.
  \<^item> \<open>Priority_Queue\<close> (PriorityQueue.h, comparators/Less.h): the binary heap.  The laws of Comparator.h are the locale
    \<open>comparator\<close>, what a client of the queue relies on is the locale \<open>min_queue\<close>.
  \<^item> \<open>Abstract_Set\<close> (AbstractSet.h), \<open>Stl_Map\<close> (StlMap.h): the map, its iterators and the views of its entries, keys and
    values, which interpret \<open>iterable\<close> and its extension \<open>value_set\<close>.
  \<^item> \<open>Hash_Map\<close> and \<open>Hash_Map_Views\<close> (HashMap.h, HashCode.h): the table of chains of entries on a heap, its rehashing, the iterators
    and views, and call sequences.
  \<^item> \<open>Linked_Hash_Map\<close> and \<open>Lru_Cache\<close> (LinkedHashMap.h, LRUCache.h): the doubly linked list through the entries of
    a hash map, in insertion or access order, and the cache that removes the eldest entry.
  \<^item> \<open>Hash_Set\<close> (HashSet.h, LinkedHashSet.h): the set over any map with the contract \<open>backing_map\<close>, which both maps interpret;
    \<open>ordered_backing\<close> extends it by the order of the elements.
  \<^item> \<open>Copy_On_Write\<close> and \<open>Copy_On_Write_Set\<close> (CopyOnWriteArrayList.h, CopyOnWriteArraySet.h, ArrayPointer.h): shared arrays with
    reference counts, the write lock, iterators over snapshots.
  \<^item> \<open>Locked_Programs\<close>: operations as programs of steps under a recursive mutex, and schedules of threads;
    \<open>Concurrent_Stl_Map\<close> (ConcurrentStlMap.h): every operation of the concurrent map as such a program.
  \<^item> \<open>Std_Nodes\<close>: the nodes of \<^verbatim>\<open>std::list\<close> and \<^verbatim>\<open>std::set\<close> with their addresses and the iterator over them; \<open>Stl_Set\<close>,
    \<open>Stl_Queue\<close>, \<open>Stl_List\<close> (StlSet.h, StlQueue.h, StlList.h): the containers made of them, which interpret \<open>value_set\<close> and \<open>iterable\<close>.
  \<^item> \<open>Synchronous_Queue\<close> (SynchronousQueue.h): the operations as they stand, a queue of capacity 0 for the locale \<open>fifo_queue\<close>.
  \<^item> \<open>Future_Task\<close> (FutureTask.h): the shared members of a task as a record and each operation as steps, one per access, of any
    number of threads; its two invariants interpret \<open>step_system\<close>.
  \<^item> \<open>Shared_Pointer\<close> (Pointer.h, AtomicRefCounter.h): the pointers of a program, the counters they share and the objects that are
    alive; the specification is a function from pointers to addresses with nothing shared.

  \<^bold>\<open>What the theorems show.\<close>
  \<^item> Sending: a call that returns true has had exactly one message accepted, and the session, the message and the
    producer are given back; with concurrent senders no producer is used twice at a time, every schedule ends, and
    the accepted messages are as many as the calls that returned true.  The failures are exact too: what happens when connecting
    fails, when giving the session back throws, and in the race of two first calls.
  \<^item> Receiving: messages are received only while the flag is up, processed once, acknowledged only after the task asked
    for it; all message objects are deleted, \<^verbatim>\<open>run\<close> ends after the flag is down, and the pool keeps its strength and distinct
    ids.  A stop is seen by every later read if the flag exists before the threads start, and can be lost otherwise.
  \<^item> Containers: the blocking queue is first in, first out and blocks exactly when full or empty; the
    lists agree with plain sequences and the map with a partial function after any calls, every node is deleted at most
    once, and the priority queue sorts what goes through it.  The calls that break a promise are stated as they
    behave: timed calls that keep the lock, \<^verbatim>\<open>clear\<close> without a signal, a lost race of \<^verbatim>\<open>poll\<close>, insertion into an array list
    with room, \<^verbatim>\<open>remove\<close> of a priority queue and of its iterator, \<^verbatim>\<open>clear\<close> and \<^verbatim>\<open>putAll\<close> of the map.
  \<^item> Hash tables: for any hash function and any calls the hash map agrees with a partial function, the linked map also with
    the order of insertion or access, the sets with sets, and the cache holds the entries used last up to its
    limit.  Rehashing that iterators do not notice, views that leave a freed entry in the linked list, \<^verbatim>\<open>putAll\<close> of the cache
    and the result of \<^verbatim>\<open>add\<close> are stated as they behave.
  \<^item> Wrapped standard containers: for any calls, answers and exceptions are those of a plain sequence, of a queue with its
    shared value for the empty case, and of a set in ascending order; \<^verbatim>\<open>previous\<close> and \<^verbatim>\<open>set\<close> of the list iterator,
    \<^verbatim>\<open>remove\<close> of a new set iterator and the missing hand-off of the synchronous queue are stated as they behave.
  \<^item> Concurrent containers: the copy-on-write list agrees with a sequence and an iterator returns the contents of the moment it
    was made; the operations of the concurrent map are atomic in every schedule, one of several \<^verbatim>\<open>putIfAbsent\<close> succeeds, and
    every schedule can be continued until all calls have returned.
  \<^item> Future tasks: in every interleaving of \<^verbatim>\<open>run\<close>, \<^verbatim>\<open>cancel\<close> and \<^verbatim>\<open>get\<close> the task is called at most once, \<^verbatim>\<open>get\<close> returns only what
    that call returned or threw, \<^verbatim>\<open>done\<close> is called once, and no thread waits in \<^verbatim>\<open>get\<close> for ever after the task has finished.  A direct call of
    \<^verbatim>\<open>set\<close>, which lets \<^verbatim>\<open>get\<close> return a value that is not stored yet, is stated as it behaves.
  \<^item> Shared pointers: after any calls an object is alive exactly as long as some \<^verbatim>\<open>Pointer\<close> points to it, and a counter is the number
    of pointers that share it; \<^verbatim>\<open>release\<close> of a shared pointer is stated as it behaves.

  \<^bold>\<open>Bounds and fuel.\<close>  The consumer loop and the loops over iterators may not end for every environment, so they
  have fuel and return \<open>None\<close> without enough of it; \<open>consumer_run_terminates\<close> shows which fuel is enough, and the
  effects of the loops over containers hold for any fuel above the number of elements.  A walk along a chain of nodes takes
  the number of allocated nodes as its bound, which no chain that ends exceeds.  The call sequences on hash tables make at
  most \<open>2 ^ 24\<close> insertions, which keeps the table below the largest power of two of an \<^verbatim>\<open>int\<close>.  The sizes of the producer
  pool are 32-bit words; the sizes of the containers are integers, which holds below the limit of \<^verbatim>\<open>int\<close>.

  \<^bold>\<open>Not modelled.\<close>  The bodies of the ActiveMQ-CPP, decaf, APR and uuid libraries are not in the repository; calls to
  them are events.  Interleavings are sequentially consistent; a data race is modelled as reads and writes
  in some order.  The operations of the containers run one at a time, except that \<open>poll_locked\<close> starts after the test that
  \<^verbatim>\<open>poll\<close> makes without the lock.  Texts of \<^verbatim>\<open>toString\<close> are left out.  The constants of \<^verbatim>\<open>PriorityQueueBase\<close> and the body of
  \<^verbatim>\<open>Math::ceil\<close> are in the compiled library and are parameters of the priority queue.  Of the containers, the members that cache the views of a map,
  \<^verbatim>\<open>operator=\<close> of the copy-on-write list and the functions \<^verbatim>\<open>lock\<close>, \<^verbatim>\<open>wait\<close> and \<^verbatim>\<open>notify\<close> that only call
  the compiled mutex, AbstractMap.h among them, are left out.  Of the future tasks, copies that share the synchronizer, interruption of a waiting
  \<^verbatim>\<open>get\<close> and the deletion of owned tasks are left out; a thread that waits goes on when the condition it waits for holds.
\<close>

end
